(* ===== verification/ZendPrelude.thy ===== *)
theory ZendPrelude
  imports Main "HOL-Library.Word" "HOL-Library.Multiset"
begin

text \<open>
  What the component theories share: the error values and the sequencing of
  fallible steps, checked reads and writes of C arrays, and the generic facts
  on lists, words and comparison functions that the component proofs use.
\<close>

subsection \<open>Errors as values\<close>

text \<open>
  \<open>FatalOverflow\<close> is the process-ending \<open>E_ERROR\<close> "Possible integer overflow in
  memory allocation". The other values are not results of the C code: they mark
  undefined behaviour of it (an access outside an array, a read of memory that
  was never written, a failed \<open>ZEND_ASSERT\<close>, a loop that does not end, an access
  through a null or freed pointer, an overflow of a signed integer), so that
  the absence of each of them is a theorem.
\<close>

datatype error =
    FatalOverflow
  | OutOfBounds
  | Uninitialized
  | AssertFailed
  | NoReturn
  | BadPointer
  | SignedOverflow

definition bindE :: "error + 'a \<Rightarrow> ('a \<Rightarrow> error + 'b) \<Rightarrow> error + 'b" where
  "bindE m f = (case m of Inl e \<Rightarrow> Inl e | Inr x \<Rightarrow> f x)"

lemma bindE_Inr [simp]: "bindE (Inr x) f = f x"
  by (simp add: bindE_def)

lemma bindE_Inl [simp]: "bindE (Inl e) f = Inl e"
  by (simp add: bindE_def)

lemma bindE_eq_Inr: "bindE m f = Inr y \<longleftrightarrow> (\<exists>x. m = Inr x \<and> f x = Inr y)"
  by (auto simp: bindE_def split: sum.splits)

definition assertE :: "bool \<Rightarrow> (unit \<Rightarrow> error + 'a) \<Rightarrow> error + 'a" where
  "assertE b f = (if b then f () else Inl AssertFailed)"

lemma assertE_True [simp]: "assertE True f = f ()"
  by (simp add: assertE_def)

lemma assertE_eq_Inr: "assertE b f = Inr y \<longleftrightarrow> b \<and> f () = Inr y"
  by (auto simp: assertE_def)

subsection \<open>Checked access to C arrays\<close>

text \<open>
  An allocated array is a list of cells; a cell is \<open>None\<close> until it is written.
\<close>

definition rd :: "'a option list \<Rightarrow> nat \<Rightarrow> error + 'a" where
  "rd xs i =
     (if i < length xs
      then (case xs ! i of None \<Rightarrow> Inl Uninitialized | Some x \<Rightarrow> Inr x)
      else Inl OutOfBounds)"

definition wr :: "'a option list \<Rightarrow> nat \<Rightarrow> 'a \<Rightarrow> error + 'a option list" where
  "wr xs i x = (if i < length xs then Inr (xs[i := Some x]) else Inl OutOfBounds)"

definition rdi :: "'a list \<Rightarrow> nat \<Rightarrow> error + 'a" where
  "rdi xs i = (if i < length xs then Inr (xs ! i) else Inl OutOfBounds)"

definition wri :: "'a list \<Rightarrow> nat \<Rightarrow> 'a \<Rightarrow> error + 'a list" where
  "wri xs i x = (if i < length xs then Inr (xs[i := x]) else Inl OutOfBounds)"

lemma rd_Some [simp]: "i < length xs \<Longrightarrow> xs ! i = Some x \<Longrightarrow> rd xs i = Inr x"
  by (simp add: rd_def)

lemma rd_eq_Inr: "rd xs i = Inr x \<longleftrightarrow> i < length xs \<and> xs ! i = Some x"
  by (auto simp: rd_def split: option.splits)

lemma wr_ok [simp]: "i < length xs \<Longrightarrow> wr xs i x = Inr (xs[i := Some x])"
  by (simp add: wr_def)

lemma rdi_ok [simp]: "i < length xs \<Longrightarrow> rdi xs i = Inr (xs ! i)"
  by (simp add: rdi_def)

lemma wri_ok [simp]: "i < length xs \<Longrightarrow> wri xs i x = Inr (xs[i := x])"
  by (simp add: wri_def)

subsection \<open>Lists\<close>

text \<open>Exchanging two cells of an array keeps its elements.\<close>

lemma mset_exchange:
  assumes "i < length xs" "j < length xs"
  shows "mset (xs[i := xs ! j, j := xs ! i]) = mset xs"
  using assms by (simp add: mset_swap)

end
