(* ===== verification/ZendSort.thy ===== *)
theory ZendSort
  imports ZendPrelude
begin

text \<open>
  \<open>Zend/zend_sort.c\<close>: the hybrid insertion sort and quicksort behind every
  array sort. A C call works on the \<open>nmemb\<close> elements that start at \<open>base\<close>; the
  model takes that segment as a list, so \<open>start\<close> is index 0, \<open>end\<close> is the length
  and an element pointer is an index. \<open>cmp\<close> and \<open>swp\<close> are the caller's
  functions; \<open>swp\<close> returns the new contents of the two cells it was given.
\<close>

subsection \<open>The comparison and swap callbacks\<close>

type_synonym 'a compare_func = "'a \<Rightarrow> 'a \<Rightarrow> int"
type_synonym 'a swap_func = "'a \<Rightarrow> 'a \<Rightarrow> 'a \<times> 'a"

definition gt :: "'a compare_func \<Rightarrow> 'a list \<Rightarrow> nat \<Rightarrow> nat \<Rightarrow> bool" where
  "gt cmp xs a b \<longleftrightarrow> cmp (xs ! a) (xs ! b) > 0"

definition swp_at :: "'a swap_func \<Rightarrow> 'a list \<Rightarrow> nat \<Rightarrow> nat \<Rightarrow> 'a list" where
  "swp_at swp xs a b = (case swp (xs ! a) (xs ! b) of (x, y) \<Rightarrow> xs[a := x, b := y])"

definition exchange :: "'a swap_func" where
  "exchange x y = (y, x)"

subsection \<open>Sorting networks for two to five elements\<close>

definition zend_sort_2 ::
  "'a compare_func \<Rightarrow> 'a swap_func \<Rightarrow> nat \<Rightarrow> nat \<Rightarrow> 'a list \<Rightarrow> 'a list" where
  "zend_sort_2 cmp swp a b xs = (if gt cmp xs a b then swp_at swp xs a b else xs)"

definition zend_sort_3 ::
  "'a compare_func \<Rightarrow> 'a swap_func \<Rightarrow> nat \<Rightarrow> nat \<Rightarrow> nat \<Rightarrow> 'a list \<Rightarrow> 'a list" where
  "zend_sort_3 cmp swp a b c xs =
     (if \<not> gt cmp xs a b then
        (if \<not> gt cmp xs b c then xs
         else let xs = swp_at swp xs b c
              in if gt cmp xs a b then swp_at swp xs a b else xs)
      else if \<not> gt cmp xs c b then swp_at swp xs a c
      else let xs = swp_at swp xs a b
           in if gt cmp xs b c then swp_at swp xs b c else xs)"

definition zend_sort_4 ::
  "'a compare_func \<Rightarrow> 'a swap_func \<Rightarrow> nat \<Rightarrow> nat \<Rightarrow> nat \<Rightarrow> nat \<Rightarrow> 'a list \<Rightarrow> 'a list" where
  "zend_sort_4 cmp swp a b c d xs =
     (let xs = zend_sort_3 cmp swp a b c xs
      in if gt cmp xs c d then
           let xs = swp_at swp xs c d
           in if gt cmp xs b c then
                let xs = swp_at swp xs b c
                in if gt cmp xs a b then swp_at swp xs a b else xs
              else xs
         else xs)"

definition zend_sort_5 ::
  "'a compare_func \<Rightarrow> 'a swap_func \<Rightarrow> nat \<Rightarrow> nat \<Rightarrow> nat \<Rightarrow> nat \<Rightarrow> nat \<Rightarrow> 'a list \<Rightarrow> 'a list" where
  "zend_sort_5 cmp swp a b c d e xs =
     (let xs = zend_sort_4 cmp swp a b c d xs
      in if gt cmp xs d e then
           let xs = swp_at swp xs d e
           in if gt cmp xs c d then
                let xs = swp_at swp xs c d
                in if gt cmp xs b c then
                     let xs = swp_at swp xs b c
                     in if gt cmp xs a b then swp_at swp xs a b else xs
                   else xs
              else xs
         else xs)"

subsection \<open>Insertion sort\<close>

text \<open>
  \<open>insert_pos\<close> is the backward search of the first six elements, one step at a
  time; \<open>insert_pos2\<close> is the search of the others, which steps back by two;
  \<open>shift_down\<close> moves the element at \<open>k\<close> down to \<open>j\<close> by adjacent swaps.
\<close>

fun insert_pos :: "'a compare_func \<Rightarrow> 'a list \<Rightarrow> nat \<Rightarrow> nat \<Rightarrow> nat" where
  "insert_pos cmp xs i 0 = 0"
| "insert_pos cmp xs i (Suc j) =
     (if \<not> gt cmp xs j i then Suc j else insert_pos cmp xs i j)"

function insert_pos2 :: "'a compare_func \<Rightarrow> 'a list \<Rightarrow> nat \<Rightarrow> nat \<Rightarrow> nat" where
  "insert_pos2 cmp xs i j0 =
     (let j = j0 - 2
      in if \<not> gt cmp xs j i then
           (let j = j + 1 in if \<not> gt cmp xs j i then j + 1 else j)
         else if j = 0 then j
         else if j = 1 then
           (let j = j - 1 in if gt cmp xs i j then j + 1 else j)
         else insert_pos2 cmp xs i j)"
  by pat_completeness auto
termination
  by (relation "measure (\<lambda>(cmp, xs, i, j). j)") auto

declare insert_pos2.simps [simp del]

function shift_down :: "'a swap_func \<Rightarrow> 'a list \<Rightarrow> nat \<Rightarrow> nat \<Rightarrow> 'a list" where
  "shift_down swp xs k j =
     (if k > j then shift_down swp (swp_at swp xs k (k - 1)) (k - 1) j else xs)"
  by pat_completeness auto
termination
  by (relation "measure (\<lambda>(swp, xs, k, j). k)") auto

declare shift_down.simps [simp del]

function insert_head :: "'a compare_func \<Rightarrow> 'a swap_func \<Rightarrow> nat \<Rightarrow> 'a list \<Rightarrow> 'a list" where
  "insert_head cmp swp i xs =
     (if i < 6 then
        (let j = i - 1
         in if \<not> gt cmp xs j i then insert_head cmp swp (i + 1) xs
            else insert_head cmp swp (i + 1)
                   (shift_down swp xs i (insert_pos cmp xs i j)))
      else xs)"
  by pat_completeness auto
termination
  by (relation "measure (\<lambda>(cmp, swp, i, xs). 6 - i)") auto

declare insert_head.simps [simp del]

function insert_tail ::
  "'a compare_func \<Rightarrow> 'a swap_func \<Rightarrow> nat \<Rightarrow> nat \<Rightarrow> 'a list \<Rightarrow> 'a list" where
  "insert_tail cmp swp n i xs =
     (if i < n then
        (let j = i - 1
         in if \<not> gt cmp xs j i then insert_tail cmp swp n (i + 1) xs
            else insert_tail cmp swp n (i + 1)
                   (shift_down swp xs i (insert_pos2 cmp xs i j)))
      else xs)"
  by pat_completeness auto
termination
  by (relation "measure (\<lambda>(cmp, swp, n, i, xs). n - i)") auto

declare insert_tail.simps [simp del]

definition zend_insert_sort ::
  "'a compare_func \<Rightarrow> 'a swap_func \<Rightarrow> 'a list \<Rightarrow> 'a list" where
  "zend_insert_sort cmp swp xs =
     (let nmemb = length xs
      in if nmemb \<le> 1 then xs
         else if nmemb = 2 then zend_sort_2 cmp swp 0 1 xs
         else if nmemb = 3 then zend_sort_3 cmp swp 0 1 2 xs
         else if nmemb = 4 then zend_sort_4 cmp swp 0 1 2 3 xs
         else if nmemb = 5 then zend_sort_5 cmp swp 0 1 2 3 4 xs
         else insert_tail cmp swp nmemb 6 (insert_head cmp swp 1 xs))"

subsection \<open>Quicksort\<close>

text \<open>
  The two inner loops of the partition return whether they left through
  \<open>goto done\<close>, and the index they reached. The code tests \<open>i == j\<close>; the loops are
  entered with \<open>i < j\<close> only (\<open>partition_bounds\<close> below), where the comparison
  with \<open>\<ge>\<close> is the same test.
\<close>

function scan_up :: "'a compare_func \<Rightarrow> 'a list \<Rightarrow> nat \<Rightarrow> nat \<Rightarrow> bool \<times> nat" where
  "scan_up cmp xs i j =
     (if gt cmp xs 1 i then
        (if i + 1 \<ge> j then (True, i + 1) else scan_up cmp xs (i + 1) j)
      else (False, i))"
  by pat_completeness auto
termination
  by (relation "measure (\<lambda>(cmp, xs, i, j). j - i)") auto

declare scan_up.simps [simp del]

function scan_down :: "'a compare_func \<Rightarrow> 'a list \<Rightarrow> nat \<Rightarrow> nat \<Rightarrow> bool \<times> nat" where
  "scan_down cmp xs i j =
     (if gt cmp xs j 1 then
        (if j - 1 \<le> i then (True, j - 1) else scan_down cmp xs i (j - 1))
      else (False, j))"
  by pat_completeness auto
termination
  by (relation "measure (\<lambda>(cmp, xs, i, j). j)") auto

declare scan_down.simps [simp del]

lemma scan_up_bounds:
  "i < j \<Longrightarrow> scan_up cmp xs i j = (d, i') \<Longrightarrow>
     i \<le> i' \<and> i' \<le> j \<and> (d \<longrightarrow> i' = j) \<and> (\<not> d \<longrightarrow> i' < j \<and> \<not> gt cmp xs 1 i')"
proof (induction cmp xs i j arbitrary: d i' rule: scan_up.induct)
  case (1 cmp xs i j)
  then show ?case
    by (fastforce simp: scan_up.simps [of cmp xs i j] split: if_splits)
qed

lemma scan_down_bounds:
  "i < j \<Longrightarrow> scan_down cmp xs i j = (d, j') \<Longrightarrow>
     i \<le> j' \<and> j' \<le> j \<and> (d \<longrightarrow> j' = i) \<and> (\<not> d \<longrightarrow> i < j' \<and> \<not> gt cmp xs j' 1)"
proof (induction cmp xs i j arbitrary: d j' rule: scan_down.induct)
  case (1 cmp xs i j)
  then show ?case
    by (fastforce simp: scan_down.simps [of cmp xs i j] split: if_splits)
qed

lemma partition_decreases:
  assumes "(False, i1) = scan_up cmp xs i j" "(False, j1) = scan_down cmp xs i1 (j - Suc 0)"
    "\<not> j \<le> i" "j - Suc 0 \<noteq> i1"
  shows "j1 - Suc i1 < j - i"
proof -
  have "i \<le> i1" "i1 < j"
    using scan_up_bounds [of i j cmp xs False i1] assms by auto
  moreover have "j1 \<le> j - 1"
    using scan_down_bounds [of i1 "j - 1" cmp xs False j1] assms \<open>i1 < j\<close> by auto
  ultimately show ?thesis
    using assms(1) by simp
qed

function partition_loop ::
  "'a compare_func \<Rightarrow> 'a swap_func \<Rightarrow> nat \<Rightarrow> nat \<Rightarrow> 'a list \<Rightarrow> nat \<times> 'a list" where
  "partition_loop cmp swp i j xs =
     (if j \<le> i then (i, xs)
      else case scan_up cmp xs i j of
        (True, i) \<Rightarrow> (i, xs)
      | (False, i) \<Rightarrow>
          (let j = j - 1
           in if j = i then (i, xs)
              else case scan_down cmp xs i j of
                (True, _) \<Rightarrow> (i, xs)
              | (False, j) \<Rightarrow>
                  (let xs = swp_at swp xs i j; i = i + 1
                   in if i = j then (i, xs) else partition_loop cmp swp i j xs)))"
  by pat_completeness auto
termination
  by (relation "measure (\<lambda>(cmp, swp, i, j, xs). j - i)")
    (auto dest: partition_decreases)

declare partition_loop.simps [simp del]

text \<open>The partition keeps the segment's length and returns an index inside it.\<close>

lemma length_swp_at [simp]: "length (swp_at swp xs a b) = length xs"
  by (simp add: swp_at_def split: prod.split)

lemma partition_loop_step:
  assumes "i < j" "scan_up cmp xs i j = (d1, i1)" "scan_down cmp xs i1 (j - 1) = (d2, j1)"
  shows "partition_loop cmp swp i j xs =
    (if d1 \<or> j - 1 = i1 \<or> d2 then (i1, xs)
     else if i1 + 1 = j1 then (i1 + 1, swp_at swp xs i1 j1)
     else partition_loop cmp swp (i1 + 1) j1 (swp_at swp xs i1 j1))"
  using assms by (subst partition_loop.simps, cases d1; cases d2) (simp_all add: Let_def)

text \<open>
  The rule for the partition loop: an invariant of its rounds gives a
  postcondition of its result.
\<close>

lemma partition_loop_rule:
  assumes "i < j" "I i j xs"
    and leave: "\<And>i j xs i1 d1 d2 j1. i < j \<Longrightarrow> I i j xs \<Longrightarrow> scan_up cmp xs i j = (d1, i1) \<Longrightarrow>
      scan_down cmp xs i1 (j - 1) = (d2, j1) \<Longrightarrow> d1 \<or> j - 1 = i1 \<or> d2 \<Longrightarrow> Q i1 xs"
    and round: "\<And>i j xs i1 j1. i < j \<Longrightarrow> I i j xs \<Longrightarrow> scan_up cmp xs i j = (False, i1) \<Longrightarrow>
      scan_down cmp xs i1 (j - 1) = (False, j1) \<Longrightarrow> j - 1 \<noteq> i1 \<Longrightarrow> i1 < j1 \<Longrightarrow>
      I (i1 + 1) j1 (swp_at swp xs i1 j1)"
    and final: "\<And>i xs. I i i xs \<Longrightarrow> Q i xs"
  shows "case partition_loop cmp swp i j xs of (k, ys) \<Rightarrow> Q k ys"
  using assms(1,2)
proof (induction "j - i" arbitrary: i j xs rule: less_induct)
  case less
  obtain d1 i1 where up: "scan_up cmp xs i j = (d1, i1)" by fastforce
  obtain d2 j1 where down: "scan_down cmp xs i1 (j - 1) = (d2, j1)" by fastforce
  note upb = scan_up_bounds [OF less.prems(1) up]
  note step = partition_loop_step [OF less.prems(1) up down, of swp]
  show ?case
  proof (cases "d1 \<or> j - 1 = i1 \<or> d2")
    case True
    then show ?thesis using leave [OF less.prems up down] by (simp add: step)
  next
    case False
    with upb have lt: "i1 < j - 1" by auto
    from scan_down_bounds [OF lt down] False have j1: "i1 < j1" "j1 \<le> j - 1" by auto
    have I: "I (i1 + 1) j1 (swp_at swp xs i1 j1)"
      using round [OF less.prems, of i1 j1] up down False j1 by simp
    show ?thesis
    proof (cases "i1 + 1 = j1")
      case True
      with False I final show ?thesis by (simp add: step)
    next
      case neq: False
      have "case partition_loop cmp swp (i1 + 1) j1 (swp_at swp xs i1 j1) of (k, ys) \<Rightarrow> Q k ys"
        using I j1 upb neq by (intro less.hyps) auto
      with False neq show ?thesis by (simp add: step)
    qed
  qed
qed

lemma partition_bounds:
  assumes "i < j" "partition_loop cmp swp i j xs = (k, ys)"
  shows "i \<le> k \<and> k \<le> j \<and> length ys = length xs"
proof -
  let ?I = "\<lambda>i' j' zs. i \<le> i' \<and> i' \<le> j' \<and> j' \<le> j \<and> length zs = length xs"
  have "case partition_loop cmp swp i j xs of (k, ys) \<Rightarrow> i \<le> k \<and> k \<le> j \<and> length ys = length xs"
  proof (rule partition_loop_rule [where I = ?I])
    fix i' j' zs i1 d1 d2 j1
    assume "i' < j'" "?I i' j' zs" "scan_up cmp zs i' j' = (d1, i1)"
    with scan_up_bounds [of i' j' cmp zs d1 i1]
    show "i \<le> i1 \<and> i1 \<le> j \<and> length zs = length xs" by auto
  next
    fix i' j' zs i1 j1
    assume *: "i' < j'" "?I i' j' zs" "scan_up cmp zs i' j' = (False, i1)"
      "scan_down cmp zs i1 (j' - 1) = (False, j1)" "j' - 1 \<noteq> i1" "i1 < j1"
    then have "i' \<le> i1" "i1 < j'" using scan_up_bounds [of i' j' cmp zs False i1] by auto
    moreover from * this have "j1 \<le> j' - 1"
      using scan_down_bounds [of i1 "j' - 1" cmp zs False j1] by auto
    ultimately show "?I (i1 + 1) j1 (swp_at swp zs i1 j1)" using * by auto
  qed (use assms(1) in auto)
  with assms(2) show ?thesis by simp
qed

lemma length_sort_2 [simp]: "length (zend_sort_2 cmp swp a b xs) = length xs"
  by (simp add: zend_sort_2_def)

lemma length_sort_3 [simp]: "length (zend_sort_3 cmp swp a b c xs) = length xs"
  by (simp add: zend_sort_3_def Let_def)

lemma length_sort_4 [simp]: "length (zend_sort_4 cmp swp a b c d xs) = length xs"
  by (simp add: zend_sort_4_def Let_def)

lemma length_sort_5 [simp]: "length (zend_sort_5 cmp swp a b c d e xs) = length xs"
  by (simp add: zend_sort_5_def Let_def)

text \<open>
  One round of the \<open>while (1)\<close> loop of \<open>zend_sort\<close>: the pivot is chosen with
  three or five probes, moved to index 1, and the segment is partitioned; the
  result is the index \<open>i\<close> that follows the pivot's final place.
\<close>

definition choose_pivot :: "'a compare_func \<Rightarrow> 'a swap_func \<Rightarrow> 'a list \<Rightarrow> 'a list" where
  "choose_pivot cmp swp xs =
     (let nmemb = length xs; offset = nmemb div 2; last = nmemb - 1;
          xs = (if nmemb div 1024 \<noteq> 0
                then (let delta = offset div 2
                      in zend_sort_5 cmp swp 0 delta offset (offset + delta) last xs)
                else zend_sort_3 cmp swp 0 offset last xs)
      in swp_at swp xs 1 offset)"

definition zend_sort_round :: "'a compare_func \<Rightarrow> 'a swap_func \<Rightarrow> 'a list \<Rightarrow> nat \<times> 'a list" where
  "zend_sort_round cmp swp xs =
     (case partition_loop cmp swp 2 (length xs - 1) (choose_pivot cmp swp xs) of
        (i, xs) \<Rightarrow> (i, swp_at swp xs 1 (i - 1)))"

lemma length_choose_pivot [simp]: "length (choose_pivot cmp swp xs) = length xs"
  by (simp add: choose_pivot_def Let_def)

lemma zend_sort_round_bounds:
  assumes "16 < length xs" "zend_sort_round cmp swp xs = (i, ys)"
  shows "2 \<le> i" "i \<le> length xs - 1" "length ys = length xs"
proof -
  obtain k zs where p: "partition_loop cmp swp 2 (length xs - 1) (choose_pivot cmp swp xs) = (k, zs)"
    by fastforce
  have "2 < length xs - 1" using assms(1) by simp
  from partition_bounds [OF this p] assms(2) p
  show "2 \<le> i" "i \<le> length xs - 1" "length ys = length xs"
    by (auto simp: zend_sort_round_def)
qed

lemma zend_sort_round_decreases:
  "(i, ys) = zend_sort_round cmp swp xs \<Longrightarrow> \<not> length xs \<le> 16 \<Longrightarrow>
     min (length ys) (i - Suc 0) < length xs \<and> length ys - i < length xs"
  using zend_sort_round_bounds [of xs cmp swp i ys] by auto

text \<open>
  The loop handles the larger part by iteration and the smaller one by recursion;
  the two parts are disjoint segments of the array.
\<close>

function zend_sort :: "'a compare_func \<Rightarrow> 'a swap_func \<Rightarrow> 'a list \<Rightarrow> 'a list" where
  "zend_sort cmp swp xs =
     (let nmemb = length xs
      in if nmemb \<le> 16 then zend_insert_sort cmp swp xs
         else case zend_sort_round cmp swp xs of
           (i, ys) \<Rightarrow>
             (if i - 1 < nmemb - i
              then (let l = zend_sort cmp swp (take (i - 1) ys);
                        r = zend_sort cmp swp (drop i ys)
                    in l @ [ys ! (i - 1)] @ r)
              else (let r = zend_sort cmp swp (drop i ys);
                        l = zend_sort cmp swp (take (i - 1) ys)
                    in l @ [ys ! (i - 1)] @ r)))"
  by pat_completeness auto
termination
  by (relation "measure (\<lambda>(cmp, swp, xs). length xs)")
    (auto dest: zend_sort_round_decreases)

declare zend_sort.simps [simp del]

subsection \<open>What the phases do with plain exchanges\<close>

lemma swp_exchange: "swp_at exchange xs a b = xs[a := xs ! b, b := xs ! a]"
  by (simp add: swp_at_def exchange_def)

lemma mset_swp_exchange [simp]:
  "a < length xs \<Longrightarrow> b < length xs \<Longrightarrow> mset (swp_at exchange xs a b) = mset xs"
  by (simp add: swp_exchange mset_exchange)

lemma shift_down_eq:
  "j \<le> k \<Longrightarrow> k < length xs \<Longrightarrow>
     shift_down exchange xs k j = take j xs @ xs ! k # drop j (take k xs) @ drop (Suc k) xs"
proof (induction k arbitrary: xs)
  case 0
  then show ?case by (simp add: shift_down.simps Cons_nth_drop_Suc)
next
  case (Suc k)
  show ?case
  proof (cases "j = Suc k")
    case True
    with Suc.prems show ?thesis
      by (simp add: shift_down.simps [of _ xs] id_take_nth_drop [symmetric])
  next
    case False
    with Suc.prems have "j \<le> k" by simp
    let ?ys = "swp_at exchange xs (Suc k) k"
    have "shift_down exchange xs (Suc k) j = shift_down exchange ?ys k j"
      using \<open>j \<le> k\<close> by (simp add: shift_down.simps [of _ xs])
    also have "\<dots> = take j ?ys @ ?ys ! k # drop j (take k ?ys) @ drop (Suc k) ?ys"
      using Suc \<open>j \<le> k\<close> by simp
    also have "drop (Suc k) ?ys = xs ! k # drop (Suc (Suc k)) xs"
      using Suc.prems by (simp add: swp_exchange Cons_nth_drop_Suc [symmetric])
    also have "take j ?ys = take j xs"
      using \<open>j \<le> k\<close> by (simp add: swp_exchange)
    also have "take k ?ys = take k xs"
      by (simp add: swp_exchange)
    also have "?ys ! k = xs ! Suc k"
      using Suc.prems by (simp add: swp_exchange)
    finally show ?thesis
      using Suc.prems \<open>j \<le> k\<close> by (simp add: take_Suc_conv_app_nth)
  qed
qed

lemma length_shift_down [simp]: "length (shift_down swp xs k j) = length xs"
proof (induction swp xs k j rule: shift_down.induct)
  case (1 swp xs k j)
  then show ?case by (simp add: shift_down.simps [of swp xs k j])
qed

lemma mset_shift_down:
  "k < length xs \<Longrightarrow> mset (shift_down exchange xs k j) = mset xs"
proof (induction "exchange :: 'a swap_func" xs k j rule: shift_down.induct)
  case (1 xs k j)
  then show ?case by (simp add: shift_down.simps [of _ xs k j])
qed

lemma insert_pos_le: "insert_pos cmp xs i j \<le> j"
  by (induction cmp xs i j rule: insert_pos.induct) auto

lemma insert_pos2_le: "2 \<le> j \<Longrightarrow> insert_pos2 cmp xs i j \<le> j"
proof (induction cmp xs i j rule: insert_pos2.induct)
  case (1 cmp xs i j)
  show ?case
  proof (cases "gt cmp xs (j - 2) i \<and> j - 2 \<noteq> 0 \<and> j - 2 \<noteq> 1")
    case True
    then have "insert_pos2 cmp xs i (j - 2) \<le> j - 2"
      using "1.IH" [OF refl] by auto
    with True show ?thesis
      by (simp add: insert_pos2.simps [of cmp xs i j] Let_def)
  next
    case False
    with "1.prems" show ?thesis
      by (auto simp: insert_pos2.simps [of cmp xs i j] Let_def)
  qed
qed

subsection \<open>Every comparison function gives a permutation\<close>

lemma mset_sort_2:
  "a < length xs \<Longrightarrow> b < length xs \<Longrightarrow> mset (zend_sort_2 cmp exchange a b xs) = mset xs"
  by (simp add: zend_sort_2_def)

lemma mset_sort_3:
  "a < length xs \<Longrightarrow> b < length xs \<Longrightarrow> c < length xs \<Longrightarrow>
     mset (zend_sort_3 cmp exchange a b c xs) = mset xs"
  by (simp add: zend_sort_3_def Let_def)

lemma mset_sort_4:
  "a < length xs \<Longrightarrow> b < length xs \<Longrightarrow> c < length xs \<Longrightarrow> d < length xs \<Longrightarrow>
     mset (zend_sort_4 cmp exchange a b c d xs) = mset xs"
  by (simp add: zend_sort_4_def Let_def mset_sort_3)

lemma mset_sort_5:
  "a < length xs \<Longrightarrow> b < length xs \<Longrightarrow> c < length xs \<Longrightarrow> d < length xs \<Longrightarrow> e < length xs \<Longrightarrow>
     mset (zend_sort_5 cmp exchange a b c d e xs) = mset xs"
  by (simp add: zend_sort_5_def Let_def mset_sort_4)

lemma mset_insert_head:
  "6 \<le> length xs \<Longrightarrow> mset (insert_head cmp exchange i xs) = mset xs
     \<and> length (insert_head cmp exchange i xs) = length xs"
proof (induction cmp "exchange :: 'a swap_func" i xs rule: insert_head.induct)
  case (1 cmp i xs)
  then show ?case
    by (auto simp: insert_head.simps [of cmp _ i xs] mset_shift_down Let_def)
qed

lemma mset_insert_tail:
  "n \<le> length xs \<Longrightarrow> mset (insert_tail cmp exchange n i xs) = mset xs
     \<and> length (insert_tail cmp exchange n i xs) = length xs"
proof (induction cmp "exchange :: 'a swap_func" n i xs rule: insert_tail.induct)
  case (1 cmp n i xs)
  then show ?case
    by (auto simp: insert_tail.simps [of cmp _ n i xs] mset_shift_down Let_def)
qed

lemma mset_insert_sort: "mset (zend_insert_sort cmp exchange xs) = mset xs"
  by (simp add: zend_insert_sort_def Let_def mset_sort_2 mset_sort_3 mset_sort_4 mset_sort_5
      mset_insert_head mset_insert_tail)

lemma mset_partition:
  assumes "2 \<le> i" "i < j" "j < length xs"
  shows "case partition_loop cmp exchange i j xs of (k, ys) \<Rightarrow> mset ys = mset xs"
proof (rule partition_loop_rule
    [where I = "\<lambda>i j ys. mset ys = mset xs \<and> length ys = length xs \<and> 2 \<le> i \<and> j < length xs"])
  fix i j ys i1 j1
  assume *: "i < j" "mset ys = mset xs \<and> length ys = length xs \<and> 2 \<le> i \<and> j < length xs"
    "scan_up cmp ys i j = (False, i1)" "scan_down cmp ys i1 (j - 1) = (False, j1)"
    "j - 1 \<noteq> i1" "i1 < j1"
  then have "i \<le> i1" "i1 < j" using scan_up_bounds [of i j cmp ys False i1] by auto
  moreover from * this have "j1 \<le> j - 1"
    using scan_down_bounds [of i1 "j - 1" cmp ys False j1] by auto
  ultimately show "mset (swp_at exchange ys i1 j1) = mset xs
    \<and> length (swp_at exchange ys i1 j1) = length xs \<and> 2 \<le> i1 + 1 \<and> j1 < length xs"
    using * by auto
qed (use assms in auto)

lemma probe_bounds:
  fixes n :: nat
  assumes "16 < n"
  shows "0 < n" "Suc 0 < n" "n div 2 < n" "n div 2 div 2 < n" "n div 2 + n div 2 div 2 < n" "n - Suc 0 < n"
    "0 < n div 2 div 2" "Suc 0 < n div 2"
    "n div 2 div 2 < n div 2" "n div 2 < n div 2 + n div 2 div 2"
    "n div 2 + n div 2 div 2 < n - Suc 0" "n div 2 < n - Suc 0"
  using assms by auto

lemma mset_choose_pivot:
  "16 < length xs \<Longrightarrow> mset (choose_pivot cmp exchange xs) = mset xs"
  using probe_bounds [of "length xs"]
  by (auto simp: choose_pivot_def Let_def intro!: mset_sort_3 mset_sort_5)

lemma mset_round:
  assumes "16 < length xs" "zend_sort_round cmp exchange xs = (i, ys)"
  shows "mset ys = mset xs"
proof -
  obtain k zs where p: "partition_loop cmp exchange 2 (length xs - 1) (choose_pivot cmp exchange xs) = (k, zs)"
    by fastforce
  have "mset zs = mset (choose_pivot cmp exchange xs)"
    using mset_partition [of 2 "length xs - 1" "choose_pivot cmp exchange xs" cmp] assms(1) p by simp
  moreover have "2 \<le> k" "k \<le> length xs - 1" "length zs = length xs"
    using partition_bounds [OF _ p] assms(1) by auto
  moreover have "i = k" "ys = swp_at exchange zs 1 (k - 1)"
    using assms(2) p by (auto simp: zend_sort_round_def)
  ultimately show ?thesis
    using assms(1) by (simp add: mset_choose_pivot)
qed

lemma split_at_pivot:
  "0 < i \<Longrightarrow> i \<le> length ys \<Longrightarrow> take (i - 1) ys @ [ys ! (i - 1)] @ drop i ys = ys"
  by (cases i) (auto simp: id_take_nth_drop [symmetric])

lemma zend_sort_small: "length xs \<le> 16 \<Longrightarrow> zend_sort cmp swp xs = zend_insert_sort cmp swp xs"
  by (simp add: zend_sort.simps [of cmp swp xs])

lemma zend_sort_large:
  "16 < length xs \<Longrightarrow> zend_sort_round cmp swp xs = (i, ys) \<Longrightarrow>
     zend_sort cmp swp xs =
       zend_sort cmp swp (take (i - 1) ys) @ [ys ! (i - 1)] @ zend_sort cmp swp (drop i ys)"
  by (simp add: zend_sort.simps [of cmp swp xs] Let_def)

text \<open>The induction that follows the two parts of each round.\<close>

lemma zend_sort_induct [case_names small large]:
  assumes "\<And>xs. length xs \<le> 16 \<Longrightarrow> P xs"
    and "\<And>xs i ys. 16 < length xs \<Longrightarrow> zend_sort_round cmp swp xs = (i, ys) \<Longrightarrow>
      2 \<le> i \<Longrightarrow> i < length xs \<Longrightarrow> length ys = length xs \<Longrightarrow>
      P (take (i - 1) ys) \<Longrightarrow> P (drop i ys) \<Longrightarrow> P xs"
  shows "P xs"
proof (induction xs rule: length_induct)
  case (1 xs)
  show ?case
  proof (cases "length xs \<le> 16")
    case True
    then show ?thesis by (rule assms(1))
  next
    case False
    obtain i ys where r: "zend_sort_round cmp swp xs = (i, ys)" by fastforce
    from False zend_sort_round_bounds [OF _ r]
    have b: "2 \<le> i" "i < length xs" "length ys = length xs" by auto
    show ?thesis
      by (rule assms(2) [OF _ r]) (use 1 False b in auto)
  qed
qed

lemma mset_zend_sort: "mset (zend_sort cmp exchange xs) = mset xs"
proof (induction xs rule: zend_sort_induct [of _ cmp exchange])
  case (small xs)
  then show ?case by (simp add: zend_sort_small mset_insert_sort)
next
  case (large xs i ys)
  have "mset (zend_sort cmp exchange xs) = mset (take (i - 1) ys @ [ys ! (i - 1)] @ drop i ys)"
    using large by (simp add: zend_sort_large)
  also have "\<dots> = mset ys"
    using large by (simp only: split_at_pivot)
  finally show ?case
    using mset_round [OF large(1,2)] by simp
qed

subsection \<open>Comparison functions that order the elements\<close>

text \<open>
  The contract of a \<open>compare_func_t\<close>: on the elements of the array it is a total
  preorder. User comparison functions may break it; the permutation result above
  does not need it, the sortedness below does.
\<close>

locale compare_order =
  fixes cmp :: "'a compare_func" and A :: "'a set"
  assumes total: "a \<in> A \<Longrightarrow> b \<in> A \<Longrightarrow> cmp a b \<le> 0 \<or> cmp b a \<le> 0"
    and trans: "a \<in> A \<Longrightarrow> b \<in> A \<Longrightarrow> c \<in> A \<Longrightarrow> cmp a b \<le> 0 \<Longrightarrow> cmp b c \<le> 0 \<Longrightarrow> cmp a c \<le> 0"

definition sorted_by :: "'a compare_func \<Rightarrow> 'a list \<Rightarrow> bool" where
  "sorted_by cmp xs \<longleftrightarrow> sorted_wrt (\<lambda>a b. cmp a b \<le> 0) xs"

lemma sorted_by_nth:
  "sorted_by cmp xs \<longleftrightarrow> (\<forall>i j. i < j \<longrightarrow> j < length xs \<longrightarrow> cmp (xs ! i) (xs ! j) \<le> 0)"
  by (simp add: sorted_by_def sorted_wrt_iff_nth_less)

lemma nth_swp_exchange:
  "a < length xs \<Longrightarrow> b < length xs \<Longrightarrow>
     swp_at exchange xs a b ! k = (if k = a then xs ! b else if k = b then xs ! a else xs ! k)"
  by (auto simp: swp_exchange nth_list_update)

text \<open>
  The networks for four and five elements insert the last one into the sorted
  others by a run of adjacent exchanges: \<open>sift\<close> on the cells, \<open>sink\<close> on the
  values that the cells hold, both from the last cell downwards.
\<close>

fun sift :: "'a compare_func \<Rightarrow> nat list \<Rightarrow> 'a list \<Rightarrow> 'a list" where
  "sift cmp (p # q # ps) xs =
     (if gt cmp xs q p then sift cmp (q # ps) (swp_at exchange xs q p) else xs)"
| "sift cmp ps xs = xs"

fun sink :: "'a compare_func \<Rightarrow> 'a \<Rightarrow> 'a list \<Rightarrow> 'a list" where
  "sink cmp x [] = [x]"
| "sink cmp x (y # ys) = (if cmp y x > 0 then y # sink cmp x ys else x # y # ys)"

lemma sort_4_sift:
  "zend_sort_4 cmp exchange a b c d xs = sift cmp [d, c, b, a] (zend_sort_3 cmp exchange a b c xs)"
  by (simp add: zend_sort_4_def Let_def)

lemma sort_5_sift:
  "zend_sort_5 cmp exchange a b c d e xs
     = sift cmp [e, d, c, b, a] (zend_sort_4 cmp exchange a b c d xs)"
  by (simp add: zend_sort_5_def Let_def)

lemma sift_sink:
  "distinct ps \<Longrightarrow> set ps \<subseteq> {..<length xs} \<Longrightarrow> ps = p # qs \<Longrightarrow>
     map ((!) (sift cmp ps xs)) ps = sink cmp (xs ! p) (map ((!) xs) qs)
     \<and> (\<forall>k. k \<notin> set ps \<longrightarrow> sift cmp ps xs ! k = xs ! k)"
proof (induction cmp ps xs arbitrary: p qs rule: sift.induct)
  case (1 cmp p' q ps xs)
  show ?case
  proof (cases "gt cmp xs q p'")
    case True
    let ?ys = "swp_at exchange xs q p'"
    have IH: "map ((!) (sift cmp (q # ps) ?ys)) (q # ps) = sink cmp (?ys ! q) (map ((!) ?ys) ps)
      \<and> (\<forall>k. k \<notin> set (q # ps) \<longrightarrow> sift cmp (q # ps) ?ys ! k = ?ys ! k)"
      using "1.IH" [OF True] "1.prems" by auto
    have m: "map ((!) ?ys) ps = map ((!) xs) ps"
      using "1.prems" by (intro map_cong refl) (auto simp: nth_swp_exchange)
    have q: "?ys ! q = xs ! p" "?ys ! p' = xs ! q" "p' = p" "qs = q # ps"
      using "1.prems" by (auto simp: nth_swp_exchange)
    have "p' \<notin> set (q # ps)" using "1.prems"(1) by simp
    then have "sift cmp (q # ps) ?ys ! p' = xs ! q"
      using conjunct2 [OF IH] q(2) by simp
    moreover have "\<forall>k. k \<notin> set (p' # q # ps) \<longrightarrow> ?ys ! k = xs ! k"
      using "1.prems" by (auto simp: nth_swp_exchange)
    ultimately show ?thesis
      using IH [unfolded m q(1)] True q(3,4) by (simp add: gt_def)
  next
    case False
    then show ?thesis using "1.prems" by (auto simp: gt_def)
  qed
qed auto

lemma set_sink [simp]: "set (sink cmp x ys) = insert x (set ys)"
  by (induction cmp x ys rule: sink.induct) auto

context compare_order begin

lemma gt_le: "a \<in> A \<Longrightarrow> b \<in> A \<Longrightarrow> cmp a b > 0 \<Longrightarrow> cmp b a \<le> 0"
  using total by force

lemma sort_2_spec:
  assumes "set xs \<subseteq> A" "a < length xs" "b < length xs" "a \<noteq> b"
  defines "ys \<equiv> zend_sort_2 cmp exchange a b xs"
  shows "cmp (ys ! a) (ys ! b) \<le> 0" "\<And>k. k \<notin> {a, b} \<Longrightarrow> ys ! k = xs ! k"
proof -
  have A: "xs ! a \<in> A" "xs ! b \<in> A" using assms by auto
  show "cmp (ys ! a) (ys ! b) \<le> 0"
    using A assms gt_le by (auto simp: ys_def zend_sort_2_def swp_exchange gt_def)
  show "\<And>k. k \<notin> {a, b} \<Longrightarrow> ys ! k = xs ! k"
    using assms by (auto simp: ys_def zend_sort_2_def swp_exchange)
qed

lemma sort_3_spec:
  assumes "set xs \<subseteq> A" "a < length xs" "b < length xs" "c < length xs" "distinct [a, b, c]"
  defines "ys \<equiv> zend_sort_3 cmp exchange a b c xs"
  shows "cmp (ys ! a) (ys ! b) \<le> 0" "cmp (ys ! b) (ys ! c) \<le> 0"
    "\<And>k. k \<notin> {a, b, c} \<Longrightarrow> ys ! k = xs ! k"
proof -
  have A: "xs ! a \<in> A" "xs ! b \<in> A" "xs ! c \<in> A" using assms by auto
  show "cmp (ys ! a) (ys ! b) \<le> 0" "cmp (ys ! b) (ys ! c) \<le> 0"
    using A assms gt_le
    by (auto simp: ys_def zend_sort_3_def swp_exchange gt_def nth_list_update Let_def)
  show "\<And>k. k \<notin> {a, b, c} \<Longrightarrow> ys ! k = xs ! k"
    using assms by (auto simp: ys_def zend_sort_3_def swp_exchange Let_def)
qed

lemma sorted_sink:
  "x \<in> A \<Longrightarrow> set ys \<subseteq> A \<Longrightarrow> sorted_wrt (\<lambda>a b. cmp b a \<le> 0) ys \<Longrightarrow>
     sorted_wrt (\<lambda>a b. cmp b a \<le> 0) (sink cmp x ys)"
proof (induction ys)
  case (Cons y ys)
  have yA: "y \<in> A" and ysA: "set ys \<subseteq> A" using Cons.prems(2) by auto
  show ?case
  proof (cases "cmp y x > 0")
    case True
    have "cmp x y \<le> 0" using gt_le [OF yA Cons.prems(1) True] .
    with True Cons.IH [OF Cons.prems(1) ysA] Cons.prems(3) show ?thesis by simp
  next
    case False
    have "cmp z x \<le> 0" if "z \<in> set ys" for z
      using trans [of z y x] that ysA yA Cons.prems(1,3) False by auto
    with False Cons.prems(3) show ?thesis by simp
  qed
qed simp

lemma sift_spec:
  assumes "distinct (p # qs)" "set (p # qs) \<subseteq> {..<length xs}" "set xs \<subseteq> A"
    "sorted_wrt (\<lambda>a b. cmp b a \<le> 0) (map ((!) xs) qs)"
  defines "ys \<equiv> sift cmp (p # qs) xs"
  shows "sorted_wrt (\<lambda>a b. cmp b a \<le> 0) (map ((!) ys) (p # qs))"
    "\<And>k. k \<notin> set (p # qs) \<Longrightarrow> ys ! k = xs ! k"
proof -
  have A: "xs ! p \<in> A" "set (map ((!) xs) qs) \<subseteq> A"
    using assms(2) subsetD [OF assms(3) nth_mem] by auto
  note s = sift_sink [OF assms(1,2) refl, of cmp, folded ys_def]
  show "sorted_wrt (\<lambda>a b. cmp b a \<le> 0) (map ((!) ys) (p # qs))"
    using sorted_sink [OF A assms(4)] s by simp
  show "\<And>k. k \<notin> set (p # qs) \<Longrightarrow> ys ! k = xs ! k"
    using s by blast
qed

lemma sort_4_spec:
  assumes "set xs \<subseteq> A" "a < length xs" "b < length xs" "c < length xs" "d < length xs"
    "distinct [a, b, c, d]"
  defines "ys \<equiv> zend_sort_4 cmp exchange a b c d xs"
  shows "sorted_wrt (\<lambda>a b. cmp b a \<le> 0) (map ((!) ys) [d, c, b, a])"
    "\<And>k. k \<notin> {a, b, c, d} \<Longrightarrow> ys ! k = xs ! k"
proof -
  define zs where "zs = zend_sort_3 cmp exchange a b c xs"
  have d: "distinct [a, b, c]" using assms(6) by simp
  note s = sort_3_spec [OF assms(1-4) d, folded zs_def]
  have m: "mset zs = mset xs" unfolding zs_def using assms(2-4) by (intro mset_sort_3)
  then have zA: "set zs \<subseteq> A" and len: "length zs = length xs"
    using assms(1) by (metis set_mset_mset, metis size_mset)
  then have el: "zs ! a \<in> A" "zs ! b \<in> A" "zs ! c \<in> A"
    using assms(2-4) by (metis nth_mem subsetD)+
  have "sorted_wrt (\<lambda>a b. cmp b a \<le> 0) (map ((!) zs) [c, b, a])"
    using s(1,2) trans [OF el s(1,2)] by simp
  moreover have d4: "distinct [d, c, b, a]" and in4: "set [d, c, b, a] \<subseteq> {..<length zs}"
    using len assms(2-6) by auto
  ultimately have "sorted_wrt (\<lambda>a b. cmp b a \<le> 0) (map ((!) (sift cmp [d, c, b, a] zs)) [d, c, b, a])"
    and rest: "\<And>k. k \<notin> set [d, c, b, a] \<Longrightarrow> sift cmp [d, c, b, a] zs ! k = zs ! k"
    using sift_spec [OF d4 in4 zA] by blast+
  then show "sorted_wrt (\<lambda>a b. cmp b a \<le> 0) (map ((!) ys) [d, c, b, a])"
    by (simp add: ys_def sort_4_sift zs_def)
  show "ys ! k = xs ! k" if "k \<notin> {a, b, c, d}" for k
    using rest [of k] s(3) [of k] that by (simp add: ys_def sort_4_sift zs_def)
qed

lemma sort_5_spec:
  assumes "set xs \<subseteq> A" "a < length xs" "b < length xs" "c < length xs" "d < length xs" "e < length xs"
    "distinct [a, b, c, d, e]"
  defines "ys \<equiv> zend_sort_5 cmp exchange a b c d e xs"
  shows "sorted_wrt (\<lambda>a b. cmp b a \<le> 0) (map ((!) ys) [e, d, c, b, a])"
    "\<And>k. k \<notin> {a, b, c, d, e} \<Longrightarrow> ys ! k = xs ! k"
proof -
  define zs where "zs = zend_sort_4 cmp exchange a b c d xs"
  have d: "distinct [a, b, c, d]" using assms(7) by simp
  note s = sort_4_spec [OF assms(1-5) d, folded zs_def]
  have m: "mset zs = mset xs" unfolding zs_def using assms(2-5) by (intro mset_sort_4)
  then have zA: "set zs \<subseteq> A" and len: "length zs = length xs"
    using assms(1) by (metis set_mset_mset, metis size_mset)
  have d5: "distinct [e, d, c, b, a]" and in5: "set [e, d, c, b, a] \<subseteq> {..<length zs}"
    using len assms(2-7) by auto
  have "sorted_wrt (\<lambda>a b. cmp b a \<le> 0) (map ((!) (sift cmp [e, d, c, b, a] zs)) [e, d, c, b, a])"
    and rest: "\<And>k. k \<notin> set [e, d, c, b, a] \<Longrightarrow> sift cmp [e, d, c, b, a] zs ! k = zs ! k"
    using sift_spec [OF d5 in5 zA s(1)] by blast+
  then show "sorted_wrt (\<lambda>a b. cmp b a \<le> 0) (map ((!) ys) [e, d, c, b, a])"
    by (simp add: ys_def sort_5_sift zs_def)
  show "ys ! k = xs ! k" if "k \<notin> {a, b, c, d, e}" for k
    using rest [of k] s(2) [of k] that by (simp add: ys_def sort_5_sift zs_def)
qed

end

text \<open>What the two partition scans have passed.\<close>

lemma scan_up_passed:
  "i < j \<Longrightarrow> scan_up cmp xs i j = (d, i1) \<Longrightarrow> i \<le> k \<Longrightarrow> k < i1 \<Longrightarrow> gt cmp xs 1 k"
proof (induction cmp xs i j rule: scan_up.induct)
  case (1 cmp xs i j)
  show ?case
  proof (cases "\<not> gt cmp xs 1 i \<or> i + 1 \<ge> j \<or> k = i")
    case True
    with "1.prems" have "gt cmp xs 1 i" and "k = i"
      by (auto simp: scan_up.simps [of cmp xs i j] split: if_splits)
    then show ?thesis by simp
  next
    case False
    with "1.prems" "1.IH" show ?thesis
      by (auto simp: scan_up.simps [of cmp xs i j])
  qed
qed

lemma scan_down_passed:
  "i < j \<Longrightarrow> scan_down cmp xs i j = (d, j1) \<Longrightarrow> j1 < k \<Longrightarrow> k \<le> j \<Longrightarrow> gt cmp xs k 1"
proof (induction cmp xs i j rule: scan_down.induct)
  case (1 cmp xs i j)
  show ?case
  proof (cases "\<not> gt cmp xs j 1 \<or> j - 1 \<le> i \<or> k = j")
    case True
    with "1.prems" have "gt cmp xs j 1" and "k = j"
      by (auto simp: scan_down.simps [of cmp xs i j] split: if_splits)
    then show ?thesis by simp
  next
    case False
    with "1.prems" "1.IH" show ?thesis
      by (auto simp: scan_down.simps [of cmp xs i j])
  qed
qed

text \<open>The partition's invariant: the pivot is at index 1, what is left of \<open>i\<close> is
  at most the pivot, what is from \<open>j\<close> on is at least the pivot.\<close>

definition part_inv :: "'a compare_func \<Rightarrow> 'a list \<Rightarrow> nat \<Rightarrow> nat \<Rightarrow> 'a list \<Rightarrow> bool" where
  "part_inv cmp xs i j zs \<longleftrightarrow>
     2 \<le> i \<and> i \<le> j \<and> j < length xs \<and> mset zs = mset xs \<and> zs ! 0 = xs ! 0 \<and> zs ! 1 = xs ! 1
     \<and> (\<forall>k. 2 \<le> k \<longrightarrow> k < i \<longrightarrow> cmp (zs ! k) (xs ! 1) \<le> 0)
     \<and> (\<forall>k. j \<le> k \<longrightarrow> k < length xs \<longrightarrow> cmp (xs ! 1) (zs ! k) \<le> 0)"

lemma part_invD:
  assumes "part_inv cmp xs i j zs"
  shows "2 \<le> i" "i \<le> j" "j < length xs" "mset zs = mset xs" "length zs = length xs"
    "zs ! 0 = xs ! 0" "zs ! 1 = xs ! 1"
    "\<And>k. 2 \<le> k \<Longrightarrow> k < i \<Longrightarrow> cmp (zs ! k) (xs ! 1) \<le> 0"
    "\<And>k. j \<le> k \<Longrightarrow> k < length xs \<Longrightarrow> cmp (xs ! 1) (zs ! k) \<le> 0"
  using assms size_mset [of zs] size_mset [of xs] by (auto simp: part_inv_def)

subsection \<open>Insertion keeps the sorted prefix\<close>

lemma insert_pos_spec:
  assumes "gt cmp xs j i"
  shows "gt cmp xs (insert_pos cmp xs i j) i"
    "insert_pos cmp xs i j = 0 \<or> \<not> gt cmp xs (insert_pos cmp xs i j - 1) i"
  using assms by (induction cmp xs i j rule: insert_pos.induct) auto

context compare_order begin

lemma insert_pos2_spec:
  "2 \<le> j \<Longrightarrow> j < i \<Longrightarrow> i < length xs \<Longrightarrow> set xs \<subseteq> A \<Longrightarrow> gt cmp xs j i \<Longrightarrow>
     insert_pos2 cmp xs i j = p \<Longrightarrow>
     cmp (xs ! i) (xs ! p) \<le> 0 \<and> (p = 0 \<or> cmp (xs ! (p - 1)) (xs ! i) \<le> 0)"
proof (induction j arbitrary: p rule: less_induct)
  case (less j)
  have el: "k \<le> i \<Longrightarrow> xs ! k \<in> A" for k
    using less.prems(3,4) by (meson le_less_trans nth_mem subsetD)
  have flip: "gt cmp xs k i \<Longrightarrow> k < i \<Longrightarrow> cmp (xs ! i) (xs ! k) \<le> 0" for k
    using gt_le [of "xs ! k" "xs ! i"] el by (simp add: gt_def)
  have flip': "gt cmp xs i k \<Longrightarrow> k < i \<Longrightarrow> cmp (xs ! k) (xs ! i) \<le> 0" for k
    using gt_le [of "xs ! i" "xs ! k"] el by (simp add: gt_def)
  have eq: "insert_pos2 cmp xs i j =
     (if \<not> gt cmp xs (j - 2) i then (if \<not> gt cmp xs (j - 1) i then j else j - 1)
      else if j = 2 then 0
      else if j = 3 then (if gt cmp xs i 0 then 1 else 0)
      else insert_pos2 cmp xs i (j - 2))"
    using less.prems(1) by (subst insert_pos2.simps) (auto simp: Let_def Suc_diff_Suc numeral_2_eq_2)
  consider "\<not> gt cmp xs (j - 2) i" "\<not> gt cmp xs (j - 1) i"
    | "\<not> gt cmp xs (j - 2) i" "gt cmp xs (j - 1) i"
    | "gt cmp xs (j - 2) i" "j = 2"
    | "gt cmp xs (j - 2) i" "j = 3"
    | "gt cmp xs (j - 2) i" "4 \<le> j"
    using less.prems(1) by linarith
  then show ?case
  proof cases
    case 1
    then have "p = j" using eq less.prems by simp
    then show ?thesis using 1 flip [OF less.prems(5,2)] by (simp add: gt_def)
  next
    case 2
    then have "p = j - 1" using eq less.prems by simp
    then show ?thesis
      using 2 flip [of "j - 1"] less.prems(1,2) by (auto simp: gt_def numeral_2_eq_2)
  next
    case 3
    then have "p = 0" using eq less.prems by simp
    then show ?thesis using 3 flip [of 0] less.prems(2) by simp
  next
    case 4
    then have "p = (if gt cmp xs i 0 then 1 else 0)" using eq less.prems by simp
    then show ?thesis
      using 4 flip [of 1] flip' [of 0] less.prems(2) by (auto simp: gt_def not_less split: if_splits)
  next
    case 5
    then have "insert_pos2 cmp xs i (j - 2) = p" using eq less.prems by simp
    with 5 less.prems show ?thesis by (intro less.IH [of "j - 2"]) auto
  qed
qed

lemma sorted_insertion:
  assumes s: "sorted_by cmp (take i xs)" and p: "p < i" "i < length xs" and A: "set xs \<subseteq> A"
    and le: "cmp (xs ! i) (xs ! p) \<le> 0" and ge: "p = 0 \<or> cmp (xs ! (p - 1)) (xs ! i) \<le> 0"
  shows "sorted_by cmp (take (Suc i) (shift_down exchange xs i p))"
proof -
  have eq: "take (Suc i) (shift_down exchange xs i p) = take p xs @ xs ! i # drop p (take i xs)"
    using p by (simp add: shift_down_eq Suc_diff_le)
  have sp: "take i xs = take p xs @ drop p (take i xs)"
    using p by (metis append_take_drop_id less_imp_le min.absorb1 take_take)
  have el: "k < length xs \<Longrightarrow> xs ! k \<in> A" for k using A by auto
  have low: "cmp a (xs ! i) \<le> 0" if a: "a \<in> set (take p xs)" for a
  proof -
    obtain k where k: "k < p" "a = xs ! k" using a p by (auto simp: in_set_conv_nth)
    show ?thesis
    proof (cases "k = p - 1")
      case True
      with k ge show ?thesis by simp
    next
      case False
      with k s p have "cmp (xs ! k) (xs ! (p - 1)) \<le> 0" by (simp add: sorted_by_nth)
      with k ge p show ?thesis using trans [of "xs ! k" "xs ! (p - 1)" "xs ! i"] el by auto
    qed
  qed
  have high: "cmp (xs ! i) a \<le> 0" if a: "a \<in> set (drop p (take i xs))" for a
  proof -
    obtain k where k: "p \<le> k" "k < i" "a = xs ! k"
    proof -
      obtain m where "m < length (drop p (take i xs))" "a = drop p (take i xs) ! m"
        using a by (metis in_set_conv_nth)
      then show thesis using p by (intro that [of "p + m"]) auto
    qed
    show ?thesis
    proof (cases "k = p")
      case True
      with k le show ?thesis by simp
    next
      case False
      with k s p have "cmp (xs ! p) (xs ! k) \<le> 0" by (simp add: sorted_by_nth)
      with k le p show ?thesis using trans [of "xs ! i" "xs ! p" "xs ! k"] el by auto
    qed
  qed
  have "sorted_by cmp (take p xs @ drop p (take i xs))"
    using s sp by simp
  then show ?thesis
    unfolding eq sorted_by_def by (simp add: sorted_wrt_append low high)
qed

lemma sorted_extend:
  assumes "sorted_by cmp (take i xs)" "0 < i" "i < length xs" "set xs \<subseteq> A" "\<not> gt cmp xs (i - 1) i"
  shows "sorted_by cmp (take (Suc i) xs)"
proof -
  have el: "k < length xs \<Longrightarrow> xs ! k \<in> A" for k using assms(4) by auto
  have "cmp a (xs ! i) \<le> 0" if a: "a \<in> set (take i xs)" for a
  proof -
    obtain k where k: "k < i" "a = xs ! k" using a assms(3) by (auto simp: in_set_conv_nth)
    show ?thesis
    proof (cases "k = i - 1")
      case True
      with k assms(5) show ?thesis by (simp add: gt_def)
    next
      case False
      with k assms(1,3) have "cmp (xs ! k) (xs ! (i - 1)) \<le> 0" by (simp add: sorted_by_nth)
      with k assms(2,3,5) show ?thesis
        using trans [of "xs ! k" "xs ! (i - 1)" "xs ! i"] el by (auto simp: gt_def)
    qed
  qed
  with assms(1,3) show ?thesis
    by (simp add: sorted_by_def take_Suc_conv_app_nth sorted_wrt_append)
qed

lemma sorted_insert_head:
  "0 < i \<Longrightarrow> i \<le> 6 \<Longrightarrow> 6 \<le> length xs \<Longrightarrow> set xs \<subseteq> A \<Longrightarrow> sorted_by cmp (take i xs) \<Longrightarrow>
     sorted_by cmp (take 6 (insert_head cmp exchange i xs))"
proof (induction "6 - i" arbitrary: i xs)
  case 0
  then show ?case by (simp add: insert_head.simps [of cmp _ 6 xs])
next
  case (Suc n)
  then have i: "i < 6" by simp
  show ?case
  proof (cases "gt cmp xs (i - 1) i")
    case False
    with i Suc.prems have "sorted_by cmp (take (Suc i) xs)" by (intro sorted_extend) auto
    with False Suc i show ?thesis
      using Suc.hyps(1) [of "Suc i" xs] by (simp add: insert_head.simps [of cmp _ i xs])
  next
    case True
    let ?p = "insert_pos cmp xs i (i - 1)"
    let ?ys = "shift_down exchange xs i ?p"
    have p: "?p < i" using insert_pos_le [of cmp xs i "i - 1"] Suc.prems(1) by linarith
    have "xs ! ?p \<in> A" "xs ! i \<in> A" using p i Suc.prems(3,4) by auto
    then have "cmp (xs ! i) (xs ! ?p) \<le> 0"
      using insert_pos_spec(1) [OF True] gt_le by (simp add: gt_def)
    moreover have "?p = 0 \<or> cmp (xs ! (?p - 1)) (xs ! i) \<le> 0"
      using insert_pos_spec(2) [OF True] by (auto simp: gt_def not_less)
    ultimately have "sorted_by cmp (take (Suc i) ?ys)"
      using Suc.prems p i by (intro sorted_insertion) auto
    moreover have "mset ?ys = mset xs" using Suc.prems i by (intro mset_shift_down) auto
    then have "set ?ys \<subseteq> A" using Suc.prems(4) by (metis set_mset_mset)
    ultimately show ?thesis
      using True Suc i Suc.hyps(1) [of "Suc i" ?ys]
      by (simp add: insert_head.simps [of cmp _ i xs])
  qed
qed

lemma sorted_insert_tail:
  "6 \<le> i \<Longrightarrow> i \<le> length xs \<Longrightarrow> set xs \<subseteq> A \<Longrightarrow> sorted_by cmp (take i xs) \<Longrightarrow>
     sorted_by cmp (insert_tail cmp exchange (length xs) i xs)"
proof (induction "length xs - i" arbitrary: i xs)
  case 0
  then show ?case by (simp add: insert_tail.simps [of cmp _ _ i xs])
next
  case (Suc n)
  then have i: "i < length xs" by simp
  show ?case
  proof (cases "gt cmp xs (i - 1) i")
    case False
    with i Suc.prems have "sorted_by cmp (take (Suc i) xs)" by (intro sorted_extend) auto
    with False Suc i show ?thesis
      using Suc.hyps(1) [of xs "Suc i"] by (simp add: insert_tail.simps [of cmp _ _ i xs])
  next
    case True
    let ?p = "insert_pos2 cmp xs i (i - 1)"
    let ?ys = "shift_down exchange xs i ?p"
    have p: "?p < i" using insert_pos2_le [of "i - 1" cmp xs i] Suc.prems(1) by linarith
    have "cmp (xs ! i) (xs ! ?p) \<le> 0 \<and> (?p = 0 \<or> cmp (xs ! (?p - 1)) (xs ! i) \<le> 0)"
      using Suc.prems i True by (intro insert_pos2_spec [of "i - 1"]) auto
    then have "sorted_by cmp (take (Suc i) ?ys)"
      using Suc.prems p i by (intro sorted_insertion) auto
    moreover have "mset ?ys = mset xs" using i by (rule mset_shift_down)
    then have "set ?ys \<subseteq> A" using Suc.prems(3) by (metis set_mset_mset)
    ultimately show ?thesis
      using True Suc i Suc.hyps(1) [of ?ys "Suc i"]
      by (simp add: insert_tail.simps [of cmp _ _ i xs])
  qed
qed

lemma sorted_insert_sort:
  assumes "set xs \<subseteq> A"
  shows "sorted_by cmp (zend_insert_sort cmp exchange xs)"
proof -
  let ?ys = "zend_insert_sort cmp exchange xs"
  have len: "length ?ys = length xs"
    by (metis mset_insert_sort size_mset)
  consider "length xs \<le> 1" | "length xs = 2" | "length xs = 3" | "length xs = 4"
    | "length xs = 5" | "6 \<le> length xs" by linarith
  then show ?thesis
  proof cases
    case 1
    then show ?thesis by (auto simp: zend_insert_sort_def sorted_by_nth)
  next
    case 2
    then have "?ys = zend_sort_2 cmp exchange 0 1 xs" by (simp add: zend_insert_sort_def)
    with sort_2_spec(1) [of xs 0 1] 2 assms have "cmp (?ys ! 0) (?ys ! 1) \<le> 0" by simp
    then show ?thesis
      unfolding sorted_by_nth using len 2 by (auto simp: less_Suc_eq numeral_2_eq_2)
  next
    case 3
    then have e: "?ys = zend_sort_3 cmp exchange 0 1 2 xs" by (simp add: zend_insert_sort_def)
    have a: "cmp (?ys ! 0) (?ys ! 1) \<le> 0" "cmp (?ys ! 1) (?ys ! 2) \<le> 0"
      using sort_3_spec(1,2) [of xs 0 1 2] 3 assms e by simp_all
    have "mset ?ys = mset xs" by (rule mset_insert_sort)
    then have "set ?ys \<subseteq> A" using assms by (metis set_mset_mset)
    then have "?ys ! 0 \<in> A" "?ys ! 1 \<in> A" "?ys ! 2 \<in> A" using len 3 by auto
    with a trans have c: "cmp (?ys ! 0) (?ys ! 2) \<le> 0" by blast
    with a have "sorted_wrt (\<lambda>a b. cmp b a \<le> 0) (map ((!) ?ys) [2, 1, 0])"
      by simp
    also have "map ((!) ?ys) [2, 1, 0] = rev ?ys"
      using len 3 by (intro nth_equalityI) (auto simp: less_Suc_eq rev_nth eval_nat_numeral)
    finally show ?thesis by (simp add: sorted_by_def sorted_wrt_rev)
  next
    case 4
    then have e: "?ys = zend_sort_4 cmp exchange 0 1 2 3 xs" by (simp add: zend_insert_sort_def)
    have "sorted_wrt (\<lambda>a b. cmp b a \<le> 0) (map ((!) ?ys) [3, 2, 1, 0])"
      using sort_4_spec(1) [of xs 0 1 2 3] 4 assms e by simp
    also have "map ((!) ?ys) [3, 2, 1, 0] = rev ?ys"
      using len 4 by (intro nth_equalityI)
        (auto simp: less_Suc_eq rev_nth numeral_2_eq_2 numeral_3_eq_3 eval_nat_numeral(2))
    finally show ?thesis by (simp add: sorted_by_def sorted_wrt_rev)
  next
    case 5
    then have e: "?ys = zend_sort_5 cmp exchange 0 1 2 3 4 xs" by (simp add: zend_insert_sort_def)
    have "sorted_wrt (\<lambda>a b. cmp b a \<le> 0) (map ((!) ?ys) [4, 3, 2, 1, 0])"
      using sort_5_spec(1) [of xs 0 1 2 3 4] 5 assms e by simp
    also have "map ((!) ?ys) [4, 3, 2, 1, 0] = rev ?ys"
      using len 5 by (intro nth_equalityI)
        (auto simp: less_Suc_eq rev_nth eval_nat_numeral)
    finally show ?thesis by (simp add: sorted_by_def sorted_wrt_rev)
  next
    case 6
    let ?zs = "insert_head cmp exchange 1 xs"
    have m: "mset ?zs = mset xs" "length ?zs = length xs"
      using mset_insert_head [of xs cmp 1] 6 by auto
    then have "set ?zs \<subseteq> A" using assms by (metis set_mset_mset)
    moreover have "sorted_by cmp (take 1 xs)"
      by (simp add: sorted_by_nth)
    then have "sorted_by cmp (take 6 ?zs)"
      using 6 assms by (intro sorted_insert_head) auto
    ultimately have "sorted_by cmp (insert_tail cmp exchange (length ?zs) 6 ?zs)"
      using 6 m by (intro sorted_insert_tail) auto
    then show ?thesis using 6 m by (simp add: zend_insert_sort_def Let_def)
  qed
qed

lemma part_inv_elem:
  "part_inv cmp xs i j zs \<Longrightarrow> set xs \<subseteq> A \<Longrightarrow> k < length xs \<Longrightarrow> zs ! k \<in> A"
  by (metis part_invD(4,5) nth_mem set_mset_mset subsetD)

lemma part_inv_low:
  assumes A: "set xs \<subseteq> A" and I: "part_inv cmp xs i j zs" and lt: "i < j"
    and u: "scan_up cmp zs i j = (d, i1)" and k: "2 \<le> k" "k < i1"
  shows "cmp (zs ! k) (xs ! 1) \<le> 0"
proof (cases "k < i")
  case True
  then show ?thesis using part_invD(8) [OF I] k by simp
next
  case False
  have kn: "k < length xs" "1 < length xs"
    using scan_up_bounds [OF lt u] part_invD(1-3) [OF I] k by auto
  have "gt cmp zs 1 k"
    using scan_up_passed [OF lt u] False k by simp
  then show ?thesis
    using gt_le [of "zs ! 1" "zs ! k"] part_inv_elem [OF I A] part_invD(7) [OF I] kn
    by (simp add: gt_def)
qed

lemma part_inv_high:
  assumes A: "set xs \<subseteq> A" and I: "part_inv cmp xs i j zs" and lt: "i1 < j - 1" "i \<le> i1"
    and d: "scan_down cmp zs i1 (j - 1) = (d, j1)" and k: "j1 < k" "k < length xs"
  shows "cmp (xs ! 1) (zs ! k) \<le> 0"
proof (cases "j \<le> k")
  case True
  then show ?thesis using part_invD(9) [OF I] k by simp
next
  case False
  have "gt cmp zs k 1"
    using scan_down_passed [OF lt(1) d] False k by simp
  moreover have "1 < length xs" using part_invD(1-3) [OF I] by simp
  ultimately show ?thesis
    using gt_le [of "zs ! k" "zs ! 1"] part_inv_elem [OF I A] part_invD(7) [OF I] k
    by (simp add: gt_def)
qed

lemma part_inv_leave:
  assumes A: "set xs \<subseteq> A" and I: "part_inv cmp xs i j zs" and lt: "i < j"
    and u: "scan_up cmp zs i j = (d1, i1)" and d: "scan_down cmp zs i1 (j - 1) = (d2, j1)"
    and ex: "d1 \<or> j - 1 = i1 \<or> d2"
  shows "part_inv cmp xs i1 i1 zs"
proof -
  note ub = scan_up_bounds [OF lt u] and I' = part_invD [OF I]
  have hi: "cmp (xs ! 1) (zs ! k) \<le> 0" if k: "i1 \<le> k" "k < length xs" for k
  proof (cases "j \<le> k")
    case True
    then show ?thesis using I'(9) k by simp
  next
    case False
    with k ub have nd: "\<not> d1" by auto
    show ?thesis
    proof (cases "k = i1")
      case True
      with ub nd show ?thesis using I'(7) by (simp add: gt_def)
    next
      case ne: False
      with False k nd ex have d2: "i1 < j - 1" "d2" by auto
      with scan_down_bounds [OF d2(1) d] have "j1 = i1" by simp
      then show ?thesis
        using part_inv_high [OF A I d2(1) _ d] ub k ne by simp
    qed
  qed
  show ?thesis
    unfolding part_inv_def
    using I' ub hi part_inv_low [OF A I lt u] by auto
qed

lemma part_inv_round:
  assumes A: "set xs \<subseteq> A" and I: "part_inv cmp xs i j zs" and lt: "i < j"
    and u: "scan_up cmp zs i j = (False, i1)" and d: "scan_down cmp zs i1 (j - 1) = (False, j1)"
    and ne: "j - 1 \<noteq> i1"
  shows "part_inv cmp xs (i1 + 1) j1 (swp_at exchange zs i1 j1)"
proof -
  note ub = scan_up_bounds [OF lt u] and I' = part_invD [OF I]
  from ub ne have lt1: "i1 < j - 1" by auto
  note db = scan_down_bounds [OF lt1 d]
  have ij: "i1 < length zs" "j1 < length zs" "2 \<le> i1" "i1 < j1"
    using ub db I' by auto
  have sw: "cmp (zs ! j1) (xs ! 1) \<le> 0" "cmp (xs ! 1) (zs ! i1) \<le> 0"
    using ub db I'(7) by (auto simp: gt_def)
  have "cmp (swp_at exchange zs i1 j1 ! k) (xs ! 1) \<le> 0" if "2 \<le> k" "k < i1 + 1" for k
    using part_inv_low [OF A I lt u that(1)] that sw ij by (auto simp: nth_swp_exchange less_Suc_eq)
  moreover have "cmp (xs ! 1) (swp_at exchange zs i1 j1 ! k) \<le> 0"
    if "j1 \<le> k" "k < length xs" for k
    using part_inv_high [OF A I lt1 _ d _ that(2)] that sw ij ub
    by (auto simp: nth_swp_exchange le_less)
  ultimately show ?thesis
    unfolding part_inv_def using I' ij db by (auto simp: nth_swp_exchange)
qed

lemma partition_spec:
  assumes "set xs \<subseteq> A" "2 < length xs - 1" "cmp (xs ! 1) (xs ! (length xs - 1)) \<le> 0"
    and r: "partition_loop cmp exchange 2 (length xs - 1) xs = (i, ys)"
  shows "part_inv cmp xs i i ys"
proof -
  have "case partition_loop cmp exchange 2 (length xs - 1) xs of (k, ys) \<Rightarrow> part_inv cmp xs k k ys"
  proof (rule partition_loop_rule [where I = "part_inv cmp xs"])
    show "part_inv cmp xs 2 (length xs - 1) xs"
      unfolding part_inv_def using assms(2,3) by (auto dest: le_antisym simp: less_eq_Suc_le)
  next
    show "part_inv cmp xs i1 i1 zs"
      if "i < j" "part_inv cmp xs i j zs" "scan_up cmp zs i j = (d1, i1)"
        "scan_down cmp zs i1 (j - 1) = (d2, j1)" "d1 \<or> j - 1 = i1 \<or> d2" for i j zs i1 d1 d2 j1
      by (rule part_inv_leave [OF assms(1) that(2,1,3,4,5)])
  next
    show "part_inv cmp xs (i1 + 1) j1 (swp_at exchange zs i1 j1)"
      if "i < j" "part_inv cmp xs i j zs" "scan_up cmp zs i j = (False, i1)"
        "scan_down cmp zs i1 (j - 1) = (False, j1)" "j - 1 \<noteq> i1" for i j zs i1 j1
      by (rule part_inv_round [OF assms(1) that(2,1,3,4,5)])
  qed (use assms(2) in auto)
  with r show ?thesis by simp
qed

lemma choose_pivot_spec:
  assumes A: "set xs \<subseteq> A" and n: "16 < length xs"
  defines "ys \<equiv> choose_pivot cmp exchange xs"
  shows "cmp (ys ! 0) (ys ! 1) \<le> 0" "cmp (ys ! 1) (ys ! (length xs - 1)) \<le> 0"
proof -
  let ?n = "length xs" and ?o = "length xs div 2"
  let ?d = "?o div 2"
  note b = probe_bounds [OF n]
  have in0: "0 < ?n" and ino: "?o < ?n" and ind: "?d < ?n" and inod: "?o + ?d < ?n"
    and inl: "?n - 1 < ?n"
    using b by auto
  define zs where "zs = (if ?n div 1024 \<noteq> 0
    then zend_sort_5 cmp exchange 0 ?d ?o (?o + ?d) (?n - 1) xs
    else zend_sort_3 cmp exchange 0 ?o (?n - 1) xs)"
  have ys: "ys = swp_at exchange zs 1 ?o"
    by (simp add: ys_def choose_pivot_def zs_def Let_def)
  have "cmp (zs ! 0) (zs ! ?o) \<le> 0 \<and> cmp (zs ! ?o) (zs ! (?n - 1)) \<le> 0"
  proof (cases "?n div 1024 \<noteq> 0")
    case True
    have z: "zs = zend_sort_5 cmp exchange 0 ?d ?o (?o + ?d) (?n - 1) xs"
      unfolding zs_def by (rule if_P [OF True])
    have "distinct [0, ?d, ?o, ?o + ?d, ?n - 1]" using b by auto
    from sort_5_spec(1) [OF A in0 ind ino inod inl this, folded z] show ?thesis
      by (simp only: list.map sorted_wrt.simps list.set ball_simps insert_iff)
  next
    case False
    have z: "zs = zend_sort_3 cmp exchange 0 ?o (?n - 1) xs"
      unfolding zs_def by (rule if_not_P [OF False])
    have "distinct [0, ?o, ?n - 1]" using b by auto
    from sort_3_spec(1,2) [OF A in0 ino inl this, folded z] show ?thesis by simp
  qed
  moreover have "length zs = ?n" by (simp add: zs_def)
  then have in': "1 < length zs" "?o < length zs" using b by auto
  have ne: "0 \<noteq> ?o" "1 \<noteq> ?o" "?n - 1 \<noteq> 1" "?n - 1 \<noteq> ?o" using b by auto
  then have "ys ! 0 = zs ! 0" "ys ! 1 = zs ! ?o" "ys ! (?n - 1) = zs ! (?n - 1)"
    unfolding ys nth_swp_exchange [OF in'] by (simp_all only: if_False if_True zero_neq_one simp_thms)
  ultimately show "cmp (ys ! 0) (ys ! 1) \<le> 0" "cmp (ys ! 1) (ys ! (?n - 1)) \<le> 0"
    by simp_all
qed

text \<open>After a round the pivot separates the two parts.\<close>

lemma round_spec:
  assumes A: "set xs \<subseteq> A" and n: "16 < length xs"
    and r: "zend_sort_round cmp exchange xs = (i, ys)"
  shows "\<And>k. k < i - 1 \<Longrightarrow> cmp (ys ! k) (ys ! (i - 1)) \<le> 0"
    "\<And>k. i \<le> k \<Longrightarrow> k < length xs \<Longrightarrow> cmp (ys ! (i - 1)) (ys ! k) \<le> 0"
proof -
  let ?xs = "choose_pivot cmp exchange xs"
  obtain zs where p: "partition_loop cmp exchange 2 (length ?xs - 1) ?xs = (i, zs)"
    and ys: "ys = swp_at exchange zs 1 (i - 1)"
    using r by (auto simp: zend_sort_round_def split: prod.splits)
  have "mset ?xs = mset xs" using n by (rule mset_choose_pivot)
  then have A': "set ?xs \<subseteq> A" using A by (metis set_mset_mset)
  note c = choose_pivot_spec [OF A n]
  have I: "part_inv cmp ?xs i i zs"
    using partition_spec [OF A' _ _ p] c n by simp
  note I' = part_invD [OF I]
  have len: "length zs = length xs" "i - 1 < length zs" "1 < length zs"
    using I'(1-3,5) by auto
  have pv: "ys ! (i - 1) = ?xs ! 1"
    using len I'(7) by (simp add: ys nth_swp_exchange)
  show "cmp (ys ! k) (ys ! (i - 1)) \<le> 0" if "k < i - 1" for k
  proof -
    have "ys ! k = zs ! (if k = 1 then i - 1 else k)"
      using len that by (simp add: ys nth_swp_exchange)
    moreover have "cmp (zs ! (if k = 1 then i - 1 else k)) (?xs ! 1) \<le> 0"
    proof (cases "k = 0")
      case True
      then show ?thesis using I'(6) c(1) by simp
    next
      case False
      then show ?thesis using I'(8) [of "if k = 1 then i - 1 else k"] that by auto
    qed
    ultimately show ?thesis using pv by simp
  qed
  show "cmp (ys ! (i - 1)) (ys ! k) \<le> 0" if "i \<le> k" "k < length xs" for k
  proof -
    have "k \<noteq> 1" "k \<noteq> i - 1" using that I'(1) by auto
    then have "ys ! k = zs ! k"
      using len by (simp add: ys nth_swp_exchange)
    then show ?thesis using pv I'(9) [of k] that by simp
  qed
qed

lemma sorted_zend_sort:
  "set xs \<subseteq> A \<Longrightarrow> sorted_by cmp (zend_sort cmp exchange xs)"
proof (induction xs rule: zend_sort_induct [of _ cmp exchange])
  case (small xs)
  then show ?case by (simp add: zend_sort_small sorted_insert_sort)
next
  case (large xs i ys)
  let ?v = "ys ! (i - 1)"
  let ?l = "zend_sort cmp exchange (take (i - 1) ys)"
  let ?r = "zend_sort cmp exchange (drop i ys)"
  have "mset ys = mset xs" using large(1,2) by (rule mset_round)
  then have yA: "set ys \<subseteq> A" using large.prems by (metis set_mset_mset)
  then have parts: "set (take (i - 1) ys) \<subseteq> A" "set (drop i ys) \<subseteq> A" "?v \<in> A"
    using large by (auto dest: in_set_takeD in_set_dropD)
  have sets: "set ?l = set (take (i - 1) ys)" "set ?r = set (drop i ys)"
    by (metis mset_zend_sort set_mset_mset)+
  note rs = round_spec [OF large.prems large(1,2)]
  have low: "cmp a ?v \<le> 0" if "a \<in> set ?l" for a
    using that [unfolded sets] rs(1) large by (auto simp: in_set_conv_nth)
  have high: "cmp ?v a \<le> 0" if "a \<in> set ?r" for a
  proof -
    have "a \<in> set (drop i ys)" using that by (simp only: sets)
    then obtain m where "m < length ys - i" "a = ys ! (i + m)"
      using large by (auto simp: in_set_conv_nth)
    then show ?thesis using rs(2) [of "i + m"] large by simp
  qed
  have "cmp a b \<le> 0" if "a \<in> set ?l" "b \<in> set ?r" for a b
    using trans [of a ?v b] low high that parts sets by blast
  with low high large.IH parts show ?case
    by (simp add: zend_sort_large [OF large(1,2)] sorted_by_def sorted_wrt_append)
qed

end

subsection \<open>The sort interface\<close>

text \<open>
  What a caller of a \<open>sort_func_t\<close> relies on: \<open>zend_llist_sort\<close> and
  \<open>zend_hash_sort\<close> are proved against this contract, for either routine.
\<close>

locale sort_func =
  fixes sort :: "'a compare_func \<Rightarrow> 'a swap_func \<Rightarrow> 'a list \<Rightarrow> 'a list"
  assumes sort_mset: "mset (sort cmp exchange xs) = mset xs"
    and sort_sorted: "compare_order cmp A \<Longrightarrow> set xs \<subseteq> A \<Longrightarrow> sorted_by cmp (sort cmp exchange xs)"
begin

lemma sort_length: "length (sort cmp exchange xs) = length xs"
  by (metis sort_mset size_mset)

lemma sort_set: "set (sort cmp exchange xs) = set xs"
  by (metis sort_mset set_mset_mset)

lemma sort_distinct: "distinct (sort cmp exchange xs) = distinct xs"
  by (metis sort_mset mset_eq_imp_distinct_iff)

text \<open>A strict order leaves only one sorted arrangement.\<close>

lemma sort_unique:
  assumes "compare_order cmp A" "set xs \<subseteq> A" "mset ys = mset xs" "sorted_by cmp ys"
    and antisym: "\<And>a b. a \<in> A \<Longrightarrow> b \<in> A \<Longrightarrow> cmp a b \<le> 0 \<Longrightarrow> cmp b a \<le> 0 \<Longrightarrow> a = b"
  shows "sort cmp exchange xs = ys"
proof -
  have "zs = ys" if "mset zs = mset ys" "set ys \<subseteq> A" "sorted_by cmp zs" "sorted_by cmp ys" for zs
    using that
  proof (induction zs arbitrary: ys)
    case Nil
    then show ?case by simp
  next
    case (Cons z zs)
    then obtain y ys' where ys: "ys = y # ys'" by (cases ys) auto
    have eq: "set (z # zs) = set (y # ys')" using Cons.prems(1) ys by (metis set_mset_mset)
    have "z = y"
    proof (rule ccontr)
      assume "z \<noteq> y"
      with eq have "z \<in> set ys'" "y \<in> set zs" by auto
      with Cons.prems(3,4) ys have "cmp y z \<le> 0" "cmp z y \<le> 0" by (auto simp: sorted_by_def)
      moreover have "z \<in> A" "y \<in> A" using Cons.prems(2) eq ys by auto
      ultimately show False using antisym \<open>z \<noteq> y\<close> by blast
    qed
    with Cons ys show ?case by (auto simp: sorted_by_def)
  qed
  with assms(2-4) sort_mset sort_sorted [OF assms(1,2)] show ?thesis
    by (metis set_mset_mset)
qed

end

interpretation zs: sort_func zend_sort
  by unfold_locales (auto intro: mset_zend_sort compare_order.sorted_zend_sort)

interpretation zis: sort_func zend_insert_sort
  by unfold_locales (auto intro: mset_insert_sort compare_order.sorted_insert_sort)

subsection \<open>Accesses stay inside the segment\<close>

text \<open>
  Sorting commutes with relabelling the elements. An index outside the segment
  would break this, since \<open>map f xs ! i\<close> is \<open>f (xs ! i)\<close> for the indices of
  \<open>xs\<close> only. The same fact covers the swap functions that move a part of each
  element, such as the renumbering swap of \<open>zend_hash_sort\<close>: \<open>f\<close> is then the
  part that moves.
\<close>

definition moves :: "('a \<Rightarrow> 'b) \<Rightarrow> 'a swap_func \<Rightarrow> bool" where
  "moves f swp \<longleftrightarrow> (\<forall>x y. f (fst (swp x y)) = f y \<and> f (snd (swp x y)) = f x)"

definition on :: "('a \<Rightarrow> 'b) \<Rightarrow> 'b compare_func \<Rightarrow> 'a compare_func" where
  "on f cmp a b = cmp (f a) (f b)"

lemma moves_exchange [simp]: "moves f exchange"
  by (simp add: moves_def exchange_def)

lemma gt_map: "a < length xs \<Longrightarrow> b < length xs \<Longrightarrow> gt cmp (map f xs) a b = gt (on f cmp) xs a b"
  by (simp add: gt_def on_def)

lemma swp_map:
  "moves f swp \<Longrightarrow> a < length xs \<Longrightarrow> b < length xs \<Longrightarrow>
     swp_at exchange (map f xs) a b = map f (swp_at swp xs a b)"
  by (auto simp: swp_at_def exchange_def moves_def map_update split: prod.split)
    (metis fst_conv snd_conv)

lemma sort_2_map:
  "moves f swp \<Longrightarrow> a < length xs \<Longrightarrow> b < length xs \<Longrightarrow>
     zend_sort_2 cmp exchange a b (map f xs) = map f (zend_sort_2 (on f cmp) swp a b xs)"
  by (simp add: zend_sort_2_def gt_map swp_map)

lemma sort_3_map:
  "moves f swp \<Longrightarrow> a < length xs \<Longrightarrow> b < length xs \<Longrightarrow> c < length xs \<Longrightarrow>
     zend_sort_3 cmp exchange a b c (map f xs) = map f (zend_sort_3 (on f cmp) swp a b c xs)"
  by (simp add: zend_sort_3_def Let_def gt_map swp_map)

lemma sort_4_map:
  "moves f swp \<Longrightarrow> a < length xs \<Longrightarrow> b < length xs \<Longrightarrow> c < length xs \<Longrightarrow> d < length xs \<Longrightarrow>
     zend_sort_4 cmp exchange a b c d (map f xs) = map f (zend_sort_4 (on f cmp) swp a b c d xs)"
  by (simp add: zend_sort_4_def Let_def gt_map swp_map sort_3_map)

lemma sort_5_map:
  "moves f swp \<Longrightarrow> a < length xs \<Longrightarrow> b < length xs \<Longrightarrow> c < length xs \<Longrightarrow> d < length xs \<Longrightarrow>
     e < length xs \<Longrightarrow>
     zend_sort_5 cmp exchange a b c d e (map f xs) = map f (zend_sort_5 (on f cmp) swp a b c d e xs)"
  by (simp add: zend_sort_5_def Let_def gt_map swp_map sort_4_map)

lemma insert_pos_map:
  "j \<le> i \<Longrightarrow> i < length xs \<Longrightarrow> insert_pos cmp (map f xs) i j = insert_pos (on f cmp) xs i j"
  by (induction j) (auto simp: gt_map)

lemma insert_pos2_map:
  "2 \<le> j \<Longrightarrow> j < i \<Longrightarrow> i < length xs \<Longrightarrow>
     insert_pos2 cmp (map f xs) i j = insert_pos2 (on f cmp) xs i j"
proof (induction j rule: less_induct)
  case (less j)
  have "insert_pos2 cmp (map f xs) i (j - 2) = insert_pos2 (on f cmp) xs i (j - 2)"
    if "j - 2 \<noteq> 0" "j - 2 \<noteq> 1"
    using that less.prems by (intro less.IH) auto
  moreover have "gt cmp (map f xs) i 0 = gt (on f cmp) xs i 0"
    using less.prems by (intro gt_map) auto
  ultimately show ?case
    using less.prems
    unfolding insert_pos2.simps [of cmp "map f xs" i j] insert_pos2.simps [of "on f cmp" xs i j]
    by (auto simp: Let_def gt_map)
qed

lemma shift_down_map:
  "moves f swp \<Longrightarrow> k < length xs \<Longrightarrow>
     shift_down exchange (map f xs) k j = map f (shift_down swp xs k j)"
proof (induction k arbitrary: xs)
  case 0
  then show ?case by (simp add: shift_down.simps [of _ _ 0])
next
  case (Suc k)
  then show ?case
    by (simp add: shift_down.simps [of _ "map f xs" "Suc k"] shift_down.simps [of _ xs "Suc k"] swp_map)
qed

lemma insert_head_map:
  assumes "moves f swp"
  shows "0 < i \<Longrightarrow> 6 \<le> length xs \<Longrightarrow>
    insert_head cmp exchange i (map f xs) = map f (insert_head (on f cmp) swp i xs)"
proof (induction "6 - i" arbitrary: i xs)
  case 0
  then show ?case
    by (simp add: insert_head.simps [of cmp _ i "map f xs"] insert_head.simps [of _ swp i xs])
next
  case (Suc n)
  then have "i < 6" by simp
  with Suc assms show ?case
    by (simp add: insert_head.simps [of cmp _ i "map f xs"] insert_head.simps [of _ swp i xs]
        Let_def gt_map insert_pos_map shift_down_map)
qed

lemma insert_tail_map:
  assumes "moves f swp"
  shows "6 \<le> i \<Longrightarrow> n \<le> length xs \<Longrightarrow>
    insert_tail cmp exchange n i (map f xs) = map f (insert_tail (on f cmp) swp n i xs)"
proof (induction "n - i" arbitrary: i xs)
  case 0
  then show ?case
    by (simp add: insert_tail.simps [of cmp _ n i "map f xs"] insert_tail.simps [of _ swp n i xs])
next
  case (Suc m)
  then have "i < n" by simp
  with Suc assms show ?case
    by (simp add: insert_tail.simps [of cmp _ n i "map f xs"] insert_tail.simps [of _ swp n i xs]
        Let_def gt_map insert_pos2_map shift_down_map)
qed

lemma insert_sort_map:
  "moves f swp \<Longrightarrow>
     zend_insert_sort cmp exchange (map f xs) = map f (zend_insert_sort (on f cmp) swp xs)"
proof -
  assume mv: "moves f swp"
  have len: "length (insert_head (on f cmp) swp 1 xs) = length xs" if "6 \<le> length xs"
    using insert_head_map [OF mv, of 1 xs cmp] mset_insert_head [of "map f xs" cmp 1] that
    by (metis length_map zero_less_one)
  show ?thesis
    using mv len
    by (simp add: zend_insert_sort_def Let_def sort_2_map sort_3_map sort_4_map sort_5_map
        insert_head_map insert_tail_map)
qed

lemma scan_up_map:
  "i < j \<Longrightarrow> j < length xs \<Longrightarrow> scan_up cmp (map f xs) i j = scan_up (on f cmp) xs i j"
proof (induction "j - i" arbitrary: i)
  case (Suc n)
  then show ?case
    by (auto simp: scan_up.simps [of cmp "map f xs" i j] scan_up.simps [of _ xs i j] gt_map)
qed simp

lemma scan_down_map:
  "1 < length xs \<Longrightarrow> j < length xs \<Longrightarrow> scan_down cmp (map f xs) i j = scan_down (on f cmp) xs i j"
proof (induction j rule: less_induct)
  case (less j)
  then show ?case
    by (auto simp: scan_down.simps [of cmp "map f xs" i j] scan_down.simps [of _ xs i j] gt_map)
qed

lemma partition_map:
  assumes "moves f swp"
  shows "2 \<le> i \<Longrightarrow> i < j \<Longrightarrow> j < length xs \<Longrightarrow>
    partition_loop cmp exchange i j (map f xs)
      = map_prod id (map f) (partition_loop (on f cmp) swp i j xs)"
proof (induction "j - i" arbitrary: i j xs rule: less_induct)
  case less
  obtain d1 i1 where up: "scan_up (on f cmp) xs i j = (d1, i1)" by fastforce
  obtain d2 j1 where down: "scan_down (on f cmp) xs i1 (j - 1) = (d2, j1)" by fastforce
  have up': "scan_up cmp (map f xs) i j = (d1, i1)"
    using up less.prems by (simp add: scan_up_map)
  have down': "scan_down cmp (map f xs) i1 (j - 1) = (d2, j1)"
    using down less.prems by (subst scan_down_map) auto
  note ub = scan_up_bounds [OF less.prems(2) up]
  note step = partition_loop_step [OF less.prems(2) up down, of swp]
    partition_loop_step [OF less.prems(2) up' down', of exchange]
  show ?case
  proof (cases "d1 \<or> j - 1 = i1 \<or> d2")
    case True
    then show ?thesis by (simp add: step)
  next
    case False
    with ub have lt: "i1 < j - 1" by auto
    from scan_down_bounds [OF lt down] False have j1: "i1 < j1" "j1 \<le> j - 1" by auto
    have sw: "swp_at exchange (map f xs) i1 j1 = map f (swp_at swp xs i1 j1)"
      using assms j1 less.prems by (intro swp_map) auto
    have "partition_loop cmp exchange (i1 + 1) j1 (map f (swp_at swp xs i1 j1))
        = map_prod id (map f) (partition_loop (on f cmp) swp (i1 + 1) j1 (swp_at swp xs i1 j1))"
      if "i1 + 1 \<noteq> j1"
      using that j1 ub less.prems by (intro less.hyps) auto
    with False show ?thesis by (simp add: step sw)
  qed
qed

lemma choose_pivot_map:
  assumes "moves f swp" "16 < length xs"
  shows "choose_pivot cmp exchange (map f xs) = map f (choose_pivot (on f cmp) swp xs)"
proof -
  note b = probe_bounds [OF assms(2)]
  have in0: "0 < length xs" and in1: "1 < length xs" and inl: "length xs - 1 < length xs"
    using assms(2) by auto
  show ?thesis
    unfolding choose_pivot_def Let_def length_map
    by (simp only: if_distrib [of "map f", symmetric] swp_map [OF assms(1), symmetric] length_sort_5
        sort_5_map [OF assms(1) in0 b(4) b(3) b(5) inl] sort_3_map [OF assms(1) in0 b(3) inl]
        length_sort_3 in1 b(3) if_distrib [of length] if_cancel)
qed

lemma round_map:
  assumes mv: "moves f swp" and n: "16 < length xs"
  shows "zend_sort_round cmp exchange (map f xs)
    = map_prod id (map f) (zend_sort_round (on f cmp) swp xs)"
proof -
  let ?ys = "choose_pivot (on f cmp) swp xs"
  obtain i zs where p: "partition_loop (on f cmp) swp 2 (length xs - 1) ?ys = (i, zs)" by fastforce
  have "partition_loop cmp exchange 2 (length xs - 1) (map f ?ys) = (i, map f zs)"
    using partition_map [OF mv, of 2 "length xs - 1" ?ys cmp] n p by simp
  moreover have "i \<le> length xs - 1" "length zs = length xs"
    using partition_bounds [OF _ p] n by auto
  ultimately show ?thesis
    using p n mv by (simp add: zend_sort_round_def choose_pivot_map swp_map)
qed

lemma zend_sort_map:
  assumes mv: "moves f swp"
  shows "zend_sort cmp exchange (map f xs) = map f (zend_sort (on f cmp) swp xs)"
proof (induction xs rule: zend_sort_induct [of _ "on f cmp" swp])
  case (small xs)
  then show ?case by (simp add: zend_sort_small insert_sort_map mv)
next
  case (large xs i ys)
  have "zend_sort_round cmp exchange (map f xs) = (i, map f ys)"
    using round_map [OF mv large(1), of cmp] large(2) by simp
  moreover have "16 < length (map f xs)" using large(1) by simp
  ultimately have "zend_sort cmp exchange (map f xs) = zend_sort cmp exchange (take (i - 1) (map f ys))
      @ [map f ys ! (i - 1)] @ zend_sort cmp exchange (drop i (map f ys))"
    by (intro zend_sort_large)
  then show ?case
    using large by (simp add: zend_sort_large [OF large(1,2)] take_map drop_map)
qed

end
