(* ===== verification/ZendCase.thy ===== *)
theory ZendCase
  imports ZendSort
begin

unbundle bit_operations_syntax

text \<open>
  Case conversion and comparison of byte strings, from \<open>Zend/zend_operators.c\<close>: the
  table and the blocks of 16 bytes agree, and the comparisons are the lexicographic order
  of the bytes, or of the lowered bytes. A string is the list of its bytes; its length is
  kept beside it in the source, so a zero byte is a byte like any other.
\<close>

subsection \<open>Case conversion\<close>

definition zend_tolower_map :: "8 word list" where
  "zend_tolower_map =
     [
      0, 1, 2, 3, 4, 5, 6, 7, 8, 9, 10, 11, 12, 13, 14, 15,
      16, 17, 18, 19, 20, 21, 22, 23, 24, 25, 26, 27, 28, 29, 30, 31,
      32, 33, 34, 35, 36, 37, 38, 39, 40, 41, 42, 43, 44, 45, 46, 47,
      48, 49, 50, 51, 52, 53, 54, 55, 56, 57, 58, 59, 60, 61, 62, 63,
      64, 97, 98, 99, 100, 101, 102, 103, 104, 105, 106, 107, 108, 109, 110, 111,
      112, 113, 114, 115, 116, 117, 118, 119, 120, 121, 122, 91, 92, 93, 94, 95,
      96, 97, 98, 99, 100, 101, 102, 103, 104, 105, 106, 107, 108, 109, 110, 111,
      112, 113, 114, 115, 116, 117, 118, 119, 120, 121, 122, 123, 124, 125, 126, 127,
      128, 129, 130, 131, 132, 133, 134, 135, 136, 137, 138, 139, 140, 141, 142, 143,
      144, 145, 146, 147, 148, 149, 150, 151, 152, 153, 154, 155, 156, 157, 158, 159,
      160, 161, 162, 163, 164, 165, 166, 167, 168, 169, 170, 171, 172, 173, 174, 175,
      176, 177, 178, 179, 180, 181, 182, 183, 184, 185, 186, 187, 188, 189, 190, 191,
      192, 193, 194, 195, 196, 197, 198, 199, 200, 201, 202, 203, 204, 205, 206, 207,
      208, 209, 210, 211, 212, 213, 214, 215, 216, 217, 218, 219, 220, 221, 222, 223,
      224, 225, 226, 227, 228, 229, 230, 231, 232, 233, 234, 235, 236, 237, 238, 239,
      240, 241, 242, 243, 244, 245, 246, 247, 248, 249, 250, 251, 252, 253, 254, 255]"

definition zend_toupper_map :: "8 word list" where
  "zend_toupper_map =
     [
      0, 1, 2, 3, 4, 5, 6, 7, 8, 9, 10, 11, 12, 13, 14, 15,
      16, 17, 18, 19, 20, 21, 22, 23, 24, 25, 26, 27, 28, 29, 30, 31,
      32, 33, 34, 35, 36, 37, 38, 39, 40, 41, 42, 43, 44, 45, 46, 47,
      48, 49, 50, 51, 52, 53, 54, 55, 56, 57, 58, 59, 60, 61, 62, 63,
      64, 65, 66, 67, 68, 69, 70, 71, 72, 73, 74, 75, 76, 77, 78, 79,
      80, 81, 82, 83, 84, 85, 86, 87, 88, 89, 90, 91, 92, 93, 94, 95,
      96, 65, 66, 67, 68, 69, 70, 71, 72, 73, 74, 75, 76, 77, 78, 79,
      80, 81, 82, 83, 84, 85, 86, 87, 88, 89, 90, 123, 124, 125, 126, 127,
      128, 129, 130, 131, 132, 133, 134, 135, 136, 137, 138, 139, 140, 141, 142, 143,
      144, 145, 146, 147, 148, 149, 150, 151, 152, 153, 154, 155, 156, 157, 158, 159,
      160, 161, 162, 163, 164, 165, 166, 167, 168, 169, 170, 171, 172, 173, 174, 175,
      176, 177, 178, 179, 180, 181, 182, 183, 184, 185, 186, 187, 188, 189, 190, 191,
      192, 193, 194, 195, 196, 197, 198, 199, 200, 201, 202, 203, 204, 205, 206, 207,
      208, 209, 210, 211, 212, 213, 214, 215, 216, 217, 218, 219, 220, 221, 222, 223,
      224, 225, 226, 227, 228, 229, 230, 231, 232, 233, 234, 235, 236, 237, 238, 239,
      240, 241, 242, 243, 244, 245, 246, 247, 248, 249, 250, 251, 252, 253, 254, 255]"

definition zend_tolower_ascii :: "8 word \<Rightarrow> 8 word" where
  "zend_tolower_ascii c = zend_tolower_map ! unat c"

definition zend_toupper_ascii :: "8 word \<Rightarrow> 8 word" where
  "zend_toupper_ascii c = zend_toupper_map ! unat c"

text \<open>
  The SSE2 macros, for one byte of the 16 in a register: the bytes from \<open>start\<close> to
  \<open>end\<close> (\<open>fin\<close> here) are moved to the bottom of the signed range, so that one signed comparison finds
  them.
\<close>

definition SCHAR_MIN :: "8 word" where "SCHAR_MIN = - 128"

definition BLOCKCONV_STRIDE :: nat where "BLOCKCONV_STRIDE = 16"

definition blconv_mask :: "8 word \<Rightarrow> 8 word \<Rightarrow> 8 word \<Rightarrow> bool" where
  "blconv_mask start fin b \<longleftrightarrow>
     (let blconv_offset = SCHAR_MIN - start; blconv_threshold = SCHAR_MIN + (fin - start) + 1
      in b + blconv_offset <s blconv_threshold)"

definition blconv_result :: "8 word \<Rightarrow> 8 word \<Rightarrow> 8 word \<Rightarrow> 8 word \<Rightarrow> 8 word" where
  "blconv_result start fin delta b = b + ((if blconv_mask start fin b then - 1 else 0) AND delta)"

definition BLOCKCONV_FOUND :: "8 word \<Rightarrow> 8 word \<Rightarrow> 8 word list \<Rightarrow> bool" where
  "BLOCKCONV_FOUND start fin block \<longleftrightarrow> (\<exists>b\<in>set block. blconv_mask start fin b)"

text \<open>\<open>conv_impl\<close>: the blocks as long as a whole one is left, then byte by byte.\<close>

function conv_impl :: "('b \<Rightarrow> 'b) \<Rightarrow> ('b \<Rightarrow> 'b) \<Rightarrow> 'b list \<Rightarrow> 'b list" where
  "conv_impl block byte p =
     (if BLOCKCONV_STRIDE \<le> length p
      then map block (take BLOCKCONV_STRIDE p) @ conv_impl block byte (drop BLOCKCONV_STRIDE p)
      else map byte p)"
  by pat_completeness auto
termination
  by (relation "measure (\<lambda>(block, byte, p). length p)") (auto simp: BLOCKCONV_STRIDE_def)

declare conv_impl.simps [simp del]

definition zend_str_tolower_impl :: "8 word list \<Rightarrow> 8 word list" where
  "zend_str_tolower_impl = conv_impl (blconv_result 65 90 (97 - 65)) zend_tolower_ascii"

definition zend_str_toupper_impl :: "8 word list \<Rightarrow> 8 word list" where
  "zend_str_toupper_impl = conv_impl (blconv_result 97 122 (65 - 97)) zend_toupper_ascii"

definition zend_str_tolower_copy :: "8 word list \<Rightarrow> 8 word list" where
  "zend_str_tolower_copy source = zend_str_tolower_impl source @ [0]"

definition zend_str_toupper_copy :: "8 word list \<Rightarrow> 8 word list" where
  "zend_str_toupper_copy source = zend_str_toupper_impl source @ [0]"

definition zend_str_tolower_dup :: "8 word list \<Rightarrow> 8 word list" where
  "zend_str_tolower_dup source = zend_str_tolower_copy source"

definition zend_str_toupper_dup :: "8 word list \<Rightarrow> 8 word list" where
  "zend_str_toupper_dup source = zend_str_toupper_copy source"

definition zend_str_tolower :: "8 word list \<Rightarrow> 8 word list" where
  "zend_str_tolower str = zend_str_tolower_impl str"

definition zend_str_toupper :: "8 word list \<Rightarrow> 8 word list" where
  "zend_str_toupper str = zend_str_toupper_impl str"

text \<open>
  The \<open>_dup_ex\<close> variants return a new string only when a byte changes; \<open>p\<close> is split into
  what is already scanned and the rest.
\<close>

fun dup_scan :: "('b \<Rightarrow> 'b) \<Rightarrow> ('b list \<Rightarrow> 'b list) \<Rightarrow> 'b list \<Rightarrow> 'b list \<Rightarrow> 'b list option" where
  "dup_scan byte impl scanned [] = None"
| "dup_scan byte impl scanned (c # p) =
     (if c \<noteq> byte c then Some (scanned @ impl (c # p))
      else dup_scan byte impl (scanned @ [c]) p)"

definition zend_str_tolower_dup_ex :: "8 word list \<Rightarrow> 8 word list option" where
  "zend_str_tolower_dup_ex source =
     map_option (\<lambda>res. res @ [0]) (dup_scan zend_tolower_ascii zend_str_tolower_impl [] source)"

definition zend_str_toupper_dup_ex :: "8 word list \<Rightarrow> 8 word list option" where
  "zend_str_toupper_dup_ex source =
     map_option (\<lambda>res. res @ [0]) (dup_scan zend_toupper_ascii zend_str_toupper_impl [] source)"

text \<open>
  \<open>zend_string_tolower_ex\<close> scans by blocks first and hands the rest of the string to
  \<open>impl\<close> once a block has a byte to change. \<open>None\<close> is the string itself with one more
  reference, \<open>Some\<close> the bytes of a new string.
\<close>

function string_scan :: "('b list \<Rightarrow> bool) \<Rightarrow> ('b \<Rightarrow> 'b) \<Rightarrow> ('b \<Rightarrow> 'b) \<Rightarrow> 'b list \<Rightarrow> 'b list
    \<Rightarrow> 'b list option" where
  "string_scan found block byte scanned p =
     (if BLOCKCONV_STRIDE \<le> length p then
        (if found (take BLOCKCONV_STRIDE p)
         then Some (scanned @ map block (take BLOCKCONV_STRIDE p)
                @ conv_impl block byte (drop BLOCKCONV_STRIDE p))
         else string_scan found block byte (scanned @ take BLOCKCONV_STRIDE p) (drop BLOCKCONV_STRIDE p))
      else dup_scan byte (map byte) scanned p)"
  by pat_completeness auto
termination
  by (relation "measure (\<lambda>(found, block, byte, scanned, p). length p)") (auto simp: BLOCKCONV_STRIDE_def)

declare string_scan.simps [simp del]

definition zend_string_tolower_ex :: "8 word list \<Rightarrow> 8 word list option" where
  "zend_string_tolower_ex str =
     string_scan (BLOCKCONV_FOUND 65 90) (blconv_result 65 90 (97 - 65)) zend_tolower_ascii [] str"

definition zend_string_toupper_ex :: "8 word list \<Rightarrow> 8 word list option" where
  "zend_string_toupper_ex str =
     string_scan (BLOCKCONV_FOUND 97 122) (blconv_result 97 122 (65 - 97)) zend_toupper_ascii [] str"

subsection \<open>Blocks and table agree\<close>

text \<open>A signed comparison is an unsigned one of the operands shifted by half the range.\<close>

lemma sint_shift: "sint b = uint (b + 128) - 128" for b :: "8 word"
  by (simp add: sint_uint signed_take_bit_eq_take_bit_shift uint_word_ariths take_bit_eq_mod)

lemma sless_shift: "a <s b \<longleftrightarrow> a + 128 < b + 128" for a b :: "8 word"
  by (simp add: word_sless_alt sint_shift word_less_def)

lemma range_offset: "lo \<le> hi \<Longrightarrow> b - lo < hi - lo + 1 \<longleftrightarrow> lo \<le> b \<and> b \<le> hi"
  if "hi - lo + 1 \<noteq> 0" for b lo hi :: "8 word"
  using that by uint_arith

lemma blconv_mask_range:
  "blconv_mask 65 90 b \<longleftrightarrow> 65 \<le> b \<and> b \<le> 90"
  "blconv_mask 97 122 b \<longleftrightarrow> 97 \<le> b \<and> b \<le> 122"
  using range_offset [of 90 65 b] range_offset [of 122 97 b]
  by (simp_all add: blconv_mask_def SCHAR_MIN_def sless_shift)

lemma tolower_map: "zend_tolower_map = map of_nat ([0..<65] @ [97..<123] @ [91..<256])"
  by (simp add: zend_tolower_map_def upt_rec [of 0 65] upt_rec [of "Suc 0" 65] numeral_2_eq_2 [symmetric])

lemma toupper_map: "zend_toupper_map = map of_nat ([0..<97] @ [65..<91] @ [123..<256])"
  by (simp add: zend_toupper_map_def upt_rec [of 0 97] upt_rec [of "Suc 0" 97] numeral_2_eq_2 [symmetric])

lemma unat_byte: "unat b < 256" for b :: "8 word"
  by (rule order_less_le_trans [OF unsigned_less]) simp

lemma byte_shift:
  "65 \<le> unat b \<Longrightarrow> of_nat (unat b + 32) = b + 32"
  "97 \<le> unat b \<Longrightarrow> of_nat (unat b - 32) = b - 32" for b :: "8 word"
  by (simp_all add: of_nat_diff)

lemma tolower_ascii_eq: "zend_tolower_ascii b = (if 65 \<le> b \<and> b \<le> 90 then b + 32 else b)"
proof -
  have n: "(65 \<le> b \<and> b \<le> 90) \<longleftrightarrow> 65 \<le> unat b \<and> unat b \<le> 90"
    by (simp add: word_le_nat_alt)
  have "([0..<65] @ [97..<123] @ [91..<256]) ! unat b =
      (if 65 \<le> unat b \<and> unat b \<le> 90 then unat b + 32 else unat b)"
    using unat_byte [of b] by (auto simp: nth_append simp del: upt_rec_numeral)
  moreover have "zend_tolower_ascii b = of_nat (([0..<65] @ [97..<123] @ [91..<256]) ! unat b)"
    unfolding zend_tolower_ascii_def tolower_map using unat_byte [of b] by (intro nth_map) (simp del: upt_rec_numeral)
  ultimately show ?thesis using n byte_shift(1) [of b] by simp
qed

lemma toupper_ascii_eq: "zend_toupper_ascii b = (if 97 \<le> b \<and> b \<le> 122 then b - 32 else b)"
proof -
  have n: "(97 \<le> b \<and> b \<le> 122) \<longleftrightarrow> 97 \<le> unat b \<and> unat b \<le> 122"
    by (simp add: word_le_nat_alt)
  have "([0..<97] @ [65..<91] @ [123..<256]) ! unat b =
      (if 97 \<le> unat b \<and> unat b \<le> 122 then unat b - 32 else unat b)"
    using unat_byte [of b] by (auto simp: nth_append simp del: upt_rec_numeral)
  moreover have "zend_toupper_ascii b = of_nat (([0..<97] @ [65..<91] @ [123..<256]) ! unat b)"
    unfolding zend_toupper_ascii_def toupper_map using unat_byte [of b] by (intro nth_map) (simp del: upt_rec_numeral)
  ultimately show ?thesis using n byte_shift(2) [of b] by simp
qed

lemma block_byte:
  "blconv_result 65 90 32 = zend_tolower_ascii"
  "blconv_result 97 122 (- 32) = zend_toupper_ascii"
  by (simp_all add: fun_eq_iff blconv_result_def blconv_mask_range tolower_ascii_eq toupper_ascii_eq)

lemma block_found:
  "blconv_mask 65 90 b \<longleftrightarrow> zend_tolower_ascii b \<noteq> b"
  "blconv_mask 97 122 b \<longleftrightarrow> zend_toupper_ascii b \<noteq> b"
  by (simp_all add: blconv_mask_range tolower_ascii_eq toupper_ascii_eq)

text \<open>Whatever is done by blocks is the table applied to every byte.\<close>

lemma conv_impl_map: "conv_impl f f p = map f p"
proof (induction f f p rule: conv_impl.induct)
  case (1 f p)
  then show ?case
    by (subst conv_impl.simps) (auto simp flip: map_append)
qed

lemma dup_scan_map:
  "(\<And>p. impl p = map byte p) \<Longrightarrow> map byte scanned = scanned \<Longrightarrow>
     dup_scan byte impl scanned p =
       (if map byte p = p then None else Some (map byte (scanned @ p)))"
  by (induction byte impl scanned p rule: dup_scan.induct) auto

lemma string_scan_map:
  assumes "\<And>bs. found bs \<longleftrightarrow> (\<exists>b\<in>set bs. byte b \<noteq> b)"
  shows "map byte scanned = scanned \<Longrightarrow>
     string_scan found byte byte scanned p =
       (if map byte p = p then None else Some (map byte (scanned @ p)))"
proof (induction "length p" arbitrary: scanned p rule: less_induct)
  case (less p)
  let ?t = "take BLOCKCONV_STRIDE p" and ?d = "drop BLOCKCONV_STRIDE p"
  have p: "map byte p = map byte ?t @ map byte ?d" by (simp flip: map_append)
  have fix_iff: "map byte xs = xs \<longleftrightarrow> \<not> (\<exists>b\<in>set xs. byte b \<noteq> b)" for xs
    by (induction xs) auto
  show ?case
  proof (cases "BLOCKCONV_STRIDE \<le> length p")
    case False
    then show ?thesis using less(2) by (subst string_scan.simps) (simp add: dup_scan_map)
  next
    case long: True
    show ?thesis
    proof (cases "found ?t")
      case True
      then have "map byte ?t \<noteq> ?t" using assms [of ?t] fix_iff by auto
      then have "map byte p \<noteq> p" using p by (metis append_take_drop_id append_eq_append_conv length_map)
      then show ?thesis using less(2) True long
        by (subst string_scan.simps) (simp add: conv_impl_map p [symmetric])
    next
      case False
      then have t: "map byte ?t = ?t" using assms [of ?t] fix_iff by auto
      then have "map byte p = p \<longleftrightarrow> map byte ?d = ?d"
        using p by (metis append_take_drop_id same_append_eq)
      moreover have "string_scan found byte byte (scanned @ ?t) ?d =
          (if map byte ?d = ?d then None else Some (map byte ((scanned @ ?t) @ ?d)))"
        using less(1) [of ?d "scanned @ ?t"] less(2) t long by (simp add: BLOCKCONV_STRIDE_def)
      ultimately show ?thesis using False long by (subst string_scan.simps) simp
    qed
  qed
qed

lemma tolower_impl_map: "zend_str_tolower_impl p = map zend_tolower_ascii p"
  by (simp add: zend_str_tolower_impl_def conv_impl_map block_byte)

lemma toupper_impl_map: "zend_str_toupper_impl p = map zend_toupper_ascii p"
  by (simp add: zend_str_toupper_impl_def conv_impl_map block_byte)

lemma tolower_dup_ex_map: "zend_str_tolower_dup_ex s =
    (if map zend_tolower_ascii s = s then None else Some (map zend_tolower_ascii s @ [0]))"
  by (simp add: zend_str_tolower_dup_ex_def dup_scan_map tolower_impl_map)

lemma string_tolower_ex_map: "zend_string_tolower_ex s =
    (if map zend_tolower_ascii s = s then None else Some (map zend_tolower_ascii s))"
  by (simp add: zend_string_tolower_ex_def string_scan_map block_byte BLOCKCONV_FOUND_def block_found)

lemma string_toupper_ex_map: "zend_string_toupper_ex s =
    (if map zend_toupper_ascii s = s then None else Some (map zend_toupper_ascii s))"
  by (simp add: zend_string_toupper_ex_def string_scan_map block_byte BLOCKCONV_FOUND_def block_found)

subsection \<open>Comparisons\<close>

text \<open>
  \<open>memcmp\<close> compares as \<open>unsigned char\<close>; its documentation fixes the sign of the result
  only, and so do the theorems. \<open>same\<close> says that both arguments are the same pointer.
\<close>

primrec memcmp :: "nat \<Rightarrow> 8 word list \<Rightarrow> 8 word list \<Rightarrow> int" where
  "memcmp 0 s1 s2 = 0"
| "memcmp (Suc n) s1 s2 =
     (if hd s1 = hd s2 then memcmp n (tl s1) (tl s2) else uint (hd s1) - uint (hd s2))"

definition ZEND_THREEWAY_COMPARE :: "nat \<Rightarrow> nat \<Rightarrow> int" where
  "ZEND_THREEWAY_COMPARE a b = (if a = b then 0 else if a < b then - 1 else 1)"

definition zend_binary_strcmp :: "bool \<Rightarrow> 8 word list \<Rightarrow> 8 word list \<Rightarrow> int" where
  "zend_binary_strcmp same s1 s2 =
     (if same then 0
      else let retval = memcmp (min (length s1) (length s2)) s1 s2
           in if retval = 0 then ZEND_THREEWAY_COMPARE (length s1) (length s2) else retval)"

definition zend_binary_strncmp :: "bool \<Rightarrow> 8 word list \<Rightarrow> 8 word list \<Rightarrow> nat \<Rightarrow> int" where
  "zend_binary_strncmp same s1 s2 len =
     (if same then 0
      else let retval = memcmp (min len (min (length s1) (length s2))) s1 s2
           in if retval = 0 then ZEND_THREEWAY_COMPARE (min len (length s1)) (min len (length s2))
              else retval)"

text \<open>The loop of the case-insensitive comparisons: \<open>None\<close> when it ends without a difference.\<close>

primrec case_loop :: "(8 word \<Rightarrow> int) \<Rightarrow> nat \<Rightarrow> 8 word list \<Rightarrow> 8 word list \<Rightarrow> int option" where
  "case_loop lower 0 s1 s2 = None"
| "case_loop lower (Suc len) s1 s2 =
     (let c1 = lower (hd s1); c2 = lower (hd s2)
      in if c1 \<noteq> c2 then Some (c1 - c2) else case_loop lower len (tl s1) (tl s2))"

definition ascii_lower :: "8 word \<Rightarrow> int" where
  "ascii_lower c = uint (zend_tolower_ascii c)"

definition zend_binary_strcasecmp :: "bool \<Rightarrow> 8 word list \<Rightarrow> 8 word list \<Rightarrow> int" where
  "zend_binary_strcasecmp same s1 s2 =
     (if same then 0
      else case case_loop ascii_lower (min (length s1) (length s2)) s1 s2 of
             Some r \<Rightarrow> r
           | None \<Rightarrow> ZEND_THREEWAY_COMPARE (length s1) (length s2))"

definition zend_binary_strncasecmp :: "bool \<Rightarrow> 8 word list \<Rightarrow> 8 word list \<Rightarrow> nat \<Rightarrow> int" where
  "zend_binary_strncasecmp same s1 s2 len =
     (if same then 0
      else case case_loop ascii_lower (min len (min (length s1) (length s2))) s1 s2 of
             Some r \<Rightarrow> r
           | None \<Rightarrow> ZEND_THREEWAY_COMPARE (min len (length s1)) (min len (length s2)))"

text \<open>The variants that follow the locale take the C library's \<open>tolower\<close> as an argument.\<close>

definition zend_binary_strcasecmp_l ::
  "(8 word \<Rightarrow> int) \<Rightarrow> bool \<Rightarrow> 8 word list \<Rightarrow> 8 word list \<Rightarrow> int" where
  "zend_binary_strcasecmp_l zend_tolower same s1 s2 =
     (if same then 0
      else case case_loop zend_tolower (min (length s1) (length s2)) s1 s2 of
             Some r \<Rightarrow> r
           | None \<Rightarrow> ZEND_THREEWAY_COMPARE (length s1) (length s2))"

definition zend_binary_strncasecmp_l ::
  "(8 word \<Rightarrow> int) \<Rightarrow> bool \<Rightarrow> 8 word list \<Rightarrow> 8 word list \<Rightarrow> nat \<Rightarrow> int" where
  "zend_binary_strncasecmp_l zend_tolower same s1 s2 len =
     (if same then 0
      else case case_loop zend_tolower (min len (min (length s1) (length s2))) s1 s2 of
             Some r \<Rightarrow> r
           | None \<Rightarrow> ZEND_THREEWAY_COMPARE (min len (length s1)) (min len (length s2)))"

lemma threeway_Suc [simp]: "ZEND_THREEWAY_COMPARE (Suc a) (Suc b) = ZEND_THREEWAY_COMPARE a b"
  by (simp add: ZEND_THREEWAY_COMPARE_def)

text \<open>The reference: the sign of the lexicographic order of the bytes.\<close>

fun lex_sign :: "'a::linorder list \<Rightarrow> 'a list \<Rightarrow> int" where
  "lex_sign [] [] = 0"
| "lex_sign [] (b # bs) = - 1"
| "lex_sign (a # as) [] = 1"
| "lex_sign (a # as) (b # bs) = (if a < b then - 1 else if b < a then 1 else lex_sign as bs)"

lemma sgn_strcmp: "sgn (zend_binary_strcmp False s1 s2) = lex_sign s1 s2"
proof (induction s1 s2 rule: lex_sign.induct)
  case (4 a as b bs)
  have "a < b \<longleftrightarrow> uint a < uint b" "b < a \<longleftrightarrow> uint b < uint a" by (simp_all add: word_less_def)
  then show ?case using 4
    by (cases "a = b") (auto simp: zend_binary_strcmp_def ZEND_THREEWAY_COMPARE_def Let_def)
qed (simp_all add: zend_binary_strcmp_def ZEND_THREEWAY_COMPARE_def)

lemma strncmp_take: "zend_binary_strncmp False s1 s2 n = zend_binary_strcmp False (take n s1) (take n s2)"
proof -
  have m: "memcmp k (take n s1) (take n s2) = memcmp k s1 s2" if "k \<le> n" for k n s1 s2
    using that
  proof (induction k arbitrary: n s1 s2)
    case (Suc k)
    then obtain m where n: "n = Suc m" by (cases n) auto
    have "hd (take n xs) = hd xs" "tl (take n xs) = take m (tl xs)" for xs :: "8 word list"
      by (cases xs; simp add: n)+
    then show ?case using Suc n by simp
  qed simp
  have "min (min (length s1) n) (min (length s2) n) = min n (min (length s1) (length s2))" by auto
  then show ?thesis
    by (simp add: zend_binary_strncmp_def zend_binary_strcmp_def m Let_def min.commute cong: if_cong)
qed

lemma case_loop_sgn:
  "sgn (case case_loop lower (min (length s1) (length s2)) s1 s2 of
          Some r \<Rightarrow> r | None \<Rightarrow> ZEND_THREEWAY_COMPARE (length s1) (length s2)) =
    lex_sign (map lower s1) (map lower s2)"
proof (induction s1 s2 rule: list_induct2')
  case (4 a as b bs)
  then show ?case by (auto simp: Let_def cong: option.case_cong)
qed (simp_all add: ZEND_THREEWAY_COMPARE_def)

lemma case_loop_take:
  "k \<le> n \<Longrightarrow> case_loop lower k (take n s1) (take n s2) = case_loop lower k s1 s2"
proof (induction k arbitrary: n s1 s2)
  case (Suc k)
  then obtain m where n: "n = Suc m" by (cases n) auto
  have "hd (take n xs) = hd xs" "tl (take n xs) = take m (tl xs)" for xs :: "8 word list"
    by (cases xs; simp add: n)+
  then show ?case using Suc n by (simp add: Let_def)
qed simp

lemma sgn_strcasecmp_l:
  "sgn (zend_binary_strcasecmp_l lower False s1 s2) = lex_sign (map lower s1) (map lower s2)"
  by (simp add: zend_binary_strcasecmp_l_def case_loop_sgn)

lemma strcasecmp_l: "zend_binary_strcasecmp = zend_binary_strcasecmp_l ascii_lower"
  by (simp add: fun_eq_iff zend_binary_strcasecmp_def zend_binary_strcasecmp_l_def)

lemma strncasecmp_take:
  "zend_binary_strncasecmp_l lower False s1 s2 n =
     zend_binary_strcasecmp_l lower False (take n s1) (take n s2)"
proof -
  have "min (min (length s1) n) (min (length s2) n) = min n (min (length s1) (length s2))" by auto
  then show ?thesis
    by (simp add: zend_binary_strncasecmp_l_def zend_binary_strcasecmp_l_def case_loop_take min.commute
        cong: option.case_cong)
qed

lemma lex_sign_mono: "(\<And>a b. f a < f b \<longleftrightarrow> a < b) \<Longrightarrow> lex_sign (map f xs) (map f ys) = lex_sign xs ys"
  by (induction xs ys rule: lex_sign.induct) auto

lemma sgn_strcasecmp:
  "sgn (zend_binary_strcasecmp False s1 s2) =
     lex_sign (map zend_tolower_ascii s1) (map zend_tolower_ascii s2)"
proof -
  have "map ascii_lower s = map uint (map zend_tolower_ascii s)" for s
    by (simp add: ascii_lower_def)
  then show ?thesis
    by (simp add: strcasecmp_l sgn_strcasecmp_l lex_sign_mono word_less_def del: map_map)
qed

text \<open>\<open>lex_sign\<close> is the sign of a total order.\<close>

lemma lex_sign_le_total: "lex_sign a b \<le> 0 \<or> lex_sign b a \<le> 0"
  by (induction a b rule: lex_sign.induct) auto

lemma lex_sign_le_trans: "lex_sign a b \<le> 0 \<Longrightarrow> lex_sign b c \<le> 0 \<Longrightarrow> lex_sign a c \<le> 0"
proof (induction a c arbitrary: b rule: lex_sign.induct)
  case (2 x xs)
  then show ?case by simp
next
  case (3 x xs)
  then show ?case by (cases b) (auto split: if_splits)
next
  case (4 x xs y ys)
  then show ?case by (cases b) (auto split: if_splits)
qed simp

lemma lex_sign_0: "lex_sign a b = 0 \<longleftrightarrow> a = b"
  by (induction a b rule: lex_sign.induct) auto

lemma sgn_le_0: "sgn x \<le> 0 \<longleftrightarrow> x \<le> (0::int)"
  by (simp add: sgn_if)

interpretation bytes_order: compare_order "zend_binary_strcmp False" A for A
proof
  fix a b c :: "8 word list"
  show "zend_binary_strcmp False a b \<le> 0 \<or> zend_binary_strcmp False b a \<le> 0"
    using lex_sign_le_total [of a b] by (simp flip: sgn_strcmp add: sgn_le_0)
  show "zend_binary_strcmp False a b \<le> 0 \<Longrightarrow> zend_binary_strcmp False b c \<le> 0 \<Longrightarrow>
      zend_binary_strcmp False a c \<le> 0"
    using lex_sign_le_trans [of a b c] by (simp flip: sgn_strcmp add: sgn_le_0)
qed

interpretation bytes_case_order: compare_order "zend_binary_strcasecmp False" A for A
proof
  fix a b c :: "8 word list"
  show "zend_binary_strcasecmp False a b \<le> 0 \<or> zend_binary_strcasecmp False b a \<le> 0"
    using lex_sign_le_total [of "map zend_tolower_ascii a" "map zend_tolower_ascii b"]
    by (simp flip: sgn_strcasecmp add: sgn_le_0)
  show "zend_binary_strcasecmp False a b \<le> 0 \<Longrightarrow> zend_binary_strcasecmp False b c \<le> 0 \<Longrightarrow>
      zend_binary_strcasecmp False a c \<le> 0"
    using lex_sign_le_trans [of "map zend_tolower_ascii a" "map zend_tolower_ascii b" "map zend_tolower_ascii c"]
    by (simp flip: sgn_strcasecmp add: sgn_le_0)
qed

end
