(* ===== verification/ZendSearch.thy ===== *)
theory ZendSearch
  imports ZendCase
begin

text \<open>
  Substring search, from \<open>Zend/zend_operators.c\<close>: the forward search returns the first
  occurrence, the backward search the last one, and both terminate.

  \<open>zend_memnstr_ex\<close> and \<open>zend_memnrstr_ex\<close> are Sunday's algorithm. The table \<open>td\<close> is
  an array of \<open>unsigned int\<close>, so its entries are taken modulo 2^32; the backward table is
  filled from an \<open>int\<close> index. A pointer into the haystack is its distance from the start.
\<close>

primrec td_forward :: "nat \<Rightarrow> 8 word list \<Rightarrow> nat list \<Rightarrow> nat list" where
  "td_forward 0 needle td = td"
| "td_forward (Suc i) needle td =
     (td_forward i needle td)[unat (needle ! i) := (length needle - i) mod 2 ^ 32]"

primrec td_backward :: "nat \<Rightarrow> 8 word list \<Rightarrow> nat list \<Rightarrow> nat list" where
  "td_backward 0 needle td = td"
| "td_backward (Suc i) needle td = td_backward i needle (td[unat (needle ! i) := (i + 1) mod 2 ^ 32])"

definition zend_memnstr_ex_pre :: "8 word list \<Rightarrow> bool \<Rightarrow> nat list" where
  "zend_memnstr_ex_pre needle reverse =
     (let needle_len = length needle; td = replicate 256 ((needle_len + 1) mod 2 ^ 32)
      in if reverse
         then td_backward (nat (sint (word_of_int (int needle_len - 1) :: 32 word) + 1)) needle td
         else td_forward needle_len needle td)"

fun match_len :: "8 word list \<Rightarrow> 8 word list \<Rightarrow> nat" where
  "match_len (n # needle) (c # p) = (if n \<noteq> c then 0 else Suc (match_len needle p))"
| "match_len needle p = 0"

fun memnstr_loop :: "nat \<Rightarrow> nat list \<Rightarrow> 8 word list \<Rightarrow> 8 word list \<Rightarrow> nat \<Rightarrow> nat
    \<Rightarrow> error + nat option" where
  "memnstr_loop 0 td haystack needle stop p = Inl NoReturn"
| "memnstr_loop (Suc fuel) td haystack needle stop p =
     (if p \<le> stop then
        (if match_len needle (drop p haystack) = length needle then Inr (Some p)
         else if p = stop then Inr None
         else bindE (rdi haystack (p + length needle)) (\<lambda>c.
                memnstr_loop fuel td haystack needle stop (p + td ! unat c)))
      else Inr None)"

definition zend_memnstr_ex :: "8 word list \<Rightarrow> 8 word list \<Rightarrow> error + nat option" where
  "zend_memnstr_ex haystack needle =
     (let needle_len = length needle
      in if needle_len = 0 \<or> length haystack < needle_len then Inr None
         else memnstr_loop (Suc (length haystack)) (zend_memnstr_ex_pre needle False) haystack needle
                (length haystack - needle_len) 0)"

fun memnrstr_loop :: "nat \<Rightarrow> nat list \<Rightarrow> 8 word list \<Rightarrow> 8 word list \<Rightarrow> int
    \<Rightarrow> error + nat option" where
  "memnrstr_loop 0 td haystack needle p = Inl NoReturn"
| "memnrstr_loop (Suc fuel) td haystack needle p =
     (if p \<ge> 0 then
        (if match_len needle (drop (nat p) haystack) = length needle then Inr (Some (nat p))
         else if p = 0 then Inr None
         else bindE (rdi haystack (nat p - 1)) (\<lambda>c.
                memnrstr_loop fuel td haystack needle (p - int (td ! unat c))))
      else Inr None)"

definition zend_memnrstr_ex :: "8 word list \<Rightarrow> 8 word list \<Rightarrow> error + nat option" where
  "zend_memnrstr_ex haystack needle =
     (let needle_len = length needle
      in if needle_len = 0 \<or> length haystack < needle_len then Inr None
         else memnrstr_loop (Suc (length haystack)) (zend_memnstr_ex_pre needle True) haystack needle
                (int (length haystack) - int needle_len))"

definition occurs_at :: "'a list \<Rightarrow> 'a list \<Rightarrow> nat \<Rightarrow> bool" where
  "occurs_at needle haystack q \<longleftrightarrow>
     q + length needle \<le> length haystack \<and> (\<forall>i<length needle. haystack ! (q + i) = needle ! i)"

lemma match_len_full:
  "length needle \<le> length p \<Longrightarrow>
     match_len needle p = length needle \<longleftrightarrow> (\<forall>i<length needle. p ! i = needle ! i)"
proof (induction needle p rule: match_len.induct)
  case (1 n needle c p)
  then show ?case by (auto simp: All_less_Suc2)
qed auto

lemma match_occurs:
  assumes "p + length needle \<le> length haystack"
  shows "match_len needle (drop p haystack) = length needle \<longleftrightarrow> occurs_at needle haystack p"
  using assms match_len_full [of needle "drop p haystack"] by (simp add: occurs_at_def)

text \<open>The two tables: an entry never exceeds the shift that aligns its byte.\<close>

lemma td_forward_bound:
  assumes "length needle + 1 < 2 ^ 32" "k \<le> length needle"
  shows "let td = td_forward k needle (replicate 256 (length needle + 1)) in
     length td = 256 \<and> (\<forall>c<256. 0 < td ! c \<and> td ! c \<le> length needle + 1) \<and>
     (\<forall>i<k. td ! unat (needle ! i) \<le> length needle - i)"
  using assms(2)
proof (induction k)
  case (Suc k)
  have m: "(length needle - k) mod 2 ^ 32 = length needle - k" using assms(1) by simp
  show ?case using Suc m unat_byte
    by (auto simp: Let_def nth_list_update less_Suc_eq)
qed (simp add: Let_def)

lemma td_backward_bound:
  assumes "length needle + 1 < 2 ^ 32"
    "length td = 256" "\<forall>c<256. 0 < td ! c \<and> td ! c \<le> length needle + 1" "k \<le> length needle"
    "\<forall>i<length needle. k \<le> i \<longrightarrow> td ! unat (needle ! i) \<le> i + 1"
  shows "length (td_backward k needle td) = 256"
    "\<forall>c<256. 0 < td_backward k needle td ! c \<and> td_backward k needle td ! c \<le> length needle + 1"
    "\<forall>i<length needle. td_backward k needle td ! unat (needle ! i) \<le> i + 1"
proof -
  have "length (td_backward k needle td) = 256 \<and>
     (\<forall>c<256. 0 < td_backward k needle td ! c \<and> td_backward k needle td ! c \<le> length needle + 1) \<and>
     (\<forall>i<length needle. td_backward k needle td ! unat (needle ! i) \<le> i + 1)"
    using assms(2-)
  proof (induction k arbitrary: td)
    case (Suc k)
    let ?td = "td[unat (needle ! k) := (k + 1) mod 2 ^ 32]"
    have m: "(k + 1) mod 2 ^ 32 = k + 1" using assms(1) Suc.prems(3) by simp
    have "\<forall>i<length needle. k \<le> i \<longrightarrow> ?td ! unat (needle ! i) \<le> i + 1"
    proof (intro allI impI)
      fix i assume i: "i < length needle" "k \<le> i"
      show "?td ! unat (needle ! i) \<le> i + 1"
      proof (cases "needle ! i = needle ! k")
        case True
        then show ?thesis using m i Suc.prems(1) unat_byte by simp
      next
        case False
        then have "unat (needle ! i) \<noteq> unat (needle ! k)" by (simp add: word_unat_eq_iff)
        then show ?thesis using Suc.prems(4) i False by (cases "i = k") auto
      qed
    qed
    moreover have "\<forall>c<256. 0 < ?td ! c \<and> ?td ! c \<le> length needle + 1"
      unfolding m using Suc.prems(1-3) by (auto simp: nth_list_update unat_byte)
    ultimately show ?case using Suc.IH [of ?td] Suc.prems(1,3) by simp
  qed simp
  then show "length (td_backward k needle td) = 256"
    "\<forall>c<256. 0 < td_backward k needle td ! c \<and> td_backward k needle td ! c \<le> length needle + 1"
    "\<forall>i<length needle. td_backward k needle td ! unat (needle ! i) \<le> i + 1"
    by blast+
qed

text \<open>No occurrence is skipped by a shift.\<close>

lemma forward_skip:
  fixes needle haystack :: "8 word list"
  assumes td: "\<forall>i<length needle. td ! unat (needle ! i) \<le> length needle - i"
      "\<forall>c<256. td ! c \<le> length needle + 1"
    and q: "occurs_at needle haystack q" "p < q"
  shows "p + td ! unat (haystack ! (p + length needle)) \<le> q"
proof (rule ccontr)
  let ?c = "haystack ! (p + length needle)"
  assume "\<not> ?thesis"
  then have lt: "q - p < td ! unat ?c" using q(2) by (simp add: not_le less_diff_conv2)
  moreover have "td ! unat ?c \<le> length needle + 1" using td(2) unat_byte [of ?c] by blast
  ultimately have j: "q - p \<le> length needle" by simp
  define i where "i = length needle - (q - p)"
  have i: "i < length needle" "p + length needle = q + i" "length needle - i = q - p"
    using j q(2) by (auto simp: i_def)
  then have "?c = needle ! i" using q(1) by (simp add: occurs_at_def)
  then have "td ! unat ?c \<le> q - p" using td(1) i by (simp add: i(3) [symmetric])
  then show False using lt by simp
qed

lemma backward_skip:
  fixes needle haystack :: "8 word list"
  assumes td: "\<forall>i<length needle. td ! unat (needle ! i) \<le> i + 1"
      "\<forall>c<256. td ! c \<le> length needle + 1"
    and q: "occurs_at needle haystack q" "q < p"
  shows "int q \<le> int p - int (td ! unat (haystack ! (p - 1)))"
proof (rule ccontr)
  let ?c = "haystack ! (p - 1)"
  assume "\<not> ?thesis"
  then have lt: "p - q < td ! unat ?c" using q(2) by (simp add: not_le less_diff_conv2 flip: of_nat_add)
  moreover have "td ! unat ?c \<le> length needle + 1" using td(2) unat_byte [of ?c] by blast
  ultimately have j: "p - q \<le> length needle" by simp
  define i where "i = p - q - 1"
  have i: "i < length needle" "p - 1 = q + i" "i + 1 = p - q"
    using j q(2) by (auto simp: i_def)
  then have "?c = needle ! i" using q(1) by (simp add: occurs_at_def)
  then have "td ! unat ?c \<le> p - q" using td(1) i by (simp add: i(3) [symmetric])
  then show False using lt by simp
qed

lemma memnstr_loop_ok:
  assumes td: "\<forall>i<length needle. td ! unat (needle ! i) \<le> length needle - i"
      "\<forall>c<256. 0 < td ! c \<and> td ! c \<le> length needle + 1"
    and len: "length needle \<le> length haystack"
  shows "length haystack + 1 - length needle - p < fuel \<Longrightarrow>
    \<exists>r. memnstr_loop fuel td haystack needle (length haystack - length needle) p = Inr r \<and>
     (case r of
        Some q \<Rightarrow> p \<le> q \<and> occurs_at needle haystack q \<and> (\<forall>k. p \<le> k \<longrightarrow> k < q \<longrightarrow> \<not> occurs_at needle haystack k)
      | None \<Rightarrow> \<forall>k\<ge>p. \<not> occurs_at needle haystack k)"
proof (induction fuel arbitrary: p)
  case (Suc fuel)
  let ?stop = "length haystack - length needle"
  show ?case
  proof (cases "p \<le> ?stop")
    case False
    then have "\<not> occurs_at needle haystack k" if "p \<le> k" for k
      using that len by (auto simp: occurs_at_def)
    then show ?thesis using False by simp
  next
    case True
    then have occ: "match_len needle (drop p haystack) = length needle \<longleftrightarrow> occurs_at needle haystack p"
      using len by (intro match_occurs) simp
    show ?thesis
    proof (cases "occurs_at needle haystack p")
      case True
      then show ?thesis using occ \<open>p \<le> ?stop\<close> by simp
    next
      case no: False
      show ?thesis
      proof (cases "p = ?stop")
        case True
        have "\<not> occurs_at needle haystack k" if "p \<le> k" for k
        proof (cases "k = p")
          case False
          then show ?thesis using that True len by (auto simp: occurs_at_def)
        qed (use no in simp)
        then show ?thesis using occ no True by simp
      next
        case False
        let ?c = "haystack ! (p + length needle)"
        define p' where "p' = p + td ! unat ?c"
        have in_range: "p + length needle < length haystack" using False True by simp
        have shift: "0 < td ! unat ?c" using td(2) unat_byte [of ?c] by blast
        have "length haystack + 1 - length needle - p' < fuel"
          using Suc.prems shift True False by (simp add: p'_def)
        from Suc.IH [OF this] obtain r where
          r: "memnstr_loop fuel td haystack needle ?stop p' = Inr r"
            "case r of Some q \<Rightarrow> p' \<le> q \<and> occurs_at needle haystack q \<and>
                (\<forall>k. p' \<le> k \<longrightarrow> k < q \<longrightarrow> \<not> occurs_at needle haystack k)
             | None \<Rightarrow> \<forall>k\<ge>p'. \<not> occurs_at needle haystack k" by blast
        have skip: "p' \<le> k" if "occurs_at needle haystack k" "p \<le> k" for k
          using forward_skip [OF td(1) _ that(1), of p] td(2) no that by (cases "k = p") (auto simp: p'_def)
        have "memnstr_loop (Suc fuel) td haystack needle ?stop p = Inr r"
          using r(1) occ no False True in_range by (simp add: p'_def)
        moreover have "p \<le> p'" by (simp add: p'_def)
        ultimately show ?thesis using r(2) skip
          by (intro exI [of _ r]) (auto split: option.splits)
      qed
    qed
  qed
qed simp

lemma memnrstr_loop_ok:
  assumes td: "\<forall>i<length needle. td ! unat (needle ! i) \<le> i + 1"
      "\<forall>c<256. 0 < td ! c \<and> td ! c \<le> length needle + 1"
    and len: "0 < length needle"
  shows "p < int fuel \<Longrightarrow> 0 < fuel \<Longrightarrow> p + int (length needle) \<le> int (length haystack) \<Longrightarrow>
    \<exists>r. memnrstr_loop fuel td haystack needle p = Inr r \<and>
     (case r of
        Some q \<Rightarrow> int q \<le> p \<and> occurs_at needle haystack q \<and>
          (\<forall>k. q < k \<longrightarrow> int k \<le> p \<longrightarrow> \<not> occurs_at needle haystack k)
      | None \<Rightarrow> \<forall>k. int k \<le> p \<longrightarrow> \<not> occurs_at needle haystack k)"
proof (induction fuel arbitrary: p)
  case (Suc fuel)
  show ?case
  proof (cases "0 \<le> p")
    case True
    define n where "n = nat p"
    have pn: "p = int n" using True by (simp add: n_def)
    have occ: "match_len needle (drop n haystack) = length needle \<longleftrightarrow> occurs_at needle haystack n"
      using Suc.prems(3) pn by (intro match_occurs) simp
    show ?thesis
    proof (cases "occurs_at needle haystack n")
      case True
      then show ?thesis using occ pn by simp
    next
      case no: False
      show ?thesis
      proof (cases "n = 0")
        case True
        then show ?thesis using occ no pn by simp
      next
        case False
        let ?c = "haystack ! (n - 1)"
        define p' where "p' = int n - int (td ! unat ?c)"
        have in_range: "n - 1 < length haystack" using Suc.prems(3) pn len by linarith
        have shift: "0 < td ! unat ?c" using td(2) unat_byte [of ?c] by blast
        then have "p' < int fuel" "0 < fuel" "p' + int (length needle) \<le> int (length haystack)"
          using Suc.prems False pn by (auto simp: p'_def)
        from Suc.IH [OF this] obtain r where
          r: "memnrstr_loop fuel td haystack needle p' = Inr r"
            "case r of Some q \<Rightarrow> int q \<le> p' \<and> occurs_at needle haystack q \<and>
                (\<forall>k. q < k \<longrightarrow> int k \<le> p' \<longrightarrow> \<not> occurs_at needle haystack k)
             | None \<Rightarrow> \<forall>k. int k \<le> p' \<longrightarrow> \<not> occurs_at needle haystack k" by blast
        have skip: "int k \<le> p'" if "occurs_at needle haystack k" "int k \<le> p" for k
          using backward_skip [OF td(1) _ that(1), of n] td(2) no that pn by (cases "k = n") (auto simp: p'_def)
        have "memnrstr_loop (Suc fuel) td haystack needle p = Inr r"
          using r(1) occ no False in_range by (simp add: p'_def pn)
        moreover have "p' \<le> p" by (simp add: p'_def pn)
        ultimately show ?thesis using r(2) skip
          by (intro exI [of _ r]) (auto split: option.splits)
      qed
    qed
  qed auto
qed simp

lemma memnstr_spec:
  assumes "length needle + 1 < 2 ^ 32" "needle \<noteq> []"
  obtains r where "zend_memnstr_ex haystack needle = Inr r"
    "case r of
       Some q \<Rightarrow> occurs_at needle haystack q \<and> (\<forall>k<q. \<not> occurs_at needle haystack k)
     | None \<Rightarrow> \<forall>k. \<not> occurs_at needle haystack k"
proof (cases "length haystack < length needle")
  case True
  then show ?thesis using that [of None] by (simp add: zend_memnstr_ex_def occurs_at_def)
next
  case False
  define td where "td = td_forward (length needle) needle (replicate 256 (length needle + 1))"
  have pre: "zend_memnstr_ex_pre needle False = td"
    using assms(1) by (simp add: zend_memnstr_ex_pre_def td_def Let_def)
  have b: "\<forall>i<length needle. td ! unat (needle ! i) \<le> length needle - i"
    "\<forall>c<256. 0 < td ! c \<and> td ! c \<le> length needle + 1"
    using td_forward_bound [OF assms(1), of "length needle"] by (simp_all add: td_def Let_def)
  have "length haystack + 1 - length needle - 0 < Suc (length haystack)"
    using assms(2) False by (cases needle) auto
  from memnstr_loop_ok [OF b _ this] False obtain r where
    r: "memnstr_loop (Suc (length haystack)) td haystack needle (length haystack - length needle) 0 = Inr r"
      "case r of Some q \<Rightarrow> 0 \<le> q \<and> occurs_at needle haystack q \<and> (\<forall>k. 0 \<le> k \<longrightarrow> k < q \<longrightarrow> \<not> occurs_at needle haystack k)
       | None \<Rightarrow> \<forall>k\<ge>0. \<not> occurs_at needle haystack k" by auto
  have "zend_memnstr_ex haystack needle = Inr r"
    using r(1) False assms(2) by (simp add: zend_memnstr_ex_def pre)
  then show ?thesis using r(2) by (intro that [of r]) (auto split: option.splits)
qed

lemma memnrstr_spec:
  assumes "length needle \<le> 2 ^ 31" "needle \<noteq> []"
  obtains r where "zend_memnrstr_ex haystack needle = Inr r"
    "case r of
       Some q \<Rightarrow> occurs_at needle haystack q \<and> (\<forall>k>q. \<not> occurs_at needle haystack k)
     | None \<Rightarrow> \<forall>k. \<not> occurs_at needle haystack k"
proof (cases "length haystack < length needle")
  case True
  then show ?thesis using that [of None] by (simp add: zend_memnrstr_ex_def occurs_at_def)
next
  case False
  let ?td = "replicate 256 (length needle + 1)"
  have lt: "length needle + 1 < 2 ^ 32" using assms(1) by simp
  define td where "td = td_backward (length needle) needle ?td"
  have "sint (word_of_int (int (length needle) - 1) :: 32 word) = int (length needle) - 1"
    using assms by (cases needle) (simp_all add: signed_of_nat signed_take_bit_int_eq_self)
  then have pre: "zend_memnstr_ex_pre needle True = td"
    using lt by (simp add: zend_memnstr_ex_pre_def td_def Let_def)
  have b: "\<forall>i<length needle. td ! unat (needle ! i) \<le> i + 1"
    "\<forall>c<256. 0 < td ! c \<and> td ! c \<le> length needle + 1"
    unfolding td_def using td_backward_bound(2,3) [OF lt, of ?td "length needle"] by simp_all
  let ?p = "int (length haystack) - int (length needle)"
  have "?p < int (Suc (length haystack))" "0 < Suc (length haystack)"
    "?p + int (length needle) \<le> int (length haystack)" "0 < length needle"
    using assms(2) by auto
  from memnrstr_loop_ok [OF b this(4,1,2,3)] obtain r where
    r: "memnrstr_loop (Suc (length haystack)) td haystack needle ?p = Inr r"
      "case r of Some q \<Rightarrow> int q \<le> ?p \<and> occurs_at needle haystack q \<and>
           (\<forall>k. q < k \<longrightarrow> int k \<le> ?p \<longrightarrow> \<not> occurs_at needle haystack k)
       | None \<Rightarrow> \<forall>k. int k \<le> ?p \<longrightarrow> \<not> occurs_at needle haystack k" by blast
  have "zend_memnrstr_ex haystack needle = Inr r"
    using r(1) False assms(2) by (simp add: zend_memnrstr_ex_def pre)
  moreover have "int k \<le> ?p" if "occurs_at needle haystack k" for k
    using that by (simp add: occurs_at_def)
  ultimately show ?thesis using r(2) by (intro that [of r]) (auto split: option.splits)
qed

end
