(* ===== verification/ZendIncrement.thy ===== *)
theory ZendIncrement
  imports ZendCase
begin

text \<open>
  \<open>increment_string\<close>, the \<open>++\<close> of a string that is not a number. \<open>LOWER_CASE\<close>,
  \<open>UPPER_CASE\<close> and \<open>NUMERIC\<close> are the source's constants; \<open>increment_char\<close> is the body of
  the loop for one character, \<open>None\<close> its break on any other character. The deprecation
  notice runs user code, which may throw: \<open>exception\<close> is \<open>EG(exception)\<close> after it.
\<close>

definition LOWER_CASE :: nat where "LOWER_CASE = 1"
definition UPPER_CASE :: nat where "UPPER_CASE = 2"
definition NUMERIC :: nat where "NUMERIC = 3"

definition increment_char :: "8 word \<Rightarrow> (8 word \<times> bool \<times> nat) option" where
  "increment_char ch =
     (if 97 \<le> ch \<and> ch \<le> 122 then
        (if ch = 122 then Some (97, True, LOWER_CASE) else Some (ch + 1, False, LOWER_CASE))
      else if 65 \<le> ch \<and> ch \<le> 90 then
        (if ch = 90 then Some (65, True, UPPER_CASE) else Some (ch + 1, False, UPPER_CASE))
      else if 48 \<le> ch \<and> ch \<le> 57 then
        (if ch = 57 then Some (48, True, NUMERIC) else Some (ch + 1, False, NUMERIC))
      else None)"

primrec increment_loop :: "nat \<Rightarrow> 8 word list \<Rightarrow> 8 word list \<times> bool \<times> nat" where
  "increment_loop 0 s =
     (case increment_char (s ! 0) of
        None \<Rightarrow> (s, False, 0)
      | Some (c, carry, cls) \<Rightarrow> (s[0 := c], carry, cls))"
| "increment_loop (Suc pos) s =
     (case increment_char (s ! Suc pos) of
        None \<Rightarrow> (s, False, 0)
      | Some (c, carry, cls) \<Rightarrow>
          if \<not> carry then (s[Suc pos := c], False, cls) else increment_loop pos (s[Suc pos := c]))"

definition increment_string :: "bool \<Rightarrow> 8 word list \<Rightarrow> 8 word list option" where
  "increment_string exception str =
     (if exception then None
      else if str = [] then Some [49]
      else Some (case increment_loop (length str - 1) str of
             (s, carry, cls) \<Rightarrow>
               if carry
               then (if cls = NUMERIC then 49 else if cls = UPPER_CASE then 65 else 97) # s
               else s))"

text \<open>
  The reference: a string of letters and digits is a number of mixed radix, whose places
  keep their class.
\<close>

definition char_class :: "8 word \<Rightarrow> nat" where
  "char_class c =
     (if 97 \<le> c \<and> c \<le> 122 then LOWER_CASE else if 65 \<le> c \<and> c \<le> 90 then UPPER_CASE
      else if 48 \<le> c \<and> c \<le> 57 then NUMERIC else 0)"

definition class_zero :: "nat \<Rightarrow> 8 word" where
  "class_zero k = (if k = LOWER_CASE then 97 else if k = UPPER_CASE then 65 else 48)"

definition class_radix :: "nat \<Rightarrow> nat" where
  "class_radix k = (if k = NUMERIC then 10 else 26)"

definition char_digit :: "8 word \<Rightarrow> nat" where
  "char_digit c = unat (c - class_zero (char_class c))"

definition str_value :: "8 word list \<Rightarrow> nat" where
  "str_value s = foldl (\<lambda>v c. v * class_radix (char_class c) + char_digit c) 0 s"

definition str_cap :: "8 word list \<Rightarrow> nat" where
  "str_cap s = prod_list (map (\<lambda>c. class_radix (char_class c)) s)"

definition alnum :: "8 word list \<Rightarrow> bool" where
  "alnum s \<longleftrightarrow> (\<forall>c\<in>set s. char_class c \<noteq> 0)"

lemmas class_defs = LOWER_CASE_def UPPER_CASE_def NUMERIC_def

definition zend_string_only_has_ascii_alphanumeric :: "8 word list \<Rightarrow> bool" where
  "zend_string_only_has_ascii_alphanumeric str \<longleftrightarrow>
     list_all (\<lambda>c. \<not> (c <s 48 \<or> 122 <s c \<or> (c <s 97 \<and> 90 <s c) \<or> (c <s 65 \<and> 57 <s c))) str"

lemma only_alphanumeric: "zend_string_only_has_ascii_alphanumeric s \<longleftrightarrow> alnum s"
proof -
  have "\<not> (c <s 48 \<or> 122 <s c \<or> (c <s 97 \<and> 90 <s c) \<or> (c <s 65 \<and> 57 <s c)) \<longleftrightarrow> char_class c \<noteq> 0" for c
  proof -
    have "(unat c + 128) mod 256 = (if unat c < 128 then unat c + 128 else unat c - 128)"
      using unat_byte [of c] by (simp add: mod_if)
    then show ?thesis using unat_byte [of c]
      by (auto simp: char_class_def class_defs sless_shift word_less_nat_alt word_le_nat_alt unat_word_ariths)
  qed
  then show ?thesis by (simp add: zend_string_only_has_ascii_alphanumeric_def alnum_def list_all_iff)
qed

lemma value_snoc: "str_value (s @ [c]) = str_value s * class_radix (char_class c) + char_digit c"
  by (simp add: str_value_def)

lemma cap_snoc: "str_cap (s @ [c]) = str_cap s * class_radix (char_class c)"
  by (simp add: str_cap_def)

lemma char_cases:
  assumes "char_class c \<noteq> 0"
  obtains "97 \<le> unat c" "unat c \<le> 122" "char_class c = LOWER_CASE" "char_digit c = unat c - 97"
  | "65 \<le> unat c" "unat c \<le> 90" "char_class c = UPPER_CASE" "char_digit c = unat c - 65"
  | "48 \<le> unat c" "unat c \<le> 57" "char_class c = NUMERIC" "char_digit c = unat c - 48"
proof -
  have le: "k \<le> c \<Longrightarrow> unat (c - k) = unat c - unat k" for k
    by (simp add: unat_sub)
  show thesis using assms that
    by (auto simp: char_class_def char_digit_def class_zero_def class_defs word_le_nat_alt unat_sub
        split: if_splits)
qed

lemma unat_inc: "unat c < 255 \<Longrightarrow> unat (c + 1) = unat c + 1" for c :: "8 word"
  by (simp add: unat_word_ariths)

lemma increment_char_step:
  assumes "char_class c \<noteq> 0"
  obtains d carry where "increment_char c = Some (d, carry, char_class c)" "char_class d = char_class c"
    "carry \<longleftrightarrow> char_digit c + 1 = class_radix (char_class c)"
    "carry \<Longrightarrow> d = class_zero (char_class c)" "\<not> carry \<Longrightarrow> char_digit d = char_digit c + 1"
  using assms
proof (cases rule: char_cases)
  case 1
  show ?thesis
  proof (cases "unat c = 122")
    case True
    then have "c = 122" by (simp add: word_unat_eq_iff)
    then show ?thesis
      by (intro that [of 97 True])
        (simp_all add: increment_char_def char_class_def char_digit_def class_zero_def class_radix_def class_defs)
  next
    case False
    then show ?thesis using 1 unat_inc [of c]
      by (intro that [of "c + 1" False])
        (auto simp: increment_char_def char_class_def char_digit_def class_zero_def class_radix_def
          class_defs word_le_nat_alt unat_sub word_unat_eq_iff)
  qed
next
  case 2
  show ?thesis
  proof (cases "unat c = 90")
    case True
    then have "c = 90" by (simp add: word_unat_eq_iff)
    then show ?thesis
      by (intro that [of 65 True])
        (simp_all add: increment_char_def char_class_def char_digit_def class_zero_def class_radix_def class_defs)
  next
    case False
    then show ?thesis using 2 unat_inc [of c]
      by (intro that [of "c + 1" False])
        (auto simp: increment_char_def char_class_def char_digit_def class_zero_def class_radix_def
          class_defs word_le_nat_alt unat_sub word_unat_eq_iff)
  qed
next
  case 3
  show ?thesis
  proof (cases "unat c = 57")
    case True
    then have "c = 57" by (simp add: word_unat_eq_iff)
    then show ?thesis
      by (intro that [of 48 True])
        (simp_all add: increment_char_def char_class_def char_digit_def class_zero_def class_radix_def class_defs)
  next
    case False
    then show ?thesis using 3 unat_inc [of c]
      by (intro that [of "c + 1" False])
        (auto simp: increment_char_def char_class_def char_digit_def class_zero_def class_radix_def
          class_defs word_le_nat_alt unat_sub word_unat_eq_iff)
  qed
qed

lemma digit_bound: "char_class c \<noteq> 0 \<Longrightarrow> char_digit c < class_radix (char_class c)"
  by (erule char_cases) (auto simp: class_radix_def class_defs)

lemma value_bound: "alnum s \<Longrightarrow> str_value s < str_cap s"
proof (induction s rule: rev_induct)
  case (snoc c s)
  then have v: "str_value s + 1 \<le> str_cap s" and d: "char_digit c < class_radix (char_class c)"
    using digit_bound by (auto simp: alnum_def)
  have "str_value (s @ [c]) < (str_value s + 1) * class_radix (char_class c)"
    using d by (simp add: value_snoc)
  also have "\<dots> \<le> str_cap (s @ [c])" unfolding cap_snoc using v by (rule mult_le_mono1)
  finally show ?case .
qed (simp add: str_value_def str_cap_def)

lemma digit_zero: "char_class c = k \<Longrightarrow> c = class_zero k \<Longrightarrow> char_digit c = 0"
  by (simp add: char_digit_def)

lemma class_nth: "alnum xs \<Longrightarrow> i < length xs \<Longrightarrow> char_class (xs ! i) \<noteq> 0"
  by (simp add: alnum_def)

definition incremented :: "8 word list \<Rightarrow> 8 word list \<Rightarrow> bool \<Rightarrow> bool" where
  "incremented u u' carry \<longleftrightarrow>
     map char_class u' = map char_class u \<and> (carry \<longleftrightarrow> str_value u + 1 = str_cap u) \<and>
     (carry \<longrightarrow> u' = map (\<lambda>c. class_zero (char_class c)) u) \<and>
     (\<not> carry \<longrightarrow> str_value u' = str_value u + 1)"

lemma incremented_last:
  assumes "alnum (u @ [c])" "char_class d = char_class c" "char_digit c + 1 \<noteq> class_radix (char_class c)"
    "char_digit d = char_digit c + 1"
  shows "incremented (u @ [c]) (u @ [d]) False"
proof -
  let ?r = "class_radix (char_class c)"
  have b: "str_value u + 1 \<le> str_cap u" "char_digit c + 1 < ?r"
    using assms value_bound [of u] digit_bound [of c] by (simp_all add: alnum_def)
  then have "str_value (u @ [c]) + 1 < (str_value u + 1) * ?r" by (simp add: value_snoc)
  also have "\<dots> \<le> str_cap (u @ [c])" unfolding cap_snoc using b(1) by (rule mult_le_mono1)
  finally show ?thesis using assms by (simp add: incremented_def value_snoc)
qed

lemma incremented_carry:
  assumes "alnum (u @ [c])" "char_class d = char_class c" "char_digit c + 1 = class_radix (char_class c)"
    "d = class_zero (char_class c)" "incremented u u' carry"
  shows "incremented (u @ [c]) (u' @ [d]) carry"
proof -
  let ?r = "class_radix (char_class c)"
  have v: "str_value (u @ [c]) + 1 = (str_value u + 1) * ?r"
    using assms(3) by (simp add: value_snoc)
  have "?r \<noteq> 0" by (simp add: class_radix_def)
  then have "str_value (u @ [c]) + 1 = str_cap (u @ [c]) \<longleftrightarrow> str_value u + 1 = str_cap u"
    unfolding v cap_snoc mult_cancel2 by blast
  moreover have "char_digit d = 0" using assms(2,4) by (intro digit_zero)
  then have "str_value (u' @ [d]) = str_value u' * ?r" using assms(2) by (simp add: value_snoc)
  ultimately show ?thesis using assms(2,4,5) v unfolding incremented_def by auto
qed

lemma increment_loop_ok:
  assumes "pos < length s" "alnum (take (Suc pos) s)"
  shows "\<exists>u carry cls. increment_loop pos s = (u @ drop (Suc pos) s, carry, cls) \<and>
     incremented (take (Suc pos) s) u carry \<and> (carry \<longrightarrow> cls = char_class (s ! 0))"
  using assms
proof (induction pos arbitrary: s)
  case 0
  then have t: "take (Suc 0) s = [] @ [s ! 0]" "s \<noteq> []" by (cases s; simp)+
  have cl: "char_class (s ! 0) \<noteq> 0" using 0 by (simp add: t alnum_def)
  from increment_char_step [OF cl] obtain d carry where
    d: "increment_char (s ! 0) = Some (d, carry, char_class (s ! 0))" "char_class d = char_class (s ! 0)"
      "carry \<longleftrightarrow> char_digit (s ! 0) + 1 = class_radix (char_class (s ! 0))"
      "carry \<Longrightarrow> d = class_zero (char_class (s ! 0))" "\<not> carry \<Longrightarrow> char_digit d = char_digit (s ! 0) + 1" by blast
  have "incremented [] [] True" by (simp add: incremented_def str_value_def str_cap_def)
  then have "incremented ([] @ [s ! 0]) ([] @ [d]) carry"
    using d 0(2) [unfolded t(1)] incremented_last [of "[]" "s ! 0" d]
      incremented_carry [of "[]" "s ! 0" d "[]" True]
    by (cases carry) simp_all
  then have "incremented (take (Suc 0) s) ([] @ [d]) carry" unfolding t(1) .
  moreover have "increment_loop 0 s = (([] @ [d]) @ drop (Suc 0) s, carry, char_class (s ! 0))"
    using d(1) t(2) by (cases s) simp_all
  ultimately show ?case by blast
next
  case (Suc pos)
  let ?u = "take (Suc pos) s" and ?c = "s ! Suc pos"
  have t: "take (Suc (Suc pos)) s = ?u @ [?c]" using Suc.prems(1) by (rule take_Suc_conv_app_nth)
  have cl: "char_class ?c \<noteq> 0" using Suc.prems(2) by (simp add: t alnum_def)
  from increment_char_step [OF cl] obtain d carry where
    d: "increment_char ?c = Some (d, carry, char_class ?c)" "char_class d = char_class ?c"
      "carry \<longleftrightarrow> char_digit ?c + 1 = class_radix (char_class ?c)"
      "carry \<Longrightarrow> d = class_zero (char_class ?c)" "\<not> carry \<Longrightarrow> char_digit d = char_digit ?c + 1" by blast
  have upd: "s[Suc pos := d] = (?u @ [d]) @ drop (Suc (Suc pos)) s"
    using Suc.prems(1) by (simp add: upd_conv_take_nth_drop)
  show ?case
  proof (cases carry)
    case False
    then have "incremented (?u @ [?c]) (?u @ [d]) False"
      using d Suc.prems(2) [unfolded t] by (intro incremented_last) simp_all
    moreover have "increment_loop (Suc pos) s = ((?u @ [d]) @ drop (Suc (Suc pos)) s, False, char_class ?c)"
      using False d(1) upd by simp
    ultimately show ?thesis unfolding t by blast
  next
    case True
    let ?s = "s[Suc pos := d]"
    have u: "take (Suc pos) ?s = ?u" "drop (Suc pos) ?s = d # drop (Suc (Suc pos)) s" "?s ! 0 = s ! 0"
      unfolding upd using Suc.prems(1) by (simp_all add: nth_append min_def)
    have "pos < length ?s" "alnum (take (Suc pos) ?s)"
      using Suc.prems u t by (simp_all add: alnum_def)
    from Suc.IH [OF this] obtain u' carry' cls where
      r: "increment_loop pos ?s = (u' @ drop (Suc pos) ?s, carry', cls)" "incremented ?u u' carry'"
        "carry' \<longrightarrow> cls = char_class (s ! 0)" unfolding u(1,3) by blast
    have "incremented (?u @ [?c]) (u' @ [d]) carry'"
      using d True Suc.prems(2) [unfolded t] r(2) by (intro incremented_carry) simp_all
    moreover have "increment_loop (Suc pos) s = ((u' @ [d]) @ drop (Suc (Suc pos)) s, carry', cls)"
      using True d(1) r(1) unfolding u(2) by simp
    ultimately show ?thesis unfolding t using r(3) by blast
  qed
qed

definition class_first :: "nat \<Rightarrow> 8 word" where
  "class_first k = (if k = NUMERIC then 49 else if k = UPPER_CASE then 65 else 97)"

lemma increment_string_spec:
  assumes "alnum s" "s \<noteq> []"
  obtains (next_value) s' where "increment_string False s = Some s'" "str_value s + 1 < str_cap s"
      "map char_class s' = map char_class s" "str_value s' = str_value s + 1"
  | (longer) "increment_string False s = Some (class_first (char_class (s ! 0)) #
        map (\<lambda>c. class_zero (char_class c)) s)" "str_value s + 1 = str_cap s"
proof -
  let ?p = "length s - 1"
  have p: "?p < length s" "Suc ?p = length s" using assms(2) by simp_all
  then have "alnum (take (Suc ?p) s)" using assms(1) by simp
  from increment_loop_ok [OF p(1) this] obtain u carry cls where
    r: "increment_loop ?p s = (u, carry, cls)" "incremented s u carry" "carry \<longrightarrow> cls = char_class (s ! 0)"
    unfolding p(2) by auto
  show thesis
  proof (cases carry)
    case True
    show ?thesis
      by (rule longer) (use True r assms(2) in \<open>simp_all add: increment_string_def incremented_def class_first_def\<close>)
  next
    case False
    show ?thesis
      by (rule next_value [of u])
        (use False r assms value_bound [OF assms(1)] in \<open>simp_all add: increment_string_def incremented_def\<close>)
  qed
qed

end
