(* ===== verification/StringTheorems.thy ===== *)
theory StringTheorems
  imports ZendSearch ZendIncrement
begin

text \<open>The properties of sorting and of the byte-string routines, with their witnesses.\<close>

subsection \<open>Sorting\<close>

text \<open>
  C14. \<open>zend_sort\<close> returns a permutation of its input, in ascending order, for every
  comparison function that is total and transitive on the elements: on both sides of the
  switch at 16 elements, for every choice of pivot and partition.
\<close>

theorem zend_sort_sorts:
  assumes "\<And>a b. a \<in> set xs \<Longrightarrow> b \<in> set xs \<Longrightarrow> cmp a b \<le> 0 \<or> cmp b a \<le> 0"
    "\<And>a b c. a \<in> set xs \<Longrightarrow> b \<in> set xs \<Longrightarrow> c \<in> set xs \<Longrightarrow>
      cmp a b \<le> 0 \<Longrightarrow> cmp b c \<le> 0 \<Longrightarrow> cmp a c \<le> 0"
  shows "mset (zend_sort cmp exchange xs) = mset xs \<and>
    sorted_wrt (\<lambda>a b. cmp a b \<le> 0) (zend_sort cmp exchange xs)"
proof -
  have "compare_order cmp (set xs)" using assms by unfold_locales
  then show ?thesis using zs.sort_mset zs.sort_sorted [of cmp "set xs" xs] by (simp add: sorted_by_def)
qed

theorem zend_sort_sorts_witness:
  "mset (zend_sort (zend_binary_strcmp False) exchange [[98], [97, 97], [97], []]) =
     mset [[98], [97, 97], [97], []] \<and>
   sorted_wrt (\<lambda>a b. zend_binary_strcmp False a b \<le> 0)
     (zend_sort (zend_binary_strcmp False) exchange [[98], [97, 97], [97], []])"
  using zend_sort_sorts [of _ "zend_binary_strcmp False"] bytes_order.total [OF UNIV_I UNIV_I]
    bytes_order.trans [OF UNIV_I UNIV_I UNIV_I] by blast

text \<open>\<open>zend_insert_sort\<close> sorts as well, for any length.\<close>

theorem zend_insert_sort_sorts:
  assumes "\<And>a b. a \<in> set xs \<Longrightarrow> b \<in> set xs \<Longrightarrow> cmp a b \<le> 0 \<or> cmp b a \<le> 0"
    "\<And>a b c. a \<in> set xs \<Longrightarrow> b \<in> set xs \<Longrightarrow> c \<in> set xs \<Longrightarrow>
      cmp a b \<le> 0 \<Longrightarrow> cmp b c \<le> 0 \<Longrightarrow> cmp a c \<le> 0"
  shows "mset (zend_insert_sort cmp exchange xs) = mset xs \<and>
    sorted_wrt (\<lambda>a b. cmp a b \<le> 0) (zend_insert_sort cmp exchange xs)"
proof -
  have "compare_order cmp (set xs)" using assms by unfold_locales
  then show ?thesis using zis.sort_mset zis.sort_sorted [of cmp "set xs" xs] by (simp add: sorted_by_def)
qed

theorem zend_insert_sort_sorts_witness:
  "mset (zend_insert_sort (zend_binary_strcasecmp False) exchange [[98], [65, 97], [97], []]) =
     mset [[98], [65, 97], [97], []] \<and>
   sorted_wrt (\<lambda>a b. zend_binary_strcasecmp False a b \<le> 0)
     (zend_insert_sort (zend_binary_strcasecmp False) exchange [[98], [65, 97], [97], []])"
  using zend_insert_sort_sorts [of _ "zend_binary_strcasecmp False"]
    bytes_case_order.total [OF UNIV_I UNIV_I] bytes_case_order.trans [OF UNIV_I UNIV_I UNIV_I] by blast

subsection \<open>Byte strings\<close>

text \<open>
  C39. Case conversion by blocks of 16 bytes, with signed comparisons in a register, changes
  each byte as the table does; the variants that copy only on demand return a copy exactly
  when a byte changes.
\<close>

theorem case_conversion_by_table:
  "zend_str_tolower s = map zend_tolower_ascii s \<and> zend_str_toupper s = map zend_toupper_ascii s \<and>
   zend_string_tolower_ex s =
     (if map zend_tolower_ascii s = s then None else Some (map zend_tolower_ascii s)) \<and>
   zend_string_toupper_ex s =
     (if map zend_toupper_ascii s = s then None else Some (map zend_toupper_ascii s))"
  by (simp add: zend_str_tolower_def zend_str_toupper_def tolower_impl_map toupper_impl_map
      string_tolower_ex_map string_toupper_ex_map)

text \<open>
  C38. Of two strings at different addresses, the sign of each comparison is that of the
  lexicographic order: of the bytes, of the lowered bytes, and of their first \<open>n\<close> for the bounded
  variants. (The flag \<open>False\<close> says that the pointers differ. For equal pointers the code returns 0
  at once, without looking at the lengths, which this does not cover.)
\<close>

theorem comparisons_are_lexicographic:
  "sgn (zend_binary_strcmp False s1 s2) = lex_sign s1 s2 \<and>
   sgn (zend_binary_strncmp False s1 s2 n) = lex_sign (take n s1) (take n s2) \<and>
   sgn (zend_binary_strcasecmp False s1 s2) =
     lex_sign (map zend_tolower_ascii s1) (map zend_tolower_ascii s2) \<and>
   sgn (zend_binary_strncasecmp_l lower False s1 s2 n) =
     lex_sign (map lower (take n s1)) (map lower (take n s2))"
  by (simp add: sgn_strcmp strncmp_take sgn_strcasecmp strncasecmp_take sgn_strcasecmp_l)

text \<open>
  C37. Sunday's search ends, reads nothing outside the haystack, and returns the first
  occurrence of the needle if there is one.
\<close>

theorem memnstr_first_occurrence:
  assumes "length needle + 1 < 2 ^ 32" "needle \<noteq> []"
  shows "\<exists>r. zend_memnstr_ex haystack needle = Inr r \<and>
    (case r of
       Some q \<Rightarrow> occurs_at needle haystack q \<and> (\<forall>k<q. \<not> occurs_at needle haystack k)
     | None \<Rightarrow> \<forall>k. \<not> occurs_at needle haystack k)"
  by (rule memnstr_spec [OF assms]) blast

theorem memnstr_first_occurrence_witness:
  "\<exists>r. zend_memnstr_ex [97, 98, 97, 98, 99] [97, 98, 99] = Inr r \<and>
    (case r of
       Some q \<Rightarrow> occurs_at [97, 98, 99] [97, 98, 97, 98, 99 :: 8 word] q \<and>
         (\<forall>k<q. \<not> occurs_at [97, 98, 99] [97, 98, 97, 98, 99 :: 8 word] k)
     | None \<Rightarrow> \<forall>k. \<not> occurs_at [97, 98, 99] [97, 98, 97, 98, 99 :: 8 word] k)"
  by (rule memnstr_first_occurrence) simp_all

text \<open>The backward search returns the last occurrence.\<close>

theorem memnrstr_last_occurrence:
  assumes "length needle \<le> 2 ^ 31" "needle \<noteq> []"
  shows "\<exists>r. zend_memnrstr_ex haystack needle = Inr r \<and>
    (case r of
       Some q \<Rightarrow> occurs_at needle haystack q \<and> (\<forall>k>q. \<not> occurs_at needle haystack k)
     | None \<Rightarrow> \<forall>k. \<not> occurs_at needle haystack k)"
  by (rule memnrstr_spec [OF assms]) blast

theorem memnrstr_last_occurrence_witness:
  "\<exists>r. zend_memnrstr_ex [97, 98, 97, 98] [97, 98] = Inr r \<and>
    (case r of
       Some q \<Rightarrow> occurs_at [97, 98] [97, 98, 97, 98 :: 8 word] q \<and>
         (\<forall>k>q. \<not> occurs_at [97, 98] [97, 98, 97, 98 :: 8 word] k)
     | None \<Rightarrow> \<forall>k. \<not> occurs_at [97, 98] [97, 98, 97, 98 :: 8 word] k)"
  by (rule memnrstr_last_occurrence) simp_all

text \<open>
  C40. Incrementing a string of letters and digits is adding one to the number it is in mixed
  radix, with the class of each place kept; when every place is at its highest, the result
  is one place longer.
\<close>

theorem increment_string_counts:
  assumes "alnum s" "s \<noteq> []"
  shows "if str_value s + 1 < str_cap s
    then \<exists>s'. increment_string False s = Some s' \<and> map char_class s' = map char_class s \<and>
      str_value s' = str_value s + 1
    else increment_string False s =
      Some (class_first (char_class (s ! 0)) # map (\<lambda>c. class_zero (char_class c)) s)"
  by (rule increment_string_spec [OF assms]) auto

theorem increment_string_counts_witness:
  "if str_value [65, 122] + 1 < str_cap [65, 122]
    then \<exists>s'. increment_string False [65, 122] = Some s' \<and>
      map char_class s' = map char_class [65, 122] \<and> str_value s' = str_value [65, 122] + 1
    else increment_string False [65, 122] =
      Some (class_first (char_class ([65, 122] ! 0)) # map (\<lambda>c. class_zero (char_class c)) [65, 122])"
  by (rule increment_string_counts) (simp_all add: alnum_def char_class_def class_defs)

end
