(* ===== verification/HashTypes.thy ===== *)
theory HashTypes
  imports ZendPrelude "HOL-Library.AList"
begin

unbundle bit_operations_syntax

text \<open>
  The data of \<open>Zend/zend_types.h\<close> and \<open>Zend/zend_string.h\<close> that
  \<open>Zend/zend_hash.c\<close> works on: strings with their cached hash, zvals, buckets, the
  \<open>HashTable\<close> itself and the executor globals that hold the iterators. A
  64-bit build is modelled: \<open>zend_ulong\<close> is \<open>64 word\<close>, \<open>HT_IDX_TO_HASH\<close> and
  \<open>HT_HASH_TO_IDX\<close> are the identity.
\<close>

subsection \<open>Strings and their hash\<close>

text \<open>
  \<open>zs_h\<close> is the cached hash, 0 until it is computed. Strings are values here, so
  the test \<open>p->key == key\<close> for the same string object, which only shortcuts the
  comparison of the contents, is part of that comparison.
\<close>

record zend_string =
  zs_h :: "64 word"
  zs_val :: "8 word list"
  zs_interned :: bool

text \<open>
  The DJBX33A hash. \<open>hash_bytes\<close> is the portable loop (one byte a time,
  \<open>(hash << 5) + hash\<close>); \<open>hash_chunks\<close> is the variant with multiplications,
  four bytes a time. A \<open>char\<close> is signed.
\<close>

fun hash_bytes :: "64 word \<Rightarrow> 8 word list \<Rightarrow> 64 word" where
  "hash_bytes hash [] = hash"
| "hash_bytes hash (c # cs) = hash_bytes ((push_bit 5 hash + hash) + scast c) cs"

definition hash_four :: "64 word \<Rightarrow> 8 word \<Rightarrow> 8 word \<Rightarrow> 8 word \<Rightarrow> 8 word \<Rightarrow> 64 word" where
  "hash_four hash a b c d =
     hash * (33 * 33 * 33 * 33) + scast a * (33 * 33 * 33) + scast b * (33 * 33)
       + scast c * 33 + scast d"

definition hash_rest :: "64 word \<Rightarrow> 8 word list \<Rightarrow> 64 word" where
  "hash_rest hash str =
     (let len = length str
      in if len \<ge> 2 then
           (if len > 2
            then hash * (33 * 33 * 33) + scast (str ! 0) * (33 * 33) + scast (str ! 1) * 33
                   + scast (str ! 2)
            else hash * (33 * 33) + scast (str ! 0) * 33 + scast (str ! 1))
         else if len \<noteq> 0 then hash * 33 + scast (str ! 0)
         else hash)"

fun hash_chunks :: "64 word \<Rightarrow> 8 word list \<Rightarrow> 64 word" where
  "hash_chunks hash (a # b # c # d # e # f # g # h # str) =
     hash_chunks (hash_four (hash_four hash a b c d) e f g h) str"
| "hash_chunks hash (a # b # c # d # str) = hash_rest (hash_four hash a b c d) str"
| "hash_chunks hash str = hash_rest hash str"

definition zend_inline_hash_func :: "8 word list \<Rightarrow> 64 word" where
  "zend_inline_hash_func str = hash_chunks 5381 str OR 0x8000000000000000"

definition zend_inline_hash_func_portable :: "8 word list \<Rightarrow> 64 word" where
  "zend_inline_hash_func_portable str = hash_bytes 5381 str OR 0x8000000000000000"

definition zend_hash_func :: "8 word list \<Rightarrow> 64 word" where
  "zend_hash_func str = zend_inline_hash_func str"

text \<open>The two operations below return the string with its cache filled.\<close>

definition zend_string_hash_func :: "zend_string \<Rightarrow> zend_string" where
  "zend_string_hash_func s = s\<lparr>zs_h := zend_hash_func (zs_val s)\<rparr>"

definition zend_string_hash_val :: "zend_string \<Rightarrow> zend_string" where
  "zend_string_hash_val s = (if zs_h s \<noteq> 0 then s else zend_string_hash_func s)"

definition zend_string_equal_content :: "zend_string \<Rightarrow> zend_string \<Rightarrow> bool" where
  "zend_string_equal_content s1 s2 \<longleftrightarrow>
     length (zs_val s1) = length (zs_val s2) \<and> zs_val s1 = zs_val s2"

definition zend_string_equals_cstr :: "zend_string \<Rightarrow> 8 word list \<Rightarrow> bool" where
  "zend_string_equals_cstr s1 s2 \<longleftrightarrow> length (zs_val s1) = length s2 \<and> zs_val s1 = s2"

definition zend_string_init :: "8 word list \<Rightarrow> zend_string" where
  "zend_string_init str = \<lparr>zs_h = 0, zs_val = str, zs_interned = False\<rparr>"

definition str_ok :: "zend_string \<Rightarrow> bool" where
  "str_ok s \<longleftrightarrow> zs_h s = 0 \<or> zs_h s = zend_hash_func (zs_val s)"

lemma push_bit_5: "push_bit 5 h + h = h * 33" for h :: "64 word"
  by (simp add: push_bit_eq_mult algebra_simps)

lemma hash_bytes_Cons: "hash_bytes h (c # cs) = hash_bytes (h * 33 + scast c) cs"
  by (simp only: hash_bytes.simps push_bit_5)

declare hash_bytes.simps(2) [simp del]

lemma hash_four_bytes: "hash_bytes h (a # b # c # d # cs) = hash_bytes (hash_four h a b c d) cs"
  by (simp add: hash_four_def hash_bytes_Cons algebra_simps)

lemma hash_rest_bytes:
  "hash_rest h [] = hash_bytes h []"
  "hash_rest h [a] = hash_bytes h [a]"
  "hash_rest h [a, b] = hash_bytes h [a, b]"
  "hash_rest h [a, b, c] = hash_bytes h [a, b, c]"
  by (simp_all add: hash_rest_def hash_bytes_Cons algebra_simps)

lemma hash_chunks_bytes: "hash_chunks h str = hash_bytes h str"
  by (induction h str rule: hash_chunks.induct)
    (simp_all only: hash_chunks.simps hash_rest_bytes hash_four_bytes)

lemma hash_func_portable: "zend_inline_hash_func str = zend_inline_hash_func_portable str"
  by (simp add: zend_inline_hash_func_def zend_inline_hash_func_portable_def hash_chunks_bytes)

lemma hash_func_nonzero: "zend_hash_func str \<noteq> 0"
proof -
  have "bit (zend_hash_func str) 63"
    by (simp add: zend_hash_func_def zend_inline_hash_func_def bit_simps)
  then show ?thesis by auto
qed

lemma hash_val_simps [simp]:
  "zs_val (zend_string_hash_val s) = zs_val s"
  "zs_interned (zend_string_hash_val s) = zs_interned s"
  by (simp_all add: zend_string_hash_val_def zend_string_hash_func_def)

lemma hash_val_h: "str_ok s \<Longrightarrow> zs_h (zend_string_hash_val s) = zend_hash_func (zs_val s)"
  by (auto simp: str_ok_def zend_string_hash_val_def zend_string_hash_func_def)

subsection \<open>Values, buckets, tables\<close>

text \<open>
  A zval with its payload; pointers to refcounted objects are addresses, a
  double is its bit pattern. \<open>b_next\<close> is \<open>u2.next\<close> of a bucket's zval, which
  \<open>ZVAL_COPY_VALUE\<close> does not copy.
\<close>

datatype zval =
    IS_UNDEF
  | IS_NULL
  | IS_FALSE
  | IS_TRUE
  | IS_LONG "64 word"
  | IS_DOUBLE "64 word"
  | IS_STRING zend_string
  | IS_ARRAY nat
  | IS_OBJECT nat
  | IS_RESOURCE nat
  | IS_REFERENCE nat
  | IS_INDIRECT nat
  | IS_PTR nat

record Bucket =
  b_val :: zval
  b_next :: nat
  b_h :: "64 word"
  b_key :: "zend_string option"

datatype dtor_func = DTOR_NULL | ZVAL_PTR_DTOR | DTOR_FUNC nat

text \<open>
  \<open>HASH_FLAG_PACKED\<close>, \<open>HASH_FLAG_UNINITIALIZED\<close>, \<open>HASH_FLAG_STATIC_KEYS\<close> and
  \<open>HASH_FLAG_HAS_EMPTY_IND\<close> are the four \<open>f_\<close> fields. The memory block of a
  table is split into its parts: \<open>arHash\<close> holds the words below \<open>arData\<close>, in
  address order, and the union \<open>arData\<close>/\<open>arPacked\<close> is two fields of which one is
  in use.
\<close>

record HashTable =
  ht_addr :: nat
  f_persistent :: bool
  f_packed :: bool
  f_uninit :: bool
  f_static_keys :: bool
  f_empty_ind :: bool
  nIteratorsCount :: nat
  nTableMask :: "32 word"
  arHash :: "nat list"
  arData :: "Bucket option list"
  arPacked :: "zval option list"
  nNumUsed :: nat
  nNumOfElements :: nat
  nTableSize :: nat
  nInternalPointer :: nat
  nNextFreeElement :: int
  pDestructor :: dtor_func

datatype iter_target = IterNull | IterPoisoned | IterHT nat

record HashTableIterator =
  it_ht :: iter_target
  it_pos :: nat
  it_next_copy :: nat

text \<open>
  What lies outside a table: \<open>EG(ht_iterators)\<close> with its number of used entries,
  the zvals that \<open>IS_INDIRECT\<close> values point to,
  and the calls made to code outside the table, in order: destructor calls, copy
  constructor calls, reference count changes of keys, and the removal of a dying array from
  the root buffer of the collector (\<open>EvGcForget\<close>). A destructor does not
  touch the table that calls it.
\<close>

datatype event =
    EvDtor zval
  | EvCopyCtor zval
  | EvStrAddref zend_string
  | EvStrRelease zend_string
  | EvGcForget nat

record executor_globals =
  ht_iterators :: "HashTableIterator list"
  ht_iterators_used :: nat
  indirect :: "nat \<Rightarrow> zval"
  events :: "event list"

definition emit :: "event \<Rightarrow> executor_globals \<Rightarrow> executor_globals" where
  "emit ev eg = eg\<lparr>events := events eg @ [ev]\<rparr>"

definition dtor_call :: "HashTable \<Rightarrow> zval \<Rightarrow> executor_globals \<Rightarrow> executor_globals" where
  "dtor_call ht v eg = (if pDestructor ht \<noteq> DTOR_NULL then emit (EvDtor v) eg else eg)"

subsection \<open>Sizes, masks and slots\<close>

definition HT_INVALID_IDX :: nat where "HT_INVALID_IDX = 2 ^ 32 - 1"
definition HT_MIN_MASK :: "32 word" where "HT_MIN_MASK = - 2"
definition HT_MIN_SIZE :: nat where "HT_MIN_SIZE = 8"
definition HT_MAX_SIZE :: nat where "HT_MAX_SIZE = 0x40000000"
definition ZEND_LONG_MAX :: int where "ZEND_LONG_MAX = 2 ^ 63 - 1"
definition ZEND_LONG_MIN :: int where "ZEND_LONG_MIN = - (2 ^ 63)"

definition HT_SIZE_TO_MASK :: "nat \<Rightarrow> 32 word" where
  "HT_SIZE_TO_MASK nSize = - (of_nat nSize + of_nat nSize)"

definition HT_IS_WITHOUT_HOLES :: "HashTable \<Rightarrow> bool" where
  "HT_IS_WITHOUT_HOLES ht \<longleftrightarrow> nNumUsed ht = nNumOfElements ht"

definition HT_HAS_STATIC_KEYS_ONLY :: "HashTable \<Rightarrow> bool" where
  "HT_HAS_STATIC_KEYS_ONLY ht \<longleftrightarrow> f_packed ht \<or> f_static_keys ht"

definition HT_HAS_ITERATORS :: "HashTable \<Rightarrow> bool" where
  "HT_HAS_ITERATORS ht \<longleftrightarrow> nIteratorsCount ht \<noteq> 0"

text \<open>
  \<open>HT_HASH(ht, h | ht->nTableMask)\<close>: the index is negative as an \<open>int32_t\<close> and
  counts from \<open>arData\<close>; the block starts at index \<open>nTableMask\<close>, so the word's
  place in \<open>arHash\<close> is the difference.
\<close>

definition slot :: "32 word \<Rightarrow> 64 word \<Rightarrow> nat" where
  "slot m h = unat ((ucast h OR m) - m)"

text \<open>\<open>HT_HASH_RESET\<close> and \<open>HT_HASH_RESET_PACKED\<close>.\<close>

definition HT_HASH_RESET :: "HashTable \<Rightarrow> HashTable" where
  "HT_HASH_RESET ht = ht\<lparr>arHash := replicate (unat (- nTableMask ht)) HT_INVALID_IDX\<rparr>"

definition HT_HASH_RESET_PACKED :: "HashTable \<Rightarrow> HashTable" where
  "HT_HASH_RESET_PACKED ht = ht\<lparr>arHash := [HT_INVALID_IDX, HT_INVALID_IDX]\<rparr>"

lemma or_minus_mask: "(x OR m) - m = x AND NOT m" for x m :: "32 word"
proof -
  have d: "(x AND NOT m) AND m = 0"
    by (simp add: bit_eq_iff bit_simps)
  have "x OR m = (x AND NOT m) OR m"
    by (auto simp: bit_eq_iff bit_simps)
  also have "\<dots> = (x AND NOT m) + m"
    using d by (simp add: disjunctive_add_eq_or)
  finally show ?thesis by simp
qed

text \<open>Every hash value has its slot inside the hash part of the block.\<close>

lemma slot_bound: "m \<noteq> 0 \<Longrightarrow> slot m h < unat (- m)"
proof -
  assume "m \<noteq> 0"
  then have nz: "- m \<noteq> 0" by simp
  have "ucast h AND NOT m \<le> NOT m" by (rule word_and_le1)
  then have "slot m h \<le> unat (NOT m)"
    by (simp add: slot_def or_minus_mask word_le_nat_alt)
  also have "NOT m = - m - 1"
    by (rule not_eq_complement)
  also have "unat (- m - 1) < unat (- m)"
    using nz by (rule measure_unat)
  finally show ?thesis .
qed

end
