(* ===== verification/HashInit.thy ===== *)
theory HashInit
  imports HashTypes
begin

text \<open>
  Creating tables: \<open>zend_hash_check_size\<close>, \<open>_zend_hash_init_int\<close> and the two
  real initialisations of \<open>Zend/zend_hash.c\<close>, and the growth of packed tables.
\<close>

subsection \<open>The table size: a power of two\<close>

text \<open>
  GCC's \<open>__builtin_clz\<close> counts the leading zero bits of a non-zero word. The
  portable variant of the source smears the highest bit downwards instead.
\<close>

definition builtin_clz :: "32 word \<Rightarrow> nat" where
  "builtin_clz x = length (takeWhile (\<lambda>i. \<not> bit x i) (rev [0..<32]))"

definition pow2_clz :: "32 word \<Rightarrow> 32 word" where
  "pow2_clz nSize = push_bit (unat ((of_nat (builtin_clz (nSize - 1)) :: 32 word) XOR 0x1f)) 2"

definition pow2_smear :: "32 word \<Rightarrow> 32 word" where
  "pow2_smear nSize =
     (let nSize = nSize - 1;
          nSize = nSize OR drop_bit 1 nSize;
          nSize = nSize OR drop_bit 2 nSize;
          nSize = nSize OR drop_bit 4 nSize;
          nSize = nSize OR drop_bit 8 nSize;
          nSize = nSize OR drop_bit 16 nSize
      in nSize + 1)"

definition zend_hash_check_size :: "nat \<Rightarrow> error + nat" where
  "zend_hash_check_size nSize =
     (if nSize \<le> HT_MIN_SIZE then Inr HT_MIN_SIZE
      else if nSize > HT_MAX_SIZE then Inl FatalOverflow
      else Inr (unat (pow2_clz (of_nat nSize))))"

definition zend_hash_check_size_portable :: "nat \<Rightarrow> error + nat" where
  "zend_hash_check_size_portable nSize =
     (if nSize \<le> HT_MIN_SIZE then Inr HT_MIN_SIZE
      else if nSize > HT_MAX_SIZE then Inl FatalOverflow
      else Inr (unat (pow2_smear (of_nat nSize))))"

definition top_bit :: "32 word \<Rightarrow> nat \<Rightarrow> bool" where
  "top_bit x t \<longleftrightarrow> bit x t \<and> (\<forall>j>t. \<not> bit x j)"

lemma top_bit_exists: "x \<noteq> 0 \<Longrightarrow> \<exists>t. top_bit x t"
proof -
  assume "x \<noteq> 0"
  then have ne: "{j. bit x j} \<noteq> {}" by (auto simp: bit_eq_iff)
  have fin: "finite {j. bit x j}"
    by (rule finite_subset [of _ "{..<32}"]) (auto dest: bit_imp_le_length)
  have "top_bit x (Max {j. bit x j})"
    unfolding top_bit_def using Max_in [OF fin ne] Max_ge [OF fin] by (auto simp: not_le [symmetric])
  then show ?thesis ..
qed

lemma top_bit_less: "top_bit x t \<Longrightarrow> t < 32"
  by (auto simp: top_bit_def dest: bit_imp_le_length)

lemma top_bit_bounds:
  assumes "top_bit x t"
  shows "2 ^ t \<le> unat x" "unat x < 2 ^ Suc t"
proof -
  have "bit (unat x) t" using assms by (simp add: top_bit_def bit_unsigned_iff)
  then have "odd (unat x div 2 ^ t)" by (simp add: bit_iff_odd)
  then have "unat x div 2 ^ t \<noteq> 0" by (metis even_zero)
  then show "2 ^ t \<le> unat x" by (meson div_less not_le)
  have "take_bit (Suc t) (unat x) = unat x"
    using assms by (intro bit_eqI) (auto simp: bit_take_bit_iff bit_unsigned_iff top_bit_def not_less_eq)
  then show "unat x < 2 ^ Suc t"
    using take_bit_nat_less_exp [of "Suc t" "unat x"] by simp
qed

lemma smear_step:
  assumes "\<And>i. bit y i \<longleftrightarrow> (\<exists>d<k. bit x (d + i))"
  shows "bit (y OR drop_bit k y) i \<longleftrightarrow> (\<exists>d<k + k. bit (x :: 32 word) (d + i))"
proof -
  have "bit (y OR drop_bit k y) i \<longleftrightarrow>
      (\<exists>d<k. bit x (d + i)) \<or> (\<exists>d<k. bit x (d + (k + i)))"
    by (simp only: bit_or_iff bit_drop_bit_eq o_def assms)
  also have "\<dots> \<longleftrightarrow> (\<exists>d<k + k. bit x (d + i))"
  proof
    assume "(\<exists>d<k. bit x (d + i)) \<or> (\<exists>d<k. bit x (d + (k + i)))"
    then show "\<exists>d<k + k. bit x (d + i)"
    proof
      assume "\<exists>d<k. bit x (d + i)"
      then show ?thesis using trans_less_add1 by blast
    next
      assume "\<exists>d<k. bit x (d + (k + i))"
      then obtain d where "d < k" "bit x ((d + k) + i)" by (auto simp: add.assoc)
      then show ?thesis by (intro exI [of _ "d + k"]) simp
    qed
  next
    assume "\<exists>d<k + k. bit x (d + i)"
    then obtain d where d: "d < k + k" "bit x (d + i)" by auto
    show "(\<exists>d<k. bit x (d + i)) \<or> (\<exists>d<k. bit x (d + (k + i)))"
    proof (cases "d < k")
      case False
      then have "d - k < k" "bit x ((d - k) + (k + i))" using d by auto
      then show ?thesis by blast
    qed (use d in blast)
  qed
  finally show ?thesis .
qed

lemma smear_bits:
  "bit (let nSize = x; nSize = nSize OR drop_bit 1 nSize; nSize = nSize OR drop_bit 2 nSize;
       nSize = nSize OR drop_bit 4 nSize; nSize = nSize OR drop_bit 8 nSize
     in nSize OR drop_bit 16 nSize) i \<longleftrightarrow> (\<exists>d<32. bit (x :: 32 word) (d + i))"
proof -
  define y1 where "y1 = x OR drop_bit 1 x"
  define y2 where "y2 = y1 OR drop_bit 2 y1"
  define y4 where "y4 = y2 OR drop_bit 4 y2"
  define y8 where "y8 = y4 OR drop_bit 8 y4"
  have s0: "bit x i \<longleftrightarrow> (\<exists>d<1. bit x (d + i))" for i by auto
  note s1 = smear_step [OF s0, folded y1_def, simplified one_add_one]
  note s2 = smear_step [OF s1, folded y2_def, simplified numeral_Bit0 [symmetric]]
  note s4 = smear_step [OF s2, folded y4_def, simplified numeral_Bit0 [symmetric]]
  note s8 = smear_step [OF s4, folded y8_def, simplified numeral_Bit0 [symmetric]]
  have "bit (y8 OR drop_bit 16 y8) i \<longleftrightarrow> (\<exists>d<32. bit x (d + i))"
    using smear_step [OF s8, of i, simplified numeral_Bit0 [symmetric]] .
  then show ?thesis by (simp only: Let_def y8_def y4_def y2_def y1_def)
qed

lemma pow2_smear_eq:
  assumes "top_bit (n - 1) t"
  shows "pow2_smear n = 2 ^ Suc t"
proof -
  let ?x = "n - 1"
  define y where "y = (let nSize = ?x; nSize = nSize OR drop_bit 1 nSize;
       nSize = nSize OR drop_bit 2 nSize; nSize = nSize OR drop_bit 4 nSize;
       nSize = nSize OR drop_bit 8 nSize in nSize OR drop_bit 16 nSize)"
  have "bit y i \<longleftrightarrow> i \<le> t" if "i < 32" for i
  proof
    assume "bit y i"
    then obtain d where "bit ?x (d + i)" unfolding y_def smear_bits by auto
    then have "\<not> t < d + i" using assms by (auto simp: top_bit_def)
    then show "i \<le> t" by simp
  next
    assume "i \<le> t"
    then have "t - i < 32" "bit ?x (t - i + i)"
      using assms top_bit_less [OF assms] by (auto simp: top_bit_def)
    then show "bit y i" unfolding y_def smear_bits by blast
  qed
  then have "y = mask (Suc t)"
    by (intro bit_word_eqI) (auto simp: bit_mask_iff)
  moreover have "pow2_smear n = y + 1"
    by (simp add: pow2_smear_def y_def Let_def)
  ultimately show ?thesis by (simp add: mask_eq_exp_minus_1)
qed

lemma clz_top_bit:
  assumes "top_bit x t"
  shows "builtin_clz x = 31 - t"
proof -
  have t: "t < 32" using assms by (rule top_bit_less)
  have "rev [0..<32] = rev [Suc t..<32] @ t # rev [0..<t]"
    using t by (metis append.assoc append_Cons append_Nil less_imp_le_nat rev_append
        rev_singleton_conv upt_Suc_append upt_add_eq_append zero_le rev.simps(2) le_add_diff_inverse
        Suc_leI add_0 upt_conv_Cons)
  moreover have "takeWhile (\<lambda>i. \<not> bit x i) (rev [Suc t..<32] @ t # rev [0..<t]) = rev [Suc t..<32]"
    using assms by (subst takeWhile_append2) (auto simp: top_bit_def)
  ultimately show ?thesis by (simp add: builtin_clz_def)
qed

lemma pow2_clz_eq:
  assumes "top_bit (n - 1) t"
  shows "pow2_clz n = 2 ^ Suc t"
proof -
  have t: "t < 32" using assms by (rule top_bit_less)
  have all: "\<forall>t\<in>set [0..<32]. (of_nat (31 - t) :: 32 word) XOR 0x1f = of_nat t"
    by code_simp
  then have "(of_nat (31 - t) :: 32 word) XOR 0x1f = of_nat t" using t by simp
  moreover have "unat (of_nat t :: 32 word) = t"
    using t by (simp add: unsigned_of_nat take_bit_nat_eq_self)
  ultimately show ?thesis
    using assms by (simp add: pow2_clz_def clz_top_bit push_bit_eq_mult)
qed

lemma of_nat_unat_id: "n < 2 ^ 32 \<Longrightarrow> unat (of_nat n :: 32 word) = n"
  by (simp add: unsigned_of_nat take_bit_nat_eq_self)

lemma check_size_top_bit:
  assumes "8 < n" "n \<le> HT_MAX_SIZE"
  obtains t where "top_bit (of_nat n - 1 :: 32 word) t" "2 ^ t < n" "n \<le> 2 ^ Suc t" "t < 30" "3 \<le> t"
proof -
  have n32: "n - 1 < 2 ^ 32" "n - 1 < 2 ^ 30" using assms by (auto simp: HT_MAX_SIZE_def)
  have eq: "of_nat n - 1 = (of_nat (n - 1) :: 32 word)"
    using assms(1) by (simp add: of_nat_diff)
  then have u: "unat (of_nat n - 1 :: 32 word) = n - 1"
    using n32 by (simp only: of_nat_unat_id)
  have "of_nat n - 1 \<noteq> (0 :: 32 word)"
  proof
    assume "of_nat n - 1 = (0 :: 32 word)"
    then have "unat (of_nat n - 1 :: 32 word) = 0" by simp
    with u assms(1) show False by simp
  qed
  from top_bit_exists [OF this] obtain t where t: "top_bit (of_nat n - 1 :: 32 word) t" ..
  from top_bit_bounds [OF t] have b: "2 ^ t \<le> n - 1" "n - 1 < 2 ^ Suc t"
    unfolding u by simp_all
  have "(2 :: nat) ^ t < 2 ^ 30" using b(1) n32(2) by (rule le_less_trans)
  then have t30: "t < 30" by (simp only: power_strict_increasing_iff)
  have "(2 :: nat) ^ 3 < 2 ^ Suc t" using b(2) assms(1) by simp
  then have t3: "3 < Suc t" by (simp only: power_strict_increasing_iff)
  show thesis
    by (rule that [OF t]) (use b t30 t3 assms(1) in auto)
qed

lemma check_size_cases:
  assumes "n \<le> HT_MAX_SIZE"
  obtains k where "zend_hash_check_size n = Inr (2 ^ k)" "zend_hash_check_size_portable n = Inr (2 ^ k)"
    "3 \<le> k" "k \<le> 30" "n \<le> 2 ^ k" "8 < n \<Longrightarrow> 2 ^ k < 2 * n"
proof (cases "n \<le> 8")
  case True
  show ?thesis
    by (rule that [of 3])
      (use True in \<open>simp_all add: zend_hash_check_size_def zend_hash_check_size_portable_def HT_MIN_SIZE_def\<close>)
next
  case False
  then have n8: "8 < n" by simp
  from check_size_top_bit [OF n8 assms] obtain t where
    t: "top_bit (of_nat n - 1 :: 32 word) t" "2 ^ t < n" "n \<le> 2 ^ Suc t" "t < 30" "3 \<le> t" .
  have un: "unat (2 ^ Suc t :: 32 word) = 2 ^ Suc t"
    using of_nat_unat_id [of "2 ^ Suc t"] power_strict_increasing_iff [of "2 :: nat" "Suc t" 32] t(4)
    by (simp del: power_Suc)
  have lt: "2 ^ Suc t < 2 * n" using t(2) by simp
  show ?thesis
    by (rule that [of "Suc t"])
      (use t False assms un lt in \<open>simp_all add: zend_hash_check_size_def zend_hash_check_size_portable_def
         HT_MIN_SIZE_def pow2_clz_eq [OF t(1)] pow2_smear_eq [OF t(1)] del: power_Suc\<close>)
qed

subsection \<open>Initialisation\<close>

text \<open>
  \<open>zend_hash_real_init_packed_ex\<close>, \<open>zend_hash_real_init_mixed_ex\<close>: allocation
  itself cannot fail (\<open>emalloc\<close> ends the process instead) and gives memory that
  is not initialised.
\<close>

definition zend_hash_real_init_packed_ex :: "HashTable \<Rightarrow> HashTable" where
  "zend_hash_real_init_packed_ex ht =
     HT_HASH_RESET_PACKED
       (ht\<lparr>arPacked := replicate (nTableSize ht) None, arData := [],
           f_packed := True, f_static_keys := True, f_uninit := False, f_empty_ind := False\<rparr>)"

text \<open>
  The flag byte shares the word \<open>u.flags\<close> with \<open>nIteratorsCount\<close>. The path for the
  minimal size assigns the byte alone (\<open>ht->u.v.flags\<close>), the one for persistent tables
  (\<open>IS_ARRAY_PERSISTENT\<close>) and larger ones the whole word (\<open>HT_FLAGS(ht)\<close>), and with it the
  iterator count. For a packed table the allocation is all that depends on being persistent.
\<close>

definition zend_hash_real_init_mixed_ex :: "HashTable \<Rightarrow> error + HashTable" where
  "zend_hash_real_init_mixed_ex ht =
     (let nSize = nTableSize ht in
      assertE (HT_SIZE_TO_MASK nSize \<noteq> 0) (\<lambda>_.
        let ht = ht\<lparr>nTableMask := HT_SIZE_TO_MASK nSize, arData := replicate nSize None, arPacked := [],
                    f_packed := False, f_static_keys := True, f_uninit := False, f_empty_ind := False\<rparr>
        in if nSize = HT_MIN_SIZE \<and> \<not> f_persistent ht then Inr (ht\<lparr>arHash := replicate 16 HT_INVALID_IDX\<rparr>)
           else Inr (HT_HASH_RESET (ht\<lparr>nIteratorsCount := 0\<rparr>))))"

definition zend_hash_real_init_ex :: "HashTable \<Rightarrow> bool \<Rightarrow> error + HashTable" where
  "zend_hash_real_init_ex ht packed =
     assertE (f_uninit ht) (\<lambda>_.
       if packed then Inr (zend_hash_real_init_packed_ex ht) else zend_hash_real_init_mixed_ex ht)"

definition zend_hash_real_init :: "HashTable \<Rightarrow> bool \<Rightarrow> error + HashTable" where
  "zend_hash_real_init ht packed = zend_hash_real_init_ex ht packed"

definition zend_hash_real_init_packed :: "HashTable \<Rightarrow> HashTable" where
  "zend_hash_real_init_packed ht = zend_hash_real_init_packed_ex ht"

definition zend_hash_real_init_mixed :: "HashTable \<Rightarrow> error + HashTable" where
  "zend_hash_real_init_mixed ht = zend_hash_real_init_mixed_ex ht"

definition uninitialized_bucket :: "nat list" where
  "uninitialized_bucket = [HT_INVALID_IDX, HT_INVALID_IDX]"

text \<open>The table at address \<open>a\<close>; \<open>zend_empty_array\<close> is one such object, never written to.\<close>

definition zend_empty_array :: "nat \<Rightarrow> HashTable" where
  "zend_empty_array a =
     \<lparr>ht_addr = a, f_persistent = False, f_packed = False, f_uninit = True, f_static_keys = False, f_empty_ind = False,
      nIteratorsCount = 0, nTableMask = HT_MIN_MASK, arHash = uninitialized_bucket, arData = [], arPacked = [],
      nNumUsed = 0, nNumOfElements = 0, nTableSize = HT_MIN_SIZE, nInternalPointer = 0,
      nNextFreeElement = ZEND_LONG_MIN, pDestructor = ZVAL_PTR_DTOR\<rparr>"

definition zend_hash_init_int :: "nat \<Rightarrow> nat \<Rightarrow> dtor_func \<Rightarrow> bool \<Rightarrow> error + HashTable" where
  "zend_hash_init_int a nSize dtor persistent =
     bindE (zend_hash_check_size nSize) (\<lambda>size. Inr
       \<lparr>ht_addr = a, f_persistent = persistent, f_packed = False, f_uninit = True, f_static_keys = False, f_empty_ind = False,
        nIteratorsCount = 0, nTableMask = HT_MIN_MASK, arHash = uninitialized_bucket, arData = [], arPacked = [],
        nNumUsed = 0, nNumOfElements = 0, nTableSize = size, nInternalPointer = 0,
        nNextFreeElement = ZEND_LONG_MIN, pDestructor = dtor\<rparr>)"

definition zend_hash_init :: "nat \<Rightarrow> nat \<Rightarrow> dtor_func \<Rightarrow> bool \<Rightarrow> error + HashTable" where
  "zend_hash_init a nSize dtor persistent = zend_hash_init_int a nSize dtor persistent"

definition zend_new_array_0 :: "nat \<Rightarrow> error + HashTable" where
  "zend_new_array_0 a = zend_hash_init_int a HT_MIN_SIZE ZVAL_PTR_DTOR False"

definition zend_new_array :: "nat \<Rightarrow> nat \<Rightarrow> error + HashTable" where
  "zend_new_array a nSize = zend_hash_init_int a nSize ZVAL_PTR_DTOR False"

definition zend_new_pair :: "nat \<Rightarrow> zval \<Rightarrow> zval \<Rightarrow> error + HashTable" where
  "zend_new_pair a val1 val2 =
     bindE (zend_hash_init_int a HT_MIN_SIZE ZVAL_PTR_DTOR False) (\<lambda>ht.
     let ht = ht\<lparr>nNumUsed := 2, nNumOfElements := 2, nNextFreeElement := 2\<rparr>;
         ht = zend_hash_real_init_packed_ex ht
     in bindE (wr (arPacked ht) 0 val1) (\<lambda>pk.
        bindE (wr pk 1 val2) (\<lambda>pk. Inr (ht\<lparr>arPacked := pk\<rparr>))))"

text \<open>
  \<open>perealloc2\<close> keeps the used part of the old block (\<open>HT_PACKED_USED_SIZE\<close>);
  the rest of the new block is not initialised.
\<close>

definition realloc_used :: "nat \<Rightarrow> nat \<Rightarrow> 'a option list \<Rightarrow> 'a option list" where
  "realloc_used newSize used xs = take used xs @ replicate (newSize - used) None"

definition zend_hash_packed_grow :: "HashTable \<Rightarrow> error + HashTable" where
  "zend_hash_packed_grow ht =
     (if nTableSize ht \<ge> HT_MAX_SIZE then Inl FatalOverflow
      else let newTableSize = nTableSize ht * 2
           in Inr (ht\<lparr>arPacked := realloc_used newTableSize (nNumUsed ht) (arPacked ht),
                      nTableSize := newTableSize\<rparr>))"

end
