(* ===== verification/HashInv.thy ===== *)
theory HashInv
  imports HashInit
begin

text \<open>
  The invariant of a \<open>HashTable\<close> and the ordered map it stands for. The map is
  the list of the live entries in the order of their places, each with its key:
  the bucket's string, its number, or the place itself in a packed table.
\<close>

subsection \<open>Entries of an array with holes\<close>

fun entries :: "(nat \<Rightarrow> 'a option) \<Rightarrow> nat \<Rightarrow> 'a list" where
  "entries f 0 = []"
| "entries f (Suc n) = entries f n @ (case f n of None \<Rightarrow> [] | Some x \<Rightarrow> [x])"

lemma set_entries: "x \<in> set (entries f n) \<longleftrightarrow> (\<exists>i<n. f i = Some x)"
  by (induction n) (auto simp: less_Suc_eq split: option.splits)

lemma entries_cong: "(\<And>i. i < n \<Longrightarrow> f i = g i) \<Longrightarrow> entries f n = entries g n"
  by (induction n) auto

lemma entries_None: "(\<And>i. i < n \<Longrightarrow> f i = None) \<Longrightarrow> entries f n = []"
  by (induction n) auto

lemma entries_trim: "n \<le> m \<Longrightarrow> (\<And>i. n \<le> i \<Longrightarrow> i < m \<Longrightarrow> f i = None) \<Longrightarrow> entries f m = entries f n"
proof (induction m)
  case (Suc m)
  show ?case
  proof (cases "n = Suc m")
    case False
    then have "n \<le> m" using Suc.prems(1) by simp
    then show ?thesis using Suc.IH Suc.prems(2) [of m] Suc.prems(2) by simp
  qed simp
qed simp

lemma length_entries_le: "length (entries f n) \<le> n"
  by (induction n) (auto split: option.splits)

lemma length_entries_full: "length (entries f n) = n \<longleftrightarrow> (\<forall>i<n. f i \<noteq> None)"
proof (induction n)
  case (Suc n)
  show ?case
  proof (cases "f n")
    case None
    then show ?thesis using length_entries_le [of f n] by (auto simp: less_Suc_eq)
  next
    case (Some a)
    then show ?thesis using Suc.IH by (auto simp: less_Suc_eq)
  qed
qed simp

lemma entries_index:
  assumes "f i = Some (k, v)" "i < n" "distinct (map fst (entries f n))"
    "f j = Some (k, w)" "j < n"
  shows "i = j"
  using assms
proof (induction n)
  case (Suc n)
  have d: "distinct (map fst (entries f n))"
    using Suc.prems(3) by (auto split: option.splits)
  have last: "x \<notin> fst ` set (entries f n)" if "f n = Some (x, y)" for x y
    using Suc.prems(3) that by auto
  have notin: "k \<in> fst ` set (entries f n)" if "f l = Some (k, y)" "l < n" for l y
    using that by (force simp: set_entries)
  consider "i < n" "j < n" | "i = n" "j < n" | "i < n" "j = n" | "i = n" "j = n"
    using Suc.prems(2,5) by linarith
  then show ?case
  proof cases
    case 1
    then show ?thesis using Suc.IH Suc.prems d by blast
  next
    case 2
    then show ?thesis using last [of k v] notin [of j w] Suc.prems by simp
  next
    case 3
    then show ?thesis using last [of k w] notin [of i v] Suc.prems by simp
  qed simp
qed simp

lemma entries_distinct:
  "distinct (map fst (entries f n)) \<longleftrightarrow>
     (\<forall>i<n. \<forall>j<n. \<forall>x y. f i = Some x \<longrightarrow> f j = Some y \<longrightarrow> fst x = fst y \<longrightarrow> i = j)"
    (is "?l \<longleftrightarrow> ?r")
proof
  assume ?l
  then show ?r using entries_index [of f _ _ _ n] by (metis prod.collapse)
next
  show "?r \<Longrightarrow> ?l"
  proof (induction n)
    case (Suc n)
    then have "distinct (map fst (entries f n))" by simp
    moreover have "fst x \<notin> fst ` set (entries f n)" if "f n = Some x" for x
    proof
      assume "fst x \<in> fst ` set (entries f n)"
      then obtain y where "y \<in> set (entries f n)" "fst y = fst x" by (metis imageE)
      then obtain i where "i < n" "f i = Some y" "fst y = fst x" by (auto simp: set_entries)
      then show False using Suc.prems that less_SucI lessI less_irrefl by metis
    qed
    ultimately show ?case by (force split: option.splits)
  qed simp
qed

lemma map_of_entries:
  assumes "distinct (map fst (entries f n))"
  shows "map_of (entries f n) k = Some v \<longleftrightarrow> (\<exists>i<n. f i = Some (k, v))"
  using assms by (simp add: set_entries)

lemma map_of_entries_None: "map_of (entries f n) k = None \<longleftrightarrow> (\<forall>i<n. \<forall>v. f i \<noteq> Some (k, v))"
  by (force simp: map_of_eq_None_iff set_entries image_iff)

text \<open>Replacing the value of one entry, and making a hole of it.\<close>

lemma update_notin: "k \<notin> fst ` set xs \<Longrightarrow> AList.update k v (xs @ ys) = xs @ AList.update k v ys"
  by (induction xs) auto

lemma update_in: "k \<in> fst ` set xs \<Longrightarrow> AList.update k v (xs @ ys) = AList.update k v xs @ ys"
  by (induction xs) auto

lemma delete_append: "AList.delete k (xs @ ys) = AList.delete k xs @ AList.delete k ys"
  by (simp add: AList.delete_eq)

lemma delete_notin: "k \<notin> fst ` set xs \<Longrightarrow> AList.delete k xs = xs"
  by (induction xs) (auto simp: AList.delete_eq)

lemma entries_update:
  assumes "f i = Some (k, v)" "i < n" "distinct (map fst (entries f n))"
    "\<And>j. j < n \<Longrightarrow> j \<noteq> i \<Longrightarrow> g j = f j" "g i = Some (k, w)"
  shows "entries g n = AList.update k w (entries f n)"
  using assms
proof (induction n)
  case (Suc n)
  have d: "distinct (map fst (entries f n))"
    using Suc.prems(3) by (auto split: option.splits)
  show ?case
  proof (cases "i = n")
    case True
    have "entries g n = entries f n" using Suc.prems(4) True by (intro entries_cong) simp
    moreover have "k \<notin> fst ` set (entries f n)" using Suc.prems True by auto
    ultimately show ?thesis using Suc.prems True by (simp add: update_notin)
  next
    case False
    then have i: "i < n" using Suc.prems(2) by simp
    then have "k \<in> fst ` set (entries f n)" using Suc.prems(1) by (force simp: set_entries)
    moreover have "entries g n = AList.update k w (entries f n)"
      using Suc.IH Suc.prems i d by simp
    ultimately show ?thesis using False Suc.prems(4) by (simp add: update_in)
  qed
qed simp

lemma entries_delete:
  assumes "f i = Some (k, v)" "i < n" "distinct (map fst (entries f n))"
    "\<And>j. j < n \<Longrightarrow> j \<noteq> i \<Longrightarrow> g j = f j" "g i = None"
  shows "entries g n = AList.delete k (entries f n)"
  using assms
proof (induction n)
  case (Suc n)
  have d: "distinct (map fst (entries f n))"
    using Suc.prems(3) by (auto split: option.splits)
  show ?case
  proof (cases "i = n")
    case True
    have "entries g n = entries f n" using Suc.prems(4) True by (intro entries_cong) simp
    moreover have "k \<notin> fst ` set (entries f n)" using Suc.prems True by auto
    ultimately show ?thesis using Suc.prems True by (simp add: delete_append delete_notin)
  next
    case False
    then have i: "i < n" using Suc.prems(2) by simp
    have IH: "entries g n = AList.delete k (entries f n)"
      using Suc.IH Suc.prems i d by simp
    have "k \<noteq> fst x" if "f n = Some x" for x
      using entries_index [OF Suc.prems(1-3), of n "snd x"] that False
      by (metis lessI prod.collapse)
    then show ?thesis using False IH Suc.prems(4)
      by (auto simp: delete_append AList.delete_eq split: option.splits)
  qed
qed simp

lemma length_delete_distinct:
  assumes "distinct (map fst xs)" "k \<in> fst ` set xs"
  shows "length (AList.delete k xs) = length xs - 1" "0 < length xs"
  using assms
proof (induction xs)
  case (Cons x xs)
  {
    case 1
    show ?case
    proof (cases "fst x = k")
      case True
      then have "AList.delete k xs = xs" using 1 by (intro delete_notin) auto
      then show ?thesis using True by (cases x) (simp add: AList.delete_eq)
    next
      case False
      then have "k \<in> fst ` set xs" using 1 by auto
      then show ?thesis using Cons.IH 1 False by (auto simp: AList.delete_eq neq_Nil_conv)
    qed
  }
qed auto

subsection \<open>The ordered map of a table\<close>

datatype hkey = KNum "64 word" | KStr "8 word list"

definition bucket_key :: "Bucket \<Rightarrow> hkey" where
  "bucket_key p = (case b_key p of None \<Rightarrow> KNum (b_h p) | Some k \<Rightarrow> KStr (zs_val k))"

definition bucket_entry :: "Bucket option \<Rightarrow> (hkey \<times> zval) option" where
  "bucket_entry c =
     (case c of None \<Rightarrow> None
      | Some p \<Rightarrow> if b_val p = IS_UNDEF then None else Some (bucket_key p, b_val p))"

definition packed_entry :: "nat \<Rightarrow> zval option \<Rightarrow> (hkey \<times> zval) option" where
  "packed_entry i c =
     (case c of None \<Rightarrow> None
      | Some v \<Rightarrow> if v = IS_UNDEF then None else Some (KNum (of_nat i), v))"

definition entry_at :: "HashTable \<Rightarrow> nat \<Rightarrow> (hkey \<times> zval) option" where
  "entry_at ht i =
     (if f_packed ht then packed_entry i (arPacked ht ! i) else bucket_entry (arData ht ! i))"

definition elems :: "HashTable \<Rightarrow> (hkey \<times> zval) list" where
  "elems ht = entries (entry_at ht) (nNumUsed ht)"

subsection \<open>Collision chains\<close>

text \<open>
  The place of the last element of the chain that was entered before place \<open>n\<close>,
  and the chains as \<open>zend_hash\<close> keeps them: each hash word leads to the last
  bucket of its slot, each bucket to the one before it.
\<close>

fun last_in :: "(nat \<Rightarrow> bool) \<Rightarrow> nat \<Rightarrow> nat" where
  "last_in P 0 = HT_INVALID_IDX"
| "last_in P (Suc n) = (if P n then n else last_in P n)"

definition in_slot :: "Bucket option list \<Rightarrow> 32 word \<Rightarrow> nat \<Rightarrow> nat \<Rightarrow> bool" where
  "in_slot d m s i =
     (case d ! i of None \<Rightarrow> False
      | Some p \<Rightarrow> b_val p \<noteq> IS_UNDEF \<and> slot m (b_h p) = s)"

definition chains_ok :: "Bucket option list \<Rightarrow> 32 word \<Rightarrow> nat list \<Rightarrow> nat \<Rightarrow> bool" where
  "chains_ok d m hs n \<longleftrightarrow>
     (\<forall>s<length hs. hs ! s = last_in (in_slot d m s) n) \<and>
     (\<forall>i<n. case d ! i of None \<Rightarrow> True
            | Some p \<Rightarrow> b_val p \<noteq> IS_UNDEF \<longrightarrow>
                b_next p = last_in (in_slot d m (slot m (b_h p))) i)"

lemma last_in_cong: "(\<And>i. i < n \<Longrightarrow> P i = Q i) \<Longrightarrow> last_in P n = last_in Q n"
  by (induction n) auto

lemma last_in_cases:
  obtains "last_in P n = HT_INVALID_IDX" "\<And>i. i < n \<Longrightarrow> \<not> P i"
  | i where "last_in P n = i" "i < n" "P i" "\<And>j. i < j \<Longrightarrow> j < n \<Longrightarrow> \<not> P j"
proof (induction n arbitrary: thesis)
  case (Suc n)
  show thesis
  proof (cases "P n")
    case True
    then show thesis using Suc.prems(2) [of n] by simp
  next
    case False
    show thesis
    proof (rule Suc.IH)
      assume "last_in P n = HT_INVALID_IDX" "\<And>i. i < n \<Longrightarrow> \<not> P i"
      then show thesis using Suc.prems(1) False by (auto simp: less_Suc_eq)
    next
      fix i assume "last_in P n = i" "i < n" "P i" "\<And>j. i < j \<Longrightarrow> j < n \<Longrightarrow> \<not> P j"
      then show thesis using Suc.prems(2) [of i] False by (auto simp: less_Suc_eq)
    qed
  qed
qed simp

lemma last_in_eqI:
  "i < n \<Longrightarrow> P i \<Longrightarrow> (\<And>j. i < j \<Longrightarrow> j < n \<Longrightarrow> \<not> P j) \<Longrightarrow> last_in P n = i"
  by (cases n P rule: last_in_cases) (use nat_neq_iff in blast)+

lemma last_in_mono: "(\<And>j. i \<le> j \<Longrightarrow> j < n \<Longrightarrow> \<not> P j) \<Longrightarrow> i \<le> n \<Longrightarrow> last_in P n = last_in P i"
proof (induction n)
  case (Suc n)
  then show ?case by (cases "i = Suc n") auto
qed simp

lemma chains_ok_cong:
  assumes "\<And>i. i < n \<Longrightarrow> d' ! i = d ! i"
  shows "chains_ok d' m hs n = chains_ok d m hs n"
proof -
  have eq: "in_slot d' m s i = in_slot d m s i" if "i < n" for s i
    using assms that by (simp add: in_slot_def)
  have l: "last_in (in_slot d' m s) k = last_in (in_slot d m s) k" if "k \<le> n" for s k
    using eq that by (intro last_in_cong) simp
  show ?thesis using assms by (auto simp: chains_ok_def l split: option.splits)
qed

lemma chains_ok_empty: "(\<And>s. s < length hs \<Longrightarrow> hs ! s = HT_INVALID_IDX) \<Longrightarrow> chains_ok d m hs 0"
  by (simp add: chains_ok_def)

lemma chains_ok_skip:
  assumes "chains_ok d m hs n" "bucket_entry (d ! n) = None"
  shows "chains_ok d m hs (Suc n)"
proof -
  have "\<not> in_slot d m s n" for s
    using assms(2) by (auto simp: in_slot_def bucket_entry_def split: option.splits if_splits)
  then show ?thesis using assms
    by (auto simp: chains_ok_def bucket_entry_def less_Suc_eq split: option.splits if_splits)
qed

text \<open>A live bucket entered at the end of its chain, at place \<open>n\<close>.\<close>

lemma chains_ok_append:
  assumes "chains_ok d m hs n" "n < length d" "slot m (b_h p) < length hs"
    "b_val p \<noteq> IS_UNDEF" "b_next p = hs ! slot m (b_h p)"
  shows "chains_ok (d[n := Some p]) m (hs[slot m (b_h p) := n]) (Suc n)"
proof -
  let ?d = "d[n := Some p]" and ?s = "slot m (b_h p)"
  have eq: "in_slot ?d m s i = in_slot d m s i" if "i < n" for s i
    using that by (simp add: in_slot_def)
  have n: "in_slot ?d m s n \<longleftrightarrow> s = ?s" for s
    using assms by (auto simp: in_slot_def)
  have l: "last_in (in_slot ?d m s) k = last_in (in_slot d m s) k" if "k \<le> n" for s k
    using eq that by (intro last_in_cong) simp
  have hd: "(hs[?s := n]) ! s = last_in (in_slot ?d m s) (Suc n)" if "s < length hs" for s
    using assms that by (cases "s = ?s") (auto simp: n l chains_ok_def)
  have nx: "case ?d ! i of None \<Rightarrow> True
      | Some p \<Rightarrow> b_val p \<noteq> IS_UNDEF \<longrightarrow> b_next p = last_in (in_slot ?d m (slot m (b_h p))) i"
    if "i < Suc n" for i
  proof (cases "i = n")
    case True
    then show ?thesis using assms by (simp add: l chains_ok_def)
  next
    case False
    then have "i < n" using that by simp
    then show ?thesis using assms(1) False by (auto simp: l chains_ok_def split: option.splits)
  qed
  show ?thesis using hd nx by (simp add: chains_ok_def)
qed

lemma chains_ok_value:
  assumes "chains_ok d m hs n" "i < length d" "d ! i = Some p" "b_val p \<noteq> IS_UNDEF" "v \<noteq> IS_UNDEF"
  shows "chains_ok (d[i := Some (p\<lparr>b_val := v\<rparr>)]) m hs n"
proof -
  let ?d = "d[i := Some (p\<lparr>b_val := v\<rparr>)]"
  have eq: "in_slot ?d m s = in_slot d m s" for s
  proof
    show "in_slot ?d m s j = in_slot d m s j" for j
      using assms by (cases "j = i") (auto simp: in_slot_def)
  qed
  have "case ?d ! j of None \<Rightarrow> True
      | Some p \<Rightarrow> b_val p \<noteq> IS_UNDEF \<longrightarrow> b_next p = last_in (in_slot d m (slot m (b_h p))) j"
    if "j < n" for j
  proof (cases "j = i")
    case True
    then have "b_next p = last_in (in_slot d m (slot m (b_h p))) i"
      using assms that by (auto simp: chains_ok_def)
    then show ?thesis using True assms by simp
  next
    case False
    then show ?thesis using assms(1) that by (auto simp: chains_ok_def split: option.splits)
  qed
  then show ?thesis using assms(1) unfolding chains_ok_def eq by blast
qed

text \<open>A hole in the middle of a chain: its predecessor takes over its link.\<close>

lemma last_in_remove:
  assumes "n \<le> i \<or> \<not> P i \<or> last_in P n \<noteq> i"
  shows "last_in (\<lambda>j. P j \<and> j \<noteq> i) n = last_in P n"
proof (cases n P rule: last_in_cases)
  case 1
  then have "last_in (\<lambda>j. P j \<and> j \<noteq> i) n = last_in P n" by (intro last_in_cong) auto
  then show ?thesis .
next
  case (2 k)
  then have "k \<noteq> i" using assms by auto
  then have "last_in (\<lambda>j. P j \<and> j \<noteq> i) n = k" using 2 by (intro last_in_eqI) auto
  then show ?thesis using 2 by simp
qed

lemma last_in_removed:
  assumes "last_in P n = i" "i < n" "P i"
  shows "last_in (\<lambda>j. P j \<and> j \<noteq> i) n = last_in P i"
proof -
  have no: "\<not> P j" if "i < j" "j < n" for j
  proof (cases n P rule: last_in_cases)
    case 1
    then show ?thesis using that by blast
  next
    case (2 k)
    then show ?thesis using that assms(1) by auto
  qed
  have "last_in (\<lambda>j. P j \<and> j \<noteq> i) n = last_in (\<lambda>j. P j \<and> j \<noteq> i) i"
  proof (rule last_in_mono)
    show "\<not> (P j \<and> j \<noteq> i)" if "i \<le> j" "j < n" for j
      using no [of j] that by (cases "j = i") auto
  qed (use assms in simp)
  also have "\<dots> = last_in P i" by (rule last_in_cong) auto
  finally show ?thesis .
qed

text \<open>
  \<open>prev_of d hs s i prev\<close>: the word that holds the link to place \<open>i\<close> of slot \<open>s\<close>
  is the hash word itself or the link of the bucket at \<open>prev\<close>.
\<close>

definition prev_of ::
  "Bucket option list \<Rightarrow> 32 word \<Rightarrow> nat list \<Rightarrow> nat \<Rightarrow> nat \<Rightarrow> nat \<Rightarrow> nat option \<Rightarrow> bool" where
  "prev_of d m hs n s i prev \<longleftrightarrow>
     (case prev of None \<Rightarrow> hs ! s = i
      | Some j \<Rightarrow> j < n \<and> in_slot d m s j \<and> (\<exists>q. d ! j = Some q \<and> b_next q = i))"

definition unlinked ::
  "Bucket option list \<Rightarrow> nat list \<Rightarrow> nat \<Rightarrow> nat \<Rightarrow> nat option \<Rightarrow> Bucket option list \<times> nat list" where
  "unlinked d hs s nxt prev =
     (case prev of None \<Rightarrow> (d, hs[s := nxt])
      | Some j \<Rightarrow> (d[j := map_option (\<lambda>q. q\<lparr>b_next := nxt\<rparr>) (d ! j)], hs))"

lemma last_in_inj:
  assumes "last_in P j = i" "last_in P k = i" "P j" "P k" "i < j" "i < k" "k < HT_INVALID_IDX" "j < HT_INVALID_IDX"
  shows "j = k"
proof (rule ccontr)
  have *: False if "last_in P j = i" "i < k" "k < j" "P k" "j < HT_INVALID_IDX" for j k
    using that by (cases j P rule: last_in_cases) auto
  assume "j \<noteq> k"
  then show False using * [of j k] * [of k j] assms by linarith
qed

lemma in_slot_unlinked:
  assumes "unlinked d hs s nxt prev = (d', hs')"
  shows "in_slot d' m t j = in_slot d m t j"
proof (cases prev)
  case None
  then show ?thesis using assms by (simp add: unlinked_def)
next
  case (Some k)
  then have d': "d' = d[k := map_option (\<lambda>q. q\<lparr>b_next := nxt\<rparr>) (d ! k)]"
    using assms by (simp add: unlinked_def)
  show ?thesis
  proof (cases "j = k")
    case True
    then show ?thesis
      by (cases "k < length d"; cases "d ! k") (simp_all add: d' in_slot_def list_update_beyond)
  qed (simp add: d' in_slot_def)
qed

lemma chains_ok_remove:
  assumes ok: "chains_ok d m hs n" and n: "n \<le> length d" "n < HT_INVALID_IDX"
    and p: "i < n" "d ! i = Some p" "b_val p \<noteq> IS_UNDEF" "s = slot m (b_h p)" "s < length hs"
    and prev: "prev_of d m hs n s i prev"
    and d': "unlinked d hs s (b_next p) prev = (d', hs')"
    and q: "b_val q = IS_UNDEF"
  shows "chains_ok (d'[i := Some q]) m hs' n"
proof -
  let ?D = "d'[i := Some q]"
  have len: "length d' = length d" using d' by (auto simp: unlinked_def split: option.splits)
  have hs_len: "length hs' = length hs" using d' by (auto simp: unlinked_def split: option.splits)
  have self: "in_slot d m s i" using p by (simp add: in_slot_def)
  have nexti: "b_next p = last_in (in_slot d m s) i"
    using ok p by (auto simp: chains_ok_def)
  have eq: "in_slot ?D m t j \<longleftrightarrow> in_slot d m t j \<and> j \<noteq> i" for t j
  proof (cases "j = i")
    case True
    then show ?thesis using p n len q by (simp add: in_slot_def)
  next
    case False
    then have "in_slot ?D m t j = in_slot d' m t j" by (simp add: in_slot_def)
    then show ?thesis using False in_slot_unlinked [OF d'] by simp
  qed
  then have ieq: "in_slot ?D m t = (\<lambda>j. in_slot d m t j \<and> j \<noteq> i)" for t by auto
  have link: "last_in (in_slot d m s) j = b_next r" "i \<noteq> HT_INVALID_IDX"
    if "d ! j = Some r" "j < n" "in_slot d m s j" for j r
    using ok that p n by (auto simp: chains_ok_def in_slot_def)
  have ilt: "i < j" if "last_in (in_slot d m s) j = i" for j
    using that p n by (cases j "in_slot d m s" rule: last_in_cases) auto
  have head: "hs' ! t = last_in (in_slot ?D m t) n" if "t < length hs" for t
  proof (cases "t = s \<and> prev = None")
    case True
    then have "hs ! s = i" using prev by (simp add: prev_of_def)
    then have "last_in (in_slot d m s) n = i" using ok p by (simp add: chains_ok_def)
    then have "last_in (in_slot ?D m s) n = b_next p"
      unfolding ieq nexti using p self by (intro last_in_removed) auto
    then show ?thesis using True d' p by (auto simp: unlinked_def)
  next
    case False
    have "last_in (in_slot ?D m t) n = last_in (in_slot d m t) n"
      unfolding ieq
    proof (rule last_in_remove)
      show "n \<le> i \<or> \<not> in_slot d m t i \<or> last_in (in_slot d m t) n \<noteq> i"
      proof (cases "t = s")
        case True
        then obtain j where j: "prev = Some j" "j < n" "in_slot d m s j" "\<exists>r. d ! j = Some r \<and> b_next r = i"
          using False prev by (auto simp: prev_of_def split: option.splits)
        then have "last_in (in_slot d m s) j = i" using link by metis
        then have "i < j" by (rule ilt)
        then have "last_in (in_slot d m s) n \<noteq> i"
          using j(2,3) n(2) by (cases n "in_slot d m s" rule: last_in_cases) auto
        then show ?thesis using True by simp
      next
        case False
        then show ?thesis using p by (simp add: in_slot_def)
      qed
    qed
    moreover have "hs' ! t = hs ! t" using d' False by (auto simp: unlinked_def split: option.splits)
    ultimately show ?thesis using ok that by (simp add: chains_ok_def)
  qed
  have nx: "b_next r' = last_in (in_slot ?D m (slot m (b_h r'))) k"
    if k: "k < n" "?D ! k = Some r'" "b_val r' \<noteq> IS_UNDEF" for k r'
  proof -
    have ki: "k \<noteq> i" using k q p n len by auto
    show ?thesis
    proof (cases "prev = Some k")
      case True
      then obtain r where r: "d ! k = Some r" "b_next r = i" "in_slot d m s k"
        using prev by (auto simp: prev_of_def)
      then have r': "r' = r\<lparr>b_next := b_next p\<rparr>"
        using True d' k ki n p by (auto simp: unlinked_def)
      have sl: "slot m (b_h r') = s" using r by (simp add: r' in_slot_def)
      have "last_in (in_slot d m s) k = i" using link(1) [OF r(1) k(1) r(3)] r(2) by simp
      moreover from this have "i < k" by (rule ilt)
      ultimately have "last_in (in_slot ?D m s) k = last_in (in_slot d m s) i"
        unfolding ieq using self by (intro last_in_removed)
      then show ?thesis using sl nexti r' by simp
    next
      case False
      then have dk: "d ! k = Some r'"
        using d' k ki n p by (auto simp: unlinked_def split: option.splits)
      let ?t = "slot m (b_h r')"
      have b: "b_next r' = last_in (in_slot d m ?t) k"
        using ok k dk by (auto simp: chains_ok_def)
      have "last_in (in_slot ?D m ?t) k = last_in (in_slot d m ?t) k"
        unfolding ieq
      proof (rule last_in_remove)
        show "k \<le> i \<or> \<not> in_slot d m ?t i \<or> last_in (in_slot d m ?t) k \<noteq> i"
        proof (cases "in_slot d m ?t i \<and> last_in (in_slot d m ?t) k = i")
          case True
          then have t: "?t = s" using p by (simp add: in_slot_def)
          have kin: "in_slot d m s k" using dk k t by (simp add: in_slot_def)
          have ik: "i < k" using True t ilt by simp
          show ?thesis
          proof (cases prev)
            case None
            then have "last_in (in_slot d m s) n = i"
              using prev ok p by (simp add: prev_of_def chains_ok_def)
            then show ?thesis using kin k ik n(2)
              by (cases n "in_slot d m s" rule: last_in_cases) auto
          next
            case (Some j)
            then have j: "j < n" "in_slot d m s j" "last_in (in_slot d m s) j = i"
              using prev link by (auto simp: prev_of_def)
            then have "j = k"
              using True t kin ik ilt [of j] k n(2) by (intro last_in_inj [of "in_slot d m s" j i k]) auto
            then show ?thesis using False Some by simp
          qed
        qed auto
      qed
      then show ?thesis using b by simp
    qed
  qed
  have "case ?D ! k of None \<Rightarrow> True
      | Some p \<Rightarrow> b_val p \<noteq> IS_UNDEF \<longrightarrow> b_next p = last_in (in_slot ?D m (slot m (b_h p))) k"
    if "k < n" for k
    using nx [OF that] by (auto split: option.splits)
  then show ?thesis using head hs_len unfolding chains_ok_def by simp
qed

subsection \<open>The invariant\<close>

text \<open>
  A bucket that is live has its key's hash as its \<open>h\<close>; a bucket that is not live
  has no key, so that no operation releases the key a second time. Under
  \<open>HASH_FLAG_STATIC_KEYS\<close> no key needs a release.
\<close>

definition size_ok :: "nat \<Rightarrow> bool" where
  "size_ok n \<longleftrightarrow> (\<exists>k<31. 3 \<le> k \<and> n = 2 ^ k)"

definition bucket_ok :: "bool \<Rightarrow> Bucket option \<Rightarrow> bool" where
  "bucket_ok static c =
     (case c of None \<Rightarrow> False
      | Some p \<Rightarrow>
          if b_val p = IS_UNDEF then b_key p = None
          else (case b_key p of None \<Rightarrow> True
                | Some k \<Rightarrow> zs_h k = b_h p \<and> b_h p = zend_hash_func (zs_val k)
                            \<and> (static \<longrightarrow> zs_interned k)))"

definition uninit_ok :: "HashTable \<Rightarrow> bool" where
  "uninit_ok ht \<longleftrightarrow>
     nTableMask ht = HT_MIN_MASK \<and> arHash ht = uninitialized_bucket \<and> nNumUsed ht = 0"

definition packed_ok :: "HashTable \<Rightarrow> bool" where
  "packed_ok ht \<longleftrightarrow>
     \<not> f_uninit ht \<and> nTableMask ht = HT_MIN_MASK \<and> arHash ht = [HT_INVALID_IDX, HT_INVALID_IDX] \<and>
     length (arPacked ht) = nTableSize ht \<and> nNumUsed ht \<le> nTableSize ht \<and>
     (\<forall>i<nNumUsed ht. arPacked ht ! i \<noteq> None)"

definition mixed_ok :: "HashTable \<Rightarrow> bool" where
  "mixed_ok ht \<longleftrightarrow>
     nTableMask ht = HT_SIZE_TO_MASK (nTableSize ht) \<and> length (arHash ht) = 2 * nTableSize ht \<and>
     length (arData ht) = nTableSize ht \<and> nNumUsed ht \<le> nTableSize ht \<and>
     (\<forall>i<nNumUsed ht. bucket_ok (f_static_keys ht) (arData ht ! i)) \<and>
     chains_ok (arData ht) (nTableMask ht) (arHash ht) (nNumUsed ht)"

definition key_below :: "int \<Rightarrow> hkey \<Rightarrow> bool" where
  "key_below next k = (case k of KNum h \<Rightarrow> sint h < next \<or> next = ZEND_LONG_MAX | KStr _ \<Rightarrow> True)"

definition next_free_ok :: "HashTable \<Rightarrow> bool" where
  "next_free_ok ht \<longleftrightarrow>
     ZEND_LONG_MIN \<le> nNextFreeElement ht \<and> nNextFreeElement ht \<le> ZEND_LONG_MAX \<and>
     (\<forall>kv\<in>set (elems ht). key_below (nNextFreeElement ht) (fst kv))"

definition ht_inv :: "HashTable \<Rightarrow> bool" where
  "ht_inv ht \<longleftrightarrow>
     size_ok (nTableSize ht) \<and>
     (if f_packed ht then packed_ok ht else if f_uninit ht then uninit_ok ht else mixed_ok ht) \<and>
     nNumOfElements ht = length (elems ht) \<and> distinct (map fst (elems ht)) \<and> next_free_ok ht"

lemma size_okI: "3 \<le> k \<Longrightarrow> k \<le> 30 \<Longrightarrow> size_ok (2 ^ k)"
  unfolding size_ok_def by (intro exI [of _ k]) auto

lemma size_ok_8: "size_ok HT_MIN_SIZE"
  using size_okI [of 3] by (simp add: HT_MIN_SIZE_def)

lemma size_ok_bounds: "size_ok n \<Longrightarrow> 8 \<le> n \<and> n \<le> HT_MAX_SIZE"
proof -
  assume "size_ok n"
  then obtain k where k: "3 \<le> k" "k \<le> 30" "n = 2 ^ k" by (auto simp: size_ok_def)
  have "2 ^ 3 \<le> n" "n \<le> 2 ^ 30"
    unfolding k(3) using k(1,2) by (blast intro: power_increasing one_le_numeral)+
  then show ?thesis by (simp add: HT_MAX_SIZE_def)
qed

lemma size_ok_double: "size_ok n \<Longrightarrow> n < HT_MAX_SIZE \<Longrightarrow> size_ok (2 * n)"
proof -
  assume "size_ok n" "n < HT_MAX_SIZE"
  then obtain k where k: "3 \<le> k" "k \<le> 30" "n = 2 ^ k" by (auto simp: size_ok_def)
  then have "(2 :: nat) ^ k < 2 ^ 30" using \<open>n < HT_MAX_SIZE\<close> by (simp add: HT_MAX_SIZE_def)
  then have "k < 30" by (simp only: power_strict_increasing_iff)
  then show ?thesis using k size_okI [of "Suc k"] by simp
qed

lemma size_mask:
  assumes "size_ok n"
  shows "HT_SIZE_TO_MASK n \<noteq> 0" "unat (- HT_SIZE_TO_MASK n) = 2 * n"
proof -
  have n: "8 \<le> n" "n \<le> 0x40000000"
    using size_ok_bounds [OF assms] by (simp_all add: HT_MAX_SIZE_def)
  have "- HT_SIZE_TO_MASK n = of_nat (2 * n)" by (simp add: HT_SIZE_TO_MASK_def)
  then show u: "unat (- HT_SIZE_TO_MASK n) = 2 * n"
    using of_nat_unat_id [of "2 * n"] n by simp
  show "HT_SIZE_TO_MASK n \<noteq> 0"
  proof
    assume "HT_SIZE_TO_MASK n = 0"
    then show False using u n by simp
  qed
qed

lemma slot_ok: "size_ok n \<Longrightarrow> slot (HT_SIZE_TO_MASK n) h < 2 * n"
  using slot_bound [of "HT_SIZE_TO_MASK n" h] size_mask [of n] by simp

lemma slot_min: "slot HT_MIN_MASK h < 2"
  using slot_bound [of HT_MIN_MASK h] by (simp add: HT_MIN_MASK_def)

lemma mixed_okD:
  assumes "mixed_ok ht"
  shows "nTableMask ht = HT_SIZE_TO_MASK (nTableSize ht)" "length (arHash ht) = 2 * nTableSize ht"
    "length (arData ht) = nTableSize ht" "nNumUsed ht \<le> nTableSize ht"
    "\<And>i. i < nNumUsed ht \<Longrightarrow> bucket_ok (f_static_keys ht) (arData ht ! i)"
    "chains_ok (arData ht) (nTableMask ht) (arHash ht) (nNumUsed ht)"
  using assms unfolding mixed_ok_def by blast+

lemma mixed_bucket: "mixed_ok ht \<Longrightarrow> i < nNumUsed ht \<Longrightarrow> \<exists>p. arData ht ! i = Some p"
  using mixed_okD(5) [of ht i] by (cases "arData ht ! i") (simp_all add: bucket_ok_def)

lemma mixed_slot [simp]: "mixed_ok ht \<Longrightarrow> size_ok (nTableSize ht) \<Longrightarrow>
    slot (nTableMask ht) h < length (arHash ht)"
  by (simp add: mixed_ok_def slot_ok)

lemma size_ok_less_invalid: "size_ok n \<Longrightarrow> n < HT_INVALID_IDX"
  using size_ok_bounds [of n] by (simp add: HT_INVALID_IDX_def HT_MAX_SIZE_def)

lemma elems_nil: "nNumUsed ht = 0 \<Longrightarrow> elems ht = []"
  by (simp add: elems_def)

lemma inv_size: "ht_inv ht \<Longrightarrow> size_ok (nTableSize ht)"
  by (simp add: ht_inv_def)

lemma inv_mixed: "ht_inv ht \<Longrightarrow> \<not> f_packed ht \<Longrightarrow> \<not> f_uninit ht \<Longrightarrow> mixed_ok ht"
  by (simp add: ht_inv_def)

lemma inv_packed: "ht_inv ht \<Longrightarrow> f_packed ht \<Longrightarrow> packed_ok ht"
  by (simp add: ht_inv_def)

lemma inv_uninit: "ht_inv ht \<Longrightarrow> \<not> f_packed ht \<Longrightarrow> f_uninit ht \<Longrightarrow> uninit_ok ht"
  by (simp add: ht_inv_def)

lemma inv_distinct: "ht_inv ht \<Longrightarrow> distinct (map fst (elems ht))"
  by (simp add: ht_inv_def)

lemma inv_used_le: "ht_inv ht \<Longrightarrow> nNumUsed ht \<le> nTableSize ht"
  by (auto simp: ht_inv_def packed_ok_def mixed_ok_def uninit_ok_def split: if_splits)

lemma elems_without_holes:
  "ht_inv ht \<Longrightarrow> HT_IS_WITHOUT_HOLES ht \<longleftrightarrow> (\<forall>i<nNumUsed ht. entry_at ht i \<noteq> None)"
  using length_entries_full [of "entry_at ht" "nNumUsed ht"]
  by (auto simp: ht_inv_def HT_IS_WITHOUT_HOLES_def elems_def)

text \<open>A packed index is its own key.\<close>

lemma packed_key_less:
  assumes "size_ok (nTableSize ht)" "nNumUsed ht \<le> nTableSize ht" "i < nNumUsed ht"
  shows "unat (of_nat i :: 64 word) = i" "sint (of_nat i :: 64 word) = int i"
proof -
  have i: "i < 2 ^ 31" using assms size_ok_bounds [OF assms(1)] by (simp add: HT_MAX_SIZE_def)
  show u: "unat (of_nat i :: 64 word) = i"
    using i by (simp add: unsigned_of_nat take_bit_nat_eq_self)
  show "sint (of_nat i :: 64 word) = int i"
    using i by (simp add: signed_of_nat signed_take_bit_int_eq_self)
qed

subsection \<open>New tables are well formed and empty\<close>

lemma init_inv:
  assumes "zend_hash_init_int a nSize dtor pers = Inr ht"
  shows "ht_inv ht" "elems ht = []" "f_uninit ht" "\<not> f_packed ht" "nNumUsed ht = 0"
    "nSize \<le> nTableSize ht" "pDestructor ht = dtor" "ht_addr ht = a"
proof -
  obtain s where s: "zend_hash_check_size nSize = Inr s"
    using assms by (auto simp: zend_hash_init_int_def bindE_eq_Inr)
  then have le: "nSize \<le> HT_MAX_SIZE"
    by (auto simp: zend_hash_check_size_def HT_MAX_SIZE_def HT_MIN_SIZE_def split: if_splits)
  from check_size_cases [OF le] obtain k where
    k: "zend_hash_check_size nSize = Inr (2 ^ k)" "3 \<le> k" "k \<le> 30" "nSize \<le> 2 ^ k" .
  then have ok: "size_ok s" "nSize \<le> s" using s size_okI [of k] by auto
  then show "ht_inv ht" "elems ht = []" "f_uninit ht" "\<not> f_packed ht" "nNumUsed ht = 0"
    "nSize \<le> nTableSize ht" "pDestructor ht = dtor" "ht_addr ht = a"
    using assms s by (auto simp: zend_hash_init_int_def ht_inv_def uninit_ok_def elems_def
        next_free_ok_def ZEND_LONG_MIN_def ZEND_LONG_MAX_def)
qed

lemma init_total: "nSize \<le> HT_MAX_SIZE \<Longrightarrow> \<exists>ht. zend_hash_init_int a nSize dtor pers = Inr ht"
  by (auto simp: zend_hash_init_int_def elim: check_size_cases)

lemma init_fatal: "HT_MAX_SIZE < nSize \<Longrightarrow> zend_hash_init_int a nSize dtor pers = Inl FatalOverflow"
  by (simp add: zend_hash_init_int_def zend_hash_check_size_def HT_MAX_SIZE_def HT_MIN_SIZE_def)

lemma real_init_mixed:
  assumes "ht_inv ht" "f_uninit ht" "\<not> f_packed ht"
  obtains ht' where "zend_hash_real_init_mixed_ex ht = Inr ht'" "ht_inv ht'" "mixed_ok ht'"
    "\<not> f_packed ht'" "\<not> f_uninit ht'" "nNumUsed ht' = 0" "elems ht' = []" "elems ht = []"
    "nNumOfElements ht' = 0" "nTableSize ht' = nTableSize ht" "f_static_keys ht'"
    "nNextFreeElement ht' = nNextFreeElement ht" "pDestructor ht' = pDestructor ht"
    "ht_addr ht' = ht_addr ht" "nInternalPointer ht' = nInternalPointer ht"
    "nIteratorsCount ht' = (if nTableSize ht = HT_MIN_SIZE \<and> \<not> f_persistent ht then nIteratorsCount ht else 0)"
proof -
  have sz: "size_ok (nTableSize ht)" and u: "uninit_ok ht"
    using assms by (simp_all add: ht_inv_def)
  note m = size_mask [OF sz]
  have el: "elems ht = []" using u by (simp add: uninit_ok_def elems_def)
  define ht1 where "ht1 = ht\<lparr>nTableMask := HT_SIZE_TO_MASK (nTableSize ht),
      arData := replicate (nTableSize ht) None, arPacked := [],
      f_packed := False, f_static_keys := True, f_uninit := False, f_empty_ind := False\<rparr>"
  define ht' where "ht' = ht1\<lparr>arHash := replicate (2 * nTableSize ht) HT_INVALID_IDX,
      nIteratorsCount := (if nTableSize ht = HT_MIN_SIZE \<and> \<not> f_persistent ht then nIteratorsCount ht else 0)\<rparr>"
  have res: "zend_hash_real_init_mixed_ex ht = Inr ht'"
    using m by (simp add: zend_hash_real_init_mixed_ex_def ht1_def ht'_def HT_HASH_RESET_def
        HT_MIN_SIZE_def Let_def)
  have mix: "mixed_ok ht'"
    using m u by (simp add: mixed_ok_def ht'_def ht1_def uninit_ok_def chains_ok_def)
  have "ht_inv ht'"
    using assms(1) mix u sz el
    by (simp add: ht_inv_def next_free_ok_def elems_def) (simp add: ht'_def ht1_def uninit_ok_def)
  then show thesis
    using that [OF res _ mix] u el assms(1)
    by (simp add: ht'_def ht1_def uninit_ok_def elems_def ht_inv_def)
qed

end
