(* ===== verification/HashFind.thy ===== *)
theory HashFind
  imports HashInv
begin

text \<open>
  Lookups of \<open>Zend/zend_hash.c\<close>: the walk along a collision chain, the three
  bucket searches and the public \<open>zend_hash_find\<close> family, with the theorem that
  each is \<open>map_of\<close> on the table's entries.
\<close>

subsection \<open>Walking a chain\<close>

text \<open>
  The loop stops at \<open>HT_INVALID_IDX\<close> or at the first bucket that satisfies \<open>P\<close>,
  of which it gives the place and that of its predecessor (\<open>prev\<close>). The fuel is
  one more than the number of buckets; that it suffices on a well-formed table
  is part of \<open>chain_find_spec\<close>.
\<close>

fun chain_find ::
  "nat \<Rightarrow> Bucket option list \<Rightarrow> (Bucket \<Rightarrow> bool) \<Rightarrow> nat option \<Rightarrow> nat
    \<Rightarrow> error + (nat \<times> nat option) option" where
  "chain_find 0 d P prev idx = Inl NoReturn"
| "chain_find (Suc fuel) d P prev idx =
     (if idx = HT_INVALID_IDX then Inr None
      else bindE (rd d idx) (\<lambda>p.
        if P p then Inr (Some (idx, prev))
        else chain_find fuel d P (Some idx) (b_next p)))"

definition find_in_slot ::
  "HashTable \<Rightarrow> 64 word \<Rightarrow> (Bucket \<Rightarrow> bool) \<Rightarrow> error + (nat \<times> nat option) option" where
  "find_in_slot ht h P =
     bindE (rdi (arHash ht) (slot (nTableMask ht) h))
       (chain_find (Suc (length (arData ht))) (arData ht) P None)"

definition str_match :: "zend_string \<Rightarrow> Bucket \<Rightarrow> bool" where
  "str_match key p \<longleftrightarrow>
     b_h p = zs_h key \<and> (case b_key p of None \<Rightarrow> False | Some k \<Rightarrow> zend_string_equal_content k key)"

definition cstr_match :: "8 word list \<Rightarrow> 64 word \<Rightarrow> Bucket \<Rightarrow> bool" where
  "cstr_match str h p \<longleftrightarrow>
     b_h p = h \<and> (case b_key p of None \<Rightarrow> False | Some k \<Rightarrow> zend_string_equals_cstr k str)"

definition idx_match :: "64 word \<Rightarrow> Bucket \<Rightarrow> bool" where
  "idx_match h p \<longleftrightarrow> b_h p = h \<and> b_key p = None"

definition zend_hash_find_bucket :: "HashTable \<Rightarrow> zend_string \<Rightarrow> error + nat option" where
  "zend_hash_find_bucket ht key =
     assertE (zs_h key \<noteq> 0) (\<lambda>_.
       bindE (find_in_slot ht (zs_h key) (str_match key)) (\<lambda>r. Inr (map_option fst r)))"

definition zend_hash_str_find_bucket ::
  "HashTable \<Rightarrow> 8 word list \<Rightarrow> 64 word \<Rightarrow> error + nat option" where
  "zend_hash_str_find_bucket ht str h =
     bindE (find_in_slot ht h (cstr_match str h)) (\<lambda>r. Inr (map_option fst r))"

definition zend_hash_index_find_bucket :: "HashTable \<Rightarrow> 64 word \<Rightarrow> error + nat option" where
  "zend_hash_index_find_bucket ht h =
     bindE (find_in_slot ht h (idx_match h)) (\<lambda>r. Inr (map_option fst r))"

subsection \<open>The public lookups\<close>

text \<open>A \<open>zval *\<close> result: into a bucket, a packed cell, or the target of an \<open>IS_INDIRECT\<close>.\<close>

datatype zloc = LBucket nat | LPacked nat | LIndirect nat

definition zend_hash_find :: "HashTable \<Rightarrow> zend_string \<Rightarrow> error + zloc option" where
  "zend_hash_find ht key =
     (let key = zend_string_hash_val key
      in bindE (zend_hash_find_bucket ht key) (\<lambda>p. Inr (map_option LBucket p)))"

definition zend_hash_find_known_hash :: "HashTable \<Rightarrow> zend_string \<Rightarrow> error + zloc option" where
  "zend_hash_find_known_hash ht key =
     bindE (zend_hash_find_bucket ht key) (\<lambda>p. Inr (map_option LBucket p))"

definition zend_hash_str_find :: "HashTable \<Rightarrow> 8 word list \<Rightarrow> error + zloc option" where
  "zend_hash_str_find ht str =
     (let h = zend_inline_hash_func str
      in bindE (zend_hash_str_find_bucket ht str h) (\<lambda>p. Inr (map_option LBucket p)))"

definition zend_hash_index_find :: "HashTable \<Rightarrow> 64 word \<Rightarrow> error + zloc option" where
  "zend_hash_index_find ht h =
     (if f_packed ht then
        (if unat h < nNumUsed ht then
           bindE (rd (arPacked ht) (unat h)) (\<lambda>zv.
             if zv \<noteq> IS_UNDEF then Inr (Some (LPacked (unat h))) else Inr None)
         else Inr None)
      else bindE (zend_hash_index_find_bucket ht h) (\<lambda>p. Inr (map_option LBucket p)))"

definition zend_hash_index_find_mixed :: "HashTable \<Rightarrow> 64 word \<Rightarrow> error + zloc option" where
  "zend_hash_index_find_mixed ht h =
     assertE (\<not> f_packed ht) (\<lambda>_.
       bindE (zend_hash_index_find_bucket ht h) (\<lambda>p. Inr (map_option LBucket p)))"

definition zloc_val :: "HashTable \<Rightarrow> executor_globals \<Rightarrow> zloc \<Rightarrow> zval" where
  "zloc_val ht eg l =
     (case l of
        LBucket i \<Rightarrow> (case arData ht ! i of None \<Rightarrow> IS_UNDEF | Some p \<Rightarrow> b_val p)
      | LPacked i \<Rightarrow> (case arPacked ht ! i of None \<Rightarrow> IS_UNDEF | Some v \<Rightarrow> v)
      | LIndirect a \<Rightarrow> indirect eg a)"

subsection \<open>What a walk finds\<close>

lemma chain_find_spec:
  assumes ok: "chains_ok d m hs n"
    and cells: "n \<le> length d" "\<And>i. i < n \<Longrightarrow> d ! i \<noteq> None" "n < HT_INVALID_IDX"
    and "k \<le> n" "k < fuel"
  shows "\<exists>r. chain_find fuel d P prev (last_in (in_slot d m s) k) = Inr r \<and>
     (case r of
        None \<Rightarrow> \<forall>i<k. \<forall>p. d ! i = Some p \<longrightarrow> in_slot d m s i \<longrightarrow> \<not> P p
      | Some (i, prev') \<Rightarrow> i < k \<and> in_slot d m s i \<and> (\<exists>p. d ! i = Some p \<and> P p) \<and>
          (prev' = prev \<and> i = last_in (in_slot d m s) k \<or>
           (\<exists>j. prev' = Some j \<and> j < k \<and> in_slot d m s j \<and> (\<exists>q. d ! j = Some q \<and> b_next q = i))))"
  using assms(5,6)
proof (induction k arbitrary: fuel prev rule: less_induct)
  case (less k)
  obtain fuel' where f: "fuel = Suc fuel'" using less.prems by (cases fuel) auto
  show ?case
  proof (cases k "in_slot d m s" rule: last_in_cases)
    case 1
    then show ?thesis by (auto simp: f)
  next
    case (2 i)
    obtain p where p: "d ! i = Some p" "b_val p \<noteq> IS_UNDEF" "slot m (b_h p) = s"
      using 2 by (auto simp: in_slot_def split: option.splits)
    have i: "i < length d" "i \<noteq> HT_INVALID_IDX" "i < n" using 2 cells less.prems by auto
    show ?thesis
    proof (cases "P p")
      case True
      then show ?thesis using 2 p i by (auto simp: f)
    next
      case False
      have nx: "b_next p = last_in (in_slot d m s) i" using ok i p by (auto simp: chains_ok_def)
      have "i < k" "i \<le> n" "i < fuel'" using 2 less.prems i f by auto
      from less.IH [OF this, of "Some i"] obtain r where
        r: "chain_find fuel' d P (Some i) (b_next p) = Inr r"
        and spec: "case r of None \<Rightarrow> \<forall>j<i. \<forall>p. d ! j = Some p \<longrightarrow> in_slot d m s j \<longrightarrow> \<not> P p
          | Some (i', prev') \<Rightarrow> i' < i \<and> in_slot d m s i' \<and> (\<exists>p. d ! i' = Some p \<and> P p) \<and>
             (prev' = Some i \<and> i' = last_in (in_slot d m s) i \<or>
              (\<exists>j. prev' = Some j \<and> j < i \<and> in_slot d m s j \<and> (\<exists>q. d ! j = Some q \<and> b_next q = i')))"
        unfolding nx by blast
      have "chain_find fuel d P prev (last_in (in_slot d m s) k) = Inr r"
        using 2 p i False r by (simp add: f)
      moreover have "\<not> P q" if "r = None" "j < k" "d ! j = Some q" "in_slot d m s j" for j q
      proof (cases j i rule: linorder_cases)
        case less
        then show ?thesis using spec that by auto
      next
        case equal
        then show ?thesis using p that False by auto
      next
        case greater
        then show ?thesis using 2 that by auto
      qed
      moreover have "i' < k \<and> in_slot d m s i' \<and> (\<exists>p. d ! i' = Some p \<and> P p) \<and>
          (\<exists>j. prev' = Some j \<and> j < k \<and> in_slot d m s j \<and> (\<exists>q. d ! j = Some q \<and> b_next q = i'))"
        if "r = Some (i', prev')" for i' prev'
      proof -
        have s: "i' < i" "in_slot d m s i'" "\<exists>p. d ! i' = Some p \<and> P p"
          "prev' = Some i \<and> i' = last_in (in_slot d m s) i \<or>
              (\<exists>j. prev' = Some j \<and> j < i \<and> in_slot d m s j \<and> (\<exists>q. d ! j = Some q \<and> b_next q = i'))"
          using spec that by auto
        have "\<exists>j. prev' = Some j \<and> j < k \<and> in_slot d m s j \<and> (\<exists>q. d ! j = Some q \<and> b_next q = i')"
          using s(4)
        proof (elim disjE exE conjE)
          assume "prev' = Some i" "i' = last_in (in_slot d m s) i"
          then show ?thesis using 2 p nx by blast
        next
          fix j q assume "prev' = Some j" "j < i" "in_slot d m s j" "d ! j = Some q" "b_next q = i'"
          then show ?thesis using 2 order.strict_trans by blast
        qed
        then show ?thesis using s(1,2,3) 2 order.strict_trans by blast
      qed
      ultimately show ?thesis by (cases r) auto
    qed
  qed
qed

text \<open>
  \<open>key_test P h k\<close>: on the buckets of a well-formed table, \<open>P\<close> is the comparison
  with key \<open>k\<close>, whose hash is \<open>h\<close>.
\<close>

definition key_test :: "(Bucket \<Rightarrow> bool) \<Rightarrow> 64 word \<Rightarrow> hkey \<Rightarrow> bool" where
  "key_test P h k \<longleftrightarrow>
     (\<forall>static p. bucket_ok static (Some p) \<longrightarrow> b_val p \<noteq> IS_UNDEF \<longrightarrow>
        (P p \<longleftrightarrow> bucket_key p = k) \<and> (P p \<longrightarrow> b_h p = h))"

lemma str_match_test: "zs_h key = zend_hash_func (zs_val key) \<Longrightarrow>
    key_test (str_match key) (zs_h key) (KStr (zs_val key))"
  by (auto simp: key_test_def str_match_def bucket_key_def bucket_ok_def
      zend_string_equal_content_def split: option.splits)

lemma cstr_match_test: "h = zend_hash_func str \<Longrightarrow> key_test (cstr_match str h) h (KStr str)"
  by (auto simp: key_test_def cstr_match_def bucket_key_def bucket_ok_def
      zend_string_equals_cstr_def split: option.splits)

lemma idx_match_test: "key_test (idx_match h) h (KNum h)"
  by (auto simp: key_test_def idx_match_def bucket_key_def split: option.splits)

text \<open>The two outcomes of a search in a table of buckets.\<close>

lemma find_in_slot_mixed:
  assumes mix: "mixed_ok ht" and sz: "size_ok (nTableSize ht)" and np: "\<not> f_packed ht"
    and test: "key_test P h k"
  obtains (none) "find_in_slot ht h P = Inr None" "\<And>i v. i < nNumUsed ht \<Longrightarrow> entry_at ht i \<noteq> Some (k, v)"
  | (found) i prev p where "find_in_slot ht h P = Inr (Some (i, prev))" "i < nNumUsed ht"
      "arData ht ! i = Some p" "b_val p \<noteq> IS_UNDEF" "bucket_key p = k" "b_h p = h"
      "entry_at ht i = Some (k, b_val p)"
      "prev_of (arData ht) (nTableMask ht) (arHash ht) (nNumUsed ht) (slot (nTableMask ht) h) i prev"
proof -
  let ?d = "arData ht" and ?m = "nTableMask ht" and ?n = "nNumUsed ht"
  let ?s = "slot ?m h"
  have ok: "chains_ok ?d ?m (arHash ht) ?n" and len: "length ?d = nTableSize ht" "?n \<le> nTableSize ht"
    and cells: "\<And>i. i < ?n \<Longrightarrow> bucket_ok (f_static_keys ht) (?d ! i)"
    by (fact mixed_okD [OF mix])+
  have nn: "\<And>i. i < ?n \<Longrightarrow> ?d ! i \<noteq> None" using mixed_bucket [OF mix] by fastforce
  have inv: "?n < HT_INVALID_IDX" using size_ok_less_invalid [OF sz] len by simp
  have hd: "arHash ht ! ?s = last_in (in_slot ?d ?m ?s) ?n"
    using ok mixed_slot [OF mix sz, of h] by (simp add: chains_ok_def)
  have start: "find_in_slot ht h P =
      chain_find (Suc (length ?d)) ?d P None (last_in (in_slot ?d ?m ?s) ?n)"
    using mixed_slot [OF mix sz, of h] hd by (simp add: find_in_slot_def)
  have nle: "?n \<le> length ?d" "?n \<le> ?n" "?n < Suc (length ?d)" using len by auto
  from chain_find_spec [OF ok nle(1) nn inv nle(2,3), where P = P and prev = None and s = ?s] obtain r where
    r: "find_in_slot ht h P = Inr r"
    and spec: "case r of
        None \<Rightarrow> \<forall>i<?n. \<forall>p. ?d ! i = Some p \<longrightarrow> in_slot ?d ?m ?s i \<longrightarrow> \<not> P p
      | Some (i, prev') \<Rightarrow> i < ?n \<and> in_slot ?d ?m ?s i \<and> (\<exists>p. ?d ! i = Some p \<and> P p) \<and>
          (prev' = None \<and> i = last_in (in_slot ?d ?m ?s) ?n \<or>
           (\<exists>j. prev' = Some j \<and> j < ?n \<and> in_slot ?d ?m ?s j \<and> (\<exists>q. ?d ! j = Some q \<and> b_next q = i)))"
    unfolding start by blast
  show thesis
  proof (cases r)
    case None
    show thesis
    proof (rule none)
      show "find_in_slot ht h P = Inr None" using r None by simp
      show "entry_at ht i \<noteq> Some (k, v)" if i: "i < ?n" for i v
      proof
        assume "entry_at ht i = Some (k, v)"
        then obtain p where p: "?d ! i = Some p" "b_val p \<noteq> IS_UNDEF" "bucket_key p = k"
          using np by (auto simp: entry_at_def bucket_entry_def split: option.splits if_splits)
        then have P: "P p" "b_h p = h" using cells [OF i] test by (auto simp: key_test_def)
        then have "in_slot ?d ?m ?s i" using p by (simp add: in_slot_def)
        then show False using spec None i p P by auto
      qed
    qed
  next
    case (Some ip)
    obtain i prev where ip: "ip = (i, prev)" by (cases ip)
    have s: "i < ?n" "in_slot ?d ?m ?s i" "\<exists>p. ?d ! i = Some p \<and> P p"
      "prev = None \<and> i = last_in (in_slot ?d ?m ?s) ?n \<or>
       (\<exists>j. prev = Some j \<and> j < ?n \<and> in_slot ?d ?m ?s j \<and> (\<exists>q. ?d ! j = Some q \<and> b_next q = i))"
      using spec Some ip by auto
    then obtain p where p: "?d ! i = Some p" "P p" by auto
    have v: "b_val p \<noteq> IS_UNDEF" using s(2) p by (simp add: in_slot_def)
    have kh: "bucket_key p = k" "b_h p = h"
      using cells [OF s(1)] p v test by (auto simp: key_test_def)
    have pr: "prev_of ?d ?m (arHash ht) ?n ?s i prev"
      using s(4) hd by (auto simp: prev_of_def)
    show thesis
      by (rule found [of i prev p]) (use r Some ip s p v kh pr np in \<open>auto simp: entry_at_def bucket_entry_def\<close>)
  qed
qed

text \<open>A table without buckets (not initialised, or packed) has empty hash words.\<close>

lemma find_in_slot_empty:
  assumes "nTableMask ht = HT_MIN_MASK" "arHash ht = [HT_INVALID_IDX, HT_INVALID_IDX]"
  shows "find_in_slot ht h P = Inr None"
  using slot_min [of h] assms
  by (auto simp: find_in_slot_def rdi_def less_2_cases_iff)

subsection \<open>Lookups are \<open>map_of\<close> on the entries\<close>

lemma find_in_slot_map_of:
  assumes inv: "ht_inv ht" "\<not> f_packed ht" and test: "key_test P h k"
  obtains (none) "find_in_slot ht h P = Inr None" "map_of (elems ht) k = None"
  | (found) i prev p where "find_in_slot ht h P = Inr (Some (i, prev))"
      "mixed_ok ht" "\<not> f_uninit ht" "i < nNumUsed ht"
      "arData ht ! i = Some p" "b_val p \<noteq> IS_UNDEF" "bucket_key p = k" "b_h p = h"
      "entry_at ht i = Some (k, b_val p)" "map_of (elems ht) k = Some (b_val p)"
      "prev_of (arData ht) (nTableMask ht) (arHash ht) (nNumUsed ht) (slot (nTableMask ht) h) i prev"
proof (cases "f_uninit ht")
  case True
  then have "uninit_ok ht" using inv by (simp add: inv_uninit)
  then show thesis
    using none find_in_slot_empty [of ht h P] by (simp add: uninit_ok_def uninitialized_bucket_def elems_def)
next
  case False
  then have mix: "mixed_ok ht" using inv by (simp add: inv_mixed)
  have d: "distinct (map fst (entries (entry_at ht) (nNumUsed ht)))"
    using inv_distinct [OF inv(1)] by (simp add: elems_def)
  show thesis
  proof (cases rule: find_in_slot_mixed [OF mix inv_size [OF inv(1)] inv(2) test])
    case 1
    then show ?thesis using none by (simp add: elems_def map_of_entries_None)
  next
    case (2 i prev p)
    then have "map_of (elems ht) k = Some (b_val p)"
      unfolding elems_def using map_of_entries [OF d] by blast
    then show ?thesis using found 2 mix False by blast
  qed
qed

text \<open>A result location, read back.\<close>

definition found_val :: "HashTable \<Rightarrow> executor_globals \<Rightarrow> error + zloc option \<Rightarrow> error + zval option" where
  "found_val ht eg r = map_sum id (map_option (zloc_val ht eg)) r"

lemma packed_no_str:
  assumes "ht_inv ht" "f_packed ht"
  shows "map_of (elems ht) (KStr s) = None"
  using assms by (auto simp: elems_def map_of_entries_None entry_at_def packed_entry_def split: option.splits)

lemma find_bucket_spec:
  assumes "ht_inv ht" "zs_h key = zend_hash_func (zs_val key)"
  shows "found_val ht eg (bindE (zend_hash_find_bucket ht key) (\<lambda>p. Inr (map_option LBucket p))) =
    Inr (map_of (elems ht) (KStr (zs_val key)))"
proof (cases "f_packed ht")
  case True
  then have "find_in_slot ht (zs_h key) (str_match key) = Inr None"
    using inv_packed [OF assms(1)] by (intro find_in_slot_empty) (simp_all add: packed_ok_def)
  then show ?thesis using assms True
    by (simp add: zend_hash_find_bucket_def hash_func_nonzero found_val_def packed_no_str)
next
  case False
  show ?thesis
    by (cases rule: find_in_slot_map_of [OF assms(1) False str_match_test [OF assms(2)]])
      (use assms in \<open>simp_all add: zend_hash_find_bucket_def hash_func_nonzero found_val_def zloc_val_def\<close>)
qed

lemma find_known_hash_spec:
  assumes "ht_inv ht" "zs_h key = zend_hash_func (zs_val key)"
  shows "found_val ht eg (zend_hash_find_known_hash ht key) = Inr (map_of (elems ht) (KStr (zs_val key)))"
  using find_bucket_spec [OF assms] by (simp add: zend_hash_find_known_hash_def)

lemma find_spec:
  assumes "ht_inv ht" "str_ok key"
  shows "found_val ht eg (zend_hash_find ht key) = Inr (map_of (elems ht) (KStr (zs_val key)))"
  using find_bucket_spec [OF assms(1), of "zend_string_hash_val key"] hash_val_h [OF assms(2)]
  by (simp add: zend_hash_find_def)

lemma str_find_spec:
  assumes "ht_inv ht"
  shows "found_val ht eg (zend_hash_str_find ht str) = Inr (map_of (elems ht) (KStr str))"
proof (cases "f_packed ht")
  case True
  then have "find_in_slot ht h P = Inr None" for h P
    using inv_packed [OF assms] by (intro find_in_slot_empty) (simp_all add: packed_ok_def)
  then show ?thesis using assms True
    by (simp add: zend_hash_str_find_def zend_hash_str_find_bucket_def found_val_def packed_no_str Let_def)
next
  case False
  have "zend_inline_hash_func str = zend_hash_func str" by (simp add: zend_hash_func_def)
  note t = cstr_match_test [OF this]
  show ?thesis
    by (cases rule: find_in_slot_map_of [OF assms False t])
      (simp_all add: zend_hash_str_find_def zend_hash_str_find_bucket_def found_val_def zloc_val_def Let_def)
qed

lemma packed_entry_index:
  assumes "packed_ok ht" "size_ok (nTableSize ht)" "f_packed ht"
  shows "(\<exists>i<nNumUsed ht. entry_at ht i = Some (KNum h, v)) \<longleftrightarrow>
     unat h < nNumUsed ht \<and> arPacked ht ! unat h = Some v \<and> v \<noteq> IS_UNDEF"
proof
  assume "\<exists>i<nNumUsed ht. entry_at ht i = Some (KNum h, v)"
  then obtain i where i: "i < nNumUsed ht" "entry_at ht i = Some (KNum h, v)" by auto
  then have "h = of_nat i" "arPacked ht ! i = Some v" "v \<noteq> IS_UNDEF"
    using assms(3) by (auto simp: entry_at_def packed_entry_def split: option.splits if_splits)
  moreover have "unat (of_nat i :: 64 word) = i"
    using assms i by (intro packed_key_less) (auto simp: packed_ok_def)
  ultimately show "unat h < nNumUsed ht \<and> arPacked ht ! unat h = Some v \<and> v \<noteq> IS_UNDEF"
    using i by simp
next
  assume "unat h < nNumUsed ht \<and> arPacked ht ! unat h = Some v \<and> v \<noteq> IS_UNDEF"
  then show "\<exists>i<nNumUsed ht. entry_at ht i = Some (KNum h, v)"
    using assms(3) by (intro exI [of _ "unat h"]) (simp add: entry_at_def packed_entry_def)
qed

lemma packed_map_of:
  assumes "ht_inv ht" "f_packed ht"
  shows "map_of (elems ht) (KNum h) =
     (if unat h < nNumUsed ht \<and> arPacked ht ! unat h \<noteq> Some IS_UNDEF then arPacked ht ! unat h else None)"
proof -
  have pk: "packed_ok ht" and sz: "size_ok (nTableSize ht)"
    using assms by (simp_all add: inv_packed inv_size)
  have d: "distinct (map fst (entries (entry_at ht) (nNumUsed ht)))"
    using inv_distinct [OF assms(1)] by (simp add: elems_def)
  show ?thesis
  proof (cases "\<exists>v. map_of (elems ht) (KNum h) = Some v")
    case True
    then obtain v where v: "map_of (elems ht) (KNum h) = Some v" ..
    then have "unat h < nNumUsed ht \<and> arPacked ht ! unat h = Some v \<and> v \<noteq> IS_UNDEF"
      using map_of_entries [OF d] packed_entry_index [OF pk sz assms(2)] unfolding elems_def by blast
    then show ?thesis using v by simp
  next
    case False
    then have none: "\<not> (unat h < nNumUsed ht \<and> arPacked ht ! unat h = Some v \<and> v \<noteq> IS_UNDEF)" for v
      using map_of_entries [OF d] packed_entry_index [OF pk sz assms(2)] unfolding elems_def by blast
    have "arPacked ht ! unat h \<noteq> None" if "unat h < nNumUsed ht"
      using pk that by (simp add: packed_ok_def)
    then have "\<not> (unat h < nNumUsed ht \<and> arPacked ht ! unat h \<noteq> Some IS_UNDEF)"
      using none by auto
    then show ?thesis using False by auto
  qed
qed

lemma index_find_spec:
  assumes "ht_inv ht"
  shows "found_val ht eg (zend_hash_index_find ht h) = Inr (map_of (elems ht) (KNum h))"
proof (cases "f_packed ht")
  case True
  then have pk: "packed_ok ht" using assms by (simp add: inv_packed)
  show ?thesis
  proof (cases "unat h < nNumUsed ht")
    case less: True
    then obtain v where "arPacked ht ! unat h = Some v" "unat h < length (arPacked ht)"
      using pk by (auto simp: packed_ok_def)
    then show ?thesis using True less assms
      by (simp add: zend_hash_index_find_def found_val_def packed_map_of zloc_val_def)
  next
    case False
    then show ?thesis using True assms
      by (simp add: zend_hash_index_find_def found_val_def packed_map_of)
  qed
next
  case False
  show ?thesis
    by (cases rule: find_in_slot_map_of [OF assms False idx_match_test [of h]])
      (use False in \<open>simp_all add: zend_hash_index_find_def zend_hash_index_find_bucket_def
         found_val_def zloc_val_def\<close>)
qed

lemma index_find_mixed_spec:
  "ht_inv ht \<Longrightarrow> \<not> f_packed ht \<Longrightarrow>
     found_val ht eg (zend_hash_index_find_mixed ht h) = Inr (map_of (elems ht) (KNum h))"
  using index_find_spec [of ht eg h] by (simp add: zend_hash_index_find_def zend_hash_index_find_mixed_def)

end
