(* ===== verification/HashIters.thy ===== *)
theory HashIters
  imports HashFind
begin

text \<open>
  The registry of iterators (\<open>EG(ht_iterators)\<close>) as far as the operations that
  move buckets use it: the passes over the used part of the registry that
  \<open>Zend/zend_hash.c\<close> makes to look for, move, clamp or poison the iterators of one
  table.
\<close>

subsection \<open>Passes over the registry\<close>

definition map_used :: "(HashTableIterator \<Rightarrow> HashTableIterator) \<Rightarrow> executor_globals \<Rightarrow> executor_globals" where
  "map_used f eg =
     eg\<lparr>ht_iterators := map f (take (ht_iterators_used eg) (ht_iterators eg))
          @ drop (ht_iterators_used eg) (ht_iterators eg)\<rparr>"

primrec lower_pos_loop :: "nat \<Rightarrow> nat \<Rightarrow> HashTableIterator list \<Rightarrow> nat \<Rightarrow> nat" where
  "lower_pos_loop a start [] res = res"
| "lower_pos_loop a start (iter # its) res =
     lower_pos_loop a start its
       (if it_ht iter = IterHT a \<and> it_pos iter \<ge> start \<and> it_pos iter < res then it_pos iter else res)"

definition zend_hash_iterators_lower_pos :: "HashTable \<Rightarrow> nat \<Rightarrow> executor_globals \<Rightarrow> nat" where
  "zend_hash_iterators_lower_pos ht start eg =
     lower_pos_loop (ht_addr ht) start (take (ht_iterators_used eg) (ht_iterators eg)) (nNumUsed ht)"

definition zend_hash_iterators_update_all ::
  "HashTable \<Rightarrow> nat \<Rightarrow> nat \<Rightarrow> executor_globals \<Rightarrow> executor_globals" where
  "zend_hash_iterators_update_all ht from_pos to_pos eg =
     map_used (\<lambda>iter. if it_ht iter = IterHT (ht_addr ht) \<and> it_pos iter = from_pos
                      then iter\<lparr>it_pos := to_pos\<rparr> else iter) eg"

text \<open>\<open>zend_hash_iterators_update\<close> of the header tests \<open>HT_HAS_ITERATORS\<close> first.\<close>

definition zend_hash_iterators_update ::
  "HashTable \<Rightarrow> nat \<Rightarrow> nat \<Rightarrow> executor_globals \<Rightarrow> executor_globals" where
  "zend_hash_iterators_update ht from_pos to_pos eg =
     (if HT_HAS_ITERATORS ht then zend_hash_iterators_update_all ht from_pos to_pos eg else eg)"

definition zend_hash_iterators_advance :: "HashTable \<Rightarrow> nat \<Rightarrow> executor_globals \<Rightarrow> executor_globals" where
  "zend_hash_iterators_advance ht step eg =
     map_used (\<lambda>iter. if it_ht iter = IterHT (ht_addr ht)
                      then iter\<lparr>it_pos := (it_pos iter + step) mod 2 ^ 32\<rparr> else iter) eg"

definition zend_hash_iterators_clamp_max :: "HashTable \<Rightarrow> nat \<Rightarrow> executor_globals \<Rightarrow> executor_globals" where
  "zend_hash_iterators_clamp_max ht max_pos eg =
     (if HT_HAS_ITERATORS ht then
        map_used (\<lambda>iter. if it_ht iter = IterHT (ht_addr ht)
                         then iter\<lparr>it_pos := min (it_pos iter) max_pos\<rparr> else iter) eg
      else eg)"

definition zend_hash_iterators_reset :: "HashTable \<Rightarrow> executor_globals \<Rightarrow> executor_globals" where
  "zend_hash_iterators_reset ht eg =
     (if HT_HAS_ITERATORS ht then
        map_used (\<lambda>iter. if it_ht iter = IterHT (ht_addr ht) then iter\<lparr>it_pos := 0\<rparr> else iter) eg
      else eg)"

definition zend_hash_iterators_remove_all :: "HashTable \<Rightarrow> executor_globals \<Rightarrow> executor_globals" where
  "zend_hash_iterators_remove_all ht eg =
     map_used (\<lambda>iter. if it_ht iter = IterHT (ht_addr ht) then iter\<lparr>it_ht := IterPoisoned\<rparr> else iter) eg"

definition zend_hash_iterators_remove :: "HashTable \<Rightarrow> executor_globals \<Rightarrow> executor_globals" where
  "zend_hash_iterators_remove ht eg =
     (if HT_HAS_ITERATORS ht then zend_hash_iterators_remove_all ht eg else eg)"

subsection \<open>What a pass leaves alone\<close>

text \<open>\<open>eg_same\<close>: only positions of iterators differ.\<close>

definition eg_same :: "executor_globals \<Rightarrow> executor_globals \<Rightarrow> bool" where
  "eg_same eg eg' \<longleftrightarrow>
     eg' = eg\<lparr>ht_iterators := ht_iterators eg'\<rparr> \<and>
     map it_ht (ht_iterators eg') = map it_ht (ht_iterators eg) \<and>
     map it_next_copy (ht_iterators eg') = map it_next_copy (ht_iterators eg)"

lemma eg_same_refl [simp]: "eg_same eg eg"
  by (simp add: eg_same_def)

lemma eg_same_trans [trans]: "eg_same a b \<Longrightarrow> eg_same b c \<Longrightarrow> eg_same a c"
proof -
  assume ab: "eg_same a b" and bc: "eg_same b c"
  then have b: "b = a\<lparr>ht_iterators := ht_iterators b\<rparr>" and c: "c = b\<lparr>ht_iterators := ht_iterators c\<rparr>"
    by (simp_all add: eg_same_def)
  have "c = a\<lparr>ht_iterators := ht_iterators c\<rparr>"
    using c by (subst (asm) b) simp
  then show ?thesis using ab bc by (simp add: eg_same_def)
qed

lemma eg_same_fields:
  assumes "eg_same eg eg'"
  shows "ht_iterators_used eg' = ht_iterators_used eg"
    "indirect eg' = indirect eg" "events eg' = events eg"
    "length (ht_iterators eg') = length (ht_iterators eg)"
proof -
  have e: "eg' = eg\<lparr>ht_iterators := ht_iterators eg'\<rparr>" using assms by (simp add: eg_same_def)
  show "ht_iterators_used eg' = ht_iterators_used eg"
    "indirect eg' = indirect eg" "events eg' = events eg"
    by (subst e, simp)+
  show "length (ht_iterators eg') = length (ht_iterators eg)"
    using assms by (metis eg_same_def length_map)
qed

lemma map_used_same:
  "(\<And>it. it_ht (f it) = it_ht it \<and> it_next_copy (f it) = it_next_copy it) \<Longrightarrow> eg_same eg (map_used f eg)"
proof -
  let ?u = "ht_iterators_used eg" and ?xs = "ht_iterators eg"
  assume "\<And>it. it_ht (f it) = it_ht it \<and> it_next_copy (f it) = it_next_copy it"
  then have "map it_ht (map f (take ?u ?xs) @ drop ?u ?xs) = map it_ht (take ?u ?xs @ drop ?u ?xs)"
    "map it_next_copy (map f (take ?u ?xs) @ drop ?u ?xs) = map it_next_copy (take ?u ?xs @ drop ?u ?xs)"
    by (simp_all only: map_append map_map o_def)
  then show ?thesis by (simp add: eg_same_def map_used_def del: map_append)
qed

lemma iterators_update_same [simp]: "eg_same eg (zend_hash_iterators_update ht a b eg)"
  by (simp add: zend_hash_iterators_update_def zend_hash_iterators_update_all_def map_used_same)

lemma iterators_update_all_same [simp]: "eg_same eg (zend_hash_iterators_update_all ht a b eg)"
  by (simp add: zend_hash_iterators_update_all_def map_used_same)

lemma iterators_clamp_same [simp]: "eg_same eg (zend_hash_iterators_clamp_max ht a eg)"
  by (simp add: zend_hash_iterators_clamp_max_def map_used_same)

lemma iterators_reset_same [simp]: "eg_same eg (zend_hash_iterators_reset ht eg)"
  by (simp add: zend_hash_iterators_reset_def map_used_same)

lemma lower_pos_bounds:
  "lower_pos_loop a start its res \<le> res \<and>
    (lower_pos_loop a start its res = res \<or> start \<le> lower_pos_loop a start its res)"
proof (induction its arbitrary: res)
  case (Cons it its)
  let ?r = "if it_ht it = IterHT a \<and> it_pos it \<ge> start \<and> it_pos it < res then it_pos it else res"
  have "?r \<le> res" by simp
  then show ?case using Cons.IH [of ?r] by (auto split: if_splits)
qed simp

lemma lower_pos_ge:
  "zend_hash_iterators_lower_pos ht start eg = nNumUsed ht \<or> start \<le> zend_hash_iterators_lower_pos ht start eg"
  using lower_pos_bounds [of "ht_addr ht" start] by (simp add: zend_hash_iterators_lower_pos_def)

end
