(* ===== verification/HashGrow.thy ===== *)
theory HashGrow
  imports HashIters
begin

text \<open>
  Rebuilding the hash part: \<open>zend_hash_rehash\<close> of \<open>Zend/zend_hash.c\<close> with its
  compaction of holes and the migration of the internal pointer and of the iterators.
  \<open>rehash_spec\<close>: it returns, the result is well formed, without holes, and has
  the same entries in the same order, and the internal pointer stands on the same one.
\<close>

subsection \<open>Loops over places\<close>

text \<open>A \<open>do ... while\<close> over the places from 0 is \<open>foldE f (0 # [1..<n])\<close>.\<close>

fun foldE :: "('a \<Rightarrow> nat \<Rightarrow> error + 'a) \<Rightarrow> nat list \<Rightarrow> 'a \<Rightarrow> error + 'a" where
  "foldE f [] x = Inr x"
| "foldE f (i # is) x = bindE (f x i) (foldE f is)"

subsection \<open>Rehashing\<close>

text \<open>
  \<open>link_bucket\<close>: \<open>Z_NEXT(p->val) = HT_HASH(ht, nIndex); HT_HASH(ht, nIndex) = i\<close>
  for the bucket at place \<open>i\<close>. \<open>move_bucket\<close> does the same for the copy of
  bucket \<open>p\<close>, of place \<open>i\<close>, at place \<open>j\<close>, and takes the internal pointer along.
\<close>

definition link_bucket :: "HashTable \<Rightarrow> nat \<Rightarrow> error + HashTable" where
  "link_bucket ht i =
     bindE (rd (arData ht) i) (\<lambda>p.
     let s = slot (nTableMask ht) (b_h p) in
     bindE (rdi (arHash ht) s) (\<lambda>nxt.
     bindE (wr (arData ht) i (p\<lparr>b_next := nxt\<rparr>)) (\<lambda>d.
     bindE (wri (arHash ht) s i) (\<lambda>hs.
       Inr (ht\<lparr>arData := d, arHash := hs\<rparr>)))))"

definition move_bucket :: "HashTable \<Rightarrow> Bucket \<Rightarrow> nat \<Rightarrow> nat \<Rightarrow> error + HashTable" where
  "move_bucket ht p i j =
     (let s = slot (nTableMask ht) (b_h p) in
      bindE (rdi (arHash ht) s) (\<lambda>nxt.
      bindE (wr (arData ht) j \<lparr>b_val = b_val p, b_next = nxt, b_h = b_h p, b_key = b_key p\<rparr>) (\<lambda>d.
      bindE (wri (arHash ht) s j) (\<lambda>hs.
        Inr (ht\<lparr>arData := d, arHash := hs,
                nInternalPointer := (if nInternalPointer ht > j \<and> nInternalPointer ht \<le> i
                                     then j else nInternalPointer ht)\<rparr>)))))"

fun rehash_compact :: "nat list \<Rightarrow> nat \<Rightarrow> HashTable \<Rightarrow> error + (HashTable \<times> nat)" where
  "rehash_compact [] j ht = Inr (ht, j)"
| "rehash_compact (i # is) j ht =
     bindE (rd (arData ht) i) (\<lambda>p.
       if b_val p \<noteq> IS_UNDEF
       then bindE (move_bucket ht p i j) (rehash_compact is (Suc j))
       else rehash_compact is j ht)"

text \<open>
  \<open>do { zend_hash_iterators_update(ht, iter_pos, j); ... } while (iter_pos < i)\<close>,
  with fuel: \<open>iter_pos\<close> grows in each round and the loop ends when it reaches \<open>i\<close>.
\<close>

fun migrate_iterators ::
  "nat \<Rightarrow> HashTable \<Rightarrow> nat \<Rightarrow> nat \<Rightarrow> nat \<Rightarrow> executor_globals \<Rightarrow> error + (executor_globals \<times> nat)" where
  "migrate_iterators 0 ht i j iter_pos eg = Inl NoReturn"
| "migrate_iterators (Suc fuel) ht i j iter_pos eg =
     (let eg = zend_hash_iterators_update ht iter_pos j eg;
          iter_pos = zend_hash_iterators_lower_pos ht (iter_pos + 1) eg
      in if iter_pos < i then migrate_iterators fuel ht i j iter_pos eg
         else Inr (eg, iter_pos))"

fun rehash_compact_iter ::
  "nat list \<Rightarrow> nat \<Rightarrow> nat \<Rightarrow> HashTable \<Rightarrow> executor_globals
    \<Rightarrow> error + (HashTable \<times> executor_globals \<times> nat)" where
  "rehash_compact_iter [] j iter_pos ht eg = Inr (ht, eg, j)"
| "rehash_compact_iter (i # is) j iter_pos ht eg =
     bindE (rd (arData ht) i) (\<lambda>p.
       if b_val p \<noteq> IS_UNDEF
       then bindE (move_bucket ht p i j) (\<lambda>ht.
            bindE (if i \<ge> iter_pos then migrate_iterators (Suc i) ht i j iter_pos eg
                   else Inr (eg, iter_pos)) (\<lambda>(eg, iter_pos).
              rehash_compact_iter is (Suc j) iter_pos ht eg))
       else rehash_compact_iter is j iter_pos ht eg)"

text \<open>The loop of the table with holes: buckets stay in place up to the first hole.\<close>

fun rehash_holes :: "nat list \<Rightarrow> HashTable \<Rightarrow> executor_globals \<Rightarrow> error + (HashTable \<times> executor_globals)" where
  "rehash_holes [] ht eg = Inr (ht, eg)"
| "rehash_holes (i # is) ht eg =
     bindE (rd (arData ht) i) (\<lambda>p.
       if b_val p = IS_UNDEF then
         (if \<not> HT_HAS_ITERATORS ht then
            bindE (rehash_compact is i ht) (\<lambda>(ht, j). Inr (ht\<lparr>nNumUsed := j\<rparr>, eg))
          else
            bindE (rehash_compact_iter is i (zend_hash_iterators_lower_pos ht (i + 1) eg) ht eg)
              (\<lambda>(ht, eg, j). Inr (ht\<lparr>nNumUsed := j\<rparr>, eg)))
       else bindE (link_bucket ht i) (\<lambda>ht. rehash_holes is ht eg))"

definition zend_hash_rehash :: "HashTable \<Rightarrow> executor_globals \<Rightarrow> error + (HashTable \<times> executor_globals)" where
  "zend_hash_rehash ht eg =
     (if nNumOfElements ht = 0 then
        (if \<not> f_uninit ht
         then Inr ((HT_HASH_RESET (ht\<lparr>nNumUsed := 0\<rparr>))\<lparr>nInternalPointer := 0\<rparr>,
                   zend_hash_iterators_reset ht eg)
         else Inr (ht, eg))
      else
        let ht = HT_HASH_RESET ht; places = 0 # [1..<nNumUsed ht] in
        if HT_IS_WITHOUT_HOLES ht
        then bindE (foldE link_bucket places ht) (\<lambda>ht. Inr (ht, eg))
        else
          let old_num_used = nNumUsed ht in
          bindE (rehash_holes places ht eg) (\<lambda>(ht, eg).
            Inr (ht, if HT_HAS_ITERATORS ht
                     then zend_hash_iterators_update_all ht old_num_used (nNumUsed ht) eg
                     else eg)))"

subsection \<open>Linking one bucket\<close>

text \<open>Buckets that agree but for their links.\<close>

definition same_buckets :: "Bucket option list \<Rightarrow> Bucket option list \<Rightarrow> bool" where
  "same_buckets d d' \<longleftrightarrow> length d' = length d \<and>
     (\<forall>i<length d. map_option (\<lambda>p. p\<lparr>b_next := 0\<rparr>) (d' ! i) = map_option (\<lambda>p. p\<lparr>b_next := 0\<rparr>) (d ! i))"

lemma strip_eq:
  assumes "map_option (\<lambda>p. p\<lparr>b_next := 0\<rparr>) c' = map_option (\<lambda>p. p\<lparr>b_next := 0\<rparr>) c"
  shows "bucket_entry c' = bucket_entry c" "bucket_ok s c' = bucket_ok s c"
proof -
  have "bucket_entry c' = bucket_entry c \<and> bucket_ok s c' = bucket_ok s c"
  proof (cases "c = None \<or> c' = None")
    case True
    then show ?thesis using assms by (cases c; cases c') simp_all
  next
    case False
    then obtain p q where pq: "c = Some p" "c' = Some q" by auto
    then have e: "q\<lparr>b_next := 0\<rparr> = p\<lparr>b_next := 0\<rparr>" using assms by simp
    have "b_val q = b_val p" "b_h q = b_h p" "b_key q = b_key p"
      using arg_cong [OF e, of b_val] arg_cong [OF e, of b_h] arg_cong [OF e, of b_key] by simp_all
    then show ?thesis by (simp add: pq bucket_entry_def bucket_key_def bucket_ok_def cong: option.case_cong)
  qed
  then show "bucket_entry c' = bucket_entry c" "bucket_ok s c' = bucket_ok s c" by simp_all
qed

lemma same_bucketsD:
  assumes "same_buckets d d'" "i < length d"
  shows "bucket_entry (d' ! i) = bucket_entry (d ! i)" "bucket_ok s (d' ! i) = bucket_ok s (d ! i)"
  using assms strip_eq [of "d' ! i" "d ! i"] by (auto simp: same_buckets_def)

lemma same_buckets_refl [simp]: "same_buckets d d"
  by (simp add: same_buckets_def)

lemma same_buckets_trans [trans]: "same_buckets a b \<Longrightarrow> same_buckets b c \<Longrightarrow> same_buckets a c"
  by (simp add: same_buckets_def)

lemma link_bucket_ok:
  assumes "i < length (arData ht)" "arData ht ! i = Some p" "b_val p \<noteq> IS_UNDEF"
    "\<And>h. slot (nTableMask ht) h < length (arHash ht)"
    "chains_ok (arData ht) (nTableMask ht) (arHash ht) i"
  obtains d hs where "link_bucket ht i = Inr (ht\<lparr>arData := d, arHash := hs\<rparr>)"
    "chains_ok d (nTableMask ht) hs (Suc i)" "length hs = length (arHash ht)"
    "same_buckets (arData ht) d" "\<And>k. k \<noteq> i \<Longrightarrow> d ! k = arData ht ! k"
proof -
  let ?s = "slot (nTableMask ht) (b_h p)"
  let ?p = "p\<lparr>b_next := arHash ht ! ?s\<rparr>"
  let ?d = "(arData ht)[i := Some ?p]" and ?hs = "(arHash ht)[?s := i]"
  have "link_bucket ht i = Inr (ht\<lparr>arData := ?d, arHash := ?hs\<rparr>)"
    using assms by (simp add: link_bucket_def Let_def)
  moreover have "chains_ok ?d (nTableMask ht) ?hs (Suc i)"
    using chains_ok_append [OF assms(5,1), of ?p] assms by simp
  moreover have "same_buckets (arData ht) ?d"
    using assms by (auto simp: same_buckets_def nth_list_update)
  ultimately show thesis using that by simp
qed

lemma move_bucket_ok:
  assumes "j < length (arData ht)" "b_val p \<noteq> IS_UNDEF"
    "\<And>h. slot (nTableMask ht) h < length (arHash ht)"
    "chains_ok (arData ht) (nTableMask ht) (arHash ht) j"
  obtains q hs where "move_bucket ht p i j = Inr (ht\<lparr>arData := (arData ht)[j := Some q], arHash := hs,
      nInternalPointer := (if nInternalPointer ht > j \<and> nInternalPointer ht \<le> i then j else nInternalPointer ht)\<rparr>)"
    "chains_ok ((arData ht)[j := Some q]) (nTableMask ht) hs (Suc j)" "length hs = length (arHash ht)"
    "bucket_entry (Some q) = bucket_entry (Some p)" "\<And>s. bucket_ok s (Some q) = bucket_ok s (Some p)"
proof -
  let ?s = "slot (nTableMask ht) (b_h p)"
  let ?q = "\<lparr>b_val = b_val p, b_next = arHash ht ! ?s, b_h = b_h p, b_key = b_key p\<rparr>"
  have "move_bucket ht p i j = Inr (ht\<lparr>arData := (arData ht)[j := Some ?q], arHash := (arHash ht)[?s := j],
      nInternalPointer := (if nInternalPointer ht > j \<and> nInternalPointer ht \<le> i then j else nInternalPointer ht)\<rparr>)"
    using assms by (simp add: move_bucket_def Let_def)
  moreover have "chains_ok ((arData ht)[j := Some ?q]) (nTableMask ht) ((arHash ht)[?s := j]) (Suc j)"
    using chains_ok_append [OF assms(4,1), of ?q] assms by simp
  moreover have "bucket_entry (Some ?q) = bucket_entry (Some p)"
    "\<And>s. bucket_ok s (Some ?q) = bucket_ok s (Some p)"
    by (simp_all add: bucket_entry_def bucket_key_def bucket_ok_def split: option.splits)
  ultimately show thesis using that by simp
qed

subsection \<open>Rehashing keeps the entries\<close>

text \<open>The entries of the first \<open>n\<close> buckets, and the place of a cursor among them.\<close>

definition bents :: "Bucket option list \<Rightarrow> nat \<Rightarrow> (hkey \<times> zval) list" where
  "bents d n = entries (\<lambda>i. bucket_entry (d ! i)) n"

lemma bents_0 [simp]: "bents d 0 = []"
  by (simp add: bents_def)

lemma bents_Suc: "bents d (Suc n) = bents d n @ (case bucket_entry (d ! n) of None \<Rightarrow> [] | Some x \<Rightarrow> [x])"
  by (simp add: bents_def)

lemma bents_cong: "(\<And>i. i < n \<Longrightarrow> bucket_entry (d' ! i) = bucket_entry (d ! i)) \<Longrightarrow> bents d' n = bents d n"
  unfolding bents_def by (rule entries_cong)

lemma bents_upd [simp]: "n \<le> i \<Longrightarrow> bents (d[i := c]) n = bents d n"
  by (rule bents_cong) simp

lemma bents_same: "same_buckets d d' \<Longrightarrow> n \<le> length d \<Longrightarrow> bents d' n = bents d n"
  by (rule bents_cong) (simp add: same_bucketsD)

lemma elems_mixed: "\<not> f_packed ht \<Longrightarrow> elems ht = bents (arData ht) (nNumUsed ht)"
  by (simp add: elems_def bents_def entry_at_def [abs_def])

lemma foldE_append: "foldE f (xs @ ys) x = bindE (foldE f xs x) (foldE f ys)"
  by (induction xs arbitrary: x) (auto simp: bindE_def split: sum.splits)

lemma places: "0 < n \<Longrightarrow> 0 # [1..<n] = [0..<n]"
  by (simp add: upt_conv_Cons)

lemma foldE_link_ok:
  assumes "n \<le> length (arData ht)" "\<And>i. i < n \<Longrightarrow> bucket_entry (arData ht ! i) \<noteq> None"
    "\<And>h. slot (nTableMask ht) h < length (arHash ht)"
    "chains_ok (arData ht) (nTableMask ht) (arHash ht) 0"
  shows "\<exists>d hs. foldE link_bucket [0..<n] ht = Inr (ht\<lparr>arData := d, arHash := hs\<rparr>) \<and>
     chains_ok d (nTableMask ht) hs n \<and> length hs = length (arHash ht) \<and> same_buckets (arData ht) d"
  using assms(1,2)
proof (induction n)
  case 0
  show ?case by (rule exI [of _ "arData ht"], rule exI [of _ "arHash ht"]) (use assms(4) in simp)
next
  case (Suc n)
  then obtain d hs where IH: "foldE link_bucket [0..<n] ht = Inr (ht\<lparr>arData := d, arHash := hs\<rparr>)"
    "chains_ok d (nTableMask ht) hs n" "length hs = length (arHash ht)" "same_buckets (arData ht) d"
    by auto
  let ?h = "ht\<lparr>arData := d, arHash := hs\<rparr>"
  have len: "n < length d" using Suc.prems IH(4) by (simp add: same_buckets_def)
  have "bucket_entry (d ! n) \<noteq> None"
    using same_bucketsD(1) [OF IH(4), of n] Suc.prems by simp
  then obtain p where p: "d ! n = Some p" "b_val p \<noteq> IS_UNDEF"
    by (auto simp: bucket_entry_def split: option.splits if_splits)
  obtain d' hs' where l: "link_bucket ?h n = Inr (?h\<lparr>arData := d', arHash := hs'\<rparr>)"
    "chains_ok d' (nTableMask ?h) hs' (Suc n)" "length hs' = length (arHash ?h)"
    "same_buckets (arData ?h) d'" "\<And>k. k \<noteq> n \<Longrightarrow> d' ! k = arData ?h ! k"
    by (rule link_bucket_ok [of n ?h p]) (use len p assms(3) IH in simp_all)
  have "foldE link_bucket [0..<Suc n] ht = Inr (ht\<lparr>arData := d', arHash := hs'\<rparr>)"
    using IH(1) l(1) by (simp add: foldE_append)
  moreover have "same_buckets (arData ht) d'" using IH(4) l(4) same_buckets_trans by simp
  ultimately show ?case using l(2,3) IH(3) by auto
qed

text \<open>
  Compaction from place \<open>i\<close> on, with \<open>j\<close> places filled: \<open>d0\<close> is the array before it
  started and \<open>ip0\<close> the internal pointer. The pointer stays where it is until a live
  bucket at or behind it is moved, and then stays with that bucket.
\<close>

definition pointer_moved ::
  "Bucket option list \<Rightarrow> nat \<Rightarrow> nat \<Rightarrow> nat \<Rightarrow> Bucket option list \<Rightarrow> nat \<Rightarrow> bool" where
  "pointer_moved d0 ip0 i j d ip \<longleftrightarrow>
     ip = ip0 \<and> j \<le> ip0 \<and> bents d0 i = bents d0 (min ip0 i) \<or>
     ip0 \<le> i \<and> ip \<le> j \<and> bents d ip = bents d0 ip0"

lemma compact_ok:
  assumes "i \<le> n" "j \<le> i" "n \<le> length d0" "nNumUsed ht = n"
    "length (arData ht) = length d0"
    "\<And>h. slot (nTableMask ht) h < length (arHash ht)"
    "chains_ok (arData ht) (nTableMask ht) (arHash ht) j"
    "\<And>k. i \<le> k \<Longrightarrow> k < n \<Longrightarrow> arData ht ! k = d0 ! k"
    "\<And>k. k < n \<Longrightarrow> bucket_ok st (d0 ! k)"
    "\<And>k. k < j \<Longrightarrow> bucket_ok st (arData ht ! k) \<and> bucket_entry (arData ht ! k) \<noteq> None"
    "bents (arData ht) j = bents d0 i"
    "pointer_moved d0 ip0 i j (arData ht) (nInternalPointer ht)"
  shows "\<exists>d hs ip j'. rehash_compact [i..<n] j ht =
      Inr (ht\<lparr>arData := d, arHash := hs, nInternalPointer := ip\<rparr>, j') \<and>
      chains_ok d (nTableMask ht) hs j' \<and> length hs = length (arHash ht) \<and> length d = length d0 \<and>
      j' \<le> n \<and> (\<forall>k<j'. bucket_ok st (d ! k) \<and> bucket_entry (d ! k) \<noteq> None) \<and>
      bents d j' = bents d0 n \<and> pointer_moved d0 ip0 n j' d ip"
  using assms
proof (induction "n - i" arbitrary: i j ht)
  case 0
  then have "i = n" by simp
  then show ?case using 0
    by (intro exI [of _ "arData ht"] exI [of _ "arHash ht"] exI [of _ "nInternalPointer ht"] exI [of _ j]) simp
next
  case (Suc m)
  note prems = Suc.prems
  have i: "i < n" "[i..<n] = i # [Suc i..<n]" using Suc.hyps(2) by (auto simp: upt_conv_Cons)
  have di: "arData ht ! i = d0 ! i" using prems(8) i by simp
  obtain p where p: "d0 ! i = Some p"
    using prems(9) [OF i(1)] by (cases "d0 ! i") (simp_all add: bucket_ok_def)
  have rdp: "rd (arData ht) i = Inr p" using di p i prems(3,5) by simp
  show ?case
  proof (cases "b_val p = IS_UNDEF")
    case True
    then have no: "bents d0 (Suc i) = bents d0 i" by (simp add: bents_Suc p bucket_entry_def)
    have pm: "pointer_moved d0 ip0 (Suc i) j (arData ht) (nInternalPointer ht)"
      using prems(12) no unfolding pointer_moved_def by (cases "ip0 \<le> i"; cases "ip0 = Suc i") (simp_all add: min_def)
    have "rehash_compact [i..<n] j ht = rehash_compact [Suc i..<n] j ht"
      using rdp True i by simp
    then show ?thesis
      using Suc.hyps(1) [of "Suc i" j ht] Suc.hyps(2) prems pm no i by simp
  next
    case False
    obtain q hs where mv: "move_bucket ht p i j = Inr (ht\<lparr>arData := (arData ht)[j := Some q], arHash := hs,
        nInternalPointer := (if nInternalPointer ht > j \<and> nInternalPointer ht \<le> i then j else nInternalPointer ht)\<rparr>)"
      "chains_ok ((arData ht)[j := Some q]) (nTableMask ht) hs (Suc j)" "length hs = length (arHash ht)"
      "bucket_entry (Some q) = bucket_entry (Some p)" "\<And>s. bucket_ok s (Some q) = bucket_ok s (Some p)"
      by (rule move_bucket_ok [of j ht p i]) (use False prems i in simp_all)
    define ip where "ip = (if nInternalPointer ht > j \<and> nInternalPointer ht \<le> i then j else nInternalPointer ht)"
    define h where "h = ht\<lparr>arData := (arData ht)[j := Some q], arHash := hs, nInternalPointer := ip\<rparr>"
    have step: "rehash_compact [i..<n] j ht = rehash_compact [Suc i..<n] (Suc j) h"
      using rdp False i mv(1) by (simp add: h_def ip_def)
    have ent: "bucket_entry (Some p) = Some (bucket_key p, b_val p)"
      using False by (simp add: bucket_entry_def)
    have jl: "j < length (arData ht)" using prems i by simp
    have bs: "bents (arData h) (Suc j) = bents d0 (Suc i)"
      using jl mv(4) ent prems(11) p by (simp add: h_def bents_Suc)
    have cells: "bucket_ok st (arData h ! k) \<and> bucket_entry (arData h ! k) \<noteq> None" if "k < Suc j" for k
    proof (cases "k = j")
      case True
      then show ?thesis using jl mv(4,5) ent prems(9) [OF i(1)] p by (simp add: h_def)
    next
      case False
      then show ?thesis using that prems(10) [of k] by (simp add: h_def)
    qed
    have pm: "pointer_moved d0 ip0 (Suc i) (Suc j) (arData h) (nInternalPointer h)"
      using prems(12) unfolding pointer_moved_def
    proof (elim disjE conjE)
      assume a: "nInternalPointer ht = ip0" "j \<le> ip0" "bents d0 i = bents d0 (min ip0 i)"
      show "nInternalPointer h = ip0 \<and> Suc j \<le> ip0 \<and> bents d0 (Suc i) = bents d0 (min ip0 (Suc i)) \<or>
          ip0 \<le> Suc i \<and> nInternalPointer h \<le> Suc j \<and> bents (arData h) (nInternalPointer h) = bents d0 ip0"
      proof (cases "ip0 \<le> i")
        case True
        then have "nInternalPointer h = j" using a by (auto simp: h_def ip_def)
        moreover have "bents (arData h) j = bents d0 ip0"
          using a True prems(11) by (simp add: h_def min_def)
        ultimately show ?thesis using True by simp
      next
        case False
        then have "min ip0 (Suc i) = Suc i" "nInternalPointer h = ip0"
          using a by (simp_all add: h_def ip_def)
        then show ?thesis using False a prems(2) by simp
      qed
    next
      assume a: "ip0 \<le> i" "nInternalPointer ht \<le> j" "bents (arData ht) (nInternalPointer ht) = bents d0 ip0"
      then show "nInternalPointer h = ip0 \<and> Suc j \<le> ip0 \<and> bents d0 (Suc i) = bents d0 (min ip0 (Suc i)) \<or>
          ip0 \<le> Suc i \<and> nInternalPointer h \<le> Suc j \<and> bents (arData h) (nInternalPointer h) = bents d0 ip0"
        by (simp add: h_def ip_def)
    qed
    have "\<exists>d hs ip j'. rehash_compact [Suc i..<n] (Suc j) h =
        Inr (h\<lparr>arData := d, arHash := hs, nInternalPointer := ip\<rparr>, j') \<and>
        chains_ok d (nTableMask h) hs j' \<and> length hs = length (arHash h) \<and> length d = length d0 \<and>
        j' \<le> n \<and> (\<forall>k<j'. bucket_ok st (d ! k) \<and> bucket_entry (d ! k) \<noteq> None) \<and>
        bents d j' = bents d0 n \<and> pointer_moved d0 ip0 n j' d ip"
    proof (rule Suc.hyps(1))
      show "m = n - Suc i" using Suc.hyps(2) by simp
      show "arData h ! k = d0 ! k" if "Suc i \<le> k" "k < n" for k
        using that prems(2,8) by (simp add: h_def)
      show "chains_ok (arData h) (nTableMask h) (arHash h) (Suc j)" using mv(2) by (simp add: h_def)
    qed (use i prems mv(3) bs cells pm in \<open>simp_all add: h_def\<close>)
    then show ?thesis using mv(3) unfolding step by (simp add: h_def)
  qed
qed

text \<open>The iterators' loop ends, and moves the same buckets.\<close>

lemma migrate_ok:
  assumes "i < nNumUsed ht" "i - iter_pos < fuel"
  shows "\<exists>eg' ip. migrate_iterators fuel ht i j iter_pos eg = Inr (eg', ip) \<and> eg_same eg eg'"
  using assms(2)
proof (induction fuel arbitrary: iter_pos eg)
  case (Suc fuel)
  let ?eg = "zend_hash_iterators_update ht iter_pos j eg"
  let ?ip = "zend_hash_iterators_lower_pos ht (iter_pos + 1) ?eg"
  show ?case
  proof (cases "?ip < i")
    case True
    then have "iter_pos + 1 \<le> ?ip"
      using lower_pos_ge [of ht "iter_pos + 1" ?eg] assms(1) by auto
    then have "i - ?ip < fuel" using Suc.prems True by linarith
    from Suc.IH [OF this, of ?eg] obtain eg' ip where
      "migrate_iterators fuel ht i j ?ip ?eg = Inr (eg', ip)" "eg_same ?eg eg'" by auto
    then show ?thesis using True eg_same_trans [OF iterators_update_same] by (auto simp: Let_def)
  next
    case False
    then show ?thesis by (simp add: Let_def)
  qed
qed simp

lemma move_bucket_used: "move_bucket ht p i j = Inr ht' \<Longrightarrow> nNumUsed ht' = nNumUsed ht"
  by (auto simp: move_bucket_def Let_def bindE_eq_Inr)

lemma compact_iter_ok:
  assumes "rehash_compact is j ht = Inr (ht', j')" "\<forall>i\<in>set is. i < nNumUsed ht"
  shows "\<exists>eg'. rehash_compact_iter is j iter_pos ht eg = Inr (ht', eg', j') \<and> eg_same eg eg'"
  using assms
proof (induction "is" arbitrary: j ht iter_pos eg)
  case (Cons i "is")
  from Cons.prems(1) obtain p where p: "rd (arData ht) i = Inr p" by (auto simp: bindE_eq_Inr)
  show ?case
  proof (cases "b_val p = IS_UNDEF")
    case True
    then show ?thesis using Cons p by simp
  next
    case False
    then obtain h where h: "move_bucket ht p i j = Inr h" "rehash_compact is (Suc j) h = Inr (ht', j')"
      using Cons.prems(1) p by (auto simp: bindE_eq_Inr)
    have used: "nNumUsed h = nNumUsed ht" using h(1) by (rule move_bucket_used)
    have "\<exists>eg1 ip. (if i \<ge> iter_pos then migrate_iterators (Suc i) h i j iter_pos eg
        else Inr (eg, iter_pos)) = Inr (eg1, ip) \<and> eg_same eg eg1"
      using migrate_ok [of i h iter_pos "Suc i" j eg] Cons.prems(2) used by auto
    then obtain eg1 ip where m: "(if i \<ge> iter_pos then migrate_iterators (Suc i) h i j iter_pos eg
        else Inr (eg, iter_pos)) = Inr (eg1, ip)" "eg_same eg eg1" by auto
    obtain eg' where "rehash_compact_iter is (Suc j) ip h eg1 = Inr (ht', eg', j')" "eg_same eg1 eg'"
      using Cons.IH [OF h(2), of ip eg1] Cons.prems(2) used by auto
    moreover from this have "rehash_compact_iter (i # is) j iter_pos ht eg = Inr (ht', eg', j')"
      using p False h(1) m by (simp del: migrate_iterators.simps)
    ultimately show ?thesis using eg_same_trans [OF m(2)] by blast
  qed
qed simp

lemma rehash_holes_ok:
  assumes "i \<le> n" "n \<le> length d0" "nNumUsed ht = n" "length (arData ht) = length d0"
    "\<And>h. slot (nTableMask ht) h < length (arHash ht)"
    "chains_ok (arData ht) (nTableMask ht) (arHash ht) i"
    "\<And>k. i \<le> k \<Longrightarrow> k < n \<Longrightarrow> arData ht ! k = d0 ! k"
    "\<And>k. k < n \<Longrightarrow> bucket_ok st (d0 ! k)"
    "\<And>k. k < i \<Longrightarrow> bucket_ok st (arData ht ! k) \<and> bucket_entry (arData ht ! k) \<noteq> None"
    "bents (arData ht) i = bents d0 i" "nInternalPointer ht = ip0"
    "\<And>k. k \<le> i \<Longrightarrow> bents (arData ht) k = bents d0 k"
  shows "\<exists>d hs ip n' eg'. rehash_holes [i..<n] ht eg =
      Inr (ht\<lparr>arData := d, arHash := hs, nInternalPointer := ip, nNumUsed := n'\<rparr>, eg') \<and>
      eg_same eg eg' \<and>
      chains_ok d (nTableMask ht) hs n' \<and> length hs = length (arHash ht) \<and> length d = length d0 \<and>
      n' \<le> n \<and> (\<forall>k<n'. bucket_ok st (d ! k) \<and> bucket_entry (d ! k) \<noteq> None) \<and>
      bents d n' = bents d0 n \<and> bents d (min ip n') = bents d0 (min ip0 n)"
  using assms
proof (induction "n - i" arbitrary: i ht)
  case 0
  then have i: "i = n" by simp
  have ht: "ht\<lparr>arData := arData ht, arHash := arHash ht, nInternalPointer := nInternalPointer ht, nNumUsed := n\<rparr> = ht"
    using 0(4) by simp
  have "bents (arData ht) (min (nInternalPointer ht) n) = bents d0 (min ip0 n)"
    using 0(13) [of "min ip0 n"] 0(12) i by simp
  moreover have "rehash_holes [i..<n] ht eg = Inr (ht\<lparr>arData := arData ht, arHash := arHash ht,
      nInternalPointer := nInternalPointer ht, nNumUsed := n\<rparr>, eg)"
    unfolding ht i by simp
  ultimately show ?case using 0(5) 0(7,10,11) [unfolded i]
    by (intro exI conjI allI impI eg_same_refl) (assumption | simp)+
next
  case (Suc m)
  note prems = Suc.prems
  have i: "i < n" "[i..<n] = i # [Suc i..<n]" using Suc.hyps(2) by (auto simp: upt_conv_Cons)
  have di: "arData ht ! i = d0 ! i" using prems(7) i by simp
  obtain p where p: "d0 ! i = Some p"
    using prems(8) [OF i(1)] by (cases "d0 ! i") (simp_all add: bucket_ok_def)
  have rdp: "rd (arData ht) i = Inr p" using di p i prems(2,4) by simp
  show ?case
  proof (cases "b_val p = IS_UNDEF")
    case True
    have no: "bents d0 (Suc i) = bents d0 i" using True by (simp add: bents_Suc p bucket_entry_def)
    have pm: "pointer_moved d0 ip0 (Suc i) i (arData ht) (nInternalPointer ht)"
    proof (cases "ip0 \<le> i")
      case True
      then show ?thesis using prems(11,12) by (simp add: pointer_moved_def)
    next
      case False
      then have "min ip0 (Suc i) = Suc i" by simp
      then show ?thesis using False prems(11) by (simp add: pointer_moved_def)
    qed
    have "\<exists>d hs ip j'. rehash_compact [Suc i..<n] i ht =
      Inr (ht\<lparr>arData := d, arHash := hs, nInternalPointer := ip\<rparr>, j') \<and>
      chains_ok d (nTableMask ht) hs j' \<and> length hs = length (arHash ht) \<and> length d = length d0 \<and>
      j' \<le> n \<and> (\<forall>k<j'. bucket_ok st (d ! k) \<and> bucket_entry (d ! k) \<noteq> None) \<and>
      bents d j' = bents d0 n \<and> pointer_moved d0 ip0 n j' d ip"
      by (rule compact_ok) (use i prems pm no in simp_all)
    then obtain d hs ip j' where c: "rehash_compact [Suc i..<n] i ht =
        Inr (ht\<lparr>arData := d, arHash := hs, nInternalPointer := ip\<rparr>, j')"
      "chains_ok d (nTableMask ht) hs j'" "length hs = length (arHash ht)" "length d = length d0"
      "j' \<le> n" "\<forall>k<j'. bucket_ok st (d ! k) \<and> bucket_entry (d ! k) \<noteq> None"
      "bents d j' = bents d0 n" "pointer_moved d0 ip0 n j' d ip"
      by auto
    have ipok: "bents d (min ip j') = bents d0 (min ip0 n)"
      using c(8) unfolding pointer_moved_def
      by (elim disjE conjE) (simp_all add: c(7) min_absorb1 min_absorb2)
    obtain eg' where ci: "rehash_compact_iter [Suc i..<n] i (zend_hash_iterators_lower_pos ht (i + 1) eg) ht eg =
        Inr (ht\<lparr>arData := d, arHash := hs, nInternalPointer := ip\<rparr>, eg', j')" "eg_same eg eg'"
      using compact_iter_ok [OF c(1)] prems(3) by auto
    have "rehash_holes [i..<n] ht eg = Inr (ht\<lparr>arData := d, arHash := hs, nInternalPointer := ip, nNumUsed := j'\<rparr>,
        if HT_HAS_ITERATORS ht then eg' else eg)"
      using c(1) ci(1) rdp True i by simp
    moreover have "eg_same eg (if HT_HAS_ITERATORS ht then eg' else eg)" using ci(2) by simp
    ultimately show ?thesis using c(2-7) ipok by blast
  next
    case False
    have il: "i < length (arData ht)" using prems(2,4) i by simp
    have dip: "arData ht ! i = Some p" using di p by simp
    obtain d hs where l: "link_bucket ht i = Inr (ht\<lparr>arData := d, arHash := hs\<rparr>)"
      "chains_ok d (nTableMask ht) hs (Suc i)" "length hs = length (arHash ht)"
      "same_buckets (arData ht) d" "\<And>k. k \<noteq> i \<Longrightarrow> d ! k = arData ht ! k"
      by (rule link_bucket_ok [OF il dip False prems(5,6)]) (rule that)
    define h where "h = ht\<lparr>arData := d, arHash := hs\<rparr>"
    have step: "rehash_holes [i..<n] ht eg = rehash_holes [Suc i..<n] h eg"
      using rdp False i l(1) by (simp add: h_def)
    have ent: "bucket_entry (d ! i) = Some (bucket_key p, b_val p)" "bucket_ok st (d ! i)"
      using same_bucketsD [OF l(4) il] di p False prems(8) [OF i(1)] by (simp_all add: bucket_entry_def)
    have bd: "bents d k = bents d0 k" if "k \<le> Suc i" for k
    proof (cases "k = Suc i")
      case True
      have "bents d i = bents d0 i" using prems(12) [of i] l(5) bents_cong [of i d "arData ht"] by simp
      then show ?thesis using True ent False p by (simp add: bents_Suc bucket_entry_def)
    next
      case False
      then have "bents d k = bents (arData ht) k" using that l(5) by (intro bents_cong) simp
      then show ?thesis using False that prems(12) [of k] by simp
    qed
    have "\<exists>d' hs' ip n' eg'. rehash_holes [Suc i..<n] h eg =
      Inr (h\<lparr>arData := d', arHash := hs', nInternalPointer := ip, nNumUsed := n'\<rparr>, eg') \<and>
      eg_same eg eg' \<and>
      chains_ok d' (nTableMask h) hs' n' \<and> length hs' = length (arHash h) \<and> length d' = length d0 \<and>
      n' \<le> n \<and> (\<forall>k<n'. bucket_ok st (d' ! k) \<and> bucket_entry (d' ! k) \<noteq> None) \<and>
      bents d' n' = bents d0 n \<and> bents d' (min ip n') = bents d0 (min ip0 n)"
    proof (rule Suc.hyps(1))
      show "m = n - Suc i" using Suc.hyps(2) by simp
      show "length (arData h) = length d0" using l(4) prems(4) by (simp add: h_def same_buckets_def)
      show "bucket_ok st (arData h ! k) \<and> bucket_entry (arData h ! k) \<noteq> None" if "k < Suc i" for k
        using that ent l(5) prems(9) [of k] by (cases "k = i") (simp_all add: h_def)
      show "bents (arData h) k = bents d0 k" if "k \<le> Suc i" for k
        using bd that by (simp add: h_def)
      show "bents (arData h) (Suc i) = bents d0 (Suc i)" using bd by (simp add: h_def)
      show "slot (nTableMask h) x < length (arHash h)" for x using prems(5) l(3) by (simp add: h_def)
      show "chains_ok (arData h) (nTableMask h) (arHash h) (Suc i)" using l(2) by (simp add: h_def)
      show "arData h ! k = d0 ! k" if "Suc i \<le> k" "k < n" for k
        using that prems(7) l(5) by (simp add: h_def)
    qed (use prems(2,3,8,11) i in \<open>simp_all add: h_def\<close>)
    then show ?thesis using l(3) unfolding step by (simp add: h_def)
  qed
qed

text \<open>
  What the internal pointer (or any position \<open>p\<close>) is about to visit; and the fields
  that moving the data does not touch.
\<close>

definition from_pos :: "HashTable \<Rightarrow> nat \<Rightarrow> (hkey \<times> zval) list" where
  "from_pos ht p = drop (length (entries (entry_at ht) (min p (nNumUsed ht)))) (elems ht)"

definition table_frame :: "HashTable \<Rightarrow> HashTable \<Rightarrow> bool" where
  "table_frame ht ht' \<longleftrightarrow>
     ht_addr ht' = ht_addr ht \<and> pDestructor ht' = pDestructor ht \<and>
     nNextFreeElement ht' = nNextFreeElement ht \<and> nNumOfElements ht' = nNumOfElements ht \<and>
     f_empty_ind ht' = f_empty_ind ht \<and> nIteratorsCount ht' = nIteratorsCount ht"

lemma table_frame_refl [simp]: "table_frame ht ht"
  by (simp add: table_frame_def)

lemma table_frame_trans [trans]: "table_frame a b \<Longrightarrow> table_frame b c \<Longrightarrow> table_frame a c"
  by (simp add: table_frame_def)

lemma from_pos_mixed: "\<not> f_packed ht \<Longrightarrow>
    from_pos ht p = drop (length (bents (arData ht) (min p (nNumUsed ht)))) (bents (arData ht) (nNumUsed ht))"
  by (simp add: from_pos_def elems_mixed) (simp add: bents_def entry_at_def [abs_def])

text \<open>A table of buckets whose hash part is out of date.\<close>

definition rehashable :: "HashTable \<Rightarrow> bool" where
  "rehashable ht \<longleftrightarrow>
     \<not> f_packed ht \<and> \<not> f_uninit ht \<and> size_ok (nTableSize ht) \<and>
     nTableMask ht = HT_SIZE_TO_MASK (nTableSize ht) \<and> length (arData ht) = nTableSize ht \<and>
     nNumUsed ht \<le> nTableSize ht \<and>
     (\<forall>i<nNumUsed ht. bucket_ok (f_static_keys ht) (arData ht ! i)) \<and>
     nNumOfElements ht = length (elems ht) \<and> distinct (map fst (elems ht)) \<and> next_free_ok ht"

lemma rehashable_inv:
  assumes "ht_inv ht" "\<not> f_packed ht" "\<not> f_uninit ht"
  shows "rehashable ht"
proof -
  have m: "mixed_ok ht" using assms by (simp add: inv_mixed)
  show ?thesis
    using assms mixed_okD(1,3,4) [OF m] mixed_okD(5) [OF m] by (simp add: rehashable_def ht_inv_def)
qed

lemma rehash_result:
  assumes "rehashable ht" "chains_ok d (nTableMask ht) hs n" "length hs = 2 * nTableSize ht"
    "length d = nTableSize ht" "n \<le> nTableSize ht" "\<And>k. k < n \<Longrightarrow> bucket_ok (f_static_keys ht) (d ! k)"
    "bents d n = bents (arData ht) (nNumUsed ht)"
  shows "ht_inv (ht\<lparr>arData := d, arHash := hs, nInternalPointer := ip, nNumUsed := n\<rparr>)"
    "elems (ht\<lparr>arData := d, arHash := hs, nInternalPointer := ip, nNumUsed := n\<rparr>) = elems ht"
proof -
  let ?h = "ht\<lparr>arData := d, arHash := hs, nInternalPointer := ip, nNumUsed := n\<rparr>"
  show e: "elems ?h = elems ht" using assms by (simp add: elems_mixed rehashable_def)
  have "mixed_ok ?h" using assms by (simp add: mixed_ok_def rehashable_def)
  moreover have "next_free_ok ?h" using assms(1) e by (simp add: next_free_ok_def rehashable_def)
  ultimately show "ht_inv ?h" using assms(1) e by (simp add: ht_inv_def rehashable_def)
qed

lemma rehash_spec:
  assumes re: "rehashable ht"
  obtains ht' eg' where "zend_hash_rehash ht eg = Inr (ht', eg')" "eg_same eg eg'" "ht_inv ht'"
    "elems ht' = elems ht" "table_frame ht ht'" "\<not> f_packed ht'" "\<not> f_uninit ht'"
    "nTableSize ht' = nTableSize ht" "nNumUsed ht' = nNumOfElements ht"
    "f_static_keys ht' = f_static_keys ht"
    "from_pos ht' (nInternalPointer ht') = from_pos ht (nInternalPointer ht)"
proof -
  have np: "\<not> f_packed ht" "\<not> f_uninit ht" and sz: "size_ok (nTableSize ht)"
    and num: "nNumOfElements ht = length (elems ht)"
    and len: "length (arData ht) = nTableSize ht" "nNumUsed ht \<le> nTableSize ht"
    and cells: "\<And>i. i < nNumUsed ht \<Longrightarrow> bucket_ok (f_static_keys ht) (arData ht ! i)"
    and mask: "nTableMask ht = HT_SIZE_TO_MASK (nTableSize ht)"
    using re by (simp_all add: rehashable_def)
  define h0 where "h0 = HT_HASH_RESET ht"
  define hs0 where "hs0 = replicate (2 * nTableSize ht) HT_INVALID_IDX"
  have h0: "h0 = ht\<lparr>arHash := hs0\<rparr>"
    using size_mask(2) [OF sz] by (simp add: h0_def HT_HASH_RESET_def mask hs0_def)
  have hslen: "length hs0 = 2 * nTableSize ht" by (simp add: hs0_def)
  have slots: "slot (nTableMask ht) x < length hs0" for x
    using slot_ok [OF sz] by (simp add: mask hslen)
  have ok0: "chains_ok d m hs0 0" for d m by (rule chains_ok_empty) (simp add: hs0_def)
  have el: "elems ht = bents (arData ht) (nNumUsed ht)" using np by (simp add: elems_mixed)
  show thesis
  proof (cases "nNumOfElements ht = 0")
    case True
    let ?h = "ht\<lparr>arData := arData ht, arHash := hs0, nInternalPointer := 0, nNumUsed := 0\<rparr>"
    have e0: "bents (arData ht) (nNumUsed ht) = []" using True num el by simp
    have r: "zend_hash_rehash ht eg = Inr (?h, zend_hash_iterators_reset ht eg)"
      using True np size_mask(2) [OF sz]
      by (simp add: zend_hash_rehash_def HT_HASH_RESET_def mask hs0_def)
    have i: "ht_inv ?h" "elems ?h = elems ht"
      by (rule rehash_result [OF re]; use ok0 hslen len e0 in simp)+
    have "from_pos ?h (nInternalPointer ?h) = from_pos ht (nInternalPointer ht)"
      using np e0 by (simp add: from_pos_mixed)
    then show thesis
      using that [OF r _ i(1) i(2)] True np by (simp add: table_frame_def)
  next
    case False
    then have used: "0 < nNumUsed ht" using num el by (cases "nNumUsed ht") simp_all
    have wh: "HT_IS_WITHOUT_HOLES h0 = HT_IS_WITHOUT_HOLES ht"
      by (simp add: HT_IS_WITHOUT_HOLES_def h0)
    show thesis
    proof (cases "HT_IS_WITHOUT_HOLES ht")
      case full: True
      have "length (bents (arData ht) (nNumUsed ht)) = nNumUsed ht"
        using full num el by (simp add: HT_IS_WITHOUT_HOLES_def)
      then have live: "bucket_entry (arData ht ! i) \<noteq> None" if "i < nNumUsed ht" for i
        using that by (simp add: bents_def length_entries_full)
      obtain d hs where f: "foldE link_bucket [0..<nNumUsed ht] h0 = Inr (h0\<lparr>arData := d, arHash := hs\<rparr>)"
        "chains_ok d (nTableMask ht) hs (nNumUsed ht)" "length hs = 2 * nTableSize ht"
        "same_buckets (arData ht) d"
        using foldE_link_ok [of "nNumUsed ht" h0] slots ok0 len live by (auto simp: h0 hslen)
      let ?h = "ht\<lparr>arData := d, arHash := hs, nInternalPointer := nInternalPointer ht, nNumUsed := nNumUsed ht\<rparr>"
      have r: "zend_hash_rehash ht eg = Inr (?h, eg)"
        using False full f(1) places [OF used]
        by (simp add: zend_hash_rehash_def h0_def [symmetric] wh Let_def del: foldE.simps)
          (simp add: h0 del: foldE.simps)
      have dlen: "length d = nTableSize ht" using f(4) len by (simp add: same_buckets_def)
      have b: "bents d k = bents (arData ht) k" if "k \<le> nNumUsed ht" for k
        using f(4) that len by (intro bents_same) auto
      have ok: "bucket_ok (f_static_keys ht) (d ! k)" if "k < nNumUsed ht" for k
        using same_bucketsD(2) [OF f(4), of k] that len cells by simp
      have i: "ht_inv ?h" "elems ?h = elems ht"
        by (rule rehash_result [OF re f(2,3) dlen len(2) ok b]; simp)+
      have fp: "from_pos ?h (nInternalPointer ?h) = from_pos ht (nInternalPointer ht)"
        using np b by (simp add: from_pos_mixed)
      show thesis
        by (rule that [OF r eg_same_refl i _ _ _ _ _ _ fp])
          (use np full in \<open>simp_all add: table_frame_def HT_IS_WITHOUT_HOLES_def\<close>)
    next
      case holes: False
      let ?P = "\<lambda>d hs ip n' eg'. rehash_holes [0..<nNumUsed ht] h0 eg =
        Inr (h0\<lparr>arData := d, arHash := hs, nInternalPointer := ip, nNumUsed := n'\<rparr>, eg') \<and>
        eg_same eg eg' \<and>
        chains_ok d (nTableMask h0) hs n' \<and> length hs = length (arHash h0) \<and> length d = length (arData ht) \<and>
        n' \<le> nNumUsed ht \<and> (\<forall>k<n'. bucket_ok (f_static_keys ht) (d ! k) \<and> bucket_entry (d ! k) \<noteq> None) \<and>
        bents d n' = bents (arData ht) (nNumUsed ht) \<and>
        bents d (min ip n') = bents (arData ht) (min (nInternalPointer ht) (nNumUsed ht))"
      have "\<exists>d hs ip n' eg'. ?P d hs ip n' eg'"
        by (rule rehash_holes_ok) (use slots ok0 len cells in \<open>simp_all add: h0\<close>)
      then obtain d hs ip n' eg' where P: "?P d hs ip n' eg'" by blast
      let ?h = "ht\<lparr>arData := d, arHash := hs, nInternalPointer := ip, nNumUsed := n'\<rparr>"
      define eg'' where "eg'' = (if HT_HAS_ITERATORS ?h
        then zend_hash_iterators_update_all ?h (nNumUsed ht) n' eg' else eg')"
      have h: "h0\<lparr>arData := d, arHash := hs, nInternalPointer := ip, nNumUsed := n'\<rparr> = ?h"
        by (simp add: h0)
      have used0: "nNumUsed h0 = nNumUsed ht" by (simp add: h0)
      have r: "zend_hash_rehash ht eg = Inr (?h, eg'')"
        using False holes P places [OF used] unfolding h
        by (simp add: zend_hash_rehash_def h0_def [symmetric] wh Let_def used0 eg''_def)
      have same: "eg_same eg eg''"
        using P eg_same_trans by (auto simp: eg''_def)
      have mk: "nTableMask h0 = nTableMask ht" "length (arHash h0) = 2 * nTableSize ht"
        by (simp_all add: h0 hslen)
      have i: "ht_inv ?h" "elems ?h = elems ht"
        by (rule rehash_result [OF re]; use P len in \<open>simp add: mk\<close>)+
      have "length (bents d n') = n'" unfolding bents_def length_entries_full using P by blast
      then have n': "n' = nNumOfElements ht" using P num el by simp
      have fp: "from_pos ?h (nInternalPointer ?h) = from_pos ht (nInternalPointer ht)"
        using np P by (simp add: from_pos_mixed)
      show thesis
        by (rule that [OF r same i _ _ _ _ _ _ fp]) (use np n' in \<open>simp_all add: table_frame_def\<close>)
    qed
  qed
qed

end
