(* ===== verification/HashConvert.thy ===== *)
theory HashConvert
  imports HashGrow
begin

text \<open>
  Growing and converting tables: \<open>zend_hash_do_resize\<close>, \<open>zend_hash_packed_grow\<close>, the
  conversions between packed and mixed tables, \<open>zend_hash_extend\<close> and
  \<open>zend_hash_discard\<close>. Each keeps the invariant and the entries in their order
  (\<open>zend_hash_discard\<close> cuts them off at a place).
\<close>

subsection \<open>Growing and converting\<close>

definition zend_hash_do_resize :: "HashTable \<Rightarrow> executor_globals \<Rightarrow> error + (HashTable \<times> executor_globals)" where
  "zend_hash_do_resize ht eg =
     assertE (\<not> f_packed ht) (\<lambda>_.
       if nNumUsed ht > nNumOfElements ht + nNumOfElements ht div 2 ^ 5 then zend_hash_rehash ht eg
       else if nTableSize ht < HT_MAX_SIZE then
         (let nSize = nTableSize ht + nTableSize ht in
          assertE (HT_SIZE_TO_MASK nSize \<noteq> 0) (\<lambda>_.
            zend_hash_rehash
              (ht\<lparr>nTableSize := nSize, nTableMask := HT_SIZE_TO_MASK nSize,
                  arData := realloc_used nSize (nNumUsed ht) (arData ht)\<rparr>) eg))
       else Inl FatalOverflow)"

text \<open>\<open>ZEND_HASH_IF_FULL_DO_RESIZE\<close>\<close>

definition if_full_do_resize :: "HashTable \<Rightarrow> executor_globals \<Rightarrow> error + (HashTable \<times> executor_globals)" where
  "if_full_do_resize ht eg =
     (if nNumUsed ht \<ge> nTableSize ht then zend_hash_do_resize ht eg else Inr (ht, eg))"

text \<open>
  The new buckets of \<open>zend_hash_packed_to_hash\<close>; their \<open>Z_NEXT\<close> words are not
  written before \<open>zend_hash_rehash\<close> writes them, the 0 here is arbitrary.
\<close>

fun unpack_cells :: "nat list \<Rightarrow> zval option list \<Rightarrow> Bucket option list \<Rightarrow> error + Bucket option list" where
  "unpack_cells [] src dst = Inr dst"
| "unpack_cells (i # is) src dst =
     bindE (rd src i) (\<lambda>v.
     bindE (wr dst i \<lparr>b_val = v, b_next = 0, b_h = of_nat i, b_key = None\<rparr>) (unpack_cells is src))"

definition zend_hash_packed_to_hash ::
  "HashTable \<Rightarrow> executor_globals \<Rightarrow> error + (HashTable \<times> executor_globals)" where
  "zend_hash_packed_to_hash ht eg =
     (let nSize = nTableSize ht in
      assertE (HT_SIZE_TO_MASK nSize \<noteq> 0) (\<lambda>_.
      bindE (unpack_cells [0..<nNumUsed ht] (arPacked ht) (replicate nSize None)) (\<lambda>d.
        zend_hash_rehash
          (ht\<lparr>f_packed := False, nTableMask := HT_SIZE_TO_MASK nSize, arPacked := [], arData := d\<rparr>) eg)))"

fun pack_cells :: "nat list \<Rightarrow> Bucket option list \<Rightarrow> zval option list \<Rightarrow> error + zval option list" where
  "pack_cells [] src dst = Inr dst"
| "pack_cells (i # is) src dst =
     bindE (rd src i) (\<lambda>p. bindE (wr dst i (b_val p)) (pack_cells is src))"

definition zend_hash_to_packed :: "HashTable \<Rightarrow> error + HashTable" where
  "zend_hash_to_packed ht =
     bindE (pack_cells [0..<nNumUsed ht] (arData ht) (replicate (nTableSize ht) None)) (\<lambda>pk.
       Inr (HT_HASH_RESET_PACKED
         (ht\<lparr>f_packed := True, f_static_keys := True, nTableMask := HT_MIN_MASK,
             arData := [], arPacked := pk\<rparr>)))"

definition zend_hash_extend ::
  "HashTable \<Rightarrow> nat \<Rightarrow> bool \<Rightarrow> executor_globals \<Rightarrow> error + (HashTable \<times> executor_globals)" where
  "zend_hash_extend ht nSize packed eg =
     (if nSize = 0 then Inr (ht, eg)
      else assertE (HT_SIZE_TO_MASK nSize \<noteq> 0) (\<lambda>_.
        if f_uninit ht then
          bindE (if nSize > nTableSize ht
                 then bindE (zend_hash_check_size nSize) (\<lambda>size. Inr (ht\<lparr>nTableSize := size\<rparr>))
                 else Inr ht) (\<lambda>ht.
          bindE (zend_hash_real_init ht packed) (\<lambda>ht. Inr (ht, eg)))
        else if packed then
          assertE (f_packed ht) (\<lambda>_.
            if nSize > nTableSize ht then
              bindE (zend_hash_check_size nSize) (\<lambda>newTableSize.
                Inr (ht\<lparr>arPacked := realloc_used newTableSize (nNumUsed ht) (arPacked ht),
                        nTableSize := newTableSize\<rparr>, eg))
            else Inr (ht, eg))
        else
          assertE (\<not> f_packed ht) (\<lambda>_.
            if nSize > nTableSize ht then
              bindE (zend_hash_check_size nSize) (\<lambda>nSize.
                zend_hash_rehash
                  (ht\<lparr>nTableSize := nSize, nTableMask := HT_SIZE_TO_MASK nSize,
                      arData := realloc_used nSize (nNumUsed ht) (arData ht)\<rparr>) eg)
            else Inr (ht, eg))))"

fun discard_loop :: "nat list \<Rightarrow> HashTable \<Rightarrow> error + HashTable" where
  "discard_loop [] ht = Inr ht"
| "discard_loop (i # is) ht =
     bindE (rd (arData ht) i) (\<lambda>p.
       if b_val p = IS_UNDEF then discard_loop is ht
       else bindE (wri (arHash ht) (slot (nTableMask ht) (b_h p)) (b_next p)) (\<lambda>hs.
              discard_loop is (ht\<lparr>nNumOfElements := nNumOfElements ht - 1, arHash := hs\<rparr>)))"

definition zend_hash_discard :: "HashTable \<Rightarrow> nat \<Rightarrow> error + HashTable" where
  "zend_hash_discard ht n =
     assertE (\<not> f_packed ht) (\<lambda>_. discard_loop (rev [n..<nNumUsed ht]) (ht\<lparr>nNumUsed := n\<rparr>))"

subsection \<open>Growing a mixed table\<close>

lemma realloc_used_nth: "i < used \<Longrightarrow> used \<le> length xs \<Longrightarrow> realloc_used n used xs ! i = xs ! i"
  by (simp add: realloc_used_def nth_append)

lemma realloc_used_length: "used \<le> length xs \<Longrightarrow> used \<le> n \<Longrightarrow> length (realloc_used n used xs) = n"
  by (simp add: realloc_used_def)

lemma rehashable_grown:
  assumes "rehashable ht" "size_ok n" "nTableSize ht \<le> n"
    "h = ht\<lparr>nTableSize := n, nTableMask := HT_SIZE_TO_MASK n,
        arData := realloc_used n (nNumUsed ht) (arData ht)\<rparr>"
  shows "rehashable h" "elems h = elems ht" "table_frame ht h" "f_static_keys h = f_static_keys ht"
    "nTableSize h = n" "from_pos h p = from_pos ht p" "nInternalPointer h = nInternalPointer ht"
proof -
  have len: "nNumUsed ht \<le> length (arData ht)" "nNumUsed ht \<le> n" "nNumUsed ht \<le> nTableSize ht"
    using assms(1,3) by (auto simp: rehashable_def)
  have b: "bents (realloc_used n (nNumUsed ht) (arData ht)) k = bents (arData ht) k" if "k \<le> nNumUsed ht" for k
    using that len by (intro bents_cong) (simp add: realloc_used_nth)
  have np: "\<not> f_packed h" "\<not> f_packed ht" using assms(1,4) by (simp_all add: rehashable_def)
  show e: "elems h = elems ht" using np b by (simp add: elems_mixed assms(4))
  show "rehashable h"
    using assms(1,2) e len by (simp add: rehashable_def next_free_ok_def realloc_used_length realloc_used_nth)
      (simp add: assms(4) realloc_used_length realloc_used_nth)
  show "from_pos h p = from_pos ht p" using np b by (simp add: from_pos_mixed assms(4))
  show "table_frame ht h" "f_static_keys h = f_static_keys ht" "nTableSize h = n"
    "nInternalPointer h = nInternalPointer ht"
    by (simp_all add: assms(4) table_frame_def)
qed

text \<open>
  A full table either loses its holes or doubles; it fails only when it has the
  maximal size and (nearly) no holes.
\<close>

lemma do_resize_spec:
  assumes re: "rehashable ht" and full: "nNumUsed ht = nTableSize ht"
  obtains (fatal) "zend_hash_do_resize ht eg = Inl FatalOverflow" "nTableSize ht = HT_MAX_SIZE"
      "nNumUsed ht \<le> nNumOfElements ht + nNumOfElements ht div 2 ^ 5"
  | (ok) ht' eg' where "zend_hash_do_resize ht eg = Inr (ht', eg')" "eg_same eg eg'" "ht_inv ht'"
      "elems ht' = elems ht" "table_frame ht ht'" "\<not> f_packed ht'" "\<not> f_uninit ht'"
      "f_static_keys ht' = f_static_keys ht" "nNumUsed ht' < nTableSize ht'"
      "from_pos ht' (nInternalPointer ht') = from_pos ht (nInternalPointer ht)"
proof (cases "nNumUsed ht > nNumOfElements ht + nNumOfElements ht div 2 ^ 5")
  case True
  have np: "\<not> f_packed ht" using re by (simp add: rehashable_def)
  obtain ht' eg' where r: "zend_hash_rehash ht eg = Inr (ht', eg')" "eg_same eg eg'" "ht_inv ht'"
    "elems ht' = elems ht" "table_frame ht ht'" "\<not> f_packed ht'" "\<not> f_uninit ht'"
    "nTableSize ht' = nTableSize ht" "nNumUsed ht' = nNumOfElements ht"
    "f_static_keys ht' = f_static_keys ht"
    "from_pos ht' (nInternalPointer ht') = from_pos ht (nInternalPointer ht)"
    using rehash_spec [OF re] .
  show thesis
    by (rule ok [OF _ r(2-7,10) _ r(11)]) (use r(1,8,9) np True full in \<open>simp_all add: zend_hash_do_resize_def\<close>)
next
  case False
  have np: "\<not> f_packed ht" and sz: "size_ok (nTableSize ht)" using re by (simp_all add: rehashable_def)
  show thesis
  proof (cases "nTableSize ht < HT_MAX_SIZE")
    case True
    define n where "n = nTableSize ht + nTableSize ht"
    have n: "size_ok n" "nTableSize ht \<le> n" "nTableSize ht < n"
      using size_ok_double [OF sz True] size_ok_bounds [OF sz] by (simp_all add: n_def mult_2)
    define h where "h = ht\<lparr>nTableSize := n, nTableMask := HT_SIZE_TO_MASK n,
        arData := realloc_used n (nNumUsed ht) (arData ht)\<rparr>"
    note g = rehashable_grown [OF re n(1,2) h_def]
    obtain ht' eg' where r: "zend_hash_rehash h eg = Inr (ht', eg')" "eg_same eg eg'" "ht_inv ht'"
      "elems ht' = elems h" "table_frame h ht'" "\<not> f_packed ht'" "\<not> f_uninit ht'"
      "nTableSize ht' = nTableSize h" "nNumUsed ht' = nNumOfElements h"
      "f_static_keys ht' = f_static_keys h"
      "from_pos ht' (nInternalPointer ht') = from_pos h (nInternalPointer h)"
      using rehash_spec [OF g(1)] .
    have "length (elems ht) \<le> nNumUsed ht" unfolding elems_def by (rule length_entries_le)
    then have "nNumUsed ht' < nTableSize ht'"
      using r(8,9) g(5) n(3) full re by (simp add: rehashable_def h_def)
    moreover have "zend_hash_do_resize ht eg = Inr (ht', eg')"
      using False True np r(1) size_mask(1) [OF n(1)]
      by (simp add: zend_hash_do_resize_def Let_def n_def [symmetric] h_def [symmetric])
    ultimately show thesis
      using ok [of ht' eg'] r g table_frame_trans by metis
  next
    case max: False
    then have "nTableSize ht = HT_MAX_SIZE" using size_ok_bounds [OF sz] by simp
    then show thesis
      using fatal False max np by (simp add: zend_hash_do_resize_def)
  qed
qed

lemma if_full_spec:
  assumes inv: "ht_inv ht" and np: "\<not> f_packed ht" "\<not> f_uninit ht"
  obtains (fatal) "if_full_do_resize ht eg = Inl FatalOverflow"
      "nNumUsed ht = HT_MAX_SIZE" "HT_MAX_SIZE \<le> nNumOfElements ht + nNumOfElements ht div 2 ^ 5"
  | (ok) ht' eg' where "if_full_do_resize ht eg = Inr (ht', eg')" "eg_same eg eg'" "ht_inv ht'"
      "elems ht' = elems ht" "table_frame ht ht'" "\<not> f_packed ht'" "\<not> f_uninit ht'"
      "f_static_keys ht' = f_static_keys ht" "nNumUsed ht' < nTableSize ht'"
      "from_pos ht' (nInternalPointer ht') = from_pos ht (nInternalPointer ht)"
proof (cases "nNumUsed ht \<ge> nTableSize ht")
  case True
  then have full: "nNumUsed ht = nTableSize ht" using inv_used_le [OF inv] by simp
  from rehashable_inv [OF inv np] full show thesis
  proof (cases rule: do_resize_spec [where eg = eg])
    case fatal
    then show thesis using that(1) True full by (simp add: if_full_do_resize_def)
  next
    case (ok ht' eg')
    then show thesis using that(2) [of ht' eg'] True by (simp add: if_full_do_resize_def)
  qed
next
  case False
  show thesis
    by (rule that(2) [of ht eg]) (use False inv np in \<open>simp_all add: if_full_do_resize_def\<close>)
qed

subsection \<open>Packed tables\<close>

lemma packed_grow_spec:
  assumes "ht_inv ht" "f_packed ht"
  obtains (fatal) "zend_hash_packed_grow ht = Inl FatalOverflow" "nTableSize ht = HT_MAX_SIZE"
  | (ok) ht' where "zend_hash_packed_grow ht = Inr ht'" "ht_inv ht'" "elems ht' = elems ht"
      "table_frame ht ht'" "f_packed ht'" "nTableSize ht' = 2 * nTableSize ht"
      "nNumUsed ht' = nNumUsed ht" "nInternalPointer ht' = nInternalPointer ht"
      "\<And>p. from_pos ht' p = from_pos ht p"
proof (cases "nTableSize ht < HT_MAX_SIZE")
  case True
  have pk: "packed_ok ht" and sz: "size_ok (nTableSize ht)"
    using assms by (simp_all add: inv_packed inv_size)
  have len: "length (arPacked ht) = nTableSize ht" "nNumUsed ht \<le> nTableSize ht"
    using pk by (simp_all add: packed_ok_def)
  define h where "h = ht\<lparr>arPacked := realloc_used (nTableSize ht * 2) (nNumUsed ht) (arPacked ht),
      nTableSize := nTableSize ht * 2\<rparr>"
  have r: "zend_hash_packed_grow ht = Inr h" using True by (simp add: zend_hash_packed_grow_def h_def Let_def)
  have at: "entry_at h i = entry_at ht i" if "i < nNumUsed ht" for i
    using that len assms by (simp add: entry_at_def h_def realloc_used_nth)
  have ent: "entries (entry_at h) k = entries (entry_at ht) k" if "k \<le> nNumUsed ht" for k
    using at that by (intro entries_cong) simp
  have used: "nNumUsed h = nNumUsed ht" by (simp add: h_def)
  have e: "elems h = elems ht" using ent by (simp add: elems_def used)
  have "packed_ok h" using pk len by (simp add: packed_ok_def h_def realloc_used_length realloc_used_nth)
  then have "ht_inv h"
    using assms e size_ok_double [OF sz True]
    by (simp add: ht_inv_def next_free_ok_def) (simp add: h_def mult.commute)
  moreover have "from_pos h p = from_pos ht p" for p
    using ent by (simp add: from_pos_def e used)
  ultimately show thesis
    using ok [OF r _ e] assms by (simp add: h_def table_frame_def mult.commute)
next
  case False
  then show thesis
    using fatal size_ok_bounds [OF inv_size [OF assms(1)]] by (simp add: zend_hash_packed_grow_def)
qed

text \<open>
  A packed table about to be converted. Its \<open>nTableSize\<close> may already be that of
  the table to be, larger than its block.
\<close>

definition unpackable :: "HashTable \<Rightarrow> bool" where
  "unpackable ht \<longleftrightarrow>
     f_packed ht \<and> \<not> f_uninit ht \<and> size_ok (nTableSize ht) \<and> nNumUsed ht \<le> nTableSize ht \<and>
     nNumUsed ht \<le> length (arPacked ht) \<and> (\<forall>i<nNumUsed ht. arPacked ht ! i \<noteq> None) \<and>
     nNumOfElements ht = length (elems ht) \<and> distinct (map fst (elems ht)) \<and> next_free_ok ht"

lemma unpackable_inv: "ht_inv ht \<Longrightarrow> f_packed ht \<Longrightarrow> unpackable ht"
  by (simp add: unpackable_def ht_inv_def packed_ok_def)

definition unpacked :: "nat \<Rightarrow> zval \<Rightarrow> Bucket" where
  "unpacked i v = \<lparr>b_val = v, b_next = 0, b_h = of_nat i, b_key = None\<rparr>"

lemma unpack_cells_ok:
  assumes "i \<le> n" "n \<le> length src" "n \<le> length dst" "\<And>k. k < n \<Longrightarrow> src ! k \<noteq> None"
  shows "\<exists>d. unpack_cells [i..<n] src dst = Inr d \<and> length d = length dst \<and>
     (\<forall>k<i. d ! k = dst ! k) \<and> (\<forall>k. i \<le> k \<and> k < n \<longrightarrow> d ! k = map_option (unpacked k) (src ! k))"
  using assms
proof (induction "n - i" arbitrary: i dst)
  case (Suc m)
  then have i: "i < n" "[i..<n] = i # [Suc i..<n]" "m = n - Suc i" by (auto simp: upt_conv_Cons)
  obtain v where v: "src ! i = Some v" using Suc.prems(4) i by blast
  let ?dst = "dst[i := Some (unpacked i v)]"
  obtain d where d: "unpack_cells [Suc i..<n] src ?dst = Inr d" "length d = length dst"
    "\<forall>k<Suc i. d ! k = ?dst ! k" "\<forall>k. Suc i \<le> k \<and> k < n \<longrightarrow> d ! k = map_option (unpacked k) (src ! k)"
    using Suc.hyps(1) [OF i(3), of ?dst] Suc.prems i by auto
  have "unpack_cells [i..<n] src dst = Inr d"
    using d(1) v i Suc.prems by (simp add: unpacked_def)
  moreover have "d ! k = map_option (unpacked k) (src ! k)" if "i \<le> k" "k < n" for k
    using d(3,4) that v i Suc.prems(3) by (cases "k = i") auto
  ultimately show ?case using d by auto
qed auto

lemma unpack_entry: "bucket_entry (map_option (unpacked i) c) = packed_entry i c"
  by (cases c) (auto simp: bucket_entry_def packed_entry_def bucket_key_def unpacked_def)

lemma packed_to_hash_spec:
  assumes un: "unpackable ht"
  obtains ht' eg' where "zend_hash_packed_to_hash ht eg = Inr (ht', eg')" "eg_same eg eg'" "ht_inv ht'"
    "elems ht' = elems ht" "table_frame ht ht'" "\<not> f_packed ht'" "\<not> f_uninit ht'"
    "nTableSize ht' = nTableSize ht" "nNumUsed ht' = nNumOfElements ht"
    "from_pos ht' (nInternalPointer ht') = from_pos ht (nInternalPointer ht)"
proof -
  let ?n = "nNumUsed ht" and ?size = "nTableSize ht"
  have u: "f_packed ht" "\<not> f_uninit ht" "size_ok ?size" "?n \<le> ?size" "?n \<le> length (arPacked ht)"
    "\<And>k. k < ?n \<Longrightarrow> arPacked ht ! k \<noteq> None"
    using un by (simp_all add: unpackable_def)
  have le: "?n \<le> length (replicate ?size (None :: Bucket option))" using u(4) by simp
  from unpack_cells_ok [OF le0 u(5) le u(6)] obtain d where
    d: "unpack_cells [0..<?n] (arPacked ht) (replicate ?size None) = Inr d" "length d = ?size"
      "\<And>k. k < ?n \<Longrightarrow> d ! k = map_option (unpacked k) (arPacked ht ! k)"
    by auto
  define h where "h = ht\<lparr>f_packed := False, nTableMask := HT_SIZE_TO_MASK ?size, arPacked := [], arData := d\<rparr>"
  have at: "bucket_entry (d ! k) = entry_at ht k" if "k < ?n" for k
    using d(3) [OF that] u(1) by (simp add: unpack_entry entry_at_def)
  have ent: "bents d k = entries (entry_at ht) k" if "k \<le> ?n" for k
    unfolding bents_def using at that by (intro entries_cong) simp
  have np: "\<not> f_packed h" by (simp add: h_def)
  have e: "elems h = elems ht" using np ent by (simp add: elems_mixed) (simp add: h_def elems_def)
  have ok: "bucket_ok s (d ! k)" if "k < ?n" for k s
    using d(3) [OF that] u(6) [OF that] by (auto simp: bucket_ok_def unpacked_def)
  have "rehashable h"
    using un d(2) ok e by (simp add: rehashable_def unpackable_def next_free_ok_def) (simp add: h_def)
  then obtain ht' eg' where r: "zend_hash_rehash h eg = Inr (ht', eg')" "eg_same eg eg'" "ht_inv ht'"
    "elems ht' = elems h" "table_frame h ht'" "\<not> f_packed ht'" "\<not> f_uninit ht'"
    "nTableSize ht' = nTableSize h" "nNumUsed ht' = nNumOfElements h"
    "f_static_keys ht' = f_static_keys h"
    "from_pos ht' (nInternalPointer ht') = from_pos h (nInternalPointer h)"
    using rehash_spec [of h eg] by metis
  have res: "zend_hash_packed_to_hash ht eg = Inr (ht', eg')"
    using d(1) r(1) size_mask(1) [OF u(3)]
    by (simp add: zend_hash_packed_to_hash_def Let_def h_def [symmetric])
  have fp: "from_pos h p = from_pos ht p" for p
    using np ent by (simp add: from_pos_mixed) (simp add: h_def from_pos_def elems_def)
  have fr: "table_frame ht h" by (simp add: h_def table_frame_def)
  show thesis
    by (rule that [OF res r(2,3) _ table_frame_trans [OF fr r(5)] r(6,7)])
      (use e r(4,8,9,11) fp in \<open>simp_all add: h_def\<close>)
qed

text \<open>Back to a packed table: the keys must be the places.\<close>

lemma pack_cells_ok:
  assumes "i \<le> n" "n \<le> length src" "n \<le> length dst" "\<And>k. k < n \<Longrightarrow> src ! k \<noteq> None"
  shows "\<exists>d. pack_cells [i..<n] src dst = Inr d \<and> length d = length dst \<and>
     (\<forall>k<i. d ! k = dst ! k) \<and> (\<forall>k. i \<le> k \<and> k < n \<longrightarrow> d ! k = map_option b_val (src ! k))"
  using assms
proof (induction "n - i" arbitrary: i dst)
  case (Suc m)
  then have i: "i < n" "[i..<n] = i # [Suc i..<n]" "m = n - Suc i" by (auto simp: upt_conv_Cons)
  obtain p where p: "src ! i = Some p" using Suc.prems(4) i by blast
  let ?dst = "dst[i := Some (b_val p)]"
  obtain d where d: "pack_cells [Suc i..<n] src ?dst = Inr d" "length d = length dst"
    "\<forall>k<Suc i. d ! k = ?dst ! k" "\<forall>k. Suc i \<le> k \<and> k < n \<longrightarrow> d ! k = map_option b_val (src ! k)"
    using Suc.hyps(1) [OF i(3), of ?dst] Suc.prems i by auto
  have "pack_cells [i..<n] src dst = Inr d" using d(1) p i Suc.prems by simp
  moreover have "d ! k = map_option b_val (src ! k)" if "i \<le> k" "k < n" for k
    using d(3,4) that p i Suc.prems(3) by (cases "k = i") auto
  ultimately show ?case using d by auto
qed auto

definition keys_are_places :: "HashTable \<Rightarrow> bool" where
  "keys_are_places ht \<longleftrightarrow>
     (\<forall>i<nNumUsed ht. case entry_at ht i of None \<Rightarrow> True | Some kv \<Rightarrow> fst kv = KNum (of_nat i))"

lemma to_packed_spec:
  assumes inv: "ht_inv ht" "\<not> f_packed ht" "\<not> f_uninit ht" and keys: "keys_are_places ht"
  obtains ht' where "zend_hash_to_packed ht = Inr ht'" "ht_inv ht'" "f_packed ht'"
    "elems ht' = elems ht" "table_frame ht ht'" "nInternalPointer ht' = nInternalPointer ht"
    "\<And>p. from_pos ht' p = from_pos ht p"
proof -
  let ?n = "nNumUsed ht" and ?size = "nTableSize ht"
  have mix: "mixed_ok ht" using inv by (simp add: inv_mixed)
  note m = mixed_okD [OF mix]
  have le: "?n \<le> length (arData ht)" "?n \<le> length (replicate ?size (None :: zval option))"
    using m by simp_all
  have cells: "arData ht ! k \<noteq> None" if "k < ?n" for k using mixed_bucket [OF mix that] by auto
  from pack_cells_ok [OF le0 le cells] obtain d where
    d: "pack_cells [0..<?n] (arData ht) (replicate ?size None) = Inr d" "length d = ?size"
      "\<And>k. k < ?n \<Longrightarrow> d ! k = map_option b_val (arData ht ! k)"
    by auto
  define h where "h = HT_HASH_RESET_PACKED
      (ht\<lparr>f_packed := True, f_static_keys := True, nTableMask := HT_MIN_MASK, arData := [], arPacked := d\<rparr>)"
  have at: "entry_at h k = entry_at ht k" if "k < ?n" for k
  proof -
    obtain p where p: "arData ht ! k = Some p" using cells \<open>k < ?n\<close> by blast
    have "bucket_key p = KNum (of_nat k)" if live: "b_val p \<noteq> IS_UNDEF"
      using keys \<open>k < ?n\<close> p live inv(2)
      by (auto simp: keys_are_places_def entry_at_def bucket_entry_def)
    then show ?thesis
      using d(3) [OF that] p inv(2)
      by (simp add: entry_at_def h_def HT_HASH_RESET_PACKED_def packed_entry_def bucket_entry_def)
  qed
  have used: "nNumUsed h = ?n" by (simp add: h_def HT_HASH_RESET_PACKED_def)
  have ent: "entries (entry_at h) k = entries (entry_at ht) k" if "k \<le> ?n" for k
    using at that by (intro entries_cong) simp
  have e: "elems h = elems ht" using ent by (simp add: elems_def used)
  have res: "zend_hash_to_packed ht = Inr h" using d(1) by (simp add: zend_hash_to_packed_def h_def)
  have "packed_ok h"
    using inv(3) d m cells by (simp add: packed_ok_def h_def HT_HASH_RESET_PACKED_def)
  then have "ht_inv h"
    using inv(1) e by (simp add: ht_inv_def next_free_ok_def) (simp add: h_def HT_HASH_RESET_PACKED_def)
  moreover have "from_pos h p = from_pos ht p" for p using ent by (simp add: from_pos_def e used)
  ultimately show thesis
    using that [OF res _ _ e] by (simp add: h_def HT_HASH_RESET_PACKED_def table_frame_def)
qed

subsection \<open>Making room and cutting off\<close>

lemma chains_ok_pop:
  assumes "chains_ok d m hs (Suc n)" "d ! n = Some p" "slot m (b_h p) < length hs"
  shows "b_val p = IS_UNDEF \<Longrightarrow> chains_ok d m hs n"
    "b_val p \<noteq> IS_UNDEF \<Longrightarrow> chains_ok d m (hs[slot m (b_h p) := b_next p]) n"
proof -
  assume "b_val p = IS_UNDEF"
  then have "\<not> in_slot d m s n" for s using assms(2) by (simp add: in_slot_def)
  then show "chains_ok d m hs n" using assms(1) by (simp add: chains_ok_def)
next
  assume live: "b_val p \<noteq> IS_UNDEF"
  then have n: "in_slot d m s n \<longleftrightarrow> s = slot m (b_h p)" for s
    using assms(2) by (auto simp: in_slot_def)
  have "b_next p = last_in (in_slot d m (slot m (b_h p))) n"
    using assms(1,2) live by (auto simp: chains_ok_def)
  moreover have "hs ! s = last_in (in_slot d m s) n" if "s < length hs" "s \<noteq> slot m (b_h p)" for s
    using assms(1) that n by (simp add: chains_ok_def)
  ultimately show "chains_ok d m (hs[slot m (b_h p) := b_next p]) n"
    using assms(1,3) n unfolding chains_ok_def by (simp add: nth_list_update)
qed

lemma discard_loop_ok:
  assumes "n \<le> k" "k \<le> length (arData ht)" "\<And>i. i < k \<Longrightarrow> bucket_ok st (arData ht ! i)"
    "\<And>x. slot (nTableMask ht) x < length (arHash ht)"
    "chains_ok (arData ht) (nTableMask ht) (arHash ht) k"
    "nNumOfElements ht = length (bents (arData ht) k)"
  shows "\<exists>hs. discard_loop (rev [n..<k]) ht =
      Inr (ht\<lparr>nNumOfElements := length (bents (arData ht) n), arHash := hs\<rparr>) \<and>
      chains_ok (arData ht) (nTableMask ht) hs n \<and> length hs = length (arHash ht)"
  using assms
proof (induction "k - n" arbitrary: k ht)
  case 0
  then have k: "k = n" by simp
  have "ht\<lparr>nNumOfElements := length (bents (arData ht) n), arHash := arHash ht\<rparr> = ht"
    unfolding 0(7) [unfolded k, symmetric] by simp
  then show ?case using 0(6) k by (intro exI [of _ "arHash ht"]) simp
next
  case (Suc m)
  then obtain k' where k: "k = Suc k'" "n \<le> k'" "m = k' - n" by (cases k) auto
  obtain p where p: "arData ht ! k' = Some p"
    using Suc.prems(3) [of k'] k by (cases "arData ht ! k'") (simp_all add: bucket_ok_def)
  have rdp: "rd (arData ht) k' = Inr p" using p Suc.prems(2) k by simp
  have rev: "rev [n..<k] = k' # rev [n..<k']" using k by simp
  note pop = chains_ok_pop [OF Suc.prems(5) [unfolded k(1)] p Suc.prems(4)]
  show ?case
  proof (cases "b_val p = IS_UNDEF")
    case True
    have "discard_loop (rev [n..<k]) ht = discard_loop (rev [n..<k']) ht"
      using rdp True by (simp add: rev)
    moreover have "nNumOfElements ht = length (bents (arData ht) k')"
      using Suc.prems(6) k p True by (simp add: bents_Suc bucket_entry_def)
    ultimately show ?thesis
      using Suc.hyps(1) [of k' ht, OF k(3,2) _ _ Suc.prems(4) pop(1) [OF True]] Suc.prems(2,3) k(1) by simp
  next
    case False
    let ?h = "ht\<lparr>nNumOfElements := nNumOfElements ht - 1, arHash := (arHash ht)[slot (nTableMask ht) (b_h p) := b_next p]\<rparr>"
    have step: "discard_loop (rev [n..<k]) ht = discard_loop (rev [n..<k']) ?h"
      using rdp False Suc.prems(4) by (simp add: rev)
    have num: "nNumOfElements ?h = length (bents (arData ?h) k')"
      using Suc.prems(6) k p False by (simp add: bents_Suc bucket_entry_def)
    have "\<exists>hs. discard_loop (rev [n..<k']) ?h =
      Inr (?h\<lparr>nNumOfElements := length (bents (arData ?h) n), arHash := hs\<rparr>) \<and>
      chains_ok (arData ?h) (nTableMask ?h) hs n \<and> length hs = length (arHash ?h)"
      by (rule Suc.hyps(1) [OF k(3,2) _ _ _ _ num]) (use Suc.prems(2,3,4) k(1) pop(2) [OF False] in simp_all)
    then show ?thesis unfolding step by auto
  qed
qed

lemma discard_spec:
  assumes inv: "ht_inv ht" "\<not> f_packed ht" and n: "n \<le> nNumUsed ht"
  obtains ht' where "zend_hash_discard ht n = Inr ht'" "ht_inv ht'" "\<not> f_packed ht'"
    "nNumUsed ht' = n" "elems ht' = entries (entry_at ht) n"
    "ht_addr ht' = ht_addr ht" "pDestructor ht' = pDestructor ht"
    "nNextFreeElement ht' = nNextFreeElement ht"
proof (cases "f_uninit ht")
  case True
  then have "nNumUsed ht = 0" using inv by (simp add: ht_inv_def uninit_ok_def)
  then have n0: "n = 0" and h: "ht\<lparr>nNumUsed := n\<rparr> = ht" using n by simp_all
  have "zend_hash_discard ht n = Inr ht" using inv h n0 \<open>nNumUsed ht = 0\<close> by (simp add: zend_hash_discard_def)
  then show thesis using that inv n0 \<open>nNumUsed ht = 0\<close> by (simp add: elems_def)
next
  case False
  have mix: "mixed_ok ht" and sz: "size_ok (nTableSize ht)"
    using inv False by (simp_all add: inv_mixed inv_size)
  note m = mixed_okD [OF mix]
  let ?h = "ht\<lparr>nNumUsed := n\<rparr>"
  have num: "nNumOfElements ?h = length (bents (arData ?h) (nNumUsed ht))"
    using inv by (simp add: ht_inv_def elems_mixed)
  have "\<exists>hs. discard_loop (rev [n..<nNumUsed ht]) ?h =
      Inr (?h\<lparr>nNumOfElements := length (bents (arData ?h) n), arHash := hs\<rparr>) \<and>
      chains_ok (arData ?h) (nTableMask ?h) hs n \<and> length hs = length (arHash ?h)"
    by (rule discard_loop_ok [OF n _ _ _ _ num, where st = "f_static_keys ht"])
      (use m mixed_slot [OF mix sz] in simp_all)
  then obtain hs where d: "discard_loop (rev [n..<nNumUsed ht]) ?h =
      Inr (?h\<lparr>nNumOfElements := length (bents (arData ht) n), arHash := hs\<rparr>)"
    "chains_ok (arData ht) (nTableMask ht) hs n" "length hs = length (arHash ht)"
    by auto
  define h where "h = ?h\<lparr>nNumOfElements := length (bents (arData ht) n), arHash := hs\<rparr>"
  have e: "elems h = bents (arData ht) n" using inv by (simp add: elems_mixed h_def)
  have split: "\<exists>ys. elems ht = elems h @ ys"
  proof -
    have "\<exists>ys. bents d (n + j) = bents d n @ ys" for j d
      by (induction j) (auto simp: bents_Suc split: option.splits)
    from this [of "arData ht" "nNumUsed ht - n"] show ?thesis using n inv e by (simp add: elems_mixed)
  qed
  have "mixed_ok h" using d m n by (simp add: mixed_ok_def h_def)
  moreover have "distinct (map fst (elems h))" "next_free_ok h"
    using split inv(1) by (auto simp: ht_inv_def next_free_ok_def h_def)
  ultimately have "ht_inv h" using sz inv(2) False e by (simp add: ht_inv_def) (simp add: h_def)
  moreover have "elems h = entries (entry_at ht) n"
    using e inv(2) by (simp add: bents_def entry_at_def [abs_def])
  moreover have "zend_hash_discard ht n = Inr h"
    using d(1) inv by (simp add: zend_hash_discard_def h_def)
  ultimately show thesis using that inv(2) by (simp add: h_def)
qed

lemma mask_nonzero:
  assumes "0 < n" "n \<le> HT_MAX_SIZE"
  shows "HT_SIZE_TO_MASK n \<noteq> 0"
proof
  assume "HT_SIZE_TO_MASK n = 0"
  then have "(of_nat (2 * n) :: 32 word) = 0" by (simp add: HT_SIZE_TO_MASK_def)
  then have "unat (of_nat (2 * n) :: 32 word) = 0" by simp
  then show False using assms of_nat_unat_id [of "2 * n"] by (simp add: HT_MAX_SIZE_def)
qed

lemma real_init_packed:
  assumes "ht_inv ht" "f_uninit ht" "\<not> f_packed ht"
  shows "ht_inv (zend_hash_real_init_packed_ex ht)" "elems (zend_hash_real_init_packed_ex ht) = elems ht"
    "f_packed (zend_hash_real_init_packed_ex ht)" "nNumUsed (zend_hash_real_init_packed_ex ht) = 0"
proof -
  have u: "nNumUsed ht = 0" "nTableMask ht = HT_MIN_MASK" "nNumOfElements ht = 0"
    using assms by (simp_all add: ht_inv_def uninit_ok_def elems_def)
  show "elems (zend_hash_real_init_packed_ex ht) = elems ht" "f_packed (zend_hash_real_init_packed_ex ht)"
    "nNumUsed (zend_hash_real_init_packed_ex ht) = 0"
    using u by (simp_all add: zend_hash_real_init_packed_ex_def HT_HASH_RESET_PACKED_def elems_def)
  show "ht_inv (zend_hash_real_init_packed_ex ht)"
    using u assms(1) by (simp add: zend_hash_real_init_packed_ex_def HT_HASH_RESET_PACKED_def elems_def
        ht_inv_def packed_ok_def next_free_ok_def)
qed

text \<open>\<open>zend_hash_extend\<close>: room for at least \<open>nSize\<close> entries, the same entries.\<close>

lemma extend_spec:
  assumes inv: "ht_inv ht" and n: "0 < nSize" "nSize \<le> HT_MAX_SIZE"
    and pk: "f_uninit ht \<and> \<not> f_packed ht \<or> f_packed ht = packed"
  obtains ht' eg' where "zend_hash_extend ht nSize packed eg = Inr (ht', eg')" "eg_same eg eg'"
    "ht_inv ht'" "elems ht' = elems ht" "nSize \<le> nTableSize ht'" "f_packed ht' = packed" "\<not> f_uninit ht'"
proof -
  note mk = mask_nonzero [OF n]
  note sz = inv_size [OF inv]
  obtain k where k: "zend_hash_check_size nSize = Inr (2 ^ k)" "3 \<le> k" "k \<le> 30" "nSize \<le> 2 ^ k"
    using check_size_cases [OF n(2)] by metis
  have szk: "size_ok (2 ^ k)" using k by (intro size_okI)
  consider (uninit) "f_uninit ht" "\<not> f_packed ht" | (packed) "f_packed ht" "packed" "\<not> f_uninit ht"
    | (mixed) "\<not> f_packed ht" "\<not> packed" "\<not> f_uninit ht"
    using pk inv by (auto simp: ht_inv_def packed_ok_def split: if_splits)
  then show thesis
  proof cases
    case uninit
    define h where "h = (if nSize > nTableSize ht then ht\<lparr>nTableSize := 2 ^ k\<rparr> else ht)"
    have h: "ht_inv h" "f_uninit h" "\<not> f_packed h" "elems h = elems ht" "nSize \<le> nTableSize h"
      using inv uninit k szk
      by (auto simp: h_def ht_inv_def uninit_ok_def elems_def next_free_ok_def)
    have step: "zend_hash_extend ht nSize packed eg =
        bindE (zend_hash_real_init h packed) (\<lambda>ht. Inr (ht, eg))"
      using uninit n mk k(1) by (simp add: zend_hash_extend_def h_def)
    show thesis
    proof (cases packed)
      case True
      note r = real_init_packed [OF h(1-3)]
      have "zend_hash_extend ht nSize packed eg = Inr (zend_hash_real_init_packed_ex h, eg)"
        using step True h(2) by (simp add: zend_hash_real_init_def zend_hash_real_init_ex_def)
      then show thesis
        using that [OF _ eg_same_refl r(1)] r True h(4,5)
        by (simp add: zend_hash_real_init_packed_ex_def HT_HASH_RESET_PACKED_def)
    next
      case False
      obtain ht' where r: "zend_hash_real_init_mixed_ex h = Inr ht'" "ht_inv ht'" "mixed_ok ht'"
        "\<not> f_packed ht'" "\<not> f_uninit ht'" "nNumUsed ht' = 0" "elems ht' = []" "elems h = []"
        "nNumOfElements ht' = 0" "nTableSize ht' = nTableSize h"
        using real_init_mixed [OF h(1-3)] by metis
      have "zend_hash_extend ht nSize packed eg = Inr (ht', eg)"
        using step False h(2) r(1) by (simp add: zend_hash_real_init_def zend_hash_real_init_ex_def)
      then show thesis using that [OF _ eg_same_refl r(2)] r h(4,5) False by simp
    qed
  next
    case packed
    show thesis
    proof (cases "nSize > nTableSize ht")
      case True
      let ?h = "ht\<lparr>arPacked := realloc_used (2 ^ k) (nNumUsed ht) (arPacked ht), nTableSize := 2 ^ k\<rparr>"
      have pok: "packed_ok ht" using inv packed by (simp add: inv_packed)
      then have len: "nNumUsed ht \<le> length (arPacked ht)" "nNumUsed ht \<le> 2 ^ k"
        using True k by (simp_all add: packed_ok_def)
      have at: "entry_at ?h i = entry_at ht i" if "i < nNumUsed ht" for i
        using that len by (simp add: entry_at_def realloc_used_nth)
      have e: "elems ?h = elems ht" using at by (auto simp: elems_def intro!: entries_cong)
      have "packed_ok ?h"
        using pok len by (simp add: packed_ok_def realloc_used_length realloc_used_nth)
      then have "ht_inv ?h" using inv packed e szk by (simp add: ht_inv_def next_free_ok_def)
      moreover have "zend_hash_extend ht nSize packed eg = Inr (?h, eg)"
        using packed n mk k(1) True by (simp add: zend_hash_extend_def)
      ultimately show thesis using that [of ?h eg] e packed k by simp
    next
      case False
      then have "zend_hash_extend ht nSize packed eg = Inr (ht, eg)"
        using packed n mk by (simp add: zend_hash_extend_def)
      then show thesis using that [of ht eg] inv packed False by simp
    qed
  next
    case mixed
    show thesis
    proof (cases "nSize > nTableSize ht")
      case True
      define h where "h = ht\<lparr>nTableSize := 2 ^ k, nTableMask := HT_SIZE_TO_MASK (2 ^ k),
          arData := realloc_used (2 ^ k) (nNumUsed ht) (arData ht)\<rparr>"
      have "nTableSize ht \<le> 2 ^ k" using True k by simp
      note g = rehashable_grown [OF rehashable_inv [OF inv mixed(1,3)] szk this h_def]
      obtain ht' eg' where r: "zend_hash_rehash h eg = Inr (ht', eg')" "eg_same eg eg'" "ht_inv ht'"
        "elems ht' = elems h" "\<not> f_packed ht'" "\<not> f_uninit ht'" "nTableSize ht' = nTableSize h"
        using rehash_spec [OF g(1)] by metis
      have "zend_hash_extend ht nSize packed eg = Inr (ht', eg')"
        using mixed n mk k(1) True r(1) by (simp add: zend_hash_extend_def h_def)
      then show thesis using that r g(2,5) k mixed by simp
    next
      case False
      then have "zend_hash_extend ht nSize packed eg = Inr (ht, eg)"
        using mixed n mk by (simp add: zend_hash_extend_def)
      then show thesis using that [of ht eg] inv mixed False by simp
    qed
  qed
qed

end
