(* ===== verification/HashUpdate.thy ===== *)
theory HashUpdate
  imports HashConvert
begin

text \<open>
  Insertion and replacement under string keys: \<open>_zend_hash_add_or_update_i\<close>,
  \<open>_zend_hash_str_add_or_update_i\<close> and the public functions built on them.
\<close>

subsection \<open>Flags, stores, new entries\<close>

definition HASH_UPDATE :: "32 word" where "HASH_UPDATE = 1"
definition HASH_ADD :: "32 word" where "HASH_ADD = 2"
definition HASH_UPDATE_INDIRECT :: "32 word" where "HASH_UPDATE_INDIRECT = 4"
definition HASH_ADD_NEW :: "32 word" where "HASH_ADD_NEW = 8"
definition HASH_ADD_NEXT :: "32 word" where "HASH_ADD_NEXT = 16"
definition HASH_LOOKUP :: "32 word" where "HASH_LOOKUP = 32"

lemmas flag_defs = HASH_UPDATE_def HASH_ADD_def HASH_UPDATE_INDIRECT_def HASH_ADD_NEW_def
  HASH_ADD_NEXT_def HASH_LOOKUP_def

definition has_flag :: "32 word \<Rightarrow> 32 word \<Rightarrow> bool" where
  "has_flag flag b \<longleftrightarrow> flag AND b \<noteq> 0"

text \<open>\<open>ZVAL_COPY_VALUE\<close> to a location; \<open>u2.next\<close> of a bucket's value stays.\<close>

definition zval_store :: "HashTable \<Rightarrow> executor_globals \<Rightarrow> zloc \<Rightarrow> zval
    \<Rightarrow> error + (HashTable \<times> executor_globals)" where
  "zval_store ht eg l v =
     (case l of
        LBucket i \<Rightarrow>
          bindE (rd (arData ht) i) (\<lambda>p.
          bindE (wr (arData ht) i (p\<lparr>b_val := v\<rparr>)) (\<lambda>d. Inr (ht\<lparr>arData := d\<rparr>, eg)))
      | LPacked i \<Rightarrow> bindE (wr (arPacked ht) i v) (\<lambda>pk. Inr (ht\<lparr>arPacked := pk\<rparr>, eg))
      | LIndirect a \<Rightarrow> Inr (ht, eg\<lparr>indirect := (indirect eg)(a := v)\<rparr>))"

text \<open>
  \<open>if (ht->pDestructor) ht->pDestructor(data); ZVAL_COPY_VALUE(data, pData); return data;\<close>
\<close>

definition replace_data :: "HashTable \<Rightarrow> executor_globals \<Rightarrow> zloc \<Rightarrow> zval
    \<Rightarrow> error + (HashTable \<times> executor_globals \<times> zloc option)" where
  "replace_data ht eg data pData =
     bindE (zval_store ht (dtor_call ht (zloc_val ht eg data) eg) data pData) (\<lambda>(ht, eg).
       Inr (ht, eg, Some data))"

text \<open>
  The part the three insertions share: take the next place, put the bucket there
  and enter it at the head of its chain.
\<close>

definition append_bucket :: "HashTable \<Rightarrow> 64 word \<Rightarrow> zend_string option \<Rightarrow> zval
    \<Rightarrow> error + (HashTable \<times> nat)" where
  "append_bucket ht h key v =
     (let idx = nNumUsed ht; s = slot (nTableMask ht) h in
      bindE (rdi (arHash ht) s) (\<lambda>nxt.
      bindE (wr (arData ht) idx \<lparr>b_val = v, b_next = nxt, b_h = h, b_key = key\<rparr>) (\<lambda>d.
      bindE (wri (arHash ht) s idx) (\<lambda>hs.
        Inr (ht\<lparr>nNumUsed := idx + 1, nNumOfElements := nNumOfElements ht + 1,
                arData := d, arHash := hs\<rparr>, idx)))))"

definition add_string_entry :: "HashTable \<Rightarrow> executor_globals \<Rightarrow> zend_string \<Rightarrow> zval
    \<Rightarrow> error + (HashTable \<times> executor_globals \<times> zloc option)" where
  "add_string_entry ht eg key v =
     (let (ht, eg) = (if \<not> zs_interned key
                      then (ht\<lparr>f_static_keys := False\<rparr>, emit (EvStrAddref key) eg) else (ht, eg))
      in bindE (append_bucket ht (zs_h key) (Some key) v) (\<lambda>(ht, idx).
           Inr (ht, eg, Some (LBucket idx))))"

text \<open>What is done with the bucket at \<open>i\<close> that already has the key.\<close>

definition update_found :: "HashTable \<Rightarrow> executor_globals \<Rightarrow> nat \<Rightarrow> zval \<Rightarrow> 32 word
    \<Rightarrow> error + (HashTable \<times> executor_globals \<times> zloc option)" where
  "update_found ht eg i pData flag =
     bindE (rd (arData ht) i) (\<lambda>p.
       if has_flag flag HASH_LOOKUP then Inr (ht, eg, Some (LBucket i))
       else if has_flag flag HASH_ADD then
         (if \<not> has_flag flag HASH_UPDATE_INDIRECT then Inr (ht, eg, None)
          else case b_val p of
                 IS_INDIRECT a \<Rightarrow>
                   if indirect eg a \<noteq> IS_UNDEF then Inr (ht, eg, None)
                   else replace_data ht eg (LIndirect a) pData
               | _ \<Rightarrow> Inr (ht, eg, None))
       else replace_data ht eg
              (case b_val p of
                 IS_INDIRECT a \<Rightarrow> if has_flag flag HASH_UPDATE_INDIRECT then LIndirect a else LBucket i
               | _ \<Rightarrow> LBucket i) pData)"

subsection \<open>The operations\<close>

definition zend_hash_add_or_update_i ::
  "HashTable \<Rightarrow> zend_string \<Rightarrow> zval \<Rightarrow> 32 word \<Rightarrow> executor_globals
    \<Rightarrow> error + (HashTable \<times> executor_globals \<times> zloc option)" where
  "zend_hash_add_or_update_i ht key pData flag eg =
     (let key = zend_string_hash_val key;
          v = (if has_flag flag HASH_LOOKUP then IS_NULL else pData);
          resize_add = (\<lambda>ht eg. bindE (if_full_do_resize ht eg) (\<lambda>(ht, eg). add_string_entry ht eg key v))
      in if f_uninit ht \<or> f_packed ht then
           (if f_uninit ht
            then bindE (zend_hash_real_init_mixed ht) (\<lambda>ht. add_string_entry ht eg key v)
            else bindE (zend_hash_packed_to_hash ht eg) (\<lambda>(ht, eg). resize_add ht eg))
         else if \<not> has_flag flag HASH_ADD_NEW then
           bindE (zend_hash_find_bucket ht key) (\<lambda>p.
             case p of Some i \<Rightarrow> update_found ht eg i pData flag
             | None \<Rightarrow> resize_add ht eg)
         else resize_add ht eg)"

text \<open>The variant for a C string makes the key itself: it is not shared, so it has no \<open>addref\<close>.\<close>

definition add_cstr_entry :: "HashTable \<Rightarrow> executor_globals \<Rightarrow> 8 word list \<Rightarrow> 64 word \<Rightarrow> zval
    \<Rightarrow> error + (HashTable \<times> executor_globals \<times> zloc option)" where
  "add_cstr_entry ht eg str h v =
     (let key = (zend_string_init str)\<lparr>zs_h := h\<rparr> in
      bindE (append_bucket (ht\<lparr>f_static_keys := False\<rparr>) h (Some key) v) (\<lambda>(ht, idx).
        Inr (ht, eg, Some (LBucket idx))))"

definition zend_hash_str_add_or_update_i ::
  "HashTable \<Rightarrow> 8 word list \<Rightarrow> 64 word \<Rightarrow> zval \<Rightarrow> 32 word \<Rightarrow> executor_globals
    \<Rightarrow> error + (HashTable \<times> executor_globals \<times> zloc option)" where
  "zend_hash_str_add_or_update_i ht str h pData flag eg =
     (let v = (if has_flag flag HASH_LOOKUP then IS_NULL else pData);
          resize_add = (\<lambda>ht eg. bindE (if_full_do_resize ht eg) (\<lambda>(ht, eg). add_cstr_entry ht eg str h v))
      in if f_uninit ht \<or> f_packed ht then
           (if f_uninit ht
            then bindE (zend_hash_real_init_mixed ht) (\<lambda>ht. add_cstr_entry ht eg str h v)
            else bindE (zend_hash_packed_to_hash ht eg) (\<lambda>(ht, eg). resize_add ht eg))
         else if \<not> has_flag flag HASH_ADD_NEW then
           bindE (zend_hash_str_find_bucket ht str h) (\<lambda>p.
             case p of Some i \<Rightarrow> update_found ht eg i pData flag
             | None \<Rightarrow> resize_add ht eg)
         else resize_add ht eg)"

definition zend_hash_add :: "HashTable \<Rightarrow> zend_string \<Rightarrow> zval \<Rightarrow> executor_globals
    \<Rightarrow> error + (HashTable \<times> executor_globals \<times> zloc option)" where
  "zend_hash_add ht key pData eg = zend_hash_add_or_update_i ht key pData HASH_ADD eg"

definition zend_hash_update :: "HashTable \<Rightarrow> zend_string \<Rightarrow> zval \<Rightarrow> executor_globals
    \<Rightarrow> error + (HashTable \<times> executor_globals \<times> zloc option)" where
  "zend_hash_update ht key pData eg = zend_hash_add_or_update_i ht key pData HASH_UPDATE eg"

definition zend_hash_update_ind :: "HashTable \<Rightarrow> zend_string \<Rightarrow> zval \<Rightarrow> executor_globals
    \<Rightarrow> error + (HashTable \<times> executor_globals \<times> zloc option)" where
  "zend_hash_update_ind ht key pData eg =
     zend_hash_add_or_update_i ht key pData (HASH_UPDATE OR HASH_UPDATE_INDIRECT) eg"

definition zend_hash_add_new :: "HashTable \<Rightarrow> zend_string \<Rightarrow> zval \<Rightarrow> executor_globals
    \<Rightarrow> error + (HashTable \<times> executor_globals \<times> zloc option)" where
  "zend_hash_add_new ht key pData eg = zend_hash_add_or_update_i ht key pData HASH_ADD_NEW eg"

text \<open>\<open>pData\<close> is \<open>NULL\<close> in the C call; it is not read.\<close>

definition zend_hash_lookup :: "HashTable \<Rightarrow> zend_string \<Rightarrow> executor_globals
    \<Rightarrow> error + (HashTable \<times> executor_globals \<times> zloc option)" where
  "zend_hash_lookup ht key eg = zend_hash_add_or_update_i ht key IS_UNDEF HASH_LOOKUP eg"

definition zend_hash_add_or_update :: "HashTable \<Rightarrow> zend_string \<Rightarrow> zval \<Rightarrow> 32 word \<Rightarrow> executor_globals
    \<Rightarrow> error + (HashTable \<times> executor_globals \<times> zloc option)" where
  "zend_hash_add_or_update ht key pData flag eg =
     (if flag = HASH_ADD then zend_hash_add ht key pData eg
      else if flag = HASH_ADD_NEW then zend_hash_add_new ht key pData eg
      else if flag = HASH_UPDATE then zend_hash_update ht key pData eg
      else assertE (flag = HASH_UPDATE OR HASH_UPDATE_INDIRECT) (\<lambda>_. zend_hash_update_ind ht key pData eg))"

definition zend_hash_str_update :: "HashTable \<Rightarrow> 8 word list \<Rightarrow> zval \<Rightarrow> executor_globals
    \<Rightarrow> error + (HashTable \<times> executor_globals \<times> zloc option)" where
  "zend_hash_str_update ht str pData eg =
     zend_hash_str_add_or_update_i ht str (zend_hash_func str) pData HASH_UPDATE eg"

definition zend_hash_str_update_ind :: "HashTable \<Rightarrow> 8 word list \<Rightarrow> zval \<Rightarrow> executor_globals
    \<Rightarrow> error + (HashTable \<times> executor_globals \<times> zloc option)" where
  "zend_hash_str_update_ind ht str pData eg =
     zend_hash_str_add_or_update_i ht str (zend_hash_func str) pData (HASH_UPDATE OR HASH_UPDATE_INDIRECT) eg"

definition zend_hash_str_add :: "HashTable \<Rightarrow> 8 word list \<Rightarrow> zval \<Rightarrow> executor_globals
    \<Rightarrow> error + (HashTable \<times> executor_globals \<times> zloc option)" where
  "zend_hash_str_add ht str pData eg =
     zend_hash_str_add_or_update_i ht str (zend_hash_func str) pData HASH_ADD eg"

definition zend_hash_str_add_new :: "HashTable \<Rightarrow> 8 word list \<Rightarrow> zval \<Rightarrow> executor_globals
    \<Rightarrow> error + (HashTable \<times> executor_globals \<times> zloc option)" where
  "zend_hash_str_add_new ht str pData eg =
     zend_hash_str_add_or_update_i ht str (zend_hash_func str) pData HASH_ADD_NEW eg"

definition zend_hash_str_add_or_update :: "HashTable \<Rightarrow> 8 word list \<Rightarrow> zval \<Rightarrow> 32 word
    \<Rightarrow> executor_globals \<Rightarrow> error + (HashTable \<times> executor_globals \<times> zloc option)" where
  "zend_hash_str_add_or_update ht str pData flag eg =
     (if flag = HASH_ADD then zend_hash_str_add ht str pData eg
      else if flag = HASH_ADD_NEW then zend_hash_str_add_new ht str pData eg
      else if flag = HASH_UPDATE then zend_hash_str_update ht str pData eg
      else assertE (flag = HASH_UPDATE OR HASH_UPDATE_INDIRECT) (\<lambda>_. zend_hash_str_update_ind ht str pData eg))"

definition zend_hash_add_empty_element :: "HashTable \<Rightarrow> zend_string \<Rightarrow> executor_globals
    \<Rightarrow> error + (HashTable \<times> executor_globals \<times> zloc option)" where
  "zend_hash_add_empty_element ht key eg = zend_hash_add ht key IS_NULL eg"

definition zend_hash_str_add_empty_element :: "HashTable \<Rightarrow> 8 word list \<Rightarrow> executor_globals
    \<Rightarrow> error + (HashTable \<times> executor_globals \<times> zloc option)" where
  "zend_hash_str_add_empty_element ht str eg = zend_hash_str_add ht str IS_NULL eg"

subsection \<open>Appending an entry\<close>

lemma inv_unset_static:
  assumes "ht_inv ht"
  shows "ht_inv (ht\<lparr>f_static_keys := False\<rparr>)" "elems (ht\<lparr>f_static_keys := False\<rparr>) = elems ht"
proof -
  let ?h = "ht\<lparr>f_static_keys := False\<rparr>"
  have ent: "entry_at ?h = entry_at ht" by (rule ext) (simp add: entry_at_def)
  show e: "elems ?h = elems ht" by (simp add: elems_def ent)
  have weak: "bucket_ok s c \<Longrightarrow> bucket_ok False c" for s c
    by (auto simp: bucket_ok_def split: option.splits if_splits)
  have "mixed_ok ?h" if m: "mixed_ok ht"
    using mixed_okD(1-4,6) [OF m] weak [OF mixed_okD(5) [OF m]] by (simp add: mixed_ok_def)
  moreover have "packed_ok ?h = packed_ok ht" "uninit_ok ?h = uninit_ok ht"
    by (simp_all add: packed_ok_def uninit_ok_def)
  ultimately show "ht_inv ?h" using assms e by (auto simp: ht_inv_def next_free_ok_def)
qed

text \<open>The key \<open>append_bucket\<close> enters, and when it may.\<close>

definition new_key :: "64 word \<Rightarrow> zend_string option \<Rightarrow> hkey" where
  "new_key h key = (case key of None \<Rightarrow> KNum h | Some k \<Rightarrow> KStr (zs_val k))"

definition appendable :: "HashTable \<Rightarrow> 64 word \<Rightarrow> zend_string option \<Rightarrow> bool" where
  "appendable ht h key \<longleftrightarrow>
     (case key of None \<Rightarrow> key_below (nNextFreeElement ht) (KNum h)
      | Some k \<Rightarrow> zs_h k = h \<and> h = zend_hash_func (zs_val k) \<and> (f_static_keys ht \<longrightarrow> zs_interned k))"

lemma append_bucket_spec:
  assumes inv: "ht_inv ht" "\<not> f_packed ht" "\<not> f_uninit ht" and room: "nNumUsed ht < nTableSize ht"
    and v: "v \<noteq> IS_UNDEF" and key: "appendable ht h key" and fresh: "map_of (elems ht) (new_key h key) = None"
  obtains ht' where "append_bucket ht h key v = Inr (ht', nNumUsed ht)" "ht_inv ht'"
    "elems ht' = elems ht @ [(new_key h key, v)]" "\<not> f_packed ht'" "\<not> f_uninit ht'"
    "zloc_val ht' eg (LBucket (nNumUsed ht)) = v"
    "ht_addr ht' = ht_addr ht" "pDestructor ht' = pDestructor ht"
    "nNextFreeElement ht' = nNextFreeElement ht" "f_empty_ind ht' = f_empty_ind ht"
    "nIteratorsCount ht' = nIteratorsCount ht"
proof -
  have mix: "mixed_ok ht" and sz: "size_ok (nTableSize ht)" using inv by (simp_all add: inv_mixed inv_size)
  note m = mixed_okD [OF mix]
  let ?n = "nNumUsed ht" and ?s = "slot (nTableMask ht) h"
  let ?p = "\<lparr>b_val = v, b_next = arHash ht ! ?s, b_h = h, b_key = key\<rparr>"
  have s: "?s < length (arHash ht)" using mix sz by simp
  have n: "?n < length (arData ht)" using room m(3) by simp
  define h' where "h' = ht\<lparr>nNumUsed := ?n + 1, nNumOfElements := nNumOfElements ht + 1,
      arData := (arData ht)[?n := Some ?p], arHash := (arHash ht)[?s := ?n]\<rparr>"
  have r: "append_bucket ht h key v = Inr (h', ?n)"
    using s n by (simp add: append_bucket_def h'_def Let_def)
  have bk: "bucket_key ?p = new_key h key" by (simp add: bucket_key_def new_key_def cong: option.case_cong)
  have e: "elems h' = elems ht @ [(new_key h key, v)]"
    using inv n v bk by (simp add: elems_mixed h'_def bents_Suc bucket_entry_def)
  have ok: "bucket_ok (f_static_keys ht) (Some ?p)"
    using key v by (auto simp: appendable_def bucket_ok_def split: option.splits)
  have cells: "bucket_ok (f_static_keys ht) ((arData ht)[?n := Some ?p] ! i)" if "i < Suc ?n" for i
    using m(5) [of i] ok n that by (cases "i = ?n") auto
  have "chains_ok ((arData ht)[?n := Some ?p]) (nTableMask ht) ((arHash ht)[?s := ?n]) (Suc ?n)"
    using chains_ok_append [OF m(6) n, of ?p] s v by simp
  then have mix': "mixed_ok h'"
    using m(1-4) room cells by (simp add: mixed_ok_def h'_def)
  have below: "key_below (nNextFreeElement ht) (new_key h key)"
    using key by (auto simp: appendable_def new_key_def key_below_def split: option.splits)
  have d: "new_key h key \<notin> fst ` set (elems ht)" using fresh by (simp add: map_of_eq_None_iff)
  have "ht_inv h'"
    using mix' inv(1) e below d by (simp add: ht_inv_def next_free_ok_def) (simp add: h'_def inv(2,3))
  then show thesis
    using that [OF r _ e] inv n by (simp add: h'_def zloc_val_def)
qed

subsection \<open>Replacing a value\<close>

lemma elems_store:
  assumes "distinct (map fst (elems ht))" "i < nNumUsed ht" "entry_at ht i = Some (k, old)"
    "nNumUsed ht' = nNumUsed ht" "\<And>j. j < nNumUsed ht \<Longrightarrow> j \<noteq> i \<Longrightarrow> entry_at ht' j = entry_at ht j"
    "entry_at ht' i = Some (k, v)"
  shows "elems ht' = AList.update k v (elems ht)"
  unfolding elems_def assms(4)
  using assms by (intro entries_update [of "entry_at ht" i k old]) (simp_all add: elems_def)

lemma next_free_update:
  assumes "next_free_ok ht" "k \<in> fst ` set (elems ht)" "elems ht' = AList.update k v (elems ht)"
    "nNextFreeElement ht' = nNextFreeElement ht"
  shows "next_free_ok ht'"
proof -
  have "fst ` set (AList.update k v (elems ht)) = fst ` set (elems ht)"
    using assms(2) by (simp add: dom_update insert_absorb)
  then have "\<forall>x\<in>fst ` set (elems ht'). key_below (nNextFreeElement ht) x"
    using assms(1,3) by (simp add: next_free_ok_def)
  then show ?thesis using assms(1,4) by (simp add: next_free_ok_def)
qed

lemma entry_key_mem: "i < nNumUsed ht \<Longrightarrow> entry_at ht i = Some (k, v) \<Longrightarrow> k \<in> fst ` set (elems ht)"
  by (force simp: elems_def set_entries)

lemma inv_update:
  assumes "ht_inv ht" "k \<in> fst ` set (elems ht)" "elems ht' = AList.update k v (elems ht)"
    "nNextFreeElement ht' = nNextFreeElement ht" "nNumOfElements ht' = nNumOfElements ht"
    "size_ok (nTableSize ht')"
    "if f_packed ht' then packed_ok ht' else if f_uninit ht' then uninit_ok ht' else mixed_ok ht'"
  shows "ht_inv ht'"
proof -
  have "length (AList.update k v xs) = length xs" if "k \<in> fst ` set xs" for xs :: "(hkey \<times> zval) list"
    using that by (induction xs) auto
  then show ?thesis
    using assms next_free_update [of ht k ht' v] by (simp add: ht_inv_def distinct_update)
qed

lemma store_bucket_spec:
  assumes inv: "ht_inv ht" "\<not> f_packed ht" "\<not> f_uninit ht" and i: "i < nNumUsed ht"
    and k: "entry_at ht i = Some (k, old)" and v: "v \<noteq> IS_UNDEF"
  obtains ht' where "zval_store ht eg (LBucket i) v = Inr (ht', eg)" "ht_inv ht'"
    "elems ht' = AList.update k v (elems ht)" "\<not> f_packed ht'" "\<not> f_uninit ht'"
    "zloc_val ht' eg (LBucket i) = v" "table_frame ht ht'" "nNumUsed ht' = nNumUsed ht"
proof -
  have mix: "mixed_ok ht" using inv by (simp add: inv_mixed)
  note m = mixed_okD [OF mix]
  obtain p where p: "arData ht ! i = Some p" "b_val p \<noteq> IS_UNDEF" "bucket_key p = k" "b_val p = old"
    using k inv(2) by (auto simp: entry_at_def bucket_entry_def split: option.splits if_splits)
  let ?p = "p\<lparr>b_val := v\<rparr>"
  have il: "i < length (arData ht)" using i m by simp
  define h where "h = ht\<lparr>arData := (arData ht)[i := Some ?p]\<rparr>"
  have r: "zval_store ht eg (LBucket i) v = Inr (h, eg)"
    using p il by (simp add: zval_store_def h_def)
  have kp: "bucket_key ?p = k" using p(3) by (simp add: bucket_key_def cong: option.case_cong)
  have ei: "entry_at h i = Some (k, v)"
    using inv(2) il v kp by (simp add: h_def entry_at_def bucket_entry_def)
  have ej: "entry_at h j = entry_at ht j" if "j \<noteq> i" for j
    using inv(2) that by (simp add: h_def entry_at_def)
  have e: "elems h = AList.update k v (elems ht)"
    by (rule elems_store [OF inv_distinct [OF inv(1)] i k]) (use ei ej in \<open>simp_all add: h_def\<close>)
  have "bucket_ok (f_static_keys ht) ((arData ht)[i := Some ?p] ! j)" if "j < nNumUsed ht" for j
    using m(5) [OF that] p v il by (cases "j = i") (simp_all add: bucket_ok_def cong: option.case_cong)
  then have "mixed_ok h"
    using m chains_ok_value [OF m(6) il p(1,2) v] by (simp add: mixed_ok_def h_def)
  then have "ht_inv h"
    using inv entry_key_mem [OF i k] e by (intro inv_update [OF inv(1)]) (simp_all add: h_def inv_size)
  then show thesis
    using that [OF r _ e] inv il by (simp add: h_def zloc_val_def table_frame_def)
qed

lemma store_packed_spec:
  assumes inv: "ht_inv ht" "f_packed ht" and i: "i < nNumUsed ht"
    and k: "entry_at ht i = Some (k, old)" and v: "v \<noteq> IS_UNDEF"
  obtains ht' where "zval_store ht eg (LPacked i) v = Inr (ht', eg)" "ht_inv ht'"
    "elems ht' = AList.update k v (elems ht)" "f_packed ht'"
    "zloc_val ht' eg (LPacked i) = v" "table_frame ht ht'" "nNumUsed ht' = nNumUsed ht"
proof -
  have pk: "packed_ok ht" using inv by (simp add: inv_packed)
  then have il: "i < length (arPacked ht)" using i by (simp add: packed_ok_def)
  have kk: "k = KNum (of_nat i)"
    using k inv(2) by (auto simp: entry_at_def packed_entry_def split: option.splits if_splits)
  define h where "h = ht\<lparr>arPacked := (arPacked ht)[i := Some v]\<rparr>"
  have r: "zval_store ht eg (LPacked i) v = Inr (h, eg)"
    using il by (simp add: zval_store_def h_def)
  have ei: "entry_at h i = Some (k, v)"
    using inv(2) il v kk by (simp add: h_def entry_at_def packed_entry_def)
  have ej: "entry_at h j = entry_at ht j" if "j \<noteq> i" for j
    using inv(2) that by (simp add: h_def entry_at_def)
  have e: "elems h = AList.update k v (elems ht)"
    by (rule elems_store [OF inv_distinct [OF inv(1)] i k]) (use ei ej in \<open>simp_all add: h_def\<close>)
  have "packed_ok h" using pk il by (simp add: packed_ok_def h_def nth_list_update)
  then have "ht_inv h"
    using inv entry_key_mem [OF i k] e by (intro inv_update [OF inv(1)]) (simp_all add: h_def inv_size)
  then show thesis
    using that [OF r _ e] inv il by (simp add: h_def zloc_val_def table_frame_def)
qed

subsection \<open>Outcomes\<close>

text \<open>
  \<open>no_room\<close>: the table is at its maximal size and has too few holes for a
  compaction. \<open>inserted\<close>: the entry is new and last, or the process ends for want of
  room. \<open>replaced\<close>: the entry keeps its place and its old value is destroyed.
\<close>

definition no_room :: "HashTable \<Rightarrow> bool" where
  "no_room ht \<longleftrightarrow> HT_MAX_SIZE \<le> length (elems ht) + length (elems ht) div 2 ^ 5"

definition inserted :: "HashTable \<Rightarrow> executor_globals \<Rightarrow> hkey \<Rightarrow> zval \<Rightarrow> event list
    \<Rightarrow> error + (HashTable \<times> executor_globals \<times> zloc option) \<Rightarrow> bool" where
  "inserted ht eg k v evs r \<longleftrightarrow>
     (case r of
        Inl e \<Rightarrow> e = FatalOverflow \<and> no_room ht
      | Inr (ht', eg', l) \<Rightarrow>
          ht_inv ht' \<and> elems ht' = elems ht @ [(k, v)] \<and>
          l \<noteq> None \<and> zloc_val ht' eg' (the l) = v \<and>
          events eg' = events eg @ evs \<and> indirect eg' = indirect eg \<and>
          ht_addr ht' = ht_addr ht \<and> pDestructor ht' = pDestructor ht)"

definition dtor_events :: "HashTable \<Rightarrow> zval \<Rightarrow> event list" where
  "dtor_events ht v = (if pDestructor ht \<noteq> DTOR_NULL then [EvDtor v] else [])"

definition replaced :: "HashTable \<Rightarrow> executor_globals \<Rightarrow> hkey \<Rightarrow> zval \<Rightarrow> zval
    \<Rightarrow> error + (HashTable \<times> executor_globals \<times> zloc option) \<Rightarrow> bool" where
  "replaced ht eg k old v r \<longleftrightarrow>
     (\<exists>ht' l. r = Inr (ht', eg\<lparr>events := events eg @ dtor_events ht old\<rparr>, Some l) \<and>
        ht_inv ht' \<and> elems ht' = AList.update k v (elems ht) \<and> zloc_val ht' eg l = v \<and>
        table_frame ht ht')"

lemma dtor_call_events: "dtor_call ht v eg = eg\<lparr>events := events eg @ dtor_events ht v\<rparr>"
  by (simp add: dtor_call_def dtor_events_def emit_def)

lemma zloc_val_events [simp]: "zloc_val ht (eg\<lparr>events := e\<rparr>) l = zloc_val ht eg l"
  by (simp add: zloc_val_def split: zloc.splits)

subsection \<open>The contract of a string key\<close>

text \<open>
  The two insertions differ in how the key is given. \<open>insert_scheme\<close> is their
  common course; the locale says what it needs: a search that finds the bucket of
  the key, and a step that enters a new bucket when there is room.
\<close>

definition insert_scheme ::
  "(HashTable \<Rightarrow> error + nat option)
    \<Rightarrow> (HashTable \<Rightarrow> executor_globals \<Rightarrow> error + (HashTable \<times> executor_globals \<times> zloc option))
    \<Rightarrow> HashTable \<Rightarrow> zval \<Rightarrow> 32 word \<Rightarrow> executor_globals
    \<Rightarrow> error + (HashTable \<times> executor_globals \<times> zloc option)" where
  "insert_scheme lookup add ht pData flag eg =
     (if f_uninit ht \<or> f_packed ht then
        (if f_uninit ht
         then bindE (zend_hash_real_init_mixed ht) (\<lambda>ht. add ht eg)
         else bindE (zend_hash_packed_to_hash ht eg) (\<lambda>(ht, eg).
              bindE (if_full_do_resize ht eg) (\<lambda>(ht, eg). add ht eg)))
      else if \<not> has_flag flag HASH_ADD_NEW then
        bindE (lookup ht) (\<lambda>p.
          case p of Some i \<Rightarrow> update_found ht eg i pData flag
          | None \<Rightarrow> bindE (if_full_do_resize ht eg) (\<lambda>(ht, eg). add ht eg))
      else bindE (if_full_do_resize ht eg) (\<lambda>(ht, eg). add ht eg))"

locale string_keys =
  fixes valid :: "'k \<Rightarrow> bool" and str_of :: "'k \<Rightarrow> 8 word list"
    and lookup :: "'k \<Rightarrow> HashTable \<Rightarrow> error + nat option"
    and add :: "'k \<Rightarrow> zval \<Rightarrow> HashTable \<Rightarrow> executor_globals
      \<Rightarrow> error + (HashTable \<times> executor_globals \<times> zloc option)"
    and evs :: "'k \<Rightarrow> event list"
  assumes lookup_present: "valid key \<Longrightarrow> ht_inv ht \<Longrightarrow> \<not> f_packed ht \<Longrightarrow>
      map_of (elems ht) (KStr (str_of key)) = Some w \<Longrightarrow>
      \<exists>i<nNumUsed ht. lookup key ht = Inr (Some i) \<and> entry_at ht i = Some (KStr (str_of key), w)"
    and lookup_absent: "valid key \<Longrightarrow> ht_inv ht \<Longrightarrow> \<not> f_packed ht \<Longrightarrow>
      map_of (elems ht) (KStr (str_of key)) = None \<Longrightarrow> lookup key ht = Inr None"
    and add_new: "valid key \<Longrightarrow> ht_inv ht \<Longrightarrow> \<not> f_packed ht \<Longrightarrow> \<not> f_uninit ht \<Longrightarrow>
      nNumUsed ht < nTableSize ht \<Longrightarrow> v \<noteq> IS_UNDEF \<Longrightarrow>
      map_of (elems ht) (KStr (str_of key)) = None \<Longrightarrow>
      inserted ht eg (KStr (str_of key)) v (evs key) (add key v ht eg)"
begin

text \<open>An insertion into a copy with the same entries is one into the table itself.\<close>

lemma inserted_via:
  assumes "inserted ht' eg' k v ev r" "elems ht' = elems ht" "ht_addr ht' = ht_addr ht"
    "pDestructor ht' = pDestructor ht" "eg_same eg eg'"
  shows "inserted ht eg k v ev r"
  using assms eg_same_fields [OF assms(5)]
  by (auto simp: inserted_def no_room_def split: sum.splits)

lemma resize_add:
  assumes "valid key" "ht_inv ht" "\<not> f_packed ht" "\<not> f_uninit ht" "v \<noteq> IS_UNDEF"
    "map_of (elems ht) (KStr (str_of key)) = None"
  shows "inserted ht eg (KStr (str_of key)) v (evs key)
    (bindE (if_full_do_resize ht eg) (\<lambda>(ht, eg). add key v ht eg))"
  using assms(2-4)
proof (cases rule: if_full_spec [where eg = eg])
  case fatal
  then show ?thesis using assms(2) by (simp add: inserted_def no_room_def ht_inv_def)
next
  case (ok ht' eg')
  have "inserted ht' eg' (KStr (str_of key)) v (evs key) (add key v ht' eg')"
    using ok assms by (intro add_new) simp_all
  then have "inserted ht eg (KStr (str_of key)) v (evs key) (add key v ht' eg')"
    by (rule inserted_via) (use ok in \<open>simp_all add: table_frame_def\<close>)
  then show ?thesis using ok(1) by simp
qed

lemma insert_absent:
  assumes "valid key" "ht_inv ht" "v \<noteq> IS_UNDEF" "map_of (elems ht) (KStr (str_of key)) = None"
  shows "inserted ht eg (KStr (str_of key)) v (evs key)
    (insert_scheme (lookup key) (add key v) ht pData flag eg)"
proof -
  consider "f_uninit ht" "\<not> f_packed ht" | "f_packed ht" "\<not> f_uninit ht" | "\<not> f_uninit ht" "\<not> f_packed ht"
    using assms(2) by (cases "f_packed ht"; cases "f_uninit ht") (auto simp: ht_inv_def packed_ok_def)
  then show ?thesis
  proof cases
    case 1
    obtain h where h: "zend_hash_real_init_mixed_ex ht = Inr h" "ht_inv h" "mixed_ok h"
      "\<not> f_packed h" "\<not> f_uninit h" "nNumUsed h = 0" "elems h = []" "elems ht = []"
      "nNumOfElements h = 0" "nTableSize h = nTableSize ht" "f_static_keys h"
      "nNextFreeElement h = nNextFreeElement ht" "pDestructor h = pDestructor ht"
      "ht_addr h = ht_addr ht"
      using real_init_mixed [OF assms(2) 1] by metis
    have "0 < nTableSize h" using size_ok_bounds [OF inv_size [OF h(2)]] by simp
    then have "inserted h eg (KStr (str_of key)) v (evs key) (add key v h eg)"
      using assms h by (intro add_new) simp_all
    then have "inserted ht eg (KStr (str_of key)) v (evs key) (add key v h eg)"
      by (rule inserted_via) (use h in simp_all)
    then show ?thesis using 1 h(1) by (simp add: insert_scheme_def zend_hash_real_init_mixed_def)
  next
    case 2
    obtain h eg' where h: "zend_hash_packed_to_hash ht eg = Inr (h, eg')" "eg_same eg eg'" "ht_inv h"
      "elems h = elems ht" "table_frame ht h" "\<not> f_packed h" "\<not> f_uninit h"
      using packed_to_hash_spec [OF unpackable_inv [OF assms(2) 2(1)]] by metis
    have "inserted h eg' (KStr (str_of key)) v (evs key)
        (bindE (if_full_do_resize h eg') (\<lambda>(ht, eg). add key v ht eg))"
      using assms h by (intro resize_add) simp_all
    then have "inserted ht eg (KStr (str_of key)) v (evs key)
        (bindE (if_full_do_resize h eg') (\<lambda>(ht, eg). add key v ht eg))"
      by (rule inserted_via) (use h in \<open>simp_all add: table_frame_def\<close>)
    then show ?thesis using 2 h(1) by (simp add: insert_scheme_def)
  next
    case 3
    have "lookup key ht = Inr None" using assms 3 by (intro lookup_absent) simp_all
    then show ?thesis using 3 resize_add [OF assms(1,2) 3(2,1) assms(3,4)]
      by (simp add: insert_scheme_def)
  qed
qed

lemma insert_present:
  assumes "valid key" "ht_inv ht" "map_of (elems ht) (KStr (str_of key)) = Some w"
    "\<not> has_flag flag HASH_ADD_NEW"
  shows "\<exists>i. i < nNumUsed ht \<and> entry_at ht i = Some (KStr (str_of key), w) \<and> \<not> f_packed ht \<and> \<not> f_uninit ht \<and>
    (\<forall>add' pData eg. insert_scheme (lookup key) add' ht pData flag eg = update_found ht eg i pData flag)"
proof -
  have np: "\<not> f_packed ht" using packed_no_str [OF assms(2)] assms(3) by auto
  have nu: "\<not> f_uninit ht"
  proof
    assume "f_uninit ht"
    then have "elems ht = []" using np assms(2) by (simp add: ht_inv_def uninit_ok_def elems_def)
    then show False using assms(3) by simp
  qed
  obtain i where "i < nNumUsed ht" "lookup key ht = Inr (Some i)" "entry_at ht i = Some (KStr (str_of key), w)"
    using lookup_present [OF assms(1,2) np assms(3)] by blast
  then show ?thesis using np nu assms(4) by (intro exI [of _ i]) (simp add: insert_scheme_def)
qed

end

subsection \<open>Both kinds of string keys meet the contract\<close>

definition hashed :: "zend_string \<Rightarrow> bool" where
  "hashed key \<longleftrightarrow> zs_h key = zend_hash_func (zs_val key)"

definition key_events :: "zend_string \<Rightarrow> event list" where
  "key_events key = (if zs_interned key then [] else [EvStrAddref key])"

lemma hashed_val: "str_ok key \<Longrightarrow> hashed (zend_string_hash_val key)"
  by (simp add: hashed_def hash_val_h)

lemma add_string_entry_spec:
  assumes "hashed key" "ht_inv ht" "\<not> f_packed ht" "\<not> f_uninit ht" "nNumUsed ht < nTableSize ht"
    "v \<noteq> IS_UNDEF" "map_of (elems ht) (KStr (zs_val key)) = None"
  shows "inserted ht eg (KStr (zs_val key)) v (key_events key) (add_string_entry ht eg key v)"
proof -
  define h where "h = (if \<not> zs_interned key then ht\<lparr>f_static_keys := False\<rparr> else ht)"
  have h: "ht_inv h" "elems h = elems ht" "\<not> f_packed h" "\<not> f_uninit h" "nNumUsed h < nTableSize h"
    "ht_addr h = ht_addr ht" "pDestructor h = pDestructor ht"
    using inv_unset_static [OF assms(2)] assms by (simp_all add: h_def)
  have "appendable h (zs_h key) (Some key)"
    using assms(1) by (simp add: appendable_def hashed_def h_def)
  moreover have "map_of (elems h) (new_key (zs_h key) (Some key)) = None"
    using assms(7) h(2) by (simp add: new_key_def)
  ultimately obtain ht' where "append_bucket h (zs_h key) (Some key) v = Inr (ht', nNumUsed h)" "ht_inv ht'"
    "elems ht' = elems h @ [(new_key (zs_h key) (Some key), v)]"
    "zloc_val ht' eg (LBucket (nNumUsed h)) = v" "ht_addr ht' = ht_addr h" "pDestructor ht' = pDestructor h"
    using append_bucket_spec [OF h(1,3,4,5) assms(6)] by metis
  moreover define eg' where "eg' = (if \<not> zs_interned key then emit (EvStrAddref key) eg else eg)"
  then have "add_string_entry ht eg key v =
      bindE (append_bucket h (zs_h key) (Some key) v) (\<lambda>(ht, idx). Inr (ht, eg', Some (LBucket idx)))"
    "events eg' = events eg @ key_events key" "indirect eg' = indirect eg"
    by (simp_all add: add_string_entry_def h_def key_events_def emit_def)
  ultimately show ?thesis using h by (simp add: inserted_def new_key_def zloc_val_def)
qed

interpretation zstr: string_keys hashed zs_val "\<lambda>key ht. zend_hash_find_bucket ht key"
  "\<lambda>key v ht eg. add_string_entry ht eg key v" key_events
proof
  fix key ht w
  assume a: "hashed key" "ht_inv ht" "\<not> f_packed ht" "map_of (elems ht) (KStr (zs_val key)) = Some w"
  have t: "key_test (str_match key) (zs_h key) (KStr (zs_val key))"
    using a(1) by (intro str_match_test) (simp add: hashed_def)
  from a(2,3) t show "\<exists>i<nNumUsed ht. zend_hash_find_bucket ht key = Inr (Some i) \<and>
      entry_at ht i = Some (KStr (zs_val key), w)"
    by (cases rule: find_in_slot_map_of)
      (use a in \<open>auto simp: zend_hash_find_bucket_def hashed_def hash_func_nonzero\<close>)
next
  fix key ht
  assume a: "hashed key" "ht_inv ht" "\<not> f_packed ht" "map_of (elems ht) (KStr (zs_val key)) = None"
  have t: "key_test (str_match key) (zs_h key) (KStr (zs_val key))"
    using a(1) by (intro str_match_test) (simp add: hashed_def)
  from a(2,3) t show "zend_hash_find_bucket ht key = Inr None"
    by (cases rule: find_in_slot_map_of)
      (use a in \<open>auto simp: zend_hash_find_bucket_def hashed_def hash_func_nonzero\<close>)
qed (rule add_string_entry_spec)

definition cstr_hashed :: "8 word list \<times> 64 word \<Rightarrow> bool" where
  "cstr_hashed key \<longleftrightarrow> snd key = zend_hash_func (fst key)"

lemma add_cstr_entry_spec:
  assumes "cstr_hashed key" "ht_inv ht" "\<not> f_packed ht" "\<not> f_uninit ht" "nNumUsed ht < nTableSize ht"
    "v \<noteq> IS_UNDEF" "map_of (elems ht) (KStr (fst key)) = None"
  shows "inserted ht eg (KStr (fst key)) v [] (add_cstr_entry ht eg (fst key) (snd key) v)"
proof -
  let ?k = "(zend_string_init (fst key))\<lparr>zs_h := snd key\<rparr>"
  define h where "h = ht\<lparr>f_static_keys := False\<rparr>"
  have h: "ht_inv h" "elems h = elems ht" "\<not> f_packed h" "\<not> f_uninit h" "nNumUsed h < nTableSize h"
    "ht_addr h = ht_addr ht" "pDestructor h = pDestructor ht"
    using inv_unset_static [OF assms(2)] assms by (simp_all add: h_def)
  have "appendable h (snd key) (Some ?k)"
    using assms(1) by (simp add: appendable_def cstr_hashed_def h_def zend_string_init_def)
  moreover have "map_of (elems h) (new_key (snd key) (Some ?k)) = None"
    using assms(7) h(2) by (simp add: new_key_def zend_string_init_def)
  ultimately obtain ht' where "append_bucket h (snd key) (Some ?k) v = Inr (ht', nNumUsed h)" "ht_inv ht'"
    "elems ht' = elems h @ [(new_key (snd key) (Some ?k), v)]"
    "zloc_val ht' eg (LBucket (nNumUsed h)) = v" "ht_addr ht' = ht_addr h" "pDestructor ht' = pDestructor h"
    using append_bucket_spec [OF h(1,3,4,5) assms(6)] by metis
  then show ?thesis using h
    by (simp add: add_cstr_entry_def h_def [symmetric] inserted_def new_key_def)
      (simp add: zend_string_init_def)
qed

interpretation cstr: string_keys cstr_hashed fst "\<lambda>key ht. zend_hash_str_find_bucket ht (fst key) (snd key)"
  "\<lambda>key v ht eg. add_cstr_entry ht eg (fst key) (snd key) v" "\<lambda>key. []"
proof
  fix key :: "8 word list \<times> 64 word" and ht w
  assume a: "cstr_hashed key" "ht_inv ht" "\<not> f_packed ht" "map_of (elems ht) (KStr (fst key)) = Some w"
  have t: "key_test (cstr_match (fst key) (snd key)) (snd key) (KStr (fst key))"
    using a(1) by (intro cstr_match_test) (simp add: cstr_hashed_def)
  from a(2,3) t show "\<exists>i<nNumUsed ht. zend_hash_str_find_bucket ht (fst key) (snd key) = Inr (Some i) \<and>
      entry_at ht i = Some (KStr (fst key), w)"
    by (cases rule: find_in_slot_map_of) (use a in \<open>auto simp: zend_hash_str_find_bucket_def\<close>)
next
  fix key :: "8 word list \<times> 64 word" and ht
  assume a: "cstr_hashed key" "ht_inv ht" "\<not> f_packed ht" "map_of (elems ht) (KStr (fst key)) = None"
  have t: "key_test (cstr_match (fst key) (snd key)) (snd key) (KStr (fst key))"
    using a(1) by (intro cstr_match_test) (simp add: cstr_hashed_def)
  from a(2,3) t show "zend_hash_str_find_bucket ht (fst key) (snd key) = Inr None"
    by (cases rule: find_in_slot_map_of) (use a in \<open>auto simp: zend_hash_str_find_bucket_def\<close>)
qed (rule add_cstr_entry_spec)

lemma add_or_update_scheme:
  "zend_hash_add_or_update_i ht key pData flag eg =
     (let key = zend_string_hash_val key in
      insert_scheme (\<lambda>ht. zend_hash_find_bucket ht key)
        (\<lambda>ht eg. add_string_entry ht eg key (if has_flag flag HASH_LOOKUP then IS_NULL else pData))
        ht pData flag eg)"
  by (simp add: zend_hash_add_or_update_i_def insert_scheme_def Let_def)

lemma str_add_or_update_scheme:
  "zend_hash_str_add_or_update_i ht str h pData flag eg =
     insert_scheme (\<lambda>ht. zend_hash_str_find_bucket ht str h)
        (\<lambda>ht eg. add_cstr_entry ht eg str h (if has_flag flag HASH_LOOKUP then IS_NULL else pData))
        ht pData flag eg"
  by (simp add: zend_hash_str_add_or_update_i_def insert_scheme_def Let_def)

subsection \<open>What each flag does with a present key\<close>

lemma has_flag_simps [simp]:
  "\<not> has_flag HASH_UPDATE HASH_ADD_NEW" "\<not> has_flag HASH_UPDATE HASH_LOOKUP" "\<not> has_flag HASH_UPDATE HASH_ADD"
  "\<not> has_flag HASH_UPDATE HASH_UPDATE_INDIRECT"
  "\<not> has_flag HASH_ADD HASH_ADD_NEW" "\<not> has_flag HASH_ADD HASH_LOOKUP" "has_flag HASH_ADD HASH_ADD"
  "\<not> has_flag HASH_ADD HASH_UPDATE_INDIRECT"
  "\<not> has_flag HASH_LOOKUP HASH_ADD_NEW" "has_flag HASH_LOOKUP HASH_LOOKUP"
  "has_flag HASH_ADD_NEW HASH_ADD_NEW" "\<not> has_flag HASH_ADD_NEW HASH_LOOKUP"
  "\<not> has_flag (HASH_UPDATE OR HASH_UPDATE_INDIRECT) HASH_ADD_NEW"
  "\<not> has_flag (HASH_UPDATE OR HASH_UPDATE_INDIRECT) HASH_LOOKUP"
  "\<not> has_flag (HASH_UPDATE OR HASH_UPDATE_INDIRECT) HASH_ADD"
  "has_flag (HASH_UPDATE OR HASH_UPDATE_INDIRECT) HASH_UPDATE_INDIRECT"
  "\<not> has_flag (HASH_ADD OR HASH_UPDATE_INDIRECT) HASH_ADD_NEW"
  "\<not> has_flag (HASH_ADD OR HASH_UPDATE_INDIRECT) HASH_LOOKUP"
  "has_flag (HASH_ADD OR HASH_UPDATE_INDIRECT) HASH_ADD"
  "has_flag (HASH_ADD OR HASH_UPDATE_INDIRECT) HASH_UPDATE_INDIRECT"
  by (simp_all add: has_flag_def flag_defs)

lemma mixed_entry:
  assumes "entry_at ht i = Some (k, w)" "\<not> f_packed ht" "i < nNumUsed ht" "ht_inv ht" "\<not> f_uninit ht"
  obtains p where "rd (arData ht) i = Inr p" "b_val p = w" "arData ht ! i = Some p" "w \<noteq> IS_UNDEF"
proof -
  have "nNumUsed ht \<le> length (arData ht)"
    using mixed_okD(3,4) [OF inv_mixed] assms by simp
  then show thesis
    using assms(1,2,3) that by (auto simp: entry_at_def bucket_entry_def split: option.splits if_splits)
qed

lemma replace_bucket:
  assumes "ht_inv ht" "\<not> f_packed ht" "\<not> f_uninit ht" "i < nNumUsed ht" "entry_at ht i = Some (k, w)"
    "v \<noteq> IS_UNDEF"
  shows "replaced ht eg k w v (replace_data ht eg (LBucket i) v)"
proof -
  obtain p where p: "arData ht ! i = Some p" "b_val p = w" by (rule mixed_entry [OF assms(5,2,4,1,3)])
  then have val: "zloc_val ht eg (LBucket i) = w" by (simp add: zloc_val_def)
  obtain ht' where h: "zval_store ht (dtor_call ht w eg) (LBucket i) v = Inr (ht', dtor_call ht w eg)" "ht_inv ht'"
    "elems ht' = AList.update k v (elems ht)" "zloc_val ht' (dtor_call ht w eg) (LBucket i) = v"
    "table_frame ht ht'"
    using store_bucket_spec [OF assms(1-6), of "dtor_call ht w eg"] by metis
  then show ?thesis using val by (simp add: replace_data_def replaced_def dtor_call_events)
qed

definition indirect_stored :: "HashTable \<Rightarrow> executor_globals \<Rightarrow> nat \<Rightarrow> zval
    \<Rightarrow> error + (HashTable \<times> executor_globals \<times> zloc option)" where
  "indirect_stored ht eg a v =
     Inr (ht, eg\<lparr>indirect := (indirect eg)(a := v), events := events eg @ dtor_events ht (indirect eg a)\<rparr>,
          Some (LIndirect a))"

lemma replace_indirect: "replace_data ht eg (LIndirect a) v = indirect_stored ht eg a v"
  by (simp add: replace_data_def zval_store_def zloc_val_def dtor_call_events indirect_stored_def)

text \<open>The effect of an insertion with each flag on a present key with value \<open>w\<close>.\<close>

definition present_effect :: "32 word \<Rightarrow> HashTable \<Rightarrow> executor_globals \<Rightarrow> hkey \<Rightarrow> zval \<Rightarrow> zval
    \<Rightarrow> error + (HashTable \<times> executor_globals \<times> zloc option) \<Rightarrow> bool" where
  "present_effect flag ht eg k w v r \<longleftrightarrow>
     (if has_flag flag HASH_LOOKUP then \<exists>l. r = Inr (ht, eg, Some l) \<and> zloc_val ht eg l = w
      else case w of
        IS_INDIRECT a \<Rightarrow>
          if \<not> has_flag flag HASH_UPDATE_INDIRECT
          then (if has_flag flag HASH_ADD then r = Inr (ht, eg, None) else replaced ht eg k w v r)
          else if has_flag flag HASH_ADD \<and> indirect eg a \<noteq> IS_UNDEF then r = Inr (ht, eg, None)
          else r = indirect_stored ht eg a v
      | _ \<Rightarrow> if has_flag flag HASH_ADD then r = Inr (ht, eg, None) else replaced ht eg k w v r)"

lemma update_found_spec:
  assumes "ht_inv ht" "\<not> f_packed ht" "\<not> f_uninit ht" "i < nNumUsed ht" "entry_at ht i = Some (k, w)"
    "has_flag flag HASH_LOOKUP \<or> v \<noteq> IS_UNDEF"
  shows "present_effect flag ht eg k w v (update_found ht eg i v flag)"
proof -
  obtain p where p: "rd (arData ht) i = Inr p" "b_val p = w" "arData ht ! i = Some p"
    by (rule mixed_entry [OF assms(5,2,4,1,3)])
  have l: "zloc_val ht eg (LBucket i) = w" using p by (simp add: zloc_val_def)
  show ?thesis
  proof (cases "has_flag flag HASH_LOOKUP")
    case True
    then show ?thesis using p l by (auto simp: present_effect_def update_found_def)
  next
    case False
    then have v: "v \<noteq> IS_UNDEF" using assms(6) by simp
    note rb = replace_bucket [OF assms(1-5) v, of eg]
    show ?thesis using False p rb
      by (cases w) (simp_all add: present_effect_def update_found_def replace_indirect)
  qed
qed

subsection \<open>The public insertions\<close>

text \<open>
  For each: with the key present, the effect of its flag; with the key absent, a new
  last entry. \<open>HASH_ADD_NEW\<close> relies on the caller for the absence.
\<close>

lemma add_or_update_present:
  assumes "ht_inv ht" "str_ok key" "map_of (elems ht) (KStr (zs_val key)) = Some w"
    "\<not> has_flag flag HASH_ADD_NEW" "has_flag flag HASH_LOOKUP \<or> v \<noteq> IS_UNDEF"
  shows "present_effect flag ht eg (KStr (zs_val key)) w v (zend_hash_add_or_update_i ht key v flag eg)"
proof -
  let ?key = "zend_string_hash_val key"
  obtain i where i: "zend_hash_add_or_update_i ht key v flag eg = update_found ht eg i v flag"
    "i < nNumUsed ht" "entry_at ht i = Some (KStr (zs_val key), w)" "\<not> f_packed ht" "\<not> f_uninit ht"
    using zstr.insert_present [OF hashed_val [OF assms(2)] assms(1), of w flag] assms(3,4)
    by (auto simp: add_or_update_scheme Let_def)
  then show ?thesis using update_found_spec [OF assms(1) i(4,5,2,3) assms(5)] by simp
qed

lemma add_or_update_absent:
  assumes "ht_inv ht" "str_ok key" "map_of (elems ht) (KStr (zs_val key)) = None"
    "(if has_flag flag HASH_LOOKUP then IS_NULL else v) \<noteq> IS_UNDEF"
  shows "inserted ht eg (KStr (zs_val key)) (if has_flag flag HASH_LOOKUP then IS_NULL else v)
    (key_events (zend_string_hash_val key)) (zend_hash_add_or_update_i ht key v flag eg)"
  using zstr.insert_absent [OF hashed_val [OF assms(2)] assms(1,4)] assms(3)
  by (simp add: add_or_update_scheme Let_def)

lemma str_add_or_update_present:
  assumes "ht_inv ht" "h = zend_hash_func str" "map_of (elems ht) (KStr str) = Some w"
    "\<not> has_flag flag HASH_ADD_NEW" "has_flag flag HASH_LOOKUP \<or> v \<noteq> IS_UNDEF"
  shows "present_effect flag ht eg (KStr str) w v (zend_hash_str_add_or_update_i ht str h v flag eg)"
proof -
  have h: "cstr_hashed (str, h)" using assms(2) by (simp add: cstr_hashed_def)
  obtain i where i: "zend_hash_str_add_or_update_i ht str h v flag eg = update_found ht eg i v flag"
    "i < nNumUsed ht" "entry_at ht i = Some (KStr str, w)" "\<not> f_packed ht" "\<not> f_uninit ht"
    using cstr.insert_present [OF h assms(1), of w flag] assms(3,4)
    by (auto simp: str_add_or_update_scheme)
  then show ?thesis using update_found_spec [OF assms(1) i(4,5,2,3) assms(5)] by simp
qed

lemma str_add_or_update_absent:
  assumes "ht_inv ht" "h = zend_hash_func str" "map_of (elems ht) (KStr str) = None"
    "(if has_flag flag HASH_LOOKUP then IS_NULL else v) \<noteq> IS_UNDEF"
  shows "inserted ht eg (KStr str) (if has_flag flag HASH_LOOKUP then IS_NULL else v) []
    (zend_hash_str_add_or_update_i ht str h v flag eg)"
  using cstr.insert_absent [of "(str, h)", OF _ assms(1,4)] assms(2,3)
  by (simp add: str_add_or_update_scheme cstr_hashed_def)

lemmas string_insert_defs = zend_hash_add_def zend_hash_update_def zend_hash_update_ind_def
  zend_hash_add_new_def zend_hash_lookup_def zend_hash_str_update_def zend_hash_str_update_ind_def
  zend_hash_str_add_def zend_hash_str_add_new_def

end
