(* ===== verification/HashIndex.thy ===== *)
theory HashIndex
  imports HashUpdate
begin

text \<open>
  Insertion and replacement under integer keys: \<open>_zend_hash_index_add_or_update_i\<close>
  with its packed, growing, converting and mixed paths, and the public functions
  built on it.
\<close>

subsection \<open>The operation\<close>

text \<open>
  \<open>add_to_packed\<close> of the source: the cells between the used part and the new one
  are set to \<open>IS_UNDEF\<close>, unless both \<open>HASH_ADD_NEW\<close> and \<open>HASH_ADD_NEXT\<close> are set.
\<close>

fun fill_undef :: "nat list \<Rightarrow> zval option list \<Rightarrow> error + zval option list" where
  "fill_undef [] pk = Inr pk"
| "fill_undef (i # is) pk = bindE (wr pk i IS_UNDEF) (fill_undef is)"

definition new_next :: "32 word \<Rightarrow> bool" where
  "new_next flag \<longleftrightarrow> flag AND (HASH_ADD_NEW OR HASH_ADD_NEXT) = HASH_ADD_NEW OR HASH_ADD_NEXT"

definition add_to_packed :: "HashTable \<Rightarrow> executor_globals \<Rightarrow> 64 word \<Rightarrow> zval \<Rightarrow> 32 word
    \<Rightarrow> error + (HashTable \<times> executor_globals \<times> zloc option)" where
  "add_to_packed ht eg h v flag =
     bindE (if \<not> new_next flag \<and> unat h > nNumUsed ht
            then fill_undef [nNumUsed ht..<unat h] (arPacked ht) else Inr (arPacked ht)) (\<lambda>pk.
     let ht = ht\<lparr>nNumUsed := unat h + 1, nNextFreeElement := int (unat h + 1),
                 nNumOfElements := nNumOfElements ht + 1\<rparr>
     in bindE (wr pk (unat h) v) (\<lambda>pk. Inr (ht\<lparr>arPacked := pk\<rparr>, eg, Some (LPacked (unat h)))))"

text \<open>The end of the function, for a table of buckets with room.\<close>

definition add_index_entry :: "HashTable \<Rightarrow> executor_globals \<Rightarrow> 64 word \<Rightarrow> zval
    \<Rightarrow> error + (HashTable \<times> executor_globals \<times> zloc option)" where
  "add_index_entry ht eg h v =
     (let ht = (if sint h \<ge> nNextFreeElement ht
                then ht\<lparr>nNextFreeElement := (if sint h < ZEND_LONG_MAX then sint h + 1 else ZEND_LONG_MAX)\<rparr>
                else ht)
      in bindE (append_bucket ht h None v) (\<lambda>(ht, idx). Inr (ht, eg, Some (LBucket idx))))"

text \<open>The label \<open>replace\<close>.\<close>

definition index_replace :: "HashTable \<Rightarrow> executor_globals \<Rightarrow> zloc \<Rightarrow> zval \<Rightarrow> 32 word
    \<Rightarrow> error + (HashTable \<times> executor_globals \<times> zloc option)" where
  "index_replace ht eg l pData flag =
     (if has_flag flag HASH_ADD then Inr (ht, eg, None) else replace_data ht eg l pData)"

definition zend_hash_index_add_or_update_i ::
  "HashTable \<Rightarrow> 64 word \<Rightarrow> zval \<Rightarrow> 32 word \<Rightarrow> executor_globals
    \<Rightarrow> error + (HashTable \<times> executor_globals \<times> zloc option)" where
  "zend_hash_index_add_or_update_i ht h pData flag eg =
     (let h = (if has_flag flag HASH_ADD_NEXT \<and> h = word_of_int ZEND_LONG_MIN then 0 else h);
          v = (if has_flag flag HASH_LOOKUP then IS_NULL else pData);
          convert_to_hash = (\<lambda>ht eg. bindE (zend_hash_packed_to_hash ht eg) (\<lambda>(ht, eg).
                                        add_index_entry ht eg h v))
      in if f_packed ht then
           (if \<not> new_next flag \<and> unat h < nNumUsed ht then
              bindE (rd (arPacked ht) (unat h)) (\<lambda>zv.
                if zv \<noteq> IS_UNDEF then
                  (if has_flag flag HASH_LOOKUP then Inr (ht, eg, Some (LPacked (unat h)))
                   else index_replace ht eg (LPacked (unat h)) pData flag)
                else convert_to_hash ht eg)
            else if unat h < nTableSize ht then add_to_packed ht eg h v flag
            else if unat (drop_bit 1 h) < nTableSize ht \<and> nTableSize ht div 2 < nNumOfElements ht then
              bindE (zend_hash_packed_grow ht) (\<lambda>ht. add_to_packed ht eg h v flag)
            else
              convert_to_hash
                (if nNumUsed ht \<ge> nTableSize ht then ht\<lparr>nTableSize := nTableSize ht + nTableSize ht\<rparr> else ht)
                eg)
         else if f_uninit ht then
           (if unat h < nTableSize ht then add_to_packed (zend_hash_real_init_packed_ex ht) eg h v flag
            else bindE (zend_hash_real_init_mixed ht) (\<lambda>ht. add_index_entry ht eg h v))
         else
           bindE (if \<not> has_flag flag HASH_ADD_NEW then zend_hash_index_find_bucket ht h else Inr None) (\<lambda>p.
             case p of
               Some i \<Rightarrow>
                 if has_flag flag HASH_LOOKUP then Inr (ht, eg, Some (LBucket i))
                 else index_replace ht eg (LBucket i) pData flag
             | None \<Rightarrow> bindE (if_full_do_resize ht eg) (\<lambda>(ht, eg). add_index_entry ht eg h v)))"

definition zend_hash_index_add :: "HashTable \<Rightarrow> 64 word \<Rightarrow> zval \<Rightarrow> executor_globals
    \<Rightarrow> error + (HashTable \<times> executor_globals \<times> zloc option)" where
  "zend_hash_index_add ht h pData eg = zend_hash_index_add_or_update_i ht h pData HASH_ADD eg"

definition zend_hash_index_add_new :: "HashTable \<Rightarrow> 64 word \<Rightarrow> zval \<Rightarrow> executor_globals
    \<Rightarrow> error + (HashTable \<times> executor_globals \<times> zloc option)" where
  "zend_hash_index_add_new ht h pData eg =
     zend_hash_index_add_or_update_i ht h pData (HASH_ADD OR HASH_ADD_NEW) eg"

definition zend_hash_index_update :: "HashTable \<Rightarrow> 64 word \<Rightarrow> zval \<Rightarrow> executor_globals
    \<Rightarrow> error + (HashTable \<times> executor_globals \<times> zloc option)" where
  "zend_hash_index_update ht h pData eg = zend_hash_index_add_or_update_i ht h pData HASH_UPDATE eg"

definition zend_hash_next_index_insert :: "HashTable \<Rightarrow> zval \<Rightarrow> executor_globals
    \<Rightarrow> error + (HashTable \<times> executor_globals \<times> zloc option)" where
  "zend_hash_next_index_insert ht pData eg =
     zend_hash_index_add_or_update_i ht (word_of_int (nNextFreeElement ht)) pData (HASH_ADD OR HASH_ADD_NEXT) eg"

definition zend_hash_next_index_insert_new :: "HashTable \<Rightarrow> zval \<Rightarrow> executor_globals
    \<Rightarrow> error + (HashTable \<times> executor_globals \<times> zloc option)" where
  "zend_hash_next_index_insert_new ht pData eg =
     zend_hash_index_add_or_update_i ht (word_of_int (nNextFreeElement ht)) pData
       (HASH_ADD OR HASH_ADD_NEW OR HASH_ADD_NEXT) eg"

definition zend_hash_index_lookup :: "HashTable \<Rightarrow> 64 word \<Rightarrow> executor_globals
    \<Rightarrow> error + (HashTable \<times> executor_globals \<times> zloc option)" where
  "zend_hash_index_lookup ht h eg = zend_hash_index_add_or_update_i ht h IS_UNDEF HASH_LOOKUP eg"

definition zend_hash_index_add_empty_element :: "HashTable \<Rightarrow> 64 word \<Rightarrow> executor_globals
    \<Rightarrow> error + (HashTable \<times> executor_globals \<times> zloc option)" where
  "zend_hash_index_add_empty_element ht h eg = zend_hash_index_add ht h IS_NULL eg"

definition zend_hash_index_add_or_update :: "HashTable \<Rightarrow> 64 word \<Rightarrow> zval \<Rightarrow> 32 word
    \<Rightarrow> executor_globals \<Rightarrow> error + (HashTable \<times> executor_globals \<times> zloc option)" where
  "zend_hash_index_add_or_update ht h pData flag eg =
     (if flag = HASH_ADD then zend_hash_index_add ht h pData eg
      else if flag = (HASH_ADD OR HASH_ADD_NEW) then zend_hash_index_add_new ht h pData eg
      else if flag = (HASH_ADD OR HASH_ADD_NEXT) then
        assertE (h = word_of_int (nNextFreeElement ht)) (\<lambda>_. zend_hash_next_index_insert ht pData eg)
      else if flag = (HASH_ADD OR HASH_ADD_NEW OR HASH_ADD_NEXT) then
        assertE (h = word_of_int (nNextFreeElement ht)) (\<lambda>_. zend_hash_next_index_insert_new ht pData eg)
      else assertE (flag = HASH_UPDATE) (\<lambda>_. zend_hash_index_update ht h pData eg))"

subsection \<open>A new entry in a packed table\<close>

lemma fill_undef_ok:
  assumes "i \<le> n" "n \<le> length pk"
  shows "\<exists>pk'. fill_undef [i..<n] pk = Inr pk' \<and> length pk' = length pk \<and>
     (\<forall>k<i. pk' ! k = pk ! k) \<and> (\<forall>k. i \<le> k \<and> k < n \<longrightarrow> pk' ! k = Some IS_UNDEF)"
  using assms
proof (induction "n - i" arbitrary: i pk)
  case (Suc m)
  then have i: "i < n" "[i..<n] = i # [Suc i..<n]" "m = n - Suc i" by (auto simp: upt_conv_Cons)
  obtain d where d: "fill_undef [Suc i..<n] (pk[i := Some IS_UNDEF]) = Inr d" "length d = length pk"
    "\<forall>k<Suc i. d ! k = pk[i := Some IS_UNDEF] ! k" "\<forall>k. Suc i \<le> k \<and> k < n \<longrightarrow> d ! k = Some IS_UNDEF"
    using Suc.hyps(1) [OF i(3), of "pk[i := Some IS_UNDEF]"] Suc.prems i by auto
  have "fill_undef [i..<n] pk = Inr d" using d(1) i Suc.prems by simp
  moreover have "d ! k = Some IS_UNDEF" if "i \<le> k" "k < n" for k
    using d(3,4) that i Suc.prems(2) by (cases "k = i") auto
  ultimately show ?case using d by auto
qed auto

lemma add_to_packed_spec:
  assumes inv: "ht_inv ht" "f_packed ht" and h: "nNumUsed ht \<le> unat h" "unat h < nTableSize ht"
    and gap: "new_next flag \<longrightarrow> unat h = nNumUsed ht" and v: "v \<noteq> IS_UNDEF"
  obtains ht' where "add_to_packed ht eg h v flag = Inr (ht', eg, Some (LPacked (unat h)))" "ht_inv ht'"
    "elems ht' = elems ht @ [(KNum h, v)]" "f_packed ht'" "zloc_val ht' eg (LPacked (unat h)) = v"
    "nNextFreeElement ht' = int (unat h) + 1" "nNumUsed ht' = unat h + 1"
    "ht_addr ht' = ht_addr ht" "pDestructor ht' = pDestructor ht"
proof -
  have pk: "packed_ok ht" and sz: "size_ok (nTableSize ht)" using inv by (simp_all add: inv_packed inv_size)
  have len: "length (arPacked ht) = nTableSize ht" "nNumUsed ht \<le> nTableSize ht"
    "\<And>i. i < nNumUsed ht \<Longrightarrow> arPacked ht ! i \<noteq> None"
    using pk by (simp_all add: packed_ok_def)
  have fl: "\<exists>c. (if \<not> new_next flag \<and> unat h > nNumUsed ht
            then fill_undef [nNumUsed ht..<unat h] (arPacked ht) else Inr (arPacked ht)) = Inr c \<and>
      length c = nTableSize ht \<and> (\<forall>k<nNumUsed ht. c ! k = arPacked ht ! k) \<and>
      (\<forall>k. nNumUsed ht \<le> k \<and> k < unat h \<longrightarrow> c ! k = Some IS_UNDEF)"
  proof (cases "\<not> new_next flag \<and> unat h > nNumUsed ht")
    case True
    then show ?thesis using fill_undef_ok [OF h(1), of "arPacked ht"] h(2) len by auto
  next
    case False
    then have "unat h = nNumUsed ht" using gap h(1) by auto
    then show ?thesis using False len(1) by auto
  qed
  then obtain c where c: "(if \<not> new_next flag \<and> unat h > nNumUsed ht
            then fill_undef [nNumUsed ht..<unat h] (arPacked ht) else Inr (arPacked ht)) = Inr c"
    "length c = nTableSize ht" "\<And>k. k < nNumUsed ht \<Longrightarrow> c ! k = arPacked ht ! k"
    "\<And>k. nNumUsed ht \<le> k \<Longrightarrow> k < unat h \<Longrightarrow> c ! k = Some IS_UNDEF"
    by auto
  define h' where "h' = ht\<lparr>nNumUsed := unat h + 1, nNextFreeElement := int (unat h + 1),
      nNumOfElements := nNumOfElements ht + 1, arPacked := c[unat h := Some v]\<rparr>"
  have r: "add_to_packed ht eg h v flag = Inr (h', eg, Some (LPacked (unat h)))"
    using c(1,2) h(2) by (simp add: add_to_packed_def h'_def Let_def)
  have f: "f_packed h'" using inv by (simp add: h'_def)
  have low: "entry_at h' k = entry_at ht k" if "k < nNumUsed ht" for k
    using that c(3) h(1) inv(2) by (simp add: entry_at_def h'_def)
  have mid: "entry_at h' k = None" if "nNumUsed ht \<le> k" "k < unat h" for k
    using that c(4) inv(2) by (simp add: entry_at_def h'_def packed_entry_def)
  have top: "entry_at h' (unat h) = Some (KNum h, v)"
    using c(2) h(2) v inv(2) by (simp add: entry_at_def h'_def packed_entry_def)
  have "entries (entry_at h') (unat h) = entries (entry_at h') (nNumUsed ht)"
    using h(1) mid by (intro entries_trim) auto
  also have "\<dots> = entries (entry_at ht) (nNumUsed ht)" using low by (rule entries_cong)
  finally have "entries (entry_at h') (Suc (unat h)) = elems ht @ [(KNum h, v)]"
    by (simp add: top elems_def)
  then have e: "elems h' = elems ht @ [(KNum h, v)]" by (simp add: elems_def h'_def)
  have cells: "c[unat h := Some v] ! k \<noteq> None" if "k < Suc (unat h)" for k
  proof (cases "k = unat h")
    case False
    then show ?thesis using that c(3,4) [of k] len(3) [of k] by (cases "k < nNumUsed ht") auto
  qed (use c(2) h(2) in simp)
  have pok: "packed_ok h'" using pk c(2) h(2) cells by (simp add: packed_ok_def h'_def)
  have fresh: "KNum h \<notin> fst ` set (elems ht)"
  proof
    assume "KNum h \<in> fst ` set (elems ht)"
    then have "map_of (elems ht) (KNum h) \<noteq> None" by (simp add: map_of_eq_None_iff)
    then show False using h(1) packed_map_of [OF inv, of h] by (simp split: if_splits)
  qed
  have small: "unat h < 2 ^ 31" using h(2) size_ok_bounds [OF sz] by (simp add: HT_MAX_SIZE_def)
  have "key_below (int (unat h) + 1) k" if "k \<in> fst ` set (elems h')" for k
  proof -
    have "nNumUsed h' = Suc (unat h)" by (simp add: h'_def)
    with that obtain i w where i: "i < Suc (unat h)" "entry_at h' i = Some (k, w)"
      by (fastforce simp: elems_def set_entries simp del: entries.simps)
    then have "k = KNum (of_nat i)"
      using f by (auto simp: entry_at_def packed_entry_def split: option.splits if_splits)
    moreover have "sint (of_nat i :: 64 word) = int i"
      using i small by (simp add: signed_of_nat signed_take_bit_int_eq_self)
    moreover have "int i \<le> int (unat h)" using i(1) by linarith
    ultimately show ?thesis by (simp add: key_below_def)
  qed
  moreover have "nNextFreeElement h' = int (unat h) + 1" by (simp add: h'_def)
  moreover have "int (unat h) + 1 \<le> ZEND_LONG_MAX" "ZEND_LONG_MIN \<le> int (unat h) + 1"
  proof -
    define x where "x = int (unat h)"
    have "x < 2 ^ 31" unfolding x_def using small by (metis of_nat_less_iff of_nat_numeral of_nat_power)
    moreover have "0 \<le> x" unfolding x_def by (rule of_nat_0_le_iff)
    ultimately show "int (unat h) + 1 \<le> ZEND_LONG_MAX" "ZEND_LONG_MIN \<le> int (unat h) + 1"
      unfolding ZEND_LONG_MIN_def ZEND_LONG_MAX_def x_def [symmetric] by simp_all
  qed
  ultimately have "next_free_ok h'" unfolding next_free_ok_def by (metis imageI)
  then have "ht_inv h'"
    using inv(1) e f pok fresh by (simp add: ht_inv_def) (simp add: h'_def)
  then show thesis
    using that [OF r _ e f] c(2) h(2) by (simp add: h'_def zloc_val_def)
qed

subsection \<open>A new entry in a mixed table\<close>

lemma raise_next:
  assumes "ht_inv ht" "nNextFreeElement ht \<le> n" "n \<le> ZEND_LONG_MAX"
  shows "ht_inv (ht\<lparr>nNextFreeElement := n\<rparr>)" "elems (ht\<lparr>nNextFreeElement := n\<rparr>) = elems ht"
proof -
  let ?h = "ht\<lparr>nNextFreeElement := n\<rparr>"
  have ent: "entry_at ?h = entry_at ht" by (rule ext) (simp add: entry_at_def)
  show e: "elems ?h = elems ht" by (simp add: elems_def ent)
  have "key_below n k" if "key_below (nNextFreeElement ht) k" for k
    using that assms(2,3) by (auto simp: key_below_def split: hkey.splits)
  then have "next_free_ok ?h" using assms by (auto simp: ht_inv_def next_free_ok_def e)
  moreover have "packed_ok ?h = packed_ok ht" "uninit_ok ?h = uninit_ok ht" "mixed_ok ?h = mixed_ok ht"
    by (simp_all add: packed_ok_def uninit_ok_def mixed_ok_def)
  ultimately show "ht_inv ?h" using assms(1) by (simp add: ht_inv_def e)
qed

definition next_after :: "int \<Rightarrow> 64 word \<Rightarrow> int" where
  "next_after n h =
     (if sint h \<ge> n then (if sint h < ZEND_LONG_MAX then sint h + 1 else ZEND_LONG_MAX) else n)"

lemma sint_bounds: "ZEND_LONG_MIN \<le> sint (h :: 64 word)" "sint h \<le> ZEND_LONG_MAX"
  using sint_greater_eq [of h] sint_lt [of h] by (simp_all add: ZEND_LONG_MIN_def ZEND_LONG_MAX_def)

lemma add_index_entry_spec:
  assumes inv: "ht_inv ht" "\<not> f_packed ht" "\<not> f_uninit ht" and room: "nNumUsed ht < nTableSize ht"
    and v: "v \<noteq> IS_UNDEF" and fresh: "map_of (elems ht) (KNum h) = None"
  obtains ht' l where "add_index_entry ht eg h v = Inr (ht', eg, Some l)" "ht_inv ht'"
    "elems ht' = elems ht @ [(KNum h, v)]" "zloc_val ht' eg l = v"
    "nNextFreeElement ht' = next_after (nNextFreeElement ht) h" "\<not> f_packed ht'"
    "ht_addr ht' = ht_addr ht" "pDestructor ht' = pDestructor ht"
proof -
  define n where "n = next_after (nNextFreeElement ht) h"
  define g where "g = ht\<lparr>nNextFreeElement := n\<rparr>"
  have n: "nNextFreeElement ht \<le> n" "n \<le> ZEND_LONG_MAX"
    using inv(1) sint_bounds [of h] by (auto simp: n_def next_after_def ht_inv_def next_free_ok_def)
  have below: "key_below n (KNum h)"
    using sint_bounds [of h] by (auto simp: n_def next_after_def key_below_def)
  have g: "ht_inv g" "elems g = elems ht" "\<not> f_packed g" "\<not> f_uninit g" "nNumUsed g < nTableSize g"
    using raise_next [OF inv(1) n] inv room by (simp_all add: g_def)
  have ap: "appendable g h None" using below by (simp add: appendable_def g_def)
  have fr: "map_of (elems g) (new_key h None) = None" using fresh g by (simp add: new_key_def)
  obtain ht' where a: "append_bucket g h None v = Inr (ht', nNumUsed g)" "ht_inv ht'"
    "elems ht' = elems g @ [(new_key h None, v)]" "\<not> f_packed ht'"
    "zloc_val ht' eg (LBucket (nNumUsed g)) = v" "ht_addr ht' = ht_addr g" "pDestructor ht' = pDestructor g"
    "nNextFreeElement ht' = nNextFreeElement g"
    using append_bucket_spec [OF g(1,3,4,5) v ap fr] by metis
  have "g = (if sint h \<ge> nNextFreeElement ht
      then ht\<lparr>nNextFreeElement := (if sint h < ZEND_LONG_MAX then sint h + 1 else ZEND_LONG_MAX)\<rparr> else ht)"
    by (simp add: g_def n_def next_after_def)
  then have "add_index_entry ht eg h v = Inr (ht', eg, Some (LBucket (nNumUsed g)))"
    using a(1) by (simp add: add_index_entry_def Let_def)
  then show thesis
    using that [of ht' "LBucket (nNumUsed g)"] a g by (simp add: g_def n_def new_key_def)
qed

subsection \<open>Every path of the operation\<close>

text \<open>
  \<open>index_inserted\<close>: the new last entry. A packed table of the maximal size is the
  one case beyond \<open>no_room\<close> that fails: growing it is fatal, and converting it when it
  is full doubles \<open>nTableSize\<close> beyond \<open>HT_MAX_SIZE\<close>, so that the mask becomes 0.
  The next free index is exactly behind the new one in a packed table, and never
  decreases in a mixed one.
\<close>

definition index_inserted :: "HashTable \<Rightarrow> executor_globals \<Rightarrow> 64 word \<Rightarrow> zval
    \<Rightarrow> error + (HashTable \<times> executor_globals \<times> zloc option) \<Rightarrow> bool" where
  "index_inserted ht eg h v r \<longleftrightarrow>
     (case r of
        Inl e \<Rightarrow>
          e = FatalOverflow \<and> (no_room ht \<or> f_packed ht \<and> nTableSize ht = HT_MAX_SIZE) \<or>
          e = AssertFailed \<and> f_packed ht \<and> nTableSize ht = HT_MAX_SIZE \<and> nNumUsed ht = HT_MAX_SIZE
      | Inr (ht', eg', l) \<Rightarrow>
          ht_inv ht' \<and> elems ht' = elems ht @ [(KNum h, v)] \<and>
          l \<noteq> None \<and> zloc_val ht' eg' (the l) = v \<and> eg_same eg eg' \<and>
          ht_addr ht' = ht_addr ht \<and> pDestructor ht' = pDestructor ht \<and>
          nNextFreeElement ht' =
            (if f_packed ht' then uint h + 1 else next_after (nNextFreeElement ht) h))"

lemma packed_inserted:
  assumes "ht_inv ht" "f_packed ht" "nNumUsed ht \<le> unat h" "unat h < nTableSize ht"
    "new_next flag \<longrightarrow> unat h = nNumUsed ht" "v \<noteq> IS_UNDEF"
    "elems ht0 = elems ht" "ht_addr ht = ht_addr ht0" "pDestructor ht = pDestructor ht0"
  shows "index_inserted ht0 eg h v (add_to_packed ht eg h v flag)"
proof -
  obtain ht' where "add_to_packed ht eg h v flag = Inr (ht', eg, Some (LPacked (unat h)))" "ht_inv ht'"
    "elems ht' = elems ht @ [(KNum h, v)]" "f_packed ht'" "zloc_val ht' eg (LPacked (unat h)) = v"
    "nNextFreeElement ht' = int (unat h) + 1" "ht_addr ht' = ht_addr ht" "pDestructor ht' = pDestructor ht"
    using add_to_packed_spec [OF assms(1-6)] by metis
  then show ?thesis using assms(7-9) by (simp add: index_inserted_def)
qed

lemma mixed_inserted:
  assumes "ht_inv ht" "\<not> f_packed ht" "\<not> f_uninit ht" "nNumUsed ht < nTableSize ht" "v \<noteq> IS_UNDEF"
    "map_of (elems ht0) (KNum h) = None" "elems ht = elems ht0" "ht_addr ht = ht_addr ht0"
    "pDestructor ht = pDestructor ht0" "nNextFreeElement ht = nNextFreeElement ht0" "eg_same eg0 eg"
  shows "index_inserted ht0 eg0 h v (add_index_entry ht eg h v)"
proof -
  have "map_of (elems ht) (KNum h) = None" using assms(6,7) by simp
  then obtain ht' l where "add_index_entry ht eg h v = Inr (ht', eg, Some l)" "ht_inv ht'"
    "elems ht' = elems ht @ [(KNum h, v)]" "zloc_val ht' eg l = v"
    "nNextFreeElement ht' = next_after (nNextFreeElement ht) h" "\<not> f_packed ht'"
    "ht_addr ht' = ht_addr ht" "pDestructor ht' = pDestructor ht"
    using add_index_entry_spec [OF assms(1-5)] by metis
  then show ?thesis using assms(7-11) by (simp add: index_inserted_def)
qed

lemma converted_inserted:
  assumes "unpackable ht" "length (elems ht) < nTableSize ht" "v \<noteq> IS_UNDEF"
    "map_of (elems ht0) (KNum h) = None" "elems ht = elems ht0" "ht_addr ht = ht_addr ht0"
    "pDestructor ht = pDestructor ht0" "nNextFreeElement ht = nNextFreeElement ht0"
  shows "index_inserted ht0 eg h v
    (bindE (zend_hash_packed_to_hash ht eg) (\<lambda>(ht, eg). add_index_entry ht eg h v))"
proof -
  obtain g eg' where g: "zend_hash_packed_to_hash ht eg = Inr (g, eg')" "eg_same eg eg'" "ht_inv g"
    "elems g = elems ht" "table_frame ht g" "\<not> f_packed g" "\<not> f_uninit g"
    "nTableSize g = nTableSize ht" "nNumUsed g = nNumOfElements ht"
    using packed_to_hash_spec [OF assms(1)] by metis
  have "nNumUsed g < nTableSize g" using assms(1,2) g by (simp add: unpackable_def)
  then have "index_inserted ht0 eg h v (add_index_entry g eg' h v)"
    using g assms by (intro mixed_inserted) (simp_all add: table_frame_def)
  then show ?thesis using g(1) by simp
qed

definition index_key :: "64 word \<Rightarrow> 32 word \<Rightarrow> 64 word" where
  "index_key h flag = (if has_flag flag HASH_ADD_NEXT \<and> h = word_of_int ZEND_LONG_MIN then 0 else h)"

definition lookup_val :: "32 word \<Rightarrow> zval \<Rightarrow> zval" where
  "lookup_val flag v = (if has_flag flag HASH_LOOKUP then IS_NULL else v)"

text \<open>A packed table of fewer than the maximal number of cells takes the new entry.\<close>

lemma packed_absent:
  assumes inv: "ht_inv ht" "f_packed ht" and v: "v \<noteq> IS_UNDEF"
    and fresh: "map_of (elems ht) (KNum h) = None"
    and gap: "new_next flag \<longrightarrow> unat h = nNumUsed ht" and h: "nNumUsed ht \<le> unat h"
  shows "index_inserted ht eg h v
    (if unat h < nTableSize ht then add_to_packed ht eg h v flag
     else if unat (drop_bit 1 h) < nTableSize ht \<and> nTableSize ht div 2 < nNumOfElements ht then
       bindE (zend_hash_packed_grow ht) (\<lambda>ht. add_to_packed ht eg h v flag)
     else
       bindE (zend_hash_packed_to_hash
         (if nNumUsed ht \<ge> nTableSize ht then ht\<lparr>nTableSize := nTableSize ht + nTableSize ht\<rparr> else ht) eg)
         (\<lambda>(ht, eg). add_index_entry ht eg h v))"
proof -
  have sz: "size_ok (nTableSize ht)" and used: "nNumUsed ht \<le> nTableSize ht"
    using inv by (simp_all add: inv_size inv_used_le)
  have le: "length (elems ht) \<le> nNumUsed ht" unfolding elems_def by (rule length_entries_le)
  consider (fits) "unat h < nTableSize ht"
    | (grow) "\<not> unat h < nTableSize ht" "unat (drop_bit 1 h) < nTableSize ht \<and> nTableSize ht div 2 < nNumOfElements ht"
    | (convert) "\<not> unat h < nTableSize ht"
        "\<not> (unat (drop_bit 1 h) < nTableSize ht \<and> nTableSize ht div 2 < nNumOfElements ht)"
    by blast
  then show ?thesis
  proof cases
    case fits
    then show ?thesis using packed_inserted [OF inv h fits gap v refl refl refl] by simp
  next
    case grow
    have half: "unat (drop_bit 1 h) = unat h div 2"
      by (simp add: unsigned_drop_bit_eq drop_bit_eq_div unat_div)
    from inv show ?thesis
    proof (cases rule: packed_grow_spec)
      case fatal
      then show ?thesis using grow inv by (simp add: index_inserted_def)
    next
      case (ok g)
      have "index_inserted ht eg h v (add_to_packed g eg h v flag)"
        by (rule packed_inserted) (use ok h grow half gap v in \<open>auto simp: table_frame_def\<close>)
      then show ?thesis using ok(1) grow by simp
    qed
  next
    case convert
    have no: "(unat h < nTableSize ht) = False"
      "(unat (drop_bit 1 h) < nTableSize ht \<and> nTableSize ht div 2 < nNumOfElements ht) = False"
      using convert by blast+
    have "index_inserted ht eg h v (bindE (zend_hash_packed_to_hash
          (if nTableSize ht \<le> nNumUsed ht then ht\<lparr>nTableSize := nTableSize ht + nTableSize ht\<rparr> else ht) eg)
          (\<lambda>(ht, eg). add_index_entry ht eg h v))" (is ?goal)
    proof (cases "nNumUsed ht \<ge> nTableSize ht")
      case True
      then have full: "nNumUsed ht = nTableSize ht" using used by simp
      let ?g = "ht\<lparr>nTableSize := nTableSize ht + nTableSize ht\<rparr>"
      show ?goal
      proof (cases "nTableSize ht = HT_MAX_SIZE")
        case max: True
        have "HT_SIZE_TO_MASK (HT_MAX_SIZE + HT_MAX_SIZE) = 0"
          by (simp add: HT_SIZE_TO_MASK_def HT_MAX_SIZE_def)
        then have "zend_hash_packed_to_hash ?g eg = Inl AssertFailed"
          using max by (simp add: zend_hash_packed_to_hash_def Let_def assertE_def)
        then show ?goal
          using True full max inv(2) by (simp add: index_inserted_def)
      next
        case False
        then have lt: "nTableSize ht < HT_MAX_SIZE" using size_ok_bounds [OF sz] by simp
        have ent: "entry_at ?g = entry_at ht" by (rule ext) (simp add: entry_at_def)
        have e: "elems ?g = elems ht" by (simp add: elems_def ent)
        have "unpackable ?g"
          using unpackable_inv [OF inv] size_ok_double [OF sz lt] e
          by (simp add: unpackable_def next_free_ok_def mult_2)
        then have "index_inserted ht eg h v
            (bindE (zend_hash_packed_to_hash ?g eg) (\<lambda>(ht, eg). add_index_entry ht eg h v))"
          using e le used size_ok_bounds [OF sz] v fresh by (intro converted_inserted) simp_all
        then show ?goal
          using True by simp
      qed
    next
      case False
      then have "index_inserted ht eg h v
          (bindE (zend_hash_packed_to_hash ht eg) (\<lambda>(ht, eg). add_index_entry ht eg h v))"
        using unpackable_inv [OF inv] le v fresh by (intro converted_inserted) simp_all
      then show ?goal
        using False by simp
    qed
    then show ?thesis unfolding no if_False .
  qed
qed

lemma index_absent:
  assumes inv: "ht_inv ht" and v: "lookup_val flag v \<noteq> IS_UNDEF"
    and fresh: "map_of (elems ht) (KNum (index_key h flag)) = None"
    and gap: "new_next flag \<longrightarrow> unat (index_key h flag) = nNumUsed ht \<or> \<not> f_packed ht \<and> \<not> f_uninit ht"
  shows "index_inserted ht eg (index_key h flag) (lookup_val flag v)
    (zend_hash_index_add_or_update_i ht h v flag eg)"
proof -
  let ?h = "index_key h flag" and ?v = "lookup_val flag v"
  have sz: "size_ok (nTableSize ht)" using inv by (rule inv_size)
  consider (packed) "f_packed ht" | (uninit) "\<not> f_packed ht" "f_uninit ht" | (mixed) "\<not> f_packed ht" "\<not> f_uninit ht"
    by blast
  then show ?thesis
  proof cases
    case packed
    show ?thesis
    proof (cases "\<not> new_next flag \<and> unat ?h < nNumUsed ht")
      case True
      have pk: "packed_ok ht" using inv packed by (rule inv_packed)
      obtain zv where zv: "arPacked ht ! unat ?h = Some zv" "unat ?h < length (arPacked ht)"
        using pk True by (auto simp: packed_ok_def)
      have "zv = IS_UNDEF" using fresh packed_map_of [OF inv packed, of ?h] zv True by (auto split: if_splits)
      then have step: "zend_hash_index_add_or_update_i ht h v flag eg =
          bindE (zend_hash_packed_to_hash ht eg) (\<lambda>(ht, eg). add_index_entry ht eg ?h ?v)"
        using packed True zv
        by (simp add: zend_hash_index_add_or_update_i_def Let_def index_key_def [symmetric]
            lookup_val_def [symmetric])
      have "entry_at ht (unat ?h) = None"
        using packed zv \<open>zv = IS_UNDEF\<close> by (simp add: entry_at_def packed_entry_def)
      then have "length (elems ht) \<noteq> nNumUsed ht"
        using True length_entries_full [of "entry_at ht" "nNumUsed ht"] by (auto simp: elems_def)
      moreover have "length (elems ht) \<le> nNumUsed ht" unfolding elems_def by (rule length_entries_le)
      ultimately have "length (elems ht) < nTableSize ht" using inv_used_le [OF inv] by simp
      then show ?thesis unfolding step
        using unpackable_inv [OF inv packed] v fresh by (intro converted_inserted) simp_all
    next
      case False
      have hge: "nNumUsed ht \<le> unat ?h" and g: "new_next flag \<longrightarrow> unat ?h = nNumUsed ht"
        using False gap packed by auto
      have no: "(\<not> new_next flag \<and> unat ?h < nNumUsed ht) = False" using False by simp
      show ?thesis
        using packed_absent [OF inv packed v fresh g hge, of eg]
        by (simp only: zend_hash_index_add_or_update_i_def Let_def index_key_def [symmetric]
            lookup_val_def [symmetric] packed no if_True if_False)
    qed
  next
    case uninit
    have u: "nNumUsed ht = 0" "elems ht = []"
      using inv uninit by (simp_all add: ht_inv_def uninit_ok_def elems_def)
    show ?thesis
    proof (cases "unat ?h < nTableSize ht")
      case True
      let ?g = "zend_hash_real_init_packed_ex ht"
      note g = real_init_packed [OF inv uninit(2,1)]
      have fr: "nTableSize ?g = nTableSize ht" "ht_addr ?g = ht_addr ht" "pDestructor ?g = pDestructor ht"
        by (simp_all add: zend_hash_real_init_packed_ex_def HT_HASH_RESET_PACKED_def)
      have "index_inserted ht eg ?h ?v (add_to_packed ?g eg ?h ?v flag)"
        by (rule packed_inserted) (use g fr True gap uninit v u in auto)
      then show ?thesis using uninit True
        by (simp add: zend_hash_index_add_or_update_i_def Let_def index_key_def [symmetric]
            lookup_val_def [symmetric])
    next
      case False
      obtain g where g: "zend_hash_real_init_mixed_ex ht = Inr g" "ht_inv g" "mixed_ok g"
        "\<not> f_packed g" "\<not> f_uninit g" "nNumUsed g = 0" "elems g = []" "elems ht = []"
        "nNumOfElements g = 0" "nTableSize g = nTableSize ht" "f_static_keys g"
        "nNextFreeElement g = nNextFreeElement ht" "pDestructor g = pDestructor ht" "ht_addr g = ht_addr ht"
        using real_init_mixed [OF inv uninit(2,1)] by metis
      have "0 < nTableSize g" using size_ok_bounds [OF inv_size [OF g(2)]] by simp
      then have "index_inserted ht eg ?h ?v (add_index_entry g eg ?h ?v)"
        using g v fresh by (intro mixed_inserted) simp_all
      then show ?thesis using uninit False g(1)
        by (simp add: zend_hash_index_add_or_update_i_def Let_def index_key_def [symmetric]
            lookup_val_def [symmetric] zend_hash_real_init_mixed_def)
    qed
  next
    case mixed
    have "(if \<not> has_flag flag HASH_ADD_NEW then zend_hash_index_find_bucket ht ?h else Inr None) = Inr None"
      by (cases rule: find_in_slot_map_of [OF inv mixed(1) idx_match_test [of ?h]])
        (use fresh in \<open>simp_all add: zend_hash_index_find_bucket_def\<close>)
    then have step: "zend_hash_index_add_or_update_i ht h v flag eg =
        bindE (if_full_do_resize ht eg) (\<lambda>(ht, eg). add_index_entry ht eg ?h ?v)"
      using mixed by (simp add: zend_hash_index_add_or_update_i_def Let_def index_key_def [symmetric]
          lookup_val_def [symmetric])
    show ?thesis
    proof (cases rule: if_full_spec [OF inv mixed, where eg = eg])
      case 1
      then show ?thesis unfolding step
        using inv by (simp add: index_inserted_def no_room_def ht_inv_def)
    next
      case (2 g eg')
      have "index_inserted ht eg ?h ?v (add_index_entry g eg' ?h ?v)"
        using 2 v fresh by (intro mixed_inserted) (simp_all add: table_frame_def)
      then show ?thesis unfolding step using 2(1) by simp
    qed
  qed
qed

subsection \<open>A key that is present\<close>

definition index_present_effect :: "32 word \<Rightarrow> HashTable \<Rightarrow> executor_globals \<Rightarrow> hkey \<Rightarrow> zval \<Rightarrow> zval
    \<Rightarrow> error + (HashTable \<times> executor_globals \<times> zloc option) \<Rightarrow> bool" where
  "index_present_effect flag ht eg k w v r \<longleftrightarrow>
     (if has_flag flag HASH_LOOKUP then \<exists>l. r = Inr (ht, eg, Some l) \<and> zloc_val ht eg l = w
      else if has_flag flag HASH_ADD then r = Inr (ht, eg, None)
      else replaced ht eg k w v r)"

lemma replace_packed:
  assumes "ht_inv ht" "f_packed ht" "i < nNumUsed ht" "entry_at ht i = Some (k, w)" "v \<noteq> IS_UNDEF"
  shows "replaced ht eg k w v (replace_data ht eg (LPacked i) v)"
proof -
  have "arPacked ht ! i = Some w"
    using assms(2,4) by (auto simp: entry_at_def packed_entry_def split: option.splits if_splits)
  then have val: "zloc_val ht eg (LPacked i) = w" by (simp add: zloc_val_def)
  obtain ht' where h: "zval_store ht (dtor_call ht w eg) (LPacked i) v = Inr (ht', dtor_call ht w eg)" "ht_inv ht'"
    "elems ht' = AList.update k v (elems ht)" "zloc_val ht' (dtor_call ht w eg) (LPacked i) = v"
    "table_frame ht ht'"
    using store_packed_spec [OF assms(1-5), of "dtor_call ht w eg"] by metis
  then show ?thesis using val by (simp add: replace_data_def replaced_def dtor_call_events)
qed

lemma new_next_add_new: "new_next flag \<Longrightarrow> has_flag flag HASH_ADD_NEW"
proof -
  assume "new_next flag"
  then have "flag AND 24 = 24" by (simp add: new_next_def flag_defs)
  then have "(flag AND 24) AND 8 = (24 AND 8 :: 32 word)" by simp
  then have "flag AND 8 = 8" by (simp add: and.assoc)
  then show ?thesis by (simp add: has_flag_def flag_defs)
qed

lemma index_present:
  assumes inv: "ht_inv ht" and present: "map_of (elems ht) (KNum (index_key h flag)) = Some w"
    and nn: "\<not> has_flag flag HASH_ADD_NEW" and v: "has_flag flag HASH_LOOKUP \<or> v \<noteq> IS_UNDEF"
  shows "index_present_effect flag ht eg (KNum (index_key h flag)) w v
    (zend_hash_index_add_or_update_i ht h v flag eg)"
proof -
  let ?h = "index_key h flag"
  consider (packed) "f_packed ht" | (uninit) "\<not> f_packed ht" "f_uninit ht" | (mixed) "\<not> f_packed ht" "\<not> f_uninit ht"
    by blast
  then show ?thesis
  proof cases
    case packed
    have pk: "packed_ok ht" and sz: "size_ok (nTableSize ht)" using inv packed by (simp_all add: inv_packed inv_size)
    have at: "unat ?h < nNumUsed ht" "arPacked ht ! unat ?h = Some w" "w \<noteq> IS_UNDEF"
      using packed_map_of [OF inv packed, of ?h] present by (auto split: if_splits)
    have len: "unat ?h < length (arPacked ht)" using at pk by (simp add: packed_ok_def)
    have ent: "entry_at ht (unat ?h) = Some (KNum ?h, w)"
      using at packed by (simp add: entry_at_def packed_entry_def)
    have "\<not> new_next flag" using nn new_next_add_new by blast
    then have step: "zend_hash_index_add_or_update_i ht h v flag eg =
        (if has_flag flag HASH_LOOKUP then Inr (ht, eg, Some (LPacked (unat ?h)))
         else index_replace ht eg (LPacked (unat ?h)) v flag)"
      using packed at len
      by (simp add: zend_hash_index_add_or_update_i_def Let_def index_key_def [symmetric])
    show ?thesis
      using replace_packed [OF inv packed at(1) ent, of v eg] v at
      by (auto simp: step index_present_effect_def index_replace_def zloc_val_def)
  next
    case uninit
    then have "elems ht = []" using inv by (simp add: ht_inv_def uninit_ok_def elems_def)
    then show ?thesis using present by simp
  next
    case mixed
    obtain i p where i: "zend_hash_index_find_bucket ht ?h = Inr (Some i)" "i < nNumUsed ht"
      "arData ht ! i = Some p" "entry_at ht i = Some (KNum ?h, w)" "b_val p = w"
      by (cases rule: find_in_slot_map_of [OF inv mixed(1) idx_match_test [of ?h]])
        (use present in \<open>auto simp: zend_hash_index_find_bucket_def\<close>)
    have step: "zend_hash_index_add_or_update_i ht h v flag eg =
        (if has_flag flag HASH_LOOKUP then Inr (ht, eg, Some (LBucket i))
         else index_replace ht eg (LBucket i) v flag)"
      using mixed i(1) nn
      by (simp add: zend_hash_index_add_or_update_i_def Let_def index_key_def [symmetric])
    show ?thesis
      using replace_bucket [OF inv mixed i(2,4), of v eg] v i
      by (auto simp: step index_present_effect_def index_replace_def zloc_val_def)
  qed
qed

subsection \<open>Appending under the next free index\<close>

lemma index_flag_simps [simp]:
  "has_flag (HASH_ADD OR HASH_ADD_NEXT) HASH_ADD_NEXT" "\<not> has_flag (HASH_ADD OR HASH_ADD_NEXT) HASH_LOOKUP"
  "\<not> has_flag (HASH_ADD OR HASH_ADD_NEXT) HASH_ADD_NEW" "has_flag (HASH_ADD OR HASH_ADD_NEXT) HASH_ADD"
  "\<not> new_next (HASH_ADD OR HASH_ADD_NEXT)" "\<not> new_next HASH_ADD" "\<not> new_next HASH_UPDATE"
  "\<not> new_next HASH_LOOKUP" "\<not> new_next (HASH_ADD OR HASH_ADD_NEW)"
  "\<not> has_flag HASH_ADD HASH_ADD_NEXT" "\<not> has_flag HASH_UPDATE HASH_ADD_NEXT"
  "\<not> has_flag HASH_LOOKUP HASH_ADD_NEXT" "\<not> has_flag (HASH_ADD OR HASH_ADD_NEW) HASH_ADD_NEXT"
  "\<not> has_flag (HASH_ADD OR HASH_ADD_NEW) HASH_LOOKUP"
  "\<not> has_flag (HASH_ADD OR HASH_ADD_NEW OR HASH_ADD_NEXT) HASH_LOOKUP"
  "has_flag (HASH_ADD OR HASH_ADD_NEW OR HASH_ADD_NEXT) HASH_ADD_NEXT"
  by (simp_all add: has_flag_def new_next_def flag_defs)

definition next_key :: "HashTable \<Rightarrow> 64 word" where
  "next_key ht = (if nNextFreeElement ht = ZEND_LONG_MIN then 0 else word_of_int (nNextFreeElement ht))"

lemma sint_of_long: "ZEND_LONG_MIN \<le> n \<Longrightarrow> n \<le> ZEND_LONG_MAX \<Longrightarrow> sint (word_of_int n :: 64 word) = n"
  by (simp add: ZEND_LONG_MIN_def ZEND_LONG_MAX_def signed_of_int signed_take_bit_int_eq_self)

lemma next_key_index:
  assumes "ht_inv ht" "has_flag flag HASH_ADD_NEXT"
  shows "index_key (word_of_int (nNextFreeElement ht)) flag = next_key ht"
proof -
  have n: "ZEND_LONG_MIN \<le> nNextFreeElement ht" "nNextFreeElement ht \<le> ZEND_LONG_MAX"
    using assms by (simp_all add: ht_inv_def next_free_ok_def)
  have "word_of_int (nNextFreeElement ht) = (word_of_int ZEND_LONG_MIN :: 64 word) \<longleftrightarrow>
      nNextFreeElement ht = ZEND_LONG_MIN"
    using sint_of_long [OF n] sint_of_long [of ZEND_LONG_MIN] n by (metis order_refl order_trans)
  then show ?thesis using assms(2) by (simp add: index_key_def next_key_def)
qed

text \<open>The next free index is free, unless it is the largest one.\<close>

lemma next_key_fresh:
  assumes inv: "ht_inv ht" and "nNextFreeElement ht \<noteq> ZEND_LONG_MAX"
  shows "map_of (elems ht) (KNum (next_key ht)) = None"
proof -
  have n: "ZEND_LONG_MIN \<le> nNextFreeElement ht" "nNextFreeElement ht \<le> ZEND_LONG_MAX"
    and below: "\<And>k. k \<in> fst ` set (elems ht) \<Longrightarrow> key_below (nNextFreeElement ht) k"
    using inv by (auto simp: ht_inv_def next_free_ok_def)
  have "KNum (next_key ht) \<notin> fst ` set (elems ht)"
  proof
    assume "KNum (next_key ht) \<in> fst ` set (elems ht)"
    then have lt: "sint (next_key ht) < nNextFreeElement ht"
      using below assms(2) by (force simp: key_below_def)
    show False
    proof (cases "nNextFreeElement ht = ZEND_LONG_MIN")
      case True
      then show ?thesis using lt sint_bounds(1) [of "next_key ht"] by simp
    next
      case False
      then show ?thesis using lt sint_of_long [OF n] by (simp add: next_key_def)
    qed
  qed
  then show ?thesis by (simp add: map_of_eq_None_iff)
qed

lemma next_index_insert_spec:
  assumes inv: "ht_inv ht" and n: "nNextFreeElement ht \<noteq> ZEND_LONG_MAX" and v: "v \<noteq> IS_UNDEF"
  shows "index_inserted ht eg (next_key ht) v (zend_hash_next_index_insert ht v eg)"
  using index_absent [OF inv, of "HASH_ADD OR HASH_ADD_NEXT" v "word_of_int (nNextFreeElement ht)" eg]
    next_key_index [OF inv, of "HASH_ADD OR HASH_ADD_NEXT"] next_key_fresh [OF inv n] v
  by (simp add: zend_hash_next_index_insert_def lookup_val_def)

text \<open>At the end of the index space the insertion is refused.\<close>

lemma next_index_insert_full:
  assumes inv: "ht_inv ht" and n: "nNextFreeElement ht = ZEND_LONG_MAX" and v: "v \<noteq> IS_UNDEF"
    and max: "map_of (elems ht) (KNum (word_of_int ZEND_LONG_MAX)) = Some w"
  shows "zend_hash_next_index_insert ht v eg = Inr (ht, eg, None)"
proof -
  have "next_key ht = word_of_int ZEND_LONG_MAX"
    using n by (simp add: next_key_def ZEND_LONG_MAX_def ZEND_LONG_MIN_def)
  then show ?thesis
    using index_present [OF inv, of "word_of_int (nNextFreeElement ht)" "HASH_ADD OR HASH_ADD_NEXT" w v eg]
      next_key_index [OF inv, of "HASH_ADD OR HASH_ADD_NEXT"] max v
    by (simp add: zend_hash_next_index_insert_def index_present_effect_def)
qed

end
