(* ===== verification/HashSamples.thy ===== *)
theory HashSamples
  imports HashInv "HOL-Library.Code_Target_Nat"
begin

text \<open>
  Three small tables on which the hypotheses of the theorems are evaluated: a mixed
  one with the keys "a" and 5, a packed one with a hole at 1, and one that is not
  initialised yet.
\<close>

definition sample_mixed :: HashTable where
  "sample_mixed =
     \<lparr>ht_addr = 1, f_persistent = False, f_packed = False, f_uninit = False, f_static_keys = False, f_empty_ind = False,
      nIteratorsCount = 0, nTableMask = 4294967280,
      arHash = (replicate 16 HT_INVALID_IDX)[5 := 1, 6 := 0],
      arData =
        [Some \<lparr>b_val = IS_TRUE, b_next = HT_INVALID_IDX, b_h = 9223372036854953478,
               b_key = Some \<lparr>zs_h = 9223372036854953478, zs_val = [97], zs_interned = False\<rparr>\<rparr>,
         Some \<lparr>b_val = IS_LONG 7, b_next = HT_INVALID_IDX, b_h = 5, b_key = None\<rparr>,
         None, None, None, None, None, None],
      arPacked = [], nNumUsed = 2, nNumOfElements = 2, nTableSize = 8, nInternalPointer = 0,
      nNextFreeElement = 6, pDestructor = ZVAL_PTR_DTOR\<rparr>"

definition sample_packed :: HashTable where
  "sample_packed =
     \<lparr>ht_addr = 2, f_persistent = False, f_packed = True, f_uninit = False, f_static_keys = True, f_empty_ind = False,
      nIteratorsCount = 0, nTableMask = HT_MIN_MASK, arHash = [HT_INVALID_IDX, HT_INVALID_IDX],
      arData = [],
      arPacked = [Some (IS_LONG 7), Some IS_UNDEF, Some IS_TRUE, None, None, None, None, None],
      nNumUsed = 3, nNumOfElements = 2, nTableSize = 8, nInternalPointer = 0,
      nNextFreeElement = 3, pDestructor = ZVAL_PTR_DTOR\<rparr>"

definition sample_globals :: executor_globals where
  "sample_globals =
     \<lparr>ht_iterators = [], ht_iterators_used = 0, indirect = (\<lambda>_. IS_UNDEF), events = []\<rparr>"

text \<open>A table with two holes, an iterator on the second of them and one on the entry after it.\<close>

definition two_iterators_table :: HashTable where
  "two_iterators_table =
     \<lparr>ht_addr = 1, f_persistent = False, f_packed = False, f_uninit = False, f_static_keys = True, f_empty_ind = False,
      nIteratorsCount = 2, nTableMask = 4294967280,
      arHash = (replicate 16 HT_INVALID_IDX)[2 := 2, 3 := 3],
      arData =
        [Some \<lparr>b_val = IS_UNDEF, b_next = HT_INVALID_IDX, b_h = 0, b_key = None\<rparr>,
         Some \<lparr>b_val = IS_UNDEF, b_next = HT_INVALID_IDX, b_h = 1, b_key = None\<rparr>,
         Some \<lparr>b_val = IS_TRUE, b_next = HT_INVALID_IDX, b_h = 2, b_key = None\<rparr>,
         Some \<lparr>b_val = IS_FALSE, b_next = HT_INVALID_IDX, b_h = 3, b_key = None\<rparr>,
         None, None, None, None],
      arPacked = [], nNumUsed = 4, nNumOfElements = 2, nTableSize = 8, nInternalPointer = 2,
      nNextFreeElement = 4, pDestructor = ZVAL_PTR_DTOR\<rparr>"

definition two_iterators :: executor_globals where
  "two_iterators =
     sample_globals\<lparr>ht_iterators := [\<lparr>it_ht = IterHT 1, it_pos = 1, it_next_copy = 0\<rparr>,
       \<lparr>it_ht = IterHT 1, it_pos = 2, it_next_copy = 1\<rparr>], ht_iterators_used := 2\<rparr>"

lemma sample_mixed_inv: "ht_inv sample_mixed"
  by code_simp

lemma sample_packed_inv: "ht_inv sample_packed"
  by code_simp

lemma two_iterators_inv: "ht_inv two_iterators_table"
  by code_simp

lemma sample_empty_inv: "ht_inv (zend_empty_array 3)"
  by code_simp

lemma sample_elems:
  "elems sample_mixed = [(KStr [97], IS_TRUE), (KNum 5, IS_LONG 7)]"
  "elems sample_packed = [(KNum 0, IS_LONG 7), (KNum 2, IS_TRUE)]"
  "elems (zend_empty_array 3) = []"
  by code_simp+

lemma sample_flags [simp]:
  "\<not> f_packed sample_mixed" "\<not> f_uninit sample_mixed" "f_packed sample_packed" "\<not> f_uninit sample_packed"
  "f_uninit (zend_empty_array a)" "\<not> f_packed (zend_empty_array a)"
  "nNumUsed sample_mixed = 2" "nNumUsed sample_packed = 3" "nTableSize sample_mixed = 8"
  "nTableSize sample_packed = 8" "nNextFreeElement sample_mixed = 6" "nNextFreeElement sample_packed = 3"
  by (simp_all add: sample_mixed_def sample_packed_def zend_empty_array_def)

end
