(* ===== verification/TableTheorems.thy ===== *)
theory TableTheorems
  imports HashIndex HashSamples
begin

text \<open>
  The properties of creating, searching, filling and restructuring a hash table, with
  their witnesses.
\<close>

subsection \<open>Hashing and sizes\<close>

text \<open>
  C36. The hash of a string by chunks of eight bytes with multiplications is the hash by the
  portable loop over single bytes, and is never 0, the value that marks a missing hash.
\<close>

theorem hash_func_variants_agree:
  "zend_inline_hash_func str = zend_inline_hash_func_portable str \<and> zend_hash_func str \<noteq> 0"
  by (simp add: hash_func_portable hash_func_nonzero)

text \<open>
  C35. The table size computed from leading zeros is the one computed by smearing bits: the
  least power of two that is at least 8 and not below the request.
\<close>

theorem check_size_power_of_two:
  assumes "n \<le> HT_MAX_SIZE"
  shows "\<exists>k. zend_hash_check_size n = Inr (2 ^ k) \<and> zend_hash_check_size_portable n = Inr (2 ^ k) \<and>
    3 \<le> k \<and> k \<le> 30 \<and> n \<le> 2 ^ k \<and> (8 < n \<longrightarrow> 2 ^ k < 2 * n)"
  by (rule check_size_cases [OF assms]) blast

theorem check_size_power_of_two_witness:
  "\<exists>k. zend_hash_check_size 100 = Inr (2 ^ k) \<and> zend_hash_check_size_portable 100 = Inr (2 ^ k) \<and>
    3 \<le> k \<and> k \<le> 30 \<and> 100 \<le> (2 :: nat) ^ k \<and> (8 < (100 :: nat) \<longrightarrow> 2 ^ k < 2 * (100 :: nat))"
  by (rule check_size_power_of_two) (simp add: HT_MAX_SIZE_def)

text \<open>Creating a table ends the process for sizes above the maximum and gives a well-formed empty table otherwise.\<close>

theorem init_well_formed:
  "case zend_hash_init a nSize dtor persistent of
     Inl e \<Rightarrow> e = FatalOverflow \<and> HT_MAX_SIZE < nSize
   | Inr ht \<Rightarrow> ht_inv ht \<and> elems ht = [] \<and> nSize \<le> nTableSize ht \<and> pDestructor ht = dtor \<and> ht_addr ht = a"
proof (cases "HT_MAX_SIZE < nSize")
  case True
  then show ?thesis by (simp add: zend_hash_init_def init_fatal)
next
  case False
  then obtain ht where "zend_hash_init_int a nSize dtor persistent = Inr ht" using init_total [of nSize a dtor persistent] by auto
  then show ?thesis using init_inv by (simp add: zend_hash_init_def)
qed

subsection \<open>Searching\<close>

text \<open>
  C6. On a well-formed table a search by string ends, stays inside the table's memory, and
  finds the value of the entry with that key, if there is one.
\<close>

theorem find_is_lookup:
  assumes "ht_inv ht" "str_ok key"
  shows "found_val ht eg (zend_hash_find ht key) = Inr (map_of (elems ht) (KStr (zs_val key)))"
  using assms by (rule find_spec)

theorem find_is_lookup_witness:
  "found_val sample_mixed sample_globals (zend_hash_find sample_mixed (zend_string_init [97])) = Inr (Some IS_TRUE)"
  using find_is_lookup [OF sample_mixed_inv, of "zend_string_init [97]" sample_globals]
  by (simp add: sample_elems str_ok_def zend_string_init_def)

text \<open>The same for a search by bytes, and by number in packed and mixed tables.\<close>

theorem str_and_index_find_are_lookups:
  assumes "ht_inv ht"
  shows "found_val ht eg (zend_hash_str_find ht str) = Inr (map_of (elems ht) (KStr str)) \<and>
    found_val ht eg (zend_hash_index_find ht h) = Inr (map_of (elems ht) (KNum h))"
  by (simp add: str_find_spec [OF assms] index_find_spec [OF assms])

theorem str_and_index_find_are_lookups_witness:
  "found_val sample_packed sample_globals (zend_hash_str_find sample_packed [97]) =
     Inr (map_of (elems sample_packed) (KStr [97])) \<and>
   found_val sample_packed sample_globals (zend_hash_index_find sample_packed 2) =
     Inr (map_of (elems sample_packed) (KNum 2))"
  by (rule str_and_index_find_are_lookups [OF sample_packed_inv])

subsection \<open>Inserting under a string\<close>

text \<open>
  C4. \<open>zend_hash_update\<close> keeps the invariant and is an update of the ordered map: a new key
  becomes the last entry, an old key keeps its place and has its old value destroyed. The
  only other outcome is the fatal error, when the table is at its maximal size and full.
\<close>

theorem update_is_map_update:
  assumes "ht_inv ht" "str_ok key" "v \<noteq> IS_UNDEF"
  shows "case map_of (elems ht) (KStr (zs_val key)) of
      None \<Rightarrow> inserted ht eg (KStr (zs_val key)) v (key_events (zend_string_hash_val key))
                (zend_hash_update ht key v eg)
    | Some w \<Rightarrow> replaced ht eg (KStr (zs_val key)) w v (zend_hash_update ht key v eg)"
proof (cases "map_of (elems ht) (KStr (zs_val key))")
  case None
  then show ?thesis using add_or_update_absent [OF assms(1,2) None, of HASH_UPDATE v eg] assms(3)
    by (simp add: zend_hash_update_def)
next
  case (Some w)
  then show ?thesis using add_or_update_present [OF assms(1,2) Some, of HASH_UPDATE v eg] assms(3)
    by (cases w) (simp_all add: zend_hash_update_def present_effect_def)
qed

theorem update_is_map_update_witness:
  "replaced sample_mixed sample_globals (KStr [97]) IS_TRUE IS_NULL
     (zend_hash_update sample_mixed (zend_string_init [97]) IS_NULL sample_globals)"
  using update_is_map_update [OF sample_mixed_inv, of "zend_string_init [97]" IS_NULL sample_globals]
  by (simp add: sample_elems str_ok_def zend_string_init_def)

text \<open>
  C31. \<open>zend_hash_add\<close> never overwrites: with the key present nothing changes and the result
  is \<open>NULL\<close>; otherwise the entry is appended.
\<close>

theorem add_never_overwrites:
  assumes "ht_inv ht" "str_ok key" "v \<noteq> IS_UNDEF"
  shows "case map_of (elems ht) (KStr (zs_val key)) of
      None \<Rightarrow> inserted ht eg (KStr (zs_val key)) v (key_events (zend_string_hash_val key))
                (zend_hash_add ht key v eg)
    | Some w \<Rightarrow> zend_hash_add ht key v eg = Inr (ht, eg, None)"
proof (cases "map_of (elems ht) (KStr (zs_val key))")
  case None
  then show ?thesis using add_or_update_absent [OF assms(1,2) None, of HASH_ADD v eg] assms(3)
    by (simp add: zend_hash_add_def)
next
  case (Some w)
  then show ?thesis using add_or_update_present [OF assms(1,2) Some, of HASH_ADD v eg] assms(3)
    by (cases w) (simp_all add: zend_hash_add_def present_effect_def)
qed

theorem add_never_overwrites_witness:
  "zend_hash_add sample_mixed (zend_string_init [97]) IS_NULL sample_globals =
     Inr (sample_mixed, sample_globals, None)"
  using add_never_overwrites [OF sample_mixed_inv, of "zend_string_init [97]" IS_NULL sample_globals]
  by (simp add: sample_elems str_ok_def zend_string_init_def)

text \<open>
  \<open>zend_hash_update_ind\<close> writes through an \<open>IS_INDIRECT\<close> value: the table is unchanged,
  the zval it points to is destroyed and replaced.
\<close>

theorem update_ind_writes_through:
  assumes "ht_inv ht" "str_ok key" "v \<noteq> IS_UNDEF"
    "map_of (elems ht) (KStr (zs_val key)) = Some (IS_INDIRECT a)"
  shows "zend_hash_update_ind ht key v eg = indirect_stored ht eg a v"
  using add_or_update_present [OF assms(1,2,4), of "HASH_UPDATE OR HASH_UPDATE_INDIRECT" v eg] assms(3)
  by (simp add: zend_hash_update_ind_def present_effect_def)

text \<open>A table whose only entry is an indirect one, made by an insertion.\<close>

lemma indirect_table:
  "\<exists>ht. ht_inv ht \<and> map_of (elems ht) (KStr [97]) = Some (IS_INDIRECT 4)"
proof -
  have "inserted (zend_empty_array 3) sample_globals (KStr [97]) (IS_INDIRECT 4)
      (key_events (zend_string_hash_val (zend_string_init [97])))
      (zend_hash_update (zend_empty_array 3) (zend_string_init [97]) (IS_INDIRECT 4) sample_globals)"
    using add_or_update_absent [OF sample_empty_inv, of "zend_string_init [97]" HASH_UPDATE "IS_INDIRECT 4" sample_globals]
    by (simp add: zend_hash_update_def sample_elems str_ok_def zend_string_init_def)
  then show ?thesis
    by (auto simp: inserted_def sample_elems no_room_def HT_MAX_SIZE_def split: sum.splits)
qed

theorem update_ind_writes_through_witness:
  "\<exists>ht. zend_hash_update_ind ht (zend_string_init [97]) IS_NULL sample_globals =
     indirect_stored ht sample_globals 4 IS_NULL"
proof -
  obtain ht where "ht_inv ht" "map_of (elems ht) (KStr [97]) = Some (IS_INDIRECT 4)"
    using indirect_table by blast
  then show ?thesis
    using update_ind_writes_through [of ht "zend_string_init [97]" IS_NULL 4 sample_globals]
    by (auto simp: str_ok_def zend_string_init_def)
qed

subsection \<open>Inserting under a number\<close>

text \<open>
  C5. \<open>zend_hash_index_update\<close> is an update of the ordered map on every path: in a packed
  table, in one that grows or turns into a mixed one for the new key, and in a mixed table.
  \<open>index_inserted\<close> also gives the next free index, and names the failures: the fatal error
  at the maximal size, and the failed assertion of finding 3.
\<close>

theorem index_update_is_map_update:
  assumes "ht_inv ht" "v \<noteq> IS_UNDEF"
  shows "case map_of (elems ht) (KNum h) of
      None \<Rightarrow> index_inserted ht eg h v (zend_hash_index_update ht h v eg)
    | Some w \<Rightarrow> replaced ht eg (KNum h) w v (zend_hash_index_update ht h v eg)"
proof (cases "map_of (elems ht) (KNum h)")
  case None
  then show ?thesis using index_absent [OF assms(1), of HASH_UPDATE v h eg] assms(2)
    by (simp add: zend_hash_index_update_def index_key_def lookup_val_def)
next
  case (Some w)
  then show ?thesis using index_present [OF assms(1), of h HASH_UPDATE w v eg] assms(2)
    by (simp add: zend_hash_index_update_def index_key_def index_present_effect_def)
qed

theorem index_update_is_map_update_witness:
  "index_inserted sample_packed sample_globals 1 IS_NULL (zend_hash_index_update sample_packed 1 IS_NULL sample_globals) \<and>
   replaced sample_mixed sample_globals (KNum 5) (IS_LONG 7) IS_NULL
     (zend_hash_index_update sample_mixed 5 IS_NULL sample_globals)"
  using index_update_is_map_update [OF sample_packed_inv, where v = IS_NULL and h = 1 and eg = sample_globals]
    index_update_is_map_update [OF sample_mixed_inv, where v = IS_NULL and h = 5 and eg = sample_globals]
  by (simp add: sample_elems)

text \<open>
  \<open>$a[] = v\<close>: unless the next free index is \<open>ZEND_LONG_MAX\<close>, the value is appended
  under the next free index, 0 for a table that never had an index.
\<close>

theorem next_insert_appends:
  assumes "ht_inv ht" "nNextFreeElement ht \<noteq> ZEND_LONG_MAX" "v \<noteq> IS_UNDEF"
  shows "index_inserted ht eg (next_key ht) v (zend_hash_next_index_insert ht v eg)"
  using assms by (rule next_index_insert_spec)

theorem next_insert_appends_witness:
  "index_inserted sample_packed sample_globals 3 IS_NULL
     (zend_hash_next_index_insert sample_packed IS_NULL sample_globals)"
  using next_insert_appends [OF sample_packed_inv, of IS_NULL sample_globals]
  by (simp add: next_key_def ZEND_LONG_MAX_def ZEND_LONG_MIN_def)

text \<open>
  When the index \<open>ZEND_LONG_MAX\<close> is taken, appending fails with \<open>NULL\<close> and changes
  nothing.
\<close>

theorem next_insert_fails_when_full:
  assumes "ht_inv ht" "nNextFreeElement ht = ZEND_LONG_MAX" "v \<noteq> IS_UNDEF"
    "map_of (elems ht) (KNum (word_of_int ZEND_LONG_MAX)) = Some w"
  shows "zend_hash_next_index_insert ht v eg = Inr (ht, eg, None)"
  using assms by (rule next_index_insert_full)

lemma full_index_table:
  "\<exists>ht. ht_inv ht \<and> nNextFreeElement ht = ZEND_LONG_MAX \<and>
     map_of (elems ht) (KNum (word_of_int ZEND_LONG_MAX)) = Some IS_TRUE"
proof -
  let ?h = "word_of_int ZEND_LONG_MAX :: 64 word"
  have h: "sint ?h = ZEND_LONG_MAX" by (rule sint_of_long) (simp_all add: ZEND_LONG_MAX_def ZEND_LONG_MIN_def)
  have u: "uint ?h = ZEND_LONG_MAX" by (simp add: ZEND_LONG_MAX_def)
  have "index_inserted sample_mixed sample_globals ?h IS_TRUE
      (zend_hash_index_update sample_mixed ?h IS_TRUE sample_globals)"
    using index_absent [OF sample_mixed_inv, of HASH_UPDATE IS_TRUE ?h sample_globals]
    by (simp add: zend_hash_index_update_def index_key_def lookup_val_def sample_elems ZEND_LONG_MAX_def)
  then obtain ht eg l where ht: "ht_inv ht" "elems ht = elems sample_mixed @ [(KNum ?h, IS_TRUE)]"
    "nNextFreeElement ht = (if f_packed ht then uint ?h + 1 else next_after 6 ?h)"
    by (auto simp: index_inserted_def sample_elems no_room_def HT_MAX_SIZE_def split: sum.splits)
  have "f_packed ht = False"
    using ht(1,3) u by (auto simp: ht_inv_def next_free_ok_def)
  then have "nNextFreeElement ht = ZEND_LONG_MAX"
    using ht(3) h by (simp add: next_after_def ZEND_LONG_MAX_def)
  moreover have "map_of (elems ht) (KNum ?h) = Some IS_TRUE"
    using ht(2) by (simp add: sample_elems ZEND_LONG_MAX_def)
  ultimately show ?thesis using ht(1) by blast
qed

theorem next_insert_fails_when_full_witness:
  "\<exists>ht. zend_hash_next_index_insert ht IS_NULL sample_globals = Inr (ht, sample_globals, None)"
  using full_index_table next_insert_fails_when_full [of _ IS_NULL IS_TRUE sample_globals] by blast

subsection \<open>Restructuring\<close>

text \<open>
  C7. Rehashing ends, keeps the invariant, all entries in their order and the entry under
  the internal pointer, and leaves no holes.
\<close>

theorem rehash_keeps_entries:
  assumes "ht_inv ht" "\<not> f_packed ht" "\<not> f_uninit ht"
  shows "\<exists>ht' eg'. zend_hash_rehash ht eg = Inr (ht', eg') \<and> ht_inv ht' \<and> elems ht' = elems ht \<and>
    HT_IS_WITHOUT_HOLES ht' \<and> nTableSize ht' = nTableSize ht \<and>
    from_pos ht' (nInternalPointer ht') = from_pos ht (nInternalPointer ht)"
  by (rule rehash_spec [OF rehashable_inv [OF assms], of eg])
    (auto simp: HT_IS_WITHOUT_HOLES_def table_frame_def)

theorem rehash_keeps_entries_witness:
  "\<exists>ht' eg'. zend_hash_rehash sample_mixed sample_globals = Inr (ht', eg') \<and> ht_inv ht' \<and>
    elems ht' = elems sample_mixed \<and> HT_IS_WITHOUT_HOLES ht' \<and> nTableSize ht' = nTableSize sample_mixed \<and>
    from_pos ht' (nInternalPointer ht') = from_pos sample_mixed (nInternalPointer sample_mixed)"
  by (rule rehash_keeps_entries) (simp_all add: sample_mixed_inv)

text \<open>
  C33. A packed table turned into a mixed one has the same entries; turned back, as long as
  every key is its place, it is packed with the same entries again.
\<close>

theorem packed_to_hash_and_back:
  assumes "ht_inv ht" "f_packed ht" "HT_IS_WITHOUT_HOLES ht"
  shows "\<exists>ht' eg' ht''. zend_hash_packed_to_hash ht eg = Inr (ht', eg') \<and> ht_inv ht' \<and> \<not> f_packed ht' \<and>
    elems ht' = elems ht \<and> zend_hash_to_packed ht' = Inr ht'' \<and> ht_inv ht'' \<and> f_packed ht'' \<and>
    elems ht'' = elems ht"
proof -
  obtain ht' eg' where h: "zend_hash_packed_to_hash ht eg = Inr (ht', eg')" "ht_inv ht'"
    "elems ht' = elems ht" "\<not> f_packed ht'" "\<not> f_uninit ht'" "nNumUsed ht' = nNumOfElements ht"
    "table_frame ht ht'"
    using packed_to_hash_spec [OF unpackable_inv [OF assms(1,2)], of eg] by metis
  have used: "nNumUsed ht' = nNumUsed ht" using h(6) assms(3) by (simp add: HT_IS_WITHOUT_HOLES_def)
  have "HT_IS_WITHOUT_HOLES ht'" using h(6,7) by (simp add: HT_IS_WITHOUT_HOLES_def table_frame_def)
  have nth: "entries f n ! i = the (f i)" if "\<forall>i<n. f i \<noteq> None" "i < n"
    for f :: "nat \<Rightarrow> (hkey \<times> zval) option" and n i
    using that
  proof (induction n)
    case (Suc n)
    have l: "length (entries f n) = n" using Suc.prems length_entries_full [of f n] by auto
    show ?case using Suc l by (cases "i = n") (auto simp: nth_append less_Suc_eq split: option.splits)
  qed simp
  have full: "\<forall>i<nNumUsed ht. entry_at ht i \<noteq> None" "\<forall>i<nNumUsed ht. entry_at ht' i \<noteq> None"
    using elems_without_holes [OF assms(1)] elems_without_holes [OF h(2)] assms(3)
      \<open>HT_IS_WITHOUT_HOLES ht'\<close> used by auto
  have "keys_are_places ht'"
  proof -
    have "fst kv = KNum (of_nat i)" if "i < nNumUsed ht'" "entry_at ht' i = Some kv" for i kv
    proof -
      have i: "i < nNumUsed ht" using that(1) used by simp
      have "entry_at ht' i = entry_at ht i"
        using nth [OF full(1) i] nth [OF full(2) i] full i h(3)
        by (auto simp: elems_def used)
      then show ?thesis using that(2) assms(2)
        by (auto simp: entry_at_def packed_entry_def split: option.splits if_splits)
    qed
    then show ?thesis by (auto simp: keys_are_places_def split: option.splits)
  qed
  then obtain ht'' where "zend_hash_to_packed ht' = Inr ht''" "ht_inv ht''" "f_packed ht''" "elems ht'' = elems ht'"
    using to_packed_spec [OF h(2,4,5)] by metis
  then show ?thesis using h by auto
qed

lemma pair_table:
  "case zend_new_pair 4 IS_TRUE IS_NULL of Inl e \<Rightarrow> False
   | Inr ht \<Rightarrow> ht_inv ht \<and> f_packed ht \<and> HT_IS_WITHOUT_HOLES ht \<and> elems ht = [(KNum 0, IS_TRUE), (KNum 1, IS_NULL)]"
  by code_simp

theorem packed_to_hash_and_back_witness:
  "\<exists>ht ht' eg' ht''. elems ht = [(KNum 0, IS_TRUE), (KNum 1, IS_NULL)] \<and>
    zend_hash_packed_to_hash ht sample_globals = Inr (ht', eg') \<and> ht_inv ht' \<and> \<not> f_packed ht' \<and>
    elems ht' = elems ht \<and> zend_hash_to_packed ht' = Inr ht'' \<and> ht_inv ht'' \<and> f_packed ht'' \<and>
    elems ht'' = elems ht"
proof -
  obtain ht where ht: "ht_inv ht" "f_packed ht" "HT_IS_WITHOUT_HOLES ht"
    "elems ht = [(KNum 0, IS_TRUE), (KNum 1, IS_NULL)]"
    using pair_table by (auto split: sum.splits)
  then show ?thesis using packed_to_hash_and_back [OF ht(1-3), of sample_globals] by blast
qed

text \<open>
  C34. \<open>zend_hash_extend\<close> makes room for the requested number of entries and keeps the
  entries, on a table that is not initialised, packed or mixed.
\<close>

theorem extend_makes_room:
  assumes "ht_inv ht" "0 < nSize" "nSize \<le> HT_MAX_SIZE"
    "f_uninit ht \<and> \<not> f_packed ht \<or> f_packed ht = packed"
  shows "\<exists>ht' eg'. zend_hash_extend ht nSize packed eg = Inr (ht', eg') \<and> ht_inv ht' \<and>
    elems ht' = elems ht \<and> nSize \<le> nTableSize ht' \<and> f_packed ht' = packed \<and> \<not> f_uninit ht'"
  by (rule extend_spec [OF assms]) blast

theorem extend_makes_room_witness:
  "\<exists>ht' eg'. zend_hash_extend sample_packed 20 True sample_globals = Inr (ht', eg') \<and> ht_inv ht' \<and>
    elems ht' = elems sample_packed \<and> 20 \<le> nTableSize ht' \<and> f_packed ht' = True \<and> \<not> f_uninit ht'"
  by (rule extend_makes_room) (simp_all add: sample_packed_inv HT_MAX_SIZE_def)

text \<open>\<open>zend_hash_discard\<close> cuts the table back to its first places, chains included.\<close>

theorem discard_cuts_back:
  assumes "ht_inv ht" "\<not> f_packed ht" "n \<le> nNumUsed ht"
  shows "\<exists>ht'. zend_hash_discard ht n = Inr ht' \<and> ht_inv ht' \<and> nNumUsed ht' = n \<and>
    elems ht' = entries (entry_at ht) n"
  by (rule discard_spec [OF assms]) blast

theorem discard_cuts_back_witness:
  "\<exists>ht'. zend_hash_discard sample_mixed 1 = Inr ht' \<and> ht_inv ht' \<and> nNumUsed ht' = 1 \<and>
    elems ht' = entries (entry_at sample_mixed) 1"
  by (rule discard_cuts_back) (simp_all add: sample_mixed_inv)

end
