(* ===== verification/HashDelete.thy ===== *)
theory HashDelete
  imports HashIndex
begin

text \<open>
  Deleting entries: \<open>_zend_hash_packed_del_val\<close>, \<open>_zend_hash_del_el_ex\<close> and the public
  deletions of \<open>Zend/zend_hash.c\<close>. A deletion leaves a hole, or shortens the used part when
  the entry is the last one; \<open>AList.delete\<close> is its effect on the ordered map and on what
  every iterator still has before it. The results \<open>SUCCESS\<close> and \<open>FAILURE\<close> are booleans.
\<close>

subsection \<open>Removing one place\<close>

text \<open>
  The loop that lowers \<open>nNumUsed\<close> past trailing holes; \<open>hole\<close> reads a cell. It is entered
  with \<open>nNumUsed > 0\<close>.
\<close>

fun trim_used :: "(nat \<Rightarrow> error + bool) \<Rightarrow> nat \<Rightarrow> error + nat" where
  "trim_used hole 0 = Inl OutOfBounds"
| "trim_used hole (Suc n) =
     (if n > 0 then bindE (hole (n - 1)) (\<lambda>h. if h then trim_used hole n else Inr n) else Inr 0)"

definition shorten :: "(nat \<Rightarrow> error + bool) \<Rightarrow> nat \<Rightarrow> HashTable \<Rightarrow> executor_globals
    \<Rightarrow> error + (HashTable \<times> executor_globals)" where
  "shorten hole idx ht eg =
     (if nNumUsed ht = idx + 1 then
        bindE (trim_used hole (nNumUsed ht)) (\<lambda>n.
          let ht = ht\<lparr>nNumUsed := n, nInternalPointer := min (nInternalPointer ht) n\<rparr>
          in Inr (ht, zend_hash_iterators_clamp_max ht n eg))
      else Inr (ht, eg))"

definition zend_hash_packed_del_val_i :: "HashTable \<Rightarrow> nat \<Rightarrow> executor_globals
    \<Rightarrow> error + (HashTable \<times> executor_globals)" where
  "zend_hash_packed_del_val_i ht idx eg =
     (let ht = ht\<lparr>nNumOfElements := nNumOfElements ht - 1\<rparr> in
      bindE (shorten (\<lambda>j. bindE (rd (arPacked ht) j) (\<lambda>v. Inr (v = IS_UNDEF))) idx ht eg) (\<lambda>(ht, eg).
      bindE (rd (arPacked ht) idx) (\<lambda>tmp.
      bindE (wr (arPacked ht) idx IS_UNDEF) (\<lambda>pk.
        Inr (ht\<lparr>arPacked := pk\<rparr>, dtor_call ht tmp eg)))))"

definition unlink :: "HashTable \<Rightarrow> Bucket \<Rightarrow> nat option \<Rightarrow> error + HashTable" where
  "unlink ht p prev =
     (case prev of
        Some j \<Rightarrow>
          bindE (rd (arData ht) j) (\<lambda>q.
          bindE (wr (arData ht) j (q\<lparr>b_next := b_next p\<rparr>)) (\<lambda>d. Inr (ht\<lparr>arData := d\<rparr>)))
      | None \<Rightarrow>
          bindE (wri (arHash ht) (slot (nTableMask ht) (b_h p)) (b_next p)) (\<lambda>hs. Inr (ht\<lparr>arHash := hs\<rparr>)))"

definition zend_hash_del_el_ex :: "HashTable \<Rightarrow> nat \<Rightarrow> nat option \<Rightarrow> executor_globals
    \<Rightarrow> error + (HashTable \<times> executor_globals)" where
  "zend_hash_del_el_ex ht idx prev eg =
     bindE (rd (arData ht) idx) (\<lambda>p.
     bindE (unlink ht p prev) (\<lambda>ht.
     let ht = ht\<lparr>nNumOfElements := nNumOfElements ht - 1\<rparr> in
     bindE (shorten (\<lambda>j. bindE (rd (arData ht) j) (\<lambda>p. Inr (b_val p = IS_UNDEF))) idx ht eg) (\<lambda>(ht, eg).
     bindE (rd (arData ht) idx) (\<lambda>p.
     bindE (wr (arData ht) idx (p\<lparr>b_val := IS_UNDEF\<rparr>)) (\<lambda>d.
       Inr (ht\<lparr>arData := d\<rparr>, dtor_call ht (b_val p) eg))))))"

text \<open>\<open>zend_string_release(p->key); p->key = NULL;\<close>\<close>

definition release_key :: "HashTable \<Rightarrow> nat \<Rightarrow> executor_globals \<Rightarrow> error + (HashTable \<times> executor_globals)" where
  "release_key ht idx eg =
     bindE (rd (arData ht) idx) (\<lambda>p.
       case b_key p of None \<Rightarrow> Inr (ht, eg)
       | Some k \<Rightarrow> bindE (wr (arData ht) idx (p\<lparr>b_key := None\<rparr>)) (\<lambda>d.
                    Inr (ht\<lparr>arData := d\<rparr>, emit (EvStrRelease k) eg)))"

fun find_prev :: "nat \<Rightarrow> Bucket option list \<Rightarrow> nat \<Rightarrow> nat \<Rightarrow> error + nat" where
  "find_prev 0 d idx i = Inl NoReturn"
| "find_prev (Suc fuel) d idx i =
     bindE (rd d i) (\<lambda>p. if b_next p = idx then Inr i else find_prev fuel d idx (b_next p))"

definition zend_hash_del_el :: "HashTable \<Rightarrow> nat \<Rightarrow> executor_globals
    \<Rightarrow> error + (HashTable \<times> executor_globals)" where
  "zend_hash_del_el ht idx eg =
     bindE (rd (arData ht) idx) (\<lambda>p.
     bindE (rdi (arHash ht) (slot (nTableMask ht) (b_h p))) (\<lambda>i.
     bindE (if i \<noteq> idx
            then bindE (find_prev (Suc (length (arData ht))) (arData ht) idx i) (\<lambda>j. Inr (Some j))
            else Inr None) (\<lambda>prev.
     bindE (release_key ht idx eg) (\<lambda>(ht, eg). zend_hash_del_el_ex ht idx prev eg))))"

subsection \<open>The public deletions\<close>

definition zend_hash_packed_del_val :: "HashTable \<Rightarrow> nat \<Rightarrow> executor_globals
    \<Rightarrow> error + (HashTable \<times> executor_globals)" where
  "zend_hash_packed_del_val ht zv eg = assertE (f_packed ht) (\<lambda>_. zend_hash_packed_del_val_i ht zv eg)"

definition zend_hash_del_bucket :: "HashTable \<Rightarrow> nat \<Rightarrow> executor_globals
    \<Rightarrow> error + (HashTable \<times> executor_globals)" where
  "zend_hash_del_bucket ht p eg = assertE (\<not> f_packed ht) (\<lambda>_. zend_hash_del_el ht p eg)"

text \<open>What the loops do with the bucket they find: \<open>del_found\<close>, and its indirect variant.\<close>

definition del_found :: "HashTable \<Rightarrow> nat \<Rightarrow> nat option \<Rightarrow> executor_globals
    \<Rightarrow> error + (HashTable \<times> executor_globals \<times> bool)" where
  "del_found ht idx prev eg =
     bindE (release_key ht idx eg) (\<lambda>(ht, eg).
     bindE (zend_hash_del_el_ex ht idx prev eg) (\<lambda>(ht, eg). Inr (ht, eg, True)))"

definition undef_indirect :: "HashTable \<Rightarrow> nat \<Rightarrow> executor_globals \<Rightarrow> HashTable \<times> executor_globals" where
  "undef_indirect ht a eg =
     (ht\<lparr>f_empty_ind := True\<rparr>,
      dtor_call ht (indirect eg a) (eg\<lparr>indirect := (indirect eg)(a := IS_UNDEF)\<rparr>))"

definition del_found_ind :: "HashTable \<Rightarrow> nat \<Rightarrow> nat option \<Rightarrow> executor_globals
    \<Rightarrow> error + (HashTable \<times> executor_globals \<times> bool)" where
  "del_found_ind ht idx prev eg =
     bindE (rd (arData ht) idx) (\<lambda>p.
       case b_val p of
         IS_INDIRECT a \<Rightarrow>
           if indirect eg a = IS_UNDEF then Inr (ht, eg, False)
           else (case undef_indirect ht a eg of (ht, eg) \<Rightarrow> Inr (ht, eg, True))
       | _ \<Rightarrow> del_found ht idx prev eg)"

definition zend_hash_del :: "HashTable \<Rightarrow> zend_string \<Rightarrow> executor_globals
    \<Rightarrow> error + (HashTable \<times> executor_globals \<times> bool)" where
  "zend_hash_del ht key eg =
     (let key = zend_string_hash_val key in
      bindE (find_in_slot ht (zs_h key) (str_match key)) (\<lambda>r.
        case r of None \<Rightarrow> Inr (ht, eg, False) | Some (idx, prev) \<Rightarrow> del_found ht idx prev eg))"

definition zend_hash_del_ind :: "HashTable \<Rightarrow> zend_string \<Rightarrow> executor_globals
    \<Rightarrow> error + (HashTable \<times> executor_globals \<times> bool)" where
  "zend_hash_del_ind ht key eg =
     (let key = zend_string_hash_val key in
      bindE (find_in_slot ht (zs_h key) (str_match key)) (\<lambda>r.
        case r of None \<Rightarrow> Inr (ht, eg, False) | Some (idx, prev) \<Rightarrow> del_found_ind ht idx prev eg))"

definition zend_hash_str_del_ind :: "HashTable \<Rightarrow> 8 word list \<Rightarrow> executor_globals
    \<Rightarrow> error + (HashTable \<times> executor_globals \<times> bool)" where
  "zend_hash_str_del_ind ht str eg =
     (let h = zend_inline_hash_func str in
      bindE (find_in_slot ht h (cstr_match str h)) (\<lambda>r.
        case r of None \<Rightarrow> Inr (ht, eg, False) | Some (idx, prev) \<Rightarrow> del_found_ind ht idx prev eg))"

definition zend_hash_str_del :: "HashTable \<Rightarrow> 8 word list \<Rightarrow> executor_globals
    \<Rightarrow> error + (HashTable \<times> executor_globals \<times> bool)" where
  "zend_hash_str_del ht str eg =
     (let h = zend_inline_hash_func str in
      bindE (find_in_slot ht h (cstr_match str h)) (\<lambda>r.
        case r of None \<Rightarrow> Inr (ht, eg, False) | Some (idx, prev) \<Rightarrow> del_found ht idx prev eg))"

definition zend_hash_index_del :: "HashTable \<Rightarrow> 64 word \<Rightarrow> executor_globals
    \<Rightarrow> error + (HashTable \<times> executor_globals \<times> bool)" where
  "zend_hash_index_del ht h eg =
     (if f_packed ht then
        (if unat h < nNumUsed ht then
           bindE (rd (arPacked ht) (unat h)) (\<lambda>zv.
             if zv \<noteq> IS_UNDEF then
               bindE (zend_hash_packed_del_val_i ht (unat h) eg) (\<lambda>(ht, eg). Inr (ht, eg, True))
             else Inr (ht, eg, False))
         else Inr (ht, eg, False))
      else
        bindE (find_in_slot ht h (idx_match h)) (\<lambda>r.
          case r of None \<Rightarrow> Inr (ht, eg, False)
          | Some (idx, prev) \<Rightarrow>
              bindE (zend_hash_del_el_ex ht idx prev eg) (\<lambda>(ht, eg). Inr (ht, eg, True))))"

subsection \<open>A hole and the entries\<close>

lemma entries_split: "m \<le> n \<Longrightarrow> \<exists>rest. entries f n = entries f m @ rest"
proof (induction n)
  case (Suc n)
  then show ?case by (cases "m = Suc n") (auto simp: le_Suc_eq)
qed simp

lemma entries_hole:
  assumes k: "f i = Some (k, v)" "i < n" "distinct (map fst (entries f n))"
    and g: "\<And>j. j < n \<Longrightarrow> j \<noteq> i \<Longrightarrow> g j = f j" "g i = None" and m: "m \<le> n"
  shows "entries g m = AList.delete k (entries f m)"
proof -
  obtain rest where rest: "entries f n = entries f m @ rest" using entries_split [OF m] by blast
  show ?thesis
  proof (cases "i < m")
    case True
    have "distinct (map fst (entries f m))" using k(3) rest by simp
    then show ?thesis using entries_delete [of f i k v m g] k(1) True g m by simp
  next
    case False
    have "k \<notin> fst ` set (entries f m)"
    proof
      assume "k \<in> fst ` set (entries f m)"
      then obtain w where "(k, w) \<in> set (entries f m)" by (metis imageE prod.collapse)
      then obtain j where "j < m" "f j = Some (k, w)" by (auto simp: set_entries)
      then show False using entries_index [OF k(1,2,3), of j w] False m by simp
    qed
    moreover have "entries g m = entries f m" using g(1) False m by (intro entries_cong) simp
    ultimately show ?thesis by (simp add: delete_notin)
  qed
qed

text \<open>What is left from a place on: \<open>from_pos\<close> of a table in terms of its cells.\<close>

lemma hole_from_pos:
  assumes k: "f i = Some (k, v)" "i < n" "distinct (map fst (entries f n))"
    and g: "\<And>j. j < n \<Longrightarrow> j \<noteq> i \<Longrightarrow> g j = f j" "g i = None"
    and n': "n' \<le> n" "\<And>j. n' \<le> j \<Longrightarrow> j < n \<Longrightarrow> g j = None"
  shows "entries g n' = AList.delete k (entries f n)"
    "drop (length (entries g (min p n'))) (entries g n') =
      AList.delete k (drop (length (entries f (min p n))) (entries f n))"
proof -
  have tr: "entries g m = entries g n'" if "n' \<le> m" "m \<le> n" for m
    using that n' by (intro entries_trim) auto
  have all: "entries g n' = entries g n" using tr [of n] n'(1) by simp
  note del = entries_hole [OF k g]
  show "entries g n' = AList.delete k (entries f n)" using all del [of n] by simp
  have q: "entries g (min p n') = entries g (min p n)"
  proof (cases "p \<le> n'")
    case False
    then have "min p n' = n'" "n' \<le> min p n" "min p n \<le> n" using n'(1) by auto
    then show ?thesis using tr [of "min p n"] by simp
  qed (use n'(1) in \<open>simp add: min_def\<close>)
  obtain rest where rest: "entries f n = entries f (min p n) @ rest"
    using entries_split [of "min p n" n f] by auto
  have "entries g n' = entries g (min p n) @ AList.delete k rest"
    unfolding all using del [of n] del [of "min p n"] rest by (simp add: delete_append)
  then show "drop (length (entries g (min p n'))) (entries g n') =
      AList.delete k (drop (length (entries f (min p n))) (entries f n))"
    unfolding q by (simp add: rest)
qed

subsection \<open>The loops of a deletion\<close>

lemma trim_used_ok:
  assumes "0 < n" "\<And>j. j < n - 1 \<Longrightarrow> hole j = Inr (H j)"
  shows "\<exists>n'<n. trim_used hole n = Inr n' \<and> (\<forall>k. n' \<le> k \<longrightarrow> k < n - 1 \<longrightarrow> H k)"
  using assms
proof (induction n)
  case (Suc n)
  show ?case
  proof (cases "n > 0 \<and> H (n - 1)")
    case True
    then obtain n' where n': "n' < n" "trim_used hole n = Inr n'" "\<forall>k. n' \<le> k \<longrightarrow> k < n - 1 \<longrightarrow> H k"
      using Suc by auto
    have "H k" if "n' \<le> k" "k < n" for k
      using n'(3) that True by (cases "k = n - 1") auto
    then show ?thesis using n' True Suc.prems(2) [of "n - 1"] by (intro exI [of _ n']) auto
  next
    case False
    then show ?thesis using Suc.prems(2) [of "n - 1"] by (intro exI [of _ n]) auto
  qed
qed simp

text \<open>
  Iterators of the table may be moved down to \<open>n\<close>; when the table counts its iterators, none of
  the used ones that was in the table is left behind \<open>n\<close>.
\<close>

definition iters_clamped :: "HashTable \<Rightarrow> nat \<Rightarrow> executor_globals \<Rightarrow> executor_globals \<Rightarrow> bool" where
  "iters_clamped ht n eg eg' \<longleftrightarrow>
     eg_same eg eg' \<and>
     list_all2 (\<lambda>it it'. it' = it \<or> it_ht it = IterHT (ht_addr ht) \<and> it' = it\<lparr>it_pos := min (it_pos it) n\<rparr>)
       (ht_iterators eg) (ht_iterators eg') \<and>
     (nIteratorsCount ht \<noteq> 0 \<longrightarrow>
        (\<forall>i. i < ht_iterators_used eg \<and> i < length (ht_iterators eg) \<and>
           it_ht (ht_iterators eg ! i) = IterHT (ht_addr ht) \<and> it_pos (ht_iterators eg ! i) \<le> nNumUsed ht \<longrightarrow>
           it_pos (ht_iterators eg' ! i) \<le> n))"

lemma iters_clamped_refl [simp]: "nNumUsed ht \<le> n \<Longrightarrow> iters_clamped ht n eg eg"
  by (auto simp: iters_clamped_def list.rel_refl)

lemma map_used_nth:
  assumes "i < ht_iterators_used eg" "i < length (ht_iterators eg)"
  shows "ht_iterators (map_used f eg) ! i = f (ht_iterators eg ! i)"
  using assms by (simp add: map_used_def nth_append)

lemma clamp_max_clamped: "iters_clamped ht n eg (zend_hash_iterators_clamp_max ht n eg)"
proof -
  let ?its = "ht_iterators eg" and ?u = "ht_iterators_used eg"
  have "list_all2 (\<lambda>it it'. it' = it \<or> it_ht it = IterHT (ht_addr ht) \<and> it' = it\<lparr>it_pos := min (it_pos it) n\<rparr>)
      (take ?u ?its @ drop ?u ?its)
      (map (\<lambda>it. if it_ht it = IterHT (ht_addr ht) then it\<lparr>it_pos := min (it_pos it) n\<rparr> else it)
         (take ?u ?its) @ drop ?u ?its)"
    by (rule list_all2_appendI) (auto simp: list_all2_map2 list.rel_refl intro!: list.rel_refl_strong)
  then have "list_all2 (\<lambda>it it'. it' = it \<or> it_ht it = IterHT (ht_addr ht) \<and> it' = it\<lparr>it_pos := min (it_pos it) n\<rparr>)
      (ht_iterators eg) (ht_iterators (zend_hash_iterators_clamp_max ht n eg))"
    by (cases "HT_HAS_ITERATORS ht") (simp_all add: zend_hash_iterators_clamp_max_def map_used_def list.rel_refl)
  moreover have "it_pos (ht_iterators (zend_hash_iterators_clamp_max ht n eg) ! i) \<le> n"
    if "nIteratorsCount ht \<noteq> 0" "i < ?u" "i < length ?its" "it_ht (?its ! i) = IterHT (ht_addr ht)" for i
    using that by (simp add: zend_hash_iterators_clamp_max_def HT_HAS_ITERATORS_def map_used_nth)
  ultimately show ?thesis unfolding iters_clamped_def by (simp only: iterators_clamp_same simp_thms) blast
qed

lemma shorten_ok:
  assumes "idx < nNumUsed ht" "\<And>j. j < nNumUsed ht \<Longrightarrow> j \<noteq> idx \<Longrightarrow> hole j = Inr (H j)"
  shows "\<exists>n ip eg'. shorten hole idx ht eg = Inr (ht\<lparr>nNumUsed := n, nInternalPointer := ip\<rparr>, eg') \<and>
     n \<le> nNumUsed ht \<and> (\<forall>k. n \<le> k \<longrightarrow> k < nNumUsed ht \<longrightarrow> k = idx \<or> H k) \<and>
     min ip n = min (nInternalPointer ht) n \<and> iters_clamped ht n eg eg'"
proof (cases "nNumUsed ht = idx + 1")
  case True
  have "0 < nNumUsed ht" "\<And>j. j < nNumUsed ht - 1 \<Longrightarrow> hole j = Inr (H j)"
    using True assms(2) by auto
  from trim_used_ok [of "nNumUsed ht" hole H, OF this] obtain n where
    n: "n < nNumUsed ht" "trim_used hole (nNumUsed ht) = Inr n"
      "\<forall>k. n \<le> k \<longrightarrow> k < nNumUsed ht - 1 \<longrightarrow> H k" by blast
  have "k = idx \<or> H k" if "n \<le> k" "k < nNumUsed ht" for k
    using n(3) that True by (cases "k = idx") auto
  moreover have "iters_clamped ht n eg (zend_hash_iterators_clamp_max
      (ht\<lparr>nNumUsed := n, nInternalPointer := min (nInternalPointer ht) n\<rparr>) n eg)"
    using clamp_max_clamped [of ht n eg]
    by (auto simp: zend_hash_iterators_clamp_max_def HT_HAS_ITERATORS_def split: if_splits)
  ultimately show ?thesis using True n(1,2)
    by (intro exI [of _ n] exI [of _ "min (nInternalPointer ht) n"]) (auto simp: shorten_def Let_def)
next
  case False
  then show ?thesis
    by (intro exI [of _ "nNumUsed ht"] exI [of _ "nInternalPointer ht"] exI [of _ eg])
      (simp add: shorten_def)
qed

lemma chains_ok_trim:
  assumes "chains_ok d m hs n" "n' \<le> n" "\<And>k. n' \<le> k \<Longrightarrow> k < n \<Longrightarrow> bucket_entry (d ! k) = None"
  shows "chains_ok d m hs n'"
proof -
  have "\<not> in_slot d m s k" if "n' \<le> k" "k < n" for s k
    using assms(3) [OF that] by (auto simp: in_slot_def bucket_entry_def split: option.splits if_splits)
  then have "last_in (in_slot d m s) n = last_in (in_slot d m s) n'" for s
    using assms(2) by (intro last_in_mono) auto
  then show ?thesis using assms(1,2) by (auto simp: chains_ok_def split: option.splits)
qed

subsection \<open>The effect of a deletion\<close>

text \<open>
  \<open>removed\<close>: the entry of \<open>k\<close> is gone from the map and from what every position has
  before it; iterators stay on the entry they were on, or move to the new end.
\<close>

definition written :: "HashTable \<Rightarrow> nat \<Rightarrow> bool" where
  "written ht j \<longleftrightarrow>
     (if f_packed ht then j < length (arPacked ht) \<and> arPacked ht ! j \<noteq> None
      else j < length (arData ht) \<and> arData ht ! j \<noteq> None)"

definition cells_kept :: "HashTable \<Rightarrow> HashTable \<Rightarrow> bool" where
  "cells_kept ht ht' \<longleftrightarrow>
     (\<forall>j. (written ht j \<longrightarrow> written ht' j) \<and> (entry_at ht j = None \<longrightarrow> entry_at ht' j = None) \<and>
          (nNumUsed ht' \<le> j \<and> j < nNumUsed ht \<longrightarrow> entry_at ht' j = None))"

definition removed :: "HashTable \<Rightarrow> executor_globals \<Rightarrow> hkey \<Rightarrow> event list
    \<Rightarrow> HashTable \<Rightarrow> executor_globals \<Rightarrow> bool" where
  "removed ht eg k evs ht' eg' \<longleftrightarrow>
     ht_inv ht' \<and> elems ht' = AList.delete k (elems ht) \<and>
     (\<forall>p. from_pos ht' p = AList.delete k (from_pos ht p)) \<and>
     from_pos ht' (nInternalPointer ht') = AList.delete k (from_pos ht (nInternalPointer ht)) \<and>
     f_packed ht' = f_packed ht \<and> f_uninit ht' = f_uninit ht \<and>
     nNextFreeElement ht' = nNextFreeElement ht \<and> ht_addr ht' = ht_addr ht \<and>
     pDestructor ht' = pDestructor ht \<and> nNumUsed ht' \<le> nNumUsed ht \<and> nTableSize ht' = nTableSize ht \<and>
     cells_kept ht ht' \<and> events eg' = events eg @ evs \<and> indirect eg' = indirect eg \<and>
     iters_clamped ht (nNumUsed ht') eg (eg'\<lparr>events := events eg\<rparr>)"

lemma from_pos_eq: "min p (nNumUsed ht) = min q (nNumUsed ht) \<Longrightarrow> from_pos ht p = from_pos ht q"
  by (simp add: from_pos_def)

lemma clamped_events: "iters_clamped ht n eg eg' \<Longrightarrow> eg'\<lparr>events := events eg\<rparr> = eg'"
  using eg_same_fields(3) [of eg eg'] by (simp add: iters_clamped_def flip: eg_same_fields(3))

text \<open>The removal of one cell of either kind of table, once its memory operations are done.\<close>

lemma removedI:
  assumes inv: "ht_inv ht" and i: "i < nNumUsed ht" "entry_at ht i = Some (k, v)"
    and cells: "\<And>j. j \<noteq> i \<Longrightarrow> entry_at ht' j = entry_at ht j" "entry_at ht' i = None"
      "\<And>j. written ht j \<Longrightarrow> written ht' j"
    and n: "nNumUsed ht' \<le> nNumUsed ht"
      "\<And>j. nNumUsed ht' \<le> j \<Longrightarrow> j < nNumUsed ht \<Longrightarrow> j \<noteq> i \<Longrightarrow> entry_at ht j = None"
    and shape: "if f_packed ht' then packed_ok ht' else if f_uninit ht' then uninit_ok ht' else mixed_ok ht'"
    and fields: "nTableSize ht' = nTableSize ht" "nNumOfElements ht' = nNumOfElements ht - 1"
      "nNextFreeElement ht' = nNextFreeElement ht" "f_packed ht' = f_packed ht" "f_uninit ht' = f_uninit ht"
      "ht_addr ht' = ht_addr ht" "pDestructor ht' = pDestructor ht"
      "min (nInternalPointer ht') (nNumUsed ht') = min (nInternalPointer ht) (nNumUsed ht')"
    and eg: "iters_clamped ht (nNumUsed ht') eg (eg'\<lparr>events := events eg\<rparr>)" "events eg' = events eg @ evs"
  shows "removed ht eg k evs ht' eg'"
proof -
  have d: "distinct (map fst (entries (entry_at ht) (nNumUsed ht)))"
    using inv_distinct [OF inv] by (simp add: elems_def)
  have holes: "entry_at ht' j = None" if "nNumUsed ht' \<le> j" "j < nNumUsed ht" for j
    using cells n(2) [OF that] that by (cases "j = i") auto
  note hole = hole_from_pos [OF i(2,1) d cells(1,2) n(1) holes]
  have el: "elems ht' = AList.delete k (elems ht)" using hole(1) by (simp add: elems_def)
  have kin: "k \<in> fst ` set (elems ht)" using i by (rule entry_key_mem)
  have fp: "from_pos ht' p = AList.delete k (from_pos ht p)" for p
    using hole(2) [of p] by (simp add: from_pos_def elems_def)
  have "set (elems ht') \<subseteq> set (elems ht)" "distinct (map fst (elems ht'))"
    unfolding el AList.delete_eq using inv_distinct [OF inv] by (auto simp: distinct_map inj_on_def)
  moreover have "length (elems ht') = nNumOfElements ht'"
    using length_delete_distinct(1) [OF inv_distinct [OF inv] kin] inv fields(2)
    by (simp add: el ht_inv_def)
  ultimately have "ht_inv ht'" using inv shape fields(1,3) by (auto simp: ht_inv_def next_free_ok_def)
  moreover have "from_pos ht' (nInternalPointer ht') = AList.delete k (from_pos ht (nInternalPointer ht))"
    using fp [of "nInternalPointer ht"] from_pos_eq [OF fields(8)] by simp
  moreover have "indirect eg' = indirect eg"
    using eg(1) eg_same_fields(2) [of eg "eg'\<lparr>events := events eg\<rparr>"] by (simp add: iters_clamped_def)
  moreover have "entry_at ht' j = None" if "entry_at ht j = None" for j
    using cells(1,2) that by (cases "j = i") auto
  then have "cells_kept ht ht'" using cells(3) holes by (auto simp: cells_kept_def)
  ultimately show ?thesis using el fp fields eg n(1) by (simp add: removed_def)
qed

lemma packed_del_val_ok:
  assumes inv: "ht_inv ht" "f_packed ht" and i: "i < nNumUsed ht" "entry_at ht i = Some (k, v)"
  obtains ht' eg' where "zend_hash_packed_del_val_i ht i eg = Inr (ht', eg')"
    "removed ht eg k (dtor_events ht v) ht' eg'"
proof -
  note ok = inv_packed [OF inv, unfolded packed_ok_def]
  have len: "nNumUsed ht \<le> length (arPacked ht)" using ok by auto
  let ?ht = "ht\<lparr>nNumOfElements := nNumOfElements ht - 1\<rparr>"
  let ?hole = "\<lambda>j. bindE (rd (arPacked ?ht) j) (\<lambda>v. Inr (v = IS_UNDEF))"
  have hole: "?hole j = Inr (entry_at ht j = None)" if "j < nNumUsed ht" for j
  proof -
    have "arPacked ht ! j \<noteq> None" using ok that by blast
    then obtain w where "arPacked ht ! j = Some w" by blast
    then show ?thesis using that len inv(2)
      by (simp add: entry_at_def packed_entry_def)
  qed
  have "i < nNumUsed ?ht" using i(1) by simp
  from shorten_ok [OF this, of ?hole "\<lambda>j. entry_at ht j = None" eg] hole obtain n ip eg1 where
    s: "shorten ?hole i ?ht eg = Inr (?ht\<lparr>nNumUsed := n, nInternalPointer := ip\<rparr>, eg1)" "n \<le> nNumUsed ht"
      "\<forall>k. n \<le> k \<longrightarrow> k < nNumUsed ht \<longrightarrow> k = i \<or> entry_at ht k = None"
      "min ip n = min (nInternalPointer ht) n" "iters_clamped ?ht n eg eg1" by auto
  have v: "arPacked ht ! i = Some v"
    using i(2) inv(2) by (auto simp: entry_at_def packed_entry_def split: option.splits if_splits)
  define ht' where "ht' = ?ht\<lparr>nNumUsed := n, nInternalPointer := ip, arPacked := (arPacked ht)[i := Some IS_UNDEF]\<rparr>"
  have "zend_hash_packed_del_val_i ht i eg = Inr (ht', dtor_call ht v eg1)"
    using s(1) v i(1) len
    by (simp add: zend_hash_packed_del_val_i_def Let_def ht'_def dtor_call_def)
  moreover have "removed ht eg k (dtor_events ht v) ht' (dtor_call ht v eg1)"
  proof (rule removedI [OF inv(1) i])
    have "f_packed ht'" using inv(2) by (simp add: ht'_def)
    have "(arPacked ht)[i := Some IS_UNDEF] ! j \<noteq> None" if "j < n" for j
      using that ok s(2) len i(1) by (cases "j = i") simp_all
    then show "if f_packed ht' then packed_ok ht' else if f_uninit ht' then uninit_ok ht' else mixed_ok ht'"
      using ok s(2) \<open>f_packed ht'\<close> unfolding packed_ok_def by (simp add: ht'_def)
    show "iters_clamped ht (nNumUsed ht') eg (dtor_call ht v eg1\<lparr>events := events eg\<rparr>)"
      using s(5) clamped_events [OF s(5)] by (simp add: dtor_call_events ht'_def iters_clamped_def)
    show "events (dtor_call ht v eg1) = events eg @ dtor_events ht v"
      using s(5) eg_same_fields(3) [of eg eg1] by (simp add: dtor_call_events iters_clamped_def)
    show "\<And>j. nNumUsed ht' \<le> j \<Longrightarrow> j < nNumUsed ht \<Longrightarrow> j \<noteq> i \<Longrightarrow> entry_at ht j = None"
      using s(3) by (auto simp: ht'_def)
    show "written ht' j" if "written ht j" for j
      using that inv(2) len i(1) by (cases "j = i") (simp_all add: written_def ht'_def)
  qed (use s inv i len in \<open>simp_all add: ht'_def entry_at_def packed_entry_def\<close>)
  ultimately show thesis by (rule that)
qed

text \<open>
  A mixed table after the key of the bucket at \<open>i\<close> is released: the removal of the bucket
  restores the invariant.
\<close>

lemma unlink_ok:
  assumes "prev_of (arData ht) (nTableMask ht) (arHash ht) (nNumUsed ht) (slot (nTableMask ht) (b_h p)) i prev"
    "nNumUsed ht \<le> length (arData ht)" "slot (nTableMask ht) (b_h p) < length (arHash ht)"
    "unlinked (arData ht) (arHash ht) (slot (nTableMask ht) (b_h p)) (b_next p) prev = (d', hs')"
  shows "unlink ht p prev = Inr (ht\<lparr>arData := d', arHash := hs'\<rparr>)"
proof (cases prev)
  case None
  then show ?thesis using assms by (simp add: unlink_def unlinked_def)
next
  case (Some j)
  then show ?thesis using assms by (auto simp: unlink_def unlinked_def prev_of_def)
qed

lemma prev_not_self:
  assumes "chains_ok d m hs n" "prev_of d m hs n s i (Some j)" "i < n" "n < HT_INVALID_IDX"
  shows "j \<noteq> i"
proof
  assume "j = i"
  then obtain q where q: "d ! i = Some q" "b_next q = i" "in_slot d m s i"
    using assms(2) by (auto simp: prev_of_def)
  then have "last_in (in_slot d m s) i = i"
    using assms(1,3) by (auto simp: chains_ok_def in_slot_def)
  then show False using assms(3,4)
    by (cases i "in_slot d m s" rule: last_in_cases) auto
qed

lemma unlinked_nth:
  assumes "unlinked d hs s nxt prev = (d', hs')" "d ! j = Some b" "j < length d"
  shows "d' ! j = Some b \<or> d' ! j = Some (b\<lparr>b_next := nxt\<rparr>)"
proof (cases prev)
  case None
  then show ?thesis using assms by (simp add: unlinked_def)
next
  case (Some k)
  then show ?thesis using assms by (cases "k = j") (auto simp: unlinked_def)
qed

lemma unlinked_cells:
  assumes "unlinked d hs s nxt prev = (d', hs')"
  shows "length d' = length d" "bucket_entry (d' ! j) = bucket_entry (d ! j)"
    "bucket_ok st (d' ! j) = bucket_ok st (d ! j)" "d' ! j = None \<longleftrightarrow> d ! j = None"
proof -
  show "length d' = length d" using assms by (auto simp: unlinked_def split: option.splits)
  have "d' ! j = d ! j \<or> d' ! j = map_option (\<lambda>q. q\<lparr>b_next := nxt\<rparr>) (d ! j)"
  proof (cases prev)
    case None
    then show ?thesis using assms by (simp add: unlinked_def)
  next
    case (Some k)
    then show ?thesis using assms by (cases "k = j"; cases "k < length d") (auto simp: unlinked_def list_update_beyond)
  qed
  then show "bucket_entry (d' ! j) = bucket_entry (d ! j)" "bucket_ok st (d' ! j) = bucket_ok st (d ! j)"
    "d' ! j = None \<longleftrightarrow> d ! j = None"
    by (cases "d ! j"; auto simp: bucket_entry_def bucket_ok_def bucket_key_def split: option.splits)+
qed

lemma del_el_ex_ok:
  assumes inv: "ht_inv ht" "\<not> f_packed ht" "\<not> f_uninit ht"
    and i: "i < nNumUsed ht" "arData ht ! i = Some p" "b_val p \<noteq> IS_UNDEF"
    and prev: "prev_of (arData ht) (nTableMask ht) (arHash ht) (nNumUsed ht) (slot (nTableMask ht) (b_h p)) i prev"
    and eg: "eg = eg0\<lparr>events := events eg0 @ evs\<rparr>"
  obtains ht' eg' where
    "zend_hash_del_el_ex (ht\<lparr>arData := (arData ht)[i := Some (p\<lparr>b_key := None\<rparr>)]\<rparr>) i prev eg = Inr (ht', eg')"
    "removed ht eg0 (bucket_key p) (evs @ dtor_events ht (b_val p)) ht' eg'"
proof -
  let ?p = "p\<lparr>b_key := None\<rparr>" and ?m = "nTableMask ht" and ?n = "nNumUsed ht"
  let ?s = "slot ?m (b_h p)" and ?q = "p\<lparr>b_key := None, b_val := IS_UNDEF\<rparr>"
  note mix = inv_mixed [OF inv] and sz = inv_size [OF inv(1)]
  note ok = mixed_okD [OF mix]
  have len: "?n \<le> length (arData ht)" "i < length (arData ht)" using ok(3,4) i(1) by simp_all
  have sl: "?s < length (arHash ht)" using mix sz by simp
  have ninv: "?n < HT_INVALID_IDX" using ok(4) size_ok_less_invalid [OF sz] by simp
  obtain d' hs' where d': "unlinked (arData ht) (arHash ht) ?s (b_next p) prev = (d', hs')" by fastforce
  have ji: "prev \<noteq> Some i" using prev_not_self [OF ok(6) _ i(1) ninv] prev by auto
  have len': "length d' = length (arData ht)" "length hs' = length (arHash ht)"
    using d' by (auto simp: unlinked_def split: option.splits)
  have d'i: "d' ! i = Some p" using d' ji i(2) by (auto simp: unlinked_def split: option.splits)
  note ent = unlinked_cells(2,3) [OF d']
  define ht1 where "ht1 = ht\<lparr>arData := (arData ht)[i := Some ?p]\<rparr>"
  have "unlinked (arData ht1) (arHash ht1) ?s (b_next ?p) prev = (d'[i := Some ?p], hs')"
    using d' ji by (auto simp: unlinked_def ht1_def list_update_swap split: option.splits)
  moreover have "prev_of (arData ht1) ?m (arHash ht1) ?n ?s i prev"
    using prev ji by (auto simp: prev_of_def ht1_def in_slot_def split: option.splits)
  ultimately have un: "unlink ht1 ?p prev = Inr (ht1\<lparr>arData := d'[i := Some ?p], arHash := hs'\<rparr>)"
    using unlink_ok [of ht1 ?p i prev "d'[i := Some ?p]" hs'] len sl by (simp add: ht1_def)
  define ht2 where "ht2 = ht1\<lparr>arData := d'[i := Some ?p], arHash := hs', nNumOfElements := nNumOfElements ht - 1\<rparr>"
  let ?hole = "\<lambda>j. bindE (rd (arData ht2) j) (\<lambda>p. Inr (b_val p = IS_UNDEF))"
  have hole: "?hole j = Inr (entry_at ht j = None)" if j: "j < ?n" "j \<noteq> i" for j
  proof -
    obtain b where b: "arData ht ! j = Some b" using mixed_bucket [OF mix j(1)] by blast
    then have "d' ! j = Some b \<or> d' ! j = Some (b\<lparr>b_next := b_next p\<rparr>)"
      using unlinked_nth [OF d'] j len by simp
    then show ?thesis using b j len len' inv(2)
      by (auto simp: ht2_def entry_at_def bucket_entry_def)
  qed
  have used2: "nNumUsed ht2 = ?n" by (simp add: ht2_def ht1_def)
  have "i < nNumUsed ht2" using i(1) used2 by simp
  from shorten_ok [OF this, of ?hole "\<lambda>j. entry_at ht j = None" eg] hole obtain n ip eg1 where
    s: "shorten ?hole i ht2 eg = Inr (ht2\<lparr>nNumUsed := n, nInternalPointer := ip\<rparr>, eg1)" "n \<le> ?n"
      "\<forall>k. n \<le> k \<longrightarrow> k < ?n \<longrightarrow> k = i \<or> entry_at ht k = None"
      "min ip n = min (nInternalPointer ht) n" "iters_clamped ht2 n eg eg1"
    unfolding used2 by (auto simp: ht2_def ht1_def)
  have "eg1 = eg\<lparr>ht_iterators := ht_iterators eg1\<rparr>" using s(5) by (simp add: iters_clamped_def eg_same_def)
  then obtain its where its: "eg1 = eg0\<lparr>ht_iterators := its, events := events eg0 @ evs\<rparr>"
    unfolding eg by (cases eg0) simp
  have ic: "iters_clamped ht n eg0 (eg1\<lparr>events := events eg0\<rparr>)" "events eg1 = events eg0 @ evs"
    using s(5) unfolding eg by (simp_all add: its iters_clamped_def ht2_def ht1_def eg_same_def)
  define ht' where "ht' = ht2\<lparr>nNumUsed := n, nInternalPointer := ip, arData := d'[i := Some ?q]\<rparr>"
  have fin: "zend_hash_del_el_ex ht1 i prev eg = Inr (ht', dtor_call ht (b_val p) eg1)"
  proof -
    have r1: "rd (arData ht1) i = Inr ?p" using len by (simp add: ht1_def)
    have r2: "rd (arData ht2) i = Inr ?p" using len len' by (simp add: ht2_def)
    have w: "wr (arData ht2) i (?p\<lparr>b_val := IS_UNDEF\<rparr>) = Inr (d'[i := Some ?q])"
      using len len' by (simp add: ht2_def)
    have h2: "ht1\<lparr>arData := d'[i := Some ?p], arHash := hs'\<rparr>
        \<lparr>nNumOfElements := nNumOfElements (ht1\<lparr>arData := d'[i := Some ?p], arHash := hs'\<rparr>) - 1\<rparr> = ht2"
      by (simp add: ht2_def ht1_def)
    show ?thesis
      unfolding zend_hash_del_el_ex_def r1 bindE_Inr un Let_def h2 s(1)
      using r2 w by (simp add: ht'_def dtor_call_def ht2_def ht1_def)
  qed
  have mix': "mixed_ok ht'"
  proof -
    have ch: "chains_ok (d'[i := Some ?q]) ?m hs' ?n"
      using chains_ok_remove [OF ok(6) len(1) ninv i refl sl prev d'] by simp
    have "chains_ok (d'[i := Some ?q]) ?m hs' n"
    proof (rule chains_ok_trim [OF ch s(2)])
      fix k assume k: "n \<le> k" "k < ?n"
      show "bucket_entry ((d'[i := Some ?q]) ! k) = None"
      proof (cases "k = i")
        case True
        then show ?thesis using len len' by (simp add: bucket_entry_def)
      next
        case False
        then show ?thesis using s(3) k ent(1) [of k] inv(2) by (auto simp: entry_at_def)
      qed
    qed
    moreover have "bucket_ok (f_static_keys ht) ((d'[i := Some ?q]) ! k)" if "k < n" for k
    proof (cases "k = i")
      case True
      then show ?thesis using len len' by (simp add: bucket_ok_def)
    next
      case False
      then show ?thesis using ent(2) [of "f_static_keys ht" k] ok(5) [of k] that s(2) by simp
    qed
    ultimately show ?thesis using ok(1-4) len' s(2)
      by (simp add: mixed_ok_def ht'_def ht2_def ht1_def)
  qed
  have key: "entry_at ht i = Some (bucket_key p, b_val p)"
    using i inv(2) by (simp add: entry_at_def bucket_entry_def)
  have "removed ht eg0 (bucket_key p) (evs @ dtor_events ht (b_val p)) ht' (dtor_call ht (b_val p) eg1)"
  proof (rule removedI [OF inv(1) i(1) key])
    show "if f_packed ht' then packed_ok ht' else if f_uninit ht' then uninit_ok ht' else mixed_ok ht'"
      using mix' inv by (simp add: ht'_def ht2_def ht1_def)
    show "iters_clamped ht (nNumUsed ht') eg0 (dtor_call ht (b_val p) eg1\<lparr>events := events eg0\<rparr>)"
      using ic(1) by (simp add: dtor_call_events ht'_def)
    show "events (dtor_call ht (b_val p) eg1) = events eg0 @ evs @ dtor_events ht (b_val p)"
      using ic(2) by (simp add: dtor_call_events)
    show "\<And>j. nNumUsed ht' \<le> j \<Longrightarrow> j < ?n \<Longrightarrow> j \<noteq> i \<Longrightarrow> entry_at ht j = None"
      using s(3) by (auto simp: ht'_def)
    show "entry_at ht' j = entry_at ht j" if "j \<noteq> i" for j
      using ent(1) [of j] that inv(2) by (simp add: entry_at_def ht'_def ht2_def ht1_def)
    show "entry_at ht' i = None"
      using len len' inv(2) by (simp add: entry_at_def ht'_def ht2_def ht1_def bucket_entry_def)
    show "written ht' j" if "written ht j" for j
      using that inv(2) len' unlinked_cells(4) [OF d', of j] len
      by (cases "j = i") (simp_all add: written_def ht'_def ht2_def ht1_def)
  qed (use s in \<open>simp_all add: ht'_def ht2_def ht1_def\<close>)
  with fin show thesis unfolding ht1_def by (rule that)
qed

subsection \<open>The public deletions\<close>

definition released :: "Bucket \<Rightarrow> event list" where
  "released p = (case b_key p of None \<Rightarrow> [] | Some k \<Rightarrow> [EvStrRelease k])"

lemma release_key_eq:
  assumes "i < length (arData ht)" "arData ht ! i = Some p"
  shows "release_key ht i eg = Inr (ht\<lparr>arData := (arData ht)[i := Some (p\<lparr>b_key := None\<rparr>)]\<rparr>,
    eg\<lparr>events := events eg @ released p\<rparr>)"
proof (cases "b_key p")
  case None
  then have p: "p\<lparr>b_key := None\<rparr> = p" by simp
  have "(arData ht)[i := Some p] = arData ht" using assms(2) by (metis list_update_id)
  then have "ht\<lparr>arData := (arData ht)[i := Some (p\<lparr>b_key := None\<rparr>)]\<rparr> = ht" unfolding p by simp
  then show ?thesis using assms None by (simp add: release_key_def released_def)
next
  case (Some k)
  then show ?thesis using assms by (simp add: release_key_def released_def emit_def)
qed

lemma del_found_ok:
  assumes inv: "ht_inv ht" "\<not> f_packed ht" "\<not> f_uninit ht"
    and i: "i < nNumUsed ht" "arData ht ! i = Some p" "b_val p \<noteq> IS_UNDEF"
    and prev: "prev_of (arData ht) (nTableMask ht) (arHash ht) (nNumUsed ht) (slot (nTableMask ht) (b_h p)) i prev"
  shows "\<exists>ht' eg'. bindE (release_key ht i eg) (\<lambda>(ht, eg). zend_hash_del_el_ex ht i prev eg) = Inr (ht', eg') \<and>
    removed ht eg (bucket_key p) (released p @ dtor_events ht (b_val p)) ht' eg'"
proof -
  have "i < length (arData ht)" using mixed_okD(3,4) [OF inv_mixed [OF inv]] i(1) by simp
  note rel = release_key_eq [OF this i(2), of eg]
  show ?thesis unfolding rel
    by (rule del_el_ex_ok [OF inv i prev refl, of eg "released p"]) auto
qed

text \<open>
  \<open>del_effect\<close>: with the key absent nothing happens and the result is \<open>FAILURE\<close>; otherwise
  the entry is removed, its key released, and its value handed to the destructor.
\<close>

definition key_release :: "hkey \<Rightarrow> event list \<Rightarrow> bool" where
  "key_release k rel \<longleftrightarrow>
     (case k of KNum h \<Rightarrow> rel = [] | KStr s \<Rightarrow> \<exists>z. zs_val z = s \<and> rel = [EvStrRelease z])"

definition del_effect :: "HashTable \<Rightarrow> executor_globals \<Rightarrow> hkey
    \<Rightarrow> error + (HashTable \<times> executor_globals \<times> bool) \<Rightarrow> bool" where
  "del_effect ht eg k r \<longleftrightarrow>
     (case map_of (elems ht) k of
        None \<Rightarrow> r = Inr (ht, eg, False)
      | Some v \<Rightarrow> \<exists>ht' eg' rel. r = Inr (ht', eg', True) \<and> key_release k rel \<and>
          removed ht eg k (rel @ dtor_events ht v) ht' eg')"

lemma key_release_bucket: "key_release (bucket_key p) (released p)"
  by (auto simp: key_release_def bucket_key_def released_def split: option.splits)

text \<open>Deleting what a search finds.\<close>

lemma del_search:
  assumes inv: "ht_inv ht" "\<not> f_packed ht" and test: "key_test P h k"
  shows "del_effect ht eg k
    (bindE (find_in_slot ht h P) (\<lambda>r.
       case r of None \<Rightarrow> Inr (ht, eg, False) | Some (idx, prev) \<Rightarrow> del_found ht idx prev eg))"
  using inv test
proof (cases rule: find_in_slot_map_of)
  case none
  then show ?thesis by (simp add: del_effect_def)
next
  case (found i prev p)
  have pv: "prev_of (arData ht) (nTableMask ht) (arHash ht) (nNumUsed ht) (slot (nTableMask ht) (b_h p)) i prev"
    using found by simp
  from del_found_ok [OF inv found(3-6) pv, of eg] found(7)
  obtain ht' eg' where
    "bindE (release_key ht i eg) (\<lambda>(ht, eg). zend_hash_del_el_ex ht i prev eg) = Inr (ht', eg')"
    "removed ht eg k (released p @ dtor_events ht (b_val p)) ht' eg'" by auto
  moreover from this(1) have "del_found ht i prev eg = Inr (ht', eg', True)"
    by (auto simp: del_found_def bindE_eq_Inr)
  moreover have "key_release k (released p)" using key_release_bucket [of p] found(7) by simp
  ultimately show ?thesis using found(1,10) by (auto simp: del_effect_def)
qed

lemma del_search_packed:
  assumes "ht_inv ht" "f_packed ht"
  shows "del_effect ht eg (KStr s)
    (bindE (find_in_slot ht h P) (\<lambda>r.
       case r of None \<Rightarrow> Inr (ht, eg, False) | Some (idx, prev) \<Rightarrow> f idx prev))"
  using find_in_slot_empty [of ht h P] inv_packed [OF assms] packed_no_str [OF assms]
  by (simp add: del_effect_def packed_ok_def)

lemma del_spec:
  assumes "ht_inv ht" "str_ok key"
  shows "del_effect ht eg (KStr (zs_val key)) (zend_hash_del ht key eg)"
proof (cases "f_packed ht")
  case True
  then show ?thesis using del_search_packed [OF assms(1)] by (simp add: zend_hash_del_def Let_def)
next
  case False
  have "key_test (str_match (zend_string_hash_val key)) (zs_h (zend_string_hash_val key)) (KStr (zs_val key))"
    using str_match_test [of "zend_string_hash_val key"] hash_val_h [OF assms(2)] by simp
  from del_search [OF assms(1) False this] show ?thesis by (simp add: zend_hash_del_def Let_def)
qed

lemma str_del_spec:
  assumes "ht_inv ht"
  shows "del_effect ht eg (KStr str) (zend_hash_str_del ht str eg)"
proof (cases "f_packed ht")
  case True
  then show ?thesis using del_search_packed [OF assms(1)] by (simp add: zend_hash_str_del_def Let_def)
next
  case False
  have "key_test (cstr_match str (zend_inline_hash_func str)) (zend_inline_hash_func str) (KStr str)"
    by (rule cstr_match_test) (simp add: zend_hash_func_def)
  from del_search [OF assms(1) False this] show ?thesis by (simp add: zend_hash_str_del_def Let_def)
qed

lemma release_numeric:
  assumes "i < length (arData ht)" "arData ht ! i = Some p" "b_key p = None"
  shows "release_key ht i eg = Inr (ht, eg)"
  using assms by (simp add: release_key_def)

lemma index_del_spec:
  assumes inv: "ht_inv ht"
  shows "del_effect ht eg (KNum h) (zend_hash_index_del ht h eg)"
proof (cases "f_packed ht")
  case True
  note ok = inv_packed [OF inv True, unfolded packed_ok_def]
  note m = packed_map_of [OF inv True, of h]
  show ?thesis
  proof (cases "unat h < nNumUsed ht \<and> arPacked ht ! unat h \<noteq> Some IS_UNDEF")
    case live: True
    then have "arPacked ht ! unat h \<noteq> None" using ok by blast
    then obtain v where v: "arPacked ht ! unat h = Some v" "v \<noteq> IS_UNDEF" using live by auto
    then have e: "entry_at ht (unat h) = Some (KNum h, v)"
      using True by (simp add: entry_at_def packed_entry_def)
    from packed_del_val_ok [OF inv True _ e, of eg] live obtain ht' eg' where
      "zend_hash_packed_del_val_i ht (unat h) eg = Inr (ht', eg')"
      "removed ht eg (KNum h) (dtor_events ht v) ht' eg'" by blast
    then show ?thesis using live v m True ok
      by (auto simp: del_effect_def zend_hash_index_del_def key_release_def)
  next
    case False
    then have none: "map_of (elems ht) (KNum h) = None" using m by auto
    have "zend_hash_index_del ht h eg = Inr (ht, eg, False)"
      using False True ok by (auto simp: zend_hash_index_del_def)
    then show ?thesis using none by (simp add: del_effect_def)
  qed
next
  case False
  have "del_effect ht eg (KNum h)
    (bindE (find_in_slot ht h (idx_match h)) (\<lambda>r.
       case r of None \<Rightarrow> Inr (ht, eg, False) | Some (idx, prev) \<Rightarrow> del_found ht idx prev eg))"
    by (rule del_search [OF inv False idx_match_test])
  moreover have "bindE (find_in_slot ht h (idx_match h)) (\<lambda>r.
       case r of None \<Rightarrow> Inr (ht, eg, False) | Some (idx, prev) \<Rightarrow> del_found ht idx prev eg) =
     zend_hash_index_del ht h eg"
    using inv False idx_match_test [of h]
  proof (cases rule: find_in_slot_map_of)
    case none
    then show ?thesis using False by (simp add: zend_hash_index_del_def)
  next
    case (found i prev p)
    have "b_key p = None" using found(7) by (simp add: bucket_key_def split: option.splits)
    moreover have "i < length (arData ht)" using mixed_okD(3,4) [OF found(2)] found(4) by simp
    ultimately show ?thesis using found(1,5) False release_numeric [of i ht p]
      by (simp add: zend_hash_index_del_def del_found_def)
  qed
  ultimately show ?thesis by simp
qed

text \<open>
  The \<open>_ind\<close> variants clear the zval behind an indirect value and keep the entry; a value
  that is already clear is a failure. They differ in when the destructor runs, before or
  after the zval is cleared, which a destructor that leaves the zval alone does not see.
\<close>

definition del_ind_effect :: "HashTable \<Rightarrow> executor_globals \<Rightarrow> hkey
    \<Rightarrow> error + (HashTable \<times> executor_globals \<times> bool) \<Rightarrow> bool" where
  "del_ind_effect ht eg k r \<longleftrightarrow>
     (case map_of (elems ht) k of
        Some (IS_INDIRECT a) \<Rightarrow>
          if indirect eg a = IS_UNDEF then r = Inr (ht, eg, False)
          else r = (case undef_indirect ht a eg of (ht, eg) \<Rightarrow> Inr (ht, eg, True))
      | _ \<Rightarrow> del_effect ht eg k r)"

lemma del_found_ind_eq:
  assumes "rd (arData ht) i = Inr p"
  shows "del_found_ind ht i prev eg =
    (case b_val p of
       IS_INDIRECT a \<Rightarrow> if indirect eg a = IS_UNDEF then Inr (ht, eg, False)
         else (case undef_indirect ht a eg of (ht, eg) \<Rightarrow> Inr (ht, eg, True))
     | _ \<Rightarrow> del_found ht i prev eg)"
  using assms by (simp add: del_found_ind_def)

lemma del_ind_search:
  assumes inv: "ht_inv ht" "\<not> f_packed ht" and test: "key_test P h k"
  shows "del_ind_effect ht eg k
    (bindE (find_in_slot ht h P) (\<lambda>r.
       case r of None \<Rightarrow> Inr (ht, eg, False) | Some (idx, prev) \<Rightarrow> del_found_ind ht idx prev eg))"
  using inv test
proof (cases rule: find_in_slot_map_of)
  case none
  then show ?thesis by (simp add: del_ind_effect_def del_effect_def)
next
  case (found i prev p)
  have "i < length (arData ht)" using mixed_okD(3,4) [OF found(2)] found(4) by simp
  then have rd: "rd (arData ht) i = Inr p" using found(5) by simp
  show ?thesis using del_search [OF assms, of eg] found(1,10) del_found_ind_eq [OF rd, of prev eg]
    by (cases "b_val p") (simp_all add: del_ind_effect_def)
qed

lemma del_ind_packed:
  assumes "ht_inv ht" "f_packed ht"
  shows "del_ind_effect ht eg (KStr s)
    (bindE (find_in_slot ht h P) (\<lambda>r.
       case r of None \<Rightarrow> Inr (ht, eg, False) | Some (idx, prev) \<Rightarrow> f idx prev))"
  using del_search_packed [OF assms] packed_no_str [OF assms] by (simp add: del_ind_effect_def)

lemma del_ind_spec:
  assumes "ht_inv ht" "str_ok key"
  shows "del_ind_effect ht eg (KStr (zs_val key)) (zend_hash_del_ind ht key eg)"
proof (cases "f_packed ht")
  case True
  then show ?thesis using del_ind_packed [OF assms(1)] by (simp add: zend_hash_del_ind_def Let_def)
next
  case False
  have "key_test (str_match (zend_string_hash_val key)) (zs_h (zend_string_hash_val key)) (KStr (zs_val key))"
    using str_match_test [of "zend_string_hash_val key"] hash_val_h [OF assms(2)] by simp
  from del_ind_search [OF assms(1) False this] show ?thesis by (simp add: zend_hash_del_ind_def Let_def)
qed

lemma str_del_ind_spec:
  assumes "ht_inv ht"
  shows "del_ind_effect ht eg (KStr str) (zend_hash_str_del_ind ht str eg)"
proof (cases "f_packed ht")
  case True
  then show ?thesis using del_ind_packed [OF assms(1)] by (simp add: zend_hash_str_del_ind_def Let_def)
next
  case False
  have "key_test (cstr_match str (zend_inline_hash_func str)) (zend_inline_hash_func str) (KStr str)"
    by (rule cstr_match_test) (simp add: zend_hash_func_def)
  from del_ind_search [OF assms(1) False this] show ?thesis by (simp add: zend_hash_str_del_ind_def Let_def)
qed

subsection \<open>Deleting a given bucket\<close>

text \<open>The walk to the predecessor ends there: places fall along a chain.\<close>

lemma find_prev_ok:
  assumes ok: "chains_ok d m hs n" and cells: "n \<le> length d" "n < HT_INVALID_IDX"
    and idx: "in_slot d m s idx" "idx < n"
  shows "k \<le> n \<Longrightarrow> idx < k \<Longrightarrow> k < fuel + 1 \<Longrightarrow> last_in (in_slot d m s) k \<noteq> idx \<Longrightarrow>
    \<exists>j. find_prev fuel d idx (last_in (in_slot d m s) k) = Inr j \<and> prev_of d m hs n s idx (Some j)"
proof (induction fuel arbitrary: k)
  case (Suc fuel)
  obtain i where i: "last_in (in_slot d m s) k = i" "i < k" "in_slot d m s i" "idx < i"
  proof (cases k "in_slot d m s" rule: last_in_cases)
    case 1
    then show ?thesis using idx(1) Suc.prems(2) by blast
  next
    case (2 i)
    then have "\<not> i < idx" using idx(1) Suc.prems(2) by blast
    then show ?thesis using 2 Suc.prems(4) that by (metis linorder_neqE_nat)
  qed
  obtain q where q: "d ! i = Some q" using i(3) by (auto simp: in_slot_def split: option.splits)
  have "i < n" using i(2) Suc.prems(1) by simp
  then have "case d ! i of None \<Rightarrow> True
      | Some p \<Rightarrow> b_val p \<noteq> IS_UNDEF \<longrightarrow> b_next p = last_in (in_slot d m (slot m (b_h p))) i"
    using ok by (simp add: chains_ok_def)
  then have nx: "b_next q = last_in (in_slot d m s) i" using q i(3) by (simp add: in_slot_def)
  have rd: "rd d i = Inr q" using q i(2) Suc.prems(1) cells(1) by simp
  show ?case
  proof (cases "b_next q = idx")
    case True
    then show ?thesis using rd q i Suc.prems(1) by (simp add: prev_of_def)
  next
    case False
    have "\<exists>j. find_prev fuel d idx (last_in (in_slot d m s) i) = Inr j \<and> prev_of d m hs n s idx (Some j)"
      using Suc.IH [of i] False nx i Suc.prems by simp
    then show ?thesis using rd False by (simp add: i(1) nx)
  qed
qed simp

lemma del_el_spec:
  assumes inv: "ht_inv ht" "\<not> f_packed ht" "\<not> f_uninit ht"
    and i: "i < nNumUsed ht" "entry_at ht i = Some (k, v)"
  obtains ht' eg' rel where "zend_hash_del_el ht i eg = Inr (ht', eg')" "key_release k rel"
    "removed ht eg k (rel @ dtor_events ht v) ht' eg'"
proof -
  note mix = inv_mixed [OF inv] and sz = inv_size [OF inv(1)]
  note ok = mixed_okD [OF mix]
  obtain p where p: "arData ht ! i = Some p" "b_val p \<noteq> IS_UNDEF" "bucket_key p = k" "b_val p = v"
    using i inv(2) by (auto simp: entry_at_def bucket_entry_def split: option.splits if_splits)
  let ?s = "slot (nTableMask ht) (b_h p)" and ?P = "in_slot (arData ht) (nTableMask ht)"
  have len: "nNumUsed ht \<le> length (arData ht)" "i < length (arData ht)" using ok(3,4) i(1) by simp_all
  have sl: "?s < length (arHash ht)" using mix sz by simp
  have ninv: "nNumUsed ht < HT_INVALID_IDX" using ok(4) size_ok_less_invalid [OF sz] by simp
  have hd: "arHash ht ! ?s = last_in (?P ?s) (nNumUsed ht)" using ok(6) sl by (simp add: chains_ok_def)
  have self: "?P ?s i" using p by (simp add: in_slot_def)
  define pr where "pr = (if arHash ht ! ?s \<noteq> i
     then bindE (find_prev (Suc (length (arData ht))) (arData ht) i (arHash ht ! ?s)) (\<lambda>j. Inr (Some j))
     else Inr None)"
  obtain prev where prev: "pr = Inr prev"
    "prev_of (arData ht) (nTableMask ht) (arHash ht) (nNumUsed ht) ?s i prev"
  proof (cases "arHash ht ! ?s = i")
    case True
    then show ?thesis using that [of None] by (simp add: prev_of_def pr_def)
  next
    case False
    from find_prev_ok [OF ok(6) len(1) ninv self i(1), of "nNumUsed ht" "Suc (length (arData ht))"] False
    obtain j where "find_prev (Suc (length (arData ht))) (arData ht) i (arHash ht ! ?s) = Inr j"
      "prev_of (arData ht) (nTableMask ht) (arHash ht) (nNumUsed ht) ?s i (Some j)"
      unfolding hd using len i(1) by auto
    then show ?thesis using False by (intro that [of "Some j"]) (simp_all add: pr_def)
  qed
  have "zend_hash_del_el ht i eg =
      bindE (release_key ht i eg) (\<lambda>(ht, eg). zend_hash_del_el_ex ht i prev eg)"
    using prev(1) p len sl by (simp add: zend_hash_del_el_def pr_def [symmetric])
  moreover from del_found_ok [OF inv i(1) p(1,2) prev(2), of eg] obtain ht' eg' where
    "bindE (release_key ht i eg) (\<lambda>(ht, eg). zend_hash_del_el_ex ht i prev eg) = Inr (ht', eg')"
    "removed ht eg k (released p @ dtor_events ht v) ht' eg'" using p by auto
  ultimately show thesis using key_release_bucket [of p] p(3) by (intro that) simp_all
qed

lemma del_bucket_spec:
  assumes "ht_inv ht" "\<not> f_packed ht" "\<not> f_uninit ht" "i < nNumUsed ht" "entry_at ht i = Some (k, v)"
  shows "\<exists>ht' eg' rel. zend_hash_del_bucket ht i eg = Inr (ht', eg') \<and> key_release k rel \<and>
    removed ht eg k (rel @ dtor_events ht v) ht' eg'"
proof -
  obtain ht' eg' rel where "zend_hash_del_el ht i eg = Inr (ht', eg')" "key_release k rel"
    "removed ht eg k (rel @ dtor_events ht v) ht' eg'" by (rule del_el_spec [OF assms])
  then show ?thesis using assms(2) unfolding zend_hash_del_bucket_def assertE_def
    by (simp del: split_paired_Ex) blast
qed

lemma packed_del_val_spec:
  assumes "ht_inv ht" "f_packed ht" "i < nNumUsed ht" "entry_at ht i = Some (k, v)"
  shows "\<exists>ht' eg'. zend_hash_packed_del_val ht i eg = Inr (ht', eg') \<and>
    removed ht eg k (dtor_events ht v) ht' eg'"
proof -
  obtain ht' eg' where "zend_hash_packed_del_val_i ht i eg = Inr (ht', eg')"
    "removed ht eg k (dtor_events ht v) ht' eg'" by (rule packed_del_val_ok [OF assms])
  then show ?thesis using assms(2) unfolding zend_hash_packed_del_val_def assertE_def by simp
qed

text \<open>What an iterator of the table sees: the same entries still before it, less the deleted one.\<close>

lemma removed_iterators:
  assumes "removed ht eg k evs ht' eg'" "i < length (ht_iterators eg)"
    "it_ht (ht_iterators eg ! i) = IterHT (ht_addr ht)"
  shows "i < length (ht_iterators eg')" "it_ht (ht_iterators eg' ! i) = IterHT (ht_addr ht)"
    "from_pos ht' (it_pos (ht_iterators eg' ! i)) = AList.delete k (from_pos ht (it_pos (ht_iterators eg ! i)))"
    "nIteratorsCount ht \<noteq> 0 \<Longrightarrow> i < ht_iterators_used eg \<Longrightarrow> it_pos (ht_iterators eg ! i) \<le> nNumUsed ht \<Longrightarrow>
      it_pos (ht_iterators eg' ! i) \<le> nNumUsed ht'"
proof -
  let ?a = "ht_iterators eg ! i" and ?b = "ht_iterators eg' ! i"
  have all: "list_all2 (\<lambda>it it'. it' = it \<or> it_ht it = IterHT (ht_addr ht) \<and>
      it' = it\<lparr>it_pos := min (it_pos it) (nNumUsed ht')\<rparr>) (ht_iterators eg) (ht_iterators eg')"
    using assms(1) by (simp add: removed_def iters_clamped_def)
  then show "i < length (ht_iterators eg')" using assms(2) list_all2_lengthD by fastforce
  have b: "?b = ?a \<or> ?b = ?a\<lparr>it_pos := min (it_pos ?a) (nNumUsed ht')\<rparr>"
    using list_all2_nthD [OF all assms(2)] by blast
  then show "it_ht ?b = IterHT (ht_addr ht)" using assms(3) by auto
  have "min (it_pos ?b) (nNumUsed ht') = min (it_pos ?a) (nNumUsed ht')" using b by auto
  then have "from_pos ht' (it_pos ?b) = from_pos ht' (it_pos ?a)" by (rule from_pos_eq)
  then show "from_pos ht' (it_pos ?b) = AList.delete k (from_pos ht (it_pos ?a))"
    using assms(1) by (simp add: removed_def)
  show "it_pos ?b \<le> nNumUsed ht'"
    if "nIteratorsCount ht \<noteq> 0" "i < ht_iterators_used eg" "it_pos ?a \<le> nNumUsed ht"
    using assms that unfolding removed_def iters_clamped_def by simp
qed

end
