(* ===== verification/DeleteTheorems.thy ===== *)
theory DeleteTheorems
  imports HashDelete HashSamples
begin

text \<open>
  The properties of deleting entries, with their witnesses. A deletion from a table is a
  deletion from the ordered map, a later insertion under the key starts afresh, and an
  iterator of the table keeps what it had before it.
\<close>

text \<open>
  C16. \<open>zend_hash_del\<close> and \<open>zend_hash_str_del\<close>: without the key nothing changes and the result
  is \<open>FAILURE\<close>; with it the entry is removed from the map, its key is released, its value
  handed to the destructor, and the table is well formed.
\<close>

theorem delete_by_string:
  assumes "ht_inv ht" "str_ok key"
  shows "del_effect ht eg (KStr (zs_val key)) (zend_hash_del ht key eg) \<and>
    del_effect ht eg (KStr str) (zend_hash_str_del ht str eg)"
  using del_spec [OF assms] str_del_spec [OF assms(1)] by blast

theorem delete_by_string_witness:
  "del_effect sample_mixed sample_globals (KStr [97]) (zend_hash_del sample_mixed (zend_string_init [97]) sample_globals) \<and>
   del_effect sample_mixed sample_globals (KStr [98]) (zend_hash_str_del sample_mixed [98] sample_globals)"
  using delete_by_string [OF sample_mixed_inv, of "zend_string_init [97]" sample_globals "[98]"]
  by (simp add: str_ok_def zend_string_init_def)

text \<open>C15. The same for \<open>zend_hash_index_del\<close>, in packed and in mixed tables.\<close>

theorem delete_by_index:
  assumes "ht_inv ht"
  shows "del_effect ht eg (KNum h) (zend_hash_index_del ht h eg)"
  using assms by (rule index_del_spec)

theorem delete_by_index_witness:
  "del_effect sample_packed sample_globals (KNum 2) (zend_hash_index_del sample_packed 2 sample_globals) \<and>
   elems sample_packed = [(KNum 0, IS_LONG 7), (KNum 2, IS_TRUE)]"
  using delete_by_index [OF sample_packed_inv, of sample_globals 2] by (simp add: sample_elems)

text \<open>
  \<open>zend_hash_del_ind\<close> and \<open>zend_hash_str_del_ind\<close>: an entry that points to a zval outside
  the table (a compiled variable) stays in the table, its zval is destroyed and becomes
  undefined, the table is marked; one whose zval is undefined counts as absent; every other
  entry is deleted as usual.
\<close>

theorem delete_indirect:
  assumes "ht_inv ht" "str_ok key"
  shows "del_ind_effect ht eg (KStr (zs_val key)) (zend_hash_del_ind ht key eg) \<and>
    del_ind_effect ht eg (KStr str) (zend_hash_str_del_ind ht str eg)"
  using del_ind_spec [OF assms] str_del_ind_spec [OF assms(1)] by blast

theorem delete_indirect_witness:
  "del_ind_effect sample_mixed sample_globals (KStr [97])
     (zend_hash_del_ind sample_mixed (zend_string_init [97]) sample_globals) \<and>
   del_ind_effect sample_mixed sample_globals (KStr [98]) (zend_hash_str_del_ind sample_mixed [98] sample_globals)"
  using delete_indirect [OF sample_mixed_inv, of "zend_string_init [97]" sample_globals "[98]"]
  by (simp add: str_ok_def zend_string_init_def)

text \<open>
  Deleting the bucket at a place, which a caller holds a pointer to: the walk along its
  collision chain ends at the bucket's predecessor, and the entry is removed.
\<close>

theorem delete_bucket:
  assumes "ht_inv ht" "\<not> f_packed ht" "\<not> f_uninit ht" "i < nNumUsed ht" "entry_at ht i = Some (k, v)"
  shows "\<exists>ht' eg' rel. zend_hash_del_bucket ht i eg = Inr (ht', eg') \<and> key_release k rel \<and>
    removed ht eg k (rel @ dtor_events ht v) ht' eg'"
  using assms by (rule del_bucket_spec)

theorem delete_bucket_witness:
  "\<exists>ht' eg' rel. zend_hash_del_bucket sample_mixed 1 sample_globals = Inr (ht', eg') \<and> key_release (KNum 5) rel \<and>
    removed sample_mixed sample_globals (KNum 5) (rel @ dtor_events sample_mixed (IS_LONG 7)) ht' eg'"
proof -
  have "entry_at sample_mixed 1 = Some (KNum 5, IS_LONG 7)"
    by (simp add: entry_at_def sample_mixed_def bucket_entry_def bucket_key_def)
  then show ?thesis
    using delete_bucket [OF sample_mixed_inv, of 1 "KNum 5" "IS_LONG 7" sample_globals] by simp
qed

text \<open>
  C17. Deleting while iterating: an iterator of the table has the same entries before it as
  it had, less the deleted one, whether the entry left a hole or the table was shortened. And
  when the table counts its iterators, none of them is left behind the new end of the used part:
  one that stood at the end stands at the new end, so that it still meets the entries that are
  appended next.
\<close>

theorem delete_keeps_iterators:
  assumes "ht_inv ht" "zend_hash_index_del ht h eg = Inr (ht', eg', True)"
    "i < length (ht_iterators eg)" "it_ht (ht_iterators eg ! i) = IterHT (ht_addr ht)"
    "i < ht_iterators_used eg" "nIteratorsCount ht \<noteq> 0" "it_pos (ht_iterators eg ! i) \<le> nNumUsed ht"
  shows "i < length (ht_iterators eg') \<and> it_ht (ht_iterators eg' ! i) = IterHT (ht_addr ht) \<and>
    from_pos ht' (it_pos (ht_iterators eg' ! i)) =
      AList.delete (KNum h) (from_pos ht (it_pos (ht_iterators eg ! i))) \<and>
    it_pos (ht_iterators eg' ! i) \<le> nNumUsed ht'"
proof -
  obtain evs where r: "removed ht eg (KNum h) evs ht' eg'"
    using index_del_spec [OF assms(1), of eg h] assms(2)
    by (auto simp: del_effect_def split: option.splits)
  show ?thesis using removed_iterators [OF r assms(3,4)] assms(5-7) by simp
qed

text \<open>A packed table under iteration: its iterator stands on the last entry, which is deleted.\<close>

definition sample_iterated :: HashTable where
  "sample_iterated = sample_packed\<lparr>nIteratorsCount := 1\<rparr>"

definition sample_registry :: executor_globals where
  "sample_registry =
     sample_globals\<lparr>ht_iterators := [\<lparr>it_ht = IterHT 2, it_pos = 2, it_next_copy = 0\<rparr>], ht_iterators_used := 1\<rparr>"

lemma sample_iterated_inv: "ht_inv sample_iterated"
  by code_simp

theorem delete_keeps_iterators_witness:
  "\<exists>ht' eg'. zend_hash_index_del sample_iterated 2 sample_registry = Inr (ht', eg', True) \<and>
    from_pos ht' (it_pos (ht_iterators eg' ! 0)) = AList.delete (KNum 2) (from_pos sample_iterated 2) \<and>
    it_pos (ht_iterators eg' ! 0) \<le> nNumUsed ht'"
proof -
  have e: "map_of (elems sample_iterated) (KNum 2) = Some IS_TRUE" by code_simp
  obtain ht' eg' where d: "zend_hash_index_del sample_iterated 2 sample_registry = Inr (ht', eg', True)"
    using index_del_spec [OF sample_iterated_inv, of sample_registry 2] e by (auto simp: del_effect_def)
  have "ht_iterators sample_registry ! 0 = \<lparr>it_ht = IterHT 2, it_pos = 2, it_next_copy = 0\<rparr>"
    "length (ht_iterators sample_registry) = 1" "ht_addr sample_iterated = 2" "ht_iterators_used sample_registry = 1"
    "nIteratorsCount sample_iterated = 1" "2 \<le> nNumUsed sample_iterated"
    by (simp_all add: sample_registry_def sample_iterated_def sample_packed_def)
  then show ?thesis using delete_keeps_iterators [OF sample_iterated_inv d, of 0] d by auto
qed

end
