(* ===== verification/HashTraverse.thy ===== *)
theory HashTraverse
  imports HashDelete
begin

text \<open>
  Reading a table place by place: positions and the internal pointer, the keys and values
  under them, and the count of the visible entries (\<open>Zend/zend_hash.c\<close>). A position is a
  place; \<open>from_pos\<close> is what a traversal still has before it, so a step of the traversal is
  its \<open>tl\<close>.
\<close>

subsection \<open>Positions\<close>

text \<open>The test \<open>Z_ISUNDEF\<close> on the zval at a place.\<close>

definition place_undef :: "HashTable \<Rightarrow> nat \<Rightarrow> error + bool" where
  "place_undef ht i =
     (if f_packed ht then bindE (rd (arPacked ht) i) (\<lambda>v. Inr (v = IS_UNDEF))
      else bindE (rd (arData ht) i) (\<lambda>p. Inr (b_val p = IS_UNDEF)))"

function zend_hash_get_valid_pos :: "HashTable \<Rightarrow> nat \<Rightarrow> error + nat" where
  "zend_hash_get_valid_pos ht pos =
     (if pos < nNumUsed ht
      then bindE (place_undef ht pos) (\<lambda>undef.
             if undef then zend_hash_get_valid_pos ht (pos + 1) else Inr pos)
      else Inr pos)"
  by pat_completeness auto
termination
  by (relation "measure (\<lambda>(ht, pos). nNumUsed ht - pos)") auto

declare zend_hash_get_valid_pos.simps [simp del]

definition zend_hash_get_current_pos :: "HashTable \<Rightarrow> error + nat" where
  "zend_hash_get_current_pos ht = zend_hash_get_valid_pos ht (nInternalPointer ht)"

definition zend_hash_get_current_pos_ex :: "HashTable \<Rightarrow> nat \<Rightarrow> error + nat" where
  "zend_hash_get_current_pos_ex ht pos = zend_hash_get_valid_pos ht pos"

definition zend_hash_internal_pointer_reset_ex :: "HashTable \<Rightarrow> error + nat" where
  "zend_hash_internal_pointer_reset_ex ht = zend_hash_get_valid_pos ht 0"

text \<open>The loop \<open>while (idx > 0) { idx--; ... }\<close> to the nearest live place below.\<close>

fun live_below :: "HashTable \<Rightarrow> nat \<Rightarrow> error + nat option" where
  "live_below ht 0 = Inr None"
| "live_below ht (Suc idx) =
     bindE (place_undef ht idx) (\<lambda>undef. if undef then live_below ht idx else Inr (Some idx))"

definition zend_hash_internal_pointer_end_ex :: "HashTable \<Rightarrow> error + nat" where
  "zend_hash_internal_pointer_end_ex ht =
     bindE (live_below ht (nNumUsed ht)) (\<lambda>r.
       case r of Some idx \<Rightarrow> Inr idx | None \<Rightarrow> Inr (nNumUsed ht))"

text \<open>The loop \<open>while (1)\<close> of a step forward.\<close>

function live_above :: "HashTable \<Rightarrow> nat \<Rightarrow> error + nat" where
  "live_above ht idx =
     (let idx = idx + 1 in
      if idx \<ge> nNumUsed ht then Inr (nNumUsed ht)
      else bindE (place_undef ht idx) (\<lambda>undef. if \<not> undef then Inr idx else live_above ht idx))"
  by pat_completeness auto
termination
  by (relation "measure (\<lambda>(ht, idx). nNumUsed ht - idx)") auto

declare live_above.simps [simp del]

text \<open>The steps return the new position and whether they are a \<open>SUCCESS\<close>.\<close>

definition zend_hash_move_forward_ex :: "HashTable \<Rightarrow> nat \<Rightarrow> error + (nat \<times> bool)" where
  "zend_hash_move_forward_ex ht pos =
     bindE (zend_hash_get_valid_pos ht pos) (\<lambda>idx.
       if idx < nNumUsed ht then bindE (live_above ht idx) (\<lambda>pos. Inr (pos, True))
       else Inr (pos, False))"

definition zend_hash_move_backwards_ex :: "HashTable \<Rightarrow> nat \<Rightarrow> error + (nat \<times> bool)" where
  "zend_hash_move_backwards_ex ht pos =
     (if pos < nNumUsed ht then
        bindE (live_below ht pos) (\<lambda>r.
          case r of Some idx \<Rightarrow> Inr (idx, True) | None \<Rightarrow> Inr (nNumUsed ht, True))
      else Inr (pos, False))"

subsection \<open>Keys and values under a position\<close>

datatype current_key = HASH_KEY_IS_STRING zend_string | HASH_KEY_IS_LONG "64 word" | HASH_KEY_NON_EXISTENT

definition zend_hash_get_current_key_ex :: "HashTable \<Rightarrow> nat \<Rightarrow> error + current_key" where
  "zend_hash_get_current_key_ex ht pos =
     bindE (zend_hash_get_valid_pos ht pos) (\<lambda>idx.
       if idx < nNumUsed ht then
         if f_packed ht then Inr (HASH_KEY_IS_LONG (of_nat idx))
         else bindE (rd (arData ht) idx) (\<lambda>p.
                case b_key p of Some k \<Rightarrow> Inr (HASH_KEY_IS_STRING k)
                | None \<Rightarrow> Inr (HASH_KEY_IS_LONG (b_h p)))
       else Inr HASH_KEY_NON_EXISTENT)"

definition zend_hash_get_current_key_zval_ex :: "HashTable \<Rightarrow> nat \<Rightarrow> executor_globals
    \<Rightarrow> error + (zval \<times> executor_globals)" where
  "zend_hash_get_current_key_zval_ex ht pos eg =
     bindE (zend_hash_get_valid_pos ht pos) (\<lambda>idx.
       if idx \<ge> nNumUsed ht then Inr (IS_NULL, eg)
       else if f_packed ht then Inr (IS_LONG (of_nat idx), eg)
       else bindE (rd (arData ht) idx) (\<lambda>p.
              case b_key p of Some k \<Rightarrow> Inr (IS_STRING k, emit (EvStrAddref k) eg)
              | None \<Rightarrow> Inr (IS_LONG (b_h p), eg)))"

text \<open>The type alone; the payloads of the result are not read by the C code and dropped here.\<close>

datatype zend_hash_key_type = KEY_STRING | KEY_LONG | KEY_NON_EXISTENT

definition zend_hash_get_current_key_type_ex :: "HashTable \<Rightarrow> nat \<Rightarrow> error + zend_hash_key_type" where
  "zend_hash_get_current_key_type_ex ht pos =
     bindE (zend_hash_get_valid_pos ht pos) (\<lambda>idx.
       if idx < nNumUsed ht then
         if f_packed ht then Inr KEY_LONG
         else bindE (rd (arData ht) idx) (\<lambda>p.
                case b_key p of Some k \<Rightarrow> Inr KEY_STRING | None \<Rightarrow> Inr KEY_LONG)
       else Inr KEY_NON_EXISTENT)"

definition zend_hash_get_current_data_ex :: "HashTable \<Rightarrow> nat \<Rightarrow> error + zloc option" where
  "zend_hash_get_current_data_ex ht pos =
     bindE (zend_hash_get_valid_pos ht pos) (\<lambda>idx.
       if idx < nNumUsed ht then
         if f_packed ht then Inr (Some (LPacked idx)) else Inr (Some (LBucket idx))
       else Inr None)"

subsection \<open>The variants of the header, on the internal pointer\<close>

definition zend_hash_has_more_elements_ex :: "HashTable \<Rightarrow> nat \<Rightarrow> error + bool" where
  "zend_hash_has_more_elements_ex ht pos =
     bindE (zend_hash_get_current_key_type_ex ht pos) (\<lambda>t. Inr (t \<noteq> KEY_NON_EXISTENT))"

definition zend_hash_move_forward :: "HashTable \<Rightarrow> error + (HashTable \<times> bool)" where
  "zend_hash_move_forward ht =
     bindE (zend_hash_move_forward_ex ht (nInternalPointer ht)) (\<lambda>(pos, r).
       Inr (ht\<lparr>nInternalPointer := pos\<rparr>, r))"

definition zend_hash_move_backwards :: "HashTable \<Rightarrow> error + (HashTable \<times> bool)" where
  "zend_hash_move_backwards ht =
     bindE (zend_hash_move_backwards_ex ht (nInternalPointer ht)) (\<lambda>(pos, r).
       Inr (ht\<lparr>nInternalPointer := pos\<rparr>, r))"

definition zend_hash_get_current_data :: "HashTable \<Rightarrow> error + zloc option" where
  "zend_hash_get_current_data ht = zend_hash_get_current_data_ex ht (nInternalPointer ht)"

definition zend_hash_internal_pointer_reset :: "HashTable \<Rightarrow> error + HashTable" where
  "zend_hash_internal_pointer_reset ht =
     bindE (zend_hash_internal_pointer_reset_ex ht) (\<lambda>pos. Inr (ht\<lparr>nInternalPointer := pos\<rparr>))"

definition zend_hash_internal_pointer_end :: "HashTable \<Rightarrow> error + HashTable" where
  "zend_hash_internal_pointer_end ht =
     bindE (zend_hash_internal_pointer_end_ex ht) (\<lambda>pos. Inr (ht\<lparr>nInternalPointer := pos\<rparr>))"

subsection \<open>Counting\<close>

text \<open>
  \<open>ZEND_HASH_MAP_FOREACH_VAL\<close> with its body: an entry whose zval outside the table is
  undefined does not count. \<open>symbol_table\<close> is the address of \<open>EG(symbol_table)\<close>.
\<close>

definition recalc_step :: "HashTable \<Rightarrow> executor_globals \<Rightarrow> nat \<Rightarrow> nat \<Rightarrow> error + nat" where
  "recalc_step ht eg num i =
     bindE (rd (arData ht) i) (\<lambda>p.
       case b_val p of
         IS_INDIRECT a \<Rightarrow> Inr (if indirect eg a = IS_UNDEF then (num + 2 ^ 32 - 1) mod 2 ^ 32 else num)
       | _ \<Rightarrow> Inr num)"

definition zend_array_recalc_elements :: "HashTable \<Rightarrow> executor_globals \<Rightarrow> error + nat" where
  "zend_array_recalc_elements ht eg =
     assertE (\<not> f_packed ht) (\<lambda>_. foldE (recalc_step ht eg) [0..<nNumUsed ht] (nNumOfElements ht))"

definition zend_array_count :: "nat \<Rightarrow> HashTable \<Rightarrow> executor_globals \<Rightarrow> error + (HashTable \<times> nat)" where
  "zend_array_count symbol_table ht eg =
     (if f_empty_ind ht then
        bindE (zend_array_recalc_elements ht eg) (\<lambda>num.
          Inr (if nNumOfElements ht = num then ht\<lparr>f_empty_ind := False\<rparr> else ht, num))
      else if ht_addr ht = symbol_table then
        bindE (zend_array_recalc_elements ht eg) (\<lambda>num. Inr (ht, num))
      else Inr (ht, nNumOfElements ht))"

subsection \<open>What a table has before and from a place on\<close>

definition before_pos :: "HashTable \<Rightarrow> nat \<Rightarrow> (hkey \<times> zval) list" where
  "before_pos ht p = entries (entry_at ht) (min p (nNumUsed ht))"

lemma before_from: "before_pos ht p @ from_pos ht p = elems ht"
proof -
  obtain rest where "elems ht = before_pos ht p @ rest"
    using entries_split [of "min p (nNumUsed ht)" "nNumUsed ht" "entry_at ht"]
    by (auto simp: before_pos_def elems_def)
  then show ?thesis by (simp add: from_pos_def before_pos_def)
qed

lemma from_pos_past: "nNumUsed ht \<le> p \<Longrightarrow> from_pos ht p = []"
  by (simp add: from_pos_def elems_def)

lemma from_pos_0 [simp]: "from_pos ht 0 = elems ht"
  by (simp add: from_pos_def)

lemma before_pos_0 [simp]: "before_pos ht 0 = []"
  by (simp add: before_pos_def)

lemma before_pos_used: "before_pos ht (nNumUsed ht) = elems ht"
  by (simp add: before_pos_def elems_def)

lemma before_pos_Suc:
  "p < nNumUsed ht \<Longrightarrow>
    before_pos ht (Suc p) = before_pos ht p @ (case entry_at ht p of None \<Rightarrow> [] | Some kv \<Rightarrow> [kv])"
  by (simp add: before_pos_def)

lemma from_pos_Suc:
  assumes "p < nNumUsed ht"
  shows "from_pos ht p = (case entry_at ht p of None \<Rightarrow> [] | Some kv \<Rightarrow> [kv]) @ from_pos ht (Suc p)"
  using before_from [of ht p] before_from [of ht "Suc p"] before_pos_Suc [OF assms]
  by (metis append.assoc same_append_eq)

lemma place_undef_ok:
  assumes "ht_inv ht" "i < nNumUsed ht"
  shows "place_undef ht i = Inr (entry_at ht i = None)"
proof (cases "f_packed ht")
  case True
  note ok = inv_packed [OF assms(1) True, unfolded packed_ok_def]
  then obtain v where "arPacked ht ! i = Some v" using assms(2) by blast
  then show ?thesis using True ok assms(2)
    by (simp add: place_undef_def entry_at_def packed_entry_def)
next
  case False
  then have "\<not> f_uninit ht" using assms by (auto simp: ht_inv_def uninit_ok_def)
  note mix = inv_mixed [OF assms(1) False this]
  obtain p where "arData ht ! i = Some p" using mixed_bucket [OF mix assms(2)] by blast
  then show ?thesis using False mixed_okD(3,4) [OF mix] assms(2)
    by (simp add: place_undef_def entry_at_def bucket_entry_def)
qed

text \<open>A live place of either kind of table.\<close>

lemma live_place:
  assumes "ht_inv ht" "i < nNumUsed ht" "entry_at ht i = Some (k, v)"
  obtains (packed) "f_packed ht" "i < length (arPacked ht)" "arPacked ht ! i = Some v" "v \<noteq> IS_UNDEF"
      "k = KNum (of_nat i)"
  | (bucket) p where "\<not> f_packed ht" "\<not> f_uninit ht" "i < length (arData ht)" "arData ht ! i = Some p"
      "b_val p = v" "v \<noteq> IS_UNDEF" "bucket_key p = k"
proof (cases "f_packed ht")
  case True
  then have "arPacked ht ! i = Some v" "v \<noteq> IS_UNDEF" "k = KNum (of_nat i)"
    using assms(3) by (auto simp: entry_at_def packed_entry_def split: option.splits if_splits)
  moreover have "i < length (arPacked ht)" using inv_packed [OF assms(1) True] assms(2) by (simp add: packed_ok_def)
  ultimately show thesis using True packed by blast
next
  case False
  then obtain p where p: "arData ht ! i = Some p" "b_val p = v" "v \<noteq> IS_UNDEF" "bucket_key p = k"
    using assms(3) by (auto simp: entry_at_def bucket_entry_def split: option.splits if_splits)
  have "\<not> f_uninit ht" using assms(1,2) False by (auto simp: ht_inv_def uninit_ok_def)
  moreover from this have "i < length (arData ht)"
    using mixed_okD(3,4) [OF inv_mixed [OF assms(1) False]] assms(2) by simp
  ultimately show thesis using False p bucket by blast
qed

subsection \<open>Steps\<close>

text \<open>A position that is valid, or past the end: it has the same before it as the one it was made from.\<close>

definition valid_at :: "HashTable \<Rightarrow> nat \<Rightarrow> (hkey \<times> zval) list \<Rightarrow> bool" where
  "valid_at ht q xs \<longleftrightarrow> from_pos ht q = xs \<and>
     (case xs of [] \<Rightarrow> nNumUsed ht \<le> q
      | kv # ys \<Rightarrow> q < nNumUsed ht \<and> entry_at ht q = Some kv \<and> from_pos ht (Suc q) = ys)"

lemma valid_pos_spec:
  "ht_inv ht \<Longrightarrow> \<exists>q. zend_hash_get_valid_pos ht p = Inr q \<and> p \<le> q \<and> valid_at ht q (from_pos ht p)"
proof (induction ht p rule: zend_hash_get_valid_pos.induct)
  case (1 ht p)
  show ?case
  proof (cases "p < nNumUsed ht")
    case True
    note undef = place_undef_ok [OF "1.prems" True] and step = from_pos_Suc [OF True]
    show ?thesis
    proof (cases "entry_at ht p")
      case None
      then obtain q where "zend_hash_get_valid_pos ht (p + 1) = Inr q" "p + 1 \<le> q"
        "valid_at ht q (from_pos ht (p + 1))" using "1.IH" [OF True, of True] "1.prems" by auto
      then show ?thesis using True undef None step by (subst zend_hash_get_valid_pos.simps) simp
    next
      case (Some kv)
      then show ?thesis using True undef step
        by (subst zend_hash_get_valid_pos.simps) (simp add: valid_at_def)
    qed
  next
    case False
    then show ?thesis using from_pos_past [of ht p]
      by (subst zend_hash_get_valid_pos.simps) (simp add: valid_at_def)
  qed
qed

lemma live_above_spec:
  "ht_inv ht \<Longrightarrow> p < nNumUsed ht \<Longrightarrow>
    \<exists>q. live_above ht p = Inr q \<and> p < q \<and> valid_at ht q (from_pos ht (Suc p))"
proof (induction "nNumUsed ht - p" arbitrary: p rule: less_induct)
  case less
  show ?case
  proof (cases "Suc p < nNumUsed ht")
    case True
    note undef = place_undef_ok [OF less.prems(1) True] and step = from_pos_Suc [OF True]
    show ?thesis
    proof (cases "entry_at ht (Suc p)")
      case None
      have "nNumUsed ht - Suc p < nNumUsed ht - p" using True by simp
      from less.hyps [OF this less.prems(1) True] obtain q where "live_above ht (Suc p) = Inr q" "Suc p < q"
        "valid_at ht q (from_pos ht (Suc (Suc p)))" by blast
      with None show ?thesis using True undef step by (subst live_above.simps) (simp add: Let_def)
    next
      case (Some kv)
      then show ?thesis using True undef step
        by (subst live_above.simps) (simp add: Let_def valid_at_def)
    qed
  next
    case False
    then show ?thesis using from_pos_past [of ht "Suc p"] from_pos_past [of ht "nNumUsed ht"] less.prems
      by (subst live_above.simps) (simp add: Let_def valid_at_def)
  qed
qed

lemma live_below_spec:
  "ht_inv ht \<Longrightarrow> p \<le> nNumUsed ht \<Longrightarrow>
    (if before_pos ht p = [] then live_below ht p = Inr None
     else \<exists>q<p. live_below ht p = Inr (Some q) \<and> entry_at ht q = Some (last (before_pos ht p)) \<and>
       before_pos ht q = butlast (before_pos ht p))"
proof (induction p)
  case (Suc p)
  have p: "p < nNumUsed ht" using Suc.prems(2) by simp
  note undef = place_undef_ok [OF Suc.prems(1) p] and step = before_pos_Suc [OF p]
  show ?case
  proof (cases "entry_at ht p")
    case None
    then have "live_below ht (Suc p) = live_below ht p" "before_pos ht (Suc p) = before_pos ht p"
      using undef step by simp_all
    then show ?thesis using Suc.IH [OF Suc.prems(1)] p by (auto intro: less_SucI)
  next
    case (Some kv)
    then show ?thesis using step undef by auto
  qed
qed simp

text \<open>The steps of a traversal, in terms of what is before it.\<close>

lemma move_forward_spec:
  assumes "ht_inv ht"
  shows "\<exists>q. zend_hash_move_forward_ex ht p = Inr (q, from_pos ht p \<noteq> []) \<and> from_pos ht q = tl (from_pos ht p)"
proof -
  obtain r where r: "zend_hash_get_valid_pos ht p = Inr r" "valid_at ht r (from_pos ht p)"
    using valid_pos_spec [OF assms, of p] by blast
  show ?thesis
  proof (cases "from_pos ht p")
    case Nil
    then show ?thesis using r by (simp add: zend_hash_move_forward_ex_def valid_at_def)
  next
    case (Cons kv ys)
    then have "r < nNumUsed ht" "from_pos ht (Suc r) = ys" using r(2) by (simp_all add: valid_at_def)
    moreover from this obtain q where "live_above ht r = Inr q" "valid_at ht q ys"
      using live_above_spec [OF assms, of r] by auto
    ultimately show ?thesis using r(1) Cons by (simp add: zend_hash_move_forward_ex_def valid_at_def)
  qed
qed

lemma move_backwards_spec:
  assumes "ht_inv ht" "p < nNumUsed ht"
  shows "\<exists>q. zend_hash_move_backwards_ex ht p = Inr (q, True) \<and>
    (if before_pos ht p = [] then from_pos ht q = []
     else from_pos ht q = last (before_pos ht p) # from_pos ht p \<and> before_pos ht q = butlast (before_pos ht p))"
proof (cases "before_pos ht p = []")
  case True
  then show ?thesis using live_below_spec [of ht p] assms from_pos_past [of ht "nNumUsed ht"]
    by (simp add: zend_hash_move_backwards_ex_def)
next
  case False
  then obtain q where q: "live_below ht p = Inr (Some q)" "before_pos ht q = butlast (before_pos ht p)"
    using live_below_spec [of ht p] assms by auto
  have "butlast (before_pos ht p) @ from_pos ht q = before_pos ht p @ from_pos ht p"
    using before_from [of ht q] before_from [of ht p] q(2) by simp
  then have "butlast (before_pos ht p) @ from_pos ht q =
      butlast (before_pos ht p) @ last (before_pos ht p) # from_pos ht p"
    using False by (metis append.assoc append_butlast_last_id append_Cons append_Nil)
  then show ?thesis using q assms(2) False by (simp add: zend_hash_move_backwards_ex_def)
qed

lemma move_backwards_past: "nNumUsed ht \<le> p \<Longrightarrow> zend_hash_move_backwards_ex ht p = Inr (p, False)"
  by (simp add: zend_hash_move_backwards_ex_def)

lemma pointer_reset_spec:
  assumes "ht_inv ht"
  shows "\<exists>q. zend_hash_internal_pointer_reset_ex ht = Inr q \<and> from_pos ht q = elems ht"
  using valid_pos_spec [OF assms, of 0] by (auto simp: zend_hash_internal_pointer_reset_ex_def valid_at_def)

lemma pointer_end_spec:
  assumes "ht_inv ht"
  shows "\<exists>q. zend_hash_internal_pointer_end_ex ht = Inr q \<and>
    from_pos ht q = (if elems ht = [] then [] else [last (elems ht)])"
proof (cases "elems ht = []")
  case True
  then show ?thesis using live_below_spec [OF assms order.refl] from_pos_past [of ht "nNumUsed ht"]
    by (simp add: zend_hash_internal_pointer_end_ex_def before_pos_used)
next
  case False
  then obtain q where q: "live_below ht (nNumUsed ht) = Inr (Some q)" "before_pos ht q = butlast (elems ht)"
    using live_below_spec [OF assms order.refl] by (auto simp: before_pos_used)
  have "butlast (elems ht) @ from_pos ht q = butlast (elems ht) @ [last (elems ht)]"
    using before_from [of ht q] q(2) False by (metis append_butlast_last_id)
  then have "from_pos ht q = [last (elems ht)]" by (simp only: same_append_eq)
  then show ?thesis using q(1) False by (simp add: zend_hash_internal_pointer_end_ex_def)
qed

subsection \<open>What is under a position\<close>

definition ckey :: "current_key \<Rightarrow> hkey option" where
  "ckey ck =
     (case ck of HASH_KEY_IS_STRING k \<Rightarrow> Some (KStr (zs_val k)) | HASH_KEY_IS_LONG h \<Rightarrow> Some (KNum h)
      | HASH_KEY_NON_EXISTENT \<Rightarrow> None)"

definition zkey :: "zval \<Rightarrow> hkey option" where
  "zkey v =
     (case v of IS_STRING k \<Rightarrow> Some (KStr (zs_val k)) | IS_LONG h \<Rightarrow> Some (KNum h) | _ \<Rightarrow> None)"

definition key_type :: "hkey \<Rightarrow> zend_hash_key_type" where
  "key_type k = (case k of KStr _ \<Rightarrow> KEY_STRING | KNum _ \<Rightarrow> KEY_LONG)"

lemma current_spec:
  assumes "ht_inv ht" and xs: "from_pos ht p = xs"
  shows current_data: "found_val ht eg (zend_hash_get_current_data_ex ht p) =
      Inr (case xs of [] \<Rightarrow> None | kv # ys \<Rightarrow> Some (snd kv))"
    and current_key: "\<exists>ck. zend_hash_get_current_key_ex ht p = Inr ck \<and>
      ckey ck = (case xs of [] \<Rightarrow> None | kv # ys \<Rightarrow> Some (fst kv))"
    and current_key_zval: "\<exists>v eg'. zend_hash_get_current_key_zval_ex ht p eg = Inr (v, eg') \<and>
      zkey v = (case xs of [] \<Rightarrow> None | kv # ys \<Rightarrow> Some (fst kv))"
    and current_key_type: "zend_hash_get_current_key_type_ex ht p =
      Inr (case xs of [] \<Rightarrow> KEY_NON_EXISTENT | kv # ys \<Rightarrow> key_type (fst kv))"
proof -
  note defs = zend_hash_get_current_data_ex_def zend_hash_get_current_key_ex_def
    zend_hash_get_current_key_zval_ex_def zend_hash_get_current_key_type_ex_def
    found_val_def zloc_val_def ckey_def zkey_def key_type_def
  obtain r where r: "zend_hash_get_valid_pos ht p = Inr r" "valid_at ht r xs"
    using valid_pos_spec [OF assms(1), of p] xs by blast
  have "found_val ht eg (zend_hash_get_current_data_ex ht p) =
        Inr (case xs of [] \<Rightarrow> None | kv # ys \<Rightarrow> Some (snd kv)) \<and>
      (\<exists>ck. zend_hash_get_current_key_ex ht p = Inr ck \<and>
        ckey ck = (case xs of [] \<Rightarrow> None | kv # ys \<Rightarrow> Some (fst kv))) \<and>
      (\<exists>v eg'. zend_hash_get_current_key_zval_ex ht p eg = Inr (v, eg') \<and>
        zkey v = (case xs of [] \<Rightarrow> None | kv # ys \<Rightarrow> Some (fst kv))) \<and>
      zend_hash_get_current_key_type_ex ht p =
        Inr (case xs of [] \<Rightarrow> KEY_NON_EXISTENT | kv # ys \<Rightarrow> key_type (fst kv))"
  proof (cases xs)
    case Nil
    then show ?thesis using r by (simp add: valid_at_def defs)
  next
    case (Cons kv ys)
    obtain k v where kv: "kv = (k, v)" by (cases kv)
    then have v: "r < nNumUsed ht" "entry_at ht r = Some (k, v)" using r(2) Cons by (simp_all add: valid_at_def)
    from assms(1) v show ?thesis
    proof (cases rule: live_place)
      case packed
      then show ?thesis using r(1) v(1) Cons kv by (simp add: defs)
    next
      case (bucket q)
      then show ?thesis using r(1) v(1) Cons kv
        by (cases "b_key q") (auto simp: defs bucket_key_def)
    qed
  qed
  then show "found_val ht eg (zend_hash_get_current_data_ex ht p) =
        Inr (case xs of [] \<Rightarrow> None | kv # ys \<Rightarrow> Some (snd kv))"
    "\<exists>ck. zend_hash_get_current_key_ex ht p = Inr ck \<and>
        ckey ck = (case xs of [] \<Rightarrow> None | kv # ys \<Rightarrow> Some (fst kv))"
    "\<exists>v eg'. zend_hash_get_current_key_zval_ex ht p eg = Inr (v, eg') \<and>
        zkey v = (case xs of [] \<Rightarrow> None | kv # ys \<Rightarrow> Some (fst kv))"
    "zend_hash_get_current_key_type_ex ht p =
        Inr (case xs of [] \<Rightarrow> KEY_NON_EXISTENT | kv # ys \<Rightarrow> key_type (fst kv))"
    by blast+
qed

text \<open>Moving the internal pointer leaves the table alone.\<close>

lemma entry_at_upd [simp]:
  "entry_at (ht\<lparr>nInternalPointer := p\<rparr>) = entry_at ht"
  "entry_at (ht\<lparr>nIteratorsCount := c\<rparr>) = entry_at ht"
  "entry_at (ht\<lparr>f_empty_ind := b\<rparr>) = entry_at ht"
  by (simp_all add: entry_at_def fun_eq_iff)

lemma elems_upd [simp]:
  "elems (ht\<lparr>nInternalPointer := p\<rparr>) = elems ht"
  "elems (ht\<lparr>nIteratorsCount := c\<rparr>) = elems ht"
  "elems (ht\<lparr>f_empty_ind := b\<rparr>) = elems ht"
  by (simp_all add: elems_def)

lemma from_pos_upd [simp]:
  "from_pos (ht\<lparr>nInternalPointer := p\<rparr>) = from_pos ht"
  "from_pos (ht\<lparr>nIteratorsCount := c\<rparr>) = from_pos ht"
  "from_pos (ht\<lparr>f_empty_ind := b\<rparr>) = from_pos ht"
  by (simp_all add: from_pos_def fun_eq_iff)

lemma ht_inv_upd [simp]:
  "ht_inv (ht\<lparr>nInternalPointer := p\<rparr>) = ht_inv ht"
  "ht_inv (ht\<lparr>nIteratorsCount := c\<rparr>) = ht_inv ht"
  "ht_inv (ht\<lparr>f_empty_ind := b\<rparr>) = ht_inv ht"
  by (simp_all add: ht_inv_def packed_ok_def uninit_ok_def mixed_ok_def next_free_ok_def)

subsection \<open>Counting the visible entries\<close>

definition empty_indirect :: "executor_globals \<Rightarrow> hkey \<times> zval \<Rightarrow> bool" where
  "empty_indirect eg kv \<longleftrightarrow> (case snd kv of IS_INDIRECT a \<Rightarrow> indirect eg a = IS_UNDEF | _ \<Rightarrow> False)"

lemma recalc_spec:
  assumes inv: "ht_inv ht" "\<not> f_packed ht"
  shows "zend_array_recalc_elements ht eg = Inr (length (filter (\<lambda>kv. \<not> empty_indirect eg kv) (elems ht)))"
proof -
  let ?n = "nNumOfElements ht" and ?e = "\<lambda>i. length (filter (empty_indirect eg) (before_pos ht i))"
  have len: "?n = length (elems ht)" using inv(1) by (simp add: ht_inv_def)
  have small: "?n < 2 ^ 32"
    using len length_entries_le [of "entry_at ht" "nNumUsed ht"] inv_used_le [OF inv(1)]
      size_ok_bounds [OF inv_size [OF inv(1)]] by (simp add: elems_def HT_MAX_SIZE_def)
  have bound: "?e i \<le> ?n" for i
  proof -
    have "?e i \<le> length (before_pos ht i)" by simp
    also have "\<dots> \<le> ?n" using len before_from [of ht i] by (metis length_append le_add1)
    finally show ?thesis .
  qed
  have loop: "i \<le> nNumUsed ht \<Longrightarrow> foldE (recalc_step ht eg) [0..<i] ?n = Inr (?n - ?e i)" for i
  proof (induction i)
    case (Suc i)
    then have i: "i < nNumUsed ht" by simp
    have "\<not> f_uninit ht" using inv i by (auto simp: ht_inv_def uninit_ok_def)
    note mix = inv_mixed [OF inv this]
    obtain p where p: "arData ht ! i = Some p" using mixed_bucket [OF mix i] by blast
    have rd: "rd (arData ht) i = Inr p" using p mixed_okD(3,4) [OF mix] i by simp
    note b = before_pos_Suc [OF i]
    have e: "entry_at ht i = (if b_val p = IS_UNDEF then None else Some (bucket_key p, b_val p))"
      using p inv(2) by (simp add: entry_at_def bucket_entry_def)
    have dec: "(?n - k + 2 ^ 32 - 1) mod 2 ^ 32 = ?n - Suc k" if "Suc k \<le> ?n" for k
    proof -
      have "?n - k + 2 ^ 32 - 1 = (?n - Suc k) + 2 ^ 32" using that by simp
      then have "(?n - k + 2 ^ 32 - 1) mod 2 ^ 32 = ((?n - Suc k) + 2 ^ 32) mod 2 ^ 32" by (simp only:)
      also have "\<dots> = ?n - Suc k" using small by simp
      finally show ?thesis .
    qed
    have e': "?e (Suc i) = ?e i + (case b_val p of IS_INDIRECT a \<Rightarrow> if indirect eg a = IS_UNDEF then 1 else 0 | _ \<Rightarrow> 0)"
      using b e by (cases "b_val p") (simp_all add: empty_indirect_def)
    have "recalc_step ht eg (?n - ?e i) i = Inr (?n - ?e (Suc i))"
      unfolding e' using rd bound [of "Suc i", unfolded e'] dec [of "?e i"]
      by (cases "b_val p") (auto simp: recalc_step_def)
    then show ?case using Suc by (simp add: foldE_append)
  qed simp
  have "?n - ?e (nNumUsed ht) = length (filter (\<lambda>kv. \<not> empty_indirect eg kv) (elems ht))"
    using sum_length_filter_compl [of "empty_indirect eg" "elems ht"] len by (simp add: before_pos_used)
  then show ?thesis using loop [OF order.refl] inv(2) by (simp add: zend_array_recalc_elements_def)
qed

lemma array_count_spec:
  assumes "ht_inv ht" "f_packed ht \<Longrightarrow> \<not> f_empty_ind ht \<and> ht_addr ht \<noteq> st"
    and hidden: "\<not> f_empty_ind ht \<Longrightarrow> ht_addr ht \<noteq> st \<Longrightarrow> \<forall>kv\<in>set (elems ht). \<not> empty_indirect eg kv"
  obtains ht' where
    "zend_array_count st ht eg = Inr (ht', length (filter (\<lambda>kv. \<not> empty_indirect eg kv) (elems ht)))"
    "ht' = ht\<lparr>f_empty_ind := f_empty_ind ht'\<rparr>"
    "f_empty_ind ht' \<longleftrightarrow> f_empty_ind ht \<and> (\<exists>kv\<in>set (elems ht). empty_indirect eg kv)"
proof -
  let ?l = "length (filter (\<lambda>kv. \<not> empty_indirect eg kv) (elems ht))"
  have len: "nNumOfElements ht = length (elems ht)" using assms(1) by (simp add: ht_inv_def)
  have all: "length (elems ht) = ?l \<longleftrightarrow> (\<forall>kv\<in>set (elems ht). \<not> empty_indirect eg kv)"
    using length_filter_less [of _ "elems ht" "\<lambda>kv. \<not> empty_indirect eg kv"] by force
  consider "f_empty_ind ht" | "\<not> f_empty_ind ht" "ht_addr ht = st" | "\<not> f_empty_ind ht" "ht_addr ht \<noteq> st"
    by blast
  then show thesis
  proof cases
    case 1
    then have r: "zend_array_recalc_elements ht eg = Inr ?l" using recalc_spec assms(1,2) by blast
    show thesis
      by (rule that [of "if nNumOfElements ht = ?l then ht\<lparr>f_empty_ind := False\<rparr> else ht"])
        (use 1 r all len in \<open>simp_all add: zend_array_count_def\<close>)
  next
    case 2
    then have "zend_array_recalc_elements ht eg = Inr ?l" using recalc_spec assms(1,2) by blast
    then show thesis using 2 by (intro that [of ht]) (simp_all add: zend_array_count_def)
  next
    case 3
    then have "length (elems ht) = ?l" using hidden all by blast
    then show thesis using 3 len by (intro that [of ht]) (simp_all add: zend_array_count_def)
  qed
qed

end
