(* ===== verification/HashApply.thy ===== *)
theory HashApply
  imports HashTraverse
begin

text \<open>
  Walking over a table with a callback that may delete entries: \<open>zend_hash_apply\<close> and its
  variants, and the graceful destructions (\<open>Zend/zend_hash.c\<close>). A callback is a function
  of the key, the value, its own state and returns the result flags, the value it leaves in
  place, and its new state; it does not change the table in any other way.
\<close>

subsection \<open>The loops\<close>

definition ZEND_HASH_APPLY_KEEP :: "32 word" where "ZEND_HASH_APPLY_KEEP = 0"
definition ZEND_HASH_APPLY_REMOVE :: "32 word" where "ZEND_HASH_APPLY_REMOVE = push_bit 0 1"
definition ZEND_HASH_APPLY_STOP :: "32 word" where "ZEND_HASH_APPLY_STOP = push_bit 1 1"

record zend_hash_key =
  hk_h :: "64 word"
  hk_key :: "zend_string option"

type_synonym 's apply_func = "zend_hash_key \<Rightarrow> zval \<Rightarrow> 's \<Rightarrow> 32 word \<times> zval \<times> 's"

text \<open>The key and the value at a live place, and the callback's write to the value.\<close>

definition place_read :: "HashTable \<Rightarrow> nat \<Rightarrow> error + (zend_hash_key \<times> zval)" where
  "place_read ht idx =
     (if f_packed ht then
        bindE (rd (arPacked ht) idx) (\<lambda>v. Inr (\<lparr>hk_h = of_nat idx, hk_key = None\<rparr>, v))
      else bindE (rd (arData ht) idx) (\<lambda>p. Inr (\<lparr>hk_h = b_h p, hk_key = b_key p\<rparr>, b_val p)))"

definition place_loc :: "HashTable \<Rightarrow> nat \<Rightarrow> zloc" where
  "place_loc ht idx = (if f_packed ht then LPacked idx else LBucket idx)"

definition place_del :: "HashTable \<Rightarrow> nat \<Rightarrow> executor_globals \<Rightarrow> error + (HashTable \<times> executor_globals)" where
  "place_del ht idx eg =
     (if f_packed ht then zend_hash_packed_del_val_i ht idx eg else zend_hash_del_el ht idx eg)"

text \<open>
  One loop for all variants, over the places in the given order. The forward loops test
  \<open>idx < ht->nNumUsed\<close> before every place (\<open>bounded\<close>), and \<open>nNumUsed\<close> never grows in them;
  the backward ones only count down from it.
\<close>

fun apply_loop :: "'s apply_func \<Rightarrow> bool \<Rightarrow> nat list \<Rightarrow> HashTable \<Rightarrow> executor_globals \<Rightarrow> 's
    \<Rightarrow> error + (HashTable \<times> executor_globals \<times> 's)" where
  "apply_loop f bounded [] ht eg s = Inr (ht, eg, s)"
| "apply_loop f bounded (idx # is) ht eg s =
     (if bounded \<and> \<not> idx < nNumUsed ht then Inr (ht, eg, s)
      else bindE (place_undef ht idx) (\<lambda>undef.
        if undef then apply_loop f bounded is ht eg s
        else
          bindE (place_read ht idx) (\<lambda>(hash_key, v).
          case f hash_key v s of (result, v, s) \<Rightarrow>
          bindE (zval_store ht eg (place_loc ht idx) v) (\<lambda>(ht, eg).
          bindE (if result AND ZEND_HASH_APPLY_REMOVE \<noteq> 0 then place_del ht idx eg else Inr (ht, eg))
            (\<lambda>(ht, eg).
               if result AND ZEND_HASH_APPLY_STOP \<noteq> 0 then Inr (ht, eg, s)
               else apply_loop f bounded is ht eg s)))))"

definition zend_hash_apply :: "HashTable \<Rightarrow> (zval \<Rightarrow> 's \<Rightarrow> 32 word \<times> zval \<times> 's) \<Rightarrow> executor_globals \<Rightarrow> 's
    \<Rightarrow> error + (HashTable \<times> executor_globals \<times> 's)" where
  "zend_hash_apply ht apply_func eg s =
     apply_loop (\<lambda>_ v. apply_func v) True [0..<nNumUsed ht] ht eg s"

definition zend_hash_apply_with_argument ::
  "HashTable \<Rightarrow> (zval \<Rightarrow> 'a \<Rightarrow> 's \<Rightarrow> 32 word \<times> zval \<times> 's) \<Rightarrow> 'a \<Rightarrow> executor_globals \<Rightarrow> 's
    \<Rightarrow> error + (HashTable \<times> executor_globals \<times> 's)" where
  "zend_hash_apply_with_argument ht apply_func argument eg s =
     apply_loop (\<lambda>_ v. apply_func v argument) True [0..<nNumUsed ht] ht eg s"

definition zend_hash_apply_with_arguments ::
  "HashTable \<Rightarrow> (zval \<Rightarrow> 'a list \<Rightarrow> zend_hash_key \<Rightarrow> 's \<Rightarrow> 32 word \<times> zval \<times> 's) \<Rightarrow> 'a list \<Rightarrow> executor_globals \<Rightarrow> 's
    \<Rightarrow> error + (HashTable \<times> executor_globals \<times> 's)" where
  "zend_hash_apply_with_arguments ht apply_func args eg s =
     apply_loop (\<lambda>hash_key v. apply_func v args hash_key) True [0..<nNumUsed ht] ht eg s"

definition zend_hash_reverse_apply :: "HashTable \<Rightarrow> (zval \<Rightarrow> 's \<Rightarrow> 32 word \<times> zval \<times> 's) \<Rightarrow> executor_globals \<Rightarrow> 's
    \<Rightarrow> error + (HashTable \<times> executor_globals \<times> 's)" where
  "zend_hash_reverse_apply ht apply_func eg s =
     apply_loop (\<lambda>_ v. apply_func v) False (rev [0..<nNumUsed ht]) ht eg s"

text \<open>The graceful destructions delete every entry and then free the block.\<close>

fun delete_loop :: "bool \<Rightarrow> nat list \<Rightarrow> HashTable \<Rightarrow> executor_globals
    \<Rightarrow> error + (HashTable \<times> executor_globals)" where
  "delete_loop bounded [] ht eg = Inr (ht, eg)"
| "delete_loop bounded (idx # is) ht eg =
     (if bounded \<and> \<not> idx < nNumUsed ht then Inr (ht, eg)
      else bindE (place_undef ht idx) (\<lambda>undef.
        if undef then delete_loop bounded is ht eg
        else bindE (place_del ht idx eg) (\<lambda>(ht, eg). delete_loop bounded is ht eg)))"

definition free_data :: "HashTable \<Rightarrow> HashTable" where
  "free_data ht = ht\<lparr>arHash := [], arData := [], arPacked := []\<rparr>"

definition zend_hash_graceful_destroy :: "HashTable \<Rightarrow> executor_globals
    \<Rightarrow> error + (HashTable \<times> executor_globals)" where
  "zend_hash_graceful_destroy ht eg =
     bindE (delete_loop True [0..<nNumUsed ht] ht eg) (\<lambda>(ht, eg).
       Inr (if \<not> f_uninit ht then free_data ht else ht, eg))"

definition zend_hash_graceful_reverse_destroy :: "HashTable \<Rightarrow> executor_globals
    \<Rightarrow> error + (HashTable \<times> executor_globals)" where
  "zend_hash_graceful_reverse_destroy ht eg =
     bindE (delete_loop False (rev [0..<nNumUsed ht]) ht eg) (\<lambda>(ht, eg).
       Inr (if \<not> f_uninit ht then free_data ht else ht, eg))"

subsection \<open>The walk on the ordered map\<close>

text \<open>
  \<open>apply_list\<close> is the walk on a list of entries: the entries left, the values handed to the
  destructor, the state of the callback.
\<close>

definition hk_hkey :: "zend_hash_key \<Rightarrow> hkey" where
  "hk_hkey hk = (case hk_key hk of None \<Rightarrow> KNum (hk_h hk) | Some k \<Rightarrow> KStr (zs_val k))"

fun apply_list :: "(hkey \<Rightarrow> zval \<Rightarrow> 's \<Rightarrow> 32 word \<times> zval \<times> 's) \<Rightarrow> (hkey \<times> zval) list \<Rightarrow> 's
    \<Rightarrow> (hkey \<times> zval) list \<times> zval list \<times> 's" where
  "apply_list g [] s = ([], [], s)"
| "apply_list g ((k, v) # xs) s =
     (case g k v s of (result, v, s) \<Rightarrow>
      case (if result AND ZEND_HASH_APPLY_STOP \<noteq> 0 then (xs, [], s) else apply_list g xs s) of
        (ys, dead, s) \<Rightarrow>
          if result AND ZEND_HASH_APPLY_REMOVE \<noteq> 0 then (ys, v # dead, s) else ((k, v) # ys, dead, s))"

text \<open>The values handed to the destructor so far.\<close>

definition dtor_log :: "executor_globals \<Rightarrow> zval list" where
  "dtor_log eg = concat (map (\<lambda>ev. case ev of EvDtor v \<Rightarrow> [v] | _ \<Rightarrow> []) (events eg))"

definition destroyed :: "HashTable \<Rightarrow> zval list \<Rightarrow> zval list" where
  "destroyed ht vs = (if pDestructor ht \<noteq> DTOR_NULL then vs else [])"

lemma dtor_log_append [simp]:
  "dtor_log (eg\<lparr>events := xs @ ys\<rparr>) = dtor_log (eg\<lparr>events := xs\<rparr>) @ dtor_log (eg\<lparr>events := ys\<rparr>)"
  by (simp add: dtor_log_def)

lemma removed_dtor_log:
  assumes "removed ht eg k (rel @ dtor_events ht v) ht' eg'" "key_release k rel"
  shows "dtor_log eg' = dtor_log eg @ destroyed ht [v]"
proof -
  have "events eg' = events eg @ rel @ dtor_events ht v" using assms(1) by (simp add: removed_def)
  moreover have "concat (map (\<lambda>ev. case ev of EvDtor v \<Rightarrow> [v] | _ \<Rightarrow> []) rel) = []"
    using assms(2) by (auto simp: key_release_def split: hkey.splits)
  ultimately show ?thesis by (simp add: dtor_log_def dtor_events_def destroyed_def)
qed

subsection \<open>One place\<close>

text \<open>
  \<open>place_step\<close>: what is at place \<open>i\<close> becomes \<open>mid\<close>, nothing else changes, and no place
  becomes unreadable.
\<close>

definition place_step :: "HashTable \<Rightarrow> nat \<Rightarrow> (hkey \<times> zval) list \<Rightarrow> HashTable \<Rightarrow> bool" where
  "place_step ht i mid ht' \<longleftrightarrow>
     ht_inv ht' \<and> elems ht' = before_pos ht i @ mid @ from_pos ht (Suc i) \<and>
     from_pos ht' (Suc i) = from_pos ht (Suc i) \<and> from_pos ht' i = mid @ from_pos ht (Suc i) \<and>
     pDestructor ht' = pDestructor ht \<and> f_uninit ht' = f_uninit ht \<and> f_packed ht' = f_packed ht \<and>
     nNumUsed ht' \<le> nNumUsed ht \<and> cells_kept ht ht'"

lemma split_at_place:
  assumes "ht_inv ht" "i < nNumUsed ht" "entry_at ht i = Some (k, v)"
  shows "elems ht = before_pos ht i @ (k, v) # from_pos ht (Suc i)"
    "AList.delete k (elems ht) = before_pos ht i @ from_pos ht (Suc i)"
    "AList.delete k (from_pos ht (Suc i)) = from_pos ht (Suc i)"
proof -
  show e: "elems ht = before_pos ht i @ (k, v) # from_pos ht (Suc i)"
    using before_from [of ht i] from_pos_Suc [OF assms(2)] assms(3) by simp
  have "distinct (map fst (before_pos ht i @ (k, v) # from_pos ht (Suc i)))"
    using inv_distinct [OF assms(1)] e by simp
  then have n: "k \<notin> fst ` set (before_pos ht i)" "k \<notin> fst ` set (from_pos ht (Suc i))" by auto
  then show "AList.delete k (from_pos ht (Suc i)) = from_pos ht (Suc i)" by (intro delete_notin)
  then show "AList.delete k (elems ht) = before_pos ht i @ from_pos ht (Suc i)"
    unfolding e delete_append using delete_notin [OF n(1)] by (simp add: AList.delete_eq)
qed

lemma place_del_ok:
  assumes inv: "ht_inv ht" and i: "i < nNumUsed ht" "entry_at ht i = Some (k, v)"
  obtains ht' eg' where "place_del ht i eg = Inr (ht', eg')" "place_step ht i [] ht'"
    "dtor_log eg' = dtor_log eg @ destroyed ht [v]" "indirect eg' = indirect eg"
proof -
  obtain ht' eg' rel where r: "place_del ht i eg = Inr (ht', eg')" "key_release k rel"
    "removed ht eg k (rel @ dtor_events ht v) ht' eg'"
    using inv i
  proof (cases rule: live_place)
    case packed
    obtain ht' eg' where "zend_hash_packed_del_val_i ht i eg = Inr (ht', eg')"
      "removed ht eg k (dtor_events ht v) ht' eg'" by (rule packed_del_val_ok [OF inv packed(1) i])
    then show ?thesis using packed by (intro that [of ht' eg' "[]"]) (simp_all add: place_del_def key_release_def)
  next
    case bucket
    obtain ht' eg' rel where "zend_hash_del_el ht i eg = Inr (ht', eg')" "key_release k rel"
      "removed ht eg k (rel @ dtor_events ht v) ht' eg'" by (rule del_el_spec [OF inv bucket(1,2) i])
    then show ?thesis using bucket by (intro that [of ht' eg' rel]) (simp_all add: place_del_def)
  qed
  note s = split_at_place [OF inv i] and step = from_pos_Suc [OF i(1)]
  have "place_step ht i [] ht'"
    using r(3) s step i(2) by (simp add: removed_def place_step_def AList.delete_eq)
  then show thesis using that [OF r(1)] removed_dtor_log [OF r(3,2)] r(3) by (simp add: removed_def)
qed

lemma same_but_one:
  assumes i: "i < nNumUsed ht" and cells: "\<And>j. j \<noteq> i \<Longrightarrow> entry_at ht' j = entry_at ht j"
    "entry_at ht' i = Some kv" "nNumUsed ht' = nNumUsed ht"
  shows "before_pos ht' i = before_pos ht i" "from_pos ht' (Suc i) = from_pos ht (Suc i)"
    "from_pos ht' i = kv # from_pos ht (Suc i)"
proof -
  show b: "before_pos ht' i = before_pos ht i"
    unfolding before_pos_def cells(3) using cells(1) by (intro entries_cong) simp
  have tails: "nNumUsed ht = k + p \<Longrightarrow> Suc i \<le> p \<Longrightarrow> from_pos ht' p = from_pos ht p" for k p :: nat
  proof (induction k arbitrary: p)
    case 0
    then show ?case using from_pos_past [of ht p] from_pos_past [of ht' p] cells(3) by simp
  next
    case (Suc k)
    then show ?case
      using Suc.IH [of "Suc p"] from_pos_Suc [of p ht] from_pos_Suc [of p ht'] cells(1) [of p] cells(3) by simp
  qed
  show f: "from_pos ht' (Suc i) = from_pos ht (Suc i)"
    using tails [of "nNumUsed ht - Suc i" "Suc i"] i by simp
  show "from_pos ht' i = kv # from_pos ht (Suc i)"
    using from_pos_Suc [of i ht'] i cells(2,3) f by simp
qed

lemma place_store_ok:
  assumes inv: "ht_inv ht" and i: "i < nNumUsed ht" "entry_at ht i = Some (k, v)" and w: "w \<noteq> IS_UNDEF"
  obtains ht' where "zval_store ht eg (place_loc ht i) w = Inr (ht', eg)" "place_step ht i [(k, w)] ht'"
    "entry_at ht' i = Some (k, w)" "nNumUsed ht' = nNumUsed ht"
proof -
  obtain ht' where r: "zval_store ht eg (place_loc ht i) w = Inr (ht', eg)" "ht_inv ht'"
    "\<And>j. j \<noteq> i \<Longrightarrow> entry_at ht' j = entry_at ht j" "entry_at ht' i = Some (k, w)" "nNumUsed ht' = nNumUsed ht"
    "pDestructor ht' = pDestructor ht" "f_uninit ht' = f_uninit ht" "f_packed ht' = f_packed ht"
    "\<And>j. written ht j \<Longrightarrow> written ht' j"
    using inv i
  proof (cases rule: live_place)
    case packed
    obtain h where h: "zval_store ht eg (LPacked i) w = Inr (h, eg)" "ht_inv h"
      by (rule store_packed_spec [OF inv packed(1) i w])
    then have d: "h = ht\<lparr>arPacked := (arPacked ht)[i := Some w]\<rparr>" using packed by (simp add: zval_store_def)
    have "written h j" if "written ht j" for j
      using that packed by (cases "j = i") (simp_all add: written_def d)
    then show ?thesis using h packed w
      by (intro that [of h]) (simp_all add: place_loc_def d entry_at_def packed_entry_def)
  next
    case (bucket p)
    obtain h where h: "zval_store ht eg (LBucket i) w = Inr (h, eg)" "ht_inv h"
      by (rule store_bucket_spec [OF inv bucket(1,2) i w])
    then have d: "h = ht\<lparr>arData := (arData ht)[i := Some (p\<lparr>b_val := w\<rparr>)]\<rparr>"
      using bucket by (simp add: zval_store_def)
    have "written h j" if "written ht j" for j
      using that bucket by (cases "j = i") (simp_all add: written_def d)
    moreover have "bucket_key (p\<lparr>b_val := w\<rparr>) = k"
      using bucket by (simp add: bucket_key_def cong: option.case_cong)
    ultimately show ?thesis using h bucket w
      by (intro that [of h]) (simp_all add: place_loc_def d entry_at_def bucket_entry_def)
  qed
  note one = same_but_one [OF i(1) r(3,4,5)]
  have "cells_kept ht ht'" unfolding cells_kept_def
  proof (intro allI conjI impI)
    fix j
    show "entry_at ht' j = None" if "entry_at ht j = None" using r(3) [of j] that i(2) by (cases "j = i") auto
    show "entry_at ht' j = None" if "nNumUsed ht' \<le> j \<and> j < nNumUsed ht" using that r(5) by linarith
  qed (rule r(9))
  then show thesis
    using that [OF r(1) _ r(4,5)] one before_from [of ht' i] r by (simp add: place_step_def)
qed

subsection \<open>The callback at one place\<close>

lemma cells_kept_trans: "cells_kept a b \<Longrightarrow> cells_kept b c \<Longrightarrow> cells_kept a c"
  unfolding cells_kept_def by (metis not_le)

lemma place_step_trans:
  assumes "place_step a i mid b" "place_step b i mid' c"
  shows "place_step a i mid' c"
proof -
  have "before_pos b i @ mid @ from_pos a (Suc i) = before_pos a i @ mid @ from_pos a (Suc i)"
    using assms(1) before_from [of b i] by (simp add: place_step_def)
  then have "before_pos b i = before_pos a i" by simp
  then show ?thesis using assms cells_kept_trans [of a b c] by (auto simp: place_step_def)
qed

lemma place_step_before: "place_step ht i mid ht' \<Longrightarrow> before_pos ht' i = before_pos ht i"
  using before_from [of ht' i] by (simp add: place_step_def)

lemma place_step_before_Suc: "place_step ht i mid ht' \<Longrightarrow> before_pos ht' (Suc i) = before_pos ht i @ mid"
  using before_from [of ht' "Suc i"] by (simp add: place_step_def)

lemma place_read_ok:
  assumes "ht_inv ht" "i < nNumUsed ht" "entry_at ht i = Some (k, v)"
  obtains hk where "place_read ht i = Inr (hk, v)" "hk_hkey hk = k" "v \<noteq> IS_UNDEF"
  using assms
  by (cases rule: live_place) (auto simp: place_read_def hk_hkey_def bucket_key_def cong: option.case_cong)

definition visit :: "HashTable \<Rightarrow> nat \<Rightarrow> 32 word \<Rightarrow> zval \<Rightarrow> executor_globals
    \<Rightarrow> error + (HashTable \<times> executor_globals)" where
  "visit ht i result w eg =
     bindE (zval_store ht eg (place_loc ht i) w) (\<lambda>(ht, eg).
       if result AND ZEND_HASH_APPLY_REMOVE \<noteq> 0 then place_del ht i eg else Inr (ht, eg))"

lemma visit_ok:
  assumes inv: "ht_inv ht" and i: "i < nNumUsed ht" "entry_at ht i = Some (k, v)" and w: "w \<noteq> IS_UNDEF"
  obtains ht' eg' where "visit ht i result w eg = Inr (ht', eg')"
    "place_step ht i (if result AND ZEND_HASH_APPLY_REMOVE \<noteq> 0 then [] else [(k, w)]) ht'"
    "dtor_log eg' = dtor_log eg @ destroyed ht (if result AND ZEND_HASH_APPLY_REMOVE \<noteq> 0 then [w] else [])"
    "indirect eg' = indirect eg"
proof -
  obtain h where h: "zval_store ht eg (place_loc ht i) w = Inr (h, eg)" "place_step ht i [(k, w)] h"
    "entry_at h i = Some (k, w)" "nNumUsed h = nNumUsed ht"
    by (rule place_store_ok [OF inv i w])
  show thesis
  proof (cases "result AND ZEND_HASH_APPLY_REMOVE = 0")
    case True
    then show thesis using h by (intro that [of h eg]) (simp_all add: visit_def destroyed_def)
  next
    case False
    have "ht_inv h" "i < nNumUsed h" "pDestructor h = pDestructor ht"
      using h(2,4) i(1) by (simp_all add: place_step_def)
    then obtain ht' eg' where d: "place_del h i eg = Inr (ht', eg')" "place_step h i [] ht'"
      "dtor_log eg' = dtor_log eg @ destroyed ht [w]" "indirect eg' = indirect eg"
      using place_del_ok [OF _ _ h(3), of eg] by (auto simp: destroyed_def)
    show thesis
      using False h(1) d place_step_trans [OF h(2) d(2)]
      by (intro that [of ht' eg']) (simp_all add: visit_def)
  qed
qed

lemma apply_loop_live:
  assumes inv: "ht_inv ht" and i: "i < nNumUsed ht" "entry_at ht i = Some (k, v)"
    and f: "\<And>hk v s. f hk v s = g (hk_hkey hk) v s"
  shows "apply_loop f b (i # is) ht eg s =
    (case g k v s of (result, w, s) \<Rightarrow>
       bindE (visit ht i result w eg) (\<lambda>(ht, eg).
         if result AND ZEND_HASH_APPLY_STOP \<noteq> 0 then Inr (ht, eg, s) else apply_loop f b is ht eg s))"
proof -
  obtain hk where "place_read ht i = Inr (hk, v)" "hk_hkey hk = k" by (rule place_read_ok [OF inv i])
  moreover have "place_undef ht i = Inr False" using place_undef_ok [OF inv i(1)] i(2) by simp
  ultimately show ?thesis using i(1)
    by (cases "g k v s") (simp add: f visit_def bindE_def split: sum.split prod.split)
qed

lemma destroyed_append: "destroyed ht (xs @ ys) = destroyed ht xs @ destroyed ht ys"
  by (simp add: destroyed_def)

subsection \<open>The forward walk\<close>

text \<open>
  \<open>walked\<close>: the outcome of a walk that leaves the entries \<open>xs\<close>, with the values \<open>dead\<close>
  destroyed and the callback in state \<open>s\<close>.
\<close>

definition walked :: "HashTable \<Rightarrow> executor_globals \<Rightarrow> (hkey \<times> zval) list \<Rightarrow> zval list \<Rightarrow> 's
    \<Rightarrow> error + (HashTable \<times> executor_globals \<times> 's) \<Rightarrow> bool" where
  "walked ht eg xs dead s r \<longleftrightarrow>
     (\<exists>ht' eg'. r = Inr (ht', eg', s) \<and> ht_inv ht' \<and> elems ht' = xs \<and>
        dtor_log eg' = dtor_log eg @ destroyed ht dead \<and> indirect eg' = indirect eg \<and>
        f_uninit ht' = f_uninit ht \<and> f_packed ht' = f_packed ht \<and> nNumUsed ht' \<le> nNumUsed ht)"

lemma walked_step:
  assumes "place_step ht i mid ht1" "dtor_log eg1 = dtor_log eg @ destroyed ht d1" "indirect eg1 = indirect eg"
    "walked ht1 eg1 xs d2 s r"
  shows "walked ht eg xs (d1 @ d2) s r"
  using assms by (auto simp: walked_def place_step_def destroyed_def)

lemma walked_stop:
  assumes "place_step ht i mid ht1" "dtor_log eg1 = dtor_log eg @ destroyed ht d1" "indirect eg1 = indirect eg"
  shows "walked ht eg (before_pos ht i @ mid @ from_pos ht (Suc i)) d1 s (Inr (ht1, eg1, s))"
  using assms by (simp add: walked_def place_step_def)

lemma apply_list_cons:
  assumes "apply_list g ((k, v) # xs) s = (ys, dead, s')"
  obtains result w s1 ys1 dead1 where "g k v s = (result, w, s1)"
    "(if result AND ZEND_HASH_APPLY_STOP \<noteq> 0 then (xs, [], s1) else apply_list g xs s1) = (ys1, dead1, s')"
    "ys = (if result AND ZEND_HASH_APPLY_REMOVE \<noteq> 0 then [] else [(k, w)]) @ ys1"
    "dead = (if result AND ZEND_HASH_APPLY_REMOVE \<noteq> 0 then [w] else []) @ dead1"
proof -
  obtain result w s1 where g: "g k v s = (result, w, s1)" by (cases "g k v s") auto
  obtain ys1 dead1 s2 where r: "(if result AND ZEND_HASH_APPLY_STOP \<noteq> 0 then (xs, [], s1) else apply_list g xs s1)
      = (ys1, dead1, s2)" by (cases "if result AND ZEND_HASH_APPLY_STOP \<noteq> 0 then (xs, [], s1) else apply_list g xs s1") auto
  show thesis
    using assms r by (intro that [OF g, of ys1 dead1]) (simp_all add: g split: if_splits)
qed

lemma apply_forward:
  assumes f: "\<And>hk v s. f hk v s = g (hk_hkey hk) v s"
    and live: "\<And>k v s. v \<noteq> IS_UNDEF \<Longrightarrow> fst (snd (g k v s)) \<noteq> IS_UNDEF"
  shows "ht_inv ht \<Longrightarrow> apply_list g (from_pos ht i) s = (ys, dead, s') \<Longrightarrow> nNumUsed ht \<le> n \<Longrightarrow>
    walked ht eg (before_pos ht i @ ys) dead s' (apply_loop f True [i..<n] ht eg s)"
proof (induction "n - i" arbitrary: i ht eg s ys dead rule: less_induct)
  case less
  note inv = less.prems(1)
  have past: "walked ht eg (before_pos ht i @ ys) dead s' (Inr (ht, eg, s))" if "nNumUsed ht \<le> i"
    using that less.prems before_from [of ht i] from_pos_past [OF that]
    by (simp add: walked_def destroyed_def)
  show ?case
  proof (cases "i < nNumUsed ht")
    case False
    then have "apply_loop f True [i..<n] ht eg s = Inr (ht, eg, s)"
      by (cases "[i..<n]") (auto dest: upt_eq_Cons_conv [THEN iffD1])
    then show ?thesis using past False by simp
  next
    case True
    then have up: "[i..<n] = i # [Suc i..<n]" and smaller: "n - Suc i < n - i"
      using less.prems(3) by (auto simp: upt_conv_Cons)
    show ?thesis
    proof (cases "entry_at ht i")
      case None
      then have "from_pos ht i = from_pos ht (Suc i)" "before_pos ht (Suc i) = before_pos ht i"
        using from_pos_Suc [OF True] before_pos_Suc [OF True] by simp_all
      moreover from None have "apply_loop f True [i..<n] ht eg s = apply_loop f True [Suc i..<n] ht eg s"
        using place_undef_ok [OF inv True] True up by simp
      ultimately show ?thesis using less.hyps [OF smaller inv] less.prems(2,3) by simp
    next
      case (Some kv)
      obtain k v where kv: "kv = (k, v)" by (cases kv)
      note e = Some [unfolded kv]
      obtain hk where hk: "v \<noteq> IS_UNDEF" by (rule place_read_ok [OF inv True e])
      have "apply_list g ((k, v) # from_pos ht (Suc i)) s = (ys, dead, s')"
        using less.prems(2) from_pos_Suc [OF True] e by simp
      then obtain result w s1 ys1 dead1 where g: "g k v s = (result, w, s1)"
        "(if result AND ZEND_HASH_APPLY_STOP \<noteq> 0 then (from_pos ht (Suc i), [], s1)
          else apply_list g (from_pos ht (Suc i)) s1) = (ys1, dead1, s')"
        "ys = (if result AND ZEND_HASH_APPLY_REMOVE \<noteq> 0 then [] else [(k, w)]) @ ys1"
        "dead = (if result AND ZEND_HASH_APPLY_REMOVE \<noteq> 0 then [w] else []) @ dead1"
        by (rule apply_list_cons)
      have w: "w \<noteq> IS_UNDEF" using live [OF hk, of k s] g(1) by simp
      obtain ht1 eg1 where v: "visit ht i result w eg = Inr (ht1, eg1)"
        "place_step ht i (if result AND ZEND_HASH_APPLY_REMOVE \<noteq> 0 then [] else [(k, w)]) ht1"
        "dtor_log eg1 = dtor_log eg @ destroyed ht (if result AND ZEND_HASH_APPLY_REMOVE \<noteq> 0 then [w] else [])"
        "indirect eg1 = indirect eg" by (rule visit_ok [OF inv True e w])
      note loop = apply_loop_live [where f = f and g = g and b = True and eg = eg and s = s, OF inv True e f, unfolded g(1)]
      show ?thesis
      proof (cases "result AND ZEND_HASH_APPLY_STOP = 0")
        case False
        then show ?thesis
          using walked_stop [OF v(2-4), of s1] v(1) loop [of "[Suc i..<n]"] g(2-4) by (simp add: up del: apply_loop.simps)
      next
        case go: True
        have "ht_inv ht1" "from_pos ht1 (Suc i) = from_pos ht (Suc i)" "nNumUsed ht1 \<le> n"
          using v(2) less.prems(3) by (simp_all add: place_step_def)
        then have "walked ht1 eg1 (before_pos ht1 (Suc i) @ ys1) dead1 s' (apply_loop f True [Suc i..<n] ht1 eg1 s1)"
          using less.hyps [OF smaller] g(2) go by simp
        from walked_step [OF v(2-4) this] show ?thesis
          using go v(1) loop [of "[Suc i..<n]"] g(3,4) place_step_before_Suc [OF v(2)]
          by (simp add: up del: apply_loop.simps)
      qed
    qed
  qed
qed

subsection \<open>The backward walk\<close>

text \<open>Every place below \<open>i\<close> can be read, even past the end of a table that was shortened.\<close>

definition readable :: "HashTable \<Rightarrow> nat \<Rightarrow> bool" where
  "readable ht i \<longleftrightarrow> (\<forall>j<i. written ht j \<and> (nNumUsed ht \<le> j \<longrightarrow> entry_at ht j = None))"

lemma written_undef: "written ht j \<Longrightarrow> place_undef ht j = Inr (entry_at ht j = None)"
  by (auto simp: written_def place_undef_def entry_at_def packed_entry_def bucket_entry_def rd_def
      split: if_splits option.splits)

lemma readable_used:
  assumes "ht_inv ht"
  shows "readable ht (nNumUsed ht)"
  unfolding readable_def
proof (intro allI impI conjI)
  fix j assume j: "j < nNumUsed ht"
  then show "written ht j"
    using place_undef_ok [OF assms j]
    by (auto simp: written_def place_undef_def rd_def bindE_def split: if_splits option.splits)
qed simp

lemma readable_step:
  assumes "readable ht i" "cells_kept ht ht'" "nNumUsed ht' \<le> nNumUsed ht" "j \<le> i"
  shows "readable ht' j"
  using assms unfolding readable_def cells_kept_def by (metis dual_order.strict_trans2 not_le)

lemma apply_backward:
  assumes f: "\<And>hk v s. f hk v s = g (hk_hkey hk) v s"
    and live: "\<And>k v s. v \<noteq> IS_UNDEF \<Longrightarrow> fst (snd (g k v s)) \<noteq> IS_UNDEF"
  shows "ht_inv ht \<Longrightarrow> readable ht i \<Longrightarrow> apply_list g (rev (before_pos ht i)) s = (ys, dead, s') \<Longrightarrow>
    walked ht eg (rev ys @ from_pos ht i) dead s' (apply_loop f False (rev [0..<i]) ht eg s)"
proof (induction i arbitrary: ht eg s ys dead)
  case 0
  then show ?case by (simp add: walked_def destroyed_def)
next
  case (Suc i)
  note inv = Suc.prems(1)
  have r: "readable ht i" using Suc.prems(2) by (simp add: readable_def)
  have undef: "place_undef ht i = Inr (entry_at ht i = None)"
    using Suc.prems(2) by (simp add: readable_def written_undef)
  show ?case
  proof (cases "entry_at ht i")
    case None
    have "before_pos ht (Suc i) = before_pos ht i"
    proof (cases "i < nNumUsed ht")
      case True
      then show ?thesis using None before_pos_Suc by simp
    qed (simp add: before_pos_def)
    moreover from this have "from_pos ht (Suc i) = from_pos ht i"
      using before_from [of ht i] before_from [of ht "Suc i"] by (metis same_append_eq)
    ultimately show ?thesis using Suc.IH [OF inv r] Suc.prems(3) undef None by simp
  next
    case (Some kv)
    obtain k v where kv: "kv = (k, v)" by (cases kv)
    note e = Some [unfolded kv]
    have i: "i < nNumUsed ht" using Suc.prems(2) e by (auto simp: readable_def not_le)
    obtain hk where hk: "v \<noteq> IS_UNDEF" by (rule place_read_ok [OF inv i e])
    have "apply_list g ((k, v) # rev (before_pos ht i)) s = (ys, dead, s')"
      using Suc.prems(3) before_pos_Suc [OF i] e by simp
    then obtain result w s1 ys1 dead1 where g: "g k v s = (result, w, s1)"
      "(if result AND ZEND_HASH_APPLY_STOP \<noteq> 0 then (rev (before_pos ht i), [], s1)
        else apply_list g (rev (before_pos ht i)) s1) = (ys1, dead1, s')"
      "ys = (if result AND ZEND_HASH_APPLY_REMOVE \<noteq> 0 then [] else [(k, w)]) @ ys1"
      "dead = (if result AND ZEND_HASH_APPLY_REMOVE \<noteq> 0 then [w] else []) @ dead1"
      by (rule apply_list_cons)
    let ?mid = "if result AND ZEND_HASH_APPLY_REMOVE \<noteq> 0 then [] else [(k, w)]"
    have mid: "rev ?mid = ?mid" by simp
    have w: "w \<noteq> IS_UNDEF" using live [OF hk, of k s] g(1) by simp
    obtain ht1 eg1 where v: "visit ht i result w eg = Inr (ht1, eg1)" "place_step ht i ?mid ht1"
      "dtor_log eg1 = dtor_log eg @ destroyed ht (if result AND ZEND_HASH_APPLY_REMOVE \<noteq> 0 then [w] else [])"
      "indirect eg1 = indirect eg" by (rule visit_ok [OF inv i e w])
    note loop = apply_loop_live [where f = f and g = g and b = False and eg = eg and s = s, OF inv i e f, unfolded g(1)]
    show ?thesis
    proof (cases "result AND ZEND_HASH_APPLY_STOP = 0")
      case False
      then have "before_pos ht i = rev ys1" using g(2) by auto
      then show ?thesis
        using False walked_stop [OF v(2-4), of s1] v(1) loop [of "rev [0..<i]"] g(2-4) mid
        by (simp del: apply_loop.simps)
    next
      case go: True
      have "ht_inv ht1" "from_pos ht1 i = ?mid @ from_pos ht (Suc i)" "readable ht1 i"
        using v(2) readable_step [OF r, of ht1 i] by (simp_all add: place_step_def)
      then have "walked ht1 eg1 (rev ys1 @ ?mid @ from_pos ht (Suc i)) dead1 s' (apply_loop f False (rev [0..<i]) ht1 eg1 s1)"
        using Suc.IH [of ht1 s1 ys1 dead1 eg1] g(2) go place_step_before [OF v(2)] by simp
      from walked_step [OF v(2-4) this] show ?thesis
        using go v(1) loop [of "rev [0..<i]"] g(3,4) mid by (simp del: apply_loop.simps)
    qed
  qed
qed

subsection \<open>The public operations\<close>

lemma walked_mono: "walked ht eg xs dead s r \<Longrightarrow> xs = ys \<Longrightarrow> walked ht eg ys dead s r"
  by simp

lemma forward_spec:
  assumes "ht_inv ht" "\<And>hk v s. f hk v s = g (hk_hkey hk) v s"
    "\<And>k v s. v \<noteq> IS_UNDEF \<Longrightarrow> fst (snd (g k v s)) \<noteq> IS_UNDEF" "apply_list g (elems ht) s = (ys, dead, s')"
  shows "walked ht eg ys dead s' (apply_loop f True [0..<nNumUsed ht] ht eg s)"
  using apply_forward [of f g ht 0 s ys dead s' "nNumUsed ht" eg, OF assms(2,3,1)] assms(4) by simp

lemma backward_spec:
  assumes "ht_inv ht" "\<And>hk v s. f hk v s = g (hk_hkey hk) v s"
    "\<And>k v s. v \<noteq> IS_UNDEF \<Longrightarrow> fst (snd (g k v s)) \<noteq> IS_UNDEF" "apply_list g (rev (elems ht)) s = (ys, dead, s')"
  shows "walked ht eg (rev ys) dead s' (apply_loop f False (rev [0..<nNumUsed ht]) ht eg s)"
  using apply_backward [of f g ht "nNumUsed ht" s ys dead s' eg, OF assms(2,3,1) readable_used [OF assms(1)]] assms(4)
    from_pos_past [of ht "nNumUsed ht"] by (simp add: before_pos_used)

text \<open>A graceful destruction is the walk of a callback that removes everything.\<close>

definition remove_all :: "zend_hash_key \<Rightarrow> zval \<Rightarrow> unit \<Rightarrow> 32 word \<times> zval \<times> unit" where
  "remove_all hk v s = (ZEND_HASH_APPLY_REMOVE, v, s)"

lemma store_back:
  assumes "place_read ht i = Inr (hk, v)"
  shows "zval_store ht eg (place_loc ht i) v = Inr (ht, eg)"
proof (cases "f_packed ht")
  case True
  then have "i < length (arPacked ht)" "arPacked ht ! i = Some v"
    using assms by (auto simp: place_read_def bindE_eq_Inr rd_eq_Inr)
  moreover from this have "(arPacked ht)[i := Some v] = arPacked ht" by (metis list_update_id)
  ultimately show ?thesis using True by (simp add: place_loc_def zval_store_def)
next
  case False
  then obtain p where p: "i < length (arData ht)" "arData ht ! i = Some p" "b_val p = v"
    using assms by (auto simp: place_read_def bindE_eq_Inr rd_eq_Inr)
  moreover have "p\<lparr>b_val := v\<rparr> = p" using p(3) by auto
  moreover from this have "(arData ht)[i := Some (p\<lparr>b_val := v\<rparr>)] = arData ht"
    using p(2) by (metis list_update_id)
  ultimately show ?thesis using False by (simp add: place_loc_def zval_store_def)
qed

lemma remove_flags: "ZEND_HASH_APPLY_REMOVE AND ZEND_HASH_APPLY_REMOVE \<noteq> 0"
  "ZEND_HASH_APPLY_REMOVE AND ZEND_HASH_APPLY_STOP = 0" "ZEND_HASH_APPLY_REMOVE \<noteq> 0"
  by (simp_all add: ZEND_HASH_APPLY_REMOVE_def ZEND_HASH_APPLY_STOP_def)

lemma undef_read: "place_undef ht i = Inr u \<Longrightarrow> \<exists>hk v. place_read ht i = Inr (hk, v)"
  by (auto simp: place_undef_def place_read_def bindE_eq_Inr split: if_splits)

lemma delete_loop_apply:
  "apply_loop remove_all b is ht eg () = bindE (delete_loop b is ht eg) (\<lambda>(ht, eg). Inr (ht, eg, ()))"
proof (induction "is" arbitrary: ht eg)
  case (Cons i "is")
  show ?case
  proof (cases "place_undef ht i")
    case (Inr u)
    obtain hk v where r: "place_read ht i = Inr (hk, v)" using undef_read [OF Inr] by blast
    show ?thesis using Inr r store_back [OF r, of eg] Cons.IH remove_flags
      by (auto simp: remove_all_def bindE_def split: sum.splits)
  qed simp
qed simp

lemma apply_list_remove_all:
  "apply_list (\<lambda>_ v s. (ZEND_HASH_APPLY_REMOVE, v, s)) xs () = ([], map snd xs, ())"
  by (induction xs) (auto simp: remove_flags)

definition emptied :: "HashTable \<Rightarrow> executor_globals \<Rightarrow> zval list
    \<Rightarrow> error + (HashTable \<times> executor_globals) \<Rightarrow> bool" where
  "emptied ht eg dead r \<longleftrightarrow>
     (\<exists>ht' eg'. r = Inr (ht', eg') \<and> nNumOfElements ht' = 0 \<and>
        (\<not> f_uninit ht \<longrightarrow> arHash ht' = [] \<and> arData ht' = [] \<and> arPacked ht' = []) \<and>
        dtor_log eg' = dtor_log eg @ destroyed ht dead \<and> indirect eg' = indirect eg)"

lemma emptied_walked:
  assumes "walked ht eg [] dead () (bindE r (\<lambda>(ht, eg). Inr (ht, eg, ())))" "ht_inv ht"
  shows "emptied ht eg dead (bindE r (\<lambda>(ht, eg). Inr (if \<not> f_uninit ht then free_data ht else ht, eg)))"
proof -
  obtain h e where r: "r = Inr (h, e)" and w: "ht_inv h" "elems h = []"
    "dtor_log e = dtor_log eg @ destroyed ht dead" "indirect e = indirect eg" "f_uninit h = f_uninit ht"
    using assms(1) by (auto simp: walked_def bindE_eq_Inr)
  have n: "nNumOfElements h = 0" using w(1,2) by (simp add: ht_inv_def)
  show ?thesis using r w n by (simp add: emptied_def free_data_def)
qed

lemma graceful_destroy_spec:
  assumes "ht_inv ht"
  shows "emptied ht eg (map snd (elems ht)) (zend_hash_graceful_destroy ht eg)"
proof -
  have "walked ht eg [] (map snd (elems ht)) () (apply_loop remove_all True [0..<nNumUsed ht] ht eg ())"
    by (rule forward_spec [OF assms _ _ apply_list_remove_all]) (simp_all add: remove_all_def)
  then show ?thesis unfolding delete_loop_apply zend_hash_graceful_destroy_def
    by (rule emptied_walked [OF _ assms])
qed

lemma graceful_reverse_destroy_spec:
  assumes "ht_inv ht"
  shows "emptied ht eg (rev (map snd (elems ht))) (zend_hash_graceful_reverse_destroy ht eg)"
proof -
  have "walked ht eg (rev []) (map snd (rev (elems ht))) () (apply_loop remove_all False (rev [0..<nNumUsed ht]) ht eg ())"
    by (rule backward_spec [OF assms _ _ apply_list_remove_all]) (simp_all add: remove_all_def)
  then show ?thesis unfolding delete_loop_apply zend_hash_graceful_reverse_destroy_def rev_map rev.simps(1)
    by (rule emptied_walked [OF _ assms])
qed

lemma apply_spec:
  assumes "ht_inv ht" "\<And>v s. v \<noteq> IS_UNDEF \<Longrightarrow> fst (snd (f v s)) \<noteq> IS_UNDEF"
    "apply_list (\<lambda>_. f) (elems ht) s = (ys, dead, s')"
  shows "walked ht eg ys dead s' (zend_hash_apply ht f eg s)"
  unfolding zend_hash_apply_def using assms by (intro forward_spec [where g = "\<lambda>_. f"]) simp_all

lemma apply_with_argument_spec:
  assumes "ht_inv ht" "\<And>v s. v \<noteq> IS_UNDEF \<Longrightarrow> fst (snd (f v a s)) \<noteq> IS_UNDEF"
    "apply_list (\<lambda>_ v. f v a) (elems ht) s = (ys, dead, s')"
  shows "walked ht eg ys dead s' (zend_hash_apply_with_argument ht f a eg s)"
  unfolding zend_hash_apply_with_argument_def using assms by (intro forward_spec [where g = "\<lambda>_ v. f v a"]) simp_all

lemma apply_with_arguments_spec:
  assumes "ht_inv ht" "\<And>hk v s. f v as hk s = g (hk_hkey hk) v s"
    "\<And>k v s. v \<noteq> IS_UNDEF \<Longrightarrow> fst (snd (g k v s)) \<noteq> IS_UNDEF"
    "apply_list g (elems ht) s = (ys, dead, s')"
  shows "walked ht eg ys dead s' (zend_hash_apply_with_arguments ht f as eg s)"
  unfolding zend_hash_apply_with_arguments_def using assms by (intro forward_spec [where g = g])

lemma reverse_apply_spec:
  assumes "ht_inv ht" "\<And>v s. v \<noteq> IS_UNDEF \<Longrightarrow> fst (snd (f v s)) \<noteq> IS_UNDEF"
    "apply_list (\<lambda>_. f) (rev (elems ht)) s = (ys, dead, s')"
  shows "walked ht eg (rev ys) dead s' (zend_hash_reverse_apply ht f eg s)"
  unfolding zend_hash_reverse_apply_def using assms by (intro backward_spec [where g = "\<lambda>_. f"]) simp_all

end
