(* ===== verification/HashDestroy.thy ===== *)
theory HashDestroy
  imports HashApply
begin

text \<open>
  Destroying and cleaning a whole table: \<open>zend_hash_destroy\<close>, \<open>zend_array_destroy\<close>,
  \<open>zend_hash_clean\<close> and \<open>zend_symtable_clean\<close> of \<open>Zend/zend_hash.c\<close>. Their many loops differ
  in what they call on a value, in whether they test for holes, and in whether they release
  keys; \<open>destroy_step\<close> is the body of all of them.
\<close>

subsection \<open>The loops\<close>

definition destroy_step :: "(zval \<Rightarrow> executor_globals \<Rightarrow> executor_globals) \<Rightarrow> bool \<Rightarrow> bool \<Rightarrow> HashTable
    \<Rightarrow> executor_globals \<Rightarrow> nat \<Rightarrow> error + executor_globals" where
  "destroy_step call holes keys ht eg i =
     (if f_packed ht then
        bindE (rd (arPacked ht) i) (\<lambda>v. Inr (if holes \<and> v = IS_UNDEF then eg else call v eg))
      else
        bindE (rd (arData ht) i) (\<lambda>p.
          if holes \<and> b_val p = IS_UNDEF then Inr eg
          else let eg = call (b_val p) eg in
            case b_key p of
              Some k \<Rightarrow> Inr (if keys then emit (EvStrRelease k) eg else eg)
            | None \<Rightarrow> Inr eg))"

text \<open>
  A call of the destructor, and of \<open>i_zval_ptr_dtor\<close>, which does nothing on an undefined
  value.
\<close>

definition call_dtor :: "zval \<Rightarrow> executor_globals \<Rightarrow> executor_globals" where
  "call_dtor v eg = emit (EvDtor v) eg"

definition i_zval_ptr_dtor :: "zval \<Rightarrow> executor_globals \<Rightarrow> executor_globals" where
  "i_zval_ptr_dtor v eg = (if v = IS_UNDEF then eg else emit (EvDtor v) eg)"

definition zend_hash_destroy :: "HashTable \<Rightarrow> executor_globals \<Rightarrow> error + (HashTable \<times> executor_globals)" where
  "zend_hash_destroy ht eg =
     (let places = 0 # [1..<nNumUsed ht]; holes = (\<not> HT_IS_WITHOUT_HOLES ht) in
      if nNumUsed ht \<noteq> 0 then
        bindE
          (if f_packed ht then
             (if pDestructor ht \<noteq> DTOR_NULL then foldE (destroy_step call_dtor holes False ht) places eg
              else Inr eg)
           else if pDestructor ht \<noteq> DTOR_NULL then
             (if HT_HAS_STATIC_KEYS_ONLY ht then foldE (destroy_step call_dtor holes False ht) places eg
              else foldE (destroy_step call_dtor holes True ht) places eg)
           else if \<not> HT_HAS_STATIC_KEYS_ONLY ht then foldE (destroy_step (\<lambda>v eg. eg) False True ht) places eg
           else Inr eg)
          (\<lambda>eg. Inr (free_data ht, zend_hash_iterators_remove ht eg))
      else if f_uninit ht then Inr (ht, eg)
      else Inr (free_data ht, eg))"

text \<open>
  \<open>zend_array_destroy\<close> frees the table itself: what is left are the globals. Before anything else
  it breaks possible cycles: \<open>GC_REMOVE_FROM_BUFFER(ht)\<close> and \<open>GC_TYPE_INFO(ht) = GC_NULL\<close>, of which
  the log keeps the one event \<open>EvGcForget\<close> (the collector's side of it is in \<open>GcRoots\<close>).
\<close>

definition zend_array_destroy :: "HashTable \<Rightarrow> executor_globals \<Rightarrow> error + executor_globals" where
  "zend_array_destroy ht eg =
     (let eg = emit (EvGcForget (ht_addr ht)) eg;
          places = 0 # [1..<nNumUsed ht]; free_ht = (\<lambda>eg. Inr (zend_hash_iterators_remove ht eg)) in
      if nNumUsed ht \<noteq> 0 then
        if pDestructor ht \<noteq> ZVAL_PTR_DTOR then bindE (zend_hash_destroy ht eg) (\<lambda>(ht, eg). free_ht eg)
        else
          bindE
            (if f_packed ht then foldE (destroy_step i_zval_ptr_dtor False False ht) places eg
             else if HT_HAS_STATIC_KEYS_ONLY ht then foldE (destroy_step i_zval_ptr_dtor False False ht) places eg
             else if HT_IS_WITHOUT_HOLES ht then foldE (destroy_step i_zval_ptr_dtor False True ht) places eg
             else foldE (destroy_step i_zval_ptr_dtor True True ht) places eg)
            free_ht
      else free_ht eg)"

definition reset_fields :: "HashTable \<Rightarrow> HashTable" where
  "reset_fields ht =
     ht\<lparr>nNumUsed := 0, nNumOfElements := 0, nNextFreeElement := ZEND_LONG_MIN, nInternalPointer := 0\<rparr>"

definition zend_hash_clean :: "HashTable \<Rightarrow> executor_globals \<Rightarrow> error + (HashTable \<times> executor_globals)" where
  "zend_hash_clean ht eg =
     (let places = 0 # [1..<nNumUsed ht]; holes = (\<not> HT_IS_WITHOUT_HOLES ht) in
      if nNumUsed ht \<noteq> 0 then
        if f_packed ht then
          bindE
            (if pDestructor ht \<noteq> DTOR_NULL \<and> HT_HAS_STATIC_KEYS_ONLY ht
             then foldE (destroy_step call_dtor holes False ht) places eg else Inr eg)
            (\<lambda>eg. Inr (reset_fields ht, eg))
        else
          bindE
            (if pDestructor ht \<noteq> DTOR_NULL then
               (if HT_HAS_STATIC_KEYS_ONLY ht then foldE (destroy_step call_dtor holes False ht) places eg
                else foldE (destroy_step call_dtor holes True ht) places eg)
             else if \<not> HT_HAS_STATIC_KEYS_ONLY ht then foldE (destroy_step (\<lambda>v eg. eg) False True ht) places eg
             else Inr eg)
            (\<lambda>eg. Inr (reset_fields (HT_HASH_RESET ht), eg))
      else Inr (reset_fields ht, eg))"

definition zend_symtable_clean :: "HashTable \<Rightarrow> executor_globals \<Rightarrow> error + (HashTable \<times> executor_globals)" where
  "zend_symtable_clean ht eg =
     (let places = 0 # [1..<nNumUsed ht] in
      if nNumUsed ht \<noteq> 0 then
        assertE (\<not> f_packed ht) (\<lambda>_.
          bindE
            (if HT_HAS_STATIC_KEYS_ONLY ht then foldE (destroy_step i_zval_ptr_dtor False False ht) places eg
             else if HT_IS_WITHOUT_HOLES ht then foldE (destroy_step i_zval_ptr_dtor False True ht) places eg
             else foldE (destroy_step i_zval_ptr_dtor True True ht) places eg)
            (\<lambda>eg. Inr (reset_fields (HT_HASH_RESET ht), eg)))
      else Inr (reset_fields ht, eg))"

subsection \<open>What a loop calls\<close>

definition ev_dtors :: "event list \<Rightarrow> zval list" where
  "ev_dtors evs = concat (map (\<lambda>ev. case ev of EvDtor v \<Rightarrow> [v] | _ \<Rightarrow> []) evs)"

definition ev_keys :: "event list \<Rightarrow> 8 word list list" where
  "ev_keys evs = concat (map (\<lambda>ev. case ev of EvStrRelease k \<Rightarrow> [zs_val k] | _ \<Rightarrow> []) evs)"

definition releases_only :: "event list \<Rightarrow> bool" where
  "releases_only evs \<longleftrightarrow> set evs \<subseteq> range EvDtor \<union> range EvStrRelease"

definition string_keys_of :: "(hkey \<times> zval) list \<Rightarrow> 8 word list list" where
  "string_keys_of xs = concat (map (\<lambda>kv. case fst kv of KStr s \<Rightarrow> [s] | KNum h \<Rightarrow> []) xs)"

lemma ev_simps [simp]:
  "ev_dtors [] = []" "ev_dtors (xs @ ys) = ev_dtors xs @ ev_dtors ys"
  "ev_dtors [EvDtor v] = [v]" "ev_dtors [EvStrRelease k] = []"
  "ev_keys [] = []" "ev_keys (xs @ ys) = ev_keys xs @ ev_keys ys"
  "ev_keys [EvDtor v] = []" "ev_keys [EvStrRelease k] = [zs_val k]"
  "releases_only []" "releases_only (xs @ ys) \<longleftrightarrow> releases_only xs \<and> releases_only ys"
  "releases_only [EvDtor v]" "releases_only [EvStrRelease k]"
  by (auto simp: ev_dtors_def ev_keys_def releases_only_def)

lemma string_keys_simps [simp]:
  "string_keys_of [] = []" "string_keys_of (xs @ ys) = string_keys_of xs @ string_keys_of ys"
  "string_keys_of [(KStr s, v)] = [s]" "string_keys_of [(KNum h, v)] = []"
  by (simp_all add: string_keys_of_def)

lemma dtor_log_events: "dtor_log eg = ev_dtors (events eg)"
  by (simp add: dtor_log_def ev_dtors_def)

text \<open>A call on a value, as the events \<open>c v\<close> that it appends.\<close>

definition appends :: "(zval \<Rightarrow> executor_globals \<Rightarrow> executor_globals) \<Rightarrow> (zval \<Rightarrow> event list) \<Rightarrow> bool" where
  "appends call c \<longleftrightarrow> (\<forall>v eg. call v eg = eg\<lparr>events := events eg @ c v\<rparr>) \<and> (\<forall>v. ev_keys (c v) = [] \<and> releases_only (c v))"

lemma appends_simps:
  "appends call_dtor (\<lambda>v. [EvDtor v])"
  "appends i_zval_ptr_dtor (\<lambda>v. if v = IS_UNDEF then [] else [EvDtor v])"
  "appends (\<lambda>v eg. eg) (\<lambda>v. [])"
  by (simp_all add: appends_def call_dtor_def i_zval_ptr_dtor_def emit_def)

lemma string_key_events:
  "bucket_key p = k \<Longrightarrow>
    (case b_key p of None \<Rightarrow> [] | Some s \<Rightarrow> [zs_val s]) = string_keys_of [(k, v)]"
  by (auto simp: bucket_key_def string_keys_of_def split: option.splits)

lemma destroy_step_entry:
  assumes inv: "ht_inv ht" and i: "i < nNumUsed ht" "entry_at ht i = Some (k, v)" and c: "appends call c"
  obtains evs where "destroy_step call holes keys ht eg i = Inr (eg\<lparr>events := events eg @ evs\<rparr>)"
    "ev_dtors evs = ev_dtors (c v)" "ev_keys evs = (if keys then string_keys_of [(k, v)] else [])" "releases_only evs"
  using inv i
proof (cases rule: live_place)
  case packed
  then show thesis using c that [of "c v"]
    by (cases keys) (simp_all add: destroy_step_def appends_def)
next
  case (bucket p)
  let ?rel = "case b_key p of None \<Rightarrow> [] | Some s \<Rightarrow> if keys then [EvStrRelease s] else []"
  have "ev_keys ?rel = (if keys then string_keys_of [(k, v)] else [])" "ev_dtors ?rel = []" "releases_only ?rel"
    using string_key_events [OF bucket(7), of v] by (auto split: option.splits)
  then show thesis using bucket c
    by (intro that [of "c v @ ?rel"]) (auto simp: destroy_step_def appends_def emit_def Let_def split: option.splits)
qed

lemma destroy_step_hole:
  assumes inv: "ht_inv ht" and i: "i < nNumUsed ht" "entry_at ht i = None" and c: "appends call c"
    and hole: "holes \<or> c IS_UNDEF = []"
  shows "destroy_step call holes keys ht eg i = Inr eg"
proof (cases "f_packed ht")
  case True
  note ok = inv_packed [OF inv True, unfolded packed_ok_def]
  then have "arPacked ht ! i = Some IS_UNDEF" "i < length (arPacked ht)"
    using i True by (auto simp: entry_at_def packed_entry_def split: option.splits if_splits)
  then show ?thesis using True hole c by (auto simp: destroy_step_def appends_def)
next
  case False
  then have nu: "\<not> f_uninit ht" using inv i(1) by (auto simp: ht_inv_def uninit_ok_def)
  note m = mixed_okD [OF inv_mixed [OF inv False nu]]
  obtain p where p: "arData ht ! i = Some p" using mixed_bucket [OF inv_mixed [OF inv False nu] i(1)] by blast
  then have "b_val p = IS_UNDEF" "b_key p = None" "i < length (arData ht)"
    using i False m(3,4) m(5) [OF i(1)] by (simp_all add: entry_at_def bucket_entry_def bucket_ok_def split: if_splits)
  then show ?thesis using p False hole c by (auto simp: destroy_step_def appends_def Let_def)
qed

lemma destroy_loop:
  assumes inv: "ht_inv ht" and c: "appends call c"
    and hole: "holes \<or> c IS_UNDEF = [] \<or> HT_IS_WITHOUT_HOLES ht"
  shows "n \<le> nNumUsed ht \<Longrightarrow> \<exists>evs. foldE (destroy_step call holes keys ht) [0..<n] eg =
      Inr (eg\<lparr>events := events eg @ evs\<rparr>) \<and>
    ev_dtors evs = concat (map (ev_dtors \<circ> c \<circ> snd) (before_pos ht n)) \<and>
    ev_keys evs = (if keys then string_keys_of (before_pos ht n) else []) \<and> releases_only evs"
proof (induction n)
  case 0
  show ?case by (rule exI [of _ "[]"]) simp
next
  case (Suc n)
  then have n: "n < nNumUsed ht" by simp
  from Suc.IH [OF less_imp_le [OF n]] obtain evs where IH: "foldE (destroy_step call holes keys ht) [0..<n] eg =
      Inr (eg\<lparr>events := events eg @ evs\<rparr>)"
    "ev_dtors evs = concat (map (ev_dtors \<circ> c \<circ> snd) (before_pos ht n))"
    "ev_keys evs = (if keys then string_keys_of (before_pos ht n) else [])" "releases_only evs" by blast
  show ?case
  proof (cases "entry_at ht n")
    case None
    then have "holes \<or> c IS_UNDEF = []" using hole elems_without_holes [OF inv] n by blast
    from destroy_step_hole [OF inv n None c this] IH None show ?thesis
      using before_pos_Suc [OF n] by (intro exI [of _ evs]) (simp add: foldE_append comp_def)
  next
    case (Some kv)
    obtain k v where kv: "kv = (k, v)" by (cases kv)
    obtain e where "destroy_step call holes keys ht (eg\<lparr>events := events eg @ evs\<rparr>) n =
        Inr (eg\<lparr>events := events eg @ evs @ e\<rparr>)"
      "ev_dtors e = ev_dtors (c v)" "ev_keys e = (if keys then string_keys_of [(k, v)] else [])" "releases_only e"
      using destroy_step_entry [OF inv n Some [unfolded kv] c, of holes keys "eg\<lparr>events := events eg @ evs\<rparr>"]
      by auto
    then show ?thesis
      using IH Some kv before_pos_Suc [OF n]
      by (intro exI [of _ "evs @ e"]) (simp add: foldE_append comp_def)
  qed
qed

subsection \<open>The operations\<close>

text \<open>
  \<open>swept\<close>: the destructor was called on all values in order, once each; the string keys were
  released, once each, if the table owns them; nothing else was called. \<open>eg'\<close> may differ in
  the iterators.
\<close>

definition swept :: "HashTable \<Rightarrow> executor_globals \<Rightarrow> executor_globals \<Rightarrow> bool" where
  "swept ht eg eg' \<longleftrightarrow>
     (\<exists>evs. eg' = eg\<lparr>events := events eg @ evs\<rparr> \<and> ev_dtors evs = destroyed ht (map snd (elems ht)) \<and>
        ev_keys evs = (if HT_HAS_STATIC_KEYS_ONLY ht then [] else string_keys_of (elems ht)) \<and>
        releases_only evs)"

lemma swept_loop:
  assumes inv: "ht_inv ht" "nNumUsed ht \<noteq> 0" and c: "appends call c"
    and hole: "holes \<or> c IS_UNDEF = [] \<or> HT_IS_WITHOUT_HOLES ht"
    and dt: "\<And>v. v \<noteq> IS_UNDEF \<Longrightarrow> ev_dtors (c v) = destroyed ht [v]"
    and keys: "keys \<longleftrightarrow> \<not> HT_HAS_STATIC_KEYS_ONLY ht"
  obtains eg' where "foldE (destroy_step call holes keys ht) (0 # [1..<nNumUsed ht]) eg = Inr eg'" "swept ht eg eg'"
proof -
  have pl: "0 # [1..<nNumUsed ht] = [0..<nNumUsed ht]" using inv(2) by (intro places) simp
  obtain evs where l: "foldE (destroy_step call holes keys ht) [0..<nNumUsed ht] eg =
      Inr (eg\<lparr>events := events eg @ evs\<rparr>)"
    "ev_dtors evs = concat (map (ev_dtors \<circ> c \<circ> snd) (elems ht))"
    "ev_keys evs = (if keys then string_keys_of (elems ht) else [])" "releases_only evs"
    using destroy_loop [OF inv(1) c hole order.refl, of keys eg] by (auto simp: before_pos_used)
  have live: "v \<noteq> IS_UNDEF" if kv: "(k, v) \<in> set (elems ht)" for k v
  proof -
    obtain i where "i < nNumUsed ht" "entry_at ht i = Some (k, v)" using kv by (auto simp: elems_def set_entries)
    then show ?thesis by (elim place_read_ok [OF inv(1)])
  qed
  have calls: "concat (map (ev_dtors \<circ> c \<circ> snd) xs) = destroyed ht (map snd xs)"
    if "\<forall>kv\<in>set xs. snd kv \<noteq> IS_UNDEF" for xs
    using that dt by (induction xs) (auto simp: destroyed_def)
  have "\<forall>kv\<in>set (elems ht). snd kv \<noteq> IS_UNDEF" using live by (metis prod.collapse)
  from calls [OF this] have "ev_dtors evs = destroyed ht (map snd (elems ht))" using l(2) by (simp only:)
  then have "swept ht eg (eg\<lparr>events := events eg @ evs\<rparr>)"
    unfolding swept_def using l(3,4) keys by (intro exI [of _ evs]) simp
  from that [OF _ this] show thesis unfolding pl using l(1) by blast
qed

lemma swept_none:
  assumes "pDestructor ht = DTOR_NULL" "HT_HAS_STATIC_KEYS_ONLY ht"
  shows "swept ht eg eg"
  unfolding swept_def using assms by (intro exI [of _ "[]"]) (simp add: destroyed_def)

lemma swept_empty: "elems ht = [] \<Longrightarrow> swept ht eg eg"
  unfolding swept_def by (intro exI [of _ "[]"]) (simp add: destroyed_def)

text \<open>The two groups of loops.\<close>

lemma sweep_call_dtor:
  assumes "ht_inv ht" "nNumUsed ht \<noteq> 0" "pDestructor ht \<noteq> DTOR_NULL" "keys \<longleftrightarrow> \<not> HT_HAS_STATIC_KEYS_ONLY ht"
  obtains eg' where "foldE (destroy_step call_dtor (\<not> HT_IS_WITHOUT_HOLES ht) keys ht) (0 # [1..<nNumUsed ht]) eg = Inr eg'"
    "swept ht eg eg'"
  by (rule swept_loop [OF assms(1,2) appends_simps(1), of "\<not> HT_IS_WITHOUT_HOLES ht" keys eg])
    (use assms(3,4) in \<open>auto simp: destroyed_def\<close>)

lemma sweep_ptr_dtor:
  assumes "ht_inv ht" "nNumUsed ht \<noteq> 0" "pDestructor ht \<noteq> DTOR_NULL" "keys \<longleftrightarrow> \<not> HT_HAS_STATIC_KEYS_ONLY ht"
  obtains eg' where "foldE (destroy_step i_zval_ptr_dtor holes keys ht) (0 # [1..<nNumUsed ht]) eg = Inr eg'"
    "swept ht eg eg'"
  by (rule swept_loop [OF assms(1,2) appends_simps(2), of holes keys eg])
    (use assms(3,4) in \<open>auto simp: destroyed_def\<close>)

lemma sweep_keys:
  assumes "ht_inv ht" "nNumUsed ht \<noteq> 0" "pDestructor ht = DTOR_NULL" "\<not> HT_HAS_STATIC_KEYS_ONLY ht"
  obtains eg' where "foldE (destroy_step (\<lambda>v eg. eg) False True ht) (0 # [1..<nNumUsed ht]) eg = Inr eg'"
    "swept ht eg eg'"
  by (rule swept_loop [OF assms(1,2) appends_simps(3), of False True eg])
    (use assms(3,4) in \<open>auto simp: destroyed_def\<close>)

lemma destroy_spec:
  assumes inv: "ht_inv ht"
  obtains ht' eg' where "zend_hash_destroy ht eg = Inr (ht', if nNumUsed ht = 0 then eg' else zend_hash_iterators_remove ht eg')"
    "swept ht eg eg'" "f_uninit ht \<and> ht' = ht \<or> ht' = free_data ht"
proof (cases "nNumUsed ht = 0")
  case True
  then have "swept ht eg eg" by (intro swept_empty elems_nil)
  then show thesis using that [of "if f_uninit ht then ht else free_data ht" eg] True
    by (auto simp: zend_hash_destroy_def)
next
  case False
  note d = zend_hash_destroy_def Let_def
  have static: "HT_HAS_STATIC_KEYS_ONLY ht" if "f_packed ht" using that by (simp add: HT_HAS_STATIC_KEYS_ONLY_def)
  show thesis
  proof (cases "pDestructor ht = DTOR_NULL")
    case True
    show thesis
    proof (cases "HT_HAS_STATIC_KEYS_ONLY ht")
      case True
      then show thesis using \<open>pDestructor ht = DTOR_NULL\<close> False swept_none
        by (intro that [of "free_data ht" eg]) (simp_all add: d)
    next
      case keys: False
      obtain eg' where "foldE (destroy_step (\<lambda>v eg. eg) False True ht) (0 # [1..<nNumUsed ht]) eg = Inr eg'" "swept ht eg eg'"
        by (rule sweep_keys [OF inv False True keys])
      then show thesis using True False keys static
        by (intro that [of "free_data ht" eg']) (auto simp: d)
    qed
  next
    case dt: False
    obtain eg' where l: "foldE (destroy_step call_dtor (\<not> HT_IS_WITHOUT_HOLES ht) (\<not> HT_HAS_STATIC_KEYS_ONLY ht) ht)
        (0 # [1..<nNumUsed ht]) eg = Inr eg'" "swept ht eg eg'"
      by (rule sweep_call_dtor [OF inv False dt refl])
    show thesis
    proof (cases "HT_HAS_STATIC_KEYS_ONLY ht")
      case True
      then show thesis using l False dt by (intro that [of "free_data ht" eg']) (simp_all add: d)
    next
      case keys: False
      then show thesis using l False dt static by (intro that [of "free_data ht" eg']) (auto simp: d)
    qed
  qed
qed

lemma destroyed_table:
  assumes "zend_hash_destroy ht eg = Inr (ht', eg')"
  shows "ht_addr ht' = ht_addr ht" "nIteratorsCount ht' = nIteratorsCount ht"
  using assms by (auto simp: zend_hash_destroy_def free_data_def Let_def bindE_eq_Inr split: if_splits)

lemma remove_twice [simp]:
  "zend_hash_iterators_remove (free_data ht) eg = zend_hash_iterators_remove ht eg"
  "zend_hash_iterators_remove ht (zend_hash_iterators_remove ht eg) = zend_hash_iterators_remove ht eg"
proof -
  show "zend_hash_iterators_remove (free_data ht) eg = zend_hash_iterators_remove ht eg"
    by (simp add: zend_hash_iterators_remove_def HT_HAS_ITERATORS_def zend_hash_iterators_remove_all_def free_data_def)
  let ?f = "\<lambda>iter. if it_ht iter = IterHT (ht_addr ht) then iter\<lparr>it_ht := IterPoisoned\<rparr> else iter"
  have twice: "map_used g (map_used g eg) = map_used (g \<circ> g) eg" for g
    by (cases "ht_iterators_used eg \<le> length (ht_iterators eg)") (simp_all add: map_used_def)
  have idem: "?f \<circ> ?f = ?f" by auto
  have "map_used ?f (map_used ?f eg) = map_used ?f eg" by (simp only: twice idem)
  then show "zend_hash_iterators_remove ht (zend_hash_iterators_remove ht eg) = zend_hash_iterators_remove ht eg"
    by (simp add: zend_hash_iterators_remove_def zend_hash_iterators_remove_all_def)
qed

text \<open>The loops of \<open>zend_array_destroy\<close> and \<open>zend_symtable_clean\<close> over a mixed table.\<close>

definition symtable_loops :: "HashTable \<Rightarrow> executor_globals \<Rightarrow> error + executor_globals" where
  "symtable_loops ht eg =
     (if HT_HAS_STATIC_KEYS_ONLY ht then foldE (destroy_step i_zval_ptr_dtor False False ht) (0 # [1..<nNumUsed ht]) eg
      else if HT_IS_WITHOUT_HOLES ht then foldE (destroy_step i_zval_ptr_dtor False True ht) (0 # [1..<nNumUsed ht]) eg
      else foldE (destroy_step i_zval_ptr_dtor True True ht) (0 # [1..<nNumUsed ht]) eg)"

lemma symtable_loops_ok:
  assumes "ht_inv ht" "nNumUsed ht \<noteq> 0" "pDestructor ht \<noteq> DTOR_NULL"
  obtains eg' where "symtable_loops ht eg = Inr eg'" "swept ht eg eg'"
proof -
  have "symtable_loops ht eg = foldE (destroy_step i_zval_ptr_dtor
      (\<not> HT_HAS_STATIC_KEYS_ONLY ht \<and> \<not> HT_IS_WITHOUT_HOLES ht) (\<not> HT_HAS_STATIC_KEYS_ONLY ht) ht) (0 # [1..<nNumUsed ht]) eg"
    by (cases "HT_HAS_STATIC_KEYS_ONLY ht"; cases "HT_IS_WITHOUT_HOLES ht") (simp_all add: symtable_loops_def)
  then show thesis using that sweep_ptr_dtor [OF assms refl] by metis
qed

lemma array_destroy_spec:
  assumes inv: "ht_inv ht"
  obtains eg' where "zend_array_destroy ht eg = Inr (zend_hash_iterators_remove ht eg')"
    "swept ht (emit (EvGcForget (ht_addr ht)) eg) eg'"
proof (cases "nNumUsed ht = 0")
  let ?eg = "emit (EvGcForget (ht_addr ht)) eg"
  case True
  then show thesis using swept_empty [OF elems_nil [OF True], of ?eg]
    by (intro that [of ?eg]) (simp_all add: zend_array_destroy_def)
next
  let ?eg = "emit (EvGcForget (ht_addr ht)) eg"
  case False
  show thesis
  proof (cases "pDestructor ht = ZVAL_PTR_DTOR")
    case True
    then have dt: "pDestructor ht \<noteq> DTOR_NULL" by simp
    have static: "f_packed ht \<Longrightarrow> HT_HAS_STATIC_KEYS_ONLY ht" by (simp add: HT_HAS_STATIC_KEYS_ONLY_def)
    obtain eg' where l: "symtable_loops ht ?eg = Inr eg'" "swept ht ?eg eg'"
      by (rule symtable_loops_ok [OF inv False dt])
    show thesis
      by (rule that [OF _ l(2)]) (use l(1) False True static in \<open>auto simp: zend_array_destroy_def Let_def symtable_loops_def\<close>)
  next
    case other: False
    obtain ht' eg' where d: "zend_hash_destroy ht ?eg = Inr (ht', if nNumUsed ht = 0 then eg' else zend_hash_iterators_remove ht eg')"
      "swept ht ?eg eg'" by (rule destroy_spec [OF inv])
    then show thesis using other False by (intro that [of eg']) (simp_all add: zend_array_destroy_def)
  qed
qed

subsection \<open>Cleaning\<close>

lemma reset_mixed_inv:
  assumes "ht_inv ht" "\<not> f_packed ht" "\<not> f_uninit ht"
  shows "ht_inv (reset_fields (HT_HASH_RESET ht))"
proof -
  note m = mixed_okD [OF inv_mixed [OF assms]] and sz = inv_size [OF assms(1)]
  have "mixed_ok (reset_fields (HT_HASH_RESET ht))"
    using m size_mask [OF sz] by (simp add: mixed_ok_def reset_fields_def HT_HASH_RESET_def chains_ok_def)
  then show ?thesis using assms
    by (simp add: ht_inv_def next_free_ok_def elems_def)
      (simp add: reset_fields_def HT_HASH_RESET_def ZEND_LONG_MIN_def ZEND_LONG_MAX_def)
qed

lemma reset_sel [simp]:
  "nNumUsed (reset_fields ht) = 0" "nNumOfElements (reset_fields ht) = 0" "nNextFreeElement (reset_fields ht) = ZEND_LONG_MIN"
  "nTableSize (reset_fields ht) = nTableSize ht" "f_packed (reset_fields ht) = f_packed ht"
  "f_uninit (reset_fields ht) = f_uninit ht" "elems (reset_fields ht) = []"
  by (simp_all add: reset_fields_def elems_def)

lemma reset_empty_inv:
  assumes "ht_inv ht" "f_packed ht \<or> f_uninit ht \<or> nNumUsed ht = 0"
  shows "ht_inv (reset_fields ht)"
proof -
  have "packed_ok (reset_fields ht)" if "f_packed ht"
    using inv_packed [OF assms(1) that] by (simp add: packed_ok_def) (simp add: reset_fields_def)
  moreover have "uninit_ok (reset_fields ht)" if "\<not> f_packed ht" "f_uninit ht"
    using inv_uninit [OF assms(1) that] by (simp add: uninit_ok_def) (simp add: reset_fields_def)
  moreover have "mixed_ok (reset_fields ht)" if "\<not> f_packed ht" "\<not> f_uninit ht"
    using that inv_mixed [OF assms(1) that] assms(2) by (auto simp: mixed_ok_def reset_fields_def)
  ultimately show ?thesis using inv_size [OF assms(1)]
    by (simp add: ht_inv_def next_free_ok_def ZEND_LONG_MIN_def ZEND_LONG_MAX_def)
qed

definition cleaned :: "HashTable \<Rightarrow> executor_globals \<Rightarrow> error + (HashTable \<times> executor_globals) \<Rightarrow> bool" where
  "cleaned ht eg r \<longleftrightarrow>
     (\<exists>ht' eg'. r = Inr (ht', eg') \<and> ht_inv ht' \<and> elems ht' = [] \<and> swept ht eg eg' \<and>
        nTableSize ht' = nTableSize ht \<and> f_packed ht' = f_packed ht \<and> f_uninit ht' = f_uninit ht \<and>
        nInternalPointer ht' = 0 \<and> next_key ht' = 0)"

lemma cleanedI:
  assumes "r = Inr (ht', eg')" "ht_inv ht'" "swept ht eg eg'"
    "ht' = reset_fields ht \<or> ht' = reset_fields (HT_HASH_RESET ht)"
  shows "cleaned ht eg r"
  using assms by (auto simp: cleaned_def reset_fields_def HT_HASH_RESET_def elems_def next_key_def)

lemma clean_spec:
  assumes inv: "ht_inv ht"
  shows "cleaned ht eg (zend_hash_clean ht eg)"
proof (cases "nNumUsed ht = 0")
  case True
  then show ?thesis using reset_empty_inv [OF inv] swept_empty [OF elems_nil [OF True], of eg]
    by (intro cleanedI [of _ "reset_fields ht" eg]) (simp_all add: zend_hash_clean_def)
next
  case False
  note d = zend_hash_clean_def Let_def
  have nu: "\<not> f_packed ht \<Longrightarrow> \<not> f_uninit ht" using inv False by (auto simp: ht_inv_def uninit_ok_def)
  let ?ht = "if f_packed ht then reset_fields ht else reset_fields (HT_HASH_RESET ht)"
  have inv': "ht_inv ?ht" using reset_empty_inv [OF inv] reset_mixed_inv [OF inv _ nu] by simp
  have static: "HT_HAS_STATIC_KEYS_ONLY ht" if "f_packed ht" using that by (simp add: HT_HAS_STATIC_KEYS_ONLY_def)
  show ?thesis
  proof (cases "pDestructor ht = DTOR_NULL")
    case True
    show ?thesis
    proof (cases "HT_HAS_STATIC_KEYS_ONLY ht")
      case st: True
      show ?thesis
        by (rule cleanedI [OF _ inv' swept_none [OF True st]]) (use True st False in \<open>simp_all add: d\<close>)
    next
      case keys: False
      obtain eg' where "foldE (destroy_step (\<lambda>v eg. eg) False True ht) (0 # [1..<nNumUsed ht]) eg = Inr eg'" "swept ht eg eg'"
        by (rule sweep_keys [OF inv False True keys])
      then show ?thesis using True keys False static
        by (intro cleanedI [OF _ inv', of _ eg']) (auto simp: d)
    qed
  next
    case dt: False
    obtain eg' where l: "foldE (destroy_step call_dtor (\<not> HT_IS_WITHOUT_HOLES ht) (\<not> HT_HAS_STATIC_KEYS_ONLY ht) ht)
        (0 # [1..<nNumUsed ht]) eg = Inr eg'" "swept ht eg eg'"
      by (rule sweep_call_dtor [OF inv False dt refl])
    show ?thesis
    proof (cases "HT_HAS_STATIC_KEYS_ONLY ht")
      case True
      show ?thesis by (rule cleanedI [OF _ inv' l(2)]) (use l(1) False dt True in \<open>simp_all add: d\<close>)
    next
      case keys: False
      show ?thesis by (rule cleanedI [OF _ inv' l(2)]) (use l(1) False dt keys static in \<open>auto simp: d\<close>)
    qed
  qed
qed

lemma symtable_clean_spec:
  assumes inv: "ht_inv ht" "\<not> f_packed ht" "pDestructor ht \<noteq> DTOR_NULL"
  shows "cleaned ht eg (zend_symtable_clean ht eg)"
proof (cases "nNumUsed ht = 0")
  case True
  then show ?thesis using reset_empty_inv [OF inv(1)] swept_empty [OF elems_nil [OF True], of eg]
    by (intro cleanedI [of _ "reset_fields ht" eg]) (simp_all add: zend_symtable_clean_def)
next
  case False
  have nu: "\<not> f_uninit ht" using inv False by (auto simp: ht_inv_def uninit_ok_def)
  note inv' = reset_mixed_inv [OF inv(1,2) nu]
  obtain eg' where l: "symtable_loops ht eg = Inr eg'" "swept ht eg eg'"
    by (rule symtable_loops_ok [OF inv(1) False inv(3)])
  have "zend_symtable_clean ht eg = Inr (reset_fields (HT_HASH_RESET ht), eg')"
    using l(1) False inv(2) unfolding zend_symtable_clean_def symtable_loops_def
    by (auto simp: Let_def simp del: foldE.simps split: if_splits)
  then show ?thesis by (rule cleanedI [OF _ inv' l(2)]) simp
qed

end
