(* ===== verification/HashMerge.thy ===== *)
theory HashMerge
  imports HashTraverse HashApply
begin

text \<open>
  Copying the entries of one table into another: \<open>zend_hash_copy\<close>, \<open>zend_hash_merge\<close> and
  \<open>zend_hash_merge_ex\<close> of \<open>Zend/zend_hash.c\<close>. Values that point to zvals outside the source
  are followed, and \<open>zend_hash_merge\<close> also writes through those of the target, so the
  specification carries the zvals along with the ordered map.
\<close>

subsection \<open>The loops\<close>

text \<open>
  \<open>source_entry\<close>: what the loops read at a place, \<open>None\<close> where they \<open>continue\<close>; with \<open>deref\<close>
  an \<open>IS_INDIRECT\<close> value is followed.
\<close>

definition source_entry :: "bool \<Rightarrow> HashTable \<Rightarrow> executor_globals \<Rightarrow> nat \<Rightarrow> error + (zend_hash_key \<times> zval) option" where
  "source_entry deref source eg idx =
     (if f_packed source then
        bindE (rd (arPacked source) idx) (\<lambda>zv.
          Inr (if zv = IS_UNDEF then None else Some (\<lparr>hk_h = of_nat idx, hk_key = None\<rparr>, zv)))
      else
        bindE (rd (arData source) idx) (\<lambda>p.
          let data = (case b_val p of IS_INDIRECT a \<Rightarrow> if deref then indirect eg a else b_val p | _ \<Rightarrow> b_val p) in
          Inr (if data = IS_UNDEF then None else Some (\<lparr>hk_h = b_h p, hk_key = b_key p\<rparr>, data))))"

text \<open>
  The call of the copy constructor on the new entry. Where the code tests the entry for
  \<open>NULL\<close> first (\<open>checked\<close>) nothing is called for it; elsewhere \<open>NULL\<close> would be dereferenced.
\<close>

definition call_ctor :: "bool \<Rightarrow> bool \<Rightarrow> HashTable \<times> executor_globals \<times> zloc option
    \<Rightarrow> error + (HashTable \<times> executor_globals)" where
  "call_ctor pCopyConstructor checked r =
     (case r of (ht, eg, t) \<Rightarrow>
        if \<not> pCopyConstructor then Inr (ht, eg)
        else case t of
          Some l \<Rightarrow> Inr (ht, emit (EvCopyCtor (zloc_val ht eg l)) eg)
        | None \<Rightarrow> if checked then Inr (ht, eg) else Inl OutOfBounds)"

type_synonym put_func = "zend_hash_key \<Rightarrow> zval \<Rightarrow> HashTable \<Rightarrow> executor_globals
  \<Rightarrow> error + (HashTable \<times> executor_globals \<times> zloc option)"

definition merge_step :: "put_func \<Rightarrow> bool \<Rightarrow> bool \<Rightarrow> bool \<Rightarrow> HashTable \<Rightarrow> HashTable \<times> executor_globals \<Rightarrow> nat
    \<Rightarrow> error + (HashTable \<times> executor_globals)" where
  "merge_step put deref checked ctor source st idx =
     (case st of (target, eg) \<Rightarrow>
        bindE (source_entry deref source eg idx) (\<lambda>r.
          case r of None \<Rightarrow> Inr (target, eg)
          | Some (hk, data) \<Rightarrow> bindE (put hk data target eg) (call_ctor ctor checked)))"

definition copy_put :: put_func where
  "copy_put hk data target eg =
     (case hk_key hk of Some k \<Rightarrow> zend_hash_update target k data eg
      | None \<Rightarrow> zend_hash_index_update target (hk_h hk) data eg)"

definition zend_hash_copy :: "HashTable \<Rightarrow> HashTable \<Rightarrow> bool \<Rightarrow> executor_globals
    \<Rightarrow> error + (HashTable \<times> executor_globals)" where
  "zend_hash_copy target source pCopyConstructor eg =
     foldE (merge_step copy_put True False pCopyConstructor source) [0..<nNumUsed source] (target, eg)"

definition overwrite_put :: put_func where
  "overwrite_put hk s target eg =
     (case hk_key hk of
        Some k \<Rightarrow> zend_hash_add_or_update_i target k s (HASH_UPDATE OR HASH_UPDATE_INDIRECT) eg
      | None \<Rightarrow> zend_hash_index_update target (hk_h hk) s eg)"

definition add_put :: put_func where
  "add_put hk s target eg =
     (case hk_key hk of
        Some k \<Rightarrow> zend_hash_add_or_update_i target k s (HASH_ADD OR HASH_UPDATE_INDIRECT) eg
      | None \<Rightarrow> zend_hash_index_add target (hk_h hk) s eg)"

definition zend_hash_merge :: "HashTable \<Rightarrow> HashTable \<Rightarrow> bool \<Rightarrow> bool \<Rightarrow> executor_globals
    \<Rightarrow> error + (HashTable \<times> executor_globals)" where
  "zend_hash_merge target source pCopyConstructor overwrite eg =
     (if overwrite
      then foldE (merge_step overwrite_put True False pCopyConstructor source) [0..<nNumUsed source] (target, eg)
      else foldE (merge_step add_put True True pCopyConstructor source) [0..<nNumUsed source] (target, eg))"

text \<open>
  \<open>zend_hash_merge_ex\<close> with the caller's \<open>merge_checker_func\<close> (its \<open>pParam\<close> is part of the
  function). Every key it copies must be a string: \<open>p->key\<close> is not tested.
\<close>

type_synonym merge_checker_func = "HashTable \<Rightarrow> zval \<Rightarrow> zend_hash_key \<Rightarrow> bool"

definition zend_hash_replace_checker_wrapper ::
  "HashTable \<Rightarrow> zval \<Rightarrow> 64 word \<Rightarrow> zend_string option \<Rightarrow> merge_checker_func \<Rightarrow> bool" where
  "zend_hash_replace_checker_wrapper target source_data h key merge_checker_func =
     merge_checker_func target source_data \<lparr>hk_h = h, hk_key = key\<rparr>"

definition checked_put :: "merge_checker_func \<Rightarrow> put_func" where
  "checked_put pMergeSource hk data target eg =
     (if zend_hash_replace_checker_wrapper target data (hk_h hk) (hk_key hk) pMergeSource then
        (case hk_key hk of Some k \<Rightarrow> zend_hash_update target k data eg | None \<Rightarrow> Inl OutOfBounds)
      else Inr (target, eg, None))"

definition zend_hash_merge_ex :: "HashTable \<Rightarrow> HashTable \<Rightarrow> bool \<Rightarrow> merge_checker_func \<Rightarrow> executor_globals
    \<Rightarrow> error + (HashTable \<times> executor_globals)" where
  "zend_hash_merge_ex target source pCopyConstructor pMergeSource eg =
     assertE (\<not> f_packed source) (\<lambda>_.
       foldE (merge_step (checked_put pMergeSource) False True pCopyConstructor source) [0..<nNumUsed source] (target, eg))"

subsection \<open>Merging ordered maps\<close>

type_synonym mstate = "(hkey \<times> zval) list \<times> (nat \<Rightarrow> zval)"

definition update_entry :: "mstate \<Rightarrow> hkey \<Rightarrow> zval \<Rightarrow> mstate" where
  "update_entry st k v = (AList.update k v (fst st), snd st)"

definition update_entry_ind :: "mstate \<Rightarrow> hkey \<Rightarrow> zval \<Rightarrow> mstate" where
  "update_entry_ind st k v =
     (case (k, map_of (fst st) k) of
        (KStr s, Some (IS_INDIRECT a)) \<Rightarrow> (fst st, (snd st)(a := v))
      | _ \<Rightarrow> update_entry st k v)"

definition add_entry_ind :: "mstate \<Rightarrow> hkey \<Rightarrow> zval \<Rightarrow> mstate" where
  "add_entry_ind st k v =
     (case map_of (fst st) k of
        None \<Rightarrow> (fst st @ [(k, v)], snd st)
      | Some w \<Rightarrow>
          (case (k, w) of
             (KStr s, IS_INDIRECT a) \<Rightarrow> if snd st a = IS_UNDEF then (fst st, (snd st)(a := v)) else st
           | _ \<Rightarrow> st))"

definition follow :: "bool \<Rightarrow> (nat \<Rightarrow> zval) \<Rightarrow> zval \<Rightarrow> zval" where
  "follow deref ind v = (case v of IS_INDIRECT a \<Rightarrow> if deref then ind a else v | _ \<Rightarrow> v)"

definition merge_entry :: "(mstate \<Rightarrow> hkey \<Rightarrow> zval \<Rightarrow> mstate) \<Rightarrow> bool \<Rightarrow> mstate \<Rightarrow> hkey \<times> zval \<Rightarrow> mstate" where
  "merge_entry aput deref st kv =
     (let d = follow deref (snd st) (snd kv) in if d = IS_UNDEF then st else aput st (fst kv) d)"

text \<open>A table an insertion may fail on for want of room.\<close>

definition at_limit :: "HashTable \<Rightarrow> bool" where
  "at_limit ht \<longleftrightarrow> ht_inv ht \<and> (no_room ht \<or> f_packed ht \<and> nTableSize ht = HT_MAX_SIZE)"

text \<open>
  \<open>merged\<close>: what a run over the first \<open>n\<close> places of the source gives is the merge of the entries
  there. It fails only at a place where the run over the places before it succeeded, with the merge of
  those, and left the target at its limit.
\<close>

definition merged :: "(mstate \<Rightarrow> hkey \<Rightarrow> zval \<Rightarrow> mstate) \<Rightarrow> bool \<Rightarrow> mstate \<Rightarrow> HashTable
    \<Rightarrow> (nat \<Rightarrow> error + (HashTable \<times> executor_globals)) \<Rightarrow> nat \<Rightarrow> bool" where
  "merged aput deref st source run n \<longleftrightarrow>
     (case run n of
        Inl e \<Rightarrow> (e = FatalOverflow \<or> e = AssertFailed) \<and>
          (\<exists>m < n. \<exists>ht eg. run m = Inr (ht, eg) \<and> run (Suc m) = Inl e \<and> at_limit ht \<and>
             (elems ht, indirect eg) = foldl (merge_entry aput deref) st (before_pos source m))
      | Inr (ht, eg) \<Rightarrow> ht_inv ht \<and>
          (elems ht, indirect eg) = foldl (merge_entry aput deref) st (before_pos source n))"

text \<open>A function that puts one entry, against its effect on the map.\<close>

definition puts :: "(zend_hash_key \<Rightarrow> bool) \<Rightarrow> bool \<Rightarrow> put_func \<Rightarrow> (mstate \<Rightarrow> hkey \<Rightarrow> zval \<Rightarrow> mstate) \<Rightarrow> bool" where
  "puts ok checked put aput \<longleftrightarrow>
     (\<forall>hk d target eg. ok hk \<longrightarrow> d \<noteq> IS_UNDEF \<longrightarrow> ht_inv target \<longrightarrow>
        (case put hk d target eg of
           Inl e \<Rightarrow> (e = FatalOverflow \<or> e = AssertFailed) \<and> at_limit target
         | Inr (ht, eg', l) \<Rightarrow>
             ht_inv ht \<and> (elems ht, indirect eg') = aput (elems target, indirect eg) (hk_hkey hk) d \<and>
             (checked \<or> l \<noteq> None)))"

definition key_ok :: "zend_hash_key \<Rightarrow> bool" where
  "key_ok hk \<longleftrightarrow> (case hk_key hk of None \<Rightarrow> True | Some k \<Rightarrow> str_ok k)"

subsection \<open>What the loops read\<close>

lemma source_entry_live:
  assumes inv: "ht_inv source" and i: "i < nNumUsed source" "entry_at source i = Some (k, v)"
  obtains hk where "key_ok hk" "hk_hkey hk = k" "(\<exists>s. k = KStr s) \<longrightarrow> hk_key hk \<noteq> None"
    "source_entry deref source eg i =
       (let d = follow (deref \<and> \<not> f_packed source) (indirect eg) v in
        Inr (if d = IS_UNDEF then None else Some (hk, d)))"
  using inv i
proof (cases rule: live_place)
  case packed
  then show thesis
    by (intro that [of "\<lparr>hk_h = of_nat i, hk_key = None\<rparr>"])
      (simp_all add: source_entry_def key_ok_def hk_hkey_def follow_def split: zval.split)
next
  case (bucket p)
  have "bucket_ok (f_static_keys source) (arData source ! i)"
    using mixed_okD(5) [OF inv_mixed [OF inv bucket(1,2)] i(1)] .
  then have "str_ok s" if "b_key p = Some s" for s using that bucket by (simp add: bucket_ok_def str_ok_def)
  then have "key_ok \<lparr>hk_h = b_h p, hk_key = b_key p\<rparr>" by (simp add: key_ok_def split: option.split)
  moreover have "hk_hkey \<lparr>hk_h = b_h p, hk_key = b_key p\<rparr> = k" "(\<exists>s. k = KStr s) \<longrightarrow> b_key p \<noteq> None"
    using bucket(7) by (cases "b_key p"; auto simp: hk_hkey_def bucket_key_def)+
  ultimately show thesis using bucket
    by (intro that [of "\<lparr>hk_h = b_h p, hk_key = b_key p\<rparr>"])
      (simp_all add: source_entry_def follow_def Let_def split: zval.split)
qed

lemma source_entry_hole:
  assumes inv: "ht_inv source" and i: "i < nNumUsed source" "entry_at source i = None"
  shows "source_entry deref source eg i = Inr None"
proof -
  have "place_undef source i = Inr True" using place_undef_ok [OF inv i(1)] i(2) by simp
  then show ?thesis
    by (auto simp: place_undef_def source_entry_def bindE_eq_Inr split: if_splits)
qed

subsection \<open>The loop refines the merge\<close>

lemma call_ctor_ok:
  assumes "checked \<or> l \<noteq> None"
  obtains eg' where "call_ctor ctor checked (ht, eg, l) = Inr (ht, eg')" "indirect eg' = indirect eg"
  using assms by (cases ctor; cases l) (auto simp: call_ctor_def emit_def)

lemma merge_loop:
  assumes puts: "puts ok checked put aput" and inv: "ht_inv source"
    and keys: "\<And>hk. key_ok hk \<Longrightarrow> hk_hkey hk \<in> fst ` set (elems source) \<Longrightarrow>
      (\<exists>s. hk_hkey hk = KStr s) \<longrightarrow> hk_key hk \<noteq> None \<Longrightarrow> ok hk"
    and target: "ht_inv target"
  shows "n \<le> nNumUsed source \<Longrightarrow>
    merged aput (deref \<and> \<not> f_packed source) (elems target, indirect eg) source
      (\<lambda>n. foldE (merge_step put deref checked ctor source) [0..<n] (target, eg)) n"
proof (induction n)
  case 0
  show ?case using target by (simp add: merged_def)
next
  case (Suc n)
  let ?f = "foldE (merge_step put deref checked ctor source)" and ?d = "deref \<and> \<not> f_packed source"
  let ?g = "foldl (merge_entry aput ?d) (elems target, indirect eg)"
  have n: "n < nNumUsed source" using Suc.prems by simp
  note IH = Suc.IH [OF less_imp_le [OF n]] and b = before_pos_Suc [OF n]
  have up: "?f [0..<Suc n] (target, eg) = bindE (?f [0..<n] (target, eg)) (\<lambda>st. merge_step put deref checked ctor source st n)"
    by (simp add: foldE_append bindE_def split: sum.split)
  show ?case
  proof (cases "?f [0..<n] (target, eg)")
    case (Inl e)
    note IH' = IH [unfolded merged_def Inl sum.case]
    from conjunct2 [OF IH'] obtain m ht eg1 where m: "m < n" "?f [0..<m] (target, eg) = Inr (ht, eg1)"
      "?f [0..<Suc m] (target, eg) = Inl e" "at_limit ht" "(elems ht, indirect eg1) = ?g (before_pos source m)" by (elim exE conjE)
    have "?f [0..<Suc n] (target, eg) = Inl e" unfolding up Inl by simp
    moreover have "\<exists>m < Suc n. \<exists>ht eg1. ?f [0..<m] (target, eg) = Inr (ht, eg1) \<and>
        ?f [0..<Suc m] (target, eg) = Inl e \<and> at_limit ht \<and> (elems ht, indirect eg1) = ?g (before_pos source m)"
      using m by (intro exI [of _ m] exI [of _ ht] exI [of _ eg1] conjI) (assumption | simp)+
    ultimately show ?thesis unfolding merged_def using conjunct1 [OF IH'] by (simp del: upt_Suc)
  next
    case (Inr st)
    obtain t1 eg1 where st: "st = (t1, eg1)" by (cases st)
    have t1: "ht_inv t1" "(elems t1, indirect eg1) = ?g (before_pos source n)"
      using IH Inr st by (simp_all add: merged_def del: upt_Suc)
    have step: "?f [0..<Suc n] (target, eg) = r" if "merge_step put deref checked ctor source (t1, eg1) n = r" for r
      unfolding up Inr st bindE_Inr by (rule that)
    show ?thesis
    proof (cases "entry_at source n")
      case None
      have "merge_step put deref checked ctor source (t1, eg1) n = Inr (t1, eg1)"
        using source_entry_hole [OF inv n None] by (simp add: merge_step_def)
      from step [OF this] show ?thesis using b None t1 by (simp add: merged_def del: upt_Suc)
    next
      case (Some kv)
      obtain k v where kv: "kv = (k, v)" by (cases kv)
      define d where "d = follow ?d (indirect eg1) v"
      obtain hk where hk: "key_ok hk" "hk_hkey hk = k" "(\<exists>s. k = KStr s) \<longrightarrow> hk_key hk \<noteq> None"
        "source_entry deref source eg1 n = Inr (if d = IS_UNDEF then None else Some (hk, d))"
        by (rule source_entry_live [OF inv n Some [unfolded kv], of deref eg1, folded d_def, unfolded Let_def])
      have b': "before_pos source (Suc n) = before_pos source n @ [(k, v)]" using b Some kv by simp
      have spec: "?g (before_pos source (Suc n)) =
          (if d = IS_UNDEF then (elems t1, indirect eg1) else aput (elems t1, indirect eg1) k d)"
        using b' t1(2) by (simp add: merge_entry_def d_def flip: t1(2))
      show ?thesis
      proof (cases "d = IS_UNDEF")
        case True
        then have "merge_step put deref checked ctor source (t1, eg1) n = Inr (t1, eg1)"
          using hk(4) by (simp add: merge_step_def)
        from step [OF this] show ?thesis using True t1(1) spec by (simp add: merged_def del: upt_Suc)
      next
        case False
        have "k \<in> fst ` set (elems source)" using n Some kv by (intro entry_key_mem) auto
        then have "ok hk" using keys hk(1-3) by simp
        then have put: "case put hk d t1 eg1 of
            Inl e \<Rightarrow> (e = FatalOverflow \<or> e = AssertFailed) \<and> at_limit t1
          | Inr (ht, eg', l) \<Rightarrow> ht_inv ht \<and> (elems ht, indirect eg') = aput (elems t1, indirect eg1) k d \<and> (checked \<or> l \<noteq> None)"
          using puts False t1(1) hk(2) unfolding puts_def by blast
        show ?thesis
        proof (cases "put hk d t1 eg1")
          case (Inl e)
          then have e: "(e = FatalOverflow \<or> e = AssertFailed) \<and> at_limit t1" using put by simp
          have "merge_step put deref checked ctor source (t1, eg1) n = Inl e"
            using hk(4) False Inl by (simp add: merge_step_def)
          note fails = step [OF this]
          have "\<exists>m < Suc n. \<exists>ht eg'. ?f [0..<m] (target, eg) = Inr (ht, eg') \<and> ?f [0..<Suc m] (target, eg) = Inl e \<and>
              at_limit ht \<and> (elems ht, indirect eg') = ?g (before_pos source m)"
            using \<open>?f [0..<n] (target, eg) = Inr st\<close> st fails e t1(2) by (intro exI [of _ n] exI [of _ t1] exI [of _ eg1]) simp
          then show ?thesis unfolding merged_def fails sum.case using e by blast
        next
          case ok: (Inr r)
          obtain ht eg2 l where r: "r = (ht, eg2, l)" by (cases r)
          obtain eg3 where "call_ctor ctor checked (ht, eg2, l) = Inr (ht, eg3)" "indirect eg3 = indirect eg2"
            using put ok r call_ctor_ok [of checked l ctor ht eg2] by auto
          then have "merge_step put deref checked ctor source (t1, eg1) n = Inr (ht, eg3)" "indirect eg3 = indirect eg2"
            using hk(4) False ok r by (simp_all add: merge_step_def)
          then show ?thesis using step [of "Inr (ht, eg3)"] False ok r put spec by (simp add: merged_def del: upt_Suc)
        qed
      qed
    qed
  qed
qed

subsection \<open>The ways to put an entry\<close>

lemma present_flags [simp]:
  "\<not> has_flag HASH_UPDATE HASH_LOOKUP" "\<not> has_flag HASH_UPDATE HASH_ADD" "\<not> has_flag HASH_UPDATE HASH_ADD_NEW"
  "\<not> has_flag HASH_UPDATE HASH_UPDATE_INDIRECT" "\<not> has_flag HASH_UPDATE HASH_ADD_NEXT"
  "\<not> has_flag HASH_ADD HASH_LOOKUP" "has_flag HASH_ADD HASH_ADD" "\<not> has_flag HASH_ADD HASH_ADD_NEW"
  "\<not> has_flag HASH_ADD HASH_ADD_NEXT"
  "\<not> has_flag (HASH_UPDATE OR HASH_UPDATE_INDIRECT) HASH_LOOKUP" "\<not> has_flag (HASH_UPDATE OR HASH_UPDATE_INDIRECT) HASH_ADD"
  "\<not> has_flag (HASH_UPDATE OR HASH_UPDATE_INDIRECT) HASH_ADD_NEW"
  "has_flag (HASH_UPDATE OR HASH_UPDATE_INDIRECT) HASH_UPDATE_INDIRECT"
  "\<not> has_flag (HASH_ADD OR HASH_UPDATE_INDIRECT) HASH_LOOKUP" "has_flag (HASH_ADD OR HASH_UPDATE_INDIRECT) HASH_ADD"
  "\<not> has_flag (HASH_ADD OR HASH_UPDATE_INDIRECT) HASH_ADD_NEW"
  "has_flag (HASH_ADD OR HASH_UPDATE_INDIRECT) HASH_UPDATE_INDIRECT"
  "\<not> new_next HASH_UPDATE" "\<not> new_next HASH_ADD"
  by (simp_all add: has_flag_def new_next_def flag_defs)

text \<open>What \<open>puts\<close> asks of one call.\<close>

definition put_ok :: "bool \<Rightarrow> HashTable \<Rightarrow> mstate \<Rightarrow> error + (HashTable \<times> executor_globals \<times> zloc option) \<Rightarrow> bool" where
  "put_ok checked target st r \<longleftrightarrow>
     (case r of
        Inl e \<Rightarrow> (e = FatalOverflow \<or> e = AssertFailed) \<and> at_limit target
      | Inr (ht, eg', l) \<Rightarrow> ht_inv ht \<and> (elems ht, indirect eg') = st \<and> (checked \<or> l \<noteq> None))"

lemma putsI:
  "(\<And>hk d target eg. ok hk \<Longrightarrow> d \<noteq> IS_UNDEF \<Longrightarrow> ht_inv target \<Longrightarrow>
      put_ok checked target (aput (elems target, indirect eg) (hk_hkey hk) d) (put hk d target eg)) \<Longrightarrow>
    puts ok checked put aput"
  unfolding puts_def put_ok_def by blast

lemma inserted_put_ok:
  assumes "ht_inv target" "inserted target eg k v evs r"
  shows "put_ok checked target (elems target @ [(k, v)], indirect eg) r"
  using assms by (auto simp: put_ok_def inserted_def at_limit_def split: sum.splits)

lemma index_inserted_put_ok:
  assumes "ht_inv target" "index_inserted target eg h v r"
  shows "put_ok checked target (elems target @ [(KNum h, v)], indirect eg) r"
  using assms eg_same_fields(2) by (fastforce simp: put_ok_def index_inserted_def at_limit_def split: sum.splits)

lemma replaced_put_ok:
  "replaced target eg k w v r \<Longrightarrow> put_ok checked target (AList.update k v (elems target), indirect eg) r"
  by (auto simp: put_ok_def replaced_def)

lemma update_absent: "map_of xs k = None \<Longrightarrow> AList.update k v xs = xs @ [(k, v)]"
  by (simp add: map_of_eq_None_iff update_notin [where ys = "[]", simplified])

lemma index_update_put_ok:
  assumes "ht_inv target" "v \<noteq> IS_UNDEF"
  shows "put_ok checked target (AList.update (KNum h) v (elems target), indirect eg) (zend_hash_index_update target h v eg)"
proof (cases "map_of (elems target) (KNum h)")
  case None
  then have "index_inserted target eg h v (zend_hash_index_update target h v eg)"
    using index_absent [OF assms(1), of HASH_UPDATE v h eg] assms(2)
    by (simp add: zend_hash_index_update_def index_key_def lookup_val_def)
  then show ?thesis using index_inserted_put_ok [OF assms(1)] update_absent [OF None] by simp
next
  case (Some w)
  then have "replaced target eg (KNum h) w v (zend_hash_index_update target h v eg)"
    using index_present [OF assms(1), of h HASH_UPDATE w v eg] assms(2)
    by (simp add: zend_hash_index_update_def index_key_def index_present_effect_def)
  then show ?thesis by (rule replaced_put_ok)
qed

lemma update_put_ok:
  assumes "ht_inv target" "str_ok key" "v \<noteq> IS_UNDEF"
  shows "put_ok checked target (AList.update (KStr (zs_val key)) v (elems target), indirect eg) (zend_hash_update target key v eg)"
proof (cases "map_of (elems target) (KStr (zs_val key))")
  case None
  then show ?thesis
    using inserted_put_ok [OF assms(1) add_or_update_absent [OF assms(1,2) None, of HASH_UPDATE v eg]] assms(3)
      update_absent [OF None] by (simp add: zend_hash_update_def)
next
  case (Some w)
  then have "replaced target eg (KStr (zs_val key)) w v (zend_hash_update target key v eg)"
    using add_or_update_present [OF assms(1,2) Some, of HASH_UPDATE v eg] assms(3)
    by (cases w) (simp_all add: zend_hash_update_def present_effect_def)
  then show ?thesis by (rule replaced_put_ok)
qed

lemma copy_puts: "puts key_ok checked copy_put update_entry"
proof (rule putsI)
  fix hk d target eg
  assume "key_ok hk" "d \<noteq> IS_UNDEF" "ht_inv target"
  then show "put_ok checked target (update_entry (elems target, indirect eg) (hk_hkey hk) d) (copy_put hk d target eg)"
    using update_put_ok index_update_put_ok
    by (cases "hk_key hk") (simp_all add: copy_put_def update_entry_def hk_hkey_def key_ok_def)
qed

lemma present_ind_put_ok:
  assumes "ht_inv target" "present_effect flag target eg k w v r" "has_flag flag HASH_UPDATE_INDIRECT" "\<not> has_flag flag HASH_LOOKUP"
    "map_of (elems target) k = Some w" "checked \<or> \<not> has_flag flag HASH_ADD"
    "st = (case w of
        IS_INDIRECT a \<Rightarrow>
          if has_flag flag HASH_ADD \<and> indirect eg a \<noteq> IS_UNDEF then (elems target, indirect eg)
          else (elems target, (indirect eg)(a := v))
      | _ \<Rightarrow> if has_flag flag HASH_ADD then (elems target, indirect eg)
             else (AList.update k v (elems target), indirect eg))"
  shows "put_ok checked target st r"
proof -
  have none: "put_ok checked target (elems target, indirect eg) (Inr (target, eg, None))" if checked
    using assms(1) that by (simp add: put_ok_def)
  have rep: "replaced target eg k w v r \<Longrightarrow> put_ok checked target (AList.update k v (elems target), indirect eg) r"
    by (rule replaced_put_ok)
  have ind: "put_ok checked target (elems target, (indirect eg)(a := v)) (indirect_stored target eg a v)" for a
    using assms(1) by (simp add: put_ok_def indirect_stored_def)
  show ?thesis
    using assms(2-7) none rep ind
    by (cases w) (auto simp: present_effect_def split: if_splits)
qed

lemma overwrite_puts: "puts key_ok checked overwrite_put update_entry_ind"
proof (rule putsI)
  fix hk d target eg
  assume a: "key_ok hk" "d \<noteq> IS_UNDEF" "ht_inv target"
  let ?flag = "HASH_UPDATE OR HASH_UPDATE_INDIRECT"
  show "put_ok checked target (update_entry_ind (elems target, indirect eg) (hk_hkey hk) d) (overwrite_put hk d target eg)"
  proof (cases "hk_key hk")
    case None
    then show ?thesis using index_update_put_ok a(2,3)
      by (simp add: overwrite_put_def update_entry_ind_def update_entry_def hk_hkey_def)
  next
    case (Some key)
    then have key: "str_ok key" using a(1) by (simp add: key_ok_def)
    have r: "overwrite_put hk d target eg = zend_hash_add_or_update_i target key d ?flag eg"
      using Some by (simp add: overwrite_put_def)
    show ?thesis
    proof (cases "map_of (elems target) (KStr (zs_val key))")
      case None
      from add_or_update_absent [OF a(3) key None, of ?flag d eg] a(2)
      have "inserted target eg (KStr (zs_val key)) d (key_events (zend_string_hash_val key)) (overwrite_put hk d target eg)"
        unfolding r by simp
      from inserted_put_ok [OF a(3) this] show ?thesis
        using Some None update_absent [OF None] by (simp add: update_entry_ind_def update_entry_def hk_hkey_def)
    next
      case present: (Some w)
      from add_or_update_present [OF a(3) key present, of ?flag d eg] a(2)
      have "present_effect ?flag target eg (KStr (zs_val key)) w d (overwrite_put hk d target eg)" unfolding r by simp
      then show ?thesis
        by (rule present_ind_put_ok [OF a(3) _ _ _ present])
          (use Some present in \<open>cases w; simp add: update_entry_ind_def update_entry_def hk_hkey_def\<close>)+
    qed
  qed
qed

lemma add_puts: "puts key_ok True add_put add_entry_ind"
proof (rule putsI)
  fix hk d target eg
  assume a: "key_ok hk" "d \<noteq> IS_UNDEF" "ht_inv target"
  let ?flag = "HASH_ADD OR HASH_UPDATE_INDIRECT"
  show "put_ok True target (add_entry_ind (elems target, indirect eg) (hk_hkey hk) d) (add_put hk d target eg)"
  proof (cases "hk_key hk")
    case None
    then have r: "add_put hk d target eg = zend_hash_index_add_or_update_i target (hk_h hk) d HASH_ADD eg"
      by (simp add: add_put_def zend_hash_index_add_def)
    show ?thesis
    proof (cases "map_of (elems target) (KNum (hk_h hk))")
      case absent: None
      from index_absent [OF a(3), of HASH_ADD d "hk_h hk" eg] a(2) absent
      have "index_inserted target eg (hk_h hk) d (add_put hk d target eg)"
        unfolding r by (simp add: index_key_def lookup_val_def)
      from index_inserted_put_ok [OF a(3) this] show ?thesis
        using None absent by (simp add: add_entry_ind_def hk_hkey_def)
    next
      case (Some w)
      from index_present [OF a(3), of "hk_h hk" HASH_ADD w d eg] a(2) Some
      have "add_put hk d target eg = Inr (target, eg, None)"
        unfolding r by (simp add: index_key_def index_present_effect_def)
      then show ?thesis using None Some a(3)
        by (cases w) (simp_all add: add_entry_ind_def hk_hkey_def put_ok_def)
    qed
  next
    case (Some key)
    then have key: "str_ok key" using a(1) by (simp add: key_ok_def)
    have r: "add_put hk d target eg = zend_hash_add_or_update_i target key d ?flag eg"
      using Some by (simp add: add_put_def)
    show ?thesis
    proof (cases "map_of (elems target) (KStr (zs_val key))")
      case None
      from add_or_update_absent [OF a(3) key None, of ?flag d eg] a(2)
      have "inserted target eg (KStr (zs_val key)) d (key_events (zend_string_hash_val key)) (add_put hk d target eg)"
        unfolding r by simp
      from inserted_put_ok [OF a(3) this] show ?thesis
        using Some None by (simp add: add_entry_ind_def hk_hkey_def)
    next
      case present: (Some w)
      from add_or_update_present [OF a(3) key present, of ?flag d eg] a(2)
      have "present_effect ?flag target eg (KStr (zs_val key)) w d (add_put hk d target eg)" unfolding r by simp
      then show ?thesis
        by (rule present_ind_put_ok [OF a(3) _ _ _ present])
          (use Some present in \<open>cases w; simp add: add_entry_ind_def hk_hkey_def\<close>)+
    qed
  qed
qed

lemma checked_puts:
  assumes "\<And>ht d hk. ht_inv ht \<Longrightarrow> check ht d hk = acheck (elems ht) d (hk_hkey hk)"
  shows "puts (\<lambda>hk. key_ok hk \<and> hk_key hk \<noteq> None) True (checked_put check)
    (\<lambda>st k v. if acheck (fst st) v k then update_entry st k v else st)"
proof (rule putsI)
  fix hk d target eg
  assume a: "key_ok hk \<and> hk_key hk \<noteq> None" "d \<noteq> IS_UNDEF" "ht_inv target"
  then obtain key where key: "hk_key hk = Some key" "str_ok key" by (auto simp: key_ok_def)
  have hk: "zend_hash_replace_checker_wrapper target d (hk_h hk) (hk_key hk) check = check target d hk"
    by (cases hk) (simp add: zend_hash_replace_checker_wrapper_def)
  have upd: "put_ok True target (update_entry (elems target, indirect eg) (hk_hkey hk) d) (zend_hash_update target key d eg)"
    using update_put_ok [OF a(3) key(2) a(2)] key(1) by (simp add: update_entry_def hk_hkey_def)
  have keep: "put_ok True target (elems target, indirect eg) (Inr (target, eg, None))"
    using a(3) by (simp add: put_ok_def)
  show "put_ok True target
      (if acheck (fst (elems target, indirect eg)) d (hk_hkey hk)
       then update_entry (elems target, indirect eg) (hk_hkey hk) d else (elems target, indirect eg))
      (checked_put check hk d target eg)"
    unfolding checked_put_def hk using upd keep assms [OF a(3), of d hk] by (simp add: key(1))
qed

subsection \<open>The operations\<close>

text \<open>A run over the first places of a source is a run over the source cut off there.\<close>

lemma cut_off [simp]: "merge_step put deref checked ctor (source\<lparr>nNumUsed := n\<rparr>) = merge_step put deref checked ctor source"
proof -
  have "source_entry deref (source\<lparr>nNumUsed := n\<rparr>) = source_entry deref source"
    by (intro ext) (simp add: source_entry_def)
  then show ?thesis by (intro ext) (simp only: merge_step_def)
qed

lemma copy_spec:
  assumes "ht_inv target" "ht_inv source"
  shows "merged update_entry (\<not> f_packed source) (elems target, indirect eg) source
    (\<lambda>n. zend_hash_copy target (source\<lparr>nNumUsed := n\<rparr>) ctor eg) (nNumUsed source)"
  using merge_loop [OF copy_puts assms(2) _ assms(1) order.refl, where deref = True and eg = eg]
  by (simp add: zend_hash_copy_def)

lemma merge_spec:
  assumes "ht_inv target" "ht_inv source"
  shows "merged (if overwrite then update_entry_ind else add_entry_ind) (\<not> f_packed source)
    (elems target, indirect eg) source
    (\<lambda>n. zend_hash_merge target (source\<lparr>nNumUsed := n\<rparr>) ctor overwrite eg) (nNumUsed source)"
  using merge_loop [OF overwrite_puts assms(2) _ assms(1) order.refl, where deref = True and eg = eg]
    merge_loop [OF add_puts assms(2) _ assms(1) order.refl, where deref = True and eg = eg]
  by (simp add: zend_hash_merge_def)

lemma merge_ex_spec:
  assumes "ht_inv target" "ht_inv source" "\<not> f_packed source"
    and strings: "\<forall>kv\<in>set (elems source). \<exists>s. fst kv = KStr s"
    and check: "\<And>ht d hk. ht_inv ht \<Longrightarrow> check ht d hk = acheck (elems ht) d (hk_hkey hk)"
  shows "merged (\<lambda>st k v. if acheck (fst st) v k then update_entry st k v else st) False
    (elems target, indirect eg) source
    (\<lambda>n. zend_hash_merge_ex target (source\<lparr>nNumUsed := n\<rparr>) ctor check eg) (nNumUsed source)"
proof -
  have "key_ok hk \<and> hk_key hk \<noteq> None"
    if "key_ok hk" "hk_hkey hk \<in> fst ` set (elems source)" "(\<exists>s. hk_hkey hk = KStr s) \<longrightarrow> hk_key hk \<noteq> None" for hk
    using that strings by force
  from merge_loop [OF checked_puts [where check = check and acheck = acheck, OF check] assms(2) this assms(1) order.refl, where deref = False and eg = eg]
  show ?thesis using assms(3) by (simp add: zend_hash_merge_ex_def)
qed

end
