(* ===== verification/HashIterReg.thy ===== *)
theory HashIterReg
  imports HashTraverse
begin

text \<open>
  The registry of iterators itself: adding, locating and deleting them, and the rings of
  copies by which an iterator finds its table again after the table was separated
  (\<open>Zend/zend_hash.c\<close>). A table counts its iterators in one byte that sticks at 255; the
  tables that iterators point to are a map from addresses.
\<close>

subsection \<open>Counts\<close>

type_synonym heap = "nat \<Rightarrow> HashTable"

definition HT_ITERATORS_OVERFLOW :: "HashTable \<Rightarrow> bool" where
  "HT_ITERATORS_OVERFLOW ht \<longleftrightarrow> nIteratorsCount ht = 0xff"

definition HT_INC_ITERATORS_COUNT :: "HashTable \<Rightarrow> HashTable" where
  "HT_INC_ITERATORS_COUNT ht = ht\<lparr>nIteratorsCount := (nIteratorsCount ht + 1) mod 256\<rparr>"

definition HT_DEC_ITERATORS_COUNT :: "HashTable \<Rightarrow> HashTable" where
  "HT_DEC_ITERATORS_COUNT ht = ht\<lparr>nIteratorsCount := (nIteratorsCount ht + 255) mod 256\<rparr>"

text \<open>
  \<open>if (!HT_ITERATORS_OVERFLOW(ht)) HT_INC_ITERATORS_COUNT(ht)\<close>, and its converse for the table an
  iterator is on, if it is on one.
\<close>

definition inc_count :: "nat \<Rightarrow> heap \<Rightarrow> heap" where
  "inc_count a hp = (if \<not> HT_ITERATORS_OVERFLOW (hp a) then hp(a := HT_INC_ITERATORS_COUNT (hp a)) else hp)"

definition dec_count :: "iter_target \<Rightarrow> heap \<Rightarrow> heap" where
  "dec_count t hp =
     (case t of
        IterHT a \<Rightarrow> if \<not> HT_ITERATORS_OVERFLOW (hp a) then hp(a := HT_DEC_ITERATORS_COUNT (hp a)) else hp
      | _ \<Rightarrow> hp)"

subsection \<open>Adding an iterator\<close>

fun find_free :: "HashTableIterator list \<Rightarrow> nat \<Rightarrow> nat option" where
  "find_free [] i = None"
| "find_free (iter # its) i = (if it_ht iter = IterNull then Some i else find_free its (i + 1))"

definition zend_hash_iterator_add :: "nat \<Rightarrow> nat \<Rightarrow> executor_globals \<times> heap
    \<Rightarrow> (executor_globals \<times> heap) \<times> nat" where
  "zend_hash_iterator_add ht pos st =
     (case st of (eg, hp) \<Rightarrow>
        let hp = inc_count ht hp in
        case find_free (ht_iterators eg) 0 of
          Some idx \<Rightarrow>
            let its = (ht_iterators eg)[idx := \<lparr>it_ht = IterHT ht, it_pos = pos, it_next_copy = idx\<rparr>]
            in ((eg\<lparr>ht_iterators := its,
                    ht_iterators_used := (if idx + 1 > ht_iterators_used eg then idx + 1 else ht_iterators_used eg)\<rparr>, hp), idx)
        | None \<Rightarrow>
            let idx = length (ht_iterators eg);
                its = ht_iterators eg @ \<lparr>it_ht = IterHT ht, it_pos = pos, it_next_copy = idx\<rparr>
                  # replicate 7 \<lparr>it_ht = IterNull, it_pos = 0, it_next_copy = 0\<rparr>
            in ((eg\<lparr>ht_iterators := its, ht_iterators_used := idx + 1\<rparr>, hp), idx))"

subsection \<open>Deleting an iterator\<close>

text \<open>The part of a deletion before and after the removal of the copies.\<close>

definition release_iter :: "nat \<Rightarrow> executor_globals \<times> heap \<Rightarrow> error + (executor_globals \<times> heap)" where
  "release_iter idx st =
     (case st of (eg, hp) \<Rightarrow>
        bindE (rdi (ht_iterators eg) idx) (\<lambda>iter.
        assertE (case it_ht iter of IterHT a \<Rightarrow> nIteratorsCount (hp a) \<noteq> 0 | _ \<Rightarrow> True) (\<lambda>_.
          Inr (eg\<lparr>ht_iterators := (ht_iterators eg)[idx := iter\<lparr>it_ht := IterNull\<rparr>]\<rparr>,
               dec_count (it_ht iter) hp))))"

fun used_below :: "HashTableIterator list \<Rightarrow> nat \<Rightarrow> nat" where
  "used_below its 0 = 0"
| "used_below its (Suc idx) = (if it_ht (its ! idx) = IterNull then used_below its idx else Suc idx)"

definition trim_registry :: "nat \<Rightarrow> executor_globals \<Rightarrow> executor_globals" where
  "trim_registry idx eg =
     (if idx + 1 = ht_iterators_used eg
      then eg\<lparr>ht_iterators_used := used_below (ht_iterators eg) idx\<rparr> else eg)"

text \<open>
  \<open>zend_hash_iterator_del\<close> and the loop of \<open>zend_hash_remove_iterator_copies\<close> call each other;
  the loop first makes each copy its own successor, so the inner deletions do not recurse.
\<close>

fun iterator_del :: "nat \<Rightarrow> nat \<Rightarrow> executor_globals \<times> heap \<Rightarrow> error + (executor_globals \<times> heap)"
  and copies_loop :: "nat \<Rightarrow> nat \<Rightarrow> nat \<Rightarrow> executor_globals \<times> heap \<Rightarrow> error + (executor_globals \<times> heap)" where
  "iterator_del 0 idx st = Inl NoReturn"
| "iterator_del (Suc fuel) idx st =
     bindE (release_iter idx st) (\<lambda>(eg, hp).
     bindE (rdi (ht_iterators eg) idx) (\<lambda>iter.
     bindE (if it_next_copy iter \<noteq> idx then copies_loop fuel idx (it_next_copy iter) (eg, hp) else Inr (eg, hp))
       (\<lambda>(eg, hp). Inr (trim_registry idx eg, hp))))"
| "copies_loop 0 idx next_idx st = Inl NoReturn"
| "copies_loop (Suc fuel) idx next_idx st =
     (case st of (eg, hp) \<Rightarrow>
        if next_idx \<noteq> idx then
          bindE (rdi (ht_iterators eg) next_idx) (\<lambda>cur_iter.
          bindE (iterator_del fuel next_idx
              (eg\<lparr>ht_iterators := (ht_iterators eg)[next_idx := cur_iter\<lparr>it_next_copy := next_idx\<rparr>]\<rparr>, hp))
            (copies_loop fuel idx (it_next_copy cur_iter)))
        else
          bindE (rdi (ht_iterators eg) idx) (\<lambda>iter.
            Inr (eg\<lparr>ht_iterators := (ht_iterators eg)[idx := iter\<lparr>it_next_copy := idx\<rparr>]\<rparr>, hp)))"

definition zend_hash_remove_iterator_copies :: "nat \<Rightarrow> executor_globals \<times> heap
    \<Rightarrow> error + (executor_globals \<times> heap)" where
  "zend_hash_remove_iterator_copies idx st =
     (case st of (eg, hp) \<Rightarrow>
        bindE (rdi (ht_iterators eg) idx) (\<lambda>iter.
          copies_loop (length (ht_iterators eg) + 2) idx (it_next_copy iter) (eg, hp)))"

definition zend_hash_iterator_del :: "nat \<Rightarrow> executor_globals \<times> heap \<Rightarrow> error + (executor_globals \<times> heap)" where
  "zend_hash_iterator_del idx st = iterator_del (length (ht_iterators (fst st)) + 3) idx st"

subsection \<open>Locating an iterator\<close>

fun find_copy :: "nat \<Rightarrow> HashTableIterator list \<Rightarrow> nat \<Rightarrow> nat \<Rightarrow> nat \<Rightarrow> error + nat option" where
  "find_copy 0 its ht idx next_idx = Inl NoReturn"
| "find_copy (Suc fuel) its ht idx next_idx =
     (if next_idx \<noteq> idx then
        bindE (rdi its next_idx) (\<lambda>copy_iter.
          if it_ht copy_iter = IterHT ht then Inr (Some next_idx)
          else find_copy fuel its ht idx (it_next_copy copy_iter))
      else Inr None)"

text \<open>An iterator leaves its table for another one, at a position.\<close>

definition retarget :: "nat \<Rightarrow> nat \<Rightarrow> nat \<Rightarrow> executor_globals \<times> heap \<Rightarrow> error + (executor_globals \<times> heap)" where
  "retarget idx ht pos st =
     (case st of (eg, hp) \<Rightarrow>
        bindE (rdi (ht_iterators eg) idx) (\<lambda>iter.
          Inr (eg\<lparr>ht_iterators := (ht_iterators eg)[idx := iter\<lparr>it_ht := IterHT ht, it_pos := pos\<rparr>]\<rparr>,
               inc_count ht (dec_count (it_ht iter) hp))))"

definition zend_hash_iterator_find_copy_pos :: "nat \<Rightarrow> nat \<Rightarrow> executor_globals \<times> heap
    \<Rightarrow> error + ((executor_globals \<times> heap) \<times> bool)" where
  "zend_hash_iterator_find_copy_pos idx ht st =
     (case st of (eg, hp) \<Rightarrow>
        bindE (rdi (ht_iterators eg) idx) (\<lambda>iter.
          if it_next_copy iter \<noteq> idx then
            bindE (find_copy (length (ht_iterators eg) + 1) (ht_iterators eg) ht idx (it_next_copy iter)) (\<lambda>r.
              case r of
                Some c \<Rightarrow>
                  bindE (rdi (ht_iterators eg) c) (\<lambda>copy_iter.
                  bindE (retarget idx ht (it_pos copy_iter) (eg, hp)) (\<lambda>st.
                  bindE (zend_hash_remove_iterator_copies idx st) (\<lambda>st. Inr (st, True))))
              | None \<Rightarrow>
                  bindE (zend_hash_remove_iterator_copies idx (eg, hp)) (\<lambda>st. Inr (st, False)))
          else Inr ((eg, hp), False)))"

definition zend_hash_iterator_pos :: "nat \<Rightarrow> nat \<Rightarrow> executor_globals \<times> heap
    \<Rightarrow> error + ((executor_globals \<times> heap) \<times> nat)" where
  "zend_hash_iterator_pos idx ht st =
     bindE (rdi (ht_iterators (fst st)) idx) (\<lambda>iter.
     bindE
       (if it_ht iter \<noteq> IterHT ht then
          bindE (zend_hash_iterator_find_copy_pos idx ht st) (\<lambda>(st, found).
            if \<not> found then
              bindE (zend_hash_get_current_pos (snd st ht)) (\<lambda>pos. retarget idx ht pos st)
            else Inr st)
        else Inr st)
       (\<lambda>st. bindE (rdi (ht_iterators (fst st)) idx) (\<lambda>iter. Inr (st, it_pos iter))))"

subsection \<open>The invariant of the registry\<close>

definition on_table :: "HashTableIterator list \<Rightarrow> nat \<Rightarrow> nat" where
  "on_table its a = length (filter (\<lambda>it. it_ht it = IterHT a) its)"

text \<open>A table's count is exact unless it has stuck at 255.\<close>

definition counts_ok :: "HashTableIterator list \<Rightarrow> heap \<Rightarrow> bool" where
  "counts_ok its hp \<longleftrightarrow>
     (\<forall>a. nIteratorsCount (hp a) \<le> 255 \<and> (nIteratorsCount (hp a) = 255 \<or> nIteratorsCount (hp a) = on_table its a))"

definition live_iter :: "HashTableIterator list \<Rightarrow> nat \<Rightarrow> bool" where
  "live_iter its i \<longleftrightarrow> i < length its \<and> it_ht (its ! i) \<noteq> IterNull"

definition succ_iter :: "HashTableIterator list \<Rightarrow> nat \<Rightarrow> nat" where
  "succ_iter its i = it_next_copy (its ! i)"

text \<open>The successors permute the live iterators, so every one lies on a ring.\<close>

definition rings_ok :: "HashTableIterator list \<Rightarrow> bool" where
  "rings_ok its \<longleftrightarrow>
     (\<forall>i. live_iter its i \<longrightarrow> live_iter its (succ_iter its i)) \<and> inj_on (succ_iter its) {i. live_iter its i}"

definition used_ok :: "HashTableIterator list \<Rightarrow> nat \<Rightarrow> bool" where
  "used_ok its n \<longleftrightarrow> n \<le> length its \<and> (\<forall>i. live_iter its i \<longrightarrow> i < n)"

definition reg_mid :: "executor_globals \<times> heap \<Rightarrow> bool" where
  "reg_mid st \<longleftrightarrow> used_ok (ht_iterators (fst st)) (ht_iterators_used (fst st)) \<and> counts_ok (ht_iterators (fst st)) (snd st)"

definition reg_ok :: "executor_globals \<times> heap \<Rightarrow> bool" where
  "reg_ok st \<longleftrightarrow> reg_mid st \<and> rings_ok (ht_iterators (fst st))"

text \<open>What all passes over the registry rest on: a table with the count 0 has no iterator.\<close>

lemma no_count_no_iterator:
  assumes "reg_ok (eg, hp)" "\<not> HT_HAS_ITERATORS (hp a)" "i < length (ht_iterators eg)"
  shows "it_ht (ht_iterators eg ! i) \<noteq> IterHT a"
proof -
  have "on_table (ht_iterators eg) a = 0"
    using assms(1,2) by (auto simp: reg_ok_def reg_mid_def counts_ok_def HT_HAS_ITERATORS_def dest: spec [of _ a])
  then show ?thesis using assms(3) by (auto simp: on_table_def filter_empty_conv)
qed

lemma live_below_used: "reg_mid (eg, hp) \<Longrightarrow> live_iter (ht_iterators eg) i \<Longrightarrow> i < ht_iterators_used eg"
  by (simp add: reg_mid_def used_ok_def)

subsection \<open>Counting\<close>

lemma on_table_simps [simp]:
  "on_table [] a = 0" "on_table (xs @ ys) a = on_table xs a + on_table ys a"
  "on_table (it # xs) a = (if it_ht it = IterHT a then 1 else 0) + on_table xs a"
  by (simp_all add: on_table_def)

lemma on_table_update:
  "i < length its \<Longrightarrow> on_table (its[i := it]) a + (if it_ht (its ! i) = IterHT a then 1 else 0) =
    on_table its a + (if it_ht it = IterHT a then 1 else 0)"
proof (induction its arbitrary: i)
  case (Cons x its)
  show ?case
  proof (cases i)
    case (Suc k)
    then show ?thesis using Cons.IH [of k] Cons.prems by simp
  qed simp
qed simp

lemma on_table_pos: "i < length its \<Longrightarrow> it_ht (its ! i) = IterHT a \<Longrightarrow> 0 < on_table its a"
  by (auto simp: on_table_def filter_empty_conv)

lemma count_upd [simp]:
  "nIteratorsCount (inc_count b hp a) =
    (if a = b \<and> nIteratorsCount (hp a) \<noteq> 255 then (nIteratorsCount (hp a) + 1) mod 256 else nIteratorsCount (hp a))"
  "nIteratorsCount (dec_count t hp a) =
    (if t = IterHT a \<and> nIteratorsCount (hp a) \<noteq> 255 then (nIteratorsCount (hp a) + 255) mod 256 else nIteratorsCount (hp a))"
  by (auto simp: inc_count_def dec_count_def HT_ITERATORS_OVERFLOW_def HT_INC_ITERATORS_COUNT_def
      HT_DEC_ITERATORS_COUNT_def split: iter_target.splits)

lemma counts_release:
  assumes "counts_ok its hp" "i < length its" "\<And>a. it_ht it \<noteq> IterHT a"
  shows "counts_ok (its[i := it]) (dec_count (it_ht (its ! i)) hp)"
  unfolding counts_ok_def
proof
  fix a
  have u: "on_table (its[i := it]) a + (if it_ht (its ! i) = IterHT a then 1 else 0) = on_table its a"
    using on_table_update [OF assms(2), of it a] assms(3) by simp
  have c: "nIteratorsCount (hp a) \<le> 255" "nIteratorsCount (hp a) = 255 \<or> nIteratorsCount (hp a) = on_table its a"
    using assms(1) by (simp_all add: counts_ok_def)
  show "nIteratorsCount (dec_count (it_ht (its ! i)) hp a) \<le> 255 \<and>
      (nIteratorsCount (dec_count (it_ht (its ! i)) hp a) = 255 \<or>
       nIteratorsCount (dec_count (it_ht (its ! i)) hp a) = on_table (its[i := it]) a)"
  proof (cases "it_ht (its ! i) = IterHT a \<and> nIteratorsCount (hp a) \<noteq> 255")
    case True
    then obtain k where "on_table its a = Suc k" "k < 255" "on_table (its[i := it]) a = k"
      using u c by (cases "on_table its a") auto
    then show ?thesis using True c(2) by simp
  next
    case False
    then show ?thesis using u c by auto
  qed
qed

lemma counts_take:
  assumes "counts_ok its hp" "i < length its" "\<And>b. it_ht (its ! i) \<noteq> IterHT b" "it_ht it = IterHT a"
  shows "counts_ok (its[i := it]) (inc_count a hp)"
  unfolding counts_ok_def
proof
  fix b
  have u: "on_table (its[i := it]) b = on_table its b + (if a = b then 1 else 0)"
    using on_table_update [OF assms(2), of it b] assms(3,4) by simp
  have c: "nIteratorsCount (hp b) \<le> 255" "nIteratorsCount (hp b) = 255 \<or> nIteratorsCount (hp b) = on_table its b"
    using assms(1) by (simp_all add: counts_ok_def)
  then show "nIteratorsCount (inc_count a hp b) \<le> 255 \<and>
      (nIteratorsCount (inc_count a hp b) = 255 \<or> nIteratorsCount (inc_count a hp b) = on_table (its[i := it]) b)"
    using u by (cases "b = a \<and> nIteratorsCount (hp b) \<noteq> 255") auto
qed

lemma counts_retarget:
  assumes "counts_ok its hp" "i < length its" "it_ht it = IterHT a"
  shows "counts_ok (its[i := it]) (inc_count a (dec_count (it_ht (its ! i)) hp))"
proof -
  let ?free = "(its ! i)\<lparr>it_ht := IterNull\<rparr>"
  have "counts_ok (its[i := ?free]) (dec_count (it_ht (its ! i)) hp)"
    using assms(1,2) by (intro counts_release) simp_all
  then have "counts_ok (its[i := ?free, i := it]) (inc_count a (dec_count (it_ht (its ! i)) hp))"
    using assms(2,3) by (intro counts_take) simp_all
  then show ?thesis by simp
qed

lemma counts_same: "counts_ok its hp \<Longrightarrow> i < length its \<Longrightarrow> it_ht it = it_ht (its ! i) \<Longrightarrow> counts_ok (its[i := it]) hp"
  using on_table_update [of i its it] by (auto simp: counts_ok_def)

subsection \<open>Adding\<close>

lemma find_free_Some: "find_free its k = Some j \<Longrightarrow> k \<le> j \<and> j < k + length its \<and> it_ht (its ! (j - k)) = IterNull"
proof (induction its arbitrary: k)
  case (Cons it its)
  show ?case
  proof (cases "it_ht it = IterNull")
    case False
    then have "Suc k \<le> j \<and> j < Suc k + length its \<and> it_ht (its ! (j - Suc k)) = IterNull"
      using Cons.IH [of "Suc k"] Cons.prems False by simp
    moreover from this obtain m where "j = Suc k + m" using le_Suc_ex by blast
    ultimately show ?thesis by simp
  qed (use Cons.prems in auto)
qed simp

text \<open>A fresh ring of one.\<close>

lemma rings_fresh:
  assumes "rings_ok its" "\<And>j. live_iter its' j \<longleftrightarrow> j = i \<or> live_iter its j" "\<not> live_iter its i"
    "\<And>j. live_iter its j \<Longrightarrow> its' ! j = its ! j" "succ_iter its' i = i"
  shows "rings_ok its'"
proof -
  have s: "succ_iter its' j = succ_iter its j" if "live_iter its j" for j
    using assms(4) [OF that] by (simp add: succ_iter_def)
  have L: "{j. live_iter its' j} = insert i {j. live_iter its j}" using assms(2) by auto
  have "inj_on (succ_iter its') {j. live_iter its j}"
    using assms(1) inj_on_cong [of "{j. live_iter its j}" "succ_iter its'" "succ_iter its"] s by (simp add: rings_ok_def)
  moreover have "succ_iter its' i \<notin> succ_iter its' ` {j. live_iter its j}"
    using assms(1,3,5) s by (auto simp: rings_ok_def)
  ultimately have "inj_on (succ_iter its') {j. live_iter its' j}" unfolding L using assms(3) by auto
  then show ?thesis using assms s by (auto simp: rings_ok_def)
qed

lemma iterator_add_spec:
  assumes "reg_ok (eg, hp)"
  obtains eg' hp' idx where "zend_hash_iterator_add a pos (eg, hp) = ((eg', hp'), idx)" "reg_ok (eg', hp')"
    "\<not> live_iter (ht_iterators eg) idx" "idx < length (ht_iterators eg')"
    "ht_iterators eg' ! idx = \<lparr>it_ht = IterHT a, it_pos = pos, it_next_copy = idx\<rparr>"
    "\<And>j. live_iter (ht_iterators eg) j \<Longrightarrow> ht_iterators eg' ! j = ht_iterators eg ! j"
    "\<And>j. live_iter (ht_iterators eg') j \<longleftrightarrow> j = idx \<or> live_iter (ht_iterators eg) j"
    "hp' = inc_count a hp" "events eg' = events eg" "indirect eg' = indirect eg"
proof (cases "find_free (ht_iterators eg) 0")
  case (Some idx)
  let ?its = "ht_iterators eg" and ?it = "\<lparr>it_ht = IterHT a, it_pos = pos, it_next_copy = idx\<rparr>"
  have f: "idx < length ?its" "it_ht (?its ! idx) = IterNull" using find_free_Some [OF Some] by simp_all
  let ?its' = "?its[idx := ?it]"
  have live: "live_iter ?its' j \<longleftrightarrow> j = idx \<or> live_iter ?its j" for j
    using f by (cases "j = idx") (simp_all add: live_iter_def)
  have nl: "\<not> live_iter ?its idx" using f by (simp add: live_iter_def)
  have "counts_ok ?its' (inc_count a hp)"
    using assms f by (intro counts_take) (simp_all add: reg_ok_def reg_mid_def)
  moreover have "rings_ok ?its'"
    by (rule rings_fresh [of ?its _ idx]) (use assms live nl f in \<open>auto simp: reg_ok_def succ_iter_def nth_list_update\<close>)
  moreover have "used_ok ?its' (if idx + 1 > ht_iterators_used eg then idx + 1 else ht_iterators_used eg)"
    using assms f live by (auto simp: reg_ok_def reg_mid_def used_ok_def less_Suc_eq dest: less_trans)
  ultimately show thesis using Some f nl live
    by (intro that [of "eg\<lparr>ht_iterators := ?its', ht_iterators_used :=
            (if idx + 1 > ht_iterators_used eg then idx + 1 else ht_iterators_used eg)\<rparr>" "inc_count a hp" idx])
      (auto simp: zend_hash_iterator_add_def reg_ok_def reg_mid_def nth_list_update)
next
  case None
  let ?its = "ht_iterators eg" and ?idx = "length (ht_iterators eg)"
  let ?it = "\<lparr>it_ht = IterHT a, it_pos = pos, it_next_copy = ?idx\<rparr>"
    and ?z = "\<lparr>it_ht = IterNull, it_pos = 0, it_next_copy = 0\<rparr>"
  define its' where "its' = ?its @ ?it # replicate 7 ?z"
  have live: "live_iter its' j \<longleftrightarrow> j = ?idx \<or> live_iter ?its j" for j
    by (auto simp: its'_def live_iter_def nth_append nth_Cons' split: if_splits)
  have nl: "\<not> live_iter ?its ?idx" by (simp add: live_iter_def)
  have nth: "its' ! ?idx = ?it" "?idx < length its'" "\<And>j. live_iter ?its j \<Longrightarrow> its' ! j = ?its ! j"
    by (simp_all add: its'_def nth_append live_iter_def)
  have "on_table (replicate n ?z) b = 0" for n b by (induction n) simp_all
  then have "counts_ok its' (inc_count a hp)"
    using assms by (auto simp: its'_def reg_ok_def reg_mid_def counts_ok_def)
  moreover have "rings_ok its'"
    by (rule rings_fresh [of ?its _ ?idx]) (use assms live nl nth in \<open>auto simp: reg_ok_def succ_iter_def\<close>)
  moreover have "used_ok its' (?idx + 1)"
    using live nth(2) by (auto simp: used_ok_def live_iter_def)
  moreover have "zend_hash_iterator_add a pos (eg, hp) =
      ((eg\<lparr>ht_iterators := its', ht_iterators_used := ?idx + 1\<rparr>, inc_count a hp), ?idx)"
    using None unfolding its'_def by (simp add: zend_hash_iterator_add_def Let_def)
  ultimately show thesis using nl live nth
    by (intro that [of "eg\<lparr>ht_iterators := its', ht_iterators_used := ?idx + 1\<rparr>" "inc_count a hp" ?idx])
      (simp_all add: reg_ok_def reg_mid_def)
qed

subsection \<open>Rings\<close>

text \<open>\<open>ring_path its idx xs n\<close>: the successors from \<open>n\<close> on are \<open>xs\<close> and then \<open>idx\<close>.\<close>

fun ring_path :: "HashTableIterator list \<Rightarrow> nat \<Rightarrow> nat list \<Rightarrow> nat \<Rightarrow> bool" where
  "ring_path its idx [] n \<longleftrightarrow> n = idx"
| "ring_path its idx (x # xs) n \<longleftrightarrow> n = x \<and> ring_path its idx xs (succ_iter its x)"

definition ring :: "HashTableIterator list \<Rightarrow> nat \<Rightarrow> nat list \<Rightarrow> bool" where
  "ring its idx xs \<longleftrightarrow>
     ring_path its idx xs (succ_iter its idx) \<and> distinct (idx # xs) \<and> (\<forall>x\<in>set (idx # xs). live_iter its x)"

lemma ring_path_cong: "(\<And>x. x \<in> set xs \<Longrightarrow> its' ! x = its ! x) \<Longrightarrow> ring_path its' idx xs n = ring_path its idx xs n"
  by (induction xs arbitrary: n) (simp_all add: succ_iter_def)

lemma ring_closed: "ring_path its idx xs n \<Longrightarrow> insert n (succ_iter its ` set xs) = insert idx (set xs)"
proof (induction xs arbitrary: n)
  case (Cons x xs)
  then show ?case using Cons.IH [of "succ_iter its x"] by auto
qed simp

lemma finite_live: "finite {i. live_iter its i}"
  by (rule finite_subset [of _ "{..<length its}"]) (auto simp: live_iter_def)

text \<open>The successors of a live iterator come back to it.\<close>

lemma ring_exists:
  assumes ok: "rings_ok its" and i: "live_iter its i"
  obtains xs where "ring its i xs" "length xs < length its"
proof -
  let ?f = "succ_iter its" and ?L = "{i. live_iter its i}"
  define g where "g n = (?f ^^ n) i" for n
  have L: "(?f ^^ n) x \<in> ?L" if "x \<in> ?L" for n x
    using that ok by (induction n) (auto simp: rings_ok_def)
  have cancel: "x \<in> ?L \<Longrightarrow> y \<in> ?L \<Longrightarrow> (?f ^^ n) x = (?f ^^ n) y \<Longrightarrow> x = y" for n x y
  proof (induction n)
    case (Suc n)
    have "inj_on ?f ?L" using ok by (simp add: rings_ok_def)
    then have "(?f ^^ n) x = (?f ^^ n) y"
      using Suc.prems(3) L [OF Suc.prems(1), of n] L [OF Suc.prems(2), of n] by (auto dest: inj_onD)
    then show ?case using Suc by blast
  qed simp
  have returns: "g (b - a) = i" if "a \<le> b" "g a = g b" for a b
  proof -
    have "(?f ^^ a) (g (b - a)) = (?f ^^ a) i"
      using that by (simp add: g_def flip: funpow_add [THEN fun_cong, simplified comp_def])
    moreover have "g (b - a) \<in> ?L" unfolding g_def using i by (intro L) simp
    ultimately show ?thesis using cancel i by blast
  qed
  have "\<not> inj g"
  proof
    assume "inj g"
    moreover have "range g \<subseteq> ?L" using L i by (auto simp: g_def)
    ultimately show False using finite_live infinite_UNIV_nat by (metis finite_imageD finite_subset)
  qed
  then obtain a b where "g a = g b" "a < b" by (metis injI linorder_neqE_nat)
  then have "0 < b - a \<and> g (b - a) = i" using returns [of a b] by simp
  then obtain n where n: "0 < n" "g n = i" "\<And>m. 0 < m \<Longrightarrow> m < n \<Longrightarrow> g m \<noteq> i"
    using exists_least_iff [of "\<lambda>n. 0 < n \<and> g n = i"] by blast
  have inj: "g a \<noteq> g b" if "a < b" "b < n" for a b
    using returns [of a b] n(3) [of "b - a"] that by force
  let ?xs = "map g [1..<n]"
  have step: "?f (g k) = g (Suc k)" for k by (simp add: g_def)
  have path: "k \<le> n \<Longrightarrow> ring_path its i (map g [k..<n]) (g k)" for k
  proof (induction "n - k" arbitrary: k)
    case 0
    then show ?case using n(2) by simp
  next
    case (Suc m)
    then have "[k..<n] = k # [Suc k..<n]" by (simp add: upt_conv_Cons)
    then show ?case using Suc step by simp
  qed
  have "distinct (map g [0..<n])"
    using inj by (auto simp: distinct_map inj_on_def) (metis linorder_neqE_nat)
  moreover have "map g [0..<n] = i # ?xs" using n(1) by (simp add: upt_conv_Cons g_def)
  ultimately have d: "distinct (i # ?xs)" by simp
  have live: "\<forall>x\<in>set (i # ?xs). live_iter its x" using L i by (auto simp: g_def)
  have "ring its i ?xs"
    using path [of 1] n(1) d live by (simp add: ring_def g_def)
  moreover have "length (i # ?xs) \<le> length its"
  proof -
    have "set (i # ?xs) \<subseteq> {..<length its}" using live by (auto simp: live_iter_def)
    then have "card (set (i # ?xs)) \<le> card {..<length its}" by (intro card_mono) auto
    then show ?thesis using distinct_card [OF d] by simp
  qed
  ultimately show thesis using that by simp
qed

text \<open>Taking a ring out, or leaving only one iterator of it, keeps the others' rings.\<close>

lemma rings_without:
  assumes ok: "rings_ok its" and r: "ring its idx xs" and len: "length its' = length its"
    and same: "\<And>j. j \<notin> set (idx # xs) \<Longrightarrow> its' ! j = its ! j"
    and gone: "\<And>x. x \<in> set xs \<Longrightarrow> \<not> live_iter its' x" "live_iter its' idx \<Longrightarrow> succ_iter its' idx = idx"
  shows "rings_ok its'"
proof -
  let ?R = "insert idx (set xs)"
  have closed: "succ_iter its ` ?R = ?R" using ring_closed [of its idx xs] r by (simp add: ring_def)
  have RL: "?R \<subseteq> {j. live_iter its j}" using r by (auto simp: ring_def)
  have inj: "inj_on (succ_iter its) {j. live_iter its j}" using ok by (simp add: rings_ok_def)
  have out: "live_iter its j \<and> succ_iter its' j = succ_iter its j \<and> succ_iter its j \<notin> ?R \<and> live_iter its' (succ_iter its j)"
    if "live_iter its' j" "j \<notin> ?R" for j
  proof -
    have l: "live_iter its j" using that same [of j] len by (simp add: live_iter_def)
    have n: "succ_iter its j \<notin> ?R"
    proof
      assume "succ_iter its j \<in> ?R"
      then obtain z where "z \<in> ?R" "succ_iter its j = succ_iter its z" using closed by (metis imageE)
      then have "j = z" using inj l RL by (auto dest: inj_onD)
      then show False using \<open>z \<in> ?R\<close> that(2) by simp
    qed
    have "live_iter its (succ_iter its j)" using ok l by (simp add: rings_ok_def)
    then have "live_iter its' (succ_iter its j)" using same [of "succ_iter its j"] n len by (simp add: live_iter_def)
    then show ?thesis using l n same [of j] that(2) by (simp add: succ_iter_def)
  qed
  have cases: "j \<notin> ?R \<or> j = idx" if "live_iter its' j" for j using that gone(1) by auto
  have "inj_on (succ_iter its') {j. live_iter its' j}"
  proof (rule inj_onI)
    fix j k
    assume a: "j \<in> {j. live_iter its' j}" "k \<in> {j. live_iter its' j}" "succ_iter its' j = succ_iter its' k"
    consider "j \<notin> ?R" "k \<notin> ?R" | "j = idx" "k = idx" | "j \<notin> ?R" "k = idx" | "j = idx" "k \<notin> ?R"
      using cases [of j] cases [of k] a(1,2) by auto
    then show "j = k"
    proof cases
      case 1
      then have "succ_iter its j = succ_iter its k" "live_iter its j" "live_iter its k"
        using out [of j] out [of k] a by auto
      then show ?thesis using inj by (auto dest: inj_onD)
    next
      case 3
      then show ?thesis using out [of j] gone(2) a by auto
    next
      case 4
      then show ?thesis using out [of k] gone(2) a by auto
    qed simp
  qed
  moreover have "live_iter its' (succ_iter its' j)" if "live_iter its' j" for j
    using cases [OF that] out [OF that] gone(2) that by auto
  ultimately show ?thesis by (simp add: rings_ok_def)
qed

subsection \<open>Deleting\<close>

text \<open>The tables change in their counts only.\<close>

definition same_tables :: "heap \<Rightarrow> heap \<Rightarrow> bool" where
  "same_tables hp hp' \<longleftrightarrow> (\<forall>a. hp' a = (hp a)\<lparr>nIteratorsCount := nIteratorsCount (hp' a)\<rparr>)"

lemma same_tables_refl [simp]: "same_tables hp hp"
  by (simp add: same_tables_def)

lemma same_tables_trans: "same_tables a b \<Longrightarrow> same_tables b c \<Longrightarrow> same_tables a c"
proof -
  assume ab: "same_tables a b" and bc: "same_tables b c"
  have "c x = (a x)\<lparr>nIteratorsCount := nIteratorsCount (c x)\<rparr>" for x
  proof -
    have "c x = (b x)\<lparr>nIteratorsCount := nIteratorsCount (c x)\<rparr>" using bc by (simp add: same_tables_def)
    also have "\<dots> = ((a x)\<lparr>nIteratorsCount := nIteratorsCount (b x)\<rparr>)\<lparr>nIteratorsCount := nIteratorsCount (c x)\<rparr>"
      using ab unfolding same_tables_def by metis
    finally show ?thesis by simp
  qed
  then show ?thesis by (simp add: same_tables_def)
qed

lemma same_tables_counts [simp]: "same_tables hp (inc_count a hp)" "same_tables hp (dec_count t hp)"
  by (auto simp: same_tables_def inc_count_def dec_count_def HT_INC_ITERATORS_COUNT_def HT_DEC_ITERATORS_COUNT_def
      split: iter_target.splits)

lemma same_tables_inv: "same_tables hp hp' \<Longrightarrow> ht_inv (hp' a) = ht_inv (hp a)"
  and same_tables_elems: "same_tables hp hp' \<Longrightarrow> elems (hp' a) = elems (hp a)"
  and same_tables_from: "same_tables hp hp' \<Longrightarrow> from_pos (hp' a) = from_pos (hp a)"
  and same_tables_pointer: "same_tables hp hp' \<Longrightarrow> nInternalPointer (hp' a) = nInternalPointer (hp a)"
proof -
  assume "same_tables hp hp'"
  then have e: "hp' a = (hp a)\<lparr>nIteratorsCount := nIteratorsCount (hp' a)\<rparr>" by (simp add: same_tables_def)
  show "ht_inv (hp' a) = ht_inv (hp a)" "elems (hp' a) = elems (hp a)" "from_pos (hp' a) = from_pos (hp a)"
    "nInternalPointer (hp' a) = nInternalPointer (hp a)"
    by (subst e, simp)+
qed

definition same_env :: "executor_globals \<times> heap \<Rightarrow> executor_globals \<times> heap \<Rightarrow> bool" where
  "same_env st st' \<longleftrightarrow>
     events (fst st') = events (fst st) \<and> indirect (fst st') = indirect (fst st) \<and>
     length (ht_iterators (fst st')) = length (ht_iterators (fst st)) \<and> same_tables (snd st) (snd st')"

lemma same_env_trans: "same_env a b \<Longrightarrow> same_env b c \<Longrightarrow> same_env a c"
  using same_tables_trans by (auto simp: same_env_def)

lemma used_below_spec: "used_below its n \<le> n \<and> (\<forall>i. used_below its n \<le> i \<longrightarrow> i < n \<longrightarrow> it_ht (its ! i) = IterNull)"
  by (induction n) (auto simp: less_Suc_eq)

lemma trim_registry_ok:
  assumes "used_ok (ht_iterators eg) (ht_iterators_used eg)" "\<not> live_iter (ht_iterators eg) idx"
  shows "used_ok (ht_iterators (trim_registry idx eg)) (ht_iterators_used (trim_registry idx eg))"
    "ht_iterators (trim_registry idx eg) = ht_iterators eg"
    "events (trim_registry idx eg) = events eg" "indirect (trim_registry idx eg) = indirect eg"
proof -
  have "i < used_below (ht_iterators eg) idx" if "live_iter (ht_iterators eg) i" "idx + 1 = ht_iterators_used eg" for i
  proof -
    have "i < idx" using that assms by (metis less_Suc_eq Suc_eq_plus1 used_ok_def)
    then show ?thesis using used_below_spec [of "ht_iterators eg" idx] that(1) by (metis live_iter_def not_le)
  qed
  then show "used_ok (ht_iterators (trim_registry idx eg)) (ht_iterators_used (trim_registry idx eg))"
    using assms(1) used_below_spec [of "ht_iterators eg" idx] by (auto simp: trim_registry_def used_ok_def)
qed (simp_all add: trim_registry_def)

lemma release_iter_ok:
  assumes "reg_mid (eg, hp)" "live_iter (ht_iterators eg) idx"
  obtains eg' hp' where "release_iter idx (eg, hp) = Inr (eg', hp')" "reg_mid (eg', hp')" "same_env (eg, hp) (eg', hp')"
    "ht_iterators eg' = (ht_iterators eg)[idx := (ht_iterators eg ! idx)\<lparr>it_ht := IterNull\<rparr>]"
    "hp' = dec_count (it_ht (ht_iterators eg ! idx)) hp"
proof -
  let ?its = "ht_iterators eg"
  let ?its' = "?its[idx := (?its ! idx)\<lparr>it_ht := IterNull\<rparr>]"
  have i: "idx < length ?its" using assms(2) by (simp add: live_iter_def)
  have "nIteratorsCount (hp a) \<noteq> 0" if "it_ht (?its ! idx) = IterHT a" for a
    using on_table_pos [OF i that] assms(1) by (auto simp: reg_mid_def counts_ok_def dest: spec [of _ a])
  then have "release_iter idx (eg, hp) = Inr (eg\<lparr>ht_iterators := ?its'\<rparr>, dec_count (it_ht (?its ! idx)) hp)"
    using i by (simp add: release_iter_def assertE_def split: iter_target.split)
  moreover have "counts_ok ?its' (dec_count (it_ht (?its ! idx)) hp)"
    using assms(1) i by (intro counts_release) (simp_all add: reg_mid_def)
  moreover have "live_iter ?its' j \<Longrightarrow> live_iter ?its j" for j
    using i by (cases "j = idx") (simp_all add: live_iter_def)
  then have "used_ok ?its' (ht_iterators_used eg)" using assms(1) by (auto simp: reg_mid_def used_ok_def)
  ultimately show thesis
    by (intro that [of "eg\<lparr>ht_iterators := ?its'\<rparr>" "dec_count (it_ht (?its ! idx)) hp"])
      (simp_all add: reg_mid_def same_env_def)
qed

lemma iterator_del_single:
  assumes "reg_mid (eg, hp)" "live_iter (ht_iterators eg) idx" "succ_iter (ht_iterators eg) idx = idx"
  obtains eg' hp' where "iterator_del (Suc fuel) idx (eg, hp) = Inr (eg', hp')" "reg_mid (eg', hp')"
    "same_env (eg, hp) (eg', hp')"
    "ht_iterators eg' = (ht_iterators eg)[idx := (ht_iterators eg ! idx)\<lparr>it_ht := IterNull\<rparr>]"
proof -
  have i: "idx < length (ht_iterators eg)" using assms(2) by (simp add: live_iter_def)
  obtain e h where r: "release_iter idx (eg, hp) = Inr (e, h)" "reg_mid (e, h)" "same_env (eg, hp) (e, h)"
    "ht_iterators e = (ht_iterators eg)[idx := (ht_iterators eg ! idx)\<lparr>it_ht := IterNull\<rparr>]"
    by (rule release_iter_ok [OF assms(1,2)])
  have dead: "\<not> live_iter (ht_iterators e) idx" using r(4) i by (simp add: live_iter_def)
  have "used_ok (ht_iterators e) (ht_iterators_used e)" using r(2) by (simp add: reg_mid_def)
  note t = trim_registry_ok [OF this dead]
  have "iterator_del (Suc fuel) idx (eg, hp) = Inr (trim_registry idx e, h)"
    using r(1,4) i assms(3) by (simp add: succ_iter_def)
  then show thesis
    by (rule that) (use r t in \<open>simp_all add: reg_mid_def same_env_def\<close>)
qed

lemma copies_loop_ok:
  "ring_path (ht_iterators eg) idx xs n \<Longrightarrow> distinct xs \<Longrightarrow> idx \<notin> set xs \<Longrightarrow>
    (\<forall>x\<in>set xs. live_iter (ht_iterators eg) x) \<Longrightarrow> idx < length (ht_iterators eg) \<Longrightarrow> reg_mid (eg, hp) \<Longrightarrow>
    length xs + 2 \<le> fuel \<Longrightarrow>
    \<exists>eg' hp'. copies_loop fuel idx n (eg, hp) = Inr (eg', hp') \<and> reg_mid (eg', hp') \<and> same_env (eg, hp) (eg', hp') \<and>
      (\<forall>x\<in>set xs. \<not> live_iter (ht_iterators eg') x) \<and>
      (\<forall>j. j \<notin> set xs \<longrightarrow> j \<noteq> idx \<longrightarrow> ht_iterators eg' ! j = ht_iterators eg ! j) \<and>
      ht_iterators eg' ! idx = (ht_iterators eg ! idx)\<lparr>it_next_copy := idx\<rparr>"
proof (induction xs arbitrary: eg hp n fuel)
  case Nil
  then obtain f where f: "fuel = Suc f" by (cases fuel) simp_all
  let ?its' = "(ht_iterators eg)[idx := (ht_iterators eg ! idx)\<lparr>it_next_copy := idx\<rparr>]"
  have "counts_ok ?its' hp" using Nil by (intro counts_same) (simp_all add: reg_mid_def)
  moreover have "live_iter ?its' j \<longleftrightarrow> live_iter (ht_iterators eg) j" for j
    using Nil by (cases "j = idx") (simp_all add: live_iter_def)
  then have "used_ok ?its' (ht_iterators_used eg)" using Nil by (simp add: reg_mid_def used_ok_def)
  ultimately show ?case using Nil f by (simp add: reg_mid_def same_env_def)
next
  case (Cons x xs)
  let ?its = "ht_iterators eg"
  obtain f where f: "fuel = Suc (Suc f)" using Cons.prems(7) by (cases fuel; cases "fuel - 1") simp_all
  have x: "n = x" "x \<noteq> idx" "x < length ?its" "live_iter ?its x" "x \<notin> set xs"
    using Cons.prems by (auto simp: live_iter_def)
  define e1 where "e1 = eg\<lparr>ht_iterators := ?its[x := (?its ! x)\<lparr>it_next_copy := x\<rparr>]\<rparr>"
  have l1: "live_iter (ht_iterators e1) j \<longleftrightarrow> live_iter ?its j" for j
    using x(3) by (cases "j = x") (simp_all add: e1_def live_iter_def)
  have "counts_ok (ht_iterators e1) hp"
    unfolding e1_def using Cons.prems(6) x(3) by (simp add: counts_same reg_mid_def)
  then have mid1: "reg_mid (e1, hp)" using Cons.prems(6) l1 x(3) by (simp add: reg_mid_def used_ok_def) (simp add: e1_def)
  have s1: "succ_iter (ht_iterators e1) x = x" using x(3) by (simp add: e1_def succ_iter_def)
  obtain e2 h2 where d: "iterator_del (Suc f) x (e1, hp) = Inr (e2, h2)" "reg_mid (e2, h2)" "same_env (e1, hp) (e2, h2)"
    "ht_iterators e2 = (ht_iterators e1)[x := (ht_iterators e1 ! x)\<lparr>it_ht := IterNull\<rparr>]"
    using iterator_del_single [OF mid1 _ s1] l1 x(4) by blast
  have nth2: "ht_iterators e2 ! j = ?its ! j" if "j \<noteq> x" for j using d(4) that by (simp add: e1_def)
  have env2: "same_env (eg, hp) (e2, h2)" using d(3) by (simp add: same_env_def e1_def)
  have eq2: "ht_iterators e2 ! y = ?its ! y" if "y \<in> set xs" for y using nth2 [of y] that x(5) by blast
  from ring_path_cong [OF this] have p2: "ring_path (ht_iterators e2) idx xs (succ_iter ?its x)"
    using Cons.prems(1) by simp
  have l2: "\<forall>y\<in>set xs. live_iter (ht_iterators e2) y"
    using Cons.prems(4) eq2 env2 by (simp add: live_iter_def same_env_def)
  have i2: "idx < length (ht_iterators e2)" using Cons.prems(5) env2 by (simp add: same_env_def)
  have "length xs + 2 \<le> Suc f" "distinct xs" "idx \<notin> set xs" using Cons.prems(2,3,7) f by simp_all
  from Cons.IH [OF p2 this(2,3) l2 i2 d(2) this(1)] obtain e3 h3 where
    r: "copies_loop (Suc f) idx (succ_iter ?its x) (e2, h2) = Inr (e3, h3)" "reg_mid (e3, h3)" "same_env (e2, h2) (e3, h3)"
    "\<forall>y\<in>set xs. \<not> live_iter (ht_iterators e3) y"
    "\<forall>j. j \<notin> set xs \<longrightarrow> j \<noteq> idx \<longrightarrow> ht_iterators e3 ! j = ht_iterators e2 ! j"
    "ht_iterators e3 ! idx = (ht_iterators e2 ! idx)\<lparr>it_next_copy := idx\<rparr>" by blast
  have res: "copies_loop fuel idx n (eg, hp) = Inr (e3, h3)"
    unfolding f using x d(1) r(1)
    by (subst copies_loop.simps(2)) (simp add: e1_def succ_iter_def del: iterator_del.simps copies_loop.simps)
  have "\<not> live_iter (ht_iterators e3) x"
    using r(5) x(2,5) d(4) x(3) by (simp add: live_iter_def e1_def)
  then show ?case using res r nth2 x(2) same_env_trans [OF env2 r(3)] by auto
qed

lemma ring_release:
  assumes "live_iter its idx" "its' = its[idx := (its ! idx)\<lparr>it_ht := IterNull\<rparr>]"
  shows "succ_iter its' j = succ_iter its j"
  using assms by (cases "j = idx") (simp_all add: succ_iter_def live_iter_def)

lemma iterator_del_spec:
  assumes ok: "reg_ok (eg, hp)" and i: "live_iter (ht_iterators eg) idx"
  obtains eg' hp' xs where "zend_hash_iterator_del idx (eg, hp) = Inr (eg', hp')" "reg_ok (eg', hp')"
    "same_env (eg, hp) (eg', hp')" "ring (ht_iterators eg) idx xs"
    "\<And>x. x \<in> set (idx # xs) \<Longrightarrow> \<not> live_iter (ht_iterators eg') x"
    "\<And>j. j \<notin> set (idx # xs) \<Longrightarrow> ht_iterators eg' ! j = ht_iterators eg ! j"
proof -
  let ?its = "ht_iterators eg"
  have mid: "reg_mid (eg, hp)" and rings: "rings_ok ?its" using ok by (simp_all add: reg_ok_def)
  obtain xs where ring: "ring ?its idx xs" and len: "length xs < length ?its" by (rule ring_exists [OF rings i])
  have il: "idx < length ?its" using i by (simp add: live_iter_def)
  obtain e h where r: "release_iter idx (eg, hp) = Inr (e, h)" "reg_mid (e, h)" "same_env (eg, hp) (e, h)"
    "ht_iterators e = ?its[idx := (?its ! idx)\<lparr>it_ht := IterNull\<rparr>]" by (rule release_iter_ok [OF mid i])
  have nth: "ht_iterators e ! j = ?its ! j" if "j \<noteq> idx" for j using r(4) that by simp
  have nxt: "it_next_copy (ht_iterators e ! idx) = succ_iter ?its idx"
    using ring_release [OF i r(4), of idx] by (simp add: succ_iter_def)
  have p: "ring_path (ht_iterators e) idx xs (succ_iter ?its idx)" "distinct xs" "idx \<notin> set xs"
    "\<forall>x\<in>set xs. live_iter (ht_iterators e) x"
    using ring nth ring_path_cong [of xs "ht_iterators e" ?its] r(3)
    by (auto simp: ring_def same_env_def live_iter_def) metis+
  have el: "idx < length (ht_iterators e)" "length (ht_iterators e) = length ?its" using r(3) il by (simp_all add: same_env_def)
  obtain e2 h2 where l: "(if it_next_copy (ht_iterators e ! idx) \<noteq> idx
        then copies_loop (length ?its + 2) idx (it_next_copy (ht_iterators e ! idx)) (e, h) else Inr (e, h)) = Inr (e2, h2)"
    "reg_mid (e2, h2)" "same_env (e, h) (e2, h2)" "\<forall>x\<in>set xs. \<not> live_iter (ht_iterators e2) x"
    "\<forall>j. j \<notin> set xs \<longrightarrow> j \<noteq> idx \<longrightarrow> ht_iterators e2 ! j = ht_iterators e ! j" "\<not> live_iter (ht_iterators e2) idx"
  proof (cases "it_next_copy (ht_iterators e ! idx) = idx")
    case True
    then have "xs = []" using nxt p(1,3) by (cases xs) auto
    then show thesis using True that [of e h] r(2,4) el by (simp add: same_env_def live_iter_def)
  next
    case False
    have "length xs + 2 \<le> length ?its + 2" using len by simp
    from copies_loop_ok [OF p el(1) r(2) this] obtain e2 h2 where c:
      "copies_loop (length ?its + 2) idx (succ_iter ?its idx) (e, h) = Inr (e2, h2)" "reg_mid (e2, h2)"
      "same_env (e, h) (e2, h2)" "\<forall>x\<in>set xs. \<not> live_iter (ht_iterators e2) x"
      "\<forall>j. j \<notin> set xs \<longrightarrow> j \<noteq> idx \<longrightarrow> ht_iterators e2 ! j = ht_iterators e ! j"
      "ht_iterators e2 ! idx = (ht_iterators e ! idx)\<lparr>it_next_copy := idx\<rparr>" by blast
    have "\<not> live_iter (ht_iterators e2) idx" using c(6) r(4) il by (simp add: live_iter_def)
    then show thesis using that [OF _ c(2-5)] False nxt c(1) by simp
  qed
  have "used_ok (ht_iterators e2) (ht_iterators_used e2)" using l(2) by (simp add: reg_mid_def)
  note t = trim_registry_ok [OF this l(6)]
  have fuel: "length (ht_iterators (fst (eg, hp))) + 3 = Suc (length ?its + 2)" by simp
  have res: "zend_hash_iterator_del idx (eg, hp) = Inr (trim_registry idx e2, h2)"
    unfolding zend_hash_iterator_del_def fuel iterator_del.simps(2)
    using r(1) el l(1) by (simp del: iterator_del.simps copies_loop.simps)
  have same: "ht_iterators e2 ! j = ?its ! j" if "j \<notin> set (idx # xs)" for j using l(5) nth that by simp
  have env: "same_env (eg, hp) (e2, h2)" by (rule same_env_trans [OF r(3) l(3)])
  have "rings_ok (ht_iterators e2)"
    by (rule rings_without [OF rings ring]) (use env same l(4,6) in \<open>auto simp: same_env_def\<close>)
  then have "reg_ok (trim_registry idx e2, h2)" using t l(2) by (simp add: reg_ok_def reg_mid_def)
  moreover have "same_env (eg, hp) (trim_registry idx e2, h2)" using env t by (simp add: same_env_def)
  ultimately show thesis
    by (rule that [OF res _ _ ring]) (use t l same in auto)
qed

subsection \<open>Locating\<close>

lemma find_copy_ok:
  "ring_path its idx xs n \<Longrightarrow> idx \<notin> set xs \<Longrightarrow> \<forall>x\<in>set xs. x < length its \<Longrightarrow> length xs < fuel \<Longrightarrow>
    \<exists>r. find_copy fuel its a idx n = Inr r \<and>
      (case r of None \<Rightarrow> \<forall>x\<in>set xs. it_ht (its ! x) \<noteq> IterHT a
       | Some c \<Rightarrow> c \<in> set xs \<and> it_ht (its ! c) = IterHT a)"
proof (induction xs arbitrary: n fuel)
  case Nil
  then show ?case by (cases fuel) simp_all
next
  case (Cons x xs)
  then obtain f where f: "fuel = Suc f" by (cases fuel) simp_all
  show ?case
  proof (cases "it_ht (its ! x) = IterHT a")
    case True
    then show ?thesis using Cons.prems f by simp
  next
    case False
    obtain r where "find_copy f its a idx (succ_iter its x) = Inr r"
      "case r of None \<Rightarrow> \<forall>x\<in>set xs. it_ht (its ! x) \<noteq> IterHT a | Some c \<Rightarrow> c \<in> set xs \<and> it_ht (its ! c) = IterHT a"
      using Cons.IH [of "succ_iter its x" f] Cons.prems f by auto
    then show ?thesis using Cons.prems f False by (auto simp: succ_iter_def split: option.splits)
  qed
qed

lemma retarget_ok:
  assumes "reg_ok (eg, hp)" "live_iter (ht_iterators eg) idx"
  obtains eg' hp' where "retarget idx a pos (eg, hp) = Inr (eg', hp')" "reg_ok (eg', hp')" "same_env (eg, hp) (eg', hp')"
    "ht_iterators eg' = (ht_iterators eg)[idx := (ht_iterators eg ! idx)\<lparr>it_ht := IterHT a, it_pos := pos\<rparr>]"
    "\<And>j. live_iter (ht_iterators eg') j = live_iter (ht_iterators eg) j"
    "\<And>j. succ_iter (ht_iterators eg') j = succ_iter (ht_iterators eg) j"
proof -
  let ?its = "ht_iterators eg"
  let ?its' = "?its[idx := (?its ! idx)\<lparr>it_ht := IterHT a, it_pos := pos\<rparr>]"
  let ?hp = "inc_count a (dec_count (it_ht (?its ! idx)) hp)"
  have i: "idx < length ?its" using assms(2) by (simp add: live_iter_def)
  have live: "live_iter ?its' j = live_iter ?its j" for j
    using assms(2) i by (cases "j = idx") (simp_all add: live_iter_def)
  have succ: "succ_iter ?its' j = succ_iter ?its j" for j
    using i by (cases "j = idx") (simp_all add: succ_iter_def)
  have s: "succ_iter ?its' = succ_iter ?its" using succ by blast
  have "counts_ok ?its' ?hp"
    using assms(1) i by (intro counts_retarget) (simp_all add: reg_ok_def reg_mid_def)
  moreover have "used_ok ?its' (ht_iterators_used eg)" "rings_ok ?its'"
    using assms(1) live s by (simp_all add: reg_ok_def reg_mid_def used_ok_def rings_ok_def)
  moreover have "retarget idx a pos (eg, hp) = Inr (eg\<lparr>ht_iterators := ?its'\<rparr>, ?hp)"
    using i by (simp add: retarget_def)
  moreover have "same_tables hp ?hp" using same_tables_trans same_tables_counts by blast
  ultimately show thesis using live succ
    by (intro that [of "eg\<lparr>ht_iterators := ?its'\<rparr>" ?hp]) (simp_all add: reg_ok_def reg_mid_def same_env_def)
qed

text \<open>Removing the other iterators of a ring.\<close>

lemma remove_copies_ok:
  assumes ok: "reg_ok (eg, hp)" and ring: "ring (ht_iterators eg) idx xs" "length xs < length (ht_iterators eg)"
  obtains eg' hp' where "zend_hash_remove_iterator_copies idx (eg, hp) = Inr (eg', hp')" "reg_ok (eg', hp')"
    "same_env (eg, hp) (eg', hp')" "\<And>x. x \<in> set xs \<Longrightarrow> \<not> live_iter (ht_iterators eg') x"
    "\<And>j. j \<notin> set (idx # xs) \<Longrightarrow> ht_iterators eg' ! j = ht_iterators eg ! j"
    "ht_iterators eg' ! idx = (ht_iterators eg ! idx)\<lparr>it_next_copy := idx\<rparr>"
proof -
  let ?its = "ht_iterators eg"
  have mid: "reg_mid (eg, hp)" and rings: "rings_ok ?its" using ok by (simp_all add: reg_ok_def)
  have p: "ring_path ?its idx xs (succ_iter ?its idx)" "distinct xs" "idx \<notin> set xs" "\<forall>x\<in>set xs. live_iter ?its x"
    "idx < length ?its" using ring(1) by (auto simp: ring_def live_iter_def)
  have "length xs + 2 \<le> length ?its + 2" using ring(2) by simp
  from copies_loop_ok [OF p mid this] obtain e h where c:
    "copies_loop (length ?its + 2) idx (succ_iter ?its idx) (eg, hp) = Inr (e, h)" "reg_mid (e, h)"
    "same_env (eg, hp) (e, h)" "\<forall>x\<in>set xs. \<not> live_iter (ht_iterators e) x"
    "\<forall>j. j \<notin> set xs \<longrightarrow> j \<noteq> idx \<longrightarrow> ht_iterators e ! j = ?its ! j"
    "ht_iterators e ! idx = (?its ! idx)\<lparr>it_next_copy := idx\<rparr>" by blast
  have "rings_ok (ht_iterators e)"
    by (rule rings_without [OF rings ring(1)]) (use c in \<open>auto simp: same_env_def succ_iter_def\<close>)
  moreover have "zend_hash_remove_iterator_copies idx (eg, hp) = Inr (e, h)"
    using c(1) p(5) by (simp add: zend_hash_remove_iterator_copies_def succ_iter_def del: copies_loop.simps)
  ultimately show thesis using that c by (auto simp: reg_ok_def)
qed

text \<open>
  \<open>located\<close>: the iterator is now on table \<open>a\<close>, alone on its ring; its position is its own, that
  of a copy on \<open>a\<close> (the next one on the ring, if that is on \<open>a\<close>), or that of the table's
  internal pointer.
\<close>

definition located :: "nat \<Rightarrow> nat \<Rightarrow> executor_globals \<times> heap \<Rightarrow> executor_globals \<times> heap \<Rightarrow> nat \<Rightarrow> bool" where
  "located idx a st st' p \<longleftrightarrow>
     reg_ok st' \<and> same_env st st' \<and> live_iter (ht_iterators (fst st')) idx \<and>
     it_ht (ht_iterators (fst st') ! idx) = IterHT a \<and> it_pos (ht_iterators (fst st') ! idx) = p \<and>
     (if it_ht (ht_iterators (fst st) ! idx) = IterHT a then p = it_pos (ht_iterators (fst st) ! idx)
      else (\<exists>xs. ring (ht_iterators (fst st)) idx xs \<and>
        (\<forall>x\<in>set xs. \<not> live_iter (ht_iterators (fst st')) x) \<and>
        (it_ht (ht_iterators (fst st) ! succ_iter (ht_iterators (fst st)) idx) = IterHT a \<longrightarrow>
         p = it_pos (ht_iterators (fst st) ! succ_iter (ht_iterators (fst st)) idx)) \<and>
        ((\<exists>c\<in>set xs. it_ht (ht_iterators (fst st) ! c) = IterHT a \<and> p = it_pos (ht_iterators (fst st) ! c)) \<or>
         (\<forall>c\<in>set xs. it_ht (ht_iterators (fst st) ! c) \<noteq> IterHT a) \<and>
         from_pos (snd st a) p = from_pos (snd st a) (nInternalPointer (snd st a)))))"

lemma find_copy_pos_ok:
  assumes ok: "reg_ok (eg, hp)" and i: "live_iter (ht_iterators eg) idx" and a: "it_ht (ht_iterators eg ! idx) \<noteq> IterHT a"
  obtains (found) eg' hp' p where
      "zend_hash_iterator_find_copy_pos idx a (eg, hp) = Inr ((eg', hp'), True)" "located idx a (eg, hp) (eg', hp') p"
  | (missing) eg' hp' xs where
      "zend_hash_iterator_find_copy_pos idx a (eg, hp) = Inr ((eg', hp'), False)" "reg_ok (eg', hp')"
      "same_env (eg, hp) (eg', hp')" "ring (ht_iterators eg) idx xs" "\<forall>c\<in>set xs. it_ht (ht_iterators eg ! c) \<noteq> IterHT a"
      "\<forall>x\<in>set xs. \<not> live_iter (ht_iterators eg') x" "live_iter (ht_iterators eg') idx"
proof -
  let ?its = "ht_iterators eg"
  have rings: "rings_ok ?its" using ok by (simp add: reg_ok_def)
  obtain xs where ring: "ring ?its idx xs" and len: "length xs < length ?its" by (rule ring_exists [OF rings i])
  have il: "idx < length ?its" using i by (simp add: live_iter_def)
  have p: "ring_path ?its idx xs (succ_iter ?its idx)" "idx \<notin> set xs" "\<forall>x\<in>set xs. x < length ?its"
    using ring by (auto simp: ring_def live_iter_def)
  show thesis
  proof (cases "succ_iter ?its idx = idx")
    case True
    then have "xs = []" using p(1,2) by (cases xs) auto
    moreover have "zend_hash_iterator_find_copy_pos idx a (eg, hp) = Inr ((eg, hp), False)"
      using True il by (simp add: zend_hash_iterator_find_copy_pos_def succ_iter_def)
    ultimately show thesis using ok ring i by (intro missing [of eg hp xs]) (simp_all add: same_env_def)
  next
    case False
    obtain r where r: "find_copy (length ?its + 1) ?its a idx (succ_iter ?its idx) = Inr r"
      "case r of None \<Rightarrow> \<forall>x\<in>set xs. it_ht (?its ! x) \<noteq> IterHT a | Some c \<Rightarrow> c \<in> set xs \<and> it_ht (?its ! c) = IterHT a"
      using find_copy_ok [OF p, of "length ?its + 1" a] len by auto
    show thesis
    proof (cases r)
      case None
      obtain e h where c: "zend_hash_remove_iterator_copies idx (eg, hp) = Inr (e, h)" "reg_ok (e, h)"
        "same_env (eg, hp) (e, h)" "\<And>x. x \<in> set xs \<Longrightarrow> \<not> live_iter (ht_iterators e) x"
        "ht_iterators e ! idx = (?its ! idx)\<lparr>it_next_copy := idx\<rparr>"
        by (rule remove_copies_ok [OF ok ring len]) blast
      have "zend_hash_iterator_find_copy_pos idx a (eg, hp) = Inr ((e, h), False)"
        using False il r(1) None c(1) by (simp add: zend_hash_iterator_find_copy_pos_def succ_iter_def del: find_copy.simps)
      moreover have "live_iter (ht_iterators e) idx" using i c(3,5) by (simp add: live_iter_def same_env_def)
      ultimately show thesis using c r None ring by (intro missing [of e h xs]) simp_all
    next
      case (Some c)
      let ?p = "it_pos (?its ! c)"
      have cin: "c \<in> set xs" "it_ht (?its ! c) = IterHT a" "c < length ?its" using r(2) Some p(3) by auto
      obtain e1 h1 where t: "retarget idx a ?p (eg, hp) = Inr (e1, h1)" "reg_ok (e1, h1)" "same_env (eg, hp) (e1, h1)"
        "ht_iterators e1 = ?its[idx := (?its ! idx)\<lparr>it_ht := IterHT a, it_pos := ?p\<rparr>]"
        "\<And>j. live_iter (ht_iterators e1) j = live_iter ?its j"
        "\<And>j. succ_iter (ht_iterators e1) j = succ_iter ?its j" by (rule retarget_ok [OF ok i, of a ?p]) blast
      have nth: "ht_iterators e1 ! x = ?its ! x" if "x \<in> set xs" for x
        using that t(4) p(2) by (metis nth_list_update_neq)
      have ring1: "ring (ht_iterators e1) idx xs"
        using ring t(5,6) ring_path_cong [OF nth] by (simp add: ring_def)
      have len1: "length xs < length (ht_iterators e1)" using len t(3) by (simp add: same_env_def)
      obtain e h where d: "zend_hash_remove_iterator_copies idx (e1, h1) = Inr (e, h)" "reg_ok (e, h)"
        "same_env (e1, h1) (e, h)" "\<And>x. x \<in> set xs \<Longrightarrow> \<not> live_iter (ht_iterators e) x"
        "ht_iterators e ! idx = (ht_iterators e1 ! idx)\<lparr>it_next_copy := idx\<rparr>"
        by (rule remove_copies_ok [OF t(2) ring1 len1]) blast
      have "zend_hash_iterator_find_copy_pos idx a (eg, hp) = Inr ((e, h), True)"
        using False il r(1) Some cin(3) t(1) d(1)
        by (simp add: zend_hash_iterator_find_copy_pos_def succ_iter_def del: find_copy.simps)
      moreover have it: "ht_iterators e ! idx = (?its ! idx)\<lparr>it_ht := IterHT a, it_pos := ?p, it_next_copy := idx\<rparr>"
        using d(5) t(4) il by simp
      have env: "same_env (eg, hp) (e, h)" by (rule same_env_trans [OF t(3) d(3)])
      have first: "c = succ_iter ?its idx" if "it_ht (?its ! succ_iter ?its idx) = IterHT a"
      proof -
        have "succ_iter ?its idx < length ?its" using p False by (cases xs) auto
        then show ?thesis using r(1) Some False that by simp
      qed
      have "live_iter (ht_iterators e) idx" using it il env by (simp add: live_iter_def same_env_def)
      then have "located idx a (eg, hp) (e, h) ?p"
        unfolding located_def using it env d(2,4) a ring cin first by auto
      ultimately show thesis by (rule found)
    qed
  qed
qed

lemma iterator_pos_spec:
  assumes ok: "reg_ok (eg, hp)" and i: "live_iter (ht_iterators eg) idx" and inv: "ht_inv (hp a)"
  obtains eg' hp' p where "zend_hash_iterator_pos idx a (eg, hp) = Inr ((eg', hp'), p)" "located idx a (eg, hp) (eg', hp') p"
proof -
  let ?its = "ht_iterators eg"
  have il: "idx < length ?its" using i by (simp add: live_iter_def)
  show thesis
  proof (cases "it_ht (?its ! idx) = IterHT a")
    case True
    then have "zend_hash_iterator_pos idx a (eg, hp) = Inr ((eg, hp), it_pos (?its ! idx))"
      using il by (simp add: zend_hash_iterator_pos_def)
    moreover have "located idx a (eg, hp) (eg, hp) (it_pos (?its ! idx))"
      using True ok i by (simp add: located_def same_env_def)
    ultimately show thesis by (rule that)
  next
    case False
    from ok i False show thesis
    proof (cases rule: find_copy_pos_ok)
      case (found e h p)
      have "idx < length (ht_iterators e)" "it_pos (ht_iterators e ! idx) = p"
        using found(2) by (simp_all add: located_def live_iter_def)
      then have "zend_hash_iterator_pos idx a (eg, hp) = Inr ((e, h), p)"
        using False il found(1) by (simp add: zend_hash_iterator_pos_def)
      then show thesis using found(2) by (rule that)
    next
      case (missing e h xs)
      have st: "same_tables hp h" using missing(3) by (simp add: same_env_def)
      have inv': "ht_inv (h a)" using inv same_tables_inv [OF st] by simp
      obtain p where p: "zend_hash_get_current_pos (h a) = Inr p" "from_pos (h a) p = from_pos (h a) (nInternalPointer (h a))"
        using valid_pos_spec [OF inv', of "nInternalPointer (h a)"] by (auto simp: zend_hash_get_current_pos_def valid_at_def)
      obtain e1 h1 where t: "retarget idx a p (e, h) = Inr (e1, h1)" "reg_ok (e1, h1)" "same_env (e, h) (e1, h1)"
        "ht_iterators e1 = (ht_iterators e)[idx := (ht_iterators e ! idx)\<lparr>it_ht := IterHT a, it_pos := p\<rparr>]"
        "\<And>j. live_iter (ht_iterators e1) j = live_iter (ht_iterators e) j" by (rule retarget_ok [OF missing(2,7), of a p]) blast
      have e: "idx < length (ht_iterators e)" using missing(7) by (simp add: live_iter_def)
      have it: "it_ht (ht_iterators e1 ! idx) = IterHT a" "it_pos (ht_iterators e1 ! idx) = p" "idx < length (ht_iterators e1)"
        using t(4) e by simp_all
      have "zend_hash_iterator_pos idx a (eg, hp) = Inr ((e1, h1), p)"
        using False il missing(1) p(1) t(1) it by (simp add: zend_hash_iterator_pos_def)
      moreover have "succ_iter ?its idx \<in> set (idx # xs)"
        using missing(4) by (cases xs) (auto simp: ring_def)
      then have nosucc: "it_ht (?its ! succ_iter ?its idx) \<noteq> IterHT a" using missing(5) False by auto
      have "located idx a (eg, hp) (e1, h1) p"
        unfolding located_def
        using t(2,5) it missing(4-7) False p(2) nosucc same_env_trans [OF missing(3) t(3)]
          same_tables_from [OF st] same_tables_pointer [OF st] by auto
      ultimately show thesis by (rule that)
    qed
  qed
qed

end
