(* ===== verification/WalkTheorems.thy ===== *)
theory WalkTheorems
  imports HashDestroy HashMerge HashIterReg HashSamples
begin

text \<open>
  The properties of walking over a table, of the callbacks that delete on the way, of
  destroying and cleaning, of copying and merging, and of the registry of iterators, with
  their witnesses.
\<close>

subsection \<open>The internal pointer\<close>

text \<open>
  C32. A traversal by the internal pointer visits the entries of the table in order: a reset
  puts all of them before it, what is current is the first of what is before it, a step
  forward drops that one and fails at the end, and the table is unchanged.
\<close>

theorem pointer_traversal:
  assumes "ht_inv ht" "from_pos ht (nInternalPointer ht) = xs"
  shows "(\<exists>ht'. zend_hash_internal_pointer_reset ht = Inr ht' \<and> ht_inv ht' \<and> elems ht' = elems ht \<and>
      from_pos ht' (nInternalPointer ht') = elems ht) \<and>
    found_val ht eg (zend_hash_get_current_data ht) = Inr (case xs of [] \<Rightarrow> None | kv # ys \<Rightarrow> Some (snd kv)) \<and>
    (\<exists>ck. zend_hash_get_current_key_ex ht (nInternalPointer ht) = Inr ck \<and>
      ckey ck = (case xs of [] \<Rightarrow> None | kv # ys \<Rightarrow> Some (fst kv))) \<and>
    (\<exists>ht'. zend_hash_move_forward ht = Inr (ht', xs \<noteq> []) \<and> ht_inv ht' \<and> elems ht' = elems ht \<and>
      from_pos ht' (nInternalPointer ht') = tl xs)"
proof (intro conjI)
  show "\<exists>ht'. zend_hash_internal_pointer_reset ht = Inr ht' \<and> ht_inv ht' \<and> elems ht' = elems ht \<and>
      from_pos ht' (nInternalPointer ht') = elems ht"
    using pointer_reset_spec [OF assms(1)] assms(1) by (auto simp: zend_hash_internal_pointer_reset_def)
  show "\<exists>ht'. zend_hash_move_forward ht = Inr (ht', xs \<noteq> []) \<and> ht_inv ht' \<and> elems ht' = elems ht \<and>
      from_pos ht' (nInternalPointer ht') = tl xs"
    using move_forward_spec [OF assms(1), of "nInternalPointer ht"] assms by (auto simp: zend_hash_move_forward_def)
qed (use current_data [OF assms] current_key [OF assms] in \<open>simp_all add: zend_hash_get_current_data_def\<close>)

theorem pointer_traversal_witness:
  "\<exists>ht'. zend_hash_move_forward sample_packed = Inr (ht', True) \<and> ht_inv ht' \<and>
    from_pos ht' (nInternalPointer ht') = [(KNum 2, IS_TRUE)]"
proof -
  have "from_pos sample_packed (nInternalPointer sample_packed) = [(KNum 0, IS_LONG 7), (KNum 2, IS_TRUE)]"
    by code_simp
  from pointer_traversal [OF sample_packed_inv this, of sample_globals] show ?thesis by auto
qed

text \<open>
  Backwards: the end is the last entry, and a step back from a place goes to the entry
  just before it, or past the end when there is none.
\<close>

theorem backward_traversal:
  assumes "ht_inv ht" "p < nNumUsed ht"
  shows "(\<exists>q. zend_hash_internal_pointer_end_ex ht = Inr q \<and>
      from_pos ht q = (if elems ht = [] then [] else [last (elems ht)])) \<and>
    (\<exists>q. zend_hash_move_backwards_ex ht p = Inr (q, True) \<and>
      (if before_pos ht p = [] then from_pos ht q = []
       else from_pos ht q = last (before_pos ht p) # from_pos ht p))"
  using pointer_end_spec [OF assms(1)] move_backwards_spec [OF assms] by (metis (full_types))

theorem backward_traversal_witness:
  "\<exists>q. zend_hash_move_backwards_ex sample_packed 2 = Inr (q, True) \<and> from_pos sample_packed q = elems sample_packed"
proof -
  have "before_pos sample_packed 2 = [(KNum 0, IS_LONG 7)]" "from_pos sample_packed 2 = [(KNum 2, IS_TRUE)]"
    by code_simp+
  then show ?thesis using backward_traversal [OF sample_packed_inv, of 2] by (simp add: sample_elems)
qed

text \<open>
  \<open>zend_array_count\<close> counts the entries that are visible: those that do not point to an
  undefined zval outside the table. It relies on the flag \<open>HASH_FLAG_HAS_EMPTY_IND\<close> being set
  on every table with an invisible entry other than the symbol table, and clears it again
  exactly when no such entry is left.
\<close>

theorem count_visible:
  assumes "ht_inv ht" "f_packed ht \<Longrightarrow> \<not> f_empty_ind ht \<and> ht_addr ht \<noteq> st"
    "\<not> f_empty_ind ht \<Longrightarrow> ht_addr ht \<noteq> st \<Longrightarrow> \<forall>kv\<in>set (elems ht). \<not> empty_indirect eg kv"
  shows "\<exists>ht'. zend_array_count st ht eg = Inr (ht', length (filter (\<lambda>kv. \<not> empty_indirect eg kv) (elems ht))) \<and>
    elems ht' = elems ht \<and> ht_inv ht' \<and>
    (f_empty_ind ht' \<longleftrightarrow> f_empty_ind ht \<and> (\<exists>kv\<in>set (elems ht). empty_indirect eg kv))"
proof -
  obtain ht' where r: "zend_array_count st ht eg = Inr (ht', length (filter (\<lambda>kv. \<not> empty_indirect eg kv) (elems ht)))"
    "ht' = ht\<lparr>f_empty_ind := f_empty_ind ht'\<rparr>"
    "f_empty_ind ht' \<longleftrightarrow> f_empty_ind ht \<and> (\<exists>kv\<in>set (elems ht). empty_indirect eg kv)"
    by (rule array_count_spec [OF assms])
  have "elems ht' = elems ht" "ht_inv ht'" using assms(1) by (subst r(2), simp)+
  then show ?thesis using r(1,3) by blast
qed

theorem count_visible_witness:
  "\<exists>ht'. zend_array_count 1 sample_mixed sample_globals = Inr (ht', 2)"
proof -
  have "length (filter (\<lambda>kv. \<not> empty_indirect sample_globals kv) (elems sample_mixed)) = 2"
    by (simp add: sample_elems empty_indirect_def)
  moreover have "ht_addr sample_mixed = 1" by (simp add: sample_mixed_def)
  ultimately show ?thesis using count_visible [OF sample_mixed_inv, of 1 sample_globals] by auto
qed

subsection \<open>Callbacks that delete\<close>

text \<open>
  C19. \<open>zend_hash_apply\<close> and \<open>zend_hash_reverse_apply\<close>: the callback sees every entry once, in
  order (reversed), until it stops; the entries it removes are gone and their values
  destroyed, those it keeps have the values it left, and the table stays well formed.
\<close>

theorem apply_visits_in_order:
  assumes "ht_inv ht" "\<And>v s. v \<noteq> IS_UNDEF \<Longrightarrow> fst (snd (f v s)) \<noteq> IS_UNDEF"
  shows "(case apply_list (\<lambda>_. f) (elems ht) s of (ys, dead, s') \<Rightarrow>
      walked ht eg ys dead s' (zend_hash_apply ht f eg s)) \<and>
    (case apply_list (\<lambda>_. f) (rev (elems ht)) s of (ys, dead, s') \<Rightarrow>
      walked ht eg (rev ys) dead s' (zend_hash_reverse_apply ht f eg s))"
  using apply_spec [OF assms] reverse_apply_spec [OF assms] by (auto split: prod.splits)

text \<open>A callback that counts its calls and removes every \<open>true\<close>.\<close>

definition sample_callback :: "zval \<Rightarrow> nat \<Rightarrow> 32 word \<times> zval \<times> nat" where
  "sample_callback v s = (if v = IS_TRUE then ZEND_HASH_APPLY_REMOVE else ZEND_HASH_APPLY_KEEP, v, s + 1)"

theorem apply_visits_in_order_witness:
  "walked sample_packed sample_globals [(KNum 0, IS_LONG 7)] [IS_TRUE] 2
     (zend_hash_apply sample_packed sample_callback sample_globals 0)"
proof -
  have "apply_list (\<lambda>_. sample_callback) (elems sample_packed) 0 = ([(KNum 0, IS_LONG 7)], [IS_TRUE], 2)"
    by (simp add: sample_elems sample_callback_def ZEND_HASH_APPLY_KEEP_def ZEND_HASH_APPLY_REMOVE_def
        ZEND_HASH_APPLY_STOP_def)
  then show ?thesis
    using apply_visits_in_order [OF sample_packed_inv, where f = sample_callback and s = 0 and eg = sample_globals]
    by (simp add: sample_callback_def)
qed

text \<open>
  The graceful destructions hand every value to the destructor, first to last or last to
  first, one deletion at a time, and free the table's block.
\<close>

theorem graceful_destroy_order:
  assumes "ht_inv ht"
  shows "emptied ht eg (map snd (elems ht)) (zend_hash_graceful_destroy ht eg) \<and>
    emptied ht eg (rev (map snd (elems ht))) (zend_hash_graceful_reverse_destroy ht eg)"
  using graceful_destroy_spec [OF assms] graceful_reverse_destroy_spec [OF assms] by blast

theorem graceful_destroy_order_witness:
  "emptied sample_packed sample_globals [IS_TRUE, IS_LONG 7]
     (zend_hash_graceful_reverse_destroy sample_packed sample_globals)"
  using graceful_destroy_order [OF sample_packed_inv, of sample_globals] by (simp add: sample_elems)

subsection \<open>Destroying and cleaning\<close>

text \<open>
  C21. \<open>zend_hash_destroy\<close> and \<open>zend_array_destroy\<close> call the destructor on every value once, in
  order, and release every string key once, unless the table's keys are static; nothing else
  is called, but that \<open>zend_array_destroy\<close> first takes the array out of the collector's buffer.
  \<open>zend_array_destroy\<close> cuts the iterators off in all cases.
\<close>

theorem destroy_releases_once:
  assumes "ht_inv ht"
  shows "(\<exists>ht' eg'. zend_hash_destroy ht eg =
        Inr (ht', if nNumUsed ht = 0 then eg' else zend_hash_iterators_remove ht eg') \<and> swept ht eg eg') \<and>
    (\<exists>eg'. zend_array_destroy ht eg = Inr (zend_hash_iterators_remove ht eg') \<and>
       swept ht (emit (EvGcForget (ht_addr ht)) eg) eg')"
  using destroy_spec [OF assms, of eg] array_destroy_spec [OF assms, of eg] by metis

theorem destroy_releases_once_witness:
  "\<exists>eg'. zend_array_destroy sample_mixed sample_globals = Inr (zend_hash_iterators_remove sample_mixed eg') \<and>
    swept sample_mixed (emit (EvGcForget 1) sample_globals) eg'"
  using destroy_releases_once [OF sample_mixed_inv, of sample_globals] by (simp add: sample_mixed_def)

text \<open>
  \<open>zend_hash_clean\<close> leaves a well-formed empty table of the same kind and size whose next
  index is 0 again, after the same calls; so does \<open>zend_symtable_clean\<close>.
\<close>

theorem clean_empties:
  assumes "ht_inv ht"
  shows "cleaned ht eg (zend_hash_clean ht eg) \<and>
    (\<not> f_packed ht \<and> pDestructor ht \<noteq> DTOR_NULL \<longrightarrow> cleaned ht eg (zend_symtable_clean ht eg))"
  using clean_spec [OF assms] symtable_clean_spec [OF assms] by blast

theorem clean_empties_witness:
  "cleaned sample_packed sample_globals (zend_hash_clean sample_packed sample_globals) \<and>
   cleaned sample_mixed sample_globals (zend_symtable_clean sample_mixed sample_globals)"
  using clean_empties [OF sample_packed_inv, of sample_globals] clean_empties [OF sample_mixed_inv, of sample_globals]
  by (simp add: sample_mixed_def)

subsection \<open>Copying and merging\<close>

text \<open>
  C20. \<open>zend_hash_copy\<close> updates the target with every visible entry of the source, in order,
  and \<open>zend_hash_merge\<close> does so through the zvals that entries of the target point to, or,
  without \<open>overwrite\<close>, adds only what the target does not have; both keep the target well
  formed. They fail only at a place of the source for which the run over the places before it (the
  run on the source cut off there) succeeded with their merge and left a target that has reached
  its limit.
\<close>

theorem copy_and_merge:
  assumes "ht_inv target" "ht_inv source"
  shows "merged update_entry (\<not> f_packed source) (elems target, indirect eg) source
      (\<lambda>n. zend_hash_copy target (source\<lparr>nNumUsed := n\<rparr>) ctor eg) (nNumUsed source) \<and>
    merged (if overwrite then update_entry_ind else add_entry_ind) (\<not> f_packed source)
      (elems target, indirect eg) source
      (\<lambda>n. zend_hash_merge target (source\<lparr>nNumUsed := n\<rparr>) ctor overwrite eg) (nNumUsed source)"
  using copy_spec [OF assms] merge_spec [OF assms] by blast

theorem copy_and_merge_witness:
  "(\<exists>ht eg. zend_hash_copy sample_mixed sample_packed True sample_globals = Inr (ht, eg) \<and> ht_inv ht \<and>
     elems ht = [(KStr [97], IS_TRUE), (KNum 5, IS_LONG 7), (KNum 0, IS_LONG 7), (KNum 2, IS_TRUE)]) \<and>
   merged add_entry_ind True (elems sample_packed, indirect sample_globals) sample_mixed
     (\<lambda>n. zend_hash_merge sample_packed (sample_mixed\<lparr>nNumUsed := n\<rparr>) True False sample_globals) (nNumUsed sample_mixed)"
proof -
  have f: "foldl (merge_entry update_entry False) (elems sample_mixed, indirect sample_globals) (elems sample_packed) =
     ([(KStr [97], IS_TRUE), (KNum 5, IS_LONG 7), (KNum 0, IS_LONG 7), (KNum 2, IS_TRUE)], indirect sample_globals)"
    by (simp add: sample_elems merge_entry_def follow_def update_entry_def Let_def)
  have r: "\<not> isl (zend_hash_copy sample_mixed sample_packed True sample_globals)" by code_simp
  have p: "f_packed sample_packed" "\<not> f_packed sample_mixed" by (simp_all add: sample_packed_def sample_mixed_def)
  have cut: "ht\<lparr>nNumUsed := nNumUsed ht\<rparr> = ht" for ht :: HashTable by simp
  note c = copy_and_merge [OF sample_mixed_inv sample_packed_inv, of sample_globals True True,
      unfolded merged_def cut before_pos_used, THEN conjunct1]
  note m = copy_and_merge [OF sample_packed_inv sample_mixed_inv, of sample_globals True False, THEN conjunct2]
  obtain h1 e1 where h1: "zend_hash_copy sample_mixed sample_packed True sample_globals = Inr (h1, e1)"
    using r by (cases "zend_hash_copy sample_mixed sample_packed True sample_globals") auto
  show ?thesis using c m p f unfolding h1 by simp
qed

subsection \<open>The registry of iterators\<close>

text \<open>
  C18. Adding and deleting iterators keeps the registry well formed: the used part covers all
  live iterators, successors permute them, and a table's count is the number of its
  iterators or stuck at 255. So a table with the count 0, which every operation takes to
  mean that it need not look, has no iterator. A deletion takes all copies along.
\<close>

theorem registry_kept:
  assumes "reg_ok (eg, hp)" "live_iter (ht_iterators eg) idx"
  shows "(\<forall>a i. \<not> HT_HAS_ITERATORS (hp a) \<longrightarrow> i < length (ht_iterators eg) \<longrightarrow> it_ht (ht_iterators eg ! i) \<noteq> IterHT a) \<and>
    reg_ok (fst (zend_hash_iterator_add a pos (eg, hp))) \<and>
    (\<exists>st' xs. zend_hash_iterator_del idx (eg, hp) = Inr st' \<and> reg_ok st' \<and> ring (ht_iterators eg) idx xs \<and>
      (\<forall>x\<in>set (idx # xs). \<not> live_iter (ht_iterators (fst st')) x) \<and>
      (\<forall>j. j \<notin> set (idx # xs) \<longrightarrow> ht_iterators (fst st') ! j = ht_iterators eg ! j))"
proof (intro conjI)
  show "\<forall>a i. \<not> HT_HAS_ITERATORS (hp a) \<longrightarrow> i < length (ht_iterators eg) \<longrightarrow> it_ht (ht_iterators eg ! i) \<noteq> IterHT a"
    using no_count_no_iterator [OF assms(1)] by blast
  show "reg_ok (fst (zend_hash_iterator_add a pos (eg, hp)))"
    by (rule iterator_add_spec [OF assms(1), of a pos]) simp
  show "\<exists>st' xs. zend_hash_iterator_del idx (eg, hp) = Inr st' \<and> reg_ok st' \<and> ring (ht_iterators eg) idx xs \<and>
      (\<forall>x\<in>set (idx # xs). \<not> live_iter (ht_iterators (fst st')) x) \<and>
      (\<forall>j. j \<notin> set (idx # xs) \<longrightarrow> ht_iterators (fst st') ! j = ht_iterators eg ! j)"
    by (rule iterator_del_spec [OF assms]) (metis fst_conv)
qed

definition empty_registry :: executor_globals where
  "empty_registry =
     sample_globals\<lparr>ht_iterators := replicate 16 \<lparr>it_ht = IterNull, it_pos = 0, it_next_copy = 0\<rparr>\<rparr>"

lemma empty_registry_ok: "reg_ok (empty_registry, \<lambda>_. sample_packed)"
proof -
  have n: "\<not> live_iter (ht_iterators empty_registry) i" for i
    by (simp add: live_iter_def empty_registry_def)
  have "on_table (replicate n \<lparr>it_ht = IterNull, it_pos = 0, it_next_copy = 0\<rparr>) a = 0" for n a
    by (induction n) simp_all
  then have "on_table (ht_iterators empty_registry) a = 0" for a by (simp add: empty_registry_def del: replicate.simps)
  then show ?thesis
    using n by (simp add: reg_ok_def reg_mid_def used_ok_def rings_ok_def counts_ok_def)
      (simp add: sample_packed_def empty_registry_def sample_globals_def)
qed

lemma one_iterator:
  "\<exists>eg hp idx. reg_ok (eg, hp) \<and> live_iter (ht_iterators eg) idx \<and> ht_inv (hp 2) \<and>
     it_ht (ht_iterators eg ! idx) = IterHT 2 \<and> it_pos (ht_iterators eg ! idx) = 1"
proof -
  obtain eg' hp' idx where a: "reg_ok (eg', hp')" "idx < length (ht_iterators eg')"
    "ht_iterators eg' ! idx = \<lparr>it_ht = IterHT 2, it_pos = 1, it_next_copy = idx\<rparr>"
    "hp' = inc_count 2 (\<lambda>_. sample_packed)"
    by (rule iterator_add_spec [OF empty_registry_ok, of 2 1]) blast
  have "same_tables (\<lambda>_. sample_packed) hp'" using a(4) by simp
  from same_tables_inv [OF this, of 2] have "ht_inv (hp' 2)" using sample_packed_inv by simp
  moreover have "live_iter (ht_iterators eg') idx" using a by (simp add: live_iter_def)
  ultimately show ?thesis using a(1,3)
    by (intro exI [of _ eg'] exI [of _ hp'] exI [of _ idx]) simp
qed

theorem registry_kept_witness:
  "\<exists>eg hp idx. reg_ok (fst (zend_hash_iterator_add 1 0 (eg, hp))) \<and>
     (\<exists>st'. zend_hash_iterator_del idx (eg, hp) = Inr st' \<and> \<not> live_iter (ht_iterators (fst st')) idx)"
proof -
  obtain eg hp idx where "reg_ok (eg, hp)" "live_iter (ht_iterators eg) idx" using one_iterator by blast
  from registry_kept [OF this, of 1 0] show ?thesis by fastforce
qed

text \<open>
  C22. \<open>zend_hash_iterator_pos\<close>: an iterator asked for its position in a table it is not on takes
  the position of one of its copies on that table, which the search along its ring finds
  when there is one, and otherwise that of the table's internal pointer; it is then on the
  table, its copies are deleted, and the registry is well formed.
\<close>

theorem iterator_located:
  assumes "reg_ok (eg, hp)" "live_iter (ht_iterators eg) idx" "ht_inv (hp a)"
  shows "\<exists>st' p. zend_hash_iterator_pos idx a (eg, hp) = Inr (st', p) \<and> located idx a (eg, hp) st' p"
  by (rule iterator_pos_spec [OF assms]) blast

theorem iterator_located_witness:
  "\<exists>eg hp idx st'. zend_hash_iterator_pos idx 2 (eg, hp) = Inr (st', 1) \<and> located idx 2 (eg, hp) st' 1"
proof -
  obtain eg hp idx where a: "reg_ok (eg, hp)" "live_iter (ht_iterators eg) idx" "ht_inv (hp 2)"
    "it_ht (ht_iterators eg ! idx) = IterHT 2" "it_pos (ht_iterators eg ! idx) = 1" using one_iterator by blast
  then obtain st' p where p: "zend_hash_iterator_pos idx 2 (eg, hp) = Inr (st', p)" "located idx 2 (eg, hp) st' p"
    using iterator_located [OF a(1-3)] by blast
  then have "p = 1" using a(4,5) by (simp add: located_def)
  then show ?thesis using p by blast
qed

end
