(* ===== verification/HashMigrate.thy ===== *)
theory HashMigrate
  imports HashDestroy HashIterReg
begin

text \<open>
  Where the iterators of a table end when its places are closed up
  (\<open>migrate_iterators\<close>, used by \<open>zend_hash_rehash\<close> and \<open>zend_array_dup\<close>).
\<close>

subsection \<open>The place an iterator ends at\<close>

text \<open>
  Of the places below \<open>k\<close>, those that are kept (\<open>cp\<close>) move to \<open>kept_before cp k\<close> places at the
  front. An iterator on a place that is dropped is taken along when the next place is kept. The
  loop stops one short: \<open>while (iter_pos < idx)\<close> leaves an iterator on the kept place itself
  when another one was taken along to it, and that one then goes with the place after.
  \<open>waiting cp it k\<close> lists the places of the iterators that are behind when place \<open>k\<close> is reached.
\<close>

definition kept_before :: "(nat \<Rightarrow> bool) \<Rightarrow> nat \<Rightarrow> nat" where
  "kept_before cp k = length (filter cp [0..<k])"

primrec waiting :: "(nat \<Rightarrow> bool) \<Rightarrow> (nat \<Rightarrow> bool) \<Rightarrow> nat \<Rightarrow> nat list" where
  "waiting cp it 0 = []"
| "waiting cp it (Suc k) =
     (if cp k then (if waiting cp it k = [] then [] else filter it [k])
      else if \<forall>i<k. cp i then [] else waiting cp it k @ filter it [k])"

definition followed_place :: "(nat \<Rightarrow> bool) \<Rightarrow> (nat \<Rightarrow> bool) \<Rightarrow> nat \<Rightarrow> nat" where
  "followed_place cp it p = (if cp p \<and> waiting cp it p \<noteq> [] then Suc p else p)"

lemma kept_before_simps [simp]:
  "kept_before cp 0 = 0" "kept_before cp (Suc k) = kept_before cp k + (if cp k then 1 else 0)"
  by (simp_all add: kept_before_def)

lemma kept_before_le: "kept_before cp k \<le> k"
  by (induction k) simp_all

lemma kept_before_mono: "a \<le> b \<Longrightarrow> kept_before cp a \<le> kept_before cp b"
  by (induction b) (auto simp: le_Suc_eq)

lemma kept_before_all: "(\<And>i. i < k \<Longrightarrow> cp i) \<Longrightarrow> kept_before cp k = k"
  by (simp add: kept_before_def)

lemma waiting_iter: "p \<in> set (waiting cp it k) \<Longrightarrow> it p \<and> p < k"
  by (induction k) (auto split: if_splits intro: less_SucI)

lemma waiting_dropped: "waiting cp it k \<noteq> [] \<Longrightarrow> kept_before cp k < k"
proof (induction k)
  case (Suc k)
  then show ?case using kept_before_le [of cp k] by (auto split: if_splits)
qed simp

lemma waiting_none: "(\<And>i. i < k \<Longrightarrow> cp i) \<Longrightarrow> waiting cp it k = []"
  by (induction k) auto

lemma waiting_kept: "p \<in> set (waiting cp it k) \<Longrightarrow> kept_before cp (followed_place cp it p) = kept_before cp k"
proof (induction k)
  case (Suc k)
  then show ?case by (cases "p = k") (auto simp: followed_place_def split: if_splits dest: waiting_iter)
qed simp

lemma followed_le: "kept_before cp (followed_place cp it p) \<le> p"
  using kept_before_le [of cp p] waiting_dropped [of cp it p] by (auto simp: followed_place_def)

lemma moved_below: "it p \<Longrightarrow> p < k \<Longrightarrow> p \<notin> set (waiting cp it k) \<Longrightarrow> w \<in> set (waiting cp it k) \<Longrightarrow> p < w"
proof (induction k)
  case (Suc k)
  then show ?case by (cases "p = k") (auto split: if_splits dest: waiting_iter)
qed simp

subsection \<open>The loop\<close>

definition iter_on :: "HashTableIterator list \<Rightarrow> nat \<Rightarrow> nat \<Rightarrow> bool" where
  "iter_on its t p \<longleftrightarrow> (\<exists>it\<in>set its. it_ht it = IterHT t \<and> it_pos it = p)"

lemma lower_pos_loop_spec:
  "lower_pos_loop a s its res \<le> res \<and>
   (\<forall>it\<in>set its. it_ht it = IterHT a \<longrightarrow> s \<le> it_pos it \<longrightarrow> it_pos it < res \<longrightarrow> lower_pos_loop a s its res \<le> it_pos it) \<and>
   (lower_pos_loop a s its res = res \<or> iter_on its a (lower_pos_loop a s its res))"
proof (induction its arbitrary: res)
  case (Cons x its)
  let ?res = "if it_ht x = IterHT a \<and> it_pos x \<ge> s \<and> it_pos x < res then it_pos x else res"
  show ?case using Cons.IH [of ?res] by (auto simp: iter_on_def split: if_splits)
qed simp

text \<open>The iterators of a table are all in the part of the array that is in use.\<close>

definition iters_used :: "nat \<Rightarrow> executor_globals \<Rightarrow> bool" where
  "iters_used t eg \<longleftrightarrow> ht_iterators_used eg \<le> length (ht_iterators eg) \<and>
     (\<forall>c<length (ht_iterators eg). it_ht (ht_iterators eg ! c) = IterHT t \<longrightarrow> c < ht_iterators_used eg)"

lemma reg_iters_used: "reg_ok (eg, hp) \<Longrightarrow> iters_used t eg"
  by (auto simp: iters_used_def reg_ok_def reg_mid_def used_ok_def live_iter_def)

lemma eg_same_on:
  assumes "eg_same eg eg'" "c < length (ht_iterators eg)"
  shows "it_ht (ht_iterators eg' ! c) = it_ht (ht_iterators eg ! c)"
  using assms eg_same_fields(4) [OF assms(1)] unfolding eg_same_def by (metis nth_map)

lemma iters_used_same: "eg_same eg eg' \<Longrightarrow> iters_used t eg \<Longrightarrow> iters_used t eg'"
  by (simp add: iters_used_def eg_same_fields eg_same_on)

lemma iter_on_nth: "iter_on its t p \<longleftrightarrow> (\<exists>c<length its. it_ht (its ! c) = IterHT t \<and> it_pos (its ! c) = p)"
  unfolding iter_on_def by (metis in_set_conv_nth)

lemma iter_onI: "c < length its \<Longrightarrow> it_ht (its ! c) = IterHT t \<Longrightarrow> iter_on its t (it_pos (its ! c))"
  unfolding iter_on_nth by blast

lemma lower_pos_spec:
  assumes "iters_used (ht_addr ht) eg" and ip: "ip = zend_hash_iterators_lower_pos ht s eg"
  shows "ip \<le> nNumUsed ht" "ip = nNumUsed ht \<or> s \<le> ip"
    "iter_on (ht_iterators eg) (ht_addr ht) p \<Longrightarrow> s \<le> p \<Longrightarrow> p < nNumUsed ht \<Longrightarrow> ip \<le> p"
    "ip = nNumUsed ht \<or> iter_on (ht_iterators eg) (ht_addr ht) ip"
proof -
  let ?its = "take (ht_iterators_used eg) (ht_iterators eg)"
  have on: "iter_on ?its (ht_addr ht) p = iter_on (ht_iterators eg) (ht_addr ht) p" for p
  proof -
    have "c < length ?its \<and> ?its ! c = ht_iterators eg ! c"
      if "c < length (ht_iterators eg)" "it_ht (ht_iterators eg ! c) = IterHT (ht_addr ht)" for c
      using assms(1) that by (simp add: iters_used_def)
    moreover have "c < length (ht_iterators eg) \<and> ?its ! c = ht_iterators eg ! c" if "c < length ?its" for c
      using that by simp
    ultimately show ?thesis unfolding iter_on_nth by metis
  qed
  note l = lower_pos_loop_spec [of "ht_addr ht" s ?its "nNumUsed ht"]
  show "ip \<le> nNumUsed ht" "ip = nNumUsed ht \<or> iter_on (ht_iterators eg) (ht_addr ht) ip"
    using l on by (auto simp: ip zend_hash_iterators_lower_pos_def)
  show "ip \<le> p" if "iter_on (ht_iterators eg) (ht_addr ht) p" "s \<le> p" "p < nNumUsed ht"
    using l that(2,3) that(1) [folded on] by (auto simp: iter_on_def ip zend_hash_iterators_lower_pos_def)
  show "ip = nNumUsed ht \<or> s \<le> ip" unfolding ip by (rule lower_pos_ge)
qed

lemma update_nth:
  assumes "iters_used (ht_addr ht) eg" "HT_HAS_ITERATORS ht" "c < length (ht_iterators eg)"
    "it_ht (ht_iterators eg ! c) = IterHT (ht_addr ht)"
  shows "it_pos (ht_iterators (zend_hash_iterators_update ht a b eg) ! c) =
    (if it_pos (ht_iterators eg ! c) = a then b else it_pos (ht_iterators eg ! c))"
  using assms by (simp add: iters_used_def zend_hash_iterators_update_def zend_hash_iterators_update_all_def map_used_nth)

text \<open>One run of the loop, at the kept place \<open>i\<close> that goes to place \<open>j\<close>.\<close>

lemma migrate_spec:
  assumes "HT_HAS_ITERATORS ht" "t = ht_addr ht" "i < nNumUsed ht"
    and "iters_used t eg" "j \<le> ip" "ip \<le> i" "i - ip < fuel"
  obtains eg' ip' where "migrate_iterators fuel ht i j ip eg = Inr (eg', ip')" "eg_same eg eg'"
    "\<And>c. c < length (ht_iterators eg) \<Longrightarrow> it_ht (ht_iterators eg ! c) = IterHT t \<Longrightarrow>
       it_pos (ht_iterators eg' ! c) =
         (let p = it_pos (ht_iterators eg ! c) in if p = ip \<or> ip \<le> p \<and> p < i then j else p)"
    "ip' \<le> nNumUsed ht" "i \<le> ip'" "ip < ip'" 
    "\<And>p. iter_on (ht_iterators eg) t p \<Longrightarrow> ip < p \<Longrightarrow> i \<le> p \<Longrightarrow> p < nNumUsed ht \<Longrightarrow> ip' \<le> p"
    "ip' = nNumUsed ht \<or> iter_on (ht_iterators eg) t ip'"
proof -
  let ?post = "\<lambda>ip eg eg' ip'. eg_same eg eg' \<and>
    (\<forall>c<length (ht_iterators eg). it_ht (ht_iterators eg ! c) = IterHT t \<longrightarrow>
       it_pos (ht_iterators eg' ! c) =
         (let p = it_pos (ht_iterators eg ! c) in if p = ip \<or> ip \<le> p \<and> p < i then j else p)) \<and>
    ip' \<le> nNumUsed ht \<and> i \<le> ip' \<and> ip < ip' \<and>
    (\<forall>p. iter_on (ht_iterators eg) t p \<longrightarrow> ip < p \<longrightarrow> i \<le> p \<longrightarrow> p < nNumUsed ht \<longrightarrow> ip' \<le> p) \<and>
    (ip' = nNumUsed ht \<or> iter_on (ht_iterators eg) t ip')"
  have "\<exists>eg' ip'. migrate_iterators fuel ht i j ip eg = Inr (eg', ip') \<and> ?post ip eg eg' ip'"
    using assms(4-7)
  proof (induction fuel arbitrary: ip eg)
    case (Suc fuel)
    define eg1 where "eg1 = zend_hash_iterators_update ht ip j eg"
    define ip1 where "ip1 = zend_hash_iterators_lower_pos ht (ip + 1) eg1"
    have same: "eg_same eg eg1" by (simp add: eg1_def)
    have used: "iters_used t eg1" using iters_used_same [OF same Suc.prems(1)] .
    have len: "length (ht_iterators eg1) = length (ht_iterators eg)" using eg_same_fields(4) [OF same] .
    have ht1: "it_ht (ht_iterators eg1 ! c) = it_ht (ht_iterators eg ! c)" if "c < length (ht_iterators eg)" for c
      using eg_same_on [OF same that] .
    have pos1: "it_pos (ht_iterators eg1 ! c) = (if it_pos (ht_iterators eg ! c) = ip then j else it_pos (ht_iterators eg ! c))"
      if "c < length (ht_iterators eg)" "it_ht (ht_iterators eg ! c) = IterHT t" for c
      unfolding eg1_def using update_nth [of ht eg c ip j] Suc.prems(1) assms(1,2) that by simp
    have on1: "iter_on (ht_iterators eg1) t p = iter_on (ht_iterators eg) t p" if "ip < p" for p
      unfolding iter_on_nth len using pos1 ht1 that Suc.prems(2) by (metis linorder_not_le nat_less_le)
    note l = lower_pos_spec [OF used [unfolded assms(2)] ip1_def, folded assms(2)]
    have ip1: "ip < ip1" using l(2) Suc.prems(3) assms(3) by auto
    have none: "\<not> (ip < p \<and> p < ip1)" if "iter_on (ht_iterators eg) t p" for p
      using l(3) [of p] l(1) on1 [of p] that by auto
    have step: "migrate_iterators (Suc fuel) ht i j ip eg =
        (if ip1 < i then migrate_iterators fuel ht i j ip1 eg1 else Inr (eg1, ip1))"
      by (simp add: Let_def ip1_def eg1_def)
    show ?case
    proof (cases "ip1 < i")
      case True
      then have "j \<le> ip1" "ip1 \<le> i" "i - ip1 < fuel" using ip1 Suc.prems by auto
      from Suc.IH [OF used this] obtain eg' ip' where r: "migrate_iterators fuel ht i j ip1 eg1 = Inr (eg', ip')"
        "eg_same eg1 eg'"
        "\<forall>c<length (ht_iterators eg1). it_ht (ht_iterators eg1 ! c) = IterHT t \<longrightarrow>
           it_pos (ht_iterators eg' ! c) =
             (let p = it_pos (ht_iterators eg1 ! c) in if p = ip1 \<or> ip1 \<le> p \<and> p < i then j else p)"
        "ip' \<le> nNumUsed ht" "i \<le> ip'" "ip1 < ip'"
        "\<forall>p. iter_on (ht_iterators eg1) t p \<longrightarrow> ip1 < p \<longrightarrow> i \<le> p \<longrightarrow> p < nNumUsed ht \<longrightarrow> ip' \<le> p"
        "ip' = nNumUsed ht \<or> iter_on (ht_iterators eg1) t ip'" by blast
      have "it_pos (ht_iterators eg' ! c) =
          (let p = it_pos (ht_iterators eg ! c) in if p = ip \<or> ip \<le> p \<and> p < i then j else p)"
        if c: "c < length (ht_iterators eg)" "it_ht (ht_iterators eg ! c) = IterHT t" for c
      proof -
        let ?p = "it_pos (ht_iterators eg ! c)"
        have "iter_on (ht_iterators eg) t ?p" using c by (auto simp: iter_on_nth)
        then have "\<not> (ip < ?p \<and> ?p < ip1)" by (rule none)
        moreover have "it_pos (ht_iterators eg' ! c) =
             (let p = it_pos (ht_iterators eg1 ! c) in if p = ip1 \<or> ip1 \<le> p \<and> p < i then j else p)"
          using r(3) c len ht1 by simp
        ultimately show ?thesis using pos1 [OF c] True ip1 Suc.prems(2) by (auto simp: Let_def)
      qed
      then show ?thesis using r True ip1 on1 eg_same_trans [OF same r(2)] unfolding step
        by (intro exI [of _ eg'] exI [of _ ip']) auto
    next
      case False
      then have "it_pos (ht_iterators eg1 ! c) =
          (let p = it_pos (ht_iterators eg ! c) in if p = ip \<or> ip \<le> p \<and> p < i then j else p)"
        if c: "c < length (ht_iterators eg)" "it_ht (ht_iterators eg ! c) = IterHT t" for c
      proof -
        have "iter_on (ht_iterators eg) t (it_pos (ht_iterators eg ! c))" using c by (auto simp: iter_on_nth)
        then show ?thesis using none [of "it_pos (ht_iterators eg ! c)"] pos1 [OF c] False by (auto simp: Let_def)
      qed
      then show ?thesis using False ip1 l on1 same unfolding step
        by (intro exI [of _ eg1] exI [of _ ip1]) auto
    qed
  qed simp
  then show thesis using that by blast
qed

subsection \<open>The iterators when place \<open>i\<close> is reached\<close>

text \<open>\<open>its0\<close> are the iterators before the loop, \<open>its\<close> those when it reaches place \<open>i\<close>.\<close>

definition iters_at :: "nat \<Rightarrow> (nat \<Rightarrow> bool) \<Rightarrow> HashTableIterator list \<Rightarrow> nat \<Rightarrow> HashTableIterator list \<Rightarrow> bool" where
  "iters_at t cp its0 i its \<longleftrightarrow>
     (\<forall>c<length its0. it_ht (its0 ! c) = IterHT t \<longrightarrow>
        it_pos (its ! c) =
          (let p = it_pos (its0 ! c)
           in if i \<le> p \<or> p \<in> set (waiting cp (iter_on its0 t) i) then p
              else kept_before cp (followed_place cp (iter_on its0 t) p)))"

definition next_at :: "nat \<Rightarrow> (nat \<Rightarrow> bool) \<Rightarrow> HashTableIterator list \<Rightarrow> nat \<Rightarrow> nat \<Rightarrow> nat \<Rightarrow> bool" where
  "next_at t cp its0 n i ip \<longleftrightarrow> ip \<le> n \<and>
     (\<forall>p. iter_on its0 t p \<longrightarrow> p < n \<longrightarrow> i \<le> p \<or> p \<in> set (waiting cp (iter_on its0 t) i) \<longrightarrow> ip \<le> p) \<and>
     (ip = n \<or> iter_on its0 t ip \<and> (i \<le> ip \<or> ip \<in> set (waiting cp (iter_on its0 t) i)))"

text \<open>At the first place that is dropped, and before it, no iterator has moved.\<close>

lemma waiting_first: "(\<And>k. Suc k < i \<Longrightarrow> cp k) \<Longrightarrow> waiting cp it i = []"
proof (cases i)
  case (Suc k)
  moreover assume "\<And>k. Suc k < i \<Longrightarrow> cp k"
  ultimately show ?thesis using waiting_none [of k cp it] by simp
qed simp

lemma iters_at_first:
  assumes "\<And>k. Suc k < i \<Longrightarrow> cp k"
  shows "iters_at t cp its0 i its0"
proof -
  have "kept_before cp p = p" if "p < i" for p using that assms by (intro kept_before_all) simp
  moreover have "waiting cp it p = []" if "p \<le> i" for it p using that assms by (intro waiting_first) simp
  ultimately show ?thesis by (auto simp: iters_at_def followed_place_def Let_def)
qed

lemma next_at_first:
  assumes "\<And>k. Suc k < i \<Longrightarrow> cp k" "iters_used (ht_addr ht) eg" "its0 = ht_iterators eg" "i \<le> nNumUsed ht"
  shows "next_at (ht_addr ht) cp its0 (nNumUsed ht) i (zend_hash_iterators_lower_pos ht i eg)"
proof -
  let ?ip = "zend_hash_iterators_lower_pos ht i eg"
  have w: "waiting cp it i = []" for it using assms(1) by (rule waiting_first)
  have "?ip \<le> p" if "iter_on (ht_iterators eg) (ht_addr ht) p" "i \<le> p" "p < nNumUsed ht" for p
    using lower_pos_spec(3) [OF assms(2) refl that] .
  then show ?thesis using lower_pos_spec(1,2,4) [OF assms(2), of ?ip i] assms(3,4) w
    by (auto simp: next_at_def)
qed

text \<open>A place that is dropped.\<close>

lemma iters_at_skip:
  assumes "iters_at t cp its0 i its" "\<not> cp i" "\<not> (\<forall>k<i. cp k)"
  shows "iters_at t cp its0 (Suc i) its"
proof -
  have w: "waiting cp (iter_on its0 t) (Suc i) = waiting cp (iter_on its0 t) i @ filter (iter_on its0 t) [i]"
    using assms(2,3) by auto
  have "i \<le> p \<or> p \<in> set (waiting cp (iter_on its0 t) i) \<longleftrightarrow> Suc i \<le> p \<or> p \<in> set (waiting cp (iter_on its0 t) (Suc i))"
    if "iter_on its0 t p" for p
    unfolding w using that by (cases "p = i") (auto simp: Suc_le_eq)
  moreover have "iter_on its0 t (it_pos (its0 ! c))" if "c < length its0" "it_ht (its0 ! c) = IterHT t" for c
    using that by (auto simp: iter_on_nth)
  ultimately show ?thesis using assms(1) unfolding iters_at_def Let_def by simp
qed

lemma next_at_skip:
  assumes "next_at t cp its0 n i ip" "\<not> cp i" "\<not> (\<forall>k<i. cp k)"
  shows "next_at t cp its0 n (Suc i) ip"
proof -
  have w: "waiting cp (iter_on its0 t) (Suc i) = waiting cp (iter_on its0 t) i @ filter (iter_on its0 t) [i]"
    using assms(2,3) by auto
  have "Suc i \<le> p \<or> p \<in> set (waiting cp (iter_on its0 t) (Suc i)) \<longleftrightarrow> i \<le> p \<or> p \<in> set (waiting cp (iter_on its0 t) i)"
    if "iter_on its0 t p" for p
    unfolding w using that by (cases "p = i") (auto simp: Suc_le_eq)
  then show ?thesis using assms(1) unfolding next_at_def by blast
qed

text \<open>A place that is kept, before the next iterator.\<close>

lemma kept_early:
  assumes "iters_at t cp its0 i its" "next_at t cp its0 n i ip" "cp i" "i < ip" "i < n"
  shows "iters_at t cp its0 (Suc i) its" "next_at t cp its0 n (Suc i) ip"
proof -
  let ?it = "iter_on its0 t"
  have w: "waiting cp ?it i = []"
  proof (rule ccontr)
    assume "waiting cp ?it i \<noteq> []"
    then have "hd (waiting cp ?it i) \<in> set (waiting cp ?it i)" by simp
    moreover from waiting_iter [OF this] have "?it (hd (waiting cp ?it i))" "hd (waiting cp ?it i) < i" by simp_all
    ultimately show False using assms(2,4,5) by (auto simp: next_at_def)
  qed
  have i: "\<not> ?it i" using assms(2,4,5) by (auto simp: next_at_def)
  then have "it_pos (its0 ! c) \<noteq> i" if "c < length its0" "it_ht (its0 ! c) = IterHT t" for c
    using that by (auto simp: iter_on_nth)
  then show "iters_at t cp its0 (Suc i) its"
    using assms(1,3) w by (auto simp: iters_at_def Let_def Suc_le_eq nat_less_le)
  show "next_at t cp its0 n (Suc i) ip"
    using assms(2-4) w i by (auto simp: next_at_def Suc_le_eq)
qed

text \<open>A place that is kept, with iterators to take along.\<close>

lemma kept_moves:
  assumes at: "iters_at t cp its0 i (ht_iterators eg)" and nx: "next_at t cp its0 (nNumUsed ht) i ip"
    and cp: "cp i" "ip \<le> i" "i < nNumUsed ht" and drop: "\<not> (\<forall>k<i. cp k)"
    and ht: "HT_HAS_ITERATORS ht" "t = ht_addr ht" "iters_used t eg"
    and same: "its0 = ht_iterators eg0" "eg_same eg0 eg"
  obtains eg' ip' where "migrate_iterators (Suc i) ht i (kept_before cp i) ip eg = Inr (eg', ip')" "eg_same eg eg'"
    "iters_at t cp its0 (Suc i) (ht_iterators eg')" "next_at t cp its0 (nNumUsed ht) (Suc i) ip'"
proof -
  let ?it = "iter_on its0 t" and ?n = "nNumUsed ht"
  let ?w = "waiting cp (iter_on its0 t) i"
  let ?fin = "\<lambda>p. kept_before cp (followed_place cp ?it p)"
  have ip: "?it ip" "i \<le> ip \<or> ip \<in> set ?w" using nx cp by (auto simp: next_at_def)
  have le: "ip \<le> p" if "?it p" "p < ?n" "i \<le> p \<or> p \<in> set ?w" for p
    using nx that unfolding next_at_def by blast
  have len: "length (ht_iterators eg) = length its0" using eg_same_fields(4) [OF same(2)] same(1) by simp
  have hts: "it_ht (ht_iterators eg ! c) = it_ht (its0 ! c)" if "c < length its0" for c
    using eg_same_on [OF same(2)] that same(1) by simp
  have pos: "it_pos (ht_iterators eg ! c) = (if i \<le> it_pos (its0 ! c) \<or> it_pos (its0 ! c) \<in> set ?w then it_pos (its0 ! c)
      else ?fin (it_pos (its0 ! c)))" if "c < length its0" "it_ht (its0 ! c) = IterHT t" for c
    using at that by (simp add: iters_at_def Let_def)
  have below: "?fin p < ip" if "?it p" "p < i" "p \<notin> set ?w" for p
    using followed_le [of cp ?it p] moved_below [OF that, of ip] ip(2) that(2) by linarith
  have fin: "?fin p = kept_before cp i" if "p \<in> set ?w" for p using waiting_kept [OF that] .
  have j: "kept_before cp i \<le> ip"
    using ip(2) kept_before_le [of cp i] followed_le [of cp ?it ip] fin [of ip] by auto
  have same_pos: "it_pos (ht_iterators eg ! c) = p \<longleftrightarrow> it_pos (its0 ! c) = p \<and> (i \<le> p \<or> p \<in> set ?w)"
    if c: "c < length its0" "it_ht (its0 ! c) = IterHT t" and "ip \<le> p" for c p
  proof (cases "i \<le> it_pos (its0 ! c) \<or> it_pos (its0 ! c) \<in> set ?w")
    case True
    then show ?thesis using pos [OF c] by auto
  next
    case False
    then have "?fin (it_pos (its0 ! c)) < p" using below [OF iter_onI [OF c]] that(3) by simp
    then show ?thesis using pos [OF c] False by auto
  qed
  have on: "iter_on (ht_iterators eg) t p \<longleftrightarrow> ?it p \<and> (i \<le> p \<or> p \<in> set ?w)" if "ip \<le> p" for p
  proof -
    have "it_ht (ht_iterators eg ! c) = IterHT t \<and> it_pos (ht_iterators eg ! c) = p \<longleftrightarrow>
        (it_ht (its0 ! c) = IterHT t \<and> it_pos (its0 ! c) = p) \<and> (i \<le> p \<or> p \<in> set ?w)" if "c < length its0" for c
      unfolding hts [OF that] using same_pos [OF that _ \<open>ip \<le> p\<close>] by (cases "it_ht (its0 ! c) = IterHT t") simp_all
    then show ?thesis unfolding iter_on_nth len by (cases "i \<le> p \<or> p \<in> set ?w") auto
  qed
  obtain eg' ip' where m: "migrate_iterators (Suc i) ht i (kept_before cp i) ip eg = Inr (eg', ip')" "eg_same eg eg'"
    "\<And>c. c < length (ht_iterators eg) \<Longrightarrow> it_ht (ht_iterators eg ! c) = IterHT t \<Longrightarrow>
       it_pos (ht_iterators eg' ! c) =
         (let p = it_pos (ht_iterators eg ! c) in if p = ip \<or> ip \<le> p \<and> p < i then kept_before cp i else p)"
    "ip' \<le> ?n" "i \<le> ip'" "ip < ip'"
    "\<And>p. iter_on (ht_iterators eg) t p \<Longrightarrow> ip < p \<Longrightarrow> i \<le> p \<Longrightarrow> p < ?n \<Longrightarrow> ip' \<le> p"
    "ip' = ?n \<or> iter_on (ht_iterators eg) t ip'"
  proof -
    have "i - ip < Suc i" by simp
    from migrate_spec [OF ht(1,2) cp(3) ht(3) j cp(2) this] that show thesis by blast
  qed
  have none: "?w = [] \<longleftrightarrow> ip = i"
  proof
    assume "?w = []"
    then show "ip = i" using ip(2) cp(2) by simp
  next
    assume i: "ip = i"
    show "?w = []"
    proof (rule ccontr)
      assume "?w \<noteq> []"
      then have h: "hd ?w \<in> set ?w" by simp
      then have "ip \<le> hd ?w" using le [of "hd ?w"] waiting_iter [OF h] cp(3) by simp
      then show False using waiting_iter [OF h] i by simp
    qed
  qed
  have w': "set (waiting cp ?it (Suc i)) = (if ip < i \<and> ?it i then {i} else {})"
    using cp(1,2) none by auto
  have "it_pos (ht_iterators eg' ! c) =
      (if Suc i \<le> p \<or> p \<in> set (waiting cp ?it (Suc i)) then p else ?fin p)"
    if c: "c < length its0" "it_ht (its0 ! c) = IterHT t" "p = it_pos (its0 ! c)" for c p
  proof -
    have p: "?it p" using c by (auto simp: iter_on_nth)
    have m': "it_pos (ht_iterators eg' ! c) =
        (let p = it_pos (ht_iterators eg ! c) in if p = ip \<or> ip \<le> p \<and> p < i then kept_before cp i else p)"
      using m(3) [of c] c hts len by simp
    consider "i < p" | "p = i" | "p \<in> set ?w" "p < i" | "p < i" "p \<notin> set ?w" by linarith
    then show ?thesis
    proof cases
      case 1
      then show ?thesis using m' pos [OF c(1,2)] c(3) cp(2) by simp
    next
      case 2
      have "?fin p = kept_before cp i" if "?w = []" using that 2 by (simp add: followed_place_def)
      then show ?thesis using m' pos [OF c(1,2)] c(3) cp(2) 2 p none w' by (auto simp: Let_def)
    next
      case 3
      have "ip \<le> p" using le [OF p] 3 cp(3) by simp
      then show ?thesis using m' pos [OF c(1,2)] c(3) 3 w' fin [OF 3(1)] by (auto simp: Let_def)
    next
      case 4
      then show ?thesis using m' pos [OF c(1,2)] c(3) w' below [OF p 4] by (auto simp: Let_def)
    qed
  qed
  then have at': "iters_at t cp its0 (Suc i) (ht_iterators eg')" by (simp only: iters_at_def Let_def) blast
  have nx': "next_at t cp its0 ?n (Suc i) ip'"
    unfolding next_at_def
  proof (intro conjI allI impI)
    show "ip' \<le> ?n" by (rule m(4))
    show "ip' \<le> p" if p: "?it p" "p < ?n" "Suc i \<le> p \<or> p \<in> set (waiting cp ?it (Suc i))" for p
    proof -
      have ge: "ip < p" "i \<le> p" using p(3) w' cp(2) by (auto split: if_splits)
      then show ?thesis using m(7) [of p] on [of p] p by simp
    qed
    show "ip' = ?n \<or> ?it ip' \<and> (Suc i \<le> ip' \<or> ip' \<in> set (waiting cp ?it (Suc i)))"
    proof (cases "ip' = i")
      case True
      then show ?thesis using m(6,8) on [of ip'] unfolding w' by auto
    next
      case False
      then show ?thesis using m(5,6,8) on [of ip'] by auto
    qed
  qed
  show thesis by (rule that [OF m(1,2) at' nx'])
qed

text \<open>After the last place.\<close>

lemma iters_at_last:
  assumes "iters_at t cp its0 n its" "c < length its0" "it_ht (its0 ! c) = IterHT t"
  shows "min (it_pos (its ! c)) (kept_before cp n) =
    kept_before cp (min (followed_place cp (iter_on its0 t) (it_pos (its0 ! c))) n)"
proof -
  let ?p = "it_pos (its0 ! c)" and ?it = "iter_on its0 t"
  let ?f = "followed_place cp ?it ?p"
  have le: "kept_before cp ?f \<le> ?p" by (rule followed_le)
  have f: "?p \<le> ?f" "?f \<le> Suc ?p" by (simp_all add: followed_place_def)
  have pos: "it_pos (its ! c) = (if n \<le> ?p \<or> ?p \<in> set (waiting cp ?it n) then ?p else kept_before cp ?f)"
    using assms by (simp add: iters_at_def Let_def)
  consider "n \<le> ?p" | "?p < n" "?p \<in> set (waiting cp ?it n)" | "?p < n" "?p \<notin> set (waiting cp ?it n)" by linarith
  then show ?thesis
  proof cases
    case 1
    have "min ?f n = n" "min ?p (kept_before cp n) = kept_before cp n"
      using 1 f kept_before_le [of cp n] by (simp_all add: min_def)
    then show ?thesis using 1 pos by simp
  next
    case 2
    have "kept_before cp ?f = kept_before cp n" by (rule waiting_kept [OF 2(2)])
    moreover have "min ?f n = ?f" using 2(1) f by simp
    ultimately show ?thesis using pos 2 le by simp
  next
    case 3
    moreover have "min ?f n = ?f" using 3(1) f by simp
    moreover have "kept_before cp ?f \<le> kept_before cp n" using 3(1) f by (intro kept_before_mono) simp
    ultimately show ?thesis using pos by simp
  qed
qed

end
