(* ===== verification/HashDup.thy ===== *)
theory HashDup
  imports HashMigrate
begin

text \<open>
  Copying a table: \<open>zend_array_dup\<close>, with its iterators, and \<open>zend_array_to_list\<close>
  (\<open>Zend/zend_hash.c\<close>). A copy drops the references nobody else holds, follows
  \<open>IS_INDIRECT\<close> values and, in a mixed table, closes the holes.
\<close>

subsection \<open>Reference counted values\<close>

text \<open>
  What the copy reads and writes of the values outside the table: the references with their
  counts, the arrays' own counts and whether an array is immutable. \<open>gc_addrefs\<close> lists the
  values that \<open>Z_ADDREF_P\<close> was called on.
\<close>

record zend_reference =
  rf_count :: nat
  rf_val :: zval

record gc_heap =
  gc_ref :: "nat \<Rightarrow> zend_reference"
  gc_arr_count :: "nat \<Rightarrow> nat"
  gc_immutable :: "nat \<Rightarrow> bool"
  gc_addrefs :: "zval list"

definition Z_OPT_REFCOUNTED :: "gc_heap \<Rightarrow> zval \<Rightarrow> bool" where
  "Z_OPT_REFCOUNTED gc v =
     (case v of IS_STRING s \<Rightarrow> \<not> zs_interned s | IS_ARRAY a \<Rightarrow> \<not> gc_immutable gc a
      | IS_OBJECT a \<Rightarrow> True | IS_RESOURCE a \<Rightarrow> True | IS_REFERENCE r \<Rightarrow> True | _ \<Rightarrow> False)"

definition Z_ADDREF :: "zval \<Rightarrow> gc_heap \<Rightarrow> gc_heap" where
  "Z_ADDREF v gc =
     gc\<lparr>gc_ref := (case v of IS_REFERENCE r \<Rightarrow>
                     (gc_ref gc)(r := (gc_ref gc r)\<lparr>rf_count := rf_count (gc_ref gc r) + 1\<rparr>)
                   | _ \<Rightarrow> gc_ref gc),
        gc_arr_count := (case v of IS_ARRAY a \<Rightarrow> (gc_arr_count gc)(a := gc_arr_count gc a + 1)
                         | _ \<Rightarrow> gc_arr_count gc),
        gc_addrefs := gc_addrefs gc @ [v]\<rparr>"

subsection \<open>One value\<close>

definition dup_source :: "(nat \<Rightarrow> zval) \<Rightarrow> zval \<Rightarrow> bool \<Rightarrow> bool \<Rightarrow> zval option" where
  "dup_source ind data packed with_holes =
     (if with_holes then
        let data = (if \<not> packed then (case data of IS_INDIRECT a \<Rightarrow> ind a | _ \<Rightarrow> data) else data)
        in if data = IS_UNDEF then None else Some data
      else if \<not> packed then
        (case data of IS_INDIRECT a \<Rightarrow> if ind a = IS_UNDEF then None else Some (ind a) | _ \<Rightarrow> Some data)
      else Some data)"

text \<open>The \<open>do { } while (0)\<close> that takes a reference to the value, or out of it.\<close>

definition dup_share :: "nat \<Rightarrow> zval \<Rightarrow> gc_heap \<Rightarrow> zval \<times> gc_heap" where
  "dup_share source data gc =
     (if Z_OPT_REFCOUNTED gc data then
        (case data of
           IS_REFERENCE r \<Rightarrow>
             if rf_count (gc_ref gc r) = 1 \<and> rf_val (gc_ref gc r) \<noteq> IS_ARRAY source then
               let data = rf_val (gc_ref gc r)
               in if \<not> Z_OPT_REFCOUNTED gc data then (data, gc) else (data, Z_ADDREF data gc)
             else (data, Z_ADDREF data gc)
         | _ \<Rightarrow> (data, Z_ADDREF data gc))
      else (data, gc))"

definition zend_array_dup_value :: "nat \<Rightarrow> (nat \<Rightarrow> zval) \<Rightarrow> zval \<Rightarrow> bool \<Rightarrow> bool \<Rightarrow> gc_heap
    \<Rightarrow> (zval \<times> gc_heap) option" where
  "zend_array_dup_value source ind data packed with_holes gc =
     (case dup_source ind data packed with_holes of
        None \<Rightarrow> None
      | Some data \<Rightarrow> Some (dup_share source data gc))"

subsection \<open>The iterators\<close>

fun dup_iterators_loop :: "nat list \<Rightarrow> nat \<Rightarrow> nat \<Rightarrow> executor_globals \<times> heap
    \<Rightarrow> error + (executor_globals \<times> heap)" where
  "dup_iterators_loop [] source target st = Inr st"
| "dup_iterators_loop (iter_index # is) source target st =
     bindE (rdi (ht_iterators (fst st)) iter_index) (\<lambda>iter.
       if it_ht iter = IterHT source then
         let ((eg, hp), copy_idx) = zend_hash_iterator_add target (it_pos iter) st
         in bindE (rdi (ht_iterators eg) iter_index) (\<lambda>iter.
            bindE (rdi (ht_iterators eg) copy_idx) (\<lambda>copy_iter.
              let its = (ht_iterators eg)[copy_idx := copy_iter\<lparr>it_next_copy := it_next_copy iter\<rparr>]
              in bindE (rdi its iter_index) (\<lambda>iter.
                   dup_iterators_loop is source target
                     (eg\<lparr>ht_iterators := its[iter_index := iter\<lparr>it_next_copy := copy_idx\<rparr>]\<rparr>, hp))))
       else dup_iterators_loop is source target st)"

definition zend_array_dup_ht_iterators :: "nat \<Rightarrow> nat \<Rightarrow> executor_globals \<times> heap
    \<Rightarrow> error + (executor_globals \<times> heap)" where
  "zend_array_dup_ht_iterators source target st =
     dup_iterators_loop [0..<ht_iterators_used (fst st)] source target st"

subsection \<open>The elements\<close>

fun dup_packed_loop :: "nat list \<Rightarrow> HashTable \<Rightarrow> (nat \<Rightarrow> zval) \<Rightarrow> bool \<Rightarrow> zval option list \<times> gc_heap
    \<Rightarrow> error + (zval option list \<times> gc_heap)" where
  "dup_packed_loop [] source ind with_holes st = Inr st"
| "dup_packed_loop (i # is) source ind with_holes st =
     (case st of (q, gc) \<Rightarrow>
        bindE (rd (arPacked source) i) (\<lambda>v.
          case zend_array_dup_value (ht_addr source) ind v True with_holes gc of
            Some (v, gc) \<Rightarrow> bindE (wr q i v) (\<lambda>q. dup_packed_loop is source ind with_holes (q, gc))
          | None \<Rightarrow>
              bindE (if with_holes then wr q i IS_UNDEF else Inr q) (\<lambda>q.
                dup_packed_loop is source ind with_holes (q, gc))))"

text \<open>The table under construction is at its address in the heap; the references are apart.\<close>

type_synonym dup_state = "executor_globals \<times> heap \<times> gc_heap"

definition zend_array_dup_packed_elements :: "HashTable \<Rightarrow> nat \<Rightarrow> bool \<Rightarrow> dup_state \<Rightarrow> error + dup_state" where
  "zend_array_dup_packed_elements source t with_holes st =
     (case st of (eg, hp, gc) \<Rightarrow>
        bindE (dup_packed_loop (0 # [1..<nNumUsed source]) source (indirect eg) with_holes (arPacked (hp t), gc))
          (\<lambda>(q, gc).
            let hp = hp(t := (hp t)\<lparr>arPacked := q\<rparr>) in
            if HT_HAS_ITERATORS source
            then bindE (zend_array_dup_ht_iterators (ht_addr source) t (eg, hp)) (\<lambda>(eg, hp). Inr (eg, hp, gc))
            else Inr (eg, hp, gc)))"

text \<open>
  \<open>zend_array_dup_element\<close> of a mixed table: \<open>None\<close> when there is nothing to copy. The place
  \<open>idx\<close> is that of the target's bucket \<open>q\<close>.
\<close>

definition zend_array_dup_element :: "HashTable \<Rightarrow> nat \<Rightarrow> Bucket \<Rightarrow> bool \<Rightarrow> bool
    \<Rightarrow> HashTable \<times> executor_globals \<times> gc_heap \<Rightarrow> error + (HashTable \<times> executor_globals \<times> gc_heap) option" where
  "zend_array_dup_element source idx p static_keys with_holes st =
     (case st of (target, eg, gc) \<Rightarrow>
        case zend_array_dup_value (ht_addr source) (indirect eg) (b_val p) False with_holes gc of
          None \<Rightarrow> Inr None
        | Some (v, gc) \<Rightarrow>
            let eg = (if \<not> static_keys
                      then (case b_key p of Some k \<Rightarrow> emit (EvStrAddref k) eg | None \<Rightarrow> eg) else eg);
                nIndex = slot (nTableMask target) (b_h p)
            in bindE (rdi (arHash target) nIndex) (\<lambda>nxt.
               bindE (wr (arData target) idx \<lparr>b_val = v, b_next = nxt, b_h = b_h p, b_key = b_key p\<rparr>) (\<lambda>d.
                 Inr (Some (target\<lparr>arData := d, arHash := (arHash target)[nIndex := idx]\<rparr>, eg, gc)))))"

text \<open>
  The loops after the first place without a copy. The second differs from the first in the
  migration of the target's iterators, whose next place is \<open>iter_pos\<close>; it is \<open>None\<close> in the
  first.
\<close>

fun dup_compact :: "nat list \<Rightarrow> nat \<Rightarrow> nat option \<Rightarrow> HashTable \<Rightarrow> bool \<Rightarrow> bool
    \<Rightarrow> HashTable \<times> executor_globals \<times> gc_heap
    \<Rightarrow> error + ((HashTable \<times> executor_globals \<times> gc_heap) \<times> nat)" where
  "dup_compact [] target_idx iter_pos source static_keys with_holes st = Inr (st, target_idx)"
| "dup_compact (idx # is) target_idx iter_pos source static_keys with_holes st =
     bindE (rd (arData source) idx) (\<lambda>p.
     bindE (zend_array_dup_element source target_idx p static_keys with_holes st) (\<lambda>r.
       case r of
         None \<Rightarrow> dup_compact is target_idx iter_pos source static_keys with_holes st
       | Some (target, eg, gc) \<Rightarrow>
           let target = (if nInternalPointer source = idx then target\<lparr>nInternalPointer := target_idx\<rparr> else target)
           in bindE
                (case iter_pos of
                   None \<Rightarrow> Inr (eg, None)
                 | Some ip \<Rightarrow>
                     if idx \<ge> ip
                     then bindE (migrate_iterators (Suc idx) target idx target_idx ip eg) (\<lambda>(eg, ip). Inr (eg, Some ip))
                     else Inr (eg, Some ip))
                (\<lambda>(eg, iter_pos).
                  dup_compact is (target_idx + 1) iter_pos source static_keys with_holes (target, eg, gc))))"

fun dup_elements_loop :: "nat list \<Rightarrow> nat \<Rightarrow> HashTable \<Rightarrow> bool \<Rightarrow> bool
    \<Rightarrow> HashTable \<times> executor_globals \<times> gc_heap
    \<Rightarrow> error + ((HashTable \<times> executor_globals \<times> gc_heap) \<times> nat)" where
  "dup_elements_loop [] idx source static_keys with_holes st = Inr (st, idx)"
| "dup_elements_loop (i # is) idx source static_keys with_holes st =
     bindE (rd (arData source) i) (\<lambda>p.
     bindE (zend_array_dup_element source i p static_keys with_holes st) (\<lambda>r.
       case r of
         Some st \<Rightarrow> dup_elements_loop is (i + 1) source static_keys with_holes st
       | None \<Rightarrow>
           (case st of (target, eg, gc) \<Rightarrow>
              if \<not> HT_HAS_ITERATORS target
              then dup_compact is i None source static_keys with_holes st
              else let target = target\<lparr>nNumUsed := nNumUsed source\<rparr>
                   in dup_compact is i (Some (zend_hash_iterators_lower_pos target (i + 1) eg))
                        source static_keys with_holes (target, eg, gc))))"

definition zend_array_dup_elements :: "HashTable \<Rightarrow> nat \<Rightarrow> bool \<Rightarrow> bool \<Rightarrow> dup_state \<Rightarrow> error + dup_state \<times> nat" where
  "zend_array_dup_elements source t static_keys with_holes st =
     (case st of (eg, hp, gc) \<Rightarrow>
        bindE (if HT_HAS_ITERATORS source then zend_array_dup_ht_iterators (ht_addr source) t (eg, hp) else Inr (eg, hp))
          (\<lambda>(eg, hp).
            bindE (dup_elements_loop (0 # [1..<nNumUsed source]) 0 source static_keys with_holes (hp t, eg, gc))
              (\<lambda>((target, eg, gc), idx). Inr ((eg, hp(t := target), gc), idx))))"

subsection \<open>A table\<close>

text \<open>
  \<open>t\<close> is the address that \<open>ALLOC_HASHTABLE\<close> returns. The two counts of a mixed copy are
  written last; \<open>dup_elements\<close> does not read them before.
\<close>

definition gc_alloc :: "nat \<Rightarrow> gc_heap \<Rightarrow> gc_heap" where
  "gc_alloc t gc =
     gc\<lparr>gc_arr_count := (gc_arr_count gc)(t := 1), gc_immutable := (gc_immutable gc)(t := False)\<rparr>"

definition zend_array_dup :: "nat \<Rightarrow> nat \<Rightarrow> dup_state \<Rightarrow> error + dup_state" where
  "zend_array_dup s t st =
     (case st of (eg, hp, gc0) \<Rightarrow>
        let source = hp s;
            gc = gc_alloc t gc0;
            target = source\<lparr>ht_addr := t, f_persistent := False, nIteratorsCount := 0, pDestructor := ZVAL_PTR_DTOR\<rparr>
        in if nNumOfElements source = 0 then
             Inr (eg, hp(t := (zend_empty_array t)\<lparr>nNextFreeElement := nNextFreeElement source\<rparr>), gc)
           else if gc_immutable gc0 s then
             assertE (\<not> f_empty_ind source) (\<lambda>_.
               Inr (eg, hp(t := (if f_packed source
                    then target\<lparr>arPacked := realloc_used (nTableSize source) (nNumUsed source) (arPacked source)\<rparr>
                    else target\<lparr>arData := realloc_used (nTableSize source) (nNumUsed source) (arData source)\<rparr>)), gc))
           else if f_packed source then
             assertE (\<not> f_empty_ind source) (\<lambda>_.
               let target = HT_HASH_RESET_PACKED
                     (target\<lparr>nTableMask := HT_MIN_MASK, arPacked := replicate (nTableSize source) None,
                        nInternalPointer := (if nInternalPointer source < nNumUsed source
                                             then nInternalPointer source else 0)\<rparr>)
               in zend_array_dup_packed_elements source t (\<not> HT_IS_WITHOUT_HOLES target) (eg, hp(t := target), gc))
           else
             let target = HT_HASH_RESET
                   (target\<lparr>f_empty_ind := False, arData := replicate (nTableSize source) None,
                      nInternalPointer := (if nInternalPointer source < nNumUsed source
                                           then nInternalPointer source else 0),
                      nNumUsed := 0, nNumOfElements := 0\<rparr>)
             in bindE (zend_array_dup_elements source t (HT_HAS_STATIC_KEYS_ONLY target) (\<not> HT_IS_WITHOUT_HOLES source)
                    (eg, hp(t := target), gc))
                  (\<lambda>((eg, hp, gc), idx).
                    Inr (eg, hp(t := (hp t)\<lparr>nNumUsed := idx, nNumOfElements := idx\<rparr>), gc)))"

subsection \<open>What is copied\<close>

definition resolve :: "(nat \<Rightarrow> zval) \<Rightarrow> bool \<Rightarrow> zval \<Rightarrow> zval" where
  "resolve ind packed v = (if packed then v else case v of IS_INDIRECT a \<Rightarrow> ind a | _ \<Rightarrow> v)"

definition unwrapped :: "gc_heap \<Rightarrow> nat \<Rightarrow> zval \<Rightarrow> zval" where
  "unwrapped gc s v =
     (case v of
        IS_REFERENCE r \<Rightarrow>
          if rf_count (gc_ref gc r) = 1 \<and> rf_val (gc_ref gc r) \<noteq> IS_ARRAY s then rf_val (gc_ref gc r) else v
      | _ \<Rightarrow> v)"

definition copied :: "gc_heap \<Rightarrow> nat \<Rightarrow> (nat \<Rightarrow> zval) \<Rightarrow> bool \<Rightarrow> (hkey \<times> zval) list \<Rightarrow> (hkey \<times> zval) list" where
  "copied gc s ind packed xs =
     concat (map (\<lambda>(k, v). if resolve ind packed v = IS_UNDEF then []
                           else [(k, unwrapped gc s (resolve ind packed v))]) xs)"

text \<open>The values of the copy that are counted once more.\<close>

definition taken :: "gc_heap \<Rightarrow> (hkey \<times> zval) list \<Rightarrow> zval list" where
  "taken gc xs = filter (Z_OPT_REFCOUNTED gc) (map snd xs)"

text \<open>References are in use, and hold neither another reference nor nothing.\<close>

definition refs_ok :: "gc_heap \<Rightarrow> bool" where
  "refs_ok gc \<longleftrightarrow>
     (\<forall>r. 0 < rf_count (gc_ref gc r) \<and> rf_val (gc_ref gc r) \<noteq> IS_UNDEF \<and>
          (\<forall>r'. rf_val (gc_ref gc r) \<noteq> IS_REFERENCE r'))"

lemma copied_simps [simp]:
  "copied gc s ind packed [] = []"
  "copied gc s ind packed (xs @ ys) = copied gc s ind packed xs @ copied gc s ind packed ys"
  "copied gc s ind packed ((k, v) # xs) =
    (if resolve ind packed v = IS_UNDEF then [] else [(k, unwrapped gc s (resolve ind packed v))]) @
    copied gc s ind packed xs"
  by (simp_all add: copied_def)

lemma taken_simps [simp]: "taken gc [] = []" "taken gc (xs @ ys) = taken gc xs @ taken gc ys"
  "taken gc ((k, v) # xs) = (if Z_OPT_REFCOUNTED gc v then [v] else []) @ taken gc xs"
  by (simp_all add: taken_def)

lemma copied_keys: "fst ` set (copied gc s ind packed xs) \<subseteq> fst ` set xs"
proof (induction xs)
  case (Cons x xs)
  then show ?case by (cases x) (simp add: image_Un subset_insertI2)
qed simp

lemma copied_distinct: "distinct (map fst xs) \<Longrightarrow> distinct (map fst (copied gc s ind packed xs))"
proof (induction xs)
  case (Cons x xs)
  obtain k v where x: "x = (k, v)" by (cases x)
  have "k \<notin> fst ` set (copied gc s ind packed xs)"
    using copied_keys [of gc s ind packed xs] Cons.prems x by auto
  then show ?case using Cons x by simp
qed simp

lemma copied_live: "refs_ok gc \<Longrightarrow> v \<noteq> IS_UNDEF \<Longrightarrow> unwrapped gc s v \<noteq> IS_UNDEF"
  by (auto simp: unwrapped_def refs_ok_def split: zval.splits)

subsection \<open>Counting up does not change what is copied\<close>

definition same_view :: "nat \<Rightarrow> gc_heap \<Rightarrow> gc_heap \<Rightarrow> bool" where
  "same_view s gc gc' \<longleftrightarrow>
     unwrapped gc' s = unwrapped gc s \<and> Z_OPT_REFCOUNTED gc' = Z_OPT_REFCOUNTED gc \<and> refs_ok gc'"

lemma addref_refcounted [simp]: "Z_OPT_REFCOUNTED (Z_ADDREF v gc) = Z_OPT_REFCOUNTED gc"
  by (rule ext) (simp add: Z_OPT_REFCOUNTED_def Z_ADDREF_def split: zval.splits)

lemma addref_view:
  assumes "refs_ok gc"
  shows "same_view s gc (Z_ADDREF (unwrapped gc s v) gc)"
proof -
  define u where "u = unwrapped gc s v"
  let ?gc = "Z_ADDREF u gc"
  have ok: "refs_ok ?gc"
    using assms by (auto simp: refs_ok_def Z_ADDREF_def split: zval.splits)
  have "unwrapped ?gc s w = unwrapped gc s w" for w
  proof (cases "\<exists>r. u = IS_REFERENCE r")
    case True
    then obtain r where r: "u = IS_REFERENCE r" by auto
    then have "v = IS_REFERENCE r" "\<not> (rf_count (gc_ref gc r) = 1 \<and> rf_val (gc_ref gc r) \<noteq> IS_ARRAY s)"
      using assms by (auto simp: u_def unwrapped_def refs_ok_def split: zval.splits if_splits)
    moreover have "0 < rf_count (gc_ref gc r)" using assms by (simp add: refs_ok_def)
    ultimately show ?thesis unfolding r by (auto simp: Z_ADDREF_def unwrapped_def split: zval.splits)
  next
    case False
    then have "gc_ref ?gc = gc_ref gc" by (auto simp: Z_ADDREF_def split: zval.splits)
    then show ?thesis by (simp add: unwrapped_def cong: zval.case_cong if_cong)
  qed
  then show ?thesis using ok by (auto simp: same_view_def u_def)
qed

lemma same_view_refl: "refs_ok gc \<Longrightarrow> same_view s gc gc"
  by (simp add: same_view_def)

lemma same_view_trans: "same_view s a b \<Longrightarrow> same_view s b c \<Longrightarrow> same_view s a c"
  by (simp add: same_view_def)

lemma dup_share_eq:
  "dup_share s v gc =
    (unwrapped gc s v, if Z_OPT_REFCOUNTED gc (unwrapped gc s v) then Z_ADDREF (unwrapped gc s v) gc else gc)"
  by (simp add: dup_share_def unwrapped_def Z_OPT_REFCOUNTED_def Let_def split: zval.splits)

text \<open>One value, in terms of the references \<open>gc0\<close> at the beginning.\<close>

definition counted :: "gc_heap \<Rightarrow> nat \<Rightarrow> (hkey \<times> zval) list \<Rightarrow> gc_heap \<Rightarrow> bool" where
  "counted gc0 s xs gc \<longleftrightarrow> gc = fold Z_ADDREF (taken gc0 xs) gc0 \<and> same_view s gc0 gc"

lemma dup_value_eq:
  assumes "counted gc0 s xs gc" "with_holes \<or> v \<noteq> IS_UNDEF"
  shows "resolve ind packed v = IS_UNDEF \<Longrightarrow> zend_array_dup_value s ind v packed with_holes gc = None"
    "resolve ind packed v \<noteq> IS_UNDEF \<Longrightarrow>
      \<exists>gc'. zend_array_dup_value s ind v packed with_holes gc = Some (unwrapped gc0 s (resolve ind packed v), gc') \<and>
        counted gc0 s (xs @ [(k, unwrapped gc0 s (resolve ind packed v))]) gc'"
proof -
  let ?v = "resolve ind packed v"
  have src: "dup_source ind v packed with_holes = (if ?v = IS_UNDEF then None else Some ?v)"
    using assms(2) by (auto simp: dup_source_def resolve_def split: zval.splits)
  then show "?v = IS_UNDEF \<Longrightarrow> zend_array_dup_value s ind v packed with_holes gc = None"
    by (simp add: zend_array_dup_value_def)
  assume live: "?v \<noteq> IS_UNDEF"
  have view: "same_view s gc0 gc" and gc: "gc = fold Z_ADDREF (taken gc0 xs) gc0"
    using assms(1) unfolding counted_def by blast+
  let ?gc = "if Z_OPT_REFCOUNTED gc0 (unwrapped gc0 s ?v) then Z_ADDREF (unwrapped gc0 s ?v) gc else gc"
  have "zend_array_dup_value s ind v packed with_holes gc = Some (unwrapped gc0 s ?v, ?gc)"
    using live src view by (simp add: zend_array_dup_value_def dup_share_eq same_view_def)
  moreover have "same_view s gc0 ?gc"
    using view addref_view [of gc s ?v] same_view_trans [OF view] by (auto simp: same_view_def)
  moreover have "fold Z_ADDREF (taken gc0 (xs @ [(k, unwrapped gc0 s ?v)])) gc0 = ?gc"
    by (simp add: gc [symmetric])
  ultimately show "\<exists>gc'. zend_array_dup_value s ind v packed with_holes gc = Some (unwrapped gc0 s ?v, gc') \<and>
        counted gc0 s (xs @ [(k, unwrapped gc0 s ?v)]) gc'"
    by (intro exI [of _ ?gc]) (simp only: counted_def simp_thms)
qed

subsection \<open>What the loops do to the globals\<close>

definition ev_addrefs :: "event list \<Rightarrow> 8 word list list" where
  "ev_addrefs evs = concat (map (\<lambda>ev. case ev of EvStrAddref k \<Rightarrow> [zs_val k] | _ \<Rightarrow> []) evs)"

lemma ev_addrefs_simps [simp]: "ev_addrefs [] = []" "ev_addrefs (xs @ ys) = ev_addrefs xs @ ev_addrefs ys"
  "ev_addrefs [EvStrAddref k] = [zs_val k]"
  by (simp_all add: ev_addrefs_def)

text \<open>Positions of iterators on the table \<open>t\<close> differ, and the keys \<open>ks\<close> got a reference each.\<close>

definition iters_moved :: "nat \<Rightarrow> executor_globals \<Rightarrow> executor_globals \<Rightarrow> bool" where
  "iters_moved t eg eg' \<longleftrightarrow> eg_same eg eg' \<and>
     (\<forall>i. it_ht (ht_iterators eg ! i) \<noteq> IterHT t \<longrightarrow> i < length (ht_iterators eg) \<longrightarrow>
          ht_iterators eg' ! i = ht_iterators eg ! i)"

lemma iters_moved_refl [simp]: "iters_moved t eg eg"
  by (simp add: iters_moved_def)

lemma iters_moved_trans:
  assumes ab: "iters_moved t a b" and bc: "iters_moved t b c"
  shows "iters_moved t a c"
proof -
  have "length (ht_iterators b) = length (ht_iterators a)" using ab by (simp add: iters_moved_def eg_same_fields)
  then show ?thesis using assms eg_same_trans by (auto simp: iters_moved_def)
qed

lemma update_moved: "iters_moved (ht_addr ht) eg (zend_hash_iterators_update ht a b eg)"
proof -
  have "ht_iterators (map_used f eg) ! i = ht_iterators eg ! i"
    if "f (ht_iterators eg ! i) = ht_iterators eg ! i" "i < length (ht_iterators eg)" for f i
    using that by (auto simp: map_used_def nth_append min_def)
  then show ?thesis
    by (auto simp: iters_moved_def zend_hash_iterators_update_def zend_hash_iterators_update_all_def
        map_used_same)
qed

lemma migrate_moved:
  assumes "i < nNumUsed ht" "i - iter_pos < fuel"
  shows "\<exists>eg' ip. migrate_iterators fuel ht i j iter_pos eg = Inr (eg', ip) \<and> iters_moved (ht_addr ht) eg eg'"
  using assms(2)
proof (induction fuel arbitrary: iter_pos eg)
  case (Suc fuel)
  let ?eg = "zend_hash_iterators_update ht iter_pos j eg"
  let ?ip = "zend_hash_iterators_lower_pos ht (iter_pos + 1) ?eg"
  show ?case
  proof (cases "?ip < i")
    case True
    then have "iter_pos + 1 \<le> ?ip"
      using lower_pos_ge [of ht "iter_pos + 1" ?eg] assms(1) by auto
    then have "i - ?ip < fuel" using Suc.prems True by linarith
    from Suc.IH [OF this, of ?eg] obtain eg' ip where
      "migrate_iterators fuel ht i j ?ip ?eg = Inr (eg', ip)" "iters_moved (ht_addr ht) ?eg eg'" by auto
    then show ?thesis using True iters_moved_trans [OF update_moved] by (auto simp: Let_def)
  next
    case False
    then show ?thesis using update_moved by (simp add: Let_def)
  qed
qed simp

definition eg_dup :: "nat \<Rightarrow> executor_globals \<Rightarrow> executor_globals \<Rightarrow> 8 word list list \<Rightarrow> bool" where
  "eg_dup t eg eg' ks \<longleftrightarrow>
     (\<exists>evs. iters_moved t (eg\<lparr>events := events eg @ evs\<rparr>) eg' \<and>
        ev_addrefs evs = ks \<and> set evs \<subseteq> range EvStrAddref)"

lemma eg_dup_refl: "eg_dup t eg eg []"
  unfolding eg_dup_def by (rule exI [of _ "[]"]) simp

lemma eg_dup_moved: "eg_dup t eg eg1 ks \<Longrightarrow> iters_moved t eg1 eg2 \<Longrightarrow> eg_dup t eg eg2 ks"
  using iters_moved_trans unfolding eg_dup_def by blast

lemma eg_dup_emit:
  assumes "eg_dup t eg eg1 ks"
  shows "eg_dup t eg (emit (EvStrAddref k) eg1) (ks @ [zs_val k])"
proof -
  obtain evs where e: "iters_moved t (eg\<lparr>events := events eg @ evs\<rparr>) eg1" "ev_addrefs evs = ks"
    "set evs \<subseteq> range EvStrAddref" using assms by (auto simp: eg_dup_def)
  obtain its where eg1: "eg1 = eg\<lparr>ht_iterators := its, events := events eg @ evs\<rparr>"
    using e(1) unfolding iters_moved_def eg_same_def by (cases eg; cases eg1) simp
  have "iters_moved t (eg\<lparr>events := events eg @ (evs @ [EvStrAddref k])\<rparr>) (emit (EvStrAddref k) eg1)"
    using e(1) by (simp add: eg1 iters_moved_def eg_same_def emit_def)
  then show ?thesis using e unfolding eg_dup_def by (intro exI [of _ "evs @ [EvStrAddref k]"]) simp
qed

lemma eg_dup_indirect: "eg_dup t eg eg' ks \<Longrightarrow> indirect eg' = indirect eg"
  by (auto simp: eg_dup_def iters_moved_def dest: eg_same_fields)

subsection \<open>Copying the buckets of a mixed table\<close>

text \<open>
  After the places below \<open>i\<close>, of which \<open>j\<close> were copied. The pointer of the copy is on the copy of
  the bucket that the source's is on, once there is one.
\<close>

definition cents :: "HashTable \<Rightarrow> gc_heap \<Rightarrow> executor_globals \<Rightarrow> nat \<Rightarrow> (hkey \<times> zval) list" where
  "cents src gc eg n = copied gc (ht_addr src) (indirect eg) False (bents (arData src) n)"

definition pointer_at :: "HashTable \<Rightarrow> gc_heap \<Rightarrow> executor_globals \<Rightarrow> nat \<Rightarrow> nat \<Rightarrow> nat" where
  "pointer_at src gc eg p0 i =
     (let ip = nInternalPointer src
      in if ip < i \<and> cents src gc eg (Suc ip) \<noteq> cents src gc eg ip then length (cents src gc eg ip) else p0)"

definition dup_inv :: "HashTable \<Rightarrow> gc_heap \<Rightarrow> executor_globals \<Rightarrow> HashTable \<Rightarrow> nat \<Rightarrow> nat
    \<Rightarrow> HashTable \<times> executor_globals \<times> gc_heap \<Rightarrow> bool" where
  "dup_inv src gc0 eg0 tg0 i j st \<longleftrightarrow>
     (case st of (tg, eg, gc) \<Rightarrow>
        tg = tg0\<lparr>arData := arData tg, arHash := arHash tg, nInternalPointer := nInternalPointer tg, nNumUsed := nNumUsed tg\<rparr> \<and>
        length (arData tg) = length (arData src) \<and> length (arHash tg) = length (arHash tg0) \<and>
        chains_ok (arData tg) (nTableMask tg0) (arHash tg) j \<and> j \<le> i \<and>
        (\<forall>k<j. bucket_ok (f_static_keys src) (arData tg ! k) \<and> bucket_entry (arData tg ! k) \<noteq> None) \<and>
        bents (arData tg) j = cents src gc0 eg0 i \<and>
        counted gc0 (ht_addr src) (cents src gc0 eg0 i) gc \<and>
        eg_dup (ht_addr tg0) eg0 eg (if f_static_keys src then [] else string_keys_of (cents src gc0 eg0 i)) \<and>
        nInternalPointer tg = pointer_at src gc0 eg0 (nInternalPointer tg0) i)"

lemma cents_0 [simp]: "cents src gc eg 0 = []"
  by (simp add: cents_def)

lemma cents_Suc:
  assumes "arData src ! i = Some p"
  shows "cents src gc eg (Suc i) = cents src gc eg i @
    (if resolve (indirect eg) False (b_val p) = IS_UNDEF then []
     else [(bucket_key p, unwrapped gc (ht_addr src) (resolve (indirect eg) False (b_val p)))])"
  using assms by (simp add: cents_def bents_Suc bucket_entry_def) (simp add: resolve_def)

lemma cents_grow:
  assumes "i \<le> n" "\<And>k. k < n \<Longrightarrow> arData src ! k \<noteq> None"
  shows "length (cents src gc eg n) \<le> length (cents src gc eg i) + (n - i)"
  using assms
proof (induction "n - i" arbitrary: n)
  case (Suc m)
  then obtain n' where n: "n = Suc n'" "i \<le> n'" "m = n' - i" by (cases n) auto
  obtain p where "arData src ! n' = Some p" using Suc.prems(2) [of n'] n by auto
  then have "length (cents src gc eg n) \<le> length (cents src gc eg n') + 1"
    using cents_Suc [of src n' p gc eg] n(1) by simp
  then show ?case using Suc.hyps(1) [OF n(3,2)] Suc.prems(2) n by fastforce
qed simp

lemma bents_length: "(\<And>k. k < j \<Longrightarrow> bucket_entry (d ! k) \<noteq> None) \<Longrightarrow> length (bents d j) = j"
  by (simp add: bents_def length_entries_full)

lemma dup_inv_length: "dup_inv src gc0 eg0 tg0 i j st \<Longrightarrow> length (cents src gc0 eg0 i) = j"
  using bents_length [of j "arData (fst st)"] by (simp add: dup_inv_def split: prod.splits)

lemma dup_step:
  assumes inv: "dup_inv src gc0 eg0 tg0 i j (tg, eg, gc)"
    and i: "i < length (arData src)" "arData src ! i = Some p" "bucket_ok (f_static_keys src) (Some p)"
    and holes: "with_holes \<or> b_val p \<noteq> IS_UNDEF" and refs: "refs_ok gc0"
    and sl: "\<And>h. slot (nTableMask tg0) h < length (arHash tg0)"
  obtains (skip) "zend_array_dup_element src j p (f_static_keys src) with_holes (tg, eg, gc) = Inr None"
      "dup_inv src gc0 eg0 tg0 (Suc i) j (tg, eg, gc)" "cents src gc0 eg0 (Suc i) = cents src gc0 eg0 i"
  | (copy) tg' eg' gc' where
      "zend_array_dup_element src j p (f_static_keys src) with_holes (tg, eg, gc) = Inr (Some (tg', eg', gc'))"
      "dup_inv src gc0 eg0 tg0 (Suc i) (Suc j)
         (tg'\<lparr>nInternalPointer := (if nInternalPointer src = i then j else nInternalPointer tg')\<rparr>, eg', gc')"
      "nInternalPointer tg' = nInternalPointer tg" "nNumUsed tg' = nNumUsed tg" "ht_addr tg' = ht_addr tg"
      "ht_iterators eg' = ht_iterators eg"
proof -
  let ?r = "resolve (indirect eg0) False (b_val p)" and ?ip = "nInternalPointer src"
  have eg: "eg_dup (ht_addr tg0) eg0 eg (if f_static_keys src then [] else string_keys_of (cents src gc0 eg0 i))"
    and cnt: "counted gc0 (ht_addr src) (cents src gc0 eg0 i) gc"
    and tg: "tg = tg0\<lparr>arData := arData tg, arHash := arHash tg, nInternalPointer := nInternalPointer tg, nNumUsed := nNumUsed tg\<rparr>"
    and len: "length (arData tg) = length (arData src)" "length (arHash tg) = length (arHash tg0)"
    and ch: "chains_ok (arData tg) (nTableMask tg0) (arHash tg) j" and ji: "j \<le> i"
    and cells: "\<And>k. k < j \<Longrightarrow> bucket_ok (f_static_keys src) (arData tg ! k) \<and> bucket_entry (arData tg ! k) \<noteq> None"
    and ents: "bents (arData tg) j = cents src gc0 eg0 i"
    and ptr: "nInternalPointer tg = pointer_at src gc0 eg0 (nInternalPointer tg0) i"
    using inv unfolding dup_inv_def by auto
  have mask: "nTableMask tg = nTableMask tg0" by (subst tg) simp
  have ind: "indirect eg = indirect eg0" using eg by (rule eg_dup_indirect)
  note dv = dup_value_eq(1) [OF cnt holes, where ind = "indirect eg0" and packed = False]
    dup_value_eq(2) [OF cnt holes, where ind = "indirect eg0" and packed = False and k = "bucket_key p"]
  show thesis
  proof (cases "?r = IS_UNDEF")
    case True
    have c: "cents src gc0 eg0 (Suc i) = cents src gc0 eg0 i" using cents_Suc [OF i(2)] True by simp
    have pq: "pointer_at src gc0 eg0 p0 (Suc i) = pointer_at src gc0 eg0 p0 i" for p0
      using c by (cases "?ip = i") (simp_all add: pointer_at_def less_Suc_eq)
    have "dup_inv src gc0 eg0 tg0 (Suc i) j (tg, eg, gc)"
      using inv le_SucI [OF ji] unfolding dup_inv_def prod.case c pq by blast
    moreover have "zend_array_dup_element src j p (f_static_keys src) with_holes (tg, eg, gc) = Inr None"
      using dv(1) [OF True] by (simp add: zend_array_dup_element_def ind)
    ultimately show thesis using skip c by blast
  next
    case False
    let ?v = "unwrapped gc0 (ht_addr src) ?r"
    obtain gc' where g: "zend_array_dup_value (ht_addr src) (indirect eg0) (b_val p) False with_holes gc = Some (?v, gc')"
      "counted gc0 (ht_addr src) (cents src gc0 eg0 i @ [(bucket_key p, ?v)]) gc'" using dv(2) [OF False] by blast
    have v: "?v \<noteq> IS_UNDEF" using copied_live [OF refs False] .
    have pv: "b_val p \<noteq> IS_UNDEF" using False by (auto simp: resolve_def)
    have c: "cents src gc0 eg0 (Suc i) = cents src gc0 eg0 i @ [(bucket_key p, ?v)]"
      using cents_Suc [OF i(2)] False by simp
    let ?s = "slot (nTableMask tg0) (b_h p)"
    let ?q = "\<lparr>b_val = ?v, b_next = arHash tg ! ?s, b_h = b_h p, b_key = b_key p\<rparr>"
    let ?eg = "if \<not> f_static_keys src then (case b_key p of Some k \<Rightarrow> emit (EvStrAddref k) eg | None \<Rightarrow> eg) else eg"
    let ?tg = "tg\<lparr>arData := (arData tg)[j := Some ?q], arHash := (arHash tg)[?s := j]\<rparr>"
    have sl': "?s < length (arHash tg)" using sl len by simp
    have jl: "j < length (arData tg)" using ji i(1) len by simp
    have res: "zend_array_dup_element src j p (f_static_keys src) with_holes (tg, eg, gc) = Inr (Some (?tg, ?eg, gc'))"
      using g(1) sl' jl by (simp add: zend_array_dup_element_def ind mask Let_def)
    have key: "bucket_key ?q = bucket_key p" by (simp add: bucket_key_def split: option.splits)
    have ent: "bucket_entry (Some ?q) = Some (bucket_key p, ?v)" using v key by (simp add: bucket_entry_def)
    have bok: "bucket_ok (f_static_keys src) (Some ?q)" using i(3) v pv by (simp add: bucket_ok_def split: option.splits)
    have cells': "bucket_ok (f_static_keys src) (arData ?tg ! k) \<and> bucket_entry (arData ?tg ! k) \<noteq> None" if "k < Suc j" for k
      using that cells [of k] jl ent bok by (cases "k = j") simp_all
    have ents': "bents (arData ?tg) (Suc j) = cents src gc0 eg0 (Suc i)"
      using ents jl ent c by (simp add: bents_Suc)
    have egd: "eg_dup (ht_addr tg0) eg0 ?eg (if f_static_keys src then [] else string_keys_of (cents src gc0 eg0 (Suc i)))"
    proof (cases "f_static_keys src")
      case nst: False
      then show ?thesis using eg eg_dup_emit [of "ht_addr tg0" eg0 eg "string_keys_of (cents src gc0 eg0 i)"]
        by (cases "b_key p") (simp_all add: c bucket_key_def)
    qed (use eg in simp)
    have ptr': "(if ?ip = i then j else nInternalPointer ?tg) = pointer_at src gc0 eg0 (nInternalPointer tg0) (Suc i)"
      using ptr c dup_inv_length [OF inv] by (auto simp: pointer_at_def less_Suc_eq)
    have ch': "chains_ok (arData ?tg) (nTableMask tg0) (arHash ?tg) (Suc j)"
      using chains_ok_append [OF ch jl, of ?q] sl' v by simp
    have "dup_inv src gc0 eg0 tg0 (Suc i) (Suc j)
         (?tg\<lparr>nInternalPointer := (if ?ip = i then j else nInternalPointer ?tg)\<rparr>, ?eg, gc')"
      unfolding dup_inv_def prod.case ptr'
    proof (intro conjI)
      show "?tg\<lparr>nInternalPointer := pointer_at src gc0 eg0 (nInternalPointer tg0) (Suc i)\<rparr> = tg0
        \<lparr>arData := arData (?tg\<lparr>nInternalPointer := pointer_at src gc0 eg0 (nInternalPointer tg0) (Suc i)\<rparr>),
         arHash := arHash (?tg\<lparr>nInternalPointer := pointer_at src gc0 eg0 (nInternalPointer tg0) (Suc i)\<rparr>),
         nInternalPointer := nInternalPointer (?tg\<lparr>nInternalPointer := pointer_at src gc0 eg0 (nInternalPointer tg0) (Suc i)\<rparr>),
         nNumUsed := nNumUsed (?tg\<lparr>nInternalPointer := pointer_at src gc0 eg0 (nInternalPointer tg0) (Suc i)\<rparr>)\<rparr>"
        by (subst tg) simp
      show "\<forall>k<Suc j. bucket_ok (f_static_keys src) (arData (?tg\<lparr>nInternalPointer := pointer_at src gc0 eg0 (nInternalPointer tg0) (Suc i)\<rparr>) ! k) \<and>
          bucket_entry (arData (?tg\<lparr>nInternalPointer := pointer_at src gc0 eg0 (nInternalPointer tg0) (Suc i)\<rparr>) ! k) \<noteq> None"
        using cells' by simp
    qed (use len ch' ents' ji g(2) egd c in simp_all)
    moreover have "ht_iterators ?eg = ht_iterators eg" by (simp add: emit_def split: option.split)
    ultimately show thesis using copy [OF res] by simp
  qed
qed

lemma dup_inv_moved: "dup_inv src gc0 eg0 tg0 i j (tg, eg, gc) \<Longrightarrow> iters_moved (ht_addr tg0) eg eg' \<Longrightarrow>
    dup_inv src gc0 eg0 tg0 i j (tg, eg', gc)"
  unfolding dup_inv_def prod.case by (blast intro: eg_dup_moved)

lemma dup_inv_used:
  assumes "dup_inv src gc0 eg0 tg0 i j (tg, eg, gc)"
  shows "dup_inv src gc0 eg0 tg0 i j (tg\<lparr>nNumUsed := m\<rparr>, eg, gc)"
proof -
  obtain d hs ip u where "tg = tg0\<lparr>arData := d, arHash := hs, nInternalPointer := ip, nNumUsed := u\<rparr>"
    using assms unfolding dup_inv_def prod.case by blast
  then show ?thesis using assms by (simp add: dup_inv_def)
qed

lemma dup_inv_addr: "dup_inv src gc0 eg0 tg0 i j (tg, eg, gc) \<Longrightarrow> ht_addr tg = ht_addr tg0 \<and> nIteratorsCount tg = nIteratorsCount tg0"
proof -
  assume "dup_inv src gc0 eg0 tg0 i j (tg, eg, gc)"
  then obtain d hs ip u where "tg = tg0\<lparr>arData := d, arHash := hs, nInternalPointer := ip, nNumUsed := u\<rparr>"
    unfolding dup_inv_def prod.case by blast
  then show ?thesis by simp
qed

text \<open>The places that are copied, and what the loops know of the iterators of the copy.\<close>

definition copied_place :: "HashTable \<Rightarrow> gc_heap \<Rightarrow> executor_globals \<Rightarrow> nat \<Rightarrow> bool" where
  "copied_place src gc eg k \<longleftrightarrow> length (cents src gc eg (Suc k)) \<noteq> length (cents src gc eg k)"

definition dup_iters :: "HashTable \<Rightarrow> gc_heap \<Rightarrow> executor_globals \<Rightarrow> HashTable \<Rightarrow> nat \<Rightarrow> nat option
    \<Rightarrow> executor_globals \<Rightarrow> bool" where
  "dup_iters src gc0 eg0 tg0 i iter_pos eg \<longleftrightarrow>
     (let t = ht_addr tg0; cp = copied_place src gc0 eg0; its0 = ht_iterators eg0
      in case iter_pos of
           None \<Rightarrow> \<forall>p. \<not> iter_on its0 t p
         | Some ip \<Rightarrow> iters_at t cp its0 i (ht_iterators eg) \<and> next_at t cp its0 (nNumUsed src) i ip \<and>
             \<not> (\<forall>k<i. cp k) \<and> HT_HAS_ITERATORS tg0)"

lemma kept_cents:
  assumes "\<And>k. k < n \<Longrightarrow> arData src ! k \<noteq> None"
  shows "kept_before (copied_place src gc eg) n = length (cents src gc eg n)"
  using assms
proof (induction n)
  case (Suc n)
  obtain p where "arData src ! n = Some p" using Suc.prems [of n] by auto
  then show ?case using Suc by (simp add: copied_place_def cents_Suc)
qed simp

lemma dup_iters_last: "dup_iters src gc0 eg0 tg0 n iter_pos eg \<Longrightarrow>
    iters_at (ht_addr tg0) (copied_place src gc0 eg0) (ht_iterators eg0) n (ht_iterators eg)"
  by (auto simp: dup_iters_def Let_def iters_at_def iter_on_nth split: option.splits)

lemma dup_iters_skip:
  assumes "dup_iters src gc0 eg0 tg0 i iter_pos eg" "cents src gc0 eg0 (Suc i) = cents src gc0 eg0 i"
  shows "dup_iters src gc0 eg0 tg0 (Suc i) iter_pos eg"
proof -
  have c: "\<not> copied_place src gc0 eg0 i" using assms(2) by (simp add: copied_place_def)
  have "\<not> (\<forall>k<Suc i. cp k)" if "\<not> (\<forall>k<i. cp k)" for cp :: "nat \<Rightarrow> bool"
    using that less_SucI by blast
  then show ?thesis using assms(1) c iters_at_skip next_at_skip
    by (auto simp: dup_iters_def Let_def split: option.splits)
qed

lemma dup_iters_copy:
  assumes it: "dup_iters src gc0 eg0 tg0 i iter_pos eg" and eg: "ht_iterators eg1 = ht_iterators eg"
    "eg_dup (ht_addr tg0) eg0 eg1 ks"
    and i: "copied_place src gc0 eg0 i" "i < nNumUsed src" "kept_before (copied_place src gc0 eg0) i = j"
    and used: "iters_used (ht_addr tg0) eg0"
    and tg: "ht_addr tg = ht_addr tg0" "nIteratorsCount tg = nIteratorsCount tg0"
      "iter_pos = None \<or> nNumUsed tg = nNumUsed src"
  obtains eg2 ip2 where
    "(case iter_pos of None \<Rightarrow> Inr (eg1, None)
        | Some ip \<Rightarrow> if i \<ge> ip then bindE (migrate_iterators (Suc i) tg i j ip eg1) (\<lambda>(eg, ip). Inr (eg, Some ip))
                     else Inr (eg1, Some ip)) = Inr (eg2, ip2)"
    "iters_moved (ht_addr tg0) eg1 eg2" "ip2 = None \<or> nNumUsed tg = nNumUsed src"
    "dup_iters src gc0 eg0 tg0 (Suc i) ip2 eg2"
proof (cases iter_pos)
  case None
  then show thesis using it by (intro that [of eg1 None]) (simp_all add: dup_iters_def)
next
  case (Some ip)
  let ?t = "ht_addr tg0" and ?cp = "copied_place src gc0 eg0" and ?its = "ht_iterators eg0"
  have at: "iters_at ?t ?cp ?its i (ht_iterators eg1)" and nx: "next_at ?t ?cp ?its (nNumUsed src) i ip"
    and drop: "\<not> (\<forall>k<i. ?cp k)" and has: "HT_HAS_ITERATORS tg0"
    using it Some eg(1) by (simp_all add: dup_iters_def Let_def)
  have drop': "\<not> (\<forall>k<Suc i. ?cp k)" using drop less_SucI by blast
  show thesis
  proof (cases "i \<ge> ip")
    case False
    then show thesis using Some tg(3) kept_early [OF at nx i(1) _ i(2)] drop' has
      by (intro that [of eg1 "Some ip"]) (simp_all add: dup_iters_def Let_def)
  next
    case True
    have n: "nNumUsed tg = nNumUsed src" using tg(3) Some by simp
    obtain evs where evs: "iters_moved ?t (eg0\<lparr>events := events eg0 @ evs\<rparr>) eg1" using eg(2) unfolding eg_dup_def by blast
    let ?eg0 = "eg0\<lparr>events := events eg0 @ evs\<rparr>"
    have same: "eg_same ?eg0 eg1" using evs by (simp add: iters_moved_def)
    have u0: "iters_used ?t ?eg0" using used by (simp add: iters_used_def)
    have u: "iters_used ?t eg1" using iters_used_same [OF same u0] .
    have has': "HT_HAS_ITERATORS tg" using has tg(2) by (simp add: HT_HAS_ITERATORS_def)
    have its: "?its = ht_iterators ?eg0" by simp
    obtain eg2 ip2 where m: "migrate_iterators (Suc i) tg i j ip eg1 = Inr (eg2, ip2)"
      "iters_at ?t ?cp ?its (Suc i) (ht_iterators eg2)" "next_at ?t ?cp ?its (nNumUsed src) (Suc i) ip2"
      using kept_moves [OF at nx [folded n] i(1) True i(2) [folded n] drop has' tg(1) [symmetric] u its same]
      unfolding i(3) n by blast
    have "i < nNumUsed tg" "i - ip < Suc i" using i(2) n by simp_all
    then have "iters_moved ?t eg1 eg2" using migrate_moved [of i tg ip "Suc i" j eg1] m(1) tg(1) by auto
    then show thesis using m Some True n drop' has
      by (intro that [of eg2 "Some ip2"]) (simp_all add: dup_iters_def Let_def)
  qed
qed

lemma dup_compact_ok:
  assumes "dup_inv src gc0 eg0 tg0 i j (tg, eg, gc)" "i \<le> n" "n = nNumUsed src" "n \<le> length (arData src)"
    "\<And>k. k < n \<Longrightarrow> bucket_ok (f_static_keys src) (arData src ! k)"
    "with_holes \<or> (\<forall>k<n. bucket_entry (arData src ! k) \<noteq> None)" "refs_ok gc0"
    "\<And>h. slot (nTableMask tg0) h < length (arHash tg0)" "iter_pos = None \<or> nNumUsed tg = n"
    "dup_iters src gc0 eg0 tg0 i iter_pos eg" "iters_used (ht_addr tg0) eg0"
  shows "\<exists>tg' eg' gc' j'. dup_compact [i..<n] j iter_pos src (f_static_keys src) with_holes (tg, eg, gc) =
      Inr ((tg', eg', gc'), j') \<and> dup_inv src gc0 eg0 tg0 n j' (tg', eg', gc') \<and>
      iters_at (ht_addr tg0) (copied_place src gc0 eg0) (ht_iterators eg0) n (ht_iterators eg')"
  using assms(1,2,9,10)
proof (induction "n - i" arbitrary: i j iter_pos tg eg gc)
  case 0
  then have "i = n" by simp
  then show ?case using 0 dup_iters_last [of src gc0 eg0 tg0 i] by simp
next
  case (Suc m)
  have i: "i < n" "[i..<n] = i # [Suc i..<n]" "m = n - Suc i" using Suc.hyps(2) by (auto simp: upt_conv_Cons)
  have il: "i < length (arData src)" using i assms(4) by simp
  obtain p where p: "arData src ! i = Some p" "bucket_ok (f_static_keys src) (Some p)"
    using assms(5) [OF i(1)] by (cases "arData src ! i") (simp_all add: bucket_ok_def)
  have holes: "with_holes \<or> b_val p \<noteq> IS_UNDEF" using assms(6) i(1) p(1) by (auto simp: bucket_entry_def)
  have rdp: "rd (arData src) i = Inr p" using il p by simp
  from Suc.prems(1) il p holes assms(7,8) show ?case
  proof (cases rule: dup_step)
    case skip
    have "dup_compact [i..<n] j iter_pos src (f_static_keys src) with_holes (tg, eg, gc) =
        dup_compact [Suc i..<n] j iter_pos src (f_static_keys src) with_holes (tg, eg, gc)"
      unfolding i(2) dup_compact.simps rdp bindE_Inr skip(1) by simp
    then show ?thesis
      using Suc.hyps(1) [OF i(3) skip(2) _ Suc.prems(3) dup_iters_skip [OF Suc.prems(4) skip(3)]] i(1) by simp
  next
    case (copy tg1 eg1 gc1)
    define tg2 where "tg2 = tg1\<lparr>nInternalPointer := (if nInternalPointer src = i then j else nInternalPointer tg1)\<rparr>"
    have t2: "(if nInternalPointer src = i then tg1\<lparr>nInternalPointer := j\<rparr> else tg1) = tg2" by (simp add: tg2_def)
    have used: "ht_addr tg2 = ht_addr tg0" "nIteratorsCount tg2 = nIteratorsCount tg0"
      "iter_pos = None \<or> nNumUsed tg2 = nNumUsed src"
      using copy(2,4,5) dup_inv_addr [OF Suc.prems(1)] dup_inv_addr [OF copy(2)] Suc.prems(3) assms(3)
      by (simp_all add: tg2_def)
    have place: "copied_place src gc0 eg0 i"
      using dup_inv_length [OF copy(2)] dup_inv_length [OF Suc.prems(1)] by (simp add: copied_place_def)
    have cells: "arData src ! k \<noteq> None" if "k < i" for k
      using assms(5) [of k] that i(1) by (cases "arData src ! k") (simp_all add: bucket_ok_def)
    have j: "kept_before (copied_place src gc0 eg0) i = j"
      using kept_cents [of i src gc0 eg0, OF cells] dup_inv_length [OF Suc.prems(1)] by simp
    have egd: "eg_dup (ht_addr tg0) eg0 eg1 (if f_static_keys src then [] else string_keys_of (cents src gc0 eg0 (Suc i)))"
      using copy(2) unfolding dup_inv_def prod.case by blast
    let ?mig = "case iter_pos of None \<Rightarrow> Inr (eg1, None)
        | Some ip \<Rightarrow> if i \<ge> ip then bindE (migrate_iterators (Suc i) tg2 i j ip eg1) (\<lambda>(eg, ip). Inr (eg, Some ip))
                     else Inr (eg1, Some ip)"
    obtain eg2 ip2 where m: "?mig = Inr (eg2, ip2)" "iters_moved (ht_addr tg0) eg1 eg2" "ip2 = None \<or> nNumUsed tg2 = n"
      "dup_iters src gc0 eg0 tg0 (Suc i) ip2 eg2"
      using dup_iters_copy [OF Suc.prems(4) copy(6) egd place i(1) [unfolded assms(3)] j assms(11) used]
      unfolding assms(3) by blast
    have step: "dup_compact [i..<n] j iter_pos src (f_static_keys src) with_holes (tg, eg, gc) =
        dup_compact [Suc i..<n] (Suc j) ip2 src (f_static_keys src) with_holes (tg2, eg2, gc1)"
      unfolding i(2) dup_compact.simps rdp bindE_Inr copy(1) option.case prod.case Let_def t2 m(1) by simp
    have "dup_inv src gc0 eg0 tg0 (Suc i) (Suc j) (tg2, eg2, gc1)"
      using dup_inv_moved [OF copy(2) m(2)] by (simp add: tg2_def)
    from Suc.hyps(1) [OF i(3) this _ m(3,4)] i(1) show ?thesis unfolding step by simp
  qed
qed

lemma dup_elements_ok:
  assumes "dup_inv src gc0 eg0 tg0 i i (tg, eg, gc)" "i \<le> n" "n = nNumUsed src" "n \<le> length (arData src)"
    "\<And>k. k < n \<Longrightarrow> bucket_ok (f_static_keys src) (arData src ! k)"
    "with_holes \<or> (\<forall>k<n. bucket_entry (arData src ! k) \<noteq> None)" "refs_ok gc0"
    "\<And>h. slot (nTableMask tg0) h < length (arHash tg0)"
    "nInternalPointer src < n \<Longrightarrow> nInternalPointer tg0 = nInternalPointer src"
    "ht_iterators eg = ht_iterators eg0" "iters_used (ht_addr tg0) eg0"
    "\<not> HT_HAS_ITERATORS tg0 \<Longrightarrow> \<forall>p. \<not> iter_on (ht_iterators eg0) (ht_addr tg0) p"
    "\<And>k. k < i \<Longrightarrow> copied_place src gc0 eg0 k"
  shows "\<exists>tg' eg' gc' j'. dup_elements_loop [i..<n] i src (f_static_keys src) with_holes (tg, eg, gc) =
      Inr ((tg', eg', gc'), j') \<and> dup_inv src gc0 eg0 tg0 n j' (tg', eg', gc') \<and>
      iters_at (ht_addr tg0) (copied_place src gc0 eg0) (ht_iterators eg0) n (ht_iterators eg')"
  using assms(1,2,10,13)
proof (induction "n - i" arbitrary: i tg eg gc)
  case 0
  then have "i = n" by simp
  then show ?case
    using 0 iters_at_first [of n "copied_place src gc0 eg0" "ht_addr tg0" "ht_iterators eg0"] by simp
next
  case (Suc m)
  have i: "i < n" "[i..<n] = i # [Suc i..<n]" "m = n - Suc i" using Suc.hyps(2) by (auto simp: upt_conv_Cons)
  have il: "i < length (arData src)" using i assms(4) by simp
  obtain p where p: "arData src ! i = Some p" "bucket_ok (f_static_keys src) (Some p)"
    using assms(5) [OF i(1)] by (cases "arData src ! i") (simp_all add: bucket_ok_def)
  have holes: "with_holes \<or> b_val p \<noteq> IS_UNDEF" using assms(6) i(1) p(1) by (auto simp: bucket_entry_def)
  have rdp: "rd (arData src) i = Inr p" using il p by simp
  from Suc.prems(1) il p holes assms(7,8) show ?case
  proof (cases rule: dup_step)
    case skip
    have has: "HT_HAS_ITERATORS tg = HT_HAS_ITERATORS tg0" and addr: "ht_addr tg = ht_addr tg0"
      using dup_inv_addr [OF Suc.prems(1)] by (simp_all add: HT_HAS_ITERATORS_def)
    have kept: "copied_place src gc0 eg0 k" if "Suc k < Suc i" for k using Suc.prems(4) that by simp
    have hole: "\<not> (\<forall>k<Suc i. copied_place src gc0 eg0 k)" using skip(3) by (auto simp: copied_place_def)
    show ?thesis
    proof (cases "HT_HAS_ITERATORS tg")
      case False
      then have "dup_elements_loop [i..<n] i src (f_static_keys src) with_holes (tg, eg, gc) =
          dup_compact [Suc i..<n] i None src (f_static_keys src) with_holes (tg, eg, gc)"
        unfolding i(2) dup_elements_loop.simps rdp bindE_Inr skip(1) by simp
      moreover obtain tg' eg' gc' j' where c: "dup_compact [Suc i..<n] i None src (f_static_keys src) with_holes (tg, eg, gc) =
          Inr ((tg', eg', gc'), j')" "dup_inv src gc0 eg0 tg0 n j' (tg', eg', gc')"
        "iters_at (ht_addr tg0) (copied_place src gc0 eg0) (ht_iterators eg0) n (ht_iterators eg')"
      proof -
        have "dup_iters src gc0 eg0 tg0 (Suc i) None eg" using assms(12) False has by (simp add: dup_iters_def)
        from dup_compact_ok [OF skip(2) _ assms(3-8) _ this assms(11)] i(1) that show thesis by auto
      qed
      ultimately show ?thesis by simp
    next
      case True
      let ?tg = "tg\<lparr>nNumUsed := n\<rparr>"
      have "dup_elements_loop [i..<n] i src (f_static_keys src) with_holes (tg, eg, gc) =
          dup_compact [Suc i..<n] i (Some (zend_hash_iterators_lower_pos ?tg (i + 1) eg)) src (f_static_keys src)
            with_holes (?tg, eg, gc)"
        unfolding i(2) dup_elements_loop.simps rdp bindE_Inr skip(1) using True assms(3) by (simp add: Let_def)
      moreover obtain tg' eg' gc' j' where c: "dup_compact [Suc i..<n] i
          (Some (zend_hash_iterators_lower_pos ?tg (i + 1) eg)) src (f_static_keys src) with_holes (?tg, eg, gc) =
          Inr ((tg', eg', gc'), j')" "dup_inv src gc0 eg0 tg0 n j' (tg', eg', gc')"
        "iters_at (ht_addr tg0) (copied_place src gc0 eg0) (ht_iterators eg0) n (ht_iterators eg')"
      proof -
        have u: "iters_used (ht_addr ?tg) eg"
        proof -
          obtain evs where "iters_moved (ht_addr tg0) (eg0\<lparr>events := events eg0 @ evs\<rparr>) eg"
            using Suc.prems(1) unfolding dup_inv_def eg_dup_def prod.case by blast
          then have "eg_same (eg0\<lparr>events := events eg0 @ evs\<rparr>) eg" by (simp add: iters_moved_def)
          moreover have "iters_used (ht_addr tg0) (eg0\<lparr>events := events eg0 @ evs\<rparr>)"
            using assms(11) by (simp add: iters_used_def)
          ultimately show ?thesis using iters_used_same addr by simp
        qed
        have "dup_iters src gc0 eg0 tg0 (Suc i) (Some (zend_hash_iterators_lower_pos ?tg (i + 1) eg)) eg"
          using next_at_first [of "Suc i" "copied_place src gc0 eg0" ?tg eg, OF kept u Suc.prems(3) [symmetric]]
            iters_at_first [of "Suc i" "copied_place src gc0 eg0" "ht_addr tg0" "ht_iterators eg0", OF kept]
            hole True has addr assms(3) i(1) Suc.prems(3) by (simp add: dup_iters_def Let_def)
        from dup_compact_ok [OF dup_inv_used [OF skip(2), of n] _ assms(3-8) _ this assms(11)] i(1) that
        show thesis by auto
      qed
      ultimately show ?thesis by simp
    qed
  next
    case (copy tg1 eg1 gc1)
    have "nInternalPointer tg1 = i" if "nInternalPointer src = i"
    proof -
      have "nInternalPointer tg = pointer_at src gc0 eg0 (nInternalPointer tg0) i"
        using Suc.prems(1) unfolding dup_inv_def prod.case by blast
      then show ?thesis using that assms(9) i(1) copy(3) by (simp add: pointer_at_def)
    qed
    then have t1: "tg1\<lparr>nInternalPointer := (if nInternalPointer src = i then i else nInternalPointer tg1)\<rparr> = tg1"
      by (cases "nInternalPointer src = i") auto
    have step: "dup_elements_loop [i..<n] i src (f_static_keys src) with_holes (tg, eg, gc) =
        dup_elements_loop [Suc i..<n] (Suc i) src (f_static_keys src) with_holes (tg1, eg1, gc1)"
      unfolding i(2) dup_elements_loop.simps rdp bindE_Inr copy(1) by simp
    have "copied_place src gc0 eg0 k" if "k < Suc i" for k
      using Suc.prems(4) that dup_inv_length [OF copy(2)] dup_inv_length [OF Suc.prems(1)]
      by (cases "k = i") (simp_all add: copied_place_def)
    from Suc.hyps(1) [OF i(3) copy(2) [unfolded t1] _ _ this] i(1) Suc.prems(3) show ?thesis
      unfolding step by (simp add: copy(6))
  qed
qed

subsection \<open>Copying the cells of a packed table\<close>

lemma unwrapped_undef [simp]: "unwrapped gc s IS_UNDEF = IS_UNDEF"
  by (simp add: unwrapped_def)

lemma dup_packed_ok:
  assumes "n \<le> length (arPacked src)" "n \<le> length q" "\<And>k. k < n \<Longrightarrow> arPacked src ! k \<noteq> None"
    "with_holes \<or> (\<forall>k<n. entry_at src k \<noteq> None)" "f_packed src" "i \<le> n"
    "counted gc0 (ht_addr src) (copied gc0 (ht_addr src) ind True (entries (entry_at src) i)) gc"
  shows "\<exists>q' gc'. dup_packed_loop [i..<n] src ind with_holes (q, gc) = Inr (q', gc') \<and> length q' = length q \<and>
    (\<forall>k<i. q' ! k = q ! k) \<and>
    (\<forall>k. i \<le> k \<longrightarrow> k < n \<longrightarrow> q' ! k = map_option (unwrapped gc0 (ht_addr src)) (arPacked src ! k)) \<and>
    counted gc0 (ht_addr src) (copied gc0 (ht_addr src) ind True (entries (entry_at src) n)) gc'"
  using assms(2,6,7)
proof (induction "n - i" arbitrary: i q gc)
  case 0
  then have "i = n" by simp
  then show ?case using 0 by simp
next
  case (Suc m)
  let ?s = "ht_addr src"
  have i: "i < n" "[i..<n] = i # [Suc i..<n]" "m = n - Suc i" using Suc.hyps(2) by (auto simp: upt_conv_Cons)
  obtain v where v: "arPacked src ! i = Some v" using assms(3) [OF i(1)] by auto
  have rdv: "rd (arPacked src) i = Inr v" using i(1) assms(1) v by simp
  have at: "entry_at src i = (if v = IS_UNDEF then None else Some (KNum (of_nat i), v))"
    using assms(5) v by (simp add: entry_at_def packed_entry_def)
  have holes: "with_holes \<or> v \<noteq> IS_UNDEF" using assms(4) i(1) at by auto
  have res: "resolve ind True v = v" by (simp add: resolve_def)
  note dv1 = dup_value_eq(1) [OF Suc.prems(3) holes, of ind True, unfolded res]
  note dv2 = dup_value_eq(2) [OF Suc.prems(3) holes, of ind True "KNum (of_nat i)", unfolded res]
  have il: "i < length q" using i(1) Suc.prems(1) by simp
  obtain q1 gc1 where s: "dup_packed_loop [i..<n] src ind with_holes (q, gc) =
      dup_packed_loop [Suc i..<n] src ind with_holes (q1, gc1)"
    "q1 = q[i := Some (unwrapped gc0 ?s v)]"
    "counted gc0 ?s (copied gc0 ?s ind True (entries (entry_at src) (Suc i))) gc1"
  proof (cases "v = IS_UNDEF")
    case True
    then have "with_holes" using holes by simp
    then have "dup_packed_loop [i..<n] src ind with_holes (q, gc) =
        dup_packed_loop [Suc i..<n] src ind with_holes (q[i := Some IS_UNDEF], gc)"
      unfolding i(2) using rdv dv1 [OF True] il by simp
    moreover have "copied gc0 ?s ind True (entries (entry_at src) (Suc i)) = copied gc0 ?s ind True (entries (entry_at src) i)"
      using True at by simp
    ultimately show thesis using that [of _ gc] True Suc.prems(3) by simp
  next
    case False
    obtain gc' where g: "zend_array_dup_value ?s ind v True with_holes gc = Some (unwrapped gc0 ?s v, gc')"
      "counted gc0 ?s (copied gc0 ?s ind True (entries (entry_at src) i) @ [(KNum (of_nat i), unwrapped gc0 ?s v)]) gc'"
      using dv2 [OF False] by blast
    have "dup_packed_loop [i..<n] src ind with_holes (q, gc) =
        dup_packed_loop [Suc i..<n] src ind with_holes (q[i := Some (unwrapped gc0 ?s v)], gc')"
      unfolding i(2) using rdv g(1) il by simp
    then show thesis using that g(2) False at res by simp
  qed
  have len: "n \<le> length q1" using s(2) Suc.prems(1) by simp
  obtain q' gc' where r: "dup_packed_loop [Suc i..<n] src ind with_holes (q1, gc1) = Inr (q', gc')"
    "length q' = length q1" "\<forall>k<Suc i. q' ! k = q1 ! k"
    "\<forall>k. Suc i \<le> k \<longrightarrow> k < n \<longrightarrow> q' ! k = map_option (unwrapped gc0 ?s) (arPacked src ! k)"
    "counted gc0 ?s (copied gc0 ?s ind True (entries (entry_at src) n)) gc'"
    using Suc.hyps(1) [OF i(3) len _ s(3)] i(1) by auto
  have "q' ! k = map_option (unwrapped gc0 ?s) (arPacked src ! k)" if "i \<le> k" "k < n" for k
    using that r(3,4) s(2) il v by (cases "k = i") auto
  moreover have "\<forall>k<i. q' ! k = q ! k" using r(3) s(2) by simp
  ultimately show ?case using r s by auto
qed

text \<open>Tables of which one holds at each place the copy of what the other holds there.\<close>

lemma copied_places:
  assumes "\<And>i. i < n \<Longrightarrow> g i = (case f i of None \<Rightarrow> None | Some (k, v) \<Rightarrow> Some (k, unwrapped gc s (resolve ind packed v)))"
    "\<And>i k v. i < n \<Longrightarrow> f i = Some (k, v) \<Longrightarrow> resolve ind packed v \<noteq> IS_UNDEF"
  shows "entries g n = copied gc s ind packed (entries f n)"
  using assms
proof (induction n)
  case (Suc n)
  have "entries g n = copied gc s ind packed (entries f n)"
    using Suc.IH Suc.prems(1) Suc.prems(2) by (meson less_SucI)
  then show ?case using Suc.prems(1) [of n] Suc.prems(2) [of n] by (auto split: option.splits)
qed simp

end
