(* ===== verification/HashDupSpec.thy ===== *)
theory HashDupSpec
  imports HashDup
begin

text \<open>
  What \<open>zend_array_dup\<close> does: the iterators of the source each get a copy next to them on
  their ring, and the copy is a table of its own with the copied entries.
\<close>

subsection \<open>The iterators\<close>

text \<open>A fresh iterator entered in a ring behind \<open>i\<close>.\<close>

lemma rings_splice:
  assumes ok: "rings_ok its" and i: "live_iter its i" "live_iter its c" "i \<noteq> c" "succ_iter its c = c"
    and len: "length its' = length its"
    and nth: "\<And>j. it_ht (its' ! j) = it_ht (its ! j)"
    and succ: "\<And>j. succ_iter its' j = (if j = i then c else if j = c then succ_iter its i else succ_iter its j)"
  shows "rings_ok its'"
proof -
  have live: "live_iter its' j = live_iter its j" for j using len nth by (simp add: live_iter_def)
  have inj: "inj_on (succ_iter its) {j. live_iter its j}" and cl: "\<And>j. live_iter its j \<Longrightarrow> live_iter its (succ_iter its j)"
    using ok by (simp_all add: rings_ok_def)
  have noc: "succ_iter its j \<noteq> c" if "live_iter its j" "j \<noteq> c" for j
    using inj_onD [OF inj, of j c] that i by auto
  have "inj_on (succ_iter its') {j. live_iter its j}"
  proof (rule inj_onI)
    fix x y assume xy: "x \<in> {j. live_iter its j}" "y \<in> {j. live_iter its j}" "succ_iter its' x = succ_iter its' y"
    have eq: "a = b" if "succ_iter its a = succ_iter its b" "live_iter its a" "live_iter its b" for a b
      using inj_onD [OF inj that(1)] that by simp
    show "x = y"
      using xy noc [of x] noc [of y] noc [of i] i eq [of x y] eq [of x i] eq [of i y] unfolding succ
      by (auto split: if_splits)
  qed
  moreover have "live_iter its (succ_iter its' j)" if "live_iter its j" for j
    using that i cl by (simp add: succ)
  ultimately show ?thesis by (simp add: rings_ok_def live)
qed

text \<open>
  \<open>has_copy\<close>: iterator \<open>i\<close> got a copy on the table \<open>t\<close> right behind it; \<open>p\<close> is the copy's position.
\<close>

definition has_copy :: "HashTableIterator list \<Rightarrow> nat \<Rightarrow> nat \<Rightarrow> nat \<Rightarrow> bool" where
  "has_copy its t i p \<longleftrightarrow>
     live_iter its (succ_iter its i) \<and> it_ht (its ! succ_iter its i) = IterHT t \<and>
     it_pos (its ! succ_iter its i) = p"

definition iter_kept :: "nat \<Rightarrow> HashTableIterator \<Rightarrow> HashTableIterator \<Rightarrow> bool" where
  "iter_kept s it it' \<longleftrightarrow>
     it_ht it' = it_ht it \<and> it_pos it' = it_pos it \<and> (it_ht it \<noteq> IterHT s \<longrightarrow> it' = it)"

lemma iterator_add_length:
  "zend_hash_iterator_add t p (eg, hp) = ((eg', hp'), c) \<Longrightarrow> length (ht_iterators eg) \<le> length (ht_iterators eg')"
  by (auto simp: zend_hash_iterator_add_def Let_def split: option.splits)

lemma dup_iter_step:
  assumes ok: "reg_ok (eg, hp)" and i: "live_iter (ht_iterators eg) i" "it_ht (ht_iterators eg ! i) = IterHT s"
    and st: "s \<noteq> t"
  obtains eg' hp' c where
    "dup_iterators_loop (i # is) s t (eg, hp) = dup_iterators_loop is s t (eg', hp')"
    "reg_ok (eg', hp')" "has_copy (ht_iterators eg') t i (it_pos (ht_iterators eg ! i))"
    "\<not> live_iter (ht_iterators eg) c" "succ_iter (ht_iterators eg') i = c"
    "\<And>j. live_iter (ht_iterators eg') j \<longleftrightarrow> j = c \<or> live_iter (ht_iterators eg) j"
    "\<And>j. live_iter (ht_iterators eg) j \<Longrightarrow> j \<noteq> i \<Longrightarrow> ht_iterators eg' ! j = ht_iterators eg ! j"
    "iter_kept s (ht_iterators eg ! i) (ht_iterators eg' ! i)"
    "hp' = inc_count t hp" "events eg' = events eg" "indirect eg' = indirect eg"
    "length (ht_iterators eg) \<le> length (ht_iterators eg')" "it_ht (ht_iterators eg' ! c) = IterHT t"
proof -
  let ?its = "ht_iterators eg"
  obtain e h c where a: "zend_hash_iterator_add t (it_pos (?its ! i)) (eg, hp) = ((e, h), c)" "reg_ok (e, h)"
    "\<not> live_iter ?its c" "c < length (ht_iterators e)"
    "ht_iterators e ! c = \<lparr>it_ht = IterHT t, it_pos = it_pos (?its ! i), it_next_copy = c\<rparr>"
    "\<And>j. live_iter ?its j \<Longrightarrow> ht_iterators e ! j = ?its ! j"
    "\<And>j. live_iter (ht_iterators e) j \<longleftrightarrow> j = c \<or> live_iter ?its j"
    "h = inc_count t hp" "events e = events eg" "indirect e = indirect eg"
    using iterator_add_spec [OF ok, of t "it_pos (?its ! i)"] by blast
  let ?e = "ht_iterators e"
  have ic: "i \<noteq> c" using a(3) i(1) by auto
  have li: "live_iter ?e i" "live_iter ?e c" using a(7) i(1) by simp_all
  then have il: "i < length ?e" by (simp add: live_iter_def)
  define its' where "its' = ?e[c := (?e ! c)\<lparr>it_next_copy := it_next_copy (?e ! i)\<rparr>,
      i := (?e ! i)\<lparr>it_next_copy := c\<rparr>]"
  let ?eg = "e\<lparr>ht_iterators := its'\<rparr>"
  have i0: "i < length ?its" using i(1) by (simp add: live_iter_def)
  have step: "dup_iterators_loop (i # is) s t (eg, hp) = dup_iterators_loop is s t (?eg, h)"
    using i0 il i(2) a(1,4) ic by (simp add: its'_def Let_def)
  have nth: "it_ht (its' ! j) = it_ht (?e ! j)" "it_pos (its' ! j) = it_pos (?e ! j)" for j
    using il a(4) ic by (auto simp: its'_def nth_list_update)
  have succ: "succ_iter its' j = (if j = i then c else if j = c then succ_iter ?e i else succ_iter ?e j)" for j
    using il a(4) ic by (auto simp: its'_def nth_list_update succ_iter_def)
  have len: "length its' = length ?e" by (simp add: its'_def)
  have live: "live_iter its' j = live_iter ?e j" for j using len nth by (simp add: live_iter_def)
  have cc: "succ_iter ?e c = c" using a(5) by (simp add: succ_iter_def)
  have "rings_ok its'"
    using a(2) li ic cc len nth(1) succ by (intro rings_splice [of ?e i c its']) (simp_all add: reg_ok_def)
  moreover have "on_table its' b = on_table ?e b" for b
  proof -
    have "map it_ht its' = map it_ht ?e" using len nth by (intro nth_equalityI) simp_all
    then show ?thesis
      by (metis (mono_tags, lifting) on_table_def comp_def filter_map length_map filter_cong)
  qed
  ultimately have reg: "reg_ok (?eg, h)"
    using a(2) live len by (simp add: reg_ok_def reg_mid_def used_ok_def counts_ok_def)
  have copy: "has_copy its' t i (it_pos (?its ! i))"
    using succ [of i] li live nth a(5) by (simp add: has_copy_def)
  have kept: "ht_iterators ?eg ! j = ?its ! j" if "live_iter ?its j" "j \<noteq> i" for j
  proof -
    have "j \<noteq> c" using that a(3) by blast
    then show ?thesis using that a(6) [of j] by (simp add: its'_def)
  qed
  have self: "iter_kept s (?its ! i) (ht_iterators ?eg ! i)"
    using nth [of i] a(6) [OF i(1)] i(2) by (simp add: iter_kept_def)
  show thesis
    by (rule that [OF step reg _ a(3) _ _ kept self a(8)])
      (use copy succ live a(5,7,9,10) nth(1) [of c] len iterator_add_length [OF a(1)] in simp_all)
qed

text \<open>What the passes over the iterators leave as it is.\<close>

definition iters_copied :: "nat \<Rightarrow> nat \<Rightarrow> executor_globals \<times> heap \<Rightarrow> executor_globals \<times> heap \<Rightarrow> bool" where
  "iters_copied s t st st' \<longleftrightarrow>
     (case (st, st') of ((eg, hp), (eg', hp')) \<Rightarrow>
        reg_ok (eg', hp') \<and> events eg' = events eg \<and> indirect eg' = indirect eg \<and>
        (\<forall>j. live_iter (ht_iterators eg) j \<longrightarrow>
           live_iter (ht_iterators eg') j \<and> iter_kept s (ht_iterators eg ! j) (ht_iterators eg' ! j)) \<and>
        (\<forall>j. live_iter (ht_iterators eg') j \<longrightarrow> \<not> live_iter (ht_iterators eg) j \<longrightarrow>
           it_ht (ht_iterators eg' ! j) = IterHT t \<and> iter_on (ht_iterators eg) s (it_pos (ht_iterators eg' ! j))) \<and>
        (\<forall>a. a \<noteq> t \<longrightarrow> hp' a = hp a) \<and> hp' t = (hp t)\<lparr>nIteratorsCount := nIteratorsCount (hp' t)\<rparr>)"

lemma inc_count_other: "a \<noteq> t \<Longrightarrow> inc_count t hp a = hp a"
  "inc_count t hp t = (hp t)\<lparr>nIteratorsCount := nIteratorsCount (inc_count t hp t)\<rparr>"
  by (simp_all add: inc_count_def HT_INC_ITERATORS_COUNT_def)

lemma dup_iterators_loop_ok:
  assumes "reg_ok (eg, hp)" "s \<noteq> t" "distinct is" "\<forall>i\<in>set is. i < length (ht_iterators eg)"
  shows "\<exists>eg' hp'. dup_iterators_loop is s t (eg, hp) = Inr (eg', hp') \<and> iters_copied s t (eg, hp) (eg', hp') \<and>
     (\<forall>j. live_iter (ht_iterators eg) j \<longrightarrow> j \<notin> set is \<longrightarrow> ht_iterators eg' ! j = ht_iterators eg ! j) \<and>
     (\<forall>i\<in>set is. it_ht (ht_iterators eg ! i) = IterHT s \<longrightarrow>
        has_copy (ht_iterators eg') t i (it_pos (ht_iterators eg ! i)))"
  using assms(1,3,4)
proof (induction "is" arbitrary: eg hp)
  case Nil
  then show ?case by (simp add: iters_copied_def iter_kept_def)
next
  case (Cons i "is")
  let ?its = "ht_iterators eg"
  have il: "i < length ?its" and d: "i \<notin> set is" "distinct is" using Cons.prems by simp_all
  show ?case
  proof (cases "it_ht (?its ! i) = IterHT s")
    case False
    then have "dup_iterators_loop (i # is) s t (eg, hp) = dup_iterators_loop is s t (eg, hp)" using il by simp
    then show ?thesis using Cons.IH [OF Cons.prems(1) d(2)] Cons.prems(3) False by auto
  next
    case True
    have li: "live_iter ?its i" using True il by (simp add: live_iter_def)
    from Cons.prems(1) li True assms(2) obtain e h c where a:
      "dup_iterators_loop (i # is) s t (eg, hp) = dup_iterators_loop is s t (e, h)" "reg_ok (e, h)"
      "has_copy (ht_iterators e) t i (it_pos (?its ! i))" "\<not> live_iter ?its c" "succ_iter (ht_iterators e) i = c"
      "\<And>j. live_iter (ht_iterators e) j \<longleftrightarrow> j = c \<or> live_iter ?its j"
      "\<And>j. live_iter ?its j \<Longrightarrow> j \<noteq> i \<Longrightarrow> ht_iterators e ! j = ?its ! j"
      "iter_kept s (?its ! i) (ht_iterators e ! i)" "h = inc_count t hp" "events e = events eg"
      "indirect e = indirect eg" "length ?its \<le> length (ht_iterators e)" "it_ht (ht_iterators e ! c) = IterHT t"
      by (rule dup_iter_step [of eg hp i s t "is"]) blast
    have "\<forall>i\<in>set is. i < length (ht_iterators e)" using Cons.prems(3) a(12) by auto
    from Cons.IH [OF a(2) d(2) this] obtain e' h' where r: "dup_iterators_loop is s t (e, h) = Inr (e', h')"
      "iters_copied s t (e, h) (e', h')"
      "\<And>j. live_iter (ht_iterators e) j \<Longrightarrow> j \<notin> set is \<Longrightarrow> ht_iterators e' ! j = ht_iterators e ! j"
      "\<And>j. j \<in> set is \<Longrightarrow> it_ht (ht_iterators e ! j) = IterHT s \<Longrightarrow>
        has_copy (ht_iterators e') t j (it_pos (ht_iterators e ! j))" by blast
    have kept: "live_iter (ht_iterators e') j \<and> iter_kept s (ht_iterators e ! j) (ht_iterators e' ! j)"
      if "live_iter (ht_iterators e) j" for j using r(2) that by (simp add: iters_copied_def)
    have kept2: "live_iter (ht_iterators e') j \<and> iter_kept s (?its ! j) (ht_iterators e' ! j)" if "live_iter ?its j" for j
      using kept [of j] a(6) that a(7) [OF that] a(8) by (cases "j = i") (auto simp: iter_kept_def)
    have ei: "ht_iterators e' ! i = ht_iterators e ! i" using r(3) [of i] a(6) li d(1) by simp
    have ec: "live_iter (ht_iterators e') c" "ht_iterators e' ! c = ht_iterators e ! c"
      using kept [of c] a(6,13) assms(2) by (auto simp: iter_kept_def)
    have ci: "has_copy (ht_iterators e') t i (it_pos (?its ! i))"
      using a(3,5) ei ec by (simp add: has_copy_def succ_iter_def)
    have rest: "has_copy (ht_iterators e') t j (it_pos (?its ! j))" if "j \<in> set is" "it_ht (?its ! j) = IterHT s" for j
    proof -
      have "live_iter ?its j" using that Cons.prems(3) by (simp add: live_iter_def)
      then have "ht_iterators e ! j = ?its ! j" using a(7) that(1) d(1) by blast
      then show ?thesis using r(4) [OF that(1)] that(2) by simp
    qed
    have hp: "\<forall>a. a \<noteq> t \<longrightarrow> h' a = hp a" "h' t = (hp t)\<lparr>nIteratorsCount := nIteratorsCount (h' t)\<rparr>"
    proof -
      show "\<forall>a. a \<noteq> t \<longrightarrow> h' a = hp a" using r(2) a(9) inc_count_other(1) by (auto simp: iters_copied_def)
      have "h' t = (h t)\<lparr>nIteratorsCount := nIteratorsCount (h' t)\<rparr>" using r(2) by (simp add: iters_copied_def)
      also have "h t = (hp t)\<lparr>nIteratorsCount := nIteratorsCount (h t)\<rparr>" unfolding a(9) by (rule inc_count_other)
      finally show "h' t = (hp t)\<lparr>nIteratorsCount := nIteratorsCount (h' t)\<rparr>" by simp
    qed
    have on: "iter_on ?its s p" if e: "iter_on (ht_iterators e) s p" for p
    proof -
      obtain k where k: "k < length (ht_iterators e)" "it_ht (ht_iterators e ! k) = IterHT s" "it_pos (ht_iterators e ! k) = p"
        using e unfolding iter_on_nth by blast
      then have "live_iter (ht_iterators e) k" "k \<noteq> c" using a(13) assms(2) by (auto simp: live_iter_def)
      then have l: "live_iter ?its k" using a(6) by blast
      then have "it_pos (?its ! k) = p \<and> it_ht (?its ! k) = IterHT s"
        using k a(7) [OF l] a(8) by (cases "k = i") (auto simp: iter_kept_def)
      then show ?thesis using l iter_onI [of k ?its s] by (auto simp: live_iter_def)
    qed
    have posc: "iter_on ?its s (it_pos (ht_iterators e ! c))"
      using a(3,5) iter_onI [OF il True] by (simp add: has_copy_def)
    have newt: "it_ht (ht_iterators e' ! j) = IterHT t \<and> iter_on ?its s (it_pos (ht_iterators e' ! j))"
      if "live_iter (ht_iterators e') j" "\<not> live_iter ?its j" for j
      using r(2) that a(6) [of j] a(13) ec(2) posc on by (cases "j = c") (auto simp: iters_copied_def)
    have "iters_copied s t (eg, hp) (e', h')"
      using r(2) kept2 newt hp a(10,11) by (simp add: iters_copied_def)
    moreover have "ht_iterators e' ! j = ?its ! j" if "live_iter ?its j" "j \<notin> set (i # is)" for j
      using that r(3) [of j] a(6,7) by auto
    ultimately show ?thesis using a(1) r(1) ci rest by auto
  qed
qed

lemma dup_ht_iterators_ok:
  assumes "reg_ok (eg, hp)" "s \<noteq> t"
  obtains eg' hp' where "zend_array_dup_ht_iterators s t (eg, hp) = Inr (eg', hp')" "iters_copied s t (eg, hp) (eg', hp')"
    "\<And>i. live_iter (ht_iterators eg) i \<Longrightarrow> it_ht (ht_iterators eg ! i) = IterHT s \<Longrightarrow>
      has_copy (ht_iterators eg') t i (it_pos (ht_iterators eg ! i))"
proof -
  have "ht_iterators_used eg \<le> length (ht_iterators eg)" using assms(1) by (simp add: reg_ok_def reg_mid_def used_ok_def)
  then obtain eg' hp' where r: "zend_array_dup_ht_iterators s t (eg, hp) = Inr (eg', hp')" "iters_copied s t (eg, hp) (eg', hp')"
    "\<forall>i\<in>{0..<ht_iterators_used eg}. it_ht (ht_iterators eg ! i) = IterHT s \<longrightarrow>
        has_copy (ht_iterators eg') t i (it_pos (ht_iterators eg ! i))"
    using dup_iterators_loop_ok [OF assms, of "[0..<ht_iterators_used eg]"]
    by (auto simp: zend_array_dup_ht_iterators_def)
  have "i < ht_iterators_used eg" if "live_iter (ht_iterators eg) i" for i
    using live_below_used [OF _ that, of hp] assms(1) by (simp add: reg_ok_def)
  then show thesis using that [OF r(1,2)] r(3) by simp
qed

lemma eg_same_reg:
  assumes "eg_same eg eg'" "reg_ok (eg, hp)"
  shows "reg_ok (eg', hp)" "\<And>j. live_iter (ht_iterators eg') j = live_iter (ht_iterators eg) j"
    "\<And>j. live_iter (ht_iterators eg) j \<Longrightarrow> succ_iter (ht_iterators eg') j = succ_iter (ht_iterators eg) j"
    "\<And>j. live_iter (ht_iterators eg) j \<Longrightarrow> it_ht (ht_iterators eg' ! j) = it_ht (ht_iterators eg ! j)"
proof -
  let ?a = "ht_iterators eg" and ?b = "ht_iterators eg'"
  have len: "length ?b = length ?a" and used: "ht_iterators_used eg' = ht_iterators_used eg"
    using eg_same_fields [OF assms(1)] by simp_all
  have m: "map it_ht ?b = map it_ht ?a" "map it_next_copy ?b = map it_next_copy ?a"
    using assms(1) by (simp_all add: eg_same_def)
  have nth: "it_ht (?b ! j) = it_ht (?a ! j)" "it_next_copy (?b ! j) = it_next_copy (?a ! j)" if "j < length ?a" for j
    using arg_cong [OF m(1), of "\<lambda>xs. xs ! j"] arg_cong [OF m(2), of "\<lambda>xs. xs ! j"] that len by simp_all
  show live: "live_iter ?b j = live_iter ?a j" for j using len nth by (auto simp: live_iter_def)
  show succ: "succ_iter ?b j = succ_iter ?a j" if "live_iter ?a j" for j using that nth by (simp add: live_iter_def succ_iter_def)
  show "it_ht (?b ! j) = it_ht (?a ! j)" if "live_iter ?a j" for j using that nth by (simp add: live_iter_def)
  have "on_table ?b a = on_table ?a a" for a
  proof -
    have q: "on_table xs a = length (filter (\<lambda>h. h = IterHT a) (map it_ht xs))" for xs
      by (simp add: on_table_def filter_map comp_def)
    show ?thesis unfolding q m(1) ..
  qed
  moreover have "inj_on (succ_iter ?b) {j. live_iter ?a j} = inj_on (succ_iter ?a) {j. live_iter ?a j}"
    using succ by (intro inj_on_cong) simp
  ultimately show "reg_ok (eg', hp)"
    using assms(2) len used live succ by (simp add: reg_ok_def reg_mid_def used_ok_def counts_ok_def rings_ok_def)
qed

lemma reg_ok_store: "reg_ok (eg, hp) \<Longrightarrow> nIteratorsCount T = nIteratorsCount (hp t) \<Longrightarrow> reg_ok (eg, hp(t := T))"
  by (simp add: reg_ok_def reg_mid_def counts_ok_def)

text \<open>An address that no iterator points to.\<close>

definition unused :: "HashTableIterator list \<Rightarrow> nat \<Rightarrow> bool" where
  "unused its t \<longleftrightarrow> (\<forall>it\<in>set its. it_ht it \<noteq> IterHT t)"

lemma reg_ok_fresh: "reg_ok (eg, hp) \<Longrightarrow> unused (ht_iterators eg) t \<Longrightarrow> nIteratorsCount T = 0 \<Longrightarrow> reg_ok (eg, hp(t := T))"
  by (auto simp: reg_ok_def reg_mid_def counts_ok_def on_table_def unused_def filter_empty_conv)

text \<open>
  What has become of the iterators after a copy: \<open>R\<close> relates the position of each iterator of the
  source to that of its copy.
\<close>

definition iters_followed :: "nat \<Rightarrow> nat \<Rightarrow> (nat \<Rightarrow> nat \<Rightarrow> bool) \<Rightarrow> HashTableIterator list \<Rightarrow> HashTableIterator list \<Rightarrow> bool" where
  "iters_followed s t R its its' \<longleftrightarrow>
     (\<forall>j. live_iter its j \<longrightarrow> live_iter its' j \<and> iter_kept s (its ! j) (its' ! j)) \<and>
     (\<forall>i. live_iter its i \<longrightarrow> it_ht (its ! i) = IterHT s \<longrightarrow> (\<exists>q. has_copy its' t i q \<and> R (it_pos (its ! i)) q))"

lemma followed_mono: "iters_followed s t R its its' \<Longrightarrow> (\<And>p q. R p q \<Longrightarrow> R' p q) \<Longrightarrow> iters_followed s t R' its its'"
  unfolding iters_followed_def by blast

lemma dup_iterators_opt:
  assumes "reg_ok (eg, hp)" "s \<noteq> t" "ht_addr source = s" "nIteratorsCount source = nIteratorsCount (hp s)"
  obtains eg' hp' where
    "(if HT_HAS_ITERATORS source then zend_array_dup_ht_iterators (ht_addr source) t (eg, hp) else Inr (eg, hp)) = Inr (eg', hp')"
    "iters_copied s t (eg, hp) (eg', hp')" "iters_followed s t (=) (ht_iterators eg) (ht_iterators eg')"
proof (cases "HT_HAS_ITERATORS source")
  case True
  obtain e h where r: "zend_array_dup_ht_iterators s t (eg, hp) = Inr (e, h)" "iters_copied s t (eg, hp) (e, h)"
    "\<And>i. live_iter (ht_iterators eg) i \<Longrightarrow> it_ht (ht_iterators eg ! i) = IterHT s \<Longrightarrow>
      has_copy (ht_iterators e) t i (it_pos (ht_iterators eg ! i))"
    by (rule dup_ht_iterators_ok [OF assms(1,2)]) blast
  then show thesis using that [of e h] True assms(3) by (auto simp: iters_followed_def iters_copied_def)
next
  case False
  have "it_ht (ht_iterators eg ! i) \<noteq> IterHT s" if "live_iter (ht_iterators eg) i" for i
    using no_count_no_iterator [OF assms(1), of s i] False that assms(4) by (simp add: HT_HAS_ITERATORS_def live_iter_def)
  then show thesis using that [of eg hp] False assms(1)
    by (auto simp: iters_followed_def iters_copied_def iter_kept_def)
qed

text \<open>The iterators of the new table are those of the source, place for place.\<close>

lemma copied_iters_on:
  assumes "iters_copied s t (eg, hp) (eg1, hp1)" "iters_followed s t (=) (ht_iterators eg) (ht_iterators eg1)"
    and un: "unused (ht_iterators eg) t"
  shows "iter_on (ht_iterators eg1) t = iter_on (ht_iterators eg) s"
proof (intro ext iffI)
  let ?a = "ht_iterators eg" and ?b = "ht_iterators eg1"
  show "iter_on ?a s p" if e: "iter_on ?b t p" for p
  proof -
    obtain c where c: "c < length ?b" "it_ht (?b ! c) = IterHT t" "it_pos (?b ! c) = p"
      using e unfolding iter_on_nth by blast
    have "\<not> live_iter ?a c"
    proof
      assume l: "live_iter ?a c"
      then have "iter_kept s (?a ! c) (?b ! c)" using assms(1) by (simp add: iters_copied_def)
      then show False using c(2) l un by (auto simp: iter_kept_def unused_def live_iter_def)
    qed
    then show ?thesis using assms(1) c by (auto simp: iters_copied_def live_iter_def)
  qed
  show "iter_on ?b t p" if e: "iter_on ?a s p" for p
  proof -
    obtain c where c: "c < length ?a" "it_ht (?a ! c) = IterHT s" "it_pos (?a ! c) = p"
      using e unfolding iter_on_nth by blast
    then have "has_copy ?b t c p" using assms(2) by (auto simp: iters_followed_def live_iter_def)
    then show ?thesis using iter_onI [of "succ_iter ?b c" ?b t] by (auto simp: has_copy_def live_iter_def)
  qed
qed

lemma followed_moved:
  assumes "iters_followed s t (=) (ht_iterators eg) (ht_iterators eg1)" "iters_moved t eg1 eg2" "reg_ok (eg1, hp)"
    "unused (ht_iterators eg) t"
    and R: "\<And>c. c < length (ht_iterators eg1) \<Longrightarrow> it_ht (ht_iterators eg1 ! c) = IterHT t \<Longrightarrow>
      R (it_pos (ht_iterators eg1 ! c)) (it_pos (ht_iterators eg2 ! c))"
  shows "iters_followed s t R (ht_iterators eg) (ht_iterators eg2)"
  unfolding iters_followed_def
proof (intro conjI allI impI)
  let ?a = "ht_iterators eg" and ?b = "ht_iterators eg1" and ?c = "ht_iterators eg2"
  have same: "eg_same eg1 eg2" using assms(2) by (simp add: iters_moved_def)
  note s = eg_same_reg [OF same assms(3)]
  have ne: "it_ht (?b ! j) \<noteq> IterHT t" "live_iter ?b j" "iter_kept s (?a ! j) (?b ! j)" if "live_iter ?a j" for j
    using assms(1,4) that by (auto simp: iters_followed_def iter_kept_def unused_def live_iter_def)
  have eq: "?c ! j = ?b ! j" if "live_iter ?a j" for j
    using assms(2) ne [OF that] by (simp add: iters_moved_def live_iter_def)
  show "live_iter ?c j" "iter_kept s (?a ! j) (?c ! j)" if "live_iter ?a j" for j
    using ne [OF that] eq [OF that] s(2) by simp_all
  show "\<exists>q. has_copy ?c t i q \<and> R (it_pos (?a ! i)) q" if i: "live_iter ?a i" "it_ht (?a ! i) = IterHT s" for i
  proof -
    have c: "has_copy ?b t i (it_pos (?a ! i))" using assms(1) i by (auto simp: iters_followed_def)
    then have "has_copy ?c t i (it_pos (?c ! succ_iter ?c i))"
      using s(2-4) ne(2) [OF i(1)] by (simp add: has_copy_def)
    moreover have "R (it_pos (?a ! i)) (it_pos (?c ! succ_iter ?c i))"
      using R [of "succ_iter ?b i"] c s(3) [OF ne(2) [OF i(1)]] by (auto simp: has_copy_def live_iter_def)
    ultimately show ?thesis by blast
  qed
qed

subsection \<open>The tables\<close>

lemma refs_ok_alloc [simp]: "refs_ok (gc_alloc t gc) = refs_ok gc"
  by (simp add: refs_ok_def gc_alloc_def)

lemma next_free_copied:
  assumes "next_free_ok src" "fst ` set (elems h) \<subseteq> fst ` set (elems src)" "nNextFreeElement h = nNextFreeElement src"
  shows "next_free_ok h"
proof -
  have "key_below (nNextFreeElement src) (fst kv)" if "kv \<in> set (elems h)" for kv
  proof -
    have "fst kv \<in> fst ` set (elems src)" using assms(2) that by blast
    then obtain kv' where "kv' \<in> set (elems src)" "fst kv = fst kv'" by (rule imageE)
    moreover have "\<forall>x\<in>set (elems src). key_below (nNextFreeElement src) (fst x)"
      using assms(1) unfolding next_free_ok_def by blast
    ultimately show ?thesis by simp
  qed
  then show ?thesis using assms(1,3) by (simp add: next_free_ok_def)
qed

lemma all_live_take:
  assumes "\<And>i. i < n \<Longrightarrow> f i \<noteq> None" "k \<le> n"
  shows "entries f k = take k (entries f n)"
proof -
  obtain rest where r: "entries f n = entries f k @ rest" using entries_split [of k n f] assms(2) by auto
  have "length (entries f k) = k" using assms by (simp add: length_entries_full)
  then show ?thesis using r by simp
qed

lemma from_pos_copied:
  assumes "before_pos h q = copied gc s ind pk (before_pos src p)" "elems h = copied gc s ind pk (elems src)"
  shows "from_pos h q = copied gc s ind pk (from_pos src p)"
proof -
  have "before_pos h q @ from_pos h q = copied gc s ind pk (before_pos src p @ from_pos src p)"
    unfolding before_from by (rule assms(2))
  then show ?thesis by (simp add: assms(1))
qed

lemma copied_length: "\<forall>kv\<in>set xs. resolve ind pk (snd kv) \<noteq> IS_UNDEF \<Longrightarrow> length (copied gc s ind pk xs) = length xs"
  by (induction xs) auto

lemma elems_live: "kv \<in> set (elems ht) \<Longrightarrow> snd kv \<noteq> IS_UNDEF"
  by (auto simp: elems_def set_entries entry_at_def packed_entry_def bucket_entry_def split: option.splits if_splits)

text \<open>A packed copy: the same places.\<close>

lemma packed_copy:
  assumes inv: "ht_inv src" "f_packed src" and refs: "refs_ok gc" and elem: "nNumOfElements src \<noteq> 0"
  obtains q gc' where
    "dup_packed_loop (0 # [1..<nNumUsed src]) src ind (\<not> HT_IS_WITHOUT_HOLES src) (replicate (nTableSize src) None, gc) = Inr (q, gc')"
    "gc' = fold Z_ADDREF (taken gc (copied gc (ht_addr src) ind True (elems src))) gc"
    "\<And>h c ip. h = src\<lparr>ht_addr := t, f_persistent := False, nIteratorsCount := c, pDestructor := ZVAL_PTR_DTOR, nTableMask := HT_MIN_MASK,
        arHash := [HT_INVALID_IDX, HT_INVALID_IDX], arPacked := q, nInternalPointer := ip\<rparr> \<Longrightarrow>
      ht_inv h \<and> elems h = copied gc (ht_addr src) ind True (elems src) \<and>
      (\<forall>p. from_pos h p = copied gc (ht_addr src) ind True (from_pos src p))"
proof -
  let ?n = "nNumUsed src" and ?s = "ht_addr src"
  have pk: "packed_ok src" and sz: "size_ok (nTableSize src)" using inv by (simp_all add: inv_packed inv_size)
  have n: "?n \<le> length (arPacked src)" "?n \<le> length (replicate (nTableSize src) (None :: zval option))"
    and cells: "k < ?n \<Longrightarrow> arPacked src ! k \<noteq> None" for k using pk by (auto simp: packed_ok_def)
  have pos: "0 < ?n" using elem inv by (cases "?n = 0") (auto simp: ht_inv_def elems_nil)
  have holes: "\<not> HT_IS_WITHOUT_HOLES src \<or> (\<forall>k<?n. entry_at src k \<noteq> None)"
    using elems_without_holes [OF inv(1)] by blast
  have c0: "counted gc ?s (copied gc ?s ind True (entries (entry_at src) 0)) gc"
    using same_view_refl [OF refs] by (simp add: counted_def)
  obtain q gc' where q: "dup_packed_loop [0..<?n] src ind (\<not> HT_IS_WITHOUT_HOLES src) (replicate (nTableSize src) None, gc) = Inr (q, gc')"
    "length q = nTableSize src" "\<And>k. k < ?n \<Longrightarrow> q ! k = map_option (unwrapped gc ?s) (arPacked src ! k)"
    "counted gc ?s (copied gc ?s ind True (entries (entry_at src) ?n)) gc'"
    using dup_packed_ok [OF n cells holes inv(2) le0 c0] by auto
  have res: "resolve ind True v = v" for v by (simp add: resolve_def)
  have fin: "ht_inv h \<and> elems h = copied gc ?s ind True (elems src) \<and>
      (\<forall>p. from_pos h p = copied gc ?s ind True (from_pos src p))"
    if h: "h = src\<lparr>ht_addr := t, f_persistent := False, nIteratorsCount := c, pDestructor := ZVAL_PTR_DTOR, nTableMask := HT_MIN_MASK,
        arHash := [HT_INVALID_IDX, HT_INVALID_IDX], arPacked := q, nInternalPointer := ip\<rparr>" for h c ip
  proof -
    have at: "entry_at h k = (case entry_at src k of None \<Rightarrow> None | Some (x, v) \<Rightarrow> Some (x, unwrapped gc ?s (resolve ind True v)))"
      if kn: "k < ?n" for k
    proof -
      obtain v where v: "arPacked src ! k = Some v" using cells [OF kn] by (cases "arPacked src ! k") simp_all
      have "unwrapped gc ?s v = IS_UNDEF \<longleftrightarrow> v = IS_UNDEF" using copied_live [OF refs, of v ?s] by auto
      then show ?thesis using q(3) [OF kn] v inv(2) by (simp add: h entry_at_def packed_entry_def res)
    qed
    have live: "v \<noteq> IS_UNDEF" if "k < ?n" "entry_at src k = Some (x, v)" for k x v
      using that inv(2) by (auto simp: entry_at_def packed_entry_def split: option.splits if_splits)
    have ent: "entries (entry_at h) k = copied gc ?s ind True (entries (entry_at src) k)" if "k \<le> ?n" for k
    proof (rule copied_places)
      show "resolve ind True v \<noteq> IS_UNDEF" if i: "i < k" "entry_at src i = Some (x, v)" for i x v
        using live [OF _ i(2)] i(1) \<open>k \<le> ?n\<close> by (simp add: res)
    qed (use that at in simp)
    have used: "nNumUsed h = ?n" by (simp add: h)
    have e: "elems h = copied gc ?s ind True (elems src)" using ent by (simp add: elems_def used)
    have "length (elems h) = length (elems src)"
      unfolding e by (rule copied_length) (simp add: elems_live res)
    moreover have "distinct (map fst (elems h))" unfolding e by (rule copied_distinct) (rule inv_distinct [OF inv(1)])
    moreover have "next_free_ok h"
    proof (rule next_free_copied [of src])
      show "next_free_ok src" using inv(1) by (simp add: ht_inv_def)
      show "fst ` set (elems h) \<subseteq> fst ` set (elems src)" unfolding e by (rule copied_keys)
      show "nNextFreeElement h = nNextFreeElement src" by (simp add: h)
    qed
    moreover have "packed_ok h" using pk q cells by (simp add: packed_ok_def h)
    ultimately have "ht_inv h" using inv sz by (simp add: ht_inv_def) (simp add: h)
    moreover have "from_pos h p = copied gc ?s ind True (from_pos src p)" for p
      using ent e by (intro from_pos_copied) (simp_all add: before_pos_def used)
    ultimately show ?thesis using e by simp
  qed
  have "dup_packed_loop (0 # [1..<?n]) src ind (\<not> HT_IS_WITHOUT_HOLES src) (replicate (nTableSize src) None, gc) = Inr (q, gc')"
    unfolding places [OF pos] by (rule q(1))
  moreover have "gc' = fold Z_ADDREF (taken gc (copied gc ?s ind True (elems src))) gc"
    using q(4) unfolding counted_def elems_def by blast
  ultimately show thesis using fin by (rule that)
qed

text \<open>A mixed copy: the copied entries from the first place on, without holes.\<close>

lemma cents_entries: "\<not> f_packed src \<Longrightarrow>
    cents src gc eg k = copied gc (ht_addr src) (indirect eg) False (entries (entry_at src) k)"
  by (simp add: cents_def bents_def entry_at_def [abs_def])

lemma cents_prefix:
  assumes "\<not> f_packed src" "k \<le> n"
  obtains rest where "cents src gc eg n = cents src gc eg k @ rest"
  using entries_split [of k n "entry_at src"] assms by (auto simp: cents_entries)

text \<open>The table is seen from a place on as the source is, if as much was copied before it.\<close>

lemma compact_from_pos:
  assumes src: "\<not> f_packed src" and j: "nNumUsed h = j" "\<And>i. i < j \<Longrightarrow> entry_at h i \<noteq> None"
    and e: "elems h = cents src gc eg (nNumUsed src)"
    and q: "min q j = length (cents src gc eg (min p (nNumUsed src)))"
  shows "from_pos h q = copied gc (ht_addr src) (indirect eg) False (from_pos src p)"
proof (rule from_pos_copied)
  let ?k = "min p (nNumUsed src)"
  show "elems h = copied gc (ht_addr src) (indirect eg) False (elems src)"
    using e src by (simp add: cents_entries elems_def)
  obtain rest where r: "cents src gc eg (nNumUsed src) = cents src gc eg ?k @ rest"
    using cents_prefix [OF src, of ?k "nNumUsed src"] by auto
  have "before_pos h q = take (min q j) (elems h)"
    using all_live_take [where f = "entry_at h" and n = j and k = "min q j", OF j(2)] j(1) by (simp add: before_pos_def elems_def)
  also have "\<dots> = cents src gc eg ?k" using e r q by simp
  finally show "before_pos h q = copied gc (ht_addr src) (indirect eg) False (before_pos src p)"
    using src by (simp add: cents_entries before_pos_def)
qed

lemma mixed_copy:
  assumes inv: "ht_inv src" "\<not> f_packed src" and refs: "refs_ok gc" and elem: "nNumOfElements src \<noteq> 0"
    and tg0: "tg0 = HT_HASH_RESET (src\<lparr>ht_addr := t, f_persistent := False, nIteratorsCount := 0, pDestructor := ZVAL_PTR_DTOR,
        f_empty_ind := False, arData := replicate (nTableSize src) None,
        nInternalPointer := (if nInternalPointer src < nNumUsed src then nInternalPointer src else 0),
        nNumUsed := 0, nNumOfElements := 0\<rparr>)"
    and its: "iters_used t eg" "c = 0 \<Longrightarrow> \<forall>p. \<not> iter_on (ht_iterators eg) t p"
  obtains tg eg' gc' j where
    "dup_elements_loop (0 # [1..<nNumUsed src]) 0 src (HT_HAS_STATIC_KEYS_ONLY tg0) (\<not> HT_IS_WITHOUT_HOLES src)
       (tg0\<lparr>nIteratorsCount := c\<rparr>, eg, gc) = Inr ((tg, eg', gc'), j)"
    "j = length (cents src gc eg (nNumUsed src))"
    "gc' = fold Z_ADDREF (taken gc (cents src gc eg (nNumUsed src))) gc"
    "eg_dup t eg eg' (if f_static_keys src then [] else string_keys_of (cents src gc eg (nNumUsed src)))"
    "iters_at t (copied_place src gc eg) (ht_iterators eg) (nNumUsed src) (ht_iterators eg')"
    "ht_inv (tg\<lparr>nNumUsed := j, nNumOfElements := j\<rparr>)"
    "elems (tg\<lparr>nNumUsed := j, nNumOfElements := j\<rparr>) = cents src gc eg (nNumUsed src)"
    "\<And>i. i < j \<Longrightarrow> entry_at (tg\<lparr>nNumUsed := j, nNumOfElements := j\<rparr>) i \<noteq> None"
    "nInternalPointer tg = pointer_at src gc eg (nInternalPointer tg0) (nNumUsed src)"
    "tg = tg0\<lparr>nIteratorsCount := c, arData := arData tg, arHash := arHash tg,
        nInternalPointer := nInternalPointer tg, nNumUsed := nNumUsed tg\<rparr>"
proof -
  let ?n = "nNumUsed src" and ?s = "ht_addr src" and ?T = "tg0\<lparr>nIteratorsCount := c\<rparr>"
  have init: "\<not> f_uninit src" using inv elem by (auto simp: ht_inv_def uninit_ok_def elems_nil)
  have mix: "mixed_ok src" and sz: "size_ok (nTableSize src)" using inv init by (simp_all add: inv_mixed inv_size)
  note m = mixed_okD [OF mix]
  have mask: "nTableMask tg0 = HT_SIZE_TO_MASK (nTableSize src)" "f_static_keys tg0 = f_static_keys src"
    "arHash tg0 = replicate (2 * nTableSize src) HT_INVALID_IDX" "arData tg0 = replicate (nTableSize src) None"
    "\<not> f_packed tg0" "\<not> f_uninit tg0" "nTableSize tg0 = nTableSize src" "ht_addr tg0 = t"
    "nNextFreeElement tg0 = nNextFreeElement src"
    using inv(2) init m(1) size_mask [OF sz] by (simp_all add: tg0 HT_HASH_RESET_def)
  have pos: "0 < ?n" using elem inv by (cases "?n = 0") (auto simp: ht_inv_def elems_nil)
  have len: "?n \<le> length (arData src)" using m by simp
  have sl: "slot (nTableMask ?T) x < length (arHash ?T)" for x using mask slot_ok [OF sz] by simp
  have d0: "dup_inv src gc eg ?T 0 0 (?T, eg, gc)"
    using mask m(3) same_view_refl [OF refs] eg_dup_refl
    by (simp add: dup_inv_def counted_def pointer_at_def chains_ok_def)
  have holes: "\<not> HT_IS_WITHOUT_HOLES src \<or> (\<forall>k<?n. bucket_entry (arData src ! k) \<noteq> None)"
    using elems_without_holes [OF inv(1)] inv(2) unfolding entry_at_def by simp blast
  have ptr0: "nInternalPointer ?T = nInternalPointer src" if "nInternalPointer src < ?n"
    using that by (simp add: tg0 HT_HASH_RESET_def)
  obtain tg eg' gc' j where r: "dup_elements_loop [0..<?n] 0 src (f_static_keys src) (\<not> HT_IS_WITHOUT_HOLES src) (?T, eg, gc) =
      Inr ((tg, eg', gc'), j)" "dup_inv src gc eg ?T ?n j (tg, eg', gc')"
    "iters_at (ht_addr ?T) (copied_place src gc eg) (ht_iterators eg) ?n (ht_iterators eg')"
  proof -
    have u: "iters_used (ht_addr ?T) eg" using its(1) mask(8) by simp
    have none: "\<forall>p. \<not> iter_on (ht_iterators eg) (ht_addr ?T) p" if "\<not> HT_HAS_ITERATORS ?T"
      using its(2) that mask(8) by (simp add: HT_HAS_ITERATORS_def)
    have "copied_place src gc eg k" if "k < 0" for k using that by simp
    from dup_elements_ok [OF d0 le0 refl len m(5) holes refs sl ptr0 refl u none this] that show thesis by blast
  qed
  have j: "j = length (cents src gc eg ?n)" using dup_inv_length [OF r(2)] by simp
  let ?h = "tg\<lparr>nNumUsed := j, nNumOfElements := j\<rparr>"
  have tg: "tg = ?T\<lparr>arData := arData tg, arHash := arHash tg, nInternalPointer := nInternalPointer tg, nNumUsed := nNumUsed tg\<rparr>"
    and l: "length (arData tg) = length (arData src)" "length (arHash tg) = length (arHash ?T)"
    and ch: "chains_ok (arData tg) (nTableMask ?T) (arHash tg) j" and jn: "j \<le> ?n"
    and cells: "\<forall>k<j. bucket_ok (f_static_keys src) (arData tg ! k) \<and> bucket_entry (arData tg ! k) \<noteq> None"
    and ents: "bents (arData tg) j = cents src gc eg ?n" and cnt: "counted gc ?s (cents src gc eg ?n) gc'"
    and egd: "eg_dup (ht_addr ?T) eg eg' (if f_static_keys src then [] else string_keys_of (cents src gc eg ?n))"
    and ptr: "nInternalPointer tg = pointer_at src gc eg (nInternalPointer ?T) ?n"
    using r(2) unfolding dup_inv_def prod.case by blast+
  obtain d hs ip u where tg': "tg = ?T\<lparr>arData := d, arHash := hs, nInternalPointer := ip, nNumUsed := u\<rparr>" using tg by blast
  have e: "elems ?h = cents src gc eg ?n" using ents mask by (simp add: elems_mixed tg')
  have mixh: "mixed_ok ?h"
    using l ch jn cells m mask by (simp add: mixed_ok_def tg')
  have keys: "cents src gc eg ?n = copied gc ?s (indirect eg) False (elems src)"
    using inv(2) by (simp add: cents_entries elems_def)
  have "distinct (map fst (elems ?h))" unfolding e keys by (rule copied_distinct) (rule inv_distinct [OF inv(1)])
  moreover have "next_free_ok ?h"
  proof (rule next_free_copied [of src])
    show "next_free_ok src" using inv(1) by (simp add: ht_inv_def)
    show "fst ` set (elems ?h) \<subseteq> fst ` set (elems src)" unfolding e keys by (rule copied_keys)
    show "nNextFreeElement ?h = nNextFreeElement src" using mask by (simp add: tg')
  qed
  moreover have "length (elems ?h) = j" using e j by simp
  ultimately have inv': "ht_inv ?h" using mixh sz mask unfolding ht_inv_def by (simp add: tg')
  have live: "entry_at ?h i \<noteq> None" if "i < j" for i using cells that mask by (simp add: entry_at_def tg')
  have st: "HT_HAS_STATIC_KEYS_ONLY tg0 = f_static_keys src" using mask by (simp add: HT_HAS_STATIC_KEYS_ONLY_def)
  have loop: "dup_elements_loop (0 # [1..<?n]) 0 src (HT_HAS_STATIC_KEYS_ONLY tg0) (\<not> HT_IS_WITHOUT_HOLES src)
       (tg0\<lparr>nIteratorsCount := c\<rparr>, eg, gc) = Inr ((tg, eg', gc'), j)"
    unfolding places [OF pos] st by (rule r(1))
  have ptr': "nInternalPointer tg = pointer_at src gc eg (nInternalPointer tg0) ?n" using ptr by simp
  have frame: "tg = tg0\<lparr>nIteratorsCount := c, arData := arData tg, arHash := arHash tg,
        nInternalPointer := nInternalPointer tg, nNumUsed := nNumUsed tg\<rparr>" by (simp add: tg')
  have gc': "gc' = fold Z_ADDREF (taken gc (cents src gc eg ?n)) gc" using cnt unfolding counted_def by blast
  have egd': "eg_dup t eg eg' (if f_static_keys src then [] else string_keys_of (cents src gc eg ?n))"
    using egd mask(8) by simp
  show thesis
    by (rule that [OF loop j gc' egd' _ inv' e live ptr' frame]) (use r(3) mask(8) in simp_all)
qed

subsection \<open>The whole copy\<close>

definition dup_entries :: "nat \<Rightarrow> nat \<Rightarrow> dup_state \<Rightarrow> (hkey \<times> zval) list \<Rightarrow> (hkey \<times> zval) list" where
  "dup_entries s t st xs =
     (case st of (eg, hp, gc) \<Rightarrow>
        if gc_immutable gc s then xs else copied (gc_alloc t gc) s (indirect eg) (f_packed (hp s)) xs)"

definition dup_taken :: "nat \<Rightarrow> nat \<Rightarrow> dup_state \<Rightarrow> zval list" where
  "dup_taken s t st =
     (case st of (eg, hp, gc) \<Rightarrow>
        if gc_immutable gc s then [] else taken (gc_alloc t gc) (dup_entries s t st (elems (hp s))))"

definition dup_ok :: "nat \<Rightarrow> nat \<Rightarrow> dup_state \<Rightarrow> dup_state \<Rightarrow> bool" where
  "dup_ok s t st st' \<longleftrightarrow>
     (case (st, st') of ((eg, hp, gc), (eg', hp', gc')) \<Rightarrow>
        ht_inv (hp' t) \<and> ht_addr (hp' t) = t \<and> pDestructor (hp' t) = ZVAL_PTR_DTOR \<and>
        nNextFreeElement (hp' t) = nNextFreeElement (hp s) \<and>
        elems (hp' t) = dup_entries s t st (elems (hp s)) \<and>
        (\<forall>a. a \<noteq> t \<longrightarrow> hp' a = hp a) \<and>
        gc' = fold Z_ADDREF (dup_taken s t st) (gc_alloc t gc) \<and>
        reg_ok (eg', hp') \<and>
        (\<exists>evs. events eg' = events eg @ evs \<and> set evs \<subseteq> range EvStrAddref \<and>
           ev_addrefs evs = (if gc_immutable gc s \<or> f_packed (hp s) \<or> f_static_keys (hp s) then []
                             else string_keys_of (elems (hp' t)))))"

lemma hold_table:
  assumes "ht_inv T" "ht_addr T = t" "pDestructor T = ZVAL_PTR_DTOR" "nNextFreeElement T = nNextFreeElement (hp s)"
    "elems T = dup_entries s t (eg, hp, gc) (elems (hp s))" "dup_taken s t (eg, hp, gc) = []"
    "reg_ok (eg, hp)" "unused (ht_iterators eg) t" "nIteratorsCount T = 0"
    "gc_immutable gc s \<or> f_packed (hp s) \<or> f_static_keys (hp s) \<or> string_keys_of (elems T) = []"
  shows "dup_ok s t (eg, hp, gc) (eg, hp(t := T), gc_alloc t gc)"
  using assms reg_ok_fresh [OF assms(7-9)] by (auto simp: dup_ok_def)

lemma dup_empty:
  assumes "reg_ok (eg, hp)" "ht_inv (hp s)" "unused (ht_iterators eg) t" "nNumOfElements (hp s) = 0"
  shows "\<exists>st'. zend_array_dup s t (eg, hp, gc) = Inr st' \<and> dup_ok s t (eg, hp, gc) st'"
proof -
  let ?T = "(zend_empty_array t)\<lparr>nNextFreeElement := nNextFreeElement (hp s)\<rparr>"
  have e: "elems (hp s) = []" using assms(2,4) by (simp add: ht_inv_def)
  have T: "elems ?T = []" by (simp add: elems_def zend_empty_array_def)
  have "next_free_ok ?T" using assms(2) T by (simp add: ht_inv_def next_free_ok_def)
  then have "ht_inv ?T"
    using T size_ok_8 by (simp add: ht_inv_def) (simp add: zend_empty_array_def uninit_ok_def)
  moreover have "zend_array_dup s t (eg, hp, gc) = Inr (eg, hp(t := ?T), gc_alloc t gc)"
    using assms(4) by (simp add: zend_array_dup_def Let_def)
  ultimately show ?thesis using e T assms
    by (intro exI [of _ "(eg, hp(t := ?T), gc_alloc t gc)"] conjI hold_table)
      (simp_all add: dup_entries_def dup_taken_def, simp_all add: zend_empty_array_def)
qed

lemma dup_immutable:
  assumes "reg_ok (eg, hp)" "ht_inv (hp s)" "unused (ht_iterators eg) t" "nNumOfElements (hp s) \<noteq> 0"
    "gc_immutable gc s" "\<not> f_empty_ind (hp s)"
  shows "\<exists>st'. zend_array_dup s t (eg, hp, gc) = Inr st' \<and> dup_ok s t (eg, hp, gc) st'"
proof -
  let ?S = "hp s"
  let ?T0 = "?S\<lparr>ht_addr := t, f_persistent := False, nIteratorsCount := 0, pDestructor := ZVAL_PTR_DTOR\<rparr>"
  define T where "T = (if f_packed ?S
      then ?T0\<lparr>arPacked := realloc_used (nTableSize ?S) (nNumUsed ?S) (arPacked ?S)\<rparr>
      else ?T0\<lparr>arData := realloc_used (nTableSize ?S) (nNumUsed ?S) (arData ?S)\<rparr>)"
  have init: "\<not> f_uninit ?S \<or> f_packed ?S" using assms(2,4) elems_nil [of ?S] by (auto simp: ht_inv_def uninit_ok_def split: if_splits)
  have used: "nNumUsed T = nNumUsed ?S" "f_packed T = f_packed ?S" by (simp_all add: T_def)
  have le: "f_packed ?S \<Longrightarrow> nNumUsed ?S \<le> length (arPacked ?S)" "\<not> f_packed ?S \<Longrightarrow> nNumUsed ?S \<le> length (arData ?S)"
    "nNumUsed ?S \<le> nTableSize ?S"
    using assms(2) init inv_used_le [OF assms(2)] by (auto simp: ht_inv_def packed_ok_def mixed_ok_def)
  have nth: "f_packed ?S \<Longrightarrow> arPacked T ! i = arPacked ?S ! i" "\<not> f_packed ?S \<Longrightarrow> arData T ! i = arData ?S ! i"
    if "i < nNumUsed ?S" for i using that le by (simp_all add: T_def realloc_used_nth)
  have "entry_at T i = entry_at ?S i" if "i < nNumUsed ?S" for i using nth [OF that] used by (simp add: entry_at_def)
  then have e: "elems T = elems ?S" unfolding elems_def used by (rule entries_cong)
  have nf: "next_free_ok T = next_free_ok ?S" using e by (simp add: next_free_ok_def) (simp add: T_def)
  have "ht_inv T"
  proof (cases "f_packed ?S")
    case True
    then have "packed_ok T" using assms(2) nth le inv_packed [OF assms(2)]
      by (simp add: packed_ok_def T_def realloc_used_length)
    then show ?thesis using assms(2) e nf True by (simp add: ht_inv_def) (simp add: T_def)
  next
    case False
    have mix: "mixed_ok ?S" using assms(2) False init by (simp add: inv_mixed)
    have "chains_ok (arData T) (nTableMask ?S) (arHash ?S) (nNumUsed ?S)"
      using mixed_okD(6) [OF mix] chains_ok_cong [of "nNumUsed ?S" "arData T" "arData ?S"] nth(2) [OF _ False] by simp
    moreover have "length (arData T) = nTableSize ?S" using False le by (simp add: T_def realloc_used_length)
    moreover have "bucket_ok (f_static_keys ?S) (arData T ! i)" if "i < nNumUsed ?S" for i
      using mixed_okD(5) [OF mix that] nth(2) [OF that False] by simp
    ultimately have "mixed_ok T" using mix False unfolding mixed_ok_def by (simp add: T_def)
    then show ?thesis using assms(2) e nf False init by (simp add: ht_inv_def) (simp add: T_def)
  qed
  moreover have "zend_array_dup s t (eg, hp, gc) = Inr (eg, hp(t := T), gc_alloc t gc)"
    using assms(4-6) by (simp add: zend_array_dup_def Let_def T_def)
  ultimately show ?thesis using e assms
    by (intro exI [of _ "(eg, hp(t := T), gc_alloc t gc)"] conjI hold_table)
      (simp_all add: dup_entries_def dup_taken_def, simp_all add: T_def)
qed

text \<open>
  Positions. \<open>kept_place\<close>: what is at a place of the source has a place in the copy; a packed copy
  has all the places. The copy of an iterator has before it what the iterator has, except that
  \<open>followed_place\<close> is one further when the compaction left it behind. The current entry, if it was
  copied, is the current entry of the copy.
\<close>

definition kept_place :: "(nat \<Rightarrow> zval) \<Rightarrow> HashTable \<Rightarrow> nat \<Rightarrow> bool" where
  "kept_place ind ht k \<longleftrightarrow> f_packed ht \<or>
     k < nNumUsed ht \<and> (case entry_at ht k of None \<Rightarrow> False | Some (key, v) \<Rightarrow> resolve ind False v \<noteq> IS_UNDEF)"

definition iter_place :: "executor_globals \<Rightarrow> HashTable \<Rightarrow> nat \<Rightarrow> nat" where
  "iter_place eg ht p = followed_place (kept_place (indirect eg) ht) (iter_on (ht_iterators eg) (ht_addr ht)) p"

definition dup_follows :: "nat \<Rightarrow> nat \<Rightarrow> dup_state \<Rightarrow> dup_state \<Rightarrow> bool" where
  "dup_follows s t st st' \<longleftrightarrow>
     (case (st, st') of ((eg, hp, gc), (eg', hp', gc')) \<Rightarrow>
        iters_followed s t
          (\<lambda>p q. from_pos (hp' t) q = dup_entries s t st (from_pos (hp s) (iter_place eg (hp s) p)))
          (ht_iterators eg) (ht_iterators eg') \<and>
        (\<forall>kv. nInternalPointer (hp s) < nNumUsed (hp s) \<longrightarrow> entry_at (hp s) (nInternalPointer (hp s)) = Some kv \<longrightarrow>
           resolve (indirect eg) (f_packed (hp s)) (snd kv) \<noteq> IS_UNDEF \<longrightarrow>
           from_pos (hp' t) (nInternalPointer (hp' t)) = dup_entries s t st (from_pos (hp s) (nInternalPointer (hp s)))))"

lemma iter_place_packed: "f_packed ht \<Longrightarrow> iter_place eg ht p = p"
  by (simp add: iter_place_def followed_place_def kept_place_def waiting_none)

lemma waiting_cong: "(\<And>i. i < k \<Longrightarrow> cp i = cp' i) \<Longrightarrow> waiting cp it k = waiting cp' it k"
  by (induction k) auto

lemma followed_cong:
  assumes "\<And>i. i < n \<Longrightarrow> cp i = cp' i"
  shows "min (followed_place cp it p) n = min (followed_place cp' it p) n"
proof (cases "p < n")
  case True
  then have "waiting cp it p = waiting cp' it p" using assms by (intro waiting_cong) simp
  then show ?thesis using assms [OF True] by (simp add: followed_place_def)
next
  case False
  then show ?thesis by (simp add: followed_place_def)
qed

lemma copied_kept:
  assumes "\<not> f_packed src" "k < nNumUsed src" "indirect eg = ind"
  shows "copied_place src gc eg k = kept_place ind src k"
  using assms by (simp add: copied_place_def kept_place_def cents_entries split: option.split)

lemma dup_packed:
  assumes reg: "reg_ok (eg, hp)" and src: "ht_inv (hp s)" "ht_addr (hp s) = s" and t: "s \<noteq> t" "unused (ht_iterators eg) t"
    and refs: "refs_ok gc" and c: "nNumOfElements (hp s) \<noteq> 0" "\<not> gc_immutable gc s" "f_packed (hp s)" "\<not> f_empty_ind (hp s)"
  shows "\<exists>st'. zend_array_dup s t (eg, hp, gc) = Inr st' \<and> dup_ok s t (eg, hp, gc) st' \<and> dup_follows s t (eg, hp, gc) st'"
proof -
  let ?S = "hp s" and ?gc = "gc_alloc t gc" and ?ind = "indirect eg"
  define ip where "ip = (if nInternalPointer ?S < nNumUsed ?S then nInternalPointer ?S else 0)"
  define T0 where "T0 = HT_HASH_RESET_PACKED (?S\<lparr>ht_addr := t, f_persistent := False, nIteratorsCount := 0, pDestructor := ZVAL_PTR_DTOR,
      nTableMask := HT_MIN_MASK, arPacked := replicate (nTableSize ?S) None, nInternalPointer := ip\<rparr>)"
  have refs': "refs_ok ?gc" using refs by simp
  obtain q gc' where q: "dup_packed_loop (0 # [1..<nNumUsed ?S]) ?S ?ind (\<not> HT_IS_WITHOUT_HOLES ?S)
      (replicate (nTableSize ?S) None, ?gc) = Inr (q, gc')"
    "gc' = fold Z_ADDREF (taken ?gc (copied ?gc s ?ind True (elems ?S))) ?gc"
    "\<And>h c ip. h = ?S\<lparr>ht_addr := t, f_persistent := False, nIteratorsCount := c, pDestructor := ZVAL_PTR_DTOR, nTableMask := HT_MIN_MASK,
        arHash := [HT_INVALID_IDX, HT_INVALID_IDX], arPacked := q, nInternalPointer := ip\<rparr> \<Longrightarrow>
      ht_inv h \<and> elems h = copied ?gc s ?ind True (elems ?S) \<and>
      (\<forall>p. from_pos h p = copied ?gc s ?ind True (from_pos ?S p))"
    by (rule packed_copy [OF src(1) c(3) refs' c(1), of ?ind t, unfolded src(2)]) blast
  define T where "T = T0\<lparr>arPacked := q\<rparr>"
  have T0: "HT_IS_WITHOUT_HOLES T0 = HT_IS_WITHOUT_HOLES ?S" "arPacked T0 = replicate (nTableSize ?S) None"
    by (simp_all add: T0_def HT_HASH_RESET_PACKED_def HT_IS_WITHOUT_HOLES_def)
  have regT: "reg_ok (eg, hp(t := T))"
    using reg t(2) by (intro reg_ok_fresh) (simp_all add: T_def T0_def HT_HASH_RESET_PACKED_def)
  have cnt: "nIteratorsCount ?S = nIteratorsCount ((hp(t := T)) s)" using t(1) by simp
  obtain eg' hp' where i: "(if HT_HAS_ITERATORS ?S then zend_array_dup_ht_iterators (ht_addr ?S) t (eg, hp(t := T))
      else Inr (eg, hp(t := T))) = Inr (eg', hp')" "iters_copied s t (eg, hp(t := T)) (eg', hp')"
    "iters_followed s t (=) (ht_iterators eg) (ht_iterators eg')"
    by (rule dup_iterators_opt [OF regT t(1) src(2) cnt])
  have "zend_array_dup s t (eg, hp, gc) = zend_array_dup_packed_elements ?S t (\<not> HT_IS_WITHOUT_HOLES ?S) (eg, hp(t := T0), ?gc)"
    using c T0(1) by (simp add: zend_array_dup_def Let_def flip: ip_def) (simp add: T0_def)
  also have "\<dots> = bindE (Inr (q, gc')) (\<lambda>(q, gc).
      let hp = hp(t := T0, t := T0\<lparr>arPacked := q\<rparr>)
      in if HT_HAS_ITERATORS ?S
         then bindE (zend_array_dup_ht_iterators (ht_addr ?S) t (eg, hp)) (\<lambda>(eg, hp). Inr (eg, hp, gc))
         else Inr (eg, hp, gc))"
    using q(1) T0(2) by (simp only: zend_array_dup_packed_elements_def prod.case fun_upd_same)
  also have "\<dots> = Inr (eg', hp', gc')"
    using i(1) by (cases "HT_HAS_ITERATORS ?S") (simp_all add: T_def)
  finally have res: "zend_array_dup s t (eg, hp, gc) = Inr (eg', hp', gc')" .
  have ic: "reg_ok (eg', hp')" "events eg' = events eg" "\<forall>a. a \<noteq> t \<longrightarrow> hp' a = hp a"
    "hp' t = T\<lparr>nIteratorsCount := nIteratorsCount (hp' t)\<rparr>"
    using i(2) by (simp_all add: iters_copied_def)
  have hT: "hp' t = ?S\<lparr>ht_addr := t, f_persistent := False, nIteratorsCount := nIteratorsCount (hp' t), pDestructor := ZVAL_PTR_DTOR,
      nTableMask := HT_MIN_MASK, arHash := [HT_INVALID_IDX, HT_INVALID_IDX], arPacked := q, nInternalPointer := ip\<rparr>"
    by (subst ic(4)) (simp add: T_def T0_def HT_HASH_RESET_PACKED_def)
  note h = q(3) [OF hT]
  have de: "dup_entries s t (eg, hp, gc) xs = copied ?gc s ?ind True xs" for xs using c by (simp add: dup_entries_def)
  have f: "ht_addr (hp' t) = t \<and> pDestructor (hp' t) = ZVAL_PTR_DTOR \<and> nNextFreeElement (hp' t) = nNextFreeElement ?S \<and>
      nInternalPointer (hp' t) = ip"
    by (subst (1 2 3 4) hT) simp
  have "dup_ok s t (eg, hp, gc) (eg', hp', gc')"
    using h f ic c q(2) de by (simp add: dup_ok_def dup_taken_def)
  moreover have "dup_follows s t (eg, hp, gc) (eg', hp', gc')"
    using h f de c followed_mono [OF i(3)] by (auto simp: dup_follows_def iter_place_packed ip_def)
  ultimately show ?thesis using res by blast
qed

lemma dup_mixed:
  assumes reg: "reg_ok (eg, hp)" and src: "ht_inv (hp s)" "ht_addr (hp s) = s" and t: "s \<noteq> t" "unused (ht_iterators eg) t"
    and refs: "refs_ok gc" and c: "nNumOfElements (hp s) \<noteq> 0" "\<not> gc_immutable gc s" "\<not> f_packed (hp s)"
  shows "\<exists>st'. zend_array_dup s t (eg, hp, gc) = Inr st' \<and> dup_ok s t (eg, hp, gc) st' \<and> dup_follows s t (eg, hp, gc) st'"
proof -
  let ?S = "hp s" and ?gc = "gc_alloc t gc" and ?n = "nNumUsed (hp s)"
  let ?ip = "nInternalPointer ?S"
  define T0 where "T0 = HT_HASH_RESET (?S\<lparr>ht_addr := t, f_persistent := False, nIteratorsCount := 0, pDestructor := ZVAL_PTR_DTOR,
      f_empty_ind := False, arData := replicate (nTableSize ?S) None,
      nInternalPointer := (if ?ip < ?n then ?ip else 0), nNumUsed := 0, nNumOfElements := 0\<rparr>)"
  have refs': "refs_ok ?gc" using refs by simp
  have T0: "nIteratorsCount T0 = 0" by (simp add: T0_def HT_HASH_RESET_def)
  have regT: "reg_ok (eg, hp(t := T0))" using reg t(2) T0 by (intro reg_ok_fresh)
  have cnt: "nIteratorsCount ?S = nIteratorsCount ((hp(t := T0)) s)" using t(1) by simp
  obtain eg1 hp1 where i: "(if HT_HAS_ITERATORS ?S then zend_array_dup_ht_iterators (ht_addr ?S) t (eg, hp(t := T0))
      else Inr (eg, hp(t := T0))) = Inr (eg1, hp1)" "iters_copied s t (eg, hp(t := T0)) (eg1, hp1)"
    "iters_followed s t (=) (ht_iterators eg) (ht_iterators eg1)"
    by (rule dup_iterators_opt [OF regT t(1) src(2) cnt])
  have ic: "reg_ok (eg1, hp1)" "events eg1 = events eg" "indirect eg1 = indirect eg" "\<forall>a. a \<noteq> t \<longrightarrow> hp1 a = hp a"
    "hp1 t = T0\<lparr>nIteratorsCount := nIteratorsCount (hp1 t)\<rparr>"
    using i(2) by (simp_all add: iters_copied_def)
  have used: "iters_used t eg1" using ic(1) by (rule reg_iters_used)
  have none: "\<forall>p. \<not> iter_on (ht_iterators eg1) t p" if "nIteratorsCount (hp1 t) = 0"
    using no_count_no_iterator [OF ic(1), of t] that by (auto simp: iter_on_nth HT_HAS_ITERATORS_def)
  have on: "iter_on (ht_iterators eg1) t = iter_on (ht_iterators eg) s" using i(2,3) t(2) by (rule copied_iters_on)
  let ?xs = "cents ?S ?gc eg1 ?n"
  obtain tg eg' gc' j where r:
    "dup_elements_loop (0 # [1..<?n]) 0 ?S (HT_HAS_STATIC_KEYS_ONLY T0) (\<not> HT_IS_WITHOUT_HOLES ?S)
       (T0\<lparr>nIteratorsCount := nIteratorsCount (hp1 t)\<rparr>, eg1, ?gc) = Inr ((tg, eg', gc'), j)"
    "j = length ?xs" "gc' = fold Z_ADDREF (taken ?gc ?xs) ?gc"
    "eg_dup t eg1 eg' (if f_static_keys ?S then [] else string_keys_of ?xs)"
    "iters_at t (copied_place ?S ?gc eg1) (ht_iterators eg1) ?n (ht_iterators eg')"
    "ht_inv (tg\<lparr>nNumUsed := j, nNumOfElements := j\<rparr>)" "elems (tg\<lparr>nNumUsed := j, nNumOfElements := j\<rparr>) = ?xs"
    "\<And>i. i < j \<Longrightarrow> entry_at (tg\<lparr>nNumUsed := j, nNumOfElements := j\<rparr>) i \<noteq> None"
    "nInternalPointer tg = pointer_at ?S ?gc eg1 (nInternalPointer T0) ?n"
    "tg = T0\<lparr>nIteratorsCount := nIteratorsCount (hp1 t), arData := arData tg, arHash := arHash tg,
        nInternalPointer := nInternalPointer tg, nNumUsed := nNumUsed tg\<rparr>"
    by (rule mixed_copy [where c = "nIteratorsCount (hp1 t)", OF src(1) c(3) refs' c(1) T0_def used]) (use none in blast)+
  define h where "h = tg\<lparr>nNumUsed := j, nNumOfElements := j\<rparr>"
  obtain d hs p u where tg: "tg = T0\<lparr>nIteratorsCount := nIteratorsCount (hp1 t), arData := d, arHash := hs,
      nInternalPointer := p, nNumUsed := u\<rparr>" using r(10) by blast
  have f: "ht_addr h = t" "pDestructor h = ZVAL_PTR_DTOR" "nNextFreeElement h = nNextFreeElement ?S"
    "nIteratorsCount h = nIteratorsCount (hp1 t)" "nNumUsed h = j" "nInternalPointer h = nInternalPointer tg"
    by (simp_all add: h_def tg T0_def HT_HASH_RESET_def)
  define hp' where "hp' = hp1(t := h)"
  have el: "zend_array_dup_elements ?S t (HT_HAS_STATIC_KEYS_ONLY T0) (\<not> HT_IS_WITHOUT_HOLES ?S) (eg, hp(t := T0), ?gc) =
      Inr ((eg', hp1(t := tg), gc'), j)"
    using i(1) r(1) unfolding zend_array_dup_elements_def prod.case
    by (simp only: bindE_Inr prod.case flip: ic(5))
  have "zend_array_dup s t (eg, hp, gc) =
      bindE (zend_array_dup_elements ?S t (HT_HAS_STATIC_KEYS_ONLY T0) (\<not> HT_IS_WITHOUT_HOLES ?S) (eg, hp(t := T0), ?gc))
        (\<lambda>((eg, hp, gc), idx). Inr (eg, hp(t := (hp t)\<lparr>nNumUsed := idx, nNumOfElements := idx\<rparr>), gc))"
    using c by (simp add: zend_array_dup_def Let_def flip: T0_def)
  then have res: "zend_array_dup s t (eg, hp, gc) = Inr (eg', hp', gc')"
    unfolding el by (simp add: hp'_def h_def)
  have de: "dup_entries s t (eg, hp, gc) xs = copied ?gc s (indirect eg1) False xs" for xs
    using c ic(3) by (simp add: dup_entries_def)
  have xs: "?xs = dup_entries s t (eg, hp, gc) (elems ?S)"
    unfolding de using c(3) src(2) by (simp add: cents_entries elems_def)
  have "reg_ok (eg1, hp')" unfolding hp'_def using ic(1) f(4) by (rule reg_ok_store)
  then have "reg_ok (eg1\<lparr>events := x\<rparr>, hp')" for x by (simp add: reg_ok_def reg_mid_def)
  moreover obtain evs where evs: "iters_moved t (eg1\<lparr>events := events eg1 @ evs\<rparr>) eg'"
    "ev_addrefs evs = (if f_static_keys ?S then [] else string_keys_of ?xs)" "set evs \<subseteq> range EvStrAddref"
    using r(4) unfolding eg_dup_def by blast
  moreover have same: "eg_same (eg1\<lparr>events := events eg1 @ evs\<rparr>) eg'" using evs(1) unfolding iters_moved_def by blast
  ultimately have reg': "reg_ok (eg', hp')" using eg_same_reg(1) by blast
  have ev': "events eg' = events eg @ evs"
    using eg_same_fields(3) [OF same] ic(2) by simp
  have ok: "dup_ok s t (eg, hp, gc) (eg', hp', gc')"
    using r(3,6,7) f ic(4) c(2,3) xs reg' ev' evs(2,3)
    by (simp add: dup_ok_def dup_taken_def hp'_def h_def)
  have cells: "arData ?S ! k \<noteq> None" if "k < ?n" for k
    using mixed_bucket [of ?S k] inv_mixed [OF src(1) c(3)] that src(1) c(1,3)
    by (cases "f_uninit ?S") (auto simp: ht_inv_def uninit_ok_def)
  have fp: "from_pos h q = dup_entries s t (eg, hp, gc) (from_pos ?S p)"
    if "min q j = length (cents ?S ?gc eg1 (min p ?n))" for p q
    using compact_from_pos [OF c(3) f(5) _ _ that] r(7,8) src(2) by (simp add: de h_def)
  have inv1: "reg_ok (eg1\<lparr>events := events eg1 @ evs\<rparr>, hp1)" using ic(1) by (simp add: reg_ok_def reg_mid_def)
  have fol: "iters_followed s t (\<lambda>p q. from_pos h q = dup_entries s t (eg, hp, gc) (from_pos ?S (iter_place eg ?S p)))
      (ht_iterators eg) (ht_iterators eg')"
  proof (rule followed_moved [OF _ evs(1) inv1 t(2)])
    show "iters_followed s t (=) (ht_iterators eg) (ht_iterators (eg1\<lparr>events := events eg1 @ evs\<rparr>))" using i(3) by simp
    fix x assume x: "x < length (ht_iterators (eg1\<lparr>events := events eg1 @ evs\<rparr>))"
      "it_ht (ht_iterators (eg1\<lparr>events := events eg1 @ evs\<rparr>) ! x) = IterHT t"
    let ?cp = "copied_place ?S ?gc eg1" and ?p = "it_pos (ht_iterators eg1 ! x)"
    let ?f = "min (followed_place ?cp (iter_on (ht_iterators eg) s) ?p) ?n"
    have "min (it_pos (ht_iterators eg' ! x)) (kept_before ?cp ?n) = kept_before ?cp ?f"
      using iters_at_last [OF r(5), of x] x by (simp add: on)
    moreover have "kept_before ?cp k = length (cents ?S ?gc eg1 k)" if "k \<le> ?n" for k
      using cells that by (intro kept_cents) simp
    moreover have "?f = min (iter_place eg ?S ?p) ?n"
      unfolding iter_place_def src(2) using copied_kept [OF c(3) _ ic(3)] by (intro followed_cong) blast
    ultimately have "min (it_pos (ht_iterators eg' ! x)) j = length (cents ?S ?gc eg1 (min (iter_place eg ?S ?p) ?n))"
      using r(2) by simp
    then show "from_pos h (it_pos (ht_iterators eg' ! x)) = dup_entries s t (eg, hp, gc)
        (from_pos ?S (iter_place eg ?S (it_pos (ht_iterators (eg1\<lparr>events := events eg1 @ evs\<rparr>) ! x))))"
      by (simp add: fp)
  qed
  have cur: "from_pos h (nInternalPointer h) = dup_entries s t (eg, hp, gc) (from_pos ?S ?ip)"
    if "?ip < ?n" "entry_at ?S ?ip = Some kv" "resolve (indirect eg) False (snd kv) \<noteq> IS_UNDEF" for kv
  proof (rule fp)
    have "cents ?S ?gc eg1 (Suc ?ip) \<noteq> cents ?S ?gc eg1 ?ip"
      using that c(3) ic(3) by (cases kv) (simp add: cents_entries)
    then have ptr: "nInternalPointer h = length (cents ?S ?gc eg1 ?ip)"
      using that(1) r(9) f(6) by (simp add: pointer_at_def)
    have "?ip \<le> ?n" using that(1) by simp
    then obtain rest where "?xs = cents ?S ?gc eg1 ?ip @ rest" by (rule cents_prefix [OF c(3), of ?ip ?n ?gc eg1])
    then show "min (nInternalPointer h) j = length (cents ?S ?gc eg1 (min ?ip ?n))" using ptr that(1) r(2) by simp
  qed
  have "dup_follows s t (eg, hp, gc) (eg', hp', gc')"
    using fol cur c(3) by (simp add: dup_follows_def hp'_def)
  then show ?thesis using res ok by blast
qed

lemma dup_spec:
  assumes "reg_ok (eg, hp)" "ht_inv (hp s)" "ht_addr (hp s) = s" "s \<noteq> t" "unused (ht_iterators eg) t" "refs_ok gc"
    "f_packed (hp s) \<or> gc_immutable gc s \<Longrightarrow> \<not> f_empty_ind (hp s)"
  obtains eg' hp' gc' where "zend_array_dup s t (eg, hp, gc) = Inr (eg', hp', gc')"
    "dup_ok s t (eg, hp, gc) (eg', hp', gc')"
    "nNumOfElements (hp s) \<noteq> 0 \<Longrightarrow> \<not> gc_immutable gc s \<Longrightarrow> dup_follows s t (eg, hp, gc) (eg', hp', gc')"
proof -
  have "\<exists>st'. zend_array_dup s t (eg, hp, gc) = Inr st' \<and> dup_ok s t (eg, hp, gc) st' \<and>
      (nNumOfElements (hp s) \<noteq> 0 \<longrightarrow> \<not> gc_immutable gc s \<longrightarrow> dup_follows s t (eg, hp, gc) st')"
    using dup_empty [OF assms(1,2,5)] dup_immutable [OF assms(1,2,5)] dup_packed [OF assms(1-6)] dup_mixed [OF assms(1-6)] assms(7)
    by blast
  then show thesis using that by auto
qed

end
