(* ===== verification/HashList.thy ===== *)
theory HashList
  imports HashDupSpec
begin

text \<open>
  Arrays that are lists: \<open>zend_array_to_list\<close> (\<open>Zend/zend_hash.c\<close>) and \<open>zend_array_is_list\<close>
  (\<open>Zend/zend_hash.h\<close>).
\<close>

subsection \<open>Making a list\<close>

definition place_val :: "HashTable \<Rightarrow> nat \<Rightarrow> error + zval" where
  "place_val ht i = (if f_packed ht then rd (arPacked ht) i else bindE (rd (arData ht) i) (\<lambda>p. Inr (b_val p)))"

text \<open>The body of the loop over the values: \<open>(q, idx)\<close> is the array that is filled, and its fill index.\<close>

fun to_list_loop :: "nat list \<Rightarrow> HashTable \<Rightarrow> zval option list \<times> nat \<times> gc_heap
    \<Rightarrow> error + (zval option list \<times> nat \<times> gc_heap)" where
  "to_list_loop [] source st = Inr st"
| "to_list_loop (i # is) source st =
     (case st of (q, idx, gc) \<Rightarrow>
        bindE (place_val source i) (\<lambda>entry.
          if entry = IS_UNDEF then to_list_loop is source st
          else
            let entry = (case entry of
                           IS_REFERENCE r \<Rightarrow> if rf_count (gc_ref gc r) = 1 then rf_val (gc_ref gc r) else entry
                         | _ \<Rightarrow> entry);
                gc = (if Z_OPT_REFCOUNTED gc entry then Z_ADDREF entry gc else gc)
            in bindE (wr q idx entry) (\<lambda>q. to_list_loop is source (q, idx + 1, gc))))"

definition zend_array_to_list :: "nat \<Rightarrow> HashTable \<Rightarrow> gc_heap \<Rightarrow> error + (HashTable \<times> gc_heap)" where
  "zend_array_to_list a source gc =
     bindE (zend_new_array a (nNumOfElements source)) (\<lambda>result.
       let result = zend_hash_real_init_packed result
       in bindE (to_list_loop [0..<nNumUsed source] source (arPacked result, nNumUsed result, gc)) (\<lambda>(q, idx, gc).
            Inr (result\<lparr>arPacked := q, nNumOfElements := nNumOfElements result + (idx - nNumUsed result),
                        nNumUsed := idx, nNextFreeElement := int idx, nInternalPointer := 0\<rparr>, gc)))"

subsection \<open>Being a list\<close>

fun is_list_loop :: "nat list \<Rightarrow> HashTable \<Rightarrow> 64 word \<Rightarrow> error + bool" where
  "is_list_loop [] array expected_idx = Inr True"
| "is_list_loop (i # is) array expected_idx =
     (if f_packed array then
        bindE (rd (arPacked array) i) (\<lambda>v.
          if v = IS_UNDEF then is_list_loop is array expected_idx
          else if of_nat i \<noteq> expected_idx then Inr False
          else is_list_loop is array (expected_idx + 1))
      else
        bindE (rd (arData array) i) (\<lambda>p.
          if b_val p = IS_UNDEF then is_list_loop is array expected_idx
          else if b_key p \<noteq> None \<or> b_h p \<noteq> expected_idx then Inr False
          else is_list_loop is array (expected_idx + 1)))"

definition zend_array_is_list :: "HashTable \<Rightarrow> error + bool" where
  "zend_array_is_list array =
     (if nNumOfElements array = 0 then Inr True
      else if f_packed array \<and> HT_IS_WITHOUT_HOLES array then Inr True
      else is_list_loop [0..<nNumUsed array] array 0)"

subsection \<open>What is a list\<close>

fun numbered :: "64 word \<Rightarrow> (hkey \<times> zval) list \<Rightarrow> bool" where
  "numbered e [] \<longleftrightarrow> True"
| "numbered e (kv # kvs) \<longleftrightarrow> fst kv = KNum e \<and> numbered (e + 1) kvs"

lemma numbered_keys: "numbered e xs \<longleftrightarrow> map fst xs = map (\<lambda>i. KNum (e + of_nat i)) [0..<length xs]"
proof (induction xs arbitrary: e)
  case (Cons kv xs)
  have "map (\<lambda>i. KNum (e + of_nat i)) [0..<length (kv # xs)] =
      KNum e # map (\<lambda>i. KNum (e + 1 + of_nat i)) [0..<length xs]"
    by (simp add: upt_conv_Cons comp_def add.assoc del: upt_Suc flip: map_Suc_upt)
  then show ?case using Cons.IH by simp
qed simp

lemma numbered_append: "numbered e (xs @ ys) \<longleftrightarrow> numbered e xs \<and> numbered (e + of_nat (length xs)) ys"
  by (induction xs arbitrary: e) (auto simp: add.assoc)

lemma place_val_ok:
  assumes "ht_inv ht" "i < nNumUsed ht"
  obtains v where "place_val ht i = Inr v" "v = IS_UNDEF \<longleftrightarrow> entry_at ht i = None"
    "\<forall>k w. entry_at ht i = Some (k, w) \<longrightarrow> w = v"
proof (cases "f_packed ht")
  case True
  then have p: "packed_ok ht" using assms(1) by (rule inv_packed [rotated])
  then obtain v where v: "arPacked ht ! i = Some v" using assms(2) by (auto simp: packed_ok_def)
  have e: "entry_at ht i = (if v = IS_UNDEF then None else Some (KNum (of_nat i), v))"
    using v True by (simp add: entry_at_def packed_entry_def)
  have "place_val ht i = Inr v" using v p assms(2) True by (simp add: place_val_def packed_ok_def)
  then show thesis by (rule that) (use e in \<open>auto split: if_splits\<close>)
next
  case False
  then have "mixed_ok ht" using assms by (cases "f_uninit ht") (auto simp: ht_inv_def uninit_ok_def)
  note m = mixed_okD [OF this] mixed_bucket [OF this assms(2)]
  then obtain p where p: "arData ht ! i = Some p" by blast
  have e: "entry_at ht i = (if b_val p = IS_UNDEF then None else Some (bucket_key p, b_val p))"
    using p False by (simp add: entry_at_def bucket_entry_def)
  have "place_val ht i = Inr (b_val p)" using p m assms(2) False by (simp add: place_val_def)
  then show thesis by (rule that) (use e in \<open>auto split: if_splits\<close>)
qed

lemma is_list_loop_ok:
  assumes "ht_inv ht" "i \<le> nNumUsed ht"
  shows "is_list_loop [i..<nNumUsed ht] ht e = Inr (numbered e (from_pos ht i))"
  using assms(2)
proof (induction "nNumUsed ht - i" arbitrary: i e)
  case 0
  then show ?case by (simp add: from_pos_past)
next
  case (Suc m)
  have i: "i < nNumUsed ht" "[i..<nNumUsed ht] = i # [Suc i..<nNumUsed ht]" "m = nNumUsed ht - Suc i"
    using Suc.hyps(2) by (auto simp: upt_conv_Cons)
  note IH = Suc.hyps(1) [OF i(3)] from_pos_Suc [OF i(1)]
  show ?case
  proof (cases "f_packed ht")
    case True
    then have p: "packed_ok ht" using assms(1) by (rule inv_packed [rotated])
    then obtain v where "arPacked ht ! i = Some v" using i(1) by (auto simp: packed_ok_def)
    then show ?thesis using IH p i(1) True unfolding i(2)
      by (simp add: packed_ok_def entry_at_def packed_entry_def)
  next
    case False
    then have "mixed_ok ht" using assms i(1) by (cases "f_uninit ht") (auto simp: ht_inv_def uninit_ok_def)
    note m = mixed_okD [OF this] mixed_bucket [OF this i(1)]
    then obtain p where "arData ht ! i = Some p" by blast
    then show ?thesis using IH m i(1) False unfolding i(2)
      by (auto simp: entry_at_def bucket_entry_def bucket_key_def split: option.splits)
  qed
qed

lemma full_packed_numbered:
  assumes "\<And>i. i < n \<Longrightarrow> entry_at ht i \<noteq> None" "f_packed ht"
  shows "numbered 0 (entries (entry_at ht) n)"
  using assms(1)
proof (induction n)
  case (Suc n)
  have "length (entries (entry_at ht) n) = n" using Suc.prems by (simp add: length_entries_full)
  moreover obtain v where "entry_at ht n = Some (KNum (of_nat n), v)"
    using Suc.prems [of n] assms(2) by (auto simp: entry_at_def packed_entry_def split: option.splits if_splits)
  ultimately show ?case using Suc.IH Suc.prems by (simp add: numbered_append)
qed simp

lemma is_list_spec:
  assumes "ht_inv ht"
  shows "zend_array_is_list ht = Inr (numbered 0 (elems ht))"
proof (cases "nNumOfElements ht \<noteq> 0 \<and> f_packed ht \<and> HT_IS_WITHOUT_HOLES ht")
  case True
  then show ?thesis using full_packed_numbered [of "nNumUsed ht" ht] elems_without_holes [OF assms]
    by (simp add: zend_array_is_list_def elems_def)
next
  case False
  then show ?thesis using is_list_loop_ok [OF assms, of 0 0] assms
    by (auto simp: zend_array_is_list_def ht_inv_def)
qed

subsection \<open>The list of the values\<close>

definition unboxed :: "gc_heap \<Rightarrow> zval \<Rightarrow> zval" where
  "unboxed gc v = (case v of IS_REFERENCE r \<Rightarrow> if rf_count (gc_ref gc r) = 1 then rf_val (gc_ref gc r) else v | _ \<Rightarrow> v)"

definition unboxes :: "gc_heap \<Rightarrow> zval list \<Rightarrow> gc_heap \<Rightarrow> bool" where
  "unboxes gc0 vs gc \<longleftrightarrow> gc = fold Z_ADDREF (filter (Z_OPT_REFCOUNTED gc0) (map (unboxed gc0) vs)) gc0 \<and>
     unboxed gc = unboxed gc0 \<and> Z_OPT_REFCOUNTED gc = Z_OPT_REFCOUNTED gc0 \<and> refs_ok gc"

lemma addref_unboxed:
  assumes "refs_ok gc"
  shows "unboxed (Z_ADDREF (unboxed gc v) gc) = unboxed gc" "refs_ok (Z_ADDREF (unboxed gc v) gc)"
proof -
  define u where "u = unboxed gc v"
  show "refs_ok (Z_ADDREF (unboxed gc v) gc)"
    using assms by (auto simp: refs_ok_def Z_ADDREF_def split: zval.splits)
  have "unboxed (Z_ADDREF u gc) w = unboxed gc w" for w
  proof (cases "\<exists>r. u = IS_REFERENCE r")
    case True
    then obtain r where r: "u = IS_REFERENCE r" by auto
    then have "rf_count (gc_ref gc r) \<noteq> 1"
      using assms by (auto simp: u_def unboxed_def refs_ok_def split: zval.splits if_splits)
    moreover have "0 < rf_count (gc_ref gc r)" using assms by (simp add: refs_ok_def)
    ultimately show ?thesis unfolding r by (auto simp: Z_ADDREF_def unboxed_def split: zval.splits)
  next
    case False
    then have "gc_ref (Z_ADDREF u gc) = gc_ref gc" by (auto simp: Z_ADDREF_def split: zval.splits)
    then show ?thesis by (simp add: unboxed_def cong: zval.case_cong if_cong)
  qed
  then show "unboxed (Z_ADDREF (unboxed gc v) gc) = unboxed gc" by (auto simp: u_def)
qed

lemma unboxes_step:
  assumes "unboxes gc0 vs gc"
  shows "unboxes gc0 (vs @ [v])
    (if Z_OPT_REFCOUNTED gc (unboxed gc v) then Z_ADDREF (unboxed gc v) gc else gc)"
proof -
  have u: "unboxed gc = unboxed gc0" "Z_OPT_REFCOUNTED gc = Z_OPT_REFCOUNTED gc0" "refs_ok gc"
    and gc: "fold Z_ADDREF (filter (Z_OPT_REFCOUNTED gc0) (map (unboxed gc0) vs)) gc0 = gc"
    using assms unfolding unboxes_def by blast+
  then show ?thesis using addref_unboxed [OF u(3), of v] unfolding unboxes_def by (simp add: gc)
qed

lemma to_list_loop_ok:
  assumes "ht_inv ht" "i \<le> nNumUsed ht" "unboxes gc0 (map snd (before_pos ht i)) gc"
    "length (before_pos ht i) = idx" "length (elems ht) \<le> length q"
    "\<And>k. k < idx \<Longrightarrow> q ! k = Some (unboxed gc0 (snd (before_pos ht i ! k)))"
  shows "\<exists>q' gc'. to_list_loop [i..<nNumUsed ht] ht (q, idx, gc) = Inr (q', length (elems ht), gc') \<and>
     length q' = length q \<and> unboxes gc0 (map snd (elems ht)) gc' \<and>
     (\<forall>k<length (elems ht). q' ! k = Some (unboxed gc0 (snd (elems ht ! k))))"
  using assms(2-6)
proof (induction "nNumUsed ht - i" arbitrary: i idx q gc)
  case 0
  then have "i = nNumUsed ht" by simp
  moreover from this have "before_pos ht i = elems ht" by (simp add: before_pos_def elems_def)
  ultimately show ?case using 0 by simp
next
  case (Suc m)
  have i: "i < nNumUsed ht" "[i..<nNumUsed ht] = i # [Suc i..<nNumUsed ht]" "m = nNumUsed ht - Suc i"
    using Suc.hyps(2) by (auto simp: upt_conv_Cons)
  obtain v where v: "place_val ht i = Inr v" "v = IS_UNDEF \<longleftrightarrow> entry_at ht i = None"
    "\<forall>k w. entry_at ht i = Some (k, w) \<longrightarrow> w = v" by (rule place_val_ok [OF assms(1) i(1)])
  show ?case
  proof (cases "entry_at ht i")
    case None
    then have "before_pos ht (Suc i) = before_pos ht i" using before_pos_Suc [OF i(1)] by simp
    then show ?thesis using Suc.hyps(1) [OF i(3), of gc idx q] Suc.prems i v(1,2) None by simp
  next
    case (Some kv)
    obtain k where kv: "kv = (k, v)" using v(3) Some by (cases kv) auto
    have b: "before_pos ht (Suc i) = before_pos ht i @ [kv]" using before_pos_Suc [OF i(1)] Some by simp
    have il: "idx < length q"
    proof -
      have "length (before_pos ht (Suc i)) \<le> length (elems ht)" using before_from [of ht "Suc i"] by (metis length_append le_add1)
      then show ?thesis using b Suc.prems(3,4) by simp
    qed
    have ub: "unboxed gc = unboxed gc0" using Suc.prems(2) unfolding unboxes_def by blast
    let ?gc = "if Z_OPT_REFCOUNTED gc (unboxed gc v) then Z_ADDREF (unboxed gc v) gc else gc"
    let ?q = "q[idx := Some (unboxed gc v)]"
    have step: "to_list_loop [i..<nNumUsed ht] ht (q, idx, gc) = to_list_loop [Suc i..<nNumUsed ht] ht (?q, idx + 1, ?gc)"
      using v(1,2) Some il unfolding i(2) to_list_loop.simps prod.case v(1) bindE_Inr
      by (simp only: Let_def flip: unboxed_def) simp
    have "\<exists>q' gc'. to_list_loop [Suc i..<nNumUsed ht] ht (?q, idx + 1, ?gc) = Inr (q', length (elems ht), gc') \<and>
       length q' = length ?q \<and> unboxes gc0 (map snd (elems ht)) gc' \<and>
       (\<forall>k<length (elems ht). q' ! k = Some (unboxed gc0 (snd (elems ht ! k))))"
    proof (rule Suc.hyps(1) [OF i(3)])
      show "unboxes gc0 (map snd (before_pos ht (Suc i))) ?gc"
        using unboxes_step [OF Suc.prems(2), of v] by (simp add: b kv)
      show "?q ! k = Some (unboxed gc0 (snd (before_pos ht (Suc i) ! k)))" if "k < idx + 1" for k
        using that Suc.prems(3,5) il ub by (cases "k = idx") (simp_all add: b kv nth_append)
    qed (use i Suc.prems b in simp_all)
    then show ?thesis unfolding step by simp
  qed
qed

definition list_of :: "zval list \<Rightarrow> (hkey \<times> zval) list" where
  "list_of vs = map (\<lambda>i. (KNum (of_nat i), vs ! i)) [0..<length vs]"

lemma list_of_numbered: "numbered 0 (list_of vs)"
  by (simp add: numbered_keys list_of_def comp_def)

lemma list_of_snd: "map snd (list_of vs) = vs"
  by (simp add: list_of_def comp_def map_nth)

lemma packed_full_elems:
  assumes "f_packed ht" "\<And>k. k < n \<Longrightarrow> arPacked ht ! k = Some (vs ! k) \<and> vs ! k \<noteq> IS_UNDEF"
  shows "entries (entry_at ht) n = map (\<lambda>i. (KNum (of_nat i), vs ! i)) [0..<n]"
  using assms(2)
proof (induction n)
  case (Suc n)
  then have "entries (entry_at ht) n = map (\<lambda>i. (KNum (of_nat i), vs ! i)) [0..<n]" by simp
  moreover have "entry_at ht n = Some (KNum (of_nat n), vs ! n)"
    using Suc.prems [of n] assms(1) by (simp add: entry_at_def packed_entry_def)
  ultimately show ?case by simp
qed simp

lemma to_list_spec:
  assumes inv: "ht_inv ht" and refs: "refs_ok gc"
  obtains r gc' where "zend_array_to_list a ht gc = Inr (r, gc')" "ht_inv r" "ht_addr r = a"
    "elems r = list_of (map (unboxed gc \<circ> snd) (elems ht))" "nNextFreeElement r = int (length (elems ht))"
    "gc' = fold Z_ADDREF (filter (Z_OPT_REFCOUNTED gc) (map (unboxed gc \<circ> snd) (elems ht))) gc"
proof -
  let ?n = "length (elems ht)"
  have num: "nNumOfElements ht = ?n" using inv by (simp add: ht_inv_def)
  have le: "?n \<le> nTableSize ht" using length_entries_le [of "entry_at ht" "nNumUsed ht"] inv_used_le [OF inv] by (simp add: elems_def)
  then have max: "?n \<le> HT_MAX_SIZE" using size_ok_bounds [OF inv_size [OF inv]] by simp
  obtain h where h: "zend_hash_init_int a ?n ZVAL_PTR_DTOR False = Inr h" using init_total [OF max] by blast
  note hi = init_inv [OF h]
  define r0 where "r0 = zend_hash_real_init_packed h"
  have r0: "arPacked r0 = replicate (nTableSize h) None" "nNumUsed r0 = 0" "nTableSize r0 = nTableSize h" "f_packed r0"
    "ht_addr r0 = a" "nTableMask r0 = HT_MIN_MASK" "arHash r0 = [HT_INVALID_IDX, HT_INVALID_IDX]" "\<not> f_uninit r0"
    "nNumOfElements r0 = 0"
    using hi h by (simp_all add: r0_def zend_hash_real_init_packed_def zend_hash_real_init_packed_ex_def HT_HASH_RESET_PACKED_def)
      (auto simp: zend_hash_init_int_def bindE_eq_Inr ht_inv_def uninit_ok_def elems_def)
  have u0: "unboxes gc (map snd (before_pos ht 0)) gc" using refs by (simp add: unboxes_def)
  have "\<exists>q' gc'. to_list_loop [0..<nNumUsed ht] ht (arPacked r0, 0, gc) = Inr (q', ?n, gc') \<and>
     length q' = length (arPacked r0) \<and> unboxes gc (map snd (elems ht)) gc' \<and>
     (\<forall>k<?n. q' ! k = Some (unboxed gc (snd (elems ht ! k))))"
    by (rule to_list_loop_ok [OF inv le0 u0]) (use r0 hi in simp_all)
  then obtain q gc' where q: "to_list_loop [0..<nNumUsed ht] ht (arPacked r0, 0, gc) = Inr (q, ?n, gc')"
    "length q = nTableSize h" "unboxes gc (map snd (elems ht)) gc'"
    "\<And>k. k < ?n \<Longrightarrow> q ! k = Some (unboxed gc (snd (elems ht ! k)))" using r0(1) by auto
  define r where "r = r0\<lparr>arPacked := q, nNumOfElements := ?n, nNumUsed := ?n, nNextFreeElement := int ?n, nInternalPointer := 0\<rparr>"
  have res: "zend_array_to_list a ht gc = Inr (r, gc')"
    using h q(1) r0(2,9) num by (simp add: zend_array_to_list_def zend_new_array_def Let_def flip: r0_def) (simp add: r_def)
  let ?vs = "map (unboxed gc \<circ> snd) (elems ht)"
  have live: "unboxed gc (snd (elems ht ! k)) \<noteq> IS_UNDEF" if "k < ?n" for k
    using elems_live [of "elems ht ! k" ht] that refs by (auto simp: unboxed_def refs_ok_def split: zval.splits)
  have "entries (entry_at r) ?n = map (\<lambda>i. (KNum (of_nat i), ?vs ! i)) [0..<?n]"
    by (rule packed_full_elems) (use r0(4) q(4) live in \<open>simp_all add: r_def\<close>)
  then have e: "elems r = list_of ?vs" by (simp add: elems_def list_of_def r_def)
  have n64: "int ?n \<le> 2 ^ 30" using max by (simp add: HT_MAX_SIZE_def)
  have small: "sint (of_nat k :: 64 word) = int k \<and> unat (of_nat k :: 64 word) = k" if "k < ?n" for k
  proof -
    have "k < 2 ^ 31" using that max by (simp add: HT_MAX_SIZE_def)
    then show ?thesis by (simp add: unsigned_of_nat take_bit_nat_eq_self signed_of_nat signed_take_bit_int_eq_self)
  qed
  have "distinct (map fst (elems r))"
  proof -
    have "inj_on (\<lambda>i. KNum (of_nat i :: 64 word)) {0..<?n}" using small by (intro inj_onI) (metis atLeastLessThan_iff hkey.inject(1))
    then show ?thesis by (simp add: e list_of_def comp_def distinct_map)
  qed
  moreover have "next_free_ok r"
    using small n64 by (auto simp: next_free_ok_def e list_of_def key_below_def ZEND_LONG_MIN_def ZEND_LONG_MAX_def)
      (simp_all add: r_def)
  moreover have "packed_ok r" using r0 q hi(6) by (simp add: packed_ok_def r_def)
  moreover have "length (elems r) = ?n" by (simp add: e list_of_def)
  moreover have "size_ok (nTableSize r)" using r0(3) inv_size [OF hi(1)] by (simp add: r_def)
  ultimately have "ht_inv r" using r0(4) unfolding ht_inv_def by (simp add: r_def)
  then show thesis using that [OF res _ _ e] q(3) r0(5) unfolding unboxes_def by (simp add: r_def)
qed

end
