(* ===== verification/HashRehashIter.thy ===== *)
theory HashRehashIter
  imports HashDupSpec
begin

text \<open>
  The iterators of a table through \<open>zend_hash_rehash\<close>: where each ends, and that no other
  iterator moves.
\<close>

subsection \<open>The loops\<close>

definition live_place :: "HashTable \<Rightarrow> nat \<Rightarrow> bool" where
  "live_place ht k \<longleftrightarrow> k < nNumUsed ht \<and> entry_at ht k \<noteq> None"

definition cells_as :: "(nat \<Rightarrow> bool) \<Rightarrow> nat \<Rightarrow> nat \<Rightarrow> Bucket option list \<Rightarrow> bool" where
  "cells_as cp i n d \<longleftrightarrow>
     (\<forall>k. i \<le> k \<longrightarrow> k < n \<longrightarrow> (case d ! k of None \<Rightarrow> False | Some p \<Rightarrow> b_val p \<noteq> IS_UNDEF \<longleftrightarrow> cp k))"

lemma cells_asD:
  assumes "cells_as cp i n d" "i < n" "rd d i = Inr p"
  shows "b_val p \<noteq> IS_UNDEF \<longleftrightarrow> cp i" "cells_as cp (Suc i) n d"
proof -
  have "d ! i = Some p" using assms(3) by (auto simp: rd_def split: if_splits option.splits)
  then show "b_val p \<noteq> IS_UNDEF \<longleftrightarrow> cp i" using assms(1,2) by (auto simp: cells_as_def)
  show "cells_as cp (Suc i) n d" using assms(1) by (simp add: cells_as_def)
qed

lemma move_bucket_frame:
  assumes "move_bucket ht p i j = Inr h"
  shows "ht_addr h = ht_addr ht" "nIteratorsCount h = nIteratorsCount ht" "nNumUsed h = nNumUsed ht"
    "cells_as cp (Suc i) n (arData ht) \<Longrightarrow> j \<le> i \<Longrightarrow> cells_as cp (Suc i) n (arData h)"
  using assms
  by (auto simp: move_bucket_def Let_def bindE_eq_Inr wr_def cells_as_def split: if_splits)

lemma link_bucket_frame:
  assumes "link_bucket ht i = Inr h"
  shows "ht_addr h = ht_addr ht" "nIteratorsCount h = nIteratorsCount ht" "nNumUsed h = nNumUsed ht"
    "cells_as cp (Suc i) n (arData ht) \<Longrightarrow> cells_as cp (Suc i) n (arData h)"
  using assms
  by (auto simp: link_bucket_def Let_def bindE_eq_Inr wr_def cells_as_def split: if_splits)

lemma compact_iters:
  assumes "rehash_compact_iter [i..<n] j ip ht eg = Inr (ht', eg', j')"
    "cells_as cp i n (arData ht)" "n = nNumUsed ht" "i \<le> n" "HT_HAS_ITERATORS ht" "ht_addr ht = t"
    "kept_before cp i = j" "\<not> (\<forall>k<i. cp k)" "eg_same eg0 eg" "iters_used t eg0"
    "iters_at t cp (ht_iterators eg0) i (ht_iterators eg)" "next_at t cp (ht_iterators eg0) n i ip"
  shows "iters_at t cp (ht_iterators eg0) n (ht_iterators eg') \<and> j' = kept_before cp n"
  using assms(1-9,11,12)
proof (induction "n - i" arbitrary: i j ip ht eg)
  case 0
  then show ?case by simp
next
  case (Suc m)
  note prems = Suc.prems
  have i: "i < n" "[i..<n] = i # [Suc i..<n]" "m = n - Suc i" using Suc.hyps(2) by (auto simp: upt_conv_Cons)
  obtain p where p: "rd (arData ht) i = Inr p" using prems(1) unfolding i(2) by (auto simp: bindE_eq_Inr)
  have live: "b_val p \<noteq> IS_UNDEF \<longleftrightarrow> cp i" and rest: "cells_as cp (Suc i) n (arData ht)"
    using cells_asD [OF prems(2) i(1) p] by blast+
  have drop: "\<not> (\<forall>k<Suc i. cp k)" using prems(8) less_SucI by blast
  show ?case
  proof (cases "cp i")
    case False
    then have "rehash_compact_iter [Suc i..<n] j ip ht eg = Inr (ht', eg', j')"
      using prems(1) live p unfolding i(2) by simp
    from Suc.hyps(1) [OF i(3) this rest prems(3) _ prems(5,6) _ drop prems(9)
        iters_at_skip [OF prems(10) False prems(8)] next_at_skip [OF prems(11) False prems(8)]]
    show ?thesis using False i(1) prems(7) by simp
  next
    case True
    obtain h eg1 ip1 where h: "move_bucket ht p i j = Inr h"
      "(if i \<ge> ip then migrate_iterators (Suc i) h i j ip eg else Inr (eg, ip)) = Inr (eg1, ip1)"
      "rehash_compact_iter [Suc i..<n] (Suc j) ip1 h eg1 = Inr (ht', eg', j')"
      using prems(1) live p True unfolding i(2)
      by (auto simp: bindE_eq_Inr simp del: migrate_iterators.simps split: prod.splits)
    have j: "j \<le> i" using prems(7) kept_before_le by blast
    note fr = move_bucket_frame [OF h(1)]
    have has: "HT_HAS_ITERATORS h" using fr(2) prems(5) by (simp add: HT_HAS_ITERATORS_def)
    have moved: "eg_same eg0 eg1 \<and> iters_at t cp (ht_iterators eg0) (Suc i) (ht_iterators eg1) \<and>
        next_at t cp (ht_iterators eg0) n (Suc i) ip1"
    proof (cases "i \<ge> ip")
      case False
      then have "eg1 = eg" "ip1 = ip" "i < ip" using h(2) by simp_all
      then show ?thesis using kept_early [OF prems(10,11) True _ i(1)] prems(9) by simp
    next
      case ge: True
      have used: "iters_used t eg" using iters_used_same [OF prems(9) assms(10)] .
      have n: "n = nNumUsed h" using fr(3) prems(3) by simp
      have addr: "t = ht_addr h" using fr(1) prems(6) by simp
      obtain eg2 ip2 where m: "migrate_iterators (Suc i) h i (kept_before cp i) ip eg = Inr (eg2, ip2)" "eg_same eg eg2"
        "iters_at t cp (ht_iterators eg0) (Suc i) (ht_iterators eg2)" "next_at t cp (ht_iterators eg0) (nNumUsed h) (Suc i) ip2"
        using kept_moves [OF prems(10) prems(11) [unfolded n] True ge i(1) [unfolded n] prems(8) has addr used refl prems(9)]
        by blast
      have "eg1 = eg2" "ip1 = ip2" using h(2) ge m(1) unfolding prems(7) by simp_all
      then show ?thesis using m(2-4) eg_same_trans [OF prems(9)] n by simp
    qed
    have k: "kept_before cp (Suc i) = Suc j" using True prems(7) by simp
    have cells: "cells_as cp (Suc i) n (arData h)" using fr(4) [OF rest j] .
    have n: "n = nNumUsed h" and addr: "ht_addr h = t" using fr(1,3) prems(3,6) by simp_all
    show ?thesis
      using Suc.hyps(1) [OF i(3) h(3) cells n _ has addr k drop] moved i(1) by simp
  qed
qed

lemma holes_iters:
  assumes "rehash_holes [i..<n] ht eg = Inr (ht', eg')"
    "cells_as cp i n (arData ht)" "n = nNumUsed ht" "i \<le> n" "HT_HAS_ITERATORS ht" "ht_addr ht = t"
    "\<And>k. k < i \<Longrightarrow> cp k" "iters_used t eg"
  shows "iters_at t cp (ht_iterators eg) n (ht_iterators eg')"
  using assms(1-7)
proof (induction "n - i" arbitrary: i ht)
  case 0
  then show ?case using iters_at_first [of n cp t "ht_iterators eg"] by simp
next
  case (Suc m)
  note prems = Suc.prems
  have i: "i < n" "[i..<n] = i # [Suc i..<n]" "m = n - Suc i" using Suc.hyps(2) by (auto simp: upt_conv_Cons)
  obtain p where p: "rd (arData ht) i = Inr p" using prems(1) unfolding i(2) by (auto simp: bindE_eq_Inr)
  have live: "b_val p \<noteq> IS_UNDEF \<longleftrightarrow> cp i" and rest: "cells_as cp (Suc i) n (arData ht)"
    using cells_asD [OF prems(2) i(1) p] by blast+
  show ?case
  proof (cases "cp i")
    case False
    let ?ip = "zend_hash_iterators_lower_pos ht (i + 1) eg"
    obtain h j' where c: "rehash_compact_iter [Suc i..<n] i ?ip ht eg = Inr (h, eg', j')"
      using prems(1,5) live p False unfolding i(2) by (auto simp: bindE_eq_Inr split: prod.splits)
    have kept: "cp k" if "Suc k < Suc i" for k using prems(7) that by simp
    have drop: "\<not> (\<forall>k<Suc i. cp k)" using False by blast
    have k: "kept_before cp (Suc i) = i" using False kept_before_all [of i cp] prems(7) by simp
    have u: "iters_used (ht_addr ht) eg" using assms(8) prems(6) by simp
    have nx: "next_at t cp (ht_iterators eg) n (Suc i) ?ip"
      using next_at_first [of "Suc i" cp ht eg, OF kept u refl] i(1) prems(3,6) by simp
    have at: "iters_at t cp (ht_iterators eg) (Suc i) (ht_iterators eg)" using kept by (rule iters_at_first)
    show ?thesis
      using compact_iters [OF c rest prems(3) _ prems(5,6) k drop eg_same_refl assms(8) at nx] i(1) by simp
  next
    case True
    obtain h where h: "link_bucket ht i = Inr h" "rehash_holes [Suc i..<n] h eg = Inr (ht', eg')"
      using prems(1) live p True unfolding i(2) by (auto simp: bindE_eq_Inr)
    note fr = link_bucket_frame [OF h(1)]
    have has: "HT_HAS_ITERATORS h" using fr(2) prems(5) by (simp add: HT_HAS_ITERATORS_def)
    have cells: "cells_as cp (Suc i) n (arData h)" using fr(4) [OF rest] .
    have n: "n = nNumUsed h" and addr: "ht_addr h = t" using fr(1,3) prems(3,6) by simp_all
    have "cp k" if "k < Suc i" for k using prems(7) True that by (auto simp: less_Suc_eq)
    then show ?thesis using Suc.hyps(1) [OF i(3) h(2) cells n _ has addr] i(1) by simp
  qed
qed

subsection \<open>A table without gaps seen from a place\<close>

lemma length_entries_kept: "n \<le> nNumUsed ht \<Longrightarrow> length (entries (entry_at ht) n) = kept_before (live_place ht) n"
proof (induction n)
  case (Suc n)
  then show ?case by (cases "entry_at ht n") (simp_all add: live_place_def)
qed simp

lemma from_pos_kept: "from_pos ht p = drop (kept_before (live_place ht) (min p (nNumUsed ht))) (elems ht)"
  by (simp add: from_pos_def length_entries_kept)

lemma elems_kept: "length (elems ht) = kept_before (live_place ht) (nNumUsed ht)"
  by (simp add: elems_def length_entries_kept)

lemma kept_full:
  assumes "ht_inv ht" "HT_IS_WITHOUT_HOLES ht" "p \<le> nNumUsed ht"
  shows "kept_before (live_place ht) p = p"
  using elems_without_holes [OF assms(1)] assms(2,3) by (intro kept_before_all) (simp add: live_place_def)

text \<open>The view of the rehashed table from \<open>q\<close> is that of the old one from \<open>p\<close>.\<close>

lemma rehashed_view:
  assumes "ht_inv ht'" "HT_IS_WITHOUT_HOLES ht'" "elems ht' = elems ht"
    "min q (nNumUsed ht') = kept_before (live_place ht) (min p (nNumUsed ht))"
  shows "from_pos ht' q = from_pos ht p"
  using kept_full [OF assms(1,2), of "min q (nNumUsed ht')"] assms(3,4) by (simp add: from_pos_kept)

subsection \<open>Iterators of other tables\<close>

lemma migrate_others: "migrate_iterators fuel ht i j ip eg = Inr (eg', ip') \<Longrightarrow> iters_moved (ht_addr ht) eg eg'"
proof (induction fuel arbitrary: ip eg)
  case (Suc fuel)
  let ?eg = "zend_hash_iterators_update ht ip j eg"
  have "iters_moved (ht_addr ht) ?eg eg'"
    using Suc.prems Suc.IH [of _ ?eg] by (auto simp: Let_def split: if_splits)
  then show ?case using iters_moved_trans [OF update_moved] by blast
qed simp

lemma compact_others: "rehash_compact_iter is j ip ht eg = Inr (ht', eg', j') \<Longrightarrow> iters_moved (ht_addr ht) eg eg'"
proof (induction "is" arbitrary: j ip ht eg)
  case (Cons i "is")
  then obtain p where p: "rd (arData ht) i = Inr p" by (auto simp: bindE_eq_Inr)
  show ?case
  proof (cases "b_val p = IS_UNDEF")
    case True
    then show ?thesis using Cons p by simp
  next
    case False
    then obtain h eg1 ip1 where h: "move_bucket ht p i j = Inr h"
      "(if i \<ge> ip then migrate_iterators (Suc i) h i j ip eg else Inr (eg, ip)) = Inr (eg1, ip1)"
      "rehash_compact_iter is (Suc j) ip1 h eg1 = Inr (ht', eg', j')"
      using Cons.prems p by (auto simp: bindE_eq_Inr simp del: migrate_iterators.simps split: prod.splits)
    note addr = move_bucket_frame(1) [OF h(1)]
    have "iters_moved (ht_addr ht) eg eg1"
      using h(2) migrate_others [of "Suc i" h i j ip eg eg1 ip1] addr by (auto simp del: migrate_iterators.simps split: if_splits)
    then show ?thesis using Cons.IH [OF h(3)] addr iters_moved_trans by auto
  qed
qed simp

lemma holes_others: "rehash_holes is ht eg = Inr (ht', eg') \<Longrightarrow> iters_moved (ht_addr ht) eg eg'"
proof (induction "is" arbitrary: ht)
  case (Cons i "is")
  then obtain p where p: "rd (arData ht) i = Inr p" by (auto simp: bindE_eq_Inr)
  show ?case
  proof (cases "b_val p = IS_UNDEF")
    case True
    then show ?thesis using Cons.prems p compact_others
      by (auto simp: bindE_eq_Inr split: if_splits prod.splits)
  next
    case False
    then obtain h where "link_bucket ht i = Inr h" "rehash_holes is h eg = Inr (ht', eg')"
      using Cons.prems p by (auto simp: bindE_eq_Inr)
    then show ?thesis using Cons.IH link_bucket_frame(1) by metis
  qed
qed simp

lemma map_used_moved:
  assumes "\<And>it. it_ht (f it) = it_ht it \<and> it_next_copy (f it) = it_next_copy it" "\<And>it. it_ht it \<noteq> IterHT t \<Longrightarrow> f it = it"
  shows "iters_moved t eg (map_used f eg)"
  using map_used_same [of f eg] assms by (auto simp: iters_moved_def map_used_def nth_append min_def)

lemma reset_moved: "iters_moved (ht_addr ht) eg (zend_hash_iterators_reset ht eg)"
  by (auto simp: zend_hash_iterators_reset_def intro!: map_used_moved)

lemma holes_addr: "rehash_holes is ht eg = Inr (ht', eg') \<Longrightarrow> ht_addr ht' = ht_addr ht \<and> nIteratorsCount ht' = nIteratorsCount ht"
proof (induction "is" arbitrary: ht)
  case (Cons i "is")
  have c: "rehash_compact is j h = Inr (h', j') \<Longrightarrow> ht_addr h' = ht_addr h \<and> nIteratorsCount h' = nIteratorsCount h"
    for "is" j h h' j'
    by (induction "is" arbitrary: j h) (auto simp: bindE_eq_Inr split: if_splits dest: move_bucket_frame(1,2))
  have ci: "rehash_compact_iter is j ip h eg = Inr (h', eg', j') \<Longrightarrow> ht_addr h' = ht_addr h \<and> nIteratorsCount h' = nIteratorsCount h"
    for "is" j ip h eg h' eg' j'
    by (induction "is" arbitrary: j ip h eg)
      (auto simp: bindE_eq_Inr simp del: migrate_iterators.simps split: if_splits prod.splits dest: move_bucket_frame(1,2))
  obtain p where p: "rd (arData ht) i = Inr p" using Cons.prems by (auto simp: bindE_eq_Inr)
  show ?case
  proof (cases "b_val p = IS_UNDEF")
    case True
    then show ?thesis using Cons.prems p
      by (auto simp: bindE_eq_Inr split: if_splits prod.splits dest: c ci)
  next
    case False
    then obtain h where "link_bucket ht i = Inr h" "rehash_holes is h eg = Inr (ht', eg')"
      using Cons.prems p by (auto simp: bindE_eq_Inr)
    then show ?thesis using Cons.IH link_bucket_frame(1,2) by metis
  qed
qed simp

subsection \<open>The whole\<close>

definition rehash_place :: "executor_globals \<Rightarrow> HashTable \<Rightarrow> nat \<Rightarrow> nat" where
  "rehash_place eg ht p = followed_place (live_place ht) (iter_on (ht_iterators eg) (ht_addr ht)) p"

text \<open>What the three paths of \<open>zend_hash_rehash\<close> do to the iterators.\<close>

lemma rehash_paths:
  assumes r: "zend_hash_rehash ht eg = Inr (ht', eg')" and inv: "ht_inv ht" "\<not> f_packed ht" "\<not> f_uninit ht"
  obtains (empty) "elems ht = []" "eg' = zend_hash_iterators_reset ht eg"
  | (full) "HT_IS_WITHOUT_HOLES ht" "eg' = eg"
  | (holes) eg1 where "rehash_holes [0..<nNumUsed ht] (HT_HASH_RESET ht) eg = Inr (ht', eg1)"
      "eg' = (if HT_HAS_ITERATORS ht then zend_hash_iterators_update_all ht' (nNumUsed ht) (nNumUsed ht') eg1 else eg1)"
proof (cases "nNumOfElements ht = 0")
  case True
  moreover have "elems ht = []" using inv(1) True by (simp add: ht_inv_def)
  ultimately show thesis using r inv(3) by (intro empty) (simp_all add: zend_hash_rehash_def)
next
  case False
  have used: "0 < nNumUsed ht" using False inv(1) by (cases "nNumUsed ht") (simp_all add: ht_inv_def elems_def)
  have h0: "HT_IS_WITHOUT_HOLES (HT_HASH_RESET ht) = HT_IS_WITHOUT_HOLES ht" "nNumUsed (HT_HASH_RESET ht) = nNumUsed ht"
    "nIteratorsCount (HT_HASH_RESET ht) = nIteratorsCount ht"
    by (simp_all add: HT_IS_WITHOUT_HOLES_def HT_HASH_RESET_def)
  show thesis
  proof (cases "HT_IS_WITHOUT_HOLES ht")
    case True
    then show thesis using r False h0 by (intro full) (auto simp: zend_hash_rehash_def Let_def bindE_eq_Inr)
  next
    case holes': False
    then obtain eg1 where h: "rehash_holes [0..<nNumUsed ht] (HT_HASH_RESET ht) eg = Inr (ht', eg1)"
      "eg' = (if HT_HAS_ITERATORS ht' then zend_hash_iterators_update_all ht' (nNumUsed ht) (nNumUsed ht') eg1 else eg1)"
      using r False h0 unfolding zend_hash_rehash_def Let_def h0(2) places [OF used]
      by (auto simp: bindE_eq_Inr simp del: rehash_holes.simps)
    then show thesis using holes_addr [OF h(1)] h0(3) by (intro holes) (simp_all add: HT_HAS_ITERATORS_def)
  qed
qed

lemma live_cells:
  assumes "ht_inv ht" "\<not> f_packed ht" "\<not> f_uninit ht"
  shows "cells_as (live_place ht) 0 (nNumUsed ht) (arData ht)"
proof -
  have "\<exists>p. arData ht ! k = Some p \<and> (b_val p \<noteq> IS_UNDEF \<longleftrightarrow> live_place ht k)" if k: "k < nNumUsed ht" for k
  proof -
    obtain p where "arData ht ! k = Some p" using mixed_bucket [OF inv_mixed [OF assms] k] by blast
    then show ?thesis using k assms(2) by (simp add: live_place_def entry_at_def bucket_entry_def)
  qed
  then show ?thesis by (fastforce simp: cells_as_def)
qed

lemma rehash_iters:
  assumes reg: "reg_ok (eg, hp)" and inv: "ht_inv (hp a)" "ht_addr (hp a) = a" "\<not> f_packed (hp a)" "\<not> f_uninit (hp a)"
  obtains ht' eg' where "zend_hash_rehash (hp a) eg = Inr (ht', eg')" "ht_inv ht'" "reg_ok (eg', hp(a := ht'))"
    "iters_moved a eg eg'" "elems ht' = elems (hp a)" "HT_IS_WITHOUT_HOLES ht'"
    "\<And>c. c < length (ht_iterators eg) \<Longrightarrow> it_ht (ht_iterators eg ! c) = IterHT a \<Longrightarrow>
       from_pos ht' (it_pos (ht_iterators eg' ! c)) = from_pos (hp a) (rehash_place eg (hp a) (it_pos (ht_iterators eg ! c)))"
proof -
  let ?S = "hp a" and ?n = "nNumUsed (hp a)" and ?cp = "live_place (hp a)" and ?its = "ht_iterators eg"
  obtain ht' eg' where r: "zend_hash_rehash ?S eg = Inr (ht', eg')" "eg_same eg eg'" "ht_inv ht'"
    "elems ht' = elems ?S" "table_frame ?S ht'" "nNumUsed ht' = nNumOfElements ?S"
    by (rule rehash_spec [OF rehashable_inv [OF inv(1,3,4)], of eg]) blast
  have fr: "ht_addr ht' = a" "nIteratorsCount ht' = nIteratorsCount ?S" "nNumOfElements ht' = nNumOfElements ?S"
    using r(5) inv(2) by (simp_all add: table_frame_def)
  have full': "HT_IS_WITHOUT_HOLES ht'" using r(6) fr(3) by (simp add: HT_IS_WITHOUT_HOLES_def)
  have n': "nNumUsed ht' = kept_before ?cp ?n"
    using r(6) inv(1) elems_kept [of ?S] by (simp add: ht_inv_def)
  have reg': "reg_ok (eg', hp(a := ht'))"
    using eg_same_reg(1) [OF r(2) reg_ok_store [OF reg fr(2)]] .
  have used: "iters_used a eg" using reg by (rule reg_iters_used)
  have h0: "ht_addr (HT_HASH_RESET ?S) = a" "nNumUsed (HT_HASH_RESET ?S) = ?n" "arData (HT_HASH_RESET ?S) = arData ?S"
    "HT_HAS_ITERATORS (HT_HASH_RESET ?S) = HT_HAS_ITERATORS ?S"
    using inv(2) by (simp_all add: HT_HASH_RESET_def HT_HAS_ITERATORS_def)
  have "iters_moved a eg eg' \<and> (\<forall>c<length ?its. it_ht (?its ! c) = IterHT a \<longrightarrow>
      from_pos ht' (it_pos (ht_iterators eg' ! c)) = from_pos ?S (rehash_place eg ?S (it_pos (?its ! c))))"
    using r(1) inv(1,3,4)
  proof (cases rule: rehash_paths)
    case empty
    then show ?thesis using reset_moved [of ?S eg] r(4) inv(2) by (simp add: from_pos_def)
  next
    case full
    have live: "?cp k" if "k < ?n" for k using elems_without_holes [OF inv(1)] full(1) that by (simp add: live_place_def)
    have k: "kept_before ?cp (min q ?n) = min q ?n" for q using kept_full [OF inv(1) full(1)] by simp
    have "nNumUsed ht' = ?n" using n' k [of ?n] by simp
    moreover have "min (rehash_place eg ?S p) ?n = min p ?n" for p
      using waiting_none [of p ?cp] live by (cases "p < ?n") (simp_all add: rehash_place_def followed_place_def)
    ultimately have "from_pos ht' p = from_pos ?S (rehash_place eg ?S p)" for p
      using k by (intro rehashed_view [OF r(3) full' r(4)]) simp
    then show ?thesis using full(2) by simp
  next
    case (holes eg1)
    have m1: "iters_moved a eg eg1" using holes_others [OF holes(1)] h0(1) by simp
    have m: "iters_moved a eg eg'"
    proof (cases "HT_HAS_ITERATORS ?S")
      case True
      have "iters_moved a eg1 eg'" using holes(2) True fr(1)
        by (auto simp: zend_hash_iterators_update_all_def intro!: map_used_moved)
      then show ?thesis using m1 iters_moved_trans by blast
    qed (use m1 holes(2) in simp)
    have "from_pos ht' (it_pos (ht_iterators eg' ! c)) = from_pos ?S (rehash_place eg ?S (it_pos (?its ! c)))"
      if c: "c < length ?its" "it_ht (?its ! c) = IterHT a" for c
    proof (rule rehashed_view [OF r(3) full' r(4)])
      have has: "HT_HAS_ITERATORS ?S" using no_count_no_iterator [OF reg _ c(1), of a] c(2) by blast
      have has': "HT_HAS_ITERATORS ht'" using has fr(2) by (simp add: HT_HAS_ITERATORS_def)
      have cells: "cells_as ?cp 0 ?n (arData (HT_HASH_RESET ?S))" using live_cells [OF inv(1,3,4)] h0(3) by simp
      have at: "iters_at a ?cp ?its ?n (ht_iterators eg1)"
        using holes_iters [OF holes(1) cells] h0 has used by simp
      have same1: "eg_same eg eg1" using m1 by (simp add: iters_moved_def)
      have u1: "iters_used (ht_addr ht') eg1" using iters_used_same [OF same1 used] fr(1) by simp
      have eg': "eg' = zend_hash_iterators_update ht' ?n (nNumUsed ht') eg1"
        using holes(2) has has' by (simp add: zend_hash_iterators_update_def)
      have pos: "it_pos (ht_iterators eg' ! c) =
          (if it_pos (ht_iterators eg1 ! c) = ?n then nNumUsed ht' else it_pos (ht_iterators eg1 ! c))"
        unfolding eg' using update_nth [OF u1 has', of c] c eg_same_on [OF same1 c(1)] eg_same_fields(4) [OF same1] fr(1) by simp
      have "min (it_pos (ht_iterators eg1 ! c)) (kept_before ?cp ?n) =
          kept_before ?cp (min (rehash_place eg ?S (it_pos (?its ! c))) ?n)"
        using iters_at_last [OF at c] inv(2) by (simp add: rehash_place_def)
      moreover have "kept_before ?cp ?n \<le> ?n" by (rule kept_before_le)
      ultimately show "min (it_pos (ht_iterators eg' ! c)) (nNumUsed ht') =
          kept_before ?cp (min (rehash_place eg ?S (it_pos (?its ! c))) ?n)"
        unfolding pos n' by (cases "it_pos (ht_iterators eg1 ! c) = ?n") (simp_all add: min_absorb1 min_absorb2)
    qed
    then show ?thesis using m by blast
  qed
  then show thesis using that [OF r(1,3) reg' _ r(4) full'] by blast
qed

end
