(* ===== verification/DupTheorems.thy ===== *)
theory DupTheorems
  imports HashList HashRehashIter WalkTheorems
begin

text \<open>
  The properties of copies of tables, of iterators when a table is copied or rehashed, and of arrays
  that are lists.
\<close>

subsection \<open>Copies\<close>

lemma sample_registry: "reg_ok (sample_globals, hp)" if "\<And>a. nIteratorsCount (hp a) = 0"
  using that by (simp add: reg_ok_def reg_mid_def used_ok_def counts_ok_def rings_ok_def live_iter_def sample_globals_def)

definition sample_gc :: gc_heap where
  "sample_gc = \<lparr>gc_ref = (\<lambda>_. \<lparr>rf_count = 1, rf_val = IS_LONG 7\<rparr>), gc_arr_count = (\<lambda>_. 1),
     gc_immutable = (\<lambda>_. False), gc_addrefs = []\<rparr>"

lemma sample_refs: "refs_ok sample_gc"
  by (simp add: refs_ok_def sample_gc_def)

text \<open>
  C23. \<open>zend_array_dup\<close> gives a table of its own: it is well formed, holds the entries of the
  source in their order, with references that nobody else holds replaced by their values and
  \<open>IS_INDIRECT\<close> values by what they point to (the undefined ones left out), and counts every value
  and key that it now shares exactly once more. No other table changes, and the registry of
  iterators stays well formed.
\<close>

theorem array_dup_copies:
  assumes "reg_ok (eg, hp)" "ht_inv (hp s)" "ht_addr (hp s) = s" "s \<noteq> t" "unused (ht_iterators eg) t" "refs_ok gc"
    "f_packed (hp s) \<or> gc_immutable gc s \<Longrightarrow> \<not> f_empty_ind (hp s)"
  shows "\<exists>eg' hp' gc' evs. zend_array_dup s t (eg, hp, gc) = Inr (eg', hp', gc') \<and>
     ht_inv (hp' t) \<and> ht_addr (hp' t) = t \<and> nNextFreeElement (hp' t) = nNextFreeElement (hp s) \<and>
     elems (hp' t) = (if gc_immutable gc s then elems (hp s)
                      else copied (gc_alloc t gc) s (indirect eg) (f_packed (hp s)) (elems (hp s))) \<and>
     gc' = fold Z_ADDREF (if gc_immutable gc s then [] else taken (gc_alloc t gc) (elems (hp' t))) (gc_alloc t gc) \<and>
     events eg' = events eg @ evs \<and>
     ev_addrefs evs = (if gc_immutable gc s \<or> f_packed (hp s) \<or> f_static_keys (hp s) then []
                       else string_keys_of (elems (hp' t))) \<and>
     (\<forall>a. a \<noteq> t \<longrightarrow> hp' a = hp a) \<and> reg_ok (eg', hp')"
proof -
  obtain eg' hp' gc' where d: "zend_array_dup s t (eg, hp, gc) = Inr (eg', hp', gc')" "dup_ok s t (eg, hp, gc) (eg', hp', gc')"
    using dup_spec [OF assms] by blast
  then obtain evs where "events eg' = events eg @ evs" "ev_addrefs evs = (if gc_immutable gc s \<or> f_packed (hp s) \<or> f_static_keys (hp s) then []
                             else string_keys_of (elems (hp' t)))" by (auto simp: dup_ok_def)
  then show ?thesis using d unfolding dup_ok_def dup_taken_def dup_entries_def prod.case
    by (intro exI [of _ eg'] exI [of _ hp'] exI [of _ gc'] exI [of _ evs]) (simp del: fold_simps)
qed

theorem array_dup_copies_witness:
  "\<exists>eg' hp' gc'. zend_array_dup 1 2 (sample_globals, \<lambda>_. sample_mixed, sample_gc) = Inr (eg', hp', gc') \<and>
     elems (hp' 2) = [(KStr [97], IS_TRUE), (KNum 5, IS_LONG 7)]"
proof -
  have "reg_ok (sample_globals, \<lambda>_. sample_mixed)" by (rule sample_registry) (simp add: sample_mixed_def)
  moreover have "ht_addr sample_mixed = 1" "\<not> f_empty_ind sample_mixed" by (simp_all add: sample_mixed_def)
  moreover have "unused (ht_iterators sample_globals) 2" by (simp add: unused_def sample_globals_def)
  ultimately show ?thesis
    using array_dup_copies [of sample_globals "\<lambda>_. sample_mixed" 1 2 sample_gc] sample_mixed_inv sample_refs
    by (auto simp: sample_elems sample_gc_def copied_def resolve_def unwrapped_def)
qed

text \<open>The sample with two iterators is a registry of iterators.\<close>

lemma two_iterators_simps:
  "ht_iterators two_iterators = [\<lparr>it_ht = IterHT 1, it_pos = 1, it_next_copy = 0\<rparr>, \<lparr>it_ht = IterHT 1, it_pos = 2, it_next_copy = 1\<rparr>]"
  "ht_iterators_used two_iterators = 2"
  "live_iter (ht_iterators two_iterators) i \<longleftrightarrow> i = 0 \<or> i = 1"
  by (auto simp: two_iterators_def live_iter_def less_Suc_eq)

lemma two_iterators_reg: "reg_ok (two_iterators, (\<lambda>_. sample_packed)(1 := two_iterators_table))"
proof -
  have "inj_on (succ_iter (ht_iterators two_iterators)) {i. live_iter (ht_iterators two_iterators) i}"
    unfolding two_iterators_simps(3) by (auto simp: inj_on_def succ_iter_def two_iterators_simps(1))
  then show ?thesis
    by (auto simp: reg_ok_def reg_mid_def used_ok_def counts_ok_def rings_ok_def two_iterators_simps(3))
      (auto simp: two_iterators_simps(1,2) succ_iter_def sample_packed_def two_iterators_table_def)
qed

subsection \<open>Rehashing under iteration\<close>

text \<open>Without an iterator on a place that is dropped before it, an iterator is not left behind.\<close>

lemma waiting_kept_only: "(\<And>p. p < k \<Longrightarrow> it p \<Longrightarrow> cp p) \<Longrightarrow> waiting cp it k = []"
  by (induction k) auto

lemma rehash_place_live:
  assumes "\<And>q. iter_on (ht_iterators eg) (ht_addr ht) q \<Longrightarrow> q < p \<Longrightarrow> live_place ht q"
  shows "rehash_place eg ht p = p"
  using waiting_kept_only [of p "iter_on (ht_iterators eg) (ht_addr ht)" "live_place ht"] assms
  by (simp add: rehash_place_def followed_place_def)

text \<open>
  C13. Rehashing a table under iteration keeps the registry of iterators well formed and leaves
  the iterators of other tables as they are. An iterator of the table ends on the place that has
  before it the entries it had before it from \<open>rehash_place\<close> on: all of them, whenever the
  iterators of the table before it are on live places. Behind an iterator on a hole, one on the live
  place that this iterator is moved to is left behind by \<open>while (iter_pos < i)\<close>, is moved with the
  place after its own, and so skips its entry.
\<close>

theorem rehash_moves_iterators:
  assumes "reg_ok (eg, hp)" "ht_inv (hp a)" "ht_addr (hp a) = a" "\<not> f_packed (hp a)" "\<not> f_uninit (hp a)"
  shows "\<exists>ht' eg'. zend_hash_rehash (hp a) eg = Inr (ht', eg') \<and> reg_ok (eg', hp(a := ht')) \<and>
    (\<forall>i. live_iter (ht_iterators eg) i \<longrightarrow>
       (case ht_iterators eg ! i of it \<Rightarrow> case ht_iterators eg' ! i of it' \<Rightarrow>
          if it_ht it \<noteq> IterHT a then it' = it
          else it_ht it' = IterHT a \<and>
            from_pos ht' (it_pos it') = from_pos (hp a) (rehash_place eg (hp a) (it_pos it)) \<and>
            ((\<exists>q<it_pos it. iter_on (ht_iterators eg) a q \<and> \<not> live_place (hp a) q) \<or>
             from_pos ht' (it_pos it') = from_pos (hp a) (it_pos it))))"
proof -
  obtain ht' eg' where r: "zend_hash_rehash (hp a) eg = Inr (ht', eg')" "reg_ok (eg', hp(a := ht'))" "iters_moved a eg eg'"
    "\<And>c. c < length (ht_iterators eg) \<Longrightarrow> it_ht (ht_iterators eg ! c) = IterHT a \<Longrightarrow>
       from_pos ht' (it_pos (ht_iterators eg' ! c)) = from_pos (hp a) (rehash_place eg (hp a) (it_pos (ht_iterators eg ! c)))"
    by (rule rehash_iters [OF assms]) blast
  have same: "eg_same eg eg'" using r(3) by (simp add: iters_moved_def)
  have pl: "(\<exists>q<p. iter_on (ht_iterators eg) a q \<and> \<not> live_place (hp a) q) \<or> rehash_place eg (hp a) p = p" for p
    using rehash_place_live [of eg "hp a" p] unfolding assms(3) by blast
  have "if it_ht (ht_iterators eg ! i) \<noteq> IterHT a then ht_iterators eg' ! i = ht_iterators eg ! i
      else it_ht (ht_iterators eg' ! i) = IterHT a \<and>
        from_pos ht' (it_pos (ht_iterators eg' ! i)) = from_pos (hp a) (rehash_place eg (hp a) (it_pos (ht_iterators eg ! i))) \<and>
        ((\<exists>q<it_pos (ht_iterators eg ! i). iter_on (ht_iterators eg) a q \<and> \<not> live_place (hp a) q) \<or>
         from_pos ht' (it_pos (ht_iterators eg' ! i)) = from_pos (hp a) (it_pos (ht_iterators eg ! i)))"
    if "live_iter (ht_iterators eg) i" for i
  proof (cases "it_ht (ht_iterators eg ! i) = IterHT a")
    case True
    have i: "i < length (ht_iterators eg)" using that by (simp add: live_iter_def)
    show ?thesis unfolding r(4) [OF i True] using True eg_same_on [OF same i] pl [of "it_pos (ht_iterators eg ! i)"] by auto
  qed (use that r(3) in \<open>simp add: live_iter_def iters_moved_def\<close>)
  then show ?thesis using r(1,2) by (intro exI conjI allI impI) assumption+
qed

theorem rehash_moves_iterators_witness:
  "\<exists>ht' eg'. zend_hash_rehash two_iterators_table two_iterators = Inr (ht', eg') \<and>
     from_pos ht' (it_pos (ht_iterators eg' ! 0)) = [(KNum 2, IS_TRUE), (KNum 3, IS_FALSE)] \<and>
     from_pos ht' (it_pos (ht_iterators eg' ! 1)) = [(KNum 3, IS_FALSE)]"
proof -
  let ?eg = "two_iterators" and ?hp = "(\<lambda>_ :: nat. sample_packed)(1 := two_iterators_table)" and ?ht = two_iterators_table
  have t: "ht_inv (?hp 1)" "ht_addr (?hp 1) = 1" "\<not> f_packed (?hp 1)" "\<not> f_uninit (?hp 1)"
    by (simp_all add: two_iterators_inv) (simp_all add: two_iterators_table_def)
  have f: "from_pos ?ht (rehash_place ?eg ?ht 1) = [(KNum 2, IS_TRUE), (KNum 3, IS_FALSE)]"
    "from_pos ?ht (rehash_place ?eg ?ht 2) = [(KNum 3, IS_FALSE)]" by code_simp+
  have "\<exists>ht' eg'. zend_hash_rehash (?hp 1) ?eg = Inr (ht', eg') \<and>
      (\<forall>i. live_iter (ht_iterators ?eg) i \<longrightarrow> it_ht (ht_iterators ?eg ! i) = IterHT 1 \<longrightarrow>
         from_pos ht' (it_pos (ht_iterators eg' ! i)) = from_pos (?hp 1) (rehash_place ?eg (?hp 1) (it_pos (ht_iterators ?eg ! i))))"
    using rehash_moves_iterators [OF two_iterators_reg t]
  proof (elim exE conjE, intro exI conjI allI impI)
    fix ht' eg' i
    assume "zend_hash_rehash (?hp 1) ?eg = Inr (ht', eg')"
    then show "zend_hash_rehash (?hp 1) ?eg = Inr (ht', eg')" .
  qed (drule spec, drule (1) mp, simp)
  then obtain ht' eg' where r: "zend_hash_rehash ?ht ?eg = Inr (ht', eg')"
    "\<And>i. i = 0 \<or> i = 1 \<Longrightarrow> it_ht (ht_iterators ?eg ! i) = IterHT 1 \<Longrightarrow>
       from_pos ht' (it_pos (ht_iterators eg' ! i)) = from_pos ?ht (rehash_place ?eg ?ht (it_pos (ht_iterators ?eg ! i)))"
    unfolding two_iterators_simps(3) fun_upd_same by blast
  then show ?thesis using f r(2) [of 0] r(2) [of 1] by (auto simp: two_iterators_simps(1))
qed

subsection \<open>Copying under iteration\<close>

lemma iter_place_kept:
  assumes "\<And>q. iter_on (ht_iterators eg) (ht_addr ht) q \<Longrightarrow> q < p \<Longrightarrow> kept_place (indirect eg) ht q"
  shows "iter_place eg ht p = p"
  using waiting_kept_only [of p "iter_on (ht_iterators eg) (ht_addr ht)" "kept_place (indirect eg) ht"] assms
  by (simp add: iter_place_def followed_place_def)

text \<open>
  C24. Copy on write and iterators: after \<open>zend_array_dup\<close> of a table that is neither empty nor
  immutable, packed or mixed, with or without holes, an iterator of the source is found on the
  copy by \<open>zend_hash_iterator_pos\<close>, through its ring, and has before it the copies of the entries
  it still had before it from \<open>iter_place\<close> on. That is its own place whenever all the iterators
  of the source before it are on places that the copy keeps. Otherwise it can be the place after
  it: the loop that moves the iterators while a mixed copy closes its holes
  (\<open>while (iter_pos < idx)\<close>) leaves an iterator behind when another one before it was on a
  dropped place, and the left one then skips its entry.
\<close>

theorem iterator_follows_copy:
  assumes "reg_ok (eg, hp)" "ht_inv (hp s)" "ht_addr (hp s) = s" "s \<noteq> t" "unused (ht_iterators eg) t" "refs_ok gc"
    "f_packed (hp s) \<Longrightarrow> \<not> f_empty_ind (hp s)" "nNumOfElements (hp s) \<noteq> 0" "\<not> gc_immutable gc s"
    "live_iter (ht_iterators eg) idx" "it_ht (ht_iterators eg ! idx) = IterHT s"
  shows "\<exists>eg1 hp1 gc1 eg2 hp2 p. zend_array_dup s t (eg, hp, gc) = Inr (eg1, hp1, gc1) \<and>
     zend_hash_iterator_pos idx t (eg1, hp1) = Inr ((eg2, hp2), p) \<and>
     it_ht (ht_iterators eg2 ! idx) = IterHT t \<and>
     from_pos (hp2 t) p =
       dup_entries s t (eg, hp, gc) (from_pos (hp s) (iter_place eg (hp s) (it_pos (ht_iterators eg ! idx)))) \<and>
     ((\<exists>q<it_pos (ht_iterators eg ! idx). iter_on (ht_iterators eg) s q \<and> \<not> kept_place (indirect eg) (hp s) q) \<or>
      from_pos (hp2 t) p = dup_entries s t (eg, hp, gc) (from_pos (hp s) (it_pos (ht_iterators eg ! idx))))"
proof -
  obtain eg1 hp1 gc1 where d: "zend_array_dup s t (eg, hp, gc) = Inr (eg1, hp1, gc1)" "dup_ok s t (eg, hp, gc) (eg1, hp1, gc1)"
    "dup_follows s t (eg, hp, gc) (eg1, hp1, gc1)"
    using dup_spec [OF assms(1-6)] assms(7-9) by metis
  let ?a = "ht_iterators eg" and ?b = "ht_iterators eg1"
  let ?p = "it_pos (ht_iterators eg ! idx)"
  have ok: "reg_ok (eg1, hp1)" "ht_inv (hp1 t)" using d(2) by (simp_all add: dup_ok_def)
  obtain q where i: "live_iter ?b idx" "it_ht (?b ! idx) = IterHT s" and c: "has_copy ?b t idx q"
    and fp: "from_pos (hp1 t) q = dup_entries s t (eg, hp, gc) (from_pos (hp s) (iter_place eg (hp s) ?p))"
    using d(3) assms(10,11) by (auto simp: dup_follows_def iters_followed_def iter_kept_def)
  obtain eg2 hp2 p where r: "zend_hash_iterator_pos idx t (eg1, hp1) = Inr ((eg2, hp2), p)"
    "located idx t (eg1, hp1) (eg2, hp2) p" by (rule iterator_pos_spec [OF ok(1) i(1) ok(2)])
  have "it_ht (ht_iterators eg2 ! idx) = IterHT t" "p = q" "same_tables hp1 hp2"
    using r(2) i(2) c assms(4) by (auto simp: located_def has_copy_def same_env_def)
  moreover have "(\<exists>q<?p. iter_on ?a s q \<and> \<not> kept_place (indirect eg) (hp s) q) \<or> iter_place eg (hp s) ?p = ?p"
    using iter_place_kept [of eg "hp s" ?p] unfolding assms(3) by blast
  ultimately show ?thesis using d(1) r(1) fp same_tables_from [of hp1 hp2 t] by metis
qed

theorem iterator_follows_copy_witness:
  "\<exists>eg1 hp1 gc1 eg2 hp2 p eg3 hp3 q.
     zend_array_dup 1 3 (two_iterators, (\<lambda>_. sample_packed)(1 := two_iterators_table), sample_gc) = Inr (eg1, hp1, gc1) \<and>
     zend_hash_iterator_pos 0 3 (eg1, hp1) = Inr ((eg2, hp2), p) \<and>
     from_pos (hp2 3) p = [(KNum 2, IS_TRUE), (KNum 3, IS_FALSE)] \<and>
     zend_hash_iterator_pos 1 3 (eg1, hp1) = Inr ((eg3, hp3), q) \<and>
     from_pos (hp3 3) q = [(KNum 3, IS_FALSE)]"
proof -
  let ?eg = "two_iterators" and ?hp = "(\<lambda>_ :: nat. sample_packed)(1 := two_iterators_table)" and ?ht = two_iterators_table
  note its = two_iterators_simps(1) and live = two_iterators_simps(3) and reg = two_iterators_reg
  have t: "ht_inv (?hp 1)" "ht_addr (?hp 1) = 1" "(1 :: nat) \<noteq> 3" "unused (ht_iterators ?eg) 3"
    "\<not> f_empty_ind (?hp 1)" "nNumOfElements (?hp 1) \<noteq> 0" "\<not> gc_immutable sample_gc 1"
    by (simp_all add: two_iterators_inv unused_def its) (simp_all add: two_iterators_table_def sample_gc_def)
  have i: "live_iter (ht_iterators ?eg) 0" "it_ht (ht_iterators ?eg ! 0) = IterHT 1"
    "live_iter (ht_iterators ?eg) 1" "it_ht (ht_iterators ?eg ! 1) = IterHT 1"
    unfolding live by (simp_all add: its)
  have f: "from_pos ?ht (iter_place ?eg ?ht 1) = [(KNum 2, IS_TRUE), (KNum 3, IS_FALSE)]"
    "from_pos ?ht (iter_place ?eg ?ht 2) = [(KNum 3, IS_FALSE)]" by code_simp+
  have d: "dup_entries 1 3 (?eg, ?hp, sample_gc) [(KNum 2, IS_TRUE), (KNum 3, IS_FALSE)] = [(KNum 2, IS_TRUE), (KNum 3, IS_FALSE)]"
    "dup_entries 1 3 (?eg, ?hp, sample_gc) [(KNum 3, IS_FALSE)] = [(KNum 3, IS_FALSE)]"
    by (simp_all add: dup_entries_def sample_gc_def resolve_def unwrapped_def)
  note follow = iterator_follows_copy [OF reg t(1-4) sample_refs t(5-7)]
  from follow [OF i(1,2)] obtain eg1 hp1 gc1 eg2 hp2 p where r:
    "zend_array_dup 1 3 (?eg, ?hp, sample_gc) = Inr (eg1, hp1, gc1)" "zend_hash_iterator_pos 0 3 (eg1, hp1) = Inr ((eg2, hp2), p)"
    "from_pos (hp2 3) p = dup_entries 1 3 (?eg, ?hp, sample_gc) (from_pos (?hp 1) (iter_place ?eg (?hp 1) (it_pos (ht_iterators ?eg ! 0))))"
    by (elim exE conjE) (rule that, assumption+)
  from follow [OF i(3,4)] obtain eg1' hp1' gc1' eg3 hp3 q where r':
    "zend_array_dup 1 3 (?eg, ?hp, sample_gc) = Inr (eg1', hp1', gc1')" "zend_hash_iterator_pos 1 3 (eg1', hp1') = Inr ((eg3, hp3), q)"
    "from_pos (hp3 3) q = dup_entries 1 3 (?eg, ?hp, sample_gc) (from_pos (?hp 1) (iter_place ?eg (?hp 1) (it_pos (ht_iterators ?eg ! 1))))"
    by (elim exE conjE) (rule that, assumption+)
  have pos: "it_pos (ht_iterators ?eg ! 0) = 1" "it_pos (ht_iterators ?eg ! 1) = 2" "?hp 1 = ?ht" by (simp_all add: its)
  have "eg1' = eg1" "hp1' = hp1" using r(1) r'(1) by simp_all
  then show ?thesis using r r' unfolding pos f d by blast
qed

subsection \<open>Lists\<close>

text \<open>
  C25. \<open>zend_array_is_list\<close> says of any well-formed table, packed or mixed, with or without holes,
  whether its keys are 0, 1, 2 and so on in this order; what \<open>zend_array_to_list\<close> makes of a
  table is a well-formed list with the values in their order, references that nobody else
  holds replaced by what they refer to.
\<close>

theorem array_lists:
  assumes "ht_inv ht" "refs_ok gc"
  shows "zend_array_is_list ht = Inr (map fst (elems ht) = map (\<lambda>i. KNum (of_nat i)) [0..<length (elems ht)]) \<and>
     (\<exists>r gc'. zend_array_to_list a ht gc = Inr (r, gc') \<and> ht_inv r \<and> zend_array_is_list r = Inr True \<and>
        map snd (elems r) = map (unboxed gc \<circ> snd) (elems ht) \<and>
        nNextFreeElement r = int (length (elems ht)) \<and>
        gc' = fold Z_ADDREF (filter (Z_OPT_REFCOUNTED gc) (map snd (elems r))) gc)"
proof -
  obtain r gc' where r: "zend_array_to_list a ht gc = Inr (r, gc')" "ht_inv r"
    "elems r = list_of (map (unboxed gc \<circ> snd) (elems ht))" "nNextFreeElement r = int (length (elems ht))"
    "gc' = fold Z_ADDREF (filter (Z_OPT_REFCOUNTED gc) (map (unboxed gc \<circ> snd) (elems ht))) gc"
    by (rule to_list_spec [OF assms, of a]) blast
  then show ?thesis
    using is_list_spec [OF assms(1)] is_list_spec [OF r(2)] list_of_numbered [of "map (unboxed gc \<circ> snd) (elems ht)"]
    by (simp add: numbered_keys list_of_snd)
qed

theorem array_lists_witness:
  "zend_array_is_list sample_packed = Inr False \<and>
   (\<exists>r gc'. zend_array_to_list 9 sample_packed sample_gc = Inr (r, gc') \<and> map snd (elems r) = [IS_LONG 7, IS_TRUE])"
  using array_lists [OF sample_packed_inv sample_refs, of 9]
  by (auto simp: sample_elems unboxed_def)

end
