(* ===== verification/ZendLlist.thy ===== *)
theory ZendLlist
  imports ZendPrelude ZendSort
begin

text \<open>
  The doubly linked lists of \<open>Zend/zend_llist.c\<close> in an explicit store: an element is
  a cell at an address, \<open>next\<close> and \<open>prev\<close> are addresses or null, and a freed cell is
  no longer there. An access through a null pointer or to a freed cell is the
  error \<open>BadPointer\<close>.
\<close>

subsection \<open>Elements, lists and the store\<close>

record 'a zend_llist_element =
  e_next :: "nat option"
  e_prev :: "nat option"
  e_data :: 'a

record 'a llist_store =
  cells :: "nat \<rightharpoonup> 'a zend_llist_element"
  brk :: nat

text \<open>
  The list itself: \<open>count\<close> is a \<open>size_t\<close>, \<open>dtor\<close> gets a pointer to the data and
  \<open>'s\<close> is the state it can change. An element has the fixed size \<open>size\<close>, its bytes
  are the value of type \<open>'a\<close>.
\<close>

record ('a, 's) zend_llist =
  l_head :: "nat option"
  l_tail :: "nat option"
  l_count :: "64 word"
  l_size :: "64 word"
  l_dtor :: "('a \<Rightarrow> 's \<Rightarrow> 's) option"
  l_persistent :: bool
  l_traverse_ptr :: "nat option"

definition elem_at :: "'a llist_store \<Rightarrow> nat \<Rightarrow> error + 'a zend_llist_element" where
  "elem_at m p = (case cells m p of None \<Rightarrow> Inl BadPointer | Some e \<Rightarrow> Inr e)"

definition upd_elem ::
  "nat \<Rightarrow> ('a zend_llist_element \<Rightarrow> 'a zend_llist_element) \<Rightarrow> 'a llist_store \<Rightarrow> error + 'a llist_store" where
  "upd_elem p f m = bindE (elem_at m p) (\<lambda>e. Inr (m\<lparr>cells := (cells m)(p \<mapsto> f e)\<rparr>))"

definition pemalloc :: "'a zend_llist_element \<Rightarrow> 'a llist_store \<Rightarrow> nat \<times> 'a llist_store" where
  "pemalloc e m = (brk m, m\<lparr>cells := (cells m)(brk m \<mapsto> e), brk := Suc (brk m)\<rparr>)"

definition pefree :: "nat \<Rightarrow> 'a llist_store \<Rightarrow> error + 'a llist_store" where
  "pefree p m = bindE (elem_at m p) (\<lambda>e. Inr (m\<lparr>cells := (cells m)(p := None)\<rparr>))"

definition zend_llist_init ::
  "64 word \<Rightarrow> ('a \<Rightarrow> 's \<Rightarrow> 's) option \<Rightarrow> bool \<Rightarrow> nat option \<Rightarrow> ('a, 's) zend_llist" where
  "zend_llist_init sz dtor persistent old =
     \<lparr>l_head = None, l_tail = None, l_count = 0, l_size = sz, l_dtor = dtor,
      l_persistent = persistent, l_traverse_ptr = old\<rparr>"

subsection \<open>Adding elements\<close>

definition zend_llist_add_element ::
  "'a \<Rightarrow> ('a, 's) zend_llist \<Rightarrow> 'a llist_store \<Rightarrow> error + ('a, 's) zend_llist \<times> 'a llist_store" where
  "zend_llist_add_element x l m =
     (let (tmp, m) = pemalloc \<lparr>e_next = None, e_prev = l_tail l, e_data = x\<rparr> m
      in bindE (case l_tail l of
                  Some t \<Rightarrow> bindE (upd_elem t (e_next_update (\<lambda>_. Some tmp)) m) (\<lambda>m. Inr (l, m))
                | None \<Rightarrow> Inr (l\<lparr>l_head := Some tmp\<rparr>, m)) (\<lambda>(l, m).
         Inr (l\<lparr>l_tail := Some tmp, l_count := l_count l + 1\<rparr>, m)))"

definition zend_llist_prepend_element ::
  "'a \<Rightarrow> ('a, 's) zend_llist \<Rightarrow> 'a llist_store \<Rightarrow> error + ('a, 's) zend_llist \<times> 'a llist_store" where
  "zend_llist_prepend_element x l m =
     (let (tmp, m) = pemalloc \<lparr>e_next = l_head l, e_prev = None, e_data = x\<rparr> m
      in bindE (case l_head l of
                  Some h \<Rightarrow> bindE (upd_elem h (e_prev_update (\<lambda>_. Some tmp)) m) (\<lambda>m. Inr (l, m))
                | None \<Rightarrow> Inr (l\<lparr>l_tail := Some tmp\<rparr>, m)) (\<lambda>(l, m).
         Inr (l\<lparr>l_head := Some tmp, l_count := l_count l + 1\<rparr>, m)))"

subsection \<open>Deleting elements\<close>

text \<open>The call of the destructor, when the list has one.\<close>

definition run_dtor :: "('a, 's) zend_llist \<Rightarrow> 'a \<Rightarrow> 's \<Rightarrow> 's" where
  "run_dtor l x w = (case l_dtor l of Some d \<Rightarrow> d x w | None \<Rightarrow> w)"

text \<open>\<open>DEL_LLIST_ELEMENT\<close>: unlink on both sides, destroy the data, free the cell.\<close>

definition del_llist_element ::
  "nat \<Rightarrow> ('a, 's) zend_llist \<Rightarrow> 'a llist_store \<Rightarrow> 's \<Rightarrow>
     error + ('a, 's) zend_llist \<times> 'a llist_store \<times> 's" where
  "del_llist_element current l m w =
     bindE (elem_at m current) (\<lambda>e.
     bindE (case e_prev e of
              Some p \<Rightarrow> bindE (upd_elem p (e_next_update (\<lambda>_. e_next e)) m) (\<lambda>m. Inr (l, m))
            | None \<Rightarrow> Inr (l\<lparr>l_head := e_next e\<rparr>, m)) (\<lambda>(l, m).
     bindE (elem_at m current) (\<lambda>e.
     bindE (case e_next e of
              Some q \<Rightarrow> bindE (upd_elem q (e_prev_update (\<lambda>_. e_prev e)) m) (\<lambda>m. Inr (l, m))
            | None \<Rightarrow> Inr (l\<lparr>l_tail := e_prev e\<rparr>, m)) (\<lambda>(l, m).
     bindE (elem_at m current) (\<lambda>e.
     let w = run_dtor l (e_data e) w
     in bindE (pefree current m) (\<lambda>m.
        Inr (l\<lparr>l_count := l_count l - 1\<rparr>, m, w)))))))"

text \<open>
  The loops follow \<open>next\<close> pointers. A store with \<open>brk\<close> addresses cannot be followed
  for more steps without coming back to a cell, so a loop that uses up \<open>Suc (brk m)\<close>
  steps never ends.
\<close>

fun del_element_loop ::
  "nat \<Rightarrow> ('a \<Rightarrow> 'b \<Rightarrow> bool) \<Rightarrow> 'b \<Rightarrow> nat option \<Rightarrow> ('a, 's) zend_llist \<Rightarrow> 'a llist_store \<Rightarrow> 's \<Rightarrow>
     error + ('a, 's) zend_llist \<times> 'a llist_store \<times> 's" where
  "del_element_loop n compare element None l m w = Inr (l, m, w)"
| "del_element_loop 0 compare element (Some p) l m w = Inl NoReturn"
| "del_element_loop (Suc n) compare element (Some p) l m w =
     bindE (elem_at m p) (\<lambda>e.
     if compare (e_data e) element then del_llist_element p l m w
     else del_element_loop n compare element (e_next e) l m w)"

definition zend_llist_del_element ::
  "'b \<Rightarrow> ('a \<Rightarrow> 'b \<Rightarrow> bool) \<Rightarrow> ('a, 's) zend_llist \<Rightarrow> 'a llist_store \<Rightarrow> 's \<Rightarrow>
     error + ('a, 's) zend_llist \<times> 'a llist_store \<times> 's" where
  "zend_llist_del_element element compare l m w =
     del_element_loop (brk m) compare element (l_head l) l m w"

fun llist_destroy_loop ::
  "nat \<Rightarrow> ('a, 's) zend_llist \<Rightarrow> nat option \<Rightarrow> 'a llist_store \<Rightarrow> 's \<Rightarrow> error + 'a llist_store \<times> 's" where
  "llist_destroy_loop n l None m w = Inr (m, w)"
| "llist_destroy_loop 0 l (Some p) m w = Inl NoReturn"
| "llist_destroy_loop (Suc n) l (Some p) m w =
     bindE (elem_at m p) (\<lambda>e.
     let nxt = e_next e;
         w = run_dtor l (e_data e) w
     in bindE (pefree p m) (\<lambda>m. llist_destroy_loop n l nxt m w))"

definition zend_llist_destroy ::
  "('a, 's) zend_llist \<Rightarrow> 'a llist_store \<Rightarrow> 's \<Rightarrow>
     error + ('a, 's) zend_llist \<times> 'a llist_store \<times> 's" where
  "zend_llist_destroy l m w =
     bindE (llist_destroy_loop (brk m) l (l_head l) m w) (\<lambda>(m, w).
     Inr (l\<lparr>l_head := None, l_tail := None, l_count := 0\<rparr>, m, w))"

definition zend_llist_clean ::
  "('a, 's) zend_llist \<Rightarrow> 'a llist_store \<Rightarrow> 's \<Rightarrow>
     error + ('a, 's) zend_llist \<times> 'a llist_store \<times> 's" where
  "zend_llist_clean l m w = zend_llist_destroy l m w"

definition zend_llist_remove_tail ::
  "('a, 's) zend_llist \<Rightarrow> 'a llist_store \<Rightarrow> 's \<Rightarrow>
     error + ('a, 's) zend_llist \<times> 'a llist_store \<times> 's" where
  "zend_llist_remove_tail l m w =
     (case l_tail l of
        None \<Rightarrow> Inr (l, m, w)
      | Some t \<Rightarrow>
          bindE (elem_at m t) (\<lambda>e.
          bindE (case e_prev e of
                   Some p \<Rightarrow> bindE (upd_elem p (e_next_update (\<lambda>_. None)) m) (\<lambda>m. Inr (l, m))
                 | None \<Rightarrow> Inr (l\<lparr>l_head := None\<rparr>, m)) (\<lambda>(l, m).
          bindE (elem_at m t) (\<lambda>e.
          let l = l\<lparr>l_tail := e_prev e, l_count := l_count l - 1\<rparr>;
              w = run_dtor l (e_data e) w
          in bindE (pefree t m) (\<lambda>m. Inr (l, m, w))))))"

subsection \<open>Copying and applying\<close>

fun copy_loop ::
  "nat \<Rightarrow> nat option \<Rightarrow> ('a, 's) zend_llist \<Rightarrow> 'a llist_store \<Rightarrow>
     error + ('a, 's) zend_llist \<times> 'a llist_store" where
  "copy_loop n None dst m = Inr (dst, m)"
| "copy_loop 0 (Some p) dst m = Inl NoReturn"
| "copy_loop (Suc n) (Some p) dst m =
     bindE (elem_at m p) (\<lambda>e.
     bindE (zend_llist_add_element (e_data e) dst m) (\<lambda>(dst, m).
     bindE (elem_at m p) (\<lambda>e.
     copy_loop n (e_next e) dst m)))"

text \<open>\<open>dst\<close> is a list of its own; \<open>old\<close> is what its \<open>traverse_ptr\<close> was, which stays.\<close>

definition zend_llist_copy ::
  "nat option \<Rightarrow> ('a, 's) zend_llist \<Rightarrow> 'a llist_store \<Rightarrow>
     error + ('a, 's) zend_llist \<times> 'a llist_store" where
  "zend_llist_copy old src m =
     copy_loop (brk m) (l_head src)
       (zend_llist_init (l_size src) (l_dtor src) (l_persistent src) old) m"

text \<open>
  A callback of \<open>zend_llist_apply\<close> gets a pointer to the data: it returns the data
  as it leaves it, and its own state.
\<close>

fun llist_apply_loop ::
  "nat \<Rightarrow> ('a \<Rightarrow> 's \<Rightarrow> 'a \<times> 's) \<Rightarrow> nat option \<Rightarrow> 'a llist_store \<Rightarrow> 's \<Rightarrow>
     error + 'a llist_store \<times> 's" where
  "llist_apply_loop n f None m w = Inr (m, w)"
| "llist_apply_loop 0 f (Some p) m w = Inl NoReturn"
| "llist_apply_loop (Suc n) f (Some p) m w =
     bindE (elem_at m p) (\<lambda>e.
     let (x, w) = f (e_data e) w
     in bindE (upd_elem p (e_data_update (\<lambda>_. x)) m) (\<lambda>m.
        bindE (elem_at m p) (\<lambda>e. llist_apply_loop n f (e_next e) m w)))"

definition zend_llist_apply ::
  "('a, 's) zend_llist \<Rightarrow> ('a \<Rightarrow> 's \<Rightarrow> 'a \<times> 's) \<Rightarrow> 'a llist_store \<Rightarrow> 's \<Rightarrow>
     error + 'a llist_store \<times> 's" where
  "zend_llist_apply l f m w = llist_apply_loop (brk m) f (l_head l) m w"

definition zend_llist_apply_with_argument ::
  "('a, 's) zend_llist \<Rightarrow> ('a \<Rightarrow> 'b \<Rightarrow> 's \<Rightarrow> 'a \<times> 's) \<Rightarrow> 'b \<Rightarrow> 'a llist_store \<Rightarrow> 's \<Rightarrow>
     error + 'a llist_store \<times> 's" where
  "zend_llist_apply_with_argument l f arg m w = llist_apply_loop (brk m) (\<lambda>x. f x arg) (l_head l) m w"

text \<open>
  One \<open>va_list\<close> is made before the loop and passed to every call: a callback gets the arguments
  that the calls before it have left, and leaves its own rest (as with the \<open>va_list\<close> of the
  64-bit System V convention, an array passed by reference).
\<close>

definition zend_llist_apply_with_arguments ::
  "('a, 's) zend_llist \<Rightarrow> ('a \<Rightarrow> nat \<Rightarrow> 'b list \<Rightarrow> 's \<Rightarrow> 'a \<times> 'b list \<times> 's) \<Rightarrow> nat \<Rightarrow> 'b list \<Rightarrow>
     'a llist_store \<Rightarrow> 's \<Rightarrow> error + 'a llist_store \<times> 's" where
  "zend_llist_apply_with_arguments l f num_args args m w =
     bindE (llist_apply_loop (brk m) (\<lambda>x (args, w). f x num_args args w) (l_head l) m (args, w))
       (\<lambda>(m, args, w). Inr (m, w))"

fun apply_del_loop ::
  "nat \<Rightarrow> ('a \<Rightarrow> 's \<Rightarrow> bool \<times> 'a \<times> 's) \<Rightarrow> nat option \<Rightarrow> ('a, 's) zend_llist \<Rightarrow> 'a llist_store \<Rightarrow> 's \<Rightarrow>
     error + ('a, 's) zend_llist \<times> 'a llist_store \<times> 's" where
  "apply_del_loop n f None l m w = Inr (l, m, w)"
| "apply_del_loop 0 f (Some p) l m w = Inl NoReturn"
| "apply_del_loop (Suc n) f (Some p) l m w =
     bindE (elem_at m p) (\<lambda>e.
     let nxt = e_next e;
         (del, x, w) = f (e_data e) w
     in bindE (upd_elem p (e_data_update (\<lambda>_. x)) m) (\<lambda>m.
        bindE (if del then del_llist_element p l m w else Inr (l, m, w)) (\<lambda>(l, m, w).
        apply_del_loop n f nxt l m w)))"

definition zend_llist_apply_with_del ::
  "('a, 's) zend_llist \<Rightarrow> ('a \<Rightarrow> 's \<Rightarrow> bool \<times> 'a \<times> 's) \<Rightarrow> 'a llist_store \<Rightarrow> 's \<Rightarrow>
     error + ('a, 's) zend_llist \<times> 'a llist_store \<times> 's" where
  "zend_llist_apply_with_del l f m w = apply_del_loop (brk m) f (l_head l) l m w"

subsection \<open>Sorting\<close>

text \<open>
  \<open>zend_llist_sort\<close> sorts an array of the element pointers with \<open>zend_sort\<close> and
  links the elements again in its order. The comparison gets two of these
  pointers, which were all followed when the array was filled, and may look at
  the whole element.
\<close>

fun gather :: "nat \<Rightarrow> nat option \<Rightarrow> 'a llist_store \<Rightarrow> error + nat list" where
  "gather n None m = Inr []"
| "gather 0 (Some p) m = Inl NoReturn"
| "gather (Suc n) (Some p) m =
     bindE (elem_at m p) (\<lambda>e. bindE (gather n (e_next e) m) (\<lambda>ps. Inr (p # ps)))"

definition cmp_elements ::
  "('a zend_llist_element \<Rightarrow> 'a zend_llist_element \<Rightarrow> int) \<Rightarrow> 'a llist_store \<Rightarrow> nat compare_func" where
  "cmp_elements comp_func m p q =
     comp_func (the (cells m p)) (the (cells m q))"

text \<open>
  \<open>elements[i]->prev = elements[i-1]; elements[i-1]->next = elements[i]\<close> for every
  element after the first; the last one is returned.
\<close>

primrec relink :: "nat \<Rightarrow> nat list \<Rightarrow> 'a llist_store \<Rightarrow> error + nat \<times> 'a llist_store" where
  "relink p [] m = Inr (p, m)"
| "relink p (q # qs) m =
     bindE (upd_elem q (e_prev_update (\<lambda>_. Some p)) m) (\<lambda>m.
     bindE (upd_elem p (e_next_update (\<lambda>_. Some q)) m) (\<lambda>m.
     relink q qs m))"

text \<open>
  The array has \<open>count\<close> cells: with more elements on the list the gathering loop
  would write past its end, with fewer ones \<open>zend_sort\<close> would read cells that were
  never written.
\<close>

definition zend_llist_sort ::
  "('a, 's) zend_llist \<Rightarrow> ('a zend_llist_element \<Rightarrow> 'a zend_llist_element \<Rightarrow> int) \<Rightarrow> 'a llist_store \<Rightarrow>
     error + ('a, 's) zend_llist \<times> 'a llist_store" where
  "zend_llist_sort l comp_func m =
     (if l_count l = 0 then Inr (l, m)
      else
        bindE (gather (brk m) (l_head l) m) (\<lambda>elements.
        if length elements > unat (l_count l) then Inl OutOfBounds
        else if length elements < unat (l_count l) then Inl Uninitialized
        else
          case zend_sort (cmp_elements comp_func m) exchange elements of
            [] \<Rightarrow> Inl Uninitialized
          | p # ps \<Rightarrow>
              bindE (upd_elem p (e_prev_update (\<lambda>_. None)) m) (\<lambda>m.
              bindE (relink p ps m) (\<lambda>(t, m).
              bindE (upd_elem t (e_next_update (\<lambda>_. None)) m) (\<lambda>m.
              Inr (l\<lparr>l_head := Some p, l_tail := Some t\<rparr>, m))))))"

subsection \<open>Traversal\<close>

definition zend_llist_count :: "('a, 's) zend_llist \<Rightarrow> 64 word" where
  "zend_llist_count l = l_count l"

text \<open>
  The position is the caller's, or the list's \<open>traverse_ptr\<close> when the caller gives
  none; the functions with an explicit position return the new one beside the data.
\<close>

definition data_at :: "nat option \<Rightarrow> 'a llist_store \<Rightarrow> error + 'a option \<times> nat option" where
  "data_at pos m =
     (case pos of
        Some p \<Rightarrow> bindE (elem_at m p) (\<lambda>e. Inr (Some (e_data e), pos))
      | None \<Rightarrow> Inr (None, None))"

definition zend_llist_get_first_ex ::
  "('a, 's) zend_llist \<Rightarrow> 'a llist_store \<Rightarrow> error + 'a option \<times> nat option" where
  "zend_llist_get_first_ex l m = data_at (l_head l) m"

definition zend_llist_get_last_ex ::
  "('a, 's) zend_llist \<Rightarrow> 'a llist_store \<Rightarrow> error + 'a option \<times> nat option" where
  "zend_llist_get_last_ex l m = data_at (l_tail l) m"

definition zend_llist_get_next_ex :: "nat option \<Rightarrow> 'a llist_store \<Rightarrow> error + 'a option \<times> nat option" where
  "zend_llist_get_next_ex pos m =
     (case pos of
        Some p \<Rightarrow> bindE (elem_at m p) (\<lambda>e. data_at (e_next e) m)
      | None \<Rightarrow> Inr (None, None))"

definition zend_llist_get_prev_ex :: "nat option \<Rightarrow> 'a llist_store \<Rightarrow> error + 'a option \<times> nat option" where
  "zend_llist_get_prev_ex pos m =
     (case pos of
        Some p \<Rightarrow> bindE (elem_at m p) (\<lambda>e. data_at (e_prev e) m)
      | None \<Rightarrow> Inr (None, None))"

text \<open>The four shorthands of \<open>zend_llist.h\<close> move the list's own pointer.\<close>

definition with_traverse_ptr ::
  "error + 'a option \<times> nat option \<Rightarrow> ('a, 's) zend_llist \<Rightarrow> error + 'a option \<times> ('a, 's) zend_llist" where
  "with_traverse_ptr r l = bindE r (\<lambda>(x, pos). Inr (x, l\<lparr>l_traverse_ptr := pos\<rparr>))"

definition zend_llist_get_first ::
  "('a, 's) zend_llist \<Rightarrow> 'a llist_store \<Rightarrow> error + 'a option \<times> ('a, 's) zend_llist" where
  "zend_llist_get_first l m = with_traverse_ptr (zend_llist_get_first_ex l m) l"

definition zend_llist_get_last ::
  "('a, 's) zend_llist \<Rightarrow> 'a llist_store \<Rightarrow> error + 'a option \<times> ('a, 's) zend_llist" where
  "zend_llist_get_last l m = with_traverse_ptr (zend_llist_get_last_ex l m) l"

definition zend_llist_get_next ::
  "('a, 's) zend_llist \<Rightarrow> 'a llist_store \<Rightarrow> error + 'a option \<times> ('a, 's) zend_llist" where
  "zend_llist_get_next l m = with_traverse_ptr (zend_llist_get_next_ex (l_traverse_ptr l) m) l"

definition zend_llist_get_prev ::
  "('a, 's) zend_llist \<Rightarrow> 'a llist_store \<Rightarrow> error + 'a option \<times> ('a, 's) zend_llist" where
  "zend_llist_get_prev l m = with_traverse_ptr (zend_llist_get_prev_ex (l_traverse_ptr l) m) l"

subsection \<open>The elements of a list\<close>

text \<open>
  \<open>dlseg c pr ps nx\<close>: the addresses \<open>ps\<close> are linked in both directions, with \<open>pr\<close>
  before the first and \<open>nx\<close> after the last.
\<close>

definition firstp :: "nat option \<Rightarrow> nat list \<Rightarrow> nat option" where
  "firstp nx ps = (case ps of [] \<Rightarrow> nx | p # _ \<Rightarrow> Some p)"

definition lastp :: "nat option \<Rightarrow> nat list \<Rightarrow> nat option" where
  "lastp pr ps = (if ps = [] then pr else Some (last ps))"

lemma firstp_simps [simp]: "firstp nx [] = nx" "firstp nx (p # ps) = Some p"
  by (simp_all add: firstp_def)

lemma lastp_simps [simp]: "lastp pr [] = pr" "lastp pr (p # ps) = lastp (Some p) ps"
  by (simp_all add: lastp_def)

lemma firstp_append [simp]: "firstp nx (ps @ qs) = firstp (firstp nx qs) ps"
  by (cases ps) simp_all

lemma lastp_append [simp]: "lastp pr (ps @ qs) = lastp (lastp pr ps) qs"
  by (simp add: lastp_def)

lemma lastp_eq_None: "lastp None ps = None \<longleftrightarrow> ps = []"
  by (simp add: lastp_def)

primrec dlseg ::
  "(nat \<rightharpoonup> 'a zend_llist_element) \<Rightarrow> nat option \<Rightarrow> nat list \<Rightarrow> nat option \<Rightarrow> bool" where
  "dlseg c pr [] nx \<longleftrightarrow> True"
| "dlseg c pr (p # ps) nx \<longleftrightarrow>
     (\<exists>x. c p = Some \<lparr>e_next = firstp nx ps, e_prev = pr, e_data = x\<rparr>) \<and> dlseg c (Some p) ps nx"

lemma dlseg_append:
  "dlseg c pr (ps @ qs) nx \<longleftrightarrow> dlseg c pr ps (firstp nx qs) \<and> dlseg c (lastp pr ps) qs nx"
  by (induction ps arbitrary: pr) auto

lemma dlseg_frame:
  "(\<And>p. p \<in> set ps \<Longrightarrow> c' p = c p) \<Longrightarrow> dlseg c' pr ps nx = dlseg c pr ps nx"
  by (induction ps arbitrary: pr) auto

lemma dlseg_upd [simp]: "p \<notin> set ps \<Longrightarrow> dlseg (c(p := e)) pr ps nx = dlseg c pr ps nx"
  by (rule dlseg_frame) auto

lemma dlseg_dom: "dlseg c pr ps nx \<Longrightarrow> set ps \<subseteq> dom c"
  by (induction ps arbitrary: pr) auto

definition data_of :: "(nat \<rightharpoonup> 'a zend_llist_element) \<Rightarrow> nat \<Rightarrow> 'a" where
  "data_of c p = e_data (the (c p))"

text \<open>
  The invariant of a list: its elements are at \<open>ps\<close>, all different, linked both
  ways, and counted.
\<close>

definition heap_ok :: "'a llist_store \<Rightarrow> bool" where
  "heap_ok m \<longleftrightarrow> (\<forall>p \<in> dom (cells m). p < brk m)"

definition llist_ok :: "('a, 's) zend_llist \<Rightarrow> 'a llist_store \<Rightarrow> nat list \<Rightarrow> bool" where
  "llist_ok l m ps \<longleftrightarrow>
     l_head l = firstp None ps \<and> l_tail l = lastp None ps \<and> l_count l = of_nat (length ps) \<and>
     distinct ps \<and> dlseg (cells m) None ps None \<and> heap_ok m"

definition contents :: "'a llist_store \<Rightarrow> nat list \<Rightarrow> 'a list" where
  "contents m ps = map (data_of (cells m)) ps"

text \<open>What a step leaves alone: the cells outside \<open>A\<close> that were there before.\<close>

definition untouched :: "nat set \<Rightarrow> 'a llist_store \<Rightarrow> 'a llist_store \<Rightarrow> bool" where
  "untouched A m m' \<longleftrightarrow> (\<forall>q \<in> dom (cells m). q \<notin> A \<longrightarrow> cells m' q = cells m q) \<and> brk m \<le> brk m'"

text \<open>A step that allocates nothing changes no cell outside \<open>A\<close> at all.\<close>

definition inside :: "nat set \<Rightarrow> 'a llist_store \<Rightarrow> 'a llist_store \<Rightarrow> bool" where
  "inside A m m' \<longleftrightarrow> (\<forall>q. q \<notin> A \<longrightarrow> cells m' q = cells m q) \<and> brk m' = brk m"

lemma untouched_refl [simp]: "untouched A m m" "inside A m m"
  by (simp_all add: untouched_def inside_def)

lemma inside_untouched: "inside A m m' \<Longrightarrow> untouched A m m'"
  by (simp add: untouched_def inside_def)

lemma inside_trans: "inside A m m1 \<Longrightarrow> inside B m1 m2 \<Longrightarrow> B \<subseteq> A \<Longrightarrow> inside A m m2"
  by (auto simp: inside_def)

lemma llist_ok_other:
  assumes "llist_ok l m ps" "untouched A m m'" "set ps \<inter> A = {}" "heap_ok m'"
  shows "llist_ok l m' ps" "contents m' ps = contents m ps"
proof -
  have "p \<in> set ps \<Longrightarrow> cells m' p = cells m p" for p
    using assms dlseg_dom [of "cells m" None ps None] by (auto simp: llist_ok_def untouched_def)
  then show "llist_ok l m' ps" "contents m' ps = contents m ps"
    using assms(1,4) dlseg_frame [of ps "cells m'" "cells m" None None]
    by (auto simp: llist_ok_def contents_def data_of_def)
qed

lemma length_le_brk:
  assumes "llist_ok l m ps"
  shows "length ps \<le> brk m"
proof -
  have "set ps \<subseteq> {..<brk m}"
    using assms dlseg_dom [of "cells m" None ps None] by (auto simp: llist_ok_def heap_ok_def)
  then have "card (set ps) \<le> brk m" using card_mono [of "{..<brk m}"] by force
  then show ?thesis using assms by (simp add: llist_ok_def distinct_card)
qed

lemma llist_cell:
  assumes "dlseg c pr (ps @ p # qs) nx"
  shows "c p = Some \<lparr>e_next = firstp nx qs, e_prev = lastp pr ps, e_data = data_of c p\<rparr>"
  using assms by (auto simp: dlseg_append data_of_def)

lemma init_ok: "heap_ok m \<Longrightarrow> llist_ok (zend_llist_init sz dtor pers old) m []"
  by (simp add: llist_ok_def zend_llist_init_def)

end
