(* ===== verification/ZendLlistSpec.thy ===== *)
theory ZendLlistSpec
  imports ZendLlist
begin

text \<open>
  What every operation of \<open>zend_llist.c\<close> does to the sequence of elements: none of
  them fails on a well-formed list, each keeps the invariant, and the other cells
  of the store stay as they are.
\<close>

subsection \<open>Reading and writing cells\<close>

lemma elem_at_ok [simp]: "cells m p = Some e \<Longrightarrow> elem_at m p = Inr e"
  by (simp add: elem_at_def)

lemma upd_elem_ok [simp]:
  "cells m p = Some e \<Longrightarrow> upd_elem p f m = Inr (m\<lparr>cells := (cells m)(p \<mapsto> f e)\<rparr>)"
  by (simp add: upd_elem_def)

lemma pefree_ok [simp]:
  "cells m p = Some e \<Longrightarrow> pefree p m = Inr (m\<lparr>cells := (cells m)(p := None)\<rparr>)"
  by (simp add: pefree_def)

lemma data_of_upd [simp]:
  "data_of (c(p \<mapsto> e)) q = (if q = p then e_data e else data_of c q)"
  "q \<noteq> p \<Longrightarrow> data_of (c(p := None)) q = data_of c q"
  by (simp_all add: data_of_def)

lemma contents_simps [simp]:
  "contents m [] = []"
  "contents m (p # ps) = data_of (cells m) p # contents m ps"
  "contents m (ps @ qs) = contents m ps @ contents m qs"
  by (simp_all add: contents_def)

lemma contents_upd [simp]:
  "p \<notin> set ps \<Longrightarrow> contents (m\<lparr>cells := (cells m)(p := v)\<rparr>) ps = contents m ps"
  by (auto simp: contents_def data_of_def)

lemma contents_brk [simp]: "contents (m\<lparr>brk := b\<rparr>) ps = contents m ps"
  by (simp add: contents_def)

lemma length_contents [simp]: "length (contents m ps) = length ps"
  by (simp add: contents_def)

lemma fresh_addr: "llist_ok l m ps \<Longrightarrow> brk m \<notin> set ps \<and> cells m (brk m) = None"
  using dlseg_dom [of "cells m" None ps None] by (auto simp: llist_ok_def heap_ok_def)

subsection \<open>Adding\<close>

lemma add_element_ok:
  assumes ok: "llist_ok l m ps"
  obtains l' m' where "zend_llist_add_element x l m = Inr (l', m')" "llist_ok l' m' (ps @ [brk m])"
    "contents m' (ps @ [brk m]) = contents m ps @ [x]" "untouched (set ps) m m'" "brk m' = Suc (brk m)"
    "l_dtor l' = l_dtor l" "l_size l' = l_size l" "l_persistent l' = l_persistent l"
    "l_traverse_ptr l' = l_traverse_ptr l"
proof (cases ps rule: rev_cases)
  case Nil
  let ?m = "m\<lparr>cells := (cells m)(brk m \<mapsto> \<lparr>e_next = None, e_prev = None, e_data = x\<rparr>), brk := Suc (brk m)\<rparr>"
  let ?l = "l\<lparr>l_head := Some (brk m), l_tail := Some (brk m), l_count := 1\<rparr>"
  have "zend_llist_add_element x l m = Inr (?l, ?m)"
    using ok Nil by (simp add: zend_llist_add_element_def llist_ok_def pemalloc_def)
  moreover have "llist_ok ?l ?m [brk m]" "untouched (set ps) m ?m"
    using ok fresh_addr [OF ok] by (auto simp: llist_ok_def heap_ok_def untouched_def less_Suc_eq)
  ultimately show thesis using Nil by (intro that [of ?l ?m]) simp_all
next
  case (snoc qs t)
  have new: "brk m \<notin> set ps" "cells m (brk m) = None" using fresh_addr [OF ok] by auto
  have t: "cells m t = Some \<lparr>e_next = None, e_prev = lastp None qs, e_data = data_of (cells m) t\<rparr>"
    using ok snoc llist_cell [of "cells m" None qs t "[]" None] by (simp add: llist_ok_def)
  let ?c = "(cells m)(brk m \<mapsto> \<lparr>e_next = None, e_prev = Some t, e_data = x\<rparr>,
    t \<mapsto> \<lparr>e_next = Some (brk m), e_prev = lastp None qs, e_data = data_of (cells m) t\<rparr>)"
  let ?m = "m\<lparr>cells := ?c, brk := Suc (brk m)\<rparr>"
  let ?l = "l\<lparr>l_tail := Some (brk m), l_count := l_count l + 1\<rparr>"
  have ne: "t \<noteq> brk m" "t \<notin> set qs" using ok snoc new by (auto simp: llist_ok_def)
  have "zend_llist_add_element x l m = Inr (?l, ?m)"
    using ok snoc t ne by (simp add: zend_llist_add_element_def llist_ok_def pemalloc_def)
  moreover have "llist_ok ?l ?m (ps @ [brk m])"
    using ok snoc t ne new
    by (auto simp: llist_ok_def dlseg_append heap_ok_def less_Suc_eq)
  moreover have "contents ?m (ps @ [brk m]) = contents m ps @ [x]"
    using snoc ne new by (auto simp: contents_def)
  moreover have "untouched (set ps) m ?m" using snoc new by (auto simp: untouched_def)
  ultimately show thesis by (intro that [of ?l ?m]) simp_all
qed

lemma prepend_element_ok:
  assumes ok: "llist_ok l m ps"
  obtains l' m' where "zend_llist_prepend_element x l m = Inr (l', m')" "llist_ok l' m' (brk m # ps)"
    "contents m' (brk m # ps) = x # contents m ps" "untouched (set ps) m m'"
    "l_dtor l' = l_dtor l"
proof (cases ps)
  case Nil
  let ?m = "m\<lparr>cells := (cells m)(brk m \<mapsto> \<lparr>e_next = None, e_prev = None, e_data = x\<rparr>), brk := Suc (brk m)\<rparr>"
  let ?l = "l\<lparr>l_tail := Some (brk m), l_head := Some (brk m), l_count := 1\<rparr>"
  have "zend_llist_prepend_element x l m = Inr (?l, ?m)"
    using ok Nil by (simp add: zend_llist_prepend_element_def llist_ok_def pemalloc_def)
  moreover have "llist_ok ?l ?m [brk m]" "untouched (set ps) m ?m"
    using ok fresh_addr [OF ok] by (auto simp: llist_ok_def heap_ok_def untouched_def less_Suc_eq)
  ultimately show thesis using Nil by (intro that [of ?l ?m]) simp_all
next
  case (Cons h qs)
  have new: "brk m \<notin> set ps" "cells m (brk m) = None" using fresh_addr [OF ok] by auto
  have h: "cells m h = Some \<lparr>e_next = firstp None qs, e_prev = None, e_data = data_of (cells m) h\<rparr>"
    using ok Cons llist_cell [of "cells m" None "[]" h qs None] by (simp add: llist_ok_def)
  let ?c = "(cells m)(brk m \<mapsto> \<lparr>e_next = Some h, e_prev = None, e_data = x\<rparr>,
    h \<mapsto> \<lparr>e_next = firstp None qs, e_prev = Some (brk m), e_data = data_of (cells m) h\<rparr>)"
  let ?m = "m\<lparr>cells := ?c, brk := Suc (brk m)\<rparr>"
  let ?l = "l\<lparr>l_head := Some (brk m), l_count := l_count l + 1\<rparr>"
  have ne: "h \<noteq> brk m" "h \<notin> set qs" using ok Cons new by (auto simp: llist_ok_def)
  have "zend_llist_prepend_element x l m = Inr (?l, ?m)"
    using ok Cons h ne by (simp add: zend_llist_prepend_element_def llist_ok_def pemalloc_def)
  moreover have "llist_ok ?l ?m (brk m # ps)"
    using ok Cons h ne new by (auto simp: llist_ok_def heap_ok_def less_Suc_eq)
  moreover have "contents ?m (brk m # ps) = x # contents m ps"
    using Cons ne new by (auto simp: contents_def)
  moreover have "untouched (set ps) m ?m" using Cons new by (auto simp: untouched_def)
  ultimately show thesis by (intro that [of ?l ?m]) simp_all
qed

subsection \<open>Deleting\<close>

text \<open>\<open>DEL_LLIST_ELEMENT\<close> on an element anywhere on the list.\<close>

lemma del_llist_element_ok:
  assumes ok: "llist_ok l m (ps @ p # qs)"
  obtains l' m' where "del_llist_element p l m w = Inr (l', m', run_dtor l (data_of (cells m) p) w)"
    "llist_ok l' m' (ps @ qs)" "contents m' (ps @ qs) = contents m ps @ contents m qs"
    "inside (set (ps @ p # qs)) m m'" "cells m' p = None"
    "l_dtor l' = l_dtor l"
proof -
  let ?c = "cells m"
  have d: "distinct (ps @ p # qs)" and seg: "dlseg ?c None (ps @ p # qs) None" and h: "heap_ok m"
    using ok by (auto simp: llist_ok_def)
  have p: "?c p = Some \<lparr>e_next = firstp None qs, e_prev = lastp None ps, e_data = data_of ?c p\<rparr>"
    by (rule llist_cell [OF seg])
  obtain l1 c1 where s1: "(case lastp None ps of
        Some p' \<Rightarrow> bindE (upd_elem p' (e_next_update (\<lambda>_. firstp None qs)) m) (\<lambda>m. Inr (l, m))
      | None \<Rightarrow> Inr (l\<lparr>l_head := firstp None qs\<rparr>, m)) = Inr (l1, m\<lparr>cells := c1\<rparr>)"
    "dlseg c1 None ps (firstp None qs)" "\<forall>q. q \<notin> set ps \<longrightarrow> c1 q = ?c q"
    "\<forall>q. data_of c1 q = data_of ?c q" "dom c1 = dom ?c" "l_head l1 = firstp None (ps @ qs)"
    "l_tail l1 = l_tail l" "l_count l1 = l_count l" "l_dtor l1 = l_dtor l"
  proof (cases ps rule: rev_cases)
    case Nil
    then show thesis by (intro that [of "l\<lparr>l_head := firstp None qs\<rparr>" ?c]) simp_all
  next
    case (snoc rs r)
    have r: "?c r = Some \<lparr>e_next = Some p, e_prev = lastp None rs, e_data = data_of ?c r\<rparr>"
      using llist_cell [of ?c None rs r "p # qs" None] seg snoc by simp
    let ?c1 = "?c(r \<mapsto> \<lparr>e_next = firstp None qs, e_prev = lastp None rs, e_data = data_of ?c r\<rparr>)"
    have "r \<notin> set rs" using d snoc by auto
    then have "dlseg ?c1 None ps (firstp None qs)"
      using seg snoc by (auto simp: dlseg_append)
    moreover have "upd_elem r (e_next_update (\<lambda>_. firstp None qs)) m = Inr (m\<lparr>cells := ?c1\<rparr>)"
      using r by simp
    moreover have "dom ?c1 = dom ?c" using r by auto
    moreover have "l_head l = firstp None (ps @ qs)" using ok snoc by (simp add: llist_ok_def)
    moreover have "lastp None ps = Some r" "r \<in> set ps" using snoc by simp_all
    ultimately show thesis by (intro that [of l ?c1]) auto
  qed
  have p1: "c1 p = ?c p" using s1(3) d by auto
  obtain l2 c2 where s2: "(case firstp None qs of
        Some q' \<Rightarrow> bindE (upd_elem q' (e_prev_update (\<lambda>_. lastp None ps)) (m\<lparr>cells := c1\<rparr>)) (\<lambda>m. Inr (l1, m))
      | None \<Rightarrow> Inr (l1\<lparr>l_tail := lastp None ps\<rparr>, m\<lparr>cells := c1\<rparr>)) = Inr (l2, m\<lparr>cells := c2\<rparr>)"
    "dlseg c2 (lastp None ps) qs None" "\<forall>q. q \<notin> set qs \<longrightarrow> c2 q = c1 q"
    "\<forall>q. data_of c2 q = data_of c1 q" "dom c2 = dom c1" "l_tail l2 = lastp None (ps @ qs)"
    "l_head l2 = l_head l1" "l_count l2 = l_count l1" "l_dtor l2 = l_dtor l1"
  proof (cases qs)
    case Nil
    then show thesis by (intro that [of "l1\<lparr>l_tail := lastp None ps\<rparr>" c1]) simp_all
  next
    case (Cons r rs)
    have "?c r = Some \<lparr>e_next = firstp None rs, e_prev = Some p, e_data = data_of ?c r\<rparr>"
      using llist_cell [of ?c None "ps @ [p]" r rs None] seg Cons by simp
    moreover have rn: "r \<notin> set ps" "r \<notin> set rs" using d Cons by auto
    ultimately have r: "c1 r = Some \<lparr>e_next = firstp None rs, e_prev = Some p, e_data = data_of ?c r\<rparr>"
      using s1(3) by auto
    let ?c2 = "c1(r \<mapsto> \<lparr>e_next = firstp None rs, e_prev = lastp None ps, e_data = data_of ?c r\<rparr>)"
    have "dlseg c1 (Some r) rs None = dlseg ?c (Some r) rs None"
      using s1(3) d Cons by (intro dlseg_frame) auto
    then have "dlseg ?c2 (lastp None ps) qs None"
      using seg Cons rn by (auto simp: dlseg_append)
    moreover have "upd_elem r (e_prev_update (\<lambda>_. lastp None ps)) (m\<lparr>cells := c1\<rparr>) = Inr (m\<lparr>cells := ?c2\<rparr>)"
      using r by simp
    moreover have "dom ?c2 = dom c1" using r by auto
    moreover have "l_tail l1 = lastp None (ps @ qs)" using ok Cons s1(7) by (simp add: llist_ok_def)
    moreover have "firstp None qs = Some r" "r \<in> set qs" "data_of c1 r = data_of ?c r"
      using Cons s1(4) by simp_all
    ultimately show thesis by (intro that [of l1 ?c2]) auto
  qed
  have p2: "c2 p = ?c p" using s2(3) p1 d by auto
  let ?m = "m\<lparr>cells := c2(p := None)\<rparr>" and ?l = "l2\<lparr>l_count := l_count l2 - 1\<rparr>"
  have "del_llist_element p l m w = Inr (?l, ?m, run_dtor l (data_of ?c p) w)"
  proof -
    let ?e = "\<lparr>e_next = firstp None qs, e_prev = lastp None ps, e_data = data_of ?c p\<rparr>"
    have e: "elem_at m p = Inr ?e" "elem_at (m\<lparr>cells := c1\<rparr>) p = Inr ?e"
        "elem_at (m\<lparr>cells := c2\<rparr>) p = Inr ?e" "pefree p (m\<lparr>cells := c2\<rparr>) = Inr ?m"
      using p p1 p2 by simp_all
    show ?thesis
      unfolding del_llist_element_def e bindE_Inr zend_llist_element.select_convs s1(1) s2(1) prod.case
        Let_def using s1(9) s2(9) by (simp add: run_dtor_def)
  qed
  moreover have "dlseg (c2(p := None)) None (ps @ qs) None"
  proof -
    have "dlseg c2 None ps (firstp None qs) = dlseg c1 None ps (firstp None qs)"
      using s2(3) d by (intro dlseg_frame) auto
    then show ?thesis using s1(2) s2(2) d by (simp add: dlseg_append)
  qed
  then have "llist_ok ?l ?m (ps @ qs)"
    using ok s1 s2 d by (auto simp: llist_ok_def heap_ok_def)
  moreover have "contents ?m (ps @ qs) = contents m ps @ contents m qs"
    using d s1(4) s2(4) by (auto simp: contents_def data_of_def)
  moreover have "inside (set (ps @ p # qs)) m ?m" using s1(3) s2(3) by (auto simp: inside_def)
  ultimately show thesis using s1(9) s2(9) by (intro that [of ?l ?m]) simp_all
qed

text \<open>What an operation that only deletes leaves: fewer of the same elements.\<close>

definition shrinks ::
  "('a, 's) zend_llist \<Rightarrow> 'a llist_store \<Rightarrow> nat list \<Rightarrow> ('a, 's) zend_llist \<Rightarrow> 'a llist_store \<Rightarrow> nat list \<Rightarrow> bool"
  where
  "shrinks l m ps l' m' ps' \<longleftrightarrow>
     llist_ok l' m' ps' \<and> set ps' \<subseteq> set ps \<and> inside (set ps) m m' \<and> l_dtor l' = l_dtor l \<and>
     (\<forall>p \<in> set ps - set ps'. cells m' p = None)"

lemma del_llist_element_shrinks:
  assumes ok: "llist_ok l m (ps @ p # qs)"
  obtains l' m' where "del_llist_element p l m w = Inr (l', m', run_dtor l (data_of (cells m) p) w)"
    "contents m' ps = contents m ps" "contents m' qs = contents m qs"
    "shrinks l m (ps @ p # qs) l' m' (ps @ qs)"
proof -
  obtain l' m' where *: "del_llist_element p l m w = Inr (l', m', run_dtor l (data_of (cells m) p) w)"
    "llist_ok l' m' (ps @ qs)" "contents m' (ps @ qs) = contents m ps @ contents m qs"
    "inside (set (ps @ p # qs)) m m'" "cells m' p = None" "l_dtor l' = l_dtor l"
    by (rule del_llist_element_ok [OF ok])
  from *(3) have "contents m' ps = contents m ps" "contents m' qs = contents m qs"
    by (simp_all add: contents_def)
  with * show thesis by (intro that [of l' m']) (auto simp: shrinks_def)
qed

primrec remove_first :: "('a \<Rightarrow> bool) \<Rightarrow> 'a list \<Rightarrow> 'a list" where
  "remove_first P [] = []"
| "remove_first P (x # xs) = (if P x then xs else x # remove_first P xs)"

text \<open>\<open>zend_llist_del_element\<close> deletes the first element that compares equal, if any.\<close>

lemma del_element_loop_ok:
  "llist_ok l m (ps @ qs) \<Longrightarrow> length qs \<le> n \<Longrightarrow>
     \<exists>l' m' ps'. del_element_loop n compare y (firstp None qs) l m w =
         Inr (l', m', case List.find (\<lambda>x. compare x y) (contents m qs) of
                        Some x \<Rightarrow> run_dtor l x w | None \<Rightarrow> w) \<and>
       shrinks l m (ps @ qs) l' m' ps' \<and>
       contents m' ps' = contents m ps @ remove_first (\<lambda>x. compare x y) (contents m qs)"
proof (induction qs arbitrary: n ps)
  case Nil
  then show ?case by (auto simp: shrinks_def)
next
  case (Cons q qs)
  then obtain k where n: "n = Suc k" "length qs \<le> k" by (cases n) auto
  have q: "cells m q = Some \<lparr>e_next = firstp None qs, e_prev = lastp None ps, e_data = data_of (cells m) q\<rparr>"
    using Cons.prems(1) by (auto simp: llist_ok_def intro: llist_cell)
  show ?case
  proof (cases "compare (data_of (cells m) q) y")
    case True
    obtain l' m' where "del_llist_element q l m w = Inr (l', m', run_dtor l (data_of (cells m) q) w)"
        "contents m' ps = contents m ps" "contents m' qs = contents m qs"
        "shrinks l m (ps @ q # qs) l' m' (ps @ qs)"
      by (rule del_llist_element_shrinks [OF Cons.prems(1)])
    with True q n show ?thesis
      by (intro exI [of _ l'] exI [of _ m'] exI [of _ "ps @ qs"]) simp
  next
    case False
    from Cons.IH [of "ps @ [q]" k] Cons.prems(1) n(2) False q n(1) show ?thesis by simp
  qed
qed

lemma del_element_ok:
  assumes "llist_ok l m ps"
  obtains l' m' ps' where "zend_llist_del_element y compare l m w =
         Inr (l', m', case List.find (\<lambda>x. compare x y) (contents m ps) of
                        Some x \<Rightarrow> run_dtor l x w | None \<Rightarrow> w)"
    "shrinks l m ps l' m' ps'"
    "contents m' ps' = remove_first (\<lambda>x. compare x y) (contents m ps)"
  using del_element_loop_ok [of l m "[]" ps "brk m" compare y w] assms length_le_brk [OF assms] that
  by (auto simp: zend_llist_del_element_def llist_ok_def)

text \<open>\<open>zend_llist_destroy\<close> runs the destructor on every element, in order, and frees them.\<close>

lemma llist_destroy_loop_ok:
  "dlseg (cells m) pr qs None \<Longrightarrow> distinct qs \<Longrightarrow> length qs \<le> n \<Longrightarrow>
     \<exists>c. llist_destroy_loop n l (firstp None qs) m w =
         Inr (m\<lparr>cells := c\<rparr>, fold (run_dtor l) (contents m qs) w) \<and>
       (\<forall>p. c p = (if p \<in> set qs then None else cells m p))"
proof (induction qs arbitrary: n m pr w)
  case Nil
  then show ?case by (intro exI [of _ "cells m"]) simp
next
  case (Cons q qs)
  then obtain k where n: "n = Suc k" "length qs \<le> k" by (cases n) auto
  obtain x where q: "cells m q = Some \<lparr>e_next = firstp None qs, e_prev = pr, e_data = x\<rparr>"
      "data_of (cells m) q = x"
    using Cons.prems(1) by (auto simp: data_of_def)
  let ?m = "m\<lparr>cells := (cells m)(q := None)\<rparr>"
  have "dlseg (cells ?m) (Some q) qs None" using Cons.prems(1,2) by simp
  from Cons.IH [OF this _ n(2), of "run_dtor l x w"] Cons.prems(2)
  obtain c where c: "llist_destroy_loop k l (firstp None qs) ?m (run_dtor l x w) =
      Inr (?m\<lparr>cells := c\<rparr>, fold (run_dtor l) (contents ?m qs) (run_dtor l x w))"
      "\<forall>p. c p = (if p \<in> set qs then None else cells ?m p)" by auto
  have "llist_destroy_loop n l (firstp None (q # qs)) m w =
      Inr (m\<lparr>cells := c\<rparr>, fold (run_dtor l) (contents m (q # qs)) w)"
    using c(1) q n Cons.prems(2) by simp
  moreover have "\<forall>p. c p = (if p \<in> set (q # qs) then None else cells m p)" using c(2) by simp
  ultimately show ?case by blast
qed

lemma destroy_ok:
  assumes ok: "llist_ok l m ps"
  obtains l' m' where "zend_llist_destroy l m w = Inr (l', m', fold (run_dtor l) (contents m ps) w)"
    "shrinks l m ps l' m' []"
proof -
  from ok have d: "dlseg (cells m) None ps None" "distinct ps" by (auto simp: llist_ok_def)
  from llist_destroy_loop_ok [OF d length_le_brk [OF ok], of l w]
  obtain c where c: "llist_destroy_loop (brk m) l (firstp None ps) m w =
      Inr (m\<lparr>cells := c\<rparr>, fold (run_dtor l) (contents m ps) w)"
      "\<forall>p. c p = (if p \<in> set ps then None else cells m p)" by auto
  let ?l = "l\<lparr>l_head := None, l_tail := None, l_count := 0\<rparr>"
  have "zend_llist_destroy l m w = Inr (?l, m\<lparr>cells := c\<rparr>, fold (run_dtor l) (contents m ps) w)"
    using ok c(1) by (simp add: zend_llist_destroy_def llist_ok_def)
  moreover have "heap_ok (m\<lparr>cells := c\<rparr>)"
  proof -
    have "dom c \<subseteq> dom (cells m)" using c(2) by (auto simp: dom_def)
    then show ?thesis using ok by (auto simp: llist_ok_def heap_ok_def)
  qed
  then have "shrinks l m ps ?l (m\<lparr>cells := c\<rparr>) []"
    using c(2) by (auto simp: shrinks_def llist_ok_def inside_def)
  ultimately show thesis by (rule that)
qed

text \<open>\<open>zend_llist_remove_tail\<close>: nothing on an empty list, else the last element goes.\<close>

lemma remove_tail_empty: "llist_ok l m [] \<Longrightarrow> zend_llist_remove_tail l m w = Inr (l, m, w)"
  by (simp add: zend_llist_remove_tail_def llist_ok_def)

lemma remove_tail_ok:
  assumes ok: "llist_ok l m (ps @ [p])"
  obtains l' m' where "zend_llist_remove_tail l m w = Inr (l', m', run_dtor l (data_of (cells m) p) w)"
    "contents m' ps = contents m ps" "shrinks l m (ps @ [p]) l' m' ps"
proof -
  let ?c = "cells m"
  have p: "?c p = Some \<lparr>e_next = None, e_prev = lastp None ps, e_data = data_of ?c p\<rparr>"
    using ok llist_cell [of ?c None ps p "[]" None] by (simp add: llist_ok_def)
  have t: "l_tail l = Some p" using ok by (simp add: llist_ok_def)
  obtain l1 c1 where s1: "(case lastp None ps of
        Some p' \<Rightarrow> bindE (upd_elem p' (e_next_update (\<lambda>_. None)) m) (\<lambda>m. Inr (l, m))
      | None \<Rightarrow> Inr (l\<lparr>l_head := None\<rparr>, m)) = Inr (l1, m\<lparr>cells := c1\<rparr>)"
    "dlseg c1 None ps None" "\<forall>q. q \<notin> set ps \<longrightarrow> c1 q = ?c q" "\<forall>q. data_of c1 q = data_of ?c q"
    "dom c1 = dom ?c" "l_head l1 = firstp None ps" "l_count l1 = l_count l" "l_dtor l1 = l_dtor l"
  proof (cases ps rule: rev_cases)
    case Nil
    then show thesis by (intro that [of "l\<lparr>l_head := None\<rparr>" ?c]) simp_all
  next
    case (snoc rs r)
    have r: "?c r = Some \<lparr>e_next = Some p, e_prev = lastp None rs, e_data = data_of ?c r\<rparr>"
      using llist_cell [of ?c None rs r "[p]" None] ok snoc by (simp add: llist_ok_def)
    let ?c1 = "?c(r \<mapsto> \<lparr>e_next = None, e_prev = lastp None rs, e_data = data_of ?c r\<rparr>)"
    have "dlseg ?c1 None ps None"
      using ok snoc by (auto simp: dlseg_append llist_ok_def)
    moreover have "upd_elem r (e_next_update (\<lambda>_. None)) m = Inr (m\<lparr>cells := ?c1\<rparr>)"
      using r by simp
    moreover have "dom ?c1 = dom ?c" using r by auto
    moreover have "l_head l = firstp None ps" using ok snoc by (simp add: llist_ok_def)
    moreover have "lastp None ps = Some r" "r \<in> set ps" using snoc by simp_all
    ultimately show thesis by (intro that [of l ?c1]) auto
  qed
  have p1: "c1 p = ?c p" using s1(3) ok by (auto simp: llist_ok_def)
  let ?e = "\<lparr>e_next = None, e_prev = lastp None ps, e_data = data_of ?c p\<rparr>"
  let ?m = "m\<lparr>cells := c1(p := None)\<rparr>"
    and ?l = "l1\<lparr>l_tail := lastp None ps, l_count := l_count l1 - 1\<rparr>"
  have e: "elem_at m p = Inr ?e" "elem_at (m\<lparr>cells := c1\<rparr>) p = Inr ?e" "pefree p (m\<lparr>cells := c1\<rparr>) = Inr ?m"
    using p p1 by simp_all
  have "zend_llist_remove_tail l m w = Inr (?l, ?m, run_dtor l (data_of ?c p) w)"
    unfolding zend_llist_remove_tail_def t option.case e bindE_Inr zend_llist_element.select_convs s1(1)
      prod.case Let_def using s1(8) by (simp add: e(3) run_dtor_def)
  moreover have "llist_ok ?l ?m ps"
    using ok s1 by (auto simp: llist_ok_def heap_ok_def)
  then have "shrinks l m (ps @ [p]) ?l ?m ps"
    using s1(3,8) by (auto simp: shrinks_def inside_def)
  moreover have "contents ?m ps = contents m ps"
    using ok s1(4) by (auto simp: contents_def data_of_def llist_ok_def)
  ultimately show thesis by (intro that [of ?l ?m])
qed

subsection \<open>Copying\<close>

lemma add_beside:
  assumes "llist_ok dst m ds" "llist_ok src m ps" "set ds \<inter> set ps = {}"
  obtains dst' m' where "zend_llist_add_element x dst m = Inr (dst', m')"
    "llist_ok dst' m' (ds @ [brk m])" "contents m' (ds @ [brk m]) = contents m ds @ [x]"
    "llist_ok src m' ps" "contents m' ps = contents m ps" "brk m \<notin> set ps"
    "untouched (set ds) m m'" "l_dtor dst' = l_dtor dst"
proof -
  obtain dst' m' where *: "zend_llist_add_element x dst m = Inr (dst', m')"
    "llist_ok dst' m' (ds @ [brk m])" "contents m' (ds @ [brk m]) = contents m ds @ [x]"
    "untouched (set ds) m m'" "l_dtor dst' = l_dtor dst"
    by (rule add_element_ok [OF assms(1)])
  have "heap_ok m'" using *(2) by (simp add: llist_ok_def)
  with llist_ok_other [OF assms(2) *(4)] assms(3) have "llist_ok src m' ps" "contents m' ps = contents m ps"
    by (auto simp: Int_commute)
  with * fresh_addr [OF assms(2)] show thesis by (intro that [of dst' m']) auto
qed

lemma untouched_add:
  assumes "untouched A m m1" "cells m p = None" "untouched (set (ds @ [p])) m1 m2" "A = set ds"
  shows "untouched A m m2"
proof -
  have "cells m2 q = cells m q" if "q \<in> dom (cells m)" "q \<notin> A" for q
  proof -
    have "cells m1 q = cells m q" "q \<noteq> p" using assms(1,2) that by (auto simp: untouched_def)
    moreover from this have "cells m2 q = cells m1 q"
      using assms(3,4) that by (auto simp: untouched_def dom_def)
    ultimately show ?thesis by simp
  qed
  then show ?thesis using assms(1,3) by (auto simp: untouched_def)
qed

lemma copy_loop_ok:
  "llist_ok src m (ps @ qs) \<Longrightarrow> llist_ok dst m ds \<Longrightarrow> set ds \<inter> set (ps @ qs) = {} \<Longrightarrow> length qs \<le> n \<Longrightarrow>
     \<exists>dst' m' ds'. copy_loop n (firstp None qs) dst m = Inr (dst', m') \<and> llist_ok dst' m' ds' \<and>
       contents m' ds' = contents m ds @ contents m qs \<and> set ds' \<inter> set (ps @ qs) = {} \<and>
       llist_ok src m' (ps @ qs) \<and> contents m' (ps @ qs) = contents m (ps @ qs) \<and>
       untouched (set ds) m m' \<and> l_dtor dst' = l_dtor dst"
proof (induction qs arbitrary: ps dst m ds n)
  case Nil
  then show ?case by auto
next
  case (Cons q qs)
  then obtain k where n: "n = Suc k" "length qs \<le> k" by (cases n) auto
  have q: "cells m q = Some \<lparr>e_next = firstp None qs, e_prev = lastp None ps, e_data = data_of (cells m) q\<rparr>"
    using Cons.prems(1) by (auto simp: llist_ok_def intro: llist_cell)
  let ?x = "data_of (cells m) q"
  obtain dst1 m1 where s1: "zend_llist_add_element ?x dst m = Inr (dst1, m1)"
    "llist_ok dst1 m1 (ds @ [brk m])" "contents m1 (ds @ [brk m]) = contents m ds @ [?x]"
    "llist_ok src m1 (ps @ q # qs)" "contents m1 (ps @ q # qs) = contents m (ps @ q # qs)"
    "brk m \<notin> set (ps @ q # qs)" "untouched (set ds) m m1" "l_dtor dst1 = l_dtor dst"
    by (rule add_beside [OF Cons.prems(2,1,3)])
  have q1: "cells m1 q = cells m q"
    using s1(7) q Cons.prems(3) by (auto simp: untouched_def)
  have "set (ds @ [brk m]) \<inter> set ((ps @ [q]) @ qs) = {}" using Cons.prems(3) s1(6) by auto
  with Cons.IH [of m1 "ps @ [q]" dst1 "ds @ [brk m]" k] s1(2,4) n(2)
  obtain dst' m' ds' where s2: "copy_loop k (firstp None qs) dst1 m1 = Inr (dst', m')"
    "llist_ok dst' m' ds'" "contents m' ds' = contents m1 (ds @ [brk m]) @ contents m1 qs"
    "set ds' \<inter> set (ps @ q # qs) = {}" "llist_ok src m' (ps @ q # qs)"
    "contents m' (ps @ q # qs) = contents m1 (ps @ q # qs)" "untouched (set (ds @ [brk m])) m1 m'"
    "l_dtor dst' = l_dtor dst1"
    by auto
  have "copy_loop n (firstp None (q # qs)) dst m = Inr (dst', m')"
    using q q1 s1(1) s2(1) n(1) by simp
  moreover have "contents m1 qs = contents m qs" using s1(5) by (simp add: contents_def)
  then have "contents m' ds' = contents m ds @ contents m (q # qs)" unfolding s2(3) s1(3) by simp
  moreover have "cells m (brk m) = None" using fresh_addr [OF Cons.prems(1)] by simp
  then have "untouched (set ds) m m'" 
    using untouched_add [OF s1(7)] s2(7) by simp
  moreover note trans [OF s2(6) s1(5)] s2(8) [unfolded s1(8)]
  ultimately show ?case using s2(2,4,5) by blast
qed

lemma copy_ok:
  assumes "llist_ok src m ps"
  obtains dst m' ds where "zend_llist_copy old src m = Inr (dst, m')" "llist_ok dst m' ds"
    "contents m' ds = contents m ps" "set ds \<inter> set ps = {}" "llist_ok src m' ps"
    "contents m' ps = contents m ps" "untouched {} m m'" "l_dtor dst = l_dtor src"
proof -
  let ?dst = "zend_llist_init (l_size src) (l_dtor src) (l_persistent src) old"
  have "llist_ok ?dst m []" using assms by (simp add: llist_ok_def zend_llist_init_def)
  with copy_loop_ok [of src m "[]" ps ?dst "[]" "brk m"] assms length_le_brk [OF assms]
  obtain dst m' ds where "copy_loop (brk m) (firstp None ps) ?dst m = Inr (dst, m')" "llist_ok dst m' ds"
    "contents m' ds = contents m ps" "set ds \<inter> set ps = {}" "llist_ok src m' ps"
    "contents m' ps = contents m ps" "untouched {} m m'" "l_dtor dst = l_dtor ?dst"
    by auto
  moreover have "l_head src = firstp None ps" using assms by (simp add: llist_ok_def)
  ultimately show thesis using that by (simp add: zend_llist_copy_def zend_llist_init_def)
qed

subsection \<open>Applying\<close>

fun map_state :: "('a \<Rightarrow> 's \<Rightarrow> 'a \<times> 's) \<Rightarrow> 'a list \<Rightarrow> 's \<Rightarrow> 'a list \<times> 's" where
  "map_state f [] w = ([], w)"
| "map_state f (x # xs) w =
     (case f x w of (y, w) \<Rightarrow> case map_state f xs w of (ys, w) \<Rightarrow> (y # ys, w))"

text \<open>Writing the data of an element keeps the links.\<close>

lemma dlseg_data:
  "dlseg c pr ps nx \<Longrightarrow> c p = Some e \<Longrightarrow> dlseg (c(p \<mapsto> e\<lparr>e_data := x\<rparr>)) pr ps nx"
  by (induction ps arbitrary: pr) auto

lemma set_data_ok:
  assumes "llist_ok l m (ps @ p # qs)" "cells m p = Some e"
  shows "upd_elem p (e_data_update (\<lambda>_. x)) m = Inr (m\<lparr>cells := (cells m)(p \<mapsto> e\<lparr>e_data := x\<rparr>)\<rparr>)"
    "llist_ok l (m\<lparr>cells := (cells m)(p \<mapsto> e\<lparr>e_data := x\<rparr>)\<rparr>) (ps @ p # qs)"
    "contents (m\<lparr>cells := (cells m)(p \<mapsto> e\<lparr>e_data := x\<rparr>)\<rparr>) (ps @ p # qs) =
       contents m ps @ x # contents m qs"
    "inside (set (ps @ p # qs)) m (m\<lparr>cells := (cells m)(p \<mapsto> e\<lparr>e_data := x\<rparr>)\<rparr>)"
  using assms dlseg_data [of "cells m" None "ps @ p # qs" None p e x]
  by (auto simp: llist_ok_def heap_ok_def inside_def)

lemma llist_apply_loop_ok:
  "llist_ok l m (ps @ qs) \<Longrightarrow> length qs \<le> n \<Longrightarrow> map_state f (contents m qs) w = (ys, w') \<Longrightarrow>
     \<exists>m'. llist_apply_loop n f (firstp None qs) m w = Inr (m', w') \<and> llist_ok l m' (ps @ qs) \<and>
       contents m' (ps @ qs) = contents m ps @ ys \<and> inside (set (ps @ qs)) m m'"
proof (induction qs arbitrary: ps m n w ys)
  case Nil
  then show ?case by auto
next
  case (Cons q qs)
  then obtain k where n: "n = Suc k" "length qs \<le> k" by (cases n) auto
  let ?e = "\<lparr>e_next = firstp None qs, e_prev = lastp None ps, e_data = data_of (cells m) q\<rparr>"
  have q: "cells m q = Some ?e"
    using Cons.prems(1) by (auto simp: llist_ok_def intro: llist_cell)
  obtain x w1 zs where f: "f (data_of (cells m) q) w = (x, w1)" "map_state f (contents m qs) w1 = (zs, w')"
      "ys = x # zs"
    using Cons.prems(3) by (auto split: prod.splits)
  let ?m = "m\<lparr>cells := (cells m)(q \<mapsto> ?e\<lparr>e_data := x\<rparr>)\<rparr>"
  note u = set_data_ok [OF Cons.prems(1) q, of x]
  have "q \<notin> set ps" "q \<notin> set qs" using Cons.prems(1) by (auto simp: llist_ok_def)
  then have c: "contents ?m qs = contents m qs" "contents ?m (ps @ [q]) = contents m ps @ [x]" by simp_all
  with Cons.IH [of ?m "ps @ [q]" k w1 zs] u(2) n(2) f(2)
  obtain m' where s: "llist_apply_loop k f (firstp None qs) ?m w1 = Inr (m', w')" "llist_ok l m' (ps @ q # qs)"
      "contents m' (ps @ q # qs) = contents m ps @ x # zs" "inside (set (ps @ q # qs)) ?m m'"
    by auto
  have "llist_apply_loop n f (firstp None (q # qs)) m w = Inr (m', w')"
    using q u(1) f(1) s(1) n(1) by simp
  then show ?case using s(2,3) f(3) inside_trans [OF u(4) s(4)] by blast
qed

lemma apply_ok:
  assumes "llist_ok l m ps"
  obtains m' where "llist_apply_loop (brk m) f (l_head l) m w = Inr (m', snd (map_state f (contents m ps) w))"
    "llist_ok l m' ps" "contents m' ps = fst (map_state f (contents m ps) w)" "inside (set ps) m m'"
  using llist_apply_loop_ok [of l m "[]" ps "brk m" f w, OF _ _ prod.collapse [symmetric]] assms
    length_le_brk [OF assms] that
  by (auto simp: llist_ok_def)

text \<open>\<open>zend_llist_apply_with_del\<close>: the elements for which the callback asks for it go.\<close>

fun sweep_list ::
  "('a \<Rightarrow> 's \<Rightarrow> 's) \<Rightarrow> ('a \<Rightarrow> 's \<Rightarrow> bool \<times> 'a \<times> 's) \<Rightarrow> 'a list \<Rightarrow> 's \<Rightarrow> 'a list \<times> 's" where
  "sweep_list d f [] w = ([], w)"
| "sweep_list d f (x # xs) w =
     (case f x w of (del, y, w) \<Rightarrow>
        if del then sweep_list d f xs (d y w)
        else (case sweep_list d f xs w of (ys, w) \<Rightarrow> (y # ys, w)))"

lemma run_dtor_cong: "l_dtor l' = l_dtor l \<Longrightarrow> run_dtor l' = run_dtor l"
  by (simp add: run_dtor_def fun_eq_iff)

lemma shrinks_trans:
  "shrinks l m ps l1 m1 qs \<Longrightarrow> shrinks l1 m1 qs l2 m2 rs \<Longrightarrow> shrinks l m ps l2 m2 rs"
  by (auto simp: shrinks_def inside_def) (metis Diff_iff subsetD)

lemma apply_del_loop_ok:
  "llist_ok l m (ps @ qs) \<Longrightarrow> length qs \<le> n \<Longrightarrow>
     sweep_list (run_dtor l) f (contents m qs) w = (ys, w') \<Longrightarrow>
     \<exists>l' m' rs. apply_del_loop n f (firstp None qs) l m w = Inr (l', m', w') \<and>
       shrinks l m (ps @ qs) l' m' rs \<and> contents m' rs = contents m ps @ ys"
proof (induction qs arbitrary: ps l m n w ys)
  case Nil
  then show ?case by (auto simp: shrinks_def)
next
  case (Cons q qs)
  then obtain k where n: "n = Suc k" "length qs \<le> k" by (cases n) auto
  let ?e = "\<lparr>e_next = firstp None qs, e_prev = lastp None ps, e_data = data_of (cells m) q\<rparr>"
  have q: "cells m q = Some ?e"
    using Cons.prems(1) by (auto simp: llist_ok_def intro: llist_cell)
  obtain del x w1 where f: "f (data_of (cells m) q) w = (del, x, w1)" by (cases "f (data_of (cells m) q) w")
  let ?m = "m\<lparr>cells := (cells m)(q \<mapsto> ?e\<lparr>e_data := x\<rparr>)\<rparr>"
  note u = set_data_ok [OF Cons.prems(1) q, of x]
  have "q \<notin> set ps" "q \<notin> set qs" using Cons.prems(1) by (auto simp: llist_ok_def)
  then have c: "contents ?m ps = contents m ps" "contents ?m qs = contents m qs"
      "contents ?m (ps @ [q]) = contents m ps @ [x]" by simp_all
  have um: "shrinks l m (ps @ q # qs) l ?m (ps @ q # qs)" using u by (simp add: shrinks_def)
  show ?case
  proof (cases del)
    case True
    then have z: "sweep_list (run_dtor l) f (contents m qs) (run_dtor l x w1) = (ys, w')"
      using Cons.prems(3) f by simp
    obtain l1 m1 where d: "del_llist_element q l ?m w1 = Inr (l1, m1, run_dtor l x w1)"
        "contents m1 ps = contents ?m ps" "contents m1 qs = contents ?m qs"
        "shrinks l ?m (ps @ q # qs) l1 m1 (ps @ qs)"
      by (rule del_llist_element_shrinks [OF u(2), of w1]) auto
    have "llist_ok l1 m1 (ps @ qs)" "run_dtor l1 = run_dtor l"
      using d(4) by (auto simp: shrinks_def intro: run_dtor_cong)
    with Cons.IH [of l1 m1 ps k "run_dtor l x w1" ys] n(2) z d(2,3) c
    obtain l' m' rs where s: "apply_del_loop k f (firstp None qs) l1 m1 (run_dtor l x w1) = Inr (l', m', w')"
        "shrinks l1 m1 (ps @ qs) l' m' rs" "contents m' rs = contents m ps @ ys"
      by auto
    have "apply_del_loop n f (firstp None (q # qs)) l m w = Inr (l', m', w')"
      using q u(1) f True d(1) s(1) n(1) by simp
    then show ?thesis using s(3) shrinks_trans [OF shrinks_trans [OF um d(4)] s(2)] by blast
  next
    case False
    then obtain zs where z: "sweep_list (run_dtor l) f (contents m qs) w1 = (zs, w')" "ys = x # zs"
      using Cons.prems(3) f by (auto split: prod.splits)
    with Cons.IH [of l ?m "ps @ [q]" k w1 zs] u(2) n(2) c
    obtain l' m' rs where s: "apply_del_loop k f (firstp None qs) l ?m w1 = Inr (l', m', w')"
        "shrinks l ?m (ps @ q # qs) l' m' rs" "contents m' rs = contents m ps @ x # zs"
      by auto
    have "apply_del_loop n f (firstp None (q # qs)) l m w = Inr (l', m', w')"
      using q u(1) f False s(1) n(1) by simp
    then show ?thesis using s(3) z(2) shrinks_trans [OF um s(2)] by blast
  qed
qed

lemma apply_with_del_ok:
  assumes "llist_ok l m ps"
  obtains l' m' rs where "zend_llist_apply_with_del l f m w =
      Inr (l', m', snd (sweep_list (run_dtor l) f (contents m ps) w))"
    "shrinks l m ps l' m' rs" "contents m' rs = fst (sweep_list (run_dtor l) f (contents m ps) w)"
  using apply_del_loop_ok [of l m "[]" ps "brk m" f w, OF _ _ prod.collapse [symmetric]] assms
    length_le_brk [OF assms] that
  by (auto simp: llist_ok_def zend_llist_apply_with_del_def)

end
