(* ===== verification/ZendLlistSort.thy ===== *)
theory ZendLlistSort
  imports ZendLlistSpec
begin

text \<open>
  Sorting a linked list, which rests on the contract of \<open>zend_sort\<close>, and walking one
  in either direction, as instances of one contract of a cursor.
\<close>

subsection \<open>Linking the elements in a new order\<close>

lemma gather_ok:
  "dlseg (cells m) pr ps None \<Longrightarrow> length ps \<le> n \<Longrightarrow> gather n (firstp None ps) m = Inr ps"
proof (induction ps arbitrary: n pr)
  case Nil
  then show ?case by (cases n) simp_all
next
  case (Cons p ps)
  then obtain k where n: "n = Suc k" "length ps \<le> k" by (cases n) auto
  from Cons.prems(1) have "dlseg (cells m) (Some p) ps None" by simp
  from Cons.IH [OF this n(2)] Cons.prems(1) n(1) show ?case by auto
qed

text \<open>What relinking keeps: the data of every cell, and the cells of other lists.\<close>

definition relinked :: "nat set \<Rightarrow> 'a llist_store \<Rightarrow> 'a llist_store \<Rightarrow> bool" where
  "relinked A m m' \<longleftrightarrow>
     inside A m m' \<and> dom (cells m') = dom (cells m) \<and> (\<forall>q. data_of (cells m') q = data_of (cells m) q)"

lemma relinked_trans: "relinked A m m1 \<Longrightarrow> relinked B m1 m2 \<Longrightarrow> B \<subseteq> A \<Longrightarrow> relinked A m m2"
  by (auto simp: relinked_def inside_def)

lemma relinked_upd:
  assumes "cells m p = Some e" "e_data (f e) = e_data e" "p \<in> A"
  shows "relinked A m (m\<lparr>cells := (cells m)(p \<mapsto> f e)\<rparr>)"
  using assms by (auto simp: relinked_def inside_def data_of_def)

lemma relink_ok:
  "distinct (p # qs) \<Longrightarrow> set (p # qs) \<subseteq> dom (cells m) \<Longrightarrow> cells m p = Some e \<Longrightarrow>
     \<exists>m' e'. relink p qs m = Inr (last (p # qs), m') \<and> relinked (set (p # qs)) m m' \<and>
       cells m' (last (p # qs)) = Some e' \<and> dlseg (cells m') (e_prev e) (p # qs) (e_next e')"
proof (induction qs arbitrary: p m e)
  case Nil
  then show ?case
    by (intro exI [of _ m] exI [of _ e], cases e) (auto simp: relinked_def)
next
  case (Cons q qs)
  then obtain eq where eq: "cells m q = Some eq" by auto
  have ne: "p \<noteq> q" "p \<notin> set qs" "q \<notin> set qs" using Cons.prems(1) by auto
  let ?m1 = "m\<lparr>cells := (cells m)(q \<mapsto> eq\<lparr>e_prev := Some p\<rparr>)\<rparr>"
  let ?m2 = "?m1\<lparr>cells := (cells ?m1)(p \<mapsto> e\<lparr>e_next := Some q\<rparr>)\<rparr>"
  have "relinked (set (p # q # qs)) m ?m1"
    using relinked_upd [of m q eq "e_prev_update (\<lambda>_. Some p)"] eq by simp
  moreover have p1: "cells ?m1 p = Some e" using Cons.prems(3) ne by simp
  then have "relinked (set (p # q # qs)) ?m1 ?m2"
    using relinked_upd [of ?m1 p e "e_next_update (\<lambda>_. Some q)"] by simp
  ultimately have r2: "relinked (set (p # q # qs)) m ?m2" by (rule relinked_trans) simp
  have sub: "set (q # qs) \<subseteq> dom (cells ?m2)" using Cons.prems(2) by auto
  have q2: "cells ?m2 q = Some (eq\<lparr>e_prev := Some p\<rparr>)" using ne by simp
  have d2: "distinct (q # qs)" using Cons.prems(1) by simp
  have pr: "e_prev (eq\<lparr>e_prev := Some p\<rparr>) = Some p" by simp
  obtain m' e' where s: "relink q qs ?m2 = Inr (last (q # qs), m')"
      "relinked (set (q # qs)) ?m2 m'" "cells m' (last (q # qs)) = Some e'"
      "dlseg (cells m') (Some p) (q # qs) (e_next e')"
    using Cons.IH [OF d2 sub q2] unfolding pr by blast
  have "relink p (q # qs) m = Inr (last (p # q # qs), m')"
    using eq p1 s(1) by simp
  moreover have "relinked (set (p # q # qs)) m m'" by (rule relinked_trans [OF r2 s(2)]) auto
  moreover have "cells m' p = Some (e\<lparr>e_next := Some q\<rparr>)"
    using s(2) ne by (auto simp: relinked_def inside_def)
  then have "dlseg (cells m') (e_prev e) (p # q # qs) (e_next e')"
    using s(4) by (cases e) auto
  ultimately show ?case using s(3) by auto
qed

text \<open>The steps of \<open>zend_llist_sort\<close> after the array is sorted.\<close>

lemma link_all_ok:
  assumes d: "distinct (p # ps)" "set (p # ps) \<subseteq> dom (cells m)"
  obtains m1 m2 m3 where "upd_elem p (e_prev_update (\<lambda>_. None)) m = Inr m1"
    "relink p ps m1 = Inr (last (p # ps), m2)"
    "upd_elem (last (p # ps)) (e_next_update (\<lambda>_. None)) m2 = Inr m3"
    "relinked (set (p # ps)) m m3" "dlseg (cells m3) None (p # ps) None"
proof -
  from d obtain e where e: "cells m p = Some e" by auto
  let ?m1 = "m\<lparr>cells := (cells m)(p \<mapsto> e\<lparr>e_prev := None\<rparr>)\<rparr>"
  have r1: "relinked (set (p # ps)) m ?m1"
    using relinked_upd [of m p e "e_prev_update (\<lambda>_. None)"] e by simp
  then have "set (p # ps) \<subseteq> dom (cells ?m1)" using d(2) by (simp add: relinked_def)
  from relink_ok [OF d(1) this, of "e\<lparr>e_prev := None\<rparr>"]
  obtain m2 e' where s: "relink p ps ?m1 = Inr (last (p # ps), m2)" "relinked (set (p # ps)) ?m1 m2"
      "cells m2 (last (p # ps)) = Some e'" "dlseg (cells m2) None (p # ps) (e_next e')"
    by auto
  define t where "t = last (p # ps)"
  obtain rs where rs: "p # ps = rs @ [t]" unfolding t_def by (metis append_butlast_last_id list.distinct(1))
  let ?m3 = "m2\<lparr>cells := (cells m2)(t \<mapsto> e'\<lparr>e_next := None\<rparr>)\<rparr>"
  have t: "cells m2 t = Some e'" using s(3) by (simp add: t_def)
  have "relinked (set (p # ps)) m2 ?m3"
    unfolding rs using relinked_upd [of m2 t e' "e_next_update (\<lambda>_. None)"] t by simp
  then have "relinked (set (p # ps)) m ?m3"
    using relinked_trans [OF relinked_trans [OF r1 s(2)]] by blast
  moreover have "t \<notin> set rs" using d(1) unfolding rs by simp
  then have "dlseg (cells ?m3) None (p # ps) None"
    using s(4) t unfolding rs by (cases e') (auto simp: dlseg_append)
  moreover have "upd_elem t (e_next_update (\<lambda>_. None)) m2 = Inr ?m3" using t by simp
  ultimately show thesis using that [of ?m1 m2 ?m3] e s(1) by (simp add: t_def)
qed

subsection \<open>Sorting\<close>

lemma sort_ok:
  assumes ok: "llist_ok l m ps" and len: "length ps < 2 ^ 64"
  obtains l' m' where "zend_llist_sort l comp_func m = Inr (l', m')"
    "llist_ok l' m' (zend_sort (cmp_elements comp_func m) exchange ps)"
    "\<forall>q. data_of (cells m') q = data_of (cells m) q" "inside (set ps) m m'"
    "l_dtor l' = l_dtor l"
proof (cases "ps = []")
  case True
  then have "zend_llist_sort l comp_func m = Inr (l, m)" "zend_sort (cmp_elements comp_func m) exchange ps = []"
    using ok zs.sort_mset [of "cmp_elements comp_func m" ps]
    by (simp_all add: zend_llist_sort_def llist_ok_def)
  with ok True show thesis by (intro that [of l m]) simp_all
next
  case False
  let ?qs = "zend_sort (cmp_elements comp_func m) exchange ps"
  have ms: "mset ?qs = mset ps" by (rule zs.sort_mset)
  obtain p qs where qs: "?qs = p # qs" using False ms by (cases ?qs) auto
  have st: "set (p # qs) = set ps" "distinct (p # qs)" "length (p # qs) = length ps"
    using ms ok unfolding qs llist_ok_def
    by (metis set_mset_mset, metis mset_eq_imp_distinct_iff, metis size_mset)
  have seg: "dlseg (cells m) None ps None" using ok by (simp add: llist_ok_def)
  have c: "unat (l_count l) = length ps"
    using ok len by (simp add: llist_ok_def unsigned_of_nat take_bit_nat_eq_self)
  then have "l_count l \<noteq> 0" using False by auto
  note c = c this
  have g: "gather (brk m) (l_head l) m = Inr ps"
    using ok gather_ok [OF seg length_le_brk [OF ok]] by (simp add: llist_ok_def)
  have "set (p # qs) \<subseteq> dom (cells m)" unfolding st(1) by (rule dlseg_dom [OF seg])
  then obtain m1 m2 m3 where s: "upd_elem p (e_prev_update (\<lambda>_. None)) m = Inr m1"
    "relink p qs m1 = Inr (last (p # qs), m2)"
    "upd_elem (last (p # qs)) (e_next_update (\<lambda>_. None)) m2 = Inr m3"
    "relinked (set (p # qs)) m m3" "dlseg (cells m3) None (p # qs) None"
    by (rule link_all_ok [OF st(2)])
  let ?l = "l\<lparr>l_head := Some p, l_tail := Some (last (p # qs))\<rparr>"
  have "zend_llist_sort l comp_func m = Inr (?l, m3)"
    unfolding zend_llist_sort_def using c g s(1-3) by (simp add: qs del: last.simps)
  moreover have "llist_ok ?l m3 ?qs"
    unfolding qs using ok s(4,5) st by (auto simp: llist_ok_def heap_ok_def relinked_def inside_def lastp_def)
  ultimately show thesis using s(4) st(1) by (intro that [of ?l m3]) (auto simp: relinked_def)
qed

text \<open>The comparison functions of the callers look at the data of the two elements.\<close>

definition by_data :: "'a compare_func \<Rightarrow> 'a zend_llist_element \<Rightarrow> 'a zend_llist_element \<Rightarrow> int" where
  "by_data cmp a b = cmp (e_data a) (e_data b)"

lemma cmp_elements_by_data: "cmp_elements (by_data cmp) m = on (data_of (cells m)) cmp"
  by (simp add: fun_eq_iff cmp_elements_def by_data_def data_of_def on_def)

text \<open>The sequence of the data is sorted as \<open>zend_sort\<close> sorts an array of it.\<close>

lemma sort_contents:
  assumes ok: "llist_ok l m ps" and len: "length ps < 2 ^ 64"
  obtains l' m' ps' where "zend_llist_sort l (by_data cmp) m = Inr (l', m')" "llist_ok l' m' ps'"
    "set ps' = set ps" "contents m' ps' = zend_sort cmp exchange (contents m ps)"
    "inside (set ps) m m'" "l_dtor l' = l_dtor l"
proof -
  let ?c = "cmp_elements (by_data cmp) m"
  let ?ps = "zend_sort ?c exchange ps"
  obtain l' m' where s: "zend_llist_sort l (by_data cmp) m = Inr (l', m')" "llist_ok l' m' ?ps"
    "\<forall>q. data_of (cells m') q = data_of (cells m) q" "inside (set ps) m m'" "l_dtor l' = l_dtor l"
    by (rule sort_ok [OF ok len])
  have "set ?ps = set ps" using zs.sort_mset by (metis set_mset_mset)
  moreover have "contents m' ?ps = zend_sort cmp exchange (contents m ps)"
    using s(3) zend_sort_map [OF moves_exchange, of cmp "data_of (cells m)" ps]
    by (simp add: contents_def cmp_elements_by_data)
  ultimately show thesis using s by (intro that [of l' m' ?ps])
qed

subsection \<open>Walking a list\<close>

text \<open>
  The loop of a caller: take the data, ask for the next one, until there is none.
\<close>

fun walk :: "nat \<Rightarrow> ('pos \<Rightarrow> error + 'a option \<times> 'pos) \<Rightarrow> 'a option \<times> 'pos \<Rightarrow> error + 'a list" where
  "walk n step (None, pos) = Inr []"
| "walk 0 step (Some x, pos) = Inl NoReturn"
| "walk (Suc n) step (Some x, pos) =
     bindE (step pos) (\<lambda>r. bindE (walk n step r) (\<lambda>xs. Inr (x # xs)))"

text \<open>
  A cursor over the sequence \<open>items s\<close>: \<open>start\<close> stands on its first item and \<open>step\<close>
  moves on by one; \<open>at s i\<close> is the position of item \<open>i\<close>.
\<close>

locale cursor =
  fixes inv :: "'s \<Rightarrow> bool"
    and items :: "'s \<Rightarrow> 'a list"
    and at :: "'s \<Rightarrow> nat \<Rightarrow> 'pos"
    and start :: "'s \<Rightarrow> error + 'a option \<times> 'pos"
    and step :: "'s \<Rightarrow> 'pos \<Rightarrow> error + 'a option \<times> 'pos"
  assumes start_none: "inv s \<Longrightarrow> items s = [] \<Longrightarrow> \<exists>pos. start s = Inr (None, pos)"
    and start_some: "inv s \<Longrightarrow> items s \<noteq> [] \<Longrightarrow> start s = Inr (Some (items s ! 0), at s 0)"
    and step_none: "inv s \<Longrightarrow> Suc i = length (items s) \<Longrightarrow> \<exists>pos. step s (at s i) = Inr (None, pos)"
    and step_some: "inv s \<Longrightarrow> Suc i < length (items s) \<Longrightarrow>
      step s (at s i) = Inr (Some (items s ! Suc i), at s (Suc i))"
begin

lemma walk_from:
  "inv s \<Longrightarrow> i < length (items s) \<Longrightarrow> length (items s) - i \<le> n \<Longrightarrow>
     walk n (step s) (Some (items s ! i), at s i) = Inr (drop i (items s))"
proof (induction "length (items s) - i" arbitrary: i n)
  case 0
  then show ?case by simp
next
  case (Suc k)
  then obtain n' where n: "n = Suc n'" by (cases n) auto
  show ?case
  proof (cases "Suc i < length (items s)")
    case True
    have "k = length (items s) - Suc i" using Suc.hyps(2) by simp
    moreover have "length (items s) - Suc i \<le> n'" using Suc.prems(3) n by simp
    ultimately show ?thesis
      using Suc.hyps(1) [of "Suc i" n'] step_some [OF Suc.prems(1) True] True Suc.prems(1) n
      by (simp add: Cons_nth_drop_Suc)
  next
    case False
    then have l: "Suc i = length (items s)" using Suc.prems(2) by simp
    from step_none [OF Suc.prems(1) l] n l show ?thesis
      using Cons_nth_drop_Suc [of i "items s"] by auto
  qed
qed

lemma walk_visits:
  assumes "inv s" "length (items s) \<le> n"
  shows "bindE (start s) (walk n (step s)) = Inr (items s)"
proof (cases "items s = []")
  case True
  then show ?thesis using start_none [OF assms(1)] by auto
next
  case False
  with walk_from [of s 0 n] assms start_some [OF assms(1) False] show ?thesis by simp
qed

end

text \<open>
  \<open>zend_llist_get_first_ex\<close> with \<open>zend_llist_get_next_ex\<close> walks forwards,
  \<open>zend_llist_get_last_ex\<close> with \<open>zend_llist_get_prev_ex\<close> backwards.
\<close>

type_synonym ('a, 's) placed_list = "('a, 's) zend_llist \<times> 'a llist_store \<times> nat list"

definition placed_ok :: "('a, 's) placed_list \<Rightarrow> bool" where
  "placed_ok s = (case s of (l, m, ps) \<Rightarrow> llist_ok l m ps)"

definition placed_items :: "('a, 's) placed_list \<Rightarrow> 'a list" where
  "placed_items s = (case s of (l, m, ps) \<Rightarrow> contents m ps)"

lemma nth_cell:
  assumes "dlseg c None ps None" "i < length ps"
  shows "c (ps ! i) = Some \<lparr>e_next = (if Suc i < length ps then Some (ps ! Suc i) else None),
      e_prev = (if i = 0 then None else Some (ps ! (i - 1))), e_data = data_of c (ps ! i)\<rparr>"
proof -
  have s: "ps = take i ps @ ps ! i # drop (Suc i) ps" using assms(2) by (rule id_take_nth_drop)
  have "firstp None (drop (Suc i) ps) = (if Suc i < length ps then Some (ps ! Suc i) else None)"
    by (simp add: firstp_def Cons_nth_drop_Suc [symmetric])
  moreover have "lastp None (take i ps) = (if i = 0 then None else Some (ps ! (i - 1)))"
    using assms(2) by (auto simp: lastp_def last_conv_nth)
  moreover have "dlseg c None (take i ps @ ps ! i # drop (Suc i) ps) None" using assms(1) s by simp
  from llist_cell [OF this]
  have "c (ps ! i) = Some \<lparr>e_next = firstp None (drop (Suc i) ps), e_prev = lastp None (take i ps),
      e_data = data_of c (ps ! i)\<rparr>" .
  ultimately show ?thesis by simp
qed

interpretation forwards: cursor placed_ok placed_items "\<lambda>(l, m, ps) i. Some (ps ! i)"
  "\<lambda>(l, m, ps). zend_llist_get_first_ex l m" "\<lambda>(l, m, ps) pos. zend_llist_get_next_ex pos m"
proof (unfold_locales, goal_cases)
  case (1 s)
  then show ?case
    by (auto simp: placed_ok_def placed_items_def contents_def llist_ok_def zend_llist_get_first_ex_def data_at_def)
next
  case (2 s)
  then obtain l m ps where s: "s = (l, m, ps)" "llist_ok l m ps" "ps \<noteq> []"
    by (cases s) (auto simp: placed_ok_def placed_items_def contents_def)
  with nth_cell [of "cells m" ps 0] show ?case
    by (cases ps) (auto simp: placed_items_def contents_def llist_ok_def zend_llist_get_first_ex_def data_at_def)
next
  case (3 s i)
  then obtain l m ps where s: "s = (l, m, ps)" "llist_ok l m ps" "Suc i = length ps"
    by (cases s) (auto simp: placed_ok_def placed_items_def)
  with nth_cell [of "cells m" ps i] show ?case
    by (auto simp: llist_ok_def zend_llist_get_next_ex_def data_at_def)
next
  case (4 s i)
  then obtain l m ps where s: "s = (l, m, ps)" "llist_ok l m ps" "Suc i < length ps"
    by (cases s) (auto simp: placed_ok_def placed_items_def)
  with nth_cell [of "cells m" ps i] nth_cell [of "cells m" ps "Suc i"] show ?case
    by (auto simp: llist_ok_def zend_llist_get_next_ex_def data_at_def placed_items_def contents_def)
qed

interpretation backwards: cursor placed_ok "\<lambda>s. rev (placed_items s)" "\<lambda>(l, m, ps) i. Some (rev ps ! i)"
  "\<lambda>(l, m, ps). zend_llist_get_last_ex l m" "\<lambda>(l, m, ps) pos. zend_llist_get_prev_ex pos m"
proof (unfold_locales, goal_cases)
  case (1 s)
  then show ?case
    by (auto simp: placed_ok_def placed_items_def contents_def llist_ok_def zend_llist_get_last_ex_def data_at_def)
next
  case (2 s)
  then obtain l m ps where s: "s = (l, m, ps)" "llist_ok l m ps" "ps \<noteq> []"
    by (cases s) (auto simp: placed_ok_def placed_items_def contents_def)
  with nth_cell [of "cells m" ps "length ps - 1"] show ?case
    by (auto simp: placed_items_def contents_def llist_ok_def zend_llist_get_last_ex_def data_at_def lastp_def
        rev_nth last_conv_nth rev_map [symmetric])
next
  case (3 s i)
  then obtain l m ps where s: "s = (l, m, ps)" "llist_ok l m ps" "Suc i = length ps"
    by (cases s) (auto simp: placed_ok_def placed_items_def)
  moreover from s(3) have "0 < length ps" by linarith
  ultimately show ?case using nth_cell [of "cells m" ps 0]
    by (auto simp: llist_ok_def zend_llist_get_prev_ex_def data_at_def rev_nth)
next
  case (4 s i)
  then obtain l m ps where s: "s = (l, m, ps)" "llist_ok l m ps" "Suc i < length ps"
    by (cases s) (auto simp: placed_ok_def placed_items_def)
  with nth_cell [of "cells m" ps "length ps - Suc i"] nth_cell [of "cells m" ps "length ps - Suc (Suc i)"]
  show ?case
    by (auto simp: llist_ok_def zend_llist_get_prev_ex_def data_at_def placed_items_def contents_def rev_nth
        rev_map [symmetric] Suc_diff_Suc)
qed

end
