(* ===== verification/ZendStack.thy ===== *)
theory ZendStack
  imports ZendPrelude
begin

text \<open>
  The growing arrays of \<open>Zend/zend_stack.c\<close> and \<open>Zend/zend_ptr_stack.c\<close>, which
  the compiler and the executor use for their nested contexts. An element of a
  \<open>zend_stack\<close> is \<open>size\<close> bytes copied by \<open>memcpy\<close>, here a value of type \<open>'a\<close>;
  the counters are C \<open>int\<close>s, kept as integers with their overflow written out.
\<close>

subsection \<open>The memory of a stack\<close>

text \<open>
  The \<open>elements\<close> pointer: null, an array (a cell is \<open>None\<close> until it is written),
  or a pointer to an array that was freed.
\<close>

datatype 'a block = NullPtr | Block "'a option list" | Freed

definition INT_MAX :: int where
  "INT_MAX = 2 ^ 31 - 1"

definition STACK_BLOCK_SIZE :: int where
  "STACK_BLOCK_SIZE = 16"

text \<open>Signed arithmetic: a result outside the range of \<open>int\<close> is undefined.\<close>

definition add_int :: "int \<Rightarrow> int \<Rightarrow> error + int" where
  "add_int a b = (if - INT_MAX - 1 \<le> a + b \<and> a + b \<le> INT_MAX then Inr (a + b) else Inl SignedOverflow)"

text \<open>
  \<open>safe_erealloc\<close> of an array: the cells it has stay, new ones are not written.
  The byte count is a product of two \<open>int\<close>s in a 64-bit \<open>size_t\<close> and does not
  overflow.
\<close>

definition realloc :: "'a block \<Rightarrow> int \<Rightarrow> error + 'a block" where
  "realloc b n =
     (case b of
        NullPtr \<Rightarrow> Inr (Block (replicate (nat n) None))
      | Block xs \<Rightarrow> Inr (Block (take (nat n) xs @ replicate (nat n - length xs) None))
      | Freed \<Rightarrow> Inl BadPointer)"

definition load :: "'a block \<Rightarrow> int \<Rightarrow> error + 'a" where
  "load b i =
     (case b of
        Block xs \<Rightarrow> if i < 0 then Inl OutOfBounds else rd xs (nat i)
      | _ \<Rightarrow> Inl BadPointer)"

definition store :: "'a block \<Rightarrow> int \<Rightarrow> 'a \<Rightarrow> error + 'a block" where
  "store b i x =
     (case b of
        Block xs \<Rightarrow> if i < 0 then Inl OutOfBounds else bindE (wr xs (nat i) x) (\<lambda>ys. Inr (Block ys))
      | _ \<Rightarrow> Inl BadPointer)"

definition free :: "'a block \<Rightarrow> error + 'a block" where
  "free b = (case b of Block xs \<Rightarrow> Inr Freed | _ \<Rightarrow> Inl BadPointer)"

subsection \<open>Stacks of values\<close>

record 'a zend_stack =
  zk_size :: int
  zk_top :: int
  zk_max :: int
  zk_elements :: "'a block"

definition zend_stack_init :: "int \<Rightarrow> 'a zend_stack" where
  "zend_stack_init sz = \<lparr>zk_size = sz, zk_top = 0, zk_max = 0, zk_elements = NullPtr\<rparr>"

definition zend_stack_push :: "'a \<Rightarrow> 'a zend_stack \<Rightarrow> error + int \<times> 'a zend_stack" where
  "zend_stack_push x st =
     bindE (if zk_top st \<ge> zk_max st then
              bindE (add_int (zk_max st) STACK_BLOCK_SIZE) (\<lambda>m.
              bindE (realloc (zk_elements st) m) (\<lambda>b.
              Inr (st\<lparr>zk_max := m, zk_elements := b\<rparr>)))
            else Inr st) (\<lambda>st.
     bindE (store (zk_elements st) (zk_top st) x) (\<lambda>b.
     bindE (add_int (zk_top st) 1) (\<lambda>t.
     Inr (zk_top st, st\<lparr>zk_elements := b, zk_top := t\<rparr>))))"

text \<open>\<open>zend_stack_top\<close> returns a pointer to the last element, here its value, or null.\<close>

definition zend_stack_top :: "'a zend_stack \<Rightarrow> error + 'a option" where
  "zend_stack_top st =
     (if zk_top st > 0 then bindE (load (zk_elements st) (zk_top st - 1)) (\<lambda>x. Inr (Some x))
      else Inr None)"

text \<open>\<open>zend_stack_del_top\<close> does not look whether the stack is empty.\<close>

definition zend_stack_del_top :: "'a zend_stack \<Rightarrow> error + 'a zend_stack" where
  "zend_stack_del_top st = bindE (add_int (zk_top st) (-1)) (\<lambda>t. Inr (st\<lparr>zk_top := t\<rparr>))"

definition FAILURE :: int where
  "FAILURE = -1"

definition zend_stack_int_top :: "int zend_stack \<Rightarrow> error + int" where
  "zend_stack_int_top st =
     bindE (zend_stack_top st) (\<lambda>e.
     case e of Some i \<Rightarrow> Inr i | None \<Rightarrow> Inr FAILURE)"

definition zend_stack_is_empty :: "'a zend_stack \<Rightarrow> bool" where
  "zend_stack_is_empty st \<longleftrightarrow> zk_top st = 0"

text \<open>\<open>zend_stack_destroy\<close> frees the array and clears its pointer; the counters stay.\<close>

definition zend_stack_destroy :: "'a zend_stack \<Rightarrow> error + 'a zend_stack" where
  "zend_stack_destroy st =
     (if zk_elements st \<noteq> NullPtr then
        bindE (free (zk_elements st)) (\<lambda>b. Inr (st\<lparr>zk_elements := NullPtr\<rparr>))
      else Inr st)"

definition zend_stack_base :: "'a zend_stack \<Rightarrow> 'a block" where
  "zend_stack_base st = zk_elements st"

definition zend_stack_count :: "'a zend_stack \<Rightarrow> int" where
  "zend_stack_count st = zk_top st"

text \<open>
  The callback of \<open>zend_stack_apply\<close> gets a pointer to the element: it returns
  whether to stop, the element as it leaves it and its own state. The loops
  count an \<open>int\<close> down to zero, or up to \<open>top\<close>.
\<close>

datatype zend_stack_apply_direction = ZEND_STACK_APPLY_TOPDOWN | ZEND_STACK_APPLY_BOTTOMUP

type_synonym ('a, 's) visit_func = "'a \<Rightarrow> 's \<Rightarrow> bool \<times> 'a \<times> 's"

function apply_topdown ::
  "('a, 's) visit_func \<Rightarrow> int \<Rightarrow> 'a block \<Rightarrow> 's \<Rightarrow> error + 'a block \<times> 's" where
  "apply_topdown f i b w =
     (if i \<ge> 0 then
        bindE (load b i) (\<lambda>x.
        case f x w of (stop, x', w') \<Rightarrow>
          bindE (store b i x') (\<lambda>b'.
          if stop then Inr (b', w') else apply_topdown f (i - 1) b' w'))
      else Inr (b, w))"
  by pat_completeness auto
termination
  by (relation "measure (\<lambda>(f, i, b, w). nat (i + 1))") auto

function apply_bottomup ::
  "('a, 's) visit_func \<Rightarrow> int \<Rightarrow> int \<Rightarrow> 'a block \<Rightarrow> 's \<Rightarrow> error + 'a block \<times> 's" where
  "apply_bottomup f tp i b w =
     (if i < tp then
        bindE (load b i) (\<lambda>x.
        case f x w of (stop, x', w') \<Rightarrow>
          bindE (store b i x') (\<lambda>b'.
          if stop then Inr (b', w') else apply_bottomup f tp (i + 1) b' w'))
      else Inr (b, w))"
  by pat_completeness auto
termination
  by (relation "measure (\<lambda>(f, tp, i, b, w). nat (tp - i))") auto

declare apply_topdown.simps [simp del] apply_bottomup.simps [simp del]

definition zend_stack_apply ::
  "'a zend_stack \<Rightarrow> zend_stack_apply_direction \<Rightarrow> ('a, 's) visit_func \<Rightarrow> 's \<Rightarrow>
     error + 'a zend_stack \<times> 's" where
  "zend_stack_apply st type f w =
     (case type of
        ZEND_STACK_APPLY_TOPDOWN \<Rightarrow>
          bindE (apply_topdown f (zk_top st - 1) (zk_elements st) w) (\<lambda>(b, w).
          Inr (st\<lparr>zk_elements := b\<rparr>, w))
      | ZEND_STACK_APPLY_BOTTOMUP \<Rightarrow>
          bindE (apply_bottomup f (zk_top st) 0 (zk_elements st) w) (\<lambda>(b, w).
          Inr (st\<lparr>zk_elements := b\<rparr>, w)))"

definition zend_stack_apply_with_argument ::
  "'a zend_stack \<Rightarrow> zend_stack_apply_direction \<Rightarrow> ('a \<Rightarrow> 'b \<Rightarrow> 's \<Rightarrow> bool \<times> 'a \<times> 's) \<Rightarrow> 'b \<Rightarrow> 's \<Rightarrow>
     error + 'a zend_stack \<times> 's" where
  "zend_stack_apply_with_argument st type f arg w =
     (case type of
        ZEND_STACK_APPLY_TOPDOWN \<Rightarrow>
          bindE (apply_topdown (\<lambda>x. f x arg) (zk_top st - 1) (zk_elements st) w) (\<lambda>(b, w).
          Inr (st\<lparr>zk_elements := b\<rparr>, w))
      | ZEND_STACK_APPLY_BOTTOMUP \<Rightarrow>
          bindE (apply_bottomup (\<lambda>x. f x arg) (zk_top st) 0 (zk_elements st) w) (\<lambda>(b, w).
          Inr (st\<lparr>zk_elements := b\<rparr>, w)))"

text \<open>
  \<open>zend_stack_clean\<close>: every element through \<open>func\<close>, bottom up, when there is one;
  then, when asked, the array is freed and the counters are reset.
\<close>

definition zend_stack_clean ::
  "'a zend_stack \<Rightarrow> ('a \<Rightarrow> 's \<Rightarrow> 'a \<times> 's) option \<Rightarrow> bool \<Rightarrow> 's \<Rightarrow> error + 'a zend_stack \<times> 's" where
  "zend_stack_clean st func free_elements w =
     bindE (case func of
              Some f \<Rightarrow> apply_bottomup (\<lambda>x w. (False, f x w)) (zk_top st) 0 (zk_elements st) w
            | None \<Rightarrow> Inr (zk_elements st, w)) (\<lambda>(b, w).
     if free_elements then
       bindE (if b \<noteq> NullPtr then free b else Inr b) (\<lambda>_.
       Inr (st\<lparr>zk_elements := NullPtr, zk_top := 0, zk_max := 0\<rparr>, w))
     else Inr (st\<lparr>zk_elements := b\<rparr>, w))"

subsection \<open>What an array holds\<close>

text \<open>
  \<open>holds b n xs\<close>: an array of \<open>n\<close> cells whose first ones are \<open>xs\<close>; there is no
  array exactly when \<open>n\<close> is 0.
\<close>

definition holds :: "'a block \<Rightarrow> int \<Rightarrow> 'a list \<Rightarrow> bool" where
  "holds b n xs \<longleftrightarrow>
     (case b of
        NullPtr \<Rightarrow> n = 0 \<and> xs = []
      | Block cs \<Rightarrow> 0 < n \<and> int (length cs) = n \<and> int (length xs) \<le> n \<and>
          take (length xs) cs = map Some xs
      | Freed \<Rightarrow> False)"

lemma holds_cases:
  assumes "holds b n xs"
  obtains "b = NullPtr" "n = 0" "xs = []"
    | cs where "b = Block cs" "0 < n" "n = int (length cs)" "length xs \<le> length cs"
        "take (length xs) cs = map Some xs"
  using assms by (cases b) (auto simp: holds_def)

lemma holds_length: "holds b n xs \<Longrightarrow> int (length xs) \<le> n"
  by (erule holds_cases) auto

lemma holds_null [simp]: "holds NullPtr 0 []"
  by (simp add: holds_def)

lemma take_cell:
  assumes "take (length xs) cs = map Some xs" "i < length xs" "length xs \<le> length cs"
  shows "cs ! i = Some (xs ! i)"
  using assms by (metis nth_map nth_take)

lemma load_holds:
  assumes "holds b n xs" "0 \<le> i" "i < int (length xs)"
  shows "load b i = Inr (xs ! nat i)"
  using assms by (auto elim!: holds_cases simp: load_def rd_def take_cell nat_less_iff)

lemma store_inside:
  assumes "holds b n xs" "0 \<le> i" "i < int (length xs)"
  obtains b' where "store b i x = Inr b'" "holds b' n (xs[nat i := x])"
proof -
  from assms obtain cs where b: "b = Block cs" "0 < n" "n = int (length cs)" "length xs \<le> length cs"
      "take (length xs) cs = map Some xs"
    by (cases b) (auto simp: holds_def)
  have "store b i x = Inr (Block (cs[nat i := Some x]))"
    using b assms by (simp add: store_def wr_def nat_less_iff)
  moreover have "take (length xs) (cs[nat i := Some x]) = map Some (xs[nat i := x])"
    using b(5) by (simp add: take_update_swap map_update)
  then have "holds (Block (cs[nat i := Some x])) n (xs[nat i := x])"
    using b by (simp add: holds_def)
  ultimately show thesis by (rule that)
qed

lemma store_append:
  assumes "holds b n xs" "int (length xs) < n"
  obtains b' where "store b (int (length xs)) x = Inr b'" "holds b' n (xs @ [x])"
proof -
  from assms obtain cs where b: "b = Block cs" "n = int (length cs)" "length xs < length cs"
      "take (length xs) cs = map Some xs"
    by (cases b) (auto simp: holds_def)
  have "store b (int (length xs)) x = Inr (Block (cs[length xs := Some x]))"
    using b by (simp add: store_def wr_def)
  moreover have "take (Suc (length xs)) (cs[length xs := Some x]) = map Some (xs @ [x])"
    using b(3,4) by (simp add: take_Suc_conv_app_nth)
  then have "holds (Block (cs[length xs := Some x])) n (xs @ [x])"
    using b by (auto simp: holds_def)
  ultimately show thesis by (rule that)
qed

lemma realloc_holds:
  assumes "holds b n xs" "n \<le> m" "0 < m"
  obtains b' where "realloc b m = Inr b'" "holds b' m xs"
  using assms(1)
proof (cases rule: holds_cases)
  case 1
  then show thesis using assms(3) that by (simp add: realloc_def holds_def)
next
  case (2 cs)
  then show thesis using assms(2,3) that by (simp add: realloc_def holds_def)
qed

lemma holds_take: "holds b n xs \<Longrightarrow> holds b n (take k xs)"
  by (erule holds_cases) (auto simp: holds_def take_map [symmetric] min_def dest: arg_cong [where f = "take k"])

lemma free_holds: "holds b n xs \<Longrightarrow> b \<noteq> NullPtr \<Longrightarrow> free b = Inr Freed"
  by (erule holds_cases) (auto simp: free_def)

subsection \<open>The invariant of a stack and its operations\<close>

text \<open>
  \<open>stack_ok st xs\<close>: the stack is well formed and holds \<open>xs\<close>, the bottom element
  first; \<open>max\<close> grows by whole blocks.
\<close>

definition stack_ok :: "'a zend_stack \<Rightarrow> 'a list \<Rightarrow> bool" where
  "stack_ok st xs \<longleftrightarrow>
     zk_top st = int (length xs) \<and> zk_max st mod STACK_BLOCK_SIZE = 0 \<and> zk_max st \<le> INT_MAX \<and>
     holds (zk_elements st) (zk_max st) xs"

lemma stack_init_ok: "stack_ok (zend_stack_init sz) []"
  by (simp add: stack_ok_def zend_stack_init_def INT_MAX_def)

lemma stack_push_ok:
  assumes ok: "stack_ok st xs" and room: "int (length xs) + STACK_BLOCK_SIZE \<le> INT_MAX"
  obtains st' where "zend_stack_push x st = Inr (int (length xs), st')" "stack_ok st' (xs @ [x])"
    "zk_size st' = zk_size st"
proof -
  let ?grow = "if zk_top st \<ge> zk_max st then
              bindE (add_int (zk_max st) STACK_BLOCK_SIZE) (\<lambda>m.
              bindE (realloc (zk_elements st) m) (\<lambda>b.
              Inr (st\<lparr>zk_max := m, zk_elements := b\<rparr>)))
            else Inr st"
  note s = ok [unfolded stack_ok_def]
  have "\<exists>s1. ?grow = Inr s1 \<and> stack_ok s1 xs \<and> int (length xs) < zk_max s1 \<and> zk_size s1 = zk_size st"
  proof (cases "zk_top st \<ge> zk_max st")
    case True
    let ?m = "zk_max st + STACK_BLOCK_SIZE"
    have len: "zk_max st = int (length xs)" using True s holds_length [of "zk_elements st" "zk_max st" xs] by simp
    have "holds (zk_elements st) (zk_max st) xs" using s by simp
    moreover have "zk_max st \<le> ?m" "0 < ?m" using len by (auto simp: STACK_BLOCK_SIZE_def)
    ultimately obtain b where b: "realloc (zk_elements st) ?m = Inr b" "holds b ?m xs"
      by (rule realloc_holds)
    from True len room have "?grow = Inr (st\<lparr>zk_max := ?m, zk_elements := b\<rparr>)"
      by (simp add: add_int_def b(1) [unfolded len STACK_BLOCK_SIZE_def] STACK_BLOCK_SIZE_def INT_MAX_def)
    moreover have "?m mod STACK_BLOCK_SIZE = 0" using s by simp
    ultimately show ?thesis
      using b s room len by (simp add: stack_ok_def STACK_BLOCK_SIZE_def)
  next
    case False
    then show ?thesis using ok s by simp
  qed
  then obtain s1 where s1: "?grow = Inr s1" "stack_ok s1 xs" "int (length xs) < zk_max s1"
      "zk_size s1 = zk_size st" by blast
  note o1 = s1(2) [unfolded stack_ok_def]
  from o1 s1(3) obtain b where b: "store (zk_elements s1) (int (length xs)) x = Inr b"
      "holds b (zk_max s1) (xs @ [x])"
    by (blast elim: store_append)
  have t: "add_int (zk_top s1) 1 = Inr (int (length xs) + 1)"
    using o1 s1(3) room by (simp add: add_int_def INT_MAX_def STACK_BLOCK_SIZE_def)
  let ?st = "s1\<lparr>zk_elements := b, zk_top := int (length xs) + 1\<rparr>"
  have "zend_stack_push x st = Inr (int (length xs), ?st)"
    unfolding zend_stack_push_def s1(1) bindE_Inr using b t o1 by simp
  moreover have "stack_ok ?st (xs @ [x])" using o1 b by (simp add: stack_ok_def)
  ultimately show thesis using that s1(4) by simp
qed

lemma nat_int_minus_one: "nat (int (length xs) - 1) = length xs - 1"
  by linarith

lemma stack_top_ok:
  "stack_ok st xs \<Longrightarrow> zend_stack_top st = Inr (if xs = [] then None else Some (last xs))"
  using nat_int_minus_one [of xs]
  by (auto simp: stack_ok_def zend_stack_top_def load_holds last_conv_nth)

lemma stack_del_top_ok:
  assumes "stack_ok st xs" "xs \<noteq> []"
  shows "zend_stack_del_top st = Inr (st\<lparr>zk_top := zk_top st - 1\<rparr>)"
    "stack_ok (st\<lparr>zk_top := zk_top st - 1\<rparr>) (butlast xs)"
proof -
  from assms(2) have "0 < length xs" by simp
  then have "int (length xs) - 1 = int (length (butlast xs))"
    unfolding length_butlast by linarith
  moreover have "holds (zk_elements st) (zk_max st) (butlast xs)"
    unfolding butlast_conv_take using assms(1) holds_take by (auto simp: stack_ok_def)
  ultimately show "stack_ok (st\<lparr>zk_top := zk_top st - 1\<rparr>) (butlast xs)"
    using assms(1) unfolding stack_ok_def by (simp del: length_butlast)
  from assms \<open>0 < length xs\<close> show "zend_stack_del_top st = Inr (st\<lparr>zk_top := zk_top st - 1\<rparr>)"
    using holds_length [of "zk_elements st" "zk_max st" xs]
    by (simp add: stack_ok_def zend_stack_del_top_def add_int_def INT_MAX_def)
qed

lemma stack_int_top_ok:
  "stack_ok st xs \<Longrightarrow> zend_stack_int_top st = Inr (if xs = [] then FAILURE else last xs)"
  by (simp add: zend_stack_int_top_def stack_top_ok)

lemma stack_is_empty_ok: "stack_ok st xs \<Longrightarrow> zend_stack_is_empty st \<longleftrightarrow> xs = []"
  by (simp add: stack_ok_def zend_stack_is_empty_def)

lemma stack_count_ok: "stack_ok st xs \<Longrightarrow> zend_stack_count st = int (length xs)"
  by (simp add: stack_ok_def zend_stack_count_def)

subsection \<open>Visiting the elements\<close>

text \<open>What a callback that may stop and may write does to a list of elements.\<close>

fun visited :: "('a, 's) visit_func \<Rightarrow> 'a list \<Rightarrow> 's \<Rightarrow> 'a list \<times> 's" where
  "visited f [] w = ([], w)"
| "visited f (x # xs) w =
     (case f x w of (stop, x', w') \<Rightarrow>
        if stop then (x' # xs, w')
        else (case visited f xs w' of (ys, w'') \<Rightarrow> (x' # ys, w'')))"

lemma visited_length: "visited f xs w = (ys, w') \<Longrightarrow> length ys = length xs"
  by (induction xs arbitrary: w ys) (auto split: prod.splits if_splits)

lemma apply_bottomup_ok:
  "holds b n xs \<Longrightarrow> i \<le> length xs \<Longrightarrow> visited f (drop i xs) w = (ys, w') \<Longrightarrow>
     \<exists>b'. apply_bottomup f (int (length xs)) (int i) b w = Inr (b', w') \<and> holds b' n (take i xs @ ys)"
proof (induction "length xs - i" arbitrary: i b xs w ys)
  case 0
  then show ?case by (simp add: apply_bottomup.simps)
next
  case (Suc k)
  then have i: "i < length xs" by simp
  obtain stop x w1 where f: "f (xs ! i) w = (stop, x, w1)" by (cases "f (xs ! i) w")
  from Suc.prems(1) i obtain b1 where b1: "store b (int i) x = Inr b1" "holds b1 n (xs[i := x])"
    by (fastforce elim: store_inside [of b n xs "int i" x])
  have d: "drop i xs = xs ! i # drop (Suc i) xs" using i by (simp add: Cons_nth_drop_Suc)
  have l: "load b (int i) = Inr (xs ! i)" using Suc.prems(1) i by (simp add: load_holds)
  show ?case
  proof (cases stop)
    case True
    then have "ys = x # drop (Suc i) xs" "w' = w1" using Suc.prems(3) f by (auto simp: d)
    then show ?thesis
      using True i l f b1 by (simp add: apply_bottomup.simps upd_conv_take_nth_drop)
  next
    case False
    then obtain zs where z: "visited f (drop (Suc i) xs) w1 = (zs, w')" "ys = x # zs"
      using Suc.prems(3) f by (auto simp: d split: prod.splits)
    have "k = length (xs[i := x]) - Suc i" using Suc.hyps(2) by simp
    from Suc.hyps(1) [OF this b1(2), of w1 zs] i z(1)
    obtain b2 where "apply_bottomup f (int (length xs)) (int i + 1) b1 w1 = Inr (b2, w')"
        "holds b2 n (take (Suc i) (xs[i := x]) @ zs)"
      by (auto simp: add.commute)
    then show ?thesis
      using False i l f b1 z
      by (simp add: apply_bottomup.simps [of _ _ _ b] take_Suc_conv_app_nth)
  qed
qed

lemma apply_topdown_ok:
  "holds b n xs \<Longrightarrow> k \<le> length xs \<Longrightarrow> visited f (rev (take k xs)) w = (ys, w') \<Longrightarrow>
     \<exists>b'. apply_topdown f (int k - 1) b w = Inr (b', w') \<and> holds b' n (rev ys @ drop k xs)"
proof (induction k arbitrary: b xs w ys)
  case 0
  then show ?case by (simp add: apply_topdown.simps)
next
  case (Suc k)
  then have k: "k < length xs" by simp
  obtain stop x w1 where f: "f (xs ! k) w = (stop, x, w1)" by (cases "f (xs ! k) w")
  from Suc.prems(1) k obtain b1 where b1: "store b (int k) x = Inr b1" "holds b1 n (xs[k := x])"
    by (fastforce elim: store_inside [of b n xs "int k" x])
  have d: "rev (take (Suc k) xs) = xs ! k # rev (take k xs)"
    using k by (simp add: take_Suc_conv_app_nth)
  have l: "load b (int k) = Inr (xs ! k)" using Suc.prems(1) k by (simp add: load_holds)
  show ?case
  proof (cases stop)
    case True
    then have "ys = x # rev (take k xs)" "w' = w1" using Suc.prems(3) f by (auto simp: d)
    then show ?thesis
      using True k l f b1 by (simp add: apply_topdown.simps upd_conv_take_nth_drop)
  next
    case False
    then obtain zs where z: "visited f (rev (take k xs)) w1 = (zs, w')" "ys = x # zs"
      using Suc.prems(3) f by (auto simp: d split: prod.splits)
    with Suc.IH [of b1 "xs[k := x]" w1 zs] k b1(2)
    obtain b2 where "apply_topdown f (int k - 1) b1 w1 = Inr (b2, w')"
        "holds b2 n (rev zs @ drop k (xs[k := x]))"
      by auto
    moreover have "drop k (xs[k := x]) = x # drop (Suc k) xs"
      using k by (simp add: upd_conv_take_nth_drop)
    ultimately show ?thesis
      using False k l f b1 z by (simp add: apply_topdown.simps [of _ _ b])
  qed
qed

text \<open>\<open>zend_stack_apply\<close> on every branch: the elements are visited in the order asked for.\<close>

lemma stack_visit_ok:
  assumes "stack_ok st xs"
  shows "visited f xs w = (ys, w') \<Longrightarrow>
     \<exists>b. apply_bottomup f (zk_top st) 0 (zk_elements st) w = Inr (b, w') \<and>
       stack_ok (st\<lparr>zk_elements := b\<rparr>) ys"
    and "visited f (rev xs) w = (ys, w') \<Longrightarrow>
     \<exists>b. apply_topdown f (zk_top st - 1) (zk_elements st) w = Inr (b, w') \<and>
       stack_ok (st\<lparr>zk_elements := b\<rparr>) (rev ys)"
  using assms apply_bottomup_ok [of "zk_elements st" "zk_max st" xs 0 f w ys w']
    apply_topdown_ok [of "zk_elements st" "zk_max st" xs "length xs" f w ys w']
  by (auto simp: stack_ok_def dest: visited_length)

lemma stack_apply_ok:
  assumes "stack_ok st xs"
  obtains b where "zend_stack_apply st type f w =
        Inr (st\<lparr>zk_elements := b\<rparr>, snd (visited f (if type = ZEND_STACK_APPLY_TOPDOWN then rev xs else xs) w))"
    "stack_ok (st\<lparr>zk_elements := b\<rparr>)
       (if type = ZEND_STACK_APPLY_TOPDOWN then rev (fst (visited f (rev xs) w)) else fst (visited f xs w))"
  using stack_visit_ok [OF assms, of f w, OF prod.collapse [symmetric]]
  by (cases type) (auto simp: zend_stack_apply_def)

lemma stack_apply_with_argument_eq:
  "zend_stack_apply_with_argument st type f arg = zend_stack_apply st type (\<lambda>x. f x arg)"
  by (simp add: fun_eq_iff zend_stack_apply_with_argument_def zend_stack_apply_def)

lemma stack_clean_ok:
  assumes ok: "stack_ok st xs"
    and v: "(case func of Some f \<Rightarrow> visited (\<lambda>x w. (False, f x w)) xs w | None \<Rightarrow> (xs, w)) = (ys, w')"
  obtains st' where "zend_stack_clean st func free_elements w = Inr (st', w')"
    "stack_ok st' (if free_elements then [] else ys)"
proof -
  have "\<exists>b. (case func of Some f \<Rightarrow> apply_bottomup (\<lambda>x w. (False, f x w)) (zk_top st) 0 (zk_elements st) w
            | None \<Rightarrow> Inr (zk_elements st, w)) = Inr (b, w') \<and> stack_ok (st\<lparr>zk_elements := b\<rparr>) ys"
    using ok v stack_visit_ok(1) [OF ok] by (cases func) auto
  then obtain b where b: "(case func of Some f \<Rightarrow>
              apply_bottomup (\<lambda>x w. (False, f x w)) (zk_top st) 0 (zk_elements st) w
            | None \<Rightarrow> Inr (zk_elements st, w)) = Inr (b, w')" "stack_ok (st\<lparr>zk_elements := b\<rparr>) ys"
    by blast
  have "b \<noteq> NullPtr \<Longrightarrow> free b = Inr Freed" using b(2) free_holds by (auto simp: stack_ok_def)
  then have "zend_stack_clean st func free_elements w =
      Inr (if free_elements then st\<lparr>zk_elements := NullPtr, zk_top := 0, zk_max := 0\<rparr>
           else st\<lparr>zk_elements := b\<rparr>, w')"
    unfolding zend_stack_clean_def b(1) by simp
  moreover have "stack_ok (if free_elements then st\<lparr>zk_elements := NullPtr, zk_top := 0, zk_max := 0\<rparr>
           else st\<lparr>zk_elements := b\<rparr>) (if free_elements then [] else ys)"
    using b(2) by (simp add: stack_ok_def INT_MAX_def)
  ultimately show thesis by (rule that)
qed

text \<open>
  \<open>zend_stack_destroy\<close> never fails on a well-formed stack. The counters it leaves
  are not those of an empty stack: \<open>zend_stack_init\<close> has to come before the next push.
\<close>

lemma stack_destroy_ok:
  assumes "stack_ok st xs"
  shows "zend_stack_destroy st = Inr (st\<lparr>zk_elements := NullPtr\<rparr>)"
  using assms free_holds [of "zk_elements st" "zk_max st" xs]
  by (auto simp: stack_ok_def zend_stack_destroy_def)

text \<open>
  What the code does not check: \<open>zend_stack_del_top\<close> on an empty stack makes the
  count negative, and the next push writes before the array, or through the null
  pointer when there is none. A pop has to be guarded by the caller.
\<close>

lemma del_top_of_empty:
  assumes "stack_ok st []"
  obtains st' where "zend_stack_del_top st = Inr st'" "zk_top st' = -1"
    "zend_stack_push x st' = Inl (if zk_elements st = NullPtr then BadPointer else OutOfBounds)"
proof -
  let ?st = "st\<lparr>zk_top := -1\<rparr>"
  have "zend_stack_del_top st = Inr ?st"
    using assms by (simp add: stack_ok_def zend_stack_del_top_def add_int_def INT_MAX_def)
  moreover have "0 \<le> zk_max st" using assms by (auto simp: stack_ok_def holds_def split: block.splits)
  then have "zend_stack_push x ?st = Inl (if zk_elements st = NullPtr then BadPointer else OutOfBounds)"
    using assms by (auto simp: zend_stack_push_def stack_ok_def holds_def store_def split: block.splits)
  ultimately show thesis by (intro that [of ?st]) simp_all
qed

subsection \<open>The contract of a stack\<close>

text \<open>
  What the users of either stack rely on: a push within the limit succeeds, and a
  pop returns what the last push stored. A sequence of both then behaves as on a
  list, the last element on top.
\<close>

datatype 'a stack_op = Push 'a | Pop

primrec run_ops ::
  "('a \<Rightarrow> 's \<Rightarrow> error + 's) \<Rightarrow> ('s \<Rightarrow> error + 'a \<times> 's) \<Rightarrow> 'a stack_op list \<Rightarrow> 's \<Rightarrow> error + 'a list \<times> 's" where
  "run_ops push pop [] s = Inr ([], s)"
| "run_ops push pop (a # ops) s =
     (case a of
        Push x \<Rightarrow> bindE (push x s) (run_ops push pop ops)
      | Pop \<Rightarrow> bindE (pop s) (\<lambda>(x, s). bindE (run_ops push pop ops s) (\<lambda>(out, s). Inr (x # out, s))))"

text \<open>The same on a list: \<open>None\<close> when the sequence pops an empty stack.\<close>

primrec run_list :: "'a stack_op list \<Rightarrow> 'a list \<Rightarrow> ('a list \<times> 'a list) option" where
  "run_list [] xs = Some ([], xs)"
| "run_list (a # ops) xs =
     (case a of
        Push x \<Rightarrow> run_list ops (xs @ [x])
      | Pop \<Rightarrow>
          if xs = [] then None
          else map_option (\<lambda>(out, ys). (last xs # out, ys)) (run_list ops (butlast xs)))"

locale lifo =
  fixes inv :: "'s \<Rightarrow> 'a list \<Rightarrow> bool"
    and push :: "'a \<Rightarrow> 's \<Rightarrow> error + 's"
    and pop :: "'s \<Rightarrow> error + 'a \<times> 's"
    and limit :: nat
  assumes push_ok: "inv s xs \<Longrightarrow> length xs < limit \<Longrightarrow> \<exists>s'. push x s = Inr s' \<and> inv s' (xs @ [x])"
    and pop_ok: "inv s xs \<Longrightarrow> xs \<noteq> [] \<Longrightarrow> \<exists>s'. pop s = Inr (last xs, s') \<and> inv s' (butlast xs)"
begin

lemma run_refines:
  "inv s xs \<Longrightarrow> run_list ops xs = Some (out, ys) \<Longrightarrow> length xs + length ops \<le> limit \<Longrightarrow>
     \<exists>s'. run_ops push pop ops s = Inr (out, s') \<and> inv s' ys"
proof (induction ops arbitrary: s xs out)
  case Nil
  then show ?case by simp
next
  case (Cons a ops)
  show ?case
  proof (cases a)
    case (Push x)
    from push_ok [OF Cons.prems(1), of x] Cons.prems(3)
    obtain s1 where "push x s = Inr s1" "inv s1 (xs @ [x])" by auto
    with Cons.IH [of s1 "xs @ [x]" out] Cons.prems Push show ?thesis by simp
  next
    case Pop
    then have ne: "xs \<noteq> []" using Cons.prems(2) by auto
    from pop_ok [OF Cons.prems(1) ne]
    obtain s1 where s1: "pop s = Inr (last xs, s1)" "inv s1 (butlast xs)" by auto
    from Pop ne Cons.prems(2) obtain out' where o: "run_list ops (butlast xs) = Some (out', ys)"
        "out = last xs # out'" by auto
    have "length (butlast xs) + length ops \<le> limit" using Cons.prems(3) by (simp add: le_diff_conv)
    from Cons.IH [OF s1(2) o(1) this]
    obtain s' where "run_ops push pop ops s1 = Inr (out', s')" "inv s' ys" by auto
    with Pop s1 o show ?thesis by auto
  qed
qed

end

text \<open>The compiler pops a \<open>zend_stack\<close> by reading its top and then deleting it.\<close>

definition stack_push :: "'a \<Rightarrow> 'a zend_stack \<Rightarrow> error + 'a zend_stack" where
  "stack_push x st = bindE (zend_stack_push x st) (\<lambda>(i, st). Inr st)"

definition stack_pop :: "'a zend_stack \<Rightarrow> error + 'a \<times> 'a zend_stack" where
  "stack_pop st =
     bindE (zend_stack_top st) (\<lambda>e.
     case e of
       None \<Rightarrow> Inl BadPointer
     | Some x \<Rightarrow> bindE (zend_stack_del_top st) (\<lambda>st. Inr (x, st)))"

interpretation zk: lifo stack_ok stack_push stack_pop "nat (INT_MAX - STACK_BLOCK_SIZE)"
proof
  fix st :: "'a zend_stack" and xs x
  assume "stack_ok st xs" "length xs < nat (INT_MAX - STACK_BLOCK_SIZE)"
  then have "stack_ok st xs" "int (length xs) + STACK_BLOCK_SIZE \<le> INT_MAX" by auto
  then obtain st' where "zend_stack_push x st = Inr (int (length xs), st')" "stack_ok st' (xs @ [x])"
    by (rule stack_push_ok)
  then show "\<exists>st'. stack_push x st = Inr st' \<and> stack_ok st' (xs @ [x])"
    by (simp add: stack_push_def)
next
  fix st :: "'a zend_stack" and xs
  assume a: "stack_ok st xs" "xs \<noteq> []"
  then show "\<exists>st'. stack_pop st = Inr (last xs, st') \<and> stack_ok st' (butlast xs)"
    using stack_del_top_ok [OF a] by (simp add: stack_pop_def stack_top_ok)
qed

end
