(* ===== verification/ZendPtrStack.thy ===== *)
theory ZendPtrStack
  imports ZendStack
begin

text \<open>
  The stack of pointers, \<open>Zend/zend_ptr_stack.c\<close> and its header: it keeps beside
  the count \<open>top\<close> a pointer \<open>top_element\<close> to the first free cell, and both have to
  stay in step. A pointer is a value of type \<open>'p\<close>; a pointer into the array is the
  index it points to, \<open>None\<close> when it is null.
\<close>

record 'p zend_ptr_stack =
  ps_top :: int
  ps_max :: int
  ps_elements :: "'p block"
  ps_top_element :: "int option"
  ps_persistent :: bool

definition PTR_STACK_BLOCK_SIZE :: int where
  "PTR_STACK_BLOCK_SIZE = 64"

definition zend_ptr_stack_init_ex :: "bool \<Rightarrow> 'p zend_ptr_stack" where
  "zend_ptr_stack_init_ex persistent =
     \<lparr>ps_top = 0, ps_max = 0, ps_elements = NullPtr, ps_top_element = None,
      ps_persistent = persistent\<rparr>"

definition zend_ptr_stack_init :: "'p zend_ptr_stack" where
  "zend_ptr_stack_init = zend_ptr_stack_init_ex False"

text \<open>
  \<open>ZEND_PTR_STACK_RESIZE_IF_NEEDED\<close>: the array grows by whole blocks until the new
  elements fit, and \<open>top_element\<close> is set again, since the array may have moved.
\<close>

lemma bindE_cong [fundef_cong]:
  "m = m' \<Longrightarrow> (\<And>x. m' = Inr x \<Longrightarrow> f x = f' x) \<Longrightarrow> bindE m f = bindE m' f'"
  by (auto simp: bindE_def split: sum.splits)

function grow_max :: "int \<Rightarrow> int \<Rightarrow> error + int" where
  "grow_max need m =
     bindE (add_int m PTR_STACK_BLOCK_SIZE) (\<lambda>m.
     if need > m then grow_max need m else Inr m)"
  by pat_completeness auto
termination
  by (relation "measure (\<lambda>(need, m). nat (INT_MAX - m))")
    (auto simp: add_int_def PTR_STACK_BLOCK_SIZE_def split: if_splits)

declare grow_max.simps [simp del]

definition resize_if_needed :: "int \<Rightarrow> 'p zend_ptr_stack \<Rightarrow> error + 'p zend_ptr_stack" where
  "resize_if_needed cnt st =
     bindE (add_int (ps_top st) cnt) (\<lambda>need.
     if need > ps_max st then
       bindE (grow_max need (ps_max st)) (\<lambda>m.
       bindE (realloc (ps_elements st) m) (\<lambda>b.
       Inr (st\<lparr>ps_max := m, ps_elements := b, ps_top_element := Some (ps_top st)\<rparr>)))
     else Inr st)"

text \<open>\<open>*(top_element++) = p\<close> and \<open>*(--top_element)\<close>.\<close>

definition put_top :: "'p \<Rightarrow> 'p zend_ptr_stack \<Rightarrow> error + 'p zend_ptr_stack" where
  "put_top p st =
     (case ps_top_element st of
        None \<Rightarrow> Inl BadPointer
      | Some i \<Rightarrow> bindE (store (ps_elements st) i p) (\<lambda>b.
          Inr (st\<lparr>ps_elements := b, ps_top_element := Some (i + 1)\<rparr>)))"

definition get_top :: "'p zend_ptr_stack \<Rightarrow> error + 'p \<times> 'p zend_ptr_stack" where
  "get_top st =
     (case ps_top_element st of
        None \<Rightarrow> Inl BadPointer
      | Some i \<Rightarrow> bindE (load (ps_elements st) (i - 1)) (\<lambda>p.
          Inr (p, st\<lparr>ps_top_element := Some (i - 1)\<rparr>)))"

definition add_top :: "int \<Rightarrow> 'p zend_ptr_stack \<Rightarrow> error + 'p zend_ptr_stack" where
  "add_top n st = bindE (add_int (ps_top st) n) (\<lambda>t. Inr (st\<lparr>ps_top := t\<rparr>))"

subsection \<open>The operations\<close>

definition zend_ptr_stack_push :: "'p \<Rightarrow> 'p zend_ptr_stack \<Rightarrow> error + 'p zend_ptr_stack" where
  "zend_ptr_stack_push p st =
     bindE (resize_if_needed 1 st) (\<lambda>st.
     bindE (add_top 1 st) (\<lambda>st.
     put_top p st))"

definition zend_ptr_stack_2_push :: "'p \<Rightarrow> 'p \<Rightarrow> 'p zend_ptr_stack \<Rightarrow> error + 'p zend_ptr_stack" where
  "zend_ptr_stack_2_push a b st =
     bindE (resize_if_needed 2 st) (\<lambda>st.
     bindE (add_top 2 st) (\<lambda>st.
     bindE (put_top a st) (\<lambda>st.
     put_top b st)))"

definition zend_ptr_stack_3_push ::
  "'p \<Rightarrow> 'p \<Rightarrow> 'p \<Rightarrow> 'p zend_ptr_stack \<Rightarrow> error + 'p zend_ptr_stack" where
  "zend_ptr_stack_3_push a b c st =
     bindE (resize_if_needed 3 st) (\<lambda>st.
     bindE (add_top 3 st) (\<lambda>st.
     bindE (put_top a st) (\<lambda>st.
     bindE (put_top b st) (\<lambda>st.
     put_top c st))))"

text \<open>The arguments of \<open>zend_ptr_stack_n_push\<close> are a list of \<open>count\<close> pointers.\<close>

primrec push_args :: "'p list \<Rightarrow> 'p zend_ptr_stack \<Rightarrow> error + 'p zend_ptr_stack" where
  "push_args [] st = Inr st"
| "push_args (p # ps) st =
     bindE (add_top 1 st) (\<lambda>st.
     bindE (put_top p st) (push_args ps))"

definition zend_ptr_stack_n_push :: "'p list \<Rightarrow> 'p zend_ptr_stack \<Rightarrow> error + 'p zend_ptr_stack" where
  "zend_ptr_stack_n_push ps st =
     bindE (resize_if_needed (int (length ps)) st) (push_args ps)"

definition zend_ptr_stack_pop :: "'p zend_ptr_stack \<Rightarrow> error + 'p \<times> 'p zend_ptr_stack" where
  "zend_ptr_stack_pop st = bindE (add_top (-1) st) get_top"

definition zend_ptr_stack_2_pop :: "'p zend_ptr_stack \<Rightarrow> error + ('p \<times> 'p) \<times> 'p zend_ptr_stack" where
  "zend_ptr_stack_2_pop st =
     bindE (get_top st) (\<lambda>(a, st).
     bindE (get_top st) (\<lambda>(b, st).
     bindE (add_top (-2) st) (\<lambda>st.
     Inr ((a, b), st))))"

definition zend_ptr_stack_3_pop ::
  "'p zend_ptr_stack \<Rightarrow> error + ('p \<times> 'p \<times> 'p) \<times> 'p zend_ptr_stack" where
  "zend_ptr_stack_3_pop st =
     bindE (get_top st) (\<lambda>(a, st).
     bindE (get_top st) (\<lambda>(b, st).
     bindE (get_top st) (\<lambda>(c, st).
     bindE (add_top (-3) st) (\<lambda>st.
     Inr ((a, b, c), st)))))"

text \<open>\<open>zend_ptr_stack_n_pop\<close> returns the pointers in the order it stores them.\<close>

primrec zend_ptr_stack_n_pop :: "nat \<Rightarrow> 'p zend_ptr_stack \<Rightarrow> error + 'p list \<times> 'p zend_ptr_stack" where
  "zend_ptr_stack_n_pop 0 st = Inr ([], st)"
| "zend_ptr_stack_n_pop (Suc n) st =
     bindE (get_top st) (\<lambda>(p, st).
     bindE (add_top (-1) st) (\<lambda>st.
     bindE (zend_ptr_stack_n_pop n st) (\<lambda>(ps, st).
     Inr (p # ps, st))))"

definition zend_ptr_stack_top :: "'p zend_ptr_stack \<Rightarrow> error + 'p" where
  "zend_ptr_stack_top st = load (ps_elements st) (ps_top st - 1)"

definition zend_ptr_stack_num_elements :: "'p zend_ptr_stack \<Rightarrow> int" where
  "zend_ptr_stack_num_elements st = ps_top st"

text \<open>The array is freed, and the stack keeps its pointer to it.\<close>

definition zend_ptr_stack_destroy :: "'p zend_ptr_stack \<Rightarrow> error + 'p zend_ptr_stack" where
  "zend_ptr_stack_destroy st =
     (if ps_elements st \<noteq> NullPtr then
        bindE (free (ps_elements st)) (\<lambda>b. Inr (st\<lparr>ps_elements := b\<rparr>))
      else Inr st)"

text \<open>
  \<open>zend_ptr_stack_apply\<close> goes from the top to the bottom, and
  \<open>zend_ptr_stack_reverse_apply\<close> from the bottom to the top. The callback gets the
  pointer itself, and \<open>'s\<close> is what it can change.
\<close>

primrec ptr_down :: "('p \<Rightarrow> 's \<Rightarrow> 's) \<Rightarrow> 'p block \<Rightarrow> nat \<Rightarrow> 's \<Rightarrow> error + 's" where
  "ptr_down f b 0 w = Inr w"
| "ptr_down f b (Suc i) w = bindE (load b (int i)) (\<lambda>p. ptr_down f b i (f p w))"

function ptr_up :: "('p \<Rightarrow> 's \<Rightarrow> 's) \<Rightarrow> 'p block \<Rightarrow> int \<Rightarrow> int \<Rightarrow> 's \<Rightarrow> error + 's" where
  "ptr_up f b tp i w =
     (if i < tp then bindE (load b i) (\<lambda>p. ptr_up f b tp (i + 1) (f p w)) else Inr w)"
  by pat_completeness auto
termination
  by (relation "measure (\<lambda>(f, b, tp, i, w). nat (tp - i))") auto

declare ptr_up.simps [simp del]

definition zend_ptr_stack_apply :: "'p zend_ptr_stack \<Rightarrow> ('p \<Rightarrow> 's \<Rightarrow> 's) \<Rightarrow> 's \<Rightarrow> error + 's" where
  "zend_ptr_stack_apply st f w = ptr_down f (ps_elements st) (nat (ps_top st)) w"

definition zend_ptr_stack_reverse_apply :: "'p zend_ptr_stack \<Rightarrow> ('p \<Rightarrow> 's \<Rightarrow> 's) \<Rightarrow> 's \<Rightarrow> error + 's" where
  "zend_ptr_stack_reverse_apply st f w = ptr_up f (ps_elements st) (ps_top st) 0 w"

text \<open>
  \<open>zend_ptr_stack_clean\<close>: the callback on every pointer, then, when asked,
  \<open>pefree\<close> of every pointer (\<open>fr\<close> is what freeing a pointer does to the state). The
  array stays allocated, and the stack is empty again.
\<close>

definition zend_ptr_stack_clean ::
  "'p zend_ptr_stack \<Rightarrow> ('p \<Rightarrow> 's \<Rightarrow> 's) \<Rightarrow> bool \<Rightarrow> ('p \<Rightarrow> 's \<Rightarrow> 's) \<Rightarrow> 's \<Rightarrow>
     error + 'p zend_ptr_stack \<times> 's" where
  "zend_ptr_stack_clean st f free_elements fr w =
     bindE (zend_ptr_stack_apply st f w) (\<lambda>w.
     bindE (if free_elements then ptr_down fr (ps_elements st) (nat (ps_top st)) w else Inr w) (\<lambda>w.
     Inr (st\<lparr>ps_top := 0, ps_top_element := (if ps_elements st = NullPtr then None else Some 0)\<rparr>, w)))"

subsection \<open>The invariant\<close>

definition ptr_ok :: "'p zend_ptr_stack \<Rightarrow> 'p list \<Rightarrow> bool" where
  "ptr_ok st ps \<longleftrightarrow>
     ps_top st = int (length ps) \<and> ps_max st mod PTR_STACK_BLOCK_SIZE = 0 \<and> ps_max st \<le> INT_MAX \<and>
     holds (ps_elements st) (ps_max st) ps \<and>
     ps_top_element st = (if ps_elements st = NullPtr then None else Some (int (length ps)))"

text \<open>Between the steps of one operation the count runs ahead of the pointer.\<close>

definition ptr_mid :: "'p zend_ptr_stack \<Rightarrow> 'p list \<Rightarrow> int \<Rightarrow> bool" where
  "ptr_mid st ps t \<longleftrightarrow>
     ps_top st = t \<and> ps_max st mod PTR_STACK_BLOCK_SIZE = 0 \<and> ps_max st \<le> INT_MAX \<and>
     holds (ps_elements st) (ps_max st) ps \<and>
     ps_top_element st = (if ps_elements st = NullPtr then None else Some (int (length ps)))"

lemma ptr_ok_mid: "ptr_ok st ps \<longleftrightarrow> ptr_mid st ps (int (length ps))"
  by (auto simp: ptr_ok_def ptr_mid_def)

lemma ptr_init_ok: "ptr_ok (zend_ptr_stack_init_ex p) []"
  by (simp add: ptr_ok_def zend_ptr_stack_init_ex_def INT_MAX_def)

lemma grow_max_ok:
  "0 \<le> m \<Longrightarrow> m < need \<Longrightarrow> need + PTR_STACK_BLOCK_SIZE \<le> INT_MAX \<Longrightarrow> m mod PTR_STACK_BLOCK_SIZE = 0 \<Longrightarrow>
     \<exists>m'. grow_max need m = Inr m' \<and> need \<le> m' \<and> m < m' \<and> m' \<le> INT_MAX \<and>
       m' < need + PTR_STACK_BLOCK_SIZE \<and> m' mod PTR_STACK_BLOCK_SIZE = 0"
proof (induction need m rule: grow_max.induct)
  case (1 need m)
  let ?m = "m + PTR_STACK_BLOCK_SIZE"
  have s: "0 < PTR_STACK_BLOCK_SIZE" by (simp add: PTR_STACK_BLOCK_SIZE_def)
  have a: "add_int m PTR_STACK_BLOCK_SIZE = Inr ?m"
    using "1.prems" s by (simp add: add_int_def INT_MAX_def)
  show ?case
  proof (cases "need > ?m")
    case True
    from "1.IH" [OF a True] "1.prems" s True
    obtain m' where "grow_max need ?m = Inr m'" "need \<le> m'" "?m < m'" "m' \<le> INT_MAX"
        "m' < need + PTR_STACK_BLOCK_SIZE" "m' mod PTR_STACK_BLOCK_SIZE = 0"
      by auto
    with True a s show ?thesis by (simp add: grow_max.simps [of need m])
  next
    case False
    with "1.prems" s a show ?thesis by (simp add: grow_max.simps [of need m])
  qed
qed

lemma resize_ok:
  assumes ok: "ptr_ok st ps" and room: "int (length ps) + n + PTR_STACK_BLOCK_SIZE \<le> INT_MAX" and n: "0 \<le> n"
  obtains st' where "resize_if_needed n st = Inr st'" "ptr_ok st' ps"
    "int (length ps) + n \<le> ps_max st'" "ps_persistent st' = ps_persistent st"
proof -
  let ?need = "int (length ps) + n"
  note s = ok [unfolded ptr_ok_def]
  have len: "0 \<le> ps_max st" "int (length ps) \<le> ps_max st"
    using s holds_length [of "ps_elements st" "ps_max st" ps] by auto
  have a: "add_int (ps_top st) n = Inr ?need"
    using s n room by (simp add: add_int_def INT_MAX_def PTR_STACK_BLOCK_SIZE_def)
  show thesis
  proof (cases "?need > ps_max st")
    case True
    from grow_max_ok [OF len(1) True] room s
    obtain m where m: "grow_max ?need (ps_max st) = Inr m" "?need \<le> m" "ps_max st < m" "m \<le> INT_MAX"
        "m mod PTR_STACK_BLOCK_SIZE = 0" by auto
    have "holds (ps_elements st) (ps_max st) ps" using s by simp
    moreover have "ps_max st \<le> m" "0 < m" using m len by auto
    ultimately obtain b where b: "realloc (ps_elements st) m = Inr b" "holds b m ps"
      by (rule realloc_holds)
    have "b \<noteq> NullPtr" using b(2) \<open>0 < m\<close> by (auto simp: holds_def)
    let ?st = "st\<lparr>ps_max := m, ps_elements := b, ps_top_element := Some (ps_top st)\<rparr>"
    have "resize_if_needed n st = Inr ?st"
      using True a m b by (simp add: resize_if_needed_def)
    moreover have "ptr_ok ?st ps" using s m b \<open>b \<noteq> NullPtr\<close> by (simp add: ptr_ok_def)
    ultimately show thesis using m by (intro that [of ?st]) auto
  next
    case False
    with a have "resize_if_needed n st = Inr st" by (simp add: resize_if_needed_def)
    with False ok show thesis by (intro that [of st]) auto
  qed
qed

lemma add_top_ok:
  "ptr_mid st ps t \<Longrightarrow> 0 \<le> t + n \<Longrightarrow> t + n \<le> INT_MAX \<Longrightarrow>
     add_top n st = Inr (st\<lparr>ps_top := t + n\<rparr>) \<and> ptr_mid (st\<lparr>ps_top := t + n\<rparr>) ps (t + n)"
  by (simp add: ptr_mid_def add_top_def add_int_def INT_MAX_def)

lemma put_top_ok:
  assumes "ptr_mid st ps t" "int (length ps) < ps_max st"
  obtains st' where "put_top p st = Inr st'" "ptr_mid st' (ps @ [p]) t" "ps_max st' = ps_max st"
    "ps_persistent st' = ps_persistent st"
proof -
  have h: "holds (ps_elements st) (ps_max st) ps" using assms(1) by (simp add: ptr_mid_def)
  then obtain b where b: "store (ps_elements st) (int (length ps)) p = Inr b" "holds b (ps_max st) (ps @ [p])"
    using assms(2) by (rule store_append)
  have "ps_elements st \<noteq> NullPtr" "b \<noteq> NullPtr"
    using b by (auto simp: store_def holds_def)
  then show thesis
    using assms b
    by (intro that [of "st\<lparr>ps_elements := b, ps_top_element := Some (int (length ps) + 1)\<rparr>"])
      (auto simp: ptr_mid_def put_top_def)
qed

lemma get_top_ok:
  assumes "ptr_mid st ps t" "ps \<noteq> []"
  obtains st' where "get_top st = Inr (last ps, st')" "ptr_mid st' (butlast ps) t"
    "ps_persistent st' = ps_persistent st"
proof -
  have h: "holds (ps_elements st) (ps_max st) ps" using assms(1) by (simp add: ptr_mid_def)
  have e: "int (length ps) - 1 = int (length (butlast ps))"
    using assms(2) unfolding length_butlast by (cases ps) auto
  have "ps_elements st \<noteq> NullPtr" using h assms(2) by (auto simp: holds_def)
  moreover have "load (ps_elements st) (int (length ps) - 1) = Inr (last ps)"
    using h assms(2) nat_int_minus_one [of ps] by (simp add: load_holds last_conv_nth)
  moreover have "holds (ps_elements st) (ps_max st) (butlast ps)"
    unfolding butlast_conv_take using h by (rule holds_take)
  ultimately show thesis
    using assms e
    by (intro that [of "st\<lparr>ps_top_element := Some (int (length (butlast ps)))\<rparr>"])
      (simp_all add: ptr_mid_def get_top_def del: length_butlast)
qed

subsection \<open>Every operation on a well-formed stack\<close>

text \<open>
  The sums these steps form are bounded by the room the callers leave; the
  limit of a stack is \<open>INT_MAX\<close> less one block.
\<close>

definition ptr_room :: "nat \<Rightarrow> bool" where
  "ptr_room n \<longleftrightarrow> int n + PTR_STACK_BLOCK_SIZE \<le> INT_MAX"

lemma ptr_room_le: "ptr_room n \<Longrightarrow> int n \<le> INT_MAX"
  by (simp add: ptr_room_def PTR_STACK_BLOCK_SIZE_def)

lemma ptr_room_mono: "ptr_room n \<Longrightarrow> m \<le> n \<Longrightarrow> ptr_room m"
  by (simp add: ptr_room_def)

lemma push_args_ok:
  "ptr_ok st ps \<Longrightarrow> int (length ps) + int (length qs) \<le> ps_max st \<Longrightarrow>
     \<exists>st'. push_args qs st = Inr st' \<and> ptr_ok st' (ps @ qs) \<and> ps_persistent st' = ps_persistent st"
proof (induction qs arbitrary: st ps)
  case Nil
  then show ?case by simp
next
  case (Cons q qs)
  have mid: "ptr_mid st ps (int (length ps))" using Cons.prems(1) by (simp add: ptr_ok_mid)
  have "int (length ps) + 1 \<le> INT_MAX" using Cons.prems mid by (simp add: ptr_mid_def)
  with add_top_ok [OF mid, of 1]
  have a: "add_top 1 st = Inr (st\<lparr>ps_top := int (length ps) + 1\<rparr>)"
      "ptr_mid (st\<lparr>ps_top := int (length ps) + 1\<rparr>) ps (int (length ps) + 1)" by auto
  obtain s1 where s1: "put_top q (st\<lparr>ps_top := int (length ps) + 1\<rparr>) = Inr s1"
      "ptr_mid s1 (ps @ [q]) (int (length ps) + 1)" "ps_max s1 = ps_max st"
      "ps_persistent s1 = ps_persistent st"
    by (rule put_top_ok [OF a(2), of q]) (use Cons.prems(2) in auto)
  have "ptr_ok s1 (ps @ [q])" using s1(2) by (simp add: ptr_ok_mid add.commute)
  from Cons.IH [OF this] Cons.prems(2) s1(3) show ?case using a s1(1,4) by auto
qed

lemma n_push_ok:
  assumes "ptr_ok st ps" "ptr_room (length ps + length qs)"
  obtains st' where "zend_ptr_stack_n_push qs st = Inr st'" "ptr_ok st' (ps @ qs)"
    "ps_persistent st' = ps_persistent st"
proof -
  have "int (length ps) + int (length qs) + PTR_STACK_BLOCK_SIZE \<le> INT_MAX" "0 \<le> int (length qs)"
    using assms(2) by (auto simp: ptr_room_def)
  then obtain s1 where s1: "resize_if_needed (int (length qs)) st = Inr s1" "ptr_ok s1 ps"
      "int (length ps) + int (length qs) \<le> ps_max s1" "ps_persistent s1 = ps_persistent st"
    by (rule resize_ok [OF assms(1)])
  from push_args_ok [OF s1(2,3)] s1 show thesis
    using that by (auto simp: zend_ptr_stack_n_push_def)
qed

text \<open>The unrolled pushes add to \<open>top\<close> once and then store the pointers.\<close>

lemma push_1_ok:
  assumes "ptr_ok st ps" "ptr_room (length ps + 1)"
  obtains st' where "zend_ptr_stack_push p st = Inr st'" "ptr_ok st' (ps @ [p])"
proof -
  obtain st' where "zend_ptr_stack_n_push [p] st = Inr st'" "ptr_ok st' (ps @ [p])"
    by (rule n_push_ok [OF assms(1), of "[p]"]) (use assms(2) in simp_all)
  then show thesis
    using that by (simp add: zend_ptr_stack_push_def zend_ptr_stack_n_push_def bindE_def split: sum.splits)
qed

lemma put_list_ok:
  assumes "ptr_mid st ps t" "int (length ps) + int (length qs) \<le> ps_max st"
  shows "\<exists>st'. foldl (\<lambda>m q. bindE m (put_top q)) (Inr st) qs = Inr st' \<and> ptr_mid st' (ps @ qs) t"
  using assms
proof (induction qs arbitrary: st ps)
  case Nil
  then show ?case by simp
next
  case (Cons q qs)
  obtain s1 where "put_top q st = Inr s1" "ptr_mid s1 (ps @ [q]) t" "ps_max s1 = ps_max st"
    by (rule put_top_ok [OF Cons.prems(1), of q]) (use Cons.prems(2) in auto)
  with Cons.IH [of s1 "ps @ [q]"] Cons.prems(2) show ?case by auto
qed

lemma push_many_ok:
  assumes ok: "ptr_ok st ps" and room: "ptr_room (length ps + length qs)" and n: "n = int (length qs)"
  obtains s1 s2 st' where "resize_if_needed n st = Inr s1" "add_top n s1 = Inr s2"
    "foldl (\<lambda>m q. bindE m (put_top q)) (Inr s2) qs = Inr st'" "ptr_ok st' (ps @ qs)"
proof -
  have "int (length ps) + n + PTR_STACK_BLOCK_SIZE \<le> INT_MAX" "0 \<le> n"
    using room n by (auto simp: ptr_room_def)
  then obtain s1 where s1: "resize_if_needed n st = Inr s1" "ptr_ok s1 ps" "int (length ps) + n \<le> ps_max s1"
    by (rule resize_ok [OF ok])
  let ?s = "s1\<lparr>ps_top := int (length ps) + n\<rparr>"
  have "add_top n s1 = Inr ?s \<and> ptr_mid ?s ps (int (length ps) + n)"
    using s1 ptr_room_le [OF room] n by (intro add_top_ok) (auto simp: ptr_ok_mid)
  moreover from this put_list_ok [of ?s ps "int (length ps) + n" qs] s1(3) n
  obtain st' where "foldl (\<lambda>m q. bindE m (put_top q)) (Inr ?s) qs = Inr st'"
      "ptr_mid st' (ps @ qs) (int (length ps) + n)" by auto
  ultimately show thesis using that s1(1) n by (simp add: ptr_ok_mid)
qed

lemma push_2_ok:
  assumes "ptr_ok st ps" "ptr_room (length ps + 2)"
  obtains st' where "zend_ptr_stack_2_push a b st = Inr st'" "ptr_ok st' (ps @ [a, b])"
  by (rule push_many_ok [OF assms(1), of "[a, b]" 2])
    (use assms(2) that in \<open>simp_all add: zend_ptr_stack_2_push_def eval_nat_numeral\<close>)

lemma push_3_ok:
  assumes "ptr_ok st ps" "ptr_room (length ps + 3)"
  obtains st' where "zend_ptr_stack_3_push a b c st = Inr st'" "ptr_ok st' (ps @ [a, b, c])"
  by (rule push_many_ok [OF assms(1), of "[a, b, c]" 3])
    (use assms(2) that in \<open>simp_all add: zend_ptr_stack_3_push_def eval_nat_numeral bindE_def split: sum.splits\<close>)

lemma pop_1_ok:
  assumes "ptr_ok st ps" "ps \<noteq> []"
  obtains st' where "zend_ptr_stack_pop st = Inr (last ps, st')" "ptr_ok st' (butlast ps)"
proof -
  have mid: "ptr_mid st ps (int (length ps))" using assms(1) by (simp add: ptr_ok_mid)
  have e: "int (length ps) + -1 = int (length (butlast ps))"
    using assms(2) unfolding length_butlast by (cases ps) auto
  have "add_top (-1) st = Inr (st\<lparr>ps_top := int (length ps) + -1\<rparr>) \<and>
      ptr_mid (st\<lparr>ps_top := int (length ps) + -1\<rparr>) ps (int (length ps) + -1)"
    using mid assms(2) holds_length [of "ps_elements st" "ps_max st" ps]
    by (intro add_top_ok) (auto simp: ptr_mid_def Suc_le_eq)
  note a = this
  obtain st' where st': "get_top (st\<lparr>ps_top := int (length ps) + -1\<rparr>) = Inr (last ps, st')"
    "ptr_mid st' (butlast ps) (int (length ps) + -1)"
    by (rule get_top_ok [OF a [THEN conjunct2] assms(2)])
  from st'(2) have "ptr_ok st' (butlast ps)" unfolding e ptr_ok_mid .
  moreover have "zend_ptr_stack_pop st = Inr (last ps, st')"
    unfolding zend_ptr_stack_pop_def a [THEN conjunct1] bindE_Inr by (rule st'(1))
  ultimately show thesis using that by blast
qed

text \<open>\<open>zend_ptr_stack_n_pop\<close> moves the pointer first and the count after it.\<close>

lemma get_top_snoc:
  assumes "ptr_mid st (qs @ [p]) t"
  obtains st' where "get_top st = Inr (p, st')" "ptr_mid st' qs t"
  by (rule get_top_ok [OF assms]) (use that in auto)

lemma top_room: "ptr_mid st ps t \<Longrightarrow> int (length ps) \<le> INT_MAX"
  using holds_length [of "ps_elements st" "ps_max st" ps] by (simp add: ptr_mid_def)

lemma add_top_to:
  assumes "ptr_mid st ps t" "t + n = int (length ps)"
  obtains st' where "add_top n st = Inr st'" "ptr_ok st' ps"
  using add_top_ok [OF assms(1), of n] top_room [OF assms(1)] assms(2) by (auto simp: ptr_ok_mid)

lemma n_pop_ok:
  "ptr_ok st (qs @ rs) \<Longrightarrow>
     \<exists>st'. zend_ptr_stack_n_pop (length rs) st = Inr (rev rs, st') \<and> ptr_ok st' qs"
proof (induction rs arbitrary: st rule: rev_induct)
  case Nil
  then show ?case by simp
next
  case (snoc r rs)
  have "ptr_mid st ((qs @ rs) @ [r]) (int (length qs + length rs + 1))"
    using snoc.prems by (simp add: ptr_ok_mid)
  then obtain s1 where s1: "get_top st = Inr (r, s1)" "ptr_mid s1 (qs @ rs) (int (length qs + length rs + 1))"
    by (rule get_top_snoc)
  obtain s2 where "add_top (-1) s1 = Inr s2" "ptr_ok s2 (qs @ rs)"
    by (rule add_top_to [OF s1(2)]) auto
  with snoc.IH [of s2] s1(1) show ?case by auto
qed

lemma pop_2_ok:
  assumes "ptr_ok st (qs @ [b, a])"
  obtains st' where "zend_ptr_stack_2_pop st = Inr ((a, b), st')" "ptr_ok st' qs"
proof -
  have "ptr_mid st ((qs @ [b]) @ [a]) (int (length qs + 2))" using assms by (simp add: ptr_ok_mid)
  then obtain s1 where s1: "get_top st = Inr (a, s1)" "ptr_mid s1 (qs @ [b]) (int (length qs + 2))"
    by (rule get_top_snoc)
  from s1(2) obtain s2 where s2: "get_top s1 = Inr (b, s2)" "ptr_mid s2 qs (int (length qs + 2))"
    by (rule get_top_snoc)
  obtain s3 where "add_top (-2) s2 = Inr s3" "ptr_ok s3 qs" by (rule add_top_to [OF s2(2)]) auto
  with s1 s2 that show thesis by (simp add: zend_ptr_stack_2_pop_def)
qed

lemma pop_3_ok:
  assumes "ptr_ok st (qs @ [c, b, a])"
  obtains st' where "zend_ptr_stack_3_pop st = Inr ((a, b, c), st')" "ptr_ok st' qs"
proof -
  have "ptr_mid st ((qs @ [c, b]) @ [a]) (int (length qs + 3))"
    using assms by (simp add: ptr_ok_mid add.commute)
  then obtain s1 where s1: "get_top st = Inr (a, s1)" "ptr_mid s1 (qs @ [c, b]) (int (length qs + 3))"
    by (rule get_top_snoc)
  have "ptr_mid s1 ((qs @ [c]) @ [b]) (int (length qs + 3))" using s1(2) by simp
  then obtain s2 where s2: "get_top s1 = Inr (b, s2)" "ptr_mid s2 (qs @ [c]) (int (length qs + 3))"
    by (rule get_top_snoc)
  from s2(2) obtain s3 where s3: "get_top s2 = Inr (c, s3)" "ptr_mid s3 qs (int (length qs + 3))"
    by (rule get_top_snoc)
  obtain s4 where "add_top (-3) s3 = Inr s4" "ptr_ok s4 qs" by (rule add_top_to [OF s3(2)]) auto
  with s1 s2 s3 that show thesis by (simp add: zend_ptr_stack_3_pop_def)
qed

lemma ptr_top_ok: "ptr_ok st ps \<Longrightarrow> ps \<noteq> [] \<Longrightarrow> zend_ptr_stack_top st = Inr (last ps)"
  using nat_int_minus_one [of ps]
  by (auto simp: ptr_ok_def zend_ptr_stack_top_def load_holds last_conv_nth Suc_le_eq)

lemma ptr_num_elements_ok: "ptr_ok st ps \<Longrightarrow> zend_ptr_stack_num_elements st = int (length ps)"
  by (simp add: ptr_ok_def zend_ptr_stack_num_elements_def)

lemma ptr_down_ok:
  "holds b n ps \<Longrightarrow> i \<le> length ps \<Longrightarrow> ptr_down f b i w = Inr (fold f (rev (take i ps)) w)"
  by (induction i arbitrary: w) (auto simp: load_holds take_Suc_conv_app_nth Suc_le_eq)

lemma ptr_up_ok:
  "holds b n ps \<Longrightarrow> i \<le> length ps \<Longrightarrow>
     ptr_up f b (int (length ps)) (int i) w = Inr (fold f (drop i ps) w)"
proof (induction "length ps - i" arbitrary: i w)
  case 0
  then show ?case by (simp add: ptr_up.simps)
next
  case (Suc k)
  then have i: "i < length ps" and k: "k = length ps - Suc i" by auto
  have "drop i ps = ps ! i # drop (Suc i) ps" using i by (simp add: Cons_nth_drop_Suc)
  then show ?case
    using Suc.hyps(1) [OF k Suc.prems(1)] i Suc.prems(1)
    by (simp add: ptr_up.simps [of _ _ _ "int i"] load_holds add.commute)
qed

lemma ptr_apply_ok: "ptr_ok st ps \<Longrightarrow> zend_ptr_stack_apply st f w = Inr (fold f (rev ps) w)"
  using ptr_down_ok [of "ps_elements st" "ps_max st" ps "length ps" f w]
  by (simp add: zend_ptr_stack_apply_def ptr_ok_def)

lemma ptr_reverse_apply_ok: "ptr_ok st ps \<Longrightarrow> zend_ptr_stack_reverse_apply st f w = Inr (fold f ps w)"
  using ptr_up_ok [of "ps_elements st" "ps_max st" ps 0 f w]
  by (simp add: zend_ptr_stack_reverse_apply_def ptr_ok_def)

lemma ptr_clean_ok:
  assumes "ptr_ok st ps"
  obtains st' where "zend_ptr_stack_clean st f free_elements fr w =
      Inr (st', (if free_elements then fold fr (rev ps) else id) (fold f (rev ps) w))"
    "ptr_ok st' []" "ps_max st' = ps_max st"
proof -
  have h: "holds (ps_elements st) (ps_max st) ps" "ps_top st = int (length ps)"
    using assms by (auto simp: ptr_ok_def)
  then have "holds (ps_elements st) (ps_max st) (take 0 ps)" by (intro holds_take)
  then show thesis
    using assms h that
    by (intro that [of "st\<lparr>ps_top := 0,
          ps_top_element := (if ps_elements st = NullPtr then None else Some 0)\<rparr>"])
      (auto simp: zend_ptr_stack_clean_def ptr_apply_ok ptr_ok_def ptr_down_ok [OF h(1)])
qed

text \<open>After \<open>zend_ptr_stack_destroy\<close> the stack points to freed memory.\<close>

lemma ptr_destroy_ok:
  assumes "ptr_ok st ps"
  shows "zend_ptr_stack_destroy st =
     Inr (st\<lparr>ps_elements := (if ps_elements st = NullPtr then NullPtr else Freed)\<rparr>)"
  using assms free_holds [of "ps_elements st" "ps_max st" ps]
  by (auto simp: ptr_ok_def zend_ptr_stack_destroy_def)

interpretation zp: lifo ptr_ok zend_ptr_stack_push zend_ptr_stack_pop
  "nat (INT_MAX - PTR_STACK_BLOCK_SIZE)"
proof
  fix st :: "'p zend_ptr_stack" and ps p
  assume "ptr_ok st ps" "length ps < nat (INT_MAX - PTR_STACK_BLOCK_SIZE)"
  then have "ptr_ok st ps" "ptr_room (length ps + 1)" by (auto simp: ptr_room_def)
  then obtain st' where "zend_ptr_stack_push p st = Inr st'" "ptr_ok st' (ps @ [p])"
    by (rule push_1_ok)
  then show "\<exists>st'. zend_ptr_stack_push p st = Inr st' \<and> ptr_ok st' (ps @ [p])" by blast
next
  fix st :: "'p zend_ptr_stack" and ps
  assume "ptr_ok st ps" "ps \<noteq> []"
  then obtain st' where "zend_ptr_stack_pop st = Inr (last ps, st')" "ptr_ok st' (butlast ps)"
    by (rule pop_1_ok)
  then show "\<exists>st'. zend_ptr_stack_pop st = Inr (last ps, st') \<and> ptr_ok st' (butlast ps)" by blast
qed

end
