(* ===== verification/ListTheorems.thy ===== *)
theory ListTheorems
  imports ZendLlistSort ZendPtrStack
begin

text \<open>
  The properties of the linked lists and of the stacks. A sequence of edits of a
  list is compared with the same edits of a sequence of values, a sequence of
  pushes and pops with the same on a sequence.
\<close>

subsection \<open>Edits of a linked list\<close>

datatype ('a, 'b, 's) edit =
    Add 'a
  | Prepend 'a
  | Delete 'b
  | RemoveTail
  | Apply "'a \<Rightarrow> 's \<Rightarrow> 'a \<times> 's"
  | Sweep "'a \<Rightarrow> 's \<Rightarrow> bool \<times> 'a \<times> 's"
  | Sort
  | Clean

text \<open>
  One call of \<open>zend_llist.c\<close>; the comparison functions of \<open>zend_llist_sort\<close> and
  \<open>zend_llist_del_element\<close> are the same for the whole sequence.
\<close>

definition edit ::
  "'a compare_func \<Rightarrow> ('a \<Rightarrow> 'b \<Rightarrow> bool) \<Rightarrow> ('a, 'b, 's) edit \<Rightarrow>
     ('a, 's) zend_llist \<times> 'a llist_store \<times> 's \<Rightarrow>
     error + ('a, 's) zend_llist \<times> 'a llist_store \<times> 's" where
  "edit cmp compare op s =
     (case s of (l, m, w) \<Rightarrow>
      case op of
        Add x \<Rightarrow> bindE (zend_llist_add_element x l m) (\<lambda>(l, m). Inr (l, m, w))
      | Prepend x \<Rightarrow> bindE (zend_llist_prepend_element x l m) (\<lambda>(l, m). Inr (l, m, w))
      | Delete y \<Rightarrow> zend_llist_del_element y compare l m w
      | RemoveTail \<Rightarrow> zend_llist_remove_tail l m w
      | Apply f \<Rightarrow> bindE (zend_llist_apply l f m w) (\<lambda>(m, w). Inr (l, m, w))
      | Sweep f \<Rightarrow> zend_llist_apply_with_del l f m w
      | Sort \<Rightarrow> bindE (zend_llist_sort l (by_data cmp) m) (\<lambda>(l, m). Inr (l, m, w))
      | Clean \<Rightarrow> zend_llist_clean l m w)"

primrec edits ::
  "'a compare_func \<Rightarrow> ('a \<Rightarrow> 'b \<Rightarrow> bool) \<Rightarrow> ('a, 'b, 's) edit list \<Rightarrow>
     ('a, 's) zend_llist \<times> 'a llist_store \<times> 's \<Rightarrow>
     error + ('a, 's) zend_llist \<times> 'a llist_store \<times> 's" where
  "edits cmp compare [] s = Inr s"
| "edits cmp compare (op # ops) s = bindE (edit cmp compare op s) (edits cmp compare ops)"

text \<open>The same edits on a sequence of values; \<open>d\<close> is the destructor.\<close>

definition edit_list ::
  "'a compare_func \<Rightarrow> ('a \<Rightarrow> 'b \<Rightarrow> bool) \<Rightarrow> ('a \<Rightarrow> 's \<Rightarrow> 's) \<Rightarrow> ('a, 'b, 's) edit \<Rightarrow>
     'a list \<times> 's \<Rightarrow> 'a list \<times> 's" where
  "edit_list cmp compare d op s =
     (case s of (xs, w) \<Rightarrow>
      case op of
        Add x \<Rightarrow> (xs @ [x], w)
      | Prepend x \<Rightarrow> (x # xs, w)
      | Delete y \<Rightarrow> (remove_first (\<lambda>x. compare x y) xs,
          case List.find (\<lambda>x. compare x y) xs of Some x \<Rightarrow> d x w | None \<Rightarrow> w)
      | RemoveTail \<Rightarrow> (butlast xs, if xs = [] then w else d (last xs) w)
      | Apply f \<Rightarrow> map_state f xs w
      | Sweep f \<Rightarrow> sweep_list d f xs w
      | Sort \<Rightarrow> (zend_sort cmp exchange xs, w)
      | Clean \<Rightarrow> ([], fold d xs w))"

text \<open>
  The two agree, the list uses no cell of the first store \<open>m0\<close> but those in \<open>A\<close>,
  and the other cells of \<open>m0\<close> are as they were.
\<close>

definition framed :: "nat set \<Rightarrow> 'a llist_store \<Rightarrow> 'a llist_store \<Rightarrow> nat list \<Rightarrow> bool" where
  "framed A m0 m ps \<longleftrightarrow> untouched A m0 m \<and> set ps \<subseteq> A \<union> - dom (cells m0)"

definition on_list ::
  "nat set \<Rightarrow> 'a llist_store \<Rightarrow> ('a \<Rightarrow> 's \<Rightarrow> 's) \<Rightarrow> ('a, 's) zend_llist \<times> 'a llist_store \<times> 's \<Rightarrow>
     'a list \<times> 's \<Rightarrow> bool" where
  "on_list A m0 d s t \<longleftrightarrow>
     (case s of (l, m, w) \<Rightarrow> \<exists>ps. llist_ok l m ps \<and> contents m ps = fst t \<and> w = snd t \<and>
        run_dtor l = d \<and> framed A m0 m ps)"

lemma framed_step:
  assumes "framed A m0 m ps" "untouched (set ps) m m'" "set ps' \<subseteq> set ps \<union> - dom (cells m)"
  shows "framed A m0 m' ps'"
proof -
  have d: "cells m q = cells m0 q" if "q \<in> dom (cells m0)" "q \<notin> A" for q
    using assms(1) that by (auto simp: framed_def untouched_def)
  have "cells m' q = cells m0 q" if "q \<in> dom (cells m0)" "q \<notin> A" for q
  proof -
    have "q \<notin> set ps" using assms(1) that by (auto simp: framed_def)
    moreover have "q \<in> dom (cells m)" using d [OF that] that(1) by (simp add: dom_def)
    ultimately show ?thesis using assms(2) d [OF that] by (auto simp: untouched_def)
  qed
  moreover have "set ps' \<subseteq> A \<union> - dom (cells m0)"
  proof
    fix q assume "q \<in> set ps'"
    then have "q \<in> set ps \<or> q \<notin> dom (cells m)" using assms(3) by auto
    moreover have "q \<in> dom (cells m)" if "q \<in> dom (cells m0)" "q \<notin> A" using d [OF that] that(1) by (simp add: dom_def)
    ultimately show "q \<in> A \<union> - dom (cells m0)" using assms(1) by (auto simp: framed_def)
  qed
  ultimately show ?thesis using assms(1,2) by (auto simp: framed_def untouched_def)
qed

lemma on_listI:
  assumes "framed A m0 m ps" "llist_ok l' m' ps'" "contents m' ps' = xs" "l_dtor l' = l_dtor l"
    "untouched (set ps) m m'" "set ps' \<subseteq> set ps \<union> - dom (cells m)"
  shows "on_list A m0 (run_dtor l) (l', m', w) (xs, w)"
  using assms(2-4) framed_step [OF assms(1,5,6)] by (auto simp: on_list_def dest: run_dtor_cong)

lemma on_list_shrinks:
  "framed A m0 m ps \<Longrightarrow> shrinks l m ps l' m' ps' \<Longrightarrow>
     on_list A m0 (run_dtor l) (l', m', w) (contents m' ps', w)"
  by (rule on_listI) (auto simp: shrinks_def inside_untouched)

lemma edit_refines:
  assumes "on_list A m0 d (l, m, w) (xs, w)" "length xs < 2 ^ 64"
  shows "\<exists>s'. edit cmp compare op (l, m, w) = Inr s' \<and>
    on_list A m0 d s' (edit_list cmp compare d op (xs, w))"
proof -
  from assms(1) obtain ps where ok: "llist_ok l m ps" and xs: "xs = contents m ps" and d: "d = run_dtor l"
      and fr: "framed A m0 m ps"
    by (auto simp: on_list_def)
  have len: "length ps < 2 ^ 64" using assms(2) xs by simp
  have new: "brk m \<notin> dom (cells m)" using fresh_addr [OF ok] by auto
  show ?thesis
  proof (cases op)
    case (Add x)
    obtain l' m' where s: "zend_llist_add_element x l m = Inr (l', m')" "llist_ok l' m' (ps @ [brk m])"
        "contents m' (ps @ [brk m]) = contents m ps @ [x]" "l_dtor l' = l_dtor l" "untouched (set ps) m m'"
      by (rule add_element_ok [OF ok])
    from on_listI [OF fr s(2-5), of w] s(1) new show ?thesis
      unfolding Add edit_def edit_list_def xs d by simp
  next
    case (Prepend x)
    obtain l' m' where s: "zend_llist_prepend_element x l m = Inr (l', m')" "llist_ok l' m' (brk m # ps)"
        "contents m' (brk m # ps) = x # contents m ps" "l_dtor l' = l_dtor l" "untouched (set ps) m m'"
      by (rule prepend_element_ok [OF ok])
    from on_listI [OF fr s(2-5), of w] s(1) new show ?thesis
      unfolding Prepend edit_def edit_list_def xs d by simp
  next
    case (Delete y)
    obtain l' m' ps' where "zend_llist_del_element y compare l m w =
         Inr (l', m', case List.find (\<lambda>x. compare x y) (contents m ps) of
                        Some x \<Rightarrow> run_dtor l x w | None \<Rightarrow> w)" "shrinks l m ps l' m' ps'"
        "contents m' ps' = remove_first (\<lambda>x. compare x y) (contents m ps)"
      by (rule del_element_ok [OF ok])
    then show ?thesis
      using on_list_shrinks [OF fr, of l l' m' ps'] unfolding Delete edit_def edit_list_def xs d by simp
  next
    case RemoveTail
    show ?thesis
    proof (cases ps rule: rev_cases)
      case Nil
      then show ?thesis
        using ok fr remove_tail_empty [of l m w] unfolding RemoveTail edit_def edit_list_def xs d
        by (auto simp: on_list_def)
    next
      case (snoc qs p)
      obtain l' m' where "zend_llist_remove_tail l m w = Inr (l', m', run_dtor l (data_of (cells m) p) w)"
          "contents m' qs = contents m qs" "shrinks l m (qs @ [p]) l' m' qs"
        by (rule remove_tail_ok [OF ok [unfolded snoc]])
      then show ?thesis
        using on_list_shrinks [OF fr [unfolded snoc], of l l' m' qs]
        unfolding RemoveTail edit_def edit_list_def xs d snoc by (simp add: butlast_append)
    qed
  next
    case (Apply f)
    obtain m' where s: "llist_apply_loop (brk m) f (l_head l) m w = Inr (m', snd (map_state f (contents m ps) w))"
        "llist_ok l m' ps" "contents m' ps = fst (map_state f (contents m ps) w)" "inside (set ps) m m'"
      by (rule apply_ok [OF ok])
    from on_listI [OF fr s(2,3) refl inside_untouched [OF s(4)], of "snd (map_state f (contents m ps) w)"] s(1)
    show ?thesis unfolding Apply edit_def edit_list_def xs d zend_llist_apply_def by simp
  next
    case (Sweep f)
    obtain l' m' rs where s: "zend_llist_apply_with_del l f m w =
        Inr (l', m', snd (sweep_list (run_dtor l) f (contents m ps) w))" "shrinks l m ps l' m' rs"
        "contents m' rs = fst (sweep_list (run_dtor l) f (contents m ps) w)"
      by (rule apply_with_del_ok [OF ok])
    from on_list_shrinks [OF fr s(2), of "snd (sweep_list (run_dtor l) f (contents m ps) w)"] s(1,3)
    show ?thesis unfolding Sweep edit_def edit_list_def xs d by simp
  next
    case Sort
    obtain l' m' ps' where s: "zend_llist_sort l (by_data cmp) m = Inr (l', m')" "llist_ok l' m' ps'"
        "contents m' ps' = zend_sort cmp exchange (contents m ps)" "l_dtor l' = l_dtor l"
        "inside (set ps) m m'" "set ps' = set ps"
      by (rule sort_contents [OF ok len])
    from on_listI [OF fr s(2-4) inside_untouched [OF s(5)], of w] s(1,6) show ?thesis
      unfolding Sort edit_def edit_list_def xs d by simp
  next
    case Clean
    obtain l' m' where "zend_llist_destroy l m w = Inr (l', m', fold (run_dtor l) (contents m ps) w)"
        "shrinks l m ps l' m' []"
      by (rule destroy_ok [OF ok])
    then show ?thesis
      using on_list_shrinks [OF fr, of l l' m' "[]"]
      unfolding Clean edit_def edit_list_def zend_llist_clean_def xs d by simp
  qed
qed

lemma length_map_state: "length (fst (map_state f xs w)) = length xs"
proof (induction xs arbitrary: w)
  case Nil
  then show ?case by simp
next
  case (Cons x xs)
  obtain y w1 where f: "f x w = (y, w1)" by (cases "f x w")
  from Cons.IH [of w1] f show ?case by (auto split: prod.splits)
qed

lemma length_sweep_list: "length (fst (sweep_list d f xs w)) \<le> length xs"
proof (induction xs arbitrary: w)
  case Nil
  then show ?case by simp
next
  case (Cons x xs)
  obtain del y w1 where f: "f x w = (del, y, w1)" by (cases "f x w")
  from Cons.IH [of w1] Cons.IH [of "d y w1"] f show ?case by (auto split: prod.splits)
qed

lemma length_remove_first: "length (remove_first P xs) \<le> length xs"
  by (induction xs) auto

lemma length_edit_list: "length (fst (edit_list cmp compare d op s)) \<le> Suc (length (fst s))"
  using length_map_state [of _ "fst s" "snd s"] length_sweep_list [of d _ "fst s" "snd s"]
    length_remove_first [of _ "fst s"] zs.sort_length [of cmp "fst s"]
  by (cases s; cases op) (auto simp: edit_list_def le_Suc_eq)

lemma edits_refine:
  "on_list A m0 d s t \<Longrightarrow> length (fst t) + length ops \<le> 2 ^ 64 \<Longrightarrow>
     \<exists>s'. edits cmp compare ops s = Inr s' \<and> on_list A m0 d s' (fold (edit_list cmp compare d) ops t)"
proof (induction ops arbitrary: s t)
  case Nil
  then show ?case by simp
next
  case (Cons op ops)
  obtain l m w xs where st: "s = (l, m, w)" "t = (xs, w)"
    using Cons.prems(1) by (cases s; cases t) (auto simp: on_list_def)
  from edit_refines [of A m0 d l m w xs cmp compare op] Cons.prems st
  obtain s1 where s1: "edit cmp compare op s = Inr s1" "on_list A m0 d s1 (edit_list cmp compare d op t)"
    by auto
  from Cons.IH [OF s1(2)] length_edit_list [of cmp compare d op t] Cons.prems(2) s1(1) show ?case
    by auto
qed

lemma on_list_start: "llist_ok l m ps \<Longrightarrow> on_list (set ps) m (run_dtor l) (l, m, w) (contents m ps, w)"
  by (auto simp: on_list_def framed_def)

text \<open>A list with no elements yet, beside another one of two elements, for the witnesses.\<close>

definition sample_store :: "nat llist_store" where
  "sample_store =
     \<lparr>cells = [0 \<mapsto> \<lparr>e_next = Some 1, e_prev = None, e_data = 10\<rparr>,
               1 \<mapsto> \<lparr>e_next = None, e_prev = Some 0, e_data = 20\<rparr>],
      brk = 2\<rparr>"

definition sample_list :: "(nat, nat list) zend_llist" where
  "sample_list =
     \<lparr>l_head = Some 0, l_tail = Some 1, l_count = 2, l_size = 8, l_dtor = Some (#),
      l_persistent = False, l_traverse_ptr = None\<rparr>"

lemma sample_list_ok: "llist_ok sample_list sample_store [0, 1]"
  by (auto simp: llist_ok_def sample_list_def sample_store_def heap_ok_def lastp_def)

subsection \<open>Properties of the lists\<close>

text \<open>
  C29. Any sequence of calls on a linked list (adding at both ends, deleting the first
  element that compares equal, removing the tail, applying a function to every
  element, deleting the elements a function chooses, sorting, emptying) succeeds:
  no null or freed pointer is followed, no loop runs on. It leaves a well-formed
  list with the elements, the count and the destructor calls that the same edits of
  a sequence have, and no cell of the store that was not an element of the list has
  changed.
\<close>

theorem list_edits_refine:
  assumes "llist_ok l m ps" and "length ps + length ops \<le> 2 ^ 64"
    and "fold (edit_list cmp compare (run_dtor l)) ops (contents m ps, w) = (ys, w')"
  shows "\<exists>l' m' ps'. edits cmp compare ops (l, m, w) = Inr (l', m', w') \<and> llist_ok l' m' ps' \<and>
    contents m' ps' = ys \<and> zend_llist_count l' = of_nat (length ys) \<and>
    (\<forall>p \<in> dom (cells m) - set ps. cells m' p = cells m p)"
proof -
  from edits_refine [OF on_list_start [OF assms(1), of w], of ops cmp compare] assms(2,3)
  obtain l' m' ps' where "edits cmp compare ops (l, m, w) = Inr (l', m', w')" "llist_ok l' m' ps'"
      "contents m' ps' = ys" "framed (set ps) m m' ps'"
    by (auto simp: on_list_def)
  then show ?thesis
    by (auto simp: framed_def untouched_def zend_llist_count_def llist_ok_def)
qed

theorem list_edits_refine_witness:
  "\<exists>l' m' ps'. edits (\<lambda>x y. int x - int y) (=) [Add 5, Prepend 30, Sort, Delete 20, RemoveTail]
       (sample_list, sample_store, []) = Inr (l', m', [30, 20]) \<and> llist_ok l' m' ps' \<and>
     contents m' ps' = [5, 10] \<and> zend_llist_count l' = of_nat (length [5, 10 :: nat]) \<and>
     (\<forall>p \<in> dom (cells sample_store) - set [0, 1]. cells m' p = cells sample_store p)"
proof (rule list_edits_refine [OF sample_list_ok])
  have "zend_sort (\<lambda>x y. int x - int y) exchange [30, 10, 20, 5] = [5, 10, 20, 30]" by code_simp
  then show "fold (edit_list (\<lambda>x y. int x - int y) (=) (run_dtor sample_list))
      [Add 5, Prepend 30, Sort, Delete 20, RemoveTail] (contents sample_store [0, 1], []) = ([5, 10], [30, 20])"
    by (simp add: edit_list_def sample_list_def sample_store_def run_dtor_def contents_def data_of_def)
qed simp

text \<open>
  \<open>zend_llist_sort\<close> with a comparison that is a total preorder on the data puts
  the elements in order: the same cells, linked both ways, with the same data in
  nondecreasing order.
\<close>

theorem list_sort_sorts:
  assumes "llist_ok l m ps" and "length ps < 2 ^ 64"
    and "\<And>x y. x \<in> set (contents m ps) \<Longrightarrow> y \<in> set (contents m ps) \<Longrightarrow> cmp x y \<le> 0 \<or> cmp y x \<le> 0"
    and "\<And>x y z. x \<in> set (contents m ps) \<Longrightarrow> y \<in> set (contents m ps) \<Longrightarrow> z \<in> set (contents m ps) \<Longrightarrow>
      cmp x y \<le> 0 \<Longrightarrow> cmp y z \<le> 0 \<Longrightarrow> cmp x z \<le> 0"
  shows "\<exists>l' m' ps'. zend_llist_sort l (by_data cmp) m = Inr (l', m') \<and> llist_ok l' m' ps' \<and>
    set ps' = set ps \<and> mset (contents m' ps') = mset (contents m ps) \<and>
    sorted_wrt (\<lambda>x y. cmp x y \<le> 0) (contents m' ps')"
proof -
  obtain l' m' ps' where s: "zend_llist_sort l (by_data cmp) m = Inr (l', m')" "llist_ok l' m' ps'"
    "set ps' = set ps" "contents m' ps' = zend_sort cmp exchange (contents m ps)"
    by (rule sort_contents [OF assms(1,2)])
  have "compare_order cmp (set (contents m ps))" using assms(3,4) by unfold_locales
  then have "sorted_by cmp (contents m' ps')" unfolding s(4) by (rule zs.sort_sorted) simp
  moreover have "mset (contents m' ps') = mset (contents m ps)" unfolding s(4) by (rule zs.sort_mset)
  ultimately show ?thesis using s(1-3) unfolding sorted_by_def by blast
qed

theorem list_sort_sorts_witness:
  "\<exists>l' m' ps'. zend_llist_sort sample_list (by_data (\<lambda>x y. int y - int x)) sample_store = Inr (l', m') \<and>
    llist_ok l' m' ps' \<and> set ps' = set [0, 1] \<and>
    mset (contents m' ps') = mset (contents sample_store [0, 1]) \<and>
    sorted_wrt (\<lambda>x y. int y - int x \<le> 0) (contents m' ps')"
  by (rule list_sort_sorts [OF sample_list_ok]) auto

text \<open>
  \<open>zend_llist_copy\<close> makes a list of its own: the copy has the same data, no cell in
  common with its source, and whatever is done to the copy afterwards, the source is
  still well formed with its old elements and data.
\<close>

theorem list_copy_independent:
  assumes "llist_ok src m ps" and "length ps + length ops \<le> 2 ^ 64"
  shows "\<exists>dst m1 ds l2 m2 w2. zend_llist_copy old src m = Inr (dst, m1) \<and> llist_ok dst m1 ds \<and>
    contents m1 ds = contents m ps \<and> set ds \<inter> set ps = {} \<and>
    edits cmp compare ops (dst, m1, w) = Inr (l2, m2, w2) \<and>
    llist_ok src m2 ps \<and> contents m2 ps = contents m ps"
proof -
  obtain dst m1 ds where c: "zend_llist_copy old src m = Inr (dst, m1)" "llist_ok dst m1 ds"
    "contents m1 ds = contents m ps" "set ds \<inter> set ps = {}" "llist_ok src m1 ps"
    "contents m1 ps = contents m ps"
    by (rule copy_ok [OF assms(1)])
  have "length ds = length ps" using c(3) by (metis length_contents)
  with edits_refine [OF on_list_start [OF c(2), of w], of ops cmp compare] assms(2)
  obtain s2 where s2: "edits cmp compare ops (dst, m1, w) = Inr s2"
      "on_list (set ds) m1 (run_dtor dst) s2 (fold (edit_list cmp compare (run_dtor dst)) ops (contents m1 ds, w))"
    by auto
  obtain l2 m2 w2 where eq: "s2 = (l2, m2, w2)" by (cases s2)
  with s2(2) have "untouched (set ds) m1 m2" "heap_ok m2"
    by (auto simp: on_list_def framed_def llist_ok_def)
  with llist_ok_other [OF c(5)] c(4) have "llist_ok src m2 ps" "contents m2 ps = contents m1 ps"
    by (auto simp: Int_commute)
  then show ?thesis using c s2(1) eq by auto
qed

theorem list_copy_independent_witness:
  "\<exists>dst m1 ds l2 m2 w2. zend_llist_copy None sample_list sample_store = Inr (dst, m1) \<and> llist_ok dst m1 ds \<and>
    contents m1 ds = contents sample_store [0, 1] \<and> set ds \<inter> set [0, 1] = {} \<and>
    edits (\<lambda>x y. int x - int y) (=) [RemoveTail, Add 7, Sort, Clean] (dst, m1, []) = Inr (l2, m2, w2) \<and>
    llist_ok sample_list m2 [0, 1] \<and> contents m2 [0, 1] = contents sample_store [0, 1]"
  by (rule list_copy_independent [OF sample_list_ok]) simp

text \<open>
  A loop over a list with \<open>zend_llist_get_first_ex\<close> and \<open>zend_llist_get_next_ex\<close>
  ends and yields its elements in order; one with \<open>zend_llist_get_last_ex\<close> and
  \<open>zend_llist_get_prev_ex\<close> ends and yields them in reverse.
\<close>

theorem list_walks:
  assumes "llist_ok l m ps" and "length ps \<le> n"
  shows "bindE (zend_llist_get_first_ex l m) (walk n (\<lambda>pos. zend_llist_get_next_ex pos m)) =
       Inr (contents m ps) \<and>
     bindE (zend_llist_get_last_ex l m) (walk n (\<lambda>pos. zend_llist_get_prev_ex pos m)) =
       Inr (rev (contents m ps))"
  using forwards.walk_visits [of "(l, m, ps)" n] backwards.walk_visits [of "(l, m, ps)" n] assms
  by (simp add: placed_ok_def placed_items_def)

theorem list_walks_witness:
  "bindE (zend_llist_get_first_ex sample_list sample_store)
       (walk 2 (\<lambda>pos. zend_llist_get_next_ex pos sample_store)) = Inr (contents sample_store [0, 1]) \<and>
   bindE (zend_llist_get_last_ex sample_list sample_store)
       (walk 2 (\<lambda>pos. zend_llist_get_prev_ex pos sample_store)) = Inr (rev (contents sample_store [0, 1]))"
  by (rule list_walks [OF sample_list_ok]) simp

subsection \<open>Properties of the stacks\<close>

text \<open>
  C30. Both stacks are last in, first out: from well-formed stacks with the same
  elements, any sequence of pushes and pops that never pops an empty stack runs to
  its end on the \<open>zend_stack\<close> and on the \<open>zend_ptr_stack\<close>, with the results the
  same sequence has on a list, so the two can replace one another. The invariants
  hold again at the end; the counts stay below the limit of the \<open>int\<close>s.
\<close>

theorem stacks_are_lifo:
  assumes "stack_ok st xs" and "ptr_ok pst xs"
    and "run_list ops xs = Some (out, ys)" and "int (length xs + length ops) \<le> INT_MAX - PTR_STACK_BLOCK_SIZE"
  shows "\<exists>st' pst'. run_ops stack_push stack_pop ops st = Inr (out, st') \<and> stack_ok st' ys \<and>
    run_ops zend_ptr_stack_push zend_ptr_stack_pop ops pst = Inr (out, pst') \<and> ptr_ok pst' ys"
proof -
  have "length xs + length ops \<le> nat (INT_MAX - PTR_STACK_BLOCK_SIZE)" using assms(4) by linarith
  moreover from this have "length xs + length ops \<le> nat (INT_MAX - STACK_BLOCK_SIZE)"
    by (simp add: STACK_BLOCK_SIZE_def PTR_STACK_BLOCK_SIZE_def)
  ultimately show ?thesis
    using zk.run_refines [OF assms(1,3)] zp.run_refines [OF assms(2,3)] by auto
qed

theorem stacks_are_lifo_witness:
  "\<exists>st' pst'.
    run_ops stack_push stack_pop [Push 1, Push 2, Pop, Push 3, Pop] (zend_stack_init 4 :: nat zend_stack) =
      Inr ([2, 3], st') \<and> stack_ok st' [1] \<and>
    run_ops zend_ptr_stack_push zend_ptr_stack_pop [Push 1, Push 2, Pop, Push 3, Pop]
      (zend_ptr_stack_init_ex False) = Inr ([2, 3], pst') \<and> ptr_ok pst' [1 :: nat]"
  by (rule stacks_are_lifo [OF stack_init_ok ptr_init_ok])
    (simp_all add: INT_MAX_def PTR_STACK_BLOCK_SIZE_def)

text \<open>
  \<open>zend_ptr_stack_n_push\<close> grows the array as far as it has to and stores the
  pointers in order; \<open>zend_ptr_stack_n_pop\<close> gives back the same pointers in reverse
  and leaves the stack with the elements it had; \<open>zend_ptr_stack_apply\<close> visits from
  the top, \<open>zend_ptr_stack_reverse_apply\<close> from the bottom.
\<close>

theorem n_push_n_pop:
  assumes "ptr_ok st ps" and "int (length ps + length qs) + PTR_STACK_BLOCK_SIZE \<le> INT_MAX"
  shows "\<exists>st1 st2. zend_ptr_stack_n_push qs st = Inr st1 \<and> ptr_ok st1 (ps @ qs) \<and>
    zend_ptr_stack_apply st1 f w = Inr (fold f (rev qs @ rev ps) w) \<and>
    zend_ptr_stack_reverse_apply st1 f w = Inr (fold f (ps @ qs) w) \<and>
    zend_ptr_stack_n_pop (length qs) st1 = Inr (rev qs, st2) \<and> ptr_ok st2 ps"
proof -
  have "ptr_room (length ps + length qs)" using assms(2) by (simp add: ptr_room_def)
  then obtain st1 where st1: "zend_ptr_stack_n_push qs st = Inr st1" "ptr_ok st1 (ps @ qs)"
    by (rule n_push_ok [OF assms(1)])
  with n_pop_ok [OF st1(2)] ptr_apply_ok [OF st1(2), of f w] ptr_reverse_apply_ok [OF st1(2), of f w]
  show ?thesis by auto
qed

theorem n_push_n_pop_witness:
  "\<exists>st1 st2. zend_ptr_stack_n_push [1, 2, 3] (zend_ptr_stack_init_ex True) = Inr st1 \<and>
    ptr_ok st1 ([] @ [1, 2, 3 :: nat]) \<and>
    zend_ptr_stack_apply st1 (#) [] = Inr (fold (#) (rev [1, 2, 3] @ rev []) []) \<and>
    zend_ptr_stack_reverse_apply st1 (#) [] = Inr (fold (#) ([] @ [1, 2, 3]) []) \<and>
    zend_ptr_stack_n_pop (length [1, 2, 3 :: nat]) st1 = Inr (rev [1, 2, 3], st2) \<and> ptr_ok st2 []"
  by (rule n_push_n_pop [OF ptr_init_ok]) (simp add: INT_MAX_def PTR_STACK_BLOCK_SIZE_def)

end
