(* ===== verification/HashSort.thy ===== *)
theory HashSort
  imports HashConvert ZendSort
begin

text \<open>
  Sorting a table: \<open>zend_hash_sort_ex\<close> and what the array functions of
  \<open>ext/standard/array.c\<close> build on it. \<open>zend_sort\<close> is not stable; the table numbers
  its buckets first, and the comparison functions fall back on these numbers.
\<close>

subsection \<open>The swap functions\<close>

text \<open>A zval is copied whole, with the word \<open>u2\<close> that \<open>Z_NEXT\<close> and \<open>Z_EXTRA\<close> share.\<close>

definition zend_hash_bucket_swap :: "Bucket swap_func" where
  "zend_hash_bucket_swap p q =
     (p\<lparr>b_val := b_val q, b_next := b_next q, b_h := b_h q, b_key := b_key q\<rparr>,
      q\<lparr>b_val := b_val p, b_next := b_next p, b_h := b_h p, b_key := b_key p\<rparr>)"

definition zend_hash_bucket_renum_swap :: "Bucket swap_func" where
  "zend_hash_bucket_renum_swap p q =
     (p\<lparr>b_val := b_val q, b_next := b_next q\<rparr>, q\<lparr>b_val := b_val p, b_next := b_next p\<rparr>)"

definition zend_hash_bucket_packed_swap :: "Bucket swap_func" where
  "zend_hash_bucket_packed_swap p q =
     (p\<lparr>b_val := b_val q, b_next := b_next q, b_h := b_h q\<rparr>,
      q\<lparr>b_val := b_val p, b_next := b_next p, b_h := b_h p\<rparr>)"

text \<open>\<open>stable_sort_fallback\<close> and \<open>RETURN_STABLE_SORT\<close>; \<open>result\<close> is the unstable comparison.\<close>

definition stable_sort_fallback :: "Bucket compare_func" where
  "stable_sort_fallback a b =
     (if b_next a > b_next b then 1 else if b_next a < b_next b then -1 else 0)"

definition return_stable_sort :: "Bucket compare_func \<Rightarrow> Bucket compare_func" where
  "return_stable_sort result a b =
     (if result a b \<noteq> 0 then result a b else stable_sort_fallback a b)"

subsection \<open>\<open>zend_hash_sort_internal\<close>\<close>

text \<open>\<open>Z_EXTRA(p->val) = i\<close> for every bucket of a table without holes.\<close>

fun number_buckets :: "nat list \<Rightarrow> Bucket option list \<Rightarrow> error + Bucket option list" where
  "number_buckets [] d = Inr d"
| "number_buckets (i # is) d =
     bindE (rd d i) (\<lambda>p. bindE (wr d i (p\<lparr>b_next := i\<rparr>)) (number_buckets is))"

text \<open>The holes are removed first; the number of buckets left is returned.\<close>

fun close_holes :: "nat list \<Rightarrow> nat \<Rightarrow> Bucket option list \<Rightarrow> error + (Bucket option list \<times> nat)" where
  "close_holes [] i d = Inr (d, i)"
| "close_holes (j # js) i d =
     bindE (rd d j) (\<lambda>p.
       if b_val p = IS_UNDEF then close_holes js i d
       else bindE (if i \<noteq> j then wr d i p else Inr d) (\<lambda>d.
            bindE (rd d i) (\<lambda>q.
            bindE (wr d i (q\<lparr>b_next := i\<rparr>)) (close_holes js (Suc i)))))"

primrec read_cells :: "'a option list \<Rightarrow> nat list \<Rightarrow> error + 'a list" where
  "read_cells d [] = Inr []"
| "read_cells d (i # is) = bindE (rd d i) (\<lambda>x. bindE (read_cells d is) (\<lambda>xs. Inr (x # xs)))"

text \<open>\<open>p->h = j\<close>, and the string key is released.\<close>

fun renumber_buckets ::
  "nat list \<Rightarrow> Bucket option list \<Rightarrow> executor_globals \<Rightarrow> error + (Bucket option list \<times> executor_globals)" where
  "renumber_buckets [] d eg = Inr (d, eg)"
| "renumber_buckets (j # js) d eg =
     bindE (rd d j) (\<lambda>p.
     bindE (wr d j (p\<lparr>b_h := of_nat j, b_key := None\<rparr>)) (\<lambda>d.
       renumber_buckets js d (case b_key p of Some k \<Rightarrow> emit (EvStrRelease k) eg | None \<Rightarrow> eg)))"

text \<open>
  The conversion at the end of a renumbering sort copies the zvals of all
  \<open>nTableSize\<close> buckets, those past the used ones without looking at them.
\<close>

definition packed_copy :: "HashTable \<Rightarrow> HashTable" where
  "packed_copy ht =
     HT_HASH_RESET_PACKED
       (ht\<lparr>f_packed := True, f_static_keys := True, nTableMask := HT_MIN_MASK,
           arPacked := map (map_option b_val) (take (nTableSize ht) (arData ht)), arData := []\<rparr>)"

type_synonym sort_routine =
  "Bucket compare_func \<Rightarrow> Bucket swap_func \<Rightarrow> Bucket list \<Rightarrow> Bucket list"

definition zend_hash_sort_internal ::
  "HashTable \<Rightarrow> sort_routine \<Rightarrow> Bucket compare_func \<Rightarrow> bool \<Rightarrow> executor_globals \<Rightarrow>
     error + (HashTable \<times> executor_globals)" where
  "zend_hash_sort_internal ht srt compar renumber eg =
     (if \<not> nNumOfElements ht > 1 \<and> \<not> (renumber \<and> nNumOfElements ht > 0) then Inr (ht, eg)
      else
        bindE (if f_packed ht then zend_hash_packed_to_hash ht eg else Inr (ht, eg)) (\<lambda>(ht, eg).
        bindE (if HT_IS_WITHOUT_HOLES ht
               then bindE (number_buckets [0..<nNumUsed ht] (arData ht)) (\<lambda>d.
                    Inr (ht\<lparr>arData := d\<rparr>, nNumUsed ht))
               else bindE (close_holes [0..<nNumUsed ht] 0 (arData ht)) (\<lambda>(d, i).
                    Inr (ht\<lparr>arData := d, nNumUsed := i\<rparr>, i))) (\<lambda>(ht, i).
        let ht = (if \<not> f_packed ht then HT_HASH_RESET ht else ht)
        in bindE (read_cells (arData ht) [0..<nNumUsed ht]) (\<lambda>bs.
        let swp = (if renumber then zend_hash_bucket_renum_swap
                   else if f_packed ht then zend_hash_bucket_packed_swap else zend_hash_bucket_swap);
            ht = ht\<lparr>arData := map Some (srt compar swp bs) @ drop (nNumUsed ht) (arData ht),
                    nInternalPointer := 0\<rparr>
        in bindE (if renumber
                  then bindE (renumber_buckets [0..<i] (arData ht) eg) (\<lambda>(d, eg).
                       Inr (ht\<lparr>arData := d, nNextFreeElement := int i\<rparr>, eg))
                  else Inr (ht, eg)) (\<lambda>(ht, eg).
           if f_packed ht then
             (if \<not> renumber then zend_hash_packed_to_hash ht eg else Inr (ht, eg))
           else if renumber then Inr (packed_copy ht, eg)
           else zend_hash_rehash ht eg)))))"

definition zend_hash_sort_ex ::
  "HashTable \<Rightarrow> sort_routine \<Rightarrow> Bucket compare_func \<Rightarrow> bool \<Rightarrow> executor_globals \<Rightarrow>
     error + (HashTable \<times> executor_globals)" where
  "zend_hash_sort_ex ht srt compar renumber eg = zend_hash_sort_internal ht srt compar renumber eg"

definition zend_hash_sort ::
  "HashTable \<Rightarrow> Bucket compare_func \<Rightarrow> bool \<Rightarrow> executor_globals \<Rightarrow> error + (HashTable \<times> executor_globals)" where
  "zend_hash_sort ht compare_func renumber eg = zend_hash_sort_ex ht zend_sort compare_func renumber eg"

subsection \<open>What a swap function leaves in place\<close>

definition keeps :: "('a \<Rightarrow> 'b) \<Rightarrow> 'a swap_func \<Rightarrow> bool" where
  "keeps g swp \<longleftrightarrow> (\<forall>x y. g (fst (swp x y)) = g x \<and> g (snd (swp x y)) = g y)"

lemma swp_keeps:
  assumes "keeps g swp"
  shows "map g (swp_at swp xs a b) = map g xs"
proof -
  obtain x y where xy: "swp (xs ! a) (xs ! b) = (x, y)" by fastforce
  have "g (fst (swp (xs ! a) (xs ! b))) = g (xs ! a)" "g (snd (swp (xs ! a) (xs ! b))) = g (xs ! b)"
    using assms unfolding keeps_def by blast+
  then have g: "g x = g (xs ! a)" "g y = g (xs ! b)" using xy by simp_all
  have "map g (swp_at swp xs a b) = (map g xs)[a := g (xs ! a), b := g (xs ! b)]"
    by (simp add: swp_at_def xy map_update g)
  also have "\<dots> = map g (xs[a := xs ! a, b := xs ! b])" by (simp only: map_update)
  finally show ?thesis by simp
qed

lemma sort_2_keeps: "keeps g swp \<Longrightarrow> map g (zend_sort_2 cmp swp a b xs) = map g xs"
  by (simp add: zend_sort_2_def swp_keeps)

lemma sort_3_keeps: "keeps g swp \<Longrightarrow> map g (zend_sort_3 cmp swp a b c xs) = map g xs"
  by (simp add: zend_sort_3_def Let_def swp_keeps)

lemma sort_4_keeps: "keeps g swp \<Longrightarrow> map g (zend_sort_4 cmp swp a b c d xs) = map g xs"
  by (simp add: zend_sort_4_def Let_def swp_keeps sort_3_keeps)

lemma sort_5_keeps: "keeps g swp \<Longrightarrow> map g (zend_sort_5 cmp swp a b c d e xs) = map g xs"
  by (simp add: zend_sort_5_def Let_def swp_keeps sort_4_keeps)

lemmas sorts_keep = sort_2_keeps sort_3_keeps sort_4_keeps sort_5_keeps

lemma shift_down_keeps: "keeps g swp \<Longrightarrow> map g (shift_down swp xs k j) = map g xs"
proof (induction swp xs k j rule: shift_down.induct)
  case (1 swp xs k j)
  then show ?case by (simp add: shift_down.simps [of swp xs k j] swp_keeps)
qed

lemma insert_head_keeps: "keeps g swp \<Longrightarrow> map g (insert_head cmp swp i xs) = map g xs"
proof (induction cmp swp i xs rule: insert_head.induct)
  case (1 cmp swp i xs)
  then show ?case by (simp add: insert_head.simps [of cmp swp i xs] Let_def shift_down_keeps)
qed

lemma insert_tail_keeps: "keeps g swp \<Longrightarrow> map g (insert_tail cmp swp n i xs) = map g xs"
proof (induction cmp swp n i xs rule: insert_tail.induct)
  case (1 cmp swp n i xs)
  then show ?case by (simp add: insert_tail.simps [of cmp swp n i xs] Let_def shift_down_keeps)
qed

lemma insert_sort_keeps: "keeps g swp \<Longrightarrow> map g (zend_insert_sort cmp swp xs) = map g xs"
  by (simp add: zend_insert_sort_def Let_def sorts_keep insert_head_keeps insert_tail_keeps)

lemma partition_keeps:
  assumes "keeps g swp" "partition_loop cmp swp i j xs = (k, ys)"
  shows "map g ys = map g xs"
proof (cases "i < j")
  case True
  have "case partition_loop cmp swp i j xs of (k, ys) \<Rightarrow> map g ys = map g xs"
    by (rule partition_loop_rule [where I = "\<lambda>_ _ ys. map g ys = map g xs", OF True])
      (simp_all add: swp_keeps assms(1))
  with assms(2) show ?thesis by simp
next
  case False
  with assms(2) show ?thesis by (simp add: partition_loop.simps [of cmp swp i j xs])
qed

lemma round_keeps:
  assumes "keeps g swp" "zend_sort_round cmp swp xs = (i, ys)"
  shows "map g ys = map g xs"
proof -
  obtain k zs where p: "partition_loop cmp swp 2 (length xs - 1) (choose_pivot cmp swp xs) = (k, zs)"
    by fastforce
  with assms(2) have "ys = swp_at swp zs 1 (k - 1)" by (auto simp: zend_sort_round_def)
  moreover have "map g (choose_pivot cmp swp xs) = map g xs"
    by (simp add: choose_pivot_def Let_def sorts_keep swp_keeps assms(1))
  ultimately show ?thesis using partition_keeps [OF assms(1) p] swp_keeps [OF assms(1)] by simp
qed

lemma zend_sort_keeps:
  assumes "keeps g swp"
  shows "map g (zend_sort cmp swp xs) = map g xs"
proof (induction xs rule: zend_sort_induct [of _ cmp swp])
  case (small xs)
  then show ?case by (simp add: zend_sort_small insert_sort_keeps assms)
next
  case (large xs i ys)
  have "map g (zend_sort cmp swp xs) = map g (take (i - 1) ys @ [ys ! (i - 1)] @ drop i ys)"
    using large by (simp add: zend_sort_large)
  also have "\<dots> = map g ys" using large by (simp only: split_at_pivot)
  finally show ?case using round_keeps [OF assms large(2)] by simp
qed

subsection \<open>Stable sorting\<close>

text \<open>
  The reference: insertion sort, which keeps elements that compare equal in their
  order. \<open>tie\<close> is a comparison that falls back on the number of an element.
\<close>

fun insert_by :: "'a compare_func \<Rightarrow> 'a \<Rightarrow> 'a list \<Rightarrow> 'a list" where
  "insert_by cmp x [] = [x]"
| "insert_by cmp x (y # ys) = (if cmp x y \<le> 0 then x # y # ys else y # insert_by cmp x ys)"

definition sort_by :: "'a compare_func \<Rightarrow> 'a list \<Rightarrow> 'a list" where
  "sort_by cmp xs = foldr (insert_by cmp) xs []"

definition tie :: "'a compare_func \<Rightarrow> ('a \<times> nat) compare_func" where
  "tie cmp x y =
     (if cmp (fst x) (fst y) \<noteq> 0 then cmp (fst x) (fst y)
      else if snd x > snd y then 1 else if snd x < snd y then -1 else 0)"

text \<open>A comparison that orders \<open>A\<close>: it is antisymmetric in its sign, and transitive.\<close>

definition total_compare :: "'a compare_func \<Rightarrow> 'a set \<Rightarrow> bool" where
  "total_compare cmp A \<longleftrightarrow>
     (\<forall>a\<in>A. \<forall>b\<in>A. sgn (cmp a b) = - sgn (cmp b a)) \<and>
     (\<forall>a\<in>A. \<forall>b\<in>A. \<forall>c\<in>A. cmp a b \<le> 0 \<longrightarrow> cmp b c \<le> 0 \<longrightarrow> cmp a c \<le> 0)"

lemma sgn_opposite: "sgn u = - sgn v \<Longrightarrow> (u < 0 \<longleftrightarrow> 0 < v) \<and> (u = 0 \<longleftrightarrow> v = 0)" for u v :: int
  by (auto simp: sgn_if split: if_splits)

lemma total_compareD:
  assumes "total_compare cmp A" "a \<in> A" "b \<in> A"
  shows "cmp a b < 0 \<longleftrightarrow> 0 < cmp b a" "cmp a b = 0 \<longleftrightarrow> cmp b a = 0"
proof -
  have "sgn (cmp a b) = - sgn (cmp b a)" using assms unfolding total_compare_def by blast
  from sgn_opposite [OF this] show "cmp a b < 0 \<longleftrightarrow> 0 < cmp b a" "cmp a b = 0 \<longleftrightarrow> cmp b a = 0"
    by blast+
qed

lemma total_compare_trans:
  "total_compare cmp A \<Longrightarrow> a \<in> A \<Longrightarrow> b \<in> A \<Longrightarrow> c \<in> A \<Longrightarrow> cmp a b \<le> 0 \<Longrightarrow> cmp b c \<le> 0 \<Longrightarrow> cmp a c \<le> 0"
  unfolding total_compare_def by blast

lemma tie_le: "tie cmp x y \<le> 0 \<longleftrightarrow> cmp (fst x) (fst y) < 0 \<or> cmp (fst x) (fst y) = 0 \<and> snd x \<le> snd y"
  by (auto simp: tie_def)

lemma tie_order:
  assumes t: "total_compare cmp A"
  shows "compare_order (tie cmp) (A \<times> UNIV)"
proof
  fix x y :: "'a \<times> nat" assume "x \<in> A \<times> UNIV" "y \<in> A \<times> UNIV"
  then have xy: "fst x \<in> A" "fst y \<in> A" by auto
  from total_compareD [OF t xy] show "tie cmp x y \<le> 0 \<or> tie cmp y x \<le> 0"
    unfolding tie_le by linarith
next
  fix x y z :: "'a \<times> nat"
  assume "x \<in> A \<times> UNIV" "y \<in> A \<times> UNIV" "z \<in> A \<times> UNIV" and le: "tie cmp x y \<le> 0" "tie cmp y z \<le> 0"
  then have A: "fst x \<in> A" "fst y \<in> A" "fst z \<in> A" by auto
  note d = total_compareD [OF t A(1,2)] total_compareD [OF t A(2,3)] total_compareD [OF t A(1,3)]
  have xz: "cmp (fst x) (fst z) \<le> 0"
    using total_compare_trans [OF t A] le unfolding tie_le by linarith
  have "snd x \<le> snd z" if z: "cmp (fst x) (fst z) = 0"
  proof -
    have "cmp (fst z) (fst x) \<le> 0" using d z by linarith
    then have "cmp (fst z) (fst y) \<le> 0" "cmp (fst y) (fst x) \<le> 0"
      using total_compare_trans [OF t A(3,1,2)] total_compare_trans [OF t A(2,3,1)] le
      unfolding tie_le by linarith+
    then show ?thesis using le d unfolding tie_le by linarith
  qed
  with xz show "tie cmp x z \<le> 0" unfolding tie_le by linarith
qed

lemma mset_insert_by [simp]: "mset (insert_by cmp x ys) = add_mset x (mset ys)"
  by (induction ys) auto

lemma mset_sort_by [simp]: "mset (sort_by cmp xs) = mset xs"
  by (induction xs) (auto simp: sort_by_def)

lemma set_sort_by [simp]: "set (sort_by cmp xs) = set xs"
  by (metis mset_sort_by set_mset_mset)

lemma length_sort_by [simp]: "length (sort_by cmp xs) = length xs"
  by (metis mset_sort_by size_mset)

lemma sorted_insert_by:
  assumes "compare_order cmp A" "x \<in> A" "set ys \<subseteq> A" "sorted_by cmp ys"
  shows "sorted_by cmp (insert_by cmp x ys)"
  using assms(3,4)
proof (induction ys)
  case Nil
  then show ?case by (simp add: sorted_by_def)
next
  case (Cons y ys)
  show ?case
  proof (cases "cmp x y \<le> 0")
    case True
    then have "cmp x z \<le> 0" if "z \<in> set ys" for z
      using compare_order.trans [OF assms(1,2), of y z] Cons.prems that by (auto simp: sorted_by_def)
    with True Cons.prems(2) show ?thesis by (simp add: sorted_by_def)
  next
    case False
    then have "cmp y x \<le> 0" using compare_order.total [OF assms(1,2), of y] Cons.prems(1) by auto
    moreover have "set (insert_by cmp x ys) = insert x (set ys)"
      using mset_insert_by [of cmp x ys] by (metis set_mset_add_mset_insert set_mset_mset)
    ultimately show ?thesis using False Cons by (auto simp: sorted_by_def)
  qed
qed

lemma sorted_sort_by:
  assumes "compare_order cmp A"
  shows "set xs \<subseteq> A \<Longrightarrow> sorted_by cmp (sort_by cmp xs)"
proof (induction xs)
  case Nil
  then show ?case by (simp add: sort_by_def sorted_by_def)
next
  case (Cons x xs)
  have "set (foldr (insert_by cmp) xs []) = set xs" using set_sort_by [of cmp xs] by (simp add: sort_by_def)
  with Cons show ?case
    using sorted_insert_by [OF assms, of x "foldr (insert_by cmp) xs []"] by (simp add: sort_by_def)
qed

lemma map_insert_tie:
  "\<forall>y\<in>set ys. k < snd y \<Longrightarrow> map fst (insert_by (tie cmp) (x, k) ys) = insert_by cmp x (map fst ys)"
  by (induction ys) (auto simp: tie_le)

lemma map_sort_tie: "map fst (sort_by (tie cmp) (zip xs [k..<k + length xs])) = sort_by cmp xs"
proof (induction xs arbitrary: k)
  case Nil
  then show ?case by (simp add: sort_by_def)
next
  case (Cons x xs)
  let ?zs = "zip xs [Suc k..<Suc k + length xs]"
  have z: "zip (x # xs) [k..<k + length (x # xs)] = (x, k) # ?zs"
    by (simp add: upt_conv_Cons del: upt_Suc)
  have "\<forall>y\<in>set (sort_by (tie cmp) ?zs). k < snd y"
    by (auto dest!: set_zip_rightD simp del: upt_Suc)
  then have "map fst (insert_by (tie cmp) (x, k) (sort_by (tie cmp) ?zs)) =
      insert_by cmp x (map fst (sort_by (tie cmp) ?zs))" by (rule map_insert_tie)
  with Cons.IH [of "Suc k"] show ?case unfolding z by (simp add: sort_by_def)
qed

text \<open>With the fallback, \<open>zend_sort\<close> does what insertion sort does.\<close>

lemma zend_sort_stable:
  assumes t: "total_compare cmp (set xs)"
  shows "map fst (zend_sort (tie cmp) exchange (zip xs [0..<length xs])) = sort_by cmp xs"
proof -
  let ?zs = "zip xs [0..<length xs]"
  have sub: "set ?zs \<subseteq> set xs \<times> UNIV" by (auto dest: set_zip_leftD)
  have o: "compare_order (tie cmp) (set ?zs)"
  proof
    fix x y assume "x \<in> set ?zs" "y \<in> set ?zs"
    then show "tie cmp x y \<le> 0 \<or> tie cmp y x \<le> 0"
      using compare_order.total [OF tie_order [OF t]] sub by blast
  next
    fix x y z assume "x \<in> set ?zs" "y \<in> set ?zs" "z \<in> set ?zs" "tie cmp x y \<le> 0" "tie cmp y z \<le> 0"
    then show "tie cmp x z \<le> 0"
      using compare_order.trans [OF tie_order [OF t]] sub by blast
  qed
  have "x = y" if "x \<in> set ?zs" "y \<in> set ?zs" "tie cmp x y \<le> 0" "tie cmp y x \<le> 0" for x y
  proof -
    have "fst x \<in> set xs" "fst y \<in> set xs" using that(1,2) sub by auto
    from total_compareD [OF t this] that(3,4) have "snd x = snd y" unfolding tie_le by linarith
    then show ?thesis using that(1,2) by (auto simp: set_zip)
  qed
  then have "zend_sort (tie cmp) exchange ?zs = sort_by (tie cmp) ?zs"
    using zs.sort_unique [OF o order_refl] sorted_sort_by [OF o order_refl] by simp
  then show ?thesis using map_sort_tie [of cmp xs 0] by simp
qed

end
