(* ===== verification/HashSortSpec.thy ===== *)
theory HashSortSpec
  imports HashSort HashDestroy
begin

text \<open>
  What \<open>zend_hash_sort\<close> does to the ordered map: with keys kept it is a stable sort
  of the entries, with renumbering a stable sort of the values under new keys.
\<close>

subsection \<open>The live buckets, numbered\<close>

definition live :: "Bucket option list \<Rightarrow> nat \<Rightarrow> Bucket list" where
  "live d n = entries (\<lambda>k. case d ! k of None \<Rightarrow> None
     | Some p \<Rightarrow> if b_val p = IS_UNDEF then None else Some p) n"

definition bucket_item :: "Bucket \<Rightarrow> hkey \<times> zval" where
  "bucket_item p = (bucket_key p, b_val p)"

definition numbered_buckets :: "Bucket list \<Rightarrow> Bucket list" where
  "numbered_buckets bs = map (\<lambda>(p, k). p\<lparr>b_next := k\<rparr>) (zip bs [0..<length bs])"

lemma live_0 [simp]: "live d 0 = []"
  by (simp add: live_def)

lemma live_Suc:
  "d ! n = Some p \<Longrightarrow> live d (Suc n) = live d n @ (if b_val p = IS_UNDEF then [] else [p])"
  by (simp add: live_def)

lemma bents_live: "bents d n = map bucket_item (live d n)"
  by (induction n) (auto simp: bents_Suc live_def bucket_entry_def bucket_item_def split: option.splits)

lemma live_defined: "p \<in> set (live d n) \<Longrightarrow> b_val p \<noteq> IS_UNDEF \<and> (\<exists>k<n. d ! k = Some p)"
  by (auto simp: live_def set_entries split: option.splits if_splits)

lemma length_numbered [simp]: "length (numbered_buckets bs) = length bs"
  by (simp add: numbered_buckets_def)

lemma numbered_snoc: "numbered_buckets (bs @ [p]) = numbered_buckets bs @ [p\<lparr>b_next := length bs\<rparr>]"
  by (simp add: numbered_buckets_def)

lemma map_numbered:
  "(\<And>p k. f (p\<lparr>b_next := k\<rparr>) = f p) \<Longrightarrow> map f (numbered_buckets bs) = map f bs"
  by (induction bs rule: rev_induct) (auto simp: numbered_snoc numbered_buckets_def [of "[]"])

lemma numbered_zip:
  "(\<And>p k. f (p\<lparr>b_next := k\<rparr>) = f p) \<Longrightarrow>
     map (\<lambda>p. (f p, b_next p)) (numbered_buckets bs) = zip (map f bs) [0..<length bs]"
  by (induction bs rule: rev_induct) (auto simp: numbered_snoc numbered_buckets_def [of "[]"])

text \<open>Both preparations leave the live buckets in order, with their places in \<open>Z_EXTRA\<close>.\<close>

lemma take_Suc_update:
  "i < length d \<Longrightarrow> take (Suc i) (d[i := x]) = take i d @ [x]"
  by (simp add: take_Suc_conv_app_nth)

lemma number_buckets_ok:
  assumes "j \<le> n" "n \<le> length d" "\<And>k. k < n \<Longrightarrow> d0 ! k \<noteq> None \<and> (\<forall>p. d0 ! k = Some p \<longrightarrow> b_val p \<noteq> IS_UNDEF)"
    "\<And>k. j \<le> k \<Longrightarrow> k < n \<Longrightarrow> d ! k = d0 ! k" "take j d = map Some (numbered_buckets (live d0 j))"
    "length (live d0 j) = j"
  shows "\<exists>d'. number_buckets [j..<n] d = Inr d' \<and> length d' = length d \<and>
     take n d' = map Some (numbered_buckets (live d0 n)) \<and> length (live d0 n) = n"
  using assms
proof (induction "n - j" arbitrary: j d)
  case 0
  then show ?case by auto
next
  case (Suc m)
  then have j: "j < n" "[j..<n] = j # [Suc j..<n]" "m = n - Suc j" by (auto simp: upt_conv_Cons)
  obtain p where p: "d0 ! j = Some p" "b_val p \<noteq> IS_UNDEF" using Suc.prems(3) [OF j(1)] by blast
  let ?d = "d[j := Some (p\<lparr>b_next := j\<rparr>)]"
  have "live d0 (Suc j) = live d0 j @ [p]" using p by (simp add: live_Suc)
  then have t: "take (Suc j) ?d = map Some (numbered_buckets (live d0 (Suc j)))" "length (live d0 (Suc j)) = Suc j"
    using Suc.prems(2,5,6) j(1) by (simp_all add: take_Suc_update numbered_snoc)
  obtain d' where d': "number_buckets [Suc j..<n] ?d = Inr d'" "length d' = length ?d"
     "take n d' = map Some (numbered_buckets (live d0 n))" "length (live d0 n) = n"
    using Suc.hyps(1) [OF j(3), of ?d] Suc.prems(2-4) j(1) t by auto
  have "d ! j = Some p" using Suc.prems(4) [of j] j(1) p(1) by simp
  with d' j(1,2) Suc.prems(2) show ?case by simp
qed

lemma close_holes_ok:
  assumes "j \<le> n" "n \<le> length d" "\<And>k. k < n \<Longrightarrow> d0 ! k \<noteq> None"
    "\<And>k. j \<le> k \<Longrightarrow> k < n \<Longrightarrow> d ! k = d0 ! k" "take i d = map Some (numbered_buckets (live d0 j))"
    "length (live d0 j) = i" "i \<le> j"
  shows "\<exists>d' i'. close_holes [j..<n] i d = Inr (d', i') \<and> length d' = length d \<and> i' \<le> n \<and>
     take i' d' = map Some (numbered_buckets (live d0 n)) \<and> length (live d0 n) = i'"
  using assms
proof (induction "n - j" arbitrary: j i d)
  case 0
  then show ?case by auto
next
  case (Suc m)
  then have j: "j < n" "[j..<n] = j # [Suc j..<n]" "m = n - Suc j" by (auto simp: upt_conv_Cons)
  obtain p where p: "d0 ! j = Some p" using Suc.prems(3) [OF j(1)] by blast
  have dj: "d ! j = Some p" using Suc.prems(4) [of j] j(1) p by simp
  show ?case
  proof (cases "b_val p = IS_UNDEF")
    case True
    then have "live d0 (Suc j) = live d0 j" using p by (simp add: live_Suc)
    with Suc.hyps(1) [OF j(3), of d i] Suc.prems(2-7) j(1)
    obtain d' i' where "close_holes [Suc j..<n] i d = Inr (d', i')" "length d' = length d" "i' \<le> n"
     "take i' d' = map Some (numbered_buckets (live d0 n))" "length (live d0 n) = i'" by auto
    then show ?thesis using True dj j(1,2) Suc.prems(2) by auto
  next
    case False
    let ?d1 = "if i \<noteq> j then d[i := Some p] else d"
    let ?d = "d[i := Some (p\<lparr>b_next := i\<rparr>)]"
    have il: "i < length d" using Suc.prems(2,7) j(1) by simp
    have d1: "(if i \<noteq> j then wr d i p else Inr d) = Inr ?d1" using il by simp
    have r1: "rd ?d1 i = Inr p" using il dj by auto
    have w1: "wr ?d1 i (p\<lparr>b_next := i\<rparr>) = Inr ?d" using il by auto
    have "live d0 (Suc j) = live d0 j @ [p]" using p False by (simp add: live_Suc)
    then have t: "take (Suc i) ?d = map Some (numbered_buckets (live d0 (Suc j)))"
        "length (live d0 (Suc j)) = Suc i"
      using Suc.prems(5,6) il by (simp_all add: take_Suc_update numbered_snoc)
    have "\<And>k. Suc j \<le> k \<Longrightarrow> k < n \<Longrightarrow> ?d ! k = d0 ! k" using Suc.prems(4,7) by simp
    with Suc.hyps(1) [OF j(3), of ?d "Suc i"] Suc.prems(2,3,7) j(1) t
    obtain d' i' where d': "close_holes [Suc j..<n] (Suc i) ?d = Inr (d', i')" "length d' = length ?d" "i' \<le> n"
     "take i' d' = map Some (numbered_buckets (live d0 n))" "length (live d0 n) = i'" by auto
    have "close_holes [j..<n] i d = Inr (d', i')"
      using j(1,2) Suc.prems(2) dj False d'(1) d1 r1 w1 by simp
    with d' show ?thesis by auto
  qed
qed

lemma read_cells_ok:
  assumes "take n d = map Some bs" "length bs = n"
  shows "read_cells d [0..<n] = Inr bs"
proof -
  have "read_cells d is = Inr (map (\<lambda>i. bs ! i) is)" if "set is \<subseteq> {..<n}" for "is"
    using that
  proof (induction "is")
    case (Cons i js)
    then have i: "i < n" by simp
    have l: "min (length d) n = length bs" using arg_cong [OF assms(1), of length] by simp
    have "take n d ! i = map Some bs ! i" using assms(1) by simp
    then have "i < length d" "d ! i = Some (bs ! i)" using i l assms(2) by simp_all
    with Cons show ?case by simp
  qed simp
  from this [of "[0..<n]"] assms(2) map_nth [of bs] show ?thesis
    by (simp add: lessThan_def atLeastLessThan_def)
qed

lemma renumber_buckets_ok:
  assumes "j \<le> n" "n \<le> length d" "drop j (take n d) = map Some bs"
  shows "\<exists>d'. renumber_buckets [j..<n] d eg = Inr (d', eg\<lparr>events := events eg @ concat (map released bs)\<rparr>) \<and>
     length d' = length d \<and> (\<forall>k<j. d' ! k = d ! k) \<and> (\<forall>k. n \<le> k \<longrightarrow> d' ! k = d ! k) \<and>
     (\<forall>k. j \<le> k \<and> k < n \<longrightarrow> d' ! k = map_option (\<lambda>p. p\<lparr>b_h := of_nat k, b_key := None\<rparr>) (d ! k))"
  using assms
proof (induction "n - j" arbitrary: j d bs eg)
  case 0
  then show ?case by auto
next
  case (Suc m)
  then have j: "j < n" "[j..<n] = j # [Suc j..<n]" "m = n - Suc j" by (auto simp: upt_conv_Cons)
  have "drop j (take n d) = d ! j # drop (Suc j) (take n d)"
    using Cons_nth_drop_Suc [of j "take n d"] j(1) Suc.prems(2) by simp
  then obtain p ps where p: "bs = p # ps" "d ! j = Some p" "drop (Suc j) (take n d) = map Some ps"
    using Suc.prems(3) by (cases bs) auto
  let ?d = "d[j := Some (p\<lparr>b_h := of_nat j, b_key := None\<rparr>)]"
  let ?eg = "case b_key p of Some k \<Rightarrow> emit (EvStrRelease k) eg | None \<Rightarrow> eg"
  have eg: "?eg = eg\<lparr>events := events eg @ released p\<rparr>"
    by (simp add: released_def emit_def split: option.splits)
  have "drop (Suc j) (take n ?d) = map Some ps" using p(3) by (simp add: drop_take)
  from Suc.hyps(1) [OF j(3) _ _ this, of ?eg] j(1) Suc.prems(2)
  obtain d' where d': "renumber_buckets [Suc j..<n] ?d ?eg =
      Inr (d', ?eg\<lparr>events := events ?eg @ concat (map released ps)\<rparr>)" "length d' = length ?d"
    "\<forall>k<Suc j. d' ! k = ?d ! k" "\<forall>k. n \<le> k \<longrightarrow> d' ! k = ?d ! k"
    "\<forall>k. Suc j \<le> k \<and> k < n \<longrightarrow> d' ! k = map_option (\<lambda>p. p\<lparr>b_h := of_nat k, b_key := None\<rparr>) (?d ! k)"
    by auto
  have "renumber_buckets [j..<n] d eg = Inr (d', eg\<lparr>events := events eg @ concat (map released bs)\<rparr>)"
    using d'(1) j(1,2) p(1,2) Suc.prems(2) by (simp add: eg)
  moreover have "d' ! k = map_option (\<lambda>p. p\<lparr>b_h := of_nat k, b_key := None\<rparr>) (d ! k)"
    if "j \<le> k" "k < n" for k
  proof (cases "k = j")
    case True
    then show ?thesis using d'(3) p(2) j(1) Suc.prems(2) by simp
  next
    case False
    then show ?thesis using d'(5) that by simp
  qed
  ultimately show ?case using d'(2-4) j(1) by auto
qed

subsection \<open>The swap functions and the comparisons\<close>

lemma bucket_swap_exchange: "zend_hash_bucket_swap = exchange"
  by (simp add: fun_eq_iff zend_hash_bucket_swap_def exchange_def)

lemma renum_swap_moves: "moves (\<lambda>p. (b_val p, b_next p)) zend_hash_bucket_renum_swap"
  by (simp add: moves_def zend_hash_bucket_renum_swap_def)

lemma renum_swap_keeps: "keeps b_key zend_hash_bucket_renum_swap"
  by (simp add: keeps_def zend_hash_bucket_renum_swap_def)

lemma return_stable_tie:
  "return_stable_sort (on f cmp) = on (\<lambda>p. (f p, b_next p)) (tie cmp)"
  by (simp add: fun_eq_iff return_stable_sort_def on_def tie_def stable_sort_fallback_def)

lemma zend_sort_numbered:
  assumes "total_compare cmp (set (map f bs))" "\<And>p k. f (p\<lparr>b_next := k\<rparr>) = f p"
    "moves (\<lambda>p. (f p, b_next p)) swp"
  shows "map f (zend_sort (return_stable_sort (on f cmp)) swp (numbered_buckets bs)) = sort_by cmp (map f bs)"
proof -
  let ?g = "\<lambda>p. (f p, b_next p)"
  have "map f (zend_sort (return_stable_sort (on f cmp)) swp (numbered_buckets bs)) =
      map fst (map ?g (zend_sort (on ?g (tie cmp)) swp (numbered_buckets bs)))"
    by (simp add: return_stable_tie comp_def)
  also have "map ?g (zend_sort (on ?g (tie cmp)) swp (numbered_buckets bs)) =
      zend_sort (tie cmp) exchange (zip (map f bs) [0..<length bs])"
    using zend_sort_map [OF assms(3), of "tie cmp" "numbered_buckets bs"]
    unfolding numbered_zip [of f bs, OF assms(2)] by simp
  also have "map fst \<dots> = sort_by cmp (map f bs)"
    using zend_sort_stable [OF assms(1)] by simp
  finally show ?thesis .
qed

lemma items_numbered: "map bucket_item (numbered_buckets bs) = map bucket_item bs"
  by (rule map_numbered) (simp add: bucket_item_def bucket_key_def cong: option.case_cong)

subsection \<open>The table before and after the call of the sort\<close>

text \<open>What the first half of \<open>zend_hash_sort_internal\<close> hands to the sort.\<close>

lemma sort_prepared:
  assumes inv: "ht_inv ht" "\<not> f_packed ht" "\<not> f_uninit ht"
  obtains d bs where
    "(if HT_IS_WITHOUT_HOLES ht
      then bindE (number_buckets [0..<nNumUsed ht] (arData ht)) (\<lambda>d. Inr (ht\<lparr>arData := d\<rparr>, nNumUsed ht))
      else bindE (close_holes [0..<nNumUsed ht] 0 (arData ht)) (\<lambda>(d, i).
             Inr (ht\<lparr>arData := d, nNumUsed := i\<rparr>, i))) =
      Inr (ht\<lparr>arData := d, nNumUsed := length bs\<rparr>, length bs)"
    "bs = live (arData ht) (nNumUsed ht)" "map bucket_item bs = elems ht"
    "take (length bs) d = map Some (numbered_buckets bs)" "length d = nTableSize ht"
    "length bs \<le> nTableSize ht"
proof -
  let ?n = "nNumUsed ht" and ?d = "arData ht"
  let ?bs = "live ?d ?n"
  note m = mixed_okD [OF inv_mixed [OF inv]]
  have le: "?n \<le> length ?d" using m(3,4) by simp
  have cell: "\<And>k. k < ?n \<Longrightarrow> ?d ! k \<noteq> None" using mixed_bucket [OF inv_mixed [OF inv]] by blast
  have items: "map bucket_item ?bs = elems ht" using bents_live elems_mixed [OF inv(2)] by simp
  show thesis
  proof (cases "HT_IS_WITHOUT_HOLES ht")
    case True
    have "\<And>k. k < ?n \<Longrightarrow> ?d ! k \<noteq> None \<and> (\<forall>p. ?d ! k = Some p \<longrightarrow> b_val p \<noteq> IS_UNDEF)"
      using True cell inv(2) unfolding elems_without_holes [OF inv(1)]
      by (fastforce simp: entry_at_def bucket_entry_def)
    from number_buckets_ok [OF le0 le this refl]
    obtain d' where d': "number_buckets [0..<?n] ?d = Inr d'" "length d' = length ?d"
        "take ?n d' = map Some (numbered_buckets ?bs)" "length ?bs = ?n"
      by (auto simp: numbered_buckets_def)
    have "ht\<lparr>arData := d'\<rparr> = ht\<lparr>arData := d', nNumUsed := length ?bs\<rparr>" using d'(4) by simp
    then show thesis using True d' items m(3,4) by (intro that [of ?bs d']) simp_all
  next
    case False
    from close_holes_ok [OF le0 le cell refl, of 0]
    obtain d' i' where d': "close_holes [0..<?n] 0 ?d = Inr (d', i')" "length d' = length ?d" "i' \<le> ?n"
        "take i' d' = map Some (numbered_buckets ?bs)" "length ?bs = i'"
      by (auto simp: numbered_buckets_def)
    then show thesis using False items m(3,4) by (intro that [of ?bs d']) simp_all
  qed
qed

text \<open>A packed table is converted first; from then on every table is mixed.\<close>

lemma sort_unpacked:
  assumes inv: "ht_inv ht" and ne: "elems ht \<noteq> []"
  obtains h eg' where "(if f_packed ht then zend_hash_packed_to_hash ht eg else Inr (ht, eg)) = Inr (h, eg')"
    "eg_same eg eg'" "ht_inv h" "\<not> f_packed h" "\<not> f_uninit h" "elems h = elems ht" "table_frame ht h"
    "nTableSize h = nTableSize ht"
proof (cases "f_packed ht")
  case True
  have "unpackable ht" using inv True by (auto simp: unpackable_def ht_inv_def packed_ok_def)
  then show thesis
    by (rule packed_to_hash_spec [of ht eg]) (use True that in simp)
next
  case False
  have "\<not> f_uninit ht"
  proof
    assume "f_uninit ht"
    then have "nNumUsed ht = 0" using inv False by (simp add: ht_inv_def uninit_ok_def)
    then show False using ne by (simp add: elems_nil)
  qed
  then show thesis using False inv that [of ht eg] by simp
qed

text \<open>Everything up to the call of the sort, and what it gets.\<close>

lemma sort_stages:
  assumes inv: "ht_inv ht" and many: "1 < nNumOfElements ht \<or> renumber \<and> 0 < nNumOfElements ht"
  obtains h eg1 d bs where
    "zend_hash_sort_internal ht srt compar renumber eg =
       (let h2 = HT_HASH_RESET (h\<lparr>arData := d, nNumUsed := length bs\<rparr>);
            h3 = h2\<lparr>arData := map Some (srt compar
                    (if renumber then zend_hash_bucket_renum_swap else zend_hash_bucket_swap)
                    (numbered_buckets bs)) @ drop (length bs) d,
                    nInternalPointer := 0\<rparr>
        in bindE (if renumber
                  then bindE (renumber_buckets [0..<length bs] (arData h3) eg1) (\<lambda>(d, eg).
                       Inr (h3\<lparr>arData := d, nNextFreeElement := int (length bs)\<rparr>, eg))
                  else Inr (h3, eg1)) (\<lambda>(ht, eg).
           if renumber then Inr (packed_copy ht, eg) else zend_hash_rehash ht eg))"
    "eg_same eg eg1" "ht_inv h" "\<not> f_packed h" "\<not> f_uninit h" "elems h = elems ht" "table_frame ht h"
    "map bucket_item bs = elems ht" "bs = live (arData h) (nNumUsed h)" "length d = nTableSize h"
    "length bs \<le> nTableSize h" "nTableSize h = nTableSize ht"
proof -
  have ne: "elems ht \<noteq> []" using inv many by (auto simp: ht_inv_def)
  obtain h eg1 where u: "(if f_packed ht then zend_hash_packed_to_hash ht eg else Inr (ht, eg)) = Inr (h, eg1)"
    "eg_same eg eg1" "ht_inv h" "\<not> f_packed h" "\<not> f_uninit h" "elems h = elems ht" "table_frame ht h"
    "nTableSize h = nTableSize ht"
    by (rule sort_unpacked [OF inv ne])
  obtain d bs where p: "(if HT_IS_WITHOUT_HOLES h
      then bindE (number_buckets [0..<nNumUsed h] (arData h)) (\<lambda>d. Inr (h\<lparr>arData := d\<rparr>, nNumUsed h))
      else bindE (close_holes [0..<nNumUsed h] 0 (arData h)) (\<lambda>(d, i).
             Inr (h\<lparr>arData := d, nNumUsed := i\<rparr>, i))) =
      Inr (h\<lparr>arData := d, nNumUsed := length bs\<rparr>, length bs)"
    "bs = live (arData h) (nNumUsed h)" "map bucket_item bs = elems h"
    "take (length bs) d = map Some (numbered_buckets bs)" "length d = nTableSize h" "length bs \<le> nTableSize h"
    by (rule sort_prepared [OF u(3-5)])
  have r: "read_cells d [0..<length bs] = Inr (numbered_buckets bs)"
    using p(4) by (rule read_cells_ok) simp
  have run: "\<not> (\<not> 1 < nNumOfElements ht \<and> \<not> (renumber \<and> 0 < nNumOfElements ht))" using many by blast
  show thesis
  proof (rule that [OF _ u(2-7) _ p(2,5,6) u(8)])
    show "map bucket_item bs = elems ht" using p(3) u(6) by simp
    show "zend_hash_sort_internal ht srt compar renumber eg =
       (let h2 = HT_HASH_RESET (h\<lparr>arData := d, nNumUsed := length bs\<rparr>);
            h3 = h2\<lparr>arData := map Some (srt compar
                    (if renumber then zend_hash_bucket_renum_swap else zend_hash_bucket_swap)
                    (numbered_buckets bs)) @ drop (length bs) d,
                    nInternalPointer := 0\<rparr>
        in bindE (if renumber
                  then bindE (renumber_buckets [0..<length bs] (arData h3) eg1) (\<lambda>(d, eg).
                       Inr (h3\<lparr>arData := d, nNextFreeElement := int (length bs)\<rparr>, eg))
                  else Inr (h3, eg1)) (\<lambda>(ht, eg).
           if renumber then Inr (packed_copy ht, eg) else zend_hash_rehash ht eg))"
      unfolding zend_hash_sort_internal_def if_not_P [OF run] u(1) bindE_Inr prod.case p(1)
      using u(4) r
      by (simp add: HT_HASH_RESET_def Let_def) (cases renumber, simp_all add: bindE_def split: sum.splits)
  qed
qed

subsection \<open>Sorting with the keys kept\<close>

lemma entries_all: "(\<And>i. i < n \<Longrightarrow> f i = Some (g i)) \<Longrightarrow> entries f n = map g [0..<n]"
  by (induction n) auto

lemma bents_full:
  assumes "\<And>p. p \<in> set ys \<Longrightarrow> b_val p \<noteq> IS_UNDEF"
  shows "bents (map Some ys @ zs) (length ys) = map bucket_item ys"
proof -
  have "bents (map Some ys @ zs) (length ys) = map (\<lambda>i. bucket_item (ys ! i)) [0..<length ys]"
    unfolding bents_def using assms
    by (intro entries_all) (simp add: nth_append bucket_entry_def bucket_item_def)
  also have "\<dots> = map bucket_item (map (\<lambda>i. ys ! i) [0..<length ys])" by simp
  finally show ?thesis by (simp only: map_nth)
qed

lemma numbered_live_ok:
  assumes inv: "ht_inv h" "\<not> f_packed h" "\<not> f_uninit h"
    and q: "q \<in> set (numbered_buckets (live (arData h) (nNumUsed h)))"
  shows "b_val q \<noteq> IS_UNDEF" "bucket_ok (f_static_keys h) (Some q)"
proof -
  from q obtain p k where p: "p \<in> set (live (arData h) (nNumUsed h))" "q = p\<lparr>b_next := k\<rparr>"
    unfolding numbered_buckets_def by (auto dest: set_zip_leftD)
  from live_defined [OF p(1)] obtain i where i: "i < nNumUsed h" "arData h ! i = Some p" "b_val p \<noteq> IS_UNDEF"
    by blast
  show "b_val q \<noteq> IS_UNDEF" using p(2) i(3) by simp
  have "bucket_ok (f_static_keys h) (Some p)" using mixed_okD(5) [OF inv_mixed [OF inv] i(1)] i(2) by simp
  then show "bucket_ok (f_static_keys h) (Some q)"
    using p(2) i(3) by (simp add: bucket_ok_def cong: option.case_cong)
qed

lemma sort_few:
  assumes "length xs \<le> 1"
  shows "sort_by cmp xs = xs"
  using assms by (cases xs) (auto simp: sort_by_def)

lemma sort_keys_kept:
  assumes inv: "ht_inv ht" and cmp: "total_compare cmp (set (elems ht))"
  obtains ht' eg' where "zend_hash_sort ht (return_stable_sort (on bucket_item cmp)) False eg = Inr (ht', eg')"
    "eg_same eg eg'" "ht_inv ht'" "elems ht' = sort_by cmp (elems ht)" "table_frame ht ht'"
    "1 < nNumOfElements ht \<Longrightarrow> from_pos ht' (nInternalPointer ht') = elems ht'"
proof (cases "1 < nNumOfElements ht")
  case False
  then have "sort_by cmp (elems ht) = elems ht" using inv by (intro sort_few) (simp add: ht_inv_def)
  then show thesis
    using False inv
    by (intro that [of ht eg]) (simp_all add: zend_hash_sort_def zend_hash_sort_ex_def zend_hash_sort_internal_def)
next
  case True
  let ?compar = "return_stable_sort (on bucket_item cmp)"
  obtain h eg1 d bs where st: "zend_hash_sort_internal ht zend_sort ?compar False eg =
       (let h2 = HT_HASH_RESET (h\<lparr>arData := d, nNumUsed := length bs\<rparr>);
            h3 = h2\<lparr>arData := map Some (zend_sort ?compar
                    (if False then zend_hash_bucket_renum_swap else zend_hash_bucket_swap)
                    (numbered_buckets bs)) @ drop (length bs) d,
                    nInternalPointer := 0\<rparr>
        in bindE (if False
                  then bindE (renumber_buckets [0..<length bs] (arData h3) eg1) (\<lambda>(d, eg).
                       Inr (h3\<lparr>arData := d, nNextFreeElement := int (length bs)\<rparr>, eg))
                  else Inr (h3, eg1)) (\<lambda>(ht, eg).
           if False then Inr (packed_copy ht, eg) else zend_hash_rehash ht eg))"
    "eg_same eg eg1" "ht_inv h" "\<not> f_packed h" "\<not> f_uninit h" "elems h = elems ht" "table_frame ht h"
    "map bucket_item bs = elems ht" "bs = live (arData h) (nNumUsed h)" "length d = nTableSize h"
    "length bs \<le> nTableSize h" "nTableSize h = nTableSize ht"
    by (rule sort_stages [OF inv, of False zend_sort ?compar eg]) (use True in auto)
  define ys where "ys = zend_sort ?compar zend_hash_bucket_swap (numbered_buckets bs)"
  have ms: "mset ys = mset (numbered_buckets bs)"
    by (simp add: ys_def bucket_swap_exchange mset_zend_sort)
  then have sy: "set ys = set (numbered_buckets bs)" and ly: "length ys = length bs"
    by (metis set_mset_mset, metis length_numbered size_mset)
  have items: "map bucket_item ys = sort_by cmp (elems ht)"
    unfolding ys_def st(8) [symmetric]
    by (rule zend_sort_numbered)
      (use cmp st(8) in \<open>simp_all add: bucket_swap_exchange bucket_item_def bucket_key_def cong: option.case_cong\<close>)
  define h3 where "h3 = h\<lparr>nNumUsed := length bs, arHash := replicate (unat (- nTableMask h)) HT_INVALID_IDX,
      arData := map Some ys @ drop (length bs) d, nInternalPointer := 0\<rparr>"
  have run: "zend_hash_sort ht ?compar False eg = zend_hash_rehash h3 eg1"
    by (simp add: zend_hash_sort_def zend_hash_sort_ex_def st(1) HT_HASH_RESET_def h3_def ys_def)
  have good: "b_val q \<noteq> IS_UNDEF" "bucket_ok (f_static_keys h) (Some q)" if "q \<in> set ys" for q
    using numbered_live_ok [OF st(3-5)] that unfolding sy st(9) by blast+
  have e3: "elems h3 = sort_by cmp (elems ht)"
    using bents_full [of ys "drop (length bs) d"] good(1) st(4) items ly
    by (simp add: elems_mixed h3_def)
  have "rehashable h3"
  proof -
    note m = mixed_okD [OF inv_mixed [OF st(3-5)]]
    have "length (elems h3) = length (elems h)" "set (elems h3) = set (elems h)"
      "distinct (map fst (elems h3)) = distinct (map fst (elems h))"
      using st(6) unfolding e3 
      by (simp_all, metis mset_eq_imp_distinct_iff mset_map mset_sort_by)
    moreover have "\<forall>i<length bs. bucket_ok (f_static_keys h) (arData h3 ! i)"
      using good(2) ly by (simp add: h3_def nth_append)
    moreover have "length (arData h3) = nTableSize h" using ly st(10,11) by (simp add: h3_def)
    ultimately show ?thesis
      using st(3-5,11) m(1) unfolding rehashable_def next_free_ok_def ht_inv_def by (simp add: h3_def)
  qed
  then obtain ht' eg' where r: "zend_hash_rehash h3 eg1 = Inr (ht', eg')" "eg_same eg1 eg'" "ht_inv ht'"
    "elems ht' = elems h3" "table_frame h3 ht'"
    "from_pos ht' (nInternalPointer ht') = from_pos h3 (nInternalPointer h3)"
    by (rule rehash_spec)
  have "table_frame h h3" by (simp add: table_frame_def h3_def)
  then have "table_frame ht ht'" using table_frame_trans [OF st(7) table_frame_trans] r(5) by blast
  moreover have "from_pos h3 (nInternalPointer h3) = elems h3" by (simp add: from_pos_def h3_def)
  ultimately show thesis
    using run r e3 eg_same_trans [OF st(2) r(2)] by (intro that [of ht' eg']) simp_all
qed

subsection \<open>Sorting with new keys\<close>

definition renumbered :: "zval list \<Rightarrow> (hkey \<times> zval) list" where
  "renumbered vs = map (\<lambda>i. (KNum (of_nat i), vs ! i)) [0..<length vs]"

lemma released_events: "ev_dtors (concat (map released bs)) = []"
    "ev_keys (concat (map released bs)) = string_keys_of (map bucket_item bs)"
proof -
  have "ev_dtors (concat (map released bs)) = [] \<and>
      ev_keys (concat (map released bs)) = string_keys_of (map bucket_item bs)"
  proof (induction bs)
    case Nil
    then show ?case by simp
  next
    case (Cons p bs)
    have "ev_dtors (released p) = []" "ev_keys (released p) = string_keys_of [bucket_item p]"
      by (auto simp: released_def bucket_item_def bucket_key_def split: option.splits)
    with Cons show ?case
      using string_keys_simps(2) [of "[bucket_item p]" "map bucket_item bs"] by simp
  qed
  then show "ev_dtors (concat (map released bs)) = []"
    "ev_keys (concat (map released bs)) = string_keys_of (map bucket_item bs)" by simp_all
qed

lemma map_released:
  assumes "map b_key ys = map b_key bs"
  shows "map released ys = map released bs"
proof -
  have "map released ps = map (\<lambda>k. case k of None \<Rightarrow> [] | Some k \<Rightarrow> [EvStrRelease k]) (map b_key ps)" for ps
    by (simp add: released_def)
  from this [of ys] this [of bs] show ?thesis unfolding assms by (rule trans [OF _ sym])
qed

text \<open>A table of \<open>n\<close> values under the keys 0 to \<open>n - 1\<close> is well formed.\<close>

lemma renumbered_inv:
  assumes sz: "size_ok (nTableSize h)" and len: "length vs \<le> nTableSize h" "length (arPacked h) = nTableSize h"
    and cells: "\<And>i. i < length vs \<Longrightarrow> arPacked h ! i = Some (vs ! i)" "\<And>v. v \<in> set vs \<Longrightarrow> v \<noteq> IS_UNDEF"
    and fields: "f_packed h" "\<not> f_uninit h" "nTableMask h = HT_MIN_MASK" "arHash h = [HT_INVALID_IDX, HT_INVALID_IDX]"
      "nNumUsed h = length vs" "nNumOfElements h = length vs" "nNextFreeElement h = int (length vs)"
  shows "elems h = renumbered vs" "ht_inv h"
proof -
  have at: "entry_at h i = Some (KNum (of_nat i), vs ! i)" if "i < length vs" for i
    using that cells fields(1) by (simp add: entry_at_def packed_entry_def)
  show e: "elems h = renumbered vs"
    unfolding elems_def renumbered_def fields(5) using at by (rule entries_all)
  have small: "length vs < 2 ^ 31" using len(1) size_ok_bounds [OF sz] by (simp add: HT_MAX_SIZE_def)
  have "distinct (map fst (renumbered vs))"
    unfolding renumbered_def map_map comp_def fst_conv distinct_map
    using small by (auto simp: inj_on_def word_of_nat_eq_iff take_bit_nat_eq_self)
  moreover have "key_below (int (length vs)) (fst kv)" if "kv \<in> set (renumbered vs)" for kv
  proof -
    from that obtain i where i: "i < length vs" "kv = (KNum (of_nat i), vs ! i)"
      by (auto simp: renumbered_def)
    then have "sint (of_nat i :: 64 word) = int i"
      using small by (simp add: signed_of_nat signed_take_bit_int_eq_self)
    then show ?thesis using i by (simp add: key_below_def)
  qed
  moreover have "packed_ok h"
    using fields len cells(1) by (simp add: packed_ok_def)
  ultimately show "ht_inv h"
    using sz small fields unfolding ht_inv_def next_free_ok_def e
    by (auto simp: renumbered_def ZEND_LONG_MAX_def ZEND_LONG_MIN_def)
qed

lemma sort_renumbered:
  assumes inv: "ht_inv ht" and cmp: "total_compare cmp (snd ` set (elems ht))" and ne: "0 < nNumOfElements ht"
  obtains ht' eg' rel where
    "zend_hash_sort ht (return_stable_sort (on b_val cmp)) True eg = Inr (ht', eg'\<lparr>events := events eg @ rel\<rparr>)"
    "eg_same eg eg'" "ht_inv ht'" "f_packed ht'" "elems ht' = renumbered (sort_by cmp (map snd (elems ht)))"
    "ev_keys rel = string_keys_of (elems ht)" "ev_dtors rel = []"
    "nNextFreeElement ht' = int (nNumOfElements ht)"
proof -
  let ?compar = "return_stable_sort (on b_val cmp)"
  let ?vs = "sort_by cmp (map snd (elems ht))"
  obtain h eg1 d bs where st: "zend_hash_sort_internal ht zend_sort ?compar True eg =
       (let h2 = HT_HASH_RESET (h\<lparr>arData := d, nNumUsed := length bs\<rparr>);
            h3 = h2\<lparr>arData := map Some (zend_sort ?compar
                    (if True then zend_hash_bucket_renum_swap else zend_hash_bucket_swap)
                    (numbered_buckets bs)) @ drop (length bs) d,
                    nInternalPointer := 0\<rparr>
        in bindE (if True
                  then bindE (renumber_buckets [0..<length bs] (arData h3) eg1) (\<lambda>(d, eg).
                       Inr (h3\<lparr>arData := d, nNextFreeElement := int (length bs)\<rparr>, eg))
                  else Inr (h3, eg1)) (\<lambda>(ht, eg).
           if True then Inr (packed_copy ht, eg) else zend_hash_rehash ht eg))"
    "eg_same eg eg1" "ht_inv h" "\<not> f_packed h" "\<not> f_uninit h" "elems h = elems ht" "table_frame ht h"
    "map bucket_item bs = elems ht" "bs = live (arData h) (nNumUsed h)" "length d = nTableSize h"
    "length bs \<le> nTableSize h" "nTableSize h = nTableSize ht"
    by (rule sort_stages [OF inv, of True zend_sort ?compar eg]) (use ne in auto)
  define ys where "ys = zend_sort ?compar zend_hash_bucket_renum_swap (numbered_buckets bs)"
  have "map b_key ys = map b_key (numbered_buckets bs)"
    unfolding ys_def by (rule zend_sort_keeps [OF renum_swap_keeps])
  then have ky: "map b_key ys = map b_key bs" by (simp add: map_numbered)
  then have ly: "length ys = length bs" by (metis length_map)
  have vals: "map b_val bs = map snd (elems ht)"
    using st(8) [symmetric] by (simp add: bucket_item_def)
  have vy: "map b_val ys = ?vs"
    unfolding ys_def vals [symmetric]
    by (rule zend_sort_numbered) (use cmp vals renum_swap_moves in \<open>simp_all add: image_set [symmetric]\<close>)
  let ?d3 = "map Some ys @ drop (length bs) d"
  have l3: "length bs \<le> length ?d3" "drop 0 (take (length bs) ?d3) = map Some ys" "length ?d3 = nTableSize h"
    using ly st(10,11) by simp_all
  obtain d' where d': "renumber_buckets [0..<length bs] ?d3 eg1 =
        Inr (d', eg1\<lparr>events := events eg1 @ concat (map released ys)\<rparr>)" "length d' = nTableSize h"
      "\<And>k. k < length bs \<Longrightarrow> d' ! k = map_option (\<lambda>p. p\<lparr>b_h := of_nat k, b_key := None\<rparr>) (?d3 ! k)"
    using renumber_buckets_ok [OF le0 l3(1,2), of eg1] l3(3) by auto
  define h4 where "h4 = packed_copy (h\<lparr>nNumUsed := length bs,
      arHash := replicate (unat (- nTableMask h)) HT_INVALID_IDX, nInternalPointer := 0,
      arData := d', nNextFreeElement := int (length bs)\<rparr>)"
  have ev: "events eg1 = events eg" by (rule eg_same_fields(3) [OF st(2)])
  have run: "zend_hash_sort ht ?compar True eg =
      Inr (h4, eg1\<lparr>events := events eg @ concat (map released bs)\<rparr>)"
    using d'(1) unfolding map_released [OF ky] ev
    by (simp add: zend_hash_sort_def zend_hash_sort_ex_def st(1) HT_HASH_RESET_def h4_def ys_def)
  have nb: "length bs = nNumOfElements ht" "length ?vs = length bs"
    using inv arg_cong [OF st(8), of length] by (simp_all add: ht_inv_def)
  have cell: "arPacked h4 ! i = Some (?vs ! i)" if "i < length ?vs" for i
    using d'(2,3) that nb ly st(11) arg_cong [OF vy, of "\<lambda>xs. xs ! i"]
    by (simp add: h4_def packed_copy_def HT_HASH_RESET_PACKED_def nth_append)
  have un: "v \<noteq> IS_UNDEF" if "v \<in> set ?vs" for v
  proof -
    from that obtain p where "p \<in> set bs" "v = b_val p" by (auto simp: vals [symmetric])
    then show ?thesis using live_defined [of p "arData h" "nNumUsed h"] st(9) by simp
  qed
  have sz: "size_ok (nTableSize h4)" "nTableSize h4 = nTableSize h"
    using inv_size [OF st(3)] by (simp_all add: h4_def packed_copy_def HT_HASH_RESET_PACKED_def)
  have fr: "nNumOfElements h = nNumOfElements ht" using st(7) by (simp add: table_frame_def)
  have e: "elems h4 = renumbered ?vs" "ht_inv h4"
    by (rule renumbered_inv [of h4 ?vs, OF sz(1) _ _ cell un];
      use nb sz(2) st(4,5,11) d'(2) fr in \<open>simp add: h4_def packed_copy_def HT_HASH_RESET_PACKED_def\<close>)+
  show thesis
    by (rule that [OF run st(2) e(2) _ e(1)])
      (use nb st(8) in \<open>simp_all add: released_events h4_def packed_copy_def HT_HASH_RESET_PACKED_def\<close>)
qed

end
