(* ===== verification/HashCompare.thy ===== *)
theory HashCompare
  imports HashApply HashSort ZendCase
begin

text \<open>
  Comparing two tables and finding the extreme values of one:
  \<open>zend_hash_compare\<close> and \<open>zend_hash_minmax\<close>. The comparison of two values is the
  caller's.
\<close>

subsection \<open>\<open>zend_hash_compare\<close>\<close>

text \<open>
  The \<open>while (1)\<close> loop of the ordered comparison: the next place of \<open>ht2\<close> that is
  not a hole. Running into the end is a failed assertion.
\<close>

fun next_live :: "HashTable \<Rightarrow> nat list \<Rightarrow> error + nat \<times> zend_hash_key \<times> zval" where
  "next_live ht [] = Inl AssertFailed"
| "next_live ht (i # is) =
     bindE (place_read ht i) (\<lambda>(hk, v).
       if v \<noteq> IS_UNDEF then Inr (i, hk, v) else next_live ht is)"

text \<open>The keys of two entries at the same rank; 0 when they are the same.\<close>

definition compare_keys :: "zend_hash_key \<Rightarrow> zend_hash_key \<Rightarrow> int" where
  "compare_keys a b =
     (case (hk_key a, hk_key b) of
        (None, None) \<Rightarrow>
          if hk_h a \<noteq> hk_h b then (if hk_h a > hk_h b then 1 else - 1) else 0
      | (Some k, Some l) \<Rightarrow>
          if length (zs_val k) \<noteq> length (zs_val l)
          then (if length (zs_val k) > length (zs_val l) then 1 else - 1)
          else memcmp (length (zs_val k)) (zs_val k) (zs_val l)
      | (Some k, None) \<Rightarrow> 1
      | (None, Some l) \<Rightarrow> - 1)"

text \<open>The values of two entries, after \<open>IS_INDIRECT\<close>.\<close>

definition deref_indirect :: "executor_globals \<Rightarrow> zval \<Rightarrow> zval" where
  "deref_indirect eg v = (case v of IS_INDIRECT a \<Rightarrow> indirect eg a | _ \<Rightarrow> v)"

definition compare_values :: "(zval \<Rightarrow> zval \<Rightarrow> int) \<Rightarrow> executor_globals \<Rightarrow> zval \<Rightarrow> zval \<Rightarrow> int" where
  "compare_values compar eg v1 v2 =
     (let pData1 = deref_indirect eg v1; pData2 = deref_indirect eg v2
      in if pData1 = IS_UNDEF then (if pData2 \<noteq> IS_UNDEF then - 1 else 0)
         else if pData2 = IS_UNDEF then 1
         else compar pData1 pData2)"

fun compare_loop ::
  "nat list \<Rightarrow> nat \<Rightarrow> HashTable \<Rightarrow> HashTable \<Rightarrow> (zval \<Rightarrow> zval \<Rightarrow> int) \<Rightarrow> bool \<Rightarrow> executor_globals \<Rightarrow> error + int"
  where
  "compare_loop [] idx2 ht1 ht2 compar ordered eg = Inr 0"
| "compare_loop (idx1 # is) idx2 ht1 ht2 compar ordered eg =
     bindE (place_read ht1 idx1) (\<lambda>(hk1, v1).
     if v1 = IS_UNDEF then compare_loop is idx2 ht1 ht2 compar ordered eg
     else if ordered then
       bindE (next_live ht2 [idx2..<nNumUsed ht2]) (\<lambda>(idx2, hk2, v2).
       if compare_keys hk1 hk2 \<noteq> 0 then Inr (compare_keys hk1 hk2)
       else
         let result = compare_values compar eg v1 v2
         in if result \<noteq> 0 then Inr result
            else compare_loop is (idx2 + 1) ht1 ht2 compar ordered eg)
     else
       bindE (case hk_key hk1 of
                None \<Rightarrow> zend_hash_index_find ht2 (hk_h hk1)
              | Some k \<Rightarrow> zend_hash_find ht2 k) (\<lambda>p.
       case p of
         None \<Rightarrow> Inr 1
       | Some l \<Rightarrow>
           let result = compare_values compar eg v1 (zloc_val ht2 eg l)
           in if result \<noteq> 0 then Inr result
              else compare_loop is idx2 ht1 ht2 compar ordered eg))"

definition zend_hash_compare_impl ::
  "HashTable \<Rightarrow> HashTable \<Rightarrow> (zval \<Rightarrow> zval \<Rightarrow> int) \<Rightarrow> bool \<Rightarrow> executor_globals \<Rightarrow> error + int" where
  "zend_hash_compare_impl ht1 ht2 compar ordered eg =
     (if nNumOfElements ht1 \<noteq> nNumOfElements ht2
      then Inr (if nNumOfElements ht1 > nNumOfElements ht2 then 1 else - 1)
      else compare_loop [0..<nNumUsed ht1] 0 ht1 ht2 compar ordered eg)"

text \<open>
  The second part of the result says whether the "Nesting level too deep" error was
  thrown; \<open>recursive\<close> is the protection flag of \<open>ht1\<close>, which is set during the
  comparison and so is found set when a value of \<open>ht1\<close> leads back to it.
\<close>

definition ZEND_UNCOMPARABLE :: int where
  "ZEND_UNCOMPARABLE = 1"

definition zend_hash_compare ::
  "HashTable \<Rightarrow> HashTable \<Rightarrow> (zval \<Rightarrow> zval \<Rightarrow> int) \<Rightarrow> bool \<Rightarrow> bool \<Rightarrow> executor_globals \<Rightarrow> error + int \<times> bool" where
  "zend_hash_compare ht1 ht2 compar ordered recursive eg =
     (if ht_addr ht1 = ht_addr ht2 then Inr (0, False)
      else if recursive then Inr (ZEND_UNCOMPARABLE, True)
      else bindE (zend_hash_compare_impl ht1 ht2 compar ordered eg) (\<lambda>result. Inr (result, False)))"

subsection \<open>\<open>zend_hash_minmax\<close>\<close>

text \<open>The result is the place of the value: the first one that no other one beats.\<close>

fun first_live :: "HashTable \<Rightarrow> nat list \<Rightarrow> error + nat option" where
  "first_live ht [] = Inr None"
| "first_live ht (i # is) =
     bindE (place_read ht i) (\<lambda>(hk, v). if v \<noteq> IS_UNDEF then Inr (Some i) else first_live ht is)"

fun minmax_loop ::
  "nat list \<Rightarrow> HashTable \<Rightarrow> (zval \<Rightarrow> zval \<Rightarrow> int) \<Rightarrow> bool \<Rightarrow> nat \<Rightarrow> error + nat" where
  "minmax_loop [] ht compar flag res = Inr res"
| "minmax_loop (i # is) ht compar flag res =
     bindE (place_read ht i) (\<lambda>(hk, v).
       if v = IS_UNDEF then minmax_loop is ht compar flag res
       else bindE (place_read ht res) (\<lambda>(hk, r).
         minmax_loop is ht compar flag
           (if flag then (if compar r v < 0 then i else res) else (if compar r v > 0 then i else res))))"

definition zend_hash_minmax :: "HashTable \<Rightarrow> (zval \<Rightarrow> zval \<Rightarrow> int) \<Rightarrow> bool \<Rightarrow> error + nat option" where
  "zend_hash_minmax ht compar flag =
     (if nNumOfElements ht = 0 then Inr None
      else bindE (first_live ht [0..<nNumUsed ht]) (\<lambda>p.
        case p of
          None \<Rightarrow> Inr None
        | Some idx \<Rightarrow> bindE (minmax_loop [idx..<nNumUsed ht] ht compar flag idx) (\<lambda>res. Inr (Some res))))"

subsection \<open>The places of a table\<close>

lemma place_read_hole:
  assumes inv: "ht_inv ht" and i: "i < nNumUsed ht" "entry_at ht i = None"
  obtains hk where "place_read ht i = Inr (hk, IS_UNDEF)"
proof (cases "f_packed ht")
  case True
  note ok = inv_packed [OF inv True, unfolded packed_ok_def]
  then obtain v where v: "arPacked ht ! i = Some v" using i(1) by blast
  have "v = IS_UNDEF"
    using i(2) v True by (simp add: entry_at_def packed_entry_def split: if_splits)
  then show thesis using that True v ok i(1) by (simp add: place_read_def)
next
  case False
  have nu: "\<not> f_uninit ht" using inv i(1) False by (auto simp: ht_inv_def uninit_ok_def)
  note m = mixed_okD [OF inv_mixed [OF inv False nu]]
  obtain p where p: "arData ht ! i = Some p" using mixed_bucket [OF inv_mixed [OF inv False nu] i(1)] by blast
  have "b_val p = IS_UNDEF"
    using i(2) p False by (simp add: entry_at_def bucket_entry_def split: if_splits)
  then show thesis using that False p m(3,4) i(1) by (simp add: place_read_def)
qed

text \<open>A string key found at a place carries its hash, so it can be searched for.\<close>

lemma place_key_ok:
  assumes inv: "ht_inv ht" and i: "i < nNumUsed ht" "place_read ht i = Inr (hk, v)" "v \<noteq> IS_UNDEF"
    and k: "hk_key hk = Some k"
  shows "str_ok k"
proof -
  have np: "\<not> f_packed ht" using i(2) k by (auto simp: place_read_def bindE_eq_Inr)
  have nu: "\<not> f_uninit ht" using inv i(1) np by (auto simp: ht_inv_def uninit_ok_def)
  note m = mixed_okD [OF inv_mixed [OF inv np nu]]
  obtain p where p: "arData ht ! i = Some p" using mixed_bucket [OF inv_mixed [OF inv np nu] i(1)] by blast
  have "b_key p = Some k" "b_val p = v" using i k p np m(3,4) by (auto simp: place_read_def)
  then show ?thesis using m(5) [OF i(1)] p i(3) by (simp add: bucket_ok_def str_ok_def)
qed

lemma place_cases:
  assumes inv: "ht_inv ht" and i: "i < nNumUsed ht"
  obtains (hole) hk where "place_read ht i = Inr (hk, IS_UNDEF)" "from_pos ht i = from_pos ht (Suc i)"
      "entry_at ht i = None"
  | (entry) hk v where "place_read ht i = Inr (hk, v)" "v \<noteq> IS_UNDEF"
      "from_pos ht i = (hk_hkey hk, v) # from_pos ht (Suc i)" "entry_at ht i = Some (hk_hkey hk, v)"
proof (cases "entry_at ht i")
  case None
  then show thesis
    using place_read_hole [OF inv i None] hole from_pos_Suc [OF i] by (auto simp: None)
next
  case (Some kv)
  obtain k v where kv: "kv = (k, v)" by (cases kv)
  from place_read_ok [OF inv i Some [unfolded kv]]
  obtain hk where "place_read ht i = Inr (hk, v)" "hk_hkey hk = k" "v \<noteq> IS_UNDEF" by blast
  then show thesis using entry [of hk v] from_pos_Suc [OF i] Some kv by auto
qed

lemma next_live_ok:
  assumes inv: "ht_inv ht"
  shows "j \<le> nNumUsed ht \<Longrightarrow> from_pos ht j = (k, v) # rest \<Longrightarrow>
    \<exists>i hk. next_live ht [j..<nNumUsed ht] = Inr (i, hk, v) \<and> hk_hkey hk = k \<and> j \<le> i \<and>
      i < nNumUsed ht \<and> from_pos ht (Suc i) = rest"
proof (induction "nNumUsed ht - j" arbitrary: j)
  case 0
  then show ?case using from_pos_past [of ht j] by simp
next
  case (Suc m)
  then have j: "j < nNumUsed ht" "m = nNumUsed ht - Suc j" "[j..<nNumUsed ht] = j # [Suc j..<nNumUsed ht]"
    by (auto simp: upt_conv_Cons)
  from inv j(1) show ?case
  proof (cases rule: place_cases)
    case (hole hk)
    with Suc.hyps(1) [OF j(2)] Suc.prems(2) j(1) show ?thesis
      unfolding j(3) by (auto intro: Suc_leD)
  next
    case (entry hk w)
    with Suc.prems(2) j show ?thesis by auto
  qed
qed

subsection \<open>The comparison on the ordered maps\<close>

definition compare_hkeys :: "hkey \<Rightarrow> hkey \<Rightarrow> int" where
  "compare_hkeys k l =
     (case (k, l) of
        (KNum g, KNum h) \<Rightarrow> if g \<noteq> h then (if g > h then 1 else - 1) else 0
      | (KStr s, KStr t) \<Rightarrow>
          if length s \<noteq> length t then (if length s > length t then 1 else - 1) else memcmp (length s) s t
      | (KStr s, KNum h) \<Rightarrow> 1
      | (KNum g, KStr t) \<Rightarrow> - 1)"

lemma compare_keys_hkey: "compare_keys a b = compare_hkeys (hk_hkey a) (hk_hkey b)"
  by (simp add: compare_keys_def compare_hkeys_def hk_hkey_def split: option.split)

lemma memcmp_0_iff: "length s = n \<Longrightarrow> length t = n \<Longrightarrow> memcmp n s t = 0 \<longleftrightarrow> s = t"
proof (induction n arbitrary: s t)
  case (Suc n)
  then obtain a s' b t' where "s = a # s'" "t = b # t'" by (cases s; cases t) auto
  with Suc show ?case by (auto dest: word_uint_eqI)
qed simp

lemma compare_hkeys_0 [simp]: "compare_hkeys k l = 0 \<longleftrightarrow> k = l"
  by (auto simp: compare_hkeys_def memcmp_0_iff split: hkey.split)

text \<open>In order: rank by rank. Without order: every entry of the first in the second.\<close>

fun compare_ranks ::
  "(zval \<Rightarrow> zval \<Rightarrow> int) \<Rightarrow> executor_globals \<Rightarrow> (hkey \<times> zval) list \<Rightarrow> (hkey \<times> zval) list \<Rightarrow> int" where
  "compare_ranks compar eg ((k, u) # xs) ((l, v) # ys) =
     (if compare_hkeys k l \<noteq> 0 then compare_hkeys k l
      else if compare_values compar eg u v \<noteq> 0 then compare_values compar eg u v
      else compare_ranks compar eg xs ys)"
| "compare_ranks compar eg xs ys = 0"

fun compare_maps ::
  "(zval \<Rightarrow> zval \<Rightarrow> int) \<Rightarrow> executor_globals \<Rightarrow> (hkey \<times> zval) list \<Rightarrow> (hkey \<times> zval) list \<Rightarrow> int" where
  "compare_maps compar eg [] ys = 0"
| "compare_maps compar eg ((k, u) # xs) ys =
     (case map_of ys k of
        None \<Rightarrow> 1
      | Some v \<Rightarrow>
          if compare_values compar eg u v \<noteq> 0 then compare_values compar eg u v
          else compare_maps compar eg xs ys)"

lemma ordered_loop_ok:
  assumes inv: "ht_inv ht1" "ht_inv ht2"
  shows "i \<le> nNumUsed ht1 \<Longrightarrow> j \<le> nNumUsed ht2 \<Longrightarrow> length (from_pos ht1 i) = length (from_pos ht2 j) \<Longrightarrow>
    compare_loop [i..<nNumUsed ht1] j ht1 ht2 compar True eg =
      Inr (compare_ranks compar eg (from_pos ht1 i) (from_pos ht2 j))"
proof (induction "nNumUsed ht1 - i" arbitrary: i j)
  case 0
  then show ?case using from_pos_past [of ht1 i] by simp
next
  case (Suc m)
  then have i: "i < nNumUsed ht1" "m = nNumUsed ht1 - Suc i" "[i..<nNumUsed ht1] = i # [Suc i..<nNumUsed ht1]"
    by (auto simp: upt_conv_Cons)
  from inv(1) i(1) show ?case
  proof (cases rule: place_cases)
    case (hole hk)
    with Suc.hyps(1) [OF i(2) _ Suc.prems(2)] Suc.prems(3) i(1) show ?thesis unfolding i(3) by simp
  next
    case (entry hk u)
    then obtain l v rest where r: "from_pos ht2 j = (l, v) # rest"
      using Suc.prems(3) by (cases "from_pos ht2 j") auto
    from next_live_ok [OF inv(2) Suc.prems(2) r]
    obtain j' hk2 where n: "next_live ht2 [j..<nNumUsed ht2] = Inr (j', hk2, v)" "hk_hkey hk2 = l"
        "j' < nNumUsed ht2" "from_pos ht2 (Suc j') = rest" by blast
    have "compare_loop [Suc i..<nNumUsed ht1] (j' + 1) ht1 ht2 compar True eg =
        Inr (compare_ranks compar eg (from_pos ht1 (Suc i)) rest)"
      using Suc.hyps(1) [OF i(2), of "Suc j'"] i(1) n(3,4) Suc.prems(3) entry(3) r by simp
    then show ?thesis
      unfolding i(3) r entry(3)
      using entry(1,2) n(1,2) by (simp add: Let_def compare_keys_hkey)
  qed
qed

lemma find_entry:
  assumes inv: "ht_inv ht" and k: "\<And>s. hk_key hk = Some s \<Longrightarrow> str_ok s"
  shows "found_val ht eg (case hk_key hk of None \<Rightarrow> zend_hash_index_find ht (hk_h hk) | Some s \<Rightarrow> zend_hash_find ht s)
    = Inr (map_of (elems ht) (hk_hkey hk))"
  using index_find_spec [OF inv] find_spec [OF inv] k
  by (cases "hk_key hk") (simp_all add: hk_hkey_def)

lemma unordered_loop_ok:
  assumes inv: "ht_inv ht1" "ht_inv ht2"
  shows "i \<le> nNumUsed ht1 \<Longrightarrow>
    compare_loop [i..<nNumUsed ht1] j ht1 ht2 compar False eg =
      Inr (compare_maps compar eg (from_pos ht1 i) (elems ht2))"
proof (induction "nNumUsed ht1 - i" arbitrary: i)
  case 0
  then show ?case using from_pos_past [of ht1 i] by simp
next
  case (Suc m)
  then have i: "i < nNumUsed ht1" "m = nNumUsed ht1 - Suc i" "[i..<nNumUsed ht1] = i # [Suc i..<nNumUsed ht1]"
    by (auto simp: upt_conv_Cons)
  have IH: "compare_loop [Suc i..<nNumUsed ht1] j ht1 ht2 compar False eg =
      Inr (compare_maps compar eg (from_pos ht1 (Suc i)) (elems ht2))"
    using Suc.hyps(1) [OF i(2)] i(1) by simp
  from inv(1) i(1) show ?case
  proof (cases rule: place_cases)
    case (hole hk)
    with IH show ?thesis unfolding i(3) by simp
  next
    case (entry hk u)
    let ?r = "case hk_key hk of None \<Rightarrow> zend_hash_index_find ht2 (hk_h hk) | Some s \<Rightarrow> zend_hash_find ht2 s"
    have "found_val ht2 eg ?r = Inr (map_of (elems ht2) (hk_hkey hk))"
      using place_key_ok [OF inv(1) i(1) entry(1,2)] by (intro find_entry [OF inv(2)])
    then obtain p where p: "?r = Inr p" "map_option (zloc_val ht2 eg) p = map_of (elems ht2) (hk_hkey hk)"
      by (auto simp: found_val_def map_sum_def split: sum.splits)
    show ?thesis
      unfolding i(3) entry(3) compare_loop.simps entry(1) bindE_Inr prod.case p(1)
      using IH entry(2) p(2) [symmetric] by (cases p) (auto simp: Let_def)
  qed
qed

lemma compare_impl_ok:
  assumes "ht_inv ht1" "ht_inv ht2"
  shows "zend_hash_compare_impl ht1 ht2 compar ordered eg =
    Inr (if length (elems ht1) \<noteq> length (elems ht2) then (if length (elems ht1) > length (elems ht2) then 1 else - 1)
         else if ordered then compare_ranks compar eg (elems ht1) (elems ht2)
         else compare_maps compar eg (elems ht1) (elems ht2))"
  using assms ordered_loop_ok [OF assms, of 0 0 compar eg] unordered_loop_ok [OF assms, of 0 0 compar eg]
  by (cases ordered) (auto simp: zend_hash_compare_impl_def ht_inv_def)

text \<open>When the result is 0.\<close>

lemma compare_ranks_0:
  "length xs = length ys \<Longrightarrow> compare_ranks compar eg xs ys = 0 \<longleftrightarrow>
     list_all2 (\<lambda>(k, u) (l, v). k = l \<and> compare_values compar eg u v = 0) xs ys"
proof (induction xs arbitrary: ys)
  case (Cons x xs)
  then obtain y ys' where "ys = y # ys'" by (cases ys) auto
  with Cons show ?case by (cases x; cases y) auto
qed simp

lemma compare_maps_0:
  "compare_maps compar eg xs ys = 0 \<longleftrightarrow>
     (\<forall>(k, u) \<in> set xs. \<exists>v. map_of ys k = Some v \<and> compare_values compar eg u v = 0)"
proof (induction xs)
  case (Cons x xs)
  obtain k u where x: "x = (k, u)" by (cases x)
  show ?case
  proof (cases "map_of ys k")
    case (Some v)
    then show ?thesis using Cons.IH x by (cases "compare_values compar eg u v = 0") auto
  qed (use x in auto)
qed simp

lemma same_keys:
  assumes "distinct (map fst xs)" "distinct (map fst ys)" "length xs = length ys"
    "fst ` set xs \<subseteq> fst ` set ys"
  shows "fst ` set xs = fst ` set ys"
proof (rule card_subset_eq)
  have "card (fst ` set xs) = length xs" "card (fst ` set ys) = length ys"
    using assms(1,2) distinct_card [of "map fst xs"] distinct_card [of "map fst ys"] by simp_all
  then show "card (fst ` set xs) = card (fst ` set ys)" using assms(3) by simp
qed (use assms(4) in auto)

lemma compare_maps_rel:
  assumes d: "distinct (map fst xs)" "distinct (map fst ys)" and len: "length xs = length ys"
  shows "compare_maps compar eg xs ys = 0 \<longleftrightarrow>
    (\<forall>k. rel_option (\<lambda>u v. compare_values compar eg u v = 0) (map_of xs k) (map_of ys k))"
proof
  assume c: "compare_maps compar eg xs ys = 0"
  then have sub: "fst ` set xs \<subseteq> fst ` set ys"
    unfolding compare_maps_0 by (force dest: map_of_SomeD)
  have "rel_option (\<lambda>u v. compare_values compar eg u v = 0) (map_of xs k) (map_of ys k)" for k
  proof (cases "map_of xs k")
    case None
    then have "k \<notin> fst ` set ys" using same_keys [OF d len sub] by (simp add: map_of_eq_None_iff)
    then show ?thesis using None by (simp add: map_of_eq_None_iff [symmetric])
  next
    case (Some u)
    then have "(k, u) \<in> set xs" by (rule map_of_SomeD)
    then obtain v where "map_of ys k = Some v" "compare_values compar eg u v = 0"
      using c unfolding compare_maps_0 by blast
    then show ?thesis using Some by simp
  qed
  then show "\<forall>k. rel_option (\<lambda>u v. compare_values compar eg u v = 0) (map_of xs k) (map_of ys k)" by blast
next
  assume r: "\<forall>k. rel_option (\<lambda>u v. compare_values compar eg u v = 0) (map_of xs k) (map_of ys k)"
  have "\<exists>v. map_of ys k = Some v \<and> compare_values compar eg u v = 0" if "(k, u) \<in> set xs" for k u
    using r [rule_format, of k] that d(1) by (auto simp: option_rel_Some1)
  then show "compare_maps compar eg xs ys = 0" unfolding compare_maps_0 by blast
qed

subsection \<open>The extreme values\<close>

text \<open>The comparison read from above for the maximum, from below for the minimum.\<close>

definition directed :: "bool \<Rightarrow> (zval \<Rightarrow> zval \<Rightarrow> int) \<Rightarrow> zval \<Rightarrow> zval \<Rightarrow> int" where
  "directed flag compar a b = (if flag then compar a b else - compar a b)"

lemma directed_total:
  assumes t: "total_compare compar A"
  shows "total_compare (directed flag compar) A"
proof (cases flag)
  case True
  then have "directed flag compar = compar" by (simp add: fun_eq_iff directed_def)
  then show ?thesis using t by simp
next
  case False
  then have d: "directed flag compar a b = - compar a b" for a b by (simp add: directed_def)
  have s: "sgn (- compar a b) = - sgn (- compar b a)" if "a \<in> A" "b \<in> A" for a b
  proof -
    have "sgn (compar a b) = - sgn (compar b a)" using t that unfolding total_compare_def by blast
    then show ?thesis by (simp only: sgn_minus)
  qed
  have tr: "- compar a c \<le> 0" if "a \<in> A" "b \<in> A" "c \<in> A" "- compar a b \<le> 0" "- compar b c \<le> 0" for a b c
  proof -
    note d = total_compareD [OF t that(1,2)] total_compareD [OF t that(2,3)] total_compareD [OF t that(1,3)]
    have "compar c b \<le> 0" "compar b a \<le> 0" using d that(4,5) by linarith+
    then have "compar c a \<le> 0" using total_compare_trans [OF t that(3,2,1)] by blast
    then show ?thesis using d by linarith
  qed
  show ?thesis unfolding total_compare_def d using s tr by blast
qed

text \<open>
  \<open>res\<close> holds the first of the values before place \<open>i\<close> that is not beaten by
  another of them.
\<close>

definition extreme ::
  "HashTable \<Rightarrow> (zval \<Rightarrow> zval \<Rightarrow> int) \<Rightarrow> (hkey \<times> zval) list \<Rightarrow> nat \<Rightarrow> bool" where
  "extreme ht cmp seen res \<longleftrightarrow>
     res < nNumUsed ht \<and>
     (\<exists>k r. entry_at ht res = Some (k, r) \<and>
        (\<forall>v \<in> snd ` set seen. 0 \<le> cmp r v) \<and> (\<forall>v \<in> snd ` set (before_pos ht res). cmp v r < 0))"

lemma minmax_loop_ok:
  assumes inv: "ht_inv ht" and t: "total_compare (directed flag compar) (snd ` set (elems ht))"
  shows "i \<le> nNumUsed ht \<Longrightarrow> res \<le> i \<Longrightarrow> extreme ht (directed flag compar) (before_pos ht i) res \<Longrightarrow>
    \<exists>res'. minmax_loop [i..<nNumUsed ht] ht compar flag res = Inr res' \<and>
      extreme ht (directed flag compar) (elems ht) res'"
proof (induction "nNumUsed ht - i" arbitrary: i res)
  case 0
  then show ?case using before_pos_used [of ht] by simp
next
  case (Suc m)
  then have i: "i < nNumUsed ht" "m = nNumUsed ht - Suc i" "[i..<nNumUsed ht] = i # [Suc i..<nNumUsed ht]"
    by (auto simp: upt_conv_Cons)
  let ?c = "directed flag compar"
  from inv i(1) show ?case
  proof (cases rule: place_cases)
    case (hole hk)
    then have "before_pos ht (Suc i) = before_pos ht i" using before_pos_Suc [OF i(1)] by simp
    with Suc.hyps(1) [OF i(2), of res] Suc.prems(2,3) i(1) hole(1) show ?thesis unfolding i(3) by simp
  next
    case (entry hk v)
    from Suc.prems(3) obtain k r where res: "res < nNumUsed ht" "entry_at ht res = Some (k, r)"
        "\<forall>v \<in> snd ` set (before_pos ht i). 0 \<le> ?c r v" "\<forall>v \<in> snd ` set (before_pos ht res). ?c v r < 0"
      by (auto simp: extreme_def)
    obtain hk' where rr: "place_read ht res = Inr (hk', r)"
      using place_read_ok [OF inv res(1,2)] by metis
    have b: "before_pos ht (Suc i) = before_pos ht i @ [(hk_hkey hk, v)]"
      using before_pos_Suc [OF i(1)] entry(4) by simp
    have A: "r \<in> snd ` set (elems ht)" "v \<in> snd ` set (elems ht)" "snd ` set (before_pos ht i) \<subseteq> snd ` set (elems ht)"
    proof -
      show "r \<in> snd ` set (elems ht)" "v \<in> snd ` set (elems ht)"
        using res(1,2) i(1) entry(4) by (force simp: elems_def set_entries)+
      show "snd ` set (before_pos ht i) \<subseteq> snd ` set (elems ht)"
        unfolding before_from [of ht i, symmetric] by auto
    qed
    let ?res = "if ?c r v < 0 then i else res"
    have step: "minmax_loop [i..<nNumUsed ht] ht compar flag res =
        minmax_loop [Suc i..<nNumUsed ht] ht compar flag ?res"
      unfolding i(3) using entry(1,2) rr by (auto simp: directed_def)
    have "extreme ht ?c (before_pos ht (Suc i)) ?res"
    proof (cases "?c r v < 0")
      case True
      have lt: "?c w v < 0" if w: "w \<in> snd ` set (before_pos ht i)" for w
      proof -
        have wA: "w \<in> snd ` set (elems ht)" using w A(3) by blast
        have "0 \<le> ?c r w" using res(3) w by blast
        then have "?c w r \<le> 0" using total_compareD [OF t wA A(1)] by linarith
        moreover from this have "?c w v \<le> 0" using total_compare_trans [OF t wA A(1,2)] True by linarith
        moreover have "?c w v \<noteq> 0"
        proof
          assume "?c w v = 0"
          then have "?c v w \<le> 0" using total_compareD [OF t wA A(2)] by linarith
          then have "?c v r \<le> 0" using total_compare_trans [OF t A(2) wA A(1)] \<open>?c w r \<le> 0\<close> by blast
          then show False using total_compareD [OF t A(1,2)] True by linarith
        qed
        ultimately show ?thesis by linarith
      qed
      have "0 \<le> ?c v w" if "w \<in> snd ` set (before_pos ht i)" for w
        using lt [OF that] total_compareD [OF t _ A(2), of w] that A(3) by fastforce
      moreover have "0 \<le> ?c v v" using total_compareD [OF t A(2,2)] by linarith
      ultimately show ?thesis using True lt i(1) entry(4) by (auto simp: extreme_def b)
    next
      case False
      then show ?thesis using res by (auto simp: extreme_def b)
    qed
    with Suc.hyps(1) [OF i(2), of ?res] i(1) Suc.prems(2) show ?thesis unfolding step by auto
  qed
qed

lemma first_live_ok:
  assumes inv: "ht_inv ht"
  shows "i \<le> nNumUsed ht \<Longrightarrow> from_pos ht i \<noteq> [] \<Longrightarrow>
    \<exists>j. first_live ht [i..<nNumUsed ht] = Inr (Some j) \<and> j < nNumUsed ht \<and> entry_at ht j \<noteq> None \<and>
      before_pos ht j = before_pos ht i"
proof (induction "nNumUsed ht - i" arbitrary: i)
  case 0
  then show ?case using from_pos_past [of ht i] by simp
next
  case (Suc m)
  then have i: "i < nNumUsed ht" "m = nNumUsed ht - Suc i" "[i..<nNumUsed ht] = i # [Suc i..<nNumUsed ht]"
    by (auto simp: upt_conv_Cons)
  from inv i(1) show ?case
  proof (cases rule: place_cases)
    case (hole hk)
    then have "before_pos ht (Suc i) = before_pos ht i" using before_pos_Suc [OF i(1)] by simp
    with Suc.hyps(1) [OF i(2)] Suc.prems(2) i(1) hole(1,2) show ?thesis unfolding i(3) by simp
  next
    case (entry hk v)
    then show ?thesis unfolding i(3) using i(1) by simp
  qed
qed

lemma minmax_ok:
  assumes inv: "ht_inv ht" and t: "total_compare compar (snd ` set (elems ht))"
  shows "elems ht = [] \<Longrightarrow> zend_hash_minmax ht compar flag = Inr None"
    "elems ht \<noteq> [] \<Longrightarrow> \<exists>res. zend_hash_minmax ht compar flag = Inr (Some res) \<and>
       extreme ht (directed flag compar) (elems ht) res"
proof -
  have n: "nNumOfElements ht = length (elems ht)" using inv by (simp add: ht_inv_def)
  then show "elems ht = [] \<Longrightarrow> zend_hash_minmax ht compar flag = Inr None"
    by (simp add: zend_hash_minmax_def)
  assume ne: "elems ht \<noteq> []"
  obtain j where j: "first_live ht [0..<nNumUsed ht] = Inr (Some j)" "j < nNumUsed ht"
      "entry_at ht j \<noteq> None" "before_pos ht j = []"
    using first_live_ok [OF inv, of 0] ne by auto
  then obtain k r where "entry_at ht j = Some (k, r)" by auto
  with j(2,4) have "extreme ht (directed flag compar) (before_pos ht j) j" by (simp add: extreme_def)
  with minmax_loop_ok [OF inv directed_total [OF t], of j j] j(2)
  obtain res where "minmax_loop [j..<nNumUsed ht] ht compar flag j = Inr res"
      "extreme ht (directed flag compar) (elems ht) res" by auto
  then show "\<exists>res. zend_hash_minmax ht compar flag = Inr (Some res) \<and>
       extreme ht (directed flag compar) (elems ht) res"
    using j(1) n ne by (simp add: zend_hash_minmax_def)
qed

end
