(* ===== verification/SortTheorems.thy ===== *)
theory SortTheorems
  imports HashSortSpec HashCompare HashSamples
begin

text \<open>The properties of sorted tables, and of comparisons of tables.\<close>

subsection \<open>Sorting\<close>

text \<open>What stability is: elements that compare equal keep their order.\<close>

lemma filter_insert_by:
  assumes t: "total_compare cmp A" and x: "x \<in> A" "z \<in> A"
  shows "set ys \<subseteq> A \<Longrightarrow>
    filter (\<lambda>y. cmp x y = 0) (insert_by cmp z ys) = filter (\<lambda>y. cmp x y = 0) (z # ys)"
proof (induction ys)
  case (Cons y ys)
  then have y: "y \<in> A" by simp
  show ?case
  proof (cases "cmp z y \<le> 0")
    case False
    have "\<not> (cmp x z = 0 \<and> cmp x y = 0)"
    proof
      assume e: "cmp x z = 0 \<and> cmp x y = 0"
      then have "cmp z x \<le> 0" using total_compareD [OF t x] by linarith
      then have "cmp z y \<le> 0" using total_compare_trans [OF t x(2,1) y] e by linarith
      with False show False ..
    qed
    moreover have "filter (\<lambda>y. cmp x y = 0) (insert_by cmp z ys) = filter (\<lambda>y. cmp x y = 0) (z # ys)"
      using Cons by simp
    ultimately show ?thesis using False by (cases "cmp x y = 0"; cases "cmp x z = 0") simp_all
  qed simp
qed simp

lemma filter_sort_by:
  assumes t: "total_compare cmp A" and x: "x \<in> A"
  shows "set xs \<subseteq> A \<Longrightarrow> filter (\<lambda>y. cmp x y = 0) (sort_by cmp xs) = filter (\<lambda>y. cmp x y = 0) xs"
proof (induction xs)
  case Nil
  then show ?case by (simp add: sort_by_def)
next
  case (Cons z zs)
  then have "z \<in> A" "set (sort_by cmp zs) \<subseteq> A" by simp_all
  then have "filter (\<lambda>y. cmp x y = 0) (insert_by cmp z (sort_by cmp zs)) =
      filter (\<lambda>y. cmp x y = 0) (z # sort_by cmp zs)" by (intro filter_insert_by [OF t x])
  moreover have "sort_by cmp (z # zs) = insert_by cmp z (sort_by cmp zs)" by (simp add: sort_by_def)
  ultimately show ?case using Cons by simp
qed

lemma total_order:
  assumes t: "total_compare cmp A"
  shows "compare_order cmp A"
proof
  fix x y assume "x \<in> A" "y \<in> A"
  from total_compareD [OF t this] show "cmp x y \<le> 0 \<or> cmp y x \<le> 0" by linarith
next
  fix x y z assume "x \<in> A" "y \<in> A" "z \<in> A" "cmp x y \<le> 0" "cmp y z \<le> 0"
  then show "cmp x z \<le> 0" using total_compare_trans [OF t] by blast
qed

lemma sorted_by_sort_by: "total_compare cmp (set xs) \<Longrightarrow> sorted_by cmp (sort_by cmp xs)"
  by (rule sorted_sort_by [OF total_order order_refl])

lemma total_rank: "total_compare (\<lambda>x y. f x - f y) A" for f :: "'a \<Rightarrow> int"
proof -
  have s: "sgn (f a - f b) = - sgn (f b - f a)" for a b by (simp add: sgn_if)
  have "f a - f c \<le> 0" if "f a - f b \<le> 0" "f b - f c \<le> 0" for a b c using that by linarith
  then show ?thesis unfolding total_compare_def using s by blast
qed

text \<open>
  C26. Sorting a table with a comparison that falls back on the order of the buckets, as every sort
  function of the language does, always succeeds on a well-formed table and keeps it well formed,
  whether it was packed, mixed or had holes. The entries, keys included, are then in nondecreasing
  order, are the ones from before, and those that compare equal are in the order they were in. The
  size, flags, destructor and next free index of the table stay, and the internal pointer is put on
  the first entry.
\<close>

theorem hash_sort_stable:
  assumes "ht_inv ht" "total_compare cmp (set (elems ht))"
  shows "\<exists>ht' eg'. zend_hash_sort ht (return_stable_sort (on bucket_item cmp)) False eg = Inr (ht', eg') \<and>
     ht_inv ht' \<and> sorted_by cmp (elems ht') \<and> mset (elems ht') = mset (elems ht) \<and>
     (\<forall>x \<in> set (elems ht). filter (\<lambda>y. cmp x y = 0) (elems ht') = filter (\<lambda>y. cmp x y = 0) (elems ht)) \<and>
     table_frame ht ht' \<and> eg_same eg eg' \<and>
     (1 < nNumOfElements ht \<longrightarrow> from_pos ht' (nInternalPointer ht') = elems ht')"
proof -
  obtain ht' eg' where s: "zend_hash_sort ht (return_stable_sort (on bucket_item cmp)) False eg = Inr (ht', eg')"
    "eg_same eg eg'" "ht_inv ht'" "elems ht' = sort_by cmp (elems ht)" "table_frame ht ht'"
    "1 < nNumOfElements ht \<Longrightarrow> from_pos ht' (nInternalPointer ht') = elems ht'"
    using sort_keys_kept [OF assms] by blast
  have "filter (\<lambda>y. cmp x y = 0) (elems ht') = filter (\<lambda>y. cmp x y = 0) (elems ht)"
    if "x \<in> set (elems ht)" for x
    using filter_sort_by [OF assms(2) that order_refl] s(4) by simp
  then show ?thesis
    using s sorted_by_sort_by [OF assms(2)] by (intro exI [of _ ht'] exI [of _ eg']) simp
qed

text \<open>The comparison of the witnesses puts \<open>true\<close> first.\<close>

definition sample_rank :: "zval \<Rightarrow> int" where
  "sample_rank v = (if v = IS_TRUE then 0 else 1)"

theorem hash_sort_stable_witness:
  "\<exists>ht' eg'. zend_hash_sort sample_packed
       (return_stable_sort (on bucket_item (\<lambda>x y. sample_rank (snd x) - sample_rank (snd y)))) False sample_globals =
         Inr (ht', eg') \<and>
     ht_inv ht' \<and> mset (elems ht') = mset [(KNum 0, IS_LONG 7), (KNum 2, IS_TRUE)]"
proof -
  have "total_compare (\<lambda>x y. sample_rank (snd x) - sample_rank (snd y)) (set (elems sample_packed))"
    by (rule total_rank)
  from hash_sort_stable [OF sample_packed_inv this, of sample_globals] show ?thesis
    unfolding sample_elems by blast
qed

text \<open>
  C27. Sorting with renumbering turns every well-formed table that is not empty into a packed one
  without holes: the values are stably sorted under the keys 0, 1, 2, ..., the next free index is
  their number, and every string key is released exactly once while no value is destroyed.
\<close>

theorem hash_sort_renumbers:
  assumes "ht_inv ht" "total_compare cmp (snd ` set (elems ht))" "0 < nNumOfElements ht"
  shows "\<exists>ht' eg' rel.
     zend_hash_sort ht (return_stable_sort (on b_val cmp)) True eg = Inr (ht', eg'\<lparr>events := events eg @ rel\<rparr>) \<and>
     ht_inv ht' \<and> f_packed ht' \<and> map fst (elems ht') = map (\<lambda>i. KNum (of_nat i)) [0..<nNumOfElements ht] \<and>
     sorted_by cmp (map snd (elems ht')) \<and> mset (map snd (elems ht')) = mset (map snd (elems ht)) \<and>
     (\<forall>v \<in> snd ` set (elems ht). filter (\<lambda>w. cmp v w = 0) (map snd (elems ht')) =
        filter (\<lambda>w. cmp v w = 0) (map snd (elems ht))) \<and>
     nNextFreeElement ht' = int (nNumOfElements ht) \<and>
     ev_keys rel = string_keys_of (elems ht) \<and> ev_dtors rel = [] \<and> eg_same eg eg'"
proof -
  let ?vs = "sort_by cmp (map snd (elems ht))"
  obtain ht' eg' rel where s:
    "zend_hash_sort ht (return_stable_sort (on b_val cmp)) True eg = Inr (ht', eg'\<lparr>events := events eg @ rel\<rparr>)"
    "eg_same eg eg'" "ht_inv ht'" "f_packed ht'" "elems ht' = renumbered ?vs"
    "ev_keys rel = string_keys_of (elems ht)" "ev_dtors rel = []" "nNextFreeElement ht' = int (nNumOfElements ht)"
    using sort_renumbered [OF assms] by blast
  have n: "length (elems ht) = nNumOfElements ht" using assms(1) by (simp add: ht_inv_def)
  have k: "map fst (elems ht') = map (\<lambda>i. KNum (of_nat i)) [0..<nNumOfElements ht]"
    unfolding s(5) renumbered_def by (simp add: o_def n)
  have v: "map snd (elems ht') = ?vs" unfolding s(5) renumbered_def by (simp add: o_def map_nth del: length_sort_by)
  have "filter (\<lambda>w. cmp v w = 0) ?vs = filter (\<lambda>w. cmp v w = 0) (map snd (elems ht))"
    if "v \<in> snd ` set (elems ht)" for v
    by (rule filter_sort_by [OF assms(2) that]) simp
  then show ?thesis
    using s k v sorted_by_sort_by [of cmp "map snd (elems ht)"] assms(2)
    by (intro exI [of _ ht'] exI [of _ eg'] exI [of _ rel]) simp
qed

theorem hash_sort_renumbers_witness:
  "\<exists>ht' eg'. zend_hash_sort sample_mixed
       (return_stable_sort (on b_val (\<lambda>v w. sample_rank w - sample_rank v))) True sample_globals = Inr (ht', eg') \<and>
     f_packed ht' \<and> map fst (elems ht') = [KNum 0, KNum 1]"
proof -
  have t: "total_compare (\<lambda>v w. sample_rank w - sample_rank v) A" for A
    using total_rank [of "\<lambda>v. - sample_rank v" A] by simp
  have n: "nNumOfElements sample_mixed = 2" by (simp add: sample_mixed_def)
  have "map (\<lambda>i. KNum (of_nat i)) [0..<nNumOfElements sample_mixed] = [KNum 0, KNum 1]"
    unfolding n by (simp add: upt_rec)
  then show ?thesis
    using hash_sort_renumbers [OF sample_mixed_inv t, of sample_globals] n by fastforce
qed

subsection \<open>Comparing\<close>

text \<open>
  C28. The comparison of two well-formed tables never fails. It is decided by the sizes when they
  differ; otherwise the result is 0 in the ordered case exactly when the same keys stand at the same
  ranks with values that compare equal, and in the unordered case exactly when the two maps have the
  same keys with values that compare equal, in any order.
\<close>

theorem hash_compare_equal:
  assumes "ht_inv ht1" "ht_inv ht2"
  shows "\<exists>r. zend_hash_compare_impl ht1 ht2 compar ordered eg = Inr r \<and>
     (length (elems ht1) < length (elems ht2) \<longrightarrow> r < 0) \<and>
     (length (elems ht2) < length (elems ht1) \<longrightarrow> 0 < r) \<and>
     (r = 0 \<longleftrightarrow> length (elems ht1) = length (elems ht2) \<and>
        (if ordered
         then list_all2 (\<lambda>(k, u) (l, v). k = l \<and> compare_values compar eg u v = 0) (elems ht1) (elems ht2)
         else \<forall>k. rel_option (\<lambda>u v. compare_values compar eg u v = 0)
                    (map_of (elems ht1) k) (map_of (elems ht2) k)))"
proof -
  have d: "distinct (map fst (elems ht1))" "distinct (map fst (elems ht2))"
    using assms by (simp_all add: ht_inv_def)
  show ?thesis
    unfolding compare_impl_ok [OF assms]
    using compare_ranks_0 [of "elems ht1" "elems ht2" compar eg] compare_maps_rel [OF d, of compar eg]
    by auto
qed

theorem hash_compare_equal_witness:
  "\<exists>r. zend_hash_compare_impl sample_mixed sample_packed (\<lambda>_ _. 0) False sample_globals = Inr r \<and> r \<noteq> 0"
proof -
  have "map_of (elems sample_mixed) (KNum 5) = Some (IS_LONG 7)" "map_of (elems sample_packed) (KNum 5) = None"
    by (simp_all add: sample_elems)
  then have "\<not> (\<forall>k. rel_option (\<lambda>u v. compare_values (\<lambda>_ _. 0) sample_globals u v = 0)
      (map_of (elems sample_mixed) k) (map_of (elems sample_packed) k))"
    by (metis option.rel_distinct(2))
  then show ?thesis
    using hash_compare_equal [OF sample_mixed_inv sample_packed_inv, of "\<lambda>_ _. 0" False sample_globals] by auto
qed

text \<open>
  \<open>zend_hash_minmax\<close> returns nothing for an empty table and otherwise the place of an extreme
  value: no value of the table is above the one found for a maximum, or below it for a minimum, and
  every value before it is strictly worse, so that it is the first of its kind.
\<close>

theorem minmax_is_extreme:
  assumes "ht_inv ht" "total_compare compar (snd ` set (elems ht))"
  shows "case zend_hash_minmax ht compar flag of
       Inl e \<Rightarrow> False
     | Inr None \<Rightarrow> elems ht = []
     | Inr (Some i) \<Rightarrow> i < nNumUsed ht \<and>
         (\<exists>k r. entry_at ht i = Some (k, r) \<and>
            (\<forall>v \<in> snd ` set (elems ht). if flag then 0 \<le> compar r v else compar r v \<le> 0) \<and>
            (\<forall>v \<in> snd ` set (before_pos ht i). if flag then compar v r < 0 else 0 < compar v r))"
proof (cases "elems ht = []")
  case True
  then show ?thesis using minmax_ok(1) [OF assms] by simp
next
  case False
  obtain i where i: "zend_hash_minmax ht compar flag = Inr (Some i)"
    "extreme ht (directed flag compar) (elems ht) i" using minmax_ok(2) [OF assms False] by blast
  then show ?thesis by (cases flag) (auto simp: extreme_def directed_def)
qed

theorem minmax_is_extreme_witness:
  "case zend_hash_minmax sample_packed (\<lambda>v w. sample_rank v - sample_rank w) False of
     Inr (Some i) \<Rightarrow> i < 3 | _ \<Rightarrow> False"
  using minmax_is_extreme [OF sample_packed_inv total_rank [of sample_rank], of False]
  by (auto simp: sample_elems split: sum.splits option.splits)

end
