(* ===== verification/GcStack.thy ===== *)
theory GcStack
  imports ZendPrelude
begin

text \<open>
  The stack of the graph traversals, \<open>gc_stack\<close>: a chain of segments that stays allocated
  between traversals. It is modelled as the segments below the current one (nearest first),
  the current one and the segments above it, and proved to be a list of references.
\<close>

definition GC_STACK_SEGMENT_SIZE :: nat where
  "GC_STACK_SEGMENT_SIZE = (4096 - 0) div 8 - 2"

type_synonym segment = "nat option list"

record gc_stack =
  sk_prev :: "segment list"
  sk_data :: segment
  sk_next :: "segment list"

text \<open>\<open>_stack\<close> and \<open>_top\<close> of \<open>GC_STACK_DCL\<close>.\<close>

type_synonym stack_top = "gc_stack \<times> nat"

text \<open>\<open>gc_stack_next\<close> makes sure that there is a segment above, and moves to it.\<close>

definition gc_stack_extend :: "gc_stack \<Rightarrow> gc_stack" where
  "gc_stack_extend stack =
     (case sk_next stack of
        [] \<Rightarrow> stack\<lparr>sk_next := [replicate GC_STACK_SEGMENT_SIZE None]\<rparr>
      | _ \<Rightarrow> stack)"

definition gc_stack_next :: "gc_stack \<Rightarrow> gc_stack" where
  "gc_stack_next stack =
     (let stack = gc_stack_extend stack
      in \<lparr>sk_prev = sk_data stack # sk_prev stack, sk_data = hd (sk_next stack), sk_next = tl (sk_next stack)\<rparr>)"

definition gc_stack_push :: "nat \<Rightarrow> stack_top \<Rightarrow> error + stack_top" where
  "gc_stack_push ref = (\<lambda>(stack, top).
     let (stack, top) = (if top = GC_STACK_SEGMENT_SIZE then (gc_stack_next stack, 0) else (stack, top))
     in bindE (wr (sk_data stack) top ref) (\<lambda>d. Inr (stack\<lparr>sk_data := d\<rparr>, top + 1)))"

definition gc_stack_pop :: "stack_top \<Rightarrow> error + (nat option \<times> stack_top)" where
  "gc_stack_pop = (\<lambda>(stack, top).
     if top = 0 then
       (case sk_prev stack of
          [] \<Rightarrow> Inr (None, (stack, top))
        | d # ds \<Rightarrow>
            let stack = \<lparr>sk_prev = ds, sk_data = d, sk_next = sk_data stack # sk_next stack\<rparr>;
                top = GC_STACK_SEGMENT_SIZE - 1
            in bindE (rd (sk_data stack) top) (\<lambda>r. Inr (Some r, (stack, top))))
     else bindE (rd (sk_data stack) (top - 1)) (\<lambda>r. Inr (Some r, (stack, top - 1))))"

text \<open>
  \<open>gc_scan\<close> lends the segments above the current one to \<open>gc_scan_black\<close>:
  \<open>_stack->next->prev = NULL\<close>, and \<open>_stack->next->prev = _stack\<close> afterwards.
\<close>

definition split_tail :: "gc_stack \<Rightarrow> gc_stack" where
  "split_tail stack = \<lparr>sk_prev = [], sk_data = hd (sk_next stack), sk_next = tl (sk_next stack)\<rparr>"

definition join_tail :: "gc_stack \<Rightarrow> gc_stack \<Rightarrow> gc_stack" where
  "join_tail stack tail = stack\<lparr>sk_next := sk_data tail # sk_next tail\<rparr>"

subsection \<open>The list it stands for\<close>

definition segment_full :: "segment \<Rightarrow> nat list \<Rightarrow> bool" where
  "segment_full d xs \<longleftrightarrow> length d = GC_STACK_SEGMENT_SIZE \<and> d = map Some xs"

text \<open>\<open>xs\<close> is the list of references on the stack, the top first.\<close>

definition stacked :: "stack_top \<Rightarrow> nat list \<Rightarrow> bool" where
  "stacked st xs \<longleftrightarrow>
     (\<exists>ys yss. xs = rev ys @ concat (map rev yss) \<and>
        snd st = length ys \<and> length ys \<le> GC_STACK_SEGMENT_SIZE \<and>
        length (sk_data (fst st)) = GC_STACK_SEGMENT_SIZE \<and> take (length ys) (sk_data (fst st)) = map Some ys \<and>
        list_all2 segment_full (sk_prev (fst st)) yss \<and>
        (\<forall>d \<in> set (sk_next (fst st)). length d = GC_STACK_SEGMENT_SIZE))"

definition stack_base :: "gc_stack \<Rightarrow> bool" where
  "stack_base stack \<longleftrightarrow> stacked (stack, 0) []"

lemma segment_size_pos: "0 < GC_STACK_SEGMENT_SIZE"
  by (simp add: GC_STACK_SEGMENT_SIZE_def)

lemma stack_base_iff:
  "stack_base stack \<longleftrightarrow> sk_prev stack = [] \<and> length (sk_data stack) = GC_STACK_SEGMENT_SIZE \<and>
     (\<forall>d \<in> set (sk_next stack). length d = GC_STACK_SEGMENT_SIZE)"
proof
  assume "stack_base stack"
  then obtain yss where y: "[] = concat (map rev yss)" "list_all2 segment_full (sk_prev stack) yss"
    "length (sk_data stack) = GC_STACK_SEGMENT_SIZE" "\<forall>d \<in> set (sk_next stack). length d = GC_STACK_SEGMENT_SIZE"
    by (auto simp: stack_base_def stacked_def)
  have "sk_prev stack = []"
  proof (cases yss)
    case (Cons z zs)
    then have "z = []" using y(1) by simp
    then show ?thesis using y(2) Cons segment_size_pos by (auto simp: segment_full_def list_all2_Cons2)
  qed (use y(2) in simp)
  with y(3,4) show "sk_prev stack = [] \<and> length (sk_data stack) = GC_STACK_SEGMENT_SIZE \<and>
     (\<forall>d \<in> set (sk_next stack). length d = GC_STACK_SEGMENT_SIZE)" by simp
next
  assume "sk_prev stack = [] \<and> length (sk_data stack) = GC_STACK_SEGMENT_SIZE \<and>
     (\<forall>d \<in> set (sk_next stack). length d = GC_STACK_SEGMENT_SIZE)"
  then show "stack_base stack"
    by (auto simp: stack_base_def stacked_def intro!: exI [of _ "[]"])
qed

lemma push_ok:
  assumes "stacked st xs"
  obtains st' where "gc_stack_push r st = Inr st'" "stacked st' (r # xs)"
proof -
  obtain stack tp where st: "st = (stack, tp)" by (cases st)
  obtain ys yss where y: "xs = rev ys @ concat (map rev yss)" "tp = length ys" "length ys \<le> GC_STACK_SEGMENT_SIZE"
    "length (sk_data stack) = GC_STACK_SEGMENT_SIZE" "take (length ys) (sk_data stack) = map Some ys"
    "list_all2 segment_full (sk_prev stack) yss" "\<forall>d \<in> set (sk_next stack). length d = GC_STACK_SEGMENT_SIZE"
    using assms by (auto simp: stacked_def st)
  show thesis
  proof (cases "tp = GC_STACK_SEGMENT_SIZE")
    case True
    define stack' where "stack' = gc_stack_next stack"
    have s': "sk_prev stack' = sk_data stack # sk_prev stack" "length (sk_data stack') = GC_STACK_SEGMENT_SIZE"
      "\<forall>d \<in> set (sk_next stack'). length d = GC_STACK_SEGMENT_SIZE"
      using y(7) by (auto simp: stack'_def gc_stack_next_def gc_stack_extend_def Let_def split: list.splits)
    have f: "segment_full (sk_data stack) ys" using y(2,4,5) True by (simp add: segment_full_def)
    let ?st = "(stack'\<lparr>sk_data := (sk_data stack')[0 := Some r]\<rparr>, Suc 0)"
    have "take (Suc 0) ((sk_data stack')[0 := Some r]) = [Some r]"
      using s'(2) segment_size_pos by (cases "sk_data stack'") auto
    then have "stacked ?st (r # xs)" unfolding stacked_def
      using y(1,6) f s' segment_size_pos by (intro exI [of _ "[r]"] exI [of _ "ys # yss"]) simp
    moreover have "gc_stack_push r st = Inr ?st"
      using True s'(2) segment_size_pos by (simp add: st gc_stack_push_def stack'_def [symmetric])
    ultimately show thesis by (rule that [rotated])
  next
    case False
    then have lt: "length ys < GC_STACK_SEGMENT_SIZE" using y(2,3) by simp
    let ?st = "(stack\<lparr>sk_data := (sk_data stack)[tp := Some r]\<rparr>, Suc tp)"
    have "take (Suc (length ys)) ((sk_data stack)[length ys := Some r]) = map Some (ys @ [r])"
      using lt y(4,5) by (simp add: take_Suc_conv_app_nth)
    then have "stacked ?st (r # xs)" unfolding stacked_def
      using y lt by (intro exI [of _ "ys @ [r]"] exI [of _ yss]) simp
    moreover have "gc_stack_push r st = Inr ?st" using False lt y(2,4) by (simp add: st gc_stack_push_def)
    ultimately show thesis by (rule that [rotated])
  qed
qed

lemma pop_empty:
  assumes "stacked st []"
  obtains stack where "st = (stack, 0)" "stack_base stack" "gc_stack_pop st = Inr (None, st)"
proof -
  obtain stack tp where st: "st = (stack, tp)" by (cases st)
  have "tp = 0" using assms by (auto simp: stacked_def st)
  then have "stack_base stack" using assms by (simp add: stack_base_def st)
  then show thesis using that [of stack] \<open>tp = 0\<close> by (simp add: st gc_stack_pop_def stack_base_iff)
qed

lemma pop_ok:
  assumes "stacked st (x # xs)"
  obtains st' where "gc_stack_pop st = Inr (Some x, st')" "stacked st' xs"
proof -
  obtain stack tp where st: "st = (stack, tp)" by (cases st)
  obtain ys yss where y: "x # xs = rev ys @ concat (map rev yss)" "tp = length ys" "length ys \<le> GC_STACK_SEGMENT_SIZE"
    "length (sk_data stack) = GC_STACK_SEGMENT_SIZE" "take (length ys) (sk_data stack) = map Some ys"
    "list_all2 segment_full (sk_prev stack) yss" "\<forall>d \<in> set (sk_next stack). length d = GC_STACK_SEGMENT_SIZE"
    using assms by (auto simp: stacked_def st)
  show thesis
  proof (cases ys rule: rev_cases)
    case Nil
    then obtain z zs where z: "yss = z # zs" using y(1) by (cases yss) auto
    then obtain d ds where d: "sk_prev stack = d # ds" "segment_full d z" "list_all2 segment_full ds zs"
      using y(6) by (auto simp: list_all2_Cons2)
    then have "z \<noteq> []" using segment_size_pos by (auto simp: segment_full_def)
    then obtain w where w: "z = w @ [x]" using y(1) Nil z by (cases z rule: rev_cases) auto
    let ?st = "(\<lparr>sk_prev = ds, sk_data = d, sk_next = sk_data stack # sk_next stack\<rparr>, GC_STACK_SEGMENT_SIZE - 1)"
    have len: "length w = GC_STACK_SEGMENT_SIZE - 1" "length d = GC_STACK_SEGMENT_SIZE" "d = map Some z"
      using d(2) w by (auto simp: segment_full_def)
    have "stacked ?st xs" unfolding stacked_def
      using y(1,4,7) Nil z w d(3) len by (intro exI [of _ w] exI [of _ zs]) simp
    moreover have "gc_stack_pop st = Inr (Some x, ?st)"
      using y(2) Nil d(1) len segment_size_pos by (simp add: st gc_stack_pop_def w nth_append)
    ultimately show thesis by (rule that [rotated])
  next
    case (snoc w z)
    then have x: "z = x" "xs = rev w @ concat (map rev yss)" using y(1) by auto
    have "take (length w) (sk_data stack) = take (length w) (take (length ys) (sk_data stack))"
      using snoc by simp
    also have "\<dots> = map Some w" unfolding y(5) using snoc by simp
    finally have "take (length w) (sk_data stack) = map Some w" .
    then have "stacked (stack, length w) xs" unfolding stacked_def
      using y x snoc by (intro exI [of _ w] exI [of _ yss]) simp
    moreover have "sk_data stack ! length w = Some x"
    proof -
      have "sk_data stack ! length w = take (length ys) (sk_data stack) ! length w" using snoc by simp
      also have "\<dots> = Some x" unfolding y(5) using snoc x by (simp add: nth_append)
      finally show ?thesis .
    qed
    then have "gc_stack_pop st = Inr (Some x, (stack, length w))"
      using y(2,3,4) snoc by (simp add: st gc_stack_pop_def)
    ultimately show thesis by (rule that [rotated])
  qed
qed

text \<open>Lending the tail leaves what is on the stack alone.\<close>

lemma split_tail_ok:
  assumes "stacked (stack, tp) xs"
  shows "stack_base (split_tail (gc_stack_extend stack))"
    "stack_base tail \<Longrightarrow> stacked (join_tail (gc_stack_extend stack) tail, tp) xs"
proof -
  have n: "\<forall>d \<in> set (sk_next (gc_stack_extend stack)). length d = GC_STACK_SEGMENT_SIZE"
      "sk_next (gc_stack_extend stack) \<noteq> []"
    using assms by (auto simp: stacked_def gc_stack_extend_def split: list.splits)
  then show "stack_base (split_tail (gc_stack_extend stack))"
    by (cases "sk_next (gc_stack_extend stack)") (simp_all add: stack_base_iff split_tail_def)
  show "stacked (join_tail (gc_stack_extend stack) tail, tp) xs" if "stack_base tail"
    using assms that by (auto simp: stack_base_iff stacked_def join_tail_def gc_stack_extend_def split: list.split)
qed

end
