(* ===== verification/GcTypes.thy ===== *)
theory GcTypes
  imports HashInv
begin

text \<open>
  The data of the cycle collector, \<open>zend_gc.c\<close>: the headers of counted nodes with their
  colour and buffer address, the nodes and what they refer to, the root buffer and the
  globals.
\<close>

subsection \<open>\<open>GC_INFO\<close>\<close>

text \<open>The upper 22 bits of the type word of a node: the colour above the compressed address.\<close>

unbundle bit_operations_syntax

definition GC_ADDRESS :: "32 word" where "GC_ADDRESS = 0x0fffff"
definition GC_COLOR :: "32 word" where "GC_COLOR = 0x300000"

definition GC_BLACK :: "32 word" where "GC_BLACK = 0x000000"
definition GC_WHITE :: "32 word" where "GC_WHITE = 0x100000"
definition GC_GREY :: "32 word" where "GC_GREY = 0x200000"
definition GC_PURPLE :: "32 word" where "GC_PURPLE = 0x300000"

lemmas gc_colors = GC_BLACK_def GC_WHITE_def GC_GREY_def GC_PURPLE_def

lemma gc_colors_distinct [simp]:
  "GC_BLACK \<noteq> GC_WHITE" "GC_BLACK \<noteq> GC_GREY" "GC_BLACK \<noteq> GC_PURPLE"
  "GC_WHITE \<noteq> GC_BLACK" "GC_GREY \<noteq> GC_BLACK" "GC_PURPLE \<noteq> GC_BLACK"
  "GC_WHITE \<noteq> GC_GREY" "GC_WHITE \<noteq> GC_PURPLE" "GC_GREY \<noteq> GC_PURPLE"
  "GC_GREY \<noteq> GC_WHITE" "GC_PURPLE \<noteq> GC_WHITE" "GC_PURPLE \<noteq> GC_GREY"
  by (simp_all add: gc_colors)

subsection \<open>Nodes\<close>

text \<open>
  What the collector sees of a node. \<open>go_get_gc\<close> is what the \<open>get_gc\<close> handler of an object
  returns in this run: a table and an array of zvals. An object that is used as a key of weak
  maps (\<open>IS_OBJ_WEAKLY_REFERENCED\<close>) has the entries and their maps in \<open>go_weak\<close>; a weak map
  has its keys and entries in \<open>go_map\<close>.
\<close>

record gc_object =
  go_free_called :: bool
  go_dtor_called :: bool
  go_has_dtor :: bool
  go_get_gc :: "nat option \<times> zval list"
  go_weak :: "(nat \<times> nat) list option"
  go_map :: "(nat \<times> nat) list option"

datatype gc_body =
    GcNull
  | GcString
  | GcArray HashTable
  | GcObject gc_object
  | GcReference zval

text \<open>
  A pointer to a node is its index in the store. \<open>gn_immutable\<close> is \<open>GC_IMMUTABLE\<close>: a zval that
  holds an immutable array is not counted. \<open>gn_not_collectable\<close> is \<open>GC_NOT_COLLECTABLE\<close>.
\<close>

record gc_node =
  gn_count :: nat
  gn_info :: "32 word"
  gn_immutable :: bool
  gn_not_collectable :: bool
  gn_body :: gc_body

text \<open>The zval of a weak map's entry, with its two marks \<open>Z_FROM_WEAKMAP_KEY\<close> and \<open>Z_FROM_WEAKMAP\<close>.\<close>

record weak_entry =
  we_val :: zval
  we_from_key :: bool
  we_from_map :: bool

subsection \<open>The root buffer and the globals\<close>

text \<open>
  A pointer with a tag in its two lower bits; the null pointer has the tag of a root. The pointer part of an unused entry is the
  index of the next one times the size of a pointer.
\<close>

datatype gc_entry =
    GC_NULL_ROOT
  | GC_ROOT nat
  | GC_UNUSED "64 word"
  | GC_GARBAGE nat
  | GC_DTOR_GARBAGE nat

definition GC_IDX2LIST :: "nat \<Rightarrow> gc_entry" where
  "GC_IDX2LIST idx = GC_UNUSED (of_nat idx * 8 OR 1)"

text \<open>The cast to 32 bits comes before the division.\<close>

definition GC_LIST2IDX :: "64 word \<Rightarrow> nat" where
  "GC_LIST2IDX list = unat (ucast list :: 32 word) div 8"

definition GC_GET_PTR :: "gc_entry \<Rightarrow> nat option" where
  "GC_GET_PTR e =
     (case e of GC_ROOT r \<Rightarrow> Some r | GC_GARBAGE r \<Rightarrow> Some r | GC_DTOR_GARBAGE r \<Rightarrow> Some r | _ \<Rightarrow> None)"

definition GC_IS_ROOT :: "gc_entry \<Rightarrow> bool" where
  "GC_IS_ROOT e = (case e of GC_ROOT _ \<Rightarrow> True | GC_NULL_ROOT \<Rightarrow> True | _ \<Rightarrow> False)"

definition GC_IS_UNUSED :: "gc_entry \<Rightarrow> bool" where
  "GC_IS_UNUSED e = (case e of GC_UNUSED _ \<Rightarrow> True | _ \<Rightarrow> False)"

definition GC_IS_GARBAGE :: "gc_entry \<Rightarrow> bool" where
  "GC_IS_GARBAGE e = (case e of GC_GARBAGE _ \<Rightarrow> True | _ \<Rightarrow> False)"

definition GC_IS_DTOR_GARBAGE :: "gc_entry \<Rightarrow> bool" where
  "GC_IS_DTOR_GARBAGE e = (case e of GC_DTOR_GARBAGE _ \<Rightarrow> True | _ \<Rightarrow> False)"

definition GC_INVALID :: nat where "GC_INVALID = 0"
definition GC_FIRST_ROOT :: nat where "GC_FIRST_ROOT = 1"
definition GC_DEFAULT_BUF_SIZE :: nat where "GC_DEFAULT_BUF_SIZE = 16 * 1024"
definition GC_BUF_GROW_STEP :: nat where "GC_BUF_GROW_STEP = 128 * 1024"
definition GC_MAX_UNCOMPRESSED :: nat where "GC_MAX_UNCOMPRESSED = 512 * 1024"
definition GC_MAX_BUF_SIZE :: nat where "GC_MAX_BUF_SIZE = 0x40000000"
definition GC_THRESHOLD_DEFAULT :: nat where "GC_THRESHOLD_DEFAULT = 10000 + GC_FIRST_ROOT"
definition GC_THRESHOLD_STEP :: nat where "GC_THRESHOLD_STEP = 10000"
definition GC_THRESHOLD_MAX :: nat where "GC_THRESHOLD_MAX = 1000000000"
definition GC_THRESHOLD_TRIGGER :: int where "GC_THRESHOLD_TRIGGER = 100"

text \<open>\<open>gc_buf\<close> is \<open>None\<close> before the collector is first enabled.\<close>

record zend_gc_globals =
  gc_buf :: "gc_entry option list option"
  gc_is_enabled :: bool
  gc_active :: bool
  gc_is_protected :: bool
  gc_full :: bool
  gc_unused :: nat
  gc_first_unused :: nat
  gc_threshold :: nat
  gc_buf_size :: nat
  gc_num_roots :: nat
  gc_runs :: nat
  gc_collected :: nat
  gc_dtor_idx :: nat
  gc_dtor_end :: nat

text \<open>\<open>gs_symbol_table\<close> is \<open>&EG(symbol_table)\<close>, which is never a node of the graph.\<close>

record gc_state =
  gs_nodes :: "gc_node list"
  gs_entries :: "weak_entry list"
  gs_indirect :: "nat \<Rightarrow> zval"
  gs_symbol_table :: nat
  gs_globals :: zend_gc_globals

subsection \<open>Access to the headers\<close>

definition gc_node_at :: "gc_state \<Rightarrow> nat \<Rightarrow> error + gc_node" where
  "gc_node_at s r = (if r < length (gs_nodes s) then Inr (gs_nodes s ! r) else Inl BadPointer)"

definition gc_node_put :: "nat \<Rightarrow> (gc_node \<Rightarrow> gc_node) \<Rightarrow> gc_state \<Rightarrow> error + gc_state" where
  "gc_node_put r f s =
     (if r < length (gs_nodes s) then Inr (s\<lparr>gs_nodes := (gs_nodes s)[r := f (gs_nodes s ! r)]\<rparr>)
      else Inl BadPointer)"

definition GC_REF_ADDRESS :: "gc_node \<Rightarrow> nat" where
  "GC_REF_ADDRESS n = unat (gn_info n AND GC_ADDRESS)"

definition GC_REF_COLOR :: "gc_node \<Rightarrow> 32 word" where
  "GC_REF_COLOR n = gn_info n AND GC_COLOR"

definition GC_REF_CHECK_COLOR :: "gc_node \<Rightarrow> 32 word \<Rightarrow> bool" where
  "GC_REF_CHECK_COLOR n color \<longleftrightarrow> gn_info n AND GC_COLOR = color"

definition GC_REF_SET_INFO :: "nat \<Rightarrow> 32 word \<Rightarrow> gc_state \<Rightarrow> error + gc_state" where
  "GC_REF_SET_INFO r info = gc_node_put r (\<lambda>n. n\<lparr>gn_info := info\<rparr>)"

definition GC_REF_SET_COLOR :: "nat \<Rightarrow> 32 word \<Rightarrow> gc_state \<Rightarrow> error + gc_state" where
  "GC_REF_SET_COLOR r c = gc_node_put r (\<lambda>n. n\<lparr>gn_info := (gn_info n AND NOT GC_COLOR) OR c\<rparr>)"

definition GC_REF_SET_BLACK :: "nat \<Rightarrow> gc_state \<Rightarrow> error + gc_state" where
  "GC_REF_SET_BLACK r = gc_node_put r (\<lambda>n. n\<lparr>gn_info := gn_info n AND NOT GC_COLOR\<rparr>)"

text \<open>\<open>zend_gc_delref\<close> asserts that the count is positive.\<close>

definition GC_ADDREF :: "nat \<Rightarrow> gc_state \<Rightarrow> error + gc_state" where
  "GC_ADDREF r = gc_node_put r (\<lambda>n. n\<lparr>gn_count := gn_count n + 1\<rparr>)"

definition GC_DELREF :: "nat \<Rightarrow> gc_state \<Rightarrow> error + gc_state" where
  "GC_DELREF r s =
     bindE (gc_node_at s r) (\<lambda>n. assertE (gn_count n > 0) (\<lambda>_.
       gc_node_put r (\<lambda>n. n\<lparr>gn_count := gn_count n - 1\<rparr>) s))"

text \<open>\<open>Z_COLLECTABLE\<close> with \<open>Z_COUNTED\<close>: the node a zval refers to, if the zval is collectable.\<close>

definition Z_COLLECTABLE :: "gc_state \<Rightarrow> zval \<Rightarrow> nat option" where
  "Z_COLLECTABLE s v =
     (case v of
        IS_ARRAY a \<Rightarrow> if a < length (gs_nodes s) \<and> gn_immutable (gs_nodes s ! a) then None else Some a
      | IS_OBJECT a \<Rightarrow> Some a
      | IS_REFERENCE r \<Rightarrow> Some r
      | _ \<Rightarrow> None)"

subsection \<open>The bits\<close>

lemma word_eq_by_unat: "unat v = unat w \<Longrightarrow> v = w" for v w :: "32 word"
  by (simp add: word_unat_eq_iff)

lemma masks_disjoint: "GC_ADDRESS AND GC_COLOR = 0"
  by (simp add: GC_ADDRESS_def GC_COLOR_def)

lemma color_idem [simp]:
  "GC_BLACK AND GC_COLOR = GC_BLACK" "GC_WHITE AND GC_COLOR = GC_WHITE"
  "GC_GREY AND GC_COLOR = GC_GREY" "GC_PURPLE AND GC_COLOR = GC_PURPLE"
  by (simp_all add: gc_colors GC_COLOR_def)

lemma and_disjoint:
  fixes w c m a :: "32 word"
  assumes "a AND m = 0"
  shows "((w AND NOT m) OR (c AND m)) AND a = w AND a" "((w AND NOT m) OR (c AND m)) AND m = c AND m"
proof -
  have d: "\<not> (bit a n \<and> bit m n)" for n using assms by (metis bit_0_eq bit_and_iff bot_apply bot_bool_def)
  have "bit (((w AND NOT m) OR (c AND m)) AND a) n = bit (w AND a) n"
    "bit (((w AND NOT m) OR (c AND m)) AND m) n = bit (c AND m) n" if "n < LENGTH(32)" for n
    using d [of n] that by (simp_all add: bit_and_iff bit_or_iff bit_not_iff) blast+
  then show "((w AND NOT m) OR (c AND m)) AND a = w AND a" "((w AND NOT m) OR (c AND m)) AND m = c AND m"
    by (auto intro: bit_word_eqI)
qed

text \<open>A word inside one mask is outside the other.\<close>

lemma inside_mask:
  fixes w u v :: "32 word"
  assumes "w AND u = w" "v AND u = 0"
  shows "w AND v = 0"
proof -
  have "w AND v = w AND (u AND v)" by (simp only: assms(1) and.assoc [symmetric])
  also have "u AND v = 0" using assms(2) by (simp only: and.commute)
  finally show ?thesis by simp
qed

text \<open>A node with a new information word, and with a new colour.\<close>

lemma address_of_info:
  assumes "i < 2 ^ 20" "c AND GC_COLOR = c"
  shows "unat ((of_nat i OR c) AND GC_ADDRESS) = i" "(of_nat i OR c) AND GC_COLOR = c"
proof -
  have m: "GC_ADDRESS = mask 20" by (simp add: GC_ADDRESS_def mask_eq_exp_minus_1)
  have u: "unat (of_nat i :: 32 word) = i" using assms(1) by (simp add: unsigned_of_nat take_bit_nat_eq_self)
  have "take_bit 20 (of_nat i :: 32 word) = of_nat i"
    using assms(1) u by (intro word_eq_by_unat) (simp add: unsigned_take_bit_eq take_bit_nat_eq_self)
  then have i: "of_nat i AND GC_ADDRESS = (of_nat i :: 32 word)" by (simp add: m take_bit_eq_mask)
  have c: "c AND GC_ADDRESS = 0"
    using inside_mask [OF assms(2) masks_disjoint] .
  have "(of_nat i OR c) AND GC_ADDRESS = (of_nat i :: 32 word)"
    by (simp add: i c bit.conj_disj_distrib2)
  then show "unat ((of_nat i OR c) AND GC_ADDRESS) = i" using u by simp
  have "(of_nat i :: 32 word) AND GC_COLOR = 0"
    using inside_mask [OF i] masks_disjoint by (simp add: and.commute)
  then show "(of_nat i OR c) AND GC_COLOR = c" using assms(2) by (simp add: bit.conj_disj_distrib2)
qed

lemma color_kept_address:
  assumes "c AND GC_COLOR = c"
  shows "((w AND NOT GC_COLOR) OR c) AND GC_ADDRESS = w AND GC_ADDRESS"
    "((w AND NOT GC_COLOR) OR c) AND GC_COLOR = c"
    "(w AND NOT GC_COLOR) AND GC_ADDRESS = w AND GC_ADDRESS" "(w AND NOT GC_COLOR) AND GC_COLOR = GC_BLACK"
  using and_disjoint [OF masks_disjoint, of w c] and_disjoint [OF masks_disjoint, of w 0] assms
  by (simp_all add: GC_BLACK_def)

lemma info_zero: "w < 2 ^ 22 \<Longrightarrow> w AND GC_ADDRESS = 0 \<Longrightarrow> w AND GC_COLOR = GC_BLACK \<Longrightarrow> w = 0" for w :: "32 word"
proof -
  assume w: "w < 2 ^ 22" "w AND GC_ADDRESS = 0" "w AND GC_COLOR = GC_BLACK"
  have "take_bit 22 w = w" using w(1) by (intro word_eq_by_unat) (simp add: unsigned_take_bit_eq take_bit_nat_eq_self word_less_nat_alt)
  then have "w = w AND mask 22" by (simp add: take_bit_eq_mask)
  also have "mask 22 = GC_ADDRESS OR GC_COLOR" by (simp add: GC_ADDRESS_def GC_COLOR_def mask_eq_exp_minus_1)
  finally show "w = 0" using w(2,3) by (simp add: bit.conj_disj_distrib GC_BLACK_def)
qed

subsection \<open>The list of unused entries\<close>

text \<open>A link survives up to index \<open>2\<^sup>2\<^sup>9\<close>, half of the largest buffer; see the findings.\<close>

lemma list2idx_idx2list:
  assumes "i < 2 ^ 29" "GC_IDX2LIST i = GC_UNUSED w"
  shows "GC_LIST2IDX w = i"
proof -
  have "push_bit 3 (of_nat i :: 64 word) = of_nat i * 8" by (simp add: push_bit_eq_mult)
  then have w: "w = push_bit 3 (of_nat i) OR 1" using assms(2) by (simp add: GC_IDX2LIST_def)
  have "bit (ucast w :: 32 word) n = (bit (push_bit 3 (of_nat i) :: 32 word) n \<or> n = 0)" if "n < 32" for n
    using that by (auto simp: w bit_simps)
  then have "(ucast w :: 32 word) = push_bit 3 (of_nat i) OR 1"
    by (intro bit_word_eqI) (auto simp: bit_or_iff bit_1_iff)
  moreover have "unat x div 8 = unat (drop_bit 3 x)" for x :: "32 word"
    unfolding unat_drop_bit_eq by (simp add: drop_bit_eq_div)
  ultimately have "unat (ucast w :: 32 word) div 8 = unat (drop_bit 3 (push_bit 3 (of_nat i) OR 1 :: 32 word))"
    by simp
  also have "drop_bit 3 (push_bit 3 (of_nat i) OR 1 :: 32 word) = of_nat i"
  proof (rule bit_word_eqI)
    fix n assume n: "n < LENGTH(32)"
    show "bit (drop_bit 3 (push_bit 3 (of_nat i) OR 1 :: 32 word)) n = bit (of_nat i :: 32 word) n"
    proof (cases "n + 3 < 32")
      case True
      then show ?thesis by (auto simp: bit_simps)
    next
      case False
      have "\<not> bit i n"
      proof
        assume "bit i n"
        then have "odd (i div 2 ^ n)" by (simp add: bit_iff_odd)
        then have "2 ^ n \<le> i" by (metis div_less dvd_0_right not_le)
        moreover have "(2::nat) ^ 29 \<le> 2 ^ n" using False by (intro power_increasing) auto
        ultimately show False using assms(1) by linarith
      qed
      then show ?thesis using False n by (auto simp: bit_simps)
    qed
  qed
  finally show ?thesis using assms(1) by (simp add: GC_LIST2IDX_def unsigned_of_nat take_bit_nat_eq_self)
qed

lemma idx2list_unused: obtains w where "GC_IDX2LIST i = GC_UNUSED w"
  by (simp add: GC_IDX2LIST_def)

end
