(* ===== verification/GcRoots.thy ===== *)
theory GcRoots
  imports GcTypes
begin

text \<open>
  The root buffer of the collector: the functions of \<open>zend_gc.c\<close> that add, remove and
  compact its entries. A pointer into the buffer is the index of the entry.
\<close>

unbundle bit_operations_syntax

definition gc_upd :: "(zend_gc_globals \<Rightarrow> zend_gc_globals) \<Rightarrow> gc_state \<Rightarrow> gc_state" where
  "gc_upd f s = s\<lparr>gs_globals := f (gs_globals s)\<rparr>"

definition gc_buf_rd :: "gc_state \<Rightarrow> nat \<Rightarrow> error + gc_entry" where
  "gc_buf_rd s idx = (case gc_buf (gs_globals s) of None \<Rightarrow> Inl BadPointer | Some b \<Rightarrow> rd b idx)"

definition gc_buf_wr :: "nat \<Rightarrow> gc_entry \<Rightarrow> gc_state \<Rightarrow> error + gc_state" where
  "gc_buf_wr idx e s =
     (case gc_buf (gs_globals s) of None \<Rightarrow> Inl BadPointer
      | Some b \<Rightarrow> bindE (wr b idx e) (\<lambda>b. Inr (gc_upd (\<lambda>g. g\<lparr>gc_buf := Some b\<rparr>) s)))"

subsection \<open>Compressed indices\<close>

definition gc_compress :: "nat \<Rightarrow> nat" where
  "gc_compress idx =
     (if idx < GC_MAX_UNCOMPRESSED then idx else (idx mod GC_MAX_UNCOMPRESSED) OR GC_MAX_UNCOMPRESSED)"

text \<open>The \<open>while (1)\<close> loop.\<close>

function decompress_loop :: "gc_state \<Rightarrow> nat \<Rightarrow> nat \<Rightarrow> error + nat" where
  "decompress_loop s ref idx =
     (if idx + GC_MAX_UNCOMPRESSED < gc_first_unused (gs_globals s) then
        bindE (gc_buf_rd s (idx + GC_MAX_UNCOMPRESSED)) (\<lambda>e.
          if GC_GET_PTR e = Some ref then Inr (idx + GC_MAX_UNCOMPRESSED)
          else decompress_loop s ref (idx + GC_MAX_UNCOMPRESSED))
      else Inl AssertFailed)"
  by pat_completeness auto
termination
  by (relation "measure (\<lambda>(s, ref, idx). gc_first_unused (gs_globals s) - idx)")
    (auto simp: GC_MAX_UNCOMPRESSED_def)

declare decompress_loop.simps [simp del]

definition gc_decompress :: "gc_state \<Rightarrow> nat \<Rightarrow> nat \<Rightarrow> error + nat" where
  "gc_decompress s ref idx =
     bindE (gc_buf_rd s idx) (\<lambda>e.
       if GC_GET_PTR e = Some ref then Inr idx else decompress_loop s ref idx)"

subsection \<open>Unused entries\<close>

definition gc_fetch_unused :: "gc_state \<Rightarrow> error + (nat \<times> gc_state)" where
  "gc_fetch_unused s =
     assertE (gc_unused (gs_globals s) \<noteq> GC_INVALID) (\<lambda>_.
       let idx = gc_unused (gs_globals s)
       in bindE (gc_buf_rd s idx) (\<lambda>e.
            case e of
              GC_UNUSED list \<Rightarrow> Inr (idx, gc_upd (\<lambda>g. g\<lparr>gc_unused := GC_LIST2IDX list\<rparr>) s)
            | _ \<Rightarrow> Inl AssertFailed))"

definition gc_link_unused :: "nat \<Rightarrow> gc_state \<Rightarrow> error + gc_state" where
  "gc_link_unused root s =
     bindE (gc_buf_wr root (GC_IDX2LIST (gc_unused (gs_globals s))) s) (\<lambda>s.
       Inr (gc_upd (\<lambda>g. g\<lparr>gc_unused := root\<rparr>) s))"

definition gc_fetch_next_unused :: "gc_state \<Rightarrow> error + (nat \<times> gc_state)" where
  "gc_fetch_next_unused s =
     assertE (gc_first_unused (gs_globals s) \<noteq> gc_buf_size (gs_globals s)) (\<lambda>_.
       let idx = gc_first_unused (gs_globals s)
       in Inr (idx, gc_upd (\<lambda>g. g\<lparr>gc_first_unused := gc_first_unused g + 1\<rparr>) s))"

definition gc_remove_from_roots :: "nat \<Rightarrow> gc_state \<Rightarrow> error + gc_state" where
  "gc_remove_from_roots root s =
     bindE (gc_link_unused root s) (\<lambda>s. Inr (gc_upd (\<lambda>g. g\<lparr>gc_num_roots := gc_num_roots g - 1\<rparr>) s))"

subsection \<open>Starting, stopping and growing\<close>

definition gc_globals_ctor_ex :: "zend_gc_globals" where
  "gc_globals_ctor_ex =
     \<lparr>gc_buf = None, gc_is_enabled = False, gc_active = False, gc_is_protected = True, gc_full = False,
      gc_unused = GC_INVALID, gc_first_unused = GC_INVALID, gc_threshold = GC_INVALID,
      gc_buf_size = GC_INVALID, gc_num_roots = 0, gc_runs = 0, gc_collected = 0,
      gc_dtor_idx = GC_FIRST_ROOT, gc_dtor_end = 0\<rparr>"

definition gc_reset :: "gc_state \<Rightarrow> gc_state" where
  "gc_reset s =
     (case gc_buf (gs_globals s) of
        None \<Rightarrow> s
      | Some _ \<Rightarrow> gc_upd (\<lambda>g. g\<lparr>gc_active := False, gc_is_protected := False, gc_full := False,
          gc_unused := GC_INVALID, gc_first_unused := GC_FIRST_ROOT, gc_num_roots := 0,
          gc_runs := 0, gc_collected := 0, gc_dtor_idx := GC_FIRST_ROOT, gc_dtor_end := 0\<rparr>) s)"

text \<open>Entry 0, which stands for no address, is \<open>NULL\<close>, whose tag is that of a root.\<close>

definition gc_enable :: "bool \<Rightarrow> gc_state \<Rightarrow> bool \<times> gc_state" where
  "gc_enable enable s =
     (let old_enabled = gc_is_enabled (gs_globals s);
          s = gc_upd (\<lambda>g. g\<lparr>gc_is_enabled := enable\<rparr>) s
      in if enable \<and> \<not> old_enabled \<and> gc_buf (gs_globals s) = None
         then (old_enabled, gc_reset (gc_upd (\<lambda>g.
                 g\<lparr>gc_buf := Some (Some GC_NULL_ROOT # replicate (GC_DEFAULT_BUF_SIZE - 1) None),
                   gc_threshold := GC_THRESHOLD_DEFAULT, gc_buf_size := GC_DEFAULT_BUF_SIZE\<rparr>) s))
         else (old_enabled, s))"

definition gc_enabled :: "gc_state \<Rightarrow> bool" where
  "gc_enabled s = gc_is_enabled (gs_globals s)"

definition gc_protect :: "bool \<Rightarrow> gc_state \<Rightarrow> bool \<times> gc_state" where
  "gc_protect protect s = (gc_is_protected (gs_globals s), gc_upd (\<lambda>g. g\<lparr>gc_is_protected := protect\<rparr>) s)"

definition gc_protected :: "gc_state \<Rightarrow> bool" where
  "gc_protected s = gc_is_protected (gs_globals s)"

text \<open>\<open>perealloc\<close> keeps what the old buffer holds.\<close>

definition gc_new_size :: "nat \<Rightarrow> nat" where
  "gc_new_size buf_size =
     (let new_size = (if buf_size < GC_BUF_GROW_STEP then buf_size * 2 else buf_size + GC_BUF_GROW_STEP)
      in if new_size > GC_MAX_BUF_SIZE then GC_MAX_BUF_SIZE else new_size)"

definition gc_grow_root_buffer :: "gc_state \<Rightarrow> gc_state" where
  "gc_grow_root_buffer s =
     (if gc_buf_size (gs_globals s) \<ge> GC_MAX_BUF_SIZE \<and> \<not> gc_full (gs_globals s)
      then gc_upd (\<lambda>g. g\<lparr>gc_active := True, gc_is_protected := True, gc_full := True\<rparr>) s
      else
        let new_size = gc_new_size (gc_buf_size (gs_globals s))
        in gc_upd (\<lambda>g. g\<lparr>gc_buf := map_option (\<lambda>b. take new_size b @ replicate (new_size - length b) None) (gc_buf g),
                          gc_buf_size := new_size\<rparr>) s)"

definition gc_adjust_threshold :: "int \<Rightarrow> gc_state \<Rightarrow> gc_state" where
  "gc_adjust_threshold n s =
     (if n < GC_THRESHOLD_TRIGGER \<or> gc_num_roots (gs_globals s) \<ge> gc_threshold (gs_globals s) then
        (if gc_threshold (gs_globals s) < GC_THRESHOLD_MAX then
           let new_threshold = min (gc_threshold (gs_globals s) + GC_THRESHOLD_STEP) GC_THRESHOLD_MAX;
               s = (if new_threshold > gc_buf_size (gs_globals s) then gc_grow_root_buffer s else s)
           in if new_threshold \<le> gc_buf_size (gs_globals s)
              then gc_upd (\<lambda>g. g\<lparr>gc_threshold := new_threshold\<rparr>) s else s
         else s)
      else if gc_threshold (gs_globals s) > GC_THRESHOLD_DEFAULT then
        gc_upd (\<lambda>g. g\<lparr>gc_threshold := max (gc_threshold g - GC_THRESHOLD_STEP) GC_THRESHOLD_DEFAULT\<rparr>) s
      else s)"

subsection \<open>Adding entries\<close>

text \<open>
  The index for a new entry: an unused one, the next one, or the next one after growing;
  \<open>None\<close> when the buffer cannot grow.
\<close>

definition gc_new_index :: "gc_state \<Rightarrow> error + (nat option \<times> gc_state)" where
  "gc_new_index s =
     (if gc_unused (gs_globals s) \<noteq> GC_INVALID then
        bindE (gc_fetch_unused s) (\<lambda>(idx, s). Inr (Some idx, s))
      else if gc_first_unused (gs_globals s) \<noteq> gc_buf_size (gs_globals s) then
        bindE (gc_fetch_next_unused s) (\<lambda>(idx, s). Inr (Some idx, s))
      else
        let s = gc_grow_root_buffer s
        in if gc_first_unused (gs_globals s) = gc_buf_size (gs_globals s) then Inr (None, s)
           else bindE (gc_fetch_next_unused s) (\<lambda>(idx, s). Inr (Some idx, s)))"

text \<open>\<open>newRoot->ref = ref\<close>, the new information word and the count.\<close>

definition gc_set_entry :: "nat \<Rightarrow> gc_entry \<Rightarrow> nat \<Rightarrow> 32 word \<Rightarrow> gc_state \<Rightarrow> error + gc_state" where
  "gc_set_entry idx e ref color s =
     bindE (gc_buf_wr idx e s) (\<lambda>s.
     bindE (GC_REF_SET_INFO ref (of_nat (gc_compress idx) OR color) s) (\<lambda>s.
       Inr (gc_upd (\<lambda>g. g\<lparr>gc_num_roots := gc_num_roots g + 1\<rparr>) s)))"

text \<open>\<open>GC_TYPE(ref) == IS_ARRAY || GC_TYPE(ref) == IS_OBJECT\<close>.\<close>

definition gc_can_root :: "gc_node \<Rightarrow> bool" where
  "gc_can_root n = (case gn_body n of GcArray _ \<Rightarrow> True | GcObject _ \<Rightarrow> True | _ \<Rightarrow> False)"

text \<open>\<open>collect\<close> is \<open>gc_collect_cycles\<close>, a function pointer, and \<open>rc_dtor_func\<close> destroys the node.\<close>

definition gc_possible_root_when_full ::
  "(gc_state \<Rightarrow> error + (int \<times> gc_state)) \<Rightarrow> (nat \<Rightarrow> gc_state \<Rightarrow> error + gc_state) \<Rightarrow>
     nat \<Rightarrow> gc_state \<Rightarrow> error + gc_state" where
  "gc_possible_root_when_full collect rc_dtor_func ref s =
     bindE (gc_node_at s ref) (\<lambda>n.
     assertE (gc_can_root n) (\<lambda>_. assertE (gn_info n = 0) (\<lambda>_.
     bindE (if gc_is_enabled (gs_globals s) \<and> \<not> gc_active (gs_globals s) then
              bindE (GC_ADDREF ref s) (\<lambda>s.
              bindE (collect s) (\<lambda>(collected, s).
              let s = gc_adjust_threshold collected s
              in bindE (GC_DELREF ref s) (\<lambda>s.
                 bindE (gc_node_at s ref) (\<lambda>n.
                 if gn_count n = 0 then bindE (rc_dtor_func ref s) (\<lambda>s. Inr (True, s))
                 else Inr (gn_info n \<noteq> 0, s)))))
            else Inr (False, s)) (\<lambda>(returned, s).
     if returned then Inr s
     else
       bindE (gc_new_index s) (\<lambda>(i, s).
       case i of
         None \<Rightarrow> Inr s
       | Some idx \<Rightarrow> gc_set_entry idx (GC_ROOT ref) ref GC_PURPLE s)))))"

definition gc_possible_root ::
  "(gc_state \<Rightarrow> error + (int \<times> gc_state)) \<Rightarrow> (nat \<Rightarrow> gc_state \<Rightarrow> error + gc_state) \<Rightarrow>
     nat \<Rightarrow> gc_state \<Rightarrow> error + gc_state" where
  "gc_possible_root collect rc_dtor_func ref s =
     (if gc_is_protected (gs_globals s) then Inr s
      else
        bindE (if gc_unused (gs_globals s) \<noteq> GC_INVALID then
                 bindE (gc_fetch_unused s) (\<lambda>(idx, s). Inr (Some idx, s))
               else if gc_first_unused (gs_globals s) < gc_threshold (gs_globals s) then
                 bindE (gc_fetch_next_unused s) (\<lambda>(idx, s). Inr (Some idx, s))
               else Inr (None, s)) (\<lambda>(i, s).
        case i of
          None \<Rightarrow> gc_possible_root_when_full collect rc_dtor_func ref s
        | Some idx \<Rightarrow>
            bindE (gc_node_at s ref) (\<lambda>n.
            assertE (gc_can_root n) (\<lambda>_. assertE (gn_info n = 0) (\<lambda>_.
              gc_set_entry idx (GC_ROOT ref) ref GC_PURPLE s)))))"

definition gc_extra_root :: "nat \<Rightarrow> gc_state \<Rightarrow> error + gc_state" where
  "gc_extra_root ref s =
     bindE (gc_new_index s) (\<lambda>(i, s).
     case i of
       None \<Rightarrow> Inr s
     | Some idx \<Rightarrow>
         bindE (gc_node_at s ref) (\<lambda>n.
         assertE (gc_can_root n) (\<lambda>_. assertE (GC_REF_ADDRESS n = 0) (\<lambda>_.
           gc_set_entry idx (GC_ROOT ref) ref (GC_REF_COLOR n) s))))"

definition gc_add_garbage :: "nat \<Rightarrow> gc_state \<Rightarrow> error + gc_state" where
  "gc_add_garbage ref s =
     bindE (gc_new_index s) (\<lambda>(i, s).
     case i of
       None \<Rightarrow> Inr s
     | Some idx \<Rightarrow> gc_set_entry idx (GC_GARBAGE ref) ref GC_BLACK s)"

text \<open>\<open>gc_check_possible_root\<close> looks through a reference without colour and address.\<close>

definition GC_MAY_LEAK :: "gc_node \<Rightarrow> bool" where
  "GC_MAY_LEAK n \<longleftrightarrow> gn_info n = 0 \<and> \<not> gn_not_collectable n"

definition gc_check_possible_root ::
  "(gc_state \<Rightarrow> error + (int \<times> gc_state)) \<Rightarrow> (nat \<Rightarrow> gc_state \<Rightarrow> error + gc_state) \<Rightarrow>
     nat \<Rightarrow> gc_state \<Rightarrow> error + gc_state" where
  "gc_check_possible_root collect rc_dtor_func ref s =
     bindE (gc_node_at s ref) (\<lambda>n.
     case (case gn_body n of GcReference v \<Rightarrow> if gn_info n = 0 then Z_COLLECTABLE s v else Some ref
           | _ \<Rightarrow> Some ref) of
       None \<Rightarrow> Inr s
     | Some ref \<Rightarrow>
         bindE (gc_node_at s ref) (\<lambda>n.
           if GC_MAY_LEAK n then gc_possible_root collect rc_dtor_func ref s else Inr s))"

subsection \<open>Removing an entry\<close>

definition gc_remove_compressed :: "nat \<Rightarrow> nat \<Rightarrow> gc_state \<Rightarrow> error + gc_state" where
  "gc_remove_compressed ref idx s = bindE (gc_decompress s ref idx) (\<lambda>root. gc_remove_from_roots root s)"

definition gc_remove_from_buffer :: "nat \<Rightarrow> gc_state \<Rightarrow> error + gc_state" where
  "gc_remove_from_buffer ref s =
     bindE (gc_node_at s ref) (\<lambda>n.
     let idx = GC_REF_ADDRESS n
     in bindE (GC_REF_SET_INFO ref 0 s) (\<lambda>s.
        if gc_first_unused (gs_globals s) \<ge> GC_MAX_UNCOMPRESSED then gc_remove_compressed ref idx s
        else assertE (idx \<noteq> 0) (\<lambda>_. gc_remove_from_roots idx s)))"

subsection \<open>Compaction\<close>

text \<open>The two inner loops: the next unused entry above, the next used one below.\<close>

function gc_unused_above :: "gc_state \<Rightarrow> nat \<Rightarrow> error + nat" where
  "gc_unused_above s i =
     (if i < gc_buf_size (gs_globals s) then
        bindE (gc_buf_rd s i) (\<lambda>e. if GC_IS_UNUSED e then Inr i else gc_unused_above s (i + 1))
      else Inl OutOfBounds)"
  by pat_completeness auto
termination
  by (relation "measure (\<lambda>(s, i). gc_buf_size (gs_globals s) - i)") auto

declare gc_unused_above.simps [simp del]

fun gc_used_below :: "gc_state \<Rightarrow> nat \<Rightarrow> error + nat" where
  "gc_used_below s 0 = bindE (gc_buf_rd s 0) (\<lambda>e. if \<not> GC_IS_UNUSED e then Inr 0 else Inl OutOfBounds)"
| "gc_used_below s (Suc i) =
     bindE (gc_buf_rd s (Suc i)) (\<lambda>e. if \<not> GC_IS_UNUSED e then Inr (Suc i) else gc_used_below s i)"

definition move_entry :: "nat \<Rightarrow> nat \<Rightarrow> gc_state \<Rightarrow> error + gc_state" where
  "move_entry free scan s =
     bindE (gc_buf_rd s scan) (\<lambda>e.
     bindE (gc_buf_wr free e s) (\<lambda>s.
     case GC_GET_PTR e of
       None \<Rightarrow> Inl BadPointer
     | Some p \<Rightarrow>
         bindE (gc_node_at s p) (\<lambda>n.
           GC_REF_SET_INFO p (of_nat (gc_compress free) OR GC_REF_COLOR n) s)))"

text \<open>The outer loop, with fuel; both fingers move in every round but the last.\<close>

fun gc_compact_loop :: "nat \<Rightarrow> nat \<Rightarrow> nat \<Rightarrow> nat \<Rightarrow> gc_state \<Rightarrow> error + gc_state" where
  "gc_compact_loop 0 free scan stop s = Inl NoReturn"
| "gc_compact_loop (Suc fuel) free scan stop s =
     (if free < scan then
        bindE (gc_unused_above s free) (\<lambda>free.
        bindE (gc_used_below s scan) (\<lambda>scan.
        if free < scan then
          bindE (move_entry free scan s) (\<lambda>s.
            if scan - 1 \<le> stop then Inr s else gc_compact_loop fuel (free + 1) (scan - 1) stop s)
        else gc_compact_loop fuel free scan stop s))
      else Inr s)"

definition gc_compact :: "gc_state \<Rightarrow> error + gc_state" where
  "gc_compact s =
     (let g = gs_globals s
      in if gc_num_roots g + GC_FIRST_ROOT \<noteq> gc_first_unused g then
           bindE (if gc_num_roots g \<noteq> 0
                  then gc_compact_loop (gc_first_unused g) GC_FIRST_ROOT (gc_first_unused g - 1) (gc_num_roots g) s
                  else Inr s) (\<lambda>s.
             Inr (gc_upd (\<lambda>g. g\<lparr>gc_unused := GC_INVALID, gc_first_unused := gc_num_roots g + GC_FIRST_ROOT\<rparr>) s))
         else Inr s)"

end
