(* ===== verification/GcRootsSpec.thy ===== *)
theory GcRootsSpec
  imports GcRoots
begin

text \<open>
  The invariant of the root buffer, \<open>roots_ok\<close>, and what the operations on it do to the set
  of its entries.
\<close>

unbundle bit_operations_syntax

subsection \<open>The invariant\<close>

definition gc_slot :: "gc_state \<Rightarrow> nat \<Rightarrow> gc_entry option" where
  "gc_slot s i = (case gc_buf (gs_globals s) of None \<Rightarrow> None | Some b \<Rightarrow> if i < length b then b ! i else None)"

definition holds_at :: "gc_state \<Rightarrow> nat \<Rightarrow> nat \<Rightarrow> bool" where
  "holds_at s i r \<longleftrightarrow> (\<exists>e. gc_slot s i = Some e \<and> GC_GET_PTR e = Some r)"

definition unused_at :: "gc_state \<Rightarrow> nat \<Rightarrow> bool" where
  "unused_at s i \<longleftrightarrow> (\<exists>w. gc_slot s i = Some (GC_UNUSED w))"

text \<open>The indices in use, all but some.\<close>

definition in_use :: "gc_state \<Rightarrow> nat set \<Rightarrow> nat set" where
  "in_use s X = {1..<gc_first_unused (gs_globals s)} - X"

text \<open>The list of unused entries from an index on.\<close>

fun free_chain :: "gc_state \<Rightarrow> nat \<Rightarrow> nat list \<Rightarrow> bool" where
  "free_chain s u [] \<longleftrightarrow> u = GC_INVALID"
| "free_chain s u (i # is) \<longleftrightarrow>
     u = i \<and> i \<noteq> GC_INVALID \<and> (\<exists>w. gc_slot s i = Some (GC_UNUSED w) \<and> free_chain s (GC_LIST2IDX w) is)"

definition buf_ok :: "gc_state \<Rightarrow> bool" where
  "buf_ok s \<longleftrightarrow> (\<exists>b. gc_buf (gs_globals s) = Some b \<and> length b = gc_buf_size (gs_globals s))"

text \<open>
  The invariant while the entries \<open>X\<close> are between two states. The bound \<open>2\<^sup>2\<^sup>9\<close> is that of
  the links, half of the largest buffer.
\<close>

definition roots_part :: "nat set \<Rightarrow> gc_state \<Rightarrow> bool" where
  "roots_part X s \<longleftrightarrow>
     buf_ok s \<and> 1 \<le> gc_first_unused (gs_globals s) \<and>
     gc_first_unused (gs_globals s) \<le> gc_buf_size (gs_globals s) \<and>
     gc_buf_size (gs_globals s) \<le> GC_MAX_BUF_SIZE \<and> gc_first_unused (gs_globals s) \<le> 2 ^ 29 \<and>
     X \<subseteq> in_use s {} \<and>
     (\<exists>is. free_chain s (gc_unused (gs_globals s)) is \<and> distinct is \<and> set is = {i \<in> in_use s X. unused_at s i}) \<and>
     (\<forall>i \<in> in_use s X. unused_at s i \<or>
        (\<exists>r < length (gs_nodes s). holds_at s i r \<and> GC_REF_ADDRESS (gs_nodes s ! r) = gc_compress i)) \<and>
     (\<forall>i \<in> in_use s X. \<forall>j \<in> in_use s X. \<forall>r. holds_at s i r \<longrightarrow> holds_at s j r \<longrightarrow> i = j) \<and>
     (\<forall>r < length (gs_nodes s). gn_info (gs_nodes s ! r) < 2 ^ 22) \<and>
     (\<forall>r < length (gs_nodes s). GC_REF_ADDRESS (gs_nodes s ! r) \<noteq> 0 \<longrightarrow> (\<exists>i \<in> in_use s X. holds_at s i r)) \<and>
     gc_num_roots (gs_globals s) = card {i \<in> in_use s X. \<exists>r. holds_at s i r}"

abbreviation roots_ok :: "gc_state \<Rightarrow> bool" where
  "roots_ok \<equiv> roots_part {}"

text \<open>The entries of the buffer.\<close>

definition buffered :: "gc_state \<Rightarrow> gc_entry set" where
  "buffered s = {e. \<exists>i \<in> in_use s {}. gc_slot s i = Some e \<and> GC_GET_PTR e \<noteq> None}"

text \<open>What no operation on the buffer changes.\<close>

definition rest_of_globals :: "zend_gc_globals \<Rightarrow> bool \<times> bool \<times> bool \<times> bool \<times> nat \<times> nat \<times> nat \<times> nat \<times> nat" where
  "rest_of_globals g = (gc_is_enabled g, gc_active g, gc_is_protected g, gc_full g, gc_threshold g, gc_runs g,
     gc_collected g, gc_dtor_idx g, gc_dtor_end g)"

definition gc_frame :: "gc_state \<Rightarrow> gc_state \<Rightarrow> bool" where
  "gc_frame s s' \<longleftrightarrow>
     gs_entries s' = gs_entries s \<and> gs_indirect s' = gs_indirect s \<and> gs_symbol_table s' = gs_symbol_table s \<and>
     rest_of_globals (gs_globals s') = rest_of_globals (gs_globals s)"

lemma gc_frame_refl [simp]: "gc_frame s s"
  by (simp add: gc_frame_def)

lemma gc_frame_trans [trans]: "gc_frame s t \<Longrightarrow> gc_frame t u \<Longrightarrow> gc_frame s u"
  by (simp add: gc_frame_def)

subsection \<open>Single steps\<close>

lemma buf_rd_ok [simp]: "gc_slot s i = Some e \<Longrightarrow> gc_buf_rd s i = Inr e"
  by (simp add: gc_slot_def gc_buf_rd_def split: option.splits if_splits)

text \<open>A written entry.\<close>

definition buf_set :: "nat \<Rightarrow> gc_entry \<Rightarrow> gc_state \<Rightarrow> gc_state" where
  "buf_set i e = gc_upd (\<lambda>g. g\<lparr>gc_buf := map_option (\<lambda>b. b[i := Some e]) (gc_buf g)\<rparr>)"

lemma buf_wr_ok: "buf_ok s \<Longrightarrow> i < gc_buf_size (gs_globals s) \<Longrightarrow> gc_buf_wr i e s = Inr (buf_set i e s)"
  by (auto simp: buf_ok_def gc_buf_wr_def buf_set_def gc_upd_def)

lemma slot_buf_set:
  "buf_ok s \<Longrightarrow> i < gc_buf_size (gs_globals s) \<Longrightarrow> gc_slot (buf_set i e s) j = (if j = i then Some e else gc_slot s j)"
  by (auto simp: buf_ok_def gc_slot_def buf_set_def gc_upd_def)

lemma buf_set_simps [simp]:
  "gs_nodes (buf_set i e s) = gs_nodes s" "gc_unused (gs_globals (buf_set i e s)) = gc_unused (gs_globals s)"
  "gc_first_unused (gs_globals (buf_set i e s)) = gc_first_unused (gs_globals s)"
  "gc_num_roots (gs_globals (buf_set i e s)) = gc_num_roots (gs_globals s)"
  "gc_buf_size (gs_globals (buf_set i e s)) = gc_buf_size (gs_globals s)"
  "in_use (buf_set i e s) X = in_use s X" "gc_frame s (buf_set i e s)" "buf_ok (buf_set i e s) = buf_ok s"
  by (auto simp: buf_set_def gc_upd_def in_use_def gc_frame_def rest_of_globals_def buf_ok_def)

lemma compress_mod:
  assumes "GC_MAX_UNCOMPRESSED \<le> i"
  shows "gc_compress i = i mod GC_MAX_UNCOMPRESSED + GC_MAX_UNCOMPRESSED"
proof -
  have m: "GC_MAX_UNCOMPRESSED = 2 ^ 19" by (simp add: GC_MAX_UNCOMPRESSED_def)
  have "take_bit n i AND 2 ^ n = 0" for n by (rule bit_eqI) (auto simp: bit_simps)
  then have "take_bit 19 i AND 2 ^ 19 = 0" .
  then have "take_bit 19 i + 2 ^ 19 = take_bit 19 i OR 2 ^ 19" by (rule disjunctive_add_eq_or)
  then show ?thesis using assms unfolding gc_compress_def m by (simp add: take_bit_eq_mod)
qed

lemma compress_pos: "1 \<le> i \<Longrightarrow> gc_compress i \<noteq> 0"
  using compress_mod [of i] by (cases "i < GC_MAX_UNCOMPRESSED") (auto simp: gc_compress_def GC_MAX_UNCOMPRESSED_def)

lemma compress_bound: "gc_compress i < 2 ^ 20"
proof (cases "i < GC_MAX_UNCOMPRESSED")
  case True
  then show ?thesis by (simp add: gc_compress_def GC_MAX_UNCOMPRESSED_def)
next
  case False
  have "i mod 524288 < 524288" by simp
  then show ?thesis using False compress_mod [of i] unfolding GC_MAX_UNCOMPRESSED_def by simp
qed

text \<open>Decompression finds the entry that holds the reference.\<close>

lemma decompress_loop_ok:
  assumes "i < gc_first_unused (gs_globals s)" "holds_at s i r"
    and others: "\<And>j. j < i \<Longrightarrow> idx < j \<Longrightarrow> \<exists>e. gc_slot s j = Some e \<and> GC_GET_PTR e \<noteq> Some r"
  shows "i = idx + Suc k * GC_MAX_UNCOMPRESSED \<Longrightarrow> decompress_loop s r idx = Inr i"
  using others
proof (induction k arbitrary: idx)
  case 0
  obtain e where "gc_slot s i = Some e" "GC_GET_PTR e = Some r" using assms(2) by (auto simp: holds_at_def)
  then show ?case using 0 assms(1) by (simp add: decompress_loop.simps [of s r idx])
next
  case (Suc k)
  let ?j = "idx + GC_MAX_UNCOMPRESSED"
  have j: "idx < ?j" "?j < i" using Suc.prems(1) by (simp_all add: GC_MAX_UNCOMPRESSED_def)
  obtain e where "gc_slot s ?j = Some e" "GC_GET_PTR e \<noteq> Some r" using Suc.prems(2) [OF j(2,1)] by blast
  moreover have "decompress_loop s r ?j = Inr i"
    using Suc.IH [of ?j] Suc.prems j by simp
  ultimately show ?case using j assms(1) by (simp add: decompress_loop.simps [of s r idx])
qed

lemma decompress_ok:
  assumes "i < gc_first_unused (gs_globals s)" "holds_at s i r"
    and others: "\<And>j. 1 \<le> j \<Longrightarrow> j < i \<Longrightarrow> \<exists>e. gc_slot s j = Some e \<and> GC_GET_PTR e \<noteq> Some r"
    and "1 \<le> i"
  shows "gc_decompress s r (gc_compress i) = Inr i"
proof (cases "gc_compress i = i")
  case True
  then show ?thesis using assms(2) by (auto simp: gc_decompress_def holds_at_def)
next
  case False
  then have ge: "GC_MAX_UNCOMPRESSED \<le> i" by (auto simp: gc_compress_def split: if_splits)
  let ?c = "gc_compress i"
  have c: "?c = i mod GC_MAX_UNCOMPRESSED + GC_MAX_UNCOMPRESSED" by (rule compress_mod [OF ge])
  have i: "i = i mod GC_MAX_UNCOMPRESSED + (i div GC_MAX_UNCOMPRESSED) * GC_MAX_UNCOMPRESSED" by simp
  have "i div GC_MAX_UNCOMPRESSED \<noteq> 0" using ge by (simp add: GC_MAX_UNCOMPRESSED_def)
  moreover have "i div GC_MAX_UNCOMPRESSED \<noteq> 1"
  proof
    assume "i div GC_MAX_UNCOMPRESSED = 1"
    then have "i = ?c" using i c by simp
    with False show False by simp
  qed
  ultimately obtain k where k: "i div GC_MAX_UNCOMPRESSED = Suc (Suc k)" by (metis One_nat_def not0_implies_Suc)
  then have ik: "i = ?c + Suc k * GC_MAX_UNCOMPRESSED" using i c by simp
  have "1 \<le> ?c" "?c < i" using ik c by (simp_all add: GC_MAX_UNCOMPRESSED_def)
  then obtain e where e: "gc_slot s ?c = Some e" "GC_GET_PTR e \<noteq> Some r" using others by blast
  have "decompress_loop s r ?c = Inr i"
    by (rule decompress_loop_ok [OF assms(1,2) _ ik]) (use others \<open>1 \<le> ?c\<close> in auto)
  then show ?thesis using e by (simp add: gc_decompress_def)
qed

subsection \<open>Taking an index\<close>

lemma roots_partD:
  assumes "roots_part X s"
  shows "buf_ok s" "1 \<le> gc_first_unused (gs_globals s)" "gc_first_unused (gs_globals s) \<le> gc_buf_size (gs_globals s)"
    "gc_buf_size (gs_globals s) \<le> GC_MAX_BUF_SIZE" "gc_first_unused (gs_globals s) \<le> 2 ^ 29" "X \<subseteq> in_use s {}"
    "\<exists>is. free_chain s (gc_unused (gs_globals s)) is \<and> distinct is \<and> set is = {i \<in> in_use s X. unused_at s i}"
    "\<And>i. i \<in> in_use s X \<Longrightarrow> unused_at s i \<or>
        (\<exists>r < length (gs_nodes s). holds_at s i r \<and> GC_REF_ADDRESS (gs_nodes s ! r) = gc_compress i)"
    "\<And>i j r. i \<in> in_use s X \<Longrightarrow> j \<in> in_use s X \<Longrightarrow> holds_at s i r \<Longrightarrow> holds_at s j r \<Longrightarrow> i = j"
    "\<And>r. r < length (gs_nodes s) \<Longrightarrow> gn_info (gs_nodes s ! r) < 2 ^ 22"
    "\<And>r. r < length (gs_nodes s) \<Longrightarrow> GC_REF_ADDRESS (gs_nodes s ! r) \<noteq> 0 \<Longrightarrow> \<exists>i \<in> in_use s X. holds_at s i r"
    "gc_num_roots (gs_globals s) = card {i \<in> in_use s X. \<exists>r. holds_at s i r}"
  using assms unfolding roots_part_def by blast+

lemma free_chain_cong:
  "(\<And>i. i \<in> set is \<Longrightarrow> gc_slot s' i = gc_slot s i) \<Longrightarrow> free_chain s' u is = free_chain s u is"
  by (induction "is" arbitrary: u) auto

lemma holds_cong: "gc_slot s' i = gc_slot s i \<Longrightarrow> holds_at s' i r = holds_at s i r"
  "gc_slot s' i = gc_slot s i \<Longrightarrow> unused_at s' i = unused_at s i"
  by (simp_all add: holds_at_def unused_at_def)

lemma not_both: "unused_at s i \<Longrightarrow> \<not> holds_at s i r"
  by (auto simp: unused_at_def holds_at_def GC_GET_PTR_def)

lemma finite_in_use [simp]: "finite (in_use s X)"
  by (simp add: in_use_def)

text \<open>A held reference has its address and is a node.\<close>

lemma held:
  assumes "roots_part X s" "i \<in> in_use s X" "holds_at s i r"
  shows "r < length (gs_nodes s)" "GC_REF_ADDRESS (gs_nodes s ! r) = gc_compress i"
proof -
  from roots_partD(8) [OF assms(1,2)] not_both assms(3)
  obtain q where q: "q < length (gs_nodes s)" "holds_at s i q" "GC_REF_ADDRESS (gs_nodes s ! q) = gc_compress i" by blast
  have "q = r" using q(2) assms(3) by (auto simp: holds_at_def)
  then show "r < length (gs_nodes s)" "GC_REF_ADDRESS (gs_nodes s ! r) = gc_compress i" using q by auto
qed

text \<open>The state after an index was taken: it is apart, everything else is as before.\<close>

definition index_taken :: "gc_state \<Rightarrow> nat \<Rightarrow> gc_state \<Rightarrow> bool" where
  "index_taken s idx s' \<longleftrightarrow>
     roots_part {idx} s' \<and> gs_nodes s' = gs_nodes s \<and> gc_frame s s' \<and>
     (\<forall>i \<in> in_use s {}. gc_slot s' i = gc_slot s i) \<and> (idx \<in> in_use s {} \<longrightarrow> unused_at s idx) \<and>
     in_use s {} - {idx} = in_use s' {idx} \<and> gc_num_roots (gs_globals s') = gc_num_roots (gs_globals s) \<and>
     gc_first_unused (gs_globals s') \<le> gc_first_unused (gs_globals s) + 1 \<and>
     (gc_unused (gs_globals s) = GC_INVALID \<longrightarrow> idx = gc_first_unused (gs_globals s) \<and>
        gc_first_unused (gs_globals s') = gc_first_unused (gs_globals s) + 1 \<and> gc_unused (gs_globals s') = GC_INVALID)"

lemma fetch_unused_ok:
  assumes ok: "roots_ok s" and u: "gc_unused (gs_globals s) \<noteq> GC_INVALID"
  obtains idx s' where "gc_fetch_unused s = Inr (idx, s')" "index_taken s idx s'"
    "gc_first_unused (gs_globals s') = gc_first_unused (gs_globals s)"
proof -
  note d = roots_partD [OF ok]
  from d(7) obtain ys where ys: "free_chain s (gc_unused (gs_globals s)) ys" "distinct ys"
    "set ys = {i \<in> in_use s {}. unused_at s i}" by blast
  then obtain idx zs where c: "ys = idx # zs" using u by (cases ys) auto
  with ys(1) obtain w where w: "gc_unused (gs_globals s) = idx" "gc_slot s idx = Some (GC_UNUSED w)"
    "free_chain s (GC_LIST2IDX w) zs" by auto
  define s' where "s' = gc_upd (\<lambda>g. g\<lparr>gc_unused := GC_LIST2IDX w\<rparr>) s"
  have sel: "gs_nodes s' = gs_nodes s" "gc_unused (gs_globals s') = GC_LIST2IDX w"
    "gc_first_unused (gs_globals s') = gc_first_unused (gs_globals s)"
    "gc_buf_size (gs_globals s') = gc_buf_size (gs_globals s)" "gc_num_roots (gs_globals s') = gc_num_roots (gs_globals s)"
    "gc_frame s s'" "buf_ok s' = buf_ok s" "in_use s' X = in_use s X" for X
    by (simp_all add: s'_def gc_upd_def gc_frame_def rest_of_globals_def buf_ok_def in_use_def)
  have sl: "gc_slot s' i = gc_slot s i" for i by (simp add: s'_def gc_upd_def gc_slot_def)
  have h: "holds_at s' = holds_at s" "unused_at s' = unused_at s" by (simp_all add: fun_eq_iff holds_at_def unused_at_def sl)
  have fc: "free_chain s' = free_chain s" by (intro ext free_chain_cong sl)
  have i: "idx \<in> in_use s {}" "unused_at s idx" using ys(3) c by auto
  have iu: "in_use s {idx} = in_use s {} - {idx}" by (auto simp: in_use_def)
  have nh: "\<not> holds_at s idx r" for r using not_both [OF i(2)] by blast
  have set: "set zs = {i \<in> in_use s {idx}. unused_at s i}" using ys(2,3) c by (auto simp: iu)
  have roots: "{i \<in> in_use s {idx}. \<exists>r. holds_at s i r} = {i \<in> in_use s {}. \<exists>r. holds_at s i r}"
    using nh by (auto simp: iu)
  have "roots_part {idx} s'"
    unfolding roots_part_def sel h fc
  proof (intro conjI)
    show "\<exists>is. free_chain s (GC_LIST2IDX w) is \<and> distinct is \<and> set is = {i \<in> in_use s {idx}. unused_at s i}"
      using w(3) ys(2) c set by auto
    show "\<forall>r<length (gs_nodes s). GC_REF_ADDRESS (gs_nodes s ! r) \<noteq> 0 \<longrightarrow> (\<exists>i\<in>in_use s {idx}. holds_at s i r)"
      using d(11) nh by (fastforce simp: iu)
    show "gc_num_roots (gs_globals s) = card {i \<in> in_use s {idx}. \<exists>r. holds_at s i r}" using d(12) by (simp add: roots)
  qed (use d i(1) in \<open>auto simp: iu\<close>)
  then have "index_taken s idx s'"
    using i(2) u by (simp add: index_taken_def sel sl iu)
  moreover have "gc_fetch_unused s = Inr (idx, s')"
    using u w by (simp add: gc_fetch_unused_def s'_def)
  ultimately show thesis using that sel(3) by blast
qed

lemma fetch_next_ok:
  assumes ok: "roots_ok s" and u: "gc_first_unused (gs_globals s) \<noteq> gc_buf_size (gs_globals s)"
    and room: "gc_first_unused (gs_globals s) < 2 ^ 29"
  obtains idx s' where "gc_fetch_next_unused s = Inr (idx, s')" "index_taken s idx s'"
proof -
  note d = roots_partD [OF ok]
  define idx where "idx = gc_first_unused (gs_globals s)"
  define s' where "s' = gc_upd (\<lambda>g. g\<lparr>gc_first_unused := gc_first_unused g + 1\<rparr>) s"
  have sel: "gs_nodes s' = gs_nodes s" "gc_unused (gs_globals s') = gc_unused (gs_globals s)"
    "gc_first_unused (gs_globals s') = idx + 1"
    "gc_buf_size (gs_globals s') = gc_buf_size (gs_globals s)" "gc_num_roots (gs_globals s') = gc_num_roots (gs_globals s)"
    "gc_frame s s'" "buf_ok s' = buf_ok s"
    by (simp_all add: s'_def gc_upd_def gc_frame_def rest_of_globals_def buf_ok_def idx_def)
  have sl: "gc_slot s' i = gc_slot s i" for i by (simp add: s'_def gc_upd_def gc_slot_def)
  have h: "holds_at s' = holds_at s" "unused_at s' = unused_at s" by (simp_all add: fun_eq_iff holds_at_def unused_at_def sl)
  have fc: "free_chain s' = free_chain s" by (intro ext free_chain_cong sl)
  have iu: "in_use s' {idx} = in_use s {}" "idx \<notin> in_use s {}" "idx \<in> in_use s' {}"
    using d(2) by (auto simp: in_use_def sel idx_def)
  have le: "idx + 1 \<le> gc_buf_size (gs_globals s)" using d(3) u by (simp add: idx_def)
  have "roots_part {idx} s'"
    unfolding roots_part_def sel h fc iu(1) using d le iu(3) room by (simp add: idx_def [symmetric])
  then have "index_taken s idx s'"
    using iu by (simp add: index_taken_def sel sl idx_def [symmetric])
  moreover have "gc_fetch_next_unused s = Inr (idx, s')"
    using u by (simp add: gc_fetch_next_unused_def s'_def idx_def)
  ultimately show thesis using that by blast
qed

lemma new_size_larger:
  "0 < n \<Longrightarrow> n < GC_MAX_BUF_SIZE \<Longrightarrow> n < gc_new_size n \<and> gc_new_size n \<le> GC_MAX_BUF_SIZE"
  by (simp add: gc_new_size_def Let_def GC_BUF_GROW_STEP_def GC_MAX_BUF_SIZE_def)

text \<open>Growing keeps every entry.\<close>

lemma grow_ok:
  assumes ok: "roots_part X s" and lt: "gc_buf_size (gs_globals s) < GC_MAX_BUF_SIZE"
  shows "roots_part X (gc_grow_root_buffer s)"
    "gc_buf_size (gs_globals s) < gc_buf_size (gs_globals (gc_grow_root_buffer s))"
    "i \<in> in_use s {} \<Longrightarrow> gc_slot (gc_grow_root_buffer s) i = gc_slot s i"
    "gs_nodes (gc_grow_root_buffer s) = gs_nodes s" "gc_frame s (gc_grow_root_buffer s)"
    "in_use (gc_grow_root_buffer s) Y = in_use s Y"
    "gc_first_unused (gs_globals (gc_grow_root_buffer s)) = gc_first_unused (gs_globals s)"
    "gc_num_roots (gs_globals (gc_grow_root_buffer s)) = gc_num_roots (gs_globals s)"
    "gc_unused (gs_globals (gc_grow_root_buffer s)) = gc_unused (gs_globals s)"
proof -
  note d = roots_partD [OF ok]
  define s' where "s' = gc_grow_root_buffer s"
  have n: "gc_buf_size (gs_globals s) < gc_new_size (gc_buf_size (gs_globals s))"
      "gc_new_size (gc_buf_size (gs_globals s)) \<le> GC_MAX_BUF_SIZE"
    using new_size_larger [of "gc_buf_size (gs_globals s)"] d(2,3) lt by auto
  obtain b where b: "gc_buf (gs_globals s) = Some b" "length b = gc_buf_size (gs_globals s)"
    using d(1) by (auto simp: buf_ok_def)
  have s': "s' = gc_upd (\<lambda>g. g\<lparr>gc_buf := map_option (\<lambda>b. take (gc_new_size (gc_buf_size (gs_globals s))) b @
      replicate (gc_new_size (gc_buf_size (gs_globals s)) - length b) None) (gc_buf g),
      gc_buf_size := gc_new_size (gc_buf_size (gs_globals s))\<rparr>) s"
    using lt by (simp add: s'_def gc_grow_root_buffer_def Let_def)
  have sel: "gs_nodes s' = gs_nodes s" "gc_unused (gs_globals s') = gc_unused (gs_globals s)"
    "gc_first_unused (gs_globals s') = gc_first_unused (gs_globals s)"
    "gc_buf_size (gs_globals s') = gc_new_size (gc_buf_size (gs_globals s))"
    "gc_num_roots (gs_globals s') = gc_num_roots (gs_globals s)"
    "gc_frame s s'" "in_use s' Z = in_use s Z" for Z
    by (simp_all add: s' gc_upd_def gc_frame_def rest_of_globals_def in_use_def)
  have bo: "buf_ok s'" using b n(1) by (simp add: s' gc_upd_def buf_ok_def)
  have sl: "gc_slot s' i = gc_slot s i" if "i < gc_buf_size (gs_globals s)" for i
    using that b n(1) by (simp add: s' gc_upd_def gc_slot_def nth_append)
  have bound: "i \<in> in_use s Z \<Longrightarrow> i < gc_buf_size (gs_globals s)" for i Z
    using d(3) by (simp add: in_use_def)
  have h: "i \<in> in_use s Z \<Longrightarrow> holds_at s' i = holds_at s i" "i \<in> in_use s Z \<Longrightarrow> unused_at s' i = unused_at s i" for i Z
    using sl [OF bound] by (auto simp: holds_at_def unused_at_def fun_eq_iff)
  obtain ys where ys: "free_chain s (gc_unused (gs_globals s)) ys" "distinct ys" "set ys = {i \<in> in_use s X. unused_at s i}"
    using d(7) by blast
  have "free_chain s' (gc_unused (gs_globals s)) ys"
    using ys(1) free_chain_cong [of ys s' s "gc_unused (gs_globals s)"] sl bound ys(3) by blast
  moreover have "set ys = {i \<in> in_use s X. unused_at s' i}" using ys(3) h(2) by blast
  ultimately have fc: "\<exists>is. free_chain s' (gc_unused (gs_globals s)) is \<and> distinct is \<and>
      set is = {i \<in> in_use s X. unused_at s' i}" using ys(2) by blast
  have cd: "{i \<in> in_use s X. \<exists>r. holds_at s' i r} = {i \<in> in_use s X. \<exists>r. holds_at s i r}" using h(1) by auto
  have "roots_part X s'"
    unfolding roots_part_def sel cd
  proof (intro conjI ballI allI impI)
    fix i assume i: "i \<in> in_use s X"
    show "unused_at s' i \<or> (\<exists>r<length (gs_nodes s). holds_at s' i r \<and> GC_REF_ADDRESS (gs_nodes s ! r) = gc_compress i)"
      using d(8) [OF i] h [OF i] by simp
  next
    fix i j r assume "i \<in> in_use s X" "j \<in> in_use s X" "holds_at s' i r" "holds_at s' j r"
    then show "i = j" using d(9) h(1) by metis
  next
    fix r assume "r < length (gs_nodes s)" "GC_REF_ADDRESS (gs_nodes s ! r) \<noteq> 0"
    from d(11) [OF this] show "\<exists>i\<in>in_use s X. holds_at s' i r" using h(1) by auto
  qed (use d bo n fc in auto)
  then show "roots_part X (gc_grow_root_buffer s)" by (simp add: s'_def)
  show "i \<in> in_use s {} \<Longrightarrow> gc_slot (gc_grow_root_buffer s) i = gc_slot s i" using sl [OF bound] by (simp add: s'_def)
  show "gc_buf_size (gs_globals s) < gc_buf_size (gs_globals (gc_grow_root_buffer s))" using sel(4) n(1) by (simp add: s'_def)
qed (use assms in \<open>simp_all add: gc_grow_root_buffer_def Let_def gc_upd_def gc_frame_def rest_of_globals_def in_use_def\<close>)

lemma index_taken_grow:
  assumes ok: "roots_ok s" and lt: "gc_buf_size (gs_globals s) < GC_MAX_BUF_SIZE"
    and t: "index_taken (gc_grow_root_buffer s) idx s'"
  shows "index_taken s idx s'"
proof -
  note g = grow_ok [OF ok lt]
  have "idx \<in> in_use s {} \<Longrightarrow> unused_at (gc_grow_root_buffer s) idx = unused_at s idx"
    using g(3) by (simp add: unused_at_def)
  then show ?thesis
    using t gc_frame_trans [OF g(5)] by (auto simp: index_taken_def g(3,4,6,7,8,9))
qed

lemma new_index_ok:
  assumes ok: "roots_ok s" and room: "gc_first_unused (gs_globals s) < 2 ^ 29"
  obtains idx s' where "gc_new_index s = Inr (Some idx, s')" "index_taken s idx s'"
proof -
  consider "gc_unused (gs_globals s) \<noteq> GC_INVALID"
    | "gc_unused (gs_globals s) = GC_INVALID" "gc_first_unused (gs_globals s) \<noteq> gc_buf_size (gs_globals s)"
    | "gc_unused (gs_globals s) = GC_INVALID" "gc_first_unused (gs_globals s) = gc_buf_size (gs_globals s)" by blast
  then show thesis
  proof cases
    case 1
    obtain idx s' where "gc_fetch_unused s = Inr (idx, s')" "index_taken s idx s'"
      using fetch_unused_ok [OF ok 1] by blast
    then show thesis using that [of idx s'] 1 by (simp add: gc_new_index_def)
  next
    case 2
    obtain idx s' where "gc_fetch_next_unused s = Inr (idx, s')" "index_taken s idx s'"
      using fetch_next_ok [OF ok 2(2) room] by blast
    then show thesis using that [of idx s'] 2 by (simp add: gc_new_index_def)
  next
    case 3
    then have lt: "gc_buf_size (gs_globals s) < GC_MAX_BUF_SIZE" using room by (simp add: GC_MAX_BUF_SIZE_def)
    note g = grow_ok [OF ok lt]
    have ne: "gc_first_unused (gs_globals (gc_grow_root_buffer s)) \<noteq> gc_buf_size (gs_globals (gc_grow_root_buffer s))"
      using g(2,7) 3(2) by simp
    obtain idx s' where n: "gc_fetch_next_unused (gc_grow_root_buffer s) = Inr (idx, s')"
      "index_taken (gc_grow_root_buffer s) idx s'"
      using fetch_next_ok [OF g(1) ne] g(7) room by auto
    have "gc_new_index s = Inr (Some idx, s')" using 3 ne n(1) by (simp add: gc_new_index_def Let_def)
    then show thesis using that index_taken_grow [OF ok lt n(2)] by blast
  qed
qed

subsection \<open>Adding an entry\<close>

text \<open>The node's information word is new; its count and what it refers to are not.\<close>

definition entered :: "gc_state \<Rightarrow> gc_entry \<Rightarrow> nat \<Rightarrow> 32 word \<Rightarrow> gc_state \<Rightarrow> bool" where
  "entered s e r color s' \<longleftrightarrow>
     roots_ok s' \<and> gc_frame s s' \<and> buffered s' = insert e (buffered s) \<and>
     (\<exists>info. gs_nodes s' = (gs_nodes s)[r := (gs_nodes s ! r)\<lparr>gn_info := info\<rparr>] \<and>
        info AND GC_COLOR = color \<and> info AND GC_ADDRESS \<noteq> 0) \<and>
     gc_num_roots (gs_globals s') = gc_num_roots (gs_globals s) + 1 \<and>
     gc_first_unused (gs_globals s') \<le> gc_first_unused (gs_globals s) + 1 \<and>
     (\<forall>i \<in> in_use s {}. \<not> unused_at s i \<longrightarrow> gc_slot s' i = gc_slot s i) \<and>
     (gc_unused (gs_globals s) = GC_INVALID \<longrightarrow>
        gc_first_unused (gs_globals s') = gc_first_unused (gs_globals s) + 1 \<and>
        gc_unused (gs_globals s') = GC_INVALID \<and> gc_slot s' (gc_first_unused (gs_globals s)) = Some e)"

lemma set_info_ok:
  "r < length (gs_nodes s) \<Longrightarrow> GC_REF_SET_INFO r info s =
     Inr (s\<lparr>gs_nodes := (gs_nodes s)[r := (gs_nodes s ! r)\<lparr>gn_info := info\<rparr>]\<rparr>)"
  by (simp add: GC_REF_SET_INFO_def gc_node_put_def)

lemma info_bound: "i < 2 ^ 20 \<Longrightarrow> c AND GC_COLOR = c \<Longrightarrow> (of_nat i OR c) < (2 ^ 22 :: 32 word)"
proof -
  assume a: "i < 2 ^ 20" "c AND GC_COLOR = c"
  let ?w = "of_nat i OR c :: 32 word"
  have "?w AND (GC_ADDRESS OR GC_COLOR) = (?w AND GC_ADDRESS) OR (?w AND GC_COLOR)"
    by (simp add: bit.conj_disj_distrib)
  also have "?w AND GC_ADDRESS = of_nat i"
    using address_of_info(1) [OF a] a(1) by (intro word_eq_by_unat) (simp add: unsigned_of_nat take_bit_nat_eq_self)
  also have "?w AND GC_COLOR = c" by (rule address_of_info(2) [OF a])
  finally have "?w AND mask 22 = ?w" by (simp add: GC_ADDRESS_def GC_COLOR_def mask_eq_exp_minus_1)
  then have "take_bit 22 ?w = ?w" by (simp add: take_bit_eq_mask)
  then have "unat ?w = take_bit 22 (unat ?w)" by (metis unsigned_take_bit_eq)
  also have "\<dots> < 2 ^ 22" by (rule take_bit_nat_less_exp)
  finally show "?w < 2 ^ 22" by (simp add: word_less_nat_alt)
qed

lemma set_entry_ok:
  assumes t: "index_taken s idx s1" and r: "r < length (gs_nodes s)" "GC_REF_ADDRESS (gs_nodes s ! r) = 0"
    and e: "GC_GET_PTR e = Some r" and color: "color AND GC_COLOR = color"
  obtains s' where "gc_set_entry idx e r color s1 = Inr s'" "entered s e r color s'"
proof -
  note d = roots_partD [OF t [unfolded index_taken_def, THEN conjunct1]]
  have idx: "idx \<in> in_use s1 {}" using d(6) by blast
  then have idx': "1 \<le> idx" "idx < gc_first_unused (gs_globals s1)" by (auto simp: in_use_def)
  have nodes: "gs_nodes s1 = gs_nodes s" and fr: "gc_frame s s1" and iu: "in_use s {} - {idx} = in_use s1 {idx}"
    and old: "\<forall>i \<in> in_use s {}. gc_slot s1 i = gc_slot s i" and free: "idx \<in> in_use s {} \<Longrightarrow> unused_at s idx"
    using t by (simp_all add: index_taken_def)
  define info :: "32 word" where "info = of_nat (gc_compress idx) OR color"
  have ia: "unat (info AND GC_ADDRESS) = gc_compress idx" "info AND GC_COLOR = color" "info < 2 ^ 22"
    using address_of_info [OF compress_bound color] info_bound [OF compress_bound color] by (simp_all add: info_def)
  then have ia0: "info AND GC_ADDRESS \<noteq> 0" using compress_pos [OF idx'(1)] by auto
  define ns where "ns = (gs_nodes s)[r := (gs_nodes s ! r)\<lparr>gn_info := info\<rparr>]"
  have ns: "length ns = length (gs_nodes s)" "ns ! r = (gs_nodes s ! r)\<lparr>gn_info := info\<rparr>"
      "q \<noteq> r \<Longrightarrow> ns ! q = gs_nodes s ! q" for q using r(1) by (simp_all add: ns_def)
  define s' where "s' = gc_upd (\<lambda>g. g\<lparr>gc_num_roots := gc_num_roots g + 1\<rparr>) ((buf_set idx e s1)\<lparr>gs_nodes := ns\<rparr>)"
  have lt: "idx < gc_buf_size (gs_globals s1)" using idx'(2) d(3) by linarith
  have run: "gc_set_entry idx e r color s1 = Inr s'"
    using buf_wr_ok [OF d(1) lt] r(1) by (simp add: gc_set_entry_def set_info_ok nodes s'_def ns_def info_def)
  have sel: "gs_nodes s' = ns" "gc_unused (gs_globals s') = gc_unused (gs_globals s1)"
    "gc_first_unused (gs_globals s') = gc_first_unused (gs_globals s1)" "gc_buf_size (gs_globals s') = gc_buf_size (gs_globals s1)"
    "gc_num_roots (gs_globals s') = gc_num_roots (gs_globals s1) + 1" "in_use s' Z = in_use s1 Z" "buf_ok s' = buf_ok s1" for Z
    using buf_set_simps(8) [of idx e s1] by (simp_all add: s'_def gc_upd_def in_use_def buf_ok_def)
  have "gc_frame s1 s'" using buf_set_simps(7) [of s1 idx e]
    by (simp add: s'_def gc_upd_def gc_frame_def rest_of_globals_def)
  then have fr': "gc_frame s s'" using gc_frame_trans [OF fr] by blast
  have sl: "gc_slot s' j = (if j = idx then Some e else gc_slot s1 j)" for j
    using slot_buf_set [OF d(1) lt, of e j] by (simp add: s'_def gc_upd_def gc_slot_def)
  have h: "j \<noteq> idx \<Longrightarrow> holds_at s' j q = holds_at s1 j q" "j \<noteq> idx \<Longrightarrow> unused_at s' j = unused_at s1 j"
      "holds_at s' idx q \<longleftrightarrow> q = r" "\<not> unused_at s' idx" for j q
    using e by (auto simp: holds_at_def unused_at_def sl GC_GET_PTR_def)
  have split: "in_use s1 {} = insert idx (in_use s1 {idx})" "idx \<notin> in_use s1 {idx}"
    using idx by (auto simp: in_use_def)
  have r_new: "\<not> holds_at s1 j r" if "j \<in> in_use s1 {idx}" for j
  proof
    assume "holds_at s1 j r"
    from held(2) [OF t [unfolded index_taken_def, THEN conjunct1] that this]
    show False using r(2) compress_pos [of j] that by (simp add: nodes in_use_def)
  qed
  obtain ys where ys: "free_chain s1 (gc_unused (gs_globals s1)) ys" "distinct ys" "set ys = {i \<in> in_use s1 {idx}. unused_at s1 i}"
    using d(7) by blast
  have ne: "i \<in> in_use s1 {idx} \<Longrightarrow> i \<noteq> idx" for i using split(2) by blast
  have kept: "gc_slot s' i = gc_slot s1 i" if "i \<in> set ys" for i using that ne ys(3) by (simp add: sl)
  have "free_chain s' (gc_unused (gs_globals s1)) ys"
    using ys(1) free_chain_cong [OF kept] by blast
  moreover have "set ys = {i \<in> in_use s1 {}. unused_at s' i}"
    unfolding ys(3) split(1) using h(2,4) ne by auto
  ultimately have fc: "\<exists>is. free_chain s' (gc_unused (gs_globals s1)) is \<and> distinct is \<and>
      set is = {i \<in> in_use s1 {}. unused_at s' i}" using ys(2) by blast
  have cards: "{i \<in> in_use s1 {}. \<exists>q. holds_at s' i q} = insert idx {i \<in> in_use s1 {idx}. \<exists>q. holds_at s1 i q}"
    unfolding split(1) using h(1,3) ne by auto
  have addr: "GC_REF_ADDRESS (ns ! r) = gc_compress idx" using ia by (simp add: GC_REF_ADDRESS_def ns(2))
  have "roots_ok s'"
    unfolding roots_part_def sel
  proof (intro conjI ballI allI impI)
    fix i assume i: "i \<in> in_use s1 {}"
    show "unused_at s' i \<or> (\<exists>q<length ns. holds_at s' i q \<and> GC_REF_ADDRESS (ns ! q) = gc_compress i)"
    proof (cases "i = idx")
      case True
      then show ?thesis using r(1) addr h(3) by (auto simp: ns)
    next
      case False
      then have i': "i \<in> in_use s1 {idx}" using i split by blast
      from d(8) [OF this] show ?thesis
      proof
        assume "\<exists>q<length (gs_nodes s1). holds_at s1 i q \<and> GC_REF_ADDRESS (gs_nodes s1 ! q) = gc_compress i"
        then obtain q where q: "q < length (gs_nodes s)" "holds_at s1 i q" "GC_REF_ADDRESS (gs_nodes s ! q) = gc_compress i"
          by (auto simp: nodes)
        have "q \<noteq> r" using q(2) r_new [OF i'] by blast
        then show ?thesis using q h(1) [OF False] by (auto simp: ns)
      qed (use h(2) [OF False] in simp)
    qed
  next
    fix i j q assume a: "i \<in> in_use s1 {}" "j \<in> in_use s1 {}" "holds_at s' i q" "holds_at s' j q"
    show "i = j"
    proof (cases "i = idx \<or> j = idx")
      case True
      then have "q = r" using a(3,4) h(3) by auto
      then show ?thesis using a h(1) r_new split(1) by (metis insertE)
    next
      case False
      then have "i \<in> in_use s1 {idx}" "j \<in> in_use s1 {idx}" using a(1,2) split by blast+
      then show ?thesis using d(9) a(3,4) False h(1) by blast
    qed
  next
    fix q assume "q < length ns"
    then show "gn_info (ns ! q) < 2 ^ 22" using d(10) [of q] ia(3) by (cases "q = r") (simp_all add: ns nodes)
  next
    fix q assume q: "q < length ns" "GC_REF_ADDRESS (ns ! q) \<noteq> 0"
    show "\<exists>i\<in>in_use s1 {}. holds_at s' i q"
    proof (cases "q = r")
      case True
      then show ?thesis using idx h(3) by blast
    next
      case False
      then obtain i where "i \<in> in_use s1 {idx}" "holds_at s1 i q" using d(11) [of q] q by (auto simp: ns nodes)
      then show ?thesis using h(1) ne split(1) by blast
    qed
  next
    show "gc_num_roots (gs_globals s1) + 1 = card {i \<in> in_use s1 {}. \<exists>q. holds_at s' i q}"
      unfolding cards using d(12) split(2) by simp
  qed (use d fc in simp_all)
  moreover have "buffered s' = insert e (buffered s)"
  proof -
    have u: "in_use s {} - {idx} \<subseteq> in_use s {}" by blast
    have "buffered s' = {x. \<exists>i \<in> insert idx (in_use s {} - {idx}). gc_slot s' i = Some x \<and> GC_GET_PTR x \<noteq> None}"
      unfolding buffered_def sel split(1) iu ..
    also have "\<dots> = insert e {x. \<exists>i \<in> in_use s {} - {idx}. gc_slot s i = Some x \<and> GC_GET_PTR x \<noteq> None}"
      using e old by (auto simp: sl)
    moreover have apart: "i \<noteq> idx" if "i \<in> in_use s {}" "gc_slot s i = Some x" "GC_GET_PTR x \<noteq> None" for i x
      using that free not_both [of s idx] by (auto simp: holds_at_def)
    ultimately have "buffered s' = insert e {x. \<exists>i \<in> in_use s {} - {idx}. gc_slot s i = Some x \<and> GC_GET_PTR x \<noteq> None}"
      by simp
    also have "{x. \<exists>i \<in> in_use s {} - {idx}. gc_slot s i = Some x \<and> GC_GET_PTR x \<noteq> None} = buffered s"
      unfolding buffered_def using apart by blast
    finally show ?thesis .
  qed
  moreover have "\<exists>info. gs_nodes s' = (gs_nodes s)[r := (gs_nodes s ! r)\<lparr>gn_info := info\<rparr>] \<and>
        info AND GC_COLOR = color \<and> info AND GC_ADDRESS \<noteq> 0"
    using ia(2) ia0 unfolding sel ns_def by blast
  moreover have "\<forall>i \<in> in_use s {}. \<not> unused_at s i \<longrightarrow> gc_slot s' i = gc_slot s i"
  proof (intro ballI impI)
    fix i assume i: "i \<in> in_use s {}" "\<not> unused_at s i"
    have "i \<noteq> idx" using i free by blast
    then show "gc_slot s' i = gc_slot s i" using old i(1) by (simp add: sl)
  qed
  ultimately have "entered s e r color s'"
    using fr' t by (simp add: entered_def sel sl index_taken_def)
  with run show thesis by (rule that)
qed

subsection \<open>Removing an entry\<close>

text \<open>The node of the removed entry is black and has no address any more.\<close>

definition left :: "gc_state \<Rightarrow> nat \<Rightarrow> nat \<Rightarrow> gc_state \<Rightarrow> bool" where
  "left s i r s' \<longleftrightarrow>
     roots_ok s' \<and> gc_frame s s' \<and> buffered s' = {e \<in> buffered s. GC_GET_PTR e \<noteq> Some r} \<and>
     gs_nodes s' = (gs_nodes s)[r := (gs_nodes s ! r)\<lparr>gn_info := 0\<rparr>] \<and>
     gc_num_roots (gs_globals s) = gc_num_roots (gs_globals s') + 1 \<and>
     gc_first_unused (gs_globals s') = gc_first_unused (gs_globals s) \<and>
     (\<forall>j. j \<noteq> i \<longrightarrow> gc_slot s' j = gc_slot s j) \<and> unused_at s' i"

lemma remove_from_roots_ok:
  assumes ok: "roots_ok s" and i: "i \<in> in_use s {}" "holds_at s i r"
  obtains s' where
    "gc_remove_from_roots i (s\<lparr>gs_nodes := (gs_nodes s)[r := (gs_nodes s ! r)\<lparr>gn_info := 0\<rparr>]\<rparr>) = Inr s'" "left s i r s'"
proof -
  note d = roots_partD [OF ok]
  have r: "r < length (gs_nodes s)" using held [OF ok i] by blast
  have i': "1 \<le> i" "i < gc_first_unused (gs_globals s)" using i(1) by (auto simp: in_use_def)
  have lt: "i < gc_buf_size (gs_globals s)" using i'(2) d(3) by linarith
  obtain ys where ys: "free_chain s (gc_unused (gs_globals s)) ys" "distinct ys" "set ys = {i \<in> in_use s {}. unused_at s i}"
    using d(7) by blast
  have "gc_unused (gs_globals s) < 2 ^ 29"
  proof (cases ys)
    case Nil
    then show ?thesis using ys(1) by (simp add: GC_INVALID_def)
  next
    case (Cons y zs)
    then have "gc_unused (gs_globals s) \<in> in_use s {}" using ys(1,3) by auto
    then show ?thesis using d(5) by (simp add: in_use_def)
  qed
  then obtain w where w: "GC_IDX2LIST (gc_unused (gs_globals s)) = GC_UNUSED w" "GC_LIST2IDX w = gc_unused (gs_globals s)"
    using list2idx_idx2list idx2list_unused by metis
  define ns where "ns = (gs_nodes s)[r := (gs_nodes s ! r)\<lparr>gn_info := 0\<rparr>]"
  have ns: "length ns = length (gs_nodes s)" "ns ! r = (gs_nodes s ! r)\<lparr>gn_info := 0\<rparr>"
      "q \<noteq> r \<Longrightarrow> ns ! q = gs_nodes s ! q" for q using r by (simp_all add: ns_def)
  define s0 where "s0 = s\<lparr>gs_nodes := ns\<rparr>"
  have s0: "buf_ok s0" "i < gc_buf_size (gs_globals s0)" using d(1) lt by (simp_all add: s0_def buf_ok_def)
  define s' where "s' = gc_upd (\<lambda>g. g\<lparr>gc_num_roots := gc_num_roots g - 1\<rparr>)
      (gc_upd (\<lambda>g. g\<lparr>gc_unused := i\<rparr>) (buf_set i (GC_UNUSED w) s0))"
  have run: "gc_remove_from_roots i s0 = Inr s'"
    using buf_wr_ok [OF s0] w(1) by (simp add: gc_remove_from_roots_def gc_link_unused_def s'_def s0_def)
  have sel: "gs_nodes s' = ns" "gc_unused (gs_globals s') = i"
    "gc_first_unused (gs_globals s') = gc_first_unused (gs_globals s)" "gc_buf_size (gs_globals s') = gc_buf_size (gs_globals s)"
    "gc_num_roots (gs_globals s') = gc_num_roots (gs_globals s) - 1" "in_use s' Z = in_use s Z" for Z
    by (simp_all add: s'_def s0_def gc_upd_def in_use_def)
  have bo: "buf_ok s'" using buf_set_simps(8) [of i "GC_UNUSED w" s0] s0(1) by (simp add: s'_def gc_upd_def buf_ok_def)
  have fr: "gc_frame s s'" using buf_set_simps(7) [of s0 i "GC_UNUSED w"]
    by (simp add: s'_def s0_def gc_upd_def gc_frame_def rest_of_globals_def)
  have sl: "gc_slot s' j = (if j = i then Some (GC_UNUSED w) else gc_slot s j)" for j
    using slot_buf_set [OF s0, of "GC_UNUSED w" j] by (simp add: s'_def s0_def gc_upd_def gc_slot_def)
  have h: "j \<noteq> i \<Longrightarrow> holds_at s' j q = holds_at s j q" "j \<noteq> i \<Longrightarrow> unused_at s' j = unused_at s j"
      "\<not> holds_at s' i q" "unused_at s' i" for j q
    by (auto simp: holds_at_def unused_at_def sl GC_GET_PTR_def)
  have only: "j = i" if "j \<in> in_use s {}" "holds_at s j r" for j using d(9) [OF that(1) i(1) that(2) i(2)] .
  have nf: "i \<notin> set ys" using ys(3) not_both i(2) by blast
  have kept: "gc_slot s' j = gc_slot s j" if "j \<in> set ys" for j using that nf by (auto simp: sl)
  have "free_chain s' i (i # ys)"
    using ys(1) free_chain_cong [OF kept] w(2) i'(1) by (simp add: sl GC_INVALID_def)
  moreover have "set (i # ys) = {j \<in> in_use s {}. unused_at s' j}"
  proof -
    have "unused_at s' j \<longleftrightarrow> j = i \<or> unused_at s j" for j using h(2,4) by (cases "j = i") auto
    then show ?thesis using ys(3) i(1) by auto
  qed
  ultimately have fc: "\<exists>is. free_chain s' i is \<and> distinct is \<and> set is = {j \<in> in_use s {}. unused_at s' j}"
    using ys(2) nf by (intro exI [of _ "i # ys"]) simp
  have cards: "{j \<in> in_use s {}. \<exists>q. holds_at s' j q} = {j \<in> in_use s {}. \<exists>q. holds_at s j q} - {i}"
  proof -
    have "holds_at s' j q \<longleftrightarrow> j \<noteq> i \<and> holds_at s j q" for j q using h(1,3) by (cases "j = i") auto
    then show ?thesis by auto
  qed
  have mem: "i \<in> {j \<in> in_use s {}. \<exists>q. holds_at s j q}" using i by blast
  have fin: "finite {j \<in> in_use s {}. \<exists>q. holds_at s j q}" by simp
  have "0 < gc_num_roots (gs_globals s)" using d(12) mem fin by (metis card_gt_0_iff empty_iff)
  have "roots_ok s'"
    unfolding roots_part_def sel
  proof (intro conjI ballI allI impI)
    fix j assume j: "j \<in> in_use s {}"
    show "unused_at s' j \<or> (\<exists>q<length ns. holds_at s' j q \<and> GC_REF_ADDRESS (ns ! q) = gc_compress j)"
    proof (cases "j = i")
      case False
      from d(8) [OF j] show ?thesis
      proof
        assume "\<exists>q<length (gs_nodes s). holds_at s j q \<and> GC_REF_ADDRESS (gs_nodes s ! q) = gc_compress j"
        then obtain q where q: "q < length (gs_nodes s)" "holds_at s j q" "GC_REF_ADDRESS (gs_nodes s ! q) = gc_compress j"
          by blast
        have "q \<noteq> r" using q(2) only [OF j] False by blast
        then show ?thesis using q h(1) [OF False] by (auto simp: ns)
      qed (use h(2) [OF False] in simp)
    qed (use h in simp)
  next
    fix j k q assume a: "j \<in> in_use s {}" "k \<in> in_use s {}" "holds_at s' j q" "holds_at s' k q"
    then have "j \<noteq> i" "k \<noteq> i" using h(3) by blast+
    then show "j = k" using d(9) [OF a(1,2)] a(3,4) h(1) by blast
  next
    fix q assume "q < length ns"
    then show "gn_info (ns ! q) < 2 ^ 22" using d(10) [of q] by (cases "q = r") (simp_all add: ns)
  next
    fix q assume q: "q < length ns" "GC_REF_ADDRESS (ns ! q) \<noteq> 0"
    have "q \<noteq> r" using q(2) by (auto simp: ns GC_REF_ADDRESS_def)
    then obtain j where j: "j \<in> in_use s {}" "holds_at s j q" using d(11) [of q] q by (auto simp: ns)
    then have "j \<noteq> i" using i(2) \<open>q \<noteq> r\<close> by (auto simp: holds_at_def)
    then show "\<exists>j\<in>in_use s {}. holds_at s' j q" using j h(1) by blast
  next
    show "gc_num_roots (gs_globals s) - 1 = card {j \<in> in_use s {}. \<exists>q. holds_at s' j q}"
      unfolding cards d(12) using mem fin by simp
  qed (use d bo fc in simp_all)
  moreover have "buffered s' = {e \<in> buffered s. GC_GET_PTR e \<noteq> Some r}"
  proof (rule set_eqI)
    fix x
    show "x \<in> buffered s' \<longleftrightarrow> x \<in> {e \<in> buffered s. GC_GET_PTR e \<noteq> Some r}"
    proof
      assume "x \<in> buffered s'"
      then obtain j where j: "j \<in> in_use s {}" "gc_slot s' j = Some x" "GC_GET_PTR x \<noteq> None" by (auto simp: buffered_def sel)
      then have "j \<noteq> i" by (auto simp: sl GC_GET_PTR_def)
      then show "x \<in> {e \<in> buffered s. GC_GET_PTR e \<noteq> Some r}"
        using j only [OF j(1)] by (auto simp: buffered_def sl holds_at_def)
    next
      assume "x \<in> {e \<in> buffered s. GC_GET_PTR e \<noteq> Some r}"
      then obtain j where j: "j \<in> in_use s {}" "gc_slot s j = Some x" "GC_GET_PTR x \<noteq> None" "GC_GET_PTR x \<noteq> Some r"
        by (auto simp: buffered_def)
      then have "j \<noteq> i" using i(2) by (auto simp: holds_at_def)
      then show "x \<in> buffered s'" using j by (auto simp: buffered_def sel sl)
    qed
  qed
  ultimately have "left s i r s'"
    using fr h(4) \<open>0 < gc_num_roots (gs_globals s)\<close> by (simp add: left_def sel sl ns_def)
  with run show thesis using that by (simp add: s0_def ns_def)
qed

lemma remove_from_buffer_ok:
  assumes ok: "roots_ok s" and r: "r < length (gs_nodes s)" "GC_REF_ADDRESS (gs_nodes s ! r) \<noteq> 0"
  obtains s' i where "gc_remove_from_buffer r s = Inr s'" "i \<in> in_use s {}" "holds_at s i r" "left s i r s'"
proof -
  note d = roots_partD [OF ok]
  obtain i where i: "i \<in> in_use s {}" "holds_at s i r" using d(11) [OF r] by blast
  have a: "GC_REF_ADDRESS (gs_nodes s ! r) = gc_compress i" by (rule held(2) [OF ok i])
  have i': "1 \<le> i" "i < gc_first_unused (gs_globals s)" using i(1) by (auto simp: in_use_def)
  let ?s = "s\<lparr>gs_nodes := (gs_nodes s)[r := (gs_nodes s ! r)\<lparr>gn_info := 0\<rparr>]\<rparr>"
  obtain s' where s': "gc_remove_from_roots i ?s = Inr s'" "left s i r s'" using remove_from_roots_ok [OF ok i] by blast
  have sl: "gc_slot ?s = gc_slot s" by (simp add: gc_slot_def fun_eq_iff)
  have dec: "gc_decompress ?s r (gc_compress i) = Inr i"
  proof (rule decompress_ok)
    show "holds_at ?s i r" using i(2) by (simp add: holds_at_def sl)
    fix j assume j: "1 \<le> j" "j < i"
    then have j': "j \<in> in_use s {}" using i'(2) by (simp add: in_use_def)
    have "\<not> holds_at s j r" using d(9) [OF j' i(1) _ i(2)] j(2) by blast
    moreover have "gc_slot s j \<noteq> None" using d(8) [OF j'] by (auto simp: unused_at_def holds_at_def)
    ultimately show "\<exists>e. gc_slot ?s j = Some e \<and> GC_GET_PTR e \<noteq> Some r" by (auto simp: holds_at_def sl)
  qed (use i' in simp_all)
  have "gc_remove_from_buffer r s = Inr s'"
  proof (cases "GC_MAX_UNCOMPRESSED \<le> gc_first_unused (gs_globals s)")
    case True
    then show ?thesis using r(1) a s'(1) dec
      by (simp add: gc_remove_from_buffer_def gc_node_at_def set_info_ok Let_def gc_remove_compressed_def)
  next
    case False
    then have "gc_compress i = i" using i'(2) by (simp add: gc_compress_def)
    then show ?thesis using r(1) a s'(1) False i'(1)
      by (simp add: gc_remove_from_buffer_def gc_node_at_def set_info_ok Let_def)
  qed
  then show thesis using that i s'(2) by blast
qed

end
