(* ===== verification/GcCompact.thy ===== *)
theory GcCompact
  imports GcRootsSpec
begin

text \<open>
  The compaction of the root buffer, two fingers moving towards each other: it ends, stays
  inside the buffer and leaves the same entries without gaps.
\<close>

unbundle bit_operations_syntax

subsection \<open>The two fingers\<close>

lemma unused_above_ok:
  assumes "unused_at s j" "j < gc_buf_size (gs_globals s)"
  shows "f \<le> j \<Longrightarrow> (\<And>i. f \<le> i \<Longrightarrow> i < j \<Longrightarrow> \<exists>r. holds_at s i r) \<Longrightarrow> gc_unused_above s f = Inr j"
proof (induction "j - f" arbitrary: f)
  case 0
  then show ?case using assms
    by (auto simp: gc_unused_above.simps [of s f] unused_at_def GC_IS_UNUSED_def)
next
  case (Suc n)
  then have "f < j" "n = j - Suc f" by simp_all
  obtain e r where e: "gc_slot s f = Some e" "GC_GET_PTR e = Some r"
    using Suc.prems(2) [of f] \<open>f < j\<close> by (auto simp: holds_at_def)
  then have "\<not> GC_IS_UNUSED e" by (auto simp: GC_IS_UNUSED_def GC_GET_PTR_def split: gc_entry.splits)
  moreover have "gc_unused_above s (Suc f) = Inr j"
    using Suc.hyps(1) [OF \<open>n = j - Suc f\<close>] Suc.prems(2) \<open>f < j\<close> by simp
  ultimately show ?case using e(1) \<open>f < j\<close> assms(2) by (simp add: gc_unused_above.simps [of s f])
qed

lemma held_not_unused: "holds_at s j r \<Longrightarrow> \<exists>e. gc_slot s j = Some e \<and> \<not> GC_IS_UNUSED e"
proof -
  have "\<not> GC_IS_UNUSED e" if "GC_GET_PTR e = Some r" for e
    using that by (cases e) (simp_all add: GC_IS_UNUSED_def GC_GET_PTR_def)
  then show "holds_at s j r \<Longrightarrow> \<exists>e. gc_slot s j = Some e \<and> \<not> GC_IS_UNUSED e" unfolding holds_at_def by blast
qed

lemma used_below_ok:
  assumes "holds_at s j r"
  shows "j \<le> c \<Longrightarrow> (\<And>i. j < i \<Longrightarrow> i \<le> c \<Longrightarrow> unused_at s i) \<Longrightarrow> gc_used_below s c = Inr j"
proof (induction c)
  case 0
  then show ?case using held_not_unused [OF assms] by auto
next
  case (Suc c)
  show ?case
  proof (cases "j = Suc c")
    case True
    then show ?thesis using held_not_unused [OF assms] by auto
  next
    case False
    then have "unused_at s (Suc c)" "gc_used_below s c = Inr j" using Suc by simp_all
    then show ?thesis by (auto simp: unused_at_def GC_IS_UNUSED_def)
  qed
qed

subsection \<open>The loop\<close>

text \<open>Only the addresses of nodes change.\<close>

definition readdressed :: "gc_state \<Rightarrow> gc_state \<Rightarrow> bool" where
  "readdressed s s' \<longleftrightarrow>
     length (gs_nodes s') = length (gs_nodes s) \<and>
     (\<forall>r < length (gs_nodes s).
        gs_nodes s' ! r = (gs_nodes s ! r)\<lparr>gn_info := gn_info (gs_nodes s' ! r)\<rparr> \<and>
        GC_REF_COLOR (gs_nodes s' ! r) = GC_REF_COLOR (gs_nodes s ! r))"

lemma readdressed_refl [simp]: "readdressed s s"
  by (simp add: readdressed_def)

lemma readdressed_trans: "readdressed s t \<Longrightarrow> readdressed t u \<Longrightarrow> readdressed s u"
  unfolding readdressed_def by (auto, metis gc_node.surjective gc_node.update_convs(2))

text \<open>The entries up to \<open>c\<close>, the finger from above; \<open>E\<close> are the entries of the buffer.\<close>

definition used :: "gc_state \<Rightarrow> nat \<Rightarrow> nat set" where
  "used s c = {i \<in> {1..c}. \<exists>r. holds_at s i r}"

definition fingers :: "gc_entry set \<Rightarrow> nat \<Rightarrow> nat \<Rightarrow> nat \<Rightarrow> gc_state \<Rightarrow> bool" where
  "fingers E m f c s \<longleftrightarrow>
     buf_ok s \<and> c < gc_buf_size (gs_globals s) \<and> 1 \<le> f \<and> (\<forall>i \<in> {1..<f}. \<exists>r. holds_at s i r) \<and>
     (\<forall>i \<in> {1..c}. unused_at s i \<or>
        (\<exists>r < length (gs_nodes s). holds_at s i r \<and> GC_REF_ADDRESS (gs_nodes s ! r) = gc_compress i)) \<and>
     (\<forall>i \<in> {1..c}. \<forall>j \<in> {1..c}. \<forall>r. holds_at s i r \<longrightarrow> holds_at s j r \<longrightarrow> i = j) \<and>
     (\<forall>r < length (gs_nodes s). gn_info (gs_nodes s ! r) < 2 ^ 22) \<and>
     (\<forall>r < length (gs_nodes s). GC_REF_ADDRESS (gs_nodes s ! r) \<noteq> 0 \<longrightarrow> (\<exists>i \<in> {1..c}. holds_at s i r)) \<and>
     card (used s c) = m \<and> {e. \<exists>i \<in> used s c. gc_slot s i = Some e} = E"

lemma fingersD:
  assumes "fingers E m f c s"
  shows "buf_ok s" "c < gc_buf_size (gs_globals s)" "1 \<le> f" "\<And>i. 1 \<le> i \<Longrightarrow> i < f \<Longrightarrow> \<exists>r. holds_at s i r"
    "\<And>i. 1 \<le> i \<Longrightarrow> i \<le> c \<Longrightarrow> unused_at s i \<or>
        (\<exists>r < length (gs_nodes s). holds_at s i r \<and> GC_REF_ADDRESS (gs_nodes s ! r) = gc_compress i)"
    "\<And>i j r. 1 \<le> i \<Longrightarrow> i \<le> c \<Longrightarrow> 1 \<le> j \<Longrightarrow> j \<le> c \<Longrightarrow> holds_at s i r \<Longrightarrow> holds_at s j r \<Longrightarrow> i = j"
    "\<And>r. r < length (gs_nodes s) \<Longrightarrow> gn_info (gs_nodes s ! r) < 2 ^ 22"
    "\<And>r. r < length (gs_nodes s) \<Longrightarrow> GC_REF_ADDRESS (gs_nodes s ! r) \<noteq> 0 \<Longrightarrow> \<exists>i \<in> {1..c}. holds_at s i r"
    "card (used s c) = m" "{e. \<exists>i \<in> used s c. gc_slot s i = Some e} = E"
  using assms unfolding fingers_def Ball_def atLeastAtMost_iff atLeastLessThan_iff by blast+

text \<open>When the fingers meet, or the upper one has come down to the number of entries.\<close>

lemma fingers_met:
  assumes f: "fingers E m f c s" and met: "c \<le> f \<or> c \<le> m"
  shows "used s c = {1..m}" "m \<le> c"
proof -
  note d = fingersD [OF f]
  have sub: "used s c \<subseteq> {1..c}" by (auto simp: used_def)
  have "card (used s c) \<le> card {1..c}" using sub by (intro card_mono) auto
  then show le: "m \<le> c" using d(9) by simp
  show "used s c = {1..m}"
  proof (cases "c \<le> m")
    case True
    then have "card {1..c} \<le> card (used s c)" using d(9) by simp
    then have "used s c = {1..c}" using sub by (intro card_seteq) auto
    then show ?thesis using True le by simp
  next
    case False
    then have "c \<le> f" using met by blast
    then have below: "{1..c - 1} \<subseteq> used s c" using d(4) by (auto simp: used_def)
    then have "card {1..c - 1} \<le> card (used s c)" using sub by (intro card_mono) (auto intro: finite_subset)
    then have m: "m = c - 1" using False d(9) le by simp
    have "card (used s c) \<le> card {1..c - 1}" using m d(9) by simp
    then have "{1..c - 1} = used s c" using below sub by (intro card_seteq) (auto intro: finite_subset)
    then show ?thesis using m by simp
  qed
qed

lemma fingers_shrink:
  assumes f: "fingers E m f c s" and j: "j \<le> c" "\<And>i. j < i \<Longrightarrow> i \<le> c \<Longrightarrow> unused_at s i"
    and k: "f \<le> k" "\<And>i. f \<le> i \<Longrightarrow> i < k \<Longrightarrow> \<exists>r. holds_at s i r"
  shows "fingers E m k j s" "used s j = used s c"
proof -
  note d = fingersD [OF f]
  have nh: "i \<le> j" if "i \<le> c" "holds_at s i r" for i r
    using j(2) [of i] that not_both [of s i r] by (meson leI)
  show u: "used s j = used s c" using nh j(1) by (auto simp: used_def)
  show "fingers E m k j s"
    unfolding fingers_def u
  proof (intro conjI ballI allI impI)
    fix i assume "i \<in> {1..<k}"
    then show "\<exists>r. holds_at s i r" using d(4) [of i] k(2) [of i] by (cases "i < f") auto
  next
    fix r assume "r < length (gs_nodes s)" "GC_REF_ADDRESS (gs_nodes s ! r) \<noteq> 0"
    from d(8) [OF this] nh show "\<exists>i\<in>{1..j}. holds_at s i r" by auto
  next
    fix i assume "i \<in> {1..j}"
    then show "unused_at s i \<or> (\<exists>r<length (gs_nodes s). holds_at s i r \<and> GC_REF_ADDRESS (gs_nodes s ! r) = gc_compress i)"
      using d(5) [of i] j(1) by simp
  next
    fix i l r assume "i \<in> {1..j}" "l \<in> {1..j}" "holds_at s i r" "holds_at s l r"
    then show "i = l" using d(6) [of i l r] j(1) by simp
  qed (use d j(1) k(1) in auto)
qed

text \<open>One move of an entry.\<close>

lemma move_entry_ok:
  assumes f: "fingers E m f c s" and fc: "f < c" and u: "unused_at s f" and h: "holds_at s c r"
  obtains s' where "move_entry f c s = Inr s'" "fingers E m (f + 1) (c - 1) s'" "readdressed s s'" "gc_frame s s'"
    "gc_first_unused (gs_globals s') = gc_first_unused (gs_globals s)"
    "gc_num_roots (gs_globals s') = gc_num_roots (gs_globals s)" "gc_buf_size (gs_globals s') = gc_buf_size (gs_globals s)"
proof -
  note d = fingersD [OF f]
  have f1: "1 \<le> f" "1 \<le> c" using d(3) fc by auto
  obtain e where e: "gc_slot s c = Some e" "GC_GET_PTR e = Some r" using h by (auto simp: holds_at_def)
  have r: "r < length (gs_nodes s)"
    using d(5) [OF f1(2) order_refl] not_both [of s c r] h by (auto simp: holds_at_def)
  define info where "info = of_nat (gc_compress f) OR GC_REF_COLOR (gs_nodes s ! r)"
  have idem: "GC_REF_COLOR (gs_nodes s ! r) AND GC_COLOR = GC_REF_COLOR (gs_nodes s ! r)"
    by (simp add: GC_REF_COLOR_def and.assoc)
  have info: "unat (info AND GC_ADDRESS) = gc_compress f" "info AND GC_COLOR = GC_REF_COLOR (gs_nodes s ! r)" "info < 2 ^ 22"
    using address_of_info [OF compress_bound idem] info_bound [OF compress_bound idem] by (simp_all add: info_def)
  define ns where "ns = (gs_nodes s)[r := (gs_nodes s ! r)\<lparr>gn_info := info\<rparr>]"
  have ns: "length ns = length (gs_nodes s)" "ns ! r = (gs_nodes s ! r)\<lparr>gn_info := info\<rparr>"
      "q \<noteq> r \<Longrightarrow> ns ! q = gs_nodes s ! q" for q using r by (simp_all add: ns_def)
  define s' where "s' = (buf_set f e s)\<lparr>gs_nodes := ns\<rparr>"
  have lt: "f < gc_buf_size (gs_globals s)" using d(2) fc by linarith
  have run: "move_entry f c s = Inr s'"
    using e buf_wr_ok [OF d(1) lt] r by (simp add: move_entry_def gc_node_at_def set_info_ok s'_def ns_def info_def)
  have sel: "gs_nodes s' = ns" "gc_first_unused (gs_globals s') = gc_first_unused (gs_globals s)"
    "gc_num_roots (gs_globals s') = gc_num_roots (gs_globals s)" "gc_buf_size (gs_globals s') = gc_buf_size (gs_globals s)"
    by (simp_all add: s'_def)
  have bo: "buf_ok s'" using buf_set_simps(8) [of f e s] d(1) by (simp add: s'_def buf_ok_def)
  have fr: "gc_frame s s'" using buf_set_simps(7) [of s f e] by (simp add: s'_def gc_frame_def)
  have ra: "readdressed s s'"
    unfolding readdressed_def sel
  proof (intro conjI allI impI)
    fix q assume "q < length (gs_nodes s)"
    show "ns ! q = (gs_nodes s ! q)\<lparr>gn_info := gn_info (ns ! q)\<rparr>" by (cases "q = r") (simp_all add: ns)
    show "GC_REF_COLOR (ns ! q) = GC_REF_COLOR (gs_nodes s ! q)"
      using info(2) by (cases "q = r") (simp_all add: ns GC_REF_COLOR_def)
  qed (simp add: ns)
  have sl: "gc_slot s' j = (if j = f then Some e else gc_slot s j)" for j
    using slot_buf_set [OF d(1) lt, of e j] by (simp add: s'_def gc_slot_def)
  have h': "j \<noteq> f \<Longrightarrow> holds_at s' j q = holds_at s j q" "j \<noteq> f \<Longrightarrow> unused_at s' j = unused_at s j"
      "holds_at s' f q \<longleftrightarrow> q = r" for j q
    using e(2) by (auto simp: holds_at_def unused_at_def sl)
  have only: "j = c" if "1 \<le> j" "j \<le> c" "holds_at s j r" for j using d(6) [OF that(1,2) f1(2) order_refl that(3) h] .
  have nf: "\<not> holds_at s f q" for q using not_both [OF u] by blast
  have used: "used s' (c - 1) = insert f (used s c - {c})" "f \<notin> used s c" "c \<in> used s c"
  proof -
    have "(\<exists>q. holds_at s' j q) \<longleftrightarrow> j = f \<or> (\<exists>q. holds_at s j q)" for j using h'(1,3) by (cases "j = f") auto
    then show "used s' (c - 1) = insert f (used s c - {c})" using fc f1 by (auto simp: used_def)
  qed (use nf h f1 in \<open>auto simp: used_def\<close>)
  have fin: "finite (used s c)" by (simp add: used_def)
  have addr: "GC_REF_ADDRESS (ns ! r) = gc_compress f" using info by (simp add: GC_REF_ADDRESS_def ns(2))
  have "fingers E m (f + 1) (c - 1) s'"
    unfolding fingers_def sel
  proof (intro conjI ballI allI impI)
    fix i assume "i \<in> {1..<f + 1}"
    then show "\<exists>r. holds_at s' i r" using d(4) [of i] h' by (cases "i = f") auto
  next
    fix i assume i: "i \<in> {1..c - 1}"
    show "unused_at s' i \<or> (\<exists>q<length ns. holds_at s' i q \<and> GC_REF_ADDRESS (ns ! q) = gc_compress i)"
    proof (cases "i = f")
      case True
      then show ?thesis using r addr h'(3) by (auto simp: ns)
    next
      case False
      have ic: "1 \<le> i" "i \<le> c" "i \<noteq> c" using i fc by auto
      from d(5) [OF ic(1,2)] show ?thesis
      proof
        assume "\<exists>q<length (gs_nodes s). holds_at s i q \<and> GC_REF_ADDRESS (gs_nodes s ! q) = gc_compress i"
        then obtain q where q: "q < length (gs_nodes s)" "holds_at s i q" "GC_REF_ADDRESS (gs_nodes s ! q) = gc_compress i" by blast
        have "q \<noteq> r" using only [OF ic(1,2)] q(2) ic(3) by blast
        then show ?thesis using q h'(1) [OF False] by (auto simp: ns)
      qed (use h'(2) [OF False] in simp)
    qed
  next
    fix i j q assume a: "i \<in> {1..c - 1}" "j \<in> {1..c - 1}" "holds_at s' i q" "holds_at s' j q"
    have b: "1 \<le> i" "i \<le> c" "i \<noteq> c" "1 \<le> j" "j \<le> c" "j \<noteq> c" using a(1,2) fc by auto
    show "i = j"
    proof (cases "i = f \<or> j = f")
      case True
      then have "q = r" using a(3,4) h'(3) by auto
      then show ?thesis using a(3,4) only [of i] only [of j] b h'(1) by metis
    next
      case False
      then show ?thesis using d(6) [OF b(1,2,4,5)] a(3,4) h'(1) by blast
    qed
  next
    fix q assume "q < length ns"
    then show "gn_info (ns ! q) < 2 ^ 22" using d(7) [of q] info(3) by (cases "q = r") (simp_all add: ns)
  next
    fix q assume q: "q < length ns" "GC_REF_ADDRESS (ns ! q) \<noteq> 0"
    show "\<exists>i\<in>{1..c - 1}. holds_at s' i q"
    proof (cases "q = r")
      case True
      then show ?thesis using h'(3) f1 fc by (intro bexI [of _ f]) auto
    next
      case False
      then obtain i where i: "i \<in> {1..c}" "holds_at s i q" using d(8) [of q] q by (auto simp: ns)
      have "i \<noteq> c" using i(2) h False by (auto simp: holds_at_def)
      moreover have "i \<noteq> f" using i(2) nf by blast
      ultimately show ?thesis using i h'(1) by (intro bexI [of _ i]) auto
    qed
  next
    have "card (insert f (used s c - {c})) = card (used s c)" using used(2) fin card_Suc_Diff1 [OF fin used(3)] by simp
    then show "card (used s' (c - 1)) = m" using d(9) used(1) by simp
    show "{e. \<exists>i \<in> used s' (c - 1). gc_slot s' i = Some e} = E"
      unfolding used(1) d(10) [symmetric] using used(2,3) e(1) fc by (auto simp: sl)
  qed (use bo d(2) in auto)
  with run ra fr sel show thesis using that by blast
qed

lemma compact_loop_ok:
  assumes "fingers E m f c s" "1 \<le> m" "1 \<le> fuel" "c + 1 \<le> fuel + f" "f < c \<Longrightarrow> m < c"
  shows "\<exists>s' k. gc_compact_loop fuel f c m s = Inr s' \<and> readdressed s s' \<and> gc_frame s s' \<and>
    fingers E m (m + 1) k s' \<and> used s' k = {1..m} \<and> m \<le> k \<and>
    gc_first_unused (gs_globals s') = gc_first_unused (gs_globals s) \<and>
    gc_num_roots (gs_globals s') = gc_num_roots (gs_globals s) \<and> gc_buf_size (gs_globals s') = gc_buf_size (gs_globals s)"
  using assms
proof (induction fuel arbitrary: f c s)
  case (Suc fuel)
  note d = fingersD [OF Suc.prems(1)]
  have finish: "fingers E m (m + 1) k t" if "fingers E m j k t" "used t k = {1..m}" for j k t
  proof -
    have "\<forall>i \<in> {1..<m + 1}. \<exists>r. holds_at t i r" using that(2) by (auto simp: used_def)
    then show ?thesis using that(1) unfolding fingers_def by (intro conjI) (blast | simp)+
  qed
  show ?case
  proof (cases "f < c")
    case False
    then have "used s c = {1..m}" "m \<le> c" using fingers_met [OF Suc.prems(1)] by auto
    then show ?thesis using False finish [OF Suc.prems(1)]
      by (intro exI [of _ s] exI [of _ c]) simp
  next
    case True
    then have mc: "m < c" using Suc.prems(5) by blast
    have uc: "used s c \<subseteq> {1..c}" by (auto simp: used_def)
    have "used s c \<noteq> {1..c}" using d(9) mc by auto
    then obtain i0 where "i0 \<in> {1..c}" "i0 \<notin> used s c" using uc by blast
    then have i0: "1 \<le> i0" "i0 \<le> c" "\<not> (\<exists>r. holds_at s i0 r)" by (auto simp: used_def)
    define j where "j = (LEAST i. f \<le> i \<and> \<not> (\<exists>r. holds_at s i r))"
    have "f \<le> i0" using d(4) [of i0] i0 by (meson not_le)
    then have j: "f \<le> j" "\<not> (\<exists>r. holds_at s j r)" "j \<le> i0"
      using LeastI [of "\<lambda>i. f \<le> i \<and> \<not> (\<exists>r. holds_at s i r)" i0] Least_le [of "\<lambda>i. f \<le> i \<and> \<not> (\<exists>r. holds_at s i r)" i0] i0(3)
      by (simp_all add: j_def)
    have jb: "\<And>i. f \<le> i \<Longrightarrow> i < j \<Longrightarrow> \<exists>r. holds_at s i r" using not_less_Least unfolding j_def by blast
    have j1: "1 \<le> j" "j \<le> c" using j d(3) i0(2) by auto
    have ju: "unused_at s j" using d(5) [OF j1] j(2) by blast
    have up: "gc_unused_above s f = Inr j" using j1(2) d(2) j(1) jb by (intro unused_above_ok [OF ju]) auto
    have "used s c \<noteq> {}" using d(9) Suc.prems(2) by auto
    moreover have fu: "finite (used s c)" by (simp add: used_def)
    ultimately have k: "Max (used s c) \<in> used s c" by (rule Max_in [rotated])
    define k where "k = Max (used s c)"
    obtain r where kr: "1 \<le> k" "k \<le> c" "holds_at s k r" using k by (auto simp: used_def k_def)
    have ku: "unused_at s i" if "k < i" "i \<le> c" for i
    proof -
      have "i \<notin> used s c" using that(1) Max_ge [OF fu, of i] by (auto simp: k_def)
      then show ?thesis using d(5) [of i] that kr(1) by (auto simp: used_def)
    qed
    have down: "gc_used_below s c = Inr k" by (rule used_below_ok [OF kr(3,2) ku])
    have sh: "fingers E m j k s" "used s k = used s c" by (rule fingers_shrink [OF Suc.prems(1) kr(2) ku j(1) jb]; assumption)+
    show ?thesis
    proof (cases "j < k")
      case False
      have "1 \<le> fuel" "k + 1 \<le> fuel + j" using Suc.prems(4) True kr(2) j(1) False by linarith+
      then show ?thesis using Suc.IH [OF sh(1) Suc.prems(2)] False True up down by simp
    next
      case lt: True
      obtain s1 where s1: "move_entry j k s = Inr s1" "fingers E m (j + 1) (k - 1) s1" "readdressed s s1" "gc_frame s s1"
        "gc_first_unused (gs_globals s1) = gc_first_unused (gs_globals s)"
        "gc_num_roots (gs_globals s1) = gc_num_roots (gs_globals s)" "gc_buf_size (gs_globals s1) = gc_buf_size (gs_globals s)"
        using move_entry_ok [OF sh(1) lt ju kr(3)] by blast
      show ?thesis
      proof (cases "k - 1 \<le> m")
        case stop: True
        then have "used s1 (k - 1) = {1..m}" "m \<le> k - 1" using fingers_met [OF s1(2)] by auto
        then show ?thesis using True lt up down s1 stop finish [OF s1(2)]
          by (intro exI [of _ s1] exI [of _ "k - 1"]) simp
      next
        case False
        have "1 \<le> fuel" "k - 1 + 1 \<le> fuel + (j + 1)" using Suc.prems(4) True kr(2) j(1) lt by linarith+
        then obtain s2 l where s2: "gc_compact_loop fuel (j + 1) (k - 1) m s1 = Inr s2" "readdressed s1 s2" "gc_frame s1 s2"
          "fingers E m (m + 1) l s2" "used s2 l = {1..m}" "m \<le> l"
          "gc_first_unused (gs_globals s2) = gc_first_unused (gs_globals s1)"
          "gc_num_roots (gs_globals s2) = gc_num_roots (gs_globals s1)" "gc_buf_size (gs_globals s2) = gc_buf_size (gs_globals s1)"
          using Suc.IH [OF s1(2) Suc.prems(2)] False by force
        then show ?thesis using True lt up down s1 False readdressed_trans [OF s1(3) s2(2)] gc_frame_trans [OF s1(4) s2(3)]
          by (intro exI [of _ s2] exI [of _ l]) simp
      qed
    qed
  qed
qed simp

subsection \<open>\<open>gc_compact\<close>\<close>

lemma used_all: "used s (gc_first_unused (gs_globals s) - 1) = {i \<in> in_use s {}. \<exists>r. holds_at s i r}"
  by (auto simp: used_def in_use_def)

lemma used_entries:
  "{e. \<exists>i \<in> {i \<in> in_use s {}. \<exists>r. holds_at s i r}. gc_slot s i = Some e} = buffered s"
  by (auto simp: buffered_def holds_at_def)

lemma roots_fingers:
  assumes ok: "roots_ok s"
  shows "fingers (buffered s) (gc_num_roots (gs_globals s)) 1 (gc_first_unused (gs_globals s) - 1) s"
proof -
  note d = roots_partD [OF ok]
  have r: "{1..gc_first_unused (gs_globals s) - 1} = in_use s {}" using d(2) by (auto simp: in_use_def)
  show ?thesis
    unfolding fingers_def used_all used_entries r
  proof (intro conjI ballI allI impI)
    show "gc_first_unused (gs_globals s) - 1 < gc_buf_size (gs_globals s)" using d(2,3) by linarith
    show "\<And>i. i \<in> {1..<1::nat} \<Longrightarrow> \<exists>r. holds_at s i r" by simp
  qed (use d in auto)
qed

text \<open>The buffer without gaps.\<close>

definition compacted :: "gc_state \<Rightarrow> gc_state \<Rightarrow> bool" where
  "compacted s s' \<longleftrightarrow>
     roots_ok s' \<and> readdressed s s' \<and> gc_frame s s' \<and> buffered s' = buffered s \<and>
     gc_num_roots (gs_globals s') = gc_num_roots (gs_globals s) \<and>
     gc_first_unused (gs_globals s') = gc_num_roots (gs_globals s) + 1 \<and> gc_unused (gs_globals s') = GC_INVALID \<and>
     (\<forall>i \<in> in_use s' {}. \<exists>r. holds_at s' i r)"

lemma no_gaps:
  assumes ok: "roots_ok s" and n: "gc_num_roots (gs_globals s) + 1 = gc_first_unused (gs_globals s)"
  shows "compacted s s"
proof -
  note d = roots_partD [OF ok]
  have "card (in_use s {}) = gc_num_roots (gs_globals s)" using n by (simp add: in_use_def)
  then have all: "{i \<in> in_use s {}. \<exists>r. holds_at s i r} = in_use s {}"
    using d(12) by (intro card_subset_eq) auto
  obtain ys where ys: "free_chain s (gc_unused (gs_globals s)) ys" "set ys = {i \<in> in_use s {}. unused_at s i}"
    using d(7) by blast
  have "ys = []"
  proof (cases ys)
    case (Cons y zs)
    then have "y \<in> in_use s {}" "unused_at s y" using ys(2) by auto
    then show ?thesis using all not_both by blast
  qed
  then have "gc_unused (gs_globals s) = GC_INVALID" using ys(1) by simp
  then show ?thesis using ok n all unfolding compacted_def by auto
qed

lemma fingers_roots:
  assumes f: "fingers E m (m + 1) k s" and u: "used s k = {1..m}" "m \<le> k"
    and b: "gc_buf_size (gs_globals s) \<le> GC_MAX_BUF_SIZE" "m < 2 ^ 29" and n: "gc_num_roots (gs_globals s) = m"
  defines "s' \<equiv> gc_upd (\<lambda>g. g\<lparr>gc_unused := GC_INVALID, gc_first_unused := gc_num_roots g + GC_FIRST_ROOT\<rparr>) s"
  shows "roots_ok s'" "buffered s' = E" "\<forall>i \<in> in_use s' {}. \<exists>r. holds_at s' i r"
proof -
  note d = fingersD [OF f]
  have sel: "gs_nodes s' = gs_nodes s" "gc_unused (gs_globals s') = GC_INVALID" "gc_first_unused (gs_globals s') = m + 1"
    "gc_buf_size (gs_globals s') = gc_buf_size (gs_globals s)" "gc_num_roots (gs_globals s') = m" "buf_ok s' = buf_ok s"
    by (simp_all add: s'_def gc_upd_def n GC_FIRST_ROOT_def buf_ok_def)
  have sl: "gc_slot s' = gc_slot s" by (simp add: s'_def gc_upd_def gc_slot_def fun_eq_iff)
  have h: "holds_at s' = holds_at s" "unused_at s' = unused_at s" by (simp_all add: fun_eq_iff holds_at_def unused_at_def sl)
  have iu: "in_use s' {} = {1..m}" by (auto simp: in_use_def sel)
  have all: "\<exists>r. holds_at s i r" if "i \<in> {1..m}" for i using that u(1) by (auto simp: used_def)
  have nu: "{i \<in> {1..m}. unused_at s i} = {}" using all not_both by blast
  have le: "i \<le> k" if "i \<in> {1..m}" for i using that u(2) by simp
  have lt: "m + 1 \<le> gc_buf_size (gs_globals s)" using d(2) u(2) by linarith
  show "roots_ok s'"
    unfolding roots_part_def sel h iu nu
  proof (intro conjI ballI allI impI)
    show "\<exists>is. free_chain s' GC_INVALID is \<and> distinct is \<and> set is = {}" by (intro exI [of _ "[]"]) simp
  next
    fix i assume i: "i \<in> {1..m}"
    then show "unused_at s i \<or> (\<exists>r<length (gs_nodes s). holds_at s i r \<and> GC_REF_ADDRESS (gs_nodes s ! r) = gc_compress i)"
      using d(5) [of i] le [OF i] by simp
  next
    fix i j r assume i: "i \<in> {1..m}" "j \<in> {1..m}" "holds_at s i r" "holds_at s j r"
    then show "i = j" using d(6) [of i j r] le by simp
  next
    fix r assume "r < length (gs_nodes s)" "GC_REF_ADDRESS (gs_nodes s ! r) \<noteq> 0"
    then obtain i where "i \<in> {1..k}" "holds_at s i r" using d(8) by blast
    then have "i \<in> used s k" by (auto simp: used_def)
    then show "\<exists>i\<in>{1..m}. holds_at s i r" using u(1) \<open>holds_at s i r\<close> by blast
  next
    have "{i \<in> {1..m}. \<exists>r. holds_at s i r} = {1..m}" using all by blast
    then show "m = card {i \<in> {1..m}. \<exists>r. holds_at s i r}" by simp
  qed (use d(1,7) b lt in simp_all)
  show "\<forall>i \<in> in_use s' {}. \<exists>r. holds_at s' i r" using all by (simp add: iu h)
  have "buffered s' = {e. \<exists>i \<in> {1..m}. gc_slot s i = Some e}"
    unfolding buffered_def iu sl using all by (fastforce simp: holds_at_def)
  then show "buffered s' = E" using d(10) u(1) by simp
qed

lemma gc_compact_ok:
  assumes ok: "roots_ok s"
  obtains s' where "gc_compact s = Inr s'" "compacted s s'"
proof (cases "gc_num_roots (gs_globals s) + 1 = gc_first_unused (gs_globals s)")
  case True
  then show thesis using that [of s] no_gaps [OF ok True] by (simp add: gc_compact_def Let_def GC_FIRST_ROOT_def)
next
  case False
  note d = roots_partD [OF ok]
  let ?m = "gc_num_roots (gs_globals s)" and ?c = "gc_first_unused (gs_globals s) - 1"
  let ?fin = "\<lambda>s. gc_upd (\<lambda>g. g\<lparr>gc_unused := GC_INVALID, gc_first_unused := gc_num_roots g + GC_FIRST_ROOT\<rparr>) s"
  note f = roots_fingers [OF ok]
  have "?m \<le> card (in_use s {})" unfolding d(12) by (intro card_mono) auto
  then have m: "?m < ?c" "?m < 2 ^ 29" using False d(2,5) by (auto simp: in_use_def)
  have fr: "gc_frame t (?fin t)" "readdressed t (?fin t)" for t
    by (simp_all add: gc_frame_def rest_of_globals_def gc_upd_def readdressed_def)
  show thesis
  proof (cases "?m = 0")
    case True
    have "used s ?c = {}" using fingersD(9) [OF f] True by (simp add: used_def)
    then have e: "buffered s = {}" using used_all [of s] used_entries [of s] by auto
    have no: "GC_REF_ADDRESS (gs_nodes s ! r) = 0" if "r < length (gs_nodes s)" for r
      using d(11) [OF that] \<open>used s ?c = {}\<close> used_all [of s] by auto
    have "fingers {} 0 (0 + 1) 0 s"
      unfolding fingers_def using d(1,2,3,10) no by (auto simp: used_def)
    from fingers_roots [OF this] d(4) True
    have "roots_ok (?fin s)" "buffered (?fin s) = {}" "\<forall>i \<in> in_use (?fin s) {}. \<exists>r. holds_at (?fin s) i r"
      by (simp_all add: used_def)
    then have "compacted s (?fin s)" using e fr [of s] True
      by (simp add: compacted_def) (simp add: gc_upd_def GC_FIRST_ROOT_def)
    moreover have "gc_compact s = Inr (?fin s)"
      using False True by (simp add: gc_compact_def Let_def GC_FIRST_ROOT_def)
    ultimately show thesis using that by blast
  next
    case m0: False
    have "?c + 1 \<le> gc_first_unused (gs_globals s) + 1" "1 \<le> gc_first_unused (gs_globals s)" "1 \<le> ?m" using d(2) m0 by auto
    then obtain t k where t: "gc_compact_loop (gc_first_unused (gs_globals s)) 1 ?c ?m s = Inr t"
      "readdressed s t" "gc_frame s t" "fingers (buffered s) ?m (?m + 1) k t" "used t k = {1..?m}" "?m \<le> k"
      "gc_num_roots (gs_globals t) = ?m" "gc_buf_size (gs_globals t) = gc_buf_size (gs_globals s)"
      using compact_loop_ok [OF f, of "gc_first_unused (gs_globals s)"] m(1) by blast
    have b: "gc_buf_size (gs_globals t) \<le> GC_MAX_BUF_SIZE" using d(4) t(8) by simp
    note r = fingers_roots [OF t(4,5,6) b m(2) t(7)]
    have "compacted s (?fin t)"
      using r readdressed_trans [OF t(2) fr(2)] gc_frame_trans [OF t(3) fr(1)] t(7)
      by (simp add: compacted_def) (simp add: gc_upd_def GC_FIRST_ROOT_def)
    moreover have "gc_compact s = Inr (?fin t)"
      using False m0 t(1) by (simp add: gc_compact_def Let_def GC_FIRST_ROOT_def)
    ultimately show thesis using that by blast
  qed
qed

end
