(* ===== verification/GcTraverse.thy ===== *)
theory GcTraverse
  imports GcStack GcCompact
begin

text \<open>
  The traversals of the graph of nodes: \<open>gc_mark_grey\<close>, \<open>gc_scan_black\<close>, \<open>gc_scan\<close> and
  \<open>gc_collect_white\<close>. All four visit the children of a node in the same way: they touch the
  count of a child, and when its colour says so they paint it and keep it for later, the
  first one in \<open>ref\<close> and the others on the stack.
\<close>

subsection \<open>One child\<close>

datatype gc_phase = MarkGrey | ScanBlack | Scan | CollectWhite

definition gc_touch :: "gc_phase \<Rightarrow> nat \<Rightarrow> gc_state \<Rightarrow> error + gc_state" where
  "gc_touch ph ref s =
     (case ph of MarkGrey \<Rightarrow> GC_DELREF ref s | ScanBlack \<Rightarrow> GC_ADDREF ref s | Scan \<Rightarrow> Inr s
      | CollectWhite \<Rightarrow> GC_ADDREF ref s)"

definition gc_follow :: "gc_phase \<Rightarrow> gc_node \<Rightarrow> bool" where
  "gc_follow ph n =
     (case ph of MarkGrey \<Rightarrow> \<not> GC_REF_CHECK_COLOR n GC_GREY | ScanBlack \<Rightarrow> \<not> GC_REF_CHECK_COLOR n GC_BLACK
      | Scan \<Rightarrow> GC_REF_CHECK_COLOR n GC_GREY | CollectWhite \<Rightarrow> GC_REF_CHECK_COLOR n GC_WHITE)"

definition gc_paint :: "gc_phase \<Rightarrow> nat \<Rightarrow> gc_state \<Rightarrow> error + gc_state" where
  "gc_paint ph ref s =
     (case ph of MarkGrey \<Rightarrow> GC_REF_SET_COLOR ref GC_GREY s | ScanBlack \<Rightarrow> GC_REF_SET_BLACK ref s
      | Scan \<Rightarrow> GC_REF_SET_COLOR ref GC_WHITE s | CollectWhite \<Rightarrow> GC_REF_SET_BLACK ref s)"

definition gc_visit :: "gc_phase \<Rightarrow> nat \<Rightarrow> gc_state \<Rightarrow> error + (bool \<times> gc_state)" where
  "gc_visit ph ref s =
     bindE (gc_touch ph ref s) (\<lambda>s.
     bindE (gc_node_at s ref) (\<lambda>n.
     if gc_follow ph n then bindE (gc_paint ph ref s) (\<lambda>s. Inr (True, s)) else Inr (False, s)))"

subsection \<open>The children of a node\<close>

text \<open>
  The inner loop \<open>while (--n)\<close> pushes every child it paints; the outer one keeps the first
  child it paints and leaves the rest to the inner one.
\<close>

fun visit_rest :: "gc_phase \<Rightarrow> (error + zval) list \<Rightarrow> stack_top \<Rightarrow> gc_state \<Rightarrow> error + (stack_top \<times> gc_state)" where
  "visit_rest ph [] st s = Inr (st, s)"
| "visit_rest ph (z # zs) st s =
     bindE z (\<lambda>v.
     case Z_COLLECTABLE s v of
       None \<Rightarrow> visit_rest ph zs st s
     | Some ref \<Rightarrow>
         bindE (gc_visit ph ref s) (\<lambda>(new, s).
         if new then bindE (gc_stack_push ref st) (\<lambda>st. visit_rest ph zs st s)
         else visit_rest ph zs st s))"

fun visit_zvals ::
  "gc_phase \<Rightarrow> (error + zval) list \<Rightarrow> stack_top \<Rightarrow> gc_state \<Rightarrow> error + (nat option \<times> stack_top \<times> gc_state)" where
  "visit_zvals ph [] st s = Inr (None, st, s)"
| "visit_zvals ph (z # zs) st s =
     bindE z (\<lambda>v.
     case Z_COLLECTABLE s v of
       None \<Rightarrow> visit_zvals ph zs st s
     | Some ref \<Rightarrow>
         bindE (gc_visit ph ref s) (\<lambda>(new, s).
         if new then bindE (visit_rest ph zs st s) (\<lambda>(st, s). Inr (Some ref, st, s))
         else visit_zvals ph zs st s))"

text \<open>\<open>handle_ht\<close>: the zvals of a table, of a mixed one those that \<open>IS_INDIRECT\<close> points to.\<close>

definition ht_zvals :: "gc_state \<Rightarrow> HashTable \<Rightarrow> (error + zval) list" where
  "ht_zvals s ht =
     (if f_packed ht then map (rd (arPacked ht)) [0..<nNumUsed ht]
      else map (\<lambda>i. bindE (rd (arData ht) i) (\<lambda>p.
                 Inr (case b_val p of IS_INDIRECT a \<Rightarrow> gs_indirect s a | v \<Rightarrow> v))) [0..<nNumUsed ht])"

definition handle_ht :: "gc_phase \<Rightarrow> nat \<Rightarrow> stack_top \<Rightarrow> gc_state \<Rightarrow> error + (nat option \<times> stack_top \<times> gc_state)" where
  "handle_ht ph h st s =
     bindE (gc_node_at s h) (\<lambda>n.
     case gn_body n of GcArray ht \<Rightarrow> visit_zvals ph (ht_zvals s ht) st s | _ \<Rightarrow> Inl BadPointer)"

text \<open>
  What \<open>get_gc\<close> returns. \<open>gc_scan\<close> also pushes the table, because its count is yet to be
  looked at.
\<close>

definition visit_get_gc ::
  "gc_phase \<Rightarrow> nat option \<times> zval list \<Rightarrow> stack_top \<Rightarrow> gc_state \<Rightarrow> error + (nat option \<times> stack_top \<times> gc_state)" where
  "visit_get_gc ph = (\<lambda>(ht, table) st s.
     case ht of
       None \<Rightarrow> visit_zvals ph (map Inr table) st s
     | Some h \<Rightarrow>
         bindE (gc_visit ph h s) (\<lambda>(new, s).
         if new then
           bindE (if ph = Scan then gc_stack_push h st else Inr st) (\<lambda>st.
           bindE (visit_rest ph (map Inr table) st s) (\<lambda>(st, s). handle_ht ph h st s))
         else visit_zvals ph (map Inr table) st s))"

text \<open>The value of a reference.\<close>

definition visit_reference ::
  "gc_phase \<Rightarrow> zval \<Rightarrow> stack_top \<Rightarrow> gc_state \<Rightarrow> error + (nat option \<times> stack_top \<times> gc_state)" where
  "visit_reference ph v st s =
     (case Z_COLLECTABLE s v of
        None \<Rightarrow> Inr (None, st, s)
      | Some ref \<Rightarrow>
          bindE (gc_visit ph ref s) (\<lambda>(new, s). Inr (if new then Some ref else None, st, s)))"

subsection \<open>Weak maps\<close>

definition weak_at :: "gc_state \<Rightarrow> nat \<Rightarrow> error + weak_entry" where
  "weak_at s e = (if e < length (gs_entries s) then Inr (gs_entries s ! e) else Inl BadPointer)"

definition weak_put :: "nat \<Rightarrow> (weak_entry \<Rightarrow> weak_entry) \<Rightarrow> gc_state \<Rightarrow> gc_state" where
  "weak_put e f s = s\<lparr>gs_entries := (gs_entries s)[e := f (gs_entries s ! e)]\<rparr>"

text \<open>The marks seen from the key (\<open>by_key\<close>) or from the map: the own one and the other one.\<close>

definition set_own :: "bool \<Rightarrow> bool \<Rightarrow> weak_entry \<Rightarrow> weak_entry" where
  "set_own by_key b w = (if by_key then w\<lparr>we_from_key := b\<rparr> else w\<lparr>we_from_map := b\<rparr>)"

definition own_mark :: "bool \<Rightarrow> weak_entry \<Rightarrow> bool" where
  "own_mark by_key w = (if by_key then we_from_key w else we_from_map w)"

definition other_mark :: "bool \<Rightarrow> weak_entry \<Rightarrow> bool" where
  "other_mark by_key w = (if by_key then we_from_map w else we_from_key w)"

text \<open>In \<open>gc_mark_grey\<close>: a count is only taken when the other side has not taken it.\<close>

fun mark_weak :: "bool \<Rightarrow> nat list \<Rightarrow> stack_top \<Rightarrow> gc_state \<Rightarrow> error + (stack_top \<times> gc_state)" where
  "mark_weak by_key [] st s = Inr (st, s)"
| "mark_weak by_key (e # es) st s =
     bindE (weak_at s e) (\<lambda>w.
     case Z_COLLECTABLE s (we_val w) of
       None \<Rightarrow> mark_weak by_key es st s
     | Some ref \<Rightarrow>
         let s = weak_put e (set_own by_key True) s
         in bindE (if other_mark by_key w then Inr s else GC_DELREF ref s) (\<lambda>s.
            bindE (gc_node_at s ref) (\<lambda>n.
            if \<not> GC_REF_CHECK_COLOR n GC_GREY then
              bindE (GC_REF_SET_COLOR ref GC_GREY s) (\<lambda>s.
              bindE (gc_stack_push ref st) (\<lambda>st. mark_weak by_key es st s))
            else mark_weak by_key es st s)))"

text \<open>In \<open>gc_scan_black\<close>: the other side of an entry is its map or its key.\<close>

fun black_weak :: "bool \<Rightarrow> (nat \<times> nat) list \<Rightarrow> stack_top \<Rightarrow> gc_state \<Rightarrow> error + (stack_top \<times> gc_state)" where
  "black_weak by_key [] st s = Inr (st, s)"
| "black_weak by_key ((e, other) # es) st s =
     bindE (weak_at s e) (\<lambda>w.
     case Z_COLLECTABLE s (we_val w) of
       None \<Rightarrow> black_weak by_key es st s
     | Some ref \<Rightarrow>
         let s = weak_put e (set_own by_key False) s
         in bindE (gc_node_at s other) (\<lambda>q.
            if GC_REF_CHECK_COLOR q GC_GREY then
              bindE (if GC_REF_ADDRESS q = 0 then gc_extra_root other s else Inr s) (\<lambda>s.
                black_weak by_key es st s)
            else if \<not> other_mark by_key w then
              assertE (GC_REF_CHECK_COLOR q GC_BLACK) (\<lambda>_.
              bindE (gc_visit ScanBlack ref s) (\<lambda>(new, s).
              if new then bindE (gc_stack_push ref st) (\<lambda>st. black_weak by_key es st s)
              else black_weak by_key es st s))
            else black_weak by_key es st s))"

text \<open>In \<open>gc_scan\<close> and in \<open>gc_collect_white\<close>.\<close>

fun scan_weak :: "nat list \<Rightarrow> stack_top \<Rightarrow> gc_state \<Rightarrow> error + (stack_top \<times> gc_state)" where
  "scan_weak [] st s = Inr (st, s)"
| "scan_weak (e # es) st s =
     bindE (weak_at s e) (\<lambda>w.
     case Z_COLLECTABLE s (we_val w) of
       None \<Rightarrow> scan_weak es st s
     | Some ref \<Rightarrow>
         bindE (gc_visit Scan ref s) (\<lambda>(new, s).
         if new then bindE (gc_stack_push ref st) (\<lambda>st. scan_weak es st s)
         else scan_weak es st s))"

fun white_weak :: "bool \<Rightarrow> nat list \<Rightarrow> stack_top \<Rightarrow> gc_state \<Rightarrow> error + (stack_top \<times> gc_state)" where
  "white_weak by_key [] st s = Inr (st, s)"
| "white_weak by_key (e # es) st s =
     bindE (weak_at s e) (\<lambda>w.
     case Z_COLLECTABLE s (we_val w) of
       None \<Rightarrow> white_weak by_key es st s
     | Some ref \<Rightarrow>
         if own_mark by_key w then
           let s = weak_put e (\<lambda>w. w\<lparr>we_from_key := False, we_from_map := False\<rparr>) s
           in bindE (gc_visit CollectWhite ref s) (\<lambda>(new, s).
              if new then bindE (gc_stack_push ref st) (\<lambda>st. white_weak by_key es st s)
              else white_weak by_key es st s)
         else white_weak by_key es st s)"

subsection \<open>The loop\<close>

text \<open>
  \<open>tail_call\<close> and \<open>next\<close>: \<open>node\<close> does the work for one reference and may return the next one;
  otherwise it is popped. The fuel is the number of nodes plus one.
\<close>

fun traverse ::
  "(nat \<Rightarrow> stack_top \<Rightarrow> 's \<Rightarrow> error + (nat option \<times> stack_top \<times> 's)) \<Rightarrow> nat \<Rightarrow> nat \<Rightarrow> stack_top \<Rightarrow> 's \<Rightarrow>
     error + (gc_stack \<times> 's)" where
  "traverse node 0 ref st s = Inl NoReturn"
| "traverse node (Suc fuel) ref st s =
     bindE (node ref st s) (\<lambda>(next, st, s).
     case next of
       Some ref \<Rightarrow> traverse node fuel ref st s
     | None \<Rightarrow>
         bindE (gc_stack_pop st) (\<lambda>(top, st).
         case top of Some ref \<Rightarrow> traverse node fuel ref st s | None \<Rightarrow> Inr (fst st, s)))"

definition gc_fuel :: "gc_state \<Rightarrow> nat" where
  "gc_fuel s = length (gs_nodes s) + 1"

subsection \<open>\<open>gc_scan_black\<close> and \<open>gc_mark_grey\<close>\<close>

definition scan_black_node :: "nat \<Rightarrow> stack_top \<Rightarrow> gc_state \<Rightarrow> error + (nat option \<times> stack_top \<times> gc_state)" where
  "scan_black_node ref st s =
     bindE (gc_node_at s ref) (\<lambda>n.
     case gn_body n of
       GcObject obj \<Rightarrow>
         if go_free_called obj then Inr (None, st, s)
         else
           bindE (case go_weak obj of None \<Rightarrow> Inr (st, s) | Some es \<Rightarrow> black_weak True es st s) (\<lambda>(st, s).
           case go_map obj of
             Some es \<Rightarrow> bindE (black_weak False (map prod.swap es) st s) (\<lambda>(st, s). Inr (None, st, s))
           | None \<Rightarrow> visit_get_gc ScanBlack (go_get_gc obj) st s)
     | GcArray ht \<Rightarrow> assertE (ref \<noteq> gs_symbol_table s) (\<lambda>_. handle_ht ScanBlack ref st s)
     | GcReference v \<Rightarrow> visit_reference ScanBlack v st s
     | _ \<Rightarrow> Inr (None, st, s))"

definition gc_scan_black :: "nat \<Rightarrow> gc_stack \<Rightarrow> gc_state \<Rightarrow> error + (gc_stack \<times> gc_state)" where
  "gc_scan_black ref stack s = traverse scan_black_node (gc_fuel s) ref (stack, 0) s"

definition mark_grey_node :: "nat \<Rightarrow> stack_top \<Rightarrow> gc_state \<Rightarrow> error + (nat option \<times> stack_top \<times> gc_state)" where
  "mark_grey_node ref st s =
     bindE (gc_node_at s ref) (\<lambda>n.
     case gn_body n of
       GcObject obj \<Rightarrow>
         if go_free_called obj then Inr (None, st, s)
         else
           bindE (case go_weak obj of None \<Rightarrow> Inr (st, s) | Some es \<Rightarrow> mark_weak True (map fst es) st s) (\<lambda>(st, s).
           case go_map obj of
             Some es \<Rightarrow> bindE (mark_weak False (map snd es) st s) (\<lambda>(st, s). Inr (None, st, s))
           | None \<Rightarrow> visit_get_gc MarkGrey (go_get_gc obj) st s)
     | GcArray ht \<Rightarrow> assertE (ref \<noteq> gs_symbol_table s) (\<lambda>_. handle_ht MarkGrey ref st s)
     | GcReference v \<Rightarrow> visit_reference MarkGrey v st s
     | _ \<Rightarrow> Inr (None, st, s))"

definition gc_mark_grey :: "nat \<Rightarrow> gc_stack \<Rightarrow> gc_state \<Rightarrow> error + (gc_stack \<times> gc_state)" where
  "gc_mark_grey ref stack s = traverse mark_grey_node (gc_fuel s) ref (stack, 0) s"

text \<open>\<open>current\<close> runs over the buffer.\<close>

fun mark_roots_loop :: "nat list \<Rightarrow> gc_stack \<Rightarrow> gc_state \<Rightarrow> error + (gc_stack \<times> gc_state)" where
  "mark_roots_loop [] stack s = Inr (stack, s)"
| "mark_roots_loop (i # is) stack s =
     bindE (gc_buf_rd s i) (\<lambda>e.
     case e of
       GC_ROOT ref \<Rightarrow>
         bindE (gc_node_at s ref) (\<lambda>n.
         if GC_REF_CHECK_COLOR n GC_PURPLE then
           bindE (GC_REF_SET_COLOR ref GC_GREY s) (\<lambda>s.
           bindE (gc_mark_grey ref stack s) (\<lambda>(stack, s). mark_roots_loop is stack s))
         else mark_roots_loop is stack s)
     | GC_NULL_ROOT \<Rightarrow> Inl BadPointer
     | _ \<Rightarrow> mark_roots_loop is stack s)"

definition gc_mark_roots :: "gc_stack \<Rightarrow> gc_state \<Rightarrow> error + (gc_stack \<times> gc_state)" where
  "gc_mark_roots stack s =
     bindE (gc_compact s) (\<lambda>s.
       mark_roots_loop [GC_FIRST_ROOT..<gc_first_unused (gs_globals s)] stack s)"

subsection \<open>\<open>gc_scan\<close>\<close>

definition scan_node :: "nat \<Rightarrow> stack_top \<Rightarrow> gc_state \<Rightarrow> error + (nat option \<times> stack_top \<times> gc_state)" where
  "scan_node ref st s =
     bindE (gc_node_at s ref) (\<lambda>n.
     if \<not> GC_REF_CHECK_COLOR n GC_WHITE then Inr (None, st, s)
     else if gn_count n > 0 then
       (if \<not> GC_REF_CHECK_COLOR n GC_BLACK then
          bindE (GC_REF_SET_BLACK ref s) (\<lambda>s.
          let stack = gc_stack_extend (fst st)
          in bindE (gc_scan_black ref (split_tail stack) s) (\<lambda>(tail, s).
               Inr (None, (join_tail stack tail, snd st), s)))
        else Inr (None, st, s))
     else
       case gn_body n of
         GcObject obj \<Rightarrow>
           if go_free_called obj then Inr (None, st, s)
           else
             bindE (case go_weak obj of None \<Rightarrow> Inr (st, s) | Some es \<Rightarrow> scan_weak (map fst es) st s) (\<lambda>(st, s).
               visit_get_gc Scan (go_get_gc obj) st s)
       | GcArray ht \<Rightarrow> assertE (ref \<noteq> gs_symbol_table s) (\<lambda>_. handle_ht Scan ref st s)
       | GcReference v \<Rightarrow> visit_reference Scan v st s
       | _ \<Rightarrow> Inr (None, st, s))"

definition gc_scan :: "nat \<Rightarrow> gc_stack \<Rightarrow> gc_state \<Rightarrow> error + (gc_stack \<times> gc_state)" where
  "gc_scan ref stack s = traverse scan_node (gc_fuel s) ref (stack, 0) s"

definition scan_root :: "nat \<Rightarrow> gc_stack \<Rightarrow> gc_state \<Rightarrow> error + (gc_stack \<times> gc_state)" where
  "scan_root i stack s =
     bindE (gc_buf_rd s i) (\<lambda>e.
     case e of
       GC_ROOT ref \<Rightarrow>
         bindE (gc_node_at s ref) (\<lambda>n.
         if GC_REF_CHECK_COLOR n GC_GREY then
           bindE (GC_REF_SET_COLOR ref GC_WHITE s) (\<lambda>s. gc_scan ref stack s)
         else Inr (stack, s))
     | GC_NULL_ROOT \<Rightarrow> Inl BadPointer
     | _ \<Rightarrow> Inr (stack, s))"

text \<open>
  The second loop runs while extra roots are added; every node is added at most once, so the
  number of nodes bounds it.
\<close>

fun scan_roots_loop :: "nat list \<Rightarrow> gc_stack \<Rightarrow> gc_state \<Rightarrow> error + (gc_stack \<times> gc_state)" where
  "scan_roots_loop [] stack s = Inr (stack, s)"
| "scan_roots_loop (i # is) stack s =
     bindE (scan_root i stack s) (\<lambda>(stack, s). scan_roots_loop is stack s)"

fun scan_extra_loop :: "nat \<Rightarrow> nat \<Rightarrow> gc_stack \<Rightarrow> gc_state \<Rightarrow> error + (gc_stack \<times> gc_state)" where
  "scan_extra_loop 0 i stack s = Inl NoReturn"
| "scan_extra_loop (Suc fuel) i stack s =
     (if i \<noteq> gc_first_unused (gs_globals s) then
        bindE (scan_root i stack s) (\<lambda>(stack, s). scan_extra_loop fuel (i + 1) stack s)
      else Inr (stack, s))"

definition gc_scan_roots :: "gc_stack \<Rightarrow> gc_state \<Rightarrow> error + (gc_stack \<times> gc_state)" where
  "gc_scan_roots stack s =
     (let stop = gc_first_unused (gs_globals s)
      in bindE (scan_roots_loop [GC_FIRST_ROOT..<stop] stack s) (\<lambda>(stack, s).
           scan_extra_loop (gc_fuel s) stop stack s))"

end
