(* ===== verification/GcGraph.thy ===== *)
theory GcGraph
  imports GcTraverse
begin

text \<open>
  The graph the collector walks over: the children of a node, the counts and colours as
  functions, and what visiting children does to them.
\<close>

subsection \<open>The graph\<close>

definition size_of :: "gc_state \<Rightarrow> nat" where "size_of s = length (gs_nodes s)"
definition rc :: "gc_state \<Rightarrow> nat \<Rightarrow> nat" where "rc s r = gn_count (gs_nodes s ! r)"
definition col :: "gc_state \<Rightarrow> nat \<Rightarrow> 32 word" where "col s r = GC_REF_COLOR (gs_nodes s ! r)"
definition addr :: "gc_state \<Rightarrow> nat \<Rightarrow> nat" where "addr s r = GC_REF_ADDRESS (gs_nodes s ! r)"

definition targets :: "gc_state \<Rightarrow> zval list \<Rightarrow> nat list" where
  "targets s vs = List.map_filter (Z_COLLECTABLE s) vs"

definition kids :: "gc_state \<Rightarrow> nat \<Rightarrow> nat list" where
  "kids s r =
     (case gn_body (gs_nodes s ! r) of
        GcObject obj \<Rightarrow>
          if go_free_called obj then []
          else (case fst (go_get_gc obj) of None \<Rightarrow> [] | Some h \<Rightarrow> [h]) @ targets s (snd (go_get_gc obj))
      | GcArray ht \<Rightarrow> targets s (map projr (ht_zvals s ht))
      | GcReference v \<Rightarrow> targets s [v]
      | _ \<Rightarrow> [])"

text \<open>
  A graph the collector can walk: every pointer leads to a node, the tables are readable, what
  \<open>get_gc\<close> returns as a table is one, and no object takes part in a weak map.
\<close>

definition graph_ok :: "gc_state \<Rightarrow> bool" where
  "graph_ok s \<longleftrightarrow>
     size_of s \<le> gs_symbol_table s \<and>
     (\<forall>r < size_of s. (\<forall>k \<in> set (kids s r). k < size_of s) \<and>
        (case gn_body (gs_nodes s ! r) of
           GcArray ht \<Rightarrow> \<forall>z \<in> set (ht_zvals s ht). \<not> isl z
         | GcObject obj \<Rightarrow> go_weak obj = None \<and> go_map obj = None \<and>
             (\<forall>h. fst (go_get_gc obj) = Some h \<longrightarrow> h < size_of s \<and> (\<exists>ht. gn_body (gs_nodes s ! h) = GcArray ht))
         | _ \<Rightarrow> True))"

definition same_shape :: "gc_state \<Rightarrow> gc_state \<Rightarrow> bool" where
  "same_shape s s' \<longleftrightarrow>
     size_of s' = size_of s \<and> gs_entries s' = gs_entries s \<and> gs_indirect s' = gs_indirect s \<and>
     gs_symbol_table s' = gs_symbol_table s \<and>
     (\<forall>r < size_of s. gn_body (gs_nodes s' ! r) = gn_body (gs_nodes s ! r) \<and>
        gn_immutable (gs_nodes s' ! r) = gn_immutable (gs_nodes s ! r) \<and>
        gn_not_collectable (gs_nodes s' ! r) = gn_not_collectable (gs_nodes s ! r))"

lemma same_shape_refl [simp]: "same_shape s s"
  by (simp add: same_shape_def)

lemma same_shape_trans: "same_shape s t \<Longrightarrow> same_shape t u \<Longrightarrow> same_shape s u"
  by (simp add: same_shape_def)

lemma collectable_same: "same_shape s s' \<Longrightarrow> Z_COLLECTABLE s' = Z_COLLECTABLE s"
  by (rule ext) (auto simp: Z_COLLECTABLE_def same_shape_def size_of_def split: zval.split)

lemma ht_zvals_same:
  assumes "same_shape s s'"
  shows "ht_zvals s' = ht_zvals s"
proof -
  have "gs_indirect s' = gs_indirect s" using assms by (simp add: same_shape_def)
  then show ?thesis unfolding ht_zvals_def by (simp only:)
qed

lemma kids_same:
  assumes "same_shape s s'" "r < size_of s"
  shows "kids s' r = kids s r"
proof -
  have t: "targets s' = targets s" by (simp add: fun_eq_iff targets_def collectable_same [OF assms(1)])
  have b: "gn_body (gs_nodes s' ! r) = gn_body (gs_nodes s ! r)" using assms by (simp add: same_shape_def)
  show ?thesis unfolding kids_def b t ht_zvals_same [OF assms(1)] ..
qed

lemma graph_same:
  assumes sh: "same_shape s s'" and g: "graph_ok s"
  shows "graph_ok s'"
proof -
  have n: "size_of s' = size_of s" "gs_symbol_table s' = gs_symbol_table s" using sh by (simp_all add: same_shape_def)
  have b: "\<And>r. r < size_of s \<Longrightarrow> gn_body (gs_nodes s' ! r) = gn_body (gs_nodes s ! r)" using sh by (simp add: same_shape_def)
  show ?thesis
    unfolding graph_ok_def n
  proof (intro conjI allI impI)
    fix r assume r: "r < size_of s"
    from g r have k: "\<forall>k \<in> set (kids s r). k < size_of s"
      and c: "case gn_body (gs_nodes s ! r) of
           GcArray ht \<Rightarrow> \<forall>z \<in> set (ht_zvals s ht). \<not> isl z
         | GcObject obj \<Rightarrow> go_weak obj = None \<and> go_map obj = None \<and>
             (\<forall>h. fst (go_get_gc obj) = Some h \<longrightarrow> h < size_of s \<and> (\<exists>ht. gn_body (gs_nodes s ! h) = GcArray ht))
         | _ \<Rightarrow> True" unfolding graph_ok_def by blast+
    show "\<forall>k \<in> set (kids s' r). k < size_of s" using k kids_same [OF sh r] by simp
    show "case gn_body (gs_nodes s' ! r) of
           GcArray ht \<Rightarrow> \<forall>z \<in> set (ht_zvals s' ht). \<not> isl z
         | GcObject obj \<Rightarrow> go_weak obj = None \<and> go_map obj = None \<and>
             (\<forall>h. fst (go_get_gc obj) = Some h \<longrightarrow> h < size_of s \<and> (\<exists>ht. gn_body (gs_nodes s' ! h) = GcArray ht))
         | _ \<Rightarrow> True"
      using c b unfolding b [OF r] ht_zvals_same [OF sh] by (auto split: gc_body.splits)
  qed (use g in \<open>simp add: graph_ok_def\<close>)
qed

subsection \<open>Acting on children\<close>

definition color_of :: "gc_phase \<Rightarrow> 32 word" where
  "color_of ph = (case ph of MarkGrey \<Rightarrow> GC_GREY | ScanBlack \<Rightarrow> GC_BLACK | Scan \<Rightarrow> GC_WHITE | CollectWhite \<Rightarrow> GC_BLACK)"

definition follows :: "gc_phase \<Rightarrow> 32 word \<Rightarrow> bool" where
  "follows ph c =
     (case ph of MarkGrey \<Rightarrow> c \<noteq> GC_GREY | ScanBlack \<Rightarrow> c \<noteq> GC_BLACK | Scan \<Rightarrow> c = GC_GREY | CollectWhite \<Rightarrow> c = GC_WHITE)"

definition bump :: "gc_phase \<Rightarrow> nat \<Rightarrow> nat \<Rightarrow> nat" where
  "bump ph k n = (case ph of MarkGrey \<Rightarrow> n - k | Scan \<Rightarrow> n | _ \<Rightarrow> n + k)"

lemma painted_not_followed [simp]: "\<not> follows ph (color_of ph)"
  by (cases ph) (simp_all add: follows_def color_of_def)

lemma bump_0 [simp]: "bump ph 0 n = n"
  by (cases ph) (simp_all add: bump_def)

lemma bump_bump: "bump ph j (bump ph i n) = bump ph (i + j) n"
  by (cases ph) (simp_all add: bump_def)

text \<open>Counts and colours after the references \<open>cs\<close> were visited.\<close>

definition acts :: "gc_phase \<Rightarrow> nat \<Rightarrow> nat list \<Rightarrow> (nat \<Rightarrow> 32 word) \<Rightarrow> (nat \<Rightarrow> nat) \<Rightarrow> (nat \<Rightarrow> 32 word) \<Rightarrow> (nat \<Rightarrow> nat) \<Rightarrow> bool" where
  "acts ph len cs c q c' q' \<longleftrightarrow>
     (\<forall>n < len. q' n = bump ph (count_list cs n) (q n) \<and>
        c' n = (if n \<in> set cs \<and> follows ph (c n) then color_of ph else c n))"

lemma acts_nil [simp]: "acts ph len [] c q c q"
  by (simp add: acts_def)

lemma acts_append:
  assumes "acts ph len xs c q c' q'" "acts ph len ys c' q' c'' q''"
  shows "acts ph len (xs @ ys) c q c'' q''"
  using assms by (auto simp: acts_def bump_bump count_list_append)

text \<open>Which ones are painted.\<close>

definition fresh :: "gc_phase \<Rightarrow> (nat \<Rightarrow> 32 word) \<Rightarrow> nat list \<Rightarrow> nat set" where
  "fresh ph c cs = {n \<in> set cs. follows ph (c n)}"

lemma fresh_append:
  assumes "acts ph len xs c q c' q'" "set ys \<subseteq> {..<len}"
  shows "fresh ph c (xs @ ys) = fresh ph c xs \<union> fresh ph c' ys" "fresh ph c xs \<inter> fresh ph c' ys = {}"
proof -
  have "follows ph (c' n) \<longleftrightarrow> follows ph (c n) \<and> n \<notin> set xs" if "n \<in> set ys" for n
  proof -
    have "n < len" using assms(2) that by blast
    then have "c' n = (if n \<in> set xs \<and> follows ph (c n) then color_of ph else c n)" using assms(1) by (simp add: acts_def)
    then show ?thesis by auto
  qed
  then show "fresh ph c (xs @ ys) = fresh ph c xs \<union> fresh ph c' ys" "fresh ph c xs \<inter> fresh ph c' ys = {}"
    by (auto simp: fresh_def)
qed

text \<open>The relation on states; the buffer is left alone.\<close>

definition acted :: "gc_phase \<Rightarrow> nat list \<Rightarrow> gc_state \<Rightarrow> gc_state \<Rightarrow> bool" where
  "acted ph cs s s' \<longleftrightarrow>
     same_shape s s' \<and> gs_globals s' = gs_globals s \<and> acts ph (size_of s) cs (col s) (rc s) (col s') (rc s') \<and>
     (\<forall>r < size_of s. addr s' r = addr s r \<and> (gn_info (gs_nodes s ! r) < 2 ^ 22 \<longrightarrow> gn_info (gs_nodes s' ! r) < 2 ^ 22))"

lemma acted_nil [simp]: "acted ph [] s s"
  by (simp add: acted_def)

lemma acted_append:
  assumes "acted ph xs s t" "acted ph ys t u"
  shows "acted ph (xs @ ys) s u"
proof -
  have n: "size_of t = size_of s" using assms(1) by (simp add: acted_def same_shape_def)
  show ?thesis
    unfolding acted_def
  proof (intro conjI allI impI)
    show "same_shape s u" using assms same_shape_trans unfolding acted_def by blast
    show "gs_globals u = gs_globals s" using assms by (simp add: acted_def)
    show "acts ph (size_of s) (xs @ ys) (col s) (rc s) (col u) (rc u)"
      using assms n by (intro acts_append [of ph "size_of s" xs _ _ "col t" "rc t"]) (simp_all add: acted_def)
  qed (use assms n in \<open>simp_all add: acted_def\<close>)
qed

lemma acted_shape: "acted ph xs s t \<Longrightarrow> same_shape s t"
  by (simp add: acted_def)

lemma acted_acts: "acted ph xs s t \<Longrightarrow> acts ph (size_of s) xs (col s) (rc s) (col t) (rc t)"
  by (simp add: acted_def)

text \<open>A change of the colour of one node.\<close>

lemma color_change:
  assumes r: "r < size_of s" and w: "w AND GC_COLOR = c" "w AND GC_ADDRESS = gn_info (gs_nodes s ! r) AND GC_ADDRESS"
    and b: "gn_info (gs_nodes s ! r) < 2 ^ 22 \<Longrightarrow> w < 2 ^ 22"
  defines "s' \<equiv> s\<lparr>gs_nodes := (gs_nodes s)[r := (gs_nodes s ! r)\<lparr>gn_info := w\<rparr>]\<rparr>"
  shows "same_shape s s'" "gs_globals s' = gs_globals s" "rc s' = rc s" "addr s' = addr s" "col s' = (col s)(r := c)"
    "\<forall>q < size_of s. gn_info (gs_nodes s ! q) < 2 ^ 22 \<longrightarrow> gn_info (gs_nodes s' ! q) < 2 ^ 22"
proof -
  have n: "gs_nodes s' ! q = (if q = r then (gs_nodes s ! r)\<lparr>gn_info := w\<rparr> else gs_nodes s ! q)" for q
    using r by (simp add: s'_def size_of_def)
  show "same_shape s s'" "gs_globals s' = gs_globals s"
    using r by (simp_all add: same_shape_def n) (simp_all add: s'_def size_of_def)
  show "rc s' = rc s" by (simp add: fun_eq_iff rc_def n)
  show "addr s' = addr s" using w(2) by (simp add: fun_eq_iff addr_def n GC_REF_ADDRESS_def)
  show "col s' = (col s)(r := c)" using w(1) by (simp add: fun_eq_iff col_def n GC_REF_COLOR_def)
  show "\<forall>q < size_of s. gn_info (gs_nodes s ! q) < 2 ^ 22 \<longrightarrow> gn_info (gs_nodes s' ! q) < 2 ^ 22" using b by (simp add: n)
qed

lemma below_22: "w < 2 ^ 22 \<longleftrightarrow> w AND (GC_ADDRESS OR GC_COLOR) = w" for w :: "32 word"
proof -
  have m: "GC_ADDRESS OR GC_COLOR = mask 22" by (simp add: GC_ADDRESS_def GC_COLOR_def mask_eq_exp_minus_1)
  have "w < 2 ^ 22 \<longleftrightarrow> unat w < 2 ^ 22" by (simp add: word_less_nat_alt)
  also have "\<dots> \<longleftrightarrow> take_bit 22 (unat w) = unat w" by (simp add: take_bit_nat_eq_self_iff)
  also have "\<dots> \<longleftrightarrow> take_bit 22 w = w" by (simp add: word_unat_eq_iff unsigned_take_bit_eq)
  finally show ?thesis unfolding m by (simp add: take_bit_eq_mask)
qed

lemma set_color_bound:
  fixes w c :: "32 word"
  assumes "w < 2 ^ 22" "c AND GC_COLOR = c"
  shows "(w AND NOT GC_COLOR) OR c < 2 ^ 22"
proof -
  have w: "w AND (GC_ADDRESS OR GC_COLOR) = w" using assms(1) below_22 by blast
  have "c AND GC_ADDRESS = 0" using inside_mask [OF assms(2) masks_disjoint] .
  then have c: "c AND (GC_ADDRESS OR GC_COLOR) = c" using assms(2) by (simp add: bit.conj_disj_distrib)
  have "((w AND NOT GC_COLOR) OR c) AND (GC_ADDRESS OR GC_COLOR) =
      ((w AND (GC_ADDRESS OR GC_COLOR)) AND NOT GC_COLOR) OR (c AND (GC_ADDRESS OR GC_COLOR))"
  proof -
    have "(x OR c) AND m = (x AND m) OR (c AND m)" "(w AND y) AND m = (w AND m) AND y" for x y m :: "32 word"
      by (simp only: bit.conj_disj_distrib2) (simp add: ac_simps)
    then show ?thesis by simp
  qed
  then show ?thesis unfolding below_22 w c .
qed

lemma set_black_bound: "w < 2 ^ 22 \<Longrightarrow> w AND NOT GC_COLOR < 2 ^ 22" for w :: "32 word"
  using set_color_bound [of w 0] by simp

subsection \<open>Visiting one child\<close>

text \<open>The counts are large enough for the references to be taken off.\<close>

definition payable :: "gc_phase \<Rightarrow> nat list \<Rightarrow> gc_state \<Rightarrow> bool" where
  "payable ph cs s \<longleftrightarrow> (ph = MarkGrey \<longrightarrow> (\<forall>n < size_of s. count_list cs n \<le> rc s n))"

lemma payable_append:
  assumes "payable ph (xs @ ys) s" "acted ph xs s t"
  shows "payable ph xs s" "payable ph ys t"
proof -
  show "payable ph xs s" using assms(1) by (fastforce simp: payable_def count_list_append)
  show "payable ph ys t"
    unfolding payable_def
  proof (intro impI allI)
    fix n assume "ph = MarkGrey" "n < size_of t"
    then have "n < size_of s" "rc t n = rc s n - count_list xs n" "count_list (xs @ ys) n \<le> rc s n"
      using assms by (simp_all add: acted_def acts_def bump_def same_shape_def payable_def)
    then show "count_list ys n \<le> rc t n" by (simp add: count_list_append)
  qed
qed

lemma node_at_ok: "r < size_of s \<Longrightarrow> gc_node_at s r = Inr (gs_nodes s ! r)"
  by (simp add: gc_node_at_def size_of_def)

lemma node_put_ok: "r < size_of s \<Longrightarrow> gc_node_put r f s = Inr (s\<lparr>gs_nodes := (gs_nodes s)[r := f (gs_nodes s ! r)]\<rparr>)"
  by (simp add: gc_node_put_def size_of_def)

lemma follow_color: "gc_follow ph (gs_nodes s ! r) = follows ph (col s r)"
  by (cases ph) (simp_all add: gc_follow_def follows_def GC_REF_CHECK_COLOR_def col_def GC_REF_COLOR_def)

text \<open>A new count.\<close>

lemma touch_ok:
  assumes r: "r < size_of s" and p: "payable ph [r] s"
  obtains s' where "gc_touch ph r s = Inr s'" "same_shape s s'" "gs_globals s' = gs_globals s"
    "rc s' = (rc s)(r := bump ph 1 (rc s r))" "col s' = col s" "addr s' = addr s"
    "\<forall>q < size_of s. gn_info (gs_nodes s' ! q) = gn_info (gs_nodes s ! q)"
proof -
  define s' where "s' = s\<lparr>gs_nodes := (gs_nodes s)[r := (gs_nodes s ! r)\<lparr>gn_count := bump ph 1 (rc s r)\<rparr>]\<rparr>"
  have n: "gs_nodes s' ! q = (if q = r then (gs_nodes s ! r)\<lparr>gn_count := bump ph 1 (rc s r)\<rparr> else gs_nodes s ! q)" for q
    using r by (simp add: s'_def size_of_def)
  have "same_shape s s'" "gs_globals s' = gs_globals s"
    using r by (simp_all add: same_shape_def n) (simp_all add: s'_def size_of_def)
  moreover have "rc s' = (rc s)(r := bump ph 1 (rc s r))" by (simp add: fun_eq_iff rc_def n)
  moreover have "col s' = col s" "addr s' = addr s"
    by (simp_all add: fun_eq_iff col_def addr_def n GC_REF_COLOR_def GC_REF_ADDRESS_def)
  moreover have "\<forall>q < size_of s. gn_info (gs_nodes s' ! q) = gn_info (gs_nodes s ! q)" by (simp add: n)
  moreover have "gc_touch ph r s = Inr s'"
  proof (cases ph)
    case MarkGrey
    then have "0 < gn_count (gs_nodes s ! r)" using p r by (auto simp: payable_def rc_def)
    then show ?thesis using r MarkGrey
      by (simp add: gc_touch_def GC_DELREF_def node_at_ok node_put_ok s'_def bump_def rc_def)
  next
    case Scan
    have "gs_nodes s' = gs_nodes s" using r Scan by (intro nth_equalityI) (simp_all add: n bump_def rc_def s'_def)
    then show ?thesis using Scan by (simp add: gc_touch_def s'_def)
  qed (use r in \<open>simp_all add: gc_touch_def GC_ADDREF_def node_put_ok s'_def bump_def rc_def\<close>)
  ultimately show thesis by (intro that [of s'])
qed

lemma paint_ok:
  assumes r: "r < size_of s"
  obtains s' where "gc_paint ph r s = Inr s'" "same_shape s s'" "gs_globals s' = gs_globals s"
    "rc s' = rc s" "addr s' = addr s" "col s' = (col s)(r := color_of ph)"
    "\<forall>q < size_of s. gn_info (gs_nodes s ! q) < 2 ^ 22 \<longrightarrow> gn_info (gs_nodes s' ! q) < 2 ^ 22"
proof -
  let ?w = "gn_info (gs_nodes s ! r)"
  define w where "w = (if ph = MarkGrey \<or> ph = Scan then (?w AND NOT GC_COLOR) OR color_of ph else ?w AND NOT GC_COLOR)"
  have idem: "color_of ph AND GC_COLOR = color_of ph" by (cases ph) (simp_all add: color_of_def)
  have w: "w AND GC_COLOR = color_of ph" "w AND GC_ADDRESS = ?w AND GC_ADDRESS" "?w < 2 ^ 22 \<Longrightarrow> w < 2 ^ 22"
    using color_kept_address [OF idem, of ?w] set_color_bound [OF _ idem, of ?w] set_black_bound [of ?w]
    by (cases ph; simp add: w_def color_of_def)+
  have "gc_paint ph r s = Inr (s\<lparr>gs_nodes := (gs_nodes s)[r := (gs_nodes s ! r)\<lparr>gn_info := w\<rparr>]\<rparr>)"
    using r by (cases ph) (simp_all add: gc_paint_def GC_REF_SET_COLOR_def GC_REF_SET_BLACK_def node_put_ok w_def color_of_def)
  with color_change [OF r w] show thesis by (intro that)
qed

lemma gc_visit_ok:
  assumes r: "r < size_of s" and p: "payable ph [r] s"
  obtains s' where "gc_visit ph r s = Inr (follows ph (col s r), s')" "acted ph [r] s s'"
proof -
  obtain t where t: "gc_touch ph r s = Inr t" "same_shape s t" "gs_globals t = gs_globals s"
    "rc t = (rc s)(r := bump ph 1 (rc s r))" "col t = col s" "addr t = addr s"
    "\<forall>q < size_of s. gn_info (gs_nodes t ! q) = gn_info (gs_nodes s ! q)"
    using touch_ok [OF r p] by metis
  have n: "size_of t = size_of s" using t(2) by (simp add: same_shape_def)
  show thesis
  proof (cases "follows ph (col s r)")
    case True
    obtain u where u: "gc_paint ph r t = Inr u" "same_shape t u" "gs_globals u = gs_globals t" "rc u = rc t"
      "addr u = addr t" "col u = (col t)(r := color_of ph)"
      "\<forall>q < size_of t. gn_info (gs_nodes t ! q) < 2 ^ 22 \<longrightarrow> gn_info (gs_nodes u ! q) < 2 ^ 22"
      using paint_ok [of r t ph] r n by metis
    have "gc_visit ph r s = Inr (True, u)"
      using t(1) u(1) r n True by (simp add: gc_visit_def node_at_ok follow_color t(5))
    moreover have "acted ph [r] s u"
      unfolding acted_def acts_def u(3-6) t(3-6)
      using same_shape_trans [OF t(2) u(2)] u(7) t(7) n True by simp
    ultimately show thesis using that True by simp
  next
    case False
    have "gc_visit ph r s = Inr (False, t)"
      using t(1) r n False by (simp add: gc_visit_def node_at_ok follow_color t(5))
    moreover have "acted ph [r] s t"
      unfolding acted_def acts_def t(3-6) using t(2,7) False by simp
    ultimately show thesis using that False by simp
  qed
qed

subsection \<open>Visiting many\<close>

lemma targets_Cons: "targets s (v # vs) = (case Z_COLLECTABLE s v of None \<Rightarrow> targets s vs | Some r \<Rightarrow> r # targets s vs)"
  by (cases "Z_COLLECTABLE s v") (simp_all add: targets_def map_filter_simps)

lemma targets_same: "same_shape s t \<Longrightarrow> targets t = targets s"
  by (simp add: fun_eq_iff targets_def collectable_same)

lemma fresh_single [simp]: "fresh ph c [r] = (if follows ph (c r) then {r} else {})"
  by (auto simp: fresh_def)

lemma visit_rest_ok:
  assumes "\<forall>z \<in> set zs. \<not> isl z" "set (targets s (map projr zs)) \<subseteq> {..<size_of s}"
    "payable ph (targets s (map projr zs)) s" "stacked st xs"
  shows "\<exists>st' s' new. visit_rest ph zs st s = Inr (st', s') \<and> acted ph (targets s (map projr zs)) s s' \<and>
    stacked st' (new @ xs) \<and> distinct new \<and> set new = fresh ph (col s) (targets s (map projr zs))"
  using assms
proof (induction zs arbitrary: st s xs)
  case Nil
  then show ?case by (intro exI [of _ st] exI [of _ s] exI [of _ "[]"]) (simp add: fresh_def targets_def map_filter_simps)
next
  case (Cons z zs)
  then obtain v where z: "z = Inr v" by (cases z) auto
  show ?case
  proof (cases "Z_COLLECTABLE s v")
    case None
    then show ?thesis using Cons.IH [of s st xs] Cons.prems z by (simp add: targets_Cons)
  next
    case (Some r)
    let ?cs = "targets s (map projr zs)"
    have t: "targets s (map projr (z # zs)) = [r] @ ?cs" using z Some by (simp add: targets_Cons)
    have r: "r < size_of s" using Cons.prems(2) t by simp
    have p: "payable ph [r] s"
      using Cons.prems(3) unfolding t payable_def by (fastforce simp: count_list_append)
    obtain s1 where s1: "gc_visit ph r s = Inr (follows ph (col s r), s1)" "acted ph [r] s s1"
      using gc_visit_ok [OF r p] by blast
    have n: "size_of s1 = size_of s" and tg: "targets s1 = targets s"
      using acted_shape [OF s1(2)] targets_same by (simp_all add: same_shape_def)
    have p1: "payable ph ?cs s1" using payable_append(2) [of ph "[r]" ?cs] Cons.prems(3) t s1(2) by simp
    have b1: "set ?cs \<subseteq> {..<size_of s1}" using Cons.prems(2) t n by simp
    note f = fresh_append [OF acted_acts [OF s1(2)], of ?cs]
    show ?thesis
    proof (cases "follows ph (col s r)")
      case True
      obtain st1 where st1: "gc_stack_push r st = Inr st1" "stacked st1 (r # xs)" using push_ok [OF Cons.prems(4)] by blast
      from Cons.IH [of s1 st1 "r # xs"] Cons.prems(1) b1 p1 st1(2)
      obtain st2 s2 new where s2: "visit_rest ph zs st1 s1 = Inr (st2, s2)" "acted ph ?cs s1 s2"
        "stacked st2 (new @ r # xs)" "distinct new" "set new = fresh ph (col s1) ?cs"
        by (auto simp: tg)
      have "set (new @ [r]) = fresh ph (col s) ([r] @ ?cs)" "r \<notin> set new"
        using f s2(5) b1 n True by auto
      moreover have "visit_rest ph (z # zs) st s = Inr (st2, s2)" using z Some s1(1) True st1(1) s2(1) by simp
      ultimately show ?thesis using acted_append [OF s1(2) s2(2)] s2(3,4) unfolding t
        by (intro exI [of _ st2] exI [of _ s2] exI [of _ "new @ [r]"]) simp
    next
      case False
      from Cons.IH [of s1 st xs] Cons.prems(1,4) b1 p1
      obtain st2 s2 new where s2: "visit_rest ph zs st s1 = Inr (st2, s2)" "acted ph ?cs s1 s2"
        "stacked st2 (new @ xs)" "distinct new" "set new = fresh ph (col s1) ?cs"
        by (auto simp: tg)
      have "set new = fresh ph (col s) ([r] @ ?cs)" using f s2(5) b1 n False by auto
      moreover have "visit_rest ph (z # zs) st s = Inr (st2, s2)" using z Some s1(1) False s2(1) by simp
      ultimately show ?thesis using acted_append [OF s1(2) s2(2)] s2(3,4) unfolding t
        by (intro exI [of _ st2] exI [of _ s2] exI [of _ new]) simp
    qed
  qed
qed

text \<open>The next reference and the pushed ones together are the painted ones.\<close>

definition front :: "nat option \<Rightarrow> nat list" where
  "front next = (case next of None \<Rightarrow> [] | Some r \<Rightarrow> [r])"

lemma front_simps [simp]: "front None = []" "front (Some r) = [r]"
  by (simp_all add: front_def)

definition children_visited :: "gc_phase \<Rightarrow> nat list \<Rightarrow> gc_state \<Rightarrow> nat option \<Rightarrow> stack_top \<Rightarrow> gc_state \<Rightarrow> nat list \<Rightarrow> nat list \<Rightarrow> bool" where
  "children_visited ph cs s next st' s' xs new \<longleftrightarrow>
     acted ph cs s s' \<and> stacked st' (new @ xs) \<and> distinct (front next @ new) \<and>
     set (front next @ new) = fresh ph (col s) cs \<and> (next = None \<longrightarrow> new = [])"

lemma visit_zvals_ok:
  assumes "\<forall>z \<in> set zs. \<not> isl z" "set (targets s (map projr zs)) \<subseteq> {..<size_of s}"
    "payable ph (targets s (map projr zs)) s" "stacked st xs"
  shows "\<exists>next st' s' new. visit_zvals ph zs st s = Inr (next, st', s') \<and>
    children_visited ph (targets s (map projr zs)) s next st' s' xs new"
  using assms
proof (induction zs arbitrary: s)
  case Nil
  then show ?case by (intro exI [of _ None] exI [of _ st] exI [of _ s] exI [of _ "[]"])
    (simp add: children_visited_def fresh_def targets_def map_filter_simps)
next
  case (Cons z zs)
  then obtain v where z: "z = Inr v" by (cases z) auto
  show ?case
  proof (cases "Z_COLLECTABLE s v")
    case None
    then show ?thesis using Cons.IH [of s] Cons.prems z by (simp add: targets_Cons)
  next
    case (Some r)
    let ?cs = "targets s (map projr zs)"
    have t: "targets s (map projr (z # zs)) = [r] @ ?cs" using z Some by (simp add: targets_Cons)
    have r: "r < size_of s" using Cons.prems(2) t by simp
    have p: "payable ph [r] s"
      using Cons.prems(3) unfolding t payable_def by (fastforce simp: count_list_append)
    obtain s1 where s1: "gc_visit ph r s = Inr (follows ph (col s r), s1)" "acted ph [r] s s1"
      using gc_visit_ok [OF r p] by blast
    have n: "size_of s1 = size_of s" and tg: "targets s1 = targets s"
      using acted_shape [OF s1(2)] targets_same by (simp_all add: same_shape_def)
    have p1: "payable ph ?cs s1" using payable_append(2) [of ph "[r]" ?cs] Cons.prems(3) t s1(2) by simp
    have b1: "set ?cs \<subseteq> {..<size_of s1}" using Cons.prems(2) t n by simp
    note f = fresh_append [OF acted_acts [OF s1(2)], of ?cs]
    show ?thesis
    proof (cases "follows ph (col s r)")
      case True
      from visit_rest_ok [of zs s1 ph st xs] Cons.prems(1,4) b1 p1
      obtain st2 s2 new where s2: "visit_rest ph zs st s1 = Inr (st2, s2)" "acted ph ?cs s1 s2"
        "stacked st2 (new @ xs)" "distinct new" "set new = fresh ph (col s1) ?cs"
        by (auto simp: tg)
      have "set (r # new) = fresh ph (col s) ([r] @ ?cs)" "r \<notin> set new" using f s2(5) b1 n True by auto
      moreover have "visit_zvals ph (z # zs) st s = Inr (Some r, st2, s2)" using z Some s1(1) True s2(1) by simp
      ultimately show ?thesis using acted_append [OF s1(2) s2(2)] s2(3,4) unfolding t
        by (intro exI [of _ "Some r"] exI [of _ st2] exI [of _ s2] exI [of _ new]) (simp add: children_visited_def)
    next
      case False
      from Cons.IH [of s1] Cons.prems(1,4) b1 p1
      obtain nxt st2 s2 new where s2: "visit_zvals ph zs st s1 = Inr (nxt, st2, s2)" "children_visited ph ?cs s1 nxt st2 s2 xs new"
        by (auto simp: tg)
      have "children_visited ph ([r] @ ?cs) s nxt st2 s2 xs new"
        using s2(2) acted_append [OF s1(2)] f b1 n False unfolding children_visited_def by auto
      moreover have "visit_zvals ph (z # zs) st s = Inr (nxt, st2, s2)" using z Some s1(1) False s2(1) by simp
      ultimately show ?thesis unfolding t by blast
    qed
  qed
qed

subsection \<open>One node\<close>

text \<open>
  The children of \<open>r\<close> were visited, and with it those of \<open>hs\<close>, the table that \<open>get_gc\<close>
  returned, if it was painted. In all phases but the scan the table is then done.
\<close>

definition table_of :: "gc_state \<Rightarrow> nat \<Rightarrow> nat \<Rightarrow> bool" where
  "table_of s r h \<longleftrightarrow>
     (\<exists>obj. gn_body (gs_nodes s ! r) = GcObject obj \<and> \<not> go_free_called obj \<and> fst (go_get_gc obj) = Some h)"

definition processed ::
  "gc_phase \<Rightarrow> nat \<Rightarrow> nat list \<Rightarrow> gc_state \<Rightarrow> nat option \<Rightarrow> stack_top \<Rightarrow> gc_state \<Rightarrow> nat list \<Rightarrow> nat list \<Rightarrow> bool" where
  "processed ph r hs s next st' s' xs new \<longleftrightarrow>
     (hs = [] \<or> (\<exists>h. hs = [h] \<and> h \<in> set (kids s r) \<and> follows ph (col s h))) \<and>
     (\<forall>h \<in> set hs. table_of s r h) \<and> acted ph (concat (map (kids s) (r # hs))) s s' \<and> stacked st' (new @ xs) \<and> distinct (front next @ new) \<and>
     set (front next @ new) = fresh ph (col s) (concat (map (kids s) (r # hs))) - (if ph = Scan then {} else set hs)"

definition visit_node :: "gc_phase \<Rightarrow> nat \<Rightarrow> stack_top \<Rightarrow> gc_state \<Rightarrow> error + (nat option \<times> stack_top \<times> gc_state)" where
  "visit_node ph ref st s =
     (case gn_body (gs_nodes s ! ref) of
        GcObject obj \<Rightarrow> if go_free_called obj then Inr (None, st, s) else visit_get_gc ph (go_get_gc obj) st s
      | GcArray ht \<Rightarrow> handle_ht ph ref st s
      | GcReference v \<Rightarrow> visit_reference ph v st s
      | _ \<Rightarrow> Inr (None, st, s))"

lemma graph_okD:
  assumes "graph_ok s" "r < size_of s"
  shows "set (kids s r) \<subseteq> {..<size_of s}" "r \<noteq> gs_symbol_table s"
    "gn_body (gs_nodes s ! r) = GcArray ht \<Longrightarrow> \<forall>z \<in> set (ht_zvals s ht). \<not> isl z"
    "gn_body (gs_nodes s ! r) = GcObject obj \<Longrightarrow> go_weak obj = None \<and> go_map obj = None"
    "gn_body (gs_nodes s ! r) = GcObject obj \<Longrightarrow> fst (go_get_gc obj) = Some h \<Longrightarrow>
       h < size_of s \<and> (\<exists>ht. gn_body (gs_nodes s ! h) = GcArray ht)"
proof -
  from assms have k: "\<forall>k \<in> set (kids s r). k < size_of s" and c: "case gn_body (gs_nodes s ! r) of
       GcArray ht \<Rightarrow> \<forall>z \<in> set (ht_zvals s ht). \<not> isl z
     | GcObject obj \<Rightarrow> go_weak obj = None \<and> go_map obj = None \<and>
         (\<forall>h. fst (go_get_gc obj) = Some h \<longrightarrow> h < size_of s \<and> (\<exists>ht. gn_body (gs_nodes s ! h) = GcArray ht))
     | _ \<Rightarrow> True" and n: "size_of s \<le> gs_symbol_table s" unfolding graph_ok_def by blast+
  show "set (kids s r) \<subseteq> {..<size_of s}" using k by auto
  show "r \<noteq> gs_symbol_table s" using n assms(2) by simp
  show "gn_body (gs_nodes s ! r) = GcArray ht \<Longrightarrow> \<forall>z \<in> set (ht_zvals s ht). \<not> isl z" using c by simp
  show "gn_body (gs_nodes s ! r) = GcObject obj \<Longrightarrow> go_weak obj = None \<and> go_map obj = None" using c by simp
  show "gn_body (gs_nodes s ! r) = GcObject obj \<Longrightarrow> fst (go_get_gc obj) = Some h \<Longrightarrow>
      h < size_of s \<and> (\<exists>ht. gn_body (gs_nodes s ! h) = GcArray ht)" using c by simp
qed

lemma handle_ht_ok:
  assumes g: "graph_ok s" and h: "h < size_of s" "gn_body (gs_nodes s ! h) = GcArray ht"
    and p: "payable ph (kids s h) s" and st: "stacked st xs"
  shows "\<exists>next st' s' new. handle_ht ph h st s = Inr (next, st', s') \<and> children_visited ph (kids s h) s next st' s' xs new"
proof -
  have k: "kids s h = targets s (map projr (ht_zvals s ht))" using h(2) by (simp add: kids_def)
  show ?thesis
    using visit_zvals_ok [of "ht_zvals s ht" s ph st xs] graph_okD(1,3) [OF g h(1)] h p st
    by (simp add: handle_ht_def node_at_ok k)
qed

lemma visited_processed: "children_visited ph (kids s r) s next st' s' xs new \<Longrightarrow> processed ph r [] s next st' s' xs new"
  by (simp add: children_visited_def processed_def)

lemma table_ok: "\<forall>z \<in> set (map Inr vs :: (error + zval) list). \<not> isl z" "map projr (map Inr vs :: (error + zval) list) = vs"
  by (simp_all add: o_def)

lemma visit_get_gc_ok:
  assumes g: "graph_ok s" and r: "r < size_of s" "gn_body (gs_nodes s ! r) = GcObject obj" "\<not> go_free_called obj"
    and pay: "\<And>hs. hs = [] \<or> (\<exists>h. hs = [h] \<and> h \<in> set (kids s r) \<and> follows ph (col s h)) \<Longrightarrow>
      payable ph (concat (map (kids s) (r # hs))) s"
    and st: "stacked st xs"
  shows "\<exists>next st' s' new hs. visit_get_gc ph (go_get_gc obj) st s = Inr (next, st', s') \<and>
    processed ph r hs s next st' s' xs new"
proof -
  obtain ht tab where gc: "go_get_gc obj = (ht, tab)" by fastforce
  have ks: "set (kids s r) \<subseteq> {..<size_of s}" by (rule graph_okD(1) [OF g r(1)])
  have pr: "payable ph (kids s r) s" using pay [of "[]"] by simp
  show ?thesis
  proof (cases ht)
    case None
    have k: "kids s r = targets s tab" using r gc None by (simp add: kids_def)
    have "\<exists>next st' s' new. visit_zvals ph (map Inr tab) st s = Inr (next, st', s') \<and>
        children_visited ph (kids s r) s next st' s' xs new"
      using visit_zvals_ok [of "map Inr tab" s ph st xs] ks pr st table_ok by (simp add: k)
    then show ?thesis using visited_processed gc None unfolding visit_get_gc_def by (auto, blast)
  next
    case (Some h)
    have k: "kids s r = [h] @ targets s tab" using r gc Some by (simp add: kids_def)
    have h: "h < size_of s" using ks k by simp
    obtain ht where body: "gn_body (gs_nodes s ! h) = GcArray ht" using graph_okD(5) [OF g r(1,2)] gc Some by auto
    have ph1: "payable ph [h] s" using pr unfolding k payable_def by (fastforce simp: count_list_append)
    obtain s1 where s1: "gc_visit ph h s = Inr (follows ph (col s h), s1)" "acted ph [h] s s1"
      using gc_visit_ok [OF h ph1] by blast
    note sh1 = acted_shape [OF s1(2)]
    have n1: "size_of s1 = size_of s" and tg1: "targets s1 = targets s"
      using sh1 targets_same by (simp_all add: same_shape_def)
    have b1: "set (targets s tab) \<subseteq> {..<size_of s}" using ks k by simp
    note f1 = fresh_append [OF acted_acts [OF s1(2)] b1]
    show ?thesis
    proof (cases "follows ph (col s h)")
      case False
      have "payable ph (targets s tab) s1" using payable_append(2) [of ph "[h]"] pr k s1(2) by simp
      then obtain nxt st2 s2 new where s2: "visit_zvals ph (map Inr tab) st s1 = Inr (nxt, st2, s2)"
        "children_visited ph (targets s tab) s1 nxt st2 s2 xs new"
        using visit_zvals_ok [of "map Inr tab" s1 ph st xs] b1 st table_ok by (auto simp: tg1 n1)
      have "processed ph r [] s nxt st2 s2 xs new"
        using s2(2) acted_append [OF s1(2)] f1 False by (simp add: processed_def children_visited_def k)
      moreover have "visit_get_gc ph (go_get_gc obj) st s = Inr (nxt, st2, s2)"
        using s1(1) False s2(1) gc Some by (simp add: visit_get_gc_def)
      ultimately show ?thesis by blast
    next
      case True
      let ?push = "if ph = Scan then [h] else []"
      have pall: "payable ph ([h] @ targets s tab @ kids s h) s"
        using pay [of "[h]"] True k by simp
      obtain st1 where st1: "(if ph = Scan then gc_stack_push h st else Inr st) = Inr st1" "stacked st1 (?push @ xs)"
      proof -
        obtain st' where "gc_stack_push h st = Inr st'" "stacked st' (h # xs)" using push_ok [OF st] by blast
        then show thesis using that [of st'] that [of st] st by (cases "ph = Scan") simp_all
      qed
      have p1: "payable ph (targets s tab @ kids s h) s1" using payable_append(2) [OF pall s1(2)] .
      have p1': "payable ph (targets s tab) s1" using p1 unfolding payable_def by (fastforce simp: count_list_append)
      obtain st2 s2 new1 where s2: "visit_rest ph (map Inr tab) st1 s1 = Inr (st2, s2)" "acted ph (targets s tab) s1 s2"
        "stacked st2 (new1 @ ?push @ xs)" "distinct new1" "set new1 = fresh ph (col s1) (targets s tab)"
        using visit_rest_ok [of "map Inr tab" s1 ph st1 "?push @ xs"] b1 p1' st1(2) table_ok by (auto simp: tg1 n1)
      note sh2 = same_shape_trans [OF sh1 acted_shape [OF s2(2)]]
      have n2: "size_of s2 = size_of s" "graph_ok s2" "kids s2 h = kids s h" "gn_body (gs_nodes s2 ! h) = GcArray ht"
        using sh2 graph_same [OF sh2 g] kids_same [OF sh2 h] h body by (simp_all add: same_shape_def)
      have p2: "payable ph (kids s h) s2" using payable_append(2) [OF p1 s2(2)] .
      obtain nxt st3 s3 new2 where s3: "handle_ht ph h st2 s2 = Inr (nxt, st3, s3)"
        "children_visited ph (kids s h) s2 nxt st3 s3 (new1 @ ?push @ xs) new2"
        using handle_ht_ok [OF n2(2) _ n2(4), of ph st2 "new1 @ ?push @ xs"] h n2 p2 s2(3) by auto
      note b2 = graph_okD(1) [OF g h]
      note a12 = acted_append [OF s1(2) s2(2)]
      have a: "acted ph (concat (map (kids s) (r # [h]))) s s3"
        using acted_append [OF a12, of "kids s h" s3] s3(2) by (simp add: children_visited_def k)
      note f2 = fresh_append [OF acted_acts [OF a12] b2]
      have e1: "fresh ph (col s) ([h] @ targets s tab) = {h} \<union> fresh ph (col s1) (targets s tab)"
          "h \<notin> fresh ph (col s1) (targets s tab)"
        using f1 True by auto
      have disj: "fresh ph (col s1) (targets s tab) \<inter> fresh ph (col s2) (kids s h) = {}"
          and hh: "h \<notin> fresh ph (col s1) (targets s tab)" "h \<notin> fresh ph (col s2) (kids s h)"
        using f2(2) e1 unfolding e1(1) by auto
      have st: "fresh ph (col s) (concat (map (kids s) (r # [h]))) =
          {h} \<union> fresh ph (col s1) (targets s tab) \<union> fresh ph (col s2) (kids s h)"
        using f2(1) unfolding e1(1) by (simp add: k)
      have "distinct (front nxt @ new2 @ new1 @ ?push)"
      proof -
        have "set (front nxt @ new2) \<inter> set new1 = {}" "h \<notin> set (front nxt @ new2)" "h \<notin> set new1"
            "distinct (front nxt @ new2)"
          using s3(2) s2(5) disj hh unfolding children_visited_def by (simp_all add: Int_commute)
        then show ?thesis using s2(4) by auto
      qed
      moreover have "set (front nxt @ new2 @ new1 @ ?push) =
          fresh ph (col s) (concat (map (kids s) (r # [h]))) - (if ph = Scan then {} else set [h])"
        unfolding st using s3(2) s2(5) hh by (auto simp: children_visited_def)
      ultimately have "processed ph r [h] s nxt st3 s3 xs (new2 @ new1 @ ?push)"
        using a s3(2) True k r(2,3) gc Some unfolding processed_def table_of_def by (simp add: children_visited_def)
      moreover have "visit_get_gc ph (go_get_gc obj) st s = Inr (nxt, st3, s3)"
        using s1(1) True st1(1) s2(1) s3(1) gc Some by (simp add: visit_get_gc_def)
      ultimately show ?thesis by blast
    qed
  qed
qed

lemma visit_reference_ok:
  assumes "graph_ok s" "r < size_of s" "gn_body (gs_nodes s ! r) = GcReference v" "payable ph (kids s r) s" "stacked st xs"
  shows "\<exists>next st' s' new. visit_reference ph v st s = Inr (next, st', s') \<and> processed ph r [] s next st' s' xs new"
proof (cases "Z_COLLECTABLE s v")
  case None
  then have "kids s r = []" using assms(3) by (simp add: kids_def targets_Cons) (simp add: targets_def map_filter_simps)
  then show ?thesis using None assms(5)
    by (intro exI [of _ None] exI [of _ st] exI [of _ s] exI [of _ "[]"]) (simp add: visit_reference_def processed_def fresh_def)
next
  case (Some k)
  then have ks: "kids s r = [k]" using assms(3) by (simp add: kids_def targets_Cons) (simp add: targets_def map_filter_simps)
  then have k: "k < size_of s" using graph_okD(1) [OF assms(1,2)] by simp
  obtain s1 where s1: "gc_visit ph k s = Inr (follows ph (col s k), s1)" "acted ph [k] s s1"
    using gc_visit_ok [OF k] assms(4) ks by auto
  let ?nxt = "if follows ph (col s k) then Some k else None"
  have "processed ph r [] s ?nxt st s1 xs []" using s1(2) assms(5) by (simp add: processed_def ks)
  moreover have "visit_reference ph v st s = Inr (?nxt, st, s1)" using Some s1(1) by (simp add: visit_reference_def)
  ultimately show ?thesis by blast
qed

lemma visit_node_ok:
  assumes g: "graph_ok s" and r: "r < size_of s"
    and pay: "\<And>hs. hs = [] \<or> (\<exists>h. hs = [h] \<and> h \<in> set (kids s r) \<and> follows ph (col s h)) \<Longrightarrow>
      payable ph (concat (map (kids s) (r # hs))) s"
    and st: "stacked st xs"
  shows "\<exists>next st' s' new hs. visit_node ph r st s = Inr (next, st', s') \<and> processed ph r hs s next st' s' xs new"
proof -
  have leaf: ?thesis if "kids s r = []" "visit_node ph r st s = Inr (None, st, s)"
    using that st by (intro exI [of _ None] exI [of _ st] exI [of _ s] exI [of _ "[]"])
      (simp add: processed_def fresh_def)
  have p: "payable ph (kids s r) s" using pay [of "[]"] by simp
  show ?thesis
  proof (cases "gn_body (gs_nodes s ! r)")
    case (GcArray ht)
    from handle_ht_ok [OF g r GcArray p st] GcArray visited_processed show ?thesis
      unfolding visit_node_def by (simp, blast)
  next
    case (GcObject obj)
    show ?thesis
    proof (cases "go_free_called obj")
      case True
      then show ?thesis using GcObject by (intro leaf) (simp_all add: kids_def visit_node_def)
    next
      case False
      from visit_get_gc_ok [OF g r GcObject False pay st] GcObject False show ?thesis by (simp add: visit_node_def)
    qed
  next
    case (GcReference v)
    from visit_reference_ok [OF g r GcReference p st] GcReference show ?thesis
      unfolding visit_node_def by (simp, blast)
  next
    case GcNull
    then show ?thesis by (intro leaf) (simp_all add: kids_def visit_node_def)
  next
    case GcString
    then show ?thesis by (intro leaf) (simp_all add: kids_def visit_node_def)
  qed
qed

text \<open>Without weak maps the functions do no more than this.\<close>

lemma mark_grey_node_eq: "graph_ok s \<Longrightarrow> r < size_of s \<Longrightarrow> mark_grey_node r st s = visit_node MarkGrey r st s"
  using graph_okD(2,4) [of s r] by (auto simp: mark_grey_node_def visit_node_def node_at_ok split: gc_body.split)

lemma scan_black_node_eq: "graph_ok s \<Longrightarrow> r < size_of s \<Longrightarrow> scan_black_node r st s = visit_node ScanBlack r st s"
  using graph_okD(2,4) [of s r] by (auto simp: scan_black_node_def visit_node_def node_at_ok split: gc_body.split)

end
