(* ===== verification/GcMark.thy ===== *)
theory GcMark
  imports GcGraph
begin

text \<open>
  The traversal loop as a worklist, and the three traversals that flood the graph from one
  node: \<open>gc_mark_grey\<close>, \<open>gc_scan_black\<close> and (in a later theory) \<open>gc_collect_white\<close>.
\<close>

subsection \<open>The contract of a traversal\<close>

locale worklist =
  fixes node :: "nat \<Rightarrow> stack_top \<Rightarrow> 's \<Rightarrow> error + (nat option \<times> stack_top \<times> 's)"
    and inv :: "nat list \<Rightarrow> 's \<Rightarrow> bool"
    and meas :: "nat list \<Rightarrow> 's \<Rightarrow> nat"
  assumes step: "inv (r # xs) s \<Longrightarrow> stacked st xs \<Longrightarrow>
    \<exists>next st' s' new. node r st s = Inr (next, st', s') \<and> stacked st' (new @ xs) \<and>
      inv (front next @ new @ xs) s' \<and> meas (front next @ new @ xs) s' < meas (r # xs) s"
begin

lemma traverse_ok:
  "inv (r # xs) s \<Longrightarrow> stacked st xs \<Longrightarrow> meas (r # xs) s \<le> fuel \<Longrightarrow>
     \<exists>stack s'. traverse node fuel r st s = Inr (stack, s') \<and> stack_base stack \<and> inv [] s'"
proof (induction fuel arbitrary: r xs st s)
  case 0
  from step [OF 0(1,2)] 0(3) show ?case by auto
next
  case (Suc fuel)
  from step [OF Suc.prems(1,2)] obtain nxt st1 s1 new where n: "node r st s = Inr (nxt, st1, s1)"
    "stacked st1 (new @ xs)" "inv (front nxt @ new @ xs) s1" "meas (front nxt @ new @ xs) s1 < meas (r # xs) s" by blast
  then have m: "meas (front nxt @ new @ xs) s1 \<le> fuel" using Suc.prems(3) by linarith
  show ?case
  proof (cases nxt)
    case (Some k)
    with Suc.IH [of k "new @ xs" s1 st1] n m show ?thesis by simp
  next
    case None
    show ?thesis
    proof (cases "new @ xs")
      case Nil
      then obtain stack where "st1 = (stack, 0)" "stack_base stack" "gc_stack_pop st1 = Inr (None, st1)"
        using pop_empty n(2) by metis
      with n None Nil show ?thesis by simp
    next
      case (Cons k ys)
      then obtain st2 where st2: "gc_stack_pop st1 = Inr (Some k, st2)" "stacked st2 ys" using pop_ok n(2) by metis
      with Suc.IH [of k ys s1 st2] n m None Cons show ?thesis by simp
    qed
  qed
qed

end

subsection \<open>Flooding\<close>

text \<open>The references from a set of nodes to a node.\<close>

definition refs :: "(nat \<Rightarrow> nat list) \<Rightarrow> nat set \<Rightarrow> nat \<Rightarrow> nat" where
  "refs K D n = (\<Sum>d \<in> D. count_list (K d) n)"

definition edges :: "nat \<Rightarrow> (nat \<Rightarrow> nat list) \<Rightarrow> (nat \<times> nat) set" where
  "edges len K = {(d, k). d < len \<and> k \<in> set (K d)}"

lemma refs_empty [simp]: "refs K {} n = 0"
  by (simp add: refs_def)

lemma refs_union: "finite A \<Longrightarrow> finite B \<Longrightarrow> A \<inter> B = {} \<Longrightarrow> refs K (A \<union> B) n = refs K A n + refs K B n"
  by (simp add: refs_def sum.union_disjoint)

lemma refs_mono: "finite B \<Longrightarrow> A \<subseteq> B \<Longrightarrow> refs K A n \<le> refs K B n"
  by (simp add: refs_def sum_mono2)

lemma refs_list: "distinct T \<Longrightarrow> count_list (concat (map K T)) n = refs K (set T) n"
  by (induction T) (simp_all add: refs_def count_list_append)

lemma refs_0: "\<forall>d \<in> D. n \<notin> set (K d) \<Longrightarrow> refs K D n = 0"
  by (simp add: refs_def count_notin)

lemma refs_pos: "finite D \<Longrightarrow> d \<in> D \<Longrightarrow> n \<in> set (K d) \<Longrightarrow> 0 < refs K D n"
  unfolding refs_def by (rule sum_pos2 [of D d]) (auto simp: count_list_0_iff neq0_conv [symmetric])

text \<open>
  From \<open>r0\<close>, painted at the start, the nodes \<open>D\<close> are done and those of \<open>W\<close> wait. The counts
  of what \<open>D\<close> refers to have been changed, and every child of it has been painted.
\<close>

definition flooding ::
  "gc_phase \<Rightarrow> (nat \<Rightarrow> nat list) \<Rightarrow> nat \<Rightarrow> nat \<Rightarrow> (nat \<Rightarrow> 32 word) \<Rightarrow> (nat \<Rightarrow> nat) \<Rightarrow> nat set \<Rightarrow> nat list \<Rightarrow>
     (nat \<Rightarrow> 32 word) \<Rightarrow> (nat \<Rightarrow> nat) \<Rightarrow> bool" where
  "flooding ph K len r0 c0 q0 D W c q \<longleftrightarrow>
     distinct W \<and> D \<inter> set W = {} \<and> D \<union> set W \<subseteq> {..<len} \<and> r0 \<in> D \<union> set W \<and> c0 r0 = color_of ph \<and>
     (\<forall>n < len. c n = (if n \<in> D \<union> set W then color_of ph else c0 n)) \<and>
     (\<forall>n \<in> D \<union> set W. n \<noteq> r0 \<longrightarrow> follows ph (c0 n)) \<and>
     (\<forall>n < len. q n = bump ph (refs K D n) (q0 n)) \<and>
     (\<forall>d \<in> D. \<forall>k \<in> set (K d). \<not> follows ph (c k)) \<and>
     (\<forall>n \<in> D \<union> set W. (r0, n) \<in> (edges len K)\<^sup>*)"

lemma floodingD:
  assumes "flooding ph K len r0 c0 q0 D W c q"
  shows "distinct W" "D \<inter> set W = {}" "D \<union> set W \<subseteq> {..<len}" "r0 \<in> D \<union> set W" "c0 r0 = color_of ph"
    "\<And>n. n < len \<Longrightarrow> c n = (if n \<in> D \<union> set W then color_of ph else c0 n)"
    "\<And>n. n \<in> D \<union> set W \<Longrightarrow> n \<noteq> r0 \<Longrightarrow> follows ph (c0 n)"
    "\<And>n. n < len \<Longrightarrow> q n = bump ph (refs K D n) (q0 n)"
    "\<And>d k. d \<in> D \<Longrightarrow> k \<in> set (K d) \<Longrightarrow> \<not> follows ph (c k)"
    "\<And>n. n \<in> D \<union> set W \<Longrightarrow> (r0, n) \<in> (edges len K)\<^sup>*"
  using assms unfolding flooding_def by blast+

lemma flooding_start:
  "r0 < len \<Longrightarrow> c0 r0 = color_of ph \<Longrightarrow> flooding ph K len r0 c0 q0 {} [r0] c0 q0"
  by (simp add: flooding_def)

lemma flooding_step:
  assumes f: "flooding ph K len r0 c0 q0 D (r # W) c q"
    and hs: "hs = [] \<or> (\<exists>h. hs = [h] \<and> h \<in> set (K r) \<and> follows ph (c h))"
    and a: "acts ph len (concat (map K (r # hs))) c q c' q'"
    and new: "distinct new" "set new = fresh ph c (concat (map K (r # hs))) - set hs"
    and b: "\<And>d. d < len \<Longrightarrow> set (K d) \<subseteq> {..<len}"
  shows "flooding ph K len r0 c0 q0 (D \<union> set (r # hs)) (new @ W) c' q'"
    "card {n. n < len \<and> follows ph (c' n)} + length (new @ W) < card {n. n < len \<and> follows ph (c n)} + length (r # W)"
proof -
  note d = floodingD [OF f]
  let ?T = "r # hs" and ?cs = "concat (map K (r # hs))"
  have r: "r < len" "r \<notin> D" "r \<notin> set W" "(r0, r) \<in> (edges len K)\<^sup>*" using d(1,2,3,10) by auto
  have painted: "\<not> follows ph (c n)" if "n \<in> D \<union> set (r # W)" for n
  proof -
    have "n < len" using that d(3) by blast
    then show ?thesis using that d(6) by simp
  qed
  have h: "h < len" "h \<notin> D" "h \<notin> set (r # W)" "(r, h) \<in> edges len K" "follows ph (c h)" if "h \<in> set hs" for h
    using that hs b [OF r(1)] painted [of h] r(1) by (auto simp: edges_def)
  have dT: "distinct ?T" using hs h by auto
  have T: "set ?T \<subseteq> {..<len}" "D \<inter> set ?T = {}" using r h by auto
  have Tr: "(r0, t) \<in> (edges len K)\<^sup>*" if "t \<in> set ?T" for t
    using that r(4) h(4) by (auto intro: rtrancl_into_rtrancl)
  have cs: "set ?cs \<subseteq> {..<len}" using b T(1) by (fastforce)
  have hs_cs: "set hs \<subseteq> fresh ph c ?cs" using hs h(5) by (auto simp: fresh_def)
  have c': "c' n = (if n \<in> fresh ph c ?cs then color_of ph else c n)" if "n < len" for n
    using a that by (auto simp: acts_def fresh_def)
  have q': "q' n = bump ph (refs K (set ?T) n) (q n)" if "n < len" for n
    using a that refs_list [OF dT, of K n] by (simp add: acts_def)
  have fin: "finite D" using d(3) finite_subset by blast
  have fr: "fresh ph c ?cs = set new \<union> set hs" "set new \<inter> set hs = {}" using new(2) hs_cs by auto
  have newb: "n < len" "follows ph (c n)" "n \<notin> D \<union> set (r # W)" if "n \<in> set new" for n
    using that new(2) cs painted [of n] by (auto simp: fresh_def)
  have all: "(D \<union> set ?T) \<union> set (new @ W) = (D \<union> set (r # W)) \<union> fresh ph c ?cs" using fr(1) by auto
  have frb: "fresh ph c ?cs \<subseteq> {..<len}" using cs by (auto simp: fresh_def)
  show "flooding ph K len r0 c0 q0 (D \<union> set ?T) (new @ W) c' q'"
    unfolding flooding_def all
  proof (intro conjI ballI allI impI)
    show "distinct (new @ W)" using new(1) d(1) newb by auto
    show "(D \<union> set ?T) \<inter> set (new @ W) = {}" using d(1,2) newb h r fr(2) by auto
    show "(D \<union> set (r # W)) \<union> fresh ph c ?cs \<subseteq> {..<len}" using d(3) frb by blast
    show "r0 \<in> (D \<union> set (r # W)) \<union> fresh ph c ?cs" using d(4) by blast
    show "c0 r0 = color_of ph" by (rule d(5))
  next
    fix n assume "n < len"
    then show "c' n = (if n \<in> (D \<union> set (r # W)) \<union> fresh ph c ?cs then color_of ph else c0 n)"
      using c' d(6) by simp
  next
    fix n assume n: "n \<in> (D \<union> set (r # W)) \<union> fresh ph c ?cs" "n \<noteq> r0"
    show "follows ph (c0 n)"
    proof (cases "n \<in> D \<union> set (r # W)")
      case False
      then have "n \<in> fresh ph c ?cs" using n(1) by blast
      then have "follows ph (c n)" "n < len" using frb by (auto simp: fresh_def)
      then show ?thesis using d(6) False by simp
    qed (use d(7) n(2) in blast)
  next
    fix n assume n: "n < len"
    have "refs K (D \<union> set ?T) n = refs K D n + refs K (set ?T) n" using refs_union [OF fin _ T(2)] by simp
    then show "q' n = bump ph (refs K (D \<union> set ?T) n) (q0 n)" using q' [OF n] d(8) [OF n] by (simp add: bump_bump)
  next
    fix t k assume t: "t \<in> D \<union> set ?T" "k \<in> set (K t)"
    have k: "k < len" using b t d(3) T(1) by blast
    show "\<not> follows ph (c' k)"
    proof (cases "k \<in> fresh ph c ?cs")
      case True
      then show ?thesis using c' [OF k] by simp
    next
      case False
      have "\<not> follows ph (c k)"
      proof (cases "t \<in> D")
        case True
        then show ?thesis using d(9) t(2) by blast
      next
        case F: False
        then have "k \<in> set ?cs" using t by auto
        then show ?thesis using False by (simp add: fresh_def)
      qed
      then show ?thesis using c' [OF k] False by simp
    qed
  next
    fix n assume n: "n \<in> (D \<union> set (r # W)) \<union> fresh ph c ?cs"
    show "(r0, n) \<in> (edges len K)\<^sup>*"
    proof (cases "n \<in> D \<union> set (r # W)")
      case False
      then obtain t where t: "t \<in> set ?T" "n \<in> set (K t)" using n by (auto simp: fresh_def)
      then have "(t, n) \<in> edges len K" using T(1) by (auto simp: edges_def)
      then show ?thesis using Tr [OF t(1)] by (rule rtrancl_into_rtrancl [rotated])
    qed (use d(10) in blast)
  qed
  have "{n. n < len \<and> follows ph (c' n)} = {n. n < len \<and> follows ph (c n)} - fresh ph c ?cs"
  proof -
    have "follows ph (c' n) \<longleftrightarrow> follows ph (c n) \<and> n \<notin> fresh ph c ?cs" if "n < len" for n
      using c' [OF that] by simp
    then show ?thesis by blast
  qed
  moreover have "fresh ph c ?cs \<subseteq> {n. n < len \<and> follows ph (c n)}" using frb by (auto simp: fresh_def)
  ultimately have "card {n. n < len \<and> follows ph (c' n)} + card (fresh ph c ?cs) = card {n. n < len \<and> follows ph (c n)}"
    by (simp add: card_Diff_subset finite_subset card_mono)
  moreover have "card (set new) \<le> card (fresh ph c ?cs)" unfolding fr(1) by (intro card_mono) auto
  ultimately show "card {n. n < len \<and> follows ph (c' n)} + length (new @ W) < card {n. n < len \<and> follows ph (c n)} + length (r # W)"
    using distinct_card [OF new(1)] by simp
qed

subsection \<open>The floods of the program\<close>

text \<open>The root buffer as it was, apart from colours.\<close>

definition same_buffer :: "gc_state \<Rightarrow> gc_state \<Rightarrow> bool" where
  "same_buffer s s' \<longleftrightarrow>
     gs_globals s' = gs_globals s \<and>
     (\<forall>r < size_of s. addr s' r = addr s r \<and> (gn_info (gs_nodes s ! r) < 2 ^ 22 \<longrightarrow> gn_info (gs_nodes s' ! r) < 2 ^ 22))"

lemma same_buffer_refl [simp]: "same_buffer s s"
  by (simp add: same_buffer_def)

lemma same_buffer_trans: "size_of t = size_of s \<Longrightarrow> same_buffer s t \<Longrightarrow> same_buffer t u \<Longrightarrow> same_buffer s u"
  by (simp add: same_buffer_def)

lemma acted_buffer: "acted ph cs s t \<Longrightarrow> same_buffer s t"
  by (simp add: acted_def same_buffer_def)

text \<open>When counts are taken off, every node that may be reached must have its references counted.\<close>

definition budget :: "gc_phase \<Rightarrow> nat \<Rightarrow> gc_state \<Rightarrow> bool" where
  "budget ph r0 s \<longleftrightarrow>
     (ph = MarkGrey \<longrightarrow> (\<forall>n < size_of s. refs (kids s) ({d. d < size_of s \<and> follows ph (col s d)} \<union> {r0}) n \<le> rc s n))"

definition flood_inv :: "gc_phase \<Rightarrow> gc_state \<Rightarrow> nat \<Rightarrow> nat list \<Rightarrow> gc_state \<Rightarrow> bool" where
  "flood_inv ph s0 r0 W s \<longleftrightarrow>
     graph_ok s0 \<and> same_shape s0 s \<and> same_buffer s0 s \<and> budget ph r0 s0 \<and>
     (\<exists>D. flooding ph (kids s0) (size_of s0) r0 (col s0) (rc s0) D W (col s) (rc s))"

definition flood_meas :: "gc_phase \<Rightarrow> nat list \<Rightarrow> gc_state \<Rightarrow> nat" where
  "flood_meas ph W s = card {n. n < size_of s \<and> follows ph (col s n)} + length W"

lemma flood_payable:
  assumes f: "flooding ph K len r0 c0 q0 D (r # W) (col s) (rc s)" and len: "len = size_of s"
    and hs: "hs = [] \<or> (\<exists>h. hs = [h] \<and> h \<in> set (K r) \<and> follows ph (col s h))"
    and bud: "\<And>n. n < len \<Longrightarrow> refs K ({d. d < len \<and> follows ph (c0 d)} \<union> {r0}) n \<le> q0 n"
    and b: "\<And>d. d < len \<Longrightarrow> set (K d) \<subseteq> {..<len}"
  shows "payable MarkGrey (concat (map K (r # hs))) s \<or> ph \<noteq> MarkGrey"
proof (cases "ph = MarkGrey")
  case True
  note d = floodingD [OF f]
  have r: "r < len" "r \<notin> D" using d(2,3) by auto
  have h: "h < len \<and> h \<notin> D \<and> h \<noteq> r \<and> follows ph (c0 h)" if "h \<in> set hs" for h
  proof -
    have hl: "h < len" "follows ph (col s h)" using that hs b [OF r(1)] by auto
    then have "h \<notin> D \<union> set (r # W)" using d(6) [OF hl(1)] by (auto split: if_splits)
    then show ?thesis using hl d(6) [OF hl(1)] by auto
  qed
  have dT: "distinct (r # hs)" using hs h by auto
  have fin: "finite D" using d(3) finite_subset by blast
  have disj: "D \<inter> set (r # hs) = {}" using r h by auto
  have sub: "D \<union> set (r # hs) \<subseteq> {d. d < len \<and> follows ph (c0 d)} \<union> {r0}"
    using d(3,7) h by auto
  have "count_list (concat (map K (r # hs))) n \<le> rc s n" if n: "n < len" for n
  proof -
    have "refs K D n + refs K (set (r # hs)) n = refs K (D \<union> set (r # hs)) n"
      using refs_union [OF fin _ disj, of K n] by simp
    also have "\<dots> \<le> refs K ({d. d < len \<and> follows ph (c0 d)} \<union> {r0}) n"
      by (rule refs_mono [OF _ sub]) simp
    also have "\<dots> \<le> q0 n" by (rule bud [OF n])
    finally have "refs K (set (r # hs)) n \<le> q0 n - refs K D n" by simp
    then show ?thesis using d(8) [OF n] True refs_list [OF dT, of K n] by (simp add: bump_def)
  qed
  then show ?thesis by (simp add: payable_def len)
qed simp

lemma flood_step:
  assumes inv: "flood_inv ph s0 r0 (r # W) s" and st: "stacked st W" and ph: "ph \<noteq> Scan"
  shows "\<exists>next st' s' new. visit_node ph r st s = Inr (next, st', s') \<and> stacked st' (new @ W) \<and>
    flood_inv ph s0 r0 (front next @ new @ W) s' \<and> flood_meas ph (front next @ new @ W) s' < flood_meas ph (r # W) s"
proof -
  let ?K = "kids s0" and ?len = "size_of s0"
  from inv obtain D where D: "graph_ok s0" "same_shape s0 s" "same_buffer s0 s" "budget ph r0 s0"
    "flooding ph ?K ?len r0 (col s0) (rc s0) D (r # W) (col s) (rc s)" unfolding flood_inv_def by blast
  note d = floodingD [OF D(5)]
  have len: "size_of s = ?len" using D(2) by (simp add: same_shape_def)
  have g: "graph_ok s" by (rule graph_same [OF D(2,1)])
  have r: "r < size_of s" using d(3) by (simp add: len)
  have b: "\<And>d. d < ?len \<Longrightarrow> set (?K d) \<subseteq> {..<?len}" using graph_okD(1) [OF D(1)] .
  have kid: "kids s d = ?K d" if "d < ?len" for d by (rule kids_same [OF D(2) that])
  have kidr: "kids s r = ?K r" using kid r len by simp
  have T: "map (kids s) (r # hs) = map ?K (r # hs)"
    if "hs = [] \<or> (\<exists>h. hs = [h] \<and> h \<in> set (?K r) \<and> follows ph (col s h))" for hs
    using that kid b r len by (auto simp: subset_eq)
  have pay: "payable ph (concat (map (kids s) (r # hs))) s"
    if hs: "hs = [] \<or> (\<exists>h. hs = [h] \<and> h \<in> set (kids s r) \<and> follows ph (col s h))" for hs
  proof (cases "ph = MarkGrey")
    case True
    have hs': "hs = [] \<or> (\<exists>h. hs = [h] \<and> h \<in> set (?K r) \<and> follows ph (col s h))" using hs kidr by simp
    have bud: "\<And>n. n < ?len \<Longrightarrow> refs ?K ({d. d < ?len \<and> follows ph (col s0 d)} \<union> {r0}) n \<le> rc s0 n"
      using D(4) True by (simp add: budget_def)
    from flood_payable [OF D(5) len [symmetric] hs' bud b] True show ?thesis unfolding T [OF hs'] by simp
  qed (simp add: payable_def)
  obtain nxt st' s' new hs where v: "visit_node ph r st s = Inr (nxt, st', s')" "processed ph r hs s nxt st' s' W new"
    using visit_node_ok [OF g r pay st] by blast
  have hs: "hs = [] \<or> (\<exists>h. hs = [h] \<and> h \<in> set (?K r) \<and> follows ph (col s h))"
    and a: "acted ph (concat (map ?K (r # hs))) s s'" and st': "stacked st' (new @ W)"
    and n: "distinct (front nxt @ new)" "set (front nxt @ new) = fresh ph (col s) (concat (map ?K (r # hs))) - set hs"
  proof -
    show hs: "hs = [] \<or> (\<exists>h. hs = [h] \<and> h \<in> set (?K r) \<and> follows ph (col s h))"
      using v(2) kidr by (simp add: processed_def)
    show "acted ph (concat (map ?K (r # hs))) s s'" "stacked st' (new @ W)" "distinct (front nxt @ new)"
      "set (front nxt @ new) = fresh ph (col s) (concat (map ?K (r # hs))) - set hs"
      using v(2) ph unfolding processed_def T [OF hs] by simp_all
  qed
  have acts: "acts ph ?len (concat (map ?K (r # hs))) (col s) (rc s) (col s') (rc s')"
    using acted_acts [OF a] by (simp add: len)
  note fs = flooding_step [OF D(5) hs acts n b]
  have sh: "same_shape s0 s'" using same_shape_trans [OF D(2) acted_shape [OF a]] .
  have bu: "same_buffer s0 s'" using same_buffer_trans [OF len D(3) acted_buffer [OF a]] .
  have "flood_inv ph s0 r0 (front nxt @ new @ W) s'"
    using D(1,4) sh bu fs(1) unfolding flood_inv_def by auto
  moreover have "flood_meas ph (front nxt @ new @ W) s' < flood_meas ph (r # W) s"
    using fs(2) sh len by (simp add: flood_meas_def same_shape_def)
  ultimately show ?thesis using v(1) st' by blast
qed

lemma flood_inv_node:
  assumes "flood_inv ph s0 r0 (r # W) s"
  shows "graph_ok s" "r < size_of s"
proof -
  from assms obtain D where D: "graph_ok s0" "same_shape s0 s"
    "flooding ph (kids s0) (size_of s0) r0 (col s0) (rc s0) D (r # W) (col s) (rc s)" unfolding flood_inv_def by blast
  show "graph_ok s" by (rule graph_same [OF D(2,1)])
  show "r < size_of s" using floodingD(3) [OF D(3)] D(2) by (simp add: same_shape_def)
qed

interpretation grey: worklist mark_grey_node "flood_inv MarkGrey s0 r0" "flood_meas MarkGrey" for s0 r0
proof
  fix r xs s st assume a: "flood_inv MarkGrey s0 r0 (r # xs) s" "stacked st xs"
  show "\<exists>next st' s' new. mark_grey_node r st s = Inr (next, st', s') \<and> stacked st' (new @ xs) \<and>
      flood_inv MarkGrey s0 r0 (front next @ new @ xs) s' \<and>
      flood_meas MarkGrey (front next @ new @ xs) s' < flood_meas MarkGrey (r # xs) s"
    unfolding mark_grey_node_eq [OF flood_inv_node [OF a(1)]] using flood_step [OF a] by simp
qed

interpretation black: worklist scan_black_node "flood_inv ScanBlack s0 r0" "flood_meas ScanBlack" for s0 r0
proof
  fix r xs s st assume a: "flood_inv ScanBlack s0 r0 (r # xs) s" "stacked st xs"
  show "\<exists>next st' s' new. scan_black_node r st s = Inr (next, st', s') \<and> stacked st' (new @ xs) \<and>
      flood_inv ScanBlack s0 r0 (front next @ new @ xs) s' \<and>
      flood_meas ScanBlack (front next @ new @ xs) s' < flood_meas ScanBlack (r # xs) s"
    unfolding scan_black_node_eq [OF flood_inv_node [OF a(1)]] using flood_step [OF a] by simp
qed

text \<open>The whole flood: \<open>D\<close> is closed, is reached from \<open>r0\<close>, and its references have been counted.\<close>

definition flooded :: "gc_phase \<Rightarrow> nat \<Rightarrow> nat set \<Rightarrow> gc_state \<Rightarrow> gc_state \<Rightarrow> bool" where
  "flooded ph r0 D s s' \<longleftrightarrow>
     same_shape s s' \<and> same_buffer s s' \<and> r0 \<in> D \<and> D \<subseteq> {..<size_of s} \<and>
     (\<forall>n < size_of s. col s' n = (if n \<in> D then color_of ph else col s n)) \<and>
     (\<forall>n < size_of s. rc s' n = bump ph (refs (kids s) D n) (rc s n)) \<and>
     (\<forall>n \<in> D. n \<noteq> r0 \<longrightarrow> follows ph (col s n)) \<and>
     (\<forall>d \<in> D. \<forall>k \<in> set (kids s d). \<not> follows ph (col s' k)) \<and>
     (\<forall>n \<in> D. (r0, n) \<in> (edges (size_of s) (kids s))\<^sup>*)"

lemma flood_start:
  assumes "graph_ok s" "r < size_of s" "col s r = color_of ph" "budget ph r s"
  shows "flood_inv ph s r [r] s" "flood_meas ph [r] s \<le> gc_fuel s"
proof -
  show "flood_inv ph s r [r] s"
    unfolding flood_inv_def using assms flooding_start [of r "size_of s" "col s" ph "kids s" "rc s"] by auto
  have "card {n. n < size_of s \<and> follows ph (col s n)} \<le> card {..<size_of s}" by (intro card_mono) auto
  then show "flood_meas ph [r] s \<le> gc_fuel s" by (simp add: flood_meas_def gc_fuel_def size_of_def)
qed

lemma flood_end:
  assumes "flood_inv ph s0 r0 [] s"
  obtains D where "flooded ph r0 D s0 s"
proof -
  from assms obtain D where "same_shape s0 s" "same_buffer s0 s"
    "flooding ph (kids s0) (size_of s0) r0 (col s0) (rc s0) D [] (col s) (rc s)" unfolding flood_inv_def by blast
  then have "flooded ph r0 D s0 s" unfolding flooded_def flooding_def by auto
  then show thesis by (rule that)
qed

lemma mark_grey_ok:
  assumes "graph_ok s" "r < size_of s" "col s r = GC_GREY" "budget MarkGrey r s" "stack_base stack"
  obtains stack' s' D where "gc_mark_grey r stack s = Inr (stack', s')" "stack_base stack'" "flooded MarkGrey r D s s'"
proof -
  have c: "col s r = color_of MarkGrey" using assms(3) by (simp add: color_of_def)
  note f = flood_start [OF assms(1,2) c assms(4)]
  from grey.traverse_ok [OF f(1) _ f(2)] assms(5) flood_end that show thesis
    unfolding gc_mark_grey_def stack_base_def by metis
qed

lemma scan_black_ok:
  assumes "graph_ok s" "r < size_of s" "col s r = GC_BLACK" "stack_base stack"
  obtains stack' s' D where "gc_scan_black r stack s = Inr (stack', s')" "stack_base stack'" "flooded ScanBlack r D s s'"
proof -
  have c: "col s r = color_of ScanBlack" using assms(3) by (simp add: color_of_def)
  have b: "budget ScanBlack r s" by (simp add: budget_def)
  note f = flood_start [OF assms(1,2) c b]
  from black.traverse_ok [OF f(1) _ f(2)] assms(4) flood_end that show thesis
    unfolding gc_scan_black_def stack_base_def by metis
qed

lemma floodedD:
  assumes "flooded ph r0 D s s'"
  shows "same_shape s s'" "same_buffer s s'" "r0 \<in> D" "D \<subseteq> {..<size_of s}"
    "\<And>n. n < size_of s \<Longrightarrow> col s' n = (if n \<in> D then color_of ph else col s n)"
    "\<And>n. n < size_of s \<Longrightarrow> rc s' n = bump ph (refs (kids s) D n) (rc s n)"
    "\<And>n. n \<in> D \<Longrightarrow> n \<noteq> r0 \<Longrightarrow> follows ph (col s n)"
    "\<And>d k. d \<in> D \<Longrightarrow> k \<in> set (kids s d) \<Longrightarrow> \<not> follows ph (col s' k)"
    "\<And>n. n \<in> D \<Longrightarrow> (r0, n) \<in> (edges (size_of s) (kids s))\<^sup>*"
  using assms unfolding flooded_def by blast+

subsection \<open>\<open>gc_mark_roots\<close>\<close>

text \<open>
  Before a collection: no node is grey or white, the graph can be walked, and every reference
  that a node holds is counted at its target.
\<close>

definition fully_counted :: "gc_state \<Rightarrow> bool" where
  "fully_counted s \<longleftrightarrow> (\<forall>n < size_of s. refs (kids s) {..<size_of s} n \<le> rc s n)"

text \<open>The nodes \<open>X\<close> are grey, and the references they hold have been taken off the counts.\<close>

definition marked :: "gc_state \<Rightarrow> nat set \<Rightarrow> nat set \<Rightarrow> gc_state \<Rightarrow> bool" where
  "marked s0 R X s \<longleftrightarrow>
     same_shape s0 s \<and> same_buffer s0 s \<and> X \<subseteq> {..<size_of s0} \<and>
     (\<forall>n < size_of s0. col s n = (if n \<in> X then GC_GREY else col s0 n)) \<and>
     (\<forall>n < size_of s0. rc s n = rc s0 n - refs (kids s0) X n) \<and>
     (\<forall>d \<in> X. set (kids s0 d) \<subseteq> X) \<and>
     (\<forall>n \<in> X. \<exists>r \<in> R. (r, n) \<in> (edges (size_of s0) (kids s0))\<^sup>*)"

lemma markedD:
  assumes "marked s0 R X s"
  shows "same_shape s0 s" "same_buffer s0 s" "X \<subseteq> {..<size_of s0}"
    "\<And>n. n < size_of s0 \<Longrightarrow> col s n = (if n \<in> X then GC_GREY else col s0 n)"
    "\<And>n. n < size_of s0 \<Longrightarrow> rc s n = rc s0 n - refs (kids s0) X n"
    "\<And>d. d \<in> X \<Longrightarrow> set (kids s0 d) \<subseteq> X"
    "\<And>n. n \<in> X \<Longrightarrow> \<exists>r \<in> R. (r, n) \<in> (edges (size_of s0) (kids s0))\<^sup>*"
  using assms unfolding marked_def by blast+

lemma marked_mono: "marked s0 R X s \<Longrightarrow> R \<subseteq> R' \<Longrightarrow> marked s0 R' X s"
  unfolding marked_def by blast

lemma set_grey_ok:
  assumes r: "r < size_of s"
  obtains s' where "GC_REF_SET_COLOR r GC_GREY s = Inr s'" "same_shape s s'" "same_buffer s s'" "rc s' = rc s"
    "col s' = (col s)(r := GC_GREY)"
proof -
  obtain s' where "gc_paint MarkGrey r s = Inr s'" "same_shape s s'" "gs_globals s' = gs_globals s"
    "rc s' = rc s" "addr s' = addr s" "col s' = (col s)(r := color_of MarkGrey)"
    "\<forall>q < size_of s. gn_info (gs_nodes s ! q) < 2 ^ 22 \<longrightarrow> gn_info (gs_nodes s' ! q) < 2 ^ 22"
    using paint_ok [OF r] by metis
  then show thesis using that [of s'] by (simp add: gc_paint_def color_of_def same_buffer_def)
qed

lemma mark_one_root:
  assumes g: "graph_ok s0" "fully_counted s0" and none: "\<And>n. n < size_of s0 \<Longrightarrow> col s0 n \<noteq> GC_GREY"
    and m: "marked s0 R X s" and r: "r < size_of s0" "col s r = GC_PURPLE" and st: "stack_base stack"
  obtains s1 stack' s' X' where "GC_REF_SET_COLOR r GC_GREY s = Inr s1" "gc_mark_grey r stack s1 = Inr (stack', s')"
    "stack_base stack'" "marked s0 (insert r R) X' s'" "X \<subseteq> X'" "r \<in> X'"
proof -
  let ?K = "kids s0" and ?len = "size_of s0"
  note d = markedD [OF m]
  have len: "size_of s = ?len" using d(1) by (simp add: same_shape_def)
  have rX: "r \<notin> X" using d(4) [OF r(1)] r(2) by auto
  obtain s1 where s1: "GC_REF_SET_COLOR r GC_GREY s = Inr s1" "same_shape s s1" "same_buffer s s1" "rc s1 = rc s"
    "col s1 = (col s)(r := GC_GREY)" using set_grey_ok [of r s] r(1) len by auto
  have sh1: "same_shape s0 s1" using same_shape_trans [OF d(1) s1(2)] .
  have len1: "size_of s1 = ?len" using sh1 by (simp add: same_shape_def)
  have g1: "graph_ok s1" by (rule graph_same [OF sh1 g(1)])
  have K1: "kids s1 q = ?K q" if "q < ?len" for q by (rule kids_same [OF sh1 that])
  have finX: "finite X" using d(3) finite_subset by blast
  have bud: "budget MarkGrey r s1"
    unfolding budget_def len1
  proof (intro impI allI)
    fix n assume n: "n < ?len"
    let ?A = "{q. q < ?len \<and> follows MarkGrey (col s1 q)} \<union> {r}"
    have A: "?A \<subseteq> {..<?len}" "?A \<inter> X = {}"
    proof -
      show "?A \<subseteq> {..<?len}" using r(1) by auto
      have "col s1 q = GC_GREY" if "q \<in> X" for q
        using that d(3,4) rX by (auto simp: s1(5))
      then show "?A \<inter> X = {}" using rX by (auto simp: follows_def)
    qed
    have "refs (kids s1) ?A n = refs ?K ?A n"
      unfolding refs_def using A(1) K1 by (intro sum.cong) auto
    moreover have "refs ?K ?A n + refs ?K X n = refs ?K (?A \<union> X) n"
      using refs_union [OF _ finX A(2), of ?K n] by simp
    moreover have "refs ?K (?A \<union> X) n \<le> refs ?K {..<?len} n" using A(1) d(3) by (intro refs_mono) auto
    moreover have "\<dots> \<le> rc s0 n" using g(2) n by (simp add: fully_counted_def)
    ultimately show "refs (kids s1) ?A n \<le> rc s1 n" using d(5) [OF n] s1(4) by simp
  qed
  obtain stack' s' D where s': "gc_mark_grey r stack s1 = Inr (stack', s')" "stack_base stack'" "flooded MarkGrey r D s1 s'"
    using mark_grey_ok [OF g1 _ _ bud st] r(1) len1 s1(5) by auto
  note f = floodedD [OF s'(3), unfolded len1]
  have DX: "D \<inter> X = {}"
  proof -
    have "q \<notin> X" if "q \<in> D" for q
    proof (cases "q = r")
      case False
      then have "col s1 q \<noteq> GC_GREY" using f(7) that by (simp add: follows_def)
      moreover have "q < ?len" using that f(4) by auto
      ultimately show ?thesis using d(4) False by (auto simp: s1(5))
    qed (use rX in simp)
    then show ?thesis by blast
  qed
  have refsD: "refs (kids s1) D n = refs ?K D n" for n unfolding refs_def using f(4) K1 by (intro sum.cong) auto
  have finD: "finite D" using f(4) finite_subset by blast
  have edg: "edges ?len (kids s1) = edges ?len ?K" using K1 by (auto simp: edges_def)
  have colD: "col s' n = (if n \<in> X \<union> D then GC_GREY else col s0 n)" if n: "n < ?len" for n
    using f(5) [OF n] d(4) [OF n] f(3) by (auto simp: color_of_def s1(5))
  have "marked s0 (insert r R) (X \<union> D) s'"
    unfolding marked_def
  proof (intro conjI ballI allI impI)
    show "same_shape s0 s'" using same_shape_trans [OF sh1 f(1)] .
    show "same_buffer s0 s'"
      using same_buffer_trans [OF len1 same_buffer_trans [OF len d(2) s1(3)] f(2)] .
    show "X \<union> D \<subseteq> {..<?len}" using d(3) f(4) by blast
  next
    fix n assume "n < ?len" then show "col s' n = (if n \<in> X \<union> D then GC_GREY else col s0 n)" by (rule colD)
  next
    fix n assume n: "n < ?len"
    have "refs ?K (X \<union> D) n = refs ?K X n + refs ?K D n" using refs_union [OF finX finD] DX by (simp add: Int_commute)
    then show "rc s' n = rc s0 n - refs ?K (X \<union> D) n"
      using f(6) [OF n] d(5) [OF n] by (simp add: bump_def refsD s1(4))
  next
    fix q assume q: "q \<in> X \<union> D"
    show "set (?K q) \<subseteq> X \<union> D"
    proof
      fix k assume k: "k \<in> set (?K q)"
      have ql: "q < ?len" using q d(3) f(4) by auto
      have kl: "k < ?len" using graph_okD(1) [OF g(1) ql] k by auto
      show "k \<in> X \<union> D"
      proof (cases "q \<in> X")
        case True
        then show ?thesis using d(6) k by blast
      next
        case False
        then have "\<not> follows MarkGrey (col s' k)" using f(8) [of q k] q k K1 [OF ql] by simp
        then show ?thesis using colD [OF kl] none [OF kl] by (auto simp: follows_def split: if_splits)
      qed
    qed
  next
    fix n assume "n \<in> X \<union> D"
    then show "\<exists>q \<in> insert r R. (q, n) \<in> (edges ?len ?K)\<^sup>*"
      using d(7) [of n] f(9) [of n] by (auto simp: edg)
  qed
  then show thesis using that [of s1 stack' s' "X \<union> D"] s1(1) s'(1,2) f(3) by blast
qed

text \<open>The purple roots among some indices.\<close>

definition purple_roots :: "gc_state \<Rightarrow> nat set \<Rightarrow> nat set" where
  "purple_roots s I = {r. r < size_of s \<and> col s r = GC_PURPLE \<and> (\<exists>i \<in> I. gc_slot s i = Some (GC_ROOT r))}"

lemma slot_same: "same_buffer s s' \<Longrightarrow> gc_slot s' = gc_slot s"
  by (simp add: same_buffer_def gc_slot_def fun_eq_iff)

definition readable_roots :: "gc_state \<Rightarrow> nat set \<Rightarrow> bool" where
  "readable_roots s I \<longleftrightarrow>
     (\<forall>i \<in> I. \<exists>e. gc_slot s i = Some e \<and> e \<noteq> GC_NULL_ROOT \<and> (\<forall>r. GC_GET_PTR e = Some r \<longrightarrow> r < size_of s))"

lemma mark_roots_loop_ok:
  assumes g: "graph_ok s0" "fully_counted s0" and none: "\<And>n. n < size_of s0 \<Longrightarrow> col s0 n \<noteq> GC_GREY"
  shows "marked s0 R X s \<Longrightarrow> readable_roots s0 (set is) \<Longrightarrow> stack_base stack \<Longrightarrow>
    \<exists>stack' s' X'. mark_roots_loop is stack s = Inr (stack', s') \<and> stack_base stack' \<and>
      marked s0 (R \<union> purple_roots s0 (set is)) X' s' \<and> X \<union> purple_roots s0 (set is) \<subseteq> X'"
proof (induction "is" arbitrary: R X stack s)
  case Nil
  then show ?case by (intro exI [of _ stack] exI [of _ s] exI [of _ X]) (simp add: purple_roots_def)
next
  case (Cons i ids)
  note d = markedD [OF Cons.prems(1)]
  have len: "size_of s = size_of s0" using d(1) by (simp add: same_shape_def)
  obtain e where e: "gc_slot s0 i = Some e" "e \<noteq> GC_NULL_ROOT" "\<And>r. GC_GET_PTR e = Some r \<Longrightarrow> r < size_of s0"
    using Cons.prems(2) by (auto simp: readable_roots_def)
  have sl: "gc_slot s i = Some e" using slot_same [OF d(2)] e(1) by simp
  have rest: "readable_roots s0 (set ids)" using Cons.prems(2) by (simp add: readable_roots_def)
  have ps: "purple_roots s0 (set (i # ids)) = purple_roots s0 {i} \<union> purple_roots s0 (set ids)"
    by (auto simp: purple_roots_def)
  show ?case
  proof (cases "\<exists>r. e = GC_ROOT r \<and> col s r = GC_PURPLE")
    case True
    then obtain r where r: "e = GC_ROOT r" "col s r = GC_PURPLE" by blast
    have rl: "r < size_of s0" using e(3) r(1) by (simp add: GC_GET_PTR_def)
    have p: "purple_roots s0 {i} \<subseteq> {r}" using e(1) r(1) by (auto simp: purple_roots_def)
    have "col s0 r = GC_PURPLE" using d(4) [OF rl] r(2) by (auto split: if_splits)
    then have p: "purple_roots s0 {i} = {r}" using p e(1) r(1) rl by (auto simp: purple_roots_def)
    obtain s1 stack1 s2 X2 where a: "GC_REF_SET_COLOR r GC_GREY s = Inr s1" "gc_mark_grey r stack s1 = Inr (stack1, s2)"
      "stack_base stack1" "marked s0 (insert r R) X2 s2" "X \<subseteq> X2" "r \<in> X2"
      using mark_one_root [OF g none Cons.prems(1) rl r(2) Cons.prems(3)] by blast
    from Cons.IH [OF a(4) rest a(3)] obtain stack' s' X' where b: "mark_roots_loop ids stack1 s2 = Inr (stack', s')"
      "stack_base stack'" "marked s0 (insert r R \<union> purple_roots s0 (set ids)) X' s'"
      "X2 \<union> purple_roots s0 (set ids) \<subseteq> X'" by blast
    have "mark_roots_loop (i # ids) stack s = Inr (stack', s')"
      using sl r a(1,2) b(1) rl len by (simp add: node_at_ok GC_REF_CHECK_COLOR_def col_def GC_REF_COLOR_def)
    then show ?thesis
      using b(2-4) a(5,6) unfolding ps p by (intro exI [of _ stack'] exI [of _ s'] exI [of _ X']) auto
  next
    case False
    have sub: "purple_roots s0 {i} \<subseteq> X"
    proof
      fix r assume "r \<in> purple_roots s0 {i}"
      then have r: "r < size_of s0" "col s0 r = GC_PURPLE" "e = GC_ROOT r" using e(1) by (auto simp: purple_roots_def)
      then show "r \<in> X" using False d(4) [OF r(1)] by (auto split: if_splits)
    qed
    from Cons.IH [OF Cons.prems(1) rest Cons.prems(3)] obtain stack' s' X' where
      b: "mark_roots_loop ids stack s = Inr (stack', s')"
      "stack_base stack'" "marked s0 (R \<union> purple_roots s0 (set ids)) X' s'" "X \<union> purple_roots s0 (set ids) \<subseteq> X'" by blast
    have "mark_roots_loop (i # ids) stack s = mark_roots_loop ids stack s"
    proof (cases e)
      case (GC_ROOT r)
      then have "r < size_of s" "col s r \<noteq> GC_PURPLE" using e(3) False len by (auto simp: GC_GET_PTR_def)
      then show ?thesis using sl GC_ROOT by (simp add: node_at_ok GC_REF_CHECK_COLOR_def col_def GC_REF_COLOR_def)
    qed (use sl e(2) in simp_all)
    then show ?thesis
      using b sub marked_mono [OF b(3), of "R \<union> (purple_roots s0 {i} \<union> purple_roots s0 (set ids))"] unfolding ps
      by (intro exI [of _ stack'] exI [of _ s'] exI [of _ X']) auto
  qed
qed

text \<open>Compaction changes addresses only.\<close>

lemma compacted_same:
  assumes "compacted s s'"
  shows "same_shape s s'" "\<And>n. n < size_of s \<Longrightarrow> rc s' n = rc s n" "\<And>n. n < size_of s \<Longrightarrow> col s' n = col s n"
proof -
  have f: "gc_frame s s'" and ra: "readdressed s s'" using assms by (simp_all add: compacted_def)
  have n: "gs_nodes s' ! r = (gs_nodes s ! r)\<lparr>gn_info := gn_info (gs_nodes s' ! r)\<rparr>"
      "GC_REF_COLOR (gs_nodes s' ! r) = GC_REF_COLOR (gs_nodes s ! r)" if "r < size_of s" for r
    using ra that by (auto simp: readdressed_def size_of_def)
  have sel: "gn_body (gs_nodes s' ! r) = gn_body (gs_nodes s ! r)" "gn_count (gs_nodes s' ! r) = gn_count (gs_nodes s ! r)"
      "gn_immutable (gs_nodes s' ! r) = gn_immutable (gs_nodes s ! r)"
      "gn_not_collectable (gs_nodes s' ! r) = gn_not_collectable (gs_nodes s ! r)" if "r < size_of s" for r
    by (subst n(1) [OF that], simp)+
  show "same_shape s s'" using f ra sel by (simp add: same_shape_def gc_frame_def readdressed_def size_of_def)
  show "\<And>n. n < size_of s \<Longrightarrow> rc s' n = rc s n" using sel by (simp add: rc_def)
  show "\<And>n. n < size_of s \<Longrightarrow> col s' n = col s n" using n by (simp add: col_def)
qed

definition reach :: "gc_state \<Rightarrow> nat set \<Rightarrow> nat set" where
  "reach s R = {n. \<exists>r \<in> R. (r, n) \<in> (edges (size_of s) (kids s))\<^sup>*}"

lemma edges_same: "same_shape s s' \<Longrightarrow> edges (size_of s') (kids s') = edges (size_of s) (kids s)"
  using kids_same [of s s'] by (auto simp: edges_def same_shape_def)

lemma reach_same: "same_shape s s' \<Longrightarrow> reach s' R = reach s R"
  by (simp add: reach_def edges_same)

lemma closed_reach:
  assumes "R \<subseteq> X" "\<And>d. d \<in> X \<Longrightarrow> set (kids s d) \<subseteq> X"
  shows "reach s R \<subseteq> X"
proof
  fix n assume "n \<in> reach s R"
  then obtain r where r: "r \<in> R" "(r, n) \<in> (edges (size_of s) (kids s))\<^sup>*" by (auto simp: reach_def)
  from r(2) r(1) assms show "n \<in> X" by (induction rule: rtrancl_induct) (auto simp: edges_def)
qed

text \<open>The state in which a collection starts.\<close>

definition before_run :: "gc_state \<Rightarrow> bool" where
  "before_run s \<longleftrightarrow>
     graph_ok s \<and> fully_counted s \<and> roots_ok s \<and> (\<forall>e \<in> buffered s. \<exists>r. e = GC_ROOT r) \<and>
     (\<forall>n < size_of s. col s n = GC_BLACK \<or>
        col s n = GC_PURPLE \<and> (\<exists>i \<in> in_use s {}. gc_slot s i = Some (GC_ROOT n)))"

definition purple :: "gc_state \<Rightarrow> nat set" where
  "purple s = {n. n < size_of s \<and> col s n = GC_PURPLE}"

lemma all_readable:
  assumes c: "compacted s s'"
  shows "readable_roots s' (in_use s' {})"
proof -
  have ok: "roots_ok s'" and h: "\<forall>i \<in> in_use s' {}. \<exists>r. holds_at s' i r" using c by (simp_all add: compacted_def)
  show ?thesis
    unfolding readable_roots_def
  proof
    fix i assume i: "i \<in> in_use s' {}"
    then obtain r where r: "holds_at s' i r" using h by blast
    then obtain e where e: "gc_slot s' i = Some e" "GC_GET_PTR e = Some r" by (auto simp: holds_at_def)
    have "r < size_of s'" using held(1) [OF ok i r] by (simp add: size_of_def)
    then show "\<exists>e. gc_slot s' i = Some e \<and> e \<noteq> GC_NULL_ROOT \<and> (\<forall>r. GC_GET_PTR e = Some r \<longrightarrow> r < size_of s')"
      using e by (auto simp: GC_GET_PTR_def)
  qed
qed

lemma buffered_slot: "GC_ROOT r \<in> buffered s \<longleftrightarrow> (\<exists>i \<in> in_use s {}. gc_slot s i = Some (GC_ROOT r))"
  by (auto simp: buffered_def GC_GET_PTR_def)

lemma mark_roots_ok:
  assumes b: "before_run s" and st: "stack_base stack"
  obtains stack' s1 s' where "gc_mark_roots stack s = Inr (stack', s')" "stack_base stack'" "compacted s s1"
    "marked s1 (purple s) (reach s (purple s)) s'"
proof -
  have ok: "graph_ok s" "fully_counted s" "roots_ok s" and bp: "\<And>n. n < size_of s \<Longrightarrow> col s n = GC_BLACK \<or>
        col s n = GC_PURPLE \<and> (\<exists>i \<in> in_use s {}. gc_slot s i = Some (GC_ROOT n))"
    using b by (auto simp: before_run_def)
  obtain s1 where c: "gc_compact s = Inr s1" "compacted s s1" using gc_compact_ok [OF ok(3)] by blast
  note same = compacted_same [OF c(2)]
  have len: "size_of s1 = size_of s" using same(1) by (simp add: same_shape_def)
  have K: "kids s1 q = kids s q" if "q < size_of s" for q by (rule kids_same [OF same(1) that])
  have g1: "graph_ok s1" "fully_counted s1"
  proof -
    show "graph_ok s1" by (rule graph_same [OF same(1) ok(1)])
    have "refs (kids s1) {..<size_of s} n = refs (kids s) {..<size_of s} n" for n
      unfolding refs_def using K by (intro sum.cong) auto
    then show "fully_counted s1" using ok(2) same(2) by (simp add: fully_counted_def len)
  qed
  have none: "col s1 n \<noteq> GC_GREY" if "n < size_of s1" for n using that bp same(3) by (force simp: len)
  have iu: "set [GC_FIRST_ROOT..<gc_first_unused (gs_globals s1)] = in_use s1 {}"
    by (auto simp: in_use_def GC_FIRST_ROOT_def)
  have P: "purple_roots s1 (in_use s1 {}) = purple s"
  proof -
    have "GC_ROOT n \<in> buffered s1" if "n \<in> purple s" for n
    proof -
      have "GC_ROOT n \<in> buffered s" using that bp [of n] by (force simp: purple_def buffered_slot)
      then show ?thesis using c(2) by (simp add: compacted_def)
    qed
    then show ?thesis using same(3) by (auto simp: purple_roots_def purple_def len buffered_slot)
  qed
  have m0: "marked s1 {} {} s1" by (simp add: marked_def)
  obtain stack' s' X where r: "mark_roots_loop [GC_FIRST_ROOT..<gc_first_unused (gs_globals s1)] stack s1 = Inr (stack', s')"
    "stack_base stack'" "marked s1 (purple s) X s'" "purple s \<subseteq> X"
    using mark_roots_loop_ok [OF g1 none m0 _ st, of "[GC_FIRST_ROOT..<gc_first_unused (gs_globals s1)]"]
      all_readable [OF c(2)] unfolding iu P by auto
  note d = markedD [OF r(3)]
  have "reach s1 (purple s) \<subseteq> X" by (rule closed_reach [OF r(4) d(6)])
  moreover have "X \<subseteq> reach s1 (purple s)" using d(7) by (auto simp: reach_def)
  ultimately have "X = reach s (purple s)" using reach_same [OF same(1)] by auto
  then have "marked s1 (purple s) (reach s (purple s)) s'" using r(3) by simp
  moreover have "gc_mark_roots stack s = Inr (stack', s')" using c(1) r(1) by (simp add: gc_mark_roots_def)
  ultimately show thesis using that r(2) c(2) by blast
qed

end
