(* ===== verification/GcScan.thy ===== *)
theory GcScan
  imports GcMark
begin

text \<open>
  \<open>gc_scan\<close> and \<open>gc_scan_roots\<close>: of the nodes that were marked grey, those that are reached
  from one with references left are made black again, with their counts, and the others white.
\<close>

subsection \<open>The invariant of the scan\<close>

text \<open>
  \<open>X\<close> are the nodes that were grey and \<open>q0\<close> the counts that were left. What is black again has
  its references counted, has black children and is reached from a node with a count. What is
  white waits in \<open>W\<close> or has no count and no child that is still grey.
\<close>

definition scanning ::
  "(nat \<Rightarrow> nat list) \<Rightarrow> nat \<Rightarrow> nat set \<Rightarrow> (nat \<Rightarrow> nat) \<Rightarrow> nat list \<Rightarrow> (nat \<Rightarrow> 32 word) \<Rightarrow> (nat \<Rightarrow> nat) \<Rightarrow> bool" where
  "scanning K len X q0 W c q \<longleftrightarrow>
     X \<subseteq> {..<len} \<and> (\<forall>d \<in> X. set (K d) \<subseteq> X) \<and> set W \<subseteq> X \<and>
     (\<forall>n < len. n \<notin> X \<longrightarrow> c n = GC_BLACK) \<and>
     (\<forall>n \<in> X. c n = GC_GREY \<or> c n = GC_WHITE \<or> c n = GC_BLACK) \<and>
     (\<forall>w \<in> set W. c w \<noteq> GC_GREY) \<and>
     (\<forall>n < len. q n = q0 n + refs K {b \<in> X. c b = GC_BLACK} n) \<and>
     (\<forall>b \<in> X. c b = GC_BLACK \<longrightarrow> (\<forall>k \<in> set (K b). c k = GC_BLACK)) \<and>
     (\<forall>b \<in> X. c b = GC_BLACK \<longrightarrow> (\<exists>x \<in> X. 0 < q0 x \<and> (x, b) \<in> (edges len K)\<^sup>*)) \<and>
     (\<forall>w \<in> X. c w = GC_WHITE \<longrightarrow> w \<in> set W \<or> q0 w = 0 \<and> (\<forall>k \<in> set (K w). c k \<noteq> GC_GREY))"

lemma scanningD:
  assumes "scanning K len X q0 W c q"
  shows "X \<subseteq> {..<len}" "\<And>d. d \<in> X \<Longrightarrow> set (K d) \<subseteq> X" "set W \<subseteq> X"
    "\<And>n. n < len \<Longrightarrow> n \<notin> X \<Longrightarrow> c n = GC_BLACK"
    "\<And>n. n \<in> X \<Longrightarrow> c n = GC_GREY \<or> c n = GC_WHITE \<or> c n = GC_BLACK"
    "\<And>w. w \<in> set W \<Longrightarrow> c w \<noteq> GC_GREY"
    "\<And>n. n < len \<Longrightarrow> q n = q0 n + refs K {b \<in> X. c b = GC_BLACK} n"
    "\<And>b k. b \<in> X \<Longrightarrow> c b = GC_BLACK \<Longrightarrow> k \<in> set (K b) \<Longrightarrow> c k = GC_BLACK"
    "\<And>b. b \<in> X \<Longrightarrow> c b = GC_BLACK \<Longrightarrow> \<exists>x \<in> X. 0 < q0 x \<and> (x, b) \<in> (edges len K)\<^sup>*"
    "\<And>w. w \<in> X \<Longrightarrow> c w = GC_WHITE \<Longrightarrow> w \<in> set W \<or> q0 w = 0 \<and> (\<forall>k \<in> set (K w). c k \<noteq> GC_GREY)"
proof -
  note a1 = assms [unfolded scanning_def]
  note a2 = conjunct2 [OF a1]  note a3 = conjunct2 [OF a2]  note a4 = conjunct2 [OF a3]
  note a5 = conjunct2 [OF a4]  note a6 = conjunct2 [OF a5]  note a7 = conjunct2 [OF a6]
  note a8 = conjunct2 [OF a7]  note a9 = conjunct2 [OF a8]
  show "X \<subseteq> {..<len}" by (rule conjunct1 [OF a1])
  show "\<And>d. d \<in> X \<Longrightarrow> set (K d) \<subseteq> X" by (rule bspec [OF conjunct1 [OF a2]])
  show "set W \<subseteq> X" by (rule conjunct1 [OF a3])
  show "\<And>n. n < len \<Longrightarrow> n \<notin> X \<Longrightarrow> c n = GC_BLACK" using conjunct1 [OF a4] by blast
  show "\<And>n. n \<in> X \<Longrightarrow> c n = GC_GREY \<or> c n = GC_WHITE \<or> c n = GC_BLACK" by (rule bspec [OF conjunct1 [OF a5]])
  show "\<And>w. w \<in> set W \<Longrightarrow> c w \<noteq> GC_GREY" by (rule bspec [OF conjunct1 [OF a6]])
  show "\<And>n. n < len \<Longrightarrow> q n = q0 n + refs K {b \<in> X. c b = GC_BLACK} n" using conjunct1 [OF a7] by blast
  show "\<And>b k. b \<in> X \<Longrightarrow> c b = GC_BLACK \<Longrightarrow> k \<in> set (K b) \<Longrightarrow> c k = GC_BLACK" using conjunct1 [OF a8] by blast
  show "\<And>b. b \<in> X \<Longrightarrow> c b = GC_BLACK \<Longrightarrow> \<exists>x \<in> X. 0 < q0 x \<and> (x, b) \<in> (edges len K)\<^sup>*"
    using conjunct1 [OF a9] by blast
  show "\<And>w. w \<in> X \<Longrightarrow> c w = GC_WHITE \<Longrightarrow> w \<in> set W \<or> q0 w = 0 \<and> (\<forall>k \<in> set (K w). c k \<noteq> GC_GREY)"
    using conjunct2 [OF a9] by blast
qed

text \<open>A node that is no longer white is passed over.\<close>

lemma scanning_skip:
  assumes s: "scanning K len X q0 (r # W) c q" and r: "c r \<noteq> GC_WHITE"
  shows "scanning K len X q0 W c q"
proof -
  note d = scanningD [OF s]
  have "w \<in> set W \<or> q0 w = 0 \<and> (\<forall>k \<in> set (K w). c k \<noteq> GC_GREY)" if "w \<in> X" "c w = GC_WHITE" for w
    using d(10) [OF that] r that(2) by auto
  then show ?thesis
    unfolding scanning_def
  proof (intro conjI ballI allI impI)
    show "X \<subseteq> {..<len}" by (rule d(1))
    show "\<And>e. e \<in> X \<Longrightarrow> set (K e) \<subseteq> X" by (rule d(2))
    show "set W \<subseteq> X" using d(3) by simp
    show "\<And>n. n < len \<Longrightarrow> n \<notin> X \<Longrightarrow> c n = GC_BLACK" by (rule d(4))
    show "\<And>n. n \<in> X \<Longrightarrow> c n = GC_GREY \<or> c n = GC_WHITE \<or> c n = GC_BLACK" by (rule d(5))
    show "\<And>w. w \<in> set W \<Longrightarrow> c w \<noteq> GC_GREY" using d(6) by simp
    show "\<And>n. n < len \<Longrightarrow> q n = q0 n + refs K {b \<in> X. c b = GC_BLACK} n" by (rule d(7))
    show "\<And>b k. b \<in> X \<Longrightarrow> c b = GC_BLACK \<Longrightarrow> k \<in> set (K b) \<Longrightarrow> c k = GC_BLACK" by (rule d(8))
    show "\<And>b. b \<in> X \<Longrightarrow> c b = GC_BLACK \<Longrightarrow> \<exists>x \<in> X. 0 < q0 x \<and> (x, b) \<in> (edges len K)\<^sup>*" by (rule d(9))
  qed blast
qed

text \<open>A node with a count and all that it reaches become black.\<close>

lemma scanning_black:
  assumes s: "scanning K len X q0 (r # W) c q" and r: "c r = GC_WHITE" "0 < q r"
    and D: "r \<in> D" "D \<subseteq> {..<len}" "\<And>n. n \<in> D \<Longrightarrow> n \<noteq> r \<Longrightarrow> c n \<noteq> GC_BLACK"
    and c': "\<And>n. n < len \<Longrightarrow> c' n = (if n \<in> D then GC_BLACK else c n)"
    and q': "\<And>n. n < len \<Longrightarrow> q' n = q n + refs K D n"
    and cl: "\<And>d k. d \<in> D \<Longrightarrow> k \<in> set (K d) \<Longrightarrow> c' k = GC_BLACK"
    and re: "\<And>n. n \<in> D \<Longrightarrow> (r, n) \<in> (edges len K)\<^sup>*"
  shows "scanning K len X q0 W c' q'"
    "card {n. n < len \<and> c' n = GC_GREY} + length W < card {n. n < len \<and> c n = GC_GREY} + length (r # W)"
    "{n. n < len \<and> c' n = GC_GREY} \<subseteq> {n. n < len \<and> c n = GC_GREY}"
proof -
  note d = scanningD [OF s]
  have rX: "r \<in> X" using d(3) by simp
  have nb: "c n \<noteq> GC_BLACK" if "n \<in> D" for n using D(3) [OF that] r(1) by (cases "n = r") auto
  have DX: "D \<subseteq> X" using nb d(4) D(2) by blast
  have fin: "finite X" using d(1) finite_subset by blast
  have bl: "{b \<in> X. c' b = GC_BLACK} = {b \<in> X. c b = GC_BLACK} \<union> D"
  proof -
    have "c' b = GC_BLACK \<longleftrightarrow> c b = GC_BLACK \<or> b \<in> D" if "b \<in> X" for b
      using c' [of b] d(1) that by auto
    then show ?thesis using DX by blast
  qed
  have disj: "{b \<in> X. c b = GC_BLACK} \<inter> D = {}" using nb by blast
  obtain x where x: "x \<in> X" "0 < q0 x" "(x, r) \<in> (edges len K)\<^sup>*"
  proof (cases "0 < q0 r")
    case True
    then show thesis using that [of r] rX by blast
  next
    case False
    have "refs K {b \<in> X. c b = GC_BLACK} r = 0"
      using d(8) r(1) by (intro refs_0) (auto simp: GC_WHITE_def GC_BLACK_def)
    then show thesis using d(7) [of r] d(1) rX r(2) False by auto
  qed
  have not_grey: "GC_BLACK \<noteq> GC_GREY" by (simp add: GC_BLACK_def GC_GREY_def)
  have colX: "c' n = GC_BLACK \<or> c' n = c n" if "n < len" for n using c' [OF that] by simp
  show "scanning K len X q0 W c' q'"
    unfolding scanning_def
  proof (intro conjI ballI allI impI)
    show "X \<subseteq> {..<len}" by (rule d(1))
    show "\<And>e. e \<in> X \<Longrightarrow> set (K e) \<subseteq> X" by (rule d(2))
    show "set W \<subseteq> X" using d(3) by simp
    show "\<And>n. n < len \<Longrightarrow> n \<notin> X \<Longrightarrow> c' n = GC_BLACK" using d(4) colX by metis
    show "\<And>n. n \<in> X \<Longrightarrow> c' n = GC_GREY \<or> c' n = GC_WHITE \<or> c' n = GC_BLACK" using d(1,5) colX by (metis lessThan_iff subset_eq)
    show "\<And>w. w \<in> set W \<Longrightarrow> c' w \<noteq> GC_GREY"
    proof -
      fix w assume w: "w \<in> set W"
      then have "w < len" "c w \<noteq> GC_GREY" using d(1,3,6) by auto
      then show "c' w \<noteq> GC_GREY" using colX [of w] by auto
    qed
  next
    fix n assume n: "n < len"
    show "q' n = q0 n + refs K {b \<in> X. c' b = GC_BLACK} n"
      unfolding bl using q' [OF n] d(7) [OF n] refs_union [OF _ finite_subset [OF DX fin] disj, of K n] fin by simp
  next
    fix b k assume b: "b \<in> X" "c' b = GC_BLACK" "k \<in> set (K b)"
    have kl: "k < len" using b(1,3) d(1,2) by blast
    show "c' k = GC_BLACK"
    proof (cases "b \<in> D")
      case True
      then show ?thesis using cl b(3) by blast
    next
      case False
      then have "c b = GC_BLACK" using c' [of b] b(1,2) d(1) by auto
      then show ?thesis using d(8) [OF b(1) _ b(3)] colX [OF kl] by auto
    qed
  next
    fix b assume b: "b \<in> X" "c' b = GC_BLACK"
    show "\<exists>x \<in> X. 0 < q0 x \<and> (x, b) \<in> (edges len K)\<^sup>*"
    proof (cases "b \<in> D")
      case True
      then show ?thesis using x re [OF True] by (meson rtrancl_trans)
    next
      case False
      then have "c b = GC_BLACK" using c' [of b] b d(1) by auto
      then show ?thesis using d(9) b(1) by blast
    qed
  next
    fix w assume w: "w \<in> X" "c' w = GC_WHITE"
    have wl: "w < len" using w(1) d(1) by blast
    have wD: "w \<notin> D" "c w = GC_WHITE" using c' [OF wl] w(2) by (auto split: if_splits)
    then have "w \<in> set W \<or> q0 w = 0 \<and> (\<forall>k \<in> set (K w). c k \<noteq> GC_GREY)"
      using d(10) [OF w(1)] D(1) by auto
    moreover have "k < len" if "k \<in> set (K w)" for k using that w(1) d(1,2) by blast
    ultimately show "w \<in> set W \<or> q0 w = 0 \<and> (\<forall>k \<in> set (K w). c' k \<noteq> GC_GREY)"
      using colX not_grey by metis
  qed
  show "{n. n < len \<and> c' n = GC_GREY} \<subseteq> {n. n < len \<and> c n = GC_GREY}"
    using c' by (auto split: if_splits)
  then have "card {n. n < len \<and> c' n = GC_GREY} \<le> card {n. n < len \<and> c n = GC_GREY}" by (intro card_mono) auto
  then show "card {n. n < len \<and> c' n = GC_GREY} + length W < card {n. n < len \<and> c n = GC_GREY} + length (r # W)" by simp
qed

text \<open>The grey children of a node without a count become white.\<close>

lemma scanning_white:
  assumes s: "scanning K len X q0 (r # W) c q" and r: "q r = 0"
    and hs: "hs = [] \<or> (\<exists>h. hs = [h] \<and> h \<in> set (K r) \<and> c h = GC_GREY)"
    and a: "acts Scan len (concat (map K (r # hs))) c q c' q'"
    and new: "distinct new" "set new = fresh Scan c (concat (map K (r # hs)))"
  shows "scanning K len X q0 (new @ W) c' q'"
    "card {n. n < len \<and> c' n = GC_GREY} + length (new @ W) < card {n. n < len \<and> c n = GC_GREY} + length (r # W)"
    "{n. n < len \<and> c' n = GC_GREY} \<subseteq> {n. n < len \<and> c n = GC_GREY}"
proof -
  note d = scanningD [OF s]
  let ?cs = "concat (map K (r # hs))"
  have rX: "r \<in> X" using d(3) by simp
  have hsX: "set hs \<subseteq> X" using hs d(2) [OF rX] by auto
  have csX: "set ?cs \<subseteq> X" using d(2) [OF rX] hsX d(2) by fastforce
  have nw: "n \<in> set new \<longleftrightarrow> n \<in> set ?cs \<and> c n = GC_GREY" for n
    unfolding new(2) by (auto simp: fresh_def follows_def)
  have newX: "set new \<subseteq> X" using nw csX by blast
  have c': "c' n = (if n \<in> set new then GC_WHITE else c n)" if "n < len" for n
    using a that nw [of n] by (simp add: acts_def follows_def color_of_def)
  have q': "q' n = q n" if "n < len" for n using a that by (simp add: acts_def bump_def)
  have bw: "GC_WHITE \<noteq> GC_BLACK" "GC_GREY \<noteq> GC_BLACK" "GC_WHITE \<noteq> GC_GREY"
    by (simp_all add: GC_WHITE_def GC_BLACK_def GC_GREY_def)
  have blk: "c' n = GC_BLACK \<longleftrightarrow> c n = GC_BLACK" if "n < len" for n
    using c' [OF that] nw [of n] bw by auto
  have bl: "{b \<in> X. c' b = GC_BLACK} = {b \<in> X. c b = GC_BLACK}" using blk d(1) by blast
  have gr: "c' n = GC_GREY \<longleftrightarrow> c n = GC_GREY \<and> n \<notin> set new" if "n < len" for n
    using c' [OF that] bw by auto
  have r0: "q0 r = 0" using d(7) [of r] d(1) rX r by auto
  show "scanning K len X q0 (new @ W) c' q'"
    unfolding scanning_def bl
  proof (intro conjI ballI allI impI)
    show "X \<subseteq> {..<len}" by (rule d(1))
    show "\<And>e. e \<in> X \<Longrightarrow> set (K e) \<subseteq> X" by (rule d(2))
    show "set (new @ W) \<subseteq> X" using d(3) newX by simp
    show "\<And>n. n < len \<Longrightarrow> n \<notin> X \<Longrightarrow> c' n = GC_BLACK" using d(4) blk by blast
    show "c' n = GC_GREY \<or> c' n = GC_WHITE \<or> c' n = GC_BLACK" if "n \<in> X" for n
    proof -
      have "n < len" using d(1) that by blast
      then show ?thesis using d(5) [OF that] c' [of n] by auto
    qed
    show "c' w \<noteq> GC_GREY" if w: "w \<in> set (new @ W)" for w
    proof -
      have "w < len" using w newX d(1,3) by auto
      then show ?thesis using gr [of w] w d(6) [of w] by auto
    qed
    show "q' n = q0 n + refs K {b \<in> X. c b = GC_BLACK} n" if "n < len" for n
      using q' [OF that] d(7) [OF that] by simp
    show "c' k = GC_BLACK" if b: "b \<in> X" "c' b = GC_BLACK" "k \<in> set (K b)" for b k
    proof -
      have "b < len" "k < len" using b d(1,2) by blast+
      then show ?thesis using d(8) [OF b(1) _ b(3)] b(2) blk by blast
    qed
    show "\<exists>x \<in> X. 0 < q0 x \<and> (x, b) \<in> (edges len K)\<^sup>*" if b: "b \<in> X" "c' b = GC_BLACK" for b
      using d(9) [OF b(1)] b blk d(1) by blast
    show "w \<in> set (new @ W) \<or> q0 w = 0 \<and> (\<forall>k \<in> set (K w). c' k \<noteq> GC_GREY)" if w: "w \<in> X" "c' w = GC_WHITE" for w
    proof (cases "w \<in> set new \<or> w \<in> set W")
      case True
      then show ?thesis by auto
    next
      case False
      have wl: "w < len" using w d(1) by blast
      have kl: "k < len" if "k \<in> set (K w)" for k using that w(1) d(1,2) by blast
      have cw: "c w = GC_WHITE" using c' [OF wl] w(2) False by simp
      show ?thesis
      proof (cases "w = r")
        case True
        have "c' k \<noteq> GC_GREY" if "k \<in> set (K w)" for k
        proof -
          have "k \<in> set ?cs" using that True by simp
          then show ?thesis using gr [OF kl [OF that]] nw [of k] by blast
        qed
        then show ?thesis using r0 True by blast
      next
        case F: False
        then have "q0 w = 0" "\<forall>k \<in> set (K w). c k \<noteq> GC_GREY" using d(10) [OF w(1) cw] False by auto
        then show ?thesis using gr kl by blast
      qed
    qed
  qed
  have e: "{n. n < len \<and> c' n = GC_GREY} = {n. n < len \<and> c n = GC_GREY} - set new" using gr by blast
  then show "{n. n < len \<and> c' n = GC_GREY} \<subseteq> {n. n < len \<and> c n = GC_GREY}" by blast
  note e
  moreover have "set new \<subseteq> {n. n < len \<and> c n = GC_GREY}" using nw newX d(1) by auto
  ultimately have "card {n. n < len \<and> c' n = GC_GREY} + card (set new) = card {n. n < len \<and> c n = GC_GREY}"
    by (simp add: card_Diff_subset finite_subset card_mono)
  then show "card {n. n < len \<and> c' n = GC_GREY} + length (new @ W) < card {n. n < len \<and> c n = GC_GREY} + length (r # W)"
    using distinct_card [OF new(1)] by simp
qed

subsection \<open>The scan of the program\<close>

definition grey_in :: "gc_state \<Rightarrow> nat set" where
  "grey_in s = {n. n < size_of s \<and> col s n = GC_GREY}"

definition scan_inv :: "nat set \<Rightarrow> nat set \<Rightarrow> gc_state \<Rightarrow> nat list \<Rightarrow> gc_state \<Rightarrow> bool" where
  "scan_inv X G s0 W s \<longleftrightarrow>
     graph_ok s0 \<and> grey_in s \<subseteq> G \<and> same_shape s0 s \<and> same_buffer s0 s \<and>
     scanning (kids s0) (size_of s0) X (rc s0) W (col s) (rc s)"

definition scan_meas :: "nat list \<Rightarrow> gc_state \<Rightarrow> nat" where
  "scan_meas W s = card (grey_in s) + length W"

lemma scan_invD:
  assumes "scan_inv X G s0 W s"
  shows "graph_ok s0" "same_shape s0 s" "same_buffer s0 s"
    "scanning (kids s0) (size_of s0) X (rc s0) W (col s) (rc s)"
    "graph_ok s" "size_of s = size_of s0" "set W \<subseteq> X" "X \<subseteq> {..<size_of s0}"
    "grey_in s \<subseteq> G"
proof -
  show a: "graph_ok s0" "same_shape s0 s" "same_buffer s0 s"
    and b: "scanning (kids s0) (size_of s0) X (rc s0) W (col s) (rc s)" and "grey_in s \<subseteq> G" using assms by (simp_all add: scan_inv_def)
  show "graph_ok s" by (rule graph_same [OF a(2,1)])
  show "size_of s = size_of s0" using a(2) by (simp add: same_shape_def)
  show "set W \<subseteq> X" "X \<subseteq> {..<size_of s0}" by (rule scanningD [OF b])+
qed

lemma scan_node_eq:
  assumes "graph_ok s" "r < size_of s"
  shows "scan_node r st s =
    (if col s r \<noteq> GC_WHITE then Inr (None, st, s)
     else if rc s r > 0 then
       bindE (GC_REF_SET_BLACK r s) (\<lambda>s.
       bindE (gc_scan_black r (split_tail (gc_stack_extend (fst st))) s) (\<lambda>(tail, s).
         Inr (None, (join_tail (gc_stack_extend (fst st)) tail, snd st), s)))
     else visit_node Scan r st s)"
proof -
  have c: "GC_REF_CHECK_COLOR (gs_nodes s ! r) k \<longleftrightarrow> col s r = k" for k
    by (simp add: GC_REF_CHECK_COLOR_def col_def GC_REF_COLOR_def)
  have bw: "GC_WHITE \<noteq> GC_BLACK" by (simp add: GC_WHITE_def GC_BLACK_def)
  show ?thesis
    using graph_okD(2,4) [OF assms] bw
    by (auto simp: scan_node_def visit_node_def node_at_ok [OF assms(2)] c rc_def Let_def split: gc_body.split)
qed

lemma set_black_ok:
  assumes r: "r < size_of s"
  obtains s' where "GC_REF_SET_BLACK r s = Inr s'" "same_shape s s'" "same_buffer s s'" "rc s' = rc s"
    "col s' = (col s)(r := GC_BLACK)"
proof -
  obtain s' where "gc_paint ScanBlack r s = Inr s'" "same_shape s s'" "gs_globals s' = gs_globals s"
    "rc s' = rc s" "addr s' = addr s" "col s' = (col s)(r := color_of ScanBlack)"
    "\<forall>q < size_of s. gn_info (gs_nodes s ! q) < 2 ^ 22 \<longrightarrow> gn_info (gs_nodes s' ! q) < 2 ^ 22"
    using paint_ok [OF r] by metis
  then show thesis using that [of s'] by (simp add: gc_paint_def color_of_def same_buffer_def)
qed

text \<open>A node with a count.\<close>

lemma scan_black_step:
  assumes inv: "scan_inv X G s0 (r # W) s" and st: "stacked st W" and c: "col s r = GC_WHITE" "0 < rc s r"
  shows "\<exists>st' s'. scan_node r st s = Inr (None, st', s') \<and> stacked st' W \<and> scan_inv X G s0 W s' \<and>
    scan_meas W s' < scan_meas (r # W) s"
proof -
  note d = scan_invD [OF inv]
  have r: "r < size_of s" using d(6-8) by auto
  obtain s1 where s1: "GC_REF_SET_BLACK r s = Inr s1" "same_shape s s1" "same_buffer s s1" "rc s1 = rc s"
    "col s1 = (col s)(r := GC_BLACK)" using set_black_ok [OF r] .
  have len1: "size_of s1 = size_of s" using s1(2) by (simp add: same_shape_def)
  have g1: "graph_ok s1" by (rule graph_same [OF s1(2) d(5)])
  obtain stack tp where stk: "st = (stack, tp)" by (cases st)
  note sp = split_tail_ok [OF st [unfolded stk]]
  obtain tail s2 D where b: "gc_scan_black r (split_tail (gc_stack_extend stack)) s1 = Inr (tail, s2)"
    "stack_base tail" "flooded ScanBlack r D s1 s2"
  proof -
    have "r < size_of s1" "col s1 r = GC_BLACK" using r len1 s1(5) by simp_all
    from scan_black_ok [OF g1 this sp(1)] that show thesis by blast
  qed
  note f = floodedD [OF b(3)]
  have sh2: "same_shape s0 s2" by (rule same_shape_trans [OF d(2) same_shape_trans [OF s1(2) f(1)]])
  have bu2: "same_buffer s0 s2"
    by (rule same_buffer_trans [OF d(6) d(3) same_buffer_trans [OF len1 s1(3) f(2)]])
  have K1: "kids s1 n = kids s0 n" if "n < size_of s0" for n
    using kids_same [OF same_shape_trans [OF d(2) s1(2)] that] .
  have len: "size_of s1 = size_of s0" using len1 d(6) by simp
  have refsD: "refs (kids s1) D n = refs (kids s0) D n" for n
    unfolding refs_def using f(4) K1 len by (intro sum.cong) auto
  have edg: "edges (size_of s0) (kids s1) = edges (size_of s0) (kids s0)" using K1 by (auto simp: edges_def)
  have black: "\<not> follows ScanBlack k \<longleftrightarrow> k = GC_BLACK" for k by (simp add: follows_def)
  have p1: "\<And>n. n \<in> D \<Longrightarrow> n \<noteq> r \<Longrightarrow> col s n \<noteq> GC_BLACK" using f(7) by (simp add: s1(5) follows_def)
  have p2: "\<And>n. n < size_of s0 \<Longrightarrow> col s2 n = (if n \<in> D then GC_BLACK else col s n)"
    using f(3,5) by (auto simp: s1(5) color_of_def len)
  have p3: "\<And>n. n < size_of s0 \<Longrightarrow> rc s2 n = rc s n + refs (kids s0) D n"
    using f(6) by (simp add: len bump_def s1(4) refsD)
  have p4: "\<And>e k. e \<in> D \<Longrightarrow> k \<in> set (kids s0 e) \<Longrightarrow> col s2 k = GC_BLACK"
  proof -
    fix e k assume e: "e \<in> D" "k \<in> set (kids s0 e)"
    have "e < size_of s0" using e(1) f(4) len by auto
    then have "k \<in> set (kids s1 e)" using e(2) K1 by simp
    then show "col s2 k = GC_BLACK" using f(8) [OF e(1)] black by blast
  qed
  note sc = scanning_black [OF d(4) c f(3) f(4) [unfolded len] p1 p2 p3 p4 f(9) [unfolded len edg]]
  have "scan_node r st s = Inr (None, (join_tail (gc_stack_extend stack) tail, tp), s2)"
    using c s1(1) b(1) by (simp add: scan_node_eq [OF d(5) r] stk)
  moreover have gr: "grey_in s2 \<subseteq> grey_in s" using sc(3) sh2 d(6) by (simp add: grey_in_def same_shape_def)
  have "scan_inv X G s0 W s2" using d(1) sh2 bu2 sc(1) gr d(9) by (simp add: scan_inv_def)
  moreover have "scan_meas W s2 < scan_meas (r # W) s"
    using sc(2) sh2 d(6) by (simp add: scan_meas_def grey_in_def same_shape_def)
  ultimately show ?thesis using sp(2) [OF b(2)] by blast
qed

text \<open>A node without.\<close>

lemma scan_white_step:
  assumes inv: "scan_inv X G s0 (r # W) s" and st: "stacked st W" and c: "col s r = GC_WHITE" "rc s r = 0"
  shows "\<exists>next st' s' new. scan_node r st s = Inr (next, st', s') \<and> stacked st' (new @ W) \<and>
    scan_inv X G s0 (front next @ new @ W) s' \<and> scan_meas (front next @ new @ W) s' < scan_meas (r # W) s"
proof -
  note d = scan_invD [OF inv]
  have r: "r < size_of s" "r < size_of s0" using d(6-8) by auto
  have pay: "\<And>hs. payable Scan (concat (map (kids s) (r # hs))) s" by (simp add: payable_def)
  obtain nxt st' s' new hs where v: "visit_node Scan r st s = Inr (nxt, st', s')" "processed Scan r hs s nxt st' s' W new"
    using visit_node_ok [OF d(5) r(1) pay st] by blast
  have kid: "kids s n = kids s0 n" if "n < size_of s0" for n by (rule kids_same [OF d(2) that])
  have hs: "hs = [] \<or> (\<exists>h. hs = [h] \<and> h \<in> set (kids s0 r) \<and> col s h = GC_GREY)"
    using v(2) kid [OF r(2)] by (simp add: processed_def follows_def)
  have T: "map (kids s) (r # hs) = map (kids s0) (r # hs)"
    using hs kid r(2) graph_okD(1) [OF d(1) r(2)] by (auto simp: subset_eq)
  have a: "acted Scan (concat (map (kids s0) (r # hs))) s s'" and st': "stacked st' (new @ W)"
    and n: "distinct (front nxt @ new)" "set (front nxt @ new) = fresh Scan (col s) (concat (map (kids s0) (r # hs)))"
    using v(2) unfolding processed_def T by simp_all
  have acts: "acts Scan (size_of s0) (concat (map (kids s0) (r # hs))) (col s) (rc s) (col s') (rc s')"
    using acted_acts [OF a] by (simp add: d(6))
  note sc = scanning_white [OF d(4) c(2) hs acts n]
  have sh: "same_shape s0 s'" by (rule same_shape_trans [OF d(2) acted_shape [OF a]])
  have bu: "same_buffer s0 s'" by (rule same_buffer_trans [OF d(6) d(3) acted_buffer [OF a]])
  have gr: "grey_in s' \<subseteq> grey_in s" using sc(3) sh d(6) by (simp add: grey_in_def same_shape_def)
  have "scan_inv X G s0 (front nxt @ new @ W) s'" using d(1) sh bu sc(1) gr d(9) by (simp add: scan_inv_def)
  moreover have "scan_meas (front nxt @ new @ W) s' < scan_meas (r # W) s"
    using sc(2) sh d(6) by (simp add: scan_meas_def grey_in_def same_shape_def)
  moreover have "scan_node r st s = Inr (nxt, st', s')" using c v(1) by (simp add: scan_node_eq [OF d(5) r(1)])
  ultimately show ?thesis using st' by blast
qed

interpretation scan: worklist scan_node "scan_inv X G s0" scan_meas for X G s0
proof
  fix r xs s st assume a: "scan_inv X G s0 (r # xs) s" "stacked st xs"
  note d = scan_invD [OF a(1)]
  have r: "r < size_of s" using d(6-8) by auto
  show "\<exists>next st' s' new. scan_node r st s = Inr (next, st', s') \<and> stacked st' (new @ xs) \<and>
      scan_inv X G s0 (front next @ new @ xs) s' \<and> scan_meas (front next @ new @ xs) s' < scan_meas (r # xs) s"
  proof (cases "col s r = GC_WHITE")
    case False
    have "scan_node r st s = Inr (None, st, s)" using False by (simp add: scan_node_eq [OF d(5) r])
    moreover have "scan_inv X G s0 xs s" using d(1-3,9) scanning_skip [OF d(4) False] by (simp add: scan_inv_def)
    ultimately show ?thesis using a(2)
      by (intro exI [of _ None] exI [of _ st] exI [of _ s] exI [of _ "[]"]) (simp add: scan_meas_def)
  next
    case True
    show ?thesis
    proof (cases "rc s r = 0")
      case False
      then obtain st' s' where "scan_node r st s = Inr (None, st', s')" "stacked st' xs" "scan_inv X G s0 xs s'"
        "scan_meas xs s' < scan_meas (r # xs) s" using scan_black_step [OF a True] by auto
      then show ?thesis by (intro exI [of _ None] exI [of _ st'] exI [of _ s'] exI [of _ "[]"]) simp
    qed (rule scan_white_step [OF a True])
  qed
qed

lemma scan_ok:
  assumes i: "scan_inv X G s0 [r] s" and st: "stack_base stack"
  obtains stack' s' where "gc_scan r stack s = Inr (stack', s')" "stack_base stack'" "scan_inv X G s0 [] s'"
proof -
  have r: "r < size_of s" using scan_invD(6-8) [OF i] by auto
  have "grey_in s \<subseteq> {..<size_of s}" by (auto simp: grey_in_def)
  then have "card (grey_in s) \<le> card {..<size_of s}" by (intro card_mono) simp
  then have m: "scan_meas [r] s \<le> gc_fuel s" by (simp add: scan_meas_def gc_fuel_def size_of_def)
  have "stacked (stack, 0) []" using st by (simp add: stack_base_def)
  from scan.traverse_ok [OF i this m]
  obtain stack' s' where "traverse scan_node (gc_fuel s) r (stack, 0) s = Inr (stack', s')"
    "stack_base stack'" "scan_inv X G s0 [] s'" by blast
  then show thesis using that by (simp add: gc_scan_def)
qed

subsection \<open>\<open>gc_scan_roots\<close>\<close>

lemma scanning_root:
  assumes s: "scanning K len X q0 [] c q" and r: "r \<in> X" "c r = GC_GREY"
  shows "scanning K len X q0 [r] (c(r := GC_WHITE)) q"
proof -
  note d = scanningD [OF s]
  have bw: "GC_WHITE \<noteq> GC_BLACK" "GC_GREY \<noteq> GC_BLACK" "GC_WHITE \<noteq> GC_GREY"
    by (simp_all add: GC_WHITE_def GC_BLACK_def GC_GREY_def)
  have blk: "(c(r := GC_WHITE)) n = GC_BLACK \<longleftrightarrow> c n = GC_BLACK" for n using r(2) bw by simp
  show ?thesis
    unfolding scanning_def blk
  proof (intro conjI ballI allI impI)
    show "X \<subseteq> {..<len}" by (rule d(1))
    show "\<And>e. e \<in> X \<Longrightarrow> set (K e) \<subseteq> X" by (rule d(2))
    show "set [r] \<subseteq> X" using r by simp
    show "\<And>n. n < len \<Longrightarrow> n \<notin> X \<Longrightarrow> c n = GC_BLACK" by (rule d(4))
    show "\<And>n. n \<in> X \<Longrightarrow> (c(r := GC_WHITE)) n = GC_GREY \<or> (c(r := GC_WHITE)) n = GC_WHITE \<or> c n = GC_BLACK"
      using d(5) by simp
    show "\<And>w. w \<in> set [r] \<Longrightarrow> (c(r := GC_WHITE)) w \<noteq> GC_GREY" using bw by simp
    show "\<And>n. n < len \<Longrightarrow> q n = q0 n + refs K {b \<in> X. c b = GC_BLACK} n" by (rule d(7))
    show "\<And>b k. b \<in> X \<Longrightarrow> c b = GC_BLACK \<Longrightarrow> k \<in> set (K b) \<Longrightarrow> c k = GC_BLACK" by (rule d(8))
    show "\<And>b. b \<in> X \<Longrightarrow> c b = GC_BLACK \<Longrightarrow> \<exists>x \<in> X. 0 < q0 x \<and> (x, b) \<in> (edges len K)\<^sup>*" by (rule d(9))
    show "w \<in> set [r] \<or> q0 w = 0 \<and> (\<forall>k \<in> set (K w). (c(r := GC_WHITE)) k \<noteq> GC_GREY)"
      if "w \<in> X" "(c(r := GC_WHITE)) w = GC_WHITE" for w
      using d(10) [of w] that bw by (cases "w = r") simp_all
  qed
qed

lemma set_white_ok:
  assumes r: "r < size_of s"
  obtains s' where "GC_REF_SET_COLOR r GC_WHITE s = Inr s'" "same_shape s s'" "same_buffer s s'" "rc s' = rc s"
    "col s' = (col s)(r := GC_WHITE)"
proof -
  obtain s' where "gc_paint Scan r s = Inr s'" "same_shape s s'" "gs_globals s' = gs_globals s"
    "rc s' = rc s" "addr s' = addr s" "col s' = (col s)(r := color_of Scan)"
    "\<forall>q < size_of s. gn_info (gs_nodes s ! q) < 2 ^ 22 \<longrightarrow> gn_info (gs_nodes s' ! q) < 2 ^ 22"
    using paint_ok [OF r] by metis
  then show thesis using that [of s'] by (simp add: gc_paint_def color_of_def same_buffer_def)
qed

lemma scan_root_ok:
  assumes i: "scan_inv X G s0 [] s" and st: "stack_base stack"
    and e: "gc_slot s i = Some e" "e \<noteq> GC_NULL_ROOT" "\<And>r. GC_GET_PTR e = Some r \<Longrightarrow> r < size_of s"
  obtains stack' s' where "scan_root i stack s = Inr (stack', s')" "stack_base stack'"
    "scan_inv X (G - {r. e = GC_ROOT r}) s0 [] s'"
proof -
  note d = scan_invD [OF i]
  show thesis
  proof (cases "\<exists>r. e = GC_ROOT r \<and> col s r = GC_GREY")
    case True
    then obtain r where r: "e = GC_ROOT r" "col s r = GC_GREY" by blast
    have rl: "r < size_of s" using e(3) r(1) by (simp add: GC_GET_PTR_def)
    have rX: "r \<in> X" using scanningD(4) [OF d(4)] rl r(2) d(6) by (force simp: GC_BLACK_def GC_GREY_def)
    obtain s1 where s1: "GC_REF_SET_COLOR r GC_WHITE s = Inr s1" "same_shape s s1" "same_buffer s s1" "rc s1 = rc s"
      "col s1 = (col s)(r := GC_WHITE)" using set_white_ok [OF rl] .
    have "grey_in s1 \<subseteq> G - {r}"
      using d(9) s1(2) by (auto simp: grey_in_def s1(5) same_shape_def GC_WHITE_def GC_GREY_def split: if_splits)
    then have "scan_inv X (G - {r}) s0 [r] s1"
      using d(1) same_shape_trans [OF d(2) s1(2)] same_buffer_trans [OF d(6) d(3) s1(3)] scanning_root [OF d(4) rX r(2)]
      by (simp add: scan_inv_def s1(4,5))
    then obtain stack' s' where "gc_scan r stack s1 = Inr (stack', s')" "stack_base stack'" "scan_inv X (G - {r}) s0 [] s'"
      using scan_ok st by blast
    then show thesis using that [of stack' s'] s1(1) e(1) r rl
      by (simp add: scan_root_def node_at_ok GC_REF_CHECK_COLOR_def col_def GC_REF_COLOR_def)
  next
    case False
    then have "r \<notin> grey_in s" if "e = GC_ROOT r" for r using that by (simp add: grey_in_def)
    then have "scan_inv X (G - {r. e = GC_ROOT r}) s0 [] s" using i by (auto simp: scan_inv_def)
    moreover have "scan_root i stack s = Inr (stack, s)"
    proof (cases e)
      case (GC_ROOT r)
      then have "r < size_of s" "col s r \<noteq> GC_GREY" using e(3) False by (auto simp: GC_GET_PTR_def)
      then show ?thesis using e(1) GC_ROOT
        by (simp add: scan_root_def node_at_ok GC_REF_CHECK_COLOR_def col_def GC_REF_COLOR_def)
    qed (use e(1,2) in \<open>simp_all add: scan_root_def\<close>)
    ultimately show thesis using that st by blast
  qed
qed

lemma scan_roots_loop_ok:
  "scan_inv X G s0 [] s \<Longrightarrow> stack_base stack \<Longrightarrow> readable_roots s0 (set is) \<Longrightarrow>
   \<exists>stack' s'. scan_roots_loop is stack s = Inr (stack', s') \<and> stack_base stack' \<and>
     scan_inv X (G - {r. \<exists>i \<in> set is. gc_slot s0 i = Some (GC_ROOT r)}) s0 [] s'"
proof (induction "is" arbitrary: G stack s)
  case Nil
  then show ?case by simp
next
  case (Cons i ids)
  note d = scan_invD [OF Cons.prems(1)]
  obtain e where e: "gc_slot s0 i = Some e" "e \<noteq> GC_NULL_ROOT" "\<And>r. GC_GET_PTR e = Some r \<Longrightarrow> r < size_of s0"
    using Cons.prems(3) by (auto simp: readable_roots_def)
  have sl: "gc_slot s i = Some e" using slot_same [OF d(3)] e(1) by simp
  have eb: "\<And>r. GC_GET_PTR e = Some r \<Longrightarrow> r < size_of s" using e(3) d(6) by simp
  obtain stack1 s1 where a: "scan_root i stack s = Inr (stack1, s1)" "stack_base stack1"
    "scan_inv X (G - {r. e = GC_ROOT r}) s0 [] s1" using scan_root_ok [OF Cons.prems(1,2) sl e(2) eb] .
  have rest: "readable_roots s0 (set ids)" using Cons.prems(3) by (simp add: readable_roots_def)
  have G: "G - {r. e = GC_ROOT r} - {r. \<exists>i \<in> set ids. gc_slot s0 i = Some (GC_ROOT r)} =
      G - {r. \<exists>i \<in> set (i # ids). gc_slot s0 i = Some (GC_ROOT r)}" using e(1) by auto
  from Cons.IH [OF a(3,2) rest] show ?case unfolding G using a(1) by simp
qed

text \<open>
  After the scan: the white nodes \<open>{n \<in> X. col s n = GC_WHITE}\<close> are those of \<open>X\<close> that no node
  with a count reaches.
\<close>

definition still_live :: "gc_state \<Rightarrow> nat set \<Rightarrow> nat set" where
  "still_live s X = reach s {x \<in> X. 0 < rc s x}"

definition scanned :: "nat set \<Rightarrow> gc_state \<Rightarrow> gc_state \<Rightarrow> bool" where
  "scanned X s0 s \<longleftrightarrow>
     same_shape s0 s \<and> same_buffer s0 s \<and> still_live s0 X \<subseteq> X \<and>
     (\<forall>n < size_of s0. col s n = (if n \<in> X - still_live s0 X then GC_WHITE else GC_BLACK)) \<and>
     (\<forall>n < size_of s0. rc s n = rc s0 n + refs (kids s0) (still_live s0 X) n)"

lemma scan_done:
  assumes i: "scan_inv X G s0 [] s" and g: "grey_in s \<subseteq> Y"
    and Y: "\<And>n. n \<in> X \<Longrightarrow> \<exists>r \<in> X - Y. (r, n) \<in> (edges (size_of s0) (kids s0))\<^sup>*"
  shows "scanned X s0 s"
proof -
  let ?K = "kids s0" and ?len = "size_of s0"
  note d = scan_invD [OF i]
  note f = scanningD [OF d(4)]
  have bw: "GC_WHITE \<noteq> GC_BLACK" "GC_GREY \<noteq> GC_BLACK" "GC_WHITE \<noteq> GC_GREY"
    by (simp_all add: GC_WHITE_def GC_BLACK_def GC_GREY_def)
  have ng: "col s n \<noteq> GC_GREY" if n: "n \<in> X" for n
  proof -
    obtain r where r: "r \<in> X - Y" "(r, n) \<in> (edges ?len ?K)\<^sup>*" using Y [OF n] by blast
    from r(2) have "n \<in> X \<and> col s n \<noteq> GC_GREY"
    proof (induction rule: rtrancl_induct)
      case base
      have "r < size_of s" using r(1) d(6,8) by auto
      then show ?case using r(1) g by (auto simp: grey_in_def)
    next
      case (step y z)
      then have z: "z \<in> set (?K y)" "y \<in> X" "col s y \<noteq> GC_GREY" by (simp_all add: edges_def)
      have "col s z \<noteq> GC_GREY"
      proof (cases "col s y = GC_BLACK")
        case True
        then show ?thesis using f(8) [OF z(2) _ z(1)] bw by simp
      next
        case False
        then have "col s y = GC_WHITE" using f(5) [OF z(2)] z(3) by blast
        then show ?thesis using f(10) [OF z(2)] z(1) by simp
      qed
      then show ?case using f(2) [OF z(2)] z(1) by blast
    qed
    then show ?thesis by blast
  qed
  have sub: "still_live s0 X \<subseteq> {b \<in> X. col s b = GC_BLACK}"
    unfolding still_live_def
  proof (rule closed_reach)
    show "{x \<in> X. 0 < rc s0 x} \<subseteq> {b \<in> X. col s b = GC_BLACK}"
    proof
      fix x assume x: "x \<in> {x \<in> X. 0 < rc s0 x}"
      then have "col s x \<noteq> GC_WHITE" using f(10) [of x] by auto
      then show "x \<in> {b \<in> X. col s b = GC_BLACK}" using f(5) [of x] ng [of x] x by auto
    qed
    show "\<And>e. e \<in> {b \<in> X. col s b = GC_BLACK} \<Longrightarrow> set (?K e) \<subseteq> {b \<in> X. col s b = GC_BLACK}"
      using f(2,8) by blast
  qed
  have eq: "still_live s0 X = {b \<in> X. col s b = GC_BLACK}"
  proof
    show "{b \<in> X. col s b = GC_BLACK} \<subseteq> still_live s0 X"
      unfolding still_live_def reach_def using f(9) by blast
  qed (rule sub)
  show ?thesis
    unfolding scanned_def
  proof (intro conjI allI impI)
    show "same_shape s0 s" "same_buffer s0 s" by (rule d)+
    show "still_live s0 X \<subseteq> X" using eq by blast
    fix n assume n: "n < ?len"
    show "col s n = (if n \<in> X - still_live s0 X then GC_WHITE else GC_BLACK)"
      using f(4) [OF n] f(5) [of n] ng [of n] unfolding eq by auto
    show "rc s n = rc s0 n + refs ?K (still_live s0 X) n" using f(7) [OF n] unfolding eq .
  qed
qed

lemma scan_roots_ok:
  assumes g: "graph_ok s" and st: "stack_base stack"
    and X: "X \<subseteq> {..<size_of s}" "\<And>d. d \<in> X \<Longrightarrow> set (kids s d) \<subseteq> X"
    and c: "\<And>n. n < size_of s \<Longrightarrow> col s n = (if n \<in> X then GC_GREY else GC_BLACK)"
    and rd: "readable_roots s (in_use s {})"
    and Y: "\<And>n. n \<in> X \<Longrightarrow> \<exists>r \<in> X. GC_ROOT r \<in> buffered s \<and> (r, n) \<in> (edges (size_of s) (kids s))\<^sup>*"
  obtains stack' s' where "gc_scan_roots stack s = Inr (stack', s')" "stack_base stack'" "scanned X s s'"
proof -
  have bw: "GC_GREY \<noteq> GC_BLACK" "GC_GREY \<noteq> GC_WHITE" by (simp_all add: GC_WHITE_def GC_BLACK_def GC_GREY_def)
  have cX: "col s n = GC_GREY" if "n \<in> X" for n using c [of n] X(1) that by auto
  have noblack: "{b \<in> X. col s b = GC_BLACK} = {}" using cX bw by force
  have "scanning (kids s) (size_of s) X (rc s) [] (col s) (rc s)"
    unfolding scanning_def noblack
  proof (intro conjI ballI allI impI)
    show "X \<subseteq> {..<size_of s}" by (rule X(1))
    show "\<And>d. d \<in> X \<Longrightarrow> set (kids s d) \<subseteq> X" by (rule X(2))
    show "\<And>n. n < size_of s \<Longrightarrow> n \<notin> X \<Longrightarrow> col s n = GC_BLACK" using c by simp
  qed (use cX bw in simp_all)
  then have i: "scan_inv X UNIV s [] s" using g by (simp add: scan_inv_def)
  have iu: "set [GC_FIRST_ROOT..<gc_first_unused (gs_globals s)] = in_use s {}"
    by (auto simp: in_use_def GC_FIRST_ROOT_def)
  let ?Y = "UNIV - {r. \<exists>i \<in> in_use s {}. gc_slot s i = Some (GC_ROOT r)}"
  obtain stack' s' where a: "scan_roots_loop [GC_FIRST_ROOT..<gc_first_unused (gs_globals s)] stack s = Inr (stack', s')"
    "stack_base stack'" "scan_inv X ?Y s [] s'"
    using scan_roots_loop_ok [OF i st, of "[GC_FIRST_ROOT..<gc_first_unused (gs_globals s)]"] rd unfolding iu by blast
  have "\<exists>r \<in> X - ?Y. (r, n) \<in> (edges (size_of s) (kids s))\<^sup>*" if "n \<in> X" for n
    using Y [OF that] by (auto simp: buffered_slot)
  then have "scanned X s s'" using scan_done [OF a(3) scan_invD(9) [OF a(3)]] by blast
  moreover have "scan_extra_loop (gc_fuel s') (gc_first_unused (gs_globals s)) stack' s' = Inr (stack', s')"
    using scan_invD(3) [OF a(3)] by (simp add: gc_fuel_def same_buffer_def)
  ultimately show thesis using that a(1,2) by (simp add: gc_scan_roots_def)
qed

subsection \<open>Marking and scanning together\<close>

text \<open>
  A node is alive when a node is that has more references than the candidates hold; the
  candidates are what the purple nodes reach.
\<close>

definition candidates :: "gc_state \<Rightarrow> nat set" where
  "candidates s = reach s (purple s)"

definition externally_held :: "gc_state \<Rightarrow> nat set" where
  "externally_held s = {x \<in> candidates s. refs (kids s) (candidates s) x < rc s x}"

definition garbage :: "gc_state \<Rightarrow> nat set" where
  "garbage s = candidates s - reach s (externally_held s)"

definition split_up :: "gc_state \<Rightarrow> gc_state \<Rightarrow> bool" where
  "split_up s s' \<longleftrightarrow>
     same_shape s s' \<and>
     (\<forall>n < size_of s. col s' n = (if n \<in> garbage s then GC_WHITE else GC_BLACK)) \<and>
     (\<forall>n < size_of s. rc s' n = rc s n - refs (kids s) (garbage s) n)"

lemma reach_bound:
  assumes g: "graph_ok s" and R: "R \<subseteq> {..<size_of s}"
  shows "reach s R \<subseteq> {..<size_of s}"
  by (rule closed_reach [OF R]) (use graph_okD(1) [OF g] in blast)

lemma reach_refl: "R \<subseteq> reach s R"
  by (auto simp: reach_def)

lemma reach_kids: "d < size_of s \<Longrightarrow> d \<in> reach s R \<Longrightarrow> set (kids s d) \<subseteq> reach s R"
  unfolding reach_def by (auto simp: edges_def intro: rtrancl_into_rtrancl)

lemma mark_scan_ok:
  assumes b: "before_run s" and st: "stack_base stack"
  obtains stack1 s0 s1 stack2 s2 where "gc_mark_roots stack s = Inr (stack1, s1)" "gc_scan_roots stack1 s1 = Inr (stack2, s2)"
    "stack_base stack2" "compacted s s0" "same_buffer s0 s2" "split_up s s2"
proof -
  have ok: "graph_ok s" "fully_counted s" "roots_ok s" and bp: "\<And>n. n < size_of s \<Longrightarrow> col s n = GC_BLACK \<or>
        col s n = GC_PURPLE \<and> (\<exists>i \<in> in_use s {}. gc_slot s i = Some (GC_ROOT n))"
    using b by (auto simp: before_run_def)
  let ?X = "candidates s"
  obtain stack1 s0 s1 where a: "gc_mark_roots stack s = Inr (stack1, s1)" "stack_base stack1" "compacted s s0"
    "marked s0 (purple s) ?X s1" using mark_roots_ok [OF b st] unfolding candidates_def .
  note m = markedD [OF a(4)]
  note cs = compacted_same [OF a(3)]
  have sh1: "same_shape s s1" by (rule same_shape_trans [OF cs(1) m(1)])
  have len: "size_of s0 = size_of s" "size_of s1 = size_of s" using cs(1) sh1 by (simp_all add: same_shape_def)
  have g1: "graph_ok s1" by (rule graph_same [OF sh1 ok(1)])
  have K0: "kids s0 n = kids s n" if "n < size_of s" for n by (rule kids_same [OF cs(1) that])
  have K1: "kids s1 n = kids s n" if "n < size_of s" for n by (rule kids_same [OF sh1 that])
  have pX: "purple s \<subseteq> ?X" unfolding candidates_def by (rule reach_refl)
  have Xb: "?X \<subseteq> {..<size_of s}" using m(3) len by simp
  have refs_eq: "refs (kids s0) A n = refs (kids s) A n" "refs (kids s1) A n = refs (kids s) A n"
    if "A \<subseteq> {..<size_of s}" for A n
    unfolding refs_def using that K0 K1 by (auto intro!: sum.cong)
  have Xcl: "set (kids s1 d) \<subseteq> ?X" if "d \<in> ?X" for d
  proof -
    have "d < size_of s" using that Xb by blast
    then show ?thesis using m(6) [OF that] K0 K1 by simp
  qed
  have c1: "col s1 n = (if n \<in> ?X then GC_GREY else GC_BLACK)" if "n < size_of s1" for n
  proof -
    have n: "n < size_of s" "n < size_of s0" using that len by simp_all
    then show ?thesis using m(4) [OF n(2)] cs(3) [OF n(1)] bp [OF n(1)] pX by (auto simp: purple_def)
  qed
  have rd: "readable_roots s1 (in_use s1 {})"
    using all_readable [OF a(3)] slot_same [OF m(2)] m(2) len
    by (simp add: readable_roots_def in_use_def same_buffer_def)
  have buf1: "buffered s1 = buffered s"
  proof -
    have "buffered s1 = buffered s0"
      using slot_same [OF m(2)] m(2) by (simp add: buffered_def in_use_def same_buffer_def)
    then show ?thesis using a(3) by (simp add: compacted_def)
  qed
  have edg: "edges (size_of s1) (kids s1) = edges (size_of s) (kids s)" by (rule edges_same [OF sh1])
  have Y: "\<exists>r \<in> ?X. GC_ROOT r \<in> buffered s1 \<and> (r, n) \<in> (edges (size_of s1) (kids s1))\<^sup>*" if n: "n \<in> ?X" for n
  proof -
    obtain r where r: "r \<in> purple s" "(r, n) \<in> (edges (size_of s) (kids s))\<^sup>*"
      using n by (auto simp: candidates_def reach_def)
    have "GC_ROOT r \<in> buffered s1" using r(1) bp [of r] unfolding buf1 by (force simp: purple_def buffered_slot)
    then show ?thesis using r pX unfolding edg by blast
  qed
  obtain stack2 s2 where c: "gc_scan_roots stack1 s1 = Inr (stack2, s2)" "stack_base stack2" "scanned ?X s1 s2"
    using scan_roots_ok [OF g1 a(2) Xb [folded len(2)] Xcl c1 rd Y] .
  have sc: "same_shape s1 s2" "same_buffer s1 s2" "still_live s1 ?X \<subseteq> ?X"
      "\<And>n. n < size_of s1 \<Longrightarrow> col s2 n = (if n \<in> ?X - still_live s1 ?X then GC_WHITE else GC_BLACK)"
      "\<And>n. n < size_of s1 \<Longrightarrow> rc s2 n = rc s1 n + refs (kids s1) (still_live s1 ?X) n"
    using c(3) unfolding scanned_def by blast+
  have rc1: "rc s1 n = rc s n - refs (kids s) ?X n" if "n < size_of s" for n
    using m(5) [of n] cs(2) [OF that] refs_eq(1) [OF Xb] that len by simp
  have "{x \<in> ?X. 0 < rc s1 x} = externally_held s"
    using rc1 Xb by (auto simp: externally_held_def)
  then have live: "still_live s1 ?X = reach s (externally_held s)" unfolding still_live_def reach_same [OF sh1] by simp
  have Wt: "?X - still_live s1 ?X = garbage s" by (simp add: live garbage_def)
  have lb: "still_live s1 ?X \<subseteq> {..<size_of s}" using sc(3) Xb by blast
  have "split_up s s2"
    unfolding split_up_def
  proof (intro conjI allI impI)
    show "same_shape s s2" by (rule same_shape_trans [OF sh1 sc(1)])
    fix n assume n: "n < size_of s"
    show "col s2 n = (if n \<in> garbage s then GC_WHITE else GC_BLACK)" using sc(4) [of n] n len unfolding Wt by simp
    have "garbage s \<inter> still_live s1 ?X = {}" "garbage s \<union> still_live s1 ?X = ?X" using sc(3) unfolding Wt [symmetric] by blast+
    then have "refs (kids s) (garbage s) n + refs (kids s) (still_live s1 ?X) n = refs (kids s) ?X n"
      using refs_union [of "garbage s" "still_live s1 ?X" "kids s" n] Xb lb finite_subset [OF Xb] finite_subset [OF lb]
      by (metis finite_Un finite_lessThan)
    moreover have "refs (kids s) ?X n \<le> rc s n"
    proof -
      have "refs (kids s) ?X n \<le> refs (kids s) {..<size_of s} n" by (rule refs_mono [OF _ Xb]) simp
      also have "\<dots> \<le> rc s n" using ok(2) n by (simp add: fully_counted_def)
      finally show ?thesis .
    qed
    ultimately show "rc s2 n = rc s n - refs (kids s) (garbage s) n"
      using sc(5) [of n] rc1 [OF n] refs_eq(2) [OF lb, of n] n len by simp
  qed
  moreover have "same_buffer s0 s2" by (rule same_buffer_trans [OF _ m(2) sc(2)]) (simp add: len)
  ultimately show thesis using that a(1,3) c(1,2) by blast
qed

end
