(* ===== verification/GcCollect.thy ===== *)
theory GcCollect
  imports GcTraverse
begin

text \<open>
  The third phase, \<open>gc_collect_white\<close> and \<open>gc_collect_roots\<close>, the removal of nested data from
  the buffer, and the three phases as \<open>zend_gc_collect_cycles\<close> runs them.
\<close>

subsection \<open>\<open>gc_collect_white\<close>\<close>

text \<open>With the state go the number of nodes counted and the flag \<open>GC_HAS_DESTRUCTORS\<close>.\<close>

type_synonym white_state = "gc_state \<times> nat \<times> bool"

text \<open>The colour is black here, so that no information means no address.\<close>

definition gc_enter_garbage :: "nat \<Rightarrow> gc_state \<Rightarrow> error + gc_state" where
  "gc_enter_garbage ref s =
     bindE (gc_node_at s ref) (\<lambda>n. if gn_info n = 0 then gc_add_garbage ref s else Inr s)"

definition gc_needs_dtor :: "gc_object \<Rightarrow> bool" where
  "gc_needs_dtor obj \<longleftrightarrow> \<not> go_dtor_called obj \<and> go_has_dtor obj"

definition gc_counts_as :: "gc_node \<Rightarrow> nat" where
  "gc_counts_as n = (case gn_body n of GcReference _ \<Rightarrow> 0 | _ \<Rightarrow> 1)"

definition collect_white_node ::
  "nat \<Rightarrow> stack_top \<Rightarrow> white_state \<Rightarrow> error + (nat option \<times> stack_top \<times> white_state)" where
  "collect_white_node ref st = (\<lambda>(s, k, flag).
     bindE (gc_node_at s ref) (\<lambda>n.
     let k = k + gc_counts_as n
     in case gn_body n of
          GcObject obj \<Rightarrow>
            if go_free_called obj then Inr (None, st, s, k, flag)
            else
              bindE (gc_enter_garbage ref s) (\<lambda>s.
              let flag = (flag \<or> gc_needs_dtor obj)
              in bindE (case go_weak obj of None \<Rightarrow> Inr (st, s) | Some es \<Rightarrow> white_weak True (map fst es) st s) (\<lambda>(st, s).
                 case go_map obj of
                   Some es \<Rightarrow>
                     bindE (white_weak False (map snd es) st s) (\<lambda>(st, s). Inr (None, st, s, k, flag))
                 | None \<Rightarrow>
                     bindE (visit_get_gc CollectWhite (go_get_gc obj) st s) (\<lambda>(next, st, s).
                       Inr (next, st, s, k, flag))))
        | GcArray ht \<Rightarrow>
            bindE (gc_enter_garbage ref s) (\<lambda>s.
            bindE (handle_ht CollectWhite ref st s) (\<lambda>(next, st, s). Inr (next, st, s, k, flag)))
        | GcReference v \<Rightarrow>
            bindE (visit_reference CollectWhite v st s) (\<lambda>(next, st, s). Inr (next, st, s, k, flag))
        | _ \<Rightarrow> Inr (None, st, s, k, flag)))"

definition gc_collect_white ::
  "nat \<Rightarrow> bool \<Rightarrow> gc_stack \<Rightarrow> gc_state \<Rightarrow> error + (nat \<times> bool \<times> gc_stack \<times> gc_state)" where
  "gc_collect_white ref flag stack s =
     bindE (traverse collect_white_node (gc_fuel s) ref (stack, 0) (s, 0, flag)) (\<lambda>(stack, s, k, flag).
       Inr (k, flag, stack, s))"

subsection \<open>\<open>gc_collect_roots\<close>\<close>

text \<open>The first loop: the roots that were made black leave the buffer.\<close>

fun remove_black_loop :: "nat list \<Rightarrow> gc_state \<Rightarrow> error + gc_state" where
  "remove_black_loop [] s = Inr s"
| "remove_black_loop (i # is) s =
     bindE (gc_buf_rd s i) (\<lambda>e.
     case e of
       GC_ROOT ref \<Rightarrow>
         bindE (gc_node_at s ref) (\<lambda>n.
         if GC_REF_CHECK_COLOR n GC_BLACK then
           bindE (GC_REF_SET_INFO ref 0 s) (\<lambda>s.
           bindE (gc_remove_from_roots i s) (remove_black_loop is))
         else remove_black_loop is s)
     | GC_NULL_ROOT \<Rightarrow> Inl BadPointer
     | _ \<Rightarrow> remove_black_loop is s)"

text \<open>The second: what is left is garbage, and from every white root the rest is collected.\<close>

fun collect_loop ::
  "nat list \<Rightarrow> nat \<Rightarrow> bool \<Rightarrow> gc_stack \<Rightarrow> gc_state \<Rightarrow> error + (nat \<times> bool \<times> gc_stack \<times> gc_state)" where
  "collect_loop [] acc flag stack s = Inr (acc, flag, stack, s)"
| "collect_loop (i # is) acc flag stack s =
     bindE (gc_buf_rd s i) (\<lambda>e.
     case e of
       GC_ROOT ref \<Rightarrow>
         bindE (gc_buf_wr i (GC_GARBAGE ref) s) (\<lambda>s.
         bindE (gc_node_at s ref) (\<lambda>n.
         if GC_REF_CHECK_COLOR n GC_WHITE then
           bindE (GC_REF_SET_BLACK ref s) (\<lambda>s.
           bindE (gc_collect_white ref flag stack s) (\<lambda>(k, flag, stack, s).
             collect_loop is (acc + k) flag stack s))
         else collect_loop is acc flag stack s))
     | GC_NULL_ROOT \<Rightarrow> Inl BadPointer
     | _ \<Rightarrow> Inl AssertFailed)"

definition gc_collect_roots :: "bool \<Rightarrow> gc_stack \<Rightarrow> gc_state \<Rightarrow> error + (nat \<times> bool \<times> gc_stack \<times> gc_state)" where
  "gc_collect_roots flag stack s =
     bindE (remove_black_loop [GC_FIRST_ROOT..<gc_first_unused (gs_globals s)] s) (\<lambda>s.
     bindE (gc_compact s) (\<lambda>s.
       collect_loop [GC_FIRST_ROOT..<gc_first_unused (gs_globals s)] 0 flag stack s))"

subsection \<open>\<open>gc_remove_nested_data_from_buffer\<close>\<close>

text \<open>Here the children are followed whatever their colour; the first one is the next.\<close>

fun push_zvals :: "(error + zval) list \<Rightarrow> stack_top \<Rightarrow> gc_state \<Rightarrow> error + stack_top" where
  "push_zvals [] st s = Inr st"
| "push_zvals (z # zs) st s =
     bindE z (\<lambda>v.
     case Z_COLLECTABLE s v of
       None \<Rightarrow> push_zvals zs st s
     | Some ref \<Rightarrow> bindE (gc_stack_push ref st) (\<lambda>st. push_zvals zs st s))"

fun nested_zvals :: "(error + zval) list \<Rightarrow> stack_top \<Rightarrow> gc_state \<Rightarrow> error + (nat option \<times> stack_top)" where
  "nested_zvals [] st s = Inr (None, st)"
| "nested_zvals (z # zs) st s =
     bindE z (\<lambda>v.
     case Z_COLLECTABLE s v of
       None \<Rightarrow> nested_zvals zs st s
     | Some ref \<Rightarrow> bindE (push_zvals zs st s) (\<lambda>st. Inr (Some ref, st)))"

definition nested_ht :: "nat \<Rightarrow> stack_top \<Rightarrow> gc_state \<Rightarrow> error + (nat option \<times> stack_top)" where
  "nested_ht h st s =
     bindE (gc_node_at s h) (\<lambda>n.
     case gn_body n of GcArray ht \<Rightarrow> nested_zvals (ht_zvals s ht) st s | _ \<Rightarrow> Inl BadPointer)"

definition gc_is_black_root :: "gc_node \<Rightarrow> bool" where
  "gc_is_black_root n \<longleftrightarrow> GC_REF_ADDRESS n \<noteq> 0 \<and> GC_REF_CHECK_COLOR n GC_BLACK"

text \<open>
  The node part of the loop: \<open>root\<close> says that this is the first node, and with the state go
  that flag and the number of removed entries. \<open>nested_children\<close> is the part after the checks.
\<close>

definition nested_children :: "nat \<Rightarrow> stack_top \<Rightarrow> gc_state \<Rightarrow> error + (nat option \<times> stack_top \<times> gc_state)" where
  "nested_children ref st s =
     bindE (gc_node_at s ref) (\<lambda>n.
     case gn_body n of
       GcObject obj \<Rightarrow>
         if go_free_called obj then Inr (None, st, s)
         else
           bindE (case go_weak obj of
                    None \<Rightarrow> Inr st
                  | Some es \<Rightarrow>
                      push_zvals (map (\<lambda>e. bindE (weak_at s (fst e)) (\<lambda>w. Inr (we_val w))) es) st s) (\<lambda>st.
           case go_get_gc obj of
             (None, table) \<Rightarrow> bindE (nested_zvals (map Inr table) st s) (\<lambda>(next, st). Inr (next, st, s))
           | (Some h, table) \<Rightarrow>
               bindE (push_zvals (map Inr table) st s) (\<lambda>st.
               bindE (gc_node_at s h) (\<lambda>q.
               bindE (if gc_is_black_root q then gc_remove_from_buffer h s else Inr s) (\<lambda>s.
               bindE (nested_ht h st s) (\<lambda>(next, st). Inr (next, st, s))))))
     | GcArray ht \<Rightarrow> bindE (nested_zvals (ht_zvals s ht) st s) (\<lambda>(next, st). Inr (next, st, s))
     | _ \<Rightarrow> Inr (None, st, s))"

definition remove_nested_node ::
  "nat \<Rightarrow> stack_top \<Rightarrow> gc_state \<times> bool \<times> nat \<Rightarrow> error + (nat option \<times> stack_top \<times> gc_state \<times> bool \<times> nat)" where
  "remove_nested_node ref st = (\<lambda>(s, root, k).
     bindE (gc_node_at s ref) (\<lambda>n.
     if root then
       bindE (nested_children ref st s) (\<lambda>(next, st, s). Inr (next, st, s, False, k + 1))
     else if gc_is_black_root n then
       bindE (gc_remove_from_buffer ref s) (\<lambda>s.
       bindE (nested_children ref st s) (\<lambda>(next, st, s). Inr (next, st, s, False, k + 1)))
     else case gn_body n of
       GcReference v \<Rightarrow> Inr (Z_COLLECTABLE s v, st, s, False, k)
     | _ \<Rightarrow> Inr (None, st, s, False, k)))"

text \<open>Nothing is painted here, so that the number of nodes does not bound the loop.\<close>

definition gc_remove_nested_data_from_buffer ::
  "nat \<Rightarrow> nat \<Rightarrow> bool \<Rightarrow> gc_stack \<Rightarrow> gc_state \<Rightarrow> error + (nat \<times> gc_stack \<times> gc_state)" where
  "gc_remove_nested_data_from_buffer fuel ref root stack s =
     bindE (traverse remove_nested_node fuel ref (stack, 0) (s, root, 0)) (\<lambda>(stack, s, _, k). Inr (k, stack, s))"

subsection \<open>A collection run\<close>

text \<open>
  From \<open>GC_G(gc_runs)++\<close> to \<open>gc_collect_roots\<close>: the number of nodes, the flag and the state in
  which the destructors are called and the garbage is destroyed.
\<close>

definition gc_find_garbage :: "gc_state \<Rightarrow> error + (nat \<times> bool \<times> gc_state)" where
  "gc_find_garbage s =
     (let s = gc_upd (\<lambda>g. g\<lparr>gc_runs := gc_runs g + 1, gc_active := True\<rparr>) s;
          stack = \<lparr>sk_prev = [], sk_data = replicate GC_STACK_SEGMENT_SIZE None, sk_next = []\<rparr>
      in bindE (gc_mark_roots stack s) (\<lambda>(stack, s).
         bindE (gc_scan_roots stack s) (\<lambda>(stack, s).
         bindE (gc_collect_roots False stack s) (\<lambda>(k, flag, stack, s). Inr (k, flag, s)))))"

text \<open>
  The marks of the objects whose destructors are to be called: \<open>GC_DTOR_GARBAGE\<close> and purple,
  so that the removal of nested data passes over them.
\<close>

definition gc_set_dtor_called :: "nat \<Rightarrow> gc_object \<Rightarrow> gc_state \<Rightarrow> error + gc_state" where
  "gc_set_dtor_called ref obj = gc_node_put ref (\<lambda>n. n\<lparr>gn_body := GcObject (obj\<lparr>go_dtor_called := True\<rparr>)\<rparr>)"

fun mark_dtor_loop :: "nat list \<Rightarrow> gc_state \<Rightarrow> error + gc_state" where
  "mark_dtor_loop [] s = Inr s"
| "mark_dtor_loop (i # is) s =
     bindE (gc_buf_rd s i) (\<lambda>e.
     case e of
       GC_GARBAGE p \<Rightarrow>
         bindE (gc_node_at s p) (\<lambda>n.
         case gn_body n of
           GcObject obj \<Rightarrow>
             if go_dtor_called obj then mark_dtor_loop is s
             else if go_has_dtor obj then
               bindE (gc_buf_wr i (GC_DTOR_GARBAGE p) s) (\<lambda>s.
               bindE (GC_REF_SET_COLOR p GC_PURPLE s) (mark_dtor_loop is))
             else bindE (gc_set_dtor_called p obj s) (mark_dtor_loop is)
         | _ \<Rightarrow> mark_dtor_loop is s)
     | _ \<Rightarrow> mark_dtor_loop is s)"

fun remove_nested_loop :: "nat \<Rightarrow> nat list \<Rightarrow> nat \<Rightarrow> gc_stack \<Rightarrow> gc_state \<Rightarrow> error + (nat \<times> gc_stack \<times> gc_state)" where
  "remove_nested_loop fuel [] removed stack s = Inr (removed, stack, s)"
| "remove_nested_loop fuel (i # is) removed stack s =
     bindE (gc_buf_rd s i) (\<lambda>e.
     case e of
       GC_DTOR_GARBAGE p \<Rightarrow>
         bindE (gc_remove_nested_data_from_buffer fuel p True stack s) (\<lambda>(k, stack, s).
           remove_nested_loop fuel is (removed + k) stack s)
     | _ \<Rightarrow> remove_nested_loop fuel is removed stack s)"

text \<open>The last loop of a run: the entries of the garbage are linked, and their nodes are freed.\<close>

fun free_loop :: "(nat \<Rightarrow> gc_state \<Rightarrow> gc_state) \<Rightarrow> nat list \<Rightarrow> gc_state \<Rightarrow> error + gc_state" where
  "free_loop efree [] s = Inr s"
| "free_loop efree (i # is) s =
     bindE (gc_buf_rd s i) (\<lambda>e.
     case e of
       GC_GARBAGE p \<Rightarrow>
         bindE (gc_link_unused i s) (\<lambda>s.
         free_loop efree is (efree p (gc_upd (\<lambda>g. g\<lparr>gc_num_roots := gc_num_roots g - 1\<rparr>) s)))
     | _ \<Rightarrow> free_loop efree is s)"

end
