(* ===== verification/GcGarbage.thy ===== *)
theory GcGarbage
  imports GcScan GcCollect
begin

text \<open>
  \<open>gc_collect_white\<close>: from a white node the white nodes it reaches become black, their
  references are counted again, and the objects and arrays among them enter the buffer.
\<close>

subsection \<open>The buffer of a collection\<close>

text \<open>A buffer without unused entries.\<close>

definition tight :: "gc_state \<Rightarrow> bool" where
  "tight s \<longleftrightarrow> roots_ok s \<and> gc_unused (gs_globals s) = GC_INVALID"

lemma tight_held:
  assumes t: "tight s" and i: "i \<in> in_use s {}"
  shows "\<exists>r. holds_at s i r" "\<not> unused_at s i"
proof -
  have ok: "roots_ok s" and u: "gc_unused (gs_globals s) = GC_INVALID" using t by (simp_all add: tight_def)
  note d = roots_partD [OF ok]
  obtain ys where ys: "free_chain s (gc_unused (gs_globals s)) ys" "set ys = {i \<in> in_use s {}. unused_at s i}"
    using d(7) by blast
  have "ys = []" using ys(1) u by (cases ys) auto
  then show "\<not> unused_at s i" using ys(2) i by auto
  then show "\<exists>r. holds_at s i r" using d(8) [OF i] by blast
qed

lemma tight_room:
  assumes t: "tight s"
  shows "gc_first_unused (gs_globals s) \<le> size_of s + 1"
proof -
  have ok: "roots_ok s" using t by (simp add: tight_def)
  note d = roots_partD [OF ok]
  let ?p = "\<lambda>i. SOME r. holds_at s i r"
  have p: "holds_at s i (?p i)" if "i \<in> in_use s {}" for i using tight_held(1) [OF t that] by (rule someI_ex)
  have "inj_on ?p (in_use s {})"
  proof (rule inj_onI)
    fix i j assume a: "i \<in> in_use s {}" "j \<in> in_use s {}" "?p i = ?p j"
    from p [OF a(1)] p [OF a(2)] a(3) have "holds_at s i (?p i)" "holds_at s j (?p i)" by simp_all
    then show "i = j" using d(9) [OF a(1,2)] by blast
  qed
  moreover have "?p ` in_use s {} \<subseteq> {..<size_of s}"
    using held(1) [OF ok] p by (force simp: size_of_def)
  ultimately have "card (in_use s {}) \<le> card {..<size_of s}" by (metis card_inj_on_le finite_lessThan)
  then show ?thesis by (simp add: in_use_def)
qed

lemma roots_same:
  assumes ok: "roots_ok s" and sh: "same_shape s s'" and b: "same_buffer s s'"
  shows "roots_ok s'" "buffered s' = buffered s" "in_use s' X = in_use s X"
proof -
  have g: "gs_globals s' = gs_globals s" and n: "length (gs_nodes s') = length (gs_nodes s)"
    and a: "\<And>r. r < length (gs_nodes s) \<Longrightarrow> GC_REF_ADDRESS (gs_nodes s' ! r) = GC_REF_ADDRESS (gs_nodes s ! r)"
    and i: "\<And>r. r < length (gs_nodes s) \<Longrightarrow> gn_info (gs_nodes s ! r) < 2 ^ 22 \<Longrightarrow> gn_info (gs_nodes s' ! r) < 2 ^ 22"
    using sh b by (simp_all add: same_shape_def same_buffer_def size_of_def addr_def)
  have sl: "gc_slot s' = gc_slot s" by (rule slot_same [OF b])
  have iu: "in_use s' = in_use s" by (simp add: in_use_def g fun_eq_iff)
  have h: "holds_at s' = holds_at s" "unused_at s' = unused_at s" by (simp_all add: fun_eq_iff holds_at_def unused_at_def sl)
  have bo: "buf_ok s' = buf_ok s" by (simp add: buf_ok_def g)
  have fc: "free_chain s' u ys = free_chain s u ys" for u ys by (rule free_chain_cong) (simp add: sl)
  show "buffered s' = buffered s" "in_use s' X = in_use s X" by (simp_all add: buffered_def iu sl)
  note d = roots_partD [OF ok]
  show "roots_ok s'"
    unfolding roots_part_def g n iu h bo fc
  proof (intro conjI ballI allI impI)
    fix k assume k: "k \<in> in_use s {}"
    from d(8) [OF k] a show "unused_at s k \<or>
        (\<exists>r < length (gs_nodes s). holds_at s k r \<and> GC_REF_ADDRESS (gs_nodes s' ! r) = gc_compress k)" by metis
  next
    fix r assume r: "r < length (gs_nodes s)"
    then show "gn_info (gs_nodes s' ! r) < 2 ^ 22" using i d(10) by blast
    assume "GC_REF_ADDRESS (gs_nodes s' ! r) \<noteq> 0"
    then show "\<exists>i \<in> in_use s {}. holds_at s i r" using d(11) [OF r] a [OF r] by simp
  qed (use d in blast)+
qed

subsection \<open>What a collection does to the buffer\<close>

definition white_frame :: "nat set \<Rightarrow> gc_state \<Rightarrow> gc_state \<Rightarrow> bool" where
  "white_frame A s s' \<longleftrightarrow>
     same_shape s s' \<and> gc_frame s s' \<and> tight s' \<and> A \<subseteq> {..<size_of s} \<and>
     buffered s' = buffered s \<union> GC_GARBAGE ` A \<and>
     gc_first_unused (gs_globals s) \<le> gc_first_unused (gs_globals s') \<and>
     (\<forall>i \<in> in_use s {}. gc_slot s' i = gc_slot s i) \<and>
     (\<forall>n < size_of s. n \<notin> A \<longrightarrow> addr s' n = addr s n) \<and>
     (\<forall>n \<in> A. addr s n = 0 \<and> addr s' n \<noteq> 0)"

lemma white_frameD:
  assumes "white_frame A s s'"
  shows "same_shape s s'" "gc_frame s s'" "tight s'" "A \<subseteq> {..<size_of s}" "buffered s' = buffered s \<union> GC_GARBAGE ` A"
    "gc_first_unused (gs_globals s) \<le> gc_first_unused (gs_globals s')"
    "\<And>i. i \<in> in_use s {} \<Longrightarrow> gc_slot s' i = gc_slot s i"
    "\<And>n. n < size_of s \<Longrightarrow> n \<notin> A \<Longrightarrow> addr s' n = addr s n"
    "\<And>n. n \<in> A \<Longrightarrow> addr s n = 0" "\<And>n. n \<in> A \<Longrightarrow> addr s' n \<noteq> 0" "size_of s' = size_of s"
  using assms unfolding white_frame_def same_shape_def by blast+

lemma white_frame_refl: "tight s \<Longrightarrow> white_frame {} s s"
  by (simp add: white_frame_def)

lemma white_frame_trans:
  assumes a: "white_frame A s t" and b: "white_frame B t u"
  shows "white_frame (A \<union> B) s u" "A \<inter> B = {}"
proof -
  note d = white_frameD [OF a] and e = white_frameD [OF b]
  show disj: "A \<inter> B = {}" using d(10) e(9) by blast
  have iu: "in_use s {} \<subseteq> in_use t {}" using d(6) by (auto simp: in_use_def)
  show "white_frame (A \<union> B) s u"
    unfolding white_frame_def
  proof (intro conjI ballI allI impI)
    show "same_shape s u" by (rule same_shape_trans [OF d(1) e(1)])
    show "gc_frame s u" by (rule gc_frame_trans [OF d(2) e(2)])
    show "tight u" by (rule e(3))
    show "A \<union> B \<subseteq> {..<size_of s}" using d(4,11) e(4) by auto
    show "buffered u = buffered s \<union> GC_GARBAGE ` (A \<union> B)" using d(5) e(5) by blast
    show "gc_first_unused (gs_globals s) \<le> gc_first_unused (gs_globals u)" using d(6) e(6) by linarith
    show "\<And>i. i \<in> in_use s {} \<Longrightarrow> gc_slot u i = gc_slot s i" using d(7) e(7) iu by (metis subsetD)
    show "\<And>n. n < size_of s \<Longrightarrow> n \<notin> A \<union> B \<Longrightarrow> addr u n = addr s n" using d(8,11) e(8) by simp
    fix n assume n: "n \<in> A \<union> B"
    show "addr s n = 0"
    proof (cases "n \<in> A")
      case False
      then have "n \<in> B" "n < size_of s" using n e(4) d(11) by auto
      then show ?thesis using d(8) [OF _ False] e(9) by simp
    qed (rule d(9))
    show "addr u n \<noteq> 0"
    proof (cases "n \<in> B")
      case False
      then have "n \<in> A" "n < size_of t" using n d(4,11) by auto
      then show ?thesis using e(8) [OF _ False] d(10) by simp
    qed (rule e(10))
  qed
qed

lemma white_frame_buffer:
  assumes t: "tight s" and sh: "same_shape s s'" and b: "same_buffer s s'"
  shows "white_frame {} s s'"
proof -
  have ok: "roots_ok s" using t by (simp add: tight_def)
  note r = roots_same [OF ok sh b]
  have g: "gs_globals s' = gs_globals s" using b by (simp add: same_buffer_def)
  show ?thesis
    unfolding white_frame_def
  proof (intro conjI ballI allI impI)
    show "tight s'" using r(1) t g by (simp add: tight_def)
    show "gc_frame s s'" using sh g by (simp add: gc_frame_def same_shape_def)
    show "\<And>i. i \<in> in_use s {} \<Longrightarrow> gc_slot s' i = gc_slot s i" by (simp add: slot_same [OF b])
    show "\<And>n. n < size_of s \<Longrightarrow> addr s' n = addr s n" using b by (simp add: same_buffer_def)
  qed (use sh r g in simp_all)
qed

text \<open>A node enters the buffer as garbage.\<close>

lemma enter_garbage_ok:
  assumes t: "tight s" and sz: "size_of s + 1 < 2 ^ 29" and r: "r < size_of s" "col s r = GC_BLACK"
  obtains s' where "gc_enter_garbage r s = Inr s'" "white_frame (if addr s r = 0 then {r} else {}) s s'"
    "col s' = col s" "rc s' = rc s"
proof (cases "addr s r = 0")
  case False
  then have "gn_info (gs_nodes s ! r) \<noteq> 0" by (auto simp: addr_def GC_REF_ADDRESS_def)
  then have "gc_enter_garbage r s = Inr s" using r by (simp add: gc_enter_garbage_def node_at_ok)
  then show thesis using that False white_frame_refl [OF t] by simp
next
  case True
  have ok: "roots_ok s" and u: "gc_unused (gs_globals s) = GC_INVALID" using t by (simp_all add: tight_def)
  have rl: "r < length (gs_nodes s)" using r by (simp add: size_of_def)
  have ad: "GC_REF_ADDRESS (gs_nodes s ! r) = 0" using True by (simp add: addr_def)
  have info: "gn_info (gs_nodes s ! r) = 0"
  proof (rule info_zero [OF roots_partD(10) [OF ok rl]])
    show "gn_info (gs_nodes s ! r) AND GC_ADDRESS = 0" using ad by (simp add: GC_REF_ADDRESS_def unat_eq_0)
    show "gn_info (gs_nodes s ! r) AND GC_COLOR = GC_BLACK" using r(2) by (simp add: col_def GC_REF_COLOR_def)
  qed
  have room: "gc_first_unused (gs_globals s) < 2 ^ 29" using tight_room [OF t] sz by linarith
  obtain idx s1 where s1: "gc_new_index s = Inr (Some idx, s1)" "index_taken s idx s1" using new_index_ok [OF ok room] .
  obtain s' where s': "gc_set_entry idx (GC_GARBAGE r) r GC_BLACK s1 = Inr s'" "entered s (GC_GARBAGE r) r GC_BLACK s'"
    using set_entry_ok [OF s1(2) rl ad, of "GC_GARBAGE r" GC_BLACK] by (auto simp: GC_GET_PTR_def GC_BLACK_def)
  from s'(2) obtain i where e: "roots_ok s'" "gc_frame s s'" "buffered s' = insert (GC_GARBAGE r) (buffered s)"
    "gs_nodes s' = (gs_nodes s)[r := (gs_nodes s ! r)\<lparr>gn_info := i\<rparr>]" "i AND GC_COLOR = GC_BLACK" "i AND GC_ADDRESS \<noteq> 0"
    "\<forall>i \<in> in_use s {}. \<not> unused_at s i \<longrightarrow> gc_slot s' i = gc_slot s i"
    "gc_first_unused (gs_globals s') = gc_first_unused (gs_globals s) + 1" "gc_unused (gs_globals s') = GC_INVALID"
    unfolding entered_def using u by blast
  have n: "gs_nodes s' ! q = (if q = r then (gs_nodes s ! r)\<lparr>gn_info := i\<rparr> else gs_nodes s ! q)" for q
    using e(4) rl by simp
  have "same_shape s s'" using e(2,4) rl by (simp add: same_shape_def gc_frame_def size_of_def nth_list_update)
  moreover have a: "addr s' q = addr s q" if "q \<noteq> r" for q using that by (simp add: addr_def n)
  moreover have "addr s' r \<noteq> 0"
    using e(6) by (simp add: addr_def n GC_REF_ADDRESS_def unat_eq_0)
  moreover have "gc_slot s' i = gc_slot s i" if "i \<in> in_use s {}" for i using e(7) tight_held(2) [OF t that] that by blast
  moreover have "tight s'" using e(1,9) by (simp add: tight_def)
  ultimately have "white_frame {r} s s'" unfolding white_frame_def using e(2,3,8) True r(1) by auto
  moreover have "col s' = col s" using e(5) r(2) by (simp add: fun_eq_iff col_def n GC_REF_COLOR_def)
  moreover have "rc s' = rc s" by (simp add: fun_eq_iff rc_def n)
  moreover have "gc_enter_garbage r s = Inr s'"
    using r info s1(1) s'(1) by (simp add: gc_enter_garbage_def node_at_ok gc_add_garbage_def)
  ultimately show thesis using that True by simp
qed

subsection \<open>The nodes of a collection\<close>

definition enters :: "gc_state \<Rightarrow> nat \<Rightarrow> bool" where
  "enters s d \<longleftrightarrow>
     (case gn_body (gs_nodes s ! d) of GcArray _ \<Rightarrow> True | GcObject obj \<Rightarrow> \<not> go_free_called obj | _ \<Rightarrow> False)"

definition destructible :: "gc_state \<Rightarrow> nat \<Rightarrow> bool" where
  "destructible s d \<longleftrightarrow>
     (case gn_body (gs_nodes s ! d) of GcObject obj \<Rightarrow> \<not> go_free_called obj \<and> gc_needs_dtor obj | _ \<Rightarrow> False)"

definition counts_as :: "gc_state \<Rightarrow> nat \<Rightarrow> nat" where
  "counts_as s d = gc_counts_as (gs_nodes s ! d)"

text \<open>
  Of the nodes \<open>D\<close> the tables \<open>T\<close> were done together with the object that handed them out;
  the others were counted and, when they are not in the buffer yet, entered.
\<close>

definition entered_of :: "gc_state \<Rightarrow> nat set \<Rightarrow> nat set \<Rightarrow> nat set" where
  "entered_of s D T = {d \<in> D - T. enters s d \<and> addr s d = 0}"

definition tallied :: "gc_state \<Rightarrow> nat set \<Rightarrow> nat set \<Rightarrow> nat \<Rightarrow> bool \<Rightarrow> bool \<Rightarrow> bool" where
  "tallied s D T k flag0 flag \<longleftrightarrow>
     T \<subseteq> D \<and> (\<forall>h \<in> T. \<exists>d \<in> D. table_of s d h) \<and> k = (\<Sum>d \<in> D - T. counts_as s d) \<and>
     flag = (flag0 \<or> (\<exists>d \<in> D - T. destructible s d))"

lemma same_body:
  assumes "same_shape s s'" "d < size_of s"
  shows "enters s' d = enters s d" "destructible s' d = destructible s d" "counts_as s' d = counts_as s d"
    "table_of s' d h = table_of s d h"
  using assms by (simp_all add: same_shape_def enters_def destructible_def counts_as_def gc_counts_as_def table_of_def)

lemma tallied_step:
  assumes t: "tallied s D T k flag0 flag" and r: "r \<notin> D" and hs: "set hs \<inter> insert r D = {}" "\<forall>h \<in> set hs. table_of s r h"
    and fin: "finite D"
  shows "tallied s (D \<union> set (r # hs)) (T \<union> set hs) (k + counts_as s r) flag0 (flag \<or> destructible s r)"
    "entered_of s (D \<union> set (r # hs)) (T \<union> set hs) =
       entered_of s D T \<union> (if enters s r \<and> addr s r = 0 then {r} else {})"
proof -
  have T: "T \<subseteq> D" using t by (simp add: tallied_def)
  have e: "D \<union> set (r # hs) - (T \<union> set hs) = insert r (D - T)" using T r hs(1) by auto
  show "tallied s (D \<union> set (r # hs)) (T \<union> set hs) (k + counts_as s r) flag0 (flag \<or> destructible s r)"
    using t r hs(2) fin T unfolding tallied_def e by auto
  show "entered_of s (D \<union> set (r # hs)) (T \<union> set hs) =
      entered_of s D T \<union> (if enters s r \<and> addr s r = 0 then {r} else {})"
    unfolding entered_of_def e by auto
qed

subsection \<open>The traversal\<close>

definition white_inv :: "gc_state \<Rightarrow> nat \<Rightarrow> bool \<Rightarrow> nat list \<Rightarrow> white_state \<Rightarrow> bool" where
  "white_inv s0 r0 flag0 W ws \<longleftrightarrow>
     (case ws of (s, k, flag) \<Rightarrow>
        graph_ok s0 \<and> size_of s0 + 1 < 2 ^ 29 \<and>
        (\<exists>D T. flooding CollectWhite (kids s0) (size_of s0) r0 (col s0) (rc s0) D W (col s) (rc s) \<and>
          tallied s0 D T k flag0 flag \<and> white_frame (entered_of s0 D T) s0 s))"

definition white_meas :: "nat list \<Rightarrow> white_state \<Rightarrow> nat" where
  "white_meas W = (\<lambda>(s, k, flag). flood_meas CollectWhite W s)"

lemma collect_white_node_eq:
  assumes g: "graph_ok s" and r: "r < size_of s"
    and s1: "(if enters s r then gc_enter_garbage r s else Inr s) = Inr s1" "same_shape s s1"
    and v: "visit_node CollectWhite r st s1 = Inr (next, st', s')"
  shows "collect_white_node r st (s, k, flag) = Inr (next, st', s', k + counts_as s r, flag \<or> destructible s r)"
proof -
  have b: "gn_body (gs_nodes s1 ! r) = gn_body (gs_nodes s ! r)" using s1(2) r by (simp add: same_shape_def)
  show ?thesis
    using s1(1) v graph_okD(4) [OF g r] unfolding visit_node_def b
    by (auto simp: collect_white_node_def node_at_ok [OF r] enters_def destructible_def counts_as_def Let_def
        split: gc_body.splits if_splits)
qed

interpretation white: worklist collect_white_node "white_inv s0 r0 flag0" white_meas for s0 r0 flag0
proof
  fix r W ws st assume inv: "white_inv s0 r0 flag0 (r # W) ws" and st: "stacked st W"
  obtain s k flag where ws: "ws = (s, k, flag)" by (cases ws) auto
  let ?K = "kids s0" and ?len = "size_of s0"
  from inv obtain D T where g: "graph_ok s0" "size_of s0 + 1 < 2 ^ 29"
    and f: "flooding CollectWhite ?K ?len r0 (col s0) (rc s0) D (r # W) (col s) (rc s)"
    and t: "tallied s0 D T k flag0 flag" and w: "white_frame (entered_of s0 D T) s0 s"
    unfolding white_inv_def ws by auto
  note d = floodingD [OF f] and wd = white_frameD [OF w]
  have r: "r < size_of s" "r < ?len" "r \<notin> D" "col s r = GC_BLACK"
    using d(2,3) d(6) [of r] wd(11) by (auto simp: color_of_def)
  have gs: "graph_ok s" by (rule graph_same [OF wd(1) g(1)])
  have sz: "size_of s + 1 < 2 ^ 29" using g(2) wd(11) by simp
  have T: "T \<subseteq> D" using t by (simp add: tallied_def)
  have ar: "addr s r = addr s0 r" using wd(8) [OF r(2)] r(3) by (auto simp: entered_of_def)
  have er: "enters s r = enters s0 r" "counts_as s r = counts_as s0 r" "destructible s r = destructible s0 r"
    using same_body [OF wd(1) r(2)] by auto
  let ?E = "if enters s0 r \<and> addr s0 r = 0 then {r} else {}"
  obtain s1 where s1: "(if enters s r then gc_enter_garbage r s else Inr s) = Inr s1" "white_frame ?E s s1"
    "col s1 = col s" "rc s1 = rc s"
  proof (cases "enters s r")
    case True
    with enter_garbage_ok [OF wd(3) sz r(1,4)] that er(1) ar show thesis by auto
  next
    case False
    then show thesis using that [of s] white_frame_refl [OF wd(3)] er(1) by simp
  qed
  note v1 = white_frameD [OF s1(2)]
  have sh1: "same_shape s0 s1" by (rule same_shape_trans [OF wd(1) v1(1)])
  have len1: "size_of s1 = ?len" using v1(11) wd(11) by simp
  have g1: "graph_ok s1" by (rule graph_same [OF sh1 g(1)])
  have r1: "r < size_of s1" using r(2) len1 by simp
  have pay: "\<And>hs. payable CollectWhite (concat (map (kids s1) (r # hs))) s1" by (simp add: payable_def)
  obtain nxt st' s' new hs where v: "visit_node CollectWhite r st s1 = Inr (nxt, st', s')"
    "processed CollectWhite r hs s1 nxt st' s' W new" using visit_node_ok [OF g1 r1 pay st] by blast
  have kid: "kids s1 n = ?K n" if "n < ?len" for n by (rule kids_same [OF sh1 that])
  have hs: "hs = [] \<or> (\<exists>h. hs = [h] \<and> h \<in> set (?K r) \<and> follows CollectWhite (col s h))"
    using v(2) kid [OF r(2)] by (simp add: processed_def s1(3))
  have b: "\<And>d. d < ?len \<Longrightarrow> set (?K d) \<subseteq> {..<?len}" using graph_okD(1) [OF g(1)] .
  have M: "map (kids s1) (r # hs) = map ?K (r # hs)" using hs kid r(2) b by (auto simp: subset_eq)
  have a: "acted CollectWhite (concat (map ?K (r # hs))) s1 s'" and st': "stacked st' (new @ W)"
    and n: "distinct (front nxt @ new)"
      "set (front nxt @ new) = fresh CollectWhite (col s) (concat (map ?K (r # hs))) - set hs"
    and tab: "\<forall>h \<in> set hs. table_of s0 r h"
    using v(2) same_body(4) [OF sh1 r(2)] unfolding processed_def M s1(3) by simp_all
  have acts: "acts CollectWhite ?len (concat (map ?K (r # hs))) (col s) (rc s) (col s') (rc s')"
    using acted_acts [OF a] by (simp add: len1 s1(3,4))
  note fs = flooding_step [OF f hs acts n b]
  have hs2: "set hs \<inter> insert r D = {}"
  proof -
    have "h \<notin> insert r D" if "h \<in> set hs" for h
    proof
      assume h: "h \<in> insert r D"
      then have "h < ?len" using d(3) r(2) by auto
      then have "col s h = GC_BLACK" using d(6) h by (auto simp: color_of_def)
      then show False using that hs by (auto simp: follows_def GC_WHITE_def GC_BLACK_def)
    qed
    then show ?thesis by blast
  qed
  have fin: "finite D" using d(3) finite_subset by blast
  note ts = tallied_step [OF t r(3) hs2 tab fin]
  have "white_frame {} s1 s'" by (rule white_frame_buffer [OF v1(3) acted_shape [OF a] acted_buffer [OF a]])
  from white_frame_trans(1) [OF white_frame_trans(1) [OF w s1(2)] this]
  have wf: "white_frame (entered_of s0 (D \<union> set (r # hs)) (T \<union> set hs)) s0 s'" unfolding ts(2) by simp
  have "white_inv s0 r0 flag0 (front nxt @ new @ W) (s', k + counts_as s0 r, flag \<or> destructible s0 r)"
    unfolding white_inv_def using g fs(1) ts(1) wf by auto
  moreover have "white_meas (front nxt @ new @ W) (s', k + counts_as s0 r, flag \<or> destructible s0 r) < white_meas (r # W) ws"
    using fs(2) white_frameD(11) [OF wf] wd(11) by (simp add: white_meas_def flood_meas_def ws)
  moreover have "collect_white_node r st ws = Inr (nxt, st', s', k + counts_as s0 r, flag \<or> destructible s0 r)"
    using collect_white_node_eq [OF gs r(1) s1(1) v1(1) v(1)] by (simp add: ws er)
  ultimately show "\<exists>next st' s' new. collect_white_node r st ws = Inr (next, st', s') \<and> stacked st' (new @ W) \<and>
      white_inv s0 r0 flag0 (front next @ new @ W) s' \<and> white_meas (front next @ new @ W) s' < white_meas (r # W) ws"
    using st' by blast
qed

end
