(* ===== verification/GcCollectSpec.thy ===== *)
theory GcCollectSpec
  imports GcGarbage
begin

text \<open>
  \<open>gc_collect_roots\<close> and the three phases together: what is left in the buffer is garbage,
  all counts are what they were, and no node has a colour.
\<close>

subsection \<open>From one white root\<close>

text \<open>
  The white nodes \<open>D\<close> were made black, with their references counted, and no white node is
  reached from them; \<open>k\<close> were counted.
\<close>

definition collected :: "gc_state \<Rightarrow> nat set \<Rightarrow> nat set \<Rightarrow> nat \<Rightarrow> bool \<Rightarrow> bool \<Rightarrow> gc_state \<Rightarrow> bool" where
  "collected s D T k flag0 flag s' \<longleftrightarrow>
     same_shape s s' \<and> gc_frame s s' \<and> tight s' \<and> D \<subseteq> {n. n < size_of s \<and> col s n = GC_WHITE} \<and>
     (\<forall>n < size_of s. col s' n = (if n \<in> D then GC_BLACK else col s n)) \<and>
     (\<forall>n < size_of s. rc s' n = rc s n + refs (kids s) D n) \<and>
     (\<forall>d \<in> D. \<forall>k \<in> set (kids s d). col s' k \<noteq> GC_WHITE) \<and>
     tallied s D T k flag0 flag \<and>
     (\<forall>n < size_of s. n \<notin> entered_of s D T \<longrightarrow> addr s' n = addr s n)"

lemma collectedD:
  assumes "collected s D T k flag0 flag s'"
  shows "same_shape s s'" "gc_frame s s'" "tight s'" "D \<subseteq> {n. n < size_of s \<and> col s n = GC_WHITE}"
    "\<And>n. n < size_of s \<Longrightarrow> col s' n = (if n \<in> D then GC_BLACK else col s n)"
    "\<And>n. n < size_of s \<Longrightarrow> rc s' n = rc s n + refs (kids s) D n"
    "\<And>d k. d \<in> D \<Longrightarrow> k \<in> set (kids s d) \<Longrightarrow> col s' k \<noteq> GC_WHITE" "tallied s D T k flag0 flag"
    "\<And>n. n < size_of s \<Longrightarrow> n \<notin> entered_of s D T \<Longrightarrow> addr s' n = addr s n" "size_of s' = size_of s"
  using assms unfolding collected_def same_shape_def by blast+

lemma collected_none: "tight s \<Longrightarrow> collected s {} {} 0 flag flag s"
  by (simp add: collected_def tallied_def)

lemma tallied_union:
  assumes a: "tallied s D T k f0 f1" and b: "tallied s E U l f1 f2" and disj: "D \<inter> E = {}" and fin: "finite D" "finite E"
  shows "tallied s (D \<union> E) (T \<union> U) (k + l) f0 f2"
    "entered_of s (D \<union> E) (T \<union> U) = entered_of s D T \<union> entered_of s E U"
proof -
  have TU: "T \<subseteq> D" "U \<subseteq> E" using a b by (simp_all add: tallied_def)
  have e: "D \<union> E - (T \<union> U) = (D - T) \<union> (E - U)" using TU disj by blast
  have "(\<Sum>d \<in> (D - T) \<union> (E - U). counts_as s d) = (\<Sum>d \<in> D - T. counts_as s d) + (\<Sum>d \<in> E - U. counts_as s d)"
    using fin disj by (intro sum.union_disjoint) auto
  then show "tallied s (D \<union> E) (T \<union> U) (k + l) f0 f2" using a b unfolding tallied_def e by auto
  show "entered_of s (D \<union> E) (T \<union> U) = entered_of s D T \<union> entered_of s E U" unfolding entered_of_def e by blast
qed

lemma entered_D: "entered_of s D T \<subseteq> D"
  by (auto simp: entered_of_def)

lemma tallied_same:
  assumes "same_shape s s'" "D \<subseteq> {..<size_of s}"
  shows "tallied s' D T k f0 f1 = tallied s D T k f0 f1"
proof -
  note b = same_body [OF assms(1)]
  have d: "d < size_of s" if "d \<in> D" for d using that assms(2) by blast
  have "(\<Sum>d \<in> D - T. counts_as s' d) = (\<Sum>d \<in> D - T. counts_as s d)" using b(3) d by (intro sum.cong) auto
  moreover have "(\<forall>h \<in> T. \<exists>d \<in> D. table_of s' d h) = (\<forall>h \<in> T. \<exists>d \<in> D. table_of s d h)" using b(4) d by metis
  moreover have "(\<exists>d \<in> D - T. destructible s' d) = (\<exists>d \<in> D - T. destructible s d)" using b(2) d by (metis DiffD1)
  ultimately show ?thesis unfolding tallied_def by simp
qed

lemma refs_same:
  assumes "same_shape s s'" "D \<subseteq> {..<size_of s}"
  shows "refs (kids s') D n = refs (kids s) D n"
  unfolding refs_def using assms kids_same [OF assms(1)] by (auto intro!: sum.cong)

lemma collected_trans:
  assumes g: "graph_ok s" and a: "collected s D T k f0 f1 t" and b: "collected t E U l f1 f2 u"
  shows "collected s (D \<union> E) (T \<union> U) (k + l) f0 f2 u" "D \<inter> E = {}"
    "entered_of s (D \<union> E) (T \<union> U) = entered_of s D T \<union> entered_of t E U"
proof -
  note d = collectedD [OF a] and e = collectedD [OF b]
  have bw: "GC_BLACK \<noteq> GC_WHITE" by (simp add: GC_BLACK_def GC_WHITE_def)
  have E: "n < size_of s" "n \<notin> D" "col s n = GC_WHITE" if "n \<in> E" for n
  proof -
    have n: "n < size_of s" "col t n = GC_WHITE" using that e(4) d(10) by auto
    then show "n < size_of s" "n \<notin> D" "col s n = GC_WHITE" using d(5) [OF n(1)] bw by (auto split: if_splits)
  qed
  show disj: "D \<inter> E = {}" using E by blast
  have Db: "D \<subseteq> {..<size_of s}" "E \<subseteq> {..<size_of s}" using d(4) E by auto
  have fin: "finite D" "finite E" using Db finite_subset by blast+
  have tE: "tallied s E U l f1 f2" using e(8) tallied_same [OF d(1) Db(2)] by simp
  note un = tallied_union [OF d(8) tE disj fin]
  have eE: "entered_of t E U = entered_of s E U"
  proof -
    have "enters t n = enters s n" "addr t n = addr s n" if "n \<in> E" for n
      using same_body(1) [OF d(1)] d(9) E [OF that] entered_D by blast+
    then show ?thesis unfolding entered_of_def by auto
  qed
  show ent: "entered_of s (D \<union> E) (T \<union> U) = entered_of s D T \<union> entered_of t E U" unfolding un(2) eE ..
  show "collected s (D \<union> E) (T \<union> U) (k + l) f0 f2 u"
    unfolding collected_def
  proof (intro conjI ballI allI impI)
    show "same_shape s u" by (rule same_shape_trans [OF d(1) e(1)])
    show "gc_frame s u" by (rule gc_frame_trans [OF d(2) e(2)])
    show "tight u" by (rule e(3))
    show "D \<union> E \<subseteq> {n. n < size_of s \<and> col s n = GC_WHITE}" using d(4) E by auto
    show "tallied s (D \<union> E) (T \<union> U) (k + l) f0 f2" by (rule un(1))
  next
    fix n assume n: "n < size_of s"
    then have n': "n < size_of t" using d(10) by simp
    show "col u n = (if n \<in> D \<union> E then GC_BLACK else col s n)" using d(5) [OF n] e(5) [OF n'] by simp
    show "rc u n = rc s n + refs (kids s) (D \<union> E) n"
      using d(6) [OF n] e(6) [OF n'] refs_same [OF d(1) Db(2)] refs_union [OF fin disj] by simp
    assume "n \<notin> entered_of s (D \<union> E) (T \<union> U)"
    then show "addr u n = addr s n" using d(9) [OF n] e(9) [OF n'] unfolding ent by simp
  next
    fix q v assume q: "q \<in> D \<union> E" "v \<in> set (kids s q)"
    show "col u v \<noteq> GC_WHITE"
    proof (cases "q \<in> D")
      case True
      have v: "col t v \<noteq> GC_WHITE" using d(7) True q(2) by blast
      have "q < size_of s" using True Db by blast
      then have "v < size_of t" using graph_okD(1) [OF g] q(2) d(10) by auto
      then show ?thesis using e(5) v bw by simp
    next
      case False
      then have qE: "q \<in> E" using q(1) by blast
      have "v \<in> set (kids t q)" using q(2) kids_same [OF d(1) E(1) [OF qE]] by simp
      then show ?thesis by (rule e(7) [OF qE])
    qed
  qed
qed

text \<open>One call of \<open>gc_collect_white\<close>, the root being black already.\<close>

lemma collect_white_ok:
  assumes g: "graph_ok s" and t: "tight s" and sz: "size_of s + 1 < 2 ^ 29" and r: "r < size_of s" "col s r = GC_WHITE"
    and s1: "GC_REF_SET_BLACK r s = Inr s1" and st: "stack_base stack"
  obtains k flag' stack' s' D T where "gc_collect_white r flag stack s1 = Inr (k, flag', stack', s')" "stack_base stack'"
    "collected s D T k flag flag' s'" "r \<in> D" "white_frame (entered_of s D T) s s'"
    "\<forall>n \<in> D. (r, n) \<in> (edges (size_of s) (kids s))\<^sup>*"
proof -
  obtain s1' where p: "GC_REF_SET_BLACK r s = Inr s1'" "same_shape s s1'" "same_buffer s s1'" "rc s1' = rc s"
    "col s1' = (col s)(r := GC_BLACK)" using set_black_ok [OF r(1)] .
  have e1: "s1' = s1" using p(1) s1 by simp
  note p = p [unfolded e1]
  have len: "size_of s1 = size_of s" using p(2) by (simp add: same_shape_def)
  have g1: "graph_ok s1" by (rule graph_same [OF p(2) g])
  note wf1 = white_frame_buffer [OF t p(2,3)]
  have t1: "tight s1" by (rule white_frameD(3) [OF wf1])
  have K: "kids s1 n = kids s n" if "n < size_of s" for n by (rule kids_same [OF p(2) that])
  have c: "col s1 r = color_of CollectWhite" by (simp add: p(5) color_of_def)
  have "flooding CollectWhite (kids s1) (size_of s1) r (col s1) (rc s1) {} [r] (col s1) (rc s1)"
    using flooding_start [of r "size_of s1" "col s1" CollectWhite] r(1) len c by simp
  moreover have "tallied s1 {} {} 0 flag flag" "white_frame (entered_of s1 {} {}) s1 s1"
    using white_frame_refl [OF t1] by (simp_all add: tallied_def entered_of_def)
  ultimately have i: "white_inv s1 r flag [r] (s1, 0, flag)"
    unfolding white_inv_def using g1 sz len by auto
  have "{n. n < size_of s1 \<and> follows CollectWhite (col s1 n)} \<subseteq> {..<size_of s1}" by auto
  then have "card {n. n < size_of s1 \<and> follows CollectWhite (col s1 n)} \<le> card {..<size_of s1}" by (intro card_mono) simp
  then have m: "white_meas [r] (s1, 0, flag) \<le> gc_fuel s1"
    by (simp add: white_meas_def flood_meas_def gc_fuel_def size_of_def)
  have "stacked (stack, 0) []" using st by (simp add: stack_base_def)
  from white.traverse_ok [OF i this m] obtain stack' s' k flag' where
    tr: "traverse collect_white_node (gc_fuel s1) r (stack, 0) (s1, 0, flag) = Inr (stack', s', k, flag')"
    and st': "stack_base stack'" and inv: "white_inv s1 r flag [] (s', k, flag')" by auto
  from inv obtain D T where f: "flooding CollectWhite (kids s1) (size_of s1) r (col s1) (rc s1) D [] (col s') (rc s')"
    and ta: "tallied s1 D T k flag flag'" and w: "white_frame (entered_of s1 D T) s1 s'" unfolding white_inv_def by auto
  note d = floodingD [OF f, simplified, unfolded len] and wd = white_frameD [OF w]
  have Db: "D \<subseteq> {..<size_of s}" using d(3) by auto
  have DW: "D \<subseteq> {n. n < size_of s \<and> col s n = GC_WHITE}"
  proof
    fix n assume n: "n \<in> D"
    have "col s n = GC_WHITE"
    proof (cases "n = r")
      case False
      then show ?thesis using d(7) [OF n] by (simp add: follows_def p(5))
    qed (simp add: r(2))
    then show "n \<in> {n. n < size_of s \<and> col s n = GC_WHITE}" using n Db by blast
  qed
  have ta': "tallied s D T k flag flag'" using ta tallied_same [OF p(2) Db] by simp
  have en: "entered_of s1 D T = entered_of s D T"
  proof -
    have "enters s1 n = enters s n" "addr s1 n = addr s n" if "n \<in> D" for n
      using same_body(1) [OF p(2)] p(3) that Db by (auto simp: same_buffer_def)
    then show ?thesis unfolding entered_of_def by auto
  qed
  have wf: "white_frame (entered_of s D T) s s'" using white_frame_trans(1) [OF wf1 w] unfolding en by simp
  note v = white_frameD [OF wf]
  have "collected s D T k flag flag' s'"
    unfolding collected_def
  proof (intro conjI ballI allI impI)
    fix n assume n: "n < size_of s"
    show "col s' n = (if n \<in> D then GC_BLACK else col s n)" using d(4) d(6) [OF n] by (auto simp: color_of_def p(5))
    show "rc s' n = rc s n + refs (kids s) D n"
      using d(8) [OF n] refs_same [OF p(2) Db] by (simp add: bump_def p(4))
    assume "n \<notin> entered_of s D T"
    then show "addr s' n = addr s n" by (rule v(8) [OF n])
  next
    fix q k assume q: "q \<in> D" "k \<in> set (kids s q)"
    have "q < size_of s" using q(1) Db by blast
    then show "col s' k \<noteq> GC_WHITE" using d(9) [OF q(1)] q(2) K by (simp add: follows_def)
  qed (use v DW ta' in simp_all)
  moreover have "edges (size_of s) (kids s1) = edges (size_of s) (kids s)" using K by (auto simp: edges_def)
  moreover have "gc_collect_white r flag stack s1 = Inr (k, flag', stack', s')" by (simp add: gc_collect_white_def tr)
  ultimately show thesis using that d(4,10) wf st' by simp
qed

text \<open>The tag of an entry changes.\<close>

lemma retag_ok:
  assumes t: "tight s" and i: "i \<in> in_use s {}" "gc_slot s i = Some e"
    and p: "GC_GET_PTR e = Some r" "GC_GET_PTR e' = Some r"
  obtains s' where "gc_buf_wr i e' s = Inr s'" "tight s'" "same_shape s s'" "gc_frame s s'" "rc s' = rc s" "col s' = col s"
    "addr s' = addr s" "buffered s' = insert e' {x \<in> buffered s. GC_GET_PTR x \<noteq> Some r}"
    "\<forall>j. gc_slot s' j = (if j = i then Some e' else gc_slot s j)" "\<forall>X. in_use s' X = in_use s X" "gs_nodes s' = gs_nodes s"
proof -
  have ok: "roots_ok s" using t by (simp add: tight_def)
  note d = roots_partD [OF ok]
  define s' where "s' = buf_set i e' s"
  have ib: "i < gc_buf_size (gs_globals s)" using i(1) d(3) by (simp add: in_use_def)
  have sl: "gc_slot s' j = (if j = i then Some e' else gc_slot s j)" for j
    unfolding s'_def by (rule slot_buf_set [OF d(1) ib])
  have eq: "gs_nodes s' = gs_nodes s" "\<And>X. in_use s' X = in_use s X" "gc_frame s s'" "buf_ok s' = buf_ok s"
    "gc_unused (gs_globals s') = gc_unused (gs_globals s)" "gc_first_unused (gs_globals s') = gc_first_unused (gs_globals s)"
    "gc_num_roots (gs_globals s') = gc_num_roots (gs_globals s)" "gc_buf_size (gs_globals s') = gc_buf_size (gs_globals s)"
    by (simp_all add: s'_def)
  have h: "holds_at s' j q = holds_at s j q" for j q using i(2) p by (auto simp: holds_at_def sl)
  have u: "unused_at s' j = unused_at s j" for j using i(2) p by (auto simp: unused_at_def sl GC_GET_PTR_def)
  obtain ys where ys: "free_chain s (gc_unused (gs_globals s)) ys" "distinct ys" "set ys = {i \<in> in_use s {}. unused_at s i}"
    using d(7) by blast
  have "ys = []" using ys(1) t by (cases ys) (auto simp: tight_def)
  have ok': "roots_ok s'"
    unfolding roots_part_def eq h u
  proof (intro conjI)
    show "\<exists>is. free_chain s' (gc_unused (gs_globals s)) is \<and> distinct is \<and> set is = {i \<in> in_use s {}. unused_at s i}"
      using ys \<open>ys = []\<close> by (intro exI [of _ "[]"]) auto
    show "\<forall>i \<in> in_use s {}. unused_at s i \<or>
        (\<exists>r < length (gs_nodes s). holds_at s i r \<and> GC_REF_ADDRESS (gs_nodes s ! r) = gc_compress i)" using d(8) by blast
    show "\<forall>i \<in> in_use s {}. \<forall>j \<in> in_use s {}. \<forall>r. holds_at s i r \<longrightarrow> holds_at s j r \<longrightarrow> i = j" using d(9) by blast
    show "\<forall>r < length (gs_nodes s). gn_info (gs_nodes s ! r) < 2 ^ 22" using d(10) by blast
    show "\<forall>r < length (gs_nodes s). GC_REF_ADDRESS (gs_nodes s ! r) \<noteq> 0 \<longrightarrow> (\<exists>i \<in> in_use s {}. holds_at s i r)"
      using d(11) by blast
  qed (use d in simp_all)
  have buf: "buffered s' = insert e' {x \<in> buffered s. GC_GET_PTR x \<noteq> Some r}"
  proof -
    have other: "GC_GET_PTR x \<noteq> Some r" if "j \<in> in_use s {}" "j \<noteq> i" "gc_slot s j = Some x" for j x
      using d(9) [OF that(1) i(1), of r] that i(2) p by (auto simp: holds_at_def)
    show ?thesis
    proof (intro equalityI subsetI)
      fix x assume "x \<in> buffered s'"
      then obtain j where j: "j \<in> in_use s {}" "gc_slot s' j = Some x" "GC_GET_PTR x \<noteq> None"
        by (auto simp: buffered_def eq(2))
      then show "x \<in> insert e' {x \<in> buffered s. GC_GET_PTR x \<noteq> Some r}"
        using other [of j x] unfolding buffered_def sl by (cases "j = i") auto
    next
      fix x assume x: "x \<in> insert e' {x \<in> buffered s. GC_GET_PTR x \<noteq> Some r}"
      show "x \<in> buffered s'"
      proof (cases "x = e'")
        case True
        then show ?thesis using i(1) p(2) unfolding buffered_def eq(2) sl by auto
      next
        case False
        then obtain j where j: "j \<in> in_use s {}" "gc_slot s j = Some x" "GC_GET_PTR x \<noteq> None" "GC_GET_PTR x \<noteq> Some r"
          using x by (auto simp: buffered_def)
        then have "gc_slot s' j = Some x" using i(2) p(1) by (auto simp: sl)
        then show ?thesis using j(1,3) unfolding buffered_def eq(2) by blast
      qed
    qed
  qed
  show thesis
  proof (rule that [of s'])
    show "gc_buf_wr i e' s = Inr s'" unfolding s'_def by (rule buf_wr_ok [OF d(1) ib])
    show "tight s'" using ok' t eq(5) by (simp add: tight_def)
    show "same_shape s s'" using eq(1,3) by (simp add: same_shape_def gc_frame_def size_of_def)
    show "rc s' = rc s" "col s' = col s" "addr s' = addr s" by (simp_all add: fun_eq_iff rc_def col_def addr_def eq(1))
  qed (use eq buf sl in simp_all)
qed

subsection \<open>The loop over the roots\<close>

definition root_at :: "gc_state \<Rightarrow> nat \<Rightarrow> nat \<Rightarrow> bool" where
  "root_at s i r \<longleftrightarrow> gc_slot s i = Some (GC_ROOT r)"

text \<open>The nodes of the roots among some indices.\<close>

definition roots_of :: "gc_state \<Rightarrow> nat set \<Rightarrow> nat set" where
  "roots_of s I = {r. \<exists>i \<in> I. root_at s i r}"

lemma retag_collected:
  assumes t: "tight s" and same: "tight s'" "same_shape s s'" "gc_frame s s'" "rc s' = rc s" "col s' = col s" "addr s' = addr s"
  shows "collected s {} {} 0 flag flag s'"
  using assms by (simp add: collected_def tallied_def)

text \<open>One index.\<close>

lemma collect_one:
  assumes g: "graph_ok s" and t: "tight s" and sz: "size_of s + 1 < 2 ^ 29" and st: "stack_base stack"
    and i: "i \<in> in_use s {}" "root_at s i r"
  obtains k flag' stack' s' D T where
    "\<forall>is acc. collect_loop (i # is) acc flag stack s = collect_loop is (acc + k) flag' stack' s'" "stack_base stack'"
    "collected s D T k flag flag' s'" "col s' r \<noteq> GC_WHITE" "in_use s {} \<subseteq> in_use s' {}"
    "buffered s' = {e \<in> buffered s. GC_GET_PTR e \<noteq> Some r} \<union> GC_GARBAGE ` insert r (entered_of s D T)"
    "\<forall>j \<in> in_use s {}. j \<noteq> i \<longrightarrow> gc_slot s' j = gc_slot s j"
    "\<forall>n \<in> D. (r, n) \<in> (edges (size_of s) (kids s))\<^sup>*"
proof -
  have sl: "gc_slot s i = Some (GC_ROOT r)" using i(2) by (simp add: root_at_def)
  have gp: "GC_GET_PTR (GC_ROOT r) = Some r" "GC_GET_PTR (GC_GARBAGE r) = Some r" by (simp_all add: GC_GET_PTR_def)
  have ok: "roots_ok s" using t by (simp add: tight_def)
  have rl: "r < size_of s" using held(1) [OF ok i(1), of r] sl gp by (auto simp: holds_at_def size_of_def)
  obtain s1 where s1: "gc_buf_wr i (GC_GARBAGE r) s = Inr s1" "tight s1" "same_shape s s1" "gc_frame s s1"
    "rc s1 = rc s" "col s1 = col s" "addr s1 = addr s"
    "buffered s1 = insert (GC_GARBAGE r) {x \<in> buffered s. GC_GET_PTR x \<noteq> Some r}"
    "\<forall>j. gc_slot s1 j = (if j = i then Some (GC_GARBAGE r) else gc_slot s j)" "\<forall>X. in_use s1 X = in_use s X"
    "gs_nodes s1 = gs_nodes s"
    using retag_ok [OF t i(1) sl gp] .
  have len: "size_of s1 = size_of s" using s1(3) by (simp add: same_shape_def)
  note c1 = retag_collected [OF t s1(2-7)]
  show thesis
  proof (cases "col s r = GC_WHITE")
    case False
    have "collect_loop (i # ids) acc flag stack s = collect_loop ids (acc + 0) flag stack s1" for ids acc
      using sl s1(1) rl False by (simp add: node_at_ok s1(11) len GC_REF_CHECK_COLOR_def col_def GC_REF_COLOR_def)
    moreover have "entered_of s {} {} = {}" by (simp add: entered_of_def)
    ultimately show thesis
      using that [of 0 flag stack s1 "{}" "{}"] c1 [of flag] False st s1(6,8,9,10) by simp
  next
    case True
    have g1: "graph_ok s1" by (rule graph_same [OF s1(3) g])
    have sz1: "size_of s1 + 1 < 2 ^ 29" and rl1: "r < size_of s1" and cl1: "col s1 r = GC_WHITE"
      using sz rl True len s1(6) by simp_all
    obtain s2 where s2: "GC_REF_SET_BLACK r s1 = Inr s2" using set_black_ok [OF rl1] by metis
    obtain k flag' stack' s' D T where w: "gc_collect_white r flag stack s2 = Inr (k, flag', stack', s')" "stack_base stack'"
      "collected s1 D T k flag flag' s'" "r \<in> D" "white_frame (entered_of s1 D T) s1 s'"
      "\<forall>n \<in> D. (r, n) \<in> (edges (size_of s1) (kids s1))\<^sup>*"
      using collect_white_ok [where flag = flag, OF g1 s1(2) sz1 rl1 cl1 s2 st] .
    note v = white_frameD [OF w(5)]
    note tr = collected_trans [OF g c1 w(3)]
    have "collect_loop (i # ids) acc flag stack s = collect_loop ids (acc + k) flag' stack' s'" for ids acc
      using sl s1(1) rl True s2 w(1)
      by (simp add: node_at_ok s1(11) len GC_REF_CHECK_COLOR_def col_def GC_REF_COLOR_def)
    moreover have "col s' r \<noteq> GC_WHITE"
      using collectedD(5) [OF w(3), of r] rl w(4) len by (simp add: GC_BLACK_def GC_WHITE_def)
    moreover have "entered_of s D T = entered_of s1 D T" using tr(3) by (simp add: entered_of_def)
    moreover have "in_use s {} \<subseteq> in_use s' {}"
    proof -
      have "in_use s1 {} \<subseteq> in_use s' {}" using v(6) by (auto simp: in_use_def)
      then show ?thesis using s1(10) by simp
    qed
    moreover have "gc_slot s' j = gc_slot s j" if "j \<in> in_use s {}" "j \<noteq> i" for j
      using v(7) [of j] that s1(9,10) by simp
    moreover have "(r, n) \<in> (edges (size_of s) (kids s))\<^sup>*" if "n \<in> D" for n
      using w(6) that edges_same [OF s1(3)] by simp
    ultimately show thesis
      using that [of k flag' stack' s' D T] w(2) tr(1) v(5) s1(8) by (simp add: Un_commute)
  qed
qed

lemma collect_loop_ok:
  "graph_ok s \<Longrightarrow> tight s \<Longrightarrow> size_of s + 1 < 2 ^ 29 \<Longrightarrow> stack_base stack \<Longrightarrow> distinct is \<Longrightarrow> set is \<subseteq> in_use s {} \<Longrightarrow>
   \<forall>i \<in> set is. \<exists>r. root_at s i r \<Longrightarrow>
   \<exists>k flag' stack' s' D T. collect_loop is acc flag stack s = Inr (acc + k, flag', stack', s') \<and>
     collected s D T k flag flag' s' \<and> (\<forall>r \<in> roots_of s (set is). col s' r \<noteq> GC_WHITE) \<and>
     buffered s' = {e \<in> buffered s. \<forall>r \<in> roots_of s (set is). GC_GET_PTR e \<noteq> Some r} \<union>
       GC_GARBAGE ` (roots_of s (set is) \<union> entered_of s D T) \<and>
     (\<forall>n \<in> D. n \<in> reach s (roots_of s (set is)))"
proof (induction "is" arbitrary: acc flag stack s)
  case Nil
  have "entered_of s {} {} = {}" by (simp add: entered_of_def)
  then show ?case using collected_none [OF Nil(2)]
    by (intro exI [of _ 0] exI [of _ flag] exI [of _ stack] exI [of _ s] exI [of _ "{}"] exI [of _ "{}"])
      (simp add: roots_of_def)
next
  case (Cons i ids)
  have g: "graph_ok s" by (rule Cons.prems(1))
  obtain r where r: "root_at s i r" using Cons.prems(7) by auto
  have ii: "i \<in> in_use s {}" using Cons.prems(6) by simp
  obtain k1 flag1 stack1 s1 D T where
    a: "\<forall>is acc. collect_loop (i # is) acc flag stack s = collect_loop is (acc + k1) flag1 stack1 s1" "stack_base stack1"
    "collected s D T k1 flag flag1 s1" "col s1 r \<noteq> GC_WHITE" "in_use s {} \<subseteq> in_use s1 {}"
    "buffered s1 = {e \<in> buffered s. GC_GET_PTR e \<noteq> Some r} \<union> GC_GARBAGE ` insert r (entered_of s D T)"
    "\<forall>j \<in> in_use s {}. j \<noteq> i \<longrightarrow> gc_slot s1 j = gc_slot s j"
    "\<forall>n \<in> D. (r, n) \<in> (edges (size_of s) (kids s))\<^sup>*"
    using collect_one [where flag = flag, OF g Cons.prems(2-4) ii r] .
  note c = collectedD [OF a(3)]
  have g1: "graph_ok s1" by (rule graph_same [OF c(1) g])
  have ids: "set ids \<subseteq> in_use s {}" "i \<notin> set ids" "distinct ids" using Cons.prems(5,6) by auto
  have sl: "gc_slot s1 j = gc_slot s j" if "j \<in> set ids" for j
  proof -
    have "j \<in> in_use s {}" "j \<noteq> i" using that ids by auto
    then show ?thesis using a(7) by blast
  qed
  have ra: "root_at s1 j q = root_at s j q" if "j \<in> set ids" for j q using sl [OF that] by (simp add: root_at_def)
  have ro1: "roots_of s1 (set ids) = roots_of s (set ids)" using ra by (auto simp: roots_of_def)
  have ro: "roots_of s (set (i # ids)) = insert r (roots_of s (set ids))"
    using r by (auto simp: roots_of_def root_at_def)
  have p1: "\<forall>i \<in> set ids. \<exists>r. root_at s1 i r" using Cons.prems(7) ra by simp
  have p2: "set ids \<subseteq> in_use s1 {}" using ids(1) a(5) by blast
  have p3: "size_of s1 + 1 < 2 ^ 29" using Cons.prems(3) c(10) by simp
  obtain k2 flag2 stack2 s2 E U where
    b: "collect_loop ids (acc + k1) flag1 stack1 s1 = Inr ((acc + k1) + k2, flag2, stack2, s2)"
    "collected s1 E U k2 flag1 flag2 s2" "\<forall>r \<in> roots_of s1 (set ids). col s2 r \<noteq> GC_WHITE"
    "buffered s2 = {e \<in> buffered s1. \<forall>r \<in> roots_of s1 (set ids). GC_GET_PTR e \<noteq> Some r} \<union>
       GC_GARBAGE ` (roots_of s1 (set ids) \<union> entered_of s1 E U)"
    "\<forall>n \<in> E. n \<in> reach s1 (roots_of s1 (set ids))"
    using Cons.IH [where acc = "acc + k1" and flag = flag1, OF g1 c(3) p3 a(2) ids(3) p2 p1] by blast
  note tr = collected_trans [OF g a(3) b(2)]
  have ok: "roots_ok s" using Cons.prems(2) by (simp add: tight_def)
  have gp: "GC_GET_PTR (GC_ROOT q) = Some q" "GC_GET_PTR (GC_GARBAGE q) = Some q" for q by (simp_all add: GC_GET_PTR_def)
  have rq: "r < size_of s" using held(1) [OF ok ii, of r] r gp by (auto simp: holds_at_def size_of_def root_at_def)
  have notr: "q \<notin> roots_of s (set ids)" if q: "q = r \<or> q \<in> entered_of s D T" for q
  proof
    assume "q \<in> roots_of s (set ids)"
    then obtain j where j: "j \<in> set ids" "root_at s j q" by (auto simp: roots_of_def)
    have ji: "j \<in> in_use s {}" "j \<noteq> i" using j(1) ids by auto
    have hj: "holds_at s j q" using j(2) gp by (auto simp: root_at_def holds_at_def)
    have hi: "holds_at s i r" using r gp by (auto simp: root_at_def holds_at_def)
    show False
    proof (cases "q = r")
      case True
      then show False using roots_partD(9) [OF ok ji(1) ii hj] hi ji(2) by simp
    next
      case False
      then have "addr s q = 0" using q by (simp add: entered_of_def)
      moreover have "addr s q \<noteq> 0"
        using held(2) [OF ok ji(1) hj] compress_pos [of j] ji(1) by (simp add: addr_def in_use_def)
      ultimately show False by simp
    qed
  qed
  have buf: "buffered s2 = {e \<in> buffered s. \<forall>q \<in> roots_of s (set (i # ids)). GC_GET_PTR e \<noteq> Some q} \<union>
      GC_GARBAGE ` (roots_of s (set (i # ids)) \<union> entered_of s (D \<union> E) (T \<union> U))"
  proof -
    have "{e \<in> buffered s1. \<forall>q \<in> roots_of s (set ids). GC_GET_PTR e \<noteq> Some q} =
        {e \<in> buffered s. \<forall>q \<in> insert r (roots_of s (set ids)). GC_GET_PTR e \<noteq> Some q} \<union>
        GC_GARBAGE ` insert r (entered_of s D T)"
      unfolding a(6) using notr gp by auto
    then show ?thesis unfolding b(4) ro1 ro tr(3) by blast
  qed
  have white: "\<forall>q \<in> roots_of s (set (i # ids)). col s2 q \<noteq> GC_WHITE"
  proof -
    have "col s2 r \<noteq> GC_WHITE" using collectedD(5) [OF b(2), of r] rq c(10) a(4) by (auto simp: GC_BLACK_def GC_WHITE_def)
    then show ?thesis using b(3) unfolding ro ro1 by simp
  qed
  have re: "\<forall>n \<in> D \<union> E. n \<in> reach s (roots_of s (set (i # ids)))"
    using a(8) b(5) unfolding ro ro1 reach_same [OF c(1)] by (auto simp: reach_def)
  have "collect_loop (i # ids) acc flag stack s = Inr (acc + (k1 + k2), flag2, stack2, s2)"
    using a(1) b(1) by (simp add: add.assoc del: collect_loop.simps)
  then show ?case using tr(1) white buf re by blast
qed

subsection \<open>Black roots leave the buffer\<close>

definition black_roots :: "gc_state \<Rightarrow> nat set \<Rightarrow> nat set" where
  "black_roots s I = {r \<in> roots_of s I. col s r = GC_BLACK}"

lemma remove_black_ok:
  "roots_ok s \<Longrightarrow> distinct is \<Longrightarrow> set is \<subseteq> in_use s {} \<Longrightarrow>
   \<exists>s'. remove_black_loop is s = Inr s' \<and> roots_ok s' \<and> same_shape s s' \<and> gc_frame s s' \<and> rc s' = rc s \<and> col s' = col s \<and>
     buffered s' = {e \<in> buffered s. \<forall>r \<in> black_roots s (set is). GC_GET_PTR e \<noteq> Some r}"
proof (induction "is" arbitrary: s)
  case Nil
  then show ?case by (simp add: black_roots_def roots_of_def)
next
  case (Cons i ids)
  note d = roots_partD [OF Cons.prems(1)]
  have ii: "i \<in> in_use s {}" and ids: "distinct ids" "i \<notin> set ids" "set ids \<subseteq> in_use s {}" using Cons.prems by auto
  have nn: "e \<noteq> GC_NULL_ROOT" if "GC_GET_PTR e = Some r" for e r using that by (auto simp: GC_GET_PTR_def)
  obtain e where e: "gc_slot s i = Some e" "e \<noteq> GC_NULL_ROOT"
    using d(8) [OF ii] nn unfolding unused_at_def holds_at_def by blast
  have ro: "black_roots s (set (i # ids)) = black_roots s {i} \<union> black_roots s (set ids)"
    by (auto simp: black_roots_def roots_of_def)
  show ?case
  proof (cases "\<exists>r. e = GC_ROOT r \<and> col s r = GC_BLACK")
    case True
    then obtain r where r: "e = GC_ROOT r" "col s r = GC_BLACK" by blast
    have h: "holds_at s i r" using e r by (simp add: holds_at_def GC_GET_PTR_def)
    have rl: "r < length (gs_nodes s)" by (rule held(1) [OF Cons.prems(1) ii h])
    obtain s1 where s1: "gc_remove_from_roots i (s\<lparr>gs_nodes := (gs_nodes s)[r := (gs_nodes s ! r)\<lparr>gn_info := 0\<rparr>]\<rparr>) = Inr s1"
      "left s i r s1" using remove_from_roots_ok [OF Cons.prems(1) ii h] .
    have l: "roots_ok s1" "gc_frame s s1" "buffered s1 = {e \<in> buffered s. GC_GET_PTR e \<noteq> Some r}"
      "gs_nodes s1 = (gs_nodes s)[r := (gs_nodes s ! r)\<lparr>gn_info := 0\<rparr>]"
      "gc_first_unused (gs_globals s1) = gc_first_unused (gs_globals s)" "\<forall>j. j \<noteq> i \<longrightarrow> gc_slot s1 j = gc_slot s j"
      using s1(2) unfolding left_def by blast+
    have n: "gs_nodes s1 ! q = (if q = r then (gs_nodes s ! r)\<lparr>gn_info := 0\<rparr> else gs_nodes s ! q)" for q
      using l(4) rl by simp
    have sh: "same_shape s s1" using l(2,4) rl by (simp add: same_shape_def gc_frame_def size_of_def nth_list_update)
    have c: "rc s1 = rc s" "col s1 = col s"
      using r(2) by (simp_all add: fun_eq_iff rc_def col_def n GC_REF_COLOR_def GC_BLACK_def)
    have iu: "in_use s1 {} = in_use s {}" by (simp add: in_use_def l(5))
    have rt: "root_at s1 j q = root_at s j q" if "j \<in> set ids" for j q
    proof -
      have "j \<noteq> i" using that ids(2) by blast
      then show ?thesis using l(6) by (simp add: root_at_def)
    qed
    have ro1: "black_roots s1 (set ids) = black_roots s (set ids)" using rt c by (auto simp: black_roots_def roots_of_def)
    have roi: "black_roots s {i} = {r}" using e(1) r by (auto simp: black_roots_def roots_of_def root_at_def)
    obtain s' where s': "remove_black_loop ids s1 = Inr s'" "roots_ok s'" "same_shape s1 s'" "gc_frame s1 s'" "rc s' = rc s1"
      "col s' = col s1" "buffered s' = {e \<in> buffered s1. \<forall>r \<in> black_roots s1 (set ids). GC_GET_PTR e \<noteq> Some r}"
      using Cons.IH [OF l(1) ids(1)] ids(3) iu by blast
    have "remove_black_loop (i # ids) s = Inr s'"
      using e(1) r rl s1(1) s'(1)
      by (simp add: node_at_ok size_of_def GC_REF_CHECK_COLOR_def col_def GC_REF_COLOR_def set_info_ok)
    moreover have "buffered s' = {e \<in> buffered s. \<forall>r \<in> black_roots s (set (i # ids)). GC_GET_PTR e \<noteq> Some r}"
      unfolding s'(7) l(3) ro ro1 roi by blast
    ultimately show ?thesis
      using s'(2,5,6) same_shape_trans [OF sh s'(3)] gc_frame_trans [OF l(2) s'(4)] c by auto
  next
    case False
    have roi: "black_roots s {i} = {}" using e(1) False by (auto simp: black_roots_def roots_of_def root_at_def)
    have "remove_black_loop (i # ids) s = remove_black_loop ids s"
    proof (cases e)
      case (GC_ROOT r)
      have "holds_at s i r" using e GC_ROOT by (simp add: holds_at_def GC_GET_PTR_def)
      then have "r < length (gs_nodes s)" by (rule held(1) [OF Cons.prems(1) ii])
      then show ?thesis using e(1) GC_ROOT False
        by (simp add: node_at_ok size_of_def GC_REF_CHECK_COLOR_def col_def GC_REF_COLOR_def)
    qed (use e in simp_all)
    then show ?thesis using Cons.IH [OF Cons.prems(1) ids(1,3)] unfolding ro roi by simp
  qed
qed

subsection \<open>\<open>gc_collect_roots\<close>\<close>

definition white_nodes :: "gc_state \<Rightarrow> nat set" where
  "white_nodes s = {n. n < size_of s \<and> col s n = GC_WHITE}"

text \<open>
  \<open>W\<close> was collected: \<open>B\<close>, the nodes in the buffer, are the roots in \<open>W\<close> and all objects and
  arrays of \<open>W\<close> but tables \<open>T\<close> that objects of \<open>W\<close> hand out.
\<close>

definition gathered :: "nat set \<Rightarrow> gc_state \<Rightarrow> nat set \<Rightarrow> nat \<Rightarrow> bool \<Rightarrow> bool \<Rightarrow> gc_state \<Rightarrow> bool" where
  "gathered W s B k flag0 flag s' \<longleftrightarrow>
     same_shape s s' \<and> gc_frame s s' \<and> tight s' \<and> buffered s' = GC_GARBAGE ` B \<and>
     (\<forall>n < size_of s. col s' n = GC_BLACK \<and> rc s' n = rc s n + refs (kids s) W n) \<and>
     (\<exists>T \<subseteq> W. (\<forall>h \<in> T. \<exists>d \<in> W. table_of s d h) \<and>
        B = {n \<in> W. GC_ROOT n \<in> buffered s \<or> enters s n \<and> n \<notin> T} \<and> k = (\<Sum>d \<in> W - T. counts_as s d)) \<and>
     flag = (flag0 \<or> (\<exists>d \<in> W. destructible s d))"

lemma table_not_destructible:
  assumes "graph_ok s" "d < size_of s" "table_of s d h"
  shows "\<not> destructible s h"
proof -
  obtain obj where "gn_body (gs_nodes s ! d) = GcObject obj" "fst (go_get_gc obj) = Some h"
    using assms(3) by (auto simp: table_of_def)
  then obtain ht where "gn_body (gs_nodes s ! h) = GcArray ht" using graph_okD(5) [OF assms(1,2)] by blast
  then show ?thesis by (simp add: destructible_def)
qed

lemma collect_roots_ok:
  assumes g: "graph_ok s" and ok: "roots_ok s" and sz: "size_of s + 1 < 2 ^ 29" and st: "stack_base stack"
    and c: "\<And>n. n < size_of s \<Longrightarrow> col s n = GC_WHITE \<or> col s n = GC_BLACK"
    and ro: "\<And>e. e \<in> buffered s \<Longrightarrow> \<exists>r. e = GC_ROOT r"
    and R: "white_nodes s \<subseteq> reach s R" "\<And>r. r \<in> R \<Longrightarrow> r < size_of s \<and> GC_ROOT r \<in> buffered s"
    and bl: "\<And>d k. d \<in> reach s R \<Longrightarrow> col s d = GC_BLACK \<Longrightarrow> k \<in> set (kids s d) \<Longrightarrow> col s k = GC_BLACK"
  obtains k flag' stack' s' B where "gc_collect_roots flag stack s = Inr (k, flag', stack', s')"
    "gathered (white_nodes s) s B k flag flag' s'"
proof -
  let ?W = "white_nodes s"
  have bw: "GC_BLACK \<noteq> GC_WHITE" by (simp add: GC_BLACK_def GC_WHITE_def)
  have gp: "GC_GET_PTR (GC_ROOT q) = Some q" for q by (simp add: GC_GET_PTR_def)
  have iu: "set [GC_FIRST_ROOT..<gc_first_unused (gs_globals t)] = in_use t {}" for t
    by (auto simp: in_use_def GC_FIRST_ROOT_def)
  obtain s1 where s1: "remove_black_loop [GC_FIRST_ROOT..<gc_first_unused (gs_globals s)] s = Inr s1" "roots_ok s1"
    "same_shape s s1" "gc_frame s s1" "rc s1 = rc s" "col s1 = col s"
    "buffered s1 = {e \<in> buffered s. \<forall>r \<in> black_roots s (in_use s {}). GC_GET_PTR e \<noteq> Some r}"
    using remove_black_ok [OF ok, of "[GC_FIRST_ROOT..<gc_first_unused (gs_globals s)]"] unfolding iu by auto
  obtain s2 where s2: "gc_compact s1 = Inr s2" "compacted s1 s2" using gc_compact_ok [OF s1(2)] .
  note cs = compacted_same [OF s2(2)]
  have sh: "same_shape s s2" by (rule same_shape_trans [OF s1(3) cs(1)])
  have len: "size_of s1 = size_of s" "size_of s2 = size_of s" using s1(3) sh by (simp_all add: same_shape_def)
  have cc: "col s2 n = col s n" "rc s2 n = rc s n" if "n < size_of s" for n using cs that len s1(5,6) by auto
  have b2: "buffered s2 = {GC_ROOT r |r. GC_ROOT r \<in> buffered s \<and> col s r \<noteq> GC_BLACK}"
  proof -
    have "buffered s2 = buffered s1" using s2(2) by (simp add: compacted_def)
    moreover have "black_roots s (in_use s {}) = {r. GC_ROOT r \<in> buffered s \<and> col s r = GC_BLACK}"
      by (auto simp: black_roots_def roots_of_def root_at_def buffered_slot)
    ultimately show ?thesis unfolding s1(7) using ro gp by fastforce
  qed
  have t2: "tight s2" and f2: "gc_frame s s2"
    using s2(2) gc_frame_trans [OF s1(4)] by (simp_all add: tight_def compacted_def)
  have ok2: "roots_ok s2" using t2 by (simp add: tight_def)
  have g2: "graph_ok s2" by (rule graph_same [OF sh g])
  have roots: "\<forall>i \<in> in_use s2 {}. \<exists>r. root_at s2 i r"
  proof
    fix i assume i: "i \<in> in_use s2 {}"
    obtain r e where "gc_slot s2 i = Some e" "GC_GET_PTR e = Some r" using tight_held(1) [OF t2 i] by (auto simp: holds_at_def)
    moreover from this i have "e \<in> buffered s2" by (auto simp: buffered_def)
    ultimately show "\<exists>r. root_at s2 i r" unfolding b2 root_at_def by auto
  qed
  have RO: "roots_of s2 (in_use s2 {}) = {r. GC_ROOT r \<in> buffered s \<and> col s r \<noteq> GC_BLACK}"
  proof -
    have "roots_of s2 (in_use s2 {}) = {r. GC_ROOT r \<in> buffered s2}"
      by (auto simp: roots_of_def root_at_def buffered_slot)
    then show ?thesis unfolding b2 by simp
  qed
  have "size_of s2 + 1 < 2 ^ 29" using sz len by simp
  from collect_loop_ok [where acc = 0 and flag = flag, OF g2 t2 this st, of "[GC_FIRST_ROOT..<gc_first_unused (gs_globals s2)]"]
  obtain k flag' stack' s' D T where l: "collect_loop [GC_FIRST_ROOT..<gc_first_unused (gs_globals s2)] 0 flag stack s2 = Inr (k, flag', stack', s')"
    "collected s2 D T k flag flag' s'" "\<forall>r \<in> roots_of s2 (in_use s2 {}). col s' r \<noteq> GC_WHITE"
    "buffered s' = {e \<in> buffered s2. \<forall>r \<in> roots_of s2 (in_use s2 {}). GC_GET_PTR e \<noteq> Some r} \<union>
       GC_GARBAGE ` (roots_of s2 (in_use s2 {}) \<union> entered_of s2 D T)"
    using roots unfolding iu by auto
  note d = collectedD [OF l(2)]
  have D: "D \<subseteq> ?W" using d(4) cc len by (auto simp: white_nodes_def)
  have notw: "col s' n \<noteq> GC_WHITE" if n: "n \<in> reach s R" for n
  proof -
    obtain r where r: "r \<in> R" "(r, n) \<in> (edges (size_of s) (kids s))\<^sup>*" using n by (auto simp: reach_def)
    have rl: "r < size_of s" using R(2) r(1) by blast
    from r(2) have "n < size_of s \<and> col s' n \<noteq> GC_WHITE"
    proof (induction rule: rtrancl_induct)
      case base
      have "col s' r \<noteq> GC_WHITE"
      proof (cases "col s r = GC_BLACK")
        case True
        then show ?thesis using d(5) [of r] rl len cc bw by simp
      next
        case False
        then have "r \<in> roots_of s2 (in_use s2 {})" using R(2) r(1) unfolding RO by blast
        then show ?thesis using l(3) by blast
      qed
      then show ?case using rl by simp
    next
      case (step y z)
      have yz: "y < size_of s" "z \<in> set (kids s y)" using step(2) by (simp_all add: edges_def)
      have zl: "z < size_of s" using graph_okD(1) [OF g yz(1)] yz(2) by auto
      have "col s' z \<noteq> GC_WHITE"
      proof (cases "y \<in> D")
        case True
        have "z \<in> set (kids s2 y)" using yz(2) kids_same [OF sh yz(1)] by simp
        then show ?thesis by (rule d(7) [OF True])
      next
        case False
        then have "col s y = GC_BLACK" using step(3) d(5) [of y] yz(1) len cc c [of y] by auto
        moreover have "y \<in> reach s R" using r(1) step(1) by (auto simp: reach_def)
        ultimately have "col s z = GC_BLACK" using bl yz(2) by blast
        then show ?thesis using d(5) [of z] zl len cc bw by simp
      qed
      then show ?case using zl by blast
    qed
    then show ?thesis by blast
  qed
  have DW: "D = ?W"
  proof
    show "?W \<subseteq> D"
    proof
      fix n assume n: "n \<in> ?W"
      then have nl: "n < size_of s" "col s n = GC_WHITE" by (auto simp: white_nodes_def)
      have "col s' n \<noteq> GC_WHITE" using notw n R(1) by blast
      then show "n \<in> D" using d(5) [of n] nl len cc by (auto split: if_splits)
    qed
  qed (rule D)
  have Db: "D \<subseteq> {..<size_of s}" using D by (auto simp: white_nodes_def)
  let ?B = "roots_of s2 (in_use s2 {}) \<union> entered_of s2 D T"
  have ta: "tallied s D T k flag flag'" using d(8) tallied_same [OF sh Db] by simp
  have buf: "buffered s' = GC_GARBAGE ` ?B"
  proof -
    have "{e \<in> buffered s2. \<forall>r \<in> roots_of s2 (in_use s2 {}). GC_GET_PTR e \<noteq> Some r} = {}"
      unfolding RO b2 using gp by auto
    then show ?thesis using l(4) by blast
  qed
  have B: "?B = {n \<in> ?W. GC_ROOT n \<in> buffered s \<or> enters s n \<and> n \<notin> T}"
  proof (intro set_eqI iffI)
    fix r assume "r \<in> ?B"
    then consider "GC_ROOT r \<in> buffered s" "col s r \<noteq> GC_BLACK" | "r \<in> entered_of s2 D T" unfolding RO by blast
    then show "r \<in> {n \<in> ?W. GC_ROOT n \<in> buffered s \<or> enters s n \<and> n \<notin> T}"
    proof cases
      case 1
      obtain i where "i \<in> in_use s {}" "gc_slot s i = Some (GC_ROOT r)" using 1(1) by (auto simp: buffered_slot)
      then have "r < size_of s" using held(1) [OF ok, of i r] gp by (auto simp: holds_at_def size_of_def)
      then show ?thesis using 1 c [of r] by (auto simp: white_nodes_def)
    next
      case 2
      then have r: "r \<in> D" "r \<notin> T" "enters s2 r" by (simp_all add: entered_of_def)
      then have "enters s r" using same_body(1) [OF sh, of r] Db by blast
      then show ?thesis using r(1,2) D by blast
    qed
  next
    fix n assume "n \<in> {n \<in> ?W. GC_ROOT n \<in> buffered s \<or> enters s n \<and> n \<notin> T}"
    then have n: "n \<in> ?W" "GC_ROOT n \<in> buffered s \<or> enters s n \<and> n \<notin> T" by simp_all
    have nl: "n < size_of s" "col s n \<noteq> GC_BLACK" using n(1) bw by (auto simp: white_nodes_def)
    show "n \<in> ?B"
    proof (cases "GC_ROOT n \<in> buffered s")
      case True
      then show ?thesis using nl(2) unfolding RO by blast
    next
      case False
      then have e: "enters s n" "n \<notin> T" using n(2) by simp_all
      show ?thesis
      proof (cases "addr s2 n = 0")
        case True
        then have "n \<in> entered_of s2 D T" using e n(1) same_body(1) [OF sh nl(1)] DW by (simp add: entered_of_def)
        then show ?thesis by blast
      next
        case F: False
        then obtain i where i: "i \<in> in_use s2 {}" "holds_at s2 i n"
          using roots_partD(11) [OF ok2, of n] nl(1) len by (auto simp: addr_def size_of_def)
        obtain r where r: "root_at s2 i r" using roots i(1) by blast
        then have "r = n" using i(2) gp by (auto simp: root_at_def holds_at_def)
        then show ?thesis using r i(1) by (auto simp: roots_of_def)
      qed
    qed
  qed
  have nodes: "col s' n = GC_BLACK \<and> rc s' n = rc s n + refs (kids s) ?W n" if n: "n < size_of s" for n
  proof
    have n2: "n < size_of s2" using n len by simp
    show "col s' n = GC_BLACK" using d(5) [OF n2] c [OF n] cc(1) [OF n] DW n by (auto simp: white_nodes_def)
    show "rc s' n = rc s n + refs (kids s) ?W n"
      using d(6) [OF n2] cc(2) [OF n] refs_same [OF sh Db, of n] DW by simp
  qed
  note ta1 = ta [unfolded tallied_def]
  note tab = conjunct1 [OF conjunct2 [OF ta1]] and fl = conjunct2 [OF conjunct2 [OF conjunct2 [OF ta1]]]
  have flag: "flag' = (flag \<or> (\<exists>d \<in> ?W. destructible s d))"
  proof -
    have no: "\<not> destructible s h" if "h \<in> T" for h
    proof -
      from bspec [OF tab that] obtain q where q: "q \<in> D" "table_of s q h" by (rule bexE)
      have "q < size_of s" using q(1) Db by blast
      then show ?thesis using q(2) by (rule table_not_destructible [OF g])
    qed
    have "(\<exists>d \<in> D - T. destructible s d) = (\<exists>d \<in> ?W. destructible s d)" unfolding DW using no by blast
    then show ?thesis using fl by simp
  qed
  have tt: "\<exists>T \<subseteq> ?W. (\<forall>h \<in> T. \<exists>d \<in> ?W. table_of s d h) \<and>
      ?B = {n \<in> ?W. GC_ROOT n \<in> buffered s \<or> enters s n \<and> n \<notin> T} \<and> k = (\<Sum>d \<in> ?W - T. counts_as s d)"
    using ta1 B unfolding DW by (intro exI [of _ T]) simp
  have "gathered ?W s ?B k flag flag' s'"
    unfolding gathered_def
  proof (intro conjI ballI allI impI)
    show "same_shape s s'" by (rule same_shape_trans [OF sh d(1)])
    show "gc_frame s s'" by (rule gc_frame_trans [OF f2 d(2)])
  qed (fact d(3) buf tt flag | rule nodes [THEN conjunct1] nodes [THEN conjunct2], assumption+)+
  moreover have "gc_collect_roots flag stack s = Inr (k, flag', stack', s')"
    using s1(1) s2(1) l(1) by (simp add: gc_collect_roots_def)
  ultimately show thesis using that by blast
qed

end
