(* ===== verification/GcCycles.thy ===== *)
theory GcCycles
  imports GcCollectSpec
begin

text \<open>
  What a collection run finds: the greatest set of candidates all of whose references come from
  the set itself.
\<close>

subsection \<open>The abstract view\<close>

definition self_contained :: "gc_state \<Rightarrow> nat set \<Rightarrow> bool" where
  "self_contained s Z \<longleftrightarrow> Z \<subseteq> candidates s \<and> (\<forall>n \<in> Z. rc s n = refs (kids s) Z n)"

lemma candidates_bound: "graph_ok s \<Longrightarrow> candidates s \<subseteq> {..<size_of s}"
  unfolding candidates_def by (rule reach_bound) (auto simp: purple_def)

lemma candidates_kids: "graph_ok s \<Longrightarrow> d \<in> candidates s \<Longrightarrow> set (kids s d) \<subseteq> candidates s"
  using candidates_bound reach_kids unfolding candidates_def by blast

text \<open>Garbage has no reference from outside.\<close>

lemma garbage_self_contained:
  assumes g: "graph_ok s" and c: "fully_counted s"
  shows "self_contained s (garbage s)"
  unfolding self_contained_def
proof (intro conjI ballI)
  show "garbage s \<subseteq> candidates s" by (auto simp: garbage_def)
  fix n assume n: "n \<in> garbage s"
  let ?X = "candidates s" and ?L = "reach s (externally_held s)"
  have Xb: "?X \<subseteq> {..<size_of s}" by (rule candidates_bound [OF g])
  have nX: "n \<in> ?X" "n \<notin> ?L" using n by (auto simp: garbage_def)
  have "n \<notin> externally_held s" using nX(2) reach_refl by blast
  then have "rc s n \<le> refs (kids s) ?X n" using nX(1) by (auto simp: externally_held_def)
  moreover have "refs (kids s) ?X n \<le> refs (kids s) {..<size_of s} n" by (rule refs_mono [OF _ Xb]) simp
  moreover have "refs (kids s) {..<size_of s} n \<le> rc s n" using c nX(1) Xb by (auto simp: fully_counted_def)
  ultimately have e: "rc s n = refs (kids s) ?X n" by linarith
  have fX: "finite ?X" using Xb finite_subset by blast
  have "refs (kids s) (?X \<inter> ?L) n = 0"
  proof (rule refs_0, intro ballI notI)
    fix d assume d: "d \<in> ?X \<inter> ?L" "n \<in> set (kids s d)"
    then have "n \<in> ?L" using reach_kids [of d s] Xb by blast
    then show False using nX(2) by simp
  qed
  moreover have "refs (kids s) ((?X \<inter> ?L) \<union> garbage s) n = refs (kids s) (?X \<inter> ?L) n + refs (kids s) (garbage s) n"
    by (rule refs_union) (use fX in \<open>auto simp: garbage_def\<close>)
  moreover have "(?X \<inter> ?L) \<union> garbage s = ?X" by (auto simp: garbage_def)
  ultimately show "rc s n = refs (kids s) (garbage s) n" using e by simp
qed

text \<open>And it has every set of candidates without one.\<close>

lemma self_contained_preds:
  assumes g: "graph_ok s" and c: "fully_counted s" and Z: "self_contained s Z" and d: "d < size_of s" "z \<in> set (kids s d)" "z \<in> Z"
  shows "d \<in> Z"
proof (rule ccontr)
  assume n: "d \<notin> Z"
  have Zb: "Z \<subseteq> {..<size_of s}" using Z candidates_bound [OF g] by (auto simp: self_contained_def)
  have fin: "finite Z" using Zb finite_subset by blast
  have "0 < refs (kids s) {d} z" by (rule refs_pos [of "{d}" d]) (use d(2) in simp_all)
  moreover have "refs (kids s) (Z \<union> {d}) z = refs (kids s) Z z + refs (kids s) {d} z"
    by (rule refs_union [OF fin]) (use n in simp_all)
  moreover have "refs (kids s) (Z \<union> {d}) z \<le> refs (kids s) {..<size_of s} z"
    by (rule refs_mono) (use Zb d(1) in auto)
  moreover have "\<dots> \<le> rc s z" using c d(3) Zb by (auto simp: fully_counted_def)
  moreover have "rc s z = refs (kids s) Z z" using Z d(3) by (simp add: self_contained_def)
  ultimately show False by linarith
qed

lemma garbage_greatest:
  assumes g: "graph_ok s" and c: "fully_counted s" and Z: "self_contained s Z"
  shows "Z \<subseteq> garbage s"
proof
  fix z assume z: "z \<in> Z"
  have ZX: "Z \<subseteq> candidates s" using Z by (simp add: self_contained_def)
  have fX: "finite (candidates s)" using candidates_bound [OF g] finite_subset by blast
  have "z \<notin> reach s (externally_held s)"
  proof
    assume "z \<in> reach s (externally_held s)"
    then obtain x where x: "x \<in> externally_held s" "(x, z) \<in> (edges (size_of s) (kids s))\<^sup>*" by (auto simp: reach_def)
    from x(2) z have "x \<in> Z"
    proof (induction rule: converse_rtrancl_induct)
      case base
      then show ?case by simp
    next
      case (step y w)
      then have "w \<in> Z" "y < size_of s" "w \<in> set (kids s y)" by (simp_all add: edges_def)
      then show ?case using self_contained_preds [OF g c Z] by blast
    qed
    then have "rc s x = refs (kids s) Z x" using Z by (simp add: self_contained_def)
    also have "\<dots> \<le> refs (kids s) (candidates s) x" by (rule refs_mono [OF fX ZX])
    finally show False using x(1) by (simp add: externally_held_def)
  qed
  then show "z \<in> garbage s" using z ZX by (auto simp: garbage_def)
qed

subsection \<open>The run\<close>

text \<open>The marks of a run in the globals are not looked at by the phases.\<close>

lemma run_flags:
  fixes s :: gc_state
  defines "t \<equiv> gc_upd (\<lambda>g. g\<lparr>gc_runs := gc_runs g + 1, gc_active := True\<rparr>) s"
  shows "gs_nodes t = gs_nodes s" "same_shape s t" "rc t = rc s" "col t = col s" "kids t = kids s"
    "buffered t = buffered s" "before_run s \<Longrightarrow> before_run t"
proof -
  have eq: "gs_nodes t = gs_nodes s" "gs_entries t = gs_entries s" "gs_indirect t = gs_indirect s"
    "gs_symbol_table t = gs_symbol_table s" "gc_buf (gs_globals t) = gc_buf (gs_globals s)"
    "gc_buf_size (gs_globals t) = gc_buf_size (gs_globals s)" "gc_unused (gs_globals t) = gc_unused (gs_globals s)"
    "gc_first_unused (gs_globals t) = gc_first_unused (gs_globals s)" "gc_num_roots (gs_globals t) = gc_num_roots (gs_globals s)"
    by (simp_all add: t_def gc_upd_def)
  show "gs_nodes t = gs_nodes s" "same_shape s t" by (simp_all add: eq same_shape_def size_of_def)
  show rc: "rc t = rc s" "col t = col s" by (simp_all add: fun_eq_iff rc_def col_def eq)
  have z: "Z_COLLECTABLE t = Z_COLLECTABLE s" by (rule collectable_same) (simp add: eq same_shape_def size_of_def)
  have h: "ht_zvals t = ht_zvals s" by (rule ht_zvals_same) (simp add: eq same_shape_def size_of_def)
  have tg: "targets t = targets s" by (rule ext) (simp add: targets_def z)
  show k: "kids t = kids s" unfolding fun_eq_iff kids_def tg h eq by simp
  have sl: "gc_slot t = gc_slot s" by (simp add: fun_eq_iff gc_slot_def eq)
  have iu: "in_use t = in_use s" by (simp add: fun_eq_iff in_use_def eq)
  have ho: "holds_at t = holds_at s" "unused_at t = unused_at s" by (simp_all add: fun_eq_iff holds_at_def unused_at_def sl)
  have fc: "free_chain t u ys = free_chain s u ys" for u ys by (rule free_chain_cong) (simp add: sl)
  have bo: "buf_ok t = buf_ok s" by (simp add: buf_ok_def eq)
  have n: "size_of t = size_of s" by (simp add: size_of_def eq)
  have r: "roots_ok t = roots_ok s" unfolding roots_part_def eq iu ho fc bo ..
  show b: "buffered t = buffered s" by (simp add: buffered_def sl iu)
  have g: "graph_ok t = graph_ok s" unfolding graph_ok_def n k h eq ..
  have c: "fully_counted t = fully_counted s" by (simp add: fully_counted_def n k rc)
  show "before_run s \<Longrightarrow> before_run t" unfolding before_run_def n rc iu sl r b g c .
qed

lemma same_shape_sym: "same_shape s t \<Longrightarrow> same_shape t s"
  by (simp add: same_shape_def)

lemma garbage_same:
  assumes "same_shape s t" "rc t = rc s" "col t = col s" "kids t = kids s"
  shows "garbage t = garbage s"
proof -
  have n: "size_of t = size_of s" using assms(1) by (simp add: same_shape_def)
  have "purple t = purple s" by (simp add: purple_def n assms(3))
  then have c: "candidates t = candidates s" by (simp add: candidates_def reach_def n assms(4))
  then have "externally_held t = externally_held s" by (simp add: externally_held_def assms)
  then show ?thesis by (simp add: garbage_def c reach_def n assms(4))
qed

text \<open>
  The result: counts as before, all nodes black, and in the buffer as garbage the nodes \<open>B\<close>: the
  roots among the garbage, and its objects and arrays but tables \<open>T\<close> that its objects hand out.
\<close>

definition found :: "gc_state \<Rightarrow> nat set \<Rightarrow> nat \<Rightarrow> bool \<Rightarrow> gc_state \<Rightarrow> bool" where
  "found s B k flag s' \<longleftrightarrow>
     same_shape s s' \<and> roots_ok s' \<and> buffered s' = GC_GARBAGE ` B \<and>
     (\<forall>n < size_of s. col s' n = GC_BLACK \<and> rc s' n = rc s n) \<and>
     (\<exists>T \<subseteq> garbage s. (\<forall>h \<in> T. \<exists>d \<in> garbage s. table_of s d h) \<and>
        B = {n \<in> garbage s. GC_ROOT n \<in> buffered s \<or> enters s n \<and> n \<notin> T} \<and>
        k = (\<Sum>d \<in> garbage s - T. counts_as s d)) \<and>
     flag = (\<exists>d \<in> garbage s. destructible s d)"

lemma phases_ok:
  assumes b: "before_run s" and sz: "size_of s + 1 < 2 ^ 29" and st: "stack_base stack"
  obtains stack1 s1 stack2 s2 k flag stack3 s3 B where "gc_mark_roots stack s = Inr (stack1, s1)"
    "gc_scan_roots stack1 s1 = Inr (stack2, s2)" "gc_collect_roots False stack2 s2 = Inr (k, flag, stack3, s3)"
    "found s B k flag s3"
proof -
  have ok: "graph_ok s" "fully_counted s" "\<forall>e \<in> buffered s. \<exists>r. e = GC_ROOT r" and bp: "\<forall>n < size_of s. col s n = GC_BLACK \<or>
        col s n = GC_PURPLE \<and> (\<exists>i \<in> in_use s {}. gc_slot s i = Some (GC_ROOT n))"
    using b by (simp_all add: before_run_def)
  obtain stack1 s0 s1 stack2 s2 where a: "gc_mark_roots stack s = Inr (stack1, s1)" "gc_scan_roots stack1 s1 = Inr (stack2, s2)"
    "stack_base stack2" "compacted s s0" "same_buffer s0 s2" "split_up s s2"
    using mark_scan_ok [OF b st] .
  let ?G = "garbage s"
  have sp: "same_shape s s2" "\<And>n. n < size_of s \<Longrightarrow> col s2 n = (if n \<in> ?G then GC_WHITE else GC_BLACK)"
    "\<And>n. n < size_of s \<Longrightarrow> rc s2 n = rc s n - refs (kids s) ?G n" using a(6) by (simp_all add: split_up_def)
  have sh02: "same_shape s0 s2"
    by (rule same_shape_trans [OF same_shape_sym [OF compacted_same(1) [OF a(4)]] sp(1)])
  have r0: "roots_ok s0" "buffered s0 = buffered s" using a(4) by (simp_all add: compacted_def)
  note r2 = roots_same [OF r0(1) sh02 a(5)]
  have len: "size_of s2 = size_of s" using sp(1) by (simp add: same_shape_def)
  have g2: "graph_ok s2" by (rule graph_same [OF sp(1) ok(1)])
  have bw: "GC_BLACK \<noteq> GC_WHITE" by (simp add: GC_BLACK_def GC_WHITE_def)
  have Xb: "candidates s \<subseteq> {..<size_of s}" by (rule candidates_bound [OF ok(1)])
  have Gb: "?G \<subseteq> {..<size_of s}" using Xb by (auto simp: garbage_def)
  have W: "white_nodes s2 = ?G" using sp(2) Gb bw len by (auto simp: white_nodes_def split: if_splits)
  have re: "reach s2 (purple s) = candidates s" by (simp add: reach_same [OF sp(1)] candidates_def)
  have K: "kids s2 d = kids s d" if "d < size_of s" for d by (rule kids_same [OF sp(1) that])
  have sz2: "size_of s2 + 1 < 2 ^ 29" using sz len by simp
  have c2: "col s2 n = GC_WHITE \<or> col s2 n = GC_BLACK" if "n < size_of s2" for n using sp(2) that len by simp
  have ro2: "\<exists>r. e = GC_ROOT r" if "e \<in> buffered s2" for e using that ok(3) r0(2) r2(2) by simp
  have R1: "white_nodes s2 \<subseteq> reach s2 (purple s)" unfolding W re by (auto simp: garbage_def)
  have R2: "r < size_of s2 \<and> GC_ROOT r \<in> buffered s2" if r: "r \<in> purple s" for r
  proof -
    have "r < size_of s" "col s r = GC_PURPLE" using r by (simp_all add: purple_def)
    then have "GC_ROOT r \<in> buffered s" using bp by (force simp: buffered_slot)
    then show ?thesis using \<open>r < size_of s\<close> len r0(2) r2(2) by simp
  qed
  have bl: "col s2 k = GC_BLACK" if d: "d \<in> reach s2 (purple s)" "col s2 d = GC_BLACK" "k \<in> set (kids s2 d)" for d k
  proof -
    have dX: "d \<in> candidates s" using d(1) unfolding re .
    then have dl: "d < size_of s" using Xb by blast
    have k: "k \<in> set (kids s d)" using d(3) K [OF dl] by simp
    have "d \<notin> ?G" using sp(2) [OF dl] d(2) bw by auto
    then have "d \<in> reach s (externally_held s)" using dX by (simp add: garbage_def)
    then have "k \<in> reach s (externally_held s)" using reach_kids [OF dl] k by blast
    moreover have "k < size_of s" using graph_okD(1) [OF ok(1) dl] k by auto
    ultimately show ?thesis using sp(2) by (simp add: garbage_def)
  qed
  obtain k flag stack3 s3 B where f: "gc_collect_roots False stack2 s2 = Inr (k, flag, stack3, s3)"
    "gathered (white_nodes s2) s2 B k False flag s3"
    using collect_roots_ok [where flag = False, OF g2 r2(1) sz2 a(3) c2 ro2 R1 R2 bl] .
  note ga = f(2) [unfolded gathered_def W]
  have body: "enters s2 n = enters s n" "destructible s2 n = destructible s n" "counts_as s2 n = counts_as s n"
    "table_of s2 n h = table_of s n h" if "n \<in> ?G" for n h
    using same_body [OF sp(1)] that Gb by blast+
  have "found s B k flag s3"
    unfolding found_def
  proof (intro conjI ballI allI impI)
    show "same_shape s s3" using same_shape_trans [OF sp(1)] ga by blast
    show "roots_ok s3" using ga by (simp add: tight_def)
    show "buffered s3 = GC_GARBAGE ` B" using ga by blast
  next
    fix n assume n: "n < size_of s"
    have g: "col s3 n = GC_BLACK" "rc s3 n = rc s2 n + refs (kids s2) ?G n" using ga n len by simp_all
    show "col s3 n = GC_BLACK" by (rule g(1))
    have "refs (kids s) ?G n \<le> refs (kids s) {..<size_of s} n" by (rule refs_mono [OF _ Gb]) simp
    also have "\<dots> \<le> rc s n" using ok(2) n by (simp add: fully_counted_def)
    finally show "rc s3 n = rc s n" using g(2) sp(3) [OF n] refs_same [OF sp(1) Gb, of n] by simp
  next
    obtain T where T: "T \<subseteq> ?G" "\<forall>h \<in> T. \<exists>d \<in> ?G. table_of s2 d h"
      "B = {n \<in> ?G. GC_ROOT n \<in> buffered s2 \<or> enters s2 n \<and> n \<notin> T}" "k = (\<Sum>d \<in> ?G - T. counts_as s2 d)"
      using conjunct1 [OF conjunct2 [OF conjunct2 [OF conjunct2 [OF conjunct2 [OF conjunct2 [OF ga]]]]]] by blast
    have "(\<Sum>d \<in> ?G - T. counts_as s2 d) = (\<Sum>d \<in> ?G - T. counts_as s d)" using body(3) by (intro sum.cong) auto
    moreover have "\<forall>h \<in> T. \<exists>d \<in> ?G. table_of s d h" using T(2) body(4) by auto
    moreover have "B = {n \<in> ?G. GC_ROOT n \<in> buffered s \<or> enters s n \<and> n \<notin> T}"
      unfolding T(3) r2(2) r0(2) using body(1) by blast
    ultimately show "\<exists>T \<subseteq> ?G. (\<forall>h \<in> T. \<exists>d \<in> ?G. table_of s d h) \<and>
        B = {n \<in> ?G. GC_ROOT n \<in> buffered s \<or> enters s n \<and> n \<notin> T} \<and> k = (\<Sum>d \<in> ?G - T. counts_as s d)"
      using T(1,4) by (intro exI [of _ T]) simp
  next
    show "flag = (\<exists>d \<in> ?G. destructible s d)" using ga body(2) by auto
  qed
  then show thesis using that a(1,2) f(1) by blast
qed

lemma find_garbage_ok:
  assumes b: "before_run s" and sz: "size_of s + 1 < 2 ^ 29"
  obtains k flag s' B where "gc_find_garbage s = Inr (k, flag, s')" "found s B k flag s'"
proof -
  define t where "t = gc_upd (\<lambda>g. g\<lparr>gc_runs := gc_runs g + 1, gc_active := True\<rparr>) s"
  let ?stack = "\<lparr>sk_prev = [], sk_data = replicate GC_STACK_SEGMENT_SIZE None, sk_next = []\<rparr>"
  note r = run_flags [of s, folded t_def]
  have bt: "before_run t" by (rule r(7) [OF b])
  have n: "size_of t = size_of s" using r(2) by (simp add: same_shape_def)
  have st: "stack_base ?stack" by (simp add: stack_base_iff)
  obtain stack1 s1 stack2 s2 k flag stack3 s3 B where p: "gc_mark_roots ?stack t = Inr (stack1, s1)"
    "gc_scan_roots stack1 s1 = Inr (stack2, s2)" "gc_collect_roots False stack2 s2 = Inr (k, flag, stack3, s3)"
    "found t B k flag s3" using phases_ok [OF bt sz [folded n] st] .
  have G: "garbage t = garbage s" by (rule garbage_same [OF r(2-5)])
  have body: "enters t d = enters s d" "destructible t d = destructible s d" "counts_as t d = counts_as s d"
    "table_of t d h = table_of s d h" for d h
    by (simp_all add: enters_def destructible_def counts_as_def table_of_def r(1))
  have "same_shape s s3" using same_shape_trans [OF r(2)] p(4) unfolding found_def by blast
  then have "found s B k flag s3" using p(4) unfolding found_def n G r(3,6) body by blast
  moreover have "gc_find_garbage s = Inr (k, flag, s3)" using p(1-3) by (simp add: gc_find_garbage_def t_def Let_def)
  ultimately show thesis using that by blast
qed

end
