(* ===== verification/GcSamples.thy ===== *)
theory GcSamples
  imports GcCycles
begin

text \<open>
  A small graph: objects 0 and 1 refer to each other and to nothing outside, object 1 also
  refers to object 2, which is held from outside; object 0 is in the root buffer.
\<close>

definition gc_sample_object :: "bool \<Rightarrow> zval list \<Rightarrow> gc_body" where
  "gc_sample_object dtor table =
     GcObject \<lparr>go_free_called = False, go_dtor_called = False, go_has_dtor = dtor, go_get_gc = (None, table),
       go_weak = None, go_map = None\<rparr>"

definition gc_sample_node :: "nat \<Rightarrow> 32 word \<Rightarrow> gc_body \<Rightarrow> gc_node" where
  "gc_sample_node k info body =
     \<lparr>gn_count = k, gn_info = info, gn_immutable = False, gn_not_collectable = False, gn_body = body\<rparr>"

definition gc_sample_globals :: zend_gc_globals where
  "gc_sample_globals =
     \<lparr>gc_buf = Some [Some GC_NULL_ROOT, Some (GC_ROOT 0), None, None], gc_is_enabled = True, gc_active = False,
      gc_is_protected = False, gc_full = False, gc_unused = 0, gc_first_unused = 2, gc_threshold = 4,
      gc_buf_size = 4, gc_num_roots = 1, gc_runs = 0, gc_collected = 0, gc_dtor_idx = 1, gc_dtor_end = 0\<rparr>"

definition gc_cycle :: gc_state where
  "gc_cycle =
     \<lparr>gs_nodes = [gc_sample_node 1 0x300001 (gc_sample_object False [IS_OBJECT 1]),
                  gc_sample_node 1 0 (gc_sample_object True [IS_OBJECT 0, IS_LONG 7, IS_OBJECT 2]),
                  gc_sample_node 2 0 (gc_sample_object False [])],
      gs_entries = [], gs_indirect = (\<lambda>_. IS_UNDEF), gs_symbol_table = 3, gs_globals = gc_sample_globals\<rparr>"

lemma gc_cycle_size [simp]: "size_of gc_cycle = 3" "length (gs_nodes gc_cycle) = 3"
  by (simp_all add: size_of_def gc_cycle_def)

lemma below_3: "(\<forall>r < 3. P r) \<longleftrightarrow> P 0 \<and> P (Suc 0) \<and> P 2" "r < 3 \<longleftrightarrow> r = 0 \<or> r = Suc 0 \<or> r = 2"
  by (auto simp: eval_nat_numeral less_Suc_eq)

lemma gc_cycle_nodes:
  "gs_nodes gc_cycle ! 0 = gc_sample_node 1 0x300001 (gc_sample_object False [IS_OBJECT 1])"
  "gs_nodes gc_cycle ! Suc 0 = gc_sample_node 1 0 (gc_sample_object True [IS_OBJECT 0, IS_LONG 7, IS_OBJECT 2])"
  "gs_nodes gc_cycle ! 2 = gc_sample_node 2 0 (gc_sample_object False [])"
  by (simp_all add: gc_cycle_def)

lemma gc_cycle_kids [simp]: "kids gc_cycle 0 = [Suc 0]" "kids gc_cycle (Suc 0) = [0, 2]" "kids gc_cycle 2 = []"
  by (simp_all add: kids_def gc_cycle_def gc_sample_node_def gc_sample_object_def targets_def map_filter_simps Z_COLLECTABLE_def)

lemma gc_cycle_rc: "rc gc_cycle 0 = 1" "rc gc_cycle (Suc 0) = 1" "rc gc_cycle 2 = 2"
  "col gc_cycle 0 = GC_PURPLE" "col gc_cycle (Suc 0) = GC_BLACK" "col gc_cycle 2 = GC_BLACK"
  by (simp_all add: rc_def col_def gc_cycle_def gc_sample_node_def GC_REF_COLOR_def gc_colors GC_COLOR_def)

lemma gc_cycle_slots:
  "gc_slot gc_cycle (Suc 0) = Some (GC_ROOT 0)" "in_use gc_cycle X = {Suc 0} - X"
  by (auto simp: gc_slot_def gc_cycle_def gc_sample_globals_def in_use_def)

lemma gc_cycle_graph: "graph_ok gc_cycle" "fully_counted gc_cycle"
proof -
  show "graph_ok gc_cycle"
    unfolding graph_ok_def gc_cycle_size below_3(1) gc_cycle_nodes
    by (simp add: gc_sample_node_def gc_sample_object_def gc_cycle_def [THEN arg_cong, of gs_symbol_table])
  have "{..<3} = {0, Suc 0, 2}" by auto
  then show "fully_counted gc_cycle"
    unfolding fully_counted_def gc_cycle_size below_3(1) by (simp add: refs_def gc_cycle_rc)
qed

lemma gc_cycle_roots: "roots_ok gc_cycle"
proof -
  have h: "holds_at gc_cycle (Suc 0) r \<longleftrightarrow> r = 0" "\<not> unused_at gc_cycle (Suc 0)" for r
    unfolding holds_at_def unused_at_def gc_cycle_slots by (auto simp: GC_GET_PTR_def)
  have g: "gs_globals gc_cycle = gc_sample_globals" by (simp add: gc_cycle_def)
  have a: "GC_REF_ADDRESS (gs_nodes gc_cycle ! 0) = 1" "GC_REF_ADDRESS (gs_nodes gc_cycle ! Suc 0) = 0"
    "GC_REF_ADDRESS (gs_nodes gc_cycle ! 2) = 0"
    unfolding gc_cycle_nodes by (simp_all add: gc_sample_node_def GC_REF_ADDRESS_def GC_ADDRESS_def)
  show ?thesis
    unfolding roots_part_def gc_cycle_slots(2) gc_cycle_size(2) below_3(1) g
  proof (intro conjI)
    show "\<exists>is. free_chain gc_cycle (gc_unused gc_sample_globals) is \<and> distinct is \<and>
        set is = {i \<in> {Suc 0} - {}. unused_at gc_cycle i}"
      using h by (intro exI [of _ "[]"]) (auto simp: gc_sample_globals_def GC_INVALID_def)
    show "\<forall>i \<in> {Suc 0} - {}. unused_at gc_cycle i \<or>
        (\<exists>r < 3. holds_at gc_cycle i r \<and> GC_REF_ADDRESS (gs_nodes gc_cycle ! r) = gc_compress i)"
      using a h by (auto simp: gc_compress_def GC_MAX_UNCOMPRESSED_def)
    show "gc_num_roots gc_sample_globals = card {i \<in> {Suc 0} - {}. \<exists>r. holds_at gc_cycle i r}"
    proof -
      have "{i \<in> {Suc 0} - {}. \<exists>r. holds_at gc_cycle i r} = {Suc 0}" using h by auto
      then show ?thesis by (simp add: gc_sample_globals_def)
    qed
  qed (use a h in \<open>simp_all add: buf_ok_def g gc_sample_globals_def GC_MAX_BUF_SIZE_def in_use_def gc_cycle_nodes gc_sample_node_def\<close>)
qed

lemma gc_cycle_ready: "before_run gc_cycle"
proof -
  have "buffered gc_cycle = {GC_ROOT 0}"
    unfolding buffered_def gc_cycle_slots by (auto simp: gc_cycle_slots GC_GET_PTR_def)
  then show ?thesis
    unfolding before_run_def gc_cycle_size below_3(1) gc_cycle_slots(2)
    using gc_cycle_graph gc_cycle_roots gc_cycle_rc gc_cycle_slots(1) by simp
qed

end
