(* ===== verification/GcEntering.thy ===== *)
theory GcEntering
  imports GcRootsSpec
begin

text \<open>
  The entry points of the collector: enabling it, adding a possible root, and the threshold.
\<close>

subsection \<open>A possible root\<close>

lemma when_full_ok:
  assumes ok: "roots_ok s" and r: "r < length (gs_nodes s)" "gc_can_root (gs_nodes s ! r)" "gn_info (gs_nodes s ! r) = 0"
    and room: "gc_first_unused (gs_globals s) < 2 ^ 29" and off: "\<not> gc_is_enabled (gs_globals s) \<or> gc_active (gs_globals s)"
  obtains s' where "gc_possible_root_when_full collect dtor r s = Inr s'" "entered s (GC_ROOT r) r GC_PURPLE s'"
proof -
  have ad: "GC_REF_ADDRESS (gs_nodes s ! r) = 0" using r(3) by (simp add: GC_REF_ADDRESS_def)
  obtain idx s1 where s1: "gc_new_index s = Inr (Some idx, s1)" "index_taken s idx s1" using new_index_ok [OF ok room] .
  obtain s' where s': "gc_set_entry idx (GC_ROOT r) r GC_PURPLE s1 = Inr s'" "entered s (GC_ROOT r) r GC_PURPLE s'"
    using set_entry_ok [OF s1(2) r(1) ad, of "GC_ROOT r" GC_PURPLE] by (auto simp: GC_GET_PTR_def)
  have "gc_possible_root_when_full collect dtor r s = Inr s'"
    using r off s1(1) s'(1) by (auto simp: gc_possible_root_when_full_def gc_node_at_def)
  then show thesis using that s'(2) by blast
qed

lemma possible_root_ok:
  assumes ok: "roots_ok s" and r: "r < length (gs_nodes s)" "gc_can_root (gs_nodes s ! r)" "gn_info (gs_nodes s ! r) = 0"
    and room: "gc_first_unused (gs_globals s) < 2 ^ 29" and th: "gc_threshold (gs_globals s) \<le> gc_buf_size (gs_globals s)"
    and np: "\<not> gc_is_protected (gs_globals s)"
    and no_run: "gc_unused (gs_globals s) \<noteq> GC_INVALID \<or> gc_first_unused (gs_globals s) < gc_threshold (gs_globals s) \<or>
      \<not> gc_is_enabled (gs_globals s) \<or> gc_active (gs_globals s)"
  obtains s' where "gc_possible_root collect dtor r s = Inr s'" "entered s (GC_ROOT r) r GC_PURPLE s'"
proof -
  have ad: "GC_REF_ADDRESS (gs_nodes s ! r) = 0" using r(3) by (simp add: GC_REF_ADDRESS_def)
  note fin = that
  have enter: thesis
    if f: "(if gc_unused (gs_globals s) \<noteq> GC_INVALID then
              bindE (gc_fetch_unused s) (\<lambda>(idx, s). Inr (Some idx, s))
            else if gc_first_unused (gs_globals s) < gc_threshold (gs_globals s) then
              bindE (gc_fetch_next_unused s) (\<lambda>(idx, s). Inr (Some idx, s))
            else Inr (None, s)) = Inr (Some idx, s1)" and t: "index_taken s idx s1" for idx s1
  proof -
    have n: "gs_nodes s1 = gs_nodes s" using t by (simp add: index_taken_def)
    obtain s' where s': "gc_set_entry idx (GC_ROOT r) r GC_PURPLE s1 = Inr s'" "entered s (GC_ROOT r) r GC_PURPLE s'"
      using set_entry_ok [OF t r(1) ad, of "GC_ROOT r" GC_PURPLE] by (auto simp: GC_GET_PTR_def)
    have "gc_possible_root collect dtor r s = Inr s'"
      using np r s'(1) unfolding gc_possible_root_def f by (simp add: gc_node_at_def n)
    then show thesis using s'(2) by (rule fin)
  qed
  consider "gc_unused (gs_globals s) \<noteq> GC_INVALID"
    | "gc_unused (gs_globals s) = GC_INVALID" "gc_first_unused (gs_globals s) < gc_threshold (gs_globals s)"
    | "gc_unused (gs_globals s) = GC_INVALID" "\<not> gc_first_unused (gs_globals s) < gc_threshold (gs_globals s)" by blast
  then show thesis
  proof cases
    case 1
    obtain idx s1 where "gc_fetch_unused s = Inr (idx, s1)" "index_taken s idx s1" using fetch_unused_ok [OF ok 1] .
    then show thesis using enter [of idx s1] 1 by simp
  next
    case 2
    have "gc_first_unused (gs_globals s) \<noteq> gc_buf_size (gs_globals s)" using 2 th by linarith
    from fetch_next_ok [OF ok this room] obtain idx s1 where "gc_fetch_next_unused s = Inr (idx, s1)" "index_taken s idx s1" .
    then show thesis using enter [of idx s1] 2 by simp
  next
    case 3
    have off: "\<not> gc_is_enabled (gs_globals s) \<or> gc_active (gs_globals s)" using no_run 3 by blast
    obtain s' where "gc_possible_root_when_full collect dtor r s = Inr s'" "entered s (GC_ROOT r) r GC_PURPLE s'"
      using when_full_ok [OF ok r room off] .
    then show thesis using that 3 np by (simp add: gc_possible_root_def)
  qed
qed

text \<open>An unheld reference is not in the buffer.\<close>

lemma not_buffered:
  assumes ok: "roots_ok s" and r: "GC_REF_ADDRESS (gs_nodes s ! r) = 0"
  shows "e \<in> buffered s \<Longrightarrow> GC_GET_PTR e \<noteq> Some r"
proof
  assume "e \<in> buffered s" "GC_GET_PTR e = Some r"
  then obtain i where i: "i \<in> in_use s {}" "holds_at s i r" by (auto simp: buffered_def holds_at_def)
  then show False using held(2) [OF ok i] compress_pos [of i] r by (simp add: in_use_def)
qed

lemma entered_left:
  assumes ok: "roots_ok s" and r: "r < length (gs_nodes s)" "gn_info (gs_nodes s ! r) = 0"
    and e: "entered s (GC_ROOT r) r c s'"
  obtains s'' where "gc_remove_from_buffer r s' = Inr s''" "roots_ok s''" "buffered s'' = buffered s"
    "gs_nodes s'' = gs_nodes s" "gc_num_roots (gs_globals s'') = gc_num_roots (gs_globals s)"
proof -
  from e obtain info where en: "roots_ok s'" "buffered s' = insert (GC_ROOT r) (buffered s)"
    "gs_nodes s' = (gs_nodes s)[r := (gs_nodes s ! r)\<lparr>gn_info := info\<rparr>]" "info AND GC_ADDRESS \<noteq> 0"
    "gc_num_roots (gs_globals s') = gc_num_roots (gs_globals s) + 1" unfolding entered_def by blast
  have a: "GC_REF_ADDRESS (gs_nodes s' ! r) \<noteq> 0" and rl: "r < length (gs_nodes s')"
    using en(3,4) r(1) by (simp_all add: GC_REF_ADDRESS_def unat_eq_0)
  obtain s'' i where l: "gc_remove_from_buffer r s' = Inr s''" "left s' i r s''"
    using remove_from_buffer_ok [OF en(1) rl a] by metis
  have "GC_REF_ADDRESS (gs_nodes s ! r) = 0" using r(2) by (simp add: GC_REF_ADDRESS_def)
  then have "buffered s'' = buffered s"
    using l(2) not_buffered [OF ok] en(2) by (auto simp: left_def GC_GET_PTR_def)
  moreover have "gs_nodes s'' = gs_nodes s"
  proof -
    have "gs_nodes s'' = (gs_nodes s)[r := (gs_nodes s ! r)\<lparr>gn_info := 0\<rparr>]" using l(2) en(3) r(1) by (simp add: left_def)
    also have "(gs_nodes s ! r)\<lparr>gn_info := 0\<rparr> = gs_nodes s ! r" using r(2) by simp
    finally show ?thesis by simp
  qed
  ultimately show thesis using that [of s''] l en(5) by (simp add: left_def)
qed

subsection \<open>Enabling the collector\<close>

lemma enable_ok:
  assumes b: "gc_buf (gs_globals s) = None" "\<not> gc_is_enabled (gs_globals s)"
    and n: "\<And>r. r < length (gs_nodes s) \<Longrightarrow> gn_info (gs_nodes s ! r) = 0"
  shows "roots_ok (snd (gc_enable True s))" "buffered (snd (gc_enable True s)) = {}"
    "gc_threshold (gs_globals (snd (gc_enable True s))) = GC_THRESHOLD_DEFAULT"
    "gc_threshold (gs_globals (snd (gc_enable True s))) \<le> gc_buf_size (gs_globals (snd (gc_enable True s)))"
proof -
  have pos: "0 < GC_DEFAULT_BUF_SIZE" by (simp add: GC_DEFAULT_BUF_SIZE_def)
  define t where "t = snd (gc_enable True s)"
  have t: "gs_nodes t = gs_nodes s" "length (the (gc_buf (gs_globals t))) = GC_DEFAULT_BUF_SIZE"
    "gc_buf (gs_globals t) \<noteq> None" "gc_buf_size (gs_globals t) = GC_DEFAULT_BUF_SIZE"
    "gc_threshold (gs_globals t) = GC_THRESHOLD_DEFAULT"
    "gc_unused (gs_globals t) = GC_INVALID" "gc_first_unused (gs_globals t) = 1" "gc_num_roots (gs_globals t) = 0"
    using b pos by (auto simp: t_def gc_enable_def gc_reset_def gc_upd_def Let_def GC_FIRST_ROOT_def)
  have iu: "in_use t X = {}" for X by (simp add: in_use_def t(7))
  have "roots_ok t"
    unfolding roots_part_def iu t(1,4,6-8)
  proof (intro conjI)
    show "buf_ok t" using t(2-4) by (auto simp: buf_ok_def)
    show "\<exists>is. free_chain t GC_INVALID is \<and> distinct is \<and> set is = {i \<in> {}. unused_at t i}"
      by (rule exI [of _ "[]"]) simp
  qed (use n in \<open>simp_all add: GC_REF_ADDRESS_def GC_DEFAULT_BUF_SIZE_def GC_MAX_BUF_SIZE_def\<close>)
  moreover have "buffered t = {}" by (simp add: buffered_def iu)
  ultimately show "roots_ok (snd (gc_enable True s))" "buffered (snd (gc_enable True s)) = {}"
    "gc_threshold (gs_globals (snd (gc_enable True s))) = GC_THRESHOLD_DEFAULT"
    "gc_threshold (gs_globals (snd (gc_enable True s))) \<le> gc_buf_size (gs_globals (snd (gc_enable True s)))"
    using t by (simp_all add: t_def GC_THRESHOLD_DEFAULT_def GC_FIRST_ROOT_def GC_DEFAULT_BUF_SIZE_def)
qed

subsection \<open>The threshold\<close>

definition threshold_ok :: "gc_state \<Rightarrow> bool" where
  "threshold_ok s \<longleftrightarrow>
     GC_THRESHOLD_DEFAULT \<le> gc_threshold (gs_globals s) \<and> gc_threshold (gs_globals s) \<le> GC_THRESHOLD_MAX \<and>
     gc_threshold (gs_globals s) \<le> gc_buf_size (gs_globals s)"

lemma set_threshold:
  "roots_ok (gc_upd (\<lambda>g. g\<lparr>gc_threshold := f g\<rparr>) s) = roots_ok s"
  "buffered (gc_upd (\<lambda>g. g\<lparr>gc_threshold := f g\<rparr>) s) = buffered s"
proof -
  define t where "t = gc_upd (\<lambda>g. g\<lparr>gc_threshold := f g\<rparr>) s"
  have eq: "gs_nodes t = gs_nodes s" "gc_buf (gs_globals t) = gc_buf (gs_globals s)"
    "gc_buf_size (gs_globals t) = gc_buf_size (gs_globals s)" "gc_unused (gs_globals t) = gc_unused (gs_globals s)"
    "gc_first_unused (gs_globals t) = gc_first_unused (gs_globals s)" "gc_num_roots (gs_globals t) = gc_num_roots (gs_globals s)"
    by (simp_all add: t_def gc_upd_def)
  have sl: "gc_slot t = gc_slot s" by (simp add: fun_eq_iff gc_slot_def eq)
  have iu: "in_use t = in_use s" by (simp add: fun_eq_iff in_use_def eq)
  have ho: "holds_at t = holds_at s" "unused_at t = unused_at s" by (simp_all add: fun_eq_iff holds_at_def unused_at_def sl)
  have fc: "free_chain t u ys = free_chain s u ys" for u ys by (rule free_chain_cong) (simp add: sl)
  have bo: "buf_ok t = buf_ok s" by (simp add: buf_ok_def eq)
  have "roots_ok t = roots_ok s" unfolding roots_part_def eq iu ho fc bo ..
  moreover have "buffered t = buffered s" by (simp add: buffered_def sl iu)
  ultimately show "roots_ok (gc_upd (\<lambda>g. g\<lparr>gc_threshold := f g\<rparr>) s) = roots_ok s"
    "buffered (gc_upd (\<lambda>g. g\<lparr>gc_threshold := f g\<rparr>) s) = buffered s" by (simp_all add: t_def)
qed

lemma grow_buffered:
  assumes ok: "roots_ok s" and lt: "gc_buf_size (gs_globals s) < GC_MAX_BUF_SIZE"
  shows "buffered (gc_grow_root_buffer s) = buffered s"
  using grow_ok(3,6) [OF ok lt] by (auto simp: buffered_def)

lemma adjust_threshold_ok:
  assumes ok: "roots_ok s" and t: "threshold_ok s"
  shows "roots_ok (gc_adjust_threshold n s)" "threshold_ok (gc_adjust_threshold n s)"
    "buffered (gc_adjust_threshold n s) = buffered s"
proof -
  let ?g = "gs_globals s"
  let ?new = "min (gc_threshold ?g + GC_THRESHOLD_STEP) GC_THRESHOLD_MAX"
  have th: "GC_THRESHOLD_DEFAULT \<le> gc_threshold ?g" "gc_threshold ?g \<le> GC_THRESHOLD_MAX" "gc_threshold ?g \<le> gc_buf_size ?g"
    using t by (simp_all add: threshold_ok_def)
  define u where "u = (if ?new > gc_buf_size ?g then gc_grow_root_buffer s else s)"
  have u: "roots_ok u" "buffered u = buffered s" "gc_buf_size ?g \<le> gc_buf_size (gs_globals u)"
    "gc_threshold (gs_globals u) = gc_threshold ?g"
  proof -
    have "roots_ok u \<and> buffered u = buffered s \<and> gc_buf_size ?g \<le> gc_buf_size (gs_globals u) \<and>
        gc_threshold (gs_globals u) = gc_threshold ?g"
    proof (cases "?new > gc_buf_size ?g")
      case True
      then have lt: "gc_buf_size ?g < GC_MAX_BUF_SIZE" by (simp add: GC_THRESHOLD_MAX_def GC_MAX_BUF_SIZE_def)
      have "gc_threshold (gs_globals (gc_grow_root_buffer s)) = gc_threshold ?g"
        using grow_ok(5) [OF ok lt] by (simp add: gc_frame_def rest_of_globals_def)
      then show ?thesis using True grow_ok(1,2) [OF ok lt] grow_buffered [OF ok lt] by (simp add: u_def)
    next
      case False
      then have "u = s" unfolding u_def by (simp only: if_False)
      then show ?thesis using ok by simp
    qed
    then show "roots_ok u" "buffered u = buffered s" "gc_buf_size ?g \<le> gc_buf_size (gs_globals u)"
      "gc_threshold (gs_globals u) = gc_threshold ?g" by simp_all
  qed
  have le: "GC_THRESHOLD_DEFAULT \<le> ?new" "?new \<le> GC_THRESHOLD_MAX" using th by (auto simp: min_def)
  define up where "up = (if ?new \<le> gc_buf_size (gs_globals u) then gc_upd (\<lambda>g. g\<lparr>gc_threshold := ?new\<rparr>) u else u)"
  have up: "roots_ok up \<and> threshold_ok up \<and> buffered up = buffered s"
  proof (cases "?new \<le> gc_buf_size (gs_globals u)")
    case True
    then have "up = gc_upd (\<lambda>g. g\<lparr>gc_threshold := ?new\<rparr>) u" by (simp only: up_def if_True)
    then show ?thesis using u(1,2) le True set_threshold [of "\<lambda>_. ?new" u] by (simp add: threshold_ok_def gc_upd_def)
  next
    case False
    then have "up = u" by (simp only: up_def if_False)
    then show ?thesis using u th by (simp add: threshold_ok_def)
  qed
  define lower where "lower = max (gc_threshold ?g - GC_THRESHOLD_STEP) GC_THRESHOLD_DEFAULT"
  have lo: "GC_THRESHOLD_DEFAULT \<le> lower" "lower \<le> gc_threshold ?g" using th(1) by (auto simp: lower_def)
  define down where "down = gc_upd (\<lambda>g. g\<lparr>gc_threshold := max (gc_threshold g - GC_THRESHOLD_STEP) GC_THRESHOLD_DEFAULT\<rparr>) s"
  have "gc_threshold (gs_globals down) = lower" "gc_buf_size (gs_globals down) = gc_buf_size ?g"
    by (simp_all add: down_def lower_def gc_upd_def)
  then have down: "roots_ok down \<and> threshold_ok down \<and> buffered down = buffered s"
    using ok th lo set_threshold [of "\<lambda>g. max (gc_threshold g - GC_THRESHOLD_STEP) GC_THRESHOLD_DEFAULT" s, folded down_def]
    by (simp add: threshold_ok_def)
  have "gc_adjust_threshold n s = up \<or> gc_adjust_threshold n s = down \<or> gc_adjust_threshold n s = s"
    unfolding gc_adjust_threshold_def Let_def u_def [symmetric] up_def [symmetric] down_def [symmetric] by presburger
  then show "roots_ok (gc_adjust_threshold n s)" "threshold_ok (gc_adjust_threshold n s)"
    "buffered (gc_adjust_threshold n s) = buffered s" using up down ok t by auto
qed

end
