(* ===== verification/GcTheorems.thy ===== *)
theory GcTheorems
  imports GcSamples GcEntering
begin

text \<open>
  The properties of the cycle collector, each with a witness on the sample graph.
\<close>

subsection \<open>The root buffer\<close>

text \<open>
  C11. \<open>gc_possible_root\<close> adds a node to the root buffer: it keeps the invariant of the buffer,
  adds one entry, makes the node purple with the address of its entry, and changes nothing
  else. This holds when a collection is not started, which is the case below the threshold.
\<close>

theorem possible_root_enters:
  assumes "roots_ok s" "r < length (gs_nodes s)" "gc_can_root (gs_nodes s ! r)" "gn_info (gs_nodes s ! r) = 0"
    and "gc_first_unused (gs_globals s) < 2 ^ 29" "gc_threshold (gs_globals s) \<le> gc_buf_size (gs_globals s)"
    and "\<not> gc_is_protected (gs_globals s)"
    and "gc_unused (gs_globals s) \<noteq> GC_INVALID \<or> gc_first_unused (gs_globals s) < gc_threshold (gs_globals s) \<or>
      \<not> gc_is_enabled (gs_globals s) \<or> gc_active (gs_globals s)"
  shows "\<exists>s' info. gc_possible_root collect dtor r s = Inr s' \<and> roots_ok s' \<and> gc_frame s s' \<and>
    buffered s' = insert (GC_ROOT r) (buffered s) \<and>
    gs_nodes s' = (gs_nodes s)[r := (gs_nodes s ! r)\<lparr>gn_info := info\<rparr>] \<and>
    info AND GC_COLOR = GC_PURPLE \<and> info AND GC_ADDRESS \<noteq> 0"
proof -
  obtain s' where s': "gc_possible_root collect dtor r s = Inr s'" "entered s (GC_ROOT r) r GC_PURPLE s'"
    using possible_root_ok [OF assms] .
  then show ?thesis unfolding entered_def by blast
qed

text \<open>
  C12. A possible root that is removed again by \<open>gc_remove_from_buffer\<close> leaves no trace: the
  entry is found from the compressed address, the other entries and the nodes are as before.
\<close>

theorem possible_root_undone:
  assumes "roots_ok s" "r < length (gs_nodes s)" "gc_can_root (gs_nodes s ! r)" "gn_info (gs_nodes s ! r) = 0"
    and "gc_first_unused (gs_globals s) < 2 ^ 29" "gc_threshold (gs_globals s) \<le> gc_buf_size (gs_globals s)"
    and "\<not> gc_is_protected (gs_globals s)"
    and "gc_unused (gs_globals s) \<noteq> GC_INVALID \<or> gc_first_unused (gs_globals s) < gc_threshold (gs_globals s) \<or>
      \<not> gc_is_enabled (gs_globals s) \<or> gc_active (gs_globals s)"
  shows "\<exists>s'. bindE (gc_possible_root collect dtor r s) (gc_remove_from_buffer r) = Inr s' \<and> roots_ok s' \<and>
    buffered s' = buffered s \<and> gs_nodes s' = gs_nodes s \<and>
    gc_num_roots (gs_globals s') = gc_num_roots (gs_globals s)"
proof -
  obtain s1 where s1: "gc_possible_root collect dtor r s = Inr s1" "entered s (GC_ROOT r) r GC_PURPLE s1"
    using possible_root_ok [OF assms] .
  obtain s' where "gc_remove_from_buffer r s1 = Inr s'" "roots_ok s'" "buffered s' = buffered s" "gs_nodes s' = gs_nodes s"
    "gc_num_roots (gs_globals s') = gc_num_roots (gs_globals s)"
    using entered_left [OF assms(1,2,4) s1(2)] .
  then show ?thesis using s1(1) by simp
qed

text \<open>
  C10. \<open>gc_compact\<close> moves the entries of the root buffer together: afterwards there is no
  unused entry below \<open>first_unused\<close>, the entries are the same, and every node in the buffer
  has the address of its entry and its old colour.
\<close>

theorem compact_closes_gaps:
  assumes "roots_ok s"
  shows "\<exists>s'. gc_compact s = Inr s' \<and> roots_ok s' \<and> buffered s' = buffered s \<and>
    (\<forall>i \<in> in_use s' {}. \<exists>r. holds_at s' i r \<and> addr s' r = gc_compress i) \<and>
    gc_first_unused (gs_globals s') = gc_num_roots (gs_globals s) + 1 \<and>
    same_shape s s' \<and> (\<forall>n < size_of s. rc s' n = rc s n \<and> col s' n = col s n)"
proof -
  obtain s' where s': "gc_compact s = Inr s'" "compacted s s'" using gc_compact_ok [OF assms] .
  note c = s'(2) [unfolded compacted_def]
  have "\<forall>i \<in> in_use s' {}. \<exists>r. holds_at s' i r \<and> addr s' r = gc_compress i"
    using c held(2) [of "{}" s'] unfolding addr_def by blast
  then show ?thesis using s'(1) c compacted_same [OF s'(2)] by blast
qed

text \<open>
  The links of the list of unused entries are cut to 32 bits before they are divided by
  the size of a pointer, so that a link to an entry from \<open>2\<^sup>2\<^sup>9\<close> on, which is within the
  largest buffer, is read back as another index.
\<close>

theorem list_link_lost:
  "\<exists>i w. i < GC_MAX_BUF_SIZE \<and> GC_IDX2LIST i = GC_UNUSED w \<and> GC_LIST2IDX w \<noteq> i"
  by (rule exI [of _ "2 ^ 29 + 5"]) (simp add: GC_IDX2LIST_def GC_LIST2IDX_def GC_MAX_BUF_SIZE_def)

subsection \<open>Marking and scanning\<close>

text \<open>
  C8. \<open>gc_mark_roots\<close> ends without a bad access, makes grey exactly the nodes that the purple
  nodes reach, and takes from the count of every node exactly the references that grey nodes
  hold.
\<close>

theorem mark_roots_exact:
  assumes "before_run s" "stack_base stack"
  shows "\<exists>stack' s'. gc_mark_roots stack s = Inr (stack', s') \<and> same_shape s s' \<and>
    (\<forall>n < size_of s. col s' n = (if n \<in> reach s (purple s) then GC_GREY else GC_BLACK) \<and>
       rc s' n = rc s n - refs (kids s) (reach s (purple s)) n)"
proof -
  let ?X = "reach s (purple s)"
  have ok: "graph_ok s" and bp: "\<forall>n < size_of s. col s n = GC_BLACK \<or> n \<in> purple s"
    using assms(1) by (auto simp: before_run_def purple_def)
  obtain stack' s0 s' where a: "gc_mark_roots stack s = Inr (stack', s')" "stack_base stack'" "compacted s s0"
    "marked s0 (purple s) ?X s'" using mark_roots_ok [OF assms] .
  note m = markedD [OF a(4)] and c = compacted_same [OF a(3)]
  have len: "size_of s0 = size_of s" using c(1) by (simp add: same_shape_def)
  have X: "?X \<subseteq> {..<size_of s}" using m(3) len by simp
  have "col s' n = (if n \<in> ?X then GC_GREY else GC_BLACK) \<and> rc s' n = rc s n - refs (kids s) ?X n" if n: "n < size_of s" for n
    using m(4,5) [of n] c(2,3) [OF n] refs_same [OF c(1) X, of n] bp n len reach_refl [of "purple s" s] by auto
  then show ?thesis using a(1) same_shape_trans [OF c(1) m(1)] by blast
qed

text \<open>
  C9. After \<open>gc_mark_roots\<close> and \<open>gc_scan_roots\<close> the white nodes are exactly the candidates
  that no node with a reference from outside the candidates reaches; every other node is
  black, and its count has lost only the references that white nodes hold.
\<close>

theorem scan_separates:
  assumes "before_run s" "stack_base stack"
  shows "\<exists>stack' s'. bindE (gc_mark_roots stack s) (\<lambda>(stack, s). gc_scan_roots stack s) = Inr (stack', s') \<and>
    (\<forall>n < size_of s. (col s' n = GC_WHITE \<longleftrightarrow>
         n \<in> reach s (purple s) \<and>
         \<not> (\<exists>x \<in> reach s (purple s). refs (kids s) (reach s (purple s)) x < rc s x \<and> n \<in> reach s {x})) \<and>
       (col s' n = GC_WHITE \<or> col s' n = GC_BLACK) \<and>
       rc s' n = rc s n - refs (kids s) {w. w < size_of s \<and> col s' w = GC_WHITE} n)"
proof -
  obtain stack1 s0 s1 stack2 s2 where a: "gc_mark_roots stack s = Inr (stack1, s1)" "gc_scan_roots stack1 s1 = Inr (stack2, s2)"
    "stack_base stack2" "compacted s s0" "same_buffer s0 s2" "split_up s s2" using mark_scan_ok [OF assms] .
  have g: "graph_ok s" using assms(1) by (simp add: before_run_def)
  have sp: "\<And>n. n < size_of s \<Longrightarrow> col s2 n = (if n \<in> garbage s then GC_WHITE else GC_BLACK)"
    "\<And>n. n < size_of s \<Longrightarrow> rc s2 n = rc s n - refs (kids s) (garbage s) n" using a(6) by (simp_all add: split_up_def)
  have bw: "GC_BLACK \<noteq> GC_WHITE" by (simp add: GC_BLACK_def GC_WHITE_def)
  have W: "{w. w < size_of s \<and> col s2 w = GC_WHITE} = garbage s"
    using sp(1) bw candidates_bound [OF g] by (auto simp: garbage_def split: if_splits)
  have G: "n \<in> garbage s \<longleftrightarrow> n \<in> reach s (purple s) \<and>
      \<not> (\<exists>x \<in> reach s (purple s). refs (kids s) (reach s (purple s)) x < rc s x \<and> n \<in> reach s {x})" for n
    by (auto simp: garbage_def candidates_def externally_held_def reach_def)
  have "(col s2 n = GC_WHITE \<longleftrightarrow> n \<in> garbage s) \<and> (col s2 n = GC_WHITE \<or> col s2 n = GC_BLACK) \<and>
      rc s2 n = rc s n - refs (kids s) {w. w < size_of s \<and> col s2 w = GC_WHITE} n" if "n < size_of s" for n
    unfolding W using sp that bw by simp
  then have "\<forall>n < size_of s. (col s2 n = GC_WHITE \<longleftrightarrow>
         n \<in> reach s (purple s) \<and>
         \<not> (\<exists>x \<in> reach s (purple s). refs (kids s) (reach s (purple s)) x < rc s x \<and> n \<in> reach s {x})) \<and>
       (col s2 n = GC_WHITE \<or> col s2 n = GC_BLACK) \<and>
       rc s2 n = rc s n - refs (kids s) {w. w < size_of s \<and> col s2 w = GC_WHITE} n"
    unfolding G [symmetric] by blast
  moreover have "bindE (gc_mark_roots stack s) (\<lambda>(stack, s). gc_scan_roots stack s) = Inr (stack2, s2)" using a(1,2) by simp
  ultimately show ?thesis by blast
qed

subsection \<open>The run\<close>

text \<open>
  C3. The three phases of \<open>zend_gc_collect_cycles\<close> together finish without a bad access. All
  counts are afterwards as before and every node is black. The buffer holds, marked as garbage,
  exactly these nodes: the garbage that was in the buffer as a root, and the arrays and not yet freed
  objects of the garbage, except for tables \<open>T\<close> that such objects hand out through \<open>get_gc\<close>. (A
  reference or a freed object of the garbage stays out unless it was a root.) The number found is
  the sum over the garbage without \<open>T\<close>, and the flag says whether one of the objects has a
  destructor to call.
\<close>

theorem collector_finds_garbage:
  assumes "before_run s" "size_of s + 1 < 2 ^ 29"
  shows "\<exists>k flag s' T. gc_find_garbage s = Inr (k, flag, s') \<and> same_shape s s' \<and> roots_ok s' \<and>
    (\<forall>n < size_of s. rc s' n = rc s n \<and> col s' n = GC_BLACK) \<and>
    T \<subseteq> garbage s \<and> (\<forall>h \<in> T. \<exists>d \<in> garbage s. table_of s d h) \<and>
    buffered s' = GC_GARBAGE ` {n \<in> garbage s. GC_ROOT n \<in> buffered s \<or> enters s n \<and> n \<notin> T} \<and>
    k = (\<Sum>d \<in> garbage s - T. counts_as s d) \<and>
    (flag \<longleftrightarrow> (\<exists>d \<in> garbage s. destructible s d))"
proof -
  obtain k flag s' B where f: "gc_find_garbage s = Inr (k, flag, s')" "found s B k flag s'"
    using find_garbage_ok [OF assms] .
  note c = f(2) [unfolded found_def]
  obtain T where "T \<subseteq> garbage s" "\<forall>h \<in> T. \<exists>d \<in> garbage s. table_of s d h"
    "B = {n \<in> garbage s. GC_ROOT n \<in> buffered s \<or> enters s n \<and> n \<notin> T}" "k = (\<Sum>d \<in> garbage s - T. counts_as s d)"
    using c by blast
  then show ?thesis
    by (intro exI [of _ k] exI [of _ flag] exI [of _ s'] exI [of _ T]) (use f(1) c in simp)
qed

text \<open>
  C1. The collector is safe: whatever it reports belongs to a set of nodes all of whose
  counted references come from the set itself, so that nothing outside can reach it.
\<close>

theorem collector_is_safe:
  assumes "before_run s" "size_of s + 1 < 2 ^ 29" "gc_find_garbage s = Inr (k, flag, s')" "e \<in> buffered s'"
  shows "\<exists>n Z. e = GC_GARBAGE n \<and> n \<in> Z \<and> Z \<subseteq> {..<size_of s} \<and> (\<forall>m \<in> Z. rc s m = refs (kids s) Z m)"
proof -
  obtain k1 flag1 s1 B where f: "gc_find_garbage s = Inr (k1, flag1, s1)" "found s B k1 flag1 s1"
    using find_garbage_ok [OF assms(1,2)] .
  have g: "graph_ok s" "fully_counted s" using assms(1) by (simp_all add: before_run_def)
  have "buffered s' = GC_GARBAGE ` B" "B \<subseteq> garbage s" using f assms(3) unfolding found_def by auto
  then obtain n where "e = GC_GARBAGE n" "n \<in> garbage s" using assms(4) by blast
  then show ?thesis
    using garbage_self_contained [OF g] candidates_bound [OF g(1)] unfolding self_contained_def by blast
qed

text \<open>
  C2. The collector is complete: an object that belongs to a set of candidates all of whose
  references come from the set itself is reported by the run.
\<close>

theorem collector_is_complete:
  assumes "before_run s" "size_of s + 1 < 2 ^ 29"
    and "Z \<subseteq> reach s (purple s)" "\<forall>m \<in> Z. rc s m = refs (kids s) Z m"
    and "n \<in> Z" "gn_body (gs_nodes s ! n) = GcObject obj" "\<not> go_free_called obj"
  shows "\<exists>k flag s'. gc_find_garbage s = Inr (k, flag, s') \<and> GC_GARBAGE n \<in> buffered s'"
proof -
  obtain k flag s' B where f: "gc_find_garbage s = Inr (k, flag, s')" "found s B k flag s'"
    using find_garbage_ok [OF assms(1,2)] .
  have g: "graph_ok s" "fully_counted s" using assms(1) by (simp_all add: before_run_def)
  have "self_contained s Z" using assms(3,4) by (simp add: self_contained_def candidates_def)
  then have n: "n \<in> garbage s" using garbage_greatest [OF g] assms(5) by blast
  have "enters s n" using assms(6,7) by (simp add: enters_def)
  moreover have "\<not> table_of s d n" if d: "d \<in> garbage s" for d
  proof
    assume "table_of s d n"
    then obtain o' where "gn_body (gs_nodes s ! d) = GcObject o'" "fst (go_get_gc o') = Some n" by (auto simp: table_of_def)
    moreover have "d < size_of s" using d candidates_bound [OF g(1)] by (auto simp: garbage_def)
    ultimately show False using graph_okD(5) [OF g(1)] assms(6) by fastforce
  qed
  moreover obtain T where T: "\<forall>h \<in> T. \<exists>d \<in> garbage s. table_of s d h" "buffered s' = GC_GARBAGE ` B"
    "B = {n \<in> garbage s. GC_ROOT n \<in> buffered s \<or> enters s n \<and> n \<notin> T}" using f(2) [unfolded found_def] by blast
  ultimately have "n \<in> B" using n unfolding T(3) by blast
  then have "GC_GARBAGE n \<in> buffered s'" unfolding T(2) by (rule imageI)
  then show ?thesis using f(1) by (intro exI conjI)
qed

subsection \<open>Witnesses\<close>

lemma gc_cycle_entry:
  "Suc 0 < length (gs_nodes gc_cycle)" "gc_can_root (gs_nodes gc_cycle ! Suc 0)" "gn_info (gs_nodes gc_cycle ! Suc 0) = 0"
  "gc_first_unused (gs_globals gc_cycle) < 2 ^ 29" "gc_threshold (gs_globals gc_cycle) \<le> gc_buf_size (gs_globals gc_cycle)"
  "\<not> gc_is_protected (gs_globals gc_cycle)"
  "gc_unused (gs_globals gc_cycle) \<noteq> GC_INVALID \<or> gc_first_unused (gs_globals gc_cycle) < gc_threshold (gs_globals gc_cycle) \<or>
     \<not> gc_is_enabled (gs_globals gc_cycle) \<or> gc_active (gs_globals gc_cycle)"
  by (simp_all add: gc_cycle_def gc_sample_globals_def gc_sample_node_def gc_sample_object_def gc_can_root_def)

theorem possible_root_enters_witness:
  "\<exists>s'. gc_possible_root (\<lambda>s. Inr (0, s)) (\<lambda>_. Inr) (Suc 0) gc_cycle = Inr s' \<and>
    buffered s' = insert (GC_ROOT (Suc 0)) (buffered gc_cycle)"
  using possible_root_enters [OF gc_cycle_roots gc_cycle_entry] by blast

theorem possible_root_undone_witness:
  "\<exists>s'. bindE (gc_possible_root (\<lambda>s. Inr (0, s)) (\<lambda>_. Inr) (Suc 0) gc_cycle) (gc_remove_from_buffer (Suc 0)) = Inr s' \<and>
    gs_nodes s' = gs_nodes gc_cycle"
  using possible_root_undone [OF gc_cycle_roots gc_cycle_entry] by blast

theorem compact_closes_gaps_witness: "\<exists>s'. gc_compact gc_cycle = Inr s' \<and> buffered s' = buffered gc_cycle"
  using compact_closes_gaps [OF gc_cycle_roots] by blast

lemma gc_cycle_purple: "purple gc_cycle = {0}"
proof -
  have "n \<in> purple gc_cycle \<longleftrightarrow> n = 0" for n
    unfolding purple_def mem_Collect_eq gc_cycle_size below_3(2)
    using gc_cycle_rc by (auto simp: GC_BLACK_def GC_PURPLE_def)
  then show ?thesis by blast
qed

lemma gc_cycle_reach: "{0, Suc 0} \<subseteq> reach gc_cycle (purple gc_cycle)"
proof -
  have "(0, Suc 0) \<in> edges (size_of gc_cycle) (kids gc_cycle)" by (simp add: edges_def)
  then show ?thesis unfolding gc_cycle_purple reach_def by auto
qed

definition gc_sample_stack :: gc_stack where
  "gc_sample_stack = \<lparr>sk_prev = [], sk_data = replicate GC_STACK_SEGMENT_SIZE None, sk_next = []\<rparr>"

lemma gc_sample_stack_base: "stack_base gc_sample_stack"
  by (simp add: gc_sample_stack_def stack_base_iff)

theorem mark_roots_exact_witness:
  "\<exists>stack' s'. gc_mark_roots gc_sample_stack gc_cycle = Inr (stack', s') \<and> col s' 0 = GC_GREY \<and> col s' (Suc 0) = GC_GREY"
proof -
  from mark_roots_exact [OF gc_cycle_ready gc_sample_stack_base] obtain stack' s' where
    a: "gc_mark_roots gc_sample_stack gc_cycle = Inr (stack', s')"
    "\<forall>n < size_of gc_cycle. col s' n = (if n \<in> reach gc_cycle (purple gc_cycle) then GC_GREY else GC_BLACK)" by blast
  have "col s' 0 = GC_GREY" "col s' (Suc 0) = GC_GREY" using a(2) gc_cycle_reach by simp_all
  then show ?thesis using a(1) by blast
qed

theorem scan_separates_witness:
  "\<exists>stack' s'. bindE (gc_mark_roots gc_sample_stack gc_cycle) (\<lambda>(stack, s). gc_scan_roots stack s) = Inr (stack', s') \<and>
    (col s' 2 = GC_WHITE \<or> col s' 2 = GC_BLACK)"
proof -
  have "2 < size_of gc_cycle" by simp
  then show ?thesis using scan_separates [OF gc_cycle_ready gc_sample_stack_base] by blast
qed

theorem collector_finds_garbage_witness:
  "\<exists>k flag s' T. gc_find_garbage gc_cycle = Inr (k, flag, s') \<and>
    buffered s' = GC_GARBAGE ` {n \<in> garbage gc_cycle. GC_ROOT n \<in> buffered gc_cycle \<or> enters gc_cycle n \<and> n \<notin> T} \<and>
    rc s' 2 = rc gc_cycle 2"
proof -
  have "2 < size_of gc_cycle" "size_of gc_cycle + 1 < 2 ^ 29" by simp_all
  from collector_finds_garbage [OF gc_cycle_ready this(2)] this(1) show ?thesis
    by (elim exE conjE, intro exI conjI) (assumption | simp)+
qed

theorem collector_is_safe_witness:
  "\<exists>k flag s'. gc_find_garbage gc_cycle = Inr (k, flag, s') \<and> (\<forall>e \<in> buffered s'. \<exists>n. e = GC_GARBAGE n \<and> n < 3)"
proof -
  have sz: "size_of gc_cycle + 1 < 2 ^ 29" by simp
  obtain k flag s' B where f: "gc_find_garbage gc_cycle = Inr (k, flag, s')" "found gc_cycle B k flag s'"
    using find_garbage_ok [OF gc_cycle_ready sz] .
  have "\<exists>n. e = GC_GARBAGE n \<and> n < 3" if "e \<in> buffered s'" for e
    using collector_is_safe [OF gc_cycle_ready sz f(1) that] by auto
  then show ?thesis using f(1) by blast
qed

theorem collector_is_complete_witness:
  "\<exists>k flag s'. gc_find_garbage gc_cycle = Inr (k, flag, s') \<and> GC_GARBAGE (Suc 0) \<in> buffered s'"
proof (rule collector_is_complete [OF gc_cycle_ready _ gc_cycle_reach])
  show "\<forall>m \<in> {0, Suc 0}. rc gc_cycle m = refs (kids gc_cycle) {0, Suc 0} m" by (simp add: refs_def gc_cycle_rc)
  show "gn_body (gs_nodes gc_cycle ! Suc 0) = GcObject \<lparr>go_free_called = False, go_dtor_called = False, go_has_dtor = True,
      go_get_gc = (None, [IS_OBJECT 0, IS_LONG 7, IS_OBJECT 2]), go_weak = None, go_map = None\<rparr>"
    unfolding gc_cycle_nodes by (simp add: gc_sample_node_def gc_sample_object_def)
qed simp_all

end
