(* ===== verification/HashIterSep.thy ===== *)
theory HashIterSep
  imports HashDupSpec
begin

text \<open>
  \<open>zend_hash_iterator_pos_ex\<close> (\<open>Zend/zend_hash.c\<close>): the position of an iterator in the array of a
  zval, which is separated first if it is shared. The result has the address of the array that
  the zval holds afterwards.
\<close>

definition GC_TRY_DELREF :: "nat \<Rightarrow> gc_heap \<Rightarrow> gc_heap" where
  "GC_TRY_DELREF a gc =
     (if gc_immutable gc a then gc else gc\<lparr>gc_arr_count := (gc_arr_count gc)(a := gc_arr_count gc a - 1)\<rparr>)"

definition zend_hash_iterator_pos_ex :: "nat \<Rightarrow> nat \<Rightarrow> nat \<Rightarrow> dup_state \<Rightarrow> error + (dup_state \<times> nat \<times> nat)" where
  "zend_hash_iterator_pos_ex idx ht new st =
     (case st of (eg, hp, gc) \<Rightarrow>
        bindE (rdi (ht_iterators eg) idx) (\<lambda>iter.
        bindE
          (if it_ht iter \<noteq> IterHT ht then
             bindE (zend_hash_iterator_find_copy_pos idx ht (eg, hp)) (\<lambda>((eg, hp), found).
               if found then Inr ((eg, hp, gc), ht)
               else
                 bindE (rdi (ht_iterators eg) idx) (\<lambda>iter.
                   let hp = (case it_ht iter of
                               IterHT a \<Rightarrow> if \<not> HT_ITERATORS_OVERFLOW (hp ht)
                                            then hp(a := HT_DEC_ITERATORS_COUNT (hp a)) else hp
                             | _ \<Rightarrow> hp)
                   in bindE
                        (if gc_arr_count gc ht > 1 then
                           bindE (zend_array_dup ht new (eg, hp, gc)) (\<lambda>(eg, hp, gc).
                             Inr ((eg, hp, GC_TRY_DELREF ht gc), new))
                         else Inr ((eg, hp, gc), ht))
                        (\<lambda>((eg, hp, gc), ht).
                          let hp = inc_count ht hp
                          in bindE (zend_hash_get_current_pos (hp ht)) (\<lambda>pos.
                             bindE (rdi (ht_iterators eg) idx) (\<lambda>iter.
                               Inr ((eg\<lparr>ht_iterators :=
                                          (ht_iterators eg)[idx := iter\<lparr>it_ht := IterHT ht, it_pos := pos\<rparr>]\<rparr>, hp, gc), ht))))))
           else Inr ((eg, hp, gc), ht))
          (\<lambda>((eg, hp, gc), ht).
            bindE (rdi (ht_iterators eg) idx) (\<lambda>iter. Inr ((eg, hp, gc), ht, it_pos iter)))))"

text \<open>The count of the table an iterator leaves; the test of the other function is on that table.\<close>

lemma dec_count_alt:
  "(\<And>a. t = IterHT a \<Longrightarrow> HT_ITERATORS_OVERFLOW (hp a) = HT_ITERATORS_OVERFLOW (hp ht)) \<Longrightarrow>
    (case t of IterHT a \<Rightarrow> if \<not> HT_ITERATORS_OVERFLOW (hp ht) then hp(a := HT_DEC_ITERATORS_COUNT (hp a)) else hp | _ \<Rightarrow> hp) =
    dec_count t hp"
  by (auto simp: dec_count_def split: iter_target.splits)

lemma valid_pos_count: "zend_hash_get_valid_pos (ht\<lparr>nIteratorsCount := c\<rparr>) p = zend_hash_get_valid_pos ht p"
  by (induction ht p rule: zend_hash_get_valid_pos.induct)
    (subst (1 2) zend_hash_get_valid_pos.simps, simp add: place_undef_def bindE_def split: sum.splits)

lemma count_current:
  "zend_hash_get_current_pos (inc_count a hp b) = zend_hash_get_current_pos (hp b)"
  "zend_hash_get_current_pos (dec_count t hp b) = zend_hash_get_current_pos (hp b)"
  by (simp_all add: zend_hash_get_current_pos_def inc_count_def dec_count_def HT_INC_ITERATORS_COUNT_def
      HT_DEC_ITERATORS_COUNT_def valid_pos_count split: iter_target.split)

text \<open>
  On an array that is not shared the two functions agree, as long as the count of the table that
  the iterator leaves has stuck at 255 if and only if that of the array has.
\<close>

lemma pos_ex_unshared:
  assumes "gc_arr_count gc ht \<le> 1"
    "\<And>e h. zend_hash_iterator_find_copy_pos idx ht (eg, hp) = Inr ((e, h), False) \<Longrightarrow>
      idx < length (ht_iterators e) \<and>
      (\<forall>a. it_ht (ht_iterators e ! idx) = IterHT a \<longrightarrow> HT_ITERATORS_OVERFLOW (h a) = HT_ITERATORS_OVERFLOW (h ht))"
  shows "zend_hash_iterator_pos_ex idx ht new (eg, hp, gc) =
    bindE (zend_hash_iterator_pos idx ht (eg, hp)) (\<lambda>((eg, hp), p). Inr ((eg, hp, gc), ht, p))"
proof (cases "idx < length (ht_iterators eg) \<and> it_ht (ht_iterators eg ! idx) \<noteq> IterHT ht")
  case False
  then show ?thesis by (auto simp: zend_hash_iterator_pos_ex_def zend_hash_iterator_pos_def rdi_def)
next
  case True
  show ?thesis
  proof (cases "zend_hash_iterator_find_copy_pos idx ht (eg, hp)")
    case (Inl e)
    then show ?thesis using True by (simp add: zend_hash_iterator_pos_ex_def zend_hash_iterator_pos_def)
  next
    case (Inr r)
    obtain e h f where r: "r = ((e, h), f)" by (cases r) auto
    show ?thesis
    proof (cases f)
      case f: True
      then show ?thesis using True Inr r
        by (simp add: zend_hash_iterator_pos_ex_def zend_hash_iterator_pos_def rdi_def)
    next
      case False
      let ?it = "ht_iterators e ! idx"
      have d: "(case it_ht ?it of IterHT a \<Rightarrow> if \<not> HT_ITERATORS_OVERFLOW (h ht) then h(a := HT_DEC_ITERATORS_COUNT (h a)) else h
          | _ \<Rightarrow> h) = dec_count (it_ht ?it) h"
        using assms(2) [of e h] Inr r False by (intro dec_count_alt) simp
      have "idx < length (ht_iterators e)" using assms(2) [of e h] Inr r False by simp
      then show ?thesis using True Inr r False assms(1) d
        by (cases "zend_hash_get_current_pos (h ht)")
          (simp_all add: zend_hash_iterator_pos_ex_def zend_hash_iterator_pos_def retarget_def Let_def
            count_current)
    qed
  qed
qed

end
