(* ===== verification/Divergences.thy ===== *)
theory Divergences
  imports HashIterSep DupTheorems
begin

text \<open>
  Concrete runs on which the code does something else than the rest of it, or its comments,
  say it means to do. Each is an evaluation of the model.
\<close>

text \<open>
  Rehashing with two iterators, one on a hole and one on the live entry right after it: the
  loop that migrates iterators (\<open>while (iter_pos < i)\<close>) leaves the second one behind, and it
  is later moved to the next entry: of the two entries it had before it, one is lost. With
  \<open>\<le>\<close> in place of \<open><\<close> both would be on the first entry.
\<close>

theorem rehash_skips_iterator:
  "ht_inv two_iterators_table \<and>
   from_pos two_iterators_table 2 = [(KNum 2, IS_TRUE), (KNum 3, IS_FALSE)] \<and>
   (case zend_hash_rehash two_iterators_table two_iterators of
      Inl e \<Rightarrow> False
    | Inr (ht, eg) \<Rightarrow>
        from_pos ht (it_pos (ht_iterators eg ! 0)) = [(KNum 2, IS_TRUE), (KNum 3, IS_FALSE)] \<and>
        from_pos ht (it_pos (ht_iterators eg ! 1)) = [(KNum 3, IS_FALSE)] \<and>
        from_pos ht (nInternalPointer ht) = [(KNum 2, IS_TRUE), (KNum 3, IS_FALSE)])"
  by code_simp

text \<open>
  The next free index of a packed table goes down from 10 to 5 when the index 4 is added,
  which a mixed table never lets happen.
\<close>

theorem packed_next_index_decreases:
  "ht_inv (sample_packed\<lparr>nNextFreeElement := 10\<rparr>) \<and>
   (case zend_hash_index_update (sample_packed\<lparr>nNextFreeElement := 10\<rparr>) 4 IS_NULL sample_globals of
      Inl e \<Rightarrow> False
    | Inr (ht, eg, l) \<Rightarrow> nNextFreeElement ht = 5) \<and>
   (case zend_hash_index_update (sample_mixed\<lparr>nNextFreeElement := 10\<rparr>) 4 IS_NULL sample_globals of
      Inl e \<Rightarrow> False
    | Inr (ht, eg, l) \<Rightarrow> nNextFreeElement ht = 10)"
  by code_simp

text \<open>
  \<open>zend_hash_next_index_insert_new\<close> on the same packed table writes at the next free index
  without filling the cells before it, which stay uninitialised below \<open>nNumUsed\<close>.
\<close>

theorem next_insert_new_leaves_gap:
  "case zend_hash_next_index_insert_new (sample_packed\<lparr>nNextFreeElement := 5\<rparr>) IS_NULL sample_globals of
     Inl e \<Rightarrow> False
   | Inr (ht, eg, l) \<Rightarrow> nNumUsed ht = 6 \<and> arPacked ht ! 3 = None \<and> arPacked ht ! 4 = None \<and> \<not> ht_inv ht"
  by code_simp

text \<open>
  Initialising a table of more than the minimal size, or a persistent one of any size, as a mixed
  one clears its count of iterators, which the other initialisations say not to overwrite.
\<close>

theorem mixed_init_clears_iterator_count:
  "(case zend_hash_real_init_mixed_ex ((zend_empty_array 3)\<lparr>nTableSize := 16, nIteratorsCount := 1\<rparr>) of
      Inl e \<Rightarrow> False | Inr ht \<Rightarrow> nIteratorsCount ht = 0) \<and>
   (case zend_hash_real_init_mixed_ex ((zend_empty_array 3)\<lparr>f_persistent := True, nIteratorsCount := 1\<rparr>) of
      Inl e \<Rightarrow> False | Inr ht \<Rightarrow> nIteratorsCount ht = 0) \<and>
   (case zend_hash_real_init_mixed_ex ((zend_empty_array 3)\<lparr>nIteratorsCount := 1\<rparr>) of
      Inl e \<Rightarrow> False | Inr ht \<Rightarrow> nIteratorsCount ht = 1) \<and>
   nIteratorsCount (zend_hash_real_init_packed_ex ((zend_empty_array 3)\<lparr>nTableSize := 16, nIteratorsCount := 1\<rparr>)) = 1"
  by code_simp

text \<open>
  \<open>zend_array_dup\<close> of a table whose internal pointer is on a hole: the pointer keeps its place in the
  copy, which has lost the holes, so one entry is skipped. Rehashing the same table does not.
\<close>

theorem dup_pointer_skips_entry:
  "case (two_iterators_table\<lparr>nInternalPointer := 1, nIteratorsCount := 0\<rparr>) of ht \<Rightarrow>
     from_pos ht (nInternalPointer ht) = [(KNum 2, IS_TRUE), (KNum 3, IS_FALSE)] \<and>
     (case zend_array_dup 1 2 (sample_globals, \<lambda>_. ht, sample_gc) of
        Inl e \<Rightarrow> False
      | Inr (eg, hp, gc) \<Rightarrow> from_pos (hp 2) (nInternalPointer (hp 2)) = [(KNum 3, IS_FALSE)]) \<and>
     (case zend_hash_rehash ht sample_globals of
        Inl e \<Rightarrow> False
      | Inr (ht, eg) \<Rightarrow> from_pos ht (nInternalPointer ht) = [(KNum 2, IS_TRUE), (KNum 3, IS_FALSE)])"
  by code_simp

text \<open>
  An iterator leaves a table whose count has stuck at 255: \<open>zend_hash_iterator_pos\<close> lets the count
  stand, \<open>zend_hash_iterator_pos_ex\<close>, which tests the count of the array instead, lowers it.
\<close>

theorem pos_ex_lowers_stuck_count:
  "case (sample_globals\<lparr>ht_iterators := [\<lparr>it_ht = IterHT 5, it_pos = 0, it_next_copy = 0\<rparr>], ht_iterators_used := 1\<rparr>,
         (\<lambda>_. sample_packed)(5 := sample_packed\<lparr>nIteratorsCount := 255\<rparr>)) of
     (eg, hp) \<Rightarrow>
       (case zend_hash_iterator_pos 0 2 (eg, hp) of
          Inl e \<Rightarrow> False | Inr ((eg, hp), p) \<Rightarrow> nIteratorsCount (hp 5) = 255) \<and>
       (case zend_hash_iterator_pos_ex 0 2 7 (eg, hp, sample_gc) of
          Inl e \<Rightarrow> False | Inr ((eg, hp, gc), a, p) \<Rightarrow> nIteratorsCount (hp 5) = 254)"
  by code_simp

end
