(* ===== verification/Spec2Isabelle.thy ===== *)
theory Spec2Isabelle
  imports StringTheorems TableTheorems DeleteTheorems WalkTheorems DupTheorems ListTheorems SortTheorems
    GcTheorems Divergences
begin

text \<open>
  A model of the containers and of the cycle collector of the Zend engine
  (\<open>src/php-8.5.8-src/Zend/\<close>), the part of PHP that every array, symbol table and object rests
  on, and the theorems that make it correct.

  The program. A \<open>HashTable\<close> (\<open>zend_hash.c\<close>) is an ordered map from numbers and byte strings
  to zvals. A mixed table is one memory block of hash words and buckets, chained by index; a
  packed table is a bare array of zvals whose keys are the places. Deletion leaves holes,
  which a rehash squeezes out when the table is full. Iterators live in a global registry
  and hold places, so every operation that moves buckets has to move them too. Sorting is
  \<open>zend_sort.c\<close>, strings with their cached hash are \<open>zend_string.h\<close>, the byte-string
  routines are in \<open>zend_operators.c\<close>. The engine's smaller containers are the doubly linked
  list of \<open>zend_llist.c\<close>, which sorts with \<open>zend_sort\<close> too, and the growing stacks of
  \<open>zend_stack.c\<close> and \<open>zend_ptr_stack.c\<close>. Values are counted; cycles of arrays and objects
  are found by \<open>zend_gc.c\<close>, which keeps possible roots in a buffer and, in a run, takes the
  references inside the reachable graph off the counts (grey), restores what is still held
  from outside (black) and gathers the rest (white) as garbage.

  The theories, in the order of their imports:
  \<^item> \<open>ZendPrelude\<close>: error values, sequencing of fallible steps, checked array accesses.
  \<^item> \<open>ZendSort\<close>: \<open>zend_sort.c\<close>, every function, with the caller's comparison and swap.
    The locale \<open>compare_order\<close> is the contract of a comparison, \<open>sort_func\<close> that of a sort.
  \<^item> \<open>ZendCase\<close>, \<open>ZendSearch\<close>, \<open>ZendIncrement\<close>: case conversion by blocks and by table, the
    binary comparisons, Sunday's substring search, the increment of a string.
  \<^item> \<open>HashTypes\<close>: strings and DJBX33A, zvals, buckets, tables, iterators and globals.
  \<^item> \<open>HashInit\<close>: table sizes and initialisation. \<open>HashInv\<close>: the invariant \<open>ht_inv\<close> and the
    ordered map \<open>elems\<close> that a table stands for. \<open>HashFind\<close>: the lookups.
  \<^item> \<open>HashIters\<close>: the passes over the registry of iterators.
  \<^item> \<open>HashGrow\<close>: rehashing; \<open>HashConvert\<close>: resizing, packed to mixed and back, extension,
    discarding. \<open>HashUpdate\<close>, \<open>HashIndex\<close>: insertion under strings and numbers; the locale
    \<open>string_keys\<close> is the contract the two kinds of string keys share.
  \<^item> \<open>HashDelete\<close>: deletion by key, by index, of a bucket, through \<open>IS_INDIRECT\<close>; its effect
    on the map, on the iterators and on the memory (\<open>removed\<close>).
  \<^item> \<open>HashTraverse\<close>: positions, the internal pointer, the count of visible entries.
    \<open>HashApply\<close>: walks with a callback that may delete, against the walk on a list
    (\<open>apply_list\<close>); the graceful destructions. \<open>HashDestroy\<close>: destroying and cleaning.
    \<open>HashMerge\<close>: copying and merging, against a fold over ordered maps (\<open>merge_entry\<close>).
  \<^item> \<open>HashSort\<close>: \<open>zend_hash_sort\<close> with the numbering that makes it stable; \<open>HashSortSpec\<close>: that it
    is insertion sort on the entries (\<open>sort_by\<close>). \<open>HashCompare\<close>: the comparison of two tables
    and the extreme values of one.
  \<^item> \<open>HashIterReg\<close>: the registry of iterators, with the heap of tables they point to; the
    invariant \<open>reg_ok\<close> of counts and rings of copies.
  \<^item> \<open>HashMigrate\<close>: where iterators end when the places of a table are closed up
    (\<open>followed_place\<close>), the loop that rehashing and copying share; \<open>HashRehashIter\<close>: rehashing
    under iteration.
  \<^item> \<open>HashDup\<close>: \<open>zend_array_dup\<close> with its iterators, over a heap of tables and the references
    (\<open>gc_heap\<close>); \<open>HashDupSpec\<close>: what it copies (\<open>copied\<close>) and where the iterators go
    (\<open>iter_place\<close>), through the compaction of a mixed table with holes too. \<open>HashList\<close>: lists; \<open>HashIterSep\<close>: the position of an iterator with separation of the array.
  \<^item> \<open>ZendLlist\<close>: linked lists in a store of cells, \<open>zend_llist.c\<close>; the invariant \<open>llist_ok\<close>.
    \<open>ZendLlistSpec\<close>, \<open>ZendLlistSort\<close>: every operation against one on the sequence of data
    (\<open>contents\<close>); the locale \<open>cursor\<close> is the contract of a traversal, in either direction.
  \<^item> \<open>ZendStack\<close>, \<open>ZendPtrStack\<close>: the two stacks, with the invariants \<open>stack_ok\<close> and \<open>ptr_ok\<close>;
    the locale \<open>lifo\<close> is the contract they share.
  \<^item> \<open>GcTypes\<close>: nodes with count, colour and address, the entries of the root buffer, the
    globals. \<open>GcStack\<close>: the stack of segments; \<open>stacked\<close> is the list it stands for. \<open>GcRoots\<close>: the
    root buffer, from compressed addresses to compaction; \<open>GcRootsSpec\<close>: its invariant
    \<open>roots_ok\<close>, \<open>GcEntering\<close>: the entry points and the threshold, \<open>GcCompact\<close>: the two fingers.
  \<^item> \<open>GcTraverse\<close>, \<open>GcCollect\<close>: the four traversals and the phases of a run. \<open>GcGraph\<close>: the
    children of a node and what visiting them does; \<open>GcMark\<close>: the locale \<open>worklist\<close>, the contract
    that the steps of all four traversals fulfil, and marking; \<open>GcScan\<close>: scanning;
    \<open>GcGarbage\<close>, \<open>GcCollectSpec\<close>: collecting; \<open>GcCycles\<close>: the abstract view, in which \<open>garbage\<close>
    is the greatest set of candidates that holds all references to itself.
  \<^item> \<open>HashSamples\<close>, \<open>GcSamples\<close>: small tables and a small graph for the witnesses.
  \<^item> \<open>StringTheorems\<close>, \<open>TableTheorems\<close>, \<open>DeleteTheorems\<close>, \<open>WalkTheorems\<close>, \<open>DupTheorems\<close>,
    \<open>ListTheorems\<close>, \<open>SortTheorems\<close>, \<open>GcTheorems\<close>: the properties C1, C2, ... and their witnesses.
    \<open>Divergences\<close>: runs on which the code departs from itself.

  How the model reads. A C function is the definition of the same name (without a leading
  underscore); a loop is a recursive definition named in the comment beside it. A step that
  can go wrong returns \<open>error + 'a\<close>: \<open>FatalOverflow\<close> is the engine's fatal error, the other
  values mark undefined behaviour (an access out of bounds, a read of memory never written,
  a failed assertion, a loop that does not end, an access through a null or freed pointer,
  an overflow of an \<open>int\<close>), and the theorems show that they do not
  occur, except where a finding says so. Memory allocation succeeds and gives uninitialised
  cells. Values are kept at their width where wrapping matters; the model is of a 64-bit
  build. Destructors, copy constructors, reference counts of keys and the removal of a dying
  array from the collector's buffer are events in a log. Of the header of a table
  (\<open>zend_refcounted_h\<close>) the record has only whether it is persistent (\<open>f_persistent\<close>), which
  decides the path of its initialisation. The one \<open>va_list\<close> that
  \<open>zend_llist_apply_with_arguments\<close> passes to all calls is the list of the arguments that are
  left.

  Fuel. Chains are walked with the table's size plus one as fuel, which is enough because
  places fall strictly along a chain (\<open>find_in_slot_mixed\<close>). The iterator migration of a
  rehash or a copy has the place of the bucket plus one (\<open>migrate_ok\<close>, \<open>migrate_spec\<close>). The substring searches have
  the length of the haystack plus one, enough because every shift is at least one. A ring of
  iterator copies is walked with the size of the registry plus one (\<open>ring_exists\<close>). A linked
  list is walked with the number of addresses given out so far (\<open>length_le_brk\<close>). A traversal
  of the collector has the number of nodes plus one, because every step takes a node off the
  worklist and paints all it puts there (\<open>flood_step\<close>, \<open>scan.traverse_ok\<close>); the removal of nested
  data paints nothing and has its fuel as an argument.

  The collector. Pointers to nodes are indices into a store. The graph is well formed
  (\<open>graph_ok\<close>) when every pointer leads to a node, and a run starts (\<open>before_run\<close>) with a sound
  root buffer, only black and buffered purple nodes, and counts that cover the references of
  the graph; what else a count covers is held from outside. \<open>get_gc\<close> of an object is data of
  the node. The links of unused entries hold indices below \<open>2\<^sup>2\<^sup>9\<close>, half of the largest
  buffer, which the theorems assume and \<open>list_link_lost\<close> shows to be needed. Weak maps are in
  the definitions, but \<open>graph_ok\<close> excludes them from the theorems.

  Not modelled: the lock-step consistency checks of debug builds, memory allocation and the
  reference count of a table; of the collector the calls of destructors and \<open>free_obj\<close>, the
  fiber they run in, the rerun, and the search of the stack frames; the compiler, the virtual
  machine, and the function libraries; PROJECT.json lists them.
\<close>

end
